(* ===== verification/SyntaxNet_Prelude.thy ===== *)
theory SyntaxNet_Prelude
  imports Complex_Main "HOL-Library.Monad_Syntax" "HOL-Library.Word"
begin

text \<open>
  Shared vocabulary of the development.

  \<^item> A C++ call that may abort the process (a failed \<^verbatim>\<open>CHECK\<close>) or leave the defined
    behaviour of the language (a vector or a pointer accessed outside its range) has
    result type \<open>'a option\<close>: \<open>None\<close> is "the call does not return a value". A theorem that
    concludes \<open>\<dots> = Some x\<close> therefore also says that no \<^verbatim>\<open>CHECK\<close> fails on the way.
    \<^verbatim>\<open>DCHECK\<close> is compiled out of release builds and is not modelled as a test.
  \<^item> \<open>vec_at\<close> and \<open>vec_set\<close> are \<^verbatim>\<open>operator[]\<close> of \<^verbatim>\<open>std::vector\<close>, reading and writing.
  \<^item> \<open>wrap32\<close> reduces an integer to the range of a 32-bit two's complement \<^verbatim>\<open>int\<close>.
\<close>

named_theorems exec_simps \<open>unfolding of the checks and vector accesses\<close>

definition check :: "bool \<Rightarrow> unit option" where
  "check b = (if b then Some () else None)"

definition vec_at :: "'a list \<Rightarrow> int \<Rightarrow> 'a option" where
  "vec_at xs i = (if 0 \<le> i \<and> i < int (length xs) then Some (xs ! nat i) else None)"

definition vec_set :: "'a list \<Rightarrow> int \<Rightarrow> 'a \<Rightarrow> 'a list option" where
  "vec_set xs i v = (if 0 \<le> i \<and> i < int (length xs) then Some (xs[nat i := v]) else None)"

definition wrap32 :: "int \<Rightarrow> int" where
  "wrap32 x = signed_take_bit 31 x"

definition int32_range :: "int \<Rightarrow> bool" where
  "int32_range x \<longleftrightarrow> - (2 ^ 31) \<le> x \<and> x < 2 ^ 31"

text \<open>A \<^verbatim>\<open>for\<close> loop over known indices whose body may abort.\<close>

fun foreach :: "('i \<Rightarrow> 's \<Rightarrow> 's option) \<Rightarrow> 'i list \<Rightarrow> 's \<Rightarrow> 's option" where
  "foreach body [] s = Some s"
| "foreach body (i # is) s = do { s' \<leftarrow> body i s; foreach body is s' }"

text \<open>\<^verbatim>\<open>resize\<close> of a vector.\<close>

definition vec_resize :: "'a list \<Rightarrow> int \<Rightarrow> 'a \<Rightarrow> 'a list" where
  "vec_resize xs n v = take (nat n) xs @ replicate (nat n - length xs) v"

subsection \<open>Checks\<close>

lemma check_simps [simp, exec_simps]:
  "check True = Some ()"
  "check False = None"
  by (simp_all add: check_def)

lemma check_eq_Some [simp]: "check b = Some u \<longleftrightarrow> b"
  by (simp add: check_def)

lemma check_bind_eq_Some: "(check b \<bind> f) = Some y \<longleftrightarrow> b \<and> f () = Some y"
  by (simp add: check_def)

subsection \<open>Vectors\<close>

lemma vec_at_in [simp]: "0 \<le> i \<Longrightarrow> i < int (length xs) \<Longrightarrow> vec_at xs i = Some (xs ! nat i)"
  by (simp add: vec_at_def)

lemma vec_at_out: "\<not> (0 \<le> i \<and> i < int (length xs)) \<Longrightarrow> vec_at xs i = None"
  by (simp add: vec_at_def)

lemma vec_at_eq_Some:
  "vec_at xs i = Some v \<longleftrightarrow> 0 \<le> i \<and> i < int (length xs) \<and> v = xs ! nat i"
  by (auto simp: vec_at_def)

lemma vec_set_in [simp]:
  "0 \<le> i \<Longrightarrow> i < int (length xs) \<Longrightarrow> vec_set xs i v = Some (xs[nat i := v])"
  by (simp add: vec_set_def)

lemma vec_set_eq_Some:
  "vec_set xs i v = Some ys \<longleftrightarrow> 0 \<le> i \<and> i < int (length xs) \<and> ys = xs[nat i := v]"
  by (auto simp: vec_set_def)

lemma vec_set_get:
  "vec_set xs i v = Some ys \<Longrightarrow> vec_at ys j = (if j = i then Some v else vec_at xs j)"
  by (auto simp: vec_set_eq_Some vec_at_def nth_list_update)

lemma length_vec_resize [simp]: "length (vec_resize xs n v) = nat n"
  by (auto simp: vec_resize_def)

lemma count_list_flag: "i < length xs \<Longrightarrow> \<not> xs ! i \<Longrightarrow> count_list (xs[i := True]) False < count_list xs False"
proof (induction xs arbitrary: i)
  case (Cons x xs)
  then show ?case by (cases i) auto
qed simp

lemma foreach_append:
  "foreach body (is @ js) s = do { s' \<leftarrow> foreach body is s; foreach body js s' }"
  by (induction "is" arbitrary: s) (auto split: bind_splits)

text \<open>An invariant of a loop, indexed by the set of iterations that are done.\<close>

lemma foreach_invariant:
  assumes "P D s"
    and "\<And>D i s. i \<in> set is \<Longrightarrow> P D s \<Longrightarrow> \<exists>s'. body i s = Some s' \<and> P (insert i D) s'"
  shows "\<exists>s'. foreach body is s = Some s' \<and> P (D \<union> set is) s'"
  using assms
proof (induction "is" arbitrary: D s)
  case (Cons i "is")
  from Cons.prems(2) [of i D s] Cons.prems(1) obtain s1 where s1: "body i s = Some s1" "P (insert i D) s1" by auto
  from Cons.IH [OF s1(2)] Cons.prems(2) obtain s' where "foreach body is s1 = Some s'" "P (insert i D \<union> set is) s'" by auto
  with s1 show ?case by simp
qed simp

text \<open>A loop whose body rewrites the entry at the loop index computes a map.\<close>

lemma foreach_vec_update:
  assumes "\<And>i ts. i < length ts \<Longrightarrow> length ts = n \<Longrightarrow> body (int i) ts = Some (ts[i := f i (ts ! i)])"
    and "length ts = n" and "k \<le> n"
  shows "foreach body (map int [0..<k]) ts = Some (map (\<lambda>i. f i (ts ! i)) [0..<k] @ drop k ts)"
  using assms(3)
proof (induction k)
  case (Suc k)
  let ?ts = "map (\<lambda>i. f i (ts ! i)) [0..<k] @ drop k ts"
  have "body (int k) ?ts = Some (?ts[k := f k (?ts ! k)])"
    using assms(1) [of k ?ts] assms(2) Suc.prems by simp
  moreover have "?ts[k := f k (?ts ! k)] = map (\<lambda>i. f i (ts ! i)) [0..<Suc k] @ drop (Suc k) ts"
    using Suc.prems assms(2) by (simp add: list_update_append nth_append Cons_nth_drop_Suc [symmetric])
  ultimately show ?case using Suc by (simp add: foreach_append)
qed simp

lemma upto_map_int: "[0..int n - 1] = map int [0..<n]"
  by (induction n) (auto simp: upto_rec2)

lemma map_nth_upt: "map (\<lambda>i. f (xs ! i)) [0..<length xs] = map f xs"
  by (rule nth_equalityI) simp_all

text \<open>A loop that fills one component of a state entry by entry.\<close>

lemma foreach_fill:
  assumes "\<And>i g. i < n \<Longrightarrow> length g = n \<Longrightarrow> body (int i) (state g) = Some (state (g[i := v i]))"
    and "length g = n" and "k \<le> n"
  shows "foreach body (map int [0..<k]) (state g) = Some (state (map v [0..<k] @ drop k g))"
  using assms(3)
proof (induction k)
  case (Suc k)
  let ?g = "map v [0..<k] @ drop k g"
  have "?g[k := v k] = map v [0..<Suc k] @ drop (Suc k) g"
    using Suc.prems assms(2) by (simp add: list_update_append Cons_nth_drop_Suc [symmetric])
  moreover have "body (int k) (state ?g) = Some (state (?g[k := v k]))"
    using assms(1) [of k ?g] assms(2) Suc.prems by simp
  ultimately show ?case using Suc by (simp add: foreach_append)
qed simp

subsection \<open>Machine integers\<close>

lemma wrap32_id: "int32_range x \<Longrightarrow> wrap32 x = x"
  unfolding wrap32_def int32_range_def
  by (rule signed_take_bit_int_eq_self) simp_all

lemma wrap32_range: "int32_range (wrap32 x)"
  using signed_take_bit_int_greater_eq_minus_exp [of 31 x] signed_take_bit_int_less_exp [of 31 x]
  by (simp add: wrap32_def int32_range_def)

end
