(* ===== verification/Utils.thy ===== *)
theory Utils
  imports SyntaxNet_Prelude
begin

text \<open>
  The string helpers of \<^verbatim>\<open>syntaxnet/utils.h\<close> and \<^verbatim>\<open>syntaxnet/utils.cc\<close>: integer parsing
  (on a model of C's \<^verbatim>\<open>strtol\<close> with base 0), splitting and joining, escaping, paths,
  white space, the 32-bit Murmur-style hash, lower-casing, punctuation tests and digit
  normalisation. Strings are byte lists (\<open>char\<close> is a byte).

  Lemmas: printing and parsing of integers are inverse on the 32-bit range; \<open>Split\<close> and
  \<open>Join\<close> are inverse; \<open>Split\<close> on a delimiter never yields a piece that contains it;
  \<open>NormalizeDigits\<close> and \<open>Lowercase\<close> are idempotent; the escaped form of a string is
  printable ASCII and determines the string.
\<close>

unbundle bit_operations_syntax

subsection \<open>Characters of the C locale\<close>

abbreviation byte :: "char \<Rightarrow> nat" where
  "byte c \<equiv> of_char c"

definition isspace :: "char \<Rightarrow> bool" where
  "isspace c \<longleftrightarrow> byte c \<in> {9, 10, 11, 12, 13, 32}"

definition isdigit :: "char \<Rightarrow> bool" where
  "isdigit c \<longleftrightarrow> 48 \<le> byte c \<and> byte c \<le> 57"

definition isprint :: "char \<Rightarrow> bool" where
  "isprint c \<longleftrightarrow> 32 \<le> byte c \<and> byte c \<le> 126"

definition tolower :: "char \<Rightarrow> char" where
  "tolower c = (if 65 \<le> byte c \<and> byte c \<le> 90 then char_of (byte c + 32) else c)"

text \<open>The C string of a \<^verbatim>\<open>std::string\<close> ends at its first NUL byte.\<close>

definition c_str :: "string \<Rightarrow> string" where
  "c_str s = takeWhile (\<lambda>c. byte c \<noteq> 0) s"

subsection \<open>strtol and ParseInt32, ParseInt64\<close>

definition digit_value :: "char \<Rightarrow> nat" where
  "digit_value c =
     (let b = byte c in
      if 48 \<le> b \<and> b \<le> 57 then b - 48
      else if 97 \<le> b \<and> b \<le> 122 then b - 87
      else if 65 \<le> b \<and> b \<le> 90 then b - 55
      else 255)"

definition digits_value :: "nat \<Rightarrow> string \<Rightarrow> int" where
  "digits_value base ds = foldl (\<lambda>v c. v * int base + int (digit_value c)) 0 ds"

definition saturate64 :: "int \<Rightarrow> int" where
  "saturate64 v = max (- (2 ^ 63)) (min (2 ^ 63 - 1) v)"

text \<open>Base prefix of base 0: \<open>0x\<close> before a hexadecimal digit, a leading \<open>0\<close> for octal.\<close>

fun strtol_base :: "string \<Rightarrow> nat \<times> string" where
  "strtol_base (z # x # d # cs) =
     (if byte z = 48 \<and> (byte x = 120 \<or> byte x = 88) \<and> digit_value d < 16 then (16, d # cs)
      else if byte z = 48 then (8, z # x # d # cs) else (10, z # x # d # cs))"
| "strtol_base (z # cs) = (if byte z = 48 then (8, z # cs) else (10, z # cs))"
| "strtol_base [] = (10, [])"

fun strtol_sign :: "string \<Rightarrow> bool \<times> string" where
  "strtol_sign (c # cs) =
     (if byte c = 45 then (True, cs) else if byte c = 43 then (False, cs) else (False, c # cs))"
| "strtol_sign [] = (False, [])"

definition strtol :: "string \<Rightarrow> int \<times> string" where
  "strtol s =
     (let (neg, t) = strtol_sign (dropWhile isspace s);
          (base, u) = strtol_base t;
          ds = takeWhile (\<lambda>c. digit_value c < base) u
      in if ds = [] then (0, s)
         else (saturate64 (if neg then - digits_value base ds else digits_value base ds),
               drop (length ds) u))"

definition ParseInt32 :: "string \<Rightarrow> int \<times> bool" where
  "ParseInt32 s = (let (v, temp) = strtol (c_str s) in (wrap32 v, temp = []))"

definition ParseInt64 :: "string \<Rightarrow> int \<times> bool" where
  "ParseInt64 s = (let (v, temp) = strtol (c_str s) in (v, temp = []))"

definition ParseUsing :: "string \<Rightarrow> (string \<Rightarrow> 'a \<times> bool) \<Rightarrow> 'a option" where
  "ParseUsing str func = (let (value, ok) = func str in do { check ok; Some value })"

definition ParseUsing_default :: "string \<Rightarrow> 'a \<Rightarrow> (string \<Rightarrow> 'a \<times> bool) \<Rightarrow> 'a option" where
  "ParseUsing_default str defval func = (if str = [] then Some defval else ParseUsing str func)"

text \<open>Decimal printing, as \<^verbatim>\<open>StrCat\<close> and \<^verbatim>\<open>Printf("%d")\<close> do it.\<close>

fun show_nat :: "nat \<Rightarrow> string" where
  "show_nat n = (if n < 10 then [char_of (48 + n)] else show_nat (n div 10) @ [char_of (48 + n mod 10)])"

declare show_nat.simps [simp del]

definition show_int :: "int \<Rightarrow> string" where
  "show_int i = (if i < 0 then CHR ''-'' # show_nat (nat (- i)) else show_nat (nat i))"

subsection \<open>CEscape\<close>

definition hex_char :: "nat \<Rightarrow> char" where
  "hex_char i = ''0123456789abcdef'' ! i"

definition CEscape_char :: "char \<Rightarrow> string" where
  "CEscape_char c =
     (if c = CHR 0x0A then [CHR 0x5C, CHR ''n'']
      else if c = CHR 0x0D then [CHR 0x5C, CHR ''r'']
      else if c = CHR 0x09 then [CHR 0x5C, CHR ''t'']
      else if c = CHR 0x22 then [CHR 0x5C, CHR 0x22]
      else if c = CHR 0x27 then [CHR 0x5C, CHR 0x27]
      else if c = CHR 0x5C then [CHR 0x5C, CHR 0x5C]
      else if byte c \<ge> 128 \<or> \<not> isprint c
           then [CHR 0x5C, hex_char (byte c div 64), hex_char ((byte c mod 64) div 8),
                 hex_char (byte c mod 8)]
      else [c])"

definition CEscape :: "string \<Rightarrow> string" where
  "CEscape src = concat (map CEscape_char src)"

subsection \<open>Split, SplitOne, Join\<close>

text \<open>The loop of \<open>Split\<close>; \<open>cur\<close> is the text from \<^verbatim>\<open>token_start\<close> to the current position.\<close>

fun Split_loop :: "char \<Rightarrow> string \<Rightarrow> string \<Rightarrow> string list" where
  "Split_loop delim cur [] = [cur]"
| "Split_loop delim cur (c # cs) =
     (if c = delim then cur # Split_loop delim [] cs else Split_loop delim (cur @ [c]) cs)"

definition Split :: "string \<Rightarrow> char \<Rightarrow> string list" where
  "Split text delim = (if text \<noteq> [] then Split_loop delim [] text else [])"

definition SplitOne :: "string \<Rightarrow> char \<Rightarrow> string list" where
  "SplitOne text delim =
     (let split = length (takeWhile (\<lambda>c. c \<noteq> delim) text) in
      if split < length text then [take split text, drop (split + 1) text] else [text])"

fun Join_loop :: "string \<Rightarrow> bool \<Rightarrow> string \<Rightarrow> string list \<Rightarrow> string" where
  "Join_loop result first sep [] = result"
| "Join_loop result first sep (x # xs) =
     Join_loop (result @ (if first then [] else sep) @ x) False sep xs"

definition Join :: "string list \<Rightarrow> string \<Rightarrow> string" where
  "Join s sep = Join_loop [] True sep s"

subsection \<open>Paths and white space\<close>

definition IsAbsolutePath :: "string \<Rightarrow> bool" where
  "IsAbsolutePath path = (case path of [] \<Rightarrow> False | c # _ \<Rightarrow> c = CHR ''/'')"

fun JoinPath_loop :: "string \<Rightarrow> string list \<Rightarrow> string" where
  "JoinPath_loop result [] = result"
| "JoinPath_loop result (path # paths) =
     (if path = [] then JoinPath_loop result paths
      else if result = [] then JoinPath_loop path paths
      else if last result = CHR ''/'' then
        (if IsAbsolutePath path then JoinPath_loop (result @ tl path) paths
         else JoinPath_loop (result @ path) paths)
      else
        (if IsAbsolutePath path then JoinPath_loop (result @ path) paths
         else JoinPath_loop (result @ ''/'' @ path) paths))"

definition JoinPath :: "string list \<Rightarrow> string" where
  "JoinPath paths = JoinPath_loop [] paths"

definition RemoveLeadingWhitespace :: "string \<Rightarrow> nat \<times> string" where
  "RemoveLeadingWhitespace text =
     (let count = length (takeWhile isspace text) in (count, drop count text))"

definition RemoveTrailingWhitespace :: "string \<Rightarrow> nat \<times> string" where
  "RemoveTrailingWhitespace text =
     (let count = length (takeWhile isspace (rev text)) in (count, take (length text - count) text))"

definition RemoveWhitespaceContext :: "string \<Rightarrow> nat \<times> string" where
  "RemoveWhitespaceContext text =
     (let (l, t1) = RemoveLeadingWhitespace text;
          (r, t2) = RemoveTrailingWhitespace t1
      in (l + r, t2))"

subsection \<open>Hash32\<close>

definition ByteAs32 :: "char \<Rightarrow> 32 word" where
  "ByteAs32 c = of_nat (byte c) AND 0xff"

fun DecodeFixed32 :: "char \<Rightarrow> char \<Rightarrow> char \<Rightarrow> char \<Rightarrow> 32 word" where
  "DecodeFixed32 c0 c1 c2 c3 =
     of_nat (byte c0) OR push_bit 8 (of_nat (byte c1)) OR
     push_bit 16 (of_nat (byte c2)) OR push_bit 24 (of_nat (byte c3))"

definition hash_m :: "32 word" where
  "hash_m = 0x5bd1e995"

fun Hash32_loop :: "32 word \<Rightarrow> string \<Rightarrow> 32 word" where
  "Hash32_loop h (c0 # c1 # c2 # c3 # cs) =
     (let k = DecodeFixed32 c0 c1 c2 c3;
          k = k * hash_m;
          k = k XOR drop_bit 24 k;
          k = k * hash_m;
          h = h * hash_m
      in Hash32_loop (h XOR k) cs)"
| "Hash32_loop h [c0, c1, c2] =
     (((h XOR push_bit 16 (ByteAs32 c2)) XOR push_bit 8 (ByteAs32 c1)) XOR ByteAs32 c0) * hash_m"
| "Hash32_loop h [c0, c1] = ((h XOR push_bit 8 (ByteAs32 c1)) XOR ByteAs32 c0) * hash_m"
| "Hash32_loop h [c0] = (h XOR ByteAs32 c0) * hash_m"
| "Hash32_loop h [] = h"

definition Hash32 :: "string \<Rightarrow> 32 word \<Rightarrow> 32 word" where
  "Hash32 data seed =
     (let h = Hash32_loop (seed XOR of_nat (length data)) data;
          h = h XOR drop_bit 13 h;
          h = h * hash_m
      in h XOR drop_bit 15 h)"

subsection \<open>Lower case, punctuation, digits\<close>

definition Lowercase :: "string \<Rightarrow> string" where
  "Lowercase s = map tolower s"

definition IsPunctuationTag :: "string \<Rightarrow> bool" where
  "IsPunctuationTag tag = list_all (\<lambda>c. byte c \<in> {44, 58, 46, 39, 96}) tag"

definition IsPunctuationTagOrParens :: "string \<Rightarrow> bool" where
  "IsPunctuationTagOrParens tag \<longleftrightarrow>
     tag \<noteq> [] \<and> list_all (\<lambda>c. byte c \<in> {40, 41, 44, 58, 46, 39, 96}) tag"

definition NormalizeDigits :: "string \<Rightarrow> string" where
  "NormalizeDigits form = map (\<lambda>c. if isdigit c then CHR ''9'' else c) form"

subsection \<open>Printing and parsing integers\<close>

lemma digit_value_char [simp]: "d < 10 \<Longrightarrow> digit_value (char_of (48 + d)) = d"
  by (simp add: digit_value_def)

lemma digits_value_append:
  "digits_value b (xs @ [c]) = digits_value b xs * int b + int (digit_value c)"
  by (simp add: digits_value_def)

lemma show_nat_nonempty [simp]: "show_nat n \<noteq> []"
  by (subst show_nat.simps) simp

lemma show_nat_digits: "c \<in> set (show_nat n) \<Longrightarrow> 48 \<le> byte c \<and> byte c \<le> 57"
proof (induction n rule: show_nat.induct)
  case (1 n)
  then show ?case
    by (subst (asm) show_nat.simps) (auto split: if_splits)
qed

lemma digits_value_show_nat: "digits_value 10 (show_nat n) = int n"
proof (induction n rule: show_nat.induct)
  case (1 n)
  show ?case
  proof (cases "n < 10")
    case True
    then show ?thesis by (subst show_nat.simps) (simp add: digits_value_def)
  next
    case False
    then show ?thesis
      using 1 by (subst show_nat.simps) (simp add: digits_value_append zdiv_int zmod_int)
  qed
qed

lemma show_nat_hd: "0 < n \<Longrightarrow> byte (hd (show_nat n)) \<noteq> 48"
proof (induction n rule: show_nat.induct)
  case (1 n)
  show ?case
  proof (cases "n < 10")
    case True
    with 1 show ?thesis by (subst show_nat.simps) simp
  next
    case False
    with 1 have "byte (hd (show_nat (n div 10))) \<noteq> 48" by simp
    with False show ?thesis by (subst show_nat.simps) simp
  qed
qed

lemma takeWhile_digits_show_nat: "takeWhile (\<lambda>c. digit_value c < 10) (show_nat n) = show_nat n"
  by (rule takeWhile_eq_all_conv [THEN iffD2]) (auto dest: show_nat_digits simp: digit_value_def)

lemma strtol_base_show_nat: "0 < n \<Longrightarrow> strtol_base (show_nat n) = (10, show_nat n)"
  using show_nat_hd [of n] by (cases "show_nat n" rule: strtol_base.cases) auto

lemma strtol_show_nat_aux:
  "(let (base, u) = strtol_base (show_nat n); ds = takeWhile (\<lambda>c. digit_value c < base) u
    in (ds, digits_value base ds, drop (length ds) u)) = (show_nat n, int n, [])"
proof (cases "n = 0")
  case True
  then show ?thesis by (simp add: show_nat.simps [of 0] digit_value_def digits_value_def)
next
  case False
  then show ?thesis
    by (simp add: strtol_base_show_nat takeWhile_digits_show_nat digits_value_show_nat)
qed

lemma strtol_show_int: "strtol (show_int i) = (saturate64 i, [])"
proof (cases "i < 0")
  case True
  have "\<not> isspace (CHR ''-'')" by (simp add: isspace_def)
  with True strtol_show_nat_aux [of "nat (- i)"] show ?thesis
    using show_nat_nonempty [of "nat (- i)", symmetric]
    by (auto simp: strtol_def show_int_def Let_def split: prod.splits)
next
  case False
  obtain c cs where s: "show_nat (nat i) = c # cs" by (meson neq_Nil_conv show_nat_nonempty)
  then have "48 \<le> byte c" "byte c \<le> 57" using show_nat_digits [of c "nat i"] by auto
  then have c: "\<not> isspace c" "byte c \<noteq> 45" "byte c \<noteq> 43" by (auto simp: isspace_def)
  with s have "strtol_sign (dropWhile isspace (show_nat (nat i))) = (False, show_nat (nat i))"
    by simp
  with False strtol_show_nat_aux [of "nat i"] show ?thesis
    using show_nat_nonempty [of "nat i", symmetric]
    by (auto simp: strtol_def show_int_def Let_def split: prod.splits)
qed

lemma c_str_show_int: "c_str (show_int i) = show_int i"
  unfolding c_str_def show_int_def
  by (rule takeWhile_eq_all_conv [THEN iffD2]) (auto dest: show_nat_digits split: if_splits)

lemma ParseInt32_show_int: "int32_range i \<Longrightarrow> ParseInt32 (show_int i) = (i, True)"
  by (simp add: ParseInt32_def c_str_show_int strtol_show_int wrap32_id saturate64_def int32_range_def)

subsection \<open>Splitting and joining\<close>

lemma Split_loop_Nil: "Split_loop d cur xs \<noteq> []"
  by (induction d cur xs rule: Split_loop.induct) auto

lemma Join_loop_False: "Join_loop r False sep xs = r @ concat (map (\<lambda>x. sep @ x) xs)"
  by (induction xs arbitrary: r) auto

lemma Join_simps [simp]:
  "Join [] sep = []"
  "Join [x] sep = x"
  "Join (x # y # ys) sep = x @ sep @ Join (y # ys) sep"
  by (simp_all add: Join_def Join_loop_False)

lemma Join_Split_loop: "Join (Split_loop d cur xs) [d] = cur @ xs"
proof (induction d cur xs rule: Split_loop.induct)
  case (2 d cur c cs)
  obtain y ys where "Split_loop d [] cs = y # ys"
    using Split_loop_Nil by (meson neq_Nil_conv)
  with 2 show ?case by auto
qed simp

lemma Join_Split: "Join (Split text d) [d] = text"
  by (simp add: Split_def Join_Split_loop)

lemma Split_loop_append:
  "d \<notin> set x \<Longrightarrow> Split_loop d cur (x @ d # rest) = (cur @ x) # Split_loop d [] rest"
  by (induction x arbitrary: cur) auto

lemma Split_loop_free: "d \<notin> set x \<Longrightarrow> Split_loop d cur x = [cur @ x]"
  by (induction x arbitrary: cur) auto

lemma Split_loop_Join:
  "xs \<noteq> [] \<Longrightarrow> \<forall>x \<in> set xs. d \<notin> set x \<Longrightarrow> Split_loop d [] (Join xs [d]) = xs"
proof (induction xs)
  case (Cons x xs)
  then show ?case by (cases xs) (auto simp: Split_loop_append Split_loop_free)
qed simp

lemma Join_eq_Nil: "Join xs [d] = [] \<longleftrightarrow> xs = [] \<or> xs = [[]]"
  by (cases xs rule: remdups_adj.cases) auto

lemma Split_Join:
  "xs \<noteq> [[]] \<Longrightarrow> \<forall>x \<in> set xs. d \<notin> set x \<Longrightarrow> Split (Join xs [d]) d = xs"
  by (auto simp: Split_def Split_loop_Join Join_eq_Nil)

lemma Split_loop_no_delim:
  "d \<notin> set cur \<Longrightarrow> x \<in> set (Split_loop d cur xs) \<Longrightarrow> d \<notin> set x"
  by (induction d cur xs rule: Split_loop.induct) (auto split: if_splits)

lemma Split_no_delim: "x \<in> set (Split text d) \<Longrightarrow> d \<notin> set x"
  using Split_loop_no_delim [of d "[]" x "text"] by (simp add: Split_def split: if_splits)

subsection \<open>Normalisation\<close>

lemma NormalizeDigits_idem: "NormalizeDigits (NormalizeDigits s) = NormalizeDigits s"
  by (simp add: NormalizeDigits_def)

lemma tolower_idem: "tolower (tolower c) = tolower c"
  by (simp add: tolower_def)


subsection \<open>Escaping\<close>

lemma byte_div_64: "byte c div 64 < 4"
  by (rule less_mult_imp_div_less) simp

lemma byte_hex_char: "i < 8 \<Longrightarrow> byte (hex_char i) = 48 + i"
proof -
  assume "i < 8"
  then have "i = 0 \<or> i = 1 \<or> i = 2 \<or> i = 3 \<or> i = 4 \<or> i = 5 \<or> i = 6 \<or> i = 7" by arith
  then show ?thesis by (elim disjE) (simp_all add: hex_char_def)
qed

lemma hex_char_neq:
  assumes "i < 8"
  shows "hex_char i \<noteq> CHR ''n''" "hex_char i \<noteq> CHR ''r''" "hex_char i \<noteq> CHR ''t''"
    "hex_char i \<noteq> CHR 0x22" "hex_char i \<noteq> CHR 0x27" "hex_char i \<noteq> CHR 0x5C"
  using byte_hex_char [OF assms] assms by auto

lemma octal_digits: "(n::nat) = 64 * (n div 64) + 8 * (n mod 64 div 8) + n mod 8"
proof -
  have "n mod 64 mod 8 = n mod 8" by (simp add: mod_mod_cancel)
  then show ?thesis
    using div_mult_mod_eq [of n 64] div_mult_mod_eq [of "n mod 64" 8] by linarith
qed

lemma CEscape_octal_eq:
  assumes "hex_char (byte c div 64) = hex_char (byte d div 64)"
    and "hex_char (byte c mod 64 div 8) = hex_char (byte d mod 64 div 8)"
    and "hex_char (byte c mod 8) = hex_char (byte d mod 8)"
  shows "c = d"
proof -
  have lt: "byte x div 64 < 8" "byte x mod 64 div 8 < 8" "byte x mod 8 < 8" for x
    using byte_div_64 [of x] by auto
  have "byte c div 64 = byte d div 64" "byte c mod 64 div 8 = byte d mod 64 div 8"
    "byte c mod 8 = byte d mod 8"
    using assms [THEN arg_cong [where f = byte]] by (simp_all add: byte_hex_char lt)
  then have "byte c = byte d"
    using octal_digits [of "byte c"] octal_digits [of "byte d"] by linarith
  then show ?thesis by simp
qed

lemma CEscape_char_prefix_free:
  assumes "CEscape_char c @ xs = CEscape_char d @ ys"
  shows "c = d \<and> xs = ys"
proof -
  have lt: "byte x div 64 < 8" for x :: char using byte_div_64 [of x] by simp
  note neq = hex_char_neq [OF lt]
  show ?thesis
    using assms unfolding CEscape_char_def
    by (auto simp: neq neq [symmetric] split: if_splits dest: CEscape_octal_eq)
qed

lemma CEscape_inj: "CEscape s = CEscape t \<Longrightarrow> s = t"
proof (induction s arbitrary: t)
  case Nil
  then show ?case by (cases t) (auto simp: CEscape_def CEscape_char_def split: if_splits)
next
  case (Cons c s)
  then obtain d t' where t: "t = d # t'"
    by (cases t) (auto simp: CEscape_def CEscape_char_def split: if_splits)
  with Cons.prems have "CEscape_char c @ CEscape s = CEscape_char d @ CEscape t'"
    by (simp add: CEscape_def)
  then show ?case using Cons.IH t CEscape_char_prefix_free by blast
qed

lemma CEscape_printable: "x \<in> set (CEscape s) \<Longrightarrow> isprint x"
proof -
  have oct: "byte (hex_char (byte c div 64)) = 48 + byte c div 64"
    "byte (hex_char (byte c mod 64 div 8)) = 48 + byte c mod 64 div 8"
    "byte (hex_char (byte c mod 8)) = 48 + byte c mod 8" "byte c div 64 < 8" "byte c mod 64 div 8 < 8" "byte c mod 8 < 8" for c
    using byte_div_64 [of c] by (simp_all add: byte_hex_char)
  have "\<forall>x \<in> set (CEscape_char c). isprint x" for c
    using oct [of c] by (simp add: CEscape_char_def isprint_def) linarith
  then show "x \<in> set (CEscape s) \<Longrightarrow> isprint x" by (auto simp: CEscape_def)
qed

subsection \<open>Punctuation ranges\<close>

definition kPunctuation :: "(int \<times> int) list" where
  "kPunctuation = [
     (33, 35), (37, 42), (44, 47), (58, 59), (63, 64), (91, 93),
     (95, 95), (123, 123), (125, 125), (161, 161), (171, 171), (183, 183),
     (187, 187), (191, 191), (894, 894), (903, 903), (1370, 1375), (1417, 1418),
     (1470, 1470), (1472, 1472), (1475, 1475), (1478, 1478), (1523, 1524), (1548, 1549),
     (1563, 1563), (1566, 1567), (1642, 1645), (1748, 1748), (1792, 1805), (2404, 2405),
     (2416, 2416), (3572, 3572), (3663, 3663), (3674, 3675), (3844, 3858), (3898, 3901),
     (3973, 3973), (4048, 4049), (4170, 4175), (4347, 4347), (4961, 4968), (5741, 5742),
     (5787, 5788), (5867, 5869), (5941, 5942), (6100, 6102), (6104, 6106), (6144, 6154),
     (6468, 6469), (6622, 6623), (6686, 6687), (8208, 8231), (8240, 8259), (8261, 8273),
     (8275, 8286), (8317, 8318), (8333, 8334), (9001, 9002), (9140, 9142), (10088, 10101),
     (10181, 10182), (10214, 10219), (10627, 10648), (10712, 10715), (10748, 10749), (11513, 11516),
     (11518, 11519), (11776, 11799), (11804, 11805), (12289, 12291), (12296, 12305), (12308, 12319),
     (12336, 12336), (12349, 12349), (12448, 12448), (12539, 12539), (64830, 64831), (65040, 65049),
     (65072, 65106), (65108, 65121), (65123, 65123), (65128, 65128), (65130, 65131), (65281, 65283),
     (65285, 65290), (65292, 65295), (65306, 65307), (65311, 65312), (65339, 65341), (65343, 65343),
     (65371, 65371), (65373, 65373), (65375, 65381), (65792, 65793), (66463, 66463), (68176, 68184),
     (-1, -1)]"

text \<open>The scan of the table; it ends at the entry whose first bound is not positive.\<close>

fun IsPunctuation_loop :: "(int \<times> int) list \<Rightarrow> int \<Rightarrow> bool option" where
  "IsPunctuation_loop [] u = None"
| "IsPunctuation_loop ((a, b) # table) u =
     (if a > 0 then
        if u < a then Some False else if u \<le> b then Some True else IsPunctuation_loop table u
      else Some False)"

definition IsPunctuation :: "int \<Rightarrow> bool option" where
  "IsPunctuation u = IsPunctuation_loop kPunctuation u"

fun ranges_ok :: "int \<Rightarrow> (int \<times> int) list \<Rightarrow> bool" where
  "ranges_ok lo [] \<longleftrightarrow> True"
| "ranges_ok lo ((a, b) # table) \<longleftrightarrow> lo < a \<and> a \<le> b \<and> ranges_ok b table"

lemma ranges_ok_above: "ranges_ok lo table \<Longrightarrow> (a, b) \<in> set table \<Longrightarrow> lo < a"
  by (induction lo table rule: ranges_ok.induct) fastforce+

lemma IsPunctuation_loop_ranges:
  assumes "ranges_ok lo table" and "0 \<le> lo"
  shows "IsPunctuation_loop (table @ [(-1, -1)]) u = Some (\<exists>(a, b) \<in> set table. a \<le> u \<and> u \<le> b)"
  using assms
proof (induction lo table rule: ranges_ok.induct)
  case (2 lo a b table)
  then have "\<forall>(a', b') \<in> set table. b < a'" using ranges_ok_above by fastforce
  with 2 show ?case by fastforce
qed simp

lemma kPunctuation_ok: "ranges_ok 0 (butlast kPunctuation)"
  by (simp add: kPunctuation_def)

lemma kPunctuation_end: "kPunctuation = butlast kPunctuation @ [(-1, -1)]"
  by (simp add: kPunctuation_def)

text \<open>
  \<open>IsPunctuation\<close> stops within the table and is true exactly of the code points that lie in one
  of its ranges: the early exit on a larger lower bound misses no range.
\<close>

theorem IsPunctuation_ranges:
  "IsPunctuation u = Some (\<exists>(a, b) \<in> set (butlast kPunctuation). a \<le> u \<and> u \<le> b)"
  unfolding IsPunctuation_def using IsPunctuation_loop_ranges [OF kPunctuation_ok, of u] kPunctuation_end by simp

subsection \<open>The contracts of the text utilities\<close>

text \<open>
  \<open>ParseInt32\<close> reads back every 32-bit integer that was printed in decimal, and reports
  success.
\<close>

theorem parse_print_int32:
  assumes "int32_range i"
  shows "ParseInt32 (show_int i) = (i, True)"
  using ParseInt32_show_int [OF assms] .

theorem parse_print_int32_witness:
  "int32_range (-120) \<and> show_int (-120) = ''-120'' \<and>
   ParseInt32 (show_int (-120)) = (-120, True)"
proof -
  have "show_int (-120) = ''-120''" by code_simp
  moreover have "int32_range (-120)" by (simp add: int32_range_def)
  ultimately show ?thesis using parse_print_int32 [of "-120"] by blast
qed

text \<open>
  Splitting and joining at a character are inverse: joining the parts of any text gives the
  text back, no part contains the delimiter, and splitting a joined list of fields without
  the delimiter gives the list back (except for the list of one empty field).
\<close>

theorem split_join:
  "Join (Split txt d) [d] = txt \<and> (\<forall>x \<in> set (Split txt d). d \<notin> set x) \<and>
   (xs \<noteq> [[]] \<longrightarrow> (\<forall>x \<in> set xs. d \<notin> set x) \<longrightarrow> Split (Join xs [d]) d = xs)"
  using Join_Split Split_no_delim Split_Join by blast

theorem split_join_witness:
  "Split (Join [''a'', [], ''b''] '','') (CHR '','') = [''a'', [], ''b''] \<and>
   Split ''a,,b'' (CHR '','') = [''a'', [], ''b'']"
proof -
  have "Split ''a,,b'' (CHR '','') = [''a'', [], ''b'']" by code_simp
  then show ?thesis using split_join [of "''a,,b''" "CHR '',''" "[''a'', [], ''b'']"] by simp
qed

text \<open>
  \<open>CEscape\<close> is injective and its output consists of printable ASCII characters only.
\<close>

theorem CEscape_unambiguous:
  "(CEscape s = CEscape t \<longrightarrow> s = t) \<and> (\<forall>c \<in> set (CEscape s). isprint c)"
  using CEscape_inj CEscape_printable by blast

theorem CEscape_unambiguous_witness:
  "CEscape [CHR 0x0A, CHR 0x07, CHR ''1''] = [CHR 0x5C, CHR ''n'', CHR 0x5C, CHR ''0'', CHR ''0'', CHR ''7'', CHR ''1''] \<and>
   list_all isprint (CEscape [CHR 0x0A, CHR 0x07, CHR ''1''])"
proof -
  have "CEscape [CHR 0x0A, CHR 0x07, CHR ''1''] =
      [CHR 0x5C, CHR ''n'', CHR 0x5C, CHR ''0'', CHR ''0'', CHR ''7'', CHR ''1'']" by code_simp
  then show ?thesis using CEscape_unambiguous [of "[CHR 0x0A, CHR 0x07, CHR ''1'']"]
    by (simp add: list_all_iff)
qed

end
