(* ===== verification/Line_Reader.thy ===== *)
theory Line_Reader
  imports SyntaxNet_Prelude
begin

text \<open>
  Reading a file line by line, as \<^verbatim>\<open>tensorflow::io::BufferedInputStream::ReadLine\<close>
  (vendored under \<^verbatim>\<open>src/tensorflow\<close>) does it. A file is the string of its bytes; the stream is
  the part that is not read yet. The buffering is not visible to the caller and is not
  modelled: a read that finds no byte left is the end of the file.

  \<open>ReadLine\<close> returns whether the status is OK, the line, and the rest of the stream.
\<close>

fun ReadLine_loop :: "string \<Rightarrow> string \<Rightarrow> bool \<times> string \<times> string" where
  "ReadLine_loop result [] = (result \<noteq> [], result, [])"
| "ReadLine_loop result (c # cs) =
     (if c = CHR 0x0A then (True, result, cs)
      else if c \<noteq> CHR 0x0D then ReadLine_loop (result @ [c]) cs
      else ReadLine_loop result cs)"

definition ReadLine :: "string \<Rightarrow> bool \<times> string \<times> string" where
  "ReadLine stream = ReadLine_loop [] stream"

definition line_safe :: "string \<Rightarrow> bool" where
  "line_safe l \<longleftrightarrow> CHR 0x0A \<notin> set l \<and> CHR 0x0D \<notin> set l"

lemma line_safe_append [simp]: "line_safe (xs @ ys) \<longleftrightarrow> line_safe xs \<and> line_safe ys"
  by (auto simp: line_safe_def)

lemma line_safe_Cons [simp]:
  "line_safe (c # xs) \<longleftrightarrow> c \<noteq> CHR 0x0A \<and> c \<noteq> CHR 0x0D \<and> line_safe xs"
  by (auto simp: line_safe_def)

lemma line_safe_Nil [simp]: "line_safe []"
  by (simp add: line_safe_def)

lemma ReadLine_loop_line:
  "line_safe l \<Longrightarrow> ReadLine_loop r (l @ CHR 0x0A # rest) = (True, r @ l, rest)"
  by (induction l arbitrary: r) auto

lemma ReadLine_line: "line_safe l \<Longrightarrow> ReadLine (l @ CHR 0x0A # rest) = (True, l, rest)"
  by (simp add: ReadLine_def ReadLine_loop_line)

lemma ReadLine_Nil [simp]: "ReadLine [] = (False, [], [])"
  by (simp add: ReadLine_def)

lemma ReadLine_loop_shorter:
  "ReadLine_loop r s = (ok, l, rest) \<Longrightarrow> length rest \<le> length s \<and> (s \<noteq> [] \<longrightarrow> length rest < length s)"
  by (induction r s rule: ReadLine_loop.induct) (auto split: if_splits)

lemma ReadLine_shorter:
  "ReadLine s = (True, l, rest) \<Longrightarrow> length rest < length s"
  using ReadLine_loop_shorter [of "[]" s True l rest] by (cases s) (auto simp: ReadLine_def)

lemma ReadLine_measure:
  "(ok, l, rest) = ReadLine s \<Longrightarrow> length rest \<le> length s \<and> (ok \<longrightarrow> length rest < length s)"
  using ReadLine_shorter [of s l rest] ReadLine_loop_shorter [of "[]" s ok l rest] by (auto simp: ReadLine_def)

end
