(* ===== verification/Term_Frequency_Map.thy ===== *)
theory Term_Frequency_Map
  imports Utils Line_Reader "HOL-Library.AList" "HOL-Library.Char_ord"
    "HOL-Library.List_Lexorder" "HOL-Library.Product_Lexorder" "HOL-Library.Multiset"
begin

text \<open>
  \<^verbatim>\<open>syntaxnet/term_frequency_map.{h,cc}\<close>: the class \<^verbatim>\<open>TermFrequencyMap\<close> (terms, their indices and
  their frequencies, with \<^verbatim>\<open>Save\<close> and \<^verbatim>\<open>TryLoad\<close>) and the class \<^verbatim>\<open>TagToCategoryMap\<close>. The hash
  table from terms to indices is an association list with distinct keys; files are strings
  read with \<open>ReadLine\<close>. The regular expression library is not part of the repository: the
  match of a line against \<^verbatim>\<open>(.*) (\d*)\<close> is the parameter \<open>re\<close>.

  Lemmas: the invariant \<open>tfm_inv\<close> (the two tables describe the same bijection between terms and
  indices) holds of the empty map and is kept by \<open>Increment\<close> and \<open>TryLoad\<close>; the interface
  \<open>dictionary\<close> states the laws that clients rely on; counting a corpus; a saved map is
  loaded back, sorted by frequency.
\<close>

record term_frequency_map =
  term_index :: "(string \<times> int) list"
  term_data :: "(string \<times> int) list"

definition empty_tfm :: term_frequency_map where
  "empty_tfm = \<lparr>term_index = [], term_data = []\<rparr>"

definition Size :: "term_frequency_map \<Rightarrow> int" where
  "Size m = int (length (term_index m))"

definition LookupIndex :: "term_frequency_map \<Rightarrow> string \<Rightarrow> int \<Rightarrow> int" where
  "LookupIndex m t unknown =
     (case map_of (term_index m) t of Some i \<Rightarrow> i | None \<Rightarrow> unknown)"

definition GetTerm :: "term_frequency_map \<Rightarrow> int \<Rightarrow> string option" where
  "GetTerm m index = map_option fst (vec_at (term_data m) index)"

definition GetFrequency :: "term_frequency_map \<Rightarrow> int \<Rightarrow> int option" where
  "GetFrequency m index = map_option snd (vec_at (term_data m) index)"

definition Increment :: "term_frequency_map \<Rightarrow> string \<Rightarrow> (int \<times> term_frequency_map) option" where
  "Increment m t = do {
     check (length (term_index m) = length (term_data m));
     case map_of (term_index m) t of
       Some i \<Rightarrow> do {
         data \<leftarrow> vec_at (term_data m) i;
         check (t = fst data);
         data1 \<leftarrow> vec_set (term_data m) i (fst data, snd data + 1);
         Some (i, m\<lparr>term_data := data1\<rparr>) }
     | None \<Rightarrow> do {
         let index = int (length (term_index m));
         check (index < 2 ^ 31 - 1);
         Some (index, m\<lparr>term_index := (t, index) # term_index m,
                        term_data := term_data m @ [(t, 1)]\<rparr>) } }"

definition Clear :: "term_frequency_map \<Rightarrow> term_frequency_map" where
  "Clear m = m\<lparr>term_index := [], term_data := []\<rparr>"

text \<open>The status of \<open>TryLoad\<close>; the number is the line named in the message.\<close>

datatype load_status =
    LoadOK
  | FileError
  | ReadError
  | BadSize
  | NegativeSize int
  | BadLine nat
  | EmptyTerm nat
  | BadFrequency nat
  | NonDescending nat
  | DuplicateTerm nat
  | SizeMismatch

type_synonym line_match = "string \<Rightarrow> (string \<times> int) option"

text \<open>\<open>k\<close> is the number of iterations that are left, \<open>i\<close> the loop counter.\<close>

fun TryLoad_loop ::
  "line_match \<Rightarrow> int \<Rightarrow> nat \<Rightarrow> nat \<Rightarrow> int \<Rightarrow> string \<Rightarrow> term_frequency_map
     \<Rightarrow> load_status \<times> term_frequency_map" where
  "TryLoad_loop re min_frequency 0 i last_frequency buffer m =
     (if length (term_index m) \<noteq> length (term_data m) then (SizeMismatch, m) else (LoadOK, m))"
| "TryLoad_loop re min_frequency (Suc k) i last_frequency buffer m =
     (case ReadLine buffer of (ok, line, buffer') \<Rightarrow>
        if \<not> ok then (ReadError, m)
        else (case re line of
          None \<Rightarrow> (BadLine (i + 1), m)
        | Some (t, frequency) \<Rightarrow>
            if t = [] then (EmptyTerm (i + 1), m)
            else if frequency \<le> 0 then (BadFrequency (i + 1), m)
            else if i > 0 \<and> last_frequency < frequency then (NonDescending (i + 1), m)
            else if frequency < min_frequency
                 then TryLoad_loop re min_frequency k (i + 1) frequency buffer' m
            else if map_of (term_index m) t \<noteq> None then (DuplicateTerm (i + 1), m)
            else TryLoad_loop re min_frequency k (i + 1) frequency buffer'
                   (m\<lparr>term_index := (t, int (length (term_index m))) # term_index m,
                      term_data := term_data m @ [(t, frequency)]\<rparr>)))"

definition TryLoad ::
  "line_match \<Rightarrow> string option \<Rightarrow> int \<Rightarrow> int \<Rightarrow> term_frequency_map
     \<Rightarrow> load_status \<times> term_frequency_map" where
  "TryLoad re file min_frequency max_num_terms m0 =
     (let m = Clear m0;
          max_num_terms = (if max_num_terms \<le> 0 then 2 ^ 31 - 1 else max_num_terms)
      in case file of
           None \<Rightarrow> (FileError, m)
         | Some contents \<Rightarrow>
             (case ReadLine contents of (ok, line, buffer) \<Rightarrow>
                if \<not> ok then (ReadError, m)
                else (case ParseInt32 line of (total_terms, parsed) \<Rightarrow>
                  if \<not> parsed then (BadSize, m)
                  else if total_terms < 0 then (NegativeSize total_terms, m)
                  else TryLoad_loop re min_frequency (nat (min total_terms max_num_terms)) 0 (-1)
                         buffer m)))"

definition Load ::
  "line_match \<Rightarrow> string option \<Rightarrow> int \<Rightarrow> int \<Rightarrow> term_frequency_map \<Rightarrow> term_frequency_map option" where
  "Load re file min_frequency max_num_terms m =
     (case TryLoad re file min_frequency max_num_terms m of (status, m') \<Rightarrow>
        do { check (status = LoadOK); Some m' })"

text \<open>
  \<open>SortByFrequencyThenTerm\<close> is the strict order of the keys \<open>(- frequency, term)\<close>; sorting
  with a strict total order has one result, so \<^verbatim>\<open>std::sort\<close> is \<open>sort_key\<close>.
\<close>

definition SortByFrequencyThenTerm :: "string \<times> int \<Rightarrow> string \<times> int \<Rightarrow> bool" where
  "SortByFrequencyThenTerm a b \<longleftrightarrow> snd a > snd b \<or> (snd a = snd b \<and> fst a < fst b)"

definition sorted_term_data :: "(string \<times> int) list \<Rightarrow> (string \<times> int) list" where
  "sorted_term_data = sort_key (\<lambda>(t, f). (- f, t))"

definition term_line :: "string \<times> int \<Rightarrow> string" where
  "term_line d = fst d @ '' '' @ show_int (snd d) @ [CHR 0x0A]"

definition Save :: "term_frequency_map \<Rightarrow> string option" where
  "Save m = do {
     check (length (term_index m) = length (term_data m));
     let sorted_data = sorted_term_data (term_data m);
     check (int (length (term_index m)) \<le> 2 ^ 31 - 1);
     let header = show_int (int (length (term_index m))) @ [CHR 0x0A];
     check (sorted_wrt (\<lambda>a b. snd a \<ge> snd b) sorted_data);
     Some (header @ concat (map term_line sorted_data)) }"

subsection \<open>TagToCategoryMap\<close>

record tag_to_category_map =
  invalid_mappings :: "(string \<times> string list) list"
  tag_to_category :: "(string \<times> string) list"

definition empty_tag_map :: tag_to_category_map where
  "empty_tag_map = \<lparr>invalid_mappings = [], tag_to_category = []\<rparr>"

text \<open>The constructor reads the whole file; a line that is not two fields aborts.\<close>

function TagToCategoryMap_loop :: "string \<Rightarrow> tag_to_category_map \<Rightarrow> tag_to_category_map option" where
  "TagToCategoryMap_loop buffer m =
     (case ReadLine buffer of (ok, line, buffer') \<Rightarrow>
        if \<not> ok then Some m
        else do {
          let pair = Split line (CHR 0x09);
          check (line = [] \<or> length pair = 2);
          k \<leftarrow> vec_at pair 0;
          v \<leftarrow> vec_at pair 1;
          TagToCategoryMap_loop buffer' (m\<lparr>tag_to_category := AList.update k v (tag_to_category m)\<rparr>) })"
  by pat_completeness auto
termination
  by (relation "measure (length \<circ> fst)") (auto dest!: sym [THEN ReadLine_shorter])

definition TagToCategoryMap :: "string \<Rightarrow> tag_to_category_map option" where
  "TagToCategoryMap contents = TagToCategoryMap_loop contents empty_tag_map"

definition GetCategory :: "tag_to_category_map \<Rightarrow> string \<Rightarrow> string option" where
  "GetCategory m tag = map_of (tag_to_category m) tag"

text \<open>\<^verbatim>\<open>invalid_mappings_[tag].insert(c)\<close> on a set kept as a list without duplicates.\<close>

definition insert_invalid :: "string \<Rightarrow> string \<Rightarrow> (string \<times> string list) list \<Rightarrow> (string \<times> string list) list" where
  "insert_invalid tag c im =
     AList.update tag (List.insert c (case map_of im tag of Some cs \<Rightarrow> cs | None \<Rightarrow> [])) im"

definition SetCategory :: "tag_to_category_map \<Rightarrow> string \<Rightarrow> string \<Rightarrow> tag_to_category_map" where
  "SetCategory m tag category =
     (case map_of (tag_to_category m) tag of
        Some c \<Rightarrow>
          if category \<noteq> c
          then m\<lparr>invalid_mappings := insert_invalid tag category (insert_invalid tag c (invalid_mappings m))\<rparr>
          else m
      | None \<Rightarrow> m\<lparr>tag_to_category := AList.update tag category (tag_to_category m)\<rparr>)"

text \<open>\<^verbatim>\<open>std::map\<close> iterates in the order of its keys.\<close>

definition TagToCategoryMap_Save :: "tag_to_category_map \<Rightarrow> string" where
  "TagToCategoryMap_Save m =
     concat (map (\<lambda>(k, v). k @ [CHR 0x09] @ v @ [CHR 0x0A])
       (sort_key fst (tag_to_category m)))"

subsection \<open>The invariant and the dictionary interface\<close>

definition tfm_inv :: "term_frequency_map \<Rightarrow> bool" where
  "tfm_inv m \<longleftrightarrow>
     distinct (map fst (term_index m)) \<and> distinct (map fst (term_data m)) \<and>
     set (term_index m) = set (zip (map fst (term_data m)) (map int [0..<length (term_data m)]))"

text \<open>What a client may rely on: indices \<open>0 .. size - 1\<close> name the entries, up to an equivalence.\<close>

locale dictionary =
  fixes dsize :: "'m \<Rightarrow> int"
    and lookup :: "'m \<Rightarrow> 'k \<Rightarrow> int \<Rightarrow> int"
    and entry :: "'m \<Rightarrow> int \<Rightarrow> 'k option"
    and same :: "'k \<Rightarrow> 'k \<Rightarrow> bool"
    and dinv :: "'m \<Rightarrow> bool"
  assumes same_equiv: "equivp same"
    and lookup_entry:
      "dinv m \<Longrightarrow> 0 \<le> i \<Longrightarrow> i < dsize m \<Longrightarrow>
         \<exists>k. entry m i = Some k \<and> (\<forall>k' u. same k' k \<longrightarrow> lookup m k' u = i)"
    and lookup_known:
      "dinv m \<Longrightarrow> lookup m k u \<noteq> u \<Longrightarrow>
         0 \<le> lookup m k u \<and> lookup m k u < dsize m \<and> (\<exists>k'. entry m (lookup m k u) = Some k' \<and> same k k')"
begin

lemma lookup_range: "dinv m \<Longrightarrow> lookup m k u = u \<or> (0 \<le> lookup m k u \<and> lookup m k u < dsize m)"
  using lookup_known by blast

lemma lookup_same_iff:
  assumes inv: "dinv m" and known: "lookup m k u \<noteq> u"
  shows "lookup m k' u = lookup m k u \<longleftrightarrow> same k' k"
proof -
  obtain e where e: "entry m (lookup m k u) = Some e" "same k e"
    using lookup_known [OF inv known] by blast
  show ?thesis
  proof
    assume eq: "lookup m k' u = lookup m k u"
    then obtain e' where "entry m (lookup m k u) = Some e'" "same k' e'"
      using lookup_known [OF inv, of k' u] known by auto
    with e(1) have "same k' e" by simp
    from equivp_transp [OF same_equiv this equivp_symp [OF same_equiv e(2)]]
    show "same k' k" .
  next
    assume "same k' k"
    then have "same k' e" by (rule equivp_transp [OF same_equiv _ e(2)])
    moreover obtain e' where "entry m (lookup m k u) = Some e'"
        and "\<forall>k' v. same k' e' \<longrightarrow> lookup m k' v = lookup m k u"
      using lookup_entry [OF inv, of "lookup m k u"] lookup_known [OF inv known] by blast
    ultimately show "lookup m k' u = lookup m k u" using e(1) by (metis option.inject)
  qed
qed

lemma entry_inj:
  assumes "dinv m" "0 \<le> i" "i < dsize m" "0 \<le> j" "j < dsize m"
    and "entry m i = Some k" "entry m j = Some k'" "same k k'"
  shows "i = j"
proof -
  have "lookup m k 0 = i" using lookup_entry [of m i] assms same_equiv by (auto simp: equivp_reflp)
  moreover have "lookup m k 0 = j" using lookup_entry [of m j] assms by auto
  ultimately show ?thesis by simp
qed

end

lemma tfm_inv_empty: "tfm_inv empty_tfm"
  by (simp add: tfm_inv_def empty_tfm_def)

lemma tfm_inv_length: "tfm_inv m \<Longrightarrow> length (term_index m) = length (term_data m)"
proof -
  assume inv: "tfm_inv m"
  let ?z = "zip (map fst (term_data m)) (map int [0..<length (term_data m)])"
  have "distinct (term_index m)" using inv by (simp add: tfm_inv_def distinct_map)
  moreover have "distinct ?z" using inv by (intro distinct_zipI1) (simp add: tfm_inv_def)
  moreover have "set (term_index m) = set ?z" using inv by (simp add: tfm_inv_def)
  ultimately have "length (term_index m) = length ?z" by (metis distinct_card)
  then show ?thesis by simp
qed

lemma set_zip_positions:
  "set (zip (map fst d) (map int [0..<length d])) = {(fst (d ! i), int i) | i. i < length d}"
proof -
  have "set (zip (map fst d) (map int [0..<length d]))
      = (\<lambda>i. (map fst d ! i, map int [0..<length d] ! i)) ` {..<length d}"
    by (auto simp: set_zip simp del: nth_map)
  also have "\<dots> = (\<lambda>i. (fst (d ! i), int i)) ` {..<length d}"
    by (rule image_cong) auto
  finally show ?thesis by auto
qed

lemma tfm_index_iff:
  assumes "tfm_inv m"
  shows "map_of (term_index m) t = Some j \<longleftrightarrow>
     (\<exists>i < length (term_data m). j = int i \<and> fst (term_data m ! i) = t)"
proof -
  have "map_of (term_index m) t = Some j \<longleftrightarrow> (t, j) \<in> set (term_index m)"
    using assms by (simp add: tfm_inv_def)
  also have "\<dots> \<longleftrightarrow> (\<exists>i < length (term_data m). j = int i \<and> fst (term_data m ! i) = t)"
    using assms by (auto simp: tfm_inv_def set_zip_positions)
  finally show ?thesis .
qed

lemma tfm_index_None:
  assumes "tfm_inv m"
  shows "map_of (term_index m) t = None \<longleftrightarrow> t \<notin> fst ` set (term_data m)"
proof -
  have "map_of (term_index m) t \<noteq> None \<longleftrightarrow> (\<exists>i < length (term_data m). fst (term_data m ! i) = t)"
    using tfm_index_iff [OF assms, of t] by auto
  also have "\<dots> \<longleftrightarrow> t \<in> fst ` set (term_data m)"
    by (auto simp: set_conv_nth)
  finally show ?thesis by blast
qed

lemma tfm_Size: "tfm_inv m \<Longrightarrow> Size m = int (length (term_data m))"
  by (simp add: Size_def tfm_inv_length)

lemma tfm_lookup_index:
  "tfm_inv m \<Longrightarrow> i < length (term_data m) \<Longrightarrow> LookupIndex m (fst (term_data m ! i)) u = int i"
  using tfm_index_iff [of m "fst (term_data m ! i)" "int i"] by (auto simp: LookupIndex_def)

interpretation tfm: dictionary Size LookupIndex GetTerm "(=)" tfm_inv
proof unfold_locales
  show "equivp ((=) :: string \<Rightarrow> string \<Rightarrow> bool)" by (rule identity_equivp)
  show "\<exists>k. GetTerm m i = Some k \<and> (\<forall>k' u. k' = k \<longrightarrow> LookupIndex m k' u = i)"
    if "tfm_inv m" "0 \<le> i" "i < Size m" for m i
    using that tfm_lookup_index [of m "nat i"] by (auto simp: GetTerm_def tfm_Size)
  show "0 \<le> LookupIndex m k u \<and> LookupIndex m k u < Size m \<and>
      (\<exists>k'. GetTerm m (LookupIndex m k u) = Some k' \<and> k = k')"
    if inv: "tfm_inv m" and known: "LookupIndex m k u \<noteq> u" for m k u
  proof -
    obtain j where j: "map_of (term_index m) k = Some j"
      using known by (auto simp: LookupIndex_def split: option.splits)
    then obtain i where "i < length (term_data m)" "j = int i" "fst (term_data m ! i) = k"
      using tfm_index_iff [OF inv] by blast
    with j inv show ?thesis by (simp add: LookupIndex_def GetTerm_def tfm_Size)
  qed
qed

subsection \<open>Increment\<close>

lemma zip_upt_snoc:
  "zip (xs @ [x]) (map int [0..<Suc (length xs)]) = zip xs (map int [0..<length xs]) @ [(x, int (length xs))]"
  by simp

lemma tfm_inv_insert:
  assumes "tfm_inv m" and "map_of (term_index m) t = None"
  shows "tfm_inv (m\<lparr>term_index := (t, int (length (term_index m))) # term_index m,
                    term_data := term_data m @ [(t, f)]\<rparr>)"
  using assms tfm_index_None [OF assms(1), of t] tfm_inv_length [OF assms(1)]
  by (auto simp: tfm_inv_def map_of_eq_None_iff)

lemma tfm_inv_update:
  assumes "tfm_inv m" and "i < length (term_data m)" and "fst (term_data m ! i) = t"
  shows "tfm_inv (m\<lparr>term_data := (term_data m)[i := (t, f)]\<rparr>)"
proof -
  have "map fst ((term_data m)[i := (t, f)]) = map fst (term_data m)"
    using assms(2,3) by (metis fst_conv list_update_id map_update nth_map)
  with assms(1) show ?thesis by (simp add: tfm_inv_def)
qed

text \<open>The frequencies a map represents, and the effect of \<open>Increment\<close> on them.\<close>

definition frequencies :: "term_frequency_map \<Rightarrow> (string \<rightharpoonup> int)" where
  "frequencies m = map_of (term_data m)"

lemma map_of_list_update:
  assumes "distinct (map fst xs)" and "i < length xs" and "fst (xs ! i) = t"
  shows "map_of (xs[i := (t, f)]) = (map_of xs)(t \<mapsto> f)"
  using assms
proof (induction xs arbitrary: i)
  case (Cons x xs)
  show ?case
  proof (cases i)
    case 0
    with Cons.prems show ?thesis by (cases x) (auto simp: fun_eq_iff)
  next
    case (Suc j)
    with Cons.prems(2,3) have "t \<in> fst ` set xs" by auto
    with Cons.prems(1) have "fst x \<noteq> t" by (metis distinct.simps(2) list.map(2) list.set_map)
    with Cons Suc show ?thesis by (cases x) (auto simp: fun_eq_iff)
  qed
qed simp

lemma map_of_snoc_new: "t \<notin> fst ` set xs \<Longrightarrow> [t \<mapsto> f] ++ map_of xs = (map_of xs)(t \<mapsto> f)"
  by (auto simp: fun_eq_iff map_add_def map_of_eq_None_iff [symmetric] split: option.splits)

lemma Increment_spec:
  assumes inv: "tfm_inv m" and sz: "Size m < 2 ^ 31 - 1"
  shows "\<exists>m'. Increment m t = Some (LookupIndex m t (Size m), m') \<and> tfm_inv m' \<and>
           LookupIndex m' t (-1) = LookupIndex m t (Size m) \<and>
           frequencies m' = (frequencies m)(t \<mapsto> (case frequencies m t of None \<Rightarrow> 1 | Some f \<Rightarrow> f + 1)) \<and>
           Size m' = (if t \<in> dom (frequencies m) then Size m else Size m + 1)"
proof (cases "map_of (term_index m) t")
  case None
  let ?m = "m\<lparr>term_index := (t, int (length (term_index m))) # term_index m,
               term_data := term_data m @ [(t, 1)]\<rparr>"
  have new: "t \<notin> fst ` set (term_data m)" using None tfm_index_None [OF inv] by simp
  then have "map_of (term_data m) t = None" by (simp add: map_of_eq_None_iff)
  moreover have "Increment m t = Some (Size m, ?m)"
    using None sz tfm_inv_length [OF inv] by (simp add: Increment_def Size_def Let_def)
  ultimately show ?thesis
    using None new tfm_inv_insert [OF inv None, of 1]
    by (auto simp: LookupIndex_def frequencies_def map_of_snoc_new Size_def)
next
  case (Some j)
  then obtain i where i: "i < length (term_data m)" "j = int i" "fst (term_data m ! i) = t"
    using tfm_index_iff [OF inv] by blast
  let ?f = "snd (term_data m ! i)"
  let ?m = "m\<lparr>term_data := (term_data m)[i := (t, ?f + 1)]\<rparr>"
  have d: "distinct (map fst (term_data m))" using inv by (simp add: tfm_inv_def)
  have "map_of (term_data m) t = Some ?f"
    using d i by (metis map_of_eq_Some_iff nth_mem prod.collapse)
  moreover have "Increment m t = Some (j, ?m)"
    using Some i tfm_inv_length [OF inv] by (simp add: Increment_def)
  ultimately show ?thesis
    using Some tfm_inv_update [OF inv i(1,3), of "?f + 1"] map_of_list_update [OF d i(1,3)]
    by (auto simp: LookupIndex_def frequencies_def Size_def)
qed


subsection \<open>Counting a corpus\<close>

fun count_terms :: "term_frequency_map \<Rightarrow> string list \<Rightarrow> term_frequency_map option" where
  "count_terms m [] = Some m"
| "count_terms m (w # ws) = do { (_, m') \<leftarrow> Increment m w; count_terms m' ws }"

definition freq_of :: "term_frequency_map \<Rightarrow> string \<Rightarrow> int" where
  "freq_of m t = (case frequencies m t of None \<Rightarrow> 0 | Some f \<Rightarrow> f)"

lemma frequencies_lookup:
  assumes inv: "tfm_inv m"
  shows "frequencies m t =
    (if LookupIndex m t (-1) = -1 then None else GetFrequency m (LookupIndex m t (-1)))"
proof (cases "map_of (term_index m) t")
  case None
  then have "frequencies m t = None"
    using tfm_index_None [OF inv, of t] by (simp add: frequencies_def map_of_eq_None_iff)
  with None show ?thesis by (simp add: LookupIndex_def)
next
  case (Some j)
  then obtain i where i: "i < length (term_data m)" "j = int i" "fst (term_data m ! i) = t"
    using tfm_index_iff [OF inv] by blast
  then have "map_of (term_data m) t = Some (snd (term_data m ! i))"
    using inv by (metis map_of_eq_Some_iff nth_mem prod.collapse tfm_inv_def)
  with Some i show ?thesis by (simp add: LookupIndex_def frequencies_def GetFrequency_def)
qed

lemma count_terms_spec:
  assumes "tfm_inv m" and "Size m + int (length ws) < 2 ^ 31"
  shows "\<exists>m'. count_terms m ws = Some m' \<and> tfm_inv m' \<and>
    (\<forall>t. freq_of m' t = freq_of m t + int (count_list ws t)) \<and>
    dom (frequencies m') = dom (frequencies m) \<union> set ws"
  using assms
proof (induction ws arbitrary: m)
  case Nil
  then show ?case by auto
next
  case (Cons w ws)
  then have "Size m < 2 ^ 31 - 1" by simp
  from Increment_spec [OF Cons.prems(1) this, of w] obtain m1 where
    m1: "Increment m w = Some (LookupIndex m w (Size m), m1)" "tfm_inv m1"
      "frequencies m1 = (frequencies m)(w \<mapsto> (case frequencies m w of None \<Rightarrow> 1 | Some f \<Rightarrow> f + 1))"
      "Size m1 = (if w \<in> dom (frequencies m) then Size m else Size m + 1)"
    by blast
  then have "Size m1 + int (length ws) < 2 ^ 31" using Cons.prems(2) by (auto split: if_splits)
  from Cons.IH [OF m1(2) this] m1(1) obtain m' where
    m': "count_terms m (w # ws) = Some m'" "tfm_inv m'"
      "\<forall>t. freq_of m' t = freq_of m1 t + int (count_list ws t)"
      "dom (frequencies m') = dom (frequencies m1) \<union> set ws"
    by auto
  moreover have "freq_of m1 t = freq_of m t + (if t = w then 1 else 0)" for t
    using m1(3) by (auto simp: freq_of_def split: option.splits)
  moreover have "dom (frequencies m1) = insert w (dom (frequencies m))" using m1(3) by simp
  ultimately show ?case by auto
qed


subsection \<open>Saving and loading\<close>

definition savable :: "line_match \<Rightarrow> string \<times> int \<Rightarrow> bool" where
  "savable re d \<longleftrightarrow>
     fst d \<noteq> [] \<and> 0 < snd d \<and> line_safe (fst d) \<and> re (fst d @ '' '' @ show_int (snd d)) = Some d"

lemma line_safe_show_int: "line_safe (show_int i)"
proof -
  have "c \<noteq> CHR 0x0A \<and> c \<noteq> CHR 0x0D" if "c \<in> set (show_nat n)" for c n
    using show_nat_digits [OF that] by auto
  then show ?thesis by (auto simp: line_safe_def show_int_def)
qed

lemma TryLoad_loop_lines:
  assumes "tfm_inv m" and "\<forall>d \<in> set ds. savable re d"
    and "sorted_wrt (\<lambda>a b. snd a \<ge> snd b) ds" and "distinct (map fst (term_data m) @ map fst ds)"
    and "\<forall>d \<in> set ds. 0 < i \<longrightarrow> snd d \<le> last_frequency"
  shows "\<exists>m'. TryLoad_loop re min_frequency (length ds) i last_frequency
             (concat (map term_line ds) @ rest) m = (LoadOK, m') \<and>
           tfm_inv m' \<and> term_data m' = term_data m @ filter (\<lambda>d. min_frequency \<le> snd d) ds"
  using assms
proof (induction ds arbitrary: m i last_frequency)
  case Nil
  then show ?case by (simp add: tfm_inv_length)
next
  case (Cons d ds)
  obtain t f where d: "d = (t, f)" by (cases d)
  have sv: "t \<noteq> []" "0 < f" "line_safe t" "re (t @ '' '' @ show_int f) = Some (t, f)"
    using Cons.prems(2) d by (auto simp: savable_def)
  have line: "ReadLine (concat (map term_line (d # ds)) @ rest)
      = (True, t @ '' '' @ show_int f, concat (map term_line ds) @ rest)"
    using ReadLine_line [of "t @ '' '' @ show_int f" "concat (map term_line ds) @ rest"] sv(3)
    by (simp add: d term_line_def line_safe_show_int)
  have last: "\<not> (0 < i \<and> last_frequency < f)" using Cons.prems(5) d by auto
  have le: "\<forall>e \<in> set ds. 0 < Suc i \<longrightarrow> snd e \<le> f" using Cons.prems(3) d by auto
  have ds: "\<forall>e \<in> set ds. savable re e" "sorted_wrt (\<lambda>a b. snd a \<ge> snd b) ds"
    using Cons.prems(2,3) by auto
  show ?case
  proof (cases "f < min_frequency")
    case True
    then show ?thesis
      using Cons.IH [OF Cons.prems(1) ds, of "Suc i" f] Cons.prems(4) le line sv last d by simp
  next
    case False
    have new: "map_of (term_index m) t = None"
      using tfm_index_None [OF Cons.prems(1), of t] Cons.prems(4) d by auto
    let ?m = "m\<lparr>term_index := (t, int (length (term_index m))) # term_index m,
                 term_data := term_data m @ [(t, f)]\<rparr>"
    have "distinct (map fst (term_data ?m) @ map fst ds)" using Cons.prems(4) d by auto
    from Cons.IH [OF tfm_inv_insert [OF Cons.prems(1) new] ds this le] False line sv last new d
    show ?thesis by simp
  qed
qed

lemma sorted_term_data_desc: "sorted_wrt (\<lambda>a b. snd a \<ge> snd b) (sorted_term_data ds)"
proof -
  have "sorted (map (\<lambda>(t, f). (- f, t)) (sorted_term_data ds))"
    by (simp add: sorted_term_data_def)
  then show ?thesis
    unfolding sorted_map by (rule sorted_wrt_mono_rel [rotated]) (auto simp: less_eq_prod_def split: prod.splits)
qed

lemma mset_sorted_term_data [simp]: "mset (sorted_term_data ds) = mset ds"
  by (simp add: sorted_term_data_def)

lemma set_sorted_term_data [simp]: "set (sorted_term_data ds) = set ds"
  by (simp add: sorted_term_data_def)

lemma length_sorted_term_data [simp]: "length (sorted_term_data ds) = length ds"
  by (simp add: sorted_term_data_def)

lemma distinct_sorted_term_data: "distinct (map fst (sorted_term_data ds)) \<longleftrightarrow> distinct (map fst ds)"
  by (metis mset_map mset_sorted_term_data mset_eq_imp_distinct_iff)

lemma Save_some:
  assumes "tfm_inv m" and "Size m \<le> 2 ^ 31 - 1"
  shows "Save m = Some (show_int (Size m) @ CHR 0x0A # concat (map term_line (sorted_term_data (term_data m))))"
  using assms tfm_inv_length [OF assms(1)] sorted_term_data_desc
  by (simp add: Save_def Size_def Let_def)

lemma Save_TryLoad:
  assumes inv: "tfm_inv m" and sz: "Size m \<le> 2 ^ 31 - 1" and sv: "\<forall>d \<in> set (term_data m). savable re d"
  shows "\<exists>file m'. Save m = Some file \<and> TryLoad re (Some file) min_frequency max_num_terms m0 = (LoadOK, m') \<and>
    tfm_inv m' \<and>
    term_data m' = filter (\<lambda>d. min_frequency \<le> snd d)
      (take (if max_num_terms \<le> 0 then length (term_data m) else nat max_num_terms)
        (sorted_term_data (term_data m)))"
proof -
  let ?ds = "sorted_term_data (term_data m)"
  let ?n = "if max_num_terms \<le> 0 then length (term_data m) else nat max_num_terms"
  let ?max = "if max_num_terms \<le> 0 then 2 ^ 31 - 1 else max_num_terms"
  have k: "nat (min (Size m) ?max) = length (take ?n ?ds)"
    using sz by (auto simp: tfm_Size [OF inv])
  have split: "concat (map term_line ?ds) =
      concat (map term_line (take ?n ?ds)) @ concat (map term_line (drop ?n ?ds))"
    by (metis append_take_drop_id concat_append map_append)
  have ok: "\<forall>d \<in> set (take ?n ?ds). savable re d"
    using sv by (metis in_set_takeD set_sorted_term_data)
  have srt: "sorted_wrt (\<lambda>a b. snd a \<ge> snd b) (take ?n ?ds)"
    using sorted_term_data_desc by (rule sorted_wrt_take)
  have dst: "distinct (map fst (term_data empty_tfm) @ map fst (take ?n ?ds))"
    using inv distinct_sorted_term_data [of "term_data m"]
    by (simp add: tfm_inv_def empty_tfm_def take_map [symmetric] distinct_take)
  from TryLoad_loop_lines [OF tfm_inv_empty ok srt dst, of 0 "-1" min_frequency] obtain m' where
    m': "TryLoad_loop re min_frequency (length (take ?n ?ds)) 0 (-1) (concat (map term_line ?ds)) empty_tfm
        = (LoadOK, m')" "tfm_inv m'" "term_data m' = filter (\<lambda>d. min_frequency \<le> snd d) (take ?n ?ds)"
    unfolding split by (auto simp: empty_tfm_def)
  have "ReadLine (show_int (Size m) @ CHR 0x0A # concat (map term_line ?ds))
      = (True, show_int (Size m), concat (map term_line ?ds))"
    by (rule ReadLine_line) (rule line_safe_show_int)
  moreover have "ParseInt32 (show_int (Size m)) = (Size m, True)"
    using sz by (intro ParseInt32_show_int) (simp add: int32_range_def Size_def)
  moreover have "Clear m0 = empty_tfm" by (simp add: Clear_def empty_tfm_def)
  moreover have "0 \<le> Size m" by (simp add: Size_def)
  ultimately have "TryLoad re (Some (show_int (Size m) @ CHR 0x0A # concat (map term_line ?ds)))
      min_frequency max_num_terms m0 = (LoadOK, m')"
    using m'(1) k by (simp add: TryLoad_def Let_def del: length_take)
  with Save_some [OF inv sz] m'(2,3) show ?thesis by blast
qed

subsection \<open>The contracts of counting, saving and loading\<close>

text \<open>
  Counting a corpus with \<open>Increment\<close>, starting from the empty map, never fails a \<^verbatim>\<open>CHECK\<close>
  while the number of words fits an \<^verbatim>\<open>int32\<close>, and afterwards \<open>LookupIndex\<close> and \<open>GetFrequency\<close>
  give for each word of the corpus the number of its occurrences, and for no other word an
  index; the map keeps its invariant.
\<close>

theorem count_corpus:
  assumes "int (length ws) < 2 ^ 31"
  shows "\<exists>m. count_terms empty_tfm ws = Some m \<and> tfm_inv m \<and>
    (\<forall>w. (LookupIndex m w (-1) = -1 \<longleftrightarrow> w \<notin> set ws) \<and>
      (w \<in> set ws \<longrightarrow> GetFrequency m (LookupIndex m w (-1)) = Some (int (count_list ws w))))"
proof -
  have "Size empty_tfm + int (length ws) < 2 ^ 31" using assms by (simp add: Size_def empty_tfm_def)
  from count_terms_spec [OF tfm_inv_empty this] obtain m where
    m: "count_terms empty_tfm ws = Some m" "tfm_inv m"
      "\<forall>t. freq_of m t = freq_of empty_tfm t + int (count_list ws t)"
      "dom (frequencies m) = dom (frequencies empty_tfm) \<union> set ws"
    by blast
  have e: "frequencies empty_tfm = Map.empty" by (simp add: frequencies_def empty_tfm_def)
  have "frequencies m w = (if w \<in> set ws then Some (int (count_list ws w)) else None)" for w
    using m(3,4) unfolding e freq_of_def by (cases "frequencies m w") (auto split: option.splits)
  moreover have "LookupIndex m w (-1) \<noteq> -1 \<Longrightarrow> GetFrequency m (LookupIndex m w (-1)) \<noteq> None" for w
    using tfm.lookup_known [OF m(2), of w "-1"] by (auto simp: GetTerm_def GetFrequency_def)
  ultimately show ?thesis
    using m(1,2) frequencies_lookup [OF m(2)] by (metis option.distinct(1))
qed

theorem count_corpus_witness:
  "\<exists>m. count_terms empty_tfm [''a'', ''b'', ''a''] = Some m \<and>
     GetFrequency m (LookupIndex m ''a'' (-1)) = Some 2 \<and> LookupIndex m ''c'' (-1) = -1"
  using count_corpus [of "[''a'', ''b'', ''a'']"] by auto

text \<open>
  C27: A frequency map that is saved and then loaded, with any thresholds, is loaded without
  error and holds exactly the entries of the saved map in descending order of frequency, the
  first \<open>max_num_terms\<close> of them, less those below \<open>min_frequency\<close>. The hypothesis on \<open>re\<close> is
  that the regular expression \<^verbatim>\<open>(.*) (\d*)\<close> splits a written line into term and frequency.
\<close>

theorem save_load:
  assumes "tfm_inv m" and "Size m \<le> 2 ^ 31 - 1" and "\<forall>d \<in> set (term_data m). savable re d"
  shows "\<exists>file m'. Save m = Some file \<and>
    TryLoad re (Some file) min_frequency max_num_terms m0 = (LoadOK, m') \<and> tfm_inv m' \<and>
    term_data m' = filter (\<lambda>d. min_frequency \<le> snd d)
      (take (if max_num_terms \<le> 0 then length (term_data m) else nat max_num_terms)
        (sorted_term_data (term_data m)))"
  using Save_TryLoad [OF assms] .

text \<open>A matcher for \<^verbatim>\<open>(.*) (\d*)\<close>: the frequency follows the last blank of the line.\<close>

definition match_last_blank :: line_match where
  "match_last_blank line =
     (let r = rev line; ds = rev (takeWhile (\<lambda>c. c \<noteq> CHR '' '') r); rest = dropWhile (\<lambda>c. c \<noteq> CHR '' '') r
      in case rest of [] \<Rightarrow> None
         | _ # t \<Rightarrow> if list_all isdigit ds then Some (rev t, digits_value 10 ds) else None)"

definition two_terms :: term_frequency_map where
  "two_terms = \<lparr>term_index = [(''a b'', 0), (''c'', 1)], term_data = [(''a b'', 7), (''c'', 12)]\<rparr>"

theorem save_load_witness:
  "\<exists>file m'. Save two_terms = Some file \<and> TryLoad match_last_blank (Some file) 0 0 empty_tfm = (LoadOK, m') \<and>
     term_data m' = [(''c'', 12), (''a b'', 7)]"
proof -
  have inv: "tfm_inv two_terms" by (auto simp: tfm_inv_def two_terms_def)
  have hyp: "Size two_terms \<le> 2 ^ 31 - 1" "\<forall>d \<in> set (term_data two_terms). savable match_last_blank d"
    by code_simp+
  have "sorted_term_data (term_data two_terms) = [(''c'', 12), (''a b'', 7)]" by code_simp
  then show ?thesis using save_load [OF inv hyp, of 0 0 empty_tfm] by (auto simp: two_terms_def)
qed

end
