(* ===== verification/Sentence_Model.thy ===== *)
theory Sentence_Model
  imports SyntaxNet_Prelude
begin

text \<open>
  The messages of \<^verbatim>\<open>syntaxnet/sentence.proto\<close>, as the C++ code sees them through the generated
  accessors. A \<^verbatim>\<open>Token\<close> is a record; \<open>tok_head_opt\<close> keeps the presence bit of the field
  \<^verbatim>\<open>head\<close>, because the code distinguishes \<^verbatim>\<open>set_head\<close> from \<^verbatim>\<open>clear_head\<close>, and \<open>tok_head\<close> is the
  accessor with the default \<^verbatim>\<open>-1\<close>. The optional string fields are read only through
  accessors whose default is the empty string, so they are plain strings. The extension
  \<^verbatim>\<open>TokenMorphology\<close> is the list of its attributes.
\<close>

datatype break_level = NO_BREAK | SPACE_BREAK | LINE_BREAK | SENTENCE_BREAK

type_synonym token_morphology = "(string \<times> string) list"

record token =
  tok_word :: string
  tok_start :: int
  tok_end :: int
  tok_head_opt :: "int option"
  tok_tag :: string
  tok_category :: string
  tok_label :: string
  tok_break_level :: break_level
  tok_morphology :: token_morphology

record sentence =
  sent_docid :: string
  sent_text :: string
  sent_token :: "token list"

definition default_token :: token where
  "default_token =
     \<lparr>tok_word = [], tok_start = 0, tok_end = 0, tok_head_opt = None, tok_tag = [],
      tok_category = [], tok_label = [], tok_break_level = SPACE_BREAK, tok_morphology = []\<rparr>"

definition tok_head :: "token \<Rightarrow> int" where
  "tok_head t = (case tok_head_opt t of None \<Rightarrow> -1 | Some h \<Rightarrow> h)"

definition set_head :: "int \<Rightarrow> token \<Rightarrow> token" where
  "set_head h t = t\<lparr>tok_head_opt := Some h\<rparr>"

definition clear_head :: "token \<Rightarrow> token" where
  "clear_head t = t\<lparr>tok_head_opt := None\<rparr>"

definition token_size :: "sentence \<Rightarrow> int" where
  "token_size s = int (length (sent_token s))"

definition sent_token_at :: "sentence \<Rightarrow> int \<Rightarrow> token option" where
  "sent_token_at s i = vec_at (sent_token s) i"

definition set_token :: "sentence \<Rightarrow> int \<Rightarrow> token \<Rightarrow> sentence option" where
  "set_token s i t = do { ts \<leftarrow> vec_set (sent_token s) i t; Some (s\<lparr>sent_token := ts\<rparr>) }"

definition heads :: "sentence \<Rightarrow> int list" where
  "heads s = map tok_head (sent_token s)"

lemma tok_head_set_head [simp]: "tok_head (set_head h t) = h"
  by (simp add: tok_head_def set_head_def)

lemma tok_head_clear_head [simp]: "tok_head (clear_head t) = -1"
  by (simp add: tok_head_def clear_head_def)

lemma tok_label_set_head [simp]: "tok_label (set_head h t) = tok_label t"
  by (simp add: set_head_def)

lemma tok_label_clear_head [simp]: "tok_label (clear_head t) = tok_label t"
  by (simp add: clear_head_def)

lemma tok_head_label_update [simp]: "tok_head (t\<lparr>tok_label := l\<rparr>) = tok_head t"
  by (simp add: tok_head_def)

lemma length_heads [simp]: "length (heads s) = length (sent_token s)"
  by (simp add: heads_def)

lemma token_size_nonneg [simp]: "0 \<le> token_size s"
  by (simp add: token_size_def)

lemma sent_token_at_in:
  "0 \<le> i \<Longrightarrow> i < token_size s \<Longrightarrow> sent_token_at s i = Some (sent_token s ! nat i)"
  by (simp add: sent_token_at_def token_size_def)

text \<open>A loop that rewrites each token in place.\<close>

lemma foreach_token_update:
  assumes "\<And>i d. i < n \<Longrightarrow> length (sent_token d) = n \<Longrightarrow>
      body (int i) d = set_token d (int i) (f i (sent_token d ! i))"
    and "length (sent_token d) = n" and "k \<le> n"
  shows "foreach body (map int [0..<k]) d =
    Some (d\<lparr>sent_token := map (\<lambda>i. f i (sent_token d ! i)) [0..<k] @ drop k (sent_token d)\<rparr>)"
  using assms(3)
proof (induction k)
  case (Suc k)
  let ?ts = "map (\<lambda>i. f i (sent_token d ! i)) [0..<k] @ drop k (sent_token d)"
  have "body (int k) (d\<lparr>sent_token := ?ts\<rparr>) = Some (d\<lparr>sent_token := ?ts[k := f k (?ts ! k)]\<rparr>)"
    using assms(1) [of k "d\<lparr>sent_token := ?ts\<rparr>"] assms(2) Suc.prems by (simp add: set_token_def)
  moreover have "?ts[k := f k (?ts ! k)] = map (\<lambda>i. f i (sent_token d ! i)) [0..<Suc k] @ drop (Suc k) (sent_token d)"
    using Suc.prems assms(2) by (simp add: list_update_append nth_append Cons_nth_drop_Suc [symmetric])
  ultimately show ?case using Suc by (simp add: foreach_append)
qed simp

end
