(* ===== verification/Parser_State.thy ===== *)
theory Parser_State
  imports Term_Frequency_Map Sentence_Model
begin

text \<open>
  \<^verbatim>\<open>syntaxnet/parser_state.{h,cc}\<close>: the configuration of a transition-based parser. The class
  is the record \<open>parser_state\<close>; its field \<open>ps_transition_state\<close> has the type of the state that
  a transition system adds (\<^verbatim>\<open>ParserTransitionState*\<close>, \<open>None\<close> for the null pointer), so the record
  is polymorphic in it. \<open>ps_stack\<close> lists the stack in the order of the vector, top last. Token
  indices are integers; \<^verbatim>\<open>-1\<close> is the artificial root and \<^verbatim>\<open>-2\<close> is the answer "no such
  token" of the feature accessors.

  Lemmas: \<open>ps_wf\<close> (sizes and bounds agree with the sentence) holds of a new state and is kept by
  every operation; under it no accessor aborts; the tree navigation (\<open>Parent\<close>, \<open>LeftmostChild\<close>,
  \<open>RightmostChild\<close>, siblings) returns the extreme child, resp. the n-th sibling, or \<^verbatim>\<open>-2\<close>.
\<close>

type_synonym parser_action = int

record 'ts parser_state =
  ps_sentence :: sentence
  ps_num_tokens :: int
  ps_alternative :: int
  ps_transition_state :: "'ts option"
  ps_label_map :: term_frequency_map
  ps_root_label :: int
  ps_next :: int
  ps_stack :: "int list"
  ps_head :: "int list"
  ps_label :: "int list"
  ps_score :: real
  ps_is_gold :: bool
  ps_keep_history :: bool
  ps_history :: "parser_action list"

definition kRootLabel :: string where
  "kRootLabel = ''ROOT''"

definition kDefaultRootLabel :: int where
  "kDefaultRootLabel = -1"

text \<open>The state the constructor sets up before the virtual call of \<^verbatim>\<open>Init\<close>.\<close>

definition fresh_state :: "sentence \<Rightarrow> 'ts option \<Rightarrow> term_frequency_map \<Rightarrow> 'ts parser_state" where
  "fresh_state sentence ts label_map =
     (let n = token_size sentence;
          root_label = LookupIndex label_map kRootLabel kDefaultRootLabel
      in \<lparr>ps_sentence = sentence, ps_num_tokens = n, ps_alternative = -1,
          ps_transition_state = ts, ps_label_map = label_map, ps_root_label = root_label,
          ps_next = 0, ps_stack = [], ps_head = replicate (nat n) (-1),
          ps_label = replicate (nat n) root_label, ps_score = 0, ps_is_gold = False,
          ps_keep_history = False, ps_history = []\<rparr>)"

definition ParserState ::
  "('ts parser_state \<Rightarrow> 'ts parser_state option) \<Rightarrow> sentence \<Rightarrow> 'ts option
     \<Rightarrow> term_frequency_map \<Rightarrow> 'ts parser_state option" where
  "ParserState init sentence ts label_map =
     (let s = fresh_state sentence ts label_map in
      case ts of None \<Rightarrow> Some s | Some _ \<Rightarrow> init s)"

definition Clone :: "('ts \<Rightarrow> 'ts) \<Rightarrow> 'ts parser_state \<Rightarrow> 'ts parser_state" where
  "Clone clone_ts s =
     \<lparr>ps_sentence = ps_sentence s, ps_num_tokens = ps_num_tokens s,
      ps_alternative = ps_alternative s,
      ps_transition_state = map_option clone_ts (ps_transition_state s),
      ps_label_map = ps_label_map s, ps_root_label = ps_root_label s, ps_next = ps_next s,
      ps_stack = ps_stack s, ps_head = ps_head s, ps_label = ps_label s, ps_score = ps_score s,
      ps_is_gold = ps_is_gold s, ps_keep_history = ps_keep_history s,
      ps_history = ps_history s\<rparr>"

definition RootLabel :: "'ts parser_state \<Rightarrow> int" where
  "RootLabel s = ps_root_label s"

definition NumLabels :: "'ts parser_state \<Rightarrow> int" where
  "NumLabels s = Size (ps_label_map s) + (if RootLabel s = kDefaultRootLabel then 1 else 0)"

definition NumTokens :: "'ts parser_state \<Rightarrow> int" where
  "NumTokens s = ps_num_tokens s"

definition Next :: "'ts parser_state \<Rightarrow> int option" where
  "Next s = do { check (ps_next s \<ge> -1); check (ps_next s \<le> ps_num_tokens s); Some (ps_next s) }"

definition Input :: "'ts parser_state \<Rightarrow> int \<Rightarrow> int" where
  "Input s offset =
     (let index = ps_next s + offset in
      if index \<ge> -1 \<and> index < ps_num_tokens s then index else -2)"

definition Advance :: "'ts parser_state \<Rightarrow> 'ts parser_state option" where
  "Advance s = do { check (ps_next s < ps_num_tokens s); Some (s\<lparr>ps_next := ps_next s + 1\<rparr>) }"

definition Advance_to :: "int \<Rightarrow> 'ts parser_state \<Rightarrow> 'ts parser_state option" where
  "Advance_to next s = do { check (next \<le> ps_num_tokens s); Some (s\<lparr>ps_next := next\<rparr>) }"

definition EndOfInput :: "'ts parser_state \<Rightarrow> bool" where
  "EndOfInput s \<longleftrightarrow> ps_next s = ps_num_tokens s"

definition Push :: "int \<Rightarrow> 'ts parser_state \<Rightarrow> 'ts parser_state option" where
  "Push index s = do {
     check (int (length (ps_stack s)) \<le> ps_num_tokens s);
     Some (s\<lparr>ps_stack := ps_stack s @ [index]\<rparr>) }"

definition StackEmpty :: "'ts parser_state \<Rightarrow> bool" where
  "StackEmpty s \<longleftrightarrow> ps_stack s = []"

definition StackSize :: "'ts parser_state \<Rightarrow> int" where
  "StackSize s = int (length (ps_stack s))"

definition Pop :: "'ts parser_state \<Rightarrow> (int \<times> 'ts parser_state) option" where
  "Pop s = do {
     check (\<not> StackEmpty s);
     Some (last (ps_stack s), s\<lparr>ps_stack := butlast (ps_stack s)\<rparr>) }"

definition Top :: "'ts parser_state \<Rightarrow> int option" where
  "Top s = do { check (\<not> StackEmpty s); Some (last (ps_stack s)) }"

definition Stack :: "'ts parser_state \<Rightarrow> int \<Rightarrow> int" where
  "Stack s position =
     (if position < 0 then -2
      else let index = int (length (ps_stack s)) - 1 - position in
           if index < 0 then -2 else ps_stack s ! nat index)"

definition Head :: "'ts parser_state \<Rightarrow> int \<Rightarrow> int option" where
  "Head s index = do {
     check (index \<ge> -1);
     check (index < ps_num_tokens s);
     if index = -1 then Some (-1) else vec_at (ps_head s) index }"

definition Label :: "'ts parser_state \<Rightarrow> int \<Rightarrow> int option" where
  "Label s index = do {
     check (index \<ge> -1);
     check (index < ps_num_tokens s);
     if index = -1 then Some (RootLabel s) else vec_at (ps_label s) index }"

fun Parent_loop :: "'ts parser_state \<Rightarrow> nat \<Rightarrow> int \<Rightarrow> int option" where
  "Parent_loop s 0 index = Some index"
| "Parent_loop s (Suc n) index = do { h \<leftarrow> Head s index; Parent_loop s n h }"

definition Parent :: "'ts parser_state \<Rightarrow> int \<Rightarrow> int \<Rightarrow> int option" where
  "Parent s index n = do {
     check (index \<ge> -1); check (index < ps_num_tokens s); Parent_loop s (nat n) index }"

text \<open>The inner loop of \<open>LeftmostChild\<close>: the value of \<open>i\<close> when the scan stops.\<close>

function leftmost_scan :: "'ts parser_state \<Rightarrow> int \<Rightarrow> int \<Rightarrow> int option" where
  "leftmost_scan s index i =
     (if i < index then do {
        h \<leftarrow> Head s i;
        if h = index then Some i else leftmost_scan s index (i + 1) }
      else Some i)"
  by pat_completeness auto
termination
  by (relation "measure (\<lambda>(s, index, i). nat (index - i))") auto

fun LeftmostChild_loop :: "'ts parser_state \<Rightarrow> nat \<Rightarrow> int \<Rightarrow> int option" where
  "LeftmostChild_loop s 0 index = Some index"
| "LeftmostChild_loop s (Suc n) index = do {
     i \<leftarrow> leftmost_scan s index (-1);
     if i = index then Some (-2) else LeftmostChild_loop s n i }"

definition LeftmostChild :: "'ts parser_state \<Rightarrow> int \<Rightarrow> int \<Rightarrow> int option" where
  "LeftmostChild s index n = do {
     check (index \<ge> -1); check (index < ps_num_tokens s); LeftmostChild_loop s (nat n) index }"

function rightmost_scan :: "'ts parser_state \<Rightarrow> int \<Rightarrow> int \<Rightarrow> int option" where
  "rightmost_scan s index i =
     (if i > index then do {
        h \<leftarrow> Head s i;
        if h = index then Some i else rightmost_scan s index (i - 1) }
      else Some i)"
  by pat_completeness auto
termination
  by (relation "measure (\<lambda>(s, index, i). nat (i - index))") auto

fun RightmostChild_loop :: "'ts parser_state \<Rightarrow> nat \<Rightarrow> int \<Rightarrow> int option" where
  "RightmostChild_loop s 0 index = Some index"
| "RightmostChild_loop s (Suc n) index = do {
     i \<leftarrow> rightmost_scan s index (ps_num_tokens s - 1);
     if i = index then Some (-2) else RightmostChild_loop s n i }"

definition RightmostChild :: "'ts parser_state \<Rightarrow> int \<Rightarrow> int \<Rightarrow> int option" where
  "RightmostChild s index n = do {
     check (index \<ge> -1); check (index < ps_num_tokens s); RightmostChild_loop s (nat n) index }"

function left_sibling_loop :: "'ts parser_state \<Rightarrow> int \<Rightarrow> int \<Rightarrow> int \<Rightarrow> int option" where
  "left_sibling_loop s index i n =
     (if n > 0 then
        if i - 1 = -1 then Some (-2)
        else do {
          hi \<leftarrow> Head s (i - 1);
          hx \<leftarrow> Head s index;
          left_sibling_loop s index (i - 1) (if hi = hx then n - 1 else n) }
      else Some i)"
  by pat_completeness auto
termination
  by (relation "measure (\<lambda>(s, index, i, n). nat (i + 2))") (auto simp: Head_def check_bind_eq_Some)

definition LeftSibling :: "'ts parser_state \<Rightarrow> int \<Rightarrow> int \<Rightarrow> int option" where
  "LeftSibling s index n = do {
     check (index \<ge> -1); check (index < ps_num_tokens s);
     if index = -1 \<and> n > 0 then Some (-2) else left_sibling_loop s index index n }"

function right_sibling_loop :: "'ts parser_state \<Rightarrow> int \<Rightarrow> int \<Rightarrow> int \<Rightarrow> int option" where
  "right_sibling_loop s index i n =
     (if n > 0 then
        if i + 1 = ps_num_tokens s then Some (-2)
        else do {
          hi \<leftarrow> Head s (i + 1);
          hx \<leftarrow> Head s index;
          right_sibling_loop s index (i + 1) (if hi = hx then n - 1 else n) }
      else Some i)"
  by pat_completeness auto
termination
  by (relation "measure (\<lambda>(s, index, i, n). nat (ps_num_tokens s - i))")
     (auto simp: Head_def check_bind_eq_Some)

definition RightSibling :: "'ts parser_state \<Rightarrow> int \<Rightarrow> int \<Rightarrow> int option" where
  "RightSibling s index n = do {
     check (index \<ge> -1); check (index < ps_num_tokens s);
     if index = -1 \<and> n > 0 then Some (-2) else right_sibling_loop s index index n }"

definition AddArc :: "int \<Rightarrow> int \<Rightarrow> int \<Rightarrow> 'ts parser_state \<Rightarrow> 'ts parser_state option" where
  "AddArc index head label s = do {
     check (index \<ge> 0);
     check (index < ps_num_tokens s);
     hs \<leftarrow> vec_set (ps_head s) index head;
     ls \<leftarrow> vec_set (ps_label s) index label;
     Some (s\<lparr>ps_head := hs, ps_label := ls\<rparr>) }"

definition GetToken :: "'ts parser_state \<Rightarrow> int \<Rightarrow> token option" where
  "GetToken s index =
     (if index = -1 then Some default_token else sent_token_at (ps_sentence s) index)"

definition GoldHead :: "'ts parser_state \<Rightarrow> int \<Rightarrow> int option" where
  "GoldHead s index = do {
     check (index \<ge> -1);
     check (index < ps_num_tokens s);
     if index = -1 then Some (-1)
     else do {
       let offset = 0;
       token \<leftarrow> GetToken s index;
       let gold_head = tok_head token;
       Some (if gold_head = -1 then -1 else gold_head - offset) } }"

definition GoldLabel :: "'ts parser_state \<Rightarrow> int \<Rightarrow> int option" where
  "GoldLabel s index = do {
     check (index \<ge> -1);
     check (index < ps_num_tokens s);
     if index = -1 then Some (RootLabel s)
     else do {
       token \<leftarrow> GetToken s index;
       Some (LookupIndex (ps_label_map s) (tok_label token) (RootLabel s)) } }"

text \<open>The three virtual calls on the transition state; a null pointer is not a value.\<close>

definition AddParseToDocument ::
  "('ts \<Rightarrow> 'ts parser_state \<Rightarrow> bool \<Rightarrow> sentence \<Rightarrow> sentence option)
     \<Rightarrow> 'ts parser_state \<Rightarrow> sentence \<Rightarrow> bool \<Rightarrow> sentence option" where
  "AddParseToDocument add_parse s sentence rewrite_root_labels = do {
     ts \<leftarrow> ps_transition_state s;
     add_parse ts s rewrite_root_labels sentence }"

definition IsTokenCorrect ::
  "('ts \<Rightarrow> 'ts parser_state \<Rightarrow> int \<Rightarrow> bool option) \<Rightarrow> 'ts parser_state \<Rightarrow> int \<Rightarrow> bool option" where
  "IsTokenCorrect correct s index = do { ts \<leftarrow> ps_transition_state s; correct ts s index }"

definition ToString ::
  "('ts \<Rightarrow> 'ts parser_state \<Rightarrow> string option) \<Rightarrow> 'ts parser_state \<Rightarrow> string option" where
  "ToString to_string s = do { ts \<leftarrow> ps_transition_state s; to_string ts s }"

definition LabelAsString :: "'ts parser_state \<Rightarrow> int \<Rightarrow> string option" where
  "LabelAsString s label =
     (if label = ps_root_label s then Some kRootLabel
      else if label \<ge> 0 \<and> label < Size (ps_label_map s) then GetTerm (ps_label_map s) label
      else Some [])"

declare leftmost_scan.simps [simp del] rightmost_scan.simps [simp del]
  left_sibling_loop.simps [simp del] right_sibling_loop.simps [simp del]

named_theorems ps_simps \<open>accessors of a well-formed state\<close>

definition ps_wf :: "'ts parser_state \<Rightarrow> bool" where
  "ps_wf s \<longleftrightarrow>
     ps_num_tokens s = token_size (ps_sentence s) \<and>
     length (ps_head s) = length (sent_token (ps_sentence s)) \<and>
     length (ps_label s) = length (sent_token (ps_sentence s)) \<and>
     -1 \<le> ps_next s \<and> ps_next s \<le> ps_num_tokens s \<and>
     int (length (ps_stack s)) \<le> ps_num_tokens s + 1 \<and>
     tfm_inv (ps_label_map s) \<and>
     ps_root_label s = LookupIndex (ps_label_map s) kRootLabel kDefaultRootLabel"

text \<open>The values the accessors return on a well-formed state.\<close>

definition head_of :: "'ts parser_state \<Rightarrow> int \<Rightarrow> int" where
  "head_of s i = (if i = -1 then -1 else ps_head s ! nat i)"

definition label_of :: "'ts parser_state \<Rightarrow> int \<Rightarrow> int" where
  "label_of s i = (if i = -1 then ps_root_label s else ps_label s ! nat i)"

definition gold_head_of :: "'ts parser_state \<Rightarrow> int \<Rightarrow> int" where
  "gold_head_of s i = (if i = -1 then -1 else tok_head (sent_token (ps_sentence s) ! nat i))"

definition gold_label_of :: "'ts parser_state \<Rightarrow> int \<Rightarrow> int" where
  "gold_label_of s i =
     (if i = -1 then ps_root_label s
      else LookupIndex (ps_label_map s) (tok_label (sent_token (ps_sentence s) ! nat i)) (ps_root_label s))"

subsection \<open>Accessors of a well-formed state\<close>

lemma ps_wfD:
  assumes "ps_wf s"
  shows "ps_num_tokens s = token_size (ps_sentence s)"
    and "int (length (ps_head s)) = ps_num_tokens s"
    and "int (length (ps_label s)) = ps_num_tokens s"
    and "-1 \<le> ps_next s" and "ps_next s \<le> ps_num_tokens s"
    and "int (length (ps_stack s)) \<le> ps_num_tokens s + 1"
    and "tfm_inv (ps_label_map s)" and "0 \<le> ps_num_tokens s"
    and "ps_root_label s = LookupIndex (ps_label_map s) kRootLabel kDefaultRootLabel"
  using assms by (simp_all add: ps_wf_def token_size_def)

lemma Next_wf [simp, ps_simps]: "ps_wf s \<Longrightarrow> Next s = Some (ps_next s)"
  using ps_wfD(4,5) [of s] by (simp add: Next_def)

lemma Head_wf [ps_simps]:
  "ps_wf s \<Longrightarrow> -1 \<le> i \<Longrightarrow> i < ps_num_tokens s \<Longrightarrow> Head s i = Some (head_of s i)"
  using ps_wfD(2) [of s] by (simp add: Head_def head_of_def)

lemma Label_wf [ps_simps]:
  "ps_wf s \<Longrightarrow> -1 \<le> i \<Longrightarrow> i < ps_num_tokens s \<Longrightarrow> Label s i = Some (label_of s i)"
  using ps_wfD(3) [of s] by (simp add: Label_def label_of_def RootLabel_def)

lemma GetToken_wf [ps_simps]:
  "ps_wf s \<Longrightarrow> 0 \<le> i \<Longrightarrow> i < ps_num_tokens s \<Longrightarrow>
     GetToken s i = Some (sent_token (ps_sentence s) ! nat i)"
  using ps_wfD(1) [of s] by (simp add: GetToken_def sent_token_at_in)

lemma GoldHead_wf [ps_simps]:
  "ps_wf s \<Longrightarrow> -1 \<le> i \<Longrightarrow> i < ps_num_tokens s \<Longrightarrow> GoldHead s i = Some (gold_head_of s i)"
  by (simp add: GoldHead_def gold_head_of_def GetToken_wf Let_def)

lemma GoldLabel_wf [ps_simps]:
  "ps_wf s \<Longrightarrow> -1 \<le> i \<Longrightarrow> i < ps_num_tokens s \<Longrightarrow> GoldLabel s i = Some (gold_label_of s i)"
  by (simp add: GoldLabel_def gold_label_of_def GetToken_wf RootLabel_def)

lemma Stack_eq: "0 \<le> p \<Longrightarrow> p < StackSize s \<Longrightarrow> Stack s p = rev (ps_stack s) ! nat p"
  by (auto simp: Stack_def StackSize_def rev_nth Let_def nat_diff_distrib' nat_less_iff
      intro!: arg_cong [of _ _ "nth (ps_stack s)"])

lemma Stack_out: "\<not> (0 \<le> p \<and> p < StackSize s) \<Longrightarrow> Stack s p = -2"
  by (auto simp: Stack_def StackSize_def Let_def)

subsection \<open>Updates\<close>

lemma Advance_wf:
  "ps_wf s \<Longrightarrow> ps_next s < ps_num_tokens s \<Longrightarrow>
     Advance s = Some (s\<lparr>ps_next := ps_next s + 1\<rparr>) \<and> ps_wf (s\<lparr>ps_next := ps_next s + 1\<rparr>)"
  by (simp add: Advance_def ps_wf_def)

lemma Advance_to_wf:
  "ps_wf s \<Longrightarrow> -1 \<le> i \<Longrightarrow> i \<le> ps_num_tokens s \<Longrightarrow>
     Advance_to i s = Some (s\<lparr>ps_next := i\<rparr>) \<and> ps_wf (s\<lparr>ps_next := i\<rparr>)"
  by (simp add: Advance_to_def ps_wf_def)

lemma Push_wf:
  "ps_wf s \<Longrightarrow> StackSize s \<le> ps_num_tokens s \<Longrightarrow>
     Push i s = Some (s\<lparr>ps_stack := ps_stack s @ [i]\<rparr>) \<and> ps_wf (s\<lparr>ps_stack := ps_stack s @ [i]\<rparr>)"
  by (simp add: Push_def ps_wf_def StackSize_def)

lemma Pop_wf:
  "ps_wf s \<Longrightarrow> ps_stack s = xs @ [x] \<Longrightarrow>
     Pop s = Some (x, s\<lparr>ps_stack := xs\<rparr>) \<and> ps_wf (s\<lparr>ps_stack := xs\<rparr>)"
  by (simp add: Pop_def ps_wf_def StackEmpty_def)

lemma AddArc_wf:
  assumes "ps_wf s" and "0 \<le> i" and "i < ps_num_tokens s"
  shows "AddArc i h l s = Some (s\<lparr>ps_head := (ps_head s)[nat i := h], ps_label := (ps_label s)[nat i := l]\<rparr>)
    \<and> ps_wf (s\<lparr>ps_head := (ps_head s)[nat i := h], ps_label := (ps_label s)[nat i := l]\<rparr>)"
  using assms ps_wfD(2,3) [OF assms(1)] by (simp add: AddArc_def ps_wf_def)

lemma ps_wf_cong:
  "ps_wf s \<Longrightarrow> ps_wf (s\<lparr>ps_transition_state := ts\<rparr>)"
  "ps_wf s \<Longrightarrow> ps_wf (s\<lparr>ps_history := hs\<rparr>)"
  "ps_wf s \<Longrightarrow> ps_wf (s\<lparr>ps_is_gold := g\<rparr>)"
  "ps_wf s \<Longrightarrow> ps_wf (s\<lparr>ps_keep_history := k\<rparr>)"
  by (simp_all add: ps_wf_def)

lemma ps_wf_fresh: "tfm_inv label_map \<Longrightarrow> ps_wf (fresh_state sent ts label_map)"
  by (simp add: ps_wf_def fresh_state_def Let_def token_size_def)

lemma head_of_AddArc:
  "0 \<le> i \<Longrightarrow> i < int (length (ps_head s)) \<Longrightarrow> -1 \<le> j \<Longrightarrow>
     head_of (s\<lparr>ps_head := (ps_head s)[nat i := h], ps_label := ls\<rparr>) j = (if j = i then h else head_of s j)"
  by (auto simp: head_of_def nth_list_update nat_eq_iff2)

lemma label_of_AddArc:
  "0 \<le> i \<Longrightarrow> i < int (length (ps_label s)) \<Longrightarrow> -1 \<le> j \<Longrightarrow>
     label_of (s\<lparr>ps_head := hs, ps_label := (ps_label s)[nat i := l]\<rparr>) j = (if j = i then l else label_of s j)"
  by (auto simp: label_of_def nth_list_update nat_eq_iff2)

lemma LabelAsString_total:
  assumes "ps_wf s"
  shows "\<exists>str. LabelAsString s l = Some str"
  using tfm.lookup_entry [OF ps_wfD(7) [OF assms], of l]
  by (auto simp: LabelAsString_def)

text \<open>The label index that \<open>GoldLabel\<close> computes for a token.\<close>

definition label_index :: "term_frequency_map \<Rightarrow> token \<Rightarrow> int" where
  "label_index label_map t =
     LookupIndex label_map (tok_label t) (LookupIndex label_map kRootLabel kDefaultRootLabel)"

lemma gold_label_of_eq:
  "ps_wf s \<Longrightarrow> 0 \<le> i \<Longrightarrow> gold_label_of s i = label_index (ps_label_map s) (sent_token (ps_sentence s) ! nat i)"
  using ps_wfD(9) [of s] by (simp add: gold_label_of_def label_index_def)

lemma LabelAsString_lookup:
  assumes wf: "ps_wf s" and known: "LookupIndex (ps_label_map s) t (-2) \<noteq> -2"
  shows "LabelAsString s (LookupIndex (ps_label_map s) t (ps_root_label s)) = Some t"
proof -
  let ?i = "LookupIndex (ps_label_map s) t (-2)"
  note inv = ps_wfD(7) [OF wf]
  have i: "LookupIndex (ps_label_map s) t u = ?i" for u
    using known by (auto simp: LookupIndex_def split: option.splits)
  have k: "0 \<le> ?i" "?i < Size (ps_label_map s)" "GetTerm (ps_label_map s) ?i = Some t"
    using tfm.lookup_known [OF inv known] by auto
  show ?thesis
  proof (cases "?i = ps_root_label s")
    case False
    with i [of "ps_root_label s"] k show ?thesis by (simp add: LabelAsString_def)
  next
    case True
    then have r: "LookupIndex (ps_label_map s) kRootLabel kDefaultRootLabel = ?i"
      using ps_wfD(9) [OF wf] by simp
    then have "LookupIndex (ps_label_map s) kRootLabel (-2) = ?i"
      using k(1) by (auto simp: LookupIndex_def kDefaultRootLabel_def split: option.splits)
    then have "kRootLabel = t" using tfm.lookup_same_iff [OF inv known] by blast
    with True i [of "ps_root_label s"] show ?thesis by (simp add: LabelAsString_def)
  qed
qed


subsection \<open>Tree navigation\<close>

lemma leftmost_scan_spec:
  assumes "ps_wf s" and "-1 \<le> i" and "i \<le> index" and "index < ps_num_tokens s"
  shows "\<exists>r. leftmost_scan s index i = Some r \<and> i \<le> r \<and> r \<le> index \<and>
    (r < index \<longrightarrow> head_of s r = index) \<and> (\<forall>j. i \<le> j \<and> j < r \<longrightarrow> head_of s j \<noteq> index)"
  using assms
proof (induction s index i rule: leftmost_scan.induct)
  case (1 s index i)
  show ?case
  proof (cases "i < index \<and> head_of s i \<noteq> index")
    case True
    then have "Head s i = Some (head_of s i)" using "1.prems" by (simp add: Head_wf)
    from "1.IH" [OF _ this] True "1.prems" obtain r where
      r: "leftmost_scan s index (i + 1) = Some r" "i + 1 \<le> r" "r \<le> index"
        "r < index \<longrightarrow> head_of s r = index" "\<forall>j. i + 1 \<le> j \<and> j < r \<longrightarrow> head_of s j \<noteq> index"
      by auto
    have "head_of s j \<noteq> index" if "i \<le> j" "j < r" for j
      using r(5) True that by (cases "j = i") auto
    with r True "1.prems" show ?thesis
      by (subst leftmost_scan.simps) (auto simp: Head_wf)
  next
    case False
    with "1.prems" show ?thesis by (subst leftmost_scan.simps) (auto simp: Head_wf)
  qed
qed

lemma rightmost_scan_spec:
  assumes "ps_wf s" and "-1 \<le> index" and "index \<le> i" and "i < ps_num_tokens s"
  shows "\<exists>r. rightmost_scan s index i = Some r \<and> index \<le> r \<and> r \<le> i \<and>
    (index < r \<longrightarrow> head_of s r = index) \<and> (\<forall>j. r < j \<and> j \<le> i \<longrightarrow> head_of s j \<noteq> index)"
  using assms
proof (induction s index i rule: rightmost_scan.induct)
  case (1 s index i)
  show ?case
  proof (cases "index < i \<and> head_of s i \<noteq> index")
    case True
    then have "Head s i = Some (head_of s i)" using "1.prems" by (simp add: Head_wf)
    from "1.IH" [OF _ this] True "1.prems" obtain r where
      r: "rightmost_scan s index (i - 1) = Some r" "index \<le> r" "r \<le> i - 1"
        "index < r \<longrightarrow> head_of s r = index" "\<forall>j. r < j \<and> j \<le> i - 1 \<longrightarrow> head_of s j \<noteq> index"
      by auto
    have "head_of s j \<noteq> index" if "r < j" "j \<le> i" for j
      using r(5) True that by (cases "j = i") auto
    with r True "1.prems" show ?thesis
      by (subst rightmost_scan.simps) (auto simp: Head_wf)
  next
    case False
    with "1.prems" show ?thesis by (subst rightmost_scan.simps) (auto simp: Head_wf)
  qed
qed

text \<open>The siblings of a token to its left, nearest first, and to its right.\<close>

definition left_siblings :: "'ts parser_state \<Rightarrow> int \<Rightarrow> int \<Rightarrow> int list" where
  "left_siblings s index i = filter (\<lambda>j. head_of s j = head_of s index) (rev [0..i - 1])"

definition right_siblings :: "'ts parser_state \<Rightarrow> int \<Rightarrow> int \<Rightarrow> int list" where
  "right_siblings s index i = filter (\<lambda>j. head_of s j = head_of s index) [i + 1..ps_num_tokens s - 1]"

definition nth_sibling :: "int list \<Rightarrow> int \<Rightarrow> int \<Rightarrow> int" where
  "nth_sibling L i n = (if n \<le> 0 then i else if nat n \<le> length L then L ! (nat n - 1) else -2)"

lemma nth_sibling_Cons: "0 < n \<Longrightarrow> nth_sibling (j # L) i n = nth_sibling L j (n - 1)"
  by (auto simp: nth_sibling_def nat_diff_distrib nth_Cons' Suc_le_eq)

lemma nth_sibling_skip: "0 < n \<Longrightarrow> nth_sibling L i n = nth_sibling L j n"
  by (simp add: nth_sibling_def)

lemma left_sibling_loop_spec:
  assumes "ps_wf s" and "0 \<le> i" and "i \<le> index" and "index < ps_num_tokens s"
  shows "left_sibling_loop s index i n = Some (nth_sibling (left_siblings s index i) i n)"
  using assms
proof (induction s index i n rule: left_sibling_loop.induct)
  case (1 s index i n)
  show ?case
  proof (cases "0 < n \<and> i \<noteq> 0")
    case True
    then have h: "Head s (i - 1) = Some (head_of s (i - 1))" "Head s index = Some (head_of s index)"
      using "1.prems" by (simp_all add: Head_wf)
    have L: "left_siblings s index i = (if head_of s (i - 1) = head_of s index then [i - 1] else [])
        @ left_siblings s index (i - 1)"
      using True "1.prems" upto_rec2 [of 0 "i - 1"] by (simp add: left_siblings_def)
    from True "1.prems" "1.IH" [OF _ _ h] have
      "left_sibling_loop s index i n = Some (nth_sibling (left_siblings s index (i - 1)) (i - 1)
         (if head_of s (i - 1) = head_of s index then n - 1 else n))"
      by (subst left_sibling_loop.simps) (simp add: h)
    then show ?thesis
      using True by (simp add: L nth_sibling_Cons nth_sibling_skip [of n _ "i - 1" i])
  next
    case False
    then show ?thesis
      by (subst left_sibling_loop.simps) (auto simp: nth_sibling_def left_siblings_def)
  qed
qed

lemma right_sibling_loop_spec:
  assumes "ps_wf s" and "0 \<le> index" and "index \<le> i" and "i < ps_num_tokens s"
  shows "right_sibling_loop s index i n = Some (nth_sibling (right_siblings s index i) i n)"
  using assms
proof (induction s index i n rule: right_sibling_loop.induct)
  case (1 s index i n)
  show ?case
  proof (cases "0 < n \<and> i + 1 \<noteq> ps_num_tokens s")
    case True
    then have h: "Head s (i + 1) = Some (head_of s (i + 1))" "Head s index = Some (head_of s index)"
      using "1.prems" by (simp_all add: Head_wf)
    have L: "right_siblings s index i = (if head_of s (i + 1) = head_of s index then [i + 1] else [])
        @ right_siblings s index (i + 1)"
      using True "1.prems" upto_rec1 [of "i + 1" "ps_num_tokens s - 1"] by (simp add: right_siblings_def)
    from True "1.prems" "1.IH" [OF _ _ h] have
      "right_sibling_loop s index i n = Some (nth_sibling (right_siblings s index (i + 1)) (i + 1)
         (if head_of s (i + 1) = head_of s index then n - 1 else n))"
      by (subst right_sibling_loop.simps) (simp add: h)
    then show ?thesis
      using True by (simp add: L nth_sibling_Cons nth_sibling_skip [of n _ "i + 1" i])
  next
    case False
    then show ?thesis
      by (subst right_sibling_loop.simps) (auto simp: nth_sibling_def right_siblings_def)
  qed
qed


lemma leftmost_child:
  assumes wf: "ps_wf s" and lo: "-1 \<le> index" and hi: "index < ps_num_tokens s"
  shows "LeftmostChild s index 1 =
      (let C = {j. -1 \<le> j \<and> j < index \<and> head_of s j = index} in Some (if C = {} then -2 else Min C))"
proof -
  let ?L = "{j. -1 \<le> j \<and> j < index \<and> head_of s j = index}"
  obtain r where r: "leftmost_scan s index (-1) = Some r" "-1 \<le> r" "r \<le> index"
      "r < index \<longrightarrow> head_of s r = index" "\<forall>j. -1 \<le> j \<and> j < r \<longrightarrow> head_of s j \<noteq> index"
    using leftmost_scan_spec [OF wf _ lo hi] by auto
  have "Min ?L = r" if "r < index"
    using r that by (intro Min_eqI) (auto intro: finite_subset [of _ "{-1..index}"] leI)
  moreover have "?L = {} \<longleftrightarrow> r = index" using r by (force simp: order_less_le)
  ultimately show ?thesis
    using lo hi r by (auto simp: LeftmostChild_def Let_def)
qed

lemma rightmost_child:
  assumes wf: "ps_wf s" and lo: "-1 \<le> index" and hi: "index < ps_num_tokens s"
  shows "RightmostChild s index 1 =
      (let C = {j. index < j \<and> j < ps_num_tokens s \<and> head_of s j = index} in
       Some (if C = {} then -2 else Max C))"
proof -
  let ?R = "{j. index < j \<and> j < ps_num_tokens s \<and> head_of s j = index}"
  obtain q where q: "rightmost_scan s index (ps_num_tokens s - 1) = Some q" "index \<le> q"
      "q \<le> ps_num_tokens s - 1" "index < q \<longrightarrow> head_of s q = index"
      "\<forall>j. q < j \<and> j \<le> ps_num_tokens s - 1 \<longrightarrow> head_of s j \<noteq> index"
    using rightmost_scan_spec [OF wf lo, of "ps_num_tokens s - 1"] hi by auto
  have "Max ?R = q" if "index < q"
    using q that by (intro Max_eqI) (auto intro: finite_subset [of _ "{index..ps_num_tokens s}"] leI)
  moreover have "?R = {} \<longleftrightarrow> q = index" using q by (force simp: order_less_le)
  ultimately show ?thesis
    using lo hi q by (auto simp: RightmostChild_def Let_def)
qed

text \<open>
  \<open>LeftmostChild\<close> and \<open>RightmostChild\<close> with one level never abort on a well-formed state and
  return the smallest child to the left, respectively the largest child to the right, of the
  token in the partial tree, and \<^verbatim>\<open>-2\<close> exactly when there is none.
\<close>

theorem outermost_children:
  assumes "ps_wf s" and "-1 \<le> index" and "index < ps_num_tokens s"
  shows "LeftmostChild s index 1 =
      (let C = {j. -1 \<le> j \<and> j < index \<and> head_of s j = index} in Some (if C = {} then -2 else Min C)) \<and>
    RightmostChild s index 1 =
      (let C = {j. index < j \<and> j < ps_num_tokens s \<and> head_of s j = index} in
       Some (if C = {} then -2 else Max C))"
  using leftmost_child [OF assms] rightmost_child [OF assms] ..

text \<open>A state over three tokens whose first and last token hang under the second.\<close>

definition three_tokens :: sentence where
  "three_tokens = \<lparr>sent_docid = [], sent_text = [],
     sent_token = replicate 3 default_token\<rparr>"

definition three_state :: "unit parser_state" where
  "three_state = (fresh_state three_tokens None empty_tfm)\<lparr>ps_head := [1, -1, 1]\<rparr>"

lemma three_state_wf: "ps_wf three_state"
  by (simp add: ps_wf_def three_state_def fresh_state_def three_tokens_def token_size_def Let_def
      tfm_inv_empty numeral_3_eq_3)

theorem outermost_children_witness:
  "ps_wf three_state \<and>
   LeftmostChild three_state 1 1 =
      (let C = {j. -1 \<le> j \<and> j < 1 \<and> head_of three_state j = 1} in Some (if C = {} then -2 else Min C)) \<and>
   LeftmostChild three_state 1 1 = Some 0"
proof -
  have n: "(1::int) < ps_num_tokens three_state"
    by (simp add: three_state_def fresh_state_def three_tokens_def token_size_def Let_def)
  have "LeftmostChild three_state 1 1 = Some 0" by code_simp
  then show ?thesis using outermost_children [OF three_state_wf _ n] three_state_wf by simp
qed

text \<open>
  \<open>LeftSibling\<close> and \<open>RightSibling\<close> terminate without abort and return the n-th nearest token
  on that side with the same head, \<^verbatim>\<open>-2\<close> when there are fewer, and the token itself for \<open>n \<le> 0\<close>.
\<close>

theorem nth_siblings:
  assumes "ps_wf s" and "0 \<le> index" and "index < ps_num_tokens s"
  shows "LeftSibling s index n = Some (nth_sibling (left_siblings s index index) index n) \<and>
    RightSibling s index n = Some (nth_sibling (right_siblings s index index) index n)"
  using assms left_sibling_loop_spec [of s index index n] right_sibling_loop_spec [of s index index n]
  by (simp add: LeftSibling_def RightSibling_def)

theorem nth_siblings_witness:
  "ps_wf three_state \<and> RightSibling three_state 0 1 = Some (nth_sibling (right_siblings three_state 0 0) 0 1) \<and>
   right_siblings three_state 0 0 = [2]"
proof -
  have n: "(0::int) < ps_num_tokens three_state"
    by (simp add: three_state_def fresh_state_def three_tokens_def token_size_def Let_def)
  have "right_siblings three_state 0 0 = [2]" by code_simp
  then show ?thesis using nth_siblings [OF three_state_wf _ n, of 1] three_state_wf by simp
qed

end
