(* ===== verification/Transition_Systems.thy ===== *)
theory Transition_Systems
  imports Parser_State
begin

text \<open>
  The abstract class \<^verbatim>\<open>ParserTransitionSystem\<close> of \<^verbatim>\<open>syntaxnet/parser_transitions.{h,cc}\<close>. Its two
  non-virtual operations are definitions (\<open>PerformAction\<close>, the default
  \<open>GetAllNextGoldActions\<close>); its virtual interface is a locale, which every transition system of
  the repository interprets in its own theory.

  \<^item> \<open>transition_system\<close>: the laws of \<^verbatim>\<open>IsAllowedAction\<close>, \<^verbatim>\<open>IsFinalState\<close> and of performing an
    action, with a counter \<open>steps_left\<close>. Clients get: whatever allowed actions are chosen, the
    parse loop performs exactly \<open>steps_left\<close> actions, never aborts and ends in a final state.
  \<^item> \<open>parser_transition_system\<close>: the same laws for \<^verbatim>\<open>PerformActionWithoutHistory\<close>; the sublocale
    relation says that \<open>PerformAction\<close> then satisfies them too, and what it records.
  \<^item> \<open>oracle_system\<close>: the laws of \<^verbatim>\<open>GetNextGoldAction\<close>. Clients get: the oracle run is defined,
    takes exactly \<open>steps_left\<close> actions and keeps the oracle invariant to the end.
\<close>

definition PerformAction ::
  "(parser_action \<Rightarrow> 'ts parser_state \<Rightarrow> 'ts parser_state option)
     \<Rightarrow> parser_action \<Rightarrow> 'ts parser_state \<Rightarrow> 'ts parser_state option" where
  "PerformAction perform_without_history action s =
     (if ps_keep_history s then perform_without_history action s
      else let s = s\<lparr>ps_history := ps_history s @ [action]\<rparr> in
           perform_without_history action s)"

definition GetAllNextGoldActions ::
  "('ts parser_state \<Rightarrow> parser_action option) \<Rightarrow> 'ts parser_state \<Rightarrow> parser_action list option" where
  "GetAllNextGoldActions get_next_gold_action s = do {
     action \<leftarrow> get_next_gold_action s; Some [action] }"

text \<open>
  The parse loop: until the state is final, choose an action and perform it. The number bounds
  the iterations; \<open>None\<close> is an abort or a loop that is not done.
\<close>

fun drive ::
  "('s \<Rightarrow> bool option) \<Rightarrow> (parser_action \<Rightarrow> 's \<Rightarrow> 's option) \<Rightarrow> ('s \<Rightarrow> parser_action option)
     \<Rightarrow> nat \<Rightarrow> 's \<Rightarrow> 's option" where
  "drive is_final perform chooser fuel s = do {
     final \<leftarrow> is_final s;
     if final then Some s
     else case fuel of
       0 \<Rightarrow> None
     | Suc k \<Rightarrow> do { a \<leftarrow> chooser s; s' \<leftarrow> perform a s; drive is_final perform chooser k s' } }"

declare drive.simps [simp del]

text \<open>Runs of allowed actions, as a step relation.\<close>

inductive allowed_run ::
  "(parser_action \<Rightarrow> 's \<Rightarrow> bool option) \<Rightarrow> (parser_action \<Rightarrow> 's \<Rightarrow> 's option)
     \<Rightarrow> 's \<Rightarrow> parser_action list \<Rightarrow> 's \<Rightarrow> bool"
  for allowed :: "parser_action \<Rightarrow> 's \<Rightarrow> bool option"
    and perform :: "parser_action \<Rightarrow> 's \<Rightarrow> 's option" where
  run_nil: "allowed_run allowed perform s [] s"
| run_step: "allowed a s = Some True \<Longrightarrow> perform a s = Some s1 \<Longrightarrow>
     allowed_run allowed perform s1 acts s' \<Longrightarrow> allowed_run allowed perform s (a # acts) s'"

inductive_cases allowed_run_NilE [elim]: "allowed_run allowed perform s [] s'"
inductive_cases allowed_run_ConsE [elim]: "allowed_run allowed perform s (a # acts) s'"

text \<open>The same runs, executed on a given list of actions.\<close>

fun perform_all ::
  "(parser_action \<Rightarrow> 's \<Rightarrow> bool option) \<Rightarrow> (parser_action \<Rightarrow> 's \<Rightarrow> 's option)
     \<Rightarrow> parser_action list \<Rightarrow> 's \<Rightarrow> 's option" where
  "perform_all allowed perform [] s = Some s"
| "perform_all allowed perform (a # acts) s =
     (if allowed a s = Some True then do { s' \<leftarrow> perform a s; perform_all allowed perform acts s' } else None)"

lemma perform_all_run: "perform_all allowed perform acts s = Some s' \<longleftrightarrow> allowed_run allowed perform s acts s'"
  by (induction acts arbitrary: s)
     (auto simp: bind_eq_Some_conv intro: allowed_run.intros elim!: allowed_run_NilE allowed_run_ConsE
       split: if_splits)

locale transition_system =
  fixes is_allowed :: "parser_action \<Rightarrow> 's \<Rightarrow> bool option"
    and is_final :: "'s \<Rightarrow> bool option"
    and perform :: "parser_action \<Rightarrow> 's \<Rightarrow> 's option"
    and inv :: "'s \<Rightarrow> bool"
    and steps_left :: "'s \<Rightarrow> nat"
  assumes final_iff: "inv s \<Longrightarrow> is_final s = Some (steps_left s = 0)"
    and allowed_total: "inv s \<Longrightarrow> \<exists>b. is_allowed a s = Some b"
    and allowed_not_final: "inv s \<Longrightarrow> is_allowed a s = Some True \<Longrightarrow> 0 < steps_left s"
    and perform_allowed:
      "inv s \<Longrightarrow> is_allowed a s = Some True \<Longrightarrow>
         \<exists>s'. perform a s = Some s' \<and> inv s' \<and> Suc (steps_left s') = steps_left s"
begin

lemma run_steps:
  "allowed_run is_allowed perform s acts s' \<Longrightarrow> inv s \<Longrightarrow> inv s' \<and> length acts + steps_left s' = steps_left s"
proof (induction rule: allowed_run.induct)
  case (run_step a s s1 acts s')
  then show ?case using perform_allowed by fastforce
qed simp

lemma run_bounded: "allowed_run is_allowed perform s acts s' \<Longrightarrow> inv s \<Longrightarrow> length acts \<le> steps_left s"
  using run_steps by fastforce

lemma run_final:
  assumes "allowed_run is_allowed perform s acts s'" and "inv s"
  shows "is_final s' = Some True \<longleftrightarrow> length acts = steps_left s"
  using run_steps [OF assms] final_iff [of s'] by auto

lemma drive_chooser:
  assumes "inv s" and "steps_left s \<le> fuel"
    and "\<And>t. inv t \<Longrightarrow> 0 < steps_left t \<Longrightarrow> \<exists>a. chooser t = Some a \<and> is_allowed a t = Some True"
  shows "\<exists>acts s'. drive is_final perform chooser fuel s = Some s' \<and> inv s' \<and> steps_left s' = 0 \<and>
    allowed_run is_allowed perform s acts s' \<and> length acts = steps_left s"
  using assms(1,2)
proof (induction fuel arbitrary: s)
  case 0
  then show ?case
    by (auto simp: drive.simps final_iff intro: allowed_run.run_nil exI [of _ "[]"])
next
  case (Suc k)
  show ?case
  proof (cases "steps_left s = 0")
    case True
    with Suc.prems show ?thesis
      by (auto simp: drive.simps final_iff intro: allowed_run.run_nil exI [of _ "[]"])
  next
    case False
    with Suc.prems obtain a where a: "chooser s = Some a" "is_allowed a s = Some True"
      using assms(3) [of s] by auto
    with Suc.prems obtain s1 where s1: "perform a s = Some s1" "inv s1" "Suc (steps_left s1) = steps_left s"
      using perform_allowed by blast
    from Suc.IH [OF s1(2)] s1(3) Suc.prems(2) obtain acts s' where
      "drive is_final perform chooser k s1 = Some s'" "inv s'" "steps_left s' = 0"
      "allowed_run is_allowed perform s1 acts s'" "length acts = steps_left s1"
      by fastforce
    with a s1 False Suc.prems(1) show ?thesis
      by (auto simp: drive.simps [of _ _ _ "Suc k"] final_iff
          intro!: exI [of _ "a # acts"] allowed_run.run_step)
  qed
qed

end

locale parser_transition_system =
  fixes is_allowed :: "parser_action \<Rightarrow> 'ts parser_state \<Rightarrow> bool option"
    and is_final :: "'ts parser_state \<Rightarrow> bool option"
    and perform_without_history :: "parser_action \<Rightarrow> 'ts parser_state \<Rightarrow> 'ts parser_state option"
    and inv :: "'ts parser_state \<Rightarrow> bool"
    and steps_left :: "'ts parser_state \<Rightarrow> nat"
  assumes p_final: "inv s \<Longrightarrow> is_final s = Some (steps_left s = 0)"
    and p_allowed: "inv s \<Longrightarrow> \<exists>b. is_allowed a s = Some b"
    and p_allowed_not_final: "inv s \<Longrightarrow> is_allowed a s = Some True \<Longrightarrow> 0 < steps_left s"
    and p_perform:
      "inv s \<Longrightarrow> is_allowed a s = Some True \<Longrightarrow>
         \<exists>s'. perform_without_history a s = Some s' \<and> inv s' \<and> Suc (steps_left s') = steps_left s \<and>
           ps_history s' = ps_history s \<and> ps_keep_history s' = ps_keep_history s \<and>
           ps_sentence s' = ps_sentence s \<and> ps_label_map s' = ps_label_map s"
    and p_inv_history: "inv s \<Longrightarrow> inv (s\<lparr>ps_history := h\<rparr>)"
    and p_steps_history: "steps_left (s\<lparr>ps_history := h\<rparr>) = steps_left s"
    and p_allowed_history: "is_allowed a (s\<lparr>ps_history := h\<rparr>) = is_allowed a s"
begin

lemma perform_records:
  assumes "inv s" and "is_allowed a s = Some True"
  shows "\<exists>s'. PerformAction perform_without_history a s = Some s' \<and> inv s' \<and>
    Suc (steps_left s') = steps_left s \<and> ps_keep_history s' = ps_keep_history s \<and>
    ps_history s' = (if ps_keep_history s then ps_history s else ps_history s @ [a]) \<and>
    ps_sentence s' = ps_sentence s \<and> ps_label_map s' = ps_label_map s"
proof (cases "ps_keep_history s")
  case True
  then show ?thesis using p_perform [OF assms] by (auto simp: PerformAction_def)
next
  case False
  let ?s = "s\<lparr>ps_history := ps_history s @ [a]\<rparr>"
  have "inv ?s" "is_allowed a ?s = Some True"
    using assms by (simp_all add: p_inv_history p_allowed_history)
  from p_perform [OF this] False show ?thesis
    by (auto simp: PerformAction_def Let_def p_steps_history)
qed

lemma recorded_run:
  "allowed_run is_allowed (PerformAction perform_without_history) s acts s' \<Longrightarrow> inv s \<Longrightarrow>
     ps_keep_history s' = ps_keep_history s \<and>
     ps_history s' = (if ps_keep_history s then ps_history s else ps_history s @ acts) \<and>
     ps_sentence s' = ps_sentence s \<and> ps_label_map s' = ps_label_map s"
proof (induction rule: allowed_run.induct)
  case (run_step a s s1 acts s')
  then show ?case using perform_records [of s a] by fastforce
qed simp

end

sublocale parser_transition_system \<subseteq>
  ts: transition_system is_allowed is_final "PerformAction perform_without_history" inv steps_left
  by unfold_locales (use p_final p_allowed p_allowed_not_final perform_records in blast)+

locale oracle_system = parser_transition_system +
  fixes gold :: "'a parser_state \<Rightarrow> parser_action option"
    and on_gold :: "'a parser_state \<Rightarrow> bool"
  assumes gold_step:
      "inv s \<Longrightarrow> on_gold s \<Longrightarrow> 0 < steps_left s \<Longrightarrow>
         \<exists>a. gold s = Some a \<and> is_allowed a s = Some True \<and>
           (\<forall>s'. perform_without_history a s = Some s' \<longrightarrow> on_gold s')"
    and gold_history: "on_gold s \<Longrightarrow> on_gold (s\<lparr>ps_history := h\<rparr>)"
    and gold_action_history: "gold (s\<lparr>ps_history := h\<rparr>) = gold s"
begin

lemma gold_perform:
  assumes "inv s" and "on_gold s" and "0 < steps_left s"
  shows "\<exists>a s'. gold s = Some a \<and> is_allowed a s = Some True \<and>
    PerformAction perform_without_history a s = Some s' \<and> inv s' \<and> on_gold s' \<and>
    Suc (steps_left s') = steps_left s"
proof -
  obtain a where a: "gold s = Some a" "is_allowed a s = Some True"
    using gold_step [OF assms] by blast
  obtain s' where s': "PerformAction perform_without_history a s = Some s'" "inv s'"
      "Suc (steps_left s') = steps_left s"
    using perform_records [OF assms(1) a(2)] by blast
  let ?s = "if ps_keep_history s then s else s\<lparr>ps_history := ps_history s @ [a]\<rparr>"
  have "inv ?s" "on_gold ?s" "0 < steps_left ?s" "gold ?s = Some a"
    using assms a by (auto simp: p_inv_history gold_history p_steps_history gold_action_history)
  from gold_step [OF this(1,2,3)] this(4)
  have "\<forall>s'. perform_without_history a ?s = Some s' \<longrightarrow> on_gold s'" by auto
  then have "on_gold s'" using s'(1) by (auto simp: PerformAction_def Let_def split: if_splits)
  with a s' show ?thesis by blast
qed

theorem gold_run:
  assumes "inv s" and "on_gold s"
  shows "\<exists>acts s'. drive is_final (PerformAction perform_without_history) gold (steps_left s) s = Some s' \<and>
    allowed_run is_allowed (PerformAction perform_without_history) s acts s' \<and>
    length acts = steps_left s \<and> inv s' \<and> on_gold s' \<and> is_final s' = Some True"
  using assms
proof (induction "steps_left s" arbitrary: s)
  case 0
  then show ?case
    by (intro exI [of _ "[]"] exI [of _ s]) (auto simp: drive.simps p_final intro: allowed_run.run_nil)
next
  case (Suc k)
  from gold_perform [OF Suc.prems] Suc.hyps(2) obtain a s1 where
    s1: "gold s = Some a" "is_allowed a s = Some True" "PerformAction perform_without_history a s = Some s1"
      "inv s1" "on_gold s1" "Suc (steps_left s1) = steps_left s"
    by auto
  then have "k = steps_left s1" using Suc.hyps(2) by simp
  with Suc.hyps(1) [of s1] s1(4,5) obtain acts s' where s':
    "drive is_final (PerformAction perform_without_history) gold k s1 = Some s'"
    "allowed_run is_allowed (PerformAction perform_without_history) s1 acts s'"
    "length acts = k" "inv s'" "on_gold s'" "is_final s' = Some True"
    by auto
  have "drive is_final (PerformAction perform_without_history) gold (steps_left s) s = Some s'"
    using s1 s' Suc.hyps(2) Suc.prems by (auto simp: drive.simps [of _ _ _ "steps_left s"] p_final split: nat.splits)
  with s1 s' Suc.hyps(2) show ?case
    by (intro exI [of _ "a # acts"] exI [of _ s']) (auto intro: allowed_run.run_step)
qed

end

end
