(* ===== verification/Arc_Standard.thy ===== *)
theory Arc_Standard
  imports Transition_Systems
begin

text \<open>
  \<^verbatim>\<open>syntaxnet/arc_standard_transitions.cc\<close>: the arc-standard transition system. Actions are 32-bit
  integers (\<open>0\<close> is SHIFT, odd codes are LEFT-ARC and positive even codes RIGHT-ARC, with the
  label in the upper bits); the transition state has no fields and is the unit type.

  Lemmas: encoding and decoding of actions; the invariant \<open>arc_inv\<close> of reachable states (the
  stack is a strictly increasing sequence of tokens above the root at the bottom); every
  allowed action is performed without abort, keeps the invariant and lowers
  \<open>arc_steps_left\<close> by one, which interprets \<open>parser_transition_system\<close>. The oracle is the
  subject of the theory \<open>Arc_Standard_Oracle\<close>.
\<close>

unbundle bit_operations_syntax

type_synonym arc_state = "unit parser_state"

subsection \<open>The transition state\<close>

definition arc_Clone :: "unit \<Rightarrow> unit" where
  "arc_Clone ts = ()"

definition arc_Init :: "arc_state \<Rightarrow> arc_state option" where
  "arc_Init s = Push (-1) s"

definition arc_annotate :: "arc_state \<Rightarrow> bool \<Rightarrow> int \<Rightarrow> sentence \<Rightarrow> sentence option" where
  "arc_annotate s rewrite_root_labels i sentence = do {
     token \<leftarrow> sent_token_at sentence i;
     l \<leftarrow> Label s i;
     label \<leftarrow> LabelAsString s l;
     let token = token\<lparr>tok_label := label\<rparr>;
     h \<leftarrow> Head s i;
     if h \<noteq> -1 then set_token sentence i (set_head h token)
     else do {
       let token = clear_head token;
       root \<leftarrow> LabelAsString s (RootLabel s);
       set_token sentence i (if rewrite_root_labels then token\<lparr>tok_label := root\<rparr> else token) } }"

definition arc_AddParseToDocument :: "unit \<Rightarrow> arc_state \<Rightarrow> bool \<Rightarrow> sentence \<Rightarrow> sentence option" where
  "arc_AddParseToDocument ts s rewrite_root_labels sentence =
     foreach (arc_annotate s rewrite_root_labels) [0..NumTokens s - 1] sentence"

definition arc_IsTokenCorrect :: "unit \<Rightarrow> arc_state \<Rightarrow> int \<Rightarrow> bool option" where
  "arc_IsTokenCorrect ts s index = do {
     g \<leftarrow> GoldHead s index; h \<leftarrow> Head s index; Some (g = h) }"

definition arc_ToString :: "unit \<Rightarrow> arc_state \<Rightarrow> string option" where
  "arc_ToString ts s = do {
     str \<leftarrow> foreach (\<lambda>i str. do {
         token \<leftarrow> GetToken s (Stack s i);
         let str = (if i \<noteq> StackSize s - 1 then str @ '' '' else str);
         Some (str @ (if tok_word token = [] then kRootLabel else tok_word token)) })
       (rev [0..StackSize s - 1]) ''['';
     let str = str @ '']'';
     next \<leftarrow> Next s;
     foreach (\<lambda>i str. do { token \<leftarrow> GetToken s i; Some (str @ '' '' @ tok_word token) })
       [next..NumTokens s - 1] str }"

subsection \<open>Action codes\<close>

definition SHIFT :: int where "SHIFT = 0"
definition LEFT_ARC :: int where "LEFT_ARC = 1"
definition RIGHT_ARC :: int where "RIGHT_ARC = 2"

definition ShiftAction :: parser_action where
  "ShiftAction = SHIFT"

definition LeftArcAction :: "int \<Rightarrow> parser_action" where
  "LeftArcAction label = wrap32 (1 + wrap32 (push_bit 1 label))"

definition RightArcAction :: "int \<Rightarrow> parser_action" where
  "RightArcAction label = wrap32 (1 + (wrap32 (push_bit 1 label) OR 1))"

definition ActionType :: "parser_action \<Rightarrow> int" where
  "ActionType action = (if action < 1 then action else 1 + (NOT action AND 1))"

definition action_Label :: "parser_action \<Rightarrow> int" where
  "action_Label action = (if action < 1 then -1 else drop_bit 1 (action - 1))"

definition arc_NumActions :: "int \<Rightarrow> int" where
  "arc_NumActions num_labels = 1 + 2 * num_labels"

subsection \<open>Oracle and default action\<close>

definition arc_GetDefaultAction :: "arc_state \<Rightarrow> parser_action" where
  "arc_GetDefaultAction s = (if \<not> EndOfInput s then ShiftAction else RightArcAction 2)"

function DoneChildrenRightOf_loop :: "arc_state \<Rightarrow> int \<Rightarrow> int \<Rightarrow> bool option" where
  "DoneChildrenRightOf_loop s head index =
     (if index < token_size (ps_sentence s) then do {
        actual_head \<leftarrow> GoldHead s index;
        if actual_head = head then Some False
        else if actual_head > index then DoneChildrenRightOf_loop s head actual_head
        else DoneChildrenRightOf_loop s head (index + 1) }
      else Some True)"
  by pat_completeness auto
termination
  by (relation "measure (\<lambda>(s, head, index). nat (token_size (ps_sentence s) - index))") auto

declare DoneChildrenRightOf_loop.simps [simp del]

definition DoneChildrenRightOf :: "arc_state \<Rightarrow> int \<Rightarrow> bool option" where
  "DoneChildrenRightOf s head = do { index \<leftarrow> Next s; DoneChildrenRightOf_loop s head index }"

definition arc_GetNextGoldAction :: "arc_state \<Rightarrow> parser_action option" where
  "arc_GetNextGoldAction s =
     (if StackSize s < 2 then do { check (\<not> EndOfInput s); Some ShiftAction }
      else do {
        g0 \<leftarrow> GoldHead s (Stack s 0);
        done0 \<leftarrow> (if g0 = Stack s 1 then DoneChildrenRightOf s (Stack s 0) else Some False);
        if done0 then do {
          gold_label \<leftarrow> GoldLabel s (Stack s 0);
          Some (RightArcAction gold_label) }
        else do {
          g1 \<leftarrow> GoldHead s (Stack s 1);
          top \<leftarrow> Top s;
          if g1 = top then do {
            gold_label \<leftarrow> GoldLabel s (Stack s 1);
            Some (LeftArcAction gold_label) }
          else Some ShiftAction } })"

subsection \<open>Allowed actions and their effect\<close>

definition IsAllowedShift :: "arc_state \<Rightarrow> bool" where
  "IsAllowedShift s \<longleftrightarrow> \<not> EndOfInput s"

definition IsAllowedLeftArc :: "arc_state \<Rightarrow> bool" where
  "IsAllowedLeftArc s \<longleftrightarrow> StackSize s > 2"

definition IsAllowedRightArc :: "arc_state \<Rightarrow> bool" where
  "IsAllowedRightArc s \<longleftrightarrow> StackSize s > 1"

definition arc_IsAllowedAction :: "parser_action \<Rightarrow> arc_state \<Rightarrow> bool" where
  "arc_IsAllowedAction action s =
     (if ActionType action = SHIFT then IsAllowedShift s
      else if ActionType action = LEFT_ARC then IsAllowedLeftArc s
      else if ActionType action = RIGHT_ARC then IsAllowedRightArc s
      else False)"

definition PerformShift :: "arc_state \<Rightarrow> arc_state option" where
  "PerformShift s = do { next \<leftarrow> Next s; s \<leftarrow> Push next s; Advance s }"

definition PerformLeftArc :: "int \<Rightarrow> arc_state \<Rightarrow> arc_state option" where
  "PerformLeftArc label s = do {
     (s0, s) \<leftarrow> Pop s;
     (s1, s) \<leftarrow> Pop s;
     s \<leftarrow> AddArc s1 s0 label s;
     Push s0 s }"

definition PerformRightArc :: "int \<Rightarrow> arc_state \<Rightarrow> arc_state option" where
  "PerformRightArc label s = do {
     (s0, s) \<leftarrow> Pop s;
     (s1, s) \<leftarrow> Pop s;
     s \<leftarrow> AddArc s0 s1 label s;
     Push s1 s }"

definition arc_PerformActionWithoutHistory :: "parser_action \<Rightarrow> arc_state \<Rightarrow> arc_state option" where
  "arc_PerformActionWithoutHistory action s =
     (if ActionType action = SHIFT then PerformShift s
      else if ActionType action = LEFT_ARC then PerformLeftArc (action_Label action) s
      else if ActionType action = RIGHT_ARC then PerformRightArc (action_Label action) s
      else Some s)"

definition arc_IsDeterministicState :: "arc_state \<Rightarrow> bool" where
  "arc_IsDeterministicState s \<longleftrightarrow> StackSize s < 2 \<and> \<not> EndOfInput s"

definition arc_IsFinalState :: "arc_state \<Rightarrow> bool" where
  "arc_IsFinalState s \<longleftrightarrow> EndOfInput s \<and> StackSize s < 2"

subsection \<open>Action strings and meta data\<close>

definition arc_ActionAsString :: "parser_action \<Rightarrow> arc_state \<Rightarrow> string option" where
  "arc_ActionAsString action s =
     (if ActionType action = SHIFT then Some ''SHIFT''
      else if ActionType action = LEFT_ARC then
        do { l \<leftarrow> LabelAsString s (action_Label action); Some (''LEFT_ARC('' @ l @ '')'') }
      else if ActionType action = RIGHT_ARC then
        do { l \<leftarrow> LabelAsString s (action_Label action); Some (''RIGHT_ARC('' @ l @ '')'') }
      else Some ''UNKNOWN'')"

definition ChildIndex :: "arc_state \<Rightarrow> parser_action \<Rightarrow> int option" where
  "ChildIndex s action =
     (if ActionType action = SHIFT then Some (-1)
      else if ActionType action = LEFT_ARC then Some (Stack s 1)
      else if ActionType action = RIGHT_ARC then Some (Stack s 0)
      else None)"

definition ParentIndex :: "arc_state \<Rightarrow> parser_action \<Rightarrow> int option" where
  "ParentIndex s action =
     (if ActionType action = SHIFT then Some (-1)
      else if ActionType action = LEFT_ARC then Some (Stack s 0)
      else if ActionType action = RIGHT_ARC then Some (Stack s 1)
      else None)"

definition new_arc_state :: "sentence \<Rightarrow> term_frequency_map \<Rightarrow> arc_state option" where
  "new_arc_state sentence label_map = ParserState arc_Init sentence (Some ()) label_map"

subsection \<open>Encoding and decoding of actions\<close>

lemma int_or_1: "push_bit 1 l OR 1 = 2 * l + (1::int)"
  by (simp add: or_one_eq push_bit_eq_mult)

lemma not_and_1: "NOT a AND 1 = (if even a then 1 else (0::int))"
  by (simp add: and_one_eq not_int_def mod2_eq_if)

lemma arc_codes:
  assumes "0 \<le> label" "label < 2 ^ 30 - 1"
  shows "LeftArcAction label = 1 + 2 * label" and "RightArcAction label = 2 + 2 * label"
  using assms wrap32_id [of "2 * label"] wrap32_id [of "1 + 2 * label"] wrap32_id [of "2 + 2 * label"]
  by (simp_all add: LeftArcAction_def RightArcAction_def int32_range_def push_bit_eq_mult or_one_eq mult.commute [of label 2])

lemma arc_decode:
  assumes "0 \<le> label" "label < 2 ^ 30 - 1"
  shows "ActionType (LeftArcAction label) = LEFT_ARC" "action_Label (LeftArcAction label) = label"
    "ActionType (RightArcAction label) = RIGHT_ARC" "action_Label (RightArcAction label) = label"
  using assms by (simp_all add: arc_codes ActionType_def action_Label_def not_and_1 LEFT_ARC_def RIGHT_ARC_def
      drop_bit_eq_div)

lemma shift_decode: "ActionType ShiftAction = SHIFT" "action_Label ShiftAction = -1"
  by (simp_all add: ActionType_def action_Label_def ShiftAction_def SHIFT_def)

lemma ActionType_cases:
  "ActionType a = SHIFT \<longleftrightarrow> a = 0"
  "ActionType a = LEFT_ARC \<longleftrightarrow> 0 < a \<and> odd a"
  "ActionType a = RIGHT_ARC \<longleftrightarrow> 0 < a \<and> even a"
  by (auto simp: ActionType_def SHIFT_def LEFT_ARC_def RIGHT_ARC_def not_and_1 split: if_splits)

text \<open>
  The action codes of the arc-standard system are a bijection between the codes below
  \<open>NumActions\<close> and SHIFT, LEFT-ARC and RIGHT-ARC with a label of the label map: every code is the
  code of its own type and label, and every arc decodes to the type and label it was made from,
  without overflow of the 32-bit action.
\<close>

theorem arc_actions_bijective:
  assumes "0 \<le> num_labels" and "num_labels < 2 ^ 30"
  shows "(\<forall>l. 0 \<le> l \<and> l < num_labels \<longrightarrow>
      ActionType (LeftArcAction l) = LEFT_ARC \<and> action_Label (LeftArcAction l) = l \<and>
      ActionType (RightArcAction l) = RIGHT_ARC \<and> action_Label (RightArcAction l) = l) \<and>
    (\<forall>a. 0 \<le> a \<and> a < arc_NumActions num_labels \<longrightarrow>
      (if ActionType a = SHIFT then a = ShiftAction
       else if ActionType a = LEFT_ARC then a = LeftArcAction (action_Label a)
       else ActionType a = RIGHT_ARC \<and> a = RightArcAction (action_Label a)) \<and>
      (a \<noteq> ShiftAction \<longrightarrow> 0 \<le> action_Label a \<and> action_Label a < num_labels))"
proof (intro conjI allI impI)
  fix a assume a: "0 \<le> a \<and> a < arc_NumActions num_labels"
  then have l: "0 \<le> action_Label a \<and> action_Label a < num_labels" if "a \<noteq> 0"
    using that by (auto simp: action_Label_def arc_NumActions_def drop_bit_eq_div)
  consider "a = 0" | b where "a = 2 * b + 1" "0 \<le> b" | b where "a = 2 * b + 2" "0 \<le> b"
  proof -
    have "a = 0 \<or> (\<exists>b. a = 2 * b + 1 \<and> 0 \<le> b) \<or> (\<exists>b. a = 2 * b + 2 \<and> 0 \<le> b)"
      using a by presburger
    then show thesis using that by blast
  qed
  then show "if ActionType a = SHIFT then a = ShiftAction
       else if ActionType a = LEFT_ARC then a = LeftArcAction (action_Label a)
       else ActionType a = RIGHT_ARC \<and> a = RightArcAction (action_Label a)"
  proof cases
    case 1
    then show ?thesis by (simp add: ActionType_def ShiftAction_def SHIFT_def)
  next
    case 2
    then show ?thesis using l assms
      by (simp add: ActionType_cases arc_codes action_Label_def drop_bit_eq_div)
  next
    case 3
    then have "(1 + 2 * b) div 2 = b" by simp
    with 3 show ?thesis using l assms
      by (simp add: ActionType_cases arc_codes action_Label_def drop_bit_eq_div add.commute)
  qed
  assume "a \<noteq> ShiftAction"
  with l show "0 \<le> action_Label a" "action_Label a < num_labels" by (auto simp: ShiftAction_def SHIFT_def)
qed (use assms in \<open>auto simp: arc_decode\<close>)

theorem arc_actions_bijective_witness:
  "ActionType (RightArcAction 4) = RIGHT_ARC \<and> action_Label (RightArcAction 4) = 4 \<and>
   RightArcAction 4 = 10 \<and> 10 = RightArcAction (action_Label 10)"
proof -
  have "RightArcAction 4 = 10" "ActionType 10 = RIGHT_ARC" "action_Label 10 = 4" by code_simp+
  then show ?thesis using arc_actions_bijective [of 7] by simp
qed

subsection \<open>The invariant of reachable states\<close>

definition arc_inv :: "arc_state \<Rightarrow> bool" where
  "arc_inv s \<longleftrightarrow> ps_wf s \<and> ps_transition_state s \<noteq> None \<and> 0 \<le> ps_next s \<and>
     (\<exists>ts. ps_stack s = -1 # ts \<and> sorted_wrt (<) (-1 # ts) \<and> (\<forall>t \<in> set ts. t < ps_next s))"

definition arc_steps_left :: "arc_state \<Rightarrow> nat" where
  "arc_steps_left s = nat (2 * (ps_num_tokens s - ps_next s) + StackSize s - 1)"

lemma arc_invD:
  assumes "arc_inv s"
  shows "ps_wf s" "0 \<le> ps_next s" "ps_next s \<le> ps_num_tokens s" "ps_stack s \<noteq> []"
    "StackSize s \<le> ps_next s + 1" "1 \<le> StackSize s"
proof -
  from assms obtain ts where ts: "ps_stack s = -1 # ts" "sorted_wrt (<) (-1 # ts)"
      "\<forall>t \<in> set ts. t < ps_next s" and wf: "ps_wf s" "0 \<le> ps_next s"
    by (auto simp: arc_inv_def)
  then show "ps_wf s" "0 \<le> ps_next s" "ps_stack s \<noteq> []" "1 \<le> StackSize s"
    by (auto simp: StackSize_def)
  show "ps_next s \<le> ps_num_tokens s" using ps_wfD [OF wf(1)] by simp
  have "set (ps_stack s) \<subseteq> {-1..<ps_next s}" using ts wf by (force simp: less_imp_le)
  moreover have "distinct (ps_stack s)" using ts(1,2) strict_sorted_iff by metis
  ultimately have "length (ps_stack s) \<le> card {-1..<ps_next s}"
    using card_mono distinct_card by (metis finite_atLeastLessThan_int)
  then show "StackSize s \<le> ps_next s + 1" using wf by (simp add: StackSize_def)
qed

text \<open>The shapes of the stack that an action meets.\<close>

lemma arc_stack_two:
  assumes inv: "arc_inv s" and two: "1 < StackSize s"
  obtains xs s1 s0 where "ps_stack s = xs @ [s1, s0]" "-1 \<le> s1" "s1 < s0" "0 \<le> s0"
    "s0 < ps_next s" "s1 < ps_next s" "Stack s 0 = s0" "Stack s 1 = s1"
    "2 < StackSize s \<longrightarrow> 0 \<le> s1 \<and> xs \<noteq> []"
proof -
  from inv obtain ts where ts: "ps_stack s = -1 # ts" "sorted_wrt (<) (-1 # ts)"
      "\<forall>t \<in> set ts. t < ps_next s" "0 \<le> ps_next s"
    by (auto simp: arc_inv_def)
  obtain us s0 where us: "ts = us @ [s0]" using ts(1) two by (cases ts rule: rev_cases) (auto simp: StackSize_def)
  have st: "Stack s 0 = rev (ps_stack s) ! 0" "Stack s 1 = rev (ps_stack s) ! 1"
    using two by (simp_all add: Stack_eq)
  show thesis
  proof (cases us rule: rev_cases)
    case Nil
    then show thesis using that [of "[]" "-1" s0] ts us st by (auto simp: StackSize_def)
  next
    case (snoc vs s1)
    then show thesis using that [of "-1 # vs" s1 s0] ts us st
      by (auto simp: StackSize_def sorted_wrt_append)
  qed
qed

lemma PerformShift_eq:
  assumes inv: "arc_inv s" and more: "\<not> EndOfInput s"
  shows "PerformShift s = Some (s\<lparr>ps_stack := ps_stack s @ [ps_next s], ps_next := ps_next s + 1\<rparr>)"
proof -
  have lt: "ps_next s < ps_num_tokens s" using more arc_invD(3) [OF inv] by (simp add: EndOfInput_def)
  then have "StackSize s \<le> ps_num_tokens s" using arc_invD(5) [OF inv] by simp
  then show ?thesis using Push_wf [OF arc_invD(1) [OF inv], of "ps_next s"] lt arc_invD(1) [OF inv]
    by (simp add: PerformShift_def Advance_def)
qed

lemma PerformLeftArc_eq:
  assumes inv: "arc_inv s" and st: "ps_stack s = xs @ [s1, s0]" and s1: "0 \<le> s1" "s1 < ps_num_tokens s"
  shows "PerformLeftArc l s = Some (s\<lparr>ps_stack := xs @ [s0], ps_head := (ps_head s)[nat s1 := s0],
    ps_label := (ps_label s)[nat s1 := l]\<rparr>)"
proof -
  note wf = arc_invD(1) [OF inv]
  have n: "int (length (ps_stack s)) \<le> ps_num_tokens s + 1" using ps_wfD(6) [OF wf] .
  show ?thesis using st s1 n ps_wfD(2,3) [OF wf]
    by (simp add: PerformLeftArc_def Pop_def AddArc_def Push_def StackEmpty_def butlast_append)
qed

lemma PerformRightArc_eq:
  assumes inv: "arc_inv s" and st: "ps_stack s = xs @ [s1, s0]" and s0: "0 \<le> s0" "s0 < ps_num_tokens s"
  shows "PerformRightArc l s = Some (s\<lparr>ps_stack := xs @ [s1], ps_head := (ps_head s)[nat s0 := s1],
    ps_label := (ps_label s)[nat s0 := l]\<rparr>)"
proof -
  note wf = arc_invD(1) [OF inv]
  have n: "int (length (ps_stack s)) \<le> ps_num_tokens s + 1" using ps_wfD(6) [OF wf] .
  show ?thesis using st s0 n ps_wfD(2,3) [OF wf]
    by (simp add: PerformRightArc_def Pop_def AddArc_def Push_def StackEmpty_def butlast_append)
qed

lemma arc_inv_shift:
  assumes inv: "arc_inv s" and more: "\<not> EndOfInput s"
  shows "arc_inv (s\<lparr>ps_stack := ps_stack s @ [ps_next s], ps_next := ps_next s + 1\<rparr>)"
proof -
  have lt: "ps_next s < ps_num_tokens s" using more arc_invD(3) [OF inv] by (simp add: EndOfInput_def)
  then have "StackSize s \<le> ps_num_tokens s" using arc_invD(5) [OF inv] by simp
  with inv lt show ?thesis by (fastforce simp: arc_inv_def ps_wf_def StackSize_def sorted_wrt_append)
qed

lemma arc_inv_reduce:
  assumes inv: "arc_inv s" and st: "ps_stack s = xs @ [s1, s0]" and x: "x = s1 \<or> x = s0 \<and> xs \<noteq> []"
  shows "arc_inv (s\<lparr>ps_stack := xs @ [x], ps_head := (ps_head s)[i := h], ps_label := (ps_label s)[j := l]\<rparr>)"
proof -
  from inv st obtain ts where ts: "xs @ [s1, s0] = -1 # ts" "sorted_wrt (<) (xs @ [s1, s0])"
      "\<forall>t \<in> set ts. t < ps_next s" by (auto simp: arc_inv_def)
  obtain us where us: "xs @ [x] = -1 # us" "set us \<subseteq> set ts" using ts(1) x by (cases xs) fastforce+
  have "length us = length xs" using arg_cong [OF us(1), of length] by simp
  moreover have "\<forall>t \<in> set us. t < ps_next s" using us(2) ts(3) by blast
  moreover have "sorted_wrt (<) (-1 # us)" unfolding us(1) [symmetric] using ts(2) x by (auto simp: sorted_wrt_append)
  ultimately show ?thesis using inv st us(1) by (auto simp: arc_inv_def ps_wf_def)
qed

lemma arc_perform:
  assumes inv: "arc_inv s" and al: "arc_IsAllowedAction a s"
  shows "\<exists>s'. arc_PerformActionWithoutHistory a s = Some s' \<and> arc_inv s' \<and>
    Suc (arc_steps_left s') = arc_steps_left s \<and>
    ps_history s' = ps_history s \<and> ps_keep_history s' = ps_keep_history s \<and>
    ps_sentence s' = ps_sentence s \<and> ps_label_map s' = ps_label_map s"
proof -
  note bounds = arc_invD(2,3,5,6) [OF inv]
  consider "a = 0" "\<not> EndOfInput s" | "ActionType a = LEFT_ARC" "2 < StackSize s"
    | "ActionType a = RIGHT_ARC" "1 < StackSize s"
    using al by (auto simp: arc_IsAllowedAction_def IsAllowedShift_def IsAllowedLeftArc_def
        IsAllowedRightArc_def ActionType_cases split: if_splits)
  then show ?thesis
  proof cases
    case 1
    then show ?thesis using PerformShift_eq [OF inv] arc_inv_shift [OF inv] bounds
      by (auto simp: arc_PerformActionWithoutHistory_def ActionType_cases arc_steps_left_def StackSize_def EndOfInput_def)
  next
    case 2
    obtain xs s1 s0 where st: "ps_stack s = xs @ [s1, s0]" "s1 < ps_next s" "0 \<le> s1" "xs \<noteq> []"
      using arc_stack_two [OF inv] 2(2) by (metis one_less_numeral_iff less_trans semiring_norm(76))
    have r: "arc_PerformActionWithoutHistory a s = PerformLeftArc (action_Label a) s"
      using 2 by (simp add: arc_PerformActionWithoutHistory_def LEFT_ARC_def SHIFT_def)
    show ?thesis using PerformLeftArc_eq [OF inv st(1)] arc_inv_reduce [OF inv st(1)] st bounds
      by (auto simp: r arc_steps_left_def StackSize_def)
  next
    case 3
    obtain xs s1 s0 where st: "ps_stack s = xs @ [s1, s0]" "s0 < ps_next s" "0 \<le> s0"
      using arc_stack_two [OF inv 3(2)] by metis
    have r: "arc_PerformActionWithoutHistory a s = PerformRightArc (action_Label a) s"
      using 3 by (simp add: arc_PerformActionWithoutHistory_def LEFT_ARC_def SHIFT_def RIGHT_ARC_def)
    show ?thesis using PerformRightArc_eq [OF inv st(1)] arc_inv_reduce [OF inv st(1)] st bounds
      by (auto simp: r arc_steps_left_def StackSize_def)
  qed
qed

interpretation arc: parser_transition_system
  "\<lambda>a s. Some (arc_IsAllowedAction a s)" "\<lambda>s. Some (arc_IsFinalState s)"
  arc_PerformActionWithoutHistory arc_inv arc_steps_left
proof unfold_locales
  fix s :: arc_state and a h
  assume inv: "arc_inv s"
  note bounds = arc_invD(2,3,5,6) [OF inv]
  show "Some (arc_IsFinalState s) = Some (arc_steps_left s = 0)"
    using bounds by (auto simp: arc_IsFinalState_def arc_steps_left_def EndOfInput_def)
  show "\<exists>b. Some (arc_IsAllowedAction a s) = Some b" by simp
  show "arc_inv (s\<lparr>ps_history := h\<rparr>)" using inv by (simp add: arc_inv_def ps_wf_cong)
  assume al: "Some (arc_IsAllowedAction a s) = Some True"
  then show "0 < arc_steps_left s" using bounds
    by (auto simp: arc_IsAllowedAction_def IsAllowedShift_def IsAllowedLeftArc_def IsAllowedRightArc_def
        arc_steps_left_def EndOfInput_def split: if_splits)
  show "\<exists>s'. arc_PerformActionWithoutHistory a s = Some s' \<and> arc_inv s' \<and>
      Suc (arc_steps_left s') = arc_steps_left s \<and>
      ps_history s' = ps_history s \<and> ps_keep_history s' = ps_keep_history s \<and>
      ps_sentence s' = ps_sentence s \<and> ps_label_map s' = ps_label_map s"
    using arc_perform [OF inv] al by simp
qed (simp_all add: arc_steps_left_def StackSize_def arc_IsAllowedAction_def IsAllowedShift_def
    IsAllowedLeftArc_def IsAllowedRightArc_def EndOfInput_def)

lemma new_arc_state_inv:
  assumes "tfm_inv label_map"
  shows "\<exists>s. new_arc_state sentence label_map = Some s \<and> arc_inv s \<and>
    ps_sentence s = sentence \<and> ps_label_map s = label_map \<and> ps_next s = 0 \<and> ps_stack s = [-1] \<and>
    ps_head s = replicate (nat (token_size sentence)) (-1) \<and> ps_keep_history s = False \<and>
    ps_history s = [] \<and> arc_steps_left s = nat (2 * token_size sentence)"
  using Push_wf [OF ps_wf_fresh [OF assms, of sentence "Some ()"], of "-1"]
  by (simp add: new_arc_state_def ParserState_def arc_Init_def Let_def fresh_state_def StackSize_def
      arc_inv_def arc_steps_left_def)

text \<open>
  C5: The arc-standard parser, started on any sentence and driven by any sequence of allowed
  actions, never aborts and cannot get stuck before the end: from a state reached by such a run
  every allowed action is performed, a state is final exactly after twice as many actions as
  there are tokens, no action is allowed in a final state, one is allowed in every other state,
  and the history holds exactly the actions performed.
\<close>

theorem arc_run_exact:
  assumes "tfm_inv label_map" and "new_arc_state sentence label_map = Some s0"
    and "allowed_run (\<lambda>a s. Some (arc_IsAllowedAction a s))
           (PerformAction arc_PerformActionWithoutHistory) s0 acts s"
  shows "int (length acts) \<le> 2 * token_size sentence \<and>
    (arc_IsFinalState s \<longleftrightarrow> int (length acts) = 2 * token_size sentence) \<and>
    (arc_IsFinalState s \<longleftrightarrow> (\<forall>a. \<not> arc_IsAllowedAction a s)) \<and>
    (\<forall>a. arc_IsAllowedAction a s \<longrightarrow> PerformAction arc_PerformActionWithoutHistory a s \<noteq> None) \<and>
    ps_history s = acts"
proof -
  have s0: "arc_inv s0" "arc_steps_left s0 = nat (2 * token_size sentence)" "\<not> ps_keep_history s0" "ps_history s0 = []"
    using new_arc_state_inv [OF assms(1), of sentence] assms(2) by auto
  have inv: "arc_inv s" using arc.ts.run_steps [OF assms(3) s0(1)] by simp
  have stuck: "arc_IsFinalState s \<longleftrightarrow> (\<forall>a. \<not> arc_IsAllowedAction a s)"
  proof
    assume "arc_IsFinalState s"
    then show "\<forall>a. \<not> arc_IsAllowedAction a s"
      using arc.p_final [OF inv] arc.p_allowed_not_final [OF inv] by fastforce
  next
    assume "\<forall>a. \<not> arc_IsAllowedAction a s"
    then have "\<not> arc_IsAllowedAction 0 s" "\<not> arc_IsAllowedAction 2 s" by auto
    then show "arc_IsFinalState s"
      using ActionType_cases [of 0] ActionType_cases [of 2] arc_invD(6) [OF inv]
      by (auto simp: arc_IsFinalState_def arc_IsAllowedAction_def IsAllowedShift_def IsAllowedRightArc_def
          SHIFT_def LEFT_ARC_def RIGHT_ARC_def split: if_splits)
  qed
  moreover have "PerformAction arc_PerformActionWithoutHistory a s \<noteq> None" if "arc_IsAllowedAction a s" for a
    using arc.perform_records [OF inv, of a] that by auto
  ultimately show ?thesis
    using arc.ts.run_bounded [OF assms(3) s0(1)] arc.ts.run_final [OF assms(3) s0(1)]
      arc.recorded_run [OF assms(3) s0(1)] s0(2-4) by auto
qed

theorem arc_run_exact_witness:
  "\<exists>s0 s. new_arc_state three_tokens empty_tfm = Some s0 \<and>
     allowed_run (\<lambda>a s. Some (arc_IsAllowedAction a s))
       (PerformAction arc_PerformActionWithoutHistory) s0 [0, 0] s \<and>
     ps_history s = [0, 0] \<and> \<not> arc_IsFinalState s"
proof -
  obtain s0 where s0: "new_arc_state three_tokens empty_tfm = Some s0"
    using new_arc_state_inv [OF tfm_inv_empty, of three_tokens] by blast
  let ?run = "do { s \<leftarrow> new_arc_state three_tokens empty_tfm;
      s1 \<leftarrow> PerformAction arc_PerformActionWithoutHistory 0 s;
      s2 \<leftarrow> PerformAction arc_PerformActionWithoutHistory 0 s1;
      Some (arc_IsAllowedAction 0 s \<and> arc_IsAllowedAction 0 s1) }"
  have "?run = Some True" by code_simp
  then obtain s1 s2 where
    "PerformAction arc_PerformActionWithoutHistory 0 s0 = Some s1" "arc_IsAllowedAction 0 s0"
    "PerformAction arc_PerformActionWithoutHistory 0 s1 = Some s2" "arc_IsAllowedAction 0 s1"
    by (auto simp: s0 bind_eq_Some_conv)
  then have run: "allowed_run (\<lambda>a s. Some (arc_IsAllowedAction a s))
      (PerformAction arc_PerformActionWithoutHistory) s0 [0, 0] s2"
    by (auto intro!: allowed_run.intros)
  have "token_size three_tokens = 3" by (simp add: three_tokens_def token_size_def)
  then have "ps_history s2 = [0, 0] \<and> \<not> arc_IsFinalState s2"
    using arc_run_exact [OF tfm_inv_empty s0 run] by simp
  with s0 run show ?thesis by (intro exI [of _ s0] exI [of _ s2]) simp
qed

end
