(* ===== verification/Dependency_Trees.thy ===== *)
theory Dependency_Trees
  imports SyntaxNet_Prelude
begin

text \<open>
  Specification vocabulary for dependency trees, independent of the code: the heads of a
  sentence are a list of integers, \<open>-1\<close> is the artificial root to the left of all tokens.

  \<^item> \<open>well_ranged\<close>: heads are the root or tokens; \<open>rooted\<close>: every token reaches the root (no
    cycle); \<open>noncrossing\<close>: no two arcs cross, arcs from the root included.
  \<^item> \<open>below hs a i\<close>: token \<open>i\<close> is \<open>a\<close> or a descendant of \<open>a\<close>.
  \<^item> \<open>projective\<close>: every token under an arc descends from the head of the arc.

  Lemmas: \<open>below\<close> is a partial order on a rooted tree; a rooted tree is projective when it is
  noncrossing; the descendants of a token of a projective tree form an interval; depths, and
  how moving a token to its grandparent changes them.
\<close>

definition head_at :: "int list \<Rightarrow> int \<Rightarrow> int" where
  "head_at hs i = (if 0 \<le> i \<and> i < int (length hs) then hs ! nat i else -1)"

definition well_ranged :: "int list \<Rightarrow> bool" where
  "well_ranged hs \<longleftrightarrow> (\<forall>h \<in> set hs. -1 \<le> h \<and> h < int (length hs))"

definition rooted :: "int list \<Rightarrow> bool" where
  "rooted hs \<longleftrightarrow> (\<forall>i \<in> set [0..int (length hs) - 1]. (head_at hs ^^ length hs) i = -1)"

definition arc_left :: "int list \<Rightarrow> int \<Rightarrow> int" where
  "arc_left hs i = min i (head_at hs i)"

definition arc_right :: "int list \<Rightarrow> int \<Rightarrow> int" where
  "arc_right hs i = max i (head_at hs i)"

definition crosses :: "int list \<Rightarrow> int \<Rightarrow> int \<Rightarrow> bool" where
  "crosses hs i j \<longleftrightarrow>
     arc_left hs i < arc_left hs j \<and> arc_left hs j < arc_right hs i \<and> arc_right hs i < arc_right hs j"

definition noncrossing :: "int list \<Rightarrow> bool" where
  "noncrossing hs \<longleftrightarrow>
     (\<forall>i \<in> set [0..int (length hs) - 1]. \<forall>j \<in> set [0..int (length hs) - 1]. \<not> crosses hs i j)"

definition below :: "int list \<Rightarrow> int \<Rightarrow> int \<Rightarrow> bool" where
  "below hs a i \<longleftrightarrow> (\<exists>k. (head_at hs ^^ k) i = a)"

definition projective :: "int list \<Rightarrow> bool" where
  "projective hs \<longleftrightarrow>
     (\<forall>i k. 0 \<le> i \<and> i < int (length hs) \<and> arc_left hs i < k \<and> k < arc_right hs i \<longrightarrow>
        below hs (head_at hs i) k)"

subsection \<open>The root and the order \<open>below\<close>\<close>

lemma head_at_root [simp]: "head_at hs (-1) = -1"
  by (simp add: head_at_def)

lemma funpow_head_root [simp]: "(head_at hs ^^ k) (-1) = -1"
  by (induction k) simp_all

lemma head_at_range:
  "well_ranged hs \<Longrightarrow> -1 \<le> head_at hs i \<and> (0 \<le> i \<and> i < int (length hs) \<longrightarrow> head_at hs i < int (length hs))"
  by (auto simp: head_at_def well_ranged_def)

lemma funpow_reaches_root_mono:
  "(head_at hs ^^ k) i = -1 \<Longrightarrow> k \<le> m \<Longrightarrow> (head_at hs ^^ m) i = -1"
  using funpow_add [of "m - k" k "head_at hs"] by simp

lemma below_refl [simp]: "below hs i i"
  unfolding below_def by (rule exI [of _ 0]) simp

lemma below_trans: "below hs a b \<Longrightarrow> below hs b c \<Longrightarrow> below hs a c"
  unfolding below_def by (metis comp_apply funpow_add)

lemma below_head: "below hs (head_at hs i) i"
  unfolding below_def by (rule exI [of _ 1]) simp

lemma below_headI: "below hs a (head_at hs i) \<Longrightarrow> below hs a i"
  using below_head below_trans by blast

lemma below_step: "below hs a i \<Longrightarrow> i \<noteq> a \<Longrightarrow> below hs a (head_at hs i)"
  unfolding below_def by (metis (no_types, lifting) comp_apply funpow_0 funpow_Suc_right not0_implies_Suc)

lemma below_of_root: "below hs a (-1) \<Longrightarrow> a = -1"
  by (auto simp: below_def)

lemma rooted_reaches: "rooted hs \<Longrightarrow> -1 \<le> i \<Longrightarrow> \<exists>k. (head_at hs ^^ k) i = -1"
proof -
  assume r: "rooted hs" and i: "-1 \<le> i"
  show ?thesis
  proof (cases "0 \<le> i \<and> i < int (length hs)")
    case True
    with r show ?thesis by (auto simp: rooted_def)
  next
    case False
    then have "(head_at hs ^^ 1) i = -1" by (auto simp: head_at_def)
    then show ?thesis by blast
  qed
qed

lemma below_root: "rooted hs \<Longrightarrow> -1 \<le> i \<Longrightarrow> below hs (-1) i"
  using rooted_reaches by (simp add: below_def)

lemma funpow_period: "(f ^^ p) x = x \<Longrightarrow> (f ^^ (m * p)) x = x" for f :: "'a \<Rightarrow> 'a"
proof (induction m)
  case (Suc m)
  then show ?case using funpow_add [of p "m * p" f] by simp
qed simp

lemma below_antisym:
  assumes "rooted hs" and "-1 \<le> b" and "below hs a b" and "below hs b a"
  shows "a = b"
proof (rule ccontr)
  assume "a \<noteq> b"
  obtain p q where pq: "(head_at hs ^^ p) b = a" "(head_at hs ^^ q) a = b"
    using assms(3,4) by (auto simp: below_def)
  then have "p \<noteq> 0" using \<open>a \<noteq> b\<close> by (cases p) auto
  have per: "(head_at hs ^^ (q + p)) b = b" using pq funpow_add [of q p "head_at hs"] by simp
  obtain k where "(head_at hs ^^ k) b = -1" using rooted_reaches [OF assms(1,2)] by blast
  moreover have "k \<le> k * (q + p)" using \<open>p \<noteq> 0\<close> by simp
  ultimately have "(head_at hs ^^ (k * (q + p))) b = -1" by (rule funpow_reaches_root_mono)
  with funpow_period [OF per, of k] have "b = -1" by simp
  with pq \<open>a \<noteq> b\<close> show False by simp
qed

lemma head_neq_self: "rooted hs \<Longrightarrow> 0 \<le> i \<Longrightarrow> head_at hs i \<noteq> i"
proof
  assume "rooted hs" "0 \<le> i" "head_at hs i = i"
  moreover from this have "(head_at hs ^^ k) i = i" for k by (induction k) simp_all
  ultimately show False using rooted_reaches [of hs i] by auto
qed

lemma not_below_own_child:
  "rooted hs \<Longrightarrow> 0 \<le> i \<Longrightarrow> \<not> below hs i (head_at hs i)"
  using below_antisym [of hs i "head_at hs i"] below_head [of hs i] head_neq_self [of hs i]
  by (metis order_trans neg_le_0_iff_le zero_le_one)

subsection \<open>Projectivity\<close>

lemma noncrossingD:
  assumes "noncrossing hs" and "0 \<le> i" "i < int (length hs)" and "0 \<le> j" "j < int (length hs)"
  shows "\<not> crosses hs i j"
  using assms by (auto simp: noncrossing_def)

lemma noncrossing_covered:
  assumes nc: "noncrossing hs" and wr: "well_ranged hs"
    and i: "0 \<le> i" "i < int (length hs)"
    and reach: "(head_at hs ^^ m) k = -1"
    and k: "arc_left hs i < k" "k < arc_right hs i"
  shows "below hs (head_at hs i) k"
  using reach k
proof (induction m arbitrary: k)
  case 0
  then show ?case using head_at_range [OF wr, of i] i by (auto simp: arc_left_def)
next
  case (Suc m)
  let ?h = "head_at hs k"
  have k0: "0 \<le> k" "k < int (length hs)"
    using Suc.prems(2,3) head_at_range [OF wr, of i] i by (auto simp: arc_left_def arc_right_def)
  have "\<not> crosses hs i k" "\<not> crosses hs k i" using noncrossingD [OF nc] i k0 by auto
  then have in_arc: "arc_left hs i \<le> ?h" "?h \<le> arc_right hs i"
    using Suc.prems(2,3) by (auto simp: crosses_def arc_left_def arc_right_def min_def max_def split: if_splits)
  have "below hs (head_at hs i) ?h"
  proof (cases "?h = i \<or> ?h = head_at hs i")
    case True
    then show ?thesis by (auto simp: below_head)
  next
    case False
    have "(head_at hs ^^ m) ?h = -1" using Suc.prems(1) by (simp add: funpow_swap1)
    moreover have "arc_left hs i < ?h" "?h < arc_right hs i"
      using in_arc False by (auto simp: arc_left_def arc_right_def min_def max_def split: if_splits)
    ultimately show ?thesis by (rule Suc.IH)
  qed
  then show ?case by (rule below_headI)
qed

lemma noncrossing_projective:
  assumes "noncrossing hs" and "well_ranged hs" and "rooted hs"
  shows "projective hs"
  unfolding projective_def
proof (intro allI impI)
  fix i k
  assume a: "0 \<le> i \<and> i < int (length hs) \<and> arc_left hs i < k \<and> k < arc_right hs i"
  then have "-1 \<le> k" using head_at_range [OF assms(2), of i] by (auto simp: arc_left_def)
  then obtain m where "(head_at hs ^^ m) k = -1" using rooted_reaches [OF assms(3)] by blast
  then show "below hs (head_at hs i) k" using noncrossing_covered assms(1,2) a by blast
qed

lemma projectiveD:
  "projective hs \<Longrightarrow> 0 \<le> i \<Longrightarrow> i < int (length hs) \<Longrightarrow> head_at hs i < k \<Longrightarrow> k < i \<Longrightarrow> below hs (head_at hs i) k"
  "projective hs \<Longrightarrow> 0 \<le> i \<Longrightarrow> i < int (length hs) \<Longrightarrow> i < k \<Longrightarrow> k < head_at hs i \<Longrightarrow> below hs (head_at hs i) k"
  by (auto simp: projective_def arc_left_def arc_right_def)

text \<open>The descendants of a token form an interval.\<close>

lemma below_interval:
  assumes pr: "projective hs" and wr: "well_ranged hs" and c: "below hs a c" "c < int (length hs)"
    and x: "(a < x \<and> x < c) \<or> (c < x \<and> x < a)"
  shows "below hs a x"
proof -
  obtain k where "(head_at hs ^^ k) c = a" using c(1) by (auto simp: below_def)
  then show ?thesis using c(2) x
  proof (induction k arbitrary: c)
    case 0
    then show ?case by auto
  next
    case (Suc k)
    let ?h = "head_at hs c"
    have hk: "(head_at hs ^^ k) ?h = a" using Suc.prems(1) by (simp add: funpow_swap1)
    show ?case
    proof (cases "0 \<le> c")
      case False
      then have h: "?h = -1" by (simp add: head_at_def)
      with hk have a: "a = -1" by simp
      with False Suc.prems(3) have "c < x" "x < -1" by auto
      then have "head_at hs x = -1" by (simp add: head_at_def)
      then show ?thesis using a below_head [of hs x] by simp
    next
      case True
      have hr: "?h < int (length hs)" using head_at_range [OF wr, of c] True Suc.prems(2) by simp
      have bh: "below hs a ?h" using hk by (auto simp: below_def)
      consider "x = ?h" | "(?h < x \<and> x < c) \<or> (c < x \<and> x < ?h)" | "(a < x \<and> x < ?h) \<or> (?h < x \<and> x < a)"
        using Suc.prems(3) by linarith
      then show ?thesis
      proof cases
        case 1
        with bh show ?thesis by simp
      next
        case 2
        then have "below hs ?h x" using projectiveD [OF pr True Suc.prems(2)] by blast
        with bh show ?thesis by (rule below_trans)
      next
        case 3
        with Suc.IH [OF hk hr] show ?thesis by blast
      qed
    qed
  qed
qed

subsection \<open>Building and changing trees\<close>

lemma rootedI:
  assumes wr: "well_ranged hs"
    and reach: "\<And>i. 0 \<le> i \<Longrightarrow> i < int (length hs) \<Longrightarrow> \<exists>k. (head_at hs ^^ k) i = -1"
  shows "rooted hs"
  unfolding rooted_def
proof
  fix i assume "i \<in> set [0..int (length hs) - 1]"
  then have i: "0 \<le> i" "i < int (length hs)" by auto
  let ?f = "head_at hs"
  define k where "k = (LEAST k. (?f ^^ k) i = -1)"
  have k: "(?f ^^ k) i = -1" unfolding k_def using reach [OF i] by (rule LeastI_ex)
  have least: "(?f ^^ j) i \<noteq> -1" if "j < k" for j using that not_less_Least unfolding k_def by blast
  have range: "(?f ^^ j) i \<in> {0..<int (length hs)}" if "j < k" for j
    using that
  proof (induction j)
    case (Suc j)
    then show ?case using least [of "Suc j"] head_at_range [OF wr, of "(?f ^^ j) i"] by force
  qed (use i in auto)
  have "inj_on (\<lambda>j. (?f ^^ j) i) {..<k}"
  proof (rule linorder_inj_onI')
    fix a b assume ab: "a \<in> {..<k}" "b \<in> {..<k}" "a < b"
    show "(?f ^^ a) i \<noteq> (?f ^^ b) i"
    proof
      assume eq: "(?f ^^ a) i = (?f ^^ b) i"
      have "(?f ^^ (k - b + a)) i = (?f ^^ (k - b)) ((?f ^^ b) i)" using eq by (simp add: funpow_add)
      also have "\<dots> = (?f ^^ (k - b + b)) i" by (simp add: funpow_add)
      also have "\<dots> = -1" using ab k by simp
      finally have "\<not> k - b + a < k" using least [of "k - b + a"] by blast
      then show False using ab by auto
    qed
  qed
  then have "k = card ((\<lambda>j. (?f ^^ j) i) ` {..<k})" by (simp add: card_image)
  also have "\<dots> \<le> card {0..<int (length hs)}" by (rule card_mono) (use range in auto)
  finally have "k \<le> length hs" by simp
  with k show "(?f ^^ length hs) i = -1" by (rule funpow_reaches_root_mono)
qed

lemma head_at_update:
  "0 \<le> i \<Longrightarrow> i < int (length hs) \<Longrightarrow> head_at (hs[nat i := h]) j = (if j = i then h else head_at hs j)"
  by (auto simp: head_at_def nth_list_update nat_eq_iff2)

lemma well_ranged_update:
  "well_ranged hs \<Longrightarrow> -1 \<le> h \<Longrightarrow> h < int (length hs) \<Longrightarrow> well_ranged (hs[i := h])"
  unfolding well_ranged_def using set_update_subset_insert [of hs i h] by auto

lemma funpow_update_avoid:
  assumes "0 \<le> i" "i < int (length hs)" and "\<not> below hs i x"
  shows "(head_at (hs[nat i := h]) ^^ k) x = (head_at hs ^^ k) x"
proof (induction k)
  case (Suc k)
  have "(head_at hs ^^ k) x \<noteq> i" using assms(3) by (auto simp: below_def)
  with Suc show ?case using assms(1,2) by (simp add: head_at_update)
qed simp

lemma rooted_update:
  assumes wr: "well_ranged hs" and r: "rooted hs" and i: "0 \<le> i" "i < int (length hs)"
    and h: "-1 \<le> h" "h < int (length hs)" and nb: "\<not> below hs i h"
  shows "rooted (hs[nat i := h])"
proof (rule rootedI)
  show "well_ranged (hs[nat i := h])" using well_ranged_update wr h by blast
  let ?g = "head_at (hs[nat i := h])"
  obtain m where "(head_at hs ^^ m) h = -1" using rooted_reaches [OF r h(1)] by blast
  then have m: "(?g ^^ m) h = -1" using funpow_update_avoid [OF i nb] by simp
  have *: "\<exists>k. (?g ^^ k) x = -1" if "(head_at hs ^^ n) x = -1" for n x
    using that
  proof (induction n arbitrary: x)
    case 0
    then show ?case by (auto intro: exI [of _ 0])
  next
    case (Suc n)
    show ?case
    proof (cases "x = i")
      case True
      then have "(?g ^^ Suc m) x = -1" using m i by (simp add: funpow_swap1 head_at_update)
      then show ?thesis by blast
    next
      case False
      from Suc.IH [of "head_at hs x"] Suc.prems obtain k where "(?g ^^ k) (head_at hs x) = -1"
        by (auto simp: funpow_swap1)
      then have "(?g ^^ Suc k) x = -1" using False i by (simp add: funpow_swap1 head_at_update)
      then show ?thesis by blast
    qed
  qed
  fix x :: int assume "0 \<le> x"
  then show "\<exists>k. (?g ^^ k) x = -1" using * rooted_reaches [OF r, of x] by force
qed

text \<open>A token under an arc, or below a token to its right, has its head within reach.\<close>

lemma head_le_of_below:
  assumes pr: "projective hs" and rt: "rooted hs" and w: "0 \<le> w" "w < x" "x < int (length hs)"
    and bw: "below hs x w"
  shows "head_at hs w \<le> x"
proof (rule ccontr)
  assume "\<not> head_at hs w \<le> x"
  then have "below hs (head_at hs w) x" using projectiveD(2) [OF pr, of w x] w by simp
  moreover have "below hs x (head_at hs w)" using below_step [OF bw] w by simp
  ultimately have "head_at hs w = x" using below_antisym [OF rt, of x "head_at hs w"] w by simp
  with \<open>\<not> head_at hs w \<le> x\<close> show False by simp
qed

lemma head_le_of_covered:
  assumes pr: "projective hs" and wr: "well_ranged hs" and rt: "rooted hs"
    and w: "0 \<le> w" "w < x" "x < int (length hs)" and cov: "head_at hs x < w"
  shows "head_at hs w \<le> x"
proof (rule ccontr)
  assume n: "\<not> head_at hs w \<le> x"
  have "below hs (head_at hs x) w" using projectiveD(1) [OF pr, of x w] w cov by simp
  then have "below hs (head_at hs x) (head_at hs w)" using below_step cov by simp
  moreover have "below hs (head_at hs w) x" using projectiveD(2) [OF pr, of w x] w n by simp
  then have "below hs (head_at hs w) (head_at hs x)" using below_step n by force
  ultimately have "head_at hs x = head_at hs w"
    using below_antisym [OF rt, of "head_at hs w" "head_at hs x"] head_at_range [OF wr, of w] by simp
  with cov w n show False by simp
qed

subsection \<open>Depths and lifting\<close>

definition tree_depth :: "int list \<Rightarrow> int \<Rightarrow> nat" where
  "tree_depth hs i = (LEAST k. (head_at hs ^^ k) i = -1)"

definition total_depth :: "int list \<Rightarrow> nat" where
  "total_depth hs = (\<Sum>x \<in> {0..<int (length hs)}. tree_depth hs x)"

lemma depth_reaches: "rooted hs \<Longrightarrow> -1 \<le> i \<Longrightarrow> (head_at hs ^^ tree_depth hs i) i = -1"
  unfolding tree_depth_def using rooted_reaches by (rule LeastI_ex)

lemma depth_le: "(head_at hs ^^ k) i = -1 \<Longrightarrow> tree_depth hs i \<le> k"
  unfolding tree_depth_def by (rule Least_le)

lemma depth_root [simp]: "tree_depth hs (-1) = 0"
  using depth_le [where hs = hs and k = 0 and i = "-1"] by simp

lemma depth_step:
  assumes "rooted hs" and "well_ranged hs" and "0 \<le> i"
  shows "tree_depth hs i = Suc (tree_depth hs (head_at hs i))"
proof (rule antisym)
  have "-1 \<le> head_at hs i" using head_at_range [OF assms(2)] by simp
  from depth_reaches [OF assms(1) this] have "(head_at hs ^^ Suc (tree_depth hs (head_at hs i))) i = -1"
    by (simp add: funpow_swap1)
  then show "tree_depth hs i \<le> Suc (tree_depth hs (head_at hs i))" by (rule depth_le)
  have d: "(head_at hs ^^ tree_depth hs i) i = -1" using depth_reaches assms by simp
  then obtain k where k: "tree_depth hs i = Suc k" using assms(3) by (cases "tree_depth hs i") auto
  with d have "(head_at hs ^^ k) (head_at hs i) = -1" by (simp add: funpow_swap1)
  then show "Suc (tree_depth hs (head_at hs i)) \<le> tree_depth hs i" using depth_le k by simp
qed

definition lifted :: "int list \<Rightarrow> int \<Rightarrow> int list" where
  "lifted hs i = hs[nat i := head_at hs (head_at hs i)]"

lemma lift_reaches:
  assumes "0 \<le> i" "i < int (length hs)" and "head_at hs i \<noteq> -1"
  shows "(head_at hs ^^ k) x = -1 \<Longrightarrow> \<exists>j \<le> k. (head_at (lifted hs i) ^^ j) x = -1 \<and> (x = i \<longrightarrow> j < k)"
proof (induction k arbitrary: x rule: less_induct)
  case (less k)
  let ?f = "head_at hs" and ?g = "head_at (lifted hs i)"
  have g: "?g y = (if y = i then ?f (?f i) else ?f y)" for y
    using head_at_update [OF assms(1,2)] by (simp add: lifted_def)
  show ?case
  proof (cases "x = i")
    case True
    have "k \<noteq> 0" using less.prems True assms(1) by (cases k) auto
    moreover have "k \<noteq> 1" using less.prems True assms(3) by auto
    ultimately obtain m where k: "k = Suc (Suc m)" by (metis One_nat_def not0_implies_Suc)
    then have "(?f ^^ m) (?f (?f i)) = -1" using less.prems True by (simp add: funpow_swap1)
    with less.IH [of m] k obtain j where "j \<le> m" "(?g ^^ j) (?f (?f i)) = -1" by auto
    then have "(?g ^^ Suc j) x = -1" using True by (simp add: funpow_swap1 g)
    with \<open>j \<le> m\<close> k show ?thesis by (intro exI [of _ "Suc j"]) simp
  next
    case False
    show ?thesis
    proof (cases k)
      case 0
      then show ?thesis using less.prems False by (intro exI [of _ 0]) simp
    next
      case (Suc m)
      then have "(?f ^^ m) (?f x) = -1" using less.prems by (simp add: funpow_swap1)
      with less.IH [of m] Suc obtain j where "j \<le> m" "(?g ^^ j) (?f x) = -1" by auto
      then have "(?g ^^ Suc j) x = -1" using False by (simp add: funpow_swap1 g)
      with \<open>j \<le> m\<close> Suc False show ?thesis by (intro exI [of _ "Suc j"]) simp
    qed
  qed
qed

lemma lifted_tree:
  assumes wr: "well_ranged hs" and r: "rooted hs" and i: "0 \<le> i" "i < int (length hs)" and h: "head_at hs i \<noteq> -1"
  shows "well_ranged (lifted hs i)" "rooted (lifted hs i)" "total_depth (lifted hs i) < total_depth hs"
proof -
  let ?h = "head_at hs i"
  have hr: "0 \<le> ?h" "?h < int (length hs)" using head_at_range [OF wr, of i] i h by auto
  have hh: "-1 \<le> head_at hs ?h" "head_at hs ?h < int (length hs)" using head_at_range [OF wr, of ?h] hr by auto
  show "well_ranged (lifted hs i)" unfolding lifted_def by (rule well_ranged_update [OF wr hh])
  have "\<not> below hs i (head_at hs ?h)"
    using not_below_own_child [OF r i(1)] below_headI by blast
  then show "rooted (lifted hs i)" unfolding lifted_def by (rule rooted_update [OF wr r i hh])
  have le: "tree_depth (lifted hs i) x \<le> tree_depth hs x \<and> (x = i \<longrightarrow> tree_depth (lifted hs i) x < tree_depth hs x)" if "-1 \<le> x" for x
    using lift_reaches [OF i h depth_reaches [OF r that]] depth_le by (meson le_trans le_less_trans)
  have "length (lifted hs i) = length hs" by (simp add: lifted_def)
  moreover have "(\<Sum>x \<in> {0..<int (length hs)}. tree_depth (lifted hs i) x) < (\<Sum>x \<in> {0..<int (length hs)}. tree_depth hs x)"
    by (rule sum_strict_mono_ex1) (use le le [of i] i in \<open>auto intro!: bexI [of _ i]\<close>)
  ultimately show "total_depth (lifted hs i) < total_depth hs" by (simp add: total_depth_def)
qed

lemma below_lifted_head:
  "0 \<le> i \<Longrightarrow> i < int (length hs) \<Longrightarrow> below hs (head_at (lifted hs i) x) x"
  using head_at_update [of i hs "head_at hs (head_at hs i)" x] below_head [of hs] below_headI [of hs]
  by (cases "x = i") (auto simp: lifted_def)

lemma below_lifted:
  assumes "0 \<le> i" "i < int (length hs)" and "below (lifted hs i) a x"
  shows "below hs a x"
proof -
  obtain k where "(head_at (lifted hs i) ^^ k) x = a" using assms(3) by (auto simp: below_def)
  then show ?thesis
  proof (induction k arbitrary: x)
    case (Suc k)
    then have "below hs a (head_at (lifted hs i) x)" by (simp add: funpow_swap1)
    then show ?case using below_lifted_head [OF assms(1,2), of x] below_trans by blast
  qed simp
qed

end
