(* ===== verification/Arc_Standard_Soundness.thy ===== *)
theory Arc_Standard_Soundness
  imports Arc_Standard Dependency_Trees
begin

text \<open>
  Soundness of the arc-standard system: whatever allowed actions a model chooses, the heads of
  a final state form a projective dependency tree. The invariant \<open>arc_sound\<close> says that the
  heads built so far form a forest whose arcs do not cross and cover no token that is still
  on the stack or in the input.
\<close>

definition attached :: "'ts parser_state \<Rightarrow> int \<Rightarrow> bool" where
  "attached s t \<longleftrightarrow> 0 \<le> t \<and> t < ps_next s \<and> t \<notin> set (ps_stack s)"

definition arc_sound :: "'ts parser_state \<Rightarrow> bool" where
  "arc_sound s \<longleftrightarrow>
     well_ranged (ps_head s) \<and> rooted (ps_head s) \<and>
     (\<forall>t. \<not> attached s t \<longrightarrow> head_at (ps_head s) t = -1) \<and>
     (\<forall>t. attached s t \<longrightarrow> arc_right (ps_head s) t < ps_next s) \<and>
     (\<forall>t u. attached s t \<longrightarrow> u \<in> set (ps_stack s) \<longrightarrow>
        \<not> (arc_left (ps_head s) t < u \<and> u < arc_right (ps_head s) t)) \<and>
     (\<forall>t t'. attached s t \<longrightarrow> attached s t' \<longrightarrow> \<not> crosses (ps_head s) t t')"

lemma arc_soundD:
  assumes "arc_sound s"
  shows "well_ranged (ps_head s)" "rooted (ps_head s)"
    "\<not> attached s t \<Longrightarrow> head_at (ps_head s) t = -1"
    "attached s t \<Longrightarrow> arc_right (ps_head s) t < ps_next s"
    "attached s t \<Longrightarrow> u \<in> set (ps_stack s) \<Longrightarrow> \<not> (arc_left (ps_head s) t < u \<and> u < arc_right (ps_head s) t)"
    "attached s t \<Longrightarrow> attached s t' \<Longrightarrow> \<not> crosses (ps_head s) t t'"
  using assms unfolding arc_sound_def by blast+

lemma arc_sound_history: "arc_sound (s\<lparr>ps_history := h\<rparr>) = arc_sound s"
  by (simp add: arc_sound_def attached_def)

lemma head_at_replicate: "head_at (replicate n (-1)) i = -1"
  by (auto simp: head_at_def nat_less_iff)

lemma arc_sound_start:
  assumes "ps_head s = replicate n (-1)" "ps_next s = 0"
  shows "arc_sound s"
proof -
  have "well_ranged (replicate n (-1))" by (simp add: well_ranged_def)
  moreover from this have "rooted (replicate n (-1))"
    by (rule rootedI) (rule exI [of _ 1], simp add: head_at_replicate)
  ultimately show ?thesis using assms by (auto simp: arc_sound_def attached_def head_at_replicate)
qed

lemma arc_sound_shift:
  assumes "arc_sound s"
  shows "arc_sound (s\<lparr>ps_stack := ps_stack s @ [ps_next s], ps_next := ps_next s + 1\<rparr>)" (is "arc_sound ?s")
proof -
  have att: "attached ?s t \<longleftrightarrow> attached s t" for t by (auto simp: attached_def)
  show ?thesis using arc_soundD [OF assms] unfolding arc_sound_def att
    by (auto simp: zless_add1_eq dest: less_imp_le) (metis not_less_iff_gr_or_eq)+
qed

lemma arc_sound_reduce:
  assumes inv: "arc_inv s" and sound: "arc_sound s" and st: "ps_stack s = xs @ [s1, s0]"
    and ch: "(c = s1 \<and> h = s0) \<or> (c = s0 \<and> h = s1)" and c: "0 \<le> c"
  shows "arc_sound (s\<lparr>ps_stack := xs @ [h], ps_head := (ps_head s)[nat c := h], ps_label := ls\<rparr>)" (is "arc_sound ?s")
proof -
  note S = arc_soundD [OF sound]
  let ?hs = "ps_head s"
  obtain ts where ts: "ps_stack s = -1 # ts" "sorted_wrt (<) (ps_stack s)" "\<forall>t \<in> set ts. t < ps_next s"
    using inv by (auto simp: arc_inv_def)
  have len: "int (length ?hs) = ps_num_tokens s" "ps_next s \<le> ps_num_tokens s" "0 \<le> ps_next s"
    using arc_invD [OF inv] ps_wfD(2) by auto
  have all: "\<forall>t \<in> set (ps_stack s). -1 \<le> t \<and> t < ps_next s" using ts len(3) by (auto simp: less_imp_le)
  then have rng: "c < ps_next s" "-1 \<le> h" "h < ps_next s" using ch st by auto
  have srt: "\<forall>x \<in> set xs. x < s1" "s1 < s0" "\<forall>x \<in> set xs. x < s0"
    using ts(2) unfolding st by (auto simp: sorted_wrt_append)
  have cl: "c < int (length ?hs)" using rng len by simp
  have hd: "head_at (?hs[nat c := h]) t = (if t = c then h else head_at ?hs t)" for t
    using head_at_update [OF c cl] .
  have att: "attached ?s t \<longleftrightarrow> attached s t \<or> t = c" for t
    using ch c rng srt by (auto simp: attached_def st)
  have nc: "\<not> attached s c" and hs: "head_at ?hs h = -1" and ne: "c \<noteq> h"
    using ch st srt S(3) [of h] by (auto simp: attached_def)
  have "\<not> below ?hs c h"
  proof
    assume "below ?hs c h"
    then have "below ?hs c (-1)" using below_step [of ?hs c h] ne hs by auto
    then show False using below_of_root c by force
  qed
  then have "rooted (?hs[nat c := h])" using rooted_update [OF S(1,2) c cl] rng len by simp
  moreover have "well_ranged (?hs[nat c := h])" using well_ranged_update [OF S(1)] rng len by simp
  moreover have ends: "arc_left (?hs[nat c := h]) t = (if t = c then s1 else arc_left ?hs t)"
    "arc_right (?hs[nat c := h]) t = (if t = c then s0 else arc_right ?hs t)" for t
    using ch srt by (auto simp: arc_left_def arc_right_def hd)
  moreover have "\<not> crosses (?hs[nat c := h]) t t'" if "attached s t \<or> t = c" "attached s t' \<or> t' = c" for t t'
    using that S(5) [of t s1] S(5) [of t s0] S(5) [of t' s1] S(5) [of t' s0] S(6) [of t t'] st
    by (auto simp: crosses_def ends)
  moreover have "s0 < ps_next s" using all st by auto
  ultimately show ?thesis using S(3,4,5) srt ch nc unfolding arc_sound_def att
    by (auto simp: hd st)
qed

lemma arc_sound_perform:
  assumes inv: "arc_inv s" and sound: "arc_sound s" and al: "arc_IsAllowedAction a s"
    and p: "arc_PerformActionWithoutHistory a s = Some s'"
  shows "arc_sound s'"
proof -
  note bounds = arc_invD(2,3) [OF inv]
  consider "a = 0" "\<not> EndOfInput s" | "ActionType a = LEFT_ARC" "2 < StackSize s"
    | "ActionType a = RIGHT_ARC" "1 < StackSize s"
    using al by (auto simp: arc_IsAllowedAction_def IsAllowedShift_def IsAllowedLeftArc_def
        IsAllowedRightArc_def ActionType_cases split: if_splits)
  then show ?thesis
  proof cases
    case 1
    then show ?thesis using PerformShift_eq [OF inv] arc_sound_shift [OF sound] p
      by (auto simp: arc_PerformActionWithoutHistory_def ActionType_cases)
  next
    case 2
    then have "1 < StackSize s" by simp
    from arc_stack_two [OF inv this] 2(2) obtain xs s1 s0 where
      st: "ps_stack s = xs @ [s1, s0]" "s1 < ps_next s" "0 \<le> s1" by metis
    show ?thesis using PerformLeftArc_eq [OF inv st(1)] arc_sound_reduce [OF inv sound st(1)] st bounds p 2(1)
      by (auto simp: arc_PerformActionWithoutHistory_def LEFT_ARC_def SHIFT_def)
  next
    case 3
    from arc_stack_two [OF inv 3(2)] obtain xs s1 s0 where
      st: "ps_stack s = xs @ [s1, s0]" "s0 < ps_next s" "0 \<le> s0" by metis
    show ?thesis using PerformRightArc_eq [OF inv st(1)] arc_sound_reduce [OF inv sound st(1)] st bounds p 3(1)
      by (auto simp: arc_PerformActionWithoutHistory_def LEFT_ARC_def RIGHT_ARC_def SHIFT_def)
  qed
qed

lemma arc_sound_run:
  "allowed_run (\<lambda>a s. Some (arc_IsAllowedAction a s)) (PerformAction arc_PerformActionWithoutHistory) s acts s' \<Longrightarrow>
     arc_inv s \<Longrightarrow> arc_sound s \<Longrightarrow> arc_sound s'"
proof (induction rule: allowed_run.induct)
  case (run_step a s s1 acts s')
  let ?s = "if ps_keep_history s then s else s\<lparr>ps_history := ps_history s @ [a]\<rparr>"
  have al: "arc_IsAllowedAction a s" using run_step.hyps(1) by simp
  have "arc_PerformActionWithoutHistory a ?s = Some s1" "arc_inv ?s" "arc_sound ?s" "arc_IsAllowedAction a ?s"
    using run_step.hyps(2) run_step.prems al arc.p_inv_history arc.p_allowed_history
    by (auto simp: PerformAction_def Let_def arc_sound_history split: if_splits)
  then have "arc_sound s1" using arc_sound_perform by blast
  moreover have "arc_inv s1" using arc.perform_records [OF run_step.prems(1), of a] run_step.hyps by auto
  ultimately show ?case using run_step.IH by blast
qed simp

lemma final_attached:
  assumes "arc_inv s" and "arc_IsFinalState s" and "0 \<le> t" "t < ps_num_tokens s"
  shows "attached s t"
  using assms by (auto simp: arc_inv_def arc_IsFinalState_def attached_def EndOfInput_def StackSize_def)

text \<open>
  C2: Soundness of the arc-standard system. Whatever allowed actions are performed on a
  sentence, when the parser stops the heads it has assigned form a projective dependency tree:
  each head is a token or the root, following heads from any token reaches the root, and no
  two arcs cross.
\<close>

theorem arc_standard_sound:
  assumes "tfm_inv label_map" and "new_arc_state sentence label_map = Some s0"
    and "allowed_run (\<lambda>a s. Some (arc_IsAllowedAction a s))
           (PerformAction arc_PerformActionWithoutHistory) s0 acts s"
    and "arc_IsFinalState s"
  shows "int (length (ps_head s)) = token_size sentence \<and>
    well_ranged (ps_head s) \<and> rooted (ps_head s) \<and> noncrossing (ps_head s)"
proof -
  have s0: "arc_inv s0" "arc_sound s0" "ps_sentence s0 = sentence"
    using new_arc_state_inv [OF assms(1), of sentence] assms(2) arc_sound_start [of s0] by auto
  have inv: "arc_inv s" "arc_sound s"
    using arc.ts.run_steps [OF assms(3) s0(1)] arc_sound_run [OF assms(3) s0(1,2)] by auto
  have "int (length (ps_head s)) = ps_num_tokens s" using arc_invD(1) [OF inv(1)] ps_wfD(2) by blast
  then have "noncrossing (ps_head s)"
    using arc_soundD(6) [OF inv(2)] final_attached [OF inv(1) assms(4)] by (auto simp: noncrossing_def)
  moreover have "int (length (ps_head s)) = token_size (ps_sentence s)"
    using arc_invD(1) [OF inv(1)] ps_wfD(1,2) by metis
  ultimately show ?thesis using arc_soundD(1,2) [OF inv(2)] arc.recorded_run [OF assms(3) s0(1)] s0(3) by simp
qed

theorem arc_standard_sound_witness:
  "\<exists>s0 s. new_arc_state three_tokens empty_tfm = Some s0 \<and>
     allowed_run (\<lambda>a s. Some (arc_IsAllowedAction a s))
       (PerformAction arc_PerformActionWithoutHistory) s0 [0, 0, 3, 0, 2, 2] s \<and>
     arc_IsFinalState s \<and> ps_head s = [1, -1, 1] \<and>
     well_ranged (ps_head s) \<and> rooted (ps_head s) \<and> noncrossing (ps_head s)"
proof -
  let ?run = "do { s \<leftarrow> new_arc_state three_tokens empty_tfm;
      s1 \<leftarrow> perform_all (\<lambda>a s. Some (arc_IsAllowedAction a s))
        (PerformAction arc_PerformActionWithoutHistory) [0, 0, 3, 0, 2, 2] s;
      Some (arc_IsFinalState s1, ps_head s1) }"
  have "?run = Some (True, [1, -1, 1])" by code_simp
  then obtain s0 s where s: "new_arc_state three_tokens empty_tfm = Some s0"
    "allowed_run (\<lambda>a s. Some (arc_IsAllowedAction a s))
       (PerformAction arc_PerformActionWithoutHistory) s0 [0, 0, 3, 0, 2, 2] s"
    "arc_IsFinalState s" "ps_head s = [1, -1, 1]"
    by (auto simp: bind_eq_Some_conv perform_all_run simp del: perform_all.simps)
  with arc_standard_sound [OF tfm_inv_empty s(1-3)] show ?thesis
    by (intro exI [of _ s0] exI [of _ s]) simp
qed

end
