(* ===== verification/Arc_Standard_Oracle.thy ===== *)
theory Arc_Standard_Oracle
  imports Arc_Standard_Soundness
begin

text \<open>
  The static oracle \<^verbatim>\<open>GetNextGoldAction\<close> of the arc-standard system is correct on projective
  trees. The invariant \<open>arc_gold\<close> of the oracle run says: attached tokens have their gold head
  and label; the gold children of an attached token are attached; and no adjacent pair of the
  stack below the top (\<open>buried\<close>) was left behind while an arc between them could be drawn. The
  key lemma is \<open>oracle_stack\<close>: under the invariant the gold head of the top of the stack,
  when it lies to the left, is the next element of the stack, and no other element of the
  stack descends from the top.
\<close>

subsection \<open>The buried part of the stack\<close>

fun buried :: "int list \<Rightarrow> (int \<Rightarrow> bool) \<Rightarrow> int list \<Rightarrow> bool" where
  "buried hs att (a # b # rest) \<longleftrightarrow>
     head_at hs b \<noteq> a \<and>
     (head_at hs a = b \<longrightarrow> (\<exists>c. 0 \<le> c \<and> c < int (length hs) \<and> head_at hs c = a \<and> \<not> att c)) \<and>
     buried hs att (b # rest)"
| "buried hs att _ \<longleftrightarrow> True"

lemma buried_tl: "buried hs att (a # L) \<Longrightarrow> buried hs att L"
  by (cases L) auto

lemma buried_attach:
  "buried hs att L \<Longrightarrow> head_at hs x \<notin> set L \<Longrightarrow> buried hs (\<lambda>t. att t \<or> t = x) L"
  by (induction hs att L rule: buried.induct) auto

lemma pending_child:
  assumes "projective hs" and "0 \<le> c" "c < int (length hs)" and "head_at hs c < x" and "c \<le> x \<longrightarrow> c = x"
  shows "below hs (head_at hs c) x"
proof (cases "c = x")
  case False
  with assms have "x < c" by linarith
  with assms show ?thesis using projectiveD(1) [of hs c x] by simp
qed (use below_head [of hs c] in simp)

lemma oracle_stack:
  assumes pr: "projective hs" and wr: "well_ranged hs" and rt: "rooted hs"
    and closed: "\<And>t c. att t \<Longrightarrow> 0 \<le> c \<Longrightarrow> c < int (length hs) \<Longrightarrow> head_at hs c = t \<Longrightarrow> att c"
    and root: "\<not> att (-1)"
  shows "sorted_wrt (>) (x # w # rest) \<Longrightarrow> last (w # rest) = -1 \<Longrightarrow>
     (\<forall>u. -1 \<le> u \<and> u \<le> x \<and> \<not> att u \<longrightarrow> u \<in> set (x # w # rest)) \<Longrightarrow>
     (\<forall>u \<in> set (x # w # rest). \<not> att u) \<Longrightarrow> x < int (length hs) \<Longrightarrow> head_at hs w \<noteq> x \<Longrightarrow>
     buried hs att (w # rest) \<Longrightarrow>
     (head_at hs x < x \<longrightarrow> head_at hs x = w) \<and> (\<forall>y \<in> set (w # rest). \<not> below hs x y)"
proof (induction rest arbitrary: x w)
  case Nil
  then have w: "w = -1" and x: "0 \<le> x" "x < int (length hs)" by auto
  have "head_at hs x = -1" if "head_at hs x < x"
  proof -
    have "\<not> att (head_at hs x)" using closed [of "head_at hs x" x] x Nil.prems(4) by auto
    then show ?thesis using Nil.prems(3) that w head_at_range [OF wr, of x] by auto
  qed
  then show ?case using w x below_of_root [of hs x] by auto
next
  case (Cons v rest)
  let ?g = "head_at hs" and ?n = "int (length hs)"
  have srt: "w < x" "v < w" "\<forall>y \<in> set rest. y < v" "sorted_wrt (>) (w # v # rest)"
    using Cons.prems(1) by auto
  have v: "-1 \<le> v" using srt Cons.prems(2)
    by (cases rest) (auto, metis last_in_set less_imp_le)
  have w: "0 \<le> w" "w < ?n" and x: "0 \<le> x" "x < ?n" using v srt Cons.prems(5) by auto
  have b: "?g v \<noteq> w" "buried hs att (v # rest)" "buried hs att (w # v # rest)" using Cons.prems(7) by auto
  have mem: "u = x \<or> u = w \<or> u \<in> set (v # rest)" if "-1 \<le> u" "u \<le> x" "\<not> att u" for u
    using Cons.prems(3) that by auto
  have "\<forall>u. -1 \<le> u \<and> u \<le> w \<and> \<not> att u \<longrightarrow> u \<in> set (w # v # rest)" using mem srt by force
  with Cons.IH [of w v] Cons.prems(2,4) srt b w
  have M': "?g w < w \<longrightarrow> ?g w = v" and L': "\<forall>y \<in> set (v # rest). \<not> below hs w y" by auto
  have up: "\<not> att (?g u)" if "0 \<le> u" "u < ?n" "\<not> att u" for u
    using closed [of "?g u" u] that by blast
  have uw: "\<not> att w" "\<not> att x" using Cons.prems(4) by auto
  have child: "below hs w x" if gw: "?g w = v"
  proof -
    obtain c where c: "0 \<le> c" "c < ?n" "?g c = w" "\<not> att c" using b(3) gw by auto
    have "c \<notin> set (v # rest)" using L' below_head [of hs c] c(3) by metis
    then have "c \<le> x \<longrightarrow> c = x" using mem [of c] c head_neq_self [OF rt c(1)] by auto
    then show ?thesis using pending_child [OF pr c(1,2)] c(3) srt(1) by auto
  qed
  text \<open>When \<open>w\<close> lies under \<open>x\<close> or under an arc that ends in \<open>x\<close>, its head is \<open>v\<close>.\<close>
  have head_w: "?g w = v" if "?g w \<le> x"
  proof -
    have "?g w \<noteq> w" "?g w \<noteq> x" using head_neq_self [OF rt w(1)] Cons.prems(6) by auto
    moreover have "\<not> att (?g w)" using up w uw by blast
    ultimately have "?g w < w" using mem [of "?g w"] that srt head_at_range [OF wr, of w] by auto
    then show ?thesis using M' by simp
  qed
  have no_w: "\<not> below hs x w"
  proof
    assume bw: "below hs x w"
    have "?g w \<le> x" using head_le_of_below [OF pr rt w(1) srt(1) x(2) bw] .
    then have "below hs w x" using child head_w by blast
    then show False using below_antisym [OF rt _ bw] x w srt by force
  qed
  have "\<not> below hs x y" if "y \<in> set (w # v # rest)" for y
  proof (cases "y = w")
    case False
    then have "y < w" using that srt by auto
    then show ?thesis using below_interval [OF pr wr, of x y w] no_w srt x by auto
  qed (use no_w in simp)
  moreover have "?g x = w" if "?g x < x"
  proof (rule ccontr)
    assume ne: "?g x \<noteq> w"
    have "?g x \<in> set (v # rest)"
      using mem [of "?g x"] that ne up [OF x uw(2)] head_at_range [OF wr, of x] by auto
    then have r: "?g x < w" using srt by auto
    then have bw: "below hs (?g x) w" using projectiveD(1) [OF pr x, of w] srt by simp
    have "?g w \<le> x" using head_le_of_covered [OF pr wr rt w(1) srt(1) x(2) r] .
    then have "below hs w x" using child head_w by blast
    then have "below hs w (?g x)" using below_step srt by simp
    then show False using below_antisym [OF rt, of w "?g x"] bw r w by force
  qed
  ultimately show ?case by blast
qed

subsection \<open>The scan for children in the input\<close>

lemma gold_head_heads:
  "ps_wf s \<Longrightarrow> -1 \<le> i \<Longrightarrow> i < ps_num_tokens s \<Longrightarrow> gold_head_of s i = head_at (heads (ps_sentence s)) i"
  by (auto simp: gold_head_of_def head_at_def heads_def ps_wfD(1) token_size_def)

lemma all_from_skip:
  fixes a b n :: int
  assumes "a \<le> b" and "\<And>c. a \<le> c \<Longrightarrow> c < b \<Longrightarrow> P c"
  shows "(\<forall>c. a \<le> c \<and> c < n \<longrightarrow> P c) \<longleftrightarrow> (\<forall>c. b \<le> c \<and> c < n \<longrightarrow> P c)"
  using assms by (meson not_le order_trans)

lemma DoneChildrenRightOf_loop_eq:
  assumes "ps_wf s" and "well_ranged (heads (ps_sentence s))" and "noncrossing (heads (ps_sentence s))"
    and "-1 \<le> head" "head < index"
  shows "DoneChildrenRightOf_loop s head index =
    Some (\<forall>c. index \<le> c \<and> c < ps_num_tokens s \<longrightarrow> head_at (heads (ps_sentence s)) c \<noteq> head)"
  using assms
proof (induction s head index rule: DoneChildrenRightOf_loop.induct)
  case (1 s head index)
  let ?hs = "heads (ps_sentence s)"
  have n: "token_size (ps_sentence s) = ps_num_tokens s" "int (length ?hs) = ps_num_tokens s"
    using ps_wfD(1) [OF "1.prems"(1)] by (simp_all add: token_size_def)
  show ?case
  proof (cases "index < ps_num_tokens s \<and> head_at ?hs index \<noteq> head")
    case False
    then show ?thesis using "1.prems" n
      by (subst DoneChildrenRightOf_loop.simps) (auto simp: GoldHead_wf gold_head_heads)
  next
    case True
    then have gh: "GoldHead s index = Some (head_at ?hs index)"
      using "1.prems" by (simp add: GoldHead_wf gold_head_heads)
    show ?thesis
    proof (cases "head_at ?hs index > index")
      case False
      have "(\<forall>c. index \<le> c \<and> c < ps_num_tokens s \<longrightarrow> head_at ?hs c \<noteq> head) \<longleftrightarrow>
          (\<forall>c. index + 1 \<le> c \<and> c < ps_num_tokens s \<longrightarrow> head_at ?hs c \<noteq> head)"
        by (rule all_from_skip) (use True in \<open>auto simp: antisym\<close>)
      then show ?thesis using "1.IH"(2) [OF _ gh] False True "1.prems" n gh
        by (subst DoneChildrenRightOf_loop.simps) simp
    next
      case jump: True
      have "head_at ?hs c \<noteq> head" if "index \<le> c" "c < head_at ?hs index" for c
      proof
        assume c: "head_at ?hs c = head"
        then have ne: "c \<noteq> index" using True by auto
        have rng: "head_at ?hs index < ps_num_tokens s"
          using head_at_range [OF "1.prems"(2), of index] True "1.prems"(4,5) n by auto
        have "crosses ?hs c index"
          using c ne that jump "1.prems"(4,5) by (simp add: crosses_def arc_left_def arc_right_def)
        then show False
          using noncrossingD [OF "1.prems"(3), of c index] that "1.prems"(4,5) True n rng by simp
      qed
      then have "(\<forall>c. index \<le> c \<and> c < ps_num_tokens s \<longrightarrow> head_at ?hs c \<noteq> head) \<longleftrightarrow>
          (\<forall>c. head_at ?hs index \<le> c \<and> c < ps_num_tokens s \<longrightarrow> head_at ?hs c \<noteq> head)"
        using jump by (intro all_from_skip) simp_all
      then show ?thesis using "1.IH"(1) [OF _ gh] jump True "1.prems" n gh
        by (subst DoneChildrenRightOf_loop.simps) simp
    qed
  qed
qed

subsection \<open>The invariant of the oracle run\<close>

definition gold_tree :: "'ts parser_state \<Rightarrow> bool" where
  "gold_tree s \<longleftrightarrow>
     well_ranged (heads (ps_sentence s)) \<and> rooted (heads (ps_sentence s)) \<and>
     noncrossing (heads (ps_sentence s)) \<and>
     (\<forall>t. 0 \<le> t \<and> t < ps_num_tokens s \<longrightarrow> 0 \<le> gold_label_of s t \<and> gold_label_of s t < 2 ^ 30 - 1)"

definition arc_gold :: "arc_state \<Rightarrow> bool" where
  "arc_gold s \<longleftrightarrow> gold_tree s \<and>
     (\<forall>t. attached s t \<longrightarrow>
        head_of s t = head_at (heads (ps_sentence s)) t \<and> label_of s t = gold_label_of s t) \<and>
     (\<forall>c. 0 \<le> c \<and> c < ps_num_tokens s \<and> attached s (head_at (heads (ps_sentence s)) c) \<longrightarrow> attached s c) \<and>
     buried (heads (ps_sentence s)) (attached s) (tl (rev (ps_stack s)))"

lemma arc_goldD:
  assumes "arc_gold s"
  shows "gold_tree s"
    "attached s t \<Longrightarrow> head_of s t = head_at (heads (ps_sentence s)) t"
    "attached s t \<Longrightarrow> label_of s t = gold_label_of s t"
    "0 \<le> c \<Longrightarrow> c < ps_num_tokens s \<Longrightarrow> attached s (head_at (heads (ps_sentence s)) c) \<Longrightarrow> attached s c"
    "buried (heads (ps_sentence s)) (attached s) (tl (rev (ps_stack s)))"
  using assms unfolding arc_gold_def by blast+

lemma gold_treeD:
  assumes "gold_tree s"
  shows "well_ranged (heads (ps_sentence s))" "rooted (heads (ps_sentence s))"
    "noncrossing (heads (ps_sentence s))" "projective (heads (ps_sentence s))"
    "0 \<le> t \<Longrightarrow> t < ps_num_tokens s \<Longrightarrow> 0 \<le> gold_label_of s t \<and> gold_label_of s t < 2 ^ 30 - 1"
  using assms noncrossing_projective unfolding gold_tree_def by blast+

text \<open>The stack from the top down, in the form \<open>oracle_stack\<close> needs.\<close>

lemma oracle_view_gen:
  assumes inv: "arc_inv s" and gold: "arc_gold s" and st: "ps_stack s = xs @ [w, x] @ zs"
    and ne: "head_at (heads (ps_sentence s)) w \<noteq> x"
    and bur: "buried (heads (ps_sentence s)) (attached s) (w # rev xs)"
  shows "(head_at (heads (ps_sentence s)) x < x \<longrightarrow> head_at (heads (ps_sentence s)) x = w) \<and>
    (\<forall>y \<in> set (w # rev xs). \<not> below (heads (ps_sentence s)) x y)"
proof (rule oracle_stack [where att = "attached s"])
  note T = gold_treeD [OF arc_goldD(1) [OF gold]]
  show "projective (heads (ps_sentence s))" "well_ranged (heads (ps_sentence s))" "rooted (heads (ps_sentence s))"
    using T by auto
  obtain ts where ts: "ps_stack s = -1 # ts" "sorted_wrt (<) (ps_stack s)" "\<forall>t \<in> set ts. t < ps_next s"
    using inv by (auto simp: arc_inv_def)
  have n: "int (length (heads (ps_sentence s))) = ps_num_tokens s" "ps_next s \<le> ps_num_tokens s" "0 \<le> ps_next s"
    using arc_invD [OF inv] ps_wfD(1) [OF arc_invD(1) [OF inv]] by (auto simp: token_size_def)
  have all: "\<forall>t \<in> set (ps_stack s). t < ps_next s" using ts n(3) by auto
  have above: "\<forall>z \<in> set zs. x < z" using ts(2) by (auto simp: st sorted_wrt_append)
  show "attached s t \<Longrightarrow> 0 \<le> c \<Longrightarrow> c < int (length (heads (ps_sentence s))) \<Longrightarrow>
      head_at (heads (ps_sentence s)) c = t \<Longrightarrow> attached s c" for t c
    using arc_goldD(4) [OF gold] n by auto
  show "\<not> attached s (-1)" by (simp add: attached_def)
  show "sorted_wrt (>) (x # w # rev xs)" using ts(2) by (auto simp: st sorted_wrt_append sorted_wrt_rev)
  show "last (w # rev xs) = -1" using ts(1) st by (cases xs) auto
  then have root: "-1 \<in> set (w # rev xs)" by (metis last_in_set list.distinct(1))
  show "\<forall>u. -1 \<le> u \<and> u \<le> x \<and> \<not> attached s u \<longrightarrow> u \<in> set (x # w # rev xs)"
  proof (intro allI impI)
    fix u assume u: "-1 \<le> u \<and> u \<le> x \<and> \<not> attached s u"
    then have "u = -1 \<or> u \<in> set (ps_stack s)" using all st by (auto simp: attached_def)
    then show "u \<in> set (x # w # rev xs)" using u root above st by auto
  qed
  show "\<forall>u \<in> set (x # w # rev xs). \<not> attached s u" by (auto simp: attached_def st)
  show "x < int (length (heads (ps_sentence s)))" using all st n by auto
qed (use ne bur in auto)

lemma oracle_view:
  assumes "arc_inv s" and "arc_gold s" and "ps_stack s = xs @ [s1, s0]"
    and "head_at (heads (ps_sentence s)) s1 \<noteq> s0"
  shows "(head_at (heads (ps_sentence s)) s0 < s0 \<longrightarrow> head_at (heads (ps_sentence s)) s0 = s1) \<and>
    (\<forall>y \<in> set (s1 # rev xs). \<not> below (heads (ps_sentence s)) s0 y)"
  using oracle_view_gen [of s xs s1 s0 "[]"] assms arc_goldD(5) [OF assms(2)] by simp

lemma oracle_view_below:
  assumes "arc_inv s" and "arc_gold s" and "ps_stack s = ys @ [s2, s1, s0]"
  shows "\<forall>y \<in> set (s2 # rev ys). \<not> below (heads (ps_sentence s)) s1 y"
  using oracle_view_gen [of s ys s2 s1 "[s0]"] assms arc_goldD(5) [OF assms(2)] by simp

lemma arc_gold_shift:
  assumes gold: "arc_gold s" and new: "buried (heads (ps_sentence s)) (attached s) (rev (ps_stack s))"
  shows "arc_gold (s\<lparr>ps_stack := ps_stack s @ [ps_next s], ps_next := ps_next s + 1\<rparr>)" (is "arc_gold ?s")
proof -
  have "attached ?s = attached s" by (auto simp: attached_def fun_eq_iff)
  moreover have "gold_tree ?s" using arc_goldD(1) [OF gold] by (simp add: gold_tree_def gold_label_of_def)
  moreover have "head_of ?s = head_of s" "label_of ?s = label_of s" "gold_label_of ?s = gold_label_of s"
    by (simp_all add: head_of_def label_of_def gold_label_of_def fun_eq_iff)
  ultimately show ?thesis using arc_goldD(2-4) [OF gold] new by (simp add: arc_gold_def)
qed

text \<open>Reducing the stack by an arc from \<open>c\<close> to \<open>h\<close> that is in the gold tree.\<close>

lemma arc_gold_reduce:
  assumes inv: "arc_inv s" and gold: "arc_gold s" and st: "ps_stack s = xs @ [s1, s0]"
    and ch: "(c = s1 \<and> h = s0) \<or> (c = s0 \<and> h = s1)" and c: "0 \<le> c"
    and gh: "head_at (heads (ps_sentence s)) c = h"
    and done_c: "\<forall>d. 0 \<le> d \<and> d < ps_num_tokens s \<and> head_at (heads (ps_sentence s)) d = c \<longrightarrow> attached s d"
  shows "arc_gold (s\<lparr>ps_stack := xs @ [h], ps_head := (ps_head s)[nat c := h],
    ps_label := (ps_label s)[nat c := gold_label_of s c]\<rparr>)" (is "arc_gold ?s")
proof -
  obtain ts where ts: "ps_stack s = -1 # ts" "sorted_wrt (<) (ps_stack s)" "\<forall>t \<in> set ts. t < ps_next s"
    using inv by (auto simp: arc_inv_def)
  have len: "int (length (ps_head s)) = ps_num_tokens s" "int (length (ps_label s)) = ps_num_tokens s"
    "ps_next s \<le> ps_num_tokens s" "0 \<le> ps_next s"
    using arc_invD [OF inv] ps_wfD(2,3) by auto
  have "\<forall>t \<in> set (ps_stack s). t < ps_next s" using ts len(4) by auto
  then have rng: "c < ps_next s" using ch st by auto
  have srt: "\<forall>x \<in> set xs. x < s1" "s1 < s0" "\<forall>x \<in> set xs. x < s0"
    using ts(2) unfolding st by (auto simp: sorted_wrt_append)
  have att: "attached ?s = (\<lambda>t. attached s t \<or> t = c)"
    using ch c rng srt by (auto simp: attached_def st fun_eq_iff)
  have hd: "head_of ?s t = (if t = c then h else head_of s t)"
    "label_of ?s t = (if t = c then gold_label_of s c else label_of s t)" if "-1 \<le> t" for t
    using head_of_AddArc [of c s t] label_of_AddArc [of c s t] that c rng len
    by (simp_all add: head_of_def label_of_def)
  have bur: "buried (heads (ps_sentence s)) (attached s) (rev xs)"
    using arc_goldD(5) [OF gold] buried_tl by (simp add: st)
  have "buried (heads (ps_sentence s)) (\<lambda>t. attached s t \<or> t = c) (rev xs)"
    using buried_attach [OF bur, of c] gh ch srt by auto
  moreover have "gold_tree ?s" using arc_goldD(1) [OF gold] by (simp add: gold_tree_def gold_label_of_def)
  moreover have "gold_label_of ?s = gold_label_of s" by (simp add: gold_label_of_def fun_eq_iff)
  ultimately show ?thesis
    using arc_goldD(2-4) [OF gold] done_c gh c hd unfolding arc_gold_def att
    by (auto simp: attached_def)
qed

lemma arc_gold_right:
  assumes inv: "arc_inv s" and gold: "arc_gold s" and st: "ps_stack s = xs @ [s1, s0]" and s0: "0 \<le> s0" "s0 < ps_next s"
    and g: "head_at (heads (ps_sentence s)) s0 = s1"
    and no: "\<forall>c. ps_next s \<le> c \<and> c < ps_num_tokens s \<longrightarrow> head_at (heads (ps_sentence s)) c \<noteq> s0"
  shows "arc_IsAllowedAction (RightArcAction (gold_label_of s s0)) s \<and>
    (\<forall>s'. arc_PerformActionWithoutHistory (RightArcAction (gold_label_of s s0)) s = Some s' \<longrightarrow> arc_gold s')"
proof -
  let ?hs = "heads (ps_sentence s)"
  note T = gold_treeD [OF arc_goldD(1) [OF gold]] and n = arc_invD(2,3) [OF inv]
  have lab: "0 \<le> gold_label_of s s0" "gold_label_of s s0 < 2 ^ 30 - 1" using T(5) [of s0] s0 n by auto
  have "head_at ?hs s1 \<noteq> s0" using not_below_own_child [OF T(2) s0(1)] below_head [of ?hs s1] g by auto
  from oracle_view [OF inv gold st this]
  have L: "\<forall>y \<in> set (s1 # rev xs). \<not> below ?hs s0 y" by blast
  have "attached s d" if d: "0 \<le> d" "d < ps_num_tokens s" "head_at ?hs d = s0" for d
  proof -
    have "d < ps_next s" using no d not_le by blast
    moreover have "below ?hs s0 d" using below_head [of ?hs d] d by simp
    then have "d \<notin> set (s1 # rev xs)" using L by blast
    moreover have "d \<noteq> s0" using head_neq_self [OF T(2) s0(1)] d by auto
    ultimately show ?thesis using d st by (auto simp: attached_def)
  qed
  then have "arc_gold (s\<lparr>ps_stack := xs @ [s1], ps_head := (ps_head s)[nat s0 := s1],
      ps_label := (ps_label s)[nat s0 := gold_label_of s s0]\<rparr>)"
    using arc_gold_reduce [OF inv gold st, of s0 s1] g s0 by blast
  then show ?thesis using PerformRightArc_eq [OF inv st s0(1), of "gold_label_of s s0"] s0 n
    using arc_decode(3,4) [OF lab] st
    by (simp add: arc_IsAllowedAction_def arc_PerformActionWithoutHistory_def IsAllowedRightArc_def StackSize_def
        SHIFT_def LEFT_ARC_def RIGHT_ARC_def)
qed

lemma arc_gold_left:
  assumes inv: "arc_inv s" and gold: "arc_gold s" and st: "ps_stack s = xs @ [s1, s0]"
    and s0: "0 \<le> s0" "s0 < ps_next s" "-1 \<le> s1" "s1 < s0"
    and g: "head_at (heads (ps_sentence s)) s1 = s0"
  shows "arc_IsAllowedAction (LeftArcAction (gold_label_of s s1)) s \<and>
    (\<forall>s'. arc_PerformActionWithoutHistory (LeftArcAction (gold_label_of s s1)) s = Some s' \<longrightarrow> arc_gold s')"
proof -
  let ?hs = "heads (ps_sentence s)"
  note T = gold_treeD [OF arc_goldD(1) [OF gold]] and n = arc_invD(2,3) [OF inv]
  have s1: "0 \<le> s1" using g s0 by (cases "s1 = -1") auto
  have len: "int (length ?hs) = ps_num_tokens s" using ps_wfD(1) [OF arc_invD(1) [OF inv]] by (simp add: token_size_def)
  obtain ys s2 where xs: "xs = ys @ [s2]" using inv st s1 by (cases xs rule: rev_cases) (auto simp: arc_inv_def)
  have lab: "0 \<le> gold_label_of s s1" "gold_label_of s s1 < 2 ^ 30 - 1" using T(5) [of s1] s1 s0 n by auto
  have L: "\<forall>y \<in> set xs. \<not> below ?hs s1 y"
    using oracle_view_below [OF inv gold, of ys s2 s1 s0] st xs s1 by auto
  have nb: "\<not> below ?hs s1 s0" using not_below_own_child [OF T(2) s1] g by simp
  have "attached s d" if d: "0 \<le> d" "d < ps_num_tokens s" "head_at ?hs d = s1" for d
  proof -
    have bd: "below ?hs s1 d" using below_head [of ?hs d] d by simp
    have "d < ps_next s"
    proof (rule ccontr)
      assume "\<not> d < ps_next s"
      then have "below ?hs s1 s0" using below_interval [OF T(4,1) bd, of s0] d s0 len by simp
      with nb show False ..
    qed
    moreover have "d \<notin> set xs" "d \<noteq> s0" using L bd nb by auto
    moreover have "d \<noteq> s1" using head_neq_self [OF T(2) s1] d by auto
    ultimately show ?thesis using d st by (auto simp: attached_def)
  qed
  then have "arc_gold (s\<lparr>ps_stack := xs @ [s0], ps_head := (ps_head s)[nat s1 := s0],
      ps_label := (ps_label s)[nat s1 := gold_label_of s s1]\<rparr>)"
    using arc_gold_reduce [OF inv gold st, of s1 s0] g s1 by blast
  then show ?thesis using PerformLeftArc_eq [OF inv st s1, of "gold_label_of s s1"] s0 n
    using arc_decode(1,2) [OF lab] st xs
    by (simp add: arc_IsAllowedAction_def arc_PerformActionWithoutHistory_def IsAllowedLeftArc_def StackSize_def
        SHIFT_def LEFT_ARC_def RIGHT_ARC_def)
qed

lemma arc_gold_perform_shift:
  assumes inv: "arc_inv s" and gold: "arc_gold s" and more: "\<not> EndOfInput s"
    and new: "buried (heads (ps_sentence s)) (attached s) (rev (ps_stack s))"
  shows "arc_IsAllowedAction ShiftAction s \<and>
    (\<forall>s'. arc_PerformActionWithoutHistory ShiftAction s = Some s' \<longrightarrow> arc_gold s')"
  using arc_gold_shift [OF gold new] PerformShift_eq [OF inv more] more
  by (simp add: arc_IsAllowedAction_def arc_PerformActionWithoutHistory_def shift_decode IsAllowedShift_def)

lemma arc_oracle_cases:
  assumes inv: "arc_inv s" and gold: "arc_gold s" and st: "ps_stack s = xs @ [s1, s0]"
    and s0: "0 \<le> s0" "s0 < ps_next s" "-1 \<le> s1" "s1 < ps_next s" "Stack s 0 = s0" "Stack s 1 = s1"
  defines "hs \<equiv> heads (ps_sentence s)"
  defines "finished \<equiv> \<forall>c. ps_next s \<le> c \<and> c < ps_num_tokens s \<longrightarrow> head_at hs c \<noteq> s0"
  shows "arc_GetNextGoldAction s =
    Some (if head_at hs s0 = s1 \<and> finished then RightArcAction (gold_label_of s s0)
          else if head_at hs s1 = s0 then LeftArcAction (gold_label_of s s1) else ShiftAction)"
proof -
  note T = gold_treeD [OF arc_goldD(1) [OF gold]] and n = arc_invD(1-3) [OF inv]
  have "DoneChildrenRightOf s s0 = Some finished"
    using DoneChildrenRightOf_loop_eq [OF n(1) T(1,3), of s0 "ps_next s"] s0 n
    by (simp add: DoneChildrenRightOf_def finished_def hs_def)
  moreover have "Top s = Some s0" using st by (simp add: Top_def StackEmpty_def)
  ultimately show ?thesis using st s0 n
    by (simp add: arc_GetNextGoldAction_def StackSize_def GoldHead_wf GoldLabel_wf gold_head_heads hs_def)
qed

lemma arc_gold_step:
  assumes inv: "arc_inv s" and gold: "arc_gold s" and more: "0 < arc_steps_left s"
  shows "\<exists>a. arc_GetNextGoldAction s = Some a \<and> arc_IsAllowedAction a s \<and>
    (\<forall>s'. arc_PerformActionWithoutHistory a s = Some s' \<longrightarrow> arc_gold s')"
proof (cases "StackSize s < 2")
  case True
  then obtain x where x: "ps_stack s = [x]" using arc_invD(6) [OF inv] by (cases "ps_stack s") (auto simp: StackSize_def)
  then have ne: "\<not> EndOfInput s" using more by (auto simp: arc_steps_left_def EndOfInput_def StackSize_def)
  then show ?thesis using True x arc_gold_perform_shift [OF inv gold ne] by (simp add: arc_GetNextGoldAction_def)
next
  case False
  then have "1 < StackSize s" by simp
  from arc_stack_two [OF inv this] obtain xs s1 s0 where st: "ps_stack s = xs @ [s1, s0]"
    and s: "-1 \<le> s1" "s1 < s0" "0 \<le> s0" "s0 < ps_next s" "s1 < ps_next s" "Stack s 0 = s0" "Stack s 1 = s1"
    by metis
  let ?hs = "heads (ps_sentence s)"
  let ?fin = "\<forall>c. ps_next s \<le> c \<and> c < ps_num_tokens s \<longrightarrow> head_at ?hs c \<noteq> s0"
  note orc = arc_oracle_cases [OF inv gold st s(3,4,1,5-7)] and T = gold_treeD [OF arc_goldD(1) [OF gold]]
  consider "head_at ?hs s0 = s1" ?fin | "\<not> (head_at ?hs s0 = s1 \<and> ?fin)" "head_at ?hs s1 = s0"
    | "\<not> (head_at ?hs s0 = s1 \<and> ?fin)" "head_at ?hs s1 \<noteq> s0" by blast
  then show ?thesis
  proof cases
    case 1
    then show ?thesis using orc arc_gold_right [OF inv gold st s(3,4)] by simp
  next
    case 2
    then show ?thesis using orc arc_gold_left [OF inv gold st s(3,4,1,2)] by auto
  next
    case 3
    note n = arc_invD(1-3) [OF inv]
    have len: "int (length ?hs) = ps_num_tokens s" using ps_wfD(1) [OF n(1)] by (simp add: token_size_def)
    have "\<not> EndOfInput s"
    proof
      assume e: "EndOfInput s"
      have "\<not> attached s (head_at ?hs s0)"
        using arc_goldD(4) [OF gold, of s0] s n st by (auto simp: attached_def)
      then have "head_at ?hs s0 \<in> set (ps_stack s) \<or> head_at ?hs s0 = -1"
        using e head_at_range [OF T(1), of s0] s n len by (auto simp: attached_def EndOfInput_def)
      moreover have "sorted_wrt (<) (ps_stack s)" using inv by (auto simp: arc_inv_def)
      then have "\<forall>x \<in> set xs. x < s0" by (auto simp: st sorted_wrt_append)
      ultimately have "head_at ?hs s0 < s0"
        using st s head_neq_self [OF T(2) s(3)] by auto
      then show False using oracle_view [OF inv gold st 3(2)] 3(1) e by (auto simp: EndOfInput_def)
    qed
    moreover have "\<exists>c. 0 \<le> c \<and> c < int (length ?hs) \<and> head_at ?hs c = s0 \<and> \<not> attached s c" if g: "head_at ?hs s0 = s1"
    proof -
      obtain c where "ps_next s \<le> c" "c < ps_num_tokens s" "head_at ?hs c = s0" using 3(1) g by blast
      then show ?thesis using n len by (intro exI [of _ c]) (auto simp: attached_def)
    qed
    then have "buried ?hs (attached s) (rev (ps_stack s))"
      using 3(2) arc_goldD(5) [OF gold] by (simp add: st)
    ultimately show ?thesis using 3 orc arc_gold_perform_shift [OF inv gold] by auto
  qed
qed

lemma DoneChildren_history:
  "DoneChildrenRightOf_loop (s\<lparr>ps_history := h\<rparr>) head index = DoneChildrenRightOf_loop s head index"
proof (induction s head index rule: DoneChildrenRightOf_loop.induct)
  case (1 s head index)
  have "GoldHead (s\<lparr>ps_history := h\<rparr>) index = GoldHead s index" by (simp add: GoldHead_def GetToken_def)
  with 1 show ?case
    by (cases "GoldHead s index") (auto simp: DoneChildrenRightOf_loop.simps [of _ head index])
qed

lemma arc_gold_action_history: "arc_GetNextGoldAction (s\<lparr>ps_history := h\<rparr>) = arc_GetNextGoldAction s"
proof -
  have eq: "GoldHead (s\<lparr>ps_history := h\<rparr>) = GoldHead s" "GoldLabel (s\<lparr>ps_history := h\<rparr>) = GoldLabel s"
    "Stack (s\<lparr>ps_history := h\<rparr>) = Stack s" "StackSize (s\<lparr>ps_history := h\<rparr>) = StackSize s"
    "Top (s\<lparr>ps_history := h\<rparr>) = Top s" "EndOfInput (s\<lparr>ps_history := h\<rparr>) = EndOfInput s"
    "DoneChildrenRightOf (s\<lparr>ps_history := h\<rparr>) = DoneChildrenRightOf s"
    by (simp_all add: GoldHead_def GoldLabel_def GetToken_def RootLabel_def Stack_def StackSize_def Top_def StackEmpty_def
        EndOfInput_def DoneChildrenRightOf_def DoneChildren_history Next_def fun_eq_iff)
  show ?thesis unfolding arc_GetNextGoldAction_def eq ..
qed

interpretation arc_oracle: oracle_system
  "\<lambda>a s. Some (arc_IsAllowedAction a s)" "\<lambda>s. Some (arc_IsFinalState s)"
  arc_PerformActionWithoutHistory arc_inv arc_steps_left arc_GetNextGoldAction arc_gold
proof unfold_locales
  fix s :: arc_state and h
  show "arc_gold (s\<lparr>ps_history := h\<rparr>)" if "arc_gold s"
  proof -
    have "attached (s\<lparr>ps_history := h\<rparr>) = attached s" "head_of (s\<lparr>ps_history := h\<rparr>) = head_of s"
      "label_of (s\<lparr>ps_history := h\<rparr>) = label_of s" "gold_label_of (s\<lparr>ps_history := h\<rparr>) = gold_label_of s"
      by (simp_all add: attached_def head_of_def label_of_def gold_label_of_def fun_eq_iff)
    then show ?thesis using that by (simp add: arc_gold_def gold_tree_def)
  qed
  show "arc_GetNextGoldAction (s\<lparr>ps_history := h\<rparr>) = arc_GetNextGoldAction s"
    by (rule arc_gold_action_history)
  assume "arc_inv s" "arc_gold s" "0 < arc_steps_left s"
  from arc_gold_step [OF this] show "\<exists>a. arc_GetNextGoldAction s = Some a \<and> Some (arc_IsAllowedAction a s) = Some True \<and>
      (\<forall>s'. arc_PerformActionWithoutHistory a s = Some s' \<longrightarrow> arc_gold s')" by simp
qed

subsection \<open>The oracle run\<close>

lemma gold_label_range:
  assumes "tfm_inv label_map" and "Size label_map < 2 ^ 30" and "0 \<le> label_index label_map t"
  shows "label_index label_map t < 2 ^ 30 - 1"
  using tfm.lookup_range [OF assms(1), of "tok_label t" "LookupIndex label_map kRootLabel kDefaultRootLabel"]
    tfm.lookup_range [OF assms(1), of kRootLabel kDefaultRootLabel] assms(2,3)
  by (auto simp: label_index_def kDefaultRootLabel_def)

lemma arc_gold_start:
  assumes m: "tfm_inv label_map" "Size label_map < 2 ^ 30" and s0: "new_arc_state sentence label_map = Some s0"
    and h: "well_ranged (heads sentence)" "rooted (heads sentence)" "noncrossing (heads sentence)"
    and l: "\<forall>t \<in> set (sent_token sentence). 0 \<le> label_index label_map t"
  shows "arc_gold s0"
proof -
  have s: "arc_inv s0" "ps_sentence s0 = sentence" "ps_label_map s0 = label_map" "ps_next s0 = 0" "ps_stack s0 = [-1]"
    using new_arc_state_inv [OF m(1), of sentence] s0 by auto
  note wf = arc_invD(1) [OF s(1)]
  have "0 \<le> gold_label_of s0 t \<and> gold_label_of s0 t < 2 ^ 30 - 1" if "0 \<le> t" "t < ps_num_tokens s0" for t
    using that l gold_label_range [OF m] ps_wfD(1) [OF wf] s
    by (simp add: gold_label_of_eq [OF wf] token_size_def nat_less_iff)
  then show ?thesis using s h by (simp add: arc_gold_def gold_tree_def attached_def)
qed

lemma arc_gold_final:
  assumes inv: "arc_inv s" and gold: "arc_gold s" and fin: "arc_IsFinalState s"
  shows "ps_head s = heads (ps_sentence s)"
    and "ps_label s = map (label_index (ps_label_map s)) (sent_token (ps_sentence s))"
proof -
  note wf = arc_invD(1) [OF inv]
  have n: "length (ps_head s) = length (sent_token (ps_sentence s))" "length (ps_label s) = length (sent_token (ps_sentence s))"
    "int (length (sent_token (ps_sentence s))) = ps_num_tokens s"
    using wf by (auto simp: ps_wf_def token_size_def)
  have g: "head_of s (int i) = head_at (heads (ps_sentence s)) (int i)" "label_of s (int i) = gold_label_of s (int i)"
    if "i < length (sent_token (ps_sentence s))" for i
    using arc_goldD(2,3) [OF gold] final_attached [OF inv fin, of "int i"] that n by auto
  show "ps_head s = heads (ps_sentence s)"
    by (rule nth_equalityI) (use n g(1) in \<open>auto simp: head_of_def head_at_def\<close>)
  show "ps_label s = map (label_index (ps_label_map s)) (sent_token (ps_sentence s))"
    by (rule nth_equalityI) (use n g(2) gold_label_of_eq [OF wf] in \<open>auto simp: label_of_def\<close>)
qed

lemma arc_oracle_run:
  assumes "tfm_inv label_map" and "Size label_map < 2 ^ 30"
    and "well_ranged (heads sentence)" and "rooted (heads sentence)" and "noncrossing (heads sentence)"
    and "\<forall>t \<in> set (sent_token sentence). 0 \<le> label_index label_map t"
  shows "\<exists>s0 acts s. new_arc_state sentence label_map = Some s0 \<and>
    drive (\<lambda>s. Some (arc_IsFinalState s)) (PerformAction arc_PerformActionWithoutHistory)
      arc_GetNextGoldAction (2 * length (sent_token sentence)) s0 = Some s \<and>
    allowed_run (\<lambda>a s. Some (arc_IsAllowedAction a s)) (PerformAction arc_PerformActionWithoutHistory) s0 acts s \<and>
    length acts = 2 * length (sent_token sentence) \<and> arc_IsFinalState s \<and>
    ps_head s = heads sentence \<and> ps_label s = map (label_index label_map) (sent_token sentence)"
proof -
  obtain s0 where s0: "new_arc_state sentence label_map = Some s0" "arc_inv s0" "ps_sentence s0 = sentence"
      "ps_label_map s0 = label_map" "arc_steps_left s0 = 2 * length (sent_token sentence)"
    using new_arc_state_inv [OF assms(1), of sentence] by (auto simp: token_size_def nat_mult_distrib)
  have g0: "arc_gold s0" by (rule arc_gold_start [OF assms(1,2) s0(1) assms(3-6)])
  from arc_oracle.gold_run [OF s0(2) g0] obtain acts s where run:
    "drive (\<lambda>s. Some (arc_IsFinalState s)) (PerformAction arc_PerformActionWithoutHistory)
      arc_GetNextGoldAction (arc_steps_left s0) s0 = Some s"
    "allowed_run (\<lambda>a s. Some (arc_IsAllowedAction a s)) (PerformAction arc_PerformActionWithoutHistory) s0 acts s"
    "length acts = arc_steps_left s0" "arc_inv s" "arc_gold s" "arc_IsFinalState s"
    by auto
  have "ps_sentence s = sentence" "ps_label_map s = label_map"
    using arc.recorded_run [OF run(2) s0(2)] s0 by auto
  with arc_gold_final [OF run(4-6)] run s0 show ?thesis
    by (intro exI [of _ s0] exI [of _ acts] exI [of _ s]) simp
qed

text \<open>
  C1: The oracle of the arc-standard system is correct. For every sentence whose gold heads form
  a projective tree and whose labels have an index, the parser that follows
  \<open>arc_GetNextGoldAction\<close> performs exactly two actions per token, all of them allowed, never
  aborts, and stops with exactly the gold heads and the gold labels.
\<close>

theorem arc_oracle_correct:
  assumes "tfm_inv label_map" and "Size label_map < 2 ^ 30"
    and "well_ranged (heads sentence)" and "rooted (heads sentence)" and "noncrossing (heads sentence)"
    and "\<forall>t \<in> set (sent_token sentence). 0 \<le> label_index label_map t"
  shows "\<exists>s0 acts s. new_arc_state sentence label_map = Some s0 \<and>
    drive (\<lambda>s. Some (arc_IsFinalState s)) (PerformAction arc_PerformActionWithoutHistory)
      arc_GetNextGoldAction (2 * length (sent_token sentence)) s0 = Some s \<and>
    allowed_run (\<lambda>a s. Some (arc_IsAllowedAction a s)) (PerformAction arc_PerformActionWithoutHistory) s0 acts s \<and>
    length acts = 2 * length (sent_token sentence) \<and> arc_IsFinalState s \<and>
    ps_head s = heads sentence \<and> ps_label s = map (label_index label_map) (sent_token sentence)"
  using arc_oracle_run [OF assms] .

text \<open>A sentence of three tokens with a projective gold tree, and its label map.\<close>

definition gold_three :: sentence where
  "gold_three = \<lparr>sent_docid = [], sent_text = [],
     sent_token =
       [(set_head 1 default_token)\<lparr>tok_word := ''dogs'', tok_label := ''nsubj''\<rparr>,
        default_token\<lparr>tok_word := ''chase'', tok_label := ''ROOT''\<rparr>,
        (set_head 1 default_token)\<lparr>tok_word := ''cats'', tok_label := ''dobj''\<rparr>]\<rparr>"

definition label_three :: term_frequency_map where
  "label_three = \<lparr>term_index = [(''ROOT'', 0), (''nsubj'', 1), (''dobj'', 2)],
     term_data = [(''ROOT'', 1), (''nsubj'', 1), (''dobj'', 1)]\<rparr>"

lemma label_three_inv: "tfm_inv label_three"
  by (auto simp: tfm_inv_def label_three_def)

theorem arc_oracle_correct_witness:
  "\<exists>s0 acts s. new_arc_state gold_three label_three = Some s0 \<and>
    drive (\<lambda>s. Some (arc_IsFinalState s)) (PerformAction arc_PerformActionWithoutHistory)
      arc_GetNextGoldAction 6 s0 = Some s \<and>
    allowed_run (\<lambda>a s. Some (arc_IsAllowedAction a s)) (PerformAction arc_PerformActionWithoutHistory) s0 acts s \<and>
    length acts = 6 \<and> arc_IsFinalState s \<and> ps_head s = [1, -1, 1] \<and> ps_label s = [1, 0, 2]"
proof -
  have "Size label_three < 2 ^ 30" "well_ranged (heads gold_three)" "rooted (heads gold_three)"
    "noncrossing (heads gold_three)" "\<forall>t \<in> set (sent_token gold_three). 0 \<le> label_index label_three t"
    by code_simp+
  note w = arc_oracle_correct [OF label_three_inv this]
  have "length (sent_token gold_three) = 3" "heads gold_three = [1, -1, 1]"
    "map (label_index label_three) (sent_token gold_three) = [1, 0, 2]"
    by code_simp+
  moreover from this have "2 * length (sent_token gold_three) = 6" by simp
  ultimately show ?thesis using w by metis
qed

subsection \<open>Writing the parse into the document\<close>

definition annotated :: "arc_state \<Rightarrow> bool \<Rightarrow> nat \<Rightarrow> token \<Rightarrow> token" where
  "annotated s rewrite i t =
     (let h = ps_head s ! i;
          label = (if h = -1 \<and> rewrite then kRootLabel else the (LabelAsString s (ps_label s ! i)))
      in t\<lparr>tok_label := label, tok_head_opt := (if h = -1 then None else Some h)\<rparr>)"

lemma arc_annotate_eq:
  assumes wf: "ps_wf s" and i: "int i < ps_num_tokens s" and d: "token_size d = ps_num_tokens s"
  shows "arc_annotate s rewrite (int i) d = set_token d (int i) (annotated s rewrite i (sent_token d ! i))"
proof -
  obtain l where l: "LabelAsString s (ps_label s ! i) = Some l" using LabelAsString_total [OF wf] by blast
  have r: "LabelAsString s (RootLabel s) = Some kRootLabel" by (simp add: LabelAsString_def RootLabel_def)
  show ?thesis using i d l r
    by (auto simp: arc_annotate_def sent_token_at_in Label_wf [OF wf] Head_wf [OF wf] head_of_def label_of_def
        annotated_def Let_def set_head_def clear_head_def intro!: arg_cong [of _ _ "set_token d (int i)"] token.equality)
qed

lemma arc_add_parse_eq:
  assumes "ps_wf s" and "ps_transition_state s \<noteq> None"
    and "length (sent_token d) = length (sent_token (ps_sentence s))"
  shows "AddParseToDocument arc_AddParseToDocument s d rewrite =
    Some (d\<lparr>sent_token := map (\<lambda>i. annotated s rewrite i (sent_token d ! i)) [0..<length (sent_token d)]\<rparr>)"
proof -
  let ?n = "length (sent_token d)"
  have n: "ps_num_tokens s = int ?n" using ps_wfD(1) [OF assms(1)] assms(3) by (simp add: token_size_def)
  have "foreach (arc_annotate s rewrite) (map int [0..<?n]) d =
      Some (d\<lparr>sent_token := map (\<lambda>i. annotated s rewrite i (sent_token d ! i)) [0..<?n] @ drop ?n (sent_token d)\<rparr>)"
    by (rule foreach_token_update [of ?n]) (use n in \<open>auto simp: token_size_def intro!: arc_annotate_eq [OF assms(1)]\<close>)
  then show ?thesis using assms(2) n
    by (auto simp: AddParseToDocument_def arc_AddParseToDocument_def NumTokens_def upto_map_int)
qed

text \<open>
  \<open>AddParseToDocument\<close> writes the parse. On a document with the tokens of the parsed sentence
  it never aborts, gives each token the head of the parser state (no head for the root) and
  the name of its label (\<^verbatim>\<open>ROOT\<close> for root tokens on request), and changes nothing else.
\<close>

theorem arc_add_parse:
  assumes "ps_wf s" and "ps_transition_state s \<noteq> None"
    and "length (sent_token d) = length (sent_token (ps_sentence s))"
  shows "AddParseToDocument arc_AddParseToDocument s d rewrite =
    Some (d\<lparr>sent_token := map (\<lambda>i. annotated s rewrite i (sent_token d ! i)) [0..<length (sent_token d)]\<rparr>)"
  using arc_add_parse_eq [OF assms] .

theorem arc_add_parse_witness:
  "ps_wf (three_state\<lparr>ps_transition_state := Some ()\<rparr>) \<and>
   AddParseToDocument arc_AddParseToDocument (three_state\<lparr>ps_transition_state := Some ()\<rparr>) three_tokens True =
     Some (three_tokens\<lparr>sent_token := map (\<lambda>i. annotated (three_state\<lparr>ps_transition_state := Some ()\<rparr>) True i
       (sent_token three_tokens ! i)) [0..<3]\<rparr>)"
proof -
  have w: "ps_wf (three_state\<lparr>ps_transition_state := Some ()\<rparr>)" using ps_wf_cong(1) [OF three_state_wf] .
  have n: "length (sent_token three_tokens) = 3"
    "sent_token (ps_sentence (three_state\<lparr>ps_transition_state := Some ()\<rparr>)) = sent_token three_tokens" by code_simp+
  show ?thesis using arc_add_parse [OF w _ arg_cong [OF n(2) [symmetric], of length], of True] w n by simp
qed

end
