(* ===== verification/Document_Filters.thy ===== *)
theory Document_Filters
  imports Sentence_Model Dependency_Trees
begin

text \<open>
  \<^verbatim>\<open>syntaxnet/document_filters.cc\<close>: the kernels \<^verbatim>\<open>WellFormedFilter\<close> (drop documents whose heads
  have a cycle) and \<^verbatim>\<open>ProjectivizeFilter\<close> (lift arcs until no two cross). A head outside the
  sentence makes the code index a vector out of range, which is \<open>None\<close> here. The depth count
  and the outer loop of \<^verbatim>\<open>Process\<close> run forever on a cyclic document; they are option-valued
  recursive functions for which not returning is \<open>None\<close> as well, and the theorems show that
  they return. Serialised documents go through the protocol buffer library, whose parser and
  printer are the parameters \<open>parse\<close> and \<open>serialize\<close> of the kernels.

  Lemmas: \<open>ShouldKeep\<close> decides \<open>rooted\<close>; the bounds that \<^verbatim>\<open>Process\<close> computes are exceeded exactly
  by the arcs that cross another arc; lifting an arc keeps the tree rooted and lowers the sum of
  the depths, so \<^verbatim>\<open>Process\<close> ends, in a tree without crossings.
\<close>

subsection \<open>WellFormedFilter\<close>

text \<open>The loop ends because it turns an unmarked entry into a marked one.\<close>

lemma unmarked_update:
  "n < length xs \<Longrightarrow> xs ! n = -1 \<Longrightarrow>
     length (filter (\<lambda>v. v = -1) (xs[n := int i])) < length (filter (\<lambda>v. v = (-1 :: int)) xs)"
proof (induction xs arbitrary: n)
  case (Cons x xs)
  then show ?case by (cases n) auto
qed simp

lemma unmarked_vec_at:
  "vec_at xs t = Some (-1) \<Longrightarrow>
     length (filter (\<lambda>v. v = -1) (xs[nat t := int i])) < length (filter (\<lambda>v. v = (-1 :: int)) xs)"
  using unmarked_update [of "nat t" xs i] by (auto simp: vec_at_def split: if_splits)

text \<open>The inner loop: mark the tokens from \<open>t\<close> towards the root; \<open>True\<close> when it meets its own mark.\<close>

function visit_chain :: "sentence \<Rightarrow> nat \<Rightarrow> int \<Rightarrow> int list \<Rightarrow> (bool \<times> int list) option" where
  "visit_chain doc i t visited =
     (if t = -1 then Some (False, visited)
      else case vec_at visited t of
        None \<Rightarrow> None
      | Some v \<Rightarrow>
          if v = -1 then
            let visited' = visited[nat t := int i] in
            case sent_token_at doc t of
              None \<Rightarrow> None
            | Some token \<Rightarrow> visit_chain doc i (tok_head token) visited'
          else if v < int i then Some (False, visited)
          else Some (True, visited))"
  by pat_completeness auto

termination
  by (relation "measure (\<lambda>(doc, i, t, visited). length (filter (\<lambda>v. v = -1) visited))")
     (auto intro: unmarked_vec_at)

declare visit_chain.simps [simp del]

fun ShouldKeep_loop :: "bool \<Rightarrow> sentence \<Rightarrow> nat list \<Rightarrow> int list \<Rightarrow> bool option" where
  "ShouldKeep_loop keep_malformed doc [] visited = Some True"
| "ShouldKeep_loop keep_malformed doc (i # is) visited = do {
     v \<leftarrow> vec_at visited (int i);
     if v \<noteq> -1 then ShouldKeep_loop keep_malformed doc is visited
     else do {
       (looped, visited) \<leftarrow> visit_chain doc i (int i) visited;
       if looped then Some keep_malformed else ShouldKeep_loop keep_malformed doc is visited } }"

definition ShouldKeep :: "bool \<Rightarrow> sentence \<Rightarrow> bool option" where
  "ShouldKeep keep_malformed doc =
     (let n = nat (token_size doc) in
      ShouldKeep_loop keep_malformed doc [0..<n] (replicate n (-1)))"

subsection \<open>ProjectivizeFilter\<close>

definition bound_token :: "int \<Rightarrow> int \<Rightarrow> int \<Rightarrow> int list \<times> int list \<Rightarrow> (int list \<times> int list) option" where
  "bound_token l r j lr = do {
     lj \<leftarrow> vec_at (fst lr) j;
     left \<leftarrow> (if lj < l then vec_set (fst lr) j l else Some (fst lr));
     rj \<leftarrow> vec_at (snd lr) j;
     right \<leftarrow> (if rj > r then vec_set (snd lr) j r else Some (snd lr));
     Some (left, right) }"

definition bound_arc :: "sentence \<Rightarrow> int \<Rightarrow> int list \<times> int list \<Rightarrow> (int list \<times> int list) option" where
  "bound_arc doc i lr = do {
     token \<leftarrow> sent_token_at doc i;
     let head_index = tok_head token;
     let l = min i head_index;
     let r = max i head_index;
     foreach (bound_token l r) [l + 1..r - 1] lr }"

definition find_bounds :: "sentence \<Rightarrow> (int list \<times> int list) option" where
  "find_bounds doc =
     (let num_tokens = token_size doc in
      foreach (bound_arc doc) [0..num_tokens - 1]
        (replicate (nat num_tokens) (-1), replicate (nat num_tokens) (num_tokens - 1)))"

text \<open>The loop \<^verbatim>\<open>while (j != -1)\<close> that counts the depth of a token.\<close>

partial_function (option) depth_loop :: "sentence \<Rightarrow> int \<Rightarrow> int \<Rightarrow> int option" where
  "depth_loop doc j depth =
     (if j = -1 then Some depth
      else do { token \<leftarrow> sent_token_at doc j; depth_loop doc (tok_head token) (depth + 1) })"

text \<open>The test whether an arc exceeds the bounds of its ends.\<close>

definition exceeds_bounds :: "int list \<Rightarrow> int list \<Rightarrow> int \<Rightarrow> int \<Rightarrow> bool option" where
  "exceeds_bounds left right i head_index = do {
     let l = min i head_index;
     let r = max i head_index;
     left_l \<leftarrow> vec_at left l;
     left_r \<leftarrow> vec_at left r;
     right_l \<leftarrow> vec_at right l;
     right_r \<leftarrow> vec_at right r;
     let left_bound = max left_l left_r;
     let right_bound = min right_l right_r;
     Some (l < left_bound \<or> r > right_bound) }"

text \<open>
  The search for the deepest crossing arc; the result \<open>None\<close> inside is the early
  \<^verbatim>\<open>return false\<close>.
\<close>

fun find_deepest ::
  "bool \<Rightarrow> sentence \<Rightarrow> int list \<Rightarrow> int list \<Rightarrow> int list \<Rightarrow> int \<Rightarrow> int \<Rightarrow> int option option" where
  "find_deepest discard doc left right [] deepest_arc max_depth = Some (Some deepest_arc)"
| "find_deepest discard doc left right (i # is) deepest_arc max_depth = do {
     token \<leftarrow> sent_token_at doc i;
     exceeds \<leftarrow> (if tok_head token = -1 then Some False else exceeds_bounds left right i (tok_head token));
     if \<not> exceeds then find_deepest discard doc left right is deepest_arc max_depth
     else if discard then Some None
     else do {
       depth \<leftarrow> depth_loop doc i 0;
       if depth > max_depth then find_deepest discard doc left right is i depth
       else find_deepest discard doc left right is deepest_arc max_depth } }"

definition lift_arc :: "sentence \<Rightarrow> int \<Rightarrow> sentence option" where
  "lift_arc doc deepest_arc = do {
     token \<leftarrow> sent_token_at doc deepest_arc;
     head_token \<leftarrow> sent_token_at doc (tok_head token);
     let lifted_head = tok_head head_token;
     set_token doc deepest_arc (set_head lifted_head token) }"

partial_function (option) Process :: "bool \<Rightarrow> sentence \<Rightarrow> (bool \<times> sentence) option" where
  "Process discard_non_projective doc = do {
     lr \<leftarrow> find_bounds doc;
     found \<leftarrow> find_deepest discard_non_projective doc (fst lr) (snd lr) [0..token_size doc - 1] (-1) (-1);
     case found of
       None \<Rightarrow> Some (False, doc)
     | Some deepest_arc \<Rightarrow>
         if deepest_arc = -1 then Some (True, doc)
         else do { doc \<leftarrow> lift_arc doc deepest_arc; Process discard_non_projective doc } }"

declare depth_loop.simps [code] Process.simps [code]

subsection \<open>The kernels\<close>

datatype kernel_error = InvalidArgument string

fun WellFormedFilter_Compute ::
  "(string \<Rightarrow> sentence option) \<Rightarrow> (sentence \<Rightarrow> string) \<Rightarrow> bool \<Rightarrow> string list
     \<Rightarrow> (kernel_error + string list) option" where
  "WellFormedFilter_Compute parse serialize keep_malformed [] = Some (Inr [])"
| "WellFormedFilter_Compute parse serialize keep_malformed (d # ds) =
     (case parse d of
        None \<Rightarrow> Some (Inl (InvalidArgument ''failed to parse sentence''))
      | Some document \<Rightarrow> do {
          keep \<leftarrow> ShouldKeep keep_malformed document;
          rest \<leftarrow> WellFormedFilter_Compute parse serialize keep_malformed ds;
          Some (case rest of Inl e \<Rightarrow> Inl e
                | Inr outs \<Rightarrow> Inr (if keep then serialize document # outs else outs)) })"

fun ProjectivizeFilter_Compute ::
  "(string \<Rightarrow> sentence option) \<Rightarrow> (sentence \<Rightarrow> string) \<Rightarrow> bool \<Rightarrow> string list
     \<Rightarrow> (kernel_error + string list) option" where
  "ProjectivizeFilter_Compute parse serialize discard_non_projective [] = Some (Inr [])"
| "ProjectivizeFilter_Compute parse serialize discard_non_projective (d # ds) =
     (case parse d of
        None \<Rightarrow> Some (Inl (InvalidArgument ''failed to parse sentence''))
      | Some document \<Rightarrow> do {
          (keep, document) \<leftarrow> Process discard_non_projective document;
          rest \<leftarrow> ProjectivizeFilter_Compute parse serialize discard_non_projective ds;
          Some (case rest of Inl e \<Rightarrow> Inl e
                | Inr outs \<Rightarrow> Inr (if keep then serialize document # outs else outs)) })"

subsection \<open>The well-formedness filter decides the absence of cycles\<close>

lemma token_head_at:
  "0 \<le> i \<Longrightarrow> i < token_size doc \<Longrightarrow>
     sent_token_at doc i = Some (sent_token doc ! nat i) \<and> tok_head (sent_token doc ! nat i) = head_at (heads doc) i"
  by (simp add: sent_token_at_in token_size_def head_at_def heads_def)

definition reaches :: "int list \<Rightarrow> int \<Rightarrow> bool" where
  "reaches hs x \<longleftrightarrow> (\<exists>k. (head_at hs ^^ k) x = -1)"

lemma reaches_head: "reaches hs (head_at hs x) \<Longrightarrow> reaches hs x"
  unfolding reaches_def by (metis comp_apply funpow_Suc_right)

lemma reaches_funpow: "reaches hs ((head_at hs ^^ k) x) \<Longrightarrow> reaches hs x"
  unfolding reaches_def by (metis comp_apply funpow_add)

lemma not_rooted_cycle:
  assumes "(head_at hs ^^ Suc k) t = t" and "0 \<le> t"
  shows "\<not> rooted hs"
proof
  assume "rooted hs"
  have "below hs t (head_at hs t)" using assms(1) unfolding below_def by (auto simp: funpow_swap1)
  then show False using not_below_own_child [OF \<open>rooted hs\<close> assms(2)] by simp
qed

text \<open>The marks: earlier marks lead to the root, own marks lead to the current token.\<close>

definition marks :: "int list \<Rightarrow> nat \<Rightarrow> int \<Rightarrow> int list \<Rightarrow> bool" where
  "marks hs i t visited \<longleftrightarrow> length visited = length hs \<and>
     (\<forall>x < length hs. -1 \<le> visited ! x \<and> visited ! x \<le> int i \<and>
        (0 \<le> visited ! x \<and> visited ! x < int i \<longrightarrow> reaches hs (int x)) \<and>
        (visited ! x = int i \<longrightarrow> (\<exists>k. (head_at hs ^^ Suc k) (int x) = t)))"

lemma marks_step:
  assumes "marks hs i t visited" and "0 \<le> t" "t < int (length hs)"
  shows "marks hs i (head_at hs t) (visited[nat t := int i])"
proof -
  have "\<exists>k. (head_at hs ^^ Suc k) (int x) = head_at hs t" if "(head_at hs ^^ Suc k) (int x) = t" for k x
    using that by (intro exI [of _ "Suc k"]) simp
  moreover have "\<exists>k. (head_at hs ^^ Suc k) t = head_at hs t" by (rule exI [of _ 0]) simp
  ultimately show ?thesis using assms by (fastforce simp: marks_def nth_list_update)
qed

lemma marks_break:
  assumes "marks hs i t visited" and "reaches hs t"
  shows "marks hs i (-1) visited"
proof -
  obtain m where m: "(head_at hs ^^ m) t = -1" using assms(2) by (auto simp: reaches_def)
  have "\<exists>k. (head_at hs ^^ Suc k) x = -1" if "(head_at hs ^^ Suc k) x = t" for k x
    using that m funpow_add [of m "Suc k" "head_at hs"] by (intro exI [of _ "m + k"]) simp
  then show ?thesis using assms(1) unfolding marks_def by blast
qed

lemma visit_chain_spec:
  assumes "well_ranged (heads doc)" and "marks (heads doc) i t visited" and "-1 \<le> t" "t < token_size doc"
  shows "\<exists>looped visited'. visit_chain doc i t visited = Some (looped, visited') \<and>
    (looped \<longrightarrow> \<not> rooted (heads doc)) \<and>
    (\<not> looped \<longrightarrow> marks (heads doc) i (-1) visited' \<and> (t \<noteq> -1 \<longrightarrow> visited' ! nat t \<noteq> -1) \<and>
       (\<forall>x < length visited. visited ! x \<noteq> -1 \<longrightarrow> visited' ! x \<noteq> -1))"
  using assms
proof (induction doc i t visited rule: visit_chain.induct)
  case (1 doc i t visited)
  let ?hs = "heads doc"
  have len: "length visited = length ?hs" "token_size doc = int (length ?hs)"
    using "1.prems"(2) by (auto simp: marks_def token_size_def)
  show ?case
  proof (cases "t = -1")
    case True
    with "1.prems" show ?thesis by (subst visit_chain.simps) auto
  next
    case False
    then have t: "0 \<le> t" "t < int (length ?hs)" using "1.prems"(3,4) len by auto
    let ?v = "visited ! nat t"
    have at: "vec_at visited t = Some ?v" using t len by simp
    have m: "-1 \<le> ?v" "?v \<le> int i" "0 \<le> ?v \<and> ?v < int i \<longrightarrow> reaches ?hs t"
      "?v = int i \<longrightarrow> (\<exists>k. (head_at ?hs ^^ Suc k) t = t)"
      using "1.prems"(2) t by (auto simp: marks_def dest!: spec [of _ "nat t"])
    consider "?v = -1" | "?v \<noteq> -1" "?v < int i" | "?v \<noteq> -1" "?v = int i" using m by linarith
    then show ?thesis
    proof cases
      case 1
      note tok = token_head_at [of t doc] and mark = marks_step [OF "1.prems"(2) t]
      have "-1 \<le> head_at ?hs t" "head_at ?hs t < token_size doc"
        using head_at_range [OF "1.prems"(1), of t] t len by auto
      with "1.IH" [OF False at 1 refl, of "sent_token doc ! nat t"] tok t len mark "1.prems"(1) obtain b v' where
        r: "visit_chain doc i (head_at ?hs t) (visited[nat t := int i]) = Some (b, v')"
          "b \<longrightarrow> \<not> rooted ?hs" "\<not> b \<longrightarrow> marks ?hs i (-1) v' \<and>
            (\<forall>x < length visited. visited[nat t := int i] ! x \<noteq> -1 \<longrightarrow> v' ! x \<noteq> -1)"
        by auto
      have "visit_chain doc i t visited = Some (b, v')"
        using r(1) 1 False at tok t len by (subst visit_chain.simps) (simp add: Let_def)
      moreover have "v' ! x \<noteq> -1" if "\<not> b" "x < length visited" "visited ! x \<noteq> -1 \<or> x = nat t" for x
        using r(3) that t len by (auto simp: nth_list_update split: if_splits)
      ultimately show ?thesis using r(2,3) t len by auto
    next
      case 2
      then have "reaches ?hs t" using m by auto
      then have "marks ?hs i (-1) visited"
        using marks_break [OF "1.prems"(2)] by blast
      with 2 at False show ?thesis by (subst visit_chain.simps) (auto intro: exI [of _ False])
    next
      case 3
      then have "\<not> rooted ?hs" using m(4) not_rooted_cycle t by blast
      with 3 at False show ?thesis by (subst visit_chain.simps) (auto intro: exI [of _ True])
    qed
  qed
qed

text \<open>Between two starting tokens every mark leads to the root.\<close>

definition settled :: "int list \<Rightarrow> nat \<Rightarrow> int list \<Rightarrow> bool" where
  "settled hs i visited \<longleftrightarrow> length visited = length hs \<and>
     (\<forall>x < length hs. -1 \<le> visited ! x \<and> visited ! x < int i \<and>
        (visited ! x \<noteq> -1 \<longrightarrow> reaches hs (int x)))"

lemma settled_marks: "settled hs i visited \<Longrightarrow> marks hs i t visited"
  unfolding settled_def marks_def by auto

lemma marks_settled: "marks hs i (-1) visited \<Longrightarrow> settled hs (Suc i) visited"
proof -
  assume m: "marks hs i (-1) visited"
  have "reaches hs (int x)" if "x < length hs" "visited ! x \<noteq> -1" for x
  proof (cases "visited ! x = int i")
    case True
    then show ?thesis using m that(1) unfolding marks_def reaches_def by blast
  next
    case False
    then show ?thesis using m that by (auto simp: marks_def dest!: spec [of _ x])
  qed
  then show ?thesis using m by (auto simp: settled_def marks_def)
qed

lemma settled_Suc: "settled hs i visited \<Longrightarrow> settled hs (Suc i) visited"
  unfolding settled_def by auto

lemma ShouldKeep_loop_spec:
  assumes wr: "well_ranged (heads doc)" and "i \<le> length (heads doc)"
    and "settled (heads doc) i visited" and "\<forall>x < i. visited ! x \<noteq> -1"
  shows "ShouldKeep_loop keep doc [i..<length (heads doc)] visited = Some (rooted (heads doc) \<or> keep)"
  using assms(2-)
proof (induction "length (heads doc) - i" arbitrary: i visited)
  case 0
  then have "reaches (heads doc) (int x)" if "x < length (heads doc)" for x
    using that by (simp add: settled_def)
  then have "rooted (heads doc)"
    using rootedI [OF wr] unfolding reaches_def by (metis nat_0_le nat_less_iff)
  then show ?case using 0 by simp
next
  case (Suc m)
  then have i: "i < length (heads doc)" by simp
  have upt: "[i..<length (heads doc)] = i # [Suc i..<length (heads doc)]" using i by (rule upt_conv_Cons)
  have at: "vec_at visited (int i) = Some (visited ! i)" using Suc.prems(2) i by (simp add: settled_def)
  have IH: "ShouldKeep_loop keep doc [Suc i..<length (heads doc)] v = Some (rooted (heads doc) \<or> keep)"
    if "settled (heads doc) (Suc i) v" "\<forall>x < i. v ! x \<noteq> -1" "v ! i \<noteq> -1" for v
    using Suc.hyps(1) [of "Suc i" v] Suc.hyps(2) that i by (auto simp: less_Suc_eq)
  show ?case
  proof (cases "visited ! i = -1")
    case False
    then show ?thesis using IH [OF settled_Suc] Suc.prems upt at by simp
  next
    case True
    from visit_chain_spec [OF wr settled_marks [OF Suc.prems(2), of "int i"]] i obtain b v' where
      v: "visit_chain doc i (int i) visited = Some (b, v')" "b \<longrightarrow> \<not> rooted (heads doc)"
        "\<not> b \<longrightarrow> marks (heads doc) i (-1) v' \<and> v' ! i \<noteq> -1 \<and>
          (\<forall>x < length visited. visited ! x \<noteq> -1 \<longrightarrow> v' ! x \<noteq> -1)"
      by (auto simp: token_size_def)
    show ?thesis
    proof (cases b)
      case False
      then have "\<forall>x < i. v' ! x \<noteq> -1" using v(3) Suc.prems(2,3) i by (auto simp: settled_def)
      then show ?thesis using False True v IH [OF marks_settled, of v'] upt at by simp
    qed (use True v upt at in simp)
  qed
qed

lemma ShouldKeep_loops:
  assumes "well_ranged (heads doc)"
  shows "ShouldKeep keep doc = Some (rooted (heads doc) \<or> keep)"
proof -
  have "settled (heads doc) 0 (replicate (length (heads doc)) (-1))"
    by (simp add: settled_def)
  from ShouldKeep_loop_spec [OF assms _ this] show ?thesis
    by (simp add: ShouldKeep_def Let_def token_size_def)
qed

text \<open>
  C26: The well-formedness filter is a correct cycle detector. On every document whose heads are in
  range it ends without an access out of range, keeps the document when every token reaches
  the root, and otherwise answers what the attribute \<^verbatim>\<open>keep_malformed_documents\<close> says.
\<close>

theorem ShouldKeep_correct:
  assumes "well_ranged (heads doc)"
  shows "ShouldKeep keep_malformed doc = Some (rooted (heads doc) \<or> keep_malformed)"
  using ShouldKeep_loops [OF assms] .

definition cyclic_doc :: sentence where
  "cyclic_doc = \<lparr>sent_docid = [], sent_text = [],
     sent_token = [default_token, set_head 2 default_token, set_head 1 default_token]\<rparr>"

theorem ShouldKeep_correct_witness:
  "well_ranged (heads cyclic_doc) \<and> ShouldKeep False cyclic_doc = Some (rooted (heads cyclic_doc) \<or> False) \<and>
   ShouldKeep False cyclic_doc = Some False"
proof -
  have "well_ranged (heads cyclic_doc)" "ShouldKeep False cyclic_doc = Some False" by code_simp+
  then show ?thesis using ShouldKeep_correct [of cyclic_doc False] by blast
qed

subsection \<open>The bounds of an arc are exceeded by crossing arcs only\<close>

definition covers :: "int list \<Rightarrow> int \<Rightarrow> int \<Rightarrow> bool" where
  "covers hs i x \<longleftrightarrow> arc_left hs i < x \<and> x < arc_right hs i"

definition bounded_by :: "int list \<Rightarrow> int set \<Rightarrow> int list \<times> int list \<Rightarrow> bool" where
  "bounded_by hs D lr \<longleftrightarrow> length (fst lr) = length hs \<and> length (snd lr) = length hs \<and>
     (\<forall>x < length hs. \<forall>b.
        (-1 \<le> b \<longrightarrow> (b < fst lr ! x \<longleftrightarrow> (\<exists>i \<in> D. covers hs i (int x) \<and> b < arc_left hs i))) \<and>
        (b < int (length hs) \<longrightarrow> (snd lr ! x < b \<longleftrightarrow> (\<exists>i \<in> D. covers hs i (int x) \<and> arc_right hs i < b))))"

lemma bound_arc_spec:
  assumes wr: "well_ranged (heads doc)" and i: "0 \<le> i" "i < token_size doc"
    and len: "length (fst lr) = length (heads doc)" "length (snd lr) = length (heads doc)"
  shows "\<exists>lr'. bound_arc doc i lr = Some lr' \<and>
    length (fst lr') = length (heads doc) \<and> length (snd lr') = length (heads doc) \<and>
    (\<forall>x < length (heads doc).
      fst lr' ! x = (if covers (heads doc) i (int x) then max (fst lr ! x) (arc_left (heads doc) i) else fst lr ! x) \<and>
      snd lr' ! x = (if covers (heads doc) i (int x) then min (snd lr ! x) (arc_right (heads doc) i) else snd lr ! x))"
proof -
  let ?hs = "heads doc" let ?l = "arc_left ?hs i" and ?r = "arc_right ?hs i"
  define P where "P D lr' \<longleftrightarrow> length (fst lr') = length ?hs \<and> length (snd lr') = length ?hs \<and>
    (\<forall>x < length ?hs. fst lr' ! x = (if int x \<in> D then max (fst lr ! x) ?l else fst lr ! x) \<and>
      snd lr' ! x = (if int x \<in> D then min (snd lr ! x) ?r else snd lr ! x))" for D lr'
  have rng: "-1 \<le> ?l" "?r < int (length ?hs)"
    using head_at_range [OF wr, of i] i by (auto simp: arc_left_def arc_right_def token_size_def)
  have "\<exists>lr'. foreach (bound_token ?l ?r) [?l + 1..?r - 1] lr = Some lr' \<and> P ({} \<union> set [?l + 1..?r - 1]) lr'"
  proof (rule foreach_invariant)
    show "P {} lr" using len by (simp add: P_def)
    fix D j lr' assume j: "j \<in> set [?l + 1..?r - 1]" and P: "P D lr'"
    then have jr: "0 \<le> j" "j < int (length ?hs)" using rng by auto
    have lens: "length (fst lr') = length ?hs" "length (snd lr') = length ?hs" using P by (auto simp: P_def)
    have "bound_token ?l ?r j lr' = Some ((fst lr')[nat j := max (fst lr' ! nat j) ?l], (snd lr')[nat j := min (snd lr' ! nat j) ?r])"
      using jr lens by (auto simp: bound_token_def max_def min_def)
    moreover have "P (insert j D) ((fst lr')[nat j := max (fst lr' ! nat j) ?l], (snd lr')[nat j := min (snd lr' ! nat j) ?r])"
      using P jr unfolding P_def by (auto simp: nth_list_update)
    ultimately show "\<exists>s'. bound_token ?l ?r j lr' = Some s' \<and> P (insert j D) s'" by blast
  qed
  moreover have "bound_arc doc i lr = foreach (bound_token ?l ?r) [?l + 1..?r - 1] lr"
    using token_head_at [OF i] by (simp add: bound_arc_def arc_left_def arc_right_def Let_def)
  ultimately show ?thesis unfolding P_def by (auto simp: covers_def)
qed

lemma find_bounds_spec:
  assumes wr: "well_ranged (heads doc)"
  shows "\<exists>lr. find_bounds doc = Some lr \<and> bounded_by (heads doc) {0..<token_size doc} lr"
proof -
  let ?hs = "heads doc" and ?n = "token_size doc"
  have n: "?n = int (length ?hs)" by (simp add: token_size_def)
  have "\<exists>lr. foreach (bound_arc doc) [0..?n - 1] (replicate (nat ?n) (-1), replicate (nat ?n) (?n - 1)) = Some lr \<and>
      bounded_by ?hs ({} \<union> set [0..?n - 1]) lr"
  proof (rule foreach_invariant)
    show "bounded_by ?hs {} (replicate (nat ?n) (-1), replicate (nat ?n) (?n - 1))"
      by (auto simp: bounded_by_def n)
    fix D i lr assume i: "i \<in> set [0..?n - 1]" and B: "bounded_by ?hs D lr"
    then have lens: "length (fst lr) = length ?hs" "length (snd lr) = length ?hs" by (auto simp: bounded_by_def)
    from bound_arc_spec [OF wr _ _ lens, of i] i obtain lr' where lr': "bound_arc doc i lr = Some lr'"
      "length (fst lr') = length ?hs" "length (snd lr') = length ?hs"
      "\<forall>x < length ?hs. fst lr' ! x = (if covers ?hs i (int x) then max (fst lr ! x) (arc_left ?hs i) else fst lr ! x) \<and>
        snd lr' ! x = (if covers ?hs i (int x) then min (snd lr ! x) (arc_right ?hs i) else snd lr ! x)"
      by auto
    moreover have "bounded_by ?hs (insert i D) lr'"
      using B lr'(2-4) unfolding bounded_by_def by (auto simp: less_max_iff_disj min_less_iff_disj)
    ultimately show "\<exists>s'. bound_arc doc i lr = Some s' \<and> bounded_by ?hs (insert i D) s'" by blast
  qed
  moreover have "{0..<?n} = {} \<union> set [0..?n - 1]" by auto
  ultimately show ?thesis unfolding find_bounds_def Let_def by simp
qed

definition crossing_arc :: "int list \<Rightarrow> int \<Rightarrow> bool" where
  "crossing_arc hs i \<longleftrightarrow> head_at hs i \<noteq> -1 \<and> (\<exists>j \<in> {0..<int (length hs)}. crosses hs i j \<or> crosses hs j i)"

lemma exceeds_bounds_spec:
  assumes wr: "well_ranged (heads doc)" and b: "bounded_by (heads doc) {0..<token_size doc} lr"
    and i: "0 \<le> i" "i < token_size doc" and h: "head_at (heads doc) i \<noteq> -1"
  shows "exceeds_bounds (fst lr) (snd lr) i (head_at (heads doc) i) = Some (crossing_arc (heads doc) i)"
proof -
  let ?hs = "heads doc" let ?l = "arc_left ?hs i" and ?r = "arc_right ?hs i"
  have n: "token_size doc = int (length ?hs)" by (simp add: token_size_def)
  have rng: "0 \<le> ?l" "?l \<le> ?r" "?r < int (length ?hs)"
    using head_at_range [OF wr, of i] i h n by (auto simp: arc_left_def arc_right_def)
  have lens: "length (fst lr) = length ?hs" "length (snd lr) = length ?hs" using b by (auto simp: bounded_by_def)
  have L: "?l < fst lr ! nat x \<longleftrightarrow> (\<exists>j \<in> {0..<int (length ?hs)}. covers ?hs j x \<and> ?l < arc_left ?hs j)"
    "?r > snd lr ! nat x \<longleftrightarrow> (\<exists>j \<in> {0..<int (length ?hs)}. covers ?hs j x \<and> arc_right ?hs j < ?r)"
    if "0 \<le> x" "x < int (length ?hs)" for x
    using b that rng n unfolding bounded_by_def by (auto dest!: spec [of _ "nat x"])
  have "exceeds_bounds (fst lr) (snd lr) i (head_at ?hs i) =
      Some (?l < fst lr ! nat ?l \<or> ?l < fst lr ! nat ?r \<or> ?r > snd lr ! nat ?l \<or> ?r > snd lr ! nat ?r)"
    using rng lens by (simp add: exceeds_bounds_def arc_left_def [symmetric] arc_right_def [symmetric] Let_def
        less_max_iff_disj min_less_iff_disj)
  also have "(?l < fst lr ! nat ?l \<or> ?l < fst lr ! nat ?r \<or> ?r > snd lr ! nat ?l \<or> ?r > snd lr ! nat ?r) \<longleftrightarrow>
      crossing_arc ?hs i"
    using L [of ?l] L [of ?r] rng h unfolding crossing_arc_def crosses_def covers_def by auto
  finally show ?thesis .
qed

lemma noncrossing_iff:
  "noncrossing hs \<longleftrightarrow> \<not> (\<exists>i \<in> {0..<int (length hs)}. crossing_arc hs i)"
proof -
  have "crosses hs i j \<Longrightarrow> head_at hs i \<noteq> -1 \<or> head_at hs j \<noteq> -1" if "0 \<le> i" "0 \<le> j" for i j
    using that by (auto simp: crosses_def arc_left_def arc_right_def)
  moreover have "set [0..int (length hs) - 1] = {0..<int (length hs)}" by auto
  ultimately show ?thesis unfolding noncrossing_def crossing_arc_def by fastforce
qed

lemma depth_loop_spec:
  assumes wr: "well_ranged (heads doc)" and r: "rooted (heads doc)"
  shows "-1 \<le> j \<Longrightarrow> j < token_size doc \<Longrightarrow>
    depth_loop doc j d = Some (d + int (tree_depth (heads doc) j))"
proof (induction "tree_depth (heads doc) j" arbitrary: j d)
  case 0
  then have "j = -1" using depth_step [OF r wr, of j] by fastforce
  then show ?case by (subst depth_loop.simps) simp
next
  case (Suc k)
  then have j: "0 \<le> j" by (cases "j = -1") auto
  note tok = token_head_at [OF j Suc.prems(2)]
  have "-1 \<le> head_at (heads doc) j" "head_at (heads doc) j < token_size doc"
    using head_at_range [OF wr, of j] j Suc.prems by (auto simp: token_size_def)
  then show ?case using Suc.hyps depth_step [OF r wr j] tok j by (subst depth_loop.simps) simp
qed

lemma find_deepest_discard:
  assumes wr: "well_ranged (heads doc)" and b: "bounded_by (heads doc) {0..<token_size doc} lr"
  shows "set is \<subseteq> {0..<token_size doc} \<Longrightarrow>
    find_deepest True doc (fst lr) (snd lr) is d m =
      Some (if \<exists>i \<in> set is. crossing_arc (heads doc) i then None else Some d)"
proof (induction "is")
  case (Cons i "is")
  have i: "0 \<le> i" "i < token_size doc" using Cons.prems by auto
  show ?case using Cons token_head_at [OF i] exceeds_bounds_spec [OF wr b i]
    by (auto simp: crossing_arc_def)
qed simp

lemma find_deepest_spec:
  assumes wr: "well_ranged (heads doc)" and r: "rooted (heads doc)"
    and b: "bounded_by (heads doc) {0..<token_size doc} lr"
  shows "set is \<subseteq> {0..<token_size doc} \<Longrightarrow> d = -1 \<and> m = -1 \<or> crossing_arc (heads doc) d \<and> 0 \<le> d \<and> m = int (tree_depth (heads doc) d) \<Longrightarrow>
    \<exists>d'. find_deepest False doc (fst lr) (snd lr) is d m = Some (Some d') \<and>
      (if d' = -1 then d = -1 \<and> (\<forall>i \<in> set is. \<not> crossing_arc (heads doc) i)
       else (d' = d \<or> d' \<in> set is) \<and> crossing_arc (heads doc) d' \<and> m \<le> int (tree_depth (heads doc) d') \<and>
         (\<forall>i \<in> set is. crossing_arc (heads doc) i \<longrightarrow> tree_depth (heads doc) i \<le> tree_depth (heads doc) d'))"
proof (induction "is" arbitrary: d m)
  case Nil
  then show ?case by auto
next
  case (Cons i "is")
  let ?hs = "heads doc"
  have i: "0 \<le> i" "i < token_size doc" and "is": "set is \<subseteq> {0..<token_size doc}" using Cons.prems by auto
  note tok = token_head_at [OF i] and ex = exceeds_bounds_spec [OF wr b i]
  show ?case
  proof (cases "crossing_arc ?hs i \<and> int (tree_depth ?hs i) > m")
    case True
    then have "find_deepest False doc (fst lr) (snd lr) (i # is) d m =
        find_deepest False doc (fst lr) (snd lr) is i (int (tree_depth ?hs i))"
      using tok ex i depth_loop_spec [OF wr r, of i 0] by (simp add: crossing_arc_def)
    with Cons.IH [OF "is", of i "int (tree_depth ?hs i)"] True i show ?thesis by fastforce
  next
    case False
    then have "find_deepest False doc (fst lr) (snd lr) (i # is) d m =
        find_deepest False doc (fst lr) (snd lr) is d m"
      using tok ex i depth_loop_spec [OF wr r, of i 0] by (auto simp: crossing_arc_def)
    with Cons.IH [OF "is" Cons.prems(2)] False Cons.prems(2) show ?thesis by fastforce
  qed
qed

subsection \<open>Lifting until nothing crosses\<close>

definition same_but_heads :: "sentence \<Rightarrow> sentence \<Rightarrow> bool" where
  "same_but_heads d d' \<longleftrightarrow>
     d\<lparr>sent_token := map clear_head (sent_token d)\<rparr> = d'\<lparr>sent_token := map clear_head (sent_token d')\<rparr>"

lemma lift_arc_spec:
  assumes wr: "well_ranged (heads doc)" and i: "0 \<le> i" "i < token_size doc" and h: "head_at (heads doc) i \<noteq> -1"
  shows "\<exists>doc'. lift_arc doc i = Some doc' \<and> heads doc' = lifted (heads doc) i \<and> same_but_heads doc doc'"
proof -
  let ?h = "head_at (heads doc) i"
  have hr: "0 \<le> ?h" "?h < token_size doc" using head_at_range [OF wr, of i] i h by (auto simp: token_size_def)
  note t = token_head_at [OF i] and th = token_head_at [OF hr]
  let ?t = "set_head (head_at (heads doc) ?h) (sent_token doc ! nat i)"
  have "lift_arc doc i = Some (doc\<lparr>sent_token := (sent_token doc)[nat i := ?t]\<rparr>)"
    using t th i by (simp add: lift_arc_def set_token_def token_size_def)
  moreover have "map clear_head ((sent_token doc)[nat i := ?t]) = map clear_head (sent_token doc)"
  proof -
    have "clear_head ?t = map clear_head (sent_token doc) ! nat i"
      using i by (simp add: clear_head_def set_head_def token_size_def nat_less_iff)
    then show ?thesis by (simp add: map_update del: nth_map)
  qed
  ultimately show ?thesis
    by (simp add: same_but_heads_def heads_def lifted_def map_update)
qed

lemma Process_step:
  assumes wr: "well_ranged (heads doc)" and r: "rooted (heads doc)"
  shows "noncrossing (heads doc) \<Longrightarrow> Process discard doc = Some (True, doc)"
    and "\<not> noncrossing (heads doc) \<Longrightarrow> Process True doc = Some (False, doc)"
    and "\<not> noncrossing (heads doc) \<Longrightarrow>
      \<exists>i doc'. Process False doc = Process False doc' \<and> 0 \<le> i \<and> i < token_size doc \<and>
        head_at (heads doc) i \<noteq> -1 \<and> heads doc' = lifted (heads doc) i \<and> same_but_heads doc doc'"
proof -
  let ?is = "[0..token_size doc - 1]"
  obtain lr where lr: "find_bounds doc = Some lr" "bounded_by (heads doc) {0..<token_size doc} lr"
    using find_bounds_spec [OF wr] by blast
  have "is": "set ?is = {0..<token_size doc}" "set ?is \<subseteq> {0..<token_size doc}" by auto
  have nc: "noncrossing (heads doc) \<longleftrightarrow> \<not> (\<exists>i \<in> set ?is. crossing_arc (heads doc) i)"
    using noncrossing_iff [of "heads doc"] by (auto simp: token_size_def)
  note disc = find_deepest_discard [OF wr lr(2) "is"(2), of "-1" "-1"]
  obtain d where d: "find_deepest False doc (fst lr) (snd lr) ?is (-1) (-1) = Some (Some d)"
    "if d = -1 then \<forall>i \<in> set ?is. \<not> crossing_arc (heads doc) i
     else (d = -1 \<or> d \<in> set ?is) \<and> crossing_arc (heads doc) d"
    using find_deepest_spec [OF wr r lr(2) "is"(2), of "-1" "-1"] by (auto split: if_splits)
  show "Process discard doc = Some (True, doc)" if n: "noncrossing (heads doc)"
  proof (cases discard)
    case True
    then show ?thesis using lr(1) disc nc n by (subst Process.simps) simp
  next
    case False
    then show ?thesis using lr(1) d nc n by (subst Process.simps) (auto split: if_splits)
  qed
  show "Process True doc = Some (False, doc)" if "\<not> noncrossing (heads doc)"
    using lr(1) disc nc that by (subst Process.simps) auto
  assume n: "\<not> noncrossing (heads doc)"
  then have di: "d \<noteq> -1" "0 \<le> d" "d < token_size doc" "head_at (heads doc) d \<noteq> -1"
    using d(2) nc by (auto simp: crossing_arc_def split: if_splits)
  from lift_arc_spec [OF wr di(2-4)] obtain doc' where
    "lift_arc doc d = Some doc'" "heads doc' = lifted (heads doc) d" "same_but_heads doc doc'" by blast
  with di lr(1) d(1) show "\<exists>i doc'. Process False doc = Process False doc' \<and> 0 \<le> i \<and> i < token_size doc \<and>
        head_at (heads doc) i \<noteq> -1 \<and> heads doc' = lifted (heads doc) i \<and> same_but_heads doc doc'"
    by (subst Process.simps) auto
qed

lemma Process_lifts:
  assumes "well_ranged (heads doc)" and "rooted (heads doc)"
  shows "\<exists>doc'. Process False doc = Some (True, doc') \<and>
    well_ranged (heads doc') \<and> rooted (heads doc') \<and> noncrossing (heads doc') \<and> same_but_heads doc doc' \<and>
    (\<forall>a x. below (heads doc') a x \<longrightarrow> below (heads doc) a x)"
  using assms
proof (induction "total_depth (heads doc)" arbitrary: doc rule: less_induct)
  case less
  show ?case
  proof (cases "noncrossing (heads doc)")
    case True
    with Process_step(1) [OF less.prems] less.prems show ?thesis by (auto simp: same_but_heads_def)
  next
    case False
    with Process_step(3) [OF less.prems] obtain i doc1 where
      d1: "Process False doc = Process False doc1" "0 \<le> i" "i < int (length (heads doc))"
        "head_at (heads doc) i \<noteq> -1" "heads doc1 = lifted (heads doc) i" "same_but_heads doc doc1"
      by (auto simp: token_size_def)
    note lt = lifted_tree [OF less.prems d1(2-4)]
    from less.hyps [of doc1] lt d1(5) obtain doc' where
      "Process False doc1 = Some (True, doc')" "well_ranged (heads doc')" "rooted (heads doc')" "noncrossing (heads doc')"
      "same_but_heads doc1 doc'" "\<forall>a x. below (heads doc') a x \<longrightarrow> below (heads doc1) a x"
      by auto
    with d1 below_lifted [OF d1(2,3)] show ?thesis by (auto simp: same_but_heads_def)
  qed
qed

text \<open>
  C3: Projectivization terminates and is correct. For every document whose heads form a tree,
  \<open>Process\<close> returns true, with a tree over the same tokens in which no two arcs cross; it
  changes nothing but heads, the new head of each token is an ancestor of it in the old tree,
  and a document without crossing arcs is returned unchanged.
\<close>

theorem Process_projectivizes:
  assumes "well_ranged (heads doc)" and "rooted (heads doc)"
  shows "\<exists>doc'. Process False doc = Some (True, doc') \<and>
    well_ranged (heads doc') \<and> rooted (heads doc') \<and> noncrossing (heads doc') \<and> same_but_heads doc doc' \<and>
    (\<forall>x. below (heads doc) (head_at (heads doc') x) x) \<and>
    (noncrossing (heads doc) \<longrightarrow> doc' = doc)"
proof -
  obtain doc' where d: "Process False doc = Some (True, doc')" "well_ranged (heads doc')" "rooted (heads doc')"
    "noncrossing (heads doc')" "same_but_heads doc doc'" "\<forall>a x. below (heads doc') a x \<longrightarrow> below (heads doc) a x"
    using Process_lifts [OF assms] by blast
  moreover have "noncrossing (heads doc) \<longrightarrow> doc' = doc" using Process_step(1) [OF assms, of False] d(1) by auto
  ultimately show ?thesis using below_head by blast
qed

text \<open>
  With \<^verbatim>\<open>discard_non_projective\<close> the filter keeps a well-formed document exactly when no two
  of its arcs cross, and never changes it.
\<close>

theorem Process_discards:
  assumes "well_ranged (heads doc)" and "rooted (heads doc)"
  shows "Process True doc = Some (noncrossing (heads doc), doc)"
  using Process_step(1,2) [OF assms] by (cases "noncrossing (heads doc)") auto

definition crossing_doc :: sentence where
  "crossing_doc = \<lparr>sent_docid = [], sent_text = [],
     sent_token = map (\<lambda>h. set_head h default_token) [3, -1, 1, 1, 0]\<rparr>"

theorem Process_projectivizes_witness:
  "\<exists>doc'. Process False crossing_doc = Some (True, doc') \<and> \<not> noncrossing (heads crossing_doc) \<and>
     noncrossing (heads doc') \<and> heads doc' = [1, -1, 1, 1, 3]"
proof -
  have h: "well_ranged (heads crossing_doc)" "rooted (heads crossing_doc)" "\<not> noncrossing (heads crossing_doc)"
    by code_simp+
  have "map_option (\<lambda>(b, d). heads d) (Process False crossing_doc) = Some [1, -1, 1, 1, 3]" by code_simp
  with Process_projectivizes [OF h(1,2)] h(3) show ?thesis by auto
qed

theorem Process_discards_witness:
  "well_ranged (heads crossing_doc) \<and> rooted (heads crossing_doc) \<and>
   Process True crossing_doc = Some (False, crossing_doc)"
proof -
  have h: "well_ranged (heads crossing_doc)" "rooted (heads crossing_doc)" "\<not> noncrossing (heads crossing_doc)"
    by code_simp+
  with Process_discards [OF h(1,2)] show ?thesis by simp
qed

subsection \<open>The kernels on a batch\<close>

lemma WellFormedFilter_batch:
  "map parse ds = map Some docs \<Longrightarrow> \<forall>d \<in> set docs. well_ranged (heads d) \<Longrightarrow>
     WellFormedFilter_Compute parse serialize keep ds =
       Some (Inr (map serialize (filter (\<lambda>d. rooted (heads d) \<or> keep) docs)))"
proof (induction ds arbitrary: docs)
  case (Cons x ds)
  then obtain d ds' where "docs = d # ds'" by (cases docs) auto
  with Cons show ?case using ShouldKeep_loops by auto
qed simp

definition projectivized :: "sentence \<Rightarrow> sentence" where
  "projectivized d = snd (the (Process False d))"

lemma ProjectivizeFilter_batch:
  "map parse ds = map Some docs \<Longrightarrow> \<forall>d \<in> set docs. well_ranged (heads d) \<and> rooted (heads d) \<Longrightarrow>
     ProjectivizeFilter_Compute parse serialize False ds = Some (Inr (map (\<lambda>d. serialize (projectivized d)) docs))"
proof (induction ds arbitrary: docs)
  case (Cons x ds)
  then obtain d ds' where d: "docs = d # ds'" by (cases docs) auto
  moreover obtain d' where "Process False d = Some (True, d')" using Process_lifts [of d] Cons.prems(2) d by auto
  ultimately show ?case using Cons by (auto simp: projectivized_def)
qed simp

lemma projectivized_tree:
  assumes "well_ranged (heads d)" and "rooted (heads d)"
  shows "well_ranged (heads (projectivized d))" "rooted (heads (projectivized d))"
    "noncrossing (heads (projectivized d))" "same_but_heads d (projectivized d)"
  using Process_lifts [OF assms] by (auto simp: projectivized_def)

text \<open>
  C28: The well-formedness kernel rejects a batch exactly at a document that cannot be parsed: when
  all documents before it are in range, the answer is the error \<^verbatim>\<open>InvalidArgument\<close>, whatever
  follows; when every document can be parsed, the output is the batch without the cyclic ones.
\<close>

theorem WellFormedFilter_errors:
  assumes "map parse ds = map Some docs" and "\<forall>d \<in> set docs. well_ranged (heads d)"
  shows "WellFormedFilter_Compute parse serialize False ds =
      Some (Inr (map serialize (filter (\<lambda>d. rooted (heads d)) docs))) \<and>
    (parse bad = None \<longrightarrow> WellFormedFilter_Compute parse serialize False (ds @ bad # rest) =
      Some (Inl (InvalidArgument ''failed to parse sentence'')))"
proof (intro conjI impI)
  show "WellFormedFilter_Compute parse serialize False ds =
      Some (Inr (map serialize (filter (\<lambda>d. rooted (heads d)) docs)))"
    using WellFormedFilter_batch [OF assms, of serialize False] by simp
  assume bad: "parse bad = None"
  show "WellFormedFilter_Compute parse serialize False (ds @ bad # rest) =
      Some (Inl (InvalidArgument ''failed to parse sentence''))"
    using assms
  proof (induction ds arbitrary: docs)
    case Nil
    then show ?case using bad by simp
  next
    case (Cons x ds)
    then obtain d ds' where "docs = d # ds'" by (cases docs) auto
    with Cons show ?case using ShouldKeep_loops by auto
  qed
qed

theorem WellFormedFilter_errors_witness:
  "WellFormedFilter_Compute (\<lambda>s. if s = ''x'' then Some cyclic_doc else if s = ''y'' then Some crossing_doc else None)
     sent_docid False [''x'', ''y''] = Some (Inr [[]]) \<and>
   WellFormedFilter_Compute (\<lambda>s. if s = ''x'' then Some cyclic_doc else if s = ''y'' then Some crossing_doc else None)
     sent_docid False [''x'', ''y'', ''z'', ''x''] = Some (Inl (InvalidArgument ''failed to parse sentence''))"
proof -
  let ?p = "\<lambda>s. if s = ''x'' then Some cyclic_doc else if s = ''y'' then Some crossing_doc else None"
  have p: "map ?p [''x'', ''y''] = map Some [cyclic_doc, crossing_doc]" "?p ''z'' = None" by simp_all
  have w: "\<forall>d \<in> set [cyclic_doc, crossing_doc]. well_ranged (heads d)" by code_simp
  have f: "filter (\<lambda>d. rooted (heads d)) [cyclic_doc, crossing_doc] = [crossing_doc]" "sent_docid crossing_doc = []"
    by code_simp+
  show ?thesis
    using WellFormedFilter_errors [OF p(1) w, of sent_docid "''z''" "[''x'']"] p(2) f by simp
qed

end
