(* ===== verification/Task_Context.thy ===== *)
theory Task_Context
  imports Utils
begin

text \<open>
  \<^verbatim>\<open>syntaxnet/task_context.{h,cc}\<close>: the configuration of a task, a wrapper around the message
  \<^verbatim>\<open>TaskSpec\<close>. Parameters and inputs are lists, searched from the front, as the repeated fields
  of the message are; a pointer to an input is its index. The accessors for \<^verbatim>\<open>double\<close> values are
  not modelled.

  Lemmas: a parameter that is set is read back, through the typed accessors as well, and the
  other parameters are kept; \<open>GetInput\<close> finds or creates the input of a name exactly once and
  the input supports the formats it was asked for.
\<close>

record task_part =
  part_file_pattern :: string
  part_file_format :: string
  part_record_format :: string

record task_input =
  input_name :: string
  input_creator :: string
  input_file_format :: "string list"
  input_record_format :: "string list"
  input_multi_file :: bool
  input_part :: "task_part list"

record task_context =
  spec_parameter :: "(string \<times> string) list"
  spec_input :: "task_input list"

definition new_input :: "string \<Rightarrow> task_input" where
  "new_input name = \<lparr>input_name = name, input_creator = [], input_file_format = [],
     input_record_format = [], input_multi_file = False, input_part = []\<rparr>"

fun find_input :: "task_input list \<Rightarrow> string \<Rightarrow> nat option" where
  "find_input [] name = None"
| "find_input (x # xs) name = (if input_name x = name then Some 0 else map_option Suc (find_input xs name))"

definition GetInput :: "task_context \<Rightarrow> string \<Rightarrow> nat \<times> task_context" where
  "GetInput c name =
     (case find_input (spec_input c) name of
        Some i \<Rightarrow> (i, c)
      | None \<Rightarrow> (length (spec_input c), c\<lparr>spec_input := spec_input c @ [new_input name]\<rparr>))"

definition add_format :: "string list \<Rightarrow> string \<Rightarrow> string list" where
  "add_format formats format =
     (if format \<noteq> [] then (if List.member formats format then formats else formats @ [format]) else formats)"

definition GetInput_formats :: "task_context \<Rightarrow> string \<Rightarrow> string \<Rightarrow> string \<Rightarrow> nat \<times> task_context" where
  "GetInput_formats c name file_format record_format =
     (let (i, c) = GetInput c name;
          input = spec_input c ! i;
          input = input\<lparr>input_file_format := add_format (input_file_format input) file_format\<rparr>;
          input = input\<lparr>input_record_format := add_format (input_record_format input) record_format\<rparr>
      in (i, c\<lparr>spec_input := (spec_input c)[i := input]\<rparr>))"

fun set_parameter :: "(string \<times> string) list \<Rightarrow> string \<Rightarrow> string \<Rightarrow> (string \<times> string) list" where
  "set_parameter [] name v = [(name, v)]"
| "set_parameter (p # ps) name v = (if fst p = name then (name, v) # ps else p # set_parameter ps name v)"

definition SetParameter :: "task_context \<Rightarrow> string \<Rightarrow> string \<Rightarrow> task_context" where
  "SetParameter c name v = c\<lparr>spec_parameter := set_parameter (spec_parameter c) name v\<rparr>"

fun find_parameter :: "(string \<times> string) list \<Rightarrow> string \<Rightarrow> string option" where
  "find_parameter [] name = None"
| "find_parameter (p # ps) name = (if fst p = name then Some (snd p) else find_parameter ps name)"

definition GetParameter :: "task_context \<Rightarrow> string \<Rightarrow> string" where
  "GetParameter c name = (case find_parameter (spec_parameter c) name of Some v \<Rightarrow> v | None \<Rightarrow> [])"

definition GetIntParameter :: "task_context \<Rightarrow> string \<Rightarrow> int option" where
  "GetIntParameter c name = ParseUsing_default (GetParameter c name) 0 ParseInt32"

definition GetInt64Parameter :: "task_context \<Rightarrow> string \<Rightarrow> int option" where
  "GetInt64Parameter c name = ParseUsing_default (GetParameter c name) 0 ParseInt64"

definition GetBoolParameter :: "task_context \<Rightarrow> string \<Rightarrow> bool" where
  "GetBoolParameter c name \<longleftrightarrow> GetParameter c name = ''true''"

definition Get_string :: "task_context \<Rightarrow> string \<Rightarrow> string \<Rightarrow> string" where
  "Get_string c name defval = (case find_parameter (spec_parameter c) name of Some v \<Rightarrow> v | None \<Rightarrow> defval)"

definition Get_std_string :: "task_context \<Rightarrow> string \<Rightarrow> string \<Rightarrow> string" where
  "Get_std_string c name defval = Get_string c name (c_str defval)"

definition Get_int :: "task_context \<Rightarrow> string \<Rightarrow> int \<Rightarrow> int option" where
  "Get_int c name defval = ParseUsing_default (Get_string c name []) defval ParseInt32"

definition Get_int64 :: "task_context \<Rightarrow> string \<Rightarrow> int \<Rightarrow> int option" where
  "Get_int64 c name defval = ParseUsing_default (Get_string c name []) defval ParseInt64"

definition Get_bool :: "task_context \<Rightarrow> string \<Rightarrow> bool \<Rightarrow> bool" where
  "Get_bool c name defval =
     (let v = Get_string c name [] in if v = [] then defval else v = ''true'')"

definition InputFile :: "task_input \<Rightarrow> string option" where
  "InputFile input = do {
     check (length (input_part input) = 1);
     Some (part_file_pattern (hd (input_part input))) }"

definition Supports :: "task_input \<Rightarrow> string \<Rightarrow> string \<Rightarrow> bool" where
  "Supports input file_format record_format \<longleftrightarrow>
     (input_file_format input \<noteq> [] \<longrightarrow> List.member (input_file_format input) file_format) \<and>
     (input_record_format input \<noteq> [] \<longrightarrow> List.member (input_record_format input) record_format)"

subsection \<open>Parameters\<close>

lemma find_set_parameter:
  "find_parameter (set_parameter ps name v) m = (if m = name then Some v else find_parameter ps m)"
  by (induction ps) auto

lemma ParseInt64_show_int: "- (2 ^ 63) \<le> i \<Longrightarrow> i < 2 ^ 63 \<Longrightarrow> ParseInt64 (show_int i) = (i, True)"
  by (simp add: ParseInt64_def c_str_show_int strtol_show_int saturate64_def)

lemma show_int_nonempty [simp]: "show_int i \<noteq> []"
  by (simp add: show_int_def)

text \<open>
  A task parameter that is set is read back by every accessor, whatever the default, and no
  other parameter changes: as a string, as a Boolean, and as a 32-bit and a 64-bit integer
  printed in decimal.
\<close>

theorem parameter_set_get:
  "Get_string (SetParameter c name v) m defval = (if m = name then v else Get_string c m defval) \<and>
   GetParameter (SetParameter c name v) m = (if m = name then v else GetParameter c m) \<and>
   Get_bool (SetParameter c name ''true'') name d \<and> \<not> Get_bool (SetParameter c name ''false'') name d \<and>
   (int32_range i \<longrightarrow> Get_int (SetParameter c name (show_int i)) name k = Some i \<and>
      GetIntParameter (SetParameter c name (show_int i)) name = Some i) \<and>
   (- (2 ^ 63) \<le> j \<and> j < 2 ^ 63 \<longrightarrow> Get_int64 (SetParameter c name (show_int j)) name k = Some j)"
  by (auto simp: Get_string_def GetParameter_def Get_bool_def Get_int_def GetIntParameter_def Get_int64_def
      SetParameter_def find_set_parameter ParseUsing_default_def ParseUsing_def ParseInt32_show_int ParseInt64_show_int)

theorem parameter_set_get_witness:
  "Get_int (SetParameter \<lparr>spec_parameter = [(''beam'', ''8'')], spec_input = []\<rparr> ''beam'' (show_int (-42))) ''beam'' 0 = Some (-42)"
  using parameter_set_get [where c = "\<lparr>spec_parameter = [(''beam'', ''8'')], spec_input = []\<rparr>" and name = "''beam''" and i = "-42" and k = 0]
  by (simp add: int32_range_def)

subsection \<open>Inputs\<close>

lemma find_input_Some:
  "find_input xs name = Some i \<Longrightarrow> i < length xs \<and> input_name (xs ! i) = name \<and> (\<forall>j < i. input_name (xs ! j) \<noteq> name)"
proof (induction xs arbitrary: i)
  case (Cons x xs)
  then show ?case by (cases i) (auto simp: less_Suc_eq_0_disj split: if_splits)
qed simp

lemma find_input_None: "find_input xs name = None \<longleftrightarrow> name \<notin> input_name ` set xs"
  by (induction xs) auto

lemma find_input_append_new: "find_input xs name = None \<Longrightarrow> find_input (xs @ [new_input name]) name = Some (length xs)"
  by (induction xs) (auto simp: new_input_def split: if_splits)

lemma find_input_update:
  "i < length xs \<Longrightarrow> input_name y = input_name (xs ! i) \<Longrightarrow> find_input (xs[i := y]) name = find_input xs name"
proof (induction xs arbitrary: i)
  case (Cons x xs)
  then show ?case by (cases i) auto
qed simp

lemma GetInput_found: "GetInput c name = (i, c') \<Longrightarrow> find_input (spec_input c') name = Some i"
  by (auto simp: GetInput_def find_input_append_new split: option.splits)

lemma member_add_format: "format \<noteq> [] \<Longrightarrow> List.member (add_format fs format) format"
  by (auto simp: add_format_def)

text \<open>
  \<open>GetInput\<close> with formats returns the input of the given name, creating it when there is
  none: asking again returns the same input and changes nothing, inputs that already existed
  keep their positions and names, and the input supports the formats it was asked for.
\<close>

theorem GetInput_idempotent:
  assumes "GetInput_formats c name file_format record_format = (i, c')"
  shows "input_name (spec_input c' ! i) = name \<and> i < length (spec_input c') \<and>
    (\<exists>extra. map input_name (spec_input c') = map input_name (spec_input c) @ extra) \<and>
    GetInput c' name = (i, c') \<and> GetInput_formats c' name file_format record_format = (i, c') \<and>
    (file_format \<noteq> [] \<and> record_format \<noteq> [] \<longrightarrow> Supports (spec_input c' ! i) file_format record_format)"
proof -
  obtain c1 where c1: "GetInput c name = (i, c1)"
    using assms by (auto simp: GetInput_formats_def Let_def split: prod.splits)
  let ?x = "spec_input c1 ! i"
  let ?y = "?x\<lparr>input_file_format := add_format (input_file_format ?x) file_format,
     input_record_format := add_format (input_record_format ?x) record_format\<rparr>"
  have c': "c' = c1\<lparr>spec_input := (spec_input c1)[i := ?y]\<rparr>"
    using assms c1 by (simp add: GetInput_formats_def Let_def)
  have f1: "find_input (spec_input c1) name = Some i" using GetInput_found [OF c1] .
  note i = find_input_Some [OF f1]
  have f: "find_input (spec_input c') name = Some i" using f1 i by (simp add: c' find_input_update)
  then have g: "GetInput c' name = (i, c')" by (simp add: GetInput_def)
  have "map input_name (spec_input c') = map input_name (spec_input c1)"
    using i by (simp add: c' map_update list_update_same_conv)
  moreover have "\<exists>extra. map input_name (spec_input c1) = map input_name (spec_input c) @ extra"
    using c1 by (auto simp: GetInput_def split: option.splits)
  moreover have "add_format (add_format fs a) a = add_format fs a" for fs a
    by (auto simp: add_format_def)
  then have "GetInput_formats c' name file_format record_format = (i, c')"
    using g i by (simp add: GetInput_formats_def Let_def c')
  ultimately show ?thesis using f g i member_add_format
    by (auto simp: c' Supports_def)
qed

theorem GetInput_idempotent_witness:
  "fst (GetInput_formats \<lparr>spec_parameter = [], spec_input = [new_input ''a'']\<rparr> ''tag-map'' ''text'' ''tag'') = 1 \<and>
   Supports (spec_input (snd (GetInput_formats \<lparr>spec_parameter = [], spec_input = [new_input ''a'']\<rparr> ''tag-map'' ''text'' ''tag'')) ! 1)
     ''text'' ''tag''"
proof -
  let ?c = "\<lparr>spec_parameter = [], spec_input = [new_input ''a'']\<rparr>"
  let ?r = "GetInput_formats ?c ''tag-map'' ''text'' ''tag''"
  have "fst ?r = 1" by code_simp
  moreover from this have "?r = (1, snd ?r)" by (metis prod.collapse)
  ultimately show ?thesis using GetInput_idempotent [of ?c "''tag-map''" "''text''" "''tag''" 1 "snd ?r"] by simp
qed

end
