(* ===== verification/Shift_Transitions.thy ===== *)
theory Shift_Transitions
  imports Transition_Systems Task_Context
begin

text \<open>
  \<^verbatim>\<open>syntaxnet/shift_transitions.cc\<close>: the transition system with the single action SHIFT, from left to
  right or from right to left. The transition state holds the direction; the system has a field
  with the direction as well, which the definitions take as their first argument.

  Lemmas: every run visits each token exactly once in the given direction and then stops.
\<close>

type_synonym shift_state = "bool parser_state"

definition shift_Clone :: "bool \<Rightarrow> bool" where
  "shift_Clone left_to_right = left_to_right"

definition shift_Init :: "shift_state \<Rightarrow> shift_state option" where
  "shift_Init s = do {
     left_to_right \<leftarrow> ps_transition_state s;
     if \<not> left_to_right then Advance_to (token_size (ps_sentence s) - 1) s else Some s }"

definition shift_IsTokenCorrect :: "bool \<Rightarrow> shift_state \<Rightarrow> int \<Rightarrow> bool option" where
  "shift_IsTokenCorrect ts s index = Some True"

definition shift_ToString :: "bool \<Rightarrow> shift_state \<Rightarrow> string option" where
  "shift_ToString ts s = Some []"

definition kShiftAction :: parser_action where
  "kShiftAction = 0"

definition shift_Setup :: "task_context \<Rightarrow> bool" where
  "shift_Setup context =
     (if Get_string context ''left-to-right'' ''<NOT-SET>'' = ''<NOT-SET>''
      then Get_bool context ''left_to_right'' True
      else Get_bool context ''left-to-right'' True)"

definition shift_NumActions :: "int \<Rightarrow> int" where
  "shift_NumActions num_labels = 1"

definition shift_GetDefaultAction :: "shift_state \<Rightarrow> parser_action option" where
  "shift_GetDefaultAction s = Some kShiftAction"

definition shift_GetNextGoldAction :: "shift_state \<Rightarrow> parser_action option" where
  "shift_GetNextGoldAction s = Some kShiftAction"

definition shift_IsAllowedAction :: "bool \<Rightarrow> parser_action \<Rightarrow> shift_state \<Rightarrow> bool option" where
  "shift_IsAllowedAction left_to_right action s =
     (if left_to_right then Some (\<not> EndOfInput s) else do { next \<leftarrow> Next s; Some (next \<ge> 0) })"

definition shift_IsFinalState :: "bool \<Rightarrow> shift_state \<Rightarrow> bool option" where
  "shift_IsFinalState left_to_right s =
     (if left_to_right then Some (EndOfInput s) else do { next \<leftarrow> Next s; Some (next < 0) })"

definition shift_PerformActionWithoutHistory ::
  "bool \<Rightarrow> parser_action \<Rightarrow> shift_state \<Rightarrow> shift_state option" where
  "shift_PerformActionWithoutHistory left_to_right action s = do {
     final \<leftarrow> shift_IsFinalState left_to_right s;
     if \<not> final then do {
       next \<leftarrow> Next s;
       s \<leftarrow> Push next s;
       let next = (if left_to_right then next + 1 else next - 1);
       Advance_to next s }
     else Some s }"

definition shift_ActionAsString :: "parser_action \<Rightarrow> shift_state \<Rightarrow> string option" where
  "shift_ActionAsString action s = do { next \<leftarrow> Next s; token \<leftarrow> GetToken s next; Some (tok_word token) }"

definition shift_IsDeterministicState :: "shift_state \<Rightarrow> bool" where
  "shift_IsDeterministicState s \<longleftrightarrow> True"

definition new_shift_state :: "bool \<Rightarrow> sentence \<Rightarrow> term_frequency_map \<Rightarrow> shift_state option" where
  "new_shift_state left_to_right sentence label_map =
     ParserState shift_Init sentence (Some left_to_right) label_map"

subsection \<open>Every run visits each token once\<close>

text \<open>The tokens in the order of the direction, and how many of them are shifted.\<close>

definition visit_order :: "bool \<Rightarrow> int \<Rightarrow> int list" where
  "visit_order left_to_right n = (if left_to_right then [0..n - 1] else rev [0..n - 1])"

definition shifted :: "bool \<Rightarrow> shift_state \<Rightarrow> int" where
  "shifted left_to_right s = (if left_to_right then ps_next s else ps_num_tokens s - 1 - ps_next s)"

definition shift_inv :: "bool \<Rightarrow> shift_state \<Rightarrow> bool" where
  "shift_inv left_to_right s \<longleftrightarrow> ps_wf s \<and> 0 \<le> shifted left_to_right s \<and> shifted left_to_right s \<le> ps_num_tokens s \<and>
     ps_stack s = take (nat (shifted left_to_right s)) (visit_order left_to_right (ps_num_tokens s))"

definition shift_steps_left :: "bool \<Rightarrow> shift_state \<Rightarrow> nat" where
  "shift_steps_left left_to_right s = nat (ps_num_tokens s - shifted left_to_right s)"

lemma visit_order_nth:
  "0 \<le> k \<Longrightarrow> k < n \<Longrightarrow> visit_order ltr n ! nat k = (if ltr then k else n - 1 - k)"
  by (auto simp: visit_order_def rev_nth)

lemma visit_order_length [simp]: "length (visit_order ltr n) = nat n"
  by (simp add: visit_order_def)

lemma shift_step:
  assumes inv: "shift_inv ltr s" and more: "shifted ltr s < ps_num_tokens s"
  shows "\<exists>s'. shift_PerformActionWithoutHistory ltr a s = Some s' \<and> shift_inv ltr s' \<and>
    shifted ltr s' = shifted ltr s + 1 \<and> ps_num_tokens s' = ps_num_tokens s \<and>
    ps_history s' = ps_history s \<and> ps_keep_history s' = ps_keep_history s \<and>
    ps_sentence s' = ps_sentence s \<and> ps_label_map s' = ps_label_map s"
proof -
  have wf: "ps_wf s" and k: "0 \<le> shifted ltr s" using inv by (auto simp: shift_inv_def)
  let ?next = "if ltr then ps_next s + 1 else ps_next s - 1"
  let ?s = "s\<lparr>ps_stack := ps_stack s @ [ps_next s], ps_next := ?next\<rparr>"
  have rng: "0 \<le> ps_next s" "ps_next s < ps_num_tokens s" using k more by (auto simp: shifted_def split: if_splits)
  have sz: "int (length (ps_stack s)) \<le> ps_num_tokens s" using inv more by (simp add: shift_inv_def)
  have "shift_PerformActionWithoutHistory ltr a s = Some ?s"
    using wf rng sz by (auto simp: shift_PerformActionWithoutHistory_def shift_IsFinalState_def EndOfInput_def
        Push_def Advance_to_def)
  moreover have sh: "shifted ltr ?s = shifted ltr s + 1" by (simp add: shifted_def)
  moreover have "ps_next s = visit_order ltr (ps_num_tokens s) ! nat (shifted ltr s)"
    using visit_order_nth [OF k more, of ltr] by (auto simp: shifted_def)
  then have "ps_stack s @ [ps_next s] = take (nat (shifted ltr s + 1)) (visit_order ltr (ps_num_tokens s))"
    using inv k more by (simp add: shift_inv_def nat_add_distrib take_Suc_conv_app_nth)
  moreover have "ps_wf ?s" using wf rng sz by (auto simp: ps_wf_def)
  ultimately show ?thesis using k more by (auto simp: shift_inv_def)
qed

interpretation shift: parser_transition_system
  "shift_IsAllowedAction ltr" "shift_IsFinalState ltr" "shift_PerformActionWithoutHistory ltr"
  "shift_inv ltr" "shift_steps_left ltr" for ltr
proof unfold_locales
  fix s :: shift_state and a h
  show "shift_steps_left ltr (s\<lparr>ps_history := h\<rparr>) = shift_steps_left ltr s"
    by (simp add: shift_steps_left_def shifted_def)
  show "shift_IsAllowedAction ltr a (s\<lparr>ps_history := h\<rparr>) = shift_IsAllowedAction ltr a s"
    by (simp add: shift_IsAllowedAction_def EndOfInput_def Next_def)
  assume inv: "shift_inv ltr s"
  have wf: "ps_wf s" "0 \<le> shifted ltr s" "shifted ltr s \<le> ps_num_tokens s" using inv by (auto simp: shift_inv_def)
  have "shifted ltr (s\<lparr>ps_history := h\<rparr>) = shifted ltr s" by (simp add: shifted_def)
  then show "shift_inv ltr (s\<lparr>ps_history := h\<rparr>)" using inv by (simp add: shift_inv_def ps_wf_cong)
  show "shift_IsFinalState ltr s = Some (shift_steps_left ltr s = 0)"
    using wf by (auto simp: shift_IsFinalState_def shift_steps_left_def shifted_def EndOfInput_def)
  have al: "shift_IsAllowedAction ltr a s = Some (shifted ltr s < ps_num_tokens s)"
    using wf by (auto simp: shift_IsAllowedAction_def shifted_def EndOfInput_def)
  then show "\<exists>b. shift_IsAllowedAction ltr a s = Some b" by simp
  assume "shift_IsAllowedAction ltr a s = Some True"
  then have more: "shifted ltr s < ps_num_tokens s" using al by simp
  then show "0 < shift_steps_left ltr s" by (simp add: shift_steps_left_def)
  show "\<exists>s'. shift_PerformActionWithoutHistory ltr a s = Some s' \<and> shift_inv ltr s' \<and>
      Suc (shift_steps_left ltr s') = shift_steps_left ltr s \<and>
      ps_history s' = ps_history s \<and> ps_keep_history s' = ps_keep_history s \<and>
      ps_sentence s' = ps_sentence s \<and> ps_label_map s' = ps_label_map s"
    using shift_step [OF inv more, of a] more wf by (auto simp: shift_steps_left_def)
qed

lemma new_shift_state_inv:
  assumes "tfm_inv label_map"
  shows "\<exists>s. new_shift_state ltr sentence label_map = Some s \<and> shift_inv ltr s \<and>
    shift_steps_left ltr s = length (sent_token sentence) \<and> ps_num_tokens s = token_size sentence \<and> ps_sentence s = sentence"
proof -
  let ?s = "fresh_state sentence (Some ltr) label_map"
  note wf = ps_wf_fresh [OF assms, of sentence "Some ltr"]
  have f: "ps_num_tokens ?s = token_size sentence" "ps_next ?s = 0" "ps_stack ?s = []" "ps_sentence ?s = sentence"
    "ps_transition_state ?s = Some ltr"
    by (simp_all add: fresh_state_def Let_def)
  have "new_shift_state ltr sentence label_map =
      Some (?s\<lparr>ps_next := (if ltr then 0 else token_size sentence - 1)\<rparr>)"
    by (simp add: new_shift_state_def ParserState_def Let_def shift_Init_def Advance_to_def fresh_state_def)
  moreover have "ps_wf (?s\<lparr>ps_next := (if ltr then 0 else token_size sentence - 1)\<rparr>)"
    using wf f by (auto simp: ps_wf_def token_size_def)
  ultimately show ?thesis using f by (auto simp: shift_inv_def shifted_def shift_steps_left_def token_size_def)
qed

text \<open>
  The shift-only system visits every token exactly once. Started on any sentence and driven by
  any actions, it performs one action per token without abort and stops with the tokens on
  the stack in the order of its direction.
\<close>

theorem shift_visits_all:
  assumes "tfm_inv label_map" and "\<And>s. \<exists>a. chooser s = Some a"
  shows "\<exists>s0 s. new_shift_state left_to_right sentence label_map = Some s0 \<and>
    drive (shift_IsFinalState left_to_right) (PerformAction (shift_PerformActionWithoutHistory left_to_right))
      chooser (length (sent_token sentence)) s0 = Some s \<and>
    ps_stack s = (if left_to_right then [0..token_size sentence - 1] else rev [0..token_size sentence - 1])"
proof -
  let ?ltr = left_to_right
  obtain s0 where s0: "new_shift_state ?ltr sentence label_map = Some s0" "shift_inv ?ltr s0"
      "shift_steps_left ?ltr s0 = length (sent_token sentence)" "ps_sentence s0 = sentence"
    using new_shift_state_inv [OF assms(1), of ?ltr sentence] by auto
  have "\<exists>a. chooser t = Some a \<and> shift_IsAllowedAction ?ltr a t = Some True"
    if "shift_inv ?ltr t" "0 < shift_steps_left ?ltr t" for t
  proof -
    have "shift_IsAllowedAction ?ltr a t = Some True" for a
      using that by (auto simp: shift_IsAllowedAction_def shift_inv_def shift_steps_left_def shifted_def EndOfInput_def)
    then show ?thesis using assms(2) by blast
  qed
  from shift.ts.drive_chooser [OF s0(2) order_refl this] s0(3) obtain acts s where
    s: "drive (shift_IsFinalState ?ltr) (PerformAction (shift_PerformActionWithoutHistory ?ltr)) chooser
        (length (sent_token sentence)) s0 = Some s" "shift_inv ?ltr s" "shift_steps_left ?ltr s = 0"
      "allowed_run (shift_IsAllowedAction ?ltr) (PerformAction (shift_PerformActionWithoutHistory ?ltr)) s0 acts s"
    by auto
  have "ps_num_tokens s = token_size sentence"
    using shift.recorded_run [OF s(4) s0(2)] s(2) s0(4) ps_wfD(1) [of s] by (simp add: shift_inv_def)
  moreover have "ps_stack s = visit_order ?ltr (ps_num_tokens s)"
    using s(2,3) by (simp add: shift_inv_def shift_steps_left_def)
  ultimately show ?thesis using s0(1) s(1) by (auto simp: visit_order_def)
qed

theorem shift_visits_all_witness:
  "\<exists>s0 s. new_shift_state False three_tokens empty_tfm = Some s0 \<and>
    drive (shift_IsFinalState False) (PerformAction (shift_PerformActionWithoutHistory False))
      shift_GetNextGoldAction 3 s0 = Some s \<and> ps_stack s = [2, 1, 0]"
proof -
  have "length (sent_token three_tokens) = 3" "rev [0..token_size three_tokens - 1] = [2, 1, 0]" by code_simp+
  then show ?thesis
    using shift_visits_all [OF tfm_inv_empty, of shift_GetNextGoldAction False three_tokens]
    by (simp add: shift_GetNextGoldAction_def)
qed

end
