(* ===== verification/Sequence_Labellers.thy ===== *)
theory Sequence_Labellers
  imports Transition_Systems
begin

text \<open>
  The contract that the tagger and the morphological analyser share: a transition system whose
  state holds a vector of assigned values and a vector of gold values, one per token, whose only
  action assigns a value to the next token, pushes it and advances. The locale states what such
  a system promises; its sublocale relation says that it is an oracle system, and the lemma
  \<open>labels_gold\<close> that following the oracle assigns exactly the gold values.
\<close>

locale sequence_labeller =
  fixes is_allowed :: "parser_action \<Rightarrow> 'ts parser_state \<Rightarrow> bool option"
    and is_final :: "'ts parser_state \<Rightarrow> bool option"
    and perform :: "parser_action \<Rightarrow> 'ts parser_state \<Rightarrow> 'ts parser_state option"
    and gold :: "'ts parser_state \<Rightarrow> parser_action option"
    and tags :: "'ts \<Rightarrow> int list"
    and gold_tags :: "'ts \<Rightarrow> int list"
    and with_tags :: "int list \<Rightarrow> 'ts \<Rightarrow> 'ts"
  assumes l_allowed: "is_allowed a s = Some (ps_next s \<noteq> ps_num_tokens s)"
    and l_final: "is_final s = Some (ps_next s = ps_num_tokens s)"
    and l_perform:
      "ps_wf s \<Longrightarrow> ps_transition_state s = Some ts \<Longrightarrow> 0 \<le> ps_next s \<Longrightarrow> ps_next s < ps_num_tokens s \<Longrightarrow>
       int (length (tags ts)) = ps_num_tokens s \<Longrightarrow> int (length (ps_stack s)) \<le> ps_num_tokens s \<Longrightarrow>
         perform a s = Some (s\<lparr>ps_transition_state := Some (with_tags ((tags ts)[nat (ps_next s) := a]) ts),
           ps_stack := ps_stack s @ [ps_next s], ps_next := ps_next s + 1\<rparr>)"
    and l_gold:
      "ps_wf s \<Longrightarrow> ps_transition_state s = Some ts \<Longrightarrow> 0 \<le> ps_next s \<Longrightarrow> ps_next s < ps_num_tokens s \<Longrightarrow>
       int (length (gold_tags ts)) = ps_num_tokens s \<Longrightarrow> gold s = Some (gold_tags ts ! nat (ps_next s))"
    and l_gold_history: "gold (s\<lparr>ps_history := h\<rparr>) = gold s"
    and l_tags: "tags (with_tags xs ts) = xs"
    and l_gold_tags: "gold_tags (with_tags xs ts) = gold_tags ts"
    and l_with_tags: "with_tags xs (with_tags ys ts) = with_tags xs ts"
    and l_with_self: "with_tags (tags ts) ts = ts"
begin

definition label_inv :: "'ts parser_state \<Rightarrow> bool" where
  "label_inv s \<longleftrightarrow> ps_wf s \<and> 0 \<le> ps_next s \<and> ps_stack s = [0..ps_next s - 1] \<and>
     (\<exists>ts. ps_transition_state s = Some ts \<and> int (length (tags ts)) = ps_num_tokens s \<and>
        int (length (gold_tags ts)) = ps_num_tokens s)"

definition label_steps :: "'ts parser_state \<Rightarrow> nat" where
  "label_steps s = nat (ps_num_tokens s - ps_next s)"

definition label_gold :: "'ts parser_state \<Rightarrow> bool" where
  "label_gold s \<longleftrightarrow> (\<forall>ts i. ps_transition_state s = Some ts \<and> 0 \<le> i \<and> i < ps_next s \<longrightarrow>
     tags ts ! nat i = gold_tags ts ! nat i)"

lemma label_perform:
  assumes inv: "label_inv s" and more: "ps_next s \<noteq> ps_num_tokens s"
  shows "\<exists>ts s'. ps_transition_state s = Some ts \<and> perform a s = Some s' \<and> label_inv s' \<and>
    Suc (label_steps s') = label_steps s \<and> ps_next s' = ps_next s + 1 \<and>
    ps_transition_state s' = Some (with_tags ((tags ts)[nat (ps_next s) := a]) ts) \<and>
    ps_history s' = ps_history s \<and> ps_keep_history s' = ps_keep_history s \<and>
    ps_sentence s' = ps_sentence s \<and> ps_label_map s' = ps_label_map s"
proof -
  obtain ts where ts: "ps_transition_state s = Some ts" "int (length (tags ts)) = ps_num_tokens s"
      "int (length (gold_tags ts)) = ps_num_tokens s" and wf: "ps_wf s" "0 \<le> ps_next s" "ps_stack s = [0..ps_next s - 1]"
    using inv by (auto simp: label_inv_def)
  have lt: "ps_next s < ps_num_tokens s" using ps_wfD(5) [OF wf(1)] more by simp
  let ?s = "s\<lparr>ps_transition_state := Some (with_tags ((tags ts)[nat (ps_next s) := a]) ts),
           ps_stack := ps_stack s @ [ps_next s], ps_next := ps_next s + 1\<rparr>"
  have "perform a s = Some ?s" using wf lt by (intro l_perform [OF wf(1) ts(1) wf(2) lt ts(2)]) simp
  moreover have "label_inv ?s" using wf ts lt upto_rec2 [of 0 "ps_next s"]
    by (auto simp: label_inv_def ps_wf_def l_tags l_gold_tags)
  ultimately show ?thesis using ts lt wf by (auto simp: label_steps_def)
qed

end

sublocale sequence_labeller \<subseteq>
  orc: oracle_system is_allowed is_final perform label_inv label_steps gold label_gold
proof unfold_locales
  fix s :: "'ts parser_state" and a h
  show "label_steps (s\<lparr>ps_history := h\<rparr>) = label_steps s" by (simp add: label_steps_def)
  show "is_allowed a (s\<lparr>ps_history := h\<rparr>) = is_allowed a s" by (simp add: l_allowed)
  show "\<exists>b. is_allowed a s = Some b" by (simp add: l_allowed)
  show "label_gold (s\<lparr>ps_history := h\<rparr>)" if "label_gold s" using that by (simp add: label_gold_def)
  show "gold (s\<lparr>ps_history := h\<rparr>) = gold s" by (rule l_gold_history)
  assume inv: "label_inv s"
  then show "label_inv (s\<lparr>ps_history := h\<rparr>)" by (simp add: label_inv_def ps_wf_cong)
  have le: "ps_next s \<le> ps_num_tokens s" using inv ps_wfD(5) by (auto simp: label_inv_def)
  then show "is_final s = Some (label_steps s = 0)" by (auto simp: l_final label_steps_def)
  show "0 < label_steps s" if "is_allowed a s = Some True"
    using that le by (auto simp: l_allowed label_steps_def)
  show "\<exists>s'. perform a s = Some s' \<and> label_inv s' \<and> Suc (label_steps s') = label_steps s \<and>
      ps_history s' = ps_history s \<and> ps_keep_history s' = ps_keep_history s \<and>
      ps_sentence s' = ps_sentence s \<and> ps_label_map s' = ps_label_map s" if "is_allowed a s = Some True"
    using label_perform [OF inv, of a] that by (auto simp: l_allowed)
  assume g: "label_gold s" and more: "0 < label_steps s"
  then have lt: "ps_next s < ps_num_tokens s" "ps_next s \<noteq> ps_num_tokens s" by (auto simp: label_steps_def)
  obtain ts where ts: "ps_transition_state s = Some ts" "int (length (tags ts)) = ps_num_tokens s"
      "int (length (gold_tags ts)) = ps_num_tokens s" and wf: "ps_wf s" "0 \<le> ps_next s"
    using inv by (auto simp: label_inv_def)
  let ?a = "gold_tags ts ! nat (ps_next s)"
  have "label_gold s'" if p: "perform ?a s = Some s'" for s'
  proof -
    from label_perform [OF inv lt(2), of ?a] p ts have
      s': "ps_next s' = ps_next s + 1" "ps_transition_state s' = Some (with_tags ((tags ts)[nat (ps_next s) := ?a]) ts)"
      by auto
    have "(tags ts)[nat (ps_next s) := ?a] ! nat i = gold_tags ts ! nat i" if "0 \<le> i" "i < ps_next s + 1" for i
      using that g ts wf lt by (cases "i = ps_next s") (auto simp: label_gold_def nth_list_update)
    then show ?thesis by (simp add: label_gold_def s' l_tags l_gold_tags)
  qed
  then show "\<exists>a. gold s = Some a \<and> is_allowed a s = Some True \<and>
      (\<forall>s'. perform a s = Some s' \<longrightarrow> label_gold s')"
    using l_gold [OF wf(1) ts(1) wf(2) lt(1) ts(3)] lt by (auto simp: l_allowed)
qed

context sequence_labeller
begin

lemma run_frame:
  "allowed_run is_allowed (PerformAction perform) s acts s' \<Longrightarrow> label_inv s \<Longrightarrow> ps_transition_state s = Some ts \<Longrightarrow>
     \<exists>xs. ps_transition_state s' = Some (with_tags xs ts)"
proof (induction arbitrary: ts rule: allowed_run.induct)
  case (run_nil s)
  then show ?case by (intro exI [of _ "tags ts"]) (simp add: l_with_self)
next
  case (run_step a s s1 acts s')
  let ?s = "if ps_keep_history s then s else s\<lparr>ps_history := ps_history s @ [a]\<rparr>"
  have p: "perform a ?s = Some s1" "label_inv ?s" "ps_next ?s \<noteq> ps_num_tokens ?s" "ps_transition_state ?s = Some ts"
    using run_step.hyps(1,2) run_step.prems orc.p_inv_history
    by (auto simp: PerformAction_def Let_def l_allowed split: if_splits)
  from label_perform [OF p(2,3), of a] p(1,4) obtain ys where
    "label_inv s1" "ps_transition_state s1 = Some (with_tags ys ts)" by auto
  with run_step.IH show ?case by (metis l_with_tags)
qed

theorem labels_gold:
  assumes inv: "label_inv s" and start: "ps_next s = 0" and ts: "ps_transition_state s = Some ts"
  shows "\<exists>s'. drive is_final (PerformAction perform) gold (nat (ps_num_tokens s)) s = Some s' \<and> label_inv s' \<and>
    ps_transition_state s' = Some (with_tags (gold_tags ts) ts) \<and> ps_stack s' = [0..ps_num_tokens s' - 1] \<and>
    ps_sentence s' = ps_sentence s \<and> ps_label_map s' = ps_label_map s"
proof -
  have g: "label_gold s" using start by (simp add: label_gold_def)
  from orc.gold_run [OF inv g] obtain acts s' where
    s': "drive is_final (PerformAction perform) gold (label_steps s) s = Some s'" "label_inv s'" "label_gold s'"
      "is_final s' = Some True" "allowed_run is_allowed (PerformAction perform) s acts s'" by blast
  obtain xs where xs: "ps_transition_state s' = Some (with_tags xs ts)" using run_frame [OF s'(5) inv ts] by blast
  then have len: "int (length xs) = ps_num_tokens s'" "int (length (gold_tags ts)) = ps_num_tokens s'"
      "ps_stack s' = [0..ps_next s' - 1]"
    using s'(2) by (auto simp: label_inv_def l_tags l_gold_tags)
  have e: "ps_next s' = ps_num_tokens s'" using s'(4) by (simp add: l_final)
  have "xs ! i = gold_tags ts ! i" if "i < length xs" for i
  proof -
    have "int i < ps_next s'" using that len(1) e by simp
    then show ?thesis using s'(3) xs unfolding label_gold_def by (metis nat_int of_nat_0_le_iff l_tags l_gold_tags)
  qed
  then have "xs = gold_tags ts" using len by (intro nth_equalityI) auto
  moreover have "label_steps s = nat (ps_num_tokens s)" using start by (simp add: label_steps_def)
  ultimately show ?thesis using s' xs len(3) e orc.recorded_run [OF s'(5) inv] by auto
qed

end

end
