(* ===== verification/Tagger_Transitions.thy ===== *)
theory Tagger_Transitions
  imports Sequence_Labellers Task_Context
begin

text \<open>
  \<^verbatim>\<open>syntaxnet/tagger_transitions.cc\<close>: the part-of-speech tagger. The transition state holds the
  assigned and the gold tags and points to the tag map and, unless categories are joined to
  tags, to the map from tags to categories. The action that assigns tag \<open>t\<close> is the number \<open>t\<close>.

  Lemmas: the tagger is a \<open>sequence_labeller\<close>, so that the oracle assigns the gold tags; the
  annotation of a document after an oracle run restores the tags of the sentence.
\<close>

record tagger_ts =
  tg_tag :: "int list"
  tg_gold_tag :: "int list"
  tg_tag_map :: term_frequency_map
  tg_tag_to_category :: "tag_to_category_map option"

type_synonym tagger_state = "tagger_ts parser_state"

definition TaggerTransitionState :: "term_frequency_map \<Rightarrow> tag_to_category_map option \<Rightarrow> tagger_ts" where
  "TaggerTransitionState tag_map category_map =
     \<lparr>tg_tag = [], tg_gold_tag = [], tg_tag_map = tag_map, tg_tag_to_category = category_map\<rparr>"

definition tagger_Clone :: "tagger_ts \<Rightarrow> tagger_ts" where
  "tagger_Clone ts =
     (TaggerTransitionState (tg_tag_map ts) (tg_tag_to_category ts))\<lparr>tg_tag := tg_tag ts, tg_gold_tag := tg_gold_tag ts\<rparr>"

definition tagger_Init :: "tagger_state \<Rightarrow> tagger_state option" where
  "tagger_Init s = do {
     ts \<leftarrow> ps_transition_state s;
     let n = token_size (ps_sentence s);
     let ts = ts\<lparr>tg_tag := vec_resize (tg_tag ts) n (-1), tg_gold_tag := vec_resize (tg_gold_tag ts) n (-1)\<rparr>;
     ts \<leftarrow> foreach (\<lambda>pos ts. do {
         token \<leftarrow> GetToken s pos;
         let tag = LookupIndex (tg_tag_map ts) (tok_tag token) (-1);
         gold \<leftarrow> vec_set (tg_gold_tag ts) pos tag;
         Some (ts\<lparr>tg_gold_tag := gold\<rparr>) }) [0..n - 1] ts;
     Some (s\<lparr>ps_transition_state := Some ts\<rparr>) }"

definition tagger_Tag :: "tagger_ts \<Rightarrow> int \<Rightarrow> int option" where
  "tagger_Tag ts index = (if index = -1 then Some (-1) else vec_at (tg_tag ts) index)"

definition tagger_SetTag :: "int \<Rightarrow> int \<Rightarrow> tagger_ts \<Rightarrow> tagger_ts option" where
  "tagger_SetTag index tag ts = do { t \<leftarrow> vec_set (tg_tag ts) index tag; Some (ts\<lparr>tg_tag := t\<rparr>) }"

definition tagger_GoldTag :: "tagger_ts \<Rightarrow> int \<Rightarrow> int option" where
  "tagger_GoldTag ts index = (if index = -1 then Some (-1) else vec_at (tg_gold_tag ts) index)"

definition TagAsString :: "tagger_ts \<Rightarrow> int \<Rightarrow> string option" where
  "TagAsString ts tag =
     (if tag \<ge> 0 \<and> tag < Size (tg_tag_map ts) then GetTerm (tg_tag_map ts) tag else Some [])"

definition tagger_annotate :: "tagger_ts \<Rightarrow> int \<Rightarrow> sentence \<Rightarrow> sentence option" where
  "tagger_annotate ts i sentence = do {
     token \<leftarrow> sent_token_at sentence i;
     tag \<leftarrow> tagger_Tag ts i;
     str \<leftarrow> TagAsString ts tag;
     let token = token\<lparr>tok_tag := str\<rparr>;
     token \<leftarrow> (case tg_tag_to_category ts of
        None \<Rightarrow> Some token
      | Some m \<Rightarrow> do { category \<leftarrow> GetCategory m (tok_tag token); Some (token\<lparr>tok_category := category\<rparr>) });
     set_token sentence i token }"

definition tagger_AddParseToDocument :: "tagger_ts \<Rightarrow> tagger_state \<Rightarrow> bool \<Rightarrow> sentence \<Rightarrow> sentence option" where
  "tagger_AddParseToDocument ts s rewrite_root_labels sentence =
     foreach (tagger_annotate ts) [0..int (length (tg_tag ts)) - 1] sentence"

definition tagger_IsTokenCorrect :: "tagger_ts \<Rightarrow> tagger_state \<Rightarrow> int \<Rightarrow> bool option" where
  "tagger_IsTokenCorrect ts s index = do {
     g \<leftarrow> tagger_GoldTag ts index; t \<leftarrow> tagger_Tag ts index; Some (g = t) }"

definition tagger_ToString :: "tagger_ts \<Rightarrow> tagger_state \<Rightarrow> string option" where
  "tagger_ToString ts s = do {
     str \<leftarrow> foreach (\<lambda>i str. do {
         token \<leftarrow> GetToken s (Stack s (i - 1));
         let str = (if i \<noteq> StackSize s - 1 then str @ '' '' else str);
         tag \<leftarrow> tagger_Tag ts (StackSize s - i);
         name \<leftarrow> TagAsString ts tag;
         Some (str @ tok_word token @ ''['' @ name @ '']'') })
       (rev [1..StackSize s]) [];
     next \<leftarrow> Next s;
     foreach (\<lambda>i str. do { token \<leftarrow> GetToken s i; Some (str @ '' '' @ tok_word token) })
       [next..NumTokens s - 1] str }"

text \<open>\<^verbatim>\<open>Setup\<close>: the inputs the system asks for, with the context that now lists them.\<close>

definition tagger_Setup :: "task_context \<Rightarrow> (nat \<times> bool \<times> nat option) \<times> task_context" where
  "tagger_Setup c =
     (let (tag_map, c) = GetInput_formats c ''tag-map'' ''text'' [];
          join_category_to_pos = GetBoolParameter c ''join_category_to_pos''
      in if \<not> join_category_to_pos then
           let (category_map, c) = GetInput_formats c ''tag-to-category'' ''text'' []
           in ((tag_map, join_category_to_pos, Some category_map), c)
         else ((tag_map, join_category_to_pos, None), c))"

definition tagger_ShiftAction :: "int \<Rightarrow> parser_action" where
  "tagger_ShiftAction tag = tag"

definition tagger_NumActions :: "term_frequency_map \<Rightarrow> int \<Rightarrow> int" where
  "tagger_NumActions tag_map num_labels = Size tag_map"

definition tagger_GetDefaultAction :: "tagger_state \<Rightarrow> parser_action option" where
  "tagger_GetDefaultAction s = Some (tagger_ShiftAction 0)"

definition tagger_GetNextGoldAction :: "tagger_state \<Rightarrow> parser_action option" where
  "tagger_GetNextGoldAction s =
     (if \<not> EndOfInput s then do {
        ts \<leftarrow> ps_transition_state s;
        next \<leftarrow> Next s;
        tag \<leftarrow> tagger_GoldTag ts next;
        Some (tagger_ShiftAction tag) }
      else Some (tagger_ShiftAction 0))"

definition tagger_IsAllowedAction :: "parser_action \<Rightarrow> tagger_state \<Rightarrow> bool option" where
  "tagger_IsAllowedAction action s = Some (\<not> EndOfInput s)"

definition tagger_PerformActionWithoutHistory :: "parser_action \<Rightarrow> tagger_state \<Rightarrow> tagger_state option" where
  "tagger_PerformActionWithoutHistory action s =
     (if \<not> EndOfInput s then do {
        ts \<leftarrow> ps_transition_state s;
        next \<leftarrow> Next s;
        ts \<leftarrow> tagger_SetTag next action ts;
        let s = s\<lparr>ps_transition_state := Some ts\<rparr>;
        s \<leftarrow> Push next s;
        Advance s }
      else Some s)"

definition tagger_IsFinalState :: "tagger_state \<Rightarrow> bool option" where
  "tagger_IsFinalState s = Some (EndOfInput s)"

definition tagger_ActionAsString :: "term_frequency_map \<Rightarrow> parser_action \<Rightarrow> tagger_state \<Rightarrow> string option" where
  "tagger_ActionAsString tag_map action s = do {
     t \<leftarrow> GetTerm tag_map action; Some (''SHIFT('' @ t @ '')'') }"

definition tagger_IsDeterministicState :: "tagger_state \<Rightarrow> bool" where
  "tagger_IsDeterministicState s \<longleftrightarrow> False"

definition new_tagger_state ::
  "term_frequency_map \<Rightarrow> tag_to_category_map option \<Rightarrow> sentence \<Rightarrow> term_frequency_map \<Rightarrow> tagger_state option" where
  "new_tagger_state tag_map category_map sentence label_map =
     ParserState tagger_Init sentence (Some (TaggerTransitionState tag_map category_map)) label_map"

definition PredictedTag_Compute :: "tagger_state \<Rightarrow> int \<Rightarrow> int option" where
  "PredictedTag_Compute s focus =
     (if focus < 0 \<or> focus \<ge> token_size (ps_sentence s) then Some (-1)
      else do { ts \<leftarrow> ps_transition_state s; tagger_Tag ts focus })"

subsection \<open>The tagger as a sequence labeller\<close>

interpretation tagger: sequence_labeller
  tagger_IsAllowedAction tagger_IsFinalState tagger_PerformActionWithoutHistory tagger_GetNextGoldAction
  tg_tag tg_gold_tag "\<lambda>tags ts. ts\<lparr>tg_tag := tags\<rparr>"
  by unfold_locales
     (auto simp: tagger_IsAllowedAction_def tagger_IsFinalState_def EndOfInput_def tagger_PerformActionWithoutHistory_def
       tagger_SetTag_def Push_def Advance_def tagger_GetNextGoldAction_def tagger_GoldTag_def tagger_ShiftAction_def
       Next_def Let_def ps_wfD(5))

lemma tagger_Init_eq:
  assumes wf: "ps_wf s" and ts: "ps_transition_state s = Some ts" and new: "tg_tag ts = []" "tg_gold_tag ts = []"
  shows "tagger_Init s = Some (s\<lparr>ps_transition_state := Some (ts\<lparr>tg_tag := replicate (length (sent_token (ps_sentence s))) (-1),
    tg_gold_tag := map (\<lambda>t. LookupIndex (tg_tag_map ts) (tok_tag t) (-1)) (sent_token (ps_sentence s))\<rparr>)\<rparr>)"
proof -
  let ?toks = "sent_token (ps_sentence s)" let ?n = "length ?toks"
  let ?f = "\<lambda>t. LookupIndex (tg_tag_map ts) (tok_tag t) (-1)"
  let ?ts0 = "ts\<lparr>tg_tag := replicate ?n (-1), tg_gold_tag := replicate ?n (-1)\<rparr>"
  let ?body = "\<lambda>pos ts. do { token \<leftarrow> GetToken s pos; let tag = LookupIndex (tg_tag_map ts) (tok_tag token) (-1);
         gold \<leftarrow> vec_set (tg_gold_tag ts) pos tag; Some (ts\<lparr>tg_gold_tag := gold\<rparr>) }"
  have n: "ps_num_tokens s = int ?n" using ps_wfD(1) [OF wf] by (simp add: token_size_def)
  have "foreach ?body (map int [0..<?n]) (?ts0\<lparr>tg_gold_tag := replicate ?n (-1)\<rparr>) =
      Some (?ts0\<lparr>tg_gold_tag := map (\<lambda>i. ?f (?toks ! i)) [0..<?n] @ drop ?n (replicate ?n (-1))\<rparr>)"
    by (rule foreach_fill [where state = "\<lambda>g. ?ts0\<lparr>tg_gold_tag := g\<rparr>" and n = ?n])
       (use GetToken_wf [OF wf] n in auto)
  then show ?thesis using ts new map_nth_upt [of ?f ?toks]
    by (simp add: tagger_Init_def vec_resize_def token_size_def upto_map_int)
qed

lemma new_tagger_state_inv:
  assumes "tfm_inv label_map"
  shows "\<exists>s ts. new_tagger_state tag_map category_map sentence label_map = Some s \<and> tagger.label_inv s \<and>
    ps_next s = 0 \<and> ps_num_tokens s = token_size sentence \<and> ps_sentence s = sentence \<and> ps_transition_state s = Some ts \<and>
    tg_tag_map ts = tag_map \<and> tg_tag_to_category ts = category_map \<and>
    tg_gold_tag ts = map (\<lambda>t. LookupIndex tag_map (tok_tag t) (-1)) (sent_token sentence)"
proof -
  let ?s = "fresh_state sentence (Some (TaggerTransitionState tag_map category_map)) label_map"
  note wf = ps_wf_fresh [OF assms, of sentence "Some (TaggerTransitionState tag_map category_map)"]
  have f: "ps_num_tokens ?s = token_size sentence" "ps_next ?s = 0" "ps_stack ?s = []" "ps_sentence ?s = sentence"
    "ps_transition_state ?s = Some (TaggerTransitionState tag_map category_map)"
    by (simp_all add: fresh_state_def Let_def)
  from tagger_Init_eq [OF wf f(5)] show ?thesis using f wf
    by (simp add: new_tagger_state_def ParserState_def Let_def TaggerTransitionState_def tagger.label_inv_def
        ps_wf_cong token_size_def)
qed

definition tagged :: "tagger_ts \<Rightarrow> nat \<Rightarrow> token \<Rightarrow> token" where
  "tagged ts i t =
     (let t = t\<lparr>tok_tag := the (TagAsString ts (tg_tag ts ! i))\<rparr>
      in case tg_tag_to_category ts of None \<Rightarrow> t | Some m \<Rightarrow> t\<lparr>tok_category := the (GetCategory m (tok_tag t))\<rparr>)"

lemma TagAsString_lookup:
  assumes "tfm_inv (tg_tag_map ts)" and "LookupIndex (tg_tag_map ts) t (-1) \<noteq> -1"
  shows "TagAsString ts (LookupIndex (tg_tag_map ts) t (-1)) = Some t"
  using tfm.lookup_known [OF assms] by (auto simp: TagAsString_def)

lemma tagger_annotate_eq:
  assumes "i < length (tg_tag ts)" "i < length (sent_token d)" and "TagAsString ts (tg_tag ts ! i) = Some str"
    and "\<forall>m. tg_tag_to_category ts = Some m \<longrightarrow> GetCategory m str \<noteq> None"
  shows "tagger_annotate ts (int i) d = set_token d (int i) (tagged ts i (sent_token d ! i))"
  using assms by (auto simp: tagger_annotate_def sent_token_at_def tagger_Tag_def tagged_def Let_def split: option.splits)

text \<open>The token without what the tagger annotates: its tag, and its category when there is a map from
  tags to categories.\<close>

definition untagged :: "tag_to_category_map option \<Rightarrow> token \<Rightarrow> token" where
  "untagged category_map t =
     t\<lparr>tok_tag := [], tok_category := (case category_map of None \<Rightarrow> tok_category t | Some _ \<Rightarrow> [])\<rparr>"

text \<open>
  C29: The tagger oracle round trip. For a sentence whose tags are in the tag map (and whose
  categories are those of the category map, when there is one) the tagger that follows
  \<open>GetNextGoldAction\<close> takes one action per token, never aborts, and writing the result into the
  sentence with its tags erased, and its categories too when there is a category map,
  restores the sentence: every tag and every category is written.
\<close>

theorem tagger_oracle_roundtrip:
  assumes "tfm_inv label_map" and "tfm_inv tag_map"
    and "\<forall>t \<in> set (sent_token sentence). LookupIndex tag_map (tok_tag t) (-1) \<noteq> -1"
    and "\<forall>m. category_map = Some m \<longrightarrow> (\<forall>t \<in> set (sent_token sentence). GetCategory m (tok_tag t) = Some (tok_category t))"
  shows "\<exists>s0 s. new_tagger_state tag_map category_map sentence label_map = Some s0 \<and>
    drive tagger_IsFinalState (PerformAction tagger_PerformActionWithoutHistory) tagger_GetNextGoldAction
      (length (sent_token sentence)) s0 = Some s \<and>
    AddParseToDocument tagger_AddParseToDocument s
      (sentence\<lparr>sent_token := map (untagged category_map) (sent_token sentence)\<rparr>) rewrite = Some sentence"
proof -
  obtain s0 ts where s0: "new_tagger_state tag_map category_map sentence label_map = Some s0" "tagger.label_inv s0"
    "ps_next s0 = 0" "ps_num_tokens s0 = token_size sentence" "ps_sentence s0 = sentence" "ps_transition_state s0 = Some ts"
    "tg_tag_map ts = tag_map" "tg_tag_to_category ts = category_map"
    "tg_gold_tag ts = map (\<lambda>t. LookupIndex tag_map (tok_tag t) (-1)) (sent_token sentence)"
    using new_tagger_state_inv [OF assms(1)] by metis
  from tagger.labels_gold [OF s0(2,3,6)] obtain s where
    s: "drive tagger_IsFinalState (PerformAction tagger_PerformActionWithoutHistory) tagger_GetNextGoldAction
      (nat (ps_num_tokens s0)) s0 = Some s" "ps_transition_state s = Some (ts\<lparr>tg_tag := tg_gold_tag ts\<rparr>)"
    by blast
  let ?toks = "sent_token sentence" and ?ts = "ts\<lparr>tg_tag := tg_gold_tag ts\<rparr>" and ?er = "untagged category_map"
  let ?d = "sentence\<lparr>sent_token := map ?er ?toks\<rparr>"
  have str: "TagAsString ?ts (tg_gold_tag ts ! i) = Some (tok_tag (?toks ! i))" if "i < length ?toks" for i
    using TagAsString_lookup [of ?ts] assms(2,3) s0(7,9) that by simp
  have "foreach (tagger_annotate ?ts) (map int [0..<length ?toks]) ?d =
      Some (?d\<lparr>sent_token := map (\<lambda>i. tagged ?ts i (sent_token ?d ! i)) [0..<length ?toks] @ drop (length ?toks) (sent_token ?d)\<rparr>)"
    by (rule foreach_token_update [of "length ?toks"])
       (use s0 str assms(4) in \<open>auto intro!: tagger_annotate_eq\<close>)
  moreover have "map (\<lambda>i. tagged ?ts i (sent_token ?d ! i)) [0..<length ?toks] = map (\<lambda>i. ?toks ! i) [0..<length ?toks]"
    using str s0(8) assms(4) by (intro map_cong) (auto simp: tagged_def untagged_def Let_def split: option.splits)
  ultimately have "foreach (tagger_annotate ?ts) (map int [0..<length ?toks]) ?d = Some sentence"
    by (simp add: map_nth)
  then have "AddParseToDocument tagger_AddParseToDocument s ?d rewrite = Some sentence"
    using s(2) s0(9) by (simp add: AddParseToDocument_def tagger_AddParseToDocument_def upto_map_int)
  then show ?thesis using s0(1,4) s(1) by (simp add: token_size_def)
qed

definition tagged_two :: sentence where
  "tagged_two = \<lparr>sent_docid = [], sent_text = [], sent_token =
     [default_token\<lparr>tok_word := ''dogs'', tok_tag := ''NNS'', tok_category := ''NOUN''\<rparr>,
      default_token\<lparr>tok_word := ''bark'', tok_tag := ''VBP'', tok_category := ''VERB''\<rparr>]\<rparr>"

definition tags_two :: term_frequency_map where
  "tags_two = \<lparr>term_index = [(''VBP'', 0), (''NNS'', 1)], term_data = [(''VBP'', 3), (''NNS'', 2)]\<rparr>"

definition categories_two :: tag_to_category_map where
  "categories_two = SetCategory (SetCategory empty_tag_map ''NNS'' ''NOUN'') ''VBP'' ''VERB''"

theorem tagger_oracle_roundtrip_witness:
  "\<exists>s0 s. new_tagger_state tags_two (Some categories_two) tagged_two empty_tfm = Some s0 \<and>
    drive tagger_IsFinalState (PerformAction tagger_PerformActionWithoutHistory) tagger_GetNextGoldAction
      (length (sent_token tagged_two)) s0 = Some s \<and>
    AddParseToDocument tagger_AddParseToDocument s
      (tagged_two\<lparr>sent_token := map (\<lambda>t. t\<lparr>tok_tag := [], tok_category := []\<rparr>) (sent_token tagged_two)\<rparr>) True = Some tagged_two"
proof -
  have u: "untagged (Some categories_two) = (\<lambda>t. t\<lparr>tok_tag := [], tok_category := []\<rparr>)" by (simp add: fun_eq_iff untagged_def)
  show ?thesis unfolding u [symmetric]
  proof (rule tagger_oracle_roundtrip [OF tfm_inv_empty])
    show "tfm_inv tags_two" by (auto simp: tfm_inv_def tags_two_def)
    show "\<forall>t \<in> set (sent_token tagged_two). LookupIndex tags_two (tok_tag t) (-1) \<noteq> -1" by code_simp
    have "\<forall>t \<in> set (sent_token tagged_two). GetCategory categories_two (tok_tag t) = Some (tok_category t)" by code_simp
    then show "\<forall>m. Some categories_two = Some m \<longrightarrow>
        (\<forall>t \<in> set (sent_token tagged_two). GetCategory m (tok_tag t) = Some (tok_category t))" by simp
  qed
qed

end
