(* ===== verification/Morphology_Label_Set.thy ===== *)
theory Morphology_Label_Set
  imports Term_Frequency_Map Sentence_Model
begin

text \<open>
  \<^verbatim>\<open>syntaxnet/morphology_label_set.{h,cc}\<close>: the list of distinct morphological analyses, with a
  string-keyed index. Two analyses are the same when \<open>StringForMatch\<close> maps them to the same
  string. A record file is the list of the messages in it.

  Lemmas: the string is the same exactly for analyses with the same multiset of attributes, as
  long as names and values contain no separator; the label set is a \<open>dictionary\<close> up to that
  equivalence; adding and looking up agree; a written set is read back.
\<close>

definition kSeparator :: string where
  "kSeparator = [CHR 0x09]"

definition StringForMatch :: "token_morphology \<Rightarrow> string" where
  "StringForMatch morph = Join (sort (map (\<lambda>a. fst a @ kSeparator @ snd a) morph)) kSeparator"

record morphology_label_set =
  ml_label_set :: "token_morphology list"
  ml_fast_lookup :: "(string \<times> int) list"

definition empty_label_set :: morphology_label_set where
  "empty_label_set = \<lparr>ml_label_set = [], ml_fast_lookup = []\<rparr>"

definition ml_Add :: "morphology_label_set \<Rightarrow> token_morphology \<Rightarrow> int \<times> morphology_label_set" where
  "ml_Add m morph =
     (let repr = StringForMatch morph in
      case map_of (ml_fast_lookup m) repr of
        Some i \<Rightarrow> (i, m)
      | None \<Rightarrow>
          let m = m\<lparr>ml_fast_lookup := (repr, int (length (ml_label_set m))) # ml_fast_lookup m\<rparr>;
              m = m\<lparr>ml_label_set := ml_label_set m @ [morph]\<rparr>
          in (int (length (ml_label_set m)) - 1, m))"

definition LookupExisting :: "morphology_label_set \<Rightarrow> token_morphology \<Rightarrow> int" where
  "LookupExisting m morph =
     (case map_of (ml_fast_lookup m) (StringForMatch morph) of Some i \<Rightarrow> i | None \<Rightarrow> -1)"

definition ml_Lookup :: "morphology_label_set \<Rightarrow> int \<Rightarrow> token_morphology option" where
  "ml_Lookup m i = do {
     check (i \<ge> 0);
     check (i < int (length (ml_label_set m)));
     vec_at (ml_label_set m) i }"

definition ml_Size :: "morphology_label_set \<Rightarrow> int" where
  "ml_Size m = int (length (ml_label_set m))"

fun ml_Read :: "token_morphology list \<Rightarrow> morphology_label_set \<Rightarrow> morphology_label_set option" where
  "ml_Read [] m = Some m"
| "ml_Read (morph # records) m = do {
     check (-1 = LookupExisting m morph);
     ml_Read records (snd (ml_Add m morph)) }"

fun write_records :: "token_morphology list \<Rightarrow> token_morphology list \<Rightarrow> token_morphology list" where
  "write_records [] out = out"
| "write_records (morph # rest) out = write_records rest (out @ [morph])"

definition ml_Write :: "morphology_label_set \<Rightarrow> token_morphology list" where
  "ml_Write m = write_records (ml_label_set m) []"

definition GetFeatureValueName :: "morphology_label_set \<Rightarrow> int \<Rightarrow> string option" where
  "GetFeatureValueName m value = do {
     morph \<leftarrow> ml_Lookup m value;
     Some (Join (sort (map (\<lambda>a. fst a @ '':'' @ snd a) morph)) '','') }"

subsection \<open>The matching string\<close>

definition separator_free :: "token_morphology \<Rightarrow> bool" where
  "separator_free morph \<longleftrightarrow> (\<forall>a \<in> set morph. CHR 0x09 \<notin> set (fst a) \<and> CHR 0x09 \<notin> set (snd a))"

fun field_list :: "token_morphology \<Rightarrow> string list" where
  "field_list [] = []"
| "field_list (a # as) = fst a # snd a # field_list as"

lemma field_list_inj: "field_list xs = field_list ys \<Longrightarrow> xs = ys"
proof (induction xs arbitrary: ys)
  case Nil
  then show ?case by (cases ys) auto
next
  case (Cons x xs)
  then show ?case by (cases ys) (auto simp: prod_eq_iff)
qed

lemma Join_attributes: "Join (map (\<lambda>a. fst a @ d @ snd a) xs) d = Join (field_list xs) d"
proof (induction xs)
  case (Cons x xs)
  then show ?case by (cases xs) auto
qed simp

lemma field_list_free: "separator_free xs \<Longrightarrow> x \<in> set (field_list xs) \<Longrightarrow> CHR 0x09 \<notin> set x"
  by (induction xs) (auto simp: separator_free_def)

lemma field_list_not_single: "field_list xs \<noteq> [y]"
  by (cases xs) auto

abbreviation attribute_string :: "string \<times> string \<Rightarrow> string" where
  "attribute_string a \<equiv> fst a @ kSeparator @ snd a"

lemma sort_map_key: "sort (map f xs) = map f (sort_key f xs)"
  by (rule properties_for_sort) simp_all

lemma StringForMatch_fields: "StringForMatch xs = Join (field_list (sort_key attribute_string xs)) kSeparator"
  by (simp add: StringForMatch_def sort_map_key Join_attributes)

lemma StringForMatch_mset_eq:
  assumes "separator_free xs" and "separator_free ys"
  shows "StringForMatch xs = StringForMatch ys \<longleftrightarrow> mset xs = mset ys"
proof
  assume eq: "StringForMatch xs = StringForMatch ys"
  have split: "Split (StringForMatch zs) (CHR 0x09) = field_list (sort_key attribute_string zs)" if "separator_free zs" for zs
  proof -
    have "separator_free (sort_key attribute_string zs)" using that by (simp add: separator_free_def)
    then have "\<forall>x \<in> set (field_list (sort_key attribute_string zs)). CHR 0x09 \<notin> set x" using field_list_free by blast
    from Split_Join [OF field_list_not_single this] show ?thesis by (simp add: StringForMatch_fields kSeparator_def field_list_not_single)
  qed
  have "field_list (sort_key attribute_string xs) = field_list (sort_key attribute_string ys)"
    using split [OF assms(1)] split [OF assms(2)] eq by simp
  then have "sort_key attribute_string xs = sort_key attribute_string ys" by (rule field_list_inj)
  then have "mset (sort_key attribute_string xs) = mset (sort_key attribute_string ys)" by simp
  then show "mset xs = mset ys" by simp
next
  assume "mset xs = mset ys"
  then have "mset (map attribute_string xs) = mset (map attribute_string ys)" by simp
  then have "sort (map attribute_string xs) = sort (map attribute_string ys)"
    by (intro properties_for_sort) simp_all
  then show "StringForMatch xs = StringForMatch ys" by (simp add: StringForMatch_def)
qed

subsection \<open>The label set as a dictionary\<close>

definition as_tfm :: "morphology_label_set \<Rightarrow> term_frequency_map" where
  "as_tfm m = \<lparr>term_index = ml_fast_lookup m, term_data = map (\<lambda>x. (StringForMatch x, 0)) (ml_label_set m)\<rparr>"

definition ml_inv :: "morphology_label_set \<Rightarrow> bool" where
  "ml_inv m \<longleftrightarrow> tfm_inv (as_tfm m)"

lemma LookupExisting_tfm: "LookupExisting m k = LookupIndex (as_tfm m) (StringForMatch k) (-1)"
  by (simp add: LookupExisting_def LookupIndex_def as_tfm_def)

lemma ml_Size_tfm: "ml_inv m \<Longrightarrow> ml_Size m = Size (as_tfm m)"
  using tfm_Size [of "as_tfm m"] by (simp add: ml_inv_def ml_Size_def as_tfm_def)

lemma ml_Lookup_in: "0 \<le> i \<Longrightarrow> i < ml_Size m \<Longrightarrow> ml_Lookup m i = Some (ml_label_set m ! nat i)"
  by (simp add: ml_Lookup_def ml_Size_def)

lemma LookupExisting_nth:
  assumes "ml_inv m" and "i < length (ml_label_set m)"
  shows "LookupExisting m k = int i \<longleftrightarrow> StringForMatch k = StringForMatch (ml_label_set m ! i)"
proof -
  have d: "term_data (as_tfm m) = map (\<lambda>x. (StringForMatch x, 0)) (ml_label_set m)" by (simp add: as_tfm_def)
  have "LookupIndex (as_tfm m) (StringForMatch (ml_label_set m ! i)) (-1) = int i"
    using tfm_lookup_index [of "as_tfm m" i "-1"] assms by (simp add: ml_inv_def d)
  then show ?thesis
    using tfm.lookup_same_iff [of "as_tfm m" "StringForMatch (ml_label_set m ! i)" "-1" "StringForMatch k"] assms(1)
    by (simp add: LookupExisting_tfm ml_inv_def)
qed

lemma LookupExisting_known:
  assumes "ml_inv m" and "LookupExisting m k \<noteq> -1"
  shows "\<exists>i < length (ml_label_set m). LookupExisting m k = int i \<and> StringForMatch k = StringForMatch (ml_label_set m ! i)"
proof -
  have "0 \<le> LookupExisting m k" "LookupExisting m k < ml_Size m"
    using tfm.lookup_known [of "as_tfm m" "StringForMatch k" "-1"] assms ml_Size_tfm [OF assms(1)]
    by (auto simp: LookupExisting_tfm ml_inv_def)
  then show ?thesis using LookupExisting_nth [OF assms(1), of "nat (LookupExisting m k)" k]
    by (intro exI [of _ "nat (LookupExisting m k)"]) (simp add: ml_Size_def nat_less_iff)
qed

interpretation ml: dictionary ml_Size "\<lambda>m k u. if LookupExisting m k = -1 then u else LookupExisting m k"
  ml_Lookup "\<lambda>a b. StringForMatch a = StringForMatch b" ml_inv
proof unfold_locales
  show "equivp (\<lambda>a b. StringForMatch a = StringForMatch b)" by (rule equivpI) (auto intro: reflpI sympI transpI)
  show "\<exists>k. ml_Lookup m i = Some k \<and> (\<forall>k' u. StringForMatch k' = StringForMatch k \<longrightarrow>
      (if LookupExisting m k' = -1 then u else LookupExisting m k') = i)"
    if "ml_inv m" "0 \<le> i" "i < ml_Size m" for m i
  proof (intro exI conjI allI impI)
    show "ml_Lookup m i = Some (ml_label_set m ! nat i)" by (rule ml_Lookup_in [OF that(2,3)])
    fix k' u
    assume "StringForMatch k' = StringForMatch (ml_label_set m ! nat i)"
    then have "LookupExisting m k' = i"
      using LookupExisting_nth [OF that(1), of "nat i" k'] that(2,3) by (simp add: ml_Size_def nat_less_iff)
    then show "(if LookupExisting m k' = -1 then u else LookupExisting m k') = i" using that(2) by simp
  qed
  show "0 \<le> (if LookupExisting m k = -1 then u else LookupExisting m k) \<and>
      (if LookupExisting m k = -1 then u else LookupExisting m k) < ml_Size m \<and>
      (\<exists>k'. ml_Lookup m (if LookupExisting m k = -1 then u else LookupExisting m k) = Some k' \<and>
        StringForMatch k = StringForMatch k')"
    if "ml_inv m" "(if LookupExisting m k = -1 then u else LookupExisting m k) \<noteq> u" for m k u
  proof -
    have "LookupExisting m k \<noteq> -1" using that(2) by (auto split: if_splits)
    with LookupExisting_known [OF that(1) this] show ?thesis by (auto simp: ml_Lookup_def ml_Size_def)
  qed
qed

subsection \<open>Adding, writing and reading\<close>

lemma ml_inv_empty: "ml_inv empty_label_set"
  by (simp add: ml_inv_def as_tfm_def empty_label_set_def tfm_inv_def)

lemma ml_Add_new:
  assumes inv: "ml_inv m" and new: "LookupExisting m k = -1"
  shows "\<exists>m'. ml_Add m k = (ml_Size m, m') \<and> ml_inv m' \<and> ml_label_set m' = ml_label_set m @ [k]"
proof -
  have none: "map_of (ml_fast_lookup m) (StringForMatch k) = None"
  proof (rule ccontr)
    assume "map_of (ml_fast_lookup m) (StringForMatch k) \<noteq> None"
    then obtain j where j: "map_of (ml_fast_lookup m) (StringForMatch k) = Some j" by auto
    then have "0 \<le> j" using tfm_index_iff [of "as_tfm m" "StringForMatch k" j] inv by (auto simp: ml_inv_def as_tfm_def)
    with j new show False by (simp add: LookupExisting_def)
  qed
  let ?m = "m\<lparr>ml_fast_lookup := (StringForMatch k, int (length (ml_label_set m))) # ml_fast_lookup m,
              ml_label_set := ml_label_set m @ [k]\<rparr>"
  have len: "length (ml_fast_lookup m) = length (ml_label_set m)"
    using tfm_inv_length [of "as_tfm m"] inv by (simp add: ml_inv_def as_tfm_def)
  have "tfm_inv (as_tfm ?m)"
    using tfm_inv_insert [of "as_tfm m" "StringForMatch k" 0] inv none len by (simp add: ml_inv_def as_tfm_def)
  then show ?thesis using none by (auto simp: ml_Add_def ml_inv_def ml_Size_def Let_def)
qed

lemma ml_Read_append:
  assumes "ml_inv m" and "distinct (map StringForMatch (ml_label_set m @ records))"
  shows "\<exists>m'. ml_Read records m = Some m' \<and> ml_inv m' \<and> ml_label_set m' = ml_label_set m @ records"
  using assms
proof (induction records arbitrary: m)
  case (Cons r records)
  have new: "LookupExisting m r = -1"
    using LookupExisting_known [OF Cons.prems(1), of r] Cons.prems(2) by (force simp: in_set_conv_nth)
  from ml_Add_new [OF Cons.prems(1) new] obtain m1 where
    m1: "ml_Add m r = (ml_Size m, m1)" "ml_inv m1" "ml_label_set m1 = ml_label_set m @ [r]" by blast
  from Cons.IH [OF m1(2)] m1(3) Cons.prems(2) obtain m' where
    "ml_Read records m1 = Some m'" "ml_inv m'" "ml_label_set m' = ml_label_set m @ r # records" by auto
  with new m1(1) show ?case by simp
qed simp

lemma write_records_eq: "write_records xs out = out @ xs"
  by (induction xs arbitrary: out) auto

text \<open>
  C30: A label set that is written to a record file and read back into an empty set gives the
  same analyses at the same indices, and no duplicate check fails.
\<close>

theorem label_set_roundtrip:
  assumes "ml_inv m"
  shows "\<exists>m'. ml_Read (ml_Write m) empty_label_set = Some m' \<and> ml_inv m' \<and>
    ml_label_set m' = ml_label_set m \<and> (\<forall>k. LookupExisting m' k = LookupExisting m k)"
proof -
  have "distinct (map StringForMatch (ml_label_set m))"
    using assms by (simp add: ml_inv_def tfm_inv_def as_tfm_def comp_def)
  from ml_Read_append [OF ml_inv_empty, of "ml_label_set m"] this obtain m' where
    m': "ml_Read (ml_Write m) empty_label_set = Some m'" "ml_inv m'" "ml_label_set m' = ml_label_set m"
    by (auto simp: ml_Write_def write_records_eq empty_label_set_def)
  have "LookupExisting m' k = LookupExisting m k" for k
  proof (cases "LookupExisting m k = -1")
    case False
    with LookupExisting_known [OF assms False] LookupExisting_nth [OF m'(2)] m'(3) show ?thesis by auto
  next
    case True
    show ?thesis
    proof (rule ccontr)
      assume "LookupExisting m' k \<noteq> LookupExisting m k"
      then have "LookupExisting m' k \<noteq> -1" using True by simp
      then obtain i where "i < length (ml_label_set m)" "StringForMatch k = StringForMatch (ml_label_set m ! i)"
        using LookupExisting_known [OF m'(2)] m'(3) by metis
      then show False using LookupExisting_nth [OF assms, of i k] True by simp
    qed
  qed
  with m' show ?thesis by blast
qed

text \<open>
  \<open>Add\<close> returns an index at which \<open>Lookup\<close> and \<open>LookupExisting\<close> find the analysis, up to the order
  of its attributes; it adds an entry exactly when no analysis with the same attributes is
  there, and never moves another entry. Names and values must not contain the separator.
\<close>

theorem label_set_add:
  assumes "ml_inv m" and "separator_free k" and "\<forall>x \<in> set (ml_label_set m). separator_free x"
    and "ml_Add m k = (i, m')"
  shows "ml_inv m' \<and> LookupExisting m' k = i \<and> (\<exists>x. ml_Lookup m' i = Some x \<and> mset x = mset k) \<and>
    ml_label_set m' = (if \<exists>x \<in> set (ml_label_set m). mset x = mset k then ml_label_set m else ml_label_set m @ [k])"
proof (cases "LookupExisting m k = -1")
  case True
  from ml_Add_new [OF assms(1) True] assms(4) have
    m': "i = ml_Size m" "ml_inv m'" "ml_label_set m' = ml_label_set m @ [k]" by auto
  have "\<not> (\<exists>x \<in> set (ml_label_set m). mset x = mset k)"
  proof
    assume "\<exists>x \<in> set (ml_label_set m). mset x = mset k"
    then obtain j where j: "j < length (ml_label_set m)" "mset (ml_label_set m ! j) = mset k" by (auto simp: in_set_conv_nth)
    then have "StringForMatch k = StringForMatch (ml_label_set m ! j)"
      using StringForMatch_mset_eq [OF assms(2)] assms(3) by auto
    then show False using LookupExisting_nth [OF assms(1) j(1), of k] True by simp
  qed
  moreover have "LookupExisting m' k = i"
    using LookupExisting_nth [OF m'(2), of "length (ml_label_set m)" k] m'(1,3) by (simp add: ml_Size_def)
  ultimately show ?thesis using m' by (auto simp: ml_Lookup_def ml_Size_def)
next
  case False
  then have "m' = m" "i = LookupExisting m k"
    using assms(4) by (auto simp: ml_Add_def LookupExisting_def Let_def split: option.splits)
  moreover obtain j where j: "j < length (ml_label_set m)" "LookupExisting m k = int j"
      "StringForMatch k = StringForMatch (ml_label_set m ! j)"
    using LookupExisting_known [OF assms(1) False] by blast
  moreover have "mset (ml_label_set m ! j) = mset k"
    using StringForMatch_mset_eq [OF assms(2)] assms(3) j(1,3) by (metis nth_mem)
  ultimately show ?thesis using assms(1) by (auto simp: ml_Lookup_def intro!: bexI [of _ "ml_label_set m ! j"])
qed

definition two_labels :: morphology_label_set where
  "two_labels = snd (ml_Add (snd (ml_Add empty_label_set [(''Case'', ''Nom''), (''Number'', ''Sing'')])) [(''Case'', ''Acc'')])"

lemma two_labels_inv: "ml_inv two_labels"
proof -
  have "LookupExisting empty_label_set [(''Case'', ''Nom''), (''Number'', ''Sing'')] = -1" by code_simp
  from ml_Add_new [OF ml_inv_empty this] obtain m1 where
    m1: "ml_Add empty_label_set [(''Case'', ''Nom''), (''Number'', ''Sing'')] = (ml_Size empty_label_set, m1)" "ml_inv m1" by blast
  have "LookupExisting (snd (ml_Add empty_label_set [(''Case'', ''Nom''), (''Number'', ''Sing'')])) [(''Case'', ''Acc'')] = -1"
    by code_simp
  then have "LookupExisting m1 [(''Case'', ''Acc'')] = -1" using m1(1) by simp
  from ml_Add_new [OF m1(2) this] show ?thesis using m1(1) by (auto simp: two_labels_def)
qed

theorem label_set_roundtrip_witness:
  "\<exists>m'. ml_Read (ml_Write two_labels) empty_label_set = Some m' \<and> ml_label_set m' = ml_label_set two_labels \<and>
     length (ml_label_set two_labels) = 2"
proof -
  have "length (ml_label_set two_labels) = 2" by code_simp
  then show ?thesis using label_set_roundtrip [OF two_labels_inv] by blast
qed

theorem label_set_add_witness:
  "\<exists>i m'. ml_Add two_labels [(''Number'', ''Sing''), (''Case'', ''Nom'')] = (i, m') \<and> ml_inv m' \<and>
     ml_label_set m' = ml_label_set two_labels"
proof -
  let ?k = "[(''Number'', ''Sing''), (''Case'', ''Nom'')]"
  have h: "separator_free ?k" "\<forall>x \<in> set (ml_label_set two_labels). separator_free x"
    "\<exists>x \<in> set (ml_label_set two_labels). mset x = mset ?k" by code_simp+
  obtain i m' where "ml_Add two_labels ?k = (i, m')" by fastforce
  with label_set_add [OF two_labels_inv h(1,2) this] h(3) show ?thesis by auto
qed

end
