(* ===== verification/Morpher_Transitions.thy ===== *)
theory Morpher_Transitions
  imports Sequence_Labellers Task_Context Morphology_Label_Set
begin

text \<open>
  \<^verbatim>\<open>syntaxnet/morpher_transitions.cc\<close>: the morphological analyser. The transition state holds the
  assigned and the gold analyses, as indices of the label set, and points to the label set. The
  action that assigns analysis \<open>t\<close> is the number \<open>t\<close>. The generated method
  \<^verbatim>\<open>TokenMorphology::ShortDebugString\<close> is the parameter \<open>debug_string\<close>.

  Lemmas: the analyser is a \<open>sequence_labeller\<close>; the annotation of a document after an oracle run
  restores the morphology of the sentence up to the order of the attributes of a token.
\<close>

record morpher_ts =
  mo_tag :: "int list"
  mo_gold_tag :: "int list"
  mo_label_set :: morphology_label_set

type_synonym morpher_state = "morpher_ts parser_state"

definition MorphologyTransitionState :: "morphology_label_set \<Rightarrow> morpher_ts" where
  "MorphologyTransitionState label_set = \<lparr>mo_tag = [], mo_gold_tag = [], mo_label_set = label_set\<rparr>"

definition morpher_Clone :: "morpher_ts \<Rightarrow> morpher_ts" where
  "morpher_Clone ts =
     (MorphologyTransitionState (mo_label_set ts))\<lparr>mo_tag := mo_tag ts, mo_gold_tag := mo_gold_tag ts\<rparr>"

definition morpher_Init :: "morpher_state \<Rightarrow> morpher_state option" where
  "morpher_Init s = do {
     ts \<leftarrow> ps_transition_state s;
     let n = token_size (ps_sentence s);
     let ts = ts\<lparr>mo_tag := vec_resize (mo_tag ts) n (-1), mo_gold_tag := vec_resize (mo_gold_tag ts) n (-1)\<rparr>;
     ts \<leftarrow> foreach (\<lambda>pos ts. do {
         token \<leftarrow> GetToken s pos;
         gold \<leftarrow> vec_set (mo_gold_tag ts) pos (LookupExisting (mo_label_set ts) (tok_morphology token));
         Some (ts\<lparr>mo_gold_tag := gold\<rparr>) }) [0..n - 1] ts;
     Some (s\<lparr>ps_transition_state := Some ts\<rparr>) }"

definition morpher_Tag :: "morpher_ts \<Rightarrow> int \<Rightarrow> int option" where
  "morpher_Tag ts index = (if index = -1 then Some (-1) else vec_at (mo_tag ts) index)"

definition morpher_SetTag :: "int \<Rightarrow> int \<Rightarrow> morpher_ts \<Rightarrow> morpher_ts option" where
  "morpher_SetTag index tag ts = do { t \<leftarrow> vec_set (mo_tag ts) index tag; Some (ts\<lparr>mo_tag := t\<rparr>) }"

definition morpher_GoldTag :: "morpher_ts \<Rightarrow> int \<Rightarrow> int option" where
  "morpher_GoldTag ts index = (if index = -1 then Some (-1) else vec_at (mo_gold_tag ts) index)"

definition TagAsProto :: "morpher_ts \<Rightarrow> int \<Rightarrow> token_morphology option" where
  "TagAsProto ts tag =
     (if tag \<ge> 0 \<and> tag < ml_Size (mo_label_set ts) then ml_Lookup (mo_label_set ts) tag else Some [])"

definition morpher_annotate :: "morpher_ts \<Rightarrow> int \<Rightarrow> sentence \<Rightarrow> sentence option" where
  "morpher_annotate ts i sentence = do {
     token \<leftarrow> sent_token_at sentence i;
     tag \<leftarrow> morpher_Tag ts i;
     proto \<leftarrow> TagAsProto ts tag;
     set_token sentence i (token\<lparr>tok_morphology := proto\<rparr>) }"

definition morpher_AddParseToDocument :: "morpher_ts \<Rightarrow> morpher_state \<Rightarrow> bool \<Rightarrow> sentence \<Rightarrow> sentence option" where
  "morpher_AddParseToDocument ts s rewrite_root_labels sentence =
     foreach (morpher_annotate ts) [0..int (length (mo_tag ts)) - 1] sentence"

definition morpher_IsTokenCorrect :: "morpher_ts \<Rightarrow> morpher_state \<Rightarrow> int \<Rightarrow> bool option" where
  "morpher_IsTokenCorrect ts s index = do {
     g \<leftarrow> morpher_GoldTag ts index; t \<leftarrow> morpher_Tag ts index; Some (g = t) }"

definition morpher_ToString :: "(token_morphology \<Rightarrow> string) \<Rightarrow> morpher_ts \<Rightarrow> morpher_state \<Rightarrow> string option" where
  "morpher_ToString debug_string ts s = do {
     str \<leftarrow> foreach (\<lambda>i str. do {
         token \<leftarrow> GetToken s (Stack s (i - 1));
         let str = (if i \<noteq> StackSize s - 1 then str @ '' '' else str);
         tag \<leftarrow> morpher_Tag ts (StackSize s - i);
         proto \<leftarrow> TagAsProto ts tag;
         Some (str @ tok_word token @ ''['' @ debug_string proto @ '']'') })
       (rev [1..StackSize s]) [];
     next \<leftarrow> Next s;
     foreach (\<lambda>i str. do { token \<leftarrow> GetToken s i; Some (str @ '' '' @ tok_word token) })
       [next..NumTokens s - 1] str }"

definition morpher_Setup :: "task_context \<Rightarrow> nat \<times> task_context" where
  "morpher_Setup c = GetInput c ''morph-label-set''"

definition morpher_ShiftAction :: "int \<Rightarrow> parser_action" where
  "morpher_ShiftAction tag = tag"

definition morpher_NumActions :: "morphology_label_set \<Rightarrow> int \<Rightarrow> int" where
  "morpher_NumActions label_set num_labels = ml_Size label_set"

definition morpher_GetDefaultAction :: "morpher_state \<Rightarrow> parser_action option" where
  "morpher_GetDefaultAction s = Some (morpher_ShiftAction 0)"

definition morpher_GetNextGoldAction :: "morpher_state \<Rightarrow> parser_action option" where
  "morpher_GetNextGoldAction s =
     (if \<not> EndOfInput s then do {
        ts \<leftarrow> ps_transition_state s;
        next \<leftarrow> Next s;
        tag \<leftarrow> morpher_GoldTag ts next;
        Some (morpher_ShiftAction tag) }
      else Some (morpher_ShiftAction 0))"

definition morpher_IsAllowedAction :: "parser_action \<Rightarrow> morpher_state \<Rightarrow> bool option" where
  "morpher_IsAllowedAction action s = Some (\<not> EndOfInput s)"

definition morpher_PerformActionWithoutHistory :: "parser_action \<Rightarrow> morpher_state \<Rightarrow> morpher_state option" where
  "morpher_PerformActionWithoutHistory action s =
     (if \<not> EndOfInput s then do {
        ts \<leftarrow> ps_transition_state s;
        next \<leftarrow> Next s;
        ts \<leftarrow> morpher_SetTag next action ts;
        let s = s\<lparr>ps_transition_state := Some ts\<rparr>;
        s \<leftarrow> Push next s;
        Advance s }
      else Some s)"

definition morpher_IsFinalState :: "morpher_state \<Rightarrow> bool option" where
  "morpher_IsFinalState s = Some (EndOfInput s)"

definition morpher_ActionAsString ::
  "(token_morphology \<Rightarrow> string) \<Rightarrow> morphology_label_set \<Rightarrow> parser_action \<Rightarrow> morpher_state \<Rightarrow> string option" where
  "morpher_ActionAsString debug_string label_set action s = do {
     proto \<leftarrow> ml_Lookup label_set action; Some (''SHIFT('' @ debug_string proto @ '')'') }"

definition morpher_IsDeterministicState :: "morpher_state \<Rightarrow> bool" where
  "morpher_IsDeterministicState s \<longleftrightarrow> False"

definition new_morpher_state ::
  "morphology_label_set \<Rightarrow> sentence \<Rightarrow> term_frequency_map \<Rightarrow> morpher_state option" where
  "new_morpher_state label_set sentence label_map =
     ParserState morpher_Init sentence (Some (MorphologyTransitionState label_set)) label_map"

definition PredictedMorphTag_Setup :: "task_context \<Rightarrow> nat \<times> task_context" where
  "PredictedMorphTag_Setup c = GetInput_formats c ''morph-label-set'' ''recordio'' ''token-morphology''"

definition PredictedMorphTag_Compute :: "morpher_state \<Rightarrow> int \<Rightarrow> int option" where
  "PredictedMorphTag_Compute s focus =
     (if focus < 0 \<or> focus \<ge> token_size (ps_sentence s) then Some (-1)
      else do { ts \<leftarrow> ps_transition_state s; morpher_Tag ts focus })"

subsection \<open>The analyser as a sequence labeller\<close>

interpretation morpher: sequence_labeller
  morpher_IsAllowedAction morpher_IsFinalState morpher_PerformActionWithoutHistory morpher_GetNextGoldAction
  mo_tag mo_gold_tag "\<lambda>tags ts. ts\<lparr>mo_tag := tags\<rparr>"
  by unfold_locales
     (auto simp: morpher_IsAllowedAction_def morpher_IsFinalState_def EndOfInput_def morpher_PerformActionWithoutHistory_def
       morpher_SetTag_def Push_def Advance_def morpher_GetNextGoldAction_def morpher_GoldTag_def morpher_ShiftAction_def
       Next_def Let_def ps_wfD(5))

lemma morpher_Init_eq:
  assumes wf: "ps_wf s" and ts: "ps_transition_state s = Some ts" and new: "mo_tag ts = []" "mo_gold_tag ts = []"
  shows "morpher_Init s = Some (s\<lparr>ps_transition_state := Some (ts\<lparr>mo_tag := replicate (length (sent_token (ps_sentence s))) (-1),
    mo_gold_tag := map (\<lambda>t. LookupExisting (mo_label_set ts) (tok_morphology t)) (sent_token (ps_sentence s))\<rparr>)\<rparr>)"
proof -
  let ?toks = "sent_token (ps_sentence s)" let ?n = "length ?toks"
  let ?f = "\<lambda>t. LookupExisting (mo_label_set ts) (tok_morphology t)"
  let ?ts0 = "ts\<lparr>mo_tag := replicate ?n (-1), mo_gold_tag := replicate ?n (-1)\<rparr>"
  let ?body = "\<lambda>pos ts. do { token \<leftarrow> GetToken s pos;
         gold \<leftarrow> vec_set (mo_gold_tag ts) pos (LookupExisting (mo_label_set ts) (tok_morphology token));
         Some (ts\<lparr>mo_gold_tag := gold\<rparr>) }"
  have n: "ps_num_tokens s = int ?n" using ps_wfD(1) [OF wf] by (simp add: token_size_def)
  have "foreach ?body (map int [0..<?n]) (?ts0\<lparr>mo_gold_tag := replicate ?n (-1)\<rparr>) =
      Some (?ts0\<lparr>mo_gold_tag := map (\<lambda>i. ?f (?toks ! i)) [0..<?n] @ drop ?n (replicate ?n (-1))\<rparr>)"
    by (rule foreach_fill [where state = "\<lambda>g. ?ts0\<lparr>mo_gold_tag := g\<rparr>" and n = ?n])
       (use GetToken_wf [OF wf] n in auto)
  then show ?thesis using ts new map_nth_upt [of ?f ?toks]
    by (simp add: morpher_Init_def vec_resize_def token_size_def upto_map_int)
qed

lemma new_morpher_state_inv:
  assumes "tfm_inv label_map"
  shows "\<exists>s ts. new_morpher_state label_set sentence label_map = Some s \<and> morpher.label_inv s \<and>
    ps_next s = 0 \<and> ps_num_tokens s = token_size sentence \<and> ps_sentence s = sentence \<and> ps_transition_state s = Some ts \<and>
    mo_label_set ts = label_set \<and>
    mo_gold_tag ts = map (\<lambda>t. LookupExisting label_set (tok_morphology t)) (sent_token sentence)"
proof -
  let ?s = "fresh_state sentence (Some (MorphologyTransitionState label_set)) label_map"
  note wf = ps_wf_fresh [OF assms, of sentence "Some (MorphologyTransitionState label_set)"]
  have f: "ps_num_tokens ?s = token_size sentence" "ps_next ?s = 0" "ps_stack ?s = []" "ps_sentence ?s = sentence"
    "ps_transition_state ?s = Some (MorphologyTransitionState label_set)"
    by (simp_all add: fresh_state_def Let_def)
  from morpher_Init_eq [OF wf f(5)] show ?thesis using f wf
    by (simp add: new_morpher_state_def ParserState_def Let_def MorphologyTransitionState_def morpher.label_inv_def
        ps_wf_cong token_size_def)
qed

lemma morpher_annotate_eq:
  assumes "i < length (mo_tag ts)" "i < length (sent_token d)" and "TagAsProto ts (mo_tag ts ! i) = Some m"
  shows "morpher_annotate ts (int i) d = set_token d (int i) ((sent_token d ! i)\<lparr>tok_morphology := m\<rparr>)"
  using assms by (auto simp: morpher_annotate_def sent_token_at_def morpher_Tag_def)

text \<open>What \<open>TagAsProto\<close> returns for the index that \<open>LookupExisting\<close> found.\<close>

lemma TagAsProto_lookup:
  assumes "ml_inv (mo_label_set ts)" and "separator_free m" and "\<forall>x \<in> set (ml_label_set (mo_label_set ts)). separator_free x"
    and "LookupExisting (mo_label_set ts) m \<noteq> -1"
  shows "\<exists>x. TagAsProto ts (LookupExisting (mo_label_set ts) m) = Some x \<and> mset x = mset m"
proof -
  obtain i where i: "i < length (ml_label_set (mo_label_set ts))" "LookupExisting (mo_label_set ts) m = int i"
      "StringForMatch m = StringForMatch (ml_label_set (mo_label_set ts) ! i)"
    using LookupExisting_known [OF assms(1,4)] by blast
  then have "mset (ml_label_set (mo_label_set ts) ! i) = mset m"
    using StringForMatch_mset_eq [OF assms(2)] assms(3) by (metis nth_mem)
  then show ?thesis using i by (simp add: TagAsProto_def ml_Size_def ml_Lookup_def)
qed

text \<open>
  C33: The oracle round trip of the morphological analyser. For a sentence whose analyses are in the
  label set, following \<open>GetNextGoldAction\<close> takes one action per token, never aborts, and
  writing the result into the sentence with its morphology erased gives back every token with
  the same multiset of attributes and every other field unchanged.
\<close>

theorem morpher_oracle_roundtrip:
  assumes "tfm_inv label_map" and "ml_inv label_set" and "\<forall>x \<in> set (ml_label_set label_set). separator_free x"
    and "\<forall>t \<in> set (sent_token sentence). separator_free (tok_morphology t) \<and> LookupExisting label_set (tok_morphology t) \<noteq> -1"
  shows "\<exists>s0 s d. new_morpher_state label_set sentence label_map = Some s0 \<and>
    drive morpher_IsFinalState (PerformAction morpher_PerformActionWithoutHistory) morpher_GetNextGoldAction
      (length (sent_token sentence)) s0 = Some s \<and>
    AddParseToDocument morpher_AddParseToDocument s
      (sentence\<lparr>sent_token := map (\<lambda>t. t\<lparr>tok_morphology := []\<rparr>) (sent_token sentence)\<rparr>) rewrite = Some d \<and>
    list_all2 (\<lambda>t t'. mset (tok_morphology t') = mset (tok_morphology t) \<and> t' = t\<lparr>tok_morphology := tok_morphology t'\<rparr>)
      (sent_token sentence) (sent_token d) \<and> d = sentence\<lparr>sent_token := sent_token d\<rparr>"
proof -
  obtain s0 ts where s0: "new_morpher_state label_set sentence label_map = Some s0" "morpher.label_inv s0"
    "ps_next s0 = 0" "ps_num_tokens s0 = token_size sentence" "ps_transition_state s0 = Some ts" "mo_label_set ts = label_set"
    "mo_gold_tag ts = map (\<lambda>t. LookupExisting label_set (tok_morphology t)) (sent_token sentence)"
    using new_morpher_state_inv [OF assms(1)] by metis
  from morpher.labels_gold [OF s0(2,3,5)] obtain s where
    s: "drive morpher_IsFinalState (PerformAction morpher_PerformActionWithoutHistory) morpher_GetNextGoldAction
      (nat (ps_num_tokens s0)) s0 = Some s" "ps_transition_state s = Some (ts\<lparr>mo_tag := mo_gold_tag ts\<rparr>)"
    by blast
  let ?toks = "sent_token sentence" and ?ts = "ts\<lparr>mo_tag := mo_gold_tag ts\<rparr>" and ?er = "\<lambda>t. t\<lparr>tok_morphology := []\<rparr>"
  let ?n = "length ?toks" let ?d = "sentence\<lparr>sent_token := map ?er ?toks\<rparr>"
  have "\<forall>i. \<exists>x. i < ?n \<longrightarrow> TagAsProto ?ts (mo_gold_tag ts ! i) = Some x \<and> mset x = mset (tok_morphology (?toks ! i))"
    using TagAsProto_lookup [of ?ts] assms(2-4) s0(6,7) by simp
  then obtain m where m: "i < ?n \<Longrightarrow> TagAsProto ?ts (mo_gold_tag ts ! i) = Some (m i) \<and> mset (m i) = mset (tok_morphology (?toks ! i))" for i
    by metis
  let ?f = "\<lambda>i t. t\<lparr>tok_morphology := m i\<rparr>"
  have "foreach (morpher_annotate ?ts) (map int [0..<?n]) ?d =
      Some (?d\<lparr>sent_token := map (\<lambda>i. ?f i (sent_token ?d ! i)) [0..<?n] @ drop ?n (sent_token ?d)\<rparr>)"
    by (rule foreach_token_update [of ?n]) (use s0 m in \<open>auto intro!: morpher_annotate_eq\<close>)
  then have "AddParseToDocument morpher_AddParseToDocument s ?d rewrite =
      Some (sentence\<lparr>sent_token := map (\<lambda>i. ?f i (?er (?toks ! i))) [0..<?n]\<rparr>)"
    using s(2) s0(7) by (simp add: AddParseToDocument_def morpher_AddParseToDocument_def upto_map_int cong: map_cong)
  moreover have "list_all2 (\<lambda>t t'. mset (tok_morphology t') = mset (tok_morphology t) \<and> t' = t\<lparr>tok_morphology := tok_morphology t'\<rparr>)
      ?toks (map (\<lambda>i. ?f i (?er (?toks ! i))) [0..<?n])"
    by (simp add: list_all2_conv_all_nth m)
  ultimately show ?thesis using s0(1,4) s(1) by (simp add: token_size_def)
qed

definition analysed_two :: sentence where
  "analysed_two = \<lparr>sent_docid = [], sent_text = [], sent_token =
     [default_token\<lparr>tok_word := ''er'', tok_morphology := [(''Number'', ''Sing''), (''Case'', ''Nom'')]\<rparr>,
      default_token\<lparr>tok_word := ''ihn'', tok_morphology := [(''Case'', ''Acc'')]\<rparr>]\<rparr>"

theorem morpher_oracle_roundtrip_witness:
  "\<exists>s0 s d. new_morpher_state two_labels analysed_two empty_tfm = Some s0 \<and>
    drive morpher_IsFinalState (PerformAction morpher_PerformActionWithoutHistory) morpher_GetNextGoldAction
      (length (sent_token analysed_two)) s0 = Some s \<and>
    AddParseToDocument morpher_AddParseToDocument s
      (analysed_two\<lparr>sent_token := map (\<lambda>t. t\<lparr>tok_morphology := []\<rparr>) (sent_token analysed_two)\<rparr>) False = Some d \<and>
    list_all2 (\<lambda>t t'. mset (tok_morphology t') = mset (tok_morphology t) \<and> t' = t\<lparr>tok_morphology := tok_morphology t'\<rparr>)
      (sent_token analysed_two) (sent_token d) \<and> d = analysed_two\<lparr>sent_token := sent_token d\<rparr>"
proof (rule morpher_oracle_roundtrip [OF tfm_inv_empty two_labels_inv])
  show "\<forall>x \<in> set (ml_label_set two_labels). separator_free x" by code_simp
  show "\<forall>t \<in> set (sent_token analysed_two). separator_free (tok_morphology t) \<and>
      LookupExisting two_labels (tok_morphology t) \<noteq> -1" by code_simp
qed

end
