(* ===== verification/Attachment_Systems.thy ===== *)
theory Attachment_Systems
  imports Transition_Systems Dependency_Trees
begin

text \<open>
  The contract that the \<^verbatim>\<open>heads\<close>, \<^verbatim>\<open>labels\<close> and \<^verbatim>\<open>heads_labels\<close> systems share: each action
  gives the next token a head and a label and advances. The locale states what such a system
  promises: which actions are permitted, the arc an action adds, and that on an annotated
  sentence the oracle names a permitted action with the arc of the annotation. The sublocale
  relation says that it is an oracle system; \<open>attaches_gold\<close> says what the oracle run computes,
  and \<open>run_arcs\<close> that whatever permitted actions are taken, each token has an arc that one of
  them adds.
\<close>

definition attach :: "int \<times> int \<Rightarrow> 'ts parser_state \<Rightarrow> 'ts parser_state" where
  "attach arc s = s\<lparr>ps_head := (ps_head s)[nat (ps_next s) := fst arc],
     ps_label := (ps_label s)[nat (ps_next s) := snd arc], ps_next := ps_next s + 1\<rparr>"

definition attach_inv :: "'ts parser_state \<Rightarrow> bool" where
  "attach_inv s \<longleftrightarrow> ps_wf s \<and> 0 \<le> ps_next s"

definition attach_steps :: "'ts parser_state \<Rightarrow> nat" where
  "attach_steps s = nat (ps_num_tokens s - ps_next s)"

lemma attach_arc:
  assumes "attach_inv s" and "ps_next s < ps_num_tokens s"
  shows "(do { s \<leftarrow> AddArc (ps_next s) h l s; Advance s }) = Some (attach (h, l) s)"
  using assms AddArc_wf [of s "ps_next s" h l] by (simp add: attach_inv_def attach_def Advance_def)

lemma attach_attach_inv:
  assumes "attach_inv s" and "ps_next s < ps_num_tokens s"
  shows "attach_inv (attach arc s)" and "Suc (attach_steps (attach arc s)) = attach_steps s"
  using assms by (auto simp: attach_inv_def attach_def ps_wf_def attach_steps_def)

locale attachment_system =
  fixes is_allowed :: "parser_action \<Rightarrow> 'ts parser_state \<Rightarrow> bool option"
    and is_final :: "'ts parser_state \<Rightarrow> bool option"
    and perform :: "parser_action \<Rightarrow> 'ts parser_state \<Rightarrow> 'ts parser_state option"
    and gold :: "'ts parser_state \<Rightarrow> parser_action option"
    and permitted :: "parser_action \<Rightarrow> 'ts parser_state \<Rightarrow> bool"
    and arc :: "parser_action \<Rightarrow> 'ts parser_state \<Rightarrow> int \<times> int"
    and gold_arc :: "sentence \<Rightarrow> term_frequency_map \<Rightarrow> nat \<Rightarrow> int \<times> int"
    and annotated :: "sentence \<Rightarrow> term_frequency_map \<Rightarrow> bool"
  assumes t_final: "is_final s = Some (EndOfInput s)"
    and t_allowed: "attach_inv s \<Longrightarrow> is_allowed a s = Some (permitted a s)"
    and t_permitted: "attach_inv s \<Longrightarrow> permitted a s \<Longrightarrow> ps_next s < ps_num_tokens s"
    and t_perform: "attach_inv s \<Longrightarrow> permitted a s \<Longrightarrow> perform a s = Some (attach (arc a s) s)"
    and t_gold: "attach_inv s \<Longrightarrow> ps_next s < ps_num_tokens s \<Longrightarrow> annotated (ps_sentence s) (ps_label_map s) \<Longrightarrow>
      \<exists>a. gold s = Some a \<and> permitted a s \<and> arc a s = gold_arc (ps_sentence s) (ps_label_map s) (nat (ps_next s))"
    and t_allowed_history: "is_allowed a (s\<lparr>ps_history := h\<rparr>) = is_allowed a s"
    and t_gold_history: "gold (s\<lparr>ps_history := h\<rparr>) = gold s"
begin

definition attach_gold :: "'ts parser_state \<Rightarrow> bool" where
  "attach_gold s \<longleftrightarrow> annotated (ps_sentence s) (ps_label_map s) \<and>
     (\<forall>i. int i < ps_next s \<longrightarrow> (ps_head s ! i, ps_label s ! i) = gold_arc (ps_sentence s) (ps_label_map s) i)"

end

sublocale attachment_system \<subseteq>
  orc: oracle_system is_allowed is_final perform attach_inv attach_steps gold attach_gold
proof unfold_locales
  fix s :: "'ts parser_state" and a h
  show "attach_steps (s\<lparr>ps_history := h\<rparr>) = attach_steps s" by (simp add: attach_steps_def)
  show "is_allowed a (s\<lparr>ps_history := h\<rparr>) = is_allowed a s" by (rule t_allowed_history)
  show "gold (s\<lparr>ps_history := h\<rparr>) = gold s" by (rule t_gold_history)
  show "attach_gold (s\<lparr>ps_history := h\<rparr>)" if "attach_gold s" using that by (simp add: attach_gold_def)
  assume inv: "attach_inv s"
  show "attach_inv (s\<lparr>ps_history := h\<rparr>)" using inv by (simp add: attach_inv_def ps_wf_cong)
  show "\<exists>b. is_allowed a s = Some b" using t_allowed [OF inv] by simp
  have le: "ps_next s \<le> ps_num_tokens s" using inv ps_wfD(5) by (auto simp: attach_inv_def)
  then show "is_final s = Some (attach_steps s = 0)" by (auto simp: t_final attach_steps_def EndOfInput_def)
  show "0 < attach_steps s" if "is_allowed a s = Some True"
    using that t_permitted [OF inv, of a] t_allowed [OF inv, of a] by (simp add: attach_steps_def)
  show "\<exists>s'. perform a s = Some s' \<and> attach_inv s' \<and> Suc (attach_steps s') = attach_steps s \<and>
      ps_history s' = ps_history s \<and> ps_keep_history s' = ps_keep_history s \<and>
      ps_sentence s' = ps_sentence s \<and> ps_label_map s' = ps_label_map s" if "is_allowed a s = Some True"
  proof -
    have p: "permitted a s" using that t_allowed [OF inv, of a] by simp
    note lt = t_permitted [OF inv p]
    show ?thesis using t_perform [OF inv p] attach_attach_inv [OF inv lt] by (auto simp: attach_def)
  qed
  assume g: "attach_gold s" and more: "0 < attach_steps s"
  have lt: "ps_next s < ps_num_tokens s" using more by (simp add: attach_steps_def)
  obtain a where a: "gold s = Some a" "permitted a s"
      "arc a s = gold_arc (ps_sentence s) (ps_label_map s) (nat (ps_next s))"
    using t_gold [OF inv lt] g by (auto simp: attach_gold_def)
  have len: "length (ps_head s) = nat (ps_num_tokens s)" "length (ps_label s) = nat (ps_num_tokens s)" "0 \<le> ps_next s"
    using inv ps_wfD(2,3) [of s] by (auto simp: attach_inv_def)
  have "attach_gold (attach (arc a s) s)"
    unfolding attach_gold_def
  proof (intro conjI allI impI)
    show "annotated (ps_sentence (attach (arc a s) s)) (ps_label_map (attach (arc a s) s))"
      using g by (simp add: attach_gold_def attach_def)
    fix i assume "int i < ps_next (attach (arc a s) s)"
    then have i: "int i < ps_next s \<or> i = nat (ps_next s)" using len(3) by (auto simp: attach_def)
    then show "(ps_head (attach (arc a s) s) ! i, ps_label (attach (arc a s) s) ! i) =
        gold_arc (ps_sentence (attach (arc a s) s)) (ps_label_map (attach (arc a s) s)) i"
      using g a(3) len lt by (auto simp: attach_gold_def attach_def nth_list_update)
  qed
  then show "\<exists>a. gold s = Some a \<and> is_allowed a s = Some True \<and> (\<forall>s'. perform a s = Some s' \<longrightarrow> attach_gold s')"
    using a t_allowed [OF inv, of a] t_perform [OF inv a(2)] by auto
qed

context attachment_system
begin

lemma perform_attach:
  assumes "attach_inv s" and "is_allowed a s = Some True" and "PerformAction perform a s = Some s1"
  shows "\<exists>h. let t = s\<lparr>ps_history := h\<rparr> in attach_inv t \<and> permitted a t \<and> ps_next s < ps_num_tokens s \<and> s1 = attach (arc a t) t"
proof -
  define h where "h = (if ps_keep_history s then ps_history s else ps_history s @ [a])"
  let ?t = "s\<lparr>ps_history := h\<rparr>"
  have inv: "attach_inv ?t" using orc.p_inv_history [OF assms(1)] .
  have per: "permitted a ?t" using assms(2) t_allowed [OF inv, of a] t_allowed_history by simp
  have "perform a ?t = Some s1" using assms(3) by (auto simp: PerformAction_def Let_def h_def split: if_splits)
  then have "s1 = attach (arc a ?t) ?t" using t_perform [OF inv per] by simp
  then show ?thesis using inv per t_permitted [OF inv per] by (intro exI [of _ h]) simp
qed

lemma run_transition_state:
  "allowed_run is_allowed (PerformAction perform) s acts s' \<Longrightarrow> attach_inv s \<Longrightarrow> ps_transition_state s' = ps_transition_state s"
proof (induction rule: allowed_run.induct)
  case (run_step a s s1 acts s')
  obtain h where h: "s1 = attach (arc a (s\<lparr>ps_history := h\<rparr>)) (s\<lparr>ps_history := h\<rparr>)" "attach_inv (s\<lparr>ps_history := h\<rparr>)"
      "ps_next s < ps_num_tokens s"
    using perform_attach [OF run_step.prems run_step.hyps(1,2)] by (auto simp: Let_def)
  then have "attach_inv s1" using attach_attach_inv(1) [OF h(2)] by simp
  with run_step.IH h(1) show ?case by (simp add: attach_def)
qed simp

theorem attaches_gold:
  assumes inv: "attach_inv s" and start: "ps_next s = 0" and ann: "annotated (ps_sentence s) (ps_label_map s)"
  shows "\<exists>s'. drive is_final (PerformAction perform) gold (length (sent_token (ps_sentence s))) s = Some s' \<and> attach_inv s' \<and>
    ps_head s' = map (\<lambda>i. fst (gold_arc (ps_sentence s) (ps_label_map s) i)) [0..<length (sent_token (ps_sentence s))] \<and>
    ps_label s' = map (\<lambda>i. snd (gold_arc (ps_sentence s) (ps_label_map s) i)) [0..<length (sent_token (ps_sentence s))] \<and>
    ps_sentence s' = ps_sentence s \<and> ps_label_map s' = ps_label_map s \<and> ps_transition_state s' = ps_transition_state s"
proof -
  let ?n = "length (sent_token (ps_sentence s))" and ?g = "gold_arc (ps_sentence s) (ps_label_map s)"
  have "attach_gold s" using start ann by (simp add: attach_gold_def)
  from orc.gold_run [OF inv this] obtain acts s' where
    s': "drive is_final (PerformAction perform) gold (attach_steps s) s = Some s'" "attach_inv s'" "attach_gold s'"
      "is_final s' = Some True" "allowed_run is_allowed (PerformAction perform) s acts s'" by blast
  have st: "attach_steps s = ?n"
    using start inv ps_wfD(1) [of s] by (simp add: attach_steps_def attach_inv_def token_size_def)
  have same: "ps_sentence s' = ps_sentence s" "ps_label_map s' = ps_label_map s" using orc.recorded_run [OF s'(5) inv] by auto
  have len: "length (ps_head s') = ?n" "length (ps_label s') = ?n" "ps_next s' = int ?n"
    using s'(2,4) same by (auto simp: attach_inv_def ps_wf_def t_final EndOfInput_def token_size_def)
  have "ps_head s' ! i = fst (?g i) \<and> ps_label s' ! i = snd (?g i)" if "i < ?n" for i
    using s'(3) len(3) that same unfolding attach_gold_def by (metis fst_conv of_nat_less_iff snd_conv)
  then have "ps_head s' = map (\<lambda>i. fst (?g i)) [0..<?n]" "ps_label s' = map (\<lambda>i. snd (?g i)) [0..<?n]"
    using len(1,2) by (auto intro!: nth_equalityI)
  then show ?thesis using s' st same run_transition_state [OF s'(5) inv] by auto
qed

text \<open>A property of every arc that a permitted action adds holds of the arcs of the processed tokens.\<close>

lemma run_arcs:
  assumes "\<And>s a. attach_inv s \<Longrightarrow> permitted a s \<Longrightarrow> P (ps_sentence s) (ps_label_map s) (ps_next s) (arc a s)"
  shows "allowed_run is_allowed (PerformAction perform) s acts s' \<Longrightarrow> attach_inv s \<Longrightarrow>
    (\<forall>i. int i < ps_next s \<longrightarrow> P (ps_sentence s) (ps_label_map s) (int i) (ps_head s ! i, ps_label s ! i)) \<Longrightarrow>
    (\<forall>i. int i < ps_next s' \<longrightarrow> P (ps_sentence s) (ps_label_map s) (int i) (ps_head s' ! i, ps_label s' ! i))"
proof (induction rule: allowed_run.induct)
  case (run_step a s s1 acts s')
  obtain h where h: "attach_inv (s\<lparr>ps_history := h\<rparr>)" "permitted a (s\<lparr>ps_history := h\<rparr>)" "ps_next s < ps_num_tokens s"
      "s1 = attach (arc a (s\<lparr>ps_history := h\<rparr>)) (s\<lparr>ps_history := h\<rparr>)"
    using perform_attach [OF run_step.prems(1) run_step.hyps(1,2)] by (auto simp: Let_def)
  have "length (ps_head s) = nat (ps_num_tokens s)" "length (ps_label s) = nat (ps_num_tokens s)" "0 \<le> ps_next s"
    using run_step.prems(1) ps_wfD(2,3) [of s] by (auto simp: attach_inv_def)
  then have "\<forall>i. int i < ps_next s1 \<longrightarrow> P (ps_sentence s1) (ps_label_map s1) (int i) (ps_head s1 ! i, ps_label s1 ! i)"
    using run_step.prems(2) assms [OF h(1,2)] h(3) unfolding h(4) attach_def by (auto simp: nth_list_update)
  moreover have "attach_inv s1" using attach_attach_inv(1) [OF h(1)] h(3,4) by simp
  moreover have "ps_sentence s1 = ps_sentence s" "ps_label_map s1 = ps_label_map s" by (simp_all add: h(4) attach_def)
  ultimately show ?case using run_step.IH by metis
qed simp

end

lemma attach_inv_fresh:
  assumes "tfm_inv label_map"
  shows "attach_inv (fresh_state sentence ts label_map)" "ps_next (fresh_state sentence ts label_map) = 0"
    "ps_sentence (fresh_state sentence ts label_map) = sentence" "ps_label_map (fresh_state sentence ts label_map) = label_map"
  using ps_wf_fresh [OF assms] by (auto simp: attach_inv_def fresh_state_def Let_def)

end
