(* ===== verification/Head_Transitions.thy ===== *)
theory Head_Transitions
  imports Attachment_Systems
begin

text \<open>
  \<^verbatim>\<open>syntaxnet/head_transitions.{h,cc}\<close>: the system that predicts heads. The action is the head of
  the next token; the token itself stands for the root. The transition state has no fields.
\<close>

type_synonym heads_state = "unit parser_state"

definition kDynamicNumActions :: int where
  "kDynamicNumActions = -1"

definition heads_Clone :: "unit \<Rightarrow> unit" where
  "heads_Clone ts = ()"

definition heads_Init :: "heads_state \<Rightarrow> heads_state option" where
  "heads_Init s = Some s"

definition heads_annotate :: "heads_state \<Rightarrow> int \<Rightarrow> sentence \<Rightarrow> sentence option" where
  "heads_annotate s i sentence = do {
     token \<leftarrow> sent_token_at sentence i;
     h \<leftarrow> Head s i;
     set_token sentence i (if h \<noteq> -1 then set_head h token else clear_head token) }"

definition heads_AddParseToDocument :: "unit \<Rightarrow> heads_state \<Rightarrow> bool \<Rightarrow> sentence \<Rightarrow> sentence option" where
  "heads_AddParseToDocument ts s rewrite_root_labels sentence =
     foreach (heads_annotate s) [0..NumTokens s - 1] sentence"

definition heads_IsTokenCorrect :: "unit \<Rightarrow> heads_state \<Rightarrow> int \<Rightarrow> bool option" where
  "heads_IsTokenCorrect ts s index = do { g \<leftarrow> GoldHead s index; h \<leftarrow> Head s index; Some (g = h) }"

definition heads_ToString :: "unit \<Rightarrow> heads_state \<Rightarrow> string option" where
  "heads_ToString ts s = do {
     str \<leftarrow> foreach (\<lambda>i str. do {
         h \<leftarrow> Head s i; Some (str @ (if i = 0 then [] else '' '') @ show_int h) })
       [0..NumTokens s - 1] ''['';
     Some (str @ '']'') }"

definition heads_NumActions :: "int \<Rightarrow> int" where
  "heads_NumActions num_labels = kDynamicNumActions"

definition heads_GetDefaultAction :: "heads_state \<Rightarrow> parser_action option" where
  "heads_GetDefaultAction s = Next s"

definition heads_GetNextGoldAction :: "heads_state \<Rightarrow> parser_action option" where
  "heads_GetNextGoldAction s =
     (if EndOfInput s then Some 0
      else do {
        current \<leftarrow> Next s;
        head \<leftarrow> GoldHead s current;
        Some (if head = -1 then current else head) })"

definition heads_IsAllowedAction :: "parser_action \<Rightarrow> heads_state \<Rightarrow> bool option" where
  "heads_IsAllowedAction action s =
     (if EndOfInput s then Some False else Some (action \<ge> 0 \<and> action < token_size (ps_sentence s)))"

definition heads_PerformActionWithoutHistory :: "parser_action \<Rightarrow> heads_state \<Rightarrow> heads_state option" where
  "heads_PerformActionWithoutHistory action s = do {
     allowed \<leftarrow> heads_IsAllowedAction action s;
     check allowed;
     current \<leftarrow> Next s;
     let action = (if action = current then -1 else action);
     s \<leftarrow> AddArc current action 0 s;
     Advance s }"

definition heads_IsFinalState :: "heads_state \<Rightarrow> bool option" where
  "heads_IsFinalState s = Some (EndOfInput s)"

definition heads_ActionAsString :: "parser_action \<Rightarrow> heads_state \<Rightarrow> string option" where
  "heads_ActionAsString action s = do {
     allowed \<leftarrow> heads_IsAllowedAction action s;
     if \<not> allowed then Some (''INVALID:'' @ show_int action)
     else do {
       current \<leftarrow> Next s;
       head \<leftarrow> (if action = current then Some ''ROOT''
                else do { t \<leftarrow> sent_token_at (ps_sentence s) action; Some (tok_word t) });
       token \<leftarrow> sent_token_at (ps_sentence s) current;
       Some (head @ ''->'' @ tok_word token) } }"

definition heads_IsDeterministicState :: "heads_state \<Rightarrow> bool" where
  "heads_IsDeterministicState s \<longleftrightarrow> False"

definition new_heads_state :: "sentence \<Rightarrow> term_frequency_map \<Rightarrow> heads_state option" where
  "new_heads_state sentence label_map = ParserState heads_Init sentence (Some ()) label_map"

subsection \<open>The system as an attachment system\<close>

text \<open>The head that the oracle assigns: the annotation, where a token that is its own head counts as a root.\<close>

definition loop_free_head :: "sentence \<Rightarrow> nat \<Rightarrow> int" where
  "loop_free_head d i = (let h = tok_head (sent_token d ! i) in if h = int i then -1 else h)"

lemma new_heads_state_eq: "new_heads_state d label_map = Some (fresh_state d (Some ()) label_map)"
  by (simp add: new_heads_state_def ParserState_def heads_Init_def Let_def)

lemma well_ranged_token: "well_ranged (heads d) \<Longrightarrow> i < length (sent_token d) \<Longrightarrow>
   -1 \<le> tok_head (sent_token d ! i) \<and> tok_head (sent_token d ! i) < token_size d"
  by (auto simp: well_ranged_def heads_def token_size_def)

interpretation heads: attachment_system
  heads_IsAllowedAction heads_IsFinalState heads_PerformActionWithoutHistory heads_GetNextGoldAction
  "\<lambda>a s. \<not> EndOfInput s \<and> 0 \<le> a \<and> a < token_size (ps_sentence s)"
  "\<lambda>a s. (if a = ps_next s then -1 else a, 0)"
  "\<lambda>d label_map i. (loop_free_head d i, 0)"
  "\<lambda>d label_map. well_ranged (heads d)"
proof unfold_locales
  fix s :: heads_state and a h
  show "heads_IsFinalState s = Some (EndOfInput s)" by (simp add: heads_IsFinalState_def)
  show "heads_IsAllowedAction a (s\<lparr>ps_history := h\<rparr>) = heads_IsAllowedAction a s"
    by (simp add: heads_IsAllowedAction_def EndOfInput_def)
  show "heads_GetNextGoldAction (s\<lparr>ps_history := h\<rparr>) = heads_GetNextGoldAction s"
    by (simp add: heads_GetNextGoldAction_def EndOfInput_def Next_def GoldHead_def GetToken_def)
  assume inv: "attach_inv s"
  show "heads_IsAllowedAction a s = Some (\<not> EndOfInput s \<and> 0 \<le> a \<and> a < token_size (ps_sentence s))"
    by (simp add: heads_IsAllowedAction_def)
  have wf: "ps_wf s" "0 \<le> ps_next s" using inv by (auto simp: attach_inv_def)
  show "ps_next s < ps_num_tokens s" if "\<not> EndOfInput s \<and> 0 \<le> a \<and> a < token_size (ps_sentence s)"
    using that ps_wfD(5) [OF wf(1)] by (simp add: EndOfInput_def)
  show "heads_PerformActionWithoutHistory a s = Some (attach (if a = ps_next s then -1 else a, 0) s)"
    if "\<not> EndOfInput s \<and> 0 \<le> a \<and> a < token_size (ps_sentence s)"
    using that attach_arc [OF inv] ps_wfD(5) [OF wf(1)] wf(1)
    by (simp add: heads_PerformActionWithoutHistory_def heads_IsAllowedAction_def EndOfInput_def)
  assume lt: "ps_next s < ps_num_tokens s" and ann: "well_ranged (heads (ps_sentence s))"
  let ?h = "tok_head (sent_token (ps_sentence s) ! nat (ps_next s))"
  have "-1 \<le> ?h" "?h < token_size (ps_sentence s)" "ps_next s < token_size (ps_sentence s)"
    using well_ranged_token [OF ann, of "nat (ps_next s)"] lt ps_wfD(1) [OF wf(1)] wf(2) by (auto simp: token_size_def)
  then show "\<exists>a. heads_GetNextGoldAction s = Some a \<and> (\<not> EndOfInput s \<and> 0 \<le> a \<and> a < token_size (ps_sentence s)) \<and>
      (if a = ps_next s then -1 else a, 0) = (loop_free_head (ps_sentence s) (nat (ps_next s)), 0)"
    using lt wf by (auto simp: heads_GetNextGoldAction_def EndOfInput_def GoldHead_wf gold_head_of_def loop_free_head_def Let_def)
qed

text \<open>The token that \<open>AddParseToDocument\<close> writes.\<close>

definition write_head :: "int \<Rightarrow> token \<Rightarrow> token" where
  "write_head h t = (if h \<noteq> -1 then set_head h t else clear_head t)"

lemma heads_annotate_eq:
  assumes "ps_wf s" and "i < length (sent_token (ps_sentence s))" and "length (sent_token d) = length (sent_token (ps_sentence s))"
  shows "heads_annotate s (int i) d = set_token d (int i) (write_head (ps_head s ! i) (sent_token d ! i))"
  using assms ps_wfD(1) [OF assms(1)]
  by (simp add: heads_annotate_def sent_token_at_def Head_wf head_of_def token_size_def write_head_def)

lemma heads_add_parse_eq:
  assumes "ps_wf s" and "ps_transition_state s \<noteq> None" and "length (sent_token d) = length (sent_token (ps_sentence s))"
  shows "AddParseToDocument heads_AddParseToDocument s d rewrite =
    Some (d\<lparr>sent_token := map (\<lambda>i. write_head (ps_head s ! i) (sent_token d ! i)) [0..<length (sent_token d)]\<rparr>)"
proof -
  let ?n = "length (sent_token d)"
  have "foreach (heads_annotate s) (map int [0..<?n]) d =
      Some (d\<lparr>sent_token := map (\<lambda>i. write_head (ps_head s ! i) (sent_token d ! i)) [0..<?n] @ drop ?n (sent_token d)\<rparr>)"
    by (rule foreach_token_update [of ?n]) (use assms heads_annotate_eq in auto)
  moreover have "NumTokens s = int ?n" using ps_wfD(1) [OF assms(1)] assms(3) by (simp add: NumTokens_def token_size_def)
  ultimately show ?thesis using assms(2)
    by (auto simp: AddParseToDocument_def heads_AddParseToDocument_def upto_map_int)
qed

lemma write_head_clear:
  assumes "tok_head_opt t \<noteq> Some (int i)" and "tok_head_opt t \<noteq> Some (-1)"
  shows "write_head (if tok_head t = int i then -1 else tok_head t) (clear_head t) = t"
  using assms by (auto simp: write_head_def tok_head_def set_head_def clear_head_def intro!: token.equality split: option.splits)


definition crossing_four :: sentence where
  "crossing_four = \<lparr>sent_docid = [], sent_text = [], sent_token =
     [default_token\<lparr>tok_word := ''a'', tok_head_opt := Some 2, tok_label := ''det''\<rparr>,
      default_token\<lparr>tok_word := ''b'', tok_head_opt := Some 3, tok_label := ''nsubj''\<rparr>,
      default_token\<lparr>tok_word := ''c'', tok_head_opt := Some 3, tok_label := ''nsubj''\<rparr>,
      default_token\<lparr>tok_word := ''d'', tok_label := ''ROOT''\<rparr>]\<rparr>"


end
