(* ===== verification/Label_Transitions.thy ===== *)
theory Label_Transitions
  imports Head_Transitions
begin

text \<open>
  \<^verbatim>\<open>syntaxnet/label_transitions.{h,cc}\<close>: the system that predicts the label of the dependency between
  each token and its head, the head being the one in the sentence. The action is the label. The
  root label is permitted exactly for tokens whose head is the root.
\<close>

type_synonym labels_state = "unit parser_state"

definition labels_Clone :: "unit \<Rightarrow> unit" where
  "labels_Clone ts = ()"

definition labels_Init :: "labels_state \<Rightarrow> labels_state option" where
  "labels_Init s = Some s"

definition labels_annotate :: "labels_state \<Rightarrow> bool \<Rightarrow> int \<Rightarrow> sentence \<Rightarrow> sentence option" where
  "labels_annotate s rewrite_root_labels i sentence = do {
     token \<leftarrow> sent_token_at sentence i;
     l \<leftarrow> Label s i;
     str \<leftarrow> LabelAsString s l;
     let token = token\<lparr>tok_label := str\<rparr>;
     h \<leftarrow> Head s i;
     root \<leftarrow> LabelAsString s (RootLabel s);
     set_token sentence i (if rewrite_root_labels \<and> h = -1 then token\<lparr>tok_label := root\<rparr> else token) }"

definition labels_AddParseToDocument :: "unit \<Rightarrow> labels_state \<Rightarrow> bool \<Rightarrow> sentence \<Rightarrow> sentence option" where
  "labels_AddParseToDocument ts s rewrite_root_labels sentence =
     foreach (labels_annotate s rewrite_root_labels) [0..NumTokens s - 1] sentence"

definition labels_IsTokenCorrect :: "unit \<Rightarrow> labels_state \<Rightarrow> int \<Rightarrow> bool option" where
  "labels_IsTokenCorrect ts s index = do { g \<leftarrow> GoldLabel s index; l \<leftarrow> Label s index; Some (g = l) }"

definition labels_ToString :: "unit \<Rightarrow> labels_state \<Rightarrow> string option" where
  "labels_ToString ts s = do {
     str \<leftarrow> foreach (\<lambda>i str. do {
         l \<leftarrow> Label s i; name \<leftarrow> LabelAsString s l; Some (str @ (if i = 0 then [] else '' '') @ name) })
       [0..NumTokens s - 1] ''['';
     Some (str @ '']'') }"

definition labels_NumActions :: "int \<Rightarrow> int" where
  "labels_NumActions num_labels = num_labels"

definition labels_GetDefaultAction :: "labels_state \<Rightarrow> parser_action option" where
  "labels_GetDefaultAction s = Some (RootLabel s)"

definition labels_GetNextGoldAction :: "labels_state \<Rightarrow> parser_action option" where
  "labels_GetNextGoldAction s =
     (if EndOfInput s then Some 0 else do { current \<leftarrow> Next s; GoldLabel s current })"

definition labels_IsAllowedAction :: "parser_action \<Rightarrow> labels_state \<Rightarrow> bool option" where
  "labels_IsAllowedAction action s =
     (if EndOfInput s then Some False
      else if action < 0 \<or> action \<ge> NumLabels s then Some False
      else do {
        current \<leftarrow> Next s;
        head \<leftarrow> GoldHead s current;
        let is_root_head = (head < 0);
        let is_root_label = (action = RootLabel s);
        Some (is_root_head = is_root_label) })"

definition labels_PerformActionWithoutHistory :: "parser_action \<Rightarrow> labels_state \<Rightarrow> labels_state option" where
  "labels_PerformActionWithoutHistory action s = do {
     current \<leftarrow> Next s;
     head \<leftarrow> GoldHead s current;
     allowed \<leftarrow> labels_IsAllowedAction action s;
     check allowed;
     s \<leftarrow> AddArc current head action s;
     Advance s }"

definition labels_IsFinalState :: "labels_state \<Rightarrow> bool option" where
  "labels_IsFinalState s = Some (EndOfInput s)"

definition labels_ActionAsString :: "parser_action \<Rightarrow> labels_state \<Rightarrow> string option" where
  "labels_ActionAsString action s = do {
     allowed \<leftarrow> labels_IsAllowedAction action s;
     if \<not> allowed then Some (''INVALID:'' @ show_int action)
     else do {
       current \<leftarrow> Next s;
       head \<leftarrow> GoldHead s current;
       label \<leftarrow> LabelAsString s action;
       token \<leftarrow> sent_token_at (ps_sentence s) current;
       word \<leftarrow> (if head = -1 then Some ''ROOT''
                else do { t \<leftarrow> sent_token_at (ps_sentence s) head; Some (tok_word t) });
       Some (label @ ''('' @ tok_word token @ ''<-'' @ word @ '')'') } }"

definition labels_IsDeterministicState :: "labels_state \<Rightarrow> bool" where
  "labels_IsDeterministicState s \<longleftrightarrow> False"

definition new_labels_state :: "sentence \<Rightarrow> term_frequency_map \<Rightarrow> labels_state option" where
  "new_labels_state sentence label_map = ParserState labels_Init sentence (Some ()) label_map"

subsection \<open>The system as an attachment system\<close>

lemma new_labels_state_eq: "new_labels_state d label_map = Some (fresh_state d (Some ()) label_map)"
  by (simp add: new_labels_state_def ParserState_def labels_Init_def Let_def)

definition root_index :: "term_frequency_map \<Rightarrow> int" where
  "root_index label_map = LookupIndex label_map kRootLabel kDefaultRootLabel"

definition label_count :: "term_frequency_map \<Rightarrow> int" where
  "label_count label_map = Size label_map + (if root_index label_map = kDefaultRootLabel then 1 else 0)"

lemma NumLabels_wf: "ps_wf s \<Longrightarrow> NumLabels s = label_count (ps_label_map s)"
  using ps_wfD(9) [of s] by (simp add: NumLabels_def label_count_def root_index_def RootLabel_def)

lemma RootLabel_wf: "ps_wf s \<Longrightarrow> RootLabel s = root_index (ps_label_map s)"
  using ps_wfD(9) [of s] by (simp add: root_index_def RootLabel_def)

text \<open>Annotations the system can produce: known labels, the root label exactly at the root.\<close>

definition labels_consistent :: "sentence \<Rightarrow> term_frequency_map \<Rightarrow> bool" where
  "labels_consistent d label_map \<longleftrightarrow> (\<forall>t \<in> set (sent_token d).
     0 \<le> label_index label_map t \<and> label_index label_map t < label_count label_map \<and>
     (tok_head t < 0 \<longleftrightarrow> label_index label_map t = root_index label_map))"

definition label_permitted :: "parser_action \<Rightarrow> labels_state \<Rightarrow> bool" where
  "label_permitted a s \<longleftrightarrow> \<not> EndOfInput s \<and> 0 \<le> a \<and> a < NumLabels s \<and>
     (gold_head_of s (ps_next s) < 0 \<longleftrightarrow> a = RootLabel s)"

interpretation labels: attachment_system
  labels_IsAllowedAction labels_IsFinalState labels_PerformActionWithoutHistory labels_GetNextGoldAction
  label_permitted "\<lambda>a s. (gold_head_of s (ps_next s), a)"
  "\<lambda>d label_map i. (tok_head (sent_token d ! i), label_index label_map (sent_token d ! i))"
  labels_consistent
proof unfold_locales
  fix s :: labels_state and a h
  show "labels_IsFinalState s = Some (EndOfInput s)" by (simp add: labels_IsFinalState_def)
  show "labels_IsAllowedAction a (s\<lparr>ps_history := h\<rparr>) = labels_IsAllowedAction a s"
    by (simp add: labels_IsAllowedAction_def EndOfInput_def NumLabels_def RootLabel_def Next_def GoldHead_def GetToken_def)
  show "labels_GetNextGoldAction (s\<lparr>ps_history := h\<rparr>) = labels_GetNextGoldAction s"
    by (simp add: labels_GetNextGoldAction_def EndOfInput_def Next_def GoldLabel_def GetToken_def RootLabel_def)
  assume inv: "attach_inv s"
  have wf: "ps_wf s" "0 \<le> ps_next s" using inv by (auto simp: attach_inv_def)
  have lt: "ps_next s < ps_num_tokens s" if "\<not> EndOfInput s"
    using that ps_wfD(5) [OF wf(1)] by (simp add: EndOfInput_def)
  show allowed: "labels_IsAllowedAction a s = Some (label_permitted a s)" for a
    using lt wf by (auto simp: labels_IsAllowedAction_def label_permitted_def GoldHead_wf Let_def)
  show "ps_next s < ps_num_tokens s" if "label_permitted a s" using that lt by (simp add: label_permitted_def)
  show "labels_PerformActionWithoutHistory a s = Some (attach (gold_head_of s (ps_next s), a) s)" if "label_permitted a s"
    using that lt attach_arc [OF inv] wf
    by (simp add: labels_PerformActionWithoutHistory_def allowed label_permitted_def GoldHead_wf)
  assume lt: "ps_next s < ps_num_tokens s" and ann: "labels_consistent (ps_sentence s) (ps_label_map s)"
  let ?t = "sent_token (ps_sentence s) ! nat (ps_next s)"
  have "?t \<in> set (sent_token (ps_sentence s))" using lt wf ps_wfD(1) [OF wf(1)] by (simp add: token_size_def)
  then have "0 \<le> label_index (ps_label_map s) ?t" "label_index (ps_label_map s) ?t < label_count (ps_label_map s)"
      "tok_head ?t < 0 \<longleftrightarrow> label_index (ps_label_map s) ?t = root_index (ps_label_map s)"
    using ann by (auto simp: labels_consistent_def)
  then show "\<exists>a. labels_GetNextGoldAction s = Some a \<and> label_permitted a s \<and> (gold_head_of s (ps_next s), a) =
      (tok_head ?t, label_index (ps_label_map s) ?t)"
    using lt wf NumLabels_wf [OF wf(1)] RootLabel_wf [OF wf(1)]
    by (auto simp: labels_GetNextGoldAction_def EndOfInput_def GoldLabel_wf gold_label_of_eq label_permitted_def gold_head_of_def)
qed

subsection \<open>Writing labels\<close>

definition write_label :: "labels_state \<Rightarrow> bool \<Rightarrow> nat \<Rightarrow> token \<Rightarrow> token" where
  "write_label s rewrite i t = t\<lparr>tok_label :=
     (if rewrite \<and> ps_head s ! i = -1 then kRootLabel else the (LabelAsString s (ps_label s ! i)))\<rparr>"

lemma LabelAsString_root [simp]: "LabelAsString s (RootLabel s) = Some kRootLabel"
  by (simp add: LabelAsString_def RootLabel_def)

lemma labels_add_parse_eq:
  assumes "ps_wf s" and "ps_transition_state s \<noteq> None" and "length (sent_token d) = length (sent_token (ps_sentence s))"
  shows "AddParseToDocument labels_AddParseToDocument s d rewrite =
    Some (d\<lparr>sent_token := map (\<lambda>i. write_label s rewrite i (sent_token d ! i)) [0..<length (sent_token d)]\<rparr>)"
proof -
  let ?n = "length (sent_token d)"
  have n: "NumTokens s = int ?n" "ps_num_tokens s = int ?n"
    using ps_wfD(1) [OF assms(1)] assms(3) by (simp_all add: NumTokens_def token_size_def)
  have "labels_annotate s rewrite (int i) e = set_token e (int i) (write_label s rewrite i (sent_token e ! i))"
    if "i < ?n" "length (sent_token e) = ?n" for i e
    using that n assms(1) LabelAsString_total [OF assms(1), of "ps_label s ! i"]
    by (auto simp: labels_annotate_def sent_token_at_def Head_wf Label_wf head_of_def label_of_def write_label_def)
  then have "foreach (labels_annotate s rewrite) (map int [0..<?n]) d =
      Some (d\<lparr>sent_token := map (\<lambda>i. write_label s rewrite i (sent_token d ! i)) [0..<?n] @ drop ?n (sent_token d)\<rparr>)"
    by (intro foreach_token_update [of ?n]) auto
  then show ?thesis using assms(2) n
    by (auto simp: AddParseToDocument_def labels_AddParseToDocument_def upto_map_int)
qed

lemma label_index_known: "LookupIndex label_map l u \<noteq> u \<Longrightarrow> LookupIndex label_map l v = LookupIndex label_map l u"
  by (auto simp: LookupIndex_def split: option.splits)

lemma labels_consistent_known:
  assumes "tfm_inv label_map"
    and "\<And>t. t \<in> set (sent_token sentence) \<Longrightarrow> LookupIndex label_map (tok_label t) (-2) \<noteq> -2 \<and>
      (tok_head t < 0 \<longleftrightarrow> tok_label t = kRootLabel)"
    and "LookupIndex label_map kRootLabel (-1) \<noteq> -1"
  shows "labels_consistent sentence label_map"
  unfolding labels_consistent_def
proof
  fix t assume "t \<in> set (sent_token sentence)"
  note k = assms(2) [OF this]
  let ?l = "LookupIndex label_map (tok_label t) (-2)"
  have "label_index label_map t = ?l" unfolding label_index_def using k by (intro label_index_known) simp
  moreover have "root_index label_map = LookupIndex label_map kRootLabel (-2)"
    using label_index_known [OF assms(3), of "-2"] by (simp add: root_index_def kDefaultRootLabel_def)
  moreover have "?l = LookupIndex label_map kRootLabel (-2) \<longleftrightarrow> kRootLabel = tok_label t"
    using tfm.lookup_same_iff [OF assms(1), of "tok_label t" "-2" kRootLabel] k by metis
  moreover have "0 \<le> ?l" "?l < Size label_map" using tfm.lookup_known [OF assms(1), of "tok_label t" "-2"] k by auto
  ultimately show "0 \<le> label_index label_map t \<and> label_index label_map t < label_count label_map \<and>
     (tok_head t < 0 \<longleftrightarrow> label_index label_map t = root_index label_map)"
    using k by (auto simp: label_count_def)
qed

text \<open>
  The labels system reproduces every annotation in which all labels are in the label map and
  the root label is at the root tokens and nowhere else: the oracle run takes one action per
  token, never aborts, and writing it into the sentence without labels restores the sentence.
\<close>

theorem labels_oracle_roundtrip:
  assumes "tfm_inv label_map"
    and "\<forall>t \<in> set (sent_token sentence). LookupIndex label_map (tok_label t) (-2) \<noteq> -2 \<and>
      (tok_head t < 0 \<longleftrightarrow> tok_label t = kRootLabel)"
    and "LookupIndex label_map kRootLabel (-1) \<noteq> -1"
  shows "\<exists>s0 s. new_labels_state sentence label_map = Some s0 \<and>
    drive labels_IsFinalState (PerformAction labels_PerformActionWithoutHistory) labels_GetNextGoldAction
      (length (sent_token sentence)) s0 = Some s \<and>
    AddParseToDocument labels_AddParseToDocument s
      (sentence\<lparr>sent_token := map (\<lambda>t. t\<lparr>tok_label := []\<rparr>) (sent_token sentence)\<rparr>) rewrite = Some sentence"
proof -
  let ?s0 = "fresh_state sentence (Some ()) label_map" and ?n = "length (sent_token sentence)"
  let ?er = "\<lambda>t. t\<lparr>tok_label := []\<rparr>"
  note f = attach_inv_fresh [OF assms(1), of sentence "Some ()"]
  have "labels_consistent sentence label_map" 
    by (rule labels_consistent_known [OF assms(1) _ assms(3)]) (use assms(2) in blast)
  with labels.attaches_gold [OF f(1,2)] f(3,4) obtain s where
    s: "drive labels_IsFinalState (PerformAction labels_PerformActionWithoutHistory) labels_GetNextGoldAction ?n ?s0 = Some s"
      "attach_inv s" "ps_head s = map (\<lambda>i. tok_head (sent_token sentence ! i)) [0..<?n]"
      "ps_label s = map (\<lambda>i. label_index label_map (sent_token sentence ! i)) [0..<?n]"
      "ps_sentence s = sentence" "ps_label_map s = label_map" "ps_transition_state s = ps_transition_state ?s0"
    by auto
  have wf: "ps_wf s" using s(2) by (simp add: attach_inv_def)
  have "write_label s rewrite i (?er (sent_token sentence ! i)) = sent_token sentence ! i" if i: "i < ?n" for i
  proof -
    let ?t = "sent_token sentence ! i"
    have t: "?t \<in> set (sent_token sentence)" using i by simp
    have k: "LookupIndex label_map (tok_label ?t) (-2) \<noteq> -2" "tok_head ?t < 0 \<longleftrightarrow> tok_label ?t = kRootLabel"
      using assms(2) t by blast+
    have "LabelAsString s (label_index label_map ?t) = Some (tok_label ?t)"
      using LabelAsString_lookup [OF wf, of "tok_label ?t"] k(1) by (simp add: label_index_def s(6) ps_wfD(9) [OF wf])
    moreover have "tok_label ?t = kRootLabel" if "tok_head ?t = -1" using k(2) that by simp
    ultimately show ?thesis using i by (auto simp: write_label_def s(3,4) intro!: token.equality)
  qed
  then have "map (\<lambda>i. write_label s rewrite i (map ?er (sent_token sentence) ! i)) [0..<?n] = sent_token sentence"
    by (intro nth_equalityI) simp_all
  then have "AddParseToDocument labels_AddParseToDocument s (sentence\<lparr>sent_token := map ?er (sent_token sentence)\<rparr>) rewrite
      = Some sentence"
    using wf s(5,7) labels_add_parse_eq [of s "sentence\<lparr>sent_token := map ?er (sent_token sentence)\<rparr>" rewrite]
    by (simp add: fresh_state_def Let_def)
  then show ?thesis using s(1) new_labels_state_eq by auto
qed

definition labels_three :: term_frequency_map where
  "labels_three = \<lparr>term_index = [(''nsubj'', 0), (''ROOT'', 1), (''det'', 2)],
     term_data = [(''nsubj'', 9), (''ROOT'', 5), (''det'', 2)]\<rparr>"

lemma labels_three_inv: "tfm_inv labels_three"
proof -
  have "i = 0 \<or> i = 1 \<or> i = 2" if "i < 3" for i :: nat using that by linarith
  then show ?thesis by (auto simp: tfm_inv_def labels_three_def)
qed

theorem labels_oracle_roundtrip_witness:
  "\<exists>s0 s. new_labels_state crossing_four labels_three = Some s0 \<and>
    drive labels_IsFinalState (PerformAction labels_PerformActionWithoutHistory) labels_GetNextGoldAction
      (length (sent_token crossing_four)) s0 = Some s \<and>
    AddParseToDocument labels_AddParseToDocument s
      (crossing_four\<lparr>sent_token := map (\<lambda>t. t\<lparr>tok_label := []\<rparr>) (sent_token crossing_four)\<rparr>) True = Some crossing_four"
proof (rule labels_oracle_roundtrip [OF labels_three_inv])
  show "\<forall>t \<in> set (sent_token crossing_four). LookupIndex labels_three (tok_label t) (-2) \<noteq> -2 \<and>
      (tok_head t < 0 \<longleftrightarrow> tok_label t = kRootLabel)" by code_simp
  show "LookupIndex labels_three kRootLabel (-1) \<noteq> -1" by code_simp
qed

end
