(* ===== verification/Head_Label_Transitions.thy ===== *)
theory Head_Label_Transitions
  imports Label_Transitions "HOL-Library.Signed_Division"
begin

text \<open>
  \<^verbatim>\<open>syntaxnet/head_label_transitions.{h,cc}\<close>: the system that predicts head and label of each token in
  one action, encoded as \<^verbatim>\<open>head * num_labels + label\<close> in a 32-bit \<^verbatim>\<open>int\<close>. The token itself as a head
  stands for the root. The theory also shows that the oracle of this system computes the heads of
  the \<^verbatim>\<open>heads\<close> system and the labels of the \<^verbatim>\<open>labels\<close> system.
\<close>

type_synonym heads_labels_state = "unit parser_state"

definition hl_Clone :: "unit \<Rightarrow> unit" where
  "hl_Clone ts = ()"

definition hl_Init :: "heads_labels_state \<Rightarrow> heads_labels_state option" where
  "hl_Init s = Some s"

definition hl_annotate :: "heads_labels_state \<Rightarrow> bool \<Rightarrow> int \<Rightarrow> sentence \<Rightarrow> sentence option" where
  "hl_annotate s rewrite_root_labels i sentence = do {
     token \<leftarrow> sent_token_at sentence i;
     h \<leftarrow> Head s i;
     let token = set_head h token;
     l \<leftarrow> Label s i;
     str \<leftarrow> LabelAsString s l;
     let token = token\<lparr>tok_label := str\<rparr>;
     root \<leftarrow> LabelAsString s (RootLabel s);
     set_token sentence i (if rewrite_root_labels \<and> h = -1 then token\<lparr>tok_label := root\<rparr> else token) }"

definition hl_AddParseToDocument :: "unit \<Rightarrow> heads_labels_state \<Rightarrow> bool \<Rightarrow> sentence \<Rightarrow> sentence option" where
  "hl_AddParseToDocument ts s rewrite_root_labels sentence =
     foreach (hl_annotate s rewrite_root_labels) [0..NumTokens s - 1] sentence"

definition hl_IsTokenCorrect :: "unit \<Rightarrow> heads_labels_state \<Rightarrow> int \<Rightarrow> bool option" where
  "hl_IsTokenCorrect ts s index = do { g \<leftarrow> GoldHead s index; h \<leftarrow> Head s index; Some (g = h) }"

definition hl_ToString :: "unit \<Rightarrow> heads_labels_state \<Rightarrow> string option" where
  "hl_ToString ts s = do {
     str \<leftarrow> foreach (\<lambda>i str. do {
         h \<leftarrow> Head s i; Some (str @ (if i = 0 then [] else '' '') @ show_int h) })
       [0..NumTokens s - 1] ''['';
     Some (str @ '']'') }"

definition DecodeActionWithState :: "parser_action \<Rightarrow> heads_labels_state \<Rightarrow> parser_action \<times> int" where
  "DecodeActionWithState action s =
     (let num_labels = NumLabels s in (action sdiv num_labels, action smod num_labels))"

definition EncodeActionWithState :: "parser_action \<Rightarrow> int \<Rightarrow> heads_labels_state \<Rightarrow> parser_action" where
  "EncodeActionWithState base_action label s = wrap32 (wrap32 (base_action * NumLabels s) + label)"

definition hl_NumActions :: "int \<Rightarrow> int" where
  "hl_NumActions num_labels = kDynamicNumActions"

definition hl_GetDefaultAction :: "heads_labels_state \<Rightarrow> parser_action option" where
  "hl_GetDefaultAction s = do {
     default_head \<leftarrow> Next s;
     let default_label = RootLabel s;
     Some (EncodeActionWithState default_head default_label s) }"

definition hl_GetNextGoldAction :: "heads_labels_state \<Rightarrow> parser_action option" where
  "hl_GetNextGoldAction s =
     (if EndOfInput s then Some 0
      else do {
        current \<leftarrow> Next s;
        head \<leftarrow> GoldHead s current;
        label \<leftarrow> GoldLabel s current;
        let head = (if head = -1 then current else head);
        Some (EncodeActionWithState head label s) })"

definition hl_IsAllowedAction :: "parser_action \<Rightarrow> heads_labels_state \<Rightarrow> bool option" where
  "hl_IsAllowedAction action s =
     (if EndOfInput s then Some False
      else Some (action \<ge> 0 \<and> action < wrap32 (NumTokens s * NumLabels s)))"

definition hl_PerformActionWithoutHistory :: "parser_action \<Rightarrow> heads_labels_state \<Rightarrow> heads_labels_state option" where
  "hl_PerformActionWithoutHistory action s = do {
     allowed \<leftarrow> hl_IsAllowedAction action s;
     check allowed;
     current \<leftarrow> Next s;
     let (head, label) = DecodeActionWithState action s;
     s \<leftarrow> AddArc current (if head = current then -1 else head) label s;
     Advance s }"

definition hl_IsFinalState :: "heads_labels_state \<Rightarrow> bool option" where
  "hl_IsFinalState s = Some (EndOfInput s)"

definition hl_ActionAsString :: "parser_action \<Rightarrow> heads_labels_state \<Rightarrow> string option" where
  "hl_ActionAsString action s = do {
     allowed \<leftarrow> hl_IsAllowedAction action s;
     if \<not> allowed then Some (''INVALID:'' @ show_int action)
     else do {
       current \<leftarrow> Next s;
       let (head, label) = DecodeActionWithState action s;
       str \<leftarrow> LabelAsString s label;
       token \<leftarrow> sent_token_at (ps_sentence s) current;
       word \<leftarrow> (if head = current then Some ''ROOT''
                else do { t \<leftarrow> sent_token_at (ps_sentence s) head; Some (tok_word t) });
       Some (str @ ''('' @ tok_word token @ ''<-'' @ word @ '')'') } }"

definition hl_IsDeterministicState :: "heads_labels_state \<Rightarrow> bool" where
  "hl_IsDeterministicState s \<longleftrightarrow> False"

definition new_hl_state :: "sentence \<Rightarrow> term_frequency_map \<Rightarrow> heads_labels_state option" where
  "new_hl_state sentence label_map = ParserState hl_Init sentence (Some ()) label_map"

subsection \<open>Encoding and decoding\<close>

lemma new_hl_state_eq: "new_hl_state d label_map = Some (fresh_state d (Some ()) label_map)"
  by (simp add: new_hl_state_def ParserState_def hl_Init_def Let_def)

lemma Size_nonneg: "tfm_inv m \<Longrightarrow> 0 \<le> Size m"
  by (simp add: tfm_Size)

lemma root_index_range: "tfm_inv m \<Longrightarrow> root_index m = -1 \<or> (0 \<le> root_index m \<and> root_index m < Size m)"
  using tfm.lookup_range [of m kRootLabel "-1"] by (simp add: root_index_def kDefaultRootLabel_def)

lemma label_count_pos: "tfm_inv m \<Longrightarrow> 0 < label_count m"
  using Size_nonneg [of m] root_index_range [of m] by (auto simp: label_count_def kDefaultRootLabel_def)

lemma label_index_range:
  "tfm_inv m \<Longrightarrow> 0 \<le> label_index m t \<Longrightarrow> label_index m t < label_count m"
  using tfm.lookup_range [of m "tok_label t" "root_index m"] root_index_range [of m] Size_nonneg [of m]
  by (auto simp: label_index_def root_index_def label_count_def)

lemma decode_eq:
  assumes "ps_wf s" and "0 \<le> a"
  shows "DecodeActionWithState a s = (a div label_count (ps_label_map s), a mod label_count (ps_label_map s))"
  using assms label_count_pos [OF ps_wfD(7) [OF assms(1)]]
  by (cases "a = 0")
     (simp_all add: DecodeActionWithState_def NumLabels_wf Let_def signed_divide_int_def signed_modulo_int_def
        minus_div_mult_eq_mod)

lemma wrap32_le: "0 \<le> x \<Longrightarrow> wrap32 x \<le> x"
  by (simp add: wrap32_def signed_take_bit_int_less_eq_self_iff)

lemma encode_eq:
  assumes "ps_wf s" and "0 \<le> h" "h < n" "0 \<le> l" "l < label_count (ps_label_map s)"
    and "n * label_count (ps_label_map s) < 2 ^ 31"
  shows "EncodeActionWithState h l s = h * label_count (ps_label_map s) + l"
    and "0 \<le> h * label_count (ps_label_map s) + l"
    and "h * label_count (ps_label_map s) + l < n * label_count (ps_label_map s)"
proof -
  let ?L = "label_count (ps_label_map s)"
  have "0 < ?L" using assms(4,5) by simp
  then have "h * ?L + ?L \<le> n * ?L" using assms(3) by (metis mult_right_mono add1_zle_eq distrib_right less_imp_le mult_1)
  then show b: "h * ?L + l < n * ?L" using assms(5) by simp
  show "0 \<le> h * ?L + l" using assms(2,4) \<open>0 < ?L\<close> by simp
  moreover have "0 \<le> h * ?L" using assms(2) \<open>0 < ?L\<close> by simp
  ultimately have "wrap32 (h * ?L) = h * ?L" "wrap32 (h * ?L + l) = h * ?L + l"
    using b assms(4,6) by (auto intro!: wrap32_id simp: int32_range_def)
  then show "EncodeActionWithState h l s = h * ?L + l" using NumLabels_wf [OF assms(1)] by (simp add: EncodeActionWithState_def)
qed

lemma hl_codes:
  assumes "ps_wf s" and "0 \<le> h" "h < n" "0 \<le> l" "l < label_count (ps_label_map s)"
    and "n * label_count (ps_label_map s) < 2 ^ 31"
  shows "DecodeActionWithState (EncodeActionWithState h l s) s = (h, l)"
  using decode_eq [OF assms(1), of "h * label_count (ps_label_map s) + l"] encode_eq [OF assms] assms(4,5) by simp

subsection \<open>The system as an attachment system\<close>

definition hl_annotated :: "sentence \<Rightarrow> term_frequency_map \<Rightarrow> bool" where
  "hl_annotated d label_map \<longleftrightarrow> well_ranged (heads d) \<and> token_size d * label_count label_map < 2 ^ 31 \<and>
     (\<forall>t \<in> set (sent_token d). 0 \<le> label_index label_map t)"

definition hl_permitted :: "parser_action \<Rightarrow> heads_labels_state \<Rightarrow> bool" where
  "hl_permitted a s \<longleftrightarrow> \<not> EndOfInput s \<and> 0 \<le> a \<and> a < wrap32 (NumTokens s * NumLabels s)"

definition hl_arc :: "parser_action \<Rightarrow> heads_labels_state \<Rightarrow> int \<times> int" where
  "hl_arc a s = (let (h, l) = DecodeActionWithState a s in (if h = ps_next s then -1 else h, l))"

interpretation hl: attachment_system
  hl_IsAllowedAction hl_IsFinalState hl_PerformActionWithoutHistory hl_GetNextGoldAction hl_permitted hl_arc
  "\<lambda>d label_map i. (loop_free_head d i, label_index label_map (sent_token d ! i))" hl_annotated
proof unfold_locales
  fix s :: heads_labels_state and a h
  show "hl_IsFinalState s = Some (EndOfInput s)" by (simp add: hl_IsFinalState_def)
  show "hl_IsAllowedAction a (s\<lparr>ps_history := h\<rparr>) = hl_IsAllowedAction a s"
    by (simp add: hl_IsAllowedAction_def EndOfInput_def NumLabels_def RootLabel_def NumTokens_def)
  show "hl_GetNextGoldAction (s\<lparr>ps_history := h\<rparr>) = hl_GetNextGoldAction s"
    by (simp add: hl_GetNextGoldAction_def EndOfInput_def Next_def GoldHead_def GoldLabel_def GetToken_def RootLabel_def
        EncodeActionWithState_def NumLabels_def)
  assume inv: "attach_inv s"
  have wf: "ps_wf s" "0 \<le> ps_next s" using inv by (auto simp: attach_inv_def)
  have lt: "ps_next s < ps_num_tokens s" if "\<not> EndOfInput s"
    using that ps_wfD(5) [OF wf(1)] by (simp add: EndOfInput_def)
  show allowed: "hl_IsAllowedAction a s = Some (hl_permitted a s)" for a
    by (auto simp: hl_IsAllowedAction_def hl_permitted_def)
  show "ps_next s < ps_num_tokens s" if "hl_permitted a s" using that lt by (simp add: hl_permitted_def)
  show "hl_PerformActionWithoutHistory a s = Some (attach (hl_arc a s) s)" if "hl_permitted a s"
    using that lt attach_arc [OF inv] wf
    by (auto simp: hl_PerformActionWithoutHistory_def allowed hl_permitted_def hl_arc_def split: prod.splits)
  assume lt: "ps_next s < ps_num_tokens s" and ann: "hl_annotated (ps_sentence s) (ps_label_map s)"
  let ?t = "sent_token (ps_sentence s) ! nat (ps_next s)"
  have r: "?t \<in> set (sent_token (ps_sentence s))" "-1 \<le> tok_head ?t" "tok_head ?t < ps_num_tokens s"
    using lt wf ps_wfD(1) [OF wf(1)] well_ranged_token [of "ps_sentence s" "nat (ps_next s)"] ann
    by (auto simp: token_size_def hl_annotated_def)
  let ?h = "if tok_head ?t = -1 then ps_next s else tok_head ?t" and ?l = "label_index (ps_label_map s) ?t"
  have c: "0 \<le> ?h" "?h < ps_num_tokens s" "0 \<le> ?l" "?l < label_count (ps_label_map s)"
      "ps_num_tokens s * label_count (ps_label_map s) < 2 ^ 31"
    using r lt wf ann label_index_range [OF ps_wfD(7) [OF wf(1)]] ps_wfD(1) [OF wf(1)] by (auto simp: hl_annotated_def)
  have n: "0 \<le> ps_num_tokens s * label_count (ps_label_map s)" using c(3,4) ps_wfD(8) [OF wf(1)] by simp
  have "hl_GetNextGoldAction s = Some (EncodeActionWithState ?h ?l s)"
    using lt wf by (simp add: hl_GetNextGoldAction_def EndOfInput_def GoldHead_wf GoldLabel_wf gold_head_of_def gold_label_of_eq)
  moreover have "hl_permitted (EncodeActionWithState ?h ?l s) s"
    using encode_eq [OF wf(1) c] lt wrap32_id [of "ps_num_tokens s * label_count (ps_label_map s)"] n c(5)
    by (simp add: hl_permitted_def EndOfInput_def NumLabels_wf [OF wf(1)] NumTokens_def int32_range_def)
  moreover have "hl_arc (EncodeActionWithState ?h ?l s) s = (loop_free_head (ps_sentence s) (nat (ps_next s)), ?l)"
    using hl_codes [OF wf(1) c] wf(2) by (auto simp: hl_arc_def loop_free_head_def Let_def)
  ultimately show "\<exists>a. hl_GetNextGoldAction s = Some a \<and> hl_permitted a s \<and>
      hl_arc a s = (loop_free_head (ps_sentence s) (nat (ps_next s)), ?l)" by blast
qed

text \<open>
  C31: Every parse of the \<^verbatim>\<open>heads_labels\<close> system is well typed. Whatever allowed actions are taken on a
  new state until it is final, none aborts and every token ends with a head that is the root or
  another token of the sentence and with a label of the label set.
\<close>

theorem heads_labels_typed:
  assumes "tfm_inv label_map" and "new_hl_state sentence label_map = Some s0"
    and "allowed_run hl_IsAllowedAction (PerformAction hl_PerformActionWithoutHistory) s0 acts s"
    and "hl_IsFinalState s = Some True" and "i < length (sent_token sentence)"
  shows "length acts = length (sent_token sentence) \<and>
    (ps_head s ! i = -1 \<or> (0 \<le> ps_head s ! i \<and> ps_head s ! i < token_size sentence \<and> ps_head s ! i \<noteq> int i)) \<and>
    0 \<le> ps_label s ! i \<and> ps_label s ! i < NumLabels s"
proof -
  let ?s0 = "fresh_state sentence (Some ()) label_map"
  note f = attach_inv_fresh [OF assms(1), of sentence "Some ()"]
  have s0: "s0 = ?s0" using assms(2) new_hl_state_eq by simp
  define P where "P d lm k hl \<longleftrightarrow> (fst hl = -1 \<or> (0 \<le> fst hl \<and> fst hl < token_size d \<and> fst hl \<noteq> k)) \<and>
      0 \<le> snd hl \<and> snd hl < label_count lm" for d :: sentence and lm and k :: int and hl :: "int \<times> int"
  have arc: "P (ps_sentence t) (ps_label_map t) (ps_next t) (hl_arc a t)"
    if inv: "attach_inv t" and per: "hl_permitted a t" for t a
  proof -
    have wf: "ps_wf t" using inv by (simp add: attach_inv_def)
    let ?L = "label_count (ps_label_map t)"
    have L: "0 < ?L" using label_count_pos ps_wfD(7) [OF wf] by blast
    have "a < token_size (ps_sentence t) * ?L"
      using per wrap32_le [of "ps_num_tokens t * ?L"] ps_wfD(8) [OF wf] L
      by (simp add: hl_permitted_def NumTokens_def NumLabels_wf [OF wf] ps_wfD(1) [OF wf])
    then have "a div ?L < token_size (ps_sentence t)" using L
      by (smt (verit) minus_mod_eq_div_mult mult_le_cancel_right pos_mod_sign)
    moreover have "0 \<le> a" using per by (simp add: hl_permitted_def)
    ultimately show ?thesis using L
      by (auto simp: P_def hl_arc_def decode_eq [OF wf] pos_imp_zdiv_nonneg_iff)
  qed
  have st: "allowed_run hl_IsAllowedAction (PerformAction hl_PerformActionWithoutHistory) ?s0 acts s" using assms(3) s0 by simp
  have e: "ps_sentence s = sentence" "ps_label_map s = label_map" using hl.orc.recorded_run [OF st f(1)] f(3,4) by auto
  note inv = hl.orc.ts.run_steps [OF st f(1)]
  have "ps_next s = int (length (sent_token sentence))"
    using assms(4) inv ps_wfD(1) [of s] e by (simp add: hl_IsFinalState_def EndOfInput_def attach_inv_def token_size_def)
  then have "P sentence label_map (int i) (ps_head s ! i, ps_label s ! i)"
    using hl.run_arcs [of P, OF arc st f(1)] f(2-4) assms(5) by simp
  moreover have "length acts = length (sent_token sentence)"
    using hl.orc.ts.run_final [OF st f(1)] assms(4) f(2) ps_wfD(1) [of ?s0] f(1,3)
    by (simp add: attach_steps_def attach_inv_def token_size_def)
  ultimately show ?thesis using inv e NumLabels_wf [of s] by (auto simp: P_def attach_inv_def)
qed

theorem heads_labels_typed_witness:
  "\<exists>s. allowed_run hl_IsAllowedAction (PerformAction hl_PerformActionWithoutHistory)
      (fresh_state crossing_four (Some ()) labels_three) [2, 0, 11, 7] s \<and> hl_IsFinalState s = Some True \<and>
    0 \<le> ps_label s ! 3 \<and> ps_label s ! 3 < NumLabels s"
proof -
  let ?s0 = "fresh_state crossing_four (Some ()) labels_three"
  have "\<exists>s. perform_all hl_IsAllowedAction (PerformAction hl_PerformActionWithoutHistory) [2, 0, 11, 7] ?s0 = Some s \<and>
      hl_IsFinalState s = Some True"
  proof -
    have "(perform_all hl_IsAllowedAction (PerformAction hl_PerformActionWithoutHistory) [2, 0, 11, 7] ?s0 \<bind> hl_IsFinalState)
      = Some True" by code_simp
    then show ?thesis by (auto simp: bind_eq_Some_conv)
  qed
  then obtain s where s: "allowed_run hl_IsAllowedAction (PerformAction hl_PerformActionWithoutHistory) ?s0 [2, 0, 11, 7] s"
      "hl_IsFinalState s = Some True" unfolding perform_all_run by blast
  have "(3::nat) < length (sent_token crossing_four)" by code_simp
  from heads_labels_typed [OF labels_three_inv new_hl_state_eq s this] s show ?thesis by blast
qed

text \<open>
  C32: One step for two. On a sentence that the \<^verbatim>\<open>heads\<close> and the \<^verbatim>\<open>labels\<close> systems can reproduce, the
  oracle of the \<^verbatim>\<open>heads_labels\<close> system ends with the heads that the oracle of the \<^verbatim>\<open>heads\<close>
  system computes and the labels that the oracle of the \<^verbatim>\<open>labels\<close> system computes, in the
  same number of actions. The codes must fit 32-bit integers.
\<close>

theorem heads_labels_equivalent:
  assumes "tfm_inv label_map" and "well_ranged (heads sentence)" and "labels_consistent sentence label_map"
    and "token_size sentence * label_count label_map < 2 ^ 31"
  shows "\<exists>s0 s sh sl. s0 = fresh_state sentence (Some ()) label_map \<and>
    new_hl_state sentence label_map = Some s0 \<and> new_heads_state sentence label_map = Some s0 \<and> new_labels_state sentence label_map = Some s0 \<and>
    drive hl_IsFinalState (PerformAction hl_PerformActionWithoutHistory) hl_GetNextGoldAction
      (length (sent_token sentence)) s0 = Some s \<and>
    drive heads_IsFinalState (PerformAction heads_PerformActionWithoutHistory) heads_GetNextGoldAction
      (length (sent_token sentence)) s0 = Some sh \<and>
    drive labels_IsFinalState (PerformAction labels_PerformActionWithoutHistory) labels_GetNextGoldAction
      (length (sent_token sentence)) s0 = Some sl \<and>
    ps_head s = ps_head sh \<and> ps_label s = ps_label sl"
proof -
  let ?s0 = "fresh_state sentence (Some ()) label_map"
  note f = attach_inv_fresh [OF assms(1), of sentence "Some ()"]
  have "hl_annotated sentence label_map" using assms(2-4) by (auto simp: hl_annotated_def labels_consistent_def)
  then show ?thesis
    using hl.attaches_gold [OF f(1,2)] heads.attaches_gold [OF f(1,2)] labels.attaches_gold [OF f(1,2)] assms(2,3) f(3,4)
      new_hl_state_eq new_heads_state_eq new_labels_state_eq by auto
qed

theorem heads_labels_equivalent_witness:
  "\<exists>s0 s sh sl. new_hl_state crossing_four labels_three = Some s0 \<and>
    drive hl_IsFinalState (PerformAction hl_PerformActionWithoutHistory) hl_GetNextGoldAction 4 s0 = Some s \<and>
    drive heads_IsFinalState (PerformAction heads_PerformActionWithoutHistory) heads_GetNextGoldAction 4 s0 = Some sh \<and>
    drive labels_IsFinalState (PerformAction labels_PerformActionWithoutHistory) labels_GetNextGoldAction 4 s0 = Some sl \<and>
    ps_head s = ps_head sh \<and> ps_label s = ps_label sl"
proof -
  have "well_ranged (heads crossing_four)" "labels_consistent crossing_four labels_three"
    "token_size crossing_four * label_count labels_three < 2 ^ 31" "length (sent_token crossing_four) = 4" by code_simp+
  then show ?thesis using heads_labels_equivalent [OF labels_three_inv] by metis
qed

end
