(* ===== verification/Once_Transitions.thy ===== *)
theory Once_Transitions
  imports Transition_Systems
begin

text \<open>
  \<^verbatim>\<open>syntaxnet/once_transitions.cc\<close>: the system that performs exactly one action on a sentence of any
  length. The transition state is the flag \<^verbatim>\<open>done_\<close>.
\<close>

record once_ts =
  once_done :: bool

type_synonym once_state = "once_ts parser_state"

definition new_once_ts :: once_ts where
  "new_once_ts = \<lparr>once_done = False\<rparr>"

definition once_Clone :: "once_ts \<Rightarrow> once_ts" where
  "once_Clone ts = ts"

definition once_Init :: "once_state \<Rightarrow> once_state option" where
  "once_Init s = Some s"

definition once_IsTokenCorrect :: "once_ts \<Rightarrow> once_state \<Rightarrow> int \<Rightarrow> bool option" where
  "once_IsTokenCorrect ts s index = Some True"

definition once_ToString :: "once_ts \<Rightarrow> once_state \<Rightarrow> string option" where
  "once_ToString ts s = Some (''done='' @ (if once_done ts then ''true'' else ''false''))"

definition once_ts_PerformAction :: "once_ts \<Rightarrow> once_ts" where
  "once_ts_PerformAction ts = ts\<lparr>once_done := True\<rparr>"

definition once_NumActions :: "int \<Rightarrow> int" where
  "once_NumActions num_labels = 1"

definition once_GetDefaultAction :: "once_state \<Rightarrow> parser_action option" where
  "once_GetDefaultAction s = Some 0"

definition once_GetNextGoldAction :: "once_state \<Rightarrow> parser_action option" where
  "once_GetNextGoldAction s = once_GetDefaultAction s"

definition once_PerformActionWithoutHistory :: "parser_action \<Rightarrow> once_state \<Rightarrow> once_state option" where
  "once_PerformActionWithoutHistory action s = do {
     ts \<leftarrow> ps_transition_state s;
     Some (s\<lparr>ps_transition_state := Some (once_ts_PerformAction ts)\<rparr>) }"

definition once_IsFinalState :: "once_state \<Rightarrow> bool option" where
  "once_IsFinalState s = do { ts \<leftarrow> ps_transition_state s; Some (once_done ts) }"

definition once_IsAllowedAction :: "parser_action \<Rightarrow> once_state \<Rightarrow> bool option" where
  "once_IsAllowedAction action s =
     (if action = 0 then do { final \<leftarrow> once_IsFinalState s; Some (\<not> final) } else Some False)"

definition once_ActionAsString :: "parser_action \<Rightarrow> once_state \<Rightarrow> string option" where
  "once_ActionAsString action s = Some (''action:'' @ show_int action)"

definition once_IsDeterministicState :: "once_state \<Rightarrow> bool" where
  "once_IsDeterministicState s \<longleftrightarrow> True"

definition new_once_state :: "sentence \<Rightarrow> term_frequency_map \<Rightarrow> once_state option" where
  "new_once_state sentence label_map = ParserState once_Init sentence (Some new_once_ts) label_map"

definition once_steps :: "once_state \<Rightarrow> nat" where
  "once_steps s = (case ps_transition_state s of Some ts \<Rightarrow> if once_done ts then 0 else 1 | None \<Rightarrow> 0)"

interpretation once: oracle_system once_IsAllowedAction once_IsFinalState once_PerformActionWithoutHistory
  "\<lambda>s. ps_transition_state s \<noteq> None" once_steps once_GetNextGoldAction "\<lambda>s. True"
  by unfold_locales
     (auto simp: once_IsAllowedAction_def once_IsFinalState_def once_PerformActionWithoutHistory_def once_steps_def
        once_ts_PerformAction_def once_GetNextGoldAction_def once_GetDefaultAction_def split: if_splits)

text \<open>
  The \<^verbatim>\<open>once\<close> system performs exactly one action: the oracle run from a new state is final after
  one action, and every run of allowed actions to a final state is the single action \<^verbatim>\<open>0\<close>,
  whatever the length of the sentence.
\<close>

theorem once_exactly_once:
  assumes "new_once_state sentence label_map = Some s0"
  shows "(\<exists>s. drive once_IsFinalState (PerformAction once_PerformActionWithoutHistory) once_GetNextGoldAction 1 s0 = Some s) \<and>
    (allowed_run once_IsAllowedAction (PerformAction once_PerformActionWithoutHistory) s0 acts s \<and>
       once_IsFinalState s = Some True \<longrightarrow> acts = [0])"
proof -
  have s0: "ps_transition_state s0 = Some new_once_ts"
    using assms by (auto simp: new_once_state_def ParserState_def once_Init_def fresh_state_def Let_def)
  then have st: "once_steps s0 = 1" by (simp add: once_steps_def new_once_ts_def)
  have "acts = [0]" if r: "allowed_run once_IsAllowedAction (PerformAction once_PerformActionWithoutHistory) s0 acts s"
    and fin: "once_IsFinalState s = Some True"
  proof -
    have "length acts = 1" using once.ts.run_final [OF r] fin s0 st by simp
    then obtain a where a: "acts = [a]" by (auto simp: length_Suc_conv)
    with r have "once_IsAllowedAction a s0 = Some True" by auto
    with a show ?thesis by (simp add: once_IsAllowedAction_def split: if_splits)
  qed
  then show ?thesis using once.gold_run [of s0] s0 st by auto
qed

theorem once_exactly_once_witness:
  "\<exists>s. drive once_IsFinalState (PerformAction once_PerformActionWithoutHistory) once_GetNextGoldAction 1
     (fresh_state three_tokens (Some new_once_ts) empty_tfm) = Some s"
  using once_exactly_once [of three_tokens empty_tfm "fresh_state three_tokens (Some new_once_ts) empty_tfm"]
  by (simp add: new_once_state_def ParserState_def once_Init_def Let_def)

end
