(* ===== verification/Text_Formats.thy ===== *)
theory Text_Formats
  imports Line_Reader Sentence_Model Task_Context
begin

text \<open>
  \<^verbatim>\<open>syntaxnet/text_formats.cc\<close>: the CoNLL format and the tokenized-text format of documents. A format
  reads a record from a stream, converts a key and a record to sentences and a sentence to a
  key and a record. \<open>full_match\<close> stands for \<^verbatim>\<open>RE2::FullMatch\<close> and \<open>print_text\<close> for the protocol
  buffer printer in single-line mode; the presence bit of the field \<^verbatim>\<open>tag\<close>, which the record
  \<open>token\<close> does not keep, is the argument \<open>has_tag\<close> of the one function that reads it.

  Lemmas: a CoNLL sentence in normal form that is converted to a string is read back token by
  token, which gives the law of the locale \<open>document_format\<close> of the theory \<open>Corpus_Reader\<close>.
\<close>

subsection \<open>Records separated by empty lines\<close>

function newline_read_loop :: "string \<Rightarrow> string \<Rightarrow> bool \<Rightarrow> string \<Rightarrow> bool \<times> string \<times> string" where
  "newline_read_loop record line ok stream =
     (if line \<noteq> [] \<and> ok then
        let (ok', line', stream') = ReadLine stream
        in newline_read_loop (record @ line @ [CHR 0x0A]) line' ok' stream'
      else (ok \<or> record \<noteq> [], record, stream))"
  by pat_completeness auto
termination
  by (relation "measure (\<lambda>(record, line, ok, stream). length stream + (if ok then 1 else 0))")
     (auto dest!: ReadLine_measure)

declare newline_read_loop.simps [simp del]

definition DoubleNewlineReadRecord :: "string \<Rightarrow> bool \<times> string \<times> string" where
  "DoubleNewlineReadRecord stream =
     (let (ok, line, stream) = ReadLine stream in newline_read_loop [] line ok stream)"

subsection \<open>CoNLL\<close>

record conll_format =
  join_category_to_pos :: bool
  add_pos_as_attribute :: bool
  serialize_morph_to_pos :: bool

definition conll_Setup :: "task_context \<Rightarrow> conll_format" where
  "conll_Setup c =
     \<lparr>join_category_to_pos = GetBoolParameter c ''join_category_to_pos'',
      add_pos_as_attribute = GetBoolParameter c ''add_pos_as_attribute'',
      serialize_morph_to_pos = GetBoolParameter c ''serialize_morph_to_pos''\<rparr>"

definition UnderscoreIfEmpty :: "string \<Rightarrow> string" where
  "UnderscoreIfEmpty field = (if field = [] then ''_'' else field)"

fun add_attributes :: "string list \<Rightarrow> token_morphology \<Rightarrow> token_morphology" where
  "add_attributes [] morph = morph"
| "add_attributes (a # att_vals) morph =
     (let att_val = SplitOne a (CHR ''='');
          (name, value) = (if length att_val = 2 then (att_val ! 0, att_val ! 1) else (att_val ! 0, ''on''))
      in if value = [] then add_attributes att_vals morph
         else if name \<noteq> [] then add_attributes att_vals (morph @ [(name, value)])
         else add_attributes att_vals morph)"

definition AddMorphAttributes :: "string \<Rightarrow> token \<Rightarrow> token" where
  "AddMorphAttributes attributes t =
     t\<lparr>tok_morphology := add_attributes (Split attributes (CHR ''|'')) (tok_morphology t)\<rparr>"

fun attribute_loop :: "token_morphology \<Rightarrow> string \<Rightarrow> string" where
  "attribute_loop [] attributes = attributes"
| "attribute_loop ((name, value) # rest) attributes =
     (let attributes = (if attributes \<noteq> [] then attributes @ ''|'' else attributes);
          attributes = attributes @ name;
          attributes = (if value \<noteq> ''on'' then attributes @ ''='' @ value else attributes)
      in attribute_loop rest attributes)"

definition GetMorphAttributes :: "token \<Rightarrow> string" where
  "GetMorphAttributes t = (if tok_morphology t = [] then ''_'' else attribute_loop (tok_morphology t) [])"

definition JoinCategoryToPos :: "token \<Rightarrow> token" where
  "JoinCategoryToPos t = t\<lparr>tok_tag := tok_category t @ ''++'' @ tok_tag t, tok_category := []\<rparr>"

text \<open>\<^verbatim>\<open>std::string::find\<close>: the position of the first occurrence.\<close>

fun string_find :: "string \<Rightarrow> string \<Rightarrow> nat option" where
  "string_find [] pat = (if pat = [] then Some 0 else None)"
| "string_find (c # cs) pat =
     (if take (length pat) (c # cs) = pat then Some 0 else map_option Suc (string_find cs pat))"

definition SplitCategoryFromPos :: "token \<Rightarrow> token" where
  "SplitCategoryFromPos t =
     (case string_find (tok_tag t) ''++'' of
        Some pos \<Rightarrow> t\<lparr>tok_category := take pos (tok_tag t), tok_tag := drop (pos + 2) (tok_tag t)\<rparr>
      | None \<Rightarrow> t)"

definition AddPosAsAttribute :: "token \<Rightarrow> token" where
  "AddPosAsAttribute t =
     (if tok_tag t \<noteq> [] then t\<lparr>tok_morphology := tok_morphology t @ [(''fPOS'', tok_tag t)]\<rparr> else t)"

definition RemovePosFromAttributes :: "token \<Rightarrow> token" where
  "RemovePosFromAttributes t =
     (if tok_morphology t \<noteq> [] \<and> fst (last (tok_morphology t)) = ''fPOS''
      then t\<lparr>tok_morphology := butlast (tok_morphology t)\<rparr> else t)"

definition SerializeMorphToPos :: "(token_morphology \<Rightarrow> string) \<Rightarrow> token \<Rightarrow> token" where
  "SerializeMorphToPos print_text t = t\<lparr>tok_tag := print_text (tok_morphology t)\<rparr>"

record conll_acc =
  acc_text :: string
  acc_add_space :: bool
  acc_expected_id :: int
  acc_tokens :: "token list"

definition first_char :: "string \<Rightarrow> char" where
  "first_char s = (case s of [] \<Rightarrow> CHR 0x00 | c # _ \<Rightarrow> c)"

text \<open>The two regular expressions for the lines to skip.\<close>

definition multiword_pattern :: string where
  "multiword_pattern = ''[0-9]+-[0-9]+''"

definition empty_node_pattern :: string where
  "empty_node_pattern = ''[0-9]+'' @ [CHR 0x5C] @ ''.[0-9]+''"

text \<open>The token of a line, from the fields the loop body extracts.\<close>

definition conll_token ::
  "(token_morphology \<Rightarrow> string) \<Rightarrow> conll_format \<Rightarrow> string \<Rightarrow> int \<Rightarrow> int \<Rightarrow> int \<Rightarrow> string \<Rightarrow> string \<Rightarrow> string \<Rightarrow> string \<Rightarrow> token" where
  "conll_token print_text fmt word start stop head tag cpostag label attributes =
     (let t = default_token\<lparr>tok_word := word, tok_start := start, tok_end := stop\<rparr>;
          t = (if head > 0 then set_head (head - 1) t else t);
          t = (if tag \<noteq> [] then t\<lparr>tok_tag := tag\<rparr> else t);
          t = (if cpostag \<noteq> [] then t\<lparr>tok_category := cpostag\<rparr> else t);
          t = (if label \<noteq> [] then t\<lparr>tok_label := label\<rparr> else t);
          t = (if attributes \<noteq> [] then AddMorphAttributes attributes t else t);
          t = (if join_category_to_pos fmt then JoinCategoryToPos t else t);
          t = (if add_pos_as_attribute fmt then AddPosAsAttribute t else t)
      in if serialize_morph_to_pos fmt then SerializeMorphToPos print_text t else t)"

definition conll_line ::
  "(string \<Rightarrow> string \<Rightarrow> bool) \<Rightarrow> (token_morphology \<Rightarrow> string) \<Rightarrow> conll_format \<Rightarrow> string \<Rightarrow> conll_acc \<Rightarrow> conll_acc option" where
  "conll_line full_match print_text fmt line acc =
     (let fields = Split line (CHR 0x09) in
      if fields = [] then Some acc
      else if first_char (fields ! 0) = CHR ''#'' then Some acc
      else if full_match (fields ! 0) multiword_pattern then Some acc
      else if full_match (fields ! 0) empty_node_pattern then Some acc
      else do {
        let fields = take 2 fields @ map (\<lambda>f. if f = ''_'' then [] else f) (drop 2 fields);
        check (length fields \<ge> 8);
        id \<leftarrow> ParseUsing_default (fields ! 0) 0 ParseInt32;
        check (acc_expected_id acc = id);
        let acc = acc\<lparr>acc_expected_id := acc_expected_id acc + 1\<rparr>;
        let word = fields ! 1;
        head \<leftarrow> ParseUsing_default (fields ! 6) 0 ParseInt32;
        let text = (if acc_text acc \<noteq> [] \<and> acc_add_space acc then acc_text acc @ '' '' else acc_text acc);
        let start = int (length text);
        let stop = start + int (length word) - 1;
        misc \<leftarrow> vec_at fields 9;
        let sub_fields = Split misc (CHR ''|'');
        let t = conll_token print_text fmt word start stop head (fields ! 4) (fields ! 3) (fields ! 7) (fields ! 5);
        Some (acc\<lparr>acc_text := text @ word, acc_add_space := \<not> list_ex (\<lambda>s. s = ''SpaceAfter=No'') sub_fields,
          acc_tokens := acc_tokens acc @ [t]\<rparr>) })"

definition conll_ConvertFromString ::
  "(string \<Rightarrow> string \<Rightarrow> bool) \<Rightarrow> (token_morphology \<Rightarrow> string) \<Rightarrow> conll_format \<Rightarrow> string \<Rightarrow> string \<Rightarrow> sentence list option" where
  "conll_ConvertFromString full_match print_text fmt key value = do {
     acc \<leftarrow> foreach (conll_line full_match print_text fmt) (Split value (CHR 0x0A))
       \<lparr>acc_text = [], acc_add_space = True, acc_expected_id = 1, acc_tokens = []\<rparr>;
     Some (if acc_tokens acc \<noteq> []
           then [\<lparr>sent_docid = key, sent_text = acc_text acc, sent_token = acc_tokens acc\<rparr>] else []) }"

definition conll_fields :: "conll_format \<Rightarrow> nat \<Rightarrow> token \<Rightarrow> string list" where
  "conll_fields fmt i t =
     (let t = (if join_category_to_pos fmt then SplitCategoryFromPos t else t);
          t = (if add_pos_as_attribute fmt then RemovePosFromAttributes t else t)
      in [show_int (int i + 1), UnderscoreIfEmpty (tok_word t), ''_'', UnderscoreIfEmpty (tok_category t),
          UnderscoreIfEmpty (tok_tag t), GetMorphAttributes t, show_int (tok_head t + 1),
          UnderscoreIfEmpty (tok_label t), ''_'', ''_''])"

definition conll_ConvertToString :: "conll_format \<Rightarrow> sentence \<Rightarrow> string \<times> string" where
  "conll_ConvertToString fmt s =
     (let lines = map (\<lambda>i. Join (conll_fields fmt i (sent_token s ! i)) [CHR 0x09]) [0..<length (sent_token s)]
      in (sent_docid s, Join lines [CHR 0x0A] @ [CHR 0x0A, CHR 0x0A]))"

subsection \<open>Tokenized text\<close>

fun tokenized_loop :: "string list \<Rightarrow> string \<Rightarrow> token list \<Rightarrow> string \<times> token list" where
  "tokenized_loop [] text tokens = (text, tokens)"
| "tokenized_loop (word # words) text tokens =
     (if word = [] then tokenized_loop words text tokens
      else let start = int (length text);
               stop = start + int (length word) - 1;
               text = (if text \<noteq> [] then text @ '' '' else text);
               text = text @ word
           in tokenized_loop words text
                (tokens @ [default_token\<lparr>tok_word := word, tok_start := start, tok_end := stop\<rparr>]))"

definition tokenized_ConvertFromString :: "string \<Rightarrow> string \<Rightarrow> sentence list" where
  "tokenized_ConvertFromString key value =
     (let (text, tokens) = tokenized_loop (Split value (CHR '' '')) [] []
      in if tokens \<noteq> [] then [\<lparr>sent_docid = key, sent_text = text, sent_token = tokens\<rparr>] else [])"

fun tokenized_print :: "(token \<Rightarrow> bool) \<Rightarrow> token list \<Rightarrow> string \<Rightarrow> string" where
  "tokenized_print has_tag [] value = value"
| "tokenized_print has_tag (t # ts) value =
     (let value = (if value \<noteq> [] then value @ '' '' else value);
          value = value @ tok_word t;
          value = (if has_tag t then value @ ''_'' @ tok_tag t else value);
          value = (case tok_head_opt t of Some h \<Rightarrow> value @ ''_'' @ show_int h | None \<Rightarrow> value)
      in tokenized_print has_tag ts value)"

definition tokenized_ConvertToString :: "(token \<Rightarrow> bool) \<Rightarrow> sentence \<Rightarrow> string \<times> string" where
  "tokenized_ConvertToString has_tag s = (sent_docid s, tokenized_print has_tag (sent_token s) [] @ [CHR 0x0A])"

subsection \<open>Attributes\<close>

definition attribute_ok :: "string \<times> string \<Rightarrow> bool" where
  "attribute_ok a \<longleftrightarrow> fst a \<noteq> [] \<and> snd a \<noteq> [] \<and> CHR ''='' \<notin> set (fst a) \<and>
     CHR ''|'' \<notin> set (fst a) \<and> CHR ''|'' \<notin> set (snd a)"

definition show_attribute :: "string \<times> string \<Rightarrow> string" where
  "show_attribute a = fst a @ (if snd a \<noteq> ''on'' then ''='' @ snd a else [])"

lemma attribute_loop_step:
  "attribute_loop (a # m) [] = attribute_loop m (show_attribute a)"
  "acc \<noteq> [] \<Longrightarrow> attribute_loop (a # m) acc = attribute_loop m (acc @ ''|'' @ show_attribute a)"
  by (cases a, simp add: show_attribute_def Let_def)+

lemma attribute_loop_append:
  "acc \<noteq> [] \<Longrightarrow> attribute_loop m acc = acc @ concat (map (\<lambda>a. ''|'' @ show_attribute a) m)"
proof (induction m arbitrary: acc)
  case (Cons a m)
  show ?case using Cons.IH [of "acc @ ''|'' @ show_attribute a"] attribute_loop_step(2) [OF Cons.prems, of a m] by simp
qed simp

lemma Join_Cons: "Join (x # xs) sep = x @ concat (map (\<lambda>y. sep @ y) xs)"
  by (simp add: Join_def Join_loop_False)

lemma attribute_loop_Join:
  assumes "\<forall>a \<in> set m. attribute_ok a"
  shows "attribute_loop m [] = Join (map show_attribute m) ''|''"
proof (cases m)
  case (Cons a m')
  have "show_attribute a \<noteq> []" using assms Cons by (simp add: show_attribute_def attribute_ok_def)
  from attribute_loop_append [OF this, of m'] show ?thesis
    by (simp only: Cons attribute_loop_step(1) list.map Join_Cons map_map comp_def)
qed simp

lemma SplitOne_free: "d \<notin> set x \<Longrightarrow> SplitOne x d = [x]"
proof -
  assume "d \<notin> set x"
  then have e: "takeWhile (\<lambda>c. c \<noteq> d) x = x" by auto
  show ?thesis unfolding SplitOne_def Let_def e by simp
qed

lemma SplitOne_first: "d \<notin> set x \<Longrightarrow> SplitOne (x @ d # y) d = [x, y]"
proof -
  assume d: "d \<notin> set x"
  then have "takeWhile (\<lambda>c. c \<noteq> d) (x @ d # y) = x" by (subst takeWhile_append2) auto
  then show ?thesis by (simp add: SplitOne_def Let_def)
qed

lemma add_attributes_show:
  "\<forall>a \<in> set m. attribute_ok a \<Longrightarrow> add_attributes (map show_attribute m) acc = acc @ m"
proof (induction m arbitrary: acc)
  case (Cons a m)
  obtain n v where a: "a = (n, v)" by fastforce
  with Cons.prems have ok: "n \<noteq> []" "v \<noteq> []" "CHR ''='' \<notin> set n" by (auto simp: attribute_ok_def)
  have "SplitOne (show_attribute a) (CHR ''='') = (if v = ''on'' then [n] else [n, v])"
    using ok SplitOne_first [OF ok(3), of v] by (simp add: a show_attribute_def SplitOne_free)
  then have "add_attributes (map show_attribute (a # m)) acc = add_attributes (map show_attribute m) (acc @ [a])"
    using ok a by (cases "v = ''on''") (simp_all add: Let_def)
  then show ?case using Cons.IH [of "acc @ [a]"] Cons.prems by simp
qed simp

lemma morph_attributes_roundtrip:
  assumes "\<forall>a \<in> set m. attribute_ok a" and "m \<noteq> []"
  shows "add_attributes (Split (attribute_loop m []) (CHR ''|'')) [] = m"
proof -
  have "map show_attribute m \<noteq> [[]]" using assms by (auto simp: show_attribute_def attribute_ok_def map_eq_Cons_conv)
  moreover have "\<forall>x \<in> set (map show_attribute m). CHR ''|'' \<notin> set x"
    using assms(1) by (auto simp: show_attribute_def attribute_ok_def)
  ultimately show ?thesis
    using Split_Join [of "map show_attribute m"] add_attributes_show [OF assms(1)] by (simp add: attribute_loop_Join [OF assms(1)])
qed

subsection \<open>The options that rewrite tokens\<close>

lemma string_find_Cons:
  "string_find (c # cs) pat = Some pos \<Longrightarrow>
     (pos = 0 \<and> take (length pat) (c # cs) = pat) \<or> (\<exists>p. string_find cs pat = Some p \<and> Suc p = pos)"
  by (simp split: if_split_asm)

lemma string_find_Some: "string_find s pat = Some pos \<Longrightarrow> take pos s @ pat @ drop (pos + length pat) s = s"
proof (induction s arbitrary: pos)
  case (Cons c cs)
  from string_find_Cons [OF Cons.prems] show ?case
  proof (elim disjE exE conjE)
    assume "pos = 0" and t: "take (length pat) (c # cs) = pat"
    moreover have "take (length pat) (c # cs) @ drop (length pat) (c # cs) = c # cs" by (rule append_take_drop_id)
    ultimately show ?thesis by (simp only: take_0 append_Nil add_0)
  next
    fix p assume p: "string_find cs pat = Some p" "Suc p = pos"
    show ?thesis unfolding p(2) [symmetric] using Cons.IH [OF p(1)] by simp
  qed
qed (simp split: if_split_asm)

definition conll_in :: "conll_format \<Rightarrow> token \<Rightarrow> token" where
  "conll_in fmt t =
     (let t = (if join_category_to_pos fmt then JoinCategoryToPos t else t)
      in if add_pos_as_attribute fmt then AddPosAsAttribute t else t)"

definition conll_out :: "conll_format \<Rightarrow> token \<Rightarrow> token" where
  "conll_out fmt t =
     (let t = (if join_category_to_pos fmt then SplitCategoryFromPos t else t)
      in if add_pos_as_attribute fmt then RemovePosFromAttributes t else t)"

text \<open>Tokens in the form that reading with the options produces.\<close>

definition options_ok :: "conll_format \<Rightarrow> token \<Rightarrow> bool" where
  "options_ok fmt t \<longleftrightarrow> \<not> serialize_morph_to_pos fmt \<and>
     (join_category_to_pos fmt \<longrightarrow> tok_category t = [] \<and> string_find (tok_tag t) ''++'' \<noteq> None) \<and>
     (add_pos_as_attribute fmt \<longrightarrow> (if tok_tag t \<noteq> [] then tok_morphology t \<noteq> [] \<and> last (tok_morphology t) = (''fPOS'', tok_tag t)
        else tok_morphology t \<noteq> [] \<longrightarrow> fst (last (tok_morphology t)) \<noteq> ''fPOS''))"

lemma conll_in_out: "options_ok fmt t \<Longrightarrow> conll_in fmt (conll_out fmt t) = t"
proof -
  assume ok: "options_ok fmt t"
  let ?u = "if join_category_to_pos fmt then SplitCategoryFromPos t else t"
  have u: "tok_morphology ?u = tok_morphology t"
    "(SplitCategoryFromPos t)\<lparr>tok_morphology := m\<rparr> = SplitCategoryFromPos (t\<lparr>tok_morphology := m\<rparr>)" for m
    by (auto simp: SplitCategoryFromPos_def split: option.splits)
  have j: "JoinCategoryToPos (SplitCategoryFromPos s) = s" if "tok_category s = []" "string_find (tok_tag s) ''++'' \<noteq> None" for s
    using that string_find_Some [of "tok_tag s" "''++''"]
    by (auto simp: JoinCategoryToPos_def SplitCategoryFromPos_def intro!: token.equality split: option.splits)
  show ?thesis
  proof (cases "add_pos_as_attribute fmt")
    case False
    then show ?thesis using ok j [of t] by (auto simp: conll_in_def conll_out_def options_ok_def)
  next
    case True
    show ?thesis
    proof (cases "tok_tag t = []")
      case e: True
      then have "\<not> join_category_to_pos fmt" using ok by (auto simp: options_ok_def)
      then show ?thesis using ok True e by (auto simp: conll_in_def conll_out_def options_ok_def RemovePosFromAttributes_def AddPosAsAttribute_def)
    next
      case n: False
      let ?m = "butlast (tok_morphology t)"
      have l: "tok_morphology t = ?m @ [(''fPOS'', tok_tag t)]"
        using ok True n append_butlast_last_id [of "tok_morphology t"] by (auto simp: options_ok_def)
      have "conll_out fmt t = ?u\<lparr>tok_morphology := ?m\<rparr>"
        using True ok n u(1) by (auto simp: conll_out_def RemovePosFromAttributes_def options_ok_def Let_def)
      moreover have "(if join_category_to_pos fmt then JoinCategoryToPos (?u\<lparr>tok_morphology := ?m\<rparr>) else ?u\<lparr>tok_morphology := ?m\<rparr>)
          = t\<lparr>tok_morphology := ?m\<rparr>"
        using ok j [of "t\<lparr>tok_morphology := ?m\<rparr>"] by (auto simp: u(2) options_ok_def)
      ultimately have "conll_in fmt (conll_out fmt t) = AddPosAsAttribute (t\<lparr>tok_morphology := ?m\<rparr>)"
        using True by (simp add: conll_in_def)
      also have "\<dots> = t" using n l by (simp add: AddPosAsAttribute_def)
      finally show ?thesis .
    qed
  qed
qed

subsection \<open>Lines\<close>

definition clean :: "string \<Rightarrow> bool" where
  "clean s \<longleftrightarrow> CHR 0x09 \<notin> set s \<and> line_safe s"

text \<open>The tokens that a line can hold.\<close>

definition token_ok :: "token \<Rightarrow> bool" where
  "token_ok t \<longleftrightarrow> tok_word t \<noteq> [] \<and> clean (tok_word t) \<and>
     (\<forall>f \<in> {tok_category t, tok_tag t, tok_label t}. clean f \<and> f \<noteq> ''_'') \<and>
     (\<forall>a \<in> set (tok_morphology t). attribute_ok a \<and> clean (fst a) \<and> clean (snd a)) \<and>
     tok_morphology t \<noteq> [(''_'', ''on'')] \<and>
     -1 \<le> tok_head t \<and> tok_head t < 2 ^ 31 - 1 \<and> tok_head_opt t \<noteq> Some (-1) \<and> tok_break_level t = SPACE_BREAK"

text \<open>What the code relies on of \<^verbatim>\<open>RE2::FullMatch\<close>.\<close>

definition digit_string :: "string \<Rightarrow> bool" where
  "digit_string s \<longleftrightarrow> s \<noteq> [] \<and> (\<forall>c \<in> set s. 48 \<le> byte c \<and> byte c \<le> 57)"

definition matches_conll_ids :: "(string \<Rightarrow> string \<Rightarrow> bool) \<Rightarrow> bool" where
  "matches_conll_ids full_match \<longleftrightarrow> (\<forall>s.
     (full_match s multiword_pattern \<longleftrightarrow> (\<exists>a b. s = a @ ''-'' @ b \<and> digit_string a \<and> digit_string b)) \<and>
     (full_match s empty_node_pattern \<longleftrightarrow> (\<exists>a b. s = a @ ''.'' @ b \<and> digit_string a \<and> digit_string b)))"

lemma show_nonneg:
  assumes "0 \<le> i" and "c \<in> set (show_int i)"
  shows "48 \<le> byte c" and "byte c \<le> 57"
  using assms show_nat_digits [of c "nat i"] by (auto simp: show_int_def)

lemma clean_show_int: "0 \<le> i \<Longrightarrow> clean (show_int i)"
  using show_nonneg(1) [of i] by (fastforce simp: clean_def line_safe_def)

lemma id_not_skipped:
  assumes "0 \<le> i"
  shows "first_char (show_int i) \<noteq> CHR ''#''" and "CHR ''-'' \<notin> set (show_int i)" and "CHR ''.'' \<notin> set (show_int i)"
proof -
  obtain c cs where s: "show_int i = c # cs" using assms by (meson neq_Nil_conv show_int_nonempty)
  then show "first_char (show_int i) \<noteq> CHR ''#''" using show_nonneg(1) [OF assms, of c] by (auto simp: first_char_def)
  show "CHR ''-'' \<notin> set (show_int i)" "CHR ''.'' \<notin> set (show_int i)" using show_nonneg(1) [OF assms] by fastforce+
qed

lemma clean_simps [simp]: "clean []" "clean (xs @ ys) \<longleftrightarrow> clean xs \<and> clean ys"
  "clean (c # xs) \<longleftrightarrow> c \<noteq> CHR 0x09 \<and> c \<noteq> CHR 0x0A \<and> c \<noteq> CHR 0x0D \<and> clean xs"
  by (auto simp: clean_def)

lemma clean_UnderscoreIfEmpty: "clean s \<Longrightarrow> clean (UnderscoreIfEmpty s)"
  by (simp add: UnderscoreIfEmpty_def)

lemma clean_attributes:
  assumes "\<forall>a \<in> set (tok_morphology t). attribute_ok a \<and> clean (fst a) \<and> clean (snd a)"
  shows "clean (GetMorphAttributes t)"
proof -
  have "clean (Join xs ''|'')" if "\<forall>x \<in> set xs. clean x" for xs
  proof (cases xs)
    case (Cons x ys)
    have "clean (concat (map (\<lambda>y. ''|'' @ y) zs))" if "\<forall>x \<in> set zs. clean x" for zs using that by (induction zs) auto
    then show ?thesis using that Cons by (simp add: Join_Cons)
  qed simp
  then show ?thesis using assms attribute_loop_Join [of "tok_morphology t"]
    by (auto simp: GetMorphAttributes_def show_attribute_def)
qed

lemma conll_fields_clean:
  assumes "token_ok (conll_out fmt t)" and "f \<in> set (conll_fields fmt i t)"
  shows "clean f"
proof -
  let ?u = "conll_out fmt t"
  have "clean (GetMorphAttributes ?u)" using assms(1) clean_attributes by (simp add: token_ok_def)
  moreover have "clean (show_int (tok_head ?u + 1))" "clean (show_int (int i + 1))"
    using assms(1) by (auto simp: token_ok_def intro!: clean_show_int)
  ultimately show ?thesis using assms clean_UnderscoreIfEmpty
    by (auto simp: conll_fields_def conll_out_def token_ok_def Let_def)
qed

lemma Split_conll_fields:
  assumes "token_ok (conll_out fmt t)"
  shows "Split (Join (conll_fields fmt i t) [CHR 0x09]) (CHR 0x09) = conll_fields fmt i t"
proof (rule Split_Join)
  show "conll_fields fmt i t \<noteq> [[]]" by (simp add: conll_fields_def Let_def)
  show "\<forall>x \<in> set (conll_fields fmt i t). CHR 0x09 \<notin> set x" using conll_fields_clean [OF assms] by (auto simp: clean_def)
qed

lemma attributes_field:
  assumes "token_ok t"
  shows "tok_morphology t = [] \<longleftrightarrow> GetMorphAttributes t = ''_''" and "GetMorphAttributes t \<noteq> []"
proof -
  let ?m = "tok_morphology t"
  have ok: "\<forall>a \<in> set ?m. attribute_ok a" "?m \<noteq> [(''_'', ''on'')]" using assms by (auto simp: token_ok_def)
  have r: "add_attributes (Split (attribute_loop ?m []) (CHR ''|'')) [] = ?m" if "?m \<noteq> []"
    using morph_attributes_roundtrip [OF ok(1) that] .
  have u: "add_attributes (Split ''_'' (CHR ''|'')) [] = [(''_'', ''on'')]" "add_attributes (Split [] (CHR ''|'')) [] = []" by code_simp+
  show "?m = [] \<longleftrightarrow> GetMorphAttributes t = ''_''" using r u ok(2) by (auto simp: GetMorphAttributes_def)
  show "GetMorphAttributes t \<noteq> []" using r u by (auto simp: GetMorphAttributes_def)
qed

subsection \<open>Written tokens are read back\<close>

lemma conll_token_written:
  assumes ok: "token_ok u" and ser: "\<not> serialize_morph_to_pos fmt"
  shows "conll_token print_text fmt (tok_word u) st sp (tok_head u + 1) (tok_tag u) (tok_category u) (tok_label u)
      (if tok_morphology u = [] then [] else GetMorphAttributes u)
    = conll_in fmt (u\<lparr>tok_start := st, tok_end := sp\<rparr>)"
proof -
  have m: "tok_morphology u \<noteq> [] \<Longrightarrow> add_attributes (Split (GetMorphAttributes u) (CHR ''|'')) [] = tok_morphology u"
    using ok morph_attributes_roundtrip [of "tok_morphology u"] by (simp add: token_ok_def GetMorphAttributes_def)
  have h: "tok_head_opt u = (if 0 < tok_head u + 1 then Some (tok_head u) else None)"
    using ok by (cases "tok_head_opt u") (auto simp: token_ok_def tok_head_def)
  let ?base = "\<lparr>tok_word = tok_word u, tok_start = st, tok_end = sp,
      tok_head_opt = (if 0 < tok_head u + 1 then Some (tok_head u) else None), tok_tag = tok_tag u,
      tok_category = tok_category u, tok_label = tok_label u, tok_break_level = SPACE_BREAK, tok_morphology = tok_morphology u\<rparr>"
  have "conll_token print_text fmt (tok_word u) st sp (tok_head u + 1) (tok_tag u) (tok_category u) (tok_label u)
      (if tok_morphology u = [] then [] else GetMorphAttributes u) = conll_in fmt ?base"
    using ser m attributes_field(2) [OF ok]
    by (cases "tok_morphology u = []"; cases "tok_tag u = []"; cases "tok_category u = []"; cases "tok_label u = []")
       (simp_all add: conll_token_def conll_in_def default_token_def set_head_def AddMorphAttributes_def Let_def)
  also have "?base = u\<lparr>tok_start := st, tok_end := sp\<rparr>"
    using ok h by (intro token.equality) (auto simp: token_ok_def)
  finally show ?thesis .
qed

lemma conll_in_moved:
  assumes "options_ok fmt t"
  shows "conll_in fmt ((conll_out fmt t)\<lparr>tok_start := st, tok_end := sp\<rparr>) = t\<lparr>tok_start := st, tok_end := sp\<rparr>"
proof -
  have "(conll_out fmt t)\<lparr>tok_start := st, tok_end := sp\<rparr> = conll_out fmt (t\<lparr>tok_start := st, tok_end := sp\<rparr>)"
    by (auto simp: conll_out_def SplitCategoryFromPos_def RemovePosFromAttributes_def Let_def split: option.splits)
  then show ?thesis using conll_in_out [of fmt "t\<lparr>tok_start := st, tok_end := sp\<rparr>"] assms by (simp add: options_ok_def)
qed

lemma full_match_id:
  assumes "matches_conll_ids full_match" and "0 \<le> i"
  shows "\<not> full_match (show_int i) multiword_pattern" and "\<not> full_match (show_int i) empty_node_pattern"
proof -
  have "show_int i \<noteq> a @ ''-'' @ b" "show_int i \<noteq> a @ ''.'' @ b" for a b
    using id_not_skipped(2,3) [OF assms(2)] by (metis append_Cons in_set_conv_decomp)+
  then show "\<not> full_match (show_int i) multiword_pattern" "\<not> full_match (show_int i) empty_node_pattern"
    using assms(1) unfolding matches_conll_ids_def by blast+
qed

definition next_text :: "string \<Rightarrow> string" where
  "next_text text = (if text \<noteq> [] then text @ '' '' else text)"

lemma tok_word_conll_out [simp]: "tok_word (conll_out fmt t) = tok_word t"
  by (auto simp: conll_out_def SplitCategoryFromPos_def RemovePosFromAttributes_def Let_def split: option.splits)

lemma conll_fields_out:
  "conll_fields fmt i t = [show_int (int i + 1), UnderscoreIfEmpty (tok_word t), ''_'', UnderscoreIfEmpty (tok_category (conll_out fmt t)),
     UnderscoreIfEmpty (tok_tag (conll_out fmt t)), GetMorphAttributes (conll_out fmt t), show_int (tok_head (conll_out fmt t) + 1),
     UnderscoreIfEmpty (tok_label (conll_out fmt t)), ''_'', ''_'']"
  using tok_word_conll_out [of fmt t] by (simp only: conll_fields_def conll_out_def Let_def)

lemma erase_underscore: "f \<noteq> ''_'' \<Longrightarrow> (if UnderscoreIfEmpty f = ''_'' then [] else UnderscoreIfEmpty f) = f"
  by (simp add: UnderscoreIfEmpty_def)

lemma show_int_not_underscore: "0 \<le> i \<Longrightarrow> show_int i \<noteq> ''_''"
  using show_nonneg(2) [of i "CHR ''_''"] by auto

lemma parse_id: "int32_range i \<Longrightarrow> ParseUsing_default (show_int i) 0 ParseInt32 = Some i"
  by (simp add: ParseUsing_default_def ParseUsing_def ParseInt32_show_int)

lemma conll_line_written:
  assumes m: "matches_conll_ids full_match" and o: "options_ok fmt t" and ok: "token_ok (conll_out fmt t)"
    and i: "acc_expected_id acc = int i + 1" "int i + 1 < 2 ^ 31" and sp: "acc_add_space acc"
  shows "conll_line full_match print_text fmt (Join (conll_fields fmt i t) [CHR 0x09]) acc =
    Some (acc\<lparr>acc_text := next_text (acc_text acc) @ tok_word t, acc_expected_id := int i + 2,
      acc_tokens := acc_tokens acc @ [t\<lparr>tok_start := int (length (next_text (acc_text acc))),
        tok_end := int (length (next_text (acc_text acc))) + int (length (tok_word t)) - 1\<rparr>]\<rparr>)"
proof -
  let ?u = "conll_out fmt t" and ?erase = "\<lambda>f. if f = ''_'' then [] else f" and ?text = "next_text (acc_text acc)"
  have w: "UnderscoreIfEmpty (tok_word t) = tok_word t" using ok by (simp add: UnderscoreIfEmpty_def token_ok_def)
  have h: "0 \<le> tok_head ?u + 1" "int32_range (tok_head ?u + 1)" "int32_range (int i + 1)"
    using ok i(2) by (auto simp: token_ok_def int32_range_def)
  let ?id = "show_int (int i + 1)" and ?hd = "show_int (tok_head ?u + 1)"
    and ?at = "if tok_morphology ?u = [] then [] else GetMorphAttributes ?u"
  have e: "map ?erase (drop 2 (conll_fields fmt i t)) =
      [[], tok_category ?u, tok_tag ?u, ?at, ?hd, tok_label ?u, [], []]"
    using ok attributes_field(1) [OF ok] show_int_not_underscore [OF h(1)]
    by (simp add: conll_fields_out UnderscoreIfEmpty_def token_ok_def)
  have t: "take 2 (conll_fields fmt i t) = [?id, tok_word t]" using w by (simp add: conll_fields_out)
  have n: "conll_fields fmt i t \<noteq> []" "conll_fields fmt i t ! 0 = ?id" by (simp_all add: conll_fields_out)
  have tok: "conll_token print_text fmt (tok_word t) st sp (tok_head ?u + 1) (tok_tag ?u) (tok_category ?u) (tok_label ?u) ?at
      = t\<lparr>tok_start := st, tok_end := sp\<rparr>" for st sp
    using conll_token_written [OF ok, of fmt print_text st sp] conll_in_moved [OF o] o by (simp add: options_ok_def)
  have misc: "Split [] (CHR ''|'') = []" by code_simp
  show ?thesis
    unfolding conll_line_def Split_conll_fields [OF ok] Let_def e t n(2)
    using n(1) id_not_skipped(1) [of "int i + 1"] full_match_id [OF m, of "int i + 1"] parse_id [OF h(2)] parse_id [OF h(3)] i(1) tok sp
    by (auto simp: vec_at_def misc next_text_def intro!: conll_acc.equality)
qed

text \<open>Sentences whose text is their words joined by single spaces, with the offsets set accordingly.\<close>

fun laid_out :: "string \<Rightarrow> token list \<Rightarrow> string \<Rightarrow> bool" where
  "laid_out text [] full \<longleftrightarrow> full = text"
| "laid_out text (t # ts) full \<longleftrightarrow>
     tok_start t = int (length (next_text text)) \<and>
     tok_end t = int (length (next_text text)) + int (length (tok_word t)) - 1 \<and>
     laid_out (next_text text @ tok_word t) ts full"

definition conll_sentence :: "conll_format \<Rightarrow> sentence \<Rightarrow> bool" where
  "conll_sentence fmt s \<longleftrightarrow> sent_token s \<noteq> [] \<and> length (sent_token s) < 2 ^ 31 \<and>
     list_all (\<lambda>t. options_ok fmt t \<and> token_ok (conll_out fmt t)) (sent_token s) \<and> laid_out [] (sent_token s) (sent_text s)"

definition conll_lines :: "conll_format \<Rightarrow> nat \<Rightarrow> token list \<Rightarrow> string list" where
  "conll_lines fmt k ts = map (\<lambda>i. Join (conll_fields fmt (k + i) (ts ! i)) [CHR 0x09]) [0..<length ts]"

lemma conll_lines_Cons: "conll_lines fmt k (t # ts) = Join (conll_fields fmt k t) [CHR 0x09] # conll_lines fmt (Suc k) ts"
  unfolding conll_lines_def by (simp add: upt_conv_Cons del: upt_Suc) (simp add: map_Suc_upt [symmetric] comp_def del: upt_Suc)

lemma read_conll_lines:
  assumes "matches_conll_ids full_match"
    and "list_all (\<lambda>t. options_ok fmt t \<and> token_ok (conll_out fmt t)) ts"
    and "laid_out (acc_text acc) ts full" and "acc_expected_id acc = int k + 1" and "int k + int (length ts) < 2 ^ 31" and "acc_add_space acc"
  shows "foreach (conll_line full_match print_text fmt) (conll_lines fmt k ts) acc =
    Some (acc\<lparr>acc_text := full, acc_expected_id := int (k + length ts) + 1, acc_tokens := acc_tokens acc @ ts\<rparr>)"
  using assms(2-)
proof (induction ts arbitrary: k acc)
  case Nil
  then show ?case by (simp add: conll_lines_def)
next
  case (Cons t ts)
  let ?acc = "acc\<lparr>acc_text := next_text (acc_text acc) @ tok_word t, acc_expected_id := int k + 2, acc_tokens := acc_tokens acc @ [t]\<rparr>"
  have m: "t\<lparr>tok_start := int (length (next_text (acc_text acc))),
        tok_end := int (length (next_text (acc_text acc))) + int (length (tok_word t)) - 1\<rparr> = t"
    using Cons.prems(2) by (intro token.equality) simp_all
  have "conll_line full_match print_text fmt (Join (conll_fields fmt k t) [CHR 0x09]) acc = Some ?acc"
    using conll_line_written [OF assms(1), of fmt t acc k] Cons.prems m by simp
  moreover have "foreach (conll_line full_match print_text fmt) (conll_lines fmt (Suc k) ts) ?acc =
      Some (?acc\<lparr>acc_text := full, acc_expected_id := int (Suc k + length ts) + 1, acc_tokens := acc_tokens ?acc @ ts\<rparr>)"
    using Cons.prems by (intro Cons.IH) simp_all
  ultimately show ?case by (simp add: conll_lines_Cons)
qed

lemma line_safe_conll_lines:
  assumes "list_all (\<lambda>t. options_ok fmt t \<and> token_ok (conll_out fmt t)) ts" and "l \<in> set (conll_lines fmt k ts)"
  shows "line_safe l" and "l \<noteq> []"
proof -
  from assms(2) obtain i where i: "i < length ts" "l = Join (conll_fields fmt (k + i) (ts ! i)) [CHR 0x09]"
    by (auto simp: conll_lines_def)
  have c: "token_ok (conll_out fmt (ts ! i))" using assms(1) i(1) by (simp add: list_all_length)
  show "line_safe l" using conll_fields_clean [OF c, of _ "k + i"] unfolding i(2) conll_fields_out Join_Cons
    by (simp add: clean_def)
  show "l \<noteq> []" by (simp add: i(2) conll_fields_out Join_Cons)
qed

subsection \<open>Written records are read back\<close>

definition line_block :: "string list \<Rightarrow> string" where
  "line_block ls = concat (map (\<lambda>l. l @ [CHR 0x0A]) ls)"

lemma line_block_simps [simp]:
  "line_block [] = []" "line_block (l # ls) = l @ CHR 0x0A # line_block ls"
  by (simp_all add: line_block_def)

lemma line_block_Join: "line_block ls = Join (ls @ [[]]) [CHR 0x0A]"
proof (cases ls)
  case (Cons l ls')
  have "CHR 0x0A # line_block xs = concat (map (\<lambda>y. [CHR 0x0A] @ y) (xs @ [[]]))" for xs by (induction xs) simp_all
  then show ?thesis by (simp add: Cons Join_Cons)
qed simp

lemma Join_newline: "ls \<noteq> [] \<Longrightarrow> Join ls [CHR 0x0A] @ [CHR 0x0A] = line_block ls"
proof (induction ls rule: induct_list012)
  case (3 x y zs)
  then show ?case by (simp add: Join_Cons)
qed simp_all

lemma conll_record: "sent_token s \<noteq> [] \<Longrightarrow>
  conll_ConvertToString fmt s = (sent_docid s, line_block (conll_lines fmt 0 (sent_token s)) @ [CHR 0x0A])"
proof -
  assume ne: "sent_token s \<noteq> []"
  have "map (\<lambda>i. Join (conll_fields fmt i (sent_token s ! i)) [CHR 0x09]) [0..<length (sent_token s)] = conll_lines fmt 0 (sent_token s)"
    by (simp add: conll_lines_def)
  moreover have "conll_lines fmt 0 (sent_token s) \<noteq> []" using ne by (simp add: conll_lines_def)
  ultimately show ?thesis using Join_newline [of "conll_lines fmt 0 (sent_token s)"]
    by (simp add: conll_ConvertToString_def)
qed

lemma newline_read_block:
  assumes "\<forall>l \<in> set (line # ls). line_safe l \<and> l \<noteq> []"
  shows "newline_read_loop rec line True (line_block ls @ CHR 0x0A # rest) = (True, rec @ line_block (line # ls), rest)"
  using assms
proof (induction ls arbitrary: rec line)
  case Nil
  have "ReadLine (CHR 0x0A # rest) = (True, [], rest)" using ReadLine_line [of "[]" rest] by simp
  with Nil show ?case by (subst newline_read_loop.simps) (simp add: newline_read_loop.simps [of _ "[]"])
next
  case (Cons l ls)
  have "ReadLine (line_block (l # ls) @ CHR 0x0A # rest) = (True, l, line_block ls @ CHR 0x0A # rest)"
    using ReadLine_line [of l "line_block ls @ CHR 0x0A # rest"] Cons.prems by simp
  with Cons show ?case by (subst newline_read_loop.simps) simp
qed

lemma DoubleNewlineReadRecord_block:
  assumes "\<forall>l \<in> set ls. line_safe l \<and> l \<noteq> []" and "ls \<noteq> []"
  shows "DoubleNewlineReadRecord (line_block ls @ CHR 0x0A # rest) = (True, line_block ls, rest)"
proof -
  obtain l ls' where ls: "ls = l # ls'" using assms(2) by (cases ls) auto
  have "ReadLine (line_block ls @ CHR 0x0A # rest) = (True, l, line_block ls' @ CHR 0x0A # rest)"
    using ReadLine_line [of l "line_block ls' @ CHR 0x0A # rest"] assms(1) by (simp add: ls)
  then show ?thesis using newline_read_block [of l ls' "[]" rest] assms(1) by (simp add: DoubleNewlineReadRecord_def ls)
qed

lemma conll_line_empty: "conll_line full_match print_text fmt [] acc = Some acc"
proof -
  have e: "Split [] (CHR 0x09) = []" by code_simp
  show ?thesis unfolding conll_line_def e by simp
qed

text \<open>A sentence in normal form that is converted to a string and read again as a record is the
  same sentence, with the key as its document id; the rest of the stream is left.\<close>

lemma conll_record_back:
  assumes "conll_sentence fmt s" and "matches_conll_ids full_match"
  shows "\<exists>record. DoubleNewlineReadRecord (snd (conll_ConvertToString fmt s) @ rest) = (True, record, rest) \<and>
    conll_ConvertFromString full_match print_text fmt key record = Some [s\<lparr>sent_docid := key\<rparr>]"
proof (intro exI conjI)
  let ?ls = "conll_lines fmt 0 (sent_token s)"
  have ok: "sent_token s \<noteq> []" "length (sent_token s) < 2 ^ 31"
      "list_all (\<lambda>t. options_ok fmt t \<and> token_ok (conll_out fmt t)) (sent_token s)" "laid_out [] (sent_token s) (sent_text s)"
    using assms(1) by (simp_all add: conll_sentence_def)
  have ls: "\<forall>l \<in> set ?ls. line_safe l \<and> l \<noteq> []" "?ls \<noteq> []"
    using line_safe_conll_lines [OF ok(3)] ok(1) by (blast, simp add: conll_lines_def)
  show "DoubleNewlineReadRecord (snd (conll_ConvertToString fmt s) @ rest) = (True, line_block ?ls, rest)"
    using DoubleNewlineReadRecord_block [OF ls, of rest] by (simp add: conll_record [OF ok(1)])
  have split: "Split (line_block ?ls) (CHR 0x0A) = ?ls @ [[]]"
    unfolding line_block_Join using ls by (intro Split_Join) (auto simp: line_safe_def)
  show "conll_ConvertFromString full_match print_text fmt key (line_block ?ls) = Some [s\<lparr>sent_docid := key\<rparr>]"
    unfolding conll_ConvertFromString_def split
    using read_conll_lines [OF assms(2) ok(3), where k = 0] ok
    by (auto simp: foreach_append conll_line_empty intro!: sentence.equality)
qed

end
