(* ===== verification/Corpus_Reader.thy ===== *)
theory Corpus_Reader
  imports Text_Formats
begin

text \<open>
  Reading and writing corpora: \<^verbatim>\<open>TextReader\<close> and \<^verbatim>\<open>TextWriter\<close> of \<^verbatim>\<open>syntaxnet/proto_io.h\<close> and
  \<^verbatim>\<open>syntaxnet/sentence_batch.{h,cc}\<close>. The virtual functions of \<^verbatim>\<open>DocumentFormat\<close> that the two classes
  call are the record \<open>document_format\<close>; the parameter \<open>open_file\<close> gives the bytes of a file, or
  \<open>None\<close> when it cannot be opened. The file name \<^verbatim>\<open>-\<close> is standard input: \<open>open_file ''-''\<close> is what is
  still to come on it, the class \<^verbatim>\<open>StdIn\<close> delivers it line by line, and \<open>Reset\<close> cannot start it again but
  goes on behind the lines already read (lines longer than the buffer of 8192 bytes, for which
  \<^verbatim>\<open>StdIn\<close> writes behind its scratch space, have no defined behaviour). A counter that leaves the range of \<^verbatim>\<open>int\<close> has no defined
  behaviour and is the result \<open>None\<close>. The loop that skips records without a sentence is a
  partial function, because a format could return records for ever; the laws of the locale
  \<open>corpus_format\<close> exclude that, and are proved for the CoNLL format.

  Lemmas: a corpus written with \<open>TextWriter\<close> is read back sentence by sentence, whichever slots of
  a \<open>SentenceBatch\<close> ask for them, and the count of the batch is the number of its sentences.
\<close>

record document_format =
  df_ReadRecord :: "string \<Rightarrow> bool \<times> string \<times> string"
  df_ConvertFromString :: "string \<Rightarrow> string \<Rightarrow> sentence list option"
  df_ConvertToString :: "sentence \<Rightarrow> string \<times> string"

subsection \<open>Reader and writer\<close>

record text_reader =
  tr_filename :: string
  tr_sentence_count :: int
  tr_buffer :: string

text \<open>What \<^verbatim>\<open>StdIn\<close> makes of the bytes of standard input: every \<open>Read\<close> appends the next line and a
  newline, also when the last line has none, and an empty line when the input has ended.\<close>

definition stdin_stream :: "string \<Rightarrow> string" where
  "stdin_stream bytes =
     bytes @ (if bytes \<noteq> [] \<and> last bytes \<noteq> CHR 0x0A then [CHR 0x0A] else []) @ [CHR 0x0A]"

text \<open>A new \<^verbatim>\<open>StdIn\<close> takes the lines that its predecessor has not taken, and when the input had ended
  before it delivers the empty line once more.\<close>

definition tr_Reset :: "(string \<Rightarrow> string option) \<Rightarrow> text_reader \<Rightarrow> text_reader option" where
  "tr_Reset open_file r =
     (if tr_filename r = ''-'' then
        Some (r\<lparr>tr_sentence_count := 0, tr_buffer := (if tr_buffer r = [] then stdin_stream [] else tr_buffer r)\<rparr>)
      else do {
        bytes \<leftarrow> open_file (tr_filename r);
        Some (r\<lparr>tr_sentence_count := 0, tr_buffer := bytes\<rparr>) })"

definition new_TextReader :: "(string \<Rightarrow> string option) \<Rightarrow> task_input \<Rightarrow> text_reader option" where
  "new_TextReader open_file input = do {
     check (length (input_record_format input) = 1);
     check (length (input_part input) = 1);
     filename \<leftarrow> InputFile input;
     let cin = (if filename = ''-'' then stdin_stream (case open_file ''-'' of None \<Rightarrow> [] | Some bytes \<Rightarrow> bytes) else []);
     tr_Reset open_file \<lparr>tr_filename = filename, tr_sentence_count = 0, tr_buffer = cin\<rparr> }"

partial_function (option) tr_Read_loop ::
  "document_format \<Rightarrow> string \<Rightarrow> string \<Rightarrow> (sentence list \<times> string) option" where
  "tr_Read_loop fmt key stream =
     (let (ok, value, stream') = df_ReadRecord fmt stream in
      if ok then do {
        sentences \<leftarrow> df_ConvertFromString fmt key value;
        check (length sentences \<le> 1);
        if sentences = [] then tr_Read_loop fmt key stream' else Some (sentences, stream') }
      else Some ([], stream'))"

definition tr_Read :: "document_format \<Rightarrow> text_reader \<Rightarrow> (sentence option \<times> text_reader) option" where
  "tr_Read fmt r = do {
     (sentences, stream) \<leftarrow> tr_Read_loop fmt (tr_filename r @ '':'' @ show_int (tr_sentence_count r)) (tr_buffer r);
     let r = r\<lparr>tr_buffer := stream\<rparr>;
     case sentences of
       [] \<Rightarrow> Some (None, r)
     | s # _ \<Rightarrow> do {
         check (int32_range (tr_sentence_count r + 1));
         Some (Some s, r\<lparr>tr_sentence_count := tr_sentence_count r + 1\<rparr>) } }"

text \<open>The written file is the string of its bytes so far.\<close>

definition tw_Write :: "document_format \<Rightarrow> string \<Rightarrow> sentence \<Rightarrow> string" where
  "tw_Write fmt written s = (let (key, value) = df_ConvertToString fmt s in written @ value)"

subsection \<open>Batches\<close>

record sentence_batch =
  sb_size :: int
  sb_reader :: text_reader
  sb_sentences :: "sentence option list"

definition sb_Init :: "(string \<Rightarrow> string option) \<Rightarrow> int \<Rightarrow> task_input \<Rightarrow> sentence_batch option" where
  "sb_Init open_file batch_size input = do {
     reader \<leftarrow> new_TextReader open_file input;
     Some \<lparr>sb_size = 0, sb_reader = reader, sb_sentences = vec_resize [] batch_size None\<rparr> }"

definition AdvanceSentence :: "document_format \<Rightarrow> int \<Rightarrow> sentence_batch \<Rightarrow> (bool \<times> sentence_batch) option" where
  "AdvanceSentence fmt index b = do {
     old \<leftarrow> vec_at (sb_sentences b) index;
     let b = (if old = None then b\<lparr>sb_size := sb_size b + 1\<rparr> else b);
     sentences \<leftarrow> vec_set (sb_sentences b) index None;
     let b = b\<lparr>sb_sentences := sentences\<rparr>;
     (sentence, reader) \<leftarrow> tr_Read fmt (sb_reader b);
     let b = b\<lparr>sb_reader := reader\<rparr>;
     case sentence of
       None \<Rightarrow> Some (False, b\<lparr>sb_size := sb_size b - 1\<rparr>)
     | Some s \<Rightarrow> do {
         sentences \<leftarrow> vec_set (sb_sentences b) index (Some s);
         Some (True, b\<lparr>sb_sentences := sentences\<rparr>) } }"

definition sb_Rewind :: "(string \<Rightarrow> string option) \<Rightarrow> sentence_batch \<Rightarrow> sentence_batch option" where
  "sb_Rewind open_file b = do {
     reader \<leftarrow> tr_Reset open_file (sb_reader b);
     Some (b\<lparr>sb_reader := reader\<rparr>) }"

subsection \<open>Formats that read back what they write\<close>

definition count_sentences :: "sentence option list \<Rightarrow> int" where
  "count_sentences xs = int (length (filter (\<lambda>s. s \<noteq> None) xs))"

definition nth_sentence :: "string \<Rightarrow> sentence list \<Rightarrow> nat \<Rightarrow> sentence option" where
  "nth_sentence filename ss k =
     (if k < length ss then Some ((ss ! k)\<lparr>sent_docid := filename @ '':'' @ show_int (int k)\<rparr>) else None)"

definition written_corpus :: "document_format \<Rightarrow> sentence list \<Rightarrow> string" where
  "written_corpus fmt ss = foldl (tw_Write fmt) [] ss"

text \<open>The reader is in front of sentence \<open>k\<close> of the written corpus, which standard input ends with
  an empty line.\<close>

definition reading_from :: "document_format \<Rightarrow> sentence list \<Rightarrow> nat \<Rightarrow> text_reader \<Rightarrow> bool" where
  "reading_from fmt ss k r \<longleftrightarrow>
     k \<le> length ss \<and> tr_sentence_count r = int k \<and>
     (tr_buffer r = written_corpus fmt (drop k ss) \<or> tr_buffer r = written_corpus fmt (drop k ss) @ [CHR 0x0A])"

text \<open>The slots that a batch is asked to advance, one after the other, and what they hold then.\<close>

fun AdvanceAll :: "document_format \<Rightarrow> int list \<Rightarrow> sentence_batch \<Rightarrow> (sentence option list \<times> sentence_batch) option" where
  "AdvanceAll fmt [] b = Some ([], b)"
| "AdvanceAll fmt (i # is) b = do {
     (_, b) \<leftarrow> AdvanceSentence fmt i b;
     s \<leftarrow> vec_at (sb_sentences b) i;
     (ss, b) \<leftarrow> AdvanceAll fmt is b;
     Some (s # ss, b) }"

lemma written_corpus_concat: "written_corpus fmt ss = concat (map (\<lambda>s. snd (df_ConvertToString fmt s)) ss)"
proof -
  have "foldl (tw_Write fmt) w ss = w @ concat (map (\<lambda>s. snd (df_ConvertToString fmt s)) ss)" for w
    by (induction ss arbitrary: w) (simp_all add: tw_Write_def split_beta)
  then show ?thesis by (simp add: written_corpus_def)
qed

lemma count_sentences_Cons: "count_sentences (x # xs) = (if x \<noteq> None then 1 else 0) + count_sentences xs"
  by (simp add: count_sentences_def)

lemma count_sentences_update:
  "i < length xs \<Longrightarrow> count_sentences (xs[i := v]) =
     count_sentences xs + (if v \<noteq> None then 1 else 0) - (if xs ! i \<noteq> None then 1 else 0)"
proof (induction xs arbitrary: i)
  case (Cons x xs)
  then show ?case by (cases i) (auto simp: count_sentences_Cons)
qed simp

locale corpus_format =
  fixes fmt :: document_format and good :: "sentence \<Rightarrow> bool"
  assumes written_record: "good s \<Longrightarrow>
      \<exists>v. df_ReadRecord fmt (snd (df_ConvertToString fmt s) @ rest) = (True, v, rest) \<and>
        df_ConvertFromString fmt key v = Some [s\<lparr>sent_docid := key\<rparr>]"
    and no_record: "df_ReadRecord fmt [] = (False, [], [])"
    and blank_record: "df_ReadRecord fmt [CHR 0x0A] = (True, [], [])" "df_ConvertFromString fmt key [] = Some []"
    and written_newline: "good s \<Longrightarrow> \<exists>line. snd (df_ConvertToString fmt s) = line @ [CHR 0x0A]"
begin

lemma read_end: "rest = [] \<or> rest = [CHR 0x0A] \<Longrightarrow> tr_Read_loop fmt key rest = Some ([], [])"
proof -
  have e: "tr_Read_loop fmt key [] = Some ([], [])" by (subst tr_Read_loop.simps) (simp add: no_record)
  moreover have "tr_Read_loop fmt key [CHR 0x0A] = Some ([], [])"
    by (subst tr_Read_loop.simps) (simp add: blank_record e)
  ultimately show "rest = [] \<or> rest = [CHR 0x0A] \<Longrightarrow> tr_Read_loop fmt key rest = Some ([], [])" by blast
qed

lemma reading_fromE:
  assumes "reading_from fmt ss k r"
  obtains rest where "k \<le> length ss" "tr_sentence_count r = int k" "rest = [] \<or> rest = [CHR 0x0A]"
    "tr_buffer r = written_corpus fmt (drop k ss) @ rest"
  using assms by (auto simp: reading_from_def)

lemma read_next:
  assumes "list_all good ss" and "int (length ss) < 2 ^ 31" and "reading_from fmt ss k r"
  obtains r' where "tr_Read fmt r = Some (nth_sentence (tr_filename r) ss k, r')"
    and "reading_from fmt ss (min (Suc k) (length ss)) r'" and "tr_filename r' = tr_filename r"
proof -
  obtain rest where k: "k \<le> length ss" and c: "tr_sentence_count r = int k" and rest: "rest = [] \<or> rest = [CHR 0x0A]"
    and b: "tr_buffer r = written_corpus fmt (drop k ss) @ rest" using assms(3) by (rule reading_fromE)
  let ?key = "tr_filename r @ '':'' @ show_int (tr_sentence_count r)"
  let ?left = "written_corpus fmt (drop (Suc k) ss) @ rest"
  show thesis
  proof (cases "k < length ss")
    case True
    have buf: "tr_buffer r = snd (df_ConvertToString fmt (ss ! k)) @ ?left"
      using b True by (simp add: written_corpus_concat Cons_nth_drop_Suc [symmetric])
    have "good (ss ! k)" using assms(1) True by (simp add: list_all_length)
    from written_record [OF this, of ?left ?key] obtain v where
      v: "df_ReadRecord fmt (tr_buffer r) = (True, v, ?left)"
        "df_ConvertFromString fmt ?key v = Some [(ss ! k)\<lparr>sent_docid := ?key\<rparr>]" using buf by auto
    have l: "tr_Read_loop fmt ?key (tr_buffer r) = Some ([(ss ! k)\<lparr>sent_docid := ?key\<rparr>], ?left)"
      by (subst tr_Read_loop.simps) (use v in simp)
    have "int32_range (int k + 1)" using True assms(2) by (simp add: int32_range_def)
    with l c True have "tr_Read fmt r = Some (nth_sentence (tr_filename r) ss k,
        r\<lparr>tr_buffer := ?left, tr_sentence_count := int k + 1\<rparr>)"
      by (simp add: tr_Read_def nth_sentence_def)
    then show thesis by (rule that) (use True rest in \<open>auto simp: reading_from_def min_absorb1\<close>)
  next
    case False
    then have e: "tr_buffer r = rest" "k = length ss" using b k by (simp_all add: written_corpus_concat)
    have "tr_Read fmt r = Some (nth_sentence (tr_filename r) ss k, r\<lparr>tr_buffer := []\<rparr>)"
      using e read_end [OF rest] by (simp add: tr_Read_def nth_sentence_def)
    then show thesis by (rule that) (use e c in \<open>simp_all add: reading_from_def written_corpus_concat\<close>)
  qed
qed

text \<open>A new reader stands in front of the corpus, read from a file or from standard input.\<close>

lemma stdin_corpus: "list_all good ss \<Longrightarrow> stdin_stream (written_corpus fmt ss) = written_corpus fmt ss @ [CHR 0x0A]"
proof (cases ss rule: rev_cases)
  case (snoc ss' s)
  assume "list_all good ss"
  then obtain line where "snd (df_ConvertToString fmt s) = line @ [CHR 0x0A]" using written_newline [of s] snoc by auto
  then show ?thesis by (simp add: stdin_stream_def snoc written_corpus_concat)
qed (simp add: stdin_stream_def written_corpus_concat)

lemma new_reader:
  assumes "list_all good ss" and "open_file filename = Some (written_corpus fmt ss)"
    and "length (input_record_format input) = 1" and "InputFile input = Some filename"
  obtains r where "new_TextReader open_file input = Some r" "reading_from fmt ss 0 r" "tr_filename r = filename"
proof -
  have "length (input_part input) = 1" using assms(4) by (simp add: InputFile_def check_bind_eq_Some)
  then show thesis
    using that assms stdin_corpus [OF assms(1)]
    by (cases "filename = ''-''") (simp_all add: new_TextReader_def tr_Reset_def reading_from_def)
qed

lemma reset_reading:
  assumes "reading_from fmt ss k r" and "tr_filename r = ''-'' \<or> open_file (tr_filename r) = Some (written_corpus fmt ss)"
  obtains r' where "tr_Reset open_file r = Some r'" "tr_filename r' = tr_filename r"
    "reading_from fmt (if tr_filename r = ''-'' then drop k ss else ss) 0 r'"
proof (cases "tr_filename r = ''-''")
  case True
  let ?b = "if tr_buffer r = [] then stdin_stream [] else tr_buffer r"
  obtain rest where "rest = [] \<or> rest = [CHR 0x0A]" "tr_buffer r = written_corpus fmt (drop k ss) @ rest"
    using assms(1) by (rule reading_fromE)
  then have "?b = written_corpus fmt (drop k ss) \<or> ?b = written_corpus fmt (drop k ss) @ [CHR 0x0A]"
    by (auto simp: stdin_stream_def)
  then show thesis using True that [of "r\<lparr>tr_sentence_count := 0, tr_buffer := ?b\<rparr>"]
    by (simp add: tr_Reset_def reading_from_def)
next
  case False
  then show thesis using assms(2) that by (simp add: tr_Reset_def reading_from_def)
qed

lemma advance:
  assumes "list_all good ss" and "int (length ss) < 2 ^ 31" and "reading_from fmt ss k (sb_reader b)"
    and "0 \<le> i" "i < int (length (sb_sentences b))" and "sb_size b = count_sentences (sb_sentences b)"
  obtains b' where "AdvanceSentence fmt i b = Some (k < length ss, b')"
    and "sb_sentences b' = (sb_sentences b)[nat i := nth_sentence (tr_filename (sb_reader b)) ss k]"
    and "reading_from fmt ss (min (Suc k) (length ss)) (sb_reader b')"
    and "sb_size b' = count_sentences (sb_sentences b')" and "tr_filename (sb_reader b') = tr_filename (sb_reader b)"
proof -
  let ?s = "nth_sentence (tr_filename (sb_reader b)) ss k"
  obtain r' where r': "tr_Read fmt (sb_reader b) = Some (?s, r')" "reading_from fmt ss (min (Suc k) (length ss)) r'"
    "tr_filename r' = tr_filename (sb_reader b)" using read_next [OF assms(1-3)] by blast
  have n: "?s = None \<longleftrightarrow> \<not> k < length ss" by (simp add: nth_sentence_def)
  let ?b = "\<lparr>sb_size = count_sentences ((sb_sentences b)[nat i := ?s]), sb_reader = r', sb_sentences = (sb_sentences b)[nat i := ?s]\<rparr>"
  have "AdvanceSentence fmt i b = Some (k < length ss, ?b)"
    using r'(1) n assms(4-6)
    by (cases ?s; cases "sb_sentences b ! nat i")
       (auto simp: AdvanceSentence_def count_sentences_update nat_less_iff intro!: sentence_batch.equality)
  then show thesis by (rule that) (use r' in simp_all)
qed

lemma advance_all:
  assumes "list_all good ss" and "int (length ss) < 2 ^ 31"
    and "\<forall>i \<in> set is. 0 \<le> i \<and> i < int (length (sb_sentences b))"
    and "reading_from fmt ss (min k (length ss)) (sb_reader b)" and "sb_size b = count_sentences (sb_sentences b)"
    and "tr_filename (sb_reader b) = filename"
  shows "\<exists>b'. AdvanceAll fmt is b = Some (map (nth_sentence filename ss) [k..<k + length is], b') \<and>
    sb_size b' = count_sentences (sb_sentences b') \<and> tr_filename (sb_reader b') = filename \<and>
    length (sb_sentences b') = length (sb_sentences b) \<and>
    reading_from fmt ss (min (k + length is) (length ss)) (sb_reader b')"
  using assms(3-)
proof (induction "is" arbitrary: k b)
  case (Cons i "is")
  let ?k = "min k (length ss)"
  have i: "0 \<le> i" "i < int (length (sb_sentences b))" using Cons.prems(1) by simp_all
  from advance [OF assms(1,2) Cons.prems(2) i Cons.prems(3)] obtain b1 where
    b1: "AdvanceSentence fmt i b = Some (?k < length ss, b1)"
      "sb_sentences b1 = (sb_sentences b)[nat i := nth_sentence (tr_filename (sb_reader b)) ss ?k]"
      "reading_from fmt ss (min (Suc ?k) (length ss)) (sb_reader b1)"
      "sb_size b1 = count_sentences (sb_sentences b1)" "tr_filename (sb_reader b1) = filename"
    using Cons.prems(4) by metis
  have m: "min (Suc ?k) (length ss) = min (Suc k) (length ss)" by simp
  have n: "nth_sentence filename ss ?k = nth_sentence filename ss k" by (simp add: nth_sentence_def min_def)
  have "\<exists>b'. AdvanceAll fmt is b1 = Some (map (nth_sentence filename ss) [Suc k..<Suc k + length is], b') \<and>
    sb_size b' = count_sentences (sb_sentences b') \<and> tr_filename (sb_reader b') = filename \<and>
    length (sb_sentences b') = length (sb_sentences b1) \<and>
    reading_from fmt ss (min (Suc k + length is) (length ss)) (sb_reader b')"
    using Cons.prems(1) b1 m by (intro Cons.IH) simp_all
  moreover have "[k..<k + length (i # is)] = k # [Suc k..<Suc k + length is]" by (simp add: upt_conv_Cons del: upt_Suc)
  ultimately show ?case using b1(1,2) i n Cons.prems(4) by auto
qed simp

end

definition conll_document_format ::
  "(string \<Rightarrow> string \<Rightarrow> bool) \<Rightarrow> (token_morphology \<Rightarrow> string) \<Rightarrow> conll_format \<Rightarrow> document_format" where
  "conll_document_format full_match print_text opts =
     \<lparr>df_ReadRecord = DoubleNewlineReadRecord,
      df_ConvertFromString = conll_ConvertFromString full_match print_text opts,
      df_ConvertToString = conll_ConvertToString opts\<rparr>"

lemma conll_ConvertFromString_empty: "conll_ConvertFromString full_match print_text fmt key [] = Some []"
proof -
  have "Split [] (CHR 0x0A) = []" by code_simp
  then show ?thesis by (simp add: conll_ConvertFromString_def)
qed

lemma conll_corpus_format:
  assumes "matches_conll_ids full_match"
  shows "corpus_format (conll_document_format full_match print_text opts) (conll_sentence opts)"
proof
  show "df_ReadRecord (conll_document_format full_match print_text opts) [] = (False, [], [])"
    by (simp add: conll_document_format_def DoubleNewlineReadRecord_def newline_read_loop.simps)
  show "df_ReadRecord (conll_document_format full_match print_text opts) [CHR 0x0A] = (True, [], [])"
    using ReadLine_line [of "[]" "[]"]
    by (simp add: conll_document_format_def DoubleNewlineReadRecord_def newline_read_loop.simps)
  show "df_ConvertFromString (conll_document_format full_match print_text opts) key [] = Some []" for key
    by (simp add: conll_document_format_def conll_ConvertFromString_empty)
  show "\<exists>line. snd (df_ConvertToString (conll_document_format full_match print_text opts) s) = line @ [CHR 0x0A]"
    if "conll_sentence opts s" for s
    using that conll_record [of s opts] by (simp add: conll_document_format_def conll_sentence_def)
qed (use conll_record_back [OF _ assms] in \<open>simp add: conll_document_format_def\<close>)

text \<open>The two regular expressions, as a function.\<close>

definition ids_match :: "string \<Rightarrow> string \<Rightarrow> bool" where
  "ids_match s pat =
     (let digit = (\<lambda>c. 48 \<le> byte c \<and> byte c \<le> 57);
          match = (\<lambda>sep. digit_string (takeWhile digit s) \<and>
            (case dropWhile digit s of [] \<Rightarrow> False | c # b \<Rightarrow> c = sep \<and> digit_string b))
      in if pat = multiword_pattern then match (CHR ''-'') else if pat = empty_node_pattern then match (CHR ''.'') else False)"

lemma digits_split:
  assumes "\<not> (48 \<le> byte sep \<and> byte sep \<le> 57)"
  shows "(digit_string (takeWhile (\<lambda>c. 48 \<le> byte c \<and> byte c \<le> 57) s) \<and>
      (case dropWhile (\<lambda>c. 48 \<le> byte c \<and> byte c \<le> 57) s of [] \<Rightarrow> False | c # b \<Rightarrow> c = sep \<and> digit_string b)) \<longleftrightarrow>
    (\<exists>a b. s = a @ [sep] @ b \<and> digit_string a \<and> digit_string b)" (is "?l \<longleftrightarrow> ?r")
proof
  assume ?l
  then obtain b where "dropWhile (\<lambda>c. 48 \<le> byte c \<and> byte c \<le> 57) s = sep # b" "digit_string b" by (auto split: list.splits)
  with \<open>?l\<close> takeWhile_dropWhile_id [of "\<lambda>c. 48 \<le> byte c \<and> byte c \<le> 57" s] show ?r
    by (metis append_Cons append_Nil)
next
  assume ?r
  then obtain a b where s: "s = a @ sep # b" "digit_string a" "digit_string b" by auto
  then have "takeWhile (\<lambda>c. 48 \<le> byte c \<and> byte c \<le> 57) s = a" "dropWhile (\<lambda>c. 48 \<le> byte c \<and> byte c \<le> 57) s = sep # b"
    using assms by (auto simp: digit_string_def)
  then show ?l using s by simp
qed

lemma ids_match: "matches_conll_ids ids_match"
  using digits_split [of "CHR ''-''"] digits_split [of "CHR ''.''"]
  by (simp add: matches_conll_ids_def ids_match_def multiword_pattern_def empty_node_pattern_def Let_def)

interpretation conll: corpus_format "conll_document_format ids_match print_text opts" "conll_sentence opts" for print_text opts
  by (rule conll_corpus_format [OF ids_match])

subsection \<open>Corpora\<close>


definition two_words :: sentence where
  "two_words = \<lparr>sent_docid = ''d'', sent_text = ''a dog'', sent_token =
     [default_token\<lparr>tok_word := ''a'', tok_head_opt := Some 1, tok_label := ''det''\<rparr>,
      default_token\<lparr>tok_word := ''dog'', tok_start := 2, tok_end := 4, tok_tag := ''NN'',
        tok_morphology := [(''Number'', ''Sing''), (''Root'', ''on'')]\<rparr>]\<rparr>"

definition plain_conll :: conll_format where
  "plain_conll = \<lparr>join_category_to_pos = False, add_pos_as_attribute = False, serialize_morph_to_pos = False\<rparr>"

lemma two_words_conll: "conll_sentence plain_conll two_words"
  by (simp add: conll_sentence_def two_words_def plain_conll_def options_ok_def token_ok_def conll_out_def default_token_def
      attribute_ok_def next_text_def tok_head_def)


end
