(* ===== verification/Disjoint_Set_Forest.thy ===== *)
theory Disjoint_Set_Forest
  imports SyntaxNet_Prelude
begin

text \<open>
  \<^verbatim>\<open>dragnn/mst/disjoint_set_forest.h\<close>: union-find with path compression and, as a template
  argument, union by rank. The class is the record \<open>dsf\<close>; \<open>by_rank\<close> is the template argument
  \<^verbatim>\<open>kUseUnionByRank\<close>. Indices and ranks are natural numbers: the class requires an \<^verbatim>\<open>Index\<close> wide
  enough for the number of elements, and \<open>rank_logarithmic\<close> shows that no rank outgrows it. The
  two loops of \<^verbatim>\<open>FindRoot\<close> run along parent pointers and are partial functions.

  Lemmas: \<open>has_root\<close> says which root an element has; compression keeps it, linking two roots
  merges their sets, so both instances of the class interpret the locale \<open>disjoint_sets\<close>, whose
  client lemma says that a sequence of unions computes the equivalence closure of its pairs.
\<close>

record dsf =
  dsf_size :: nat
  dsf_parents :: "nat list"
  dsf_ranks :: "nat list"

definition empty_dsf :: dsf where
  "empty_dsf = \<lparr>dsf_size = 0, dsf_parents = [], dsf_ranks = []\<rparr>"

definition dsf_Init :: "bool \<Rightarrow> nat \<Rightarrow> dsf \<Rightarrow> dsf option" where
  "dsf_Init by_rank n f = do {
     let f = f\<lparr>dsf_size := n\<rparr>;
     let f = f\<lparr>dsf_parents := vec_resize (dsf_parents f) (int (dsf_size f)) 0\<rparr>;
     let f = (if by_rank then f\<lparr>dsf_ranks := vec_resize (dsf_ranks f) (int (dsf_size f)) 0\<rparr> else f);
     foreach (\<lambda>i f. do {
         parents \<leftarrow> vec_set (dsf_parents f) i (nat i);
         let f = f\<lparr>dsf_parents := parents\<rparr>;
         if by_rank then do { ranks \<leftarrow> vec_set (dsf_ranks f) i 0; Some (f\<lparr>dsf_ranks := ranks\<rparr>) } else Some f })
       [0..int (dsf_size f) - 1] f }"

text \<open>The loop that walks up to the root, and the loop that compresses the path.\<close>

partial_function (option) find_walk :: "nat list \<Rightarrow> nat \<Rightarrow> nat option" where
  "find_walk parents parent = do {
     let current = parent;
     parent \<leftarrow> vec_at parents (int current);
     if current \<noteq> parent then find_walk parents parent else Some current }"

partial_function (option) compress :: "nat \<Rightarrow> nat list \<Rightarrow> nat \<Rightarrow> nat \<Rightarrow> nat list option" where
  "compress rt parents current parent = do {
     parents \<leftarrow> vec_set parents (int current) rt;
     let current = parent;
     parent \<leftarrow> vec_at parents (int current);
     if parent \<noteq> rt then compress rt parents current parent else Some parents }"

declare find_walk.simps [code] compress.simps [code]

definition FindRoot :: "nat \<Rightarrow> dsf \<Rightarrow> (nat \<times> dsf) option" where
  "FindRoot element f = do {
     let parents = dsf_parents f;
     let current = element;
     parent \<leftarrow> vec_at parents (int current);
     if current = parent then Some (current, f)
     else do {
       let current = parent;
       parent \<leftarrow> vec_at parents (int current);
       if current = parent then Some (current, f)
       else do {
         root \<leftarrow> find_walk parents parent;
         parent \<leftarrow> vec_at parents (int element);
         parents \<leftarrow> compress root parents element parent;
         Some (root, f\<lparr>dsf_parents := parents\<rparr>) } } }"

definition SameSet :: "nat \<Rightarrow> nat \<Rightarrow> dsf \<Rightarrow> (bool \<times> dsf) option" where
  "SameSet element1 element2 f = do {
     (r1, f) \<leftarrow> FindRoot element1 f;
     (r2, f) \<leftarrow> FindRoot element2 f;
     Some (r1 = r2, f) }"

definition UnionOfRoots :: "bool \<Rightarrow> nat \<Rightarrow> nat \<Rightarrow> dsf \<Rightarrow> dsf option" where
  "UnionOfRoots by_rank root1 root2 f =
     (if root1 = root2 then Some f
      else if by_rank then do {
        rank1 \<leftarrow> vec_at (dsf_ranks f) (int root1);
        rank2 \<leftarrow> vec_at (dsf_ranks f) (int root2);
        if rank2 < rank1 then do {
          parents \<leftarrow> vec_set (dsf_parents f) (int root2) root1;
          Some (f\<lparr>dsf_parents := parents\<rparr>) }
        else if rank1 < rank2 then do {
          parents \<leftarrow> vec_set (dsf_parents f) (int root1) root2;
          Some (f\<lparr>dsf_parents := parents\<rparr>) }
        else do {
          parents \<leftarrow> vec_set (dsf_parents f) (int root1) root2;
          ranks \<leftarrow> vec_set (dsf_ranks f) (int root2) (rank2 + 1);
          Some (f\<lparr>dsf_parents := parents, dsf_ranks := ranks\<rparr>) } }
      else do {
        parents \<leftarrow> vec_set (dsf_parents f) (int root1) root2;
        Some (f\<lparr>dsf_parents := parents\<rparr>) })"

definition Union :: "bool \<Rightarrow> nat \<Rightarrow> nat \<Rightarrow> dsf \<Rightarrow> dsf option" where
  "Union by_rank element1 element2 f = do {
     (r1, f) \<leftarrow> FindRoot element1 f;
     (r2, f) \<leftarrow> FindRoot element2 f;
     UnionOfRoots by_rank r1 r2 f }"

subsection \<open>Roots\<close>

inductive has_root :: "nat list \<Rightarrow> nat \<Rightarrow> nat \<Rightarrow> bool" for ps where
  is_root: "ps ! x = x \<Longrightarrow> has_root ps x x"
| go_up: "ps ! x \<noteq> x \<Longrightarrow> has_root ps (ps ! x) r \<Longrightarrow> has_root ps x r"

inductive_cases has_rootE: "has_root ps x r"

definition in_bounds :: "nat list \<Rightarrow> bool" where
  "in_bounds ps \<longleftrightarrow> (\<forall>x \<in> set ps. x < length ps)"

lemma in_boundsD: "in_bounds ps \<Longrightarrow> x < length ps \<Longrightarrow> ps ! x < length ps"
  by (simp add: in_bounds_def)

lemma in_bounds_update: "in_bounds ps \<Longrightarrow> r < length ps \<Longrightarrow> in_bounds (ps[x := r])"
  using set_update_subset_insert [of ps x r] by (auto simp: in_bounds_def)

lemma has_root_is_root: "has_root ps x r \<Longrightarrow> ps ! r = r"
  by (induction rule: has_root.induct)

lemma has_root_root: "ps ! x = x \<Longrightarrow> has_root ps x r \<longleftrightarrow> r = x"
  by (auto elim: has_rootE intro: has_root.is_root)

lemma has_root_step: "ps ! x \<noteq> x \<Longrightarrow> has_root ps x r \<longleftrightarrow> has_root ps (ps ! x) r"
  by (metis has_root.cases has_root.go_up)

lemma has_root_unique: "has_root ps x r \<Longrightarrow> has_root ps x r' \<Longrightarrow> r' = r"
  by (induction arbitrary: r' rule: has_root.induct) (auto simp: has_root_root has_root_step)

lemma has_root_bound: "has_root ps x r \<Longrightarrow> in_bounds ps \<Longrightarrow> x < length ps \<Longrightarrow> r < length ps"
  by (induction rule: has_root.induct) (auto simp: in_boundsD)

lemma has_root_not_self: "has_root ps x r \<Longrightarrow> x \<noteq> r \<Longrightarrow> ps ! x \<noteq> x"
  by (auto simp: has_root_root)

lemma has_root_compress:
  assumes x: "has_root ps x r" "x \<noteq> r" "x < length ps"
  shows "has_root (ps[x := r]) y r' \<longleftrightarrow> has_root ps y r'"
proof -
  note nx = has_root_not_self [OF x(1,2)] and rr = has_root_is_root [OF x(1)]
  let ?ps = "ps[x := r]"
  have r: "has_root ?ps r r" using rr x(2) by (intro has_root.is_root) simp
  show ?thesis
  proof
    assume "has_root ?ps y r'"
    then show "has_root ps y r'"
    proof (induction rule: has_root.induct)
      case (is_root y)
      then show ?case using x(2,3) by (cases "y = x") (auto intro: has_root.is_root)
    next
      case (go_up y r')
      show ?case
      proof (cases "y = x")
        case True
        then have "has_root ps r r'" using go_up.IH x(3) by simp
        then have "r' = r" using rr by (simp add: has_root_root)
        then show ?thesis using True x(1) by simp
      next
        case False
        then show ?thesis using go_up has_root_step [of ps y r'] by simp
      qed
    qed
  next
    assume "has_root ps y r'"
    then show "has_root ?ps y r'"
    proof (induction rule: has_root.induct)
      case (is_root y)
      then show ?case using nx by (cases "y = x") (auto intro: has_root.is_root)
    next
      case (go_up y r')
      show ?case
      proof (cases "y = x")
        case True
        then have "r' = r" using has_root_unique [OF x(1)] has_root.go_up [OF go_up.hyps] by simp
        moreover have "has_root ?ps x r" using r x(2,3) has_root_step [of ?ps x r] by simp
        ultimately show ?thesis using True by simp
      next
        case False
        then show ?thesis using go_up has_root_step [of ?ps y r'] by simp
      qed
    qed
  qed
qed

lemma has_root_link:
  assumes r: "ps ! r1 = r1" "ps ! r2 = r2" "r1 \<noteq> r2" "r1 < length ps"
  shows "has_root (ps[r1 := r2]) y r' \<longleftrightarrow> (\<exists>r. has_root ps y r \<and> r' = (if r = r1 then r2 else r))"
proof -
  let ?ps = "ps[r1 := r2]"
  have r2: "has_root ?ps r2 r2" "has_root ?ps r1 r2"
  proof -
    show r2: "has_root ?ps r2 r2" using r by (intro has_root.is_root) simp
    then show "has_root ?ps r1 r2" using r has_root_step [of ?ps r1 r2] by simp
  qed
  have fwd: "has_root ?ps y (if r = r1 then r2 else r)" if "has_root ps y r" for r
    using that
  proof (induction rule: has_root.induct)
    case (is_root y)
    then show ?case using r2 by (auto intro: has_root.is_root)
  next
    case (go_up y r)
    then have "y \<noteq> r1" using r(1) by auto
    then show ?case using go_up has_root_step [of ?ps y] by simp
  qed
  moreover have "\<exists>r. has_root ps y r \<and> r' = (if r = r1 then r2 else r)" if "has_root ?ps y r'"
    using that
  proof (induction rule: has_root.induct)
    case (is_root y)
    then have "y \<noteq> r1" using r by auto
    then show ?case using is_root by (auto intro!: exI [of _ y] has_root.is_root)
  next
    case (go_up y r')
    show ?case
    proof (cases "y = r1")
      case True
      then have "r' = r2" using go_up.hyps(2) r(4) has_root_unique [OF r2(1)] by simp
      then show ?thesis using True r by (intro exI [of _ r1]) (auto intro: has_root.is_root)
    next
      case False
      then show ?thesis using go_up has_root_step [of ps y] by simp
    qed
  qed
  ultimately show ?thesis by blast
qed

lemma find_walk_root: "has_root ps x r \<Longrightarrow> in_bounds ps \<Longrightarrow> x < length ps \<Longrightarrow> find_walk ps x = Some r"
proof (induction rule: has_root.induct)
  case (is_root x)
  then show ?case by (subst find_walk.simps) simp
next
  case (go_up x r)
  then show ?case using in_boundsD [of ps x] by (subst find_walk.simps) auto
qed

lemma compress_correct:
  "in_bounds ps \<Longrightarrow> has_root ps current rt \<Longrightarrow> current < length ps \<Longrightarrow> current \<noteq> rt \<Longrightarrow> ps ! current \<noteq> rt \<Longrightarrow>
     \<exists>ps'. compress rt ps current (ps ! current) = Some ps' \<and> length ps' = length ps \<and> in_bounds ps' \<and>
       has_root ps' = has_root ps \<and> (\<forall>y < length ps. ps' ! y = ps ! y \<or> (ps' ! y = rt \<and> y \<noteq> rt \<and> has_root ps y rt))"
proof (induction "card {y. y < length ps \<and> ps ! y \<noteq> rt}" arbitrary: ps current rule: less_induct)
  case less
  note b = less.prems(1) and h = less.prems(2) and c = less.prems(3-5)
  let ?ps = "ps[current := rt]" and ?p = "ps ! current"
  have p: "?p < length ps" "?p \<noteq> current" "has_root ps ?p rt"
    using in_boundsD [OF b c(1)] has_root_not_self [OF h c(2)] has_root_step [of ps current rt] h by auto
  have same: "has_root ?ps = has_root ps" using has_root_compress [OF h c(2,1)] by (intro ext) simp
  have b': "in_bounds ?ps" using in_bounds_update [OF b has_root_bound [OF h b c(1)]] .
  have ch: "\<forall>y < length ps. ?ps ! y = ps ! y \<or> (?ps ! y = rt \<and> y \<noteq> rt \<and> has_root ps y rt)"
    using h c by (auto simp: nth_list_update)
  show ?case
  proof (cases "ps ! ?p = rt")
    case True
    then show ?thesis using p c same b' ch by (subst compress.simps) auto
  next
    case False
    have "{y. y < length ?ps \<and> ?ps ! y \<noteq> rt} \<subset> {y. y < length ps \<and> ps ! y \<noteq> rt}"
      using c by (auto simp: nth_list_update)
    then have "card {y. y < length ?ps \<and> ?ps ! y \<noteq> rt} < card {y. y < length ps \<and> ps ! y \<noteq> rt}"
      by (rule psubset_card_mono [rotated]) simp
    from less.hyps [OF this b', of ?p] p c False same obtain ps' where
      ps': "compress rt ?ps ?p (?ps ! ?p) = Some ps'" "length ps' = length ps" "in_bounds ps'" "has_root ps' = has_root ps"
      "\<forall>y < length ps. ps' ! y = ?ps ! y \<or> (ps' ! y = rt \<and> y \<noteq> rt \<and> has_root ps y rt)"
      by auto
    have "compress rt ps current ?p = Some ps'" using ps'(1) p c False by (subst compress.simps) simp
    then show ?thesis using ps' ch by metis
  qed
qed

subsection \<open>The invariant and the operations\<close>

text \<open>Ranks grow towards the root, and a root of rank \<open>k\<close> has at least \<open>2 ^ k\<close> elements.\<close>

definition set_of :: "nat list \<Rightarrow> nat \<Rightarrow> nat set" where
  "set_of ps r = {x. x < length ps \<and> has_root ps x r}"

definition rank_inv :: "nat list \<Rightarrow> nat list \<Rightarrow> bool" where
  "rank_inv ps rk \<longleftrightarrow> length rk = length ps \<and>
     (\<forall>x < length ps. ps ! x \<noteq> x \<longrightarrow> rk ! x < rk ! (ps ! x)) \<and>
     (\<forall>x < length ps. ps ! x = x \<longrightarrow> 2 ^ (rk ! x) \<le> card (set_of ps x))"

definition dsf_inv :: "bool \<Rightarrow> dsf \<Rightarrow> bool" where
  "dsf_inv by_rank f \<longleftrightarrow> length (dsf_parents f) = dsf_size f \<and> in_bounds (dsf_parents f) \<and>
     (\<forall>x < dsf_size f. \<exists>r. has_root (dsf_parents f) x r) \<and> (by_rank \<longrightarrow> rank_inv (dsf_parents f) (dsf_ranks f))"

lemma finite_set_of [simp]: "finite (set_of ps r)"
  by (simp add: set_of_def)

lemma dsf_Init_eq:
  "dsf_Init by_rank n f = Some \<lparr>dsf_size = n, dsf_parents = [0..<n],
     dsf_ranks = (if by_rank then replicate n 0 else dsf_ranks f)\<rparr>"
proof -
  let ?f = "\<lambda>g. \<lparr>dsf_size = n, dsf_parents = map fst g, dsf_ranks = (if by_rank then map snd g else dsf_ranks f)\<rparr>"
  let ?ps = "vec_resize (dsf_parents f) (int n) 0" and ?rk = "vec_resize (dsf_ranks f) (int n) 0"
  let ?body = "\<lambda>i f. do {
         parents \<leftarrow> vec_set (dsf_parents f) i (nat i);
         let f = f\<lparr>dsf_parents := parents\<rparr>;
         if by_rank then do { ranks \<leftarrow> vec_set (dsf_ranks f) i 0; Some (f\<lparr>dsf_ranks := ranks\<rparr>) } else Some f }"
  have "foreach ?body (map int [0..<n]) (?f (zip ?ps ?rk)) = Some (?f (map (\<lambda>i. (i, 0)) [0..<n] @ drop n (zip ?ps ?rk)))"
    by (rule foreach_fill [where state = ?f and n = n]) (auto simp: map_update)
  then show ?thesis
    by (cases by_rank; cases f) (simp_all add: dsf_Init_def upto_map_int comp_def map_replicate_const Let_def)
qed

lemma has_root_singletons: "x < n \<Longrightarrow> has_root [0..<n] x r \<longleftrightarrow> r = x"
  by (simp add: has_root_root)

lemma dsf_inv_Init: "dsf_inv by_rank \<lparr>dsf_size = n, dsf_parents = [0..<n], dsf_ranks = (if by_rank then replicate n 0 else rk)\<rparr>"
proof -
  have "card (set_of [0..<n] x) = 1" if "x < n" for x
  proof -
    have "set_of [0..<n] x = {x}" using that by (auto simp: set_of_def has_root_singletons)
    then show ?thesis by simp
  qed
  then show ?thesis by (auto simp: dsf_inv_def in_bounds_def has_root_singletons rank_inv_def)
qed

lemma rank_increases:
  assumes "rank_inv ps rk" and "in_bounds ps"
  shows "has_root ps x r \<Longrightarrow> x < length ps \<Longrightarrow> rk ! x \<le> rk ! r \<and> (x \<noteq> r \<longrightarrow> rk ! x < rk ! r)"
proof (induction rule: has_root.induct)
  case (go_up x r)
  then have "rk ! x < rk ! (ps ! x)" using assms(1) by (auto simp: rank_inv_def)
  with go_up in_boundsD [OF assms(2)] show ?case by fastforce
qed simp

lemma rank_inv_compress:
  assumes inv: "rank_inv ps rk" "in_bounds ps" and ps': "length ps' = length ps" "has_root ps' = has_root ps"
    "\<forall>y < length ps. ps' ! y = ps ! y \<or> (ps' ! y = r \<and> y \<noteq> r \<and> has_root ps y r)"
  shows "rank_inv ps' rk"
  unfolding rank_inv_def
proof (intro conjI allI impI)
  show "length rk = length ps'" using inv ps' by (simp add: rank_inv_def)
  fix x assume x: "x < length ps'"
  then have c: "ps' ! x = ps ! x \<or> (ps' ! x = r \<and> x \<noteq> r \<and> has_root ps x r)" using ps' by simp
  { assume n: "ps' ! x \<noteq> x"
    show "rk ! x < rk ! (ps' ! x)"
      using c inv(1) n x ps'(1) rank_increases [OF inv, of x r] by (auto simp: rank_inv_def) }
  { assume "ps' ! x = x"
    then have "ps ! x = x" using c by auto
    then show "2 ^ (rk ! x) \<le> card (set_of ps' x)" using inv(1) x ps'(1,2) by (auto simp: rank_inv_def set_of_def) }
qed

lemma FindRoot_correct:
  assumes inv: "dsf_inv by_rank f" and x: "x < dsf_size f"
  shows "\<exists>r f'. FindRoot x f = Some (r, f') \<and> has_root (dsf_parents f) x r \<and> dsf_inv by_rank f' \<and>
    dsf_size f' = dsf_size f \<and> dsf_ranks f' = dsf_ranks f \<and> has_root (dsf_parents f') = has_root (dsf_parents f)"
proof -
  let ?ps = "dsf_parents f"
  have b: "in_bounds ?ps" "length ?ps = dsf_size f" using inv by (auto simp: dsf_inv_def)
  obtain r where r: "has_root ?ps x r" using inv x by (auto simp: dsf_inv_def)
  let ?p = "?ps ! x" let ?q = "?ps ! ?p"
  have p: "?p < length ?ps" "?q < length ?ps" using in_boundsD [OF b(1)] x b(2) by auto
  consider "?p = x" | "?p \<noteq> x" "?q = ?p" | "?p \<noteq> x" "?q \<noteq> ?p" by blast
  then show ?thesis
  proof cases
    case 1
    then show ?thesis using inv x b r by (simp add: FindRoot_def has_root_root)
  next
    case 2
    have "r = ?p" using r has_root_step [OF 2(1)] has_root_root [OF 2(2)] by simp
    then show ?thesis using 2 inv x b p r by (simp add: FindRoot_def Let_def)
  next
    case nx: 3
    have rp: "has_root ?ps ?p r" "has_root ?ps ?q r" using r nx has_root_step by auto
    have "x \<noteq> r" "?p \<noteq> r" using r nx has_root_is_root [OF r] by auto
    with compress_correct [OF b(1) r] x b(2) obtain ps' where
      ps': "compress r ?ps x ?p = Some ps'" "length ps' = length ?ps" "in_bounds ps'" "has_root ps' = has_root ?ps"
        "\<forall>y < length ?ps. ps' ! y = ?ps ! y \<or> (ps' ! y = r \<and> y \<noteq> r \<and> has_root ?ps y r)" by auto
    have "FindRoot x f = Some (r, f\<lparr>dsf_parents := ps'\<rparr>)"
      using x b p nx ps'(1) find_walk_root [OF rp(2) b(1) p(2)] by (auto simp: FindRoot_def Let_def)
    moreover have "rank_inv ps' (dsf_ranks f)" if "rank_inv ?ps (dsf_ranks f)"
      using rank_inv_compress [OF that b(1) ps'(2,4,5)] .
    ultimately show ?thesis using inv r ps' by (auto simp: dsf_inv_def)
  qed
qed

lemma set_of_link:
  assumes r: "ps ! r1 = r1" "ps ! r2 = r2" "r1 \<noteq> r2" "r1 < length ps" "r2 < length ps"
  shows "set_of (ps[r1 := r2]) r2 = set_of ps r1 \<union> set_of ps r2"
    and "x \<noteq> r1 \<Longrightarrow> x \<noteq> r2 \<Longrightarrow> set_of (ps[r1 := r2]) x = set_of ps x"
    and "card (set_of (ps[r1 := r2]) r2) = card (set_of ps r1) + card (set_of ps r2)"
proof -
  have "has_root (ps[r1 := r2]) x r2 \<longleftrightarrow> has_root ps x r1 \<or> has_root ps x r2" for x
    unfolding has_root_link [OF r(1-4)] using r(3) by metis
  then show u: "set_of (ps[r1 := r2]) r2 = set_of ps r1 \<union> set_of ps r2" by (auto simp: set_of_def)
  show "x \<noteq> r1 \<Longrightarrow> x \<noteq> r2 \<Longrightarrow> set_of (ps[r1 := r2]) x = set_of ps x"
    using has_root_link [OF r(1-4)] by (auto simp: set_of_def)
  have "set_of ps r1 \<inter> set_of ps r2 = {}" using has_root_unique r(3) by (auto simp: set_of_def)
  then show "card (set_of (ps[r1 := r2]) r2) = card (set_of ps r1) + card (set_of ps r2)"
    by (simp add: u card_Un_disjoint)
qed

lemma rank_inv_link:
  assumes inv: "rank_inv ps rk" and r: "ps ! r1 = r1" "ps ! r2 = r2" "r1 \<noteq> r2" "r1 < length ps" "r2 < length ps"
    and k: "rk ! r1 < k" "rk ! r2 \<le> k" "2 ^ k \<le> card (set_of ps r1) + card (set_of ps r2)"
  shows "rank_inv (ps[r1 := r2]) (rk[r2 := k])"
  unfolding rank_inv_def
proof (intro conjI allI impI)
  show "length (rk[r2 := k]) = length (ps[r1 := r2])" using inv by (simp add: rank_inv_def)
  have len: "length rk = length ps" using inv by (simp add: rank_inv_def)
  fix x assume x: "x < length (ps[r1 := r2])"
  { assume n: "ps[r1 := r2] ! x \<noteq> x"
    show "rk[r2 := k] ! x < rk[r2 := k] ! (ps[r1 := r2] ! x)"
    proof (cases "x = r1")
      case True
      then show ?thesis using r k len by simp
    next
      case False
      then have "rk ! x < rk ! (ps ! x)" "x \<noteq> r2" using n x inv r by (auto simp: rank_inv_def)
      then show ?thesis using False k len r x by (cases "ps ! x = r2") auto
    qed }
  { assume root: "ps[r1 := r2] ! x = x"
    then have "x \<noteq> r1" using r by auto
    then show "2 ^ (rk[r2 := k] ! x) \<le> card (set_of (ps[r1 := r2]) x)"
      using set_of_link [OF r] k root inv x len by (cases "x = r2") (auto simp: rank_inv_def) }
qed

lemma UnionOfRoots_correct:
  assumes inv: "dsf_inv by_rank f" and r: "dsf_parents f ! r1 = r1" "dsf_parents f ! r2 = r2" "r1 < dsf_size f" "r2 < dsf_size f"
  shows "\<exists>f'. UnionOfRoots by_rank r1 r2 f = Some f' \<and> dsf_inv by_rank f' \<and> dsf_size f' = dsf_size f \<and>
    (\<exists>t \<in> {r1, r2}. (\<not> by_rank \<longrightarrow> t = r2) \<and>
      (\<forall>y r'. has_root (dsf_parents f') y r' \<longleftrightarrow> (\<exists>r. has_root (dsf_parents f) y r \<and> r' = (if r \<in> {r1, r2} then t else r))))"
proof (cases "r1 = r2")
  case True
  then show ?thesis using inv by (auto simp: UnionOfRoots_def)
next
  case ne: False
  let ?ps = "dsf_parents f" and ?rk = "dsf_ranks f"
  have b: "in_bounds ?ps" "length ?ps = dsf_size f" "\<forall>x < dsf_size f. \<exists>r. has_root ?ps x r" using inv by (auto simp: dsf_inv_def)
  have link: "\<exists>t \<in> {r1, r2}. (\<not> by_rank \<longrightarrow> t = r2) \<and>
      (\<forall>y r'. has_root (?ps[a := c]) y r' \<longleftrightarrow> (\<exists>r. has_root ?ps y r \<and> r' = (if r \<in> {r1, r2} then t else r)))"
    "in_bounds (?ps[a := c])" "\<forall>x < dsf_size f. \<exists>r. has_root (?ps[a := c]) x r"
    if "(a, c) = (r1, r2) \<or> (by_rank \<and> (a, c) = (r2, r1))" for a c
  proof -
    have ac: "?ps ! a = a" "?ps ! c = c" "a \<noteq> c" "a < length ?ps" "c < length ?ps" using that r ne b by auto
    show "in_bounds (?ps[a := c])" using in_bounds_update [OF b(1) ac(5)] .
    show "\<forall>x < dsf_size f. \<exists>r. has_root (?ps[a := c]) x r" using has_root_link [OF ac(1-4)] b(3) by blast
    have "(\<exists>r. has_root ?ps y r \<and> r' = (if r = a then c else r)) \<longleftrightarrow>
        (\<exists>r. has_root ?ps y r \<and> r' = (if r \<in> {r1, r2} then c else r))" for y r'
      using that by (auto split: if_splits)
    then show "\<exists>t \<in> {r1, r2}. (\<not> by_rank \<longrightarrow> t = r2) \<and>
      (\<forall>y r'. has_root (?ps[a := c]) y r' \<longleftrightarrow> (\<exists>r. has_root ?ps y r \<and> r' = (if r \<in> {r1, r2} then t else r)))"
      using has_root_link [OF ac(1-4)] that by (intro bexI [of _ c]) auto
  qed
  have res: ?thesis if "UnionOfRoots by_rank r1 r2 f = Some f'" "dsf_parents f' = ?ps[a := c]" "dsf_size f' = dsf_size f"
      "by_rank \<longrightarrow> rank_inv (?ps[a := c]) (dsf_ranks f')" "(a, c) = (r1, r2) \<or> (by_rank \<and> (a, c) = (r2, r1))" for f' a c
    using that(1-4) link [OF that(5)] b(2) by (intro exI [of _ f']) (simp add: dsf_inv_def)
  show ?thesis
  proof (cases by_rank)
    case False
    then show ?thesis using ne r b by (intro res [of "f\<lparr>dsf_parents := ?ps[r1 := r2]\<rparr>" r1 r2]) (simp_all add: UnionOfRoots_def)
  next
    case True
    then have ri: "rank_inv ?ps ?rk" "length ?rk = dsf_size f" using inv b by (auto simp: dsf_inv_def rank_inv_def)
    have card: "2 ^ (?rk ! r1) \<le> card (set_of ?ps r1)" "2 ^ (?rk ! r2) \<le> card (set_of ?ps r2)"
      using ri r b by (auto simp: rank_inv_def)
    consider "?rk ! r2 < ?rk ! r1" | "?rk ! r1 < ?rk ! r2" | "?rk ! r1 = ?rk ! r2" by linarith
    then show ?thesis
    proof cases
      case 1
      then have "rank_inv (?ps[r2 := r1]) (?rk[r1 := ?rk ! r1])"
        using card r b ne by (intro rank_inv_link [OF ri(1)]) auto
      then show ?thesis using 1 True ne r b ri by (intro res [of "f\<lparr>dsf_parents := ?ps[r2 := r1]\<rparr>" r2 r1]) (simp_all add: UnionOfRoots_def)
    next
      case 2
      then have "rank_inv (?ps[r1 := r2]) (?rk[r2 := ?rk ! r2])"
        using card r b ne by (intro rank_inv_link [OF ri(1)]) auto
      then show ?thesis using 2 True ne r b ri by (intro res [of "f\<lparr>dsf_parents := ?ps[r1 := r2]\<rparr>" r1 r2]) (simp_all add: UnionOfRoots_def)
    next
      case 3
      then have "rank_inv (?ps[r1 := r2]) (?rk[r2 := ?rk ! r2 + 1])"
        using card r b ne by (intro rank_inv_link [OF ri(1)]) auto
      then show ?thesis using 3 True ne r b ri by (intro res [of "f\<lparr>dsf_parents := ?ps[r1 := r2], dsf_ranks := ?rk[r2 := ?rk ! r2 + 1]\<rparr>" r1 r2]) (simp_all add: UnionOfRoots_def)
    qed
  qed
qed

subsection \<open>The interface: disjoint sets\<close>

text \<open>
  What a client relies on, whatever the policy for choosing roots: \<open>find\<close> returns the
  representative of an element and moves no element, \<open>union\<close> merges two sets and nothing else.
\<close>

definition merged_root :: "nat \<Rightarrow> nat \<Rightarrow> nat \<Rightarrow> nat \<Rightarrow> nat" where
  "merged_root rx ry t r = (if r \<in> {rx, ry} then t else r)"

locale disjoint_sets =
  fixes inv :: "'f \<Rightarrow> bool"
    and elements :: "'f \<Rightarrow> nat"
    and rep :: "'f \<Rightarrow> nat \<Rightarrow> nat \<Rightarrow> bool"
    and find :: "nat \<Rightarrow> 'f \<Rightarrow> (nat \<times> 'f) option"
    and union :: "nat \<Rightarrow> nat \<Rightarrow> 'f \<Rightarrow> 'f option"
  assumes rep_ex: "inv f \<Longrightarrow> x < elements f \<Longrightarrow> \<exists>r. rep f x r"
    and rep_unique: "rep f x r \<Longrightarrow> rep f x r' \<Longrightarrow> r' = r"
    and find_law: "inv f \<Longrightarrow> x < elements f \<Longrightarrow>
      \<exists>r f'. find x f = Some (r, f') \<and> rep f x r \<and> inv f' \<and> elements f' = elements f \<and> rep f' = rep f"
    and union_law: "inv f \<Longrightarrow> x < elements f \<Longrightarrow> y < elements f \<Longrightarrow>
      \<exists>f'. union x y f = Some f' \<and> inv f' \<and> elements f' = elements f \<and>
        (\<exists>rx ry t. rep f x rx \<and> rep f y ry \<and> t \<in> {rx, ry} \<and>
          (\<forall>z r'. rep f' z r' \<longleftrightarrow> (\<exists>r. rep f z r \<and> r' = merged_root rx ry t r)))"
begin

definition same_set :: "'f \<Rightarrow> (nat \<times> nat) set" where
  "same_set f = {(a, b). a < elements f \<and> b < elements f \<and> (\<exists>r. rep f a r \<and> rep f b r)}"

lemma same_set_trans: "trans (same_set f)"
proof (rule transI)
  fix a b c assume "(a, b) \<in> same_set f" and "(b, c) \<in> same_set f"
  then obtain r r' where "rep f a r" "rep f b r" "rep f b r'" "rep f c r'" "a < elements f" "c < elements f" by (auto simp: same_set_def)
  moreover from this have "r' = r" by (blast intro: rep_unique)
  ultimately show "(a, c) \<in> same_set f" by (auto simp: same_set_def)
qed

lemma same_set_refl: "inv f \<Longrightarrow> a < elements f \<Longrightarrow> (a, a) \<in> same_set f"
  using rep_ex by (auto simp: same_set_def)

lemma same_set_rtrancl: "inv f \<Longrightarrow> a < elements f \<Longrightarrow> (a, b) \<in> (same_set f)\<^sup>* \<longleftrightarrow> (a, b) \<in> same_set f"
  using same_set_refl same_set_trans [of f] by (auto simp: rtrancl_eq_or_trancl)

lemma union_same_set:
  assumes "inv f" and "x < elements f" and "y < elements f"
  shows "\<exists>f'. union x y f = Some f' \<and> inv f' \<and> elements f' = elements f \<and>
    (same_set f')\<^sup>* = (same_set f \<union> {(x, y), (y, x)})\<^sup>*"
proof -
  from union_law [OF assms] obtain f' rx ry t where
    f': "union x y f = Some f'" "inv f'" "elements f' = elements f" and r: "rep f x rx" "rep f y ry" "t \<in> {rx, ry}" and
    rep: "\<And>z r'. rep f' z r' \<longleftrightarrow> (\<exists>r. rep f z r \<and> r' = merged_root rx ry t r)" by blast
  let ?S = "same_set f \<union> {(x, y), (y, x)}"
  have "(a, b) \<in> same_set f'" if "rep f a ra" "rep f b rb" "merged_root rx ry t ra = merged_root rx ry t rb"
      "a < elements f" "b < elements f" for a b ra rb
    using that f'(3) unfolding same_set_def rep by auto
  then have "?S \<subseteq> same_set f'" using r assms(2,3) by (fastforce simp: same_set_def merged_root_def)
  moreover have "same_set f' \<subseteq> ?S\<^sup>*"
  proof
    fix ab assume "ab \<in> same_set f'"
    then obtain a b ra rb where ab: "ab = (a, b)" "rep f a ra" "rep f b rb"
        "merged_root rx ry t ra = merged_root rx ry t rb" "a < elements f" "b < elements f"
      using f'(3) unfolding same_set_def rep by auto
    have to_x: "(z, x) \<in> ?S\<^sup>* \<and> (x, z) \<in> ?S\<^sup>*" if "rep f z rz" "rz \<in> {rx, ry}" "z < elements f" for z rz
    proof -
      have "(z, x) \<in> ?S \<or> (z, y) \<in> ?S" "(x, z) \<in> ?S \<or> (y, z) \<in> ?S" "(y, x) \<in> ?S" "(x, y) \<in> ?S"
        using that r assms(2,3) by (auto simp: same_set_def)
      then show ?thesis by (meson converse_rtrancl_into_rtrancl r_into_rtrancl rtrancl_trans)
    qed
    show "ab \<in> ?S\<^sup>*"
    proof (cases "ra = rb")
      case True
      then have "(a, b) \<in> same_set f" using ab by (auto simp: same_set_def)
      then show ?thesis unfolding ab(1) by (intro r_into_rtrancl) blast
    next
      case False
      then have "ra \<in> {rx, ry}" "rb \<in> {rx, ry}" using ab(4) r(3) by (auto simp: merged_root_def split: if_splits)
      then show ?thesis unfolding ab(1) using to_x ab(2,3,5,6) by (meson rtrancl_trans)
    qed
  qed
  ultimately have "(same_set f')\<^sup>* = ?S\<^sup>*" by (rule rtrancl_subset)
  with f' show ?thesis by blast
qed

theorem unions_closure:
  assumes "inv f" and "\<forall>(x, y) \<in> set us. x < elements f \<and> y < elements f"
  shows "\<exists>f'. foreach (\<lambda>(x, y). union x y) us f = Some f' \<and> inv f' \<and> elements f' = elements f \<and>
    (same_set f')\<^sup>* = (same_set f \<union> set us \<union> (set us)\<inverse>)\<^sup>*"
  using assms
proof (induction us arbitrary: f)
  case (Cons u us)
  obtain x y where u: "u = (x, y)" by fastforce
  with Cons.prems have xy: "x < elements f" "y < elements f" by auto
  from union_same_set [OF Cons.prems(1) xy] obtain f1 where
    f1: "union x y f = Some f1" "inv f1" "elements f1 = elements f" "(same_set f1)\<^sup>* = (same_set f \<union> {(x, y), (y, x)})\<^sup>*" by blast
  from Cons.IH [OF f1(2)] Cons.prems(2) f1(3) obtain f' where
    f': "foreach (\<lambda>(x, y). union x y) us f1 = Some f'" "inv f'" "elements f' = elements f"
      "(same_set f')\<^sup>* = (same_set f1 \<union> set us \<union> (set us)\<inverse>)\<^sup>*" by auto
  have absorb: "(R \<union> S)\<^sup>* = (R\<^sup>* \<union> S)\<^sup>*" for R S :: "(nat \<times> nat) set"
    using rtrancl_Un_rtrancl [of "R\<^sup>*" S] rtrancl_Un_rtrancl [of R S] by simp
  have "(same_set f1 \<union> (set us \<union> (set us)\<inverse>))\<^sup>* = (same_set f \<union> {(x, y), (y, x)} \<union> (set us \<union> (set us)\<inverse>))\<^sup>*"
    unfolding absorb [of "same_set f1"] f1(4) absorb [of "same_set f \<union> {(x, y), (y, x)}"] ..
  also have "same_set f \<union> {(x, y), (y, x)} \<union> (set us \<union> (set us)\<inverse>) = same_set f \<union> set (u # us) \<union> (set (u # us))\<inverse>"
    unfolding u by auto
  finally show ?case using f1 f' by (simp add: u Un_assoc)
qed simp

end

lemma forest_union_law:
  assumes "dsf_inv by_rank f" "x < dsf_size f" "y < dsf_size f"
  shows "\<exists>f'. Union by_rank x y f = Some f' \<and> dsf_inv by_rank f' \<and> dsf_size f' = dsf_size f \<and>
    (\<exists>rx ry t. has_root (dsf_parents f) x rx \<and> has_root (dsf_parents f) y ry \<and> t \<in> {rx, ry} \<and> (\<not> by_rank \<longrightarrow> t = ry) \<and>
      (\<forall>z r'. has_root (dsf_parents f') z r' \<longleftrightarrow> (\<exists>r. has_root (dsf_parents f) z r \<and> r' = merged_root rx ry t r)))"
proof -
  from FindRoot_correct [OF assms(1,2)] obtain rx f1 where
    f1: "FindRoot x f = Some (rx, f1)" "has_root (dsf_parents f) x rx" "dsf_inv by_rank f1" "dsf_size f1 = dsf_size f"
      "has_root (dsf_parents f1) = has_root (dsf_parents f)" by blast
  from FindRoot_correct [OF f1(3), of y] assms(3) f1 obtain ry f2 where
    f2: "FindRoot y f1 = Some (ry, f2)" "has_root (dsf_parents f) y ry" "dsf_inv by_rank f2" "dsf_size f2 = dsf_size f"
      "has_root (dsf_parents f2) = has_root (dsf_parents f)" by auto
  have b: "in_bounds (dsf_parents f2)" "length (dsf_parents f2) = dsf_size f" using f2(3,4) by (auto simp: dsf_inv_def)
  have h: "has_root (dsf_parents f2) x rx" "has_root (dsf_parents f2) y ry" using f1(2) f2(2,5) by simp_all
  have "dsf_parents f2 ! rx = rx" "dsf_parents f2 ! ry = ry" "rx < dsf_size f2" "ry < dsf_size f2"
    using has_root_is_root [OF h(1)] has_root_is_root [OF h(2)] has_root_bound [OF h(1) b(1)] has_root_bound [OF h(2) b(1)] b(2) assms f2(4)
    by simp_all
  from UnionOfRoots_correct [OF f2(3) this] obtain f' t where
    f': "UnionOfRoots by_rank rx ry f2 = Some f'" "dsf_inv by_rank f'" "dsf_size f' = dsf_size f" "t \<in> {rx, ry}" "\<not> by_rank \<longrightarrow> t = ry"
      "\<forall>y r'. has_root (dsf_parents f') y r' \<longleftrightarrow> (\<exists>r. has_root (dsf_parents f) y r \<and> r' = merged_root rx ry t r)"
    unfolding f2(4,5) merged_root_def by blast
  have "Union by_rank x y f = Some f'" using f1(1) f2(1) f'(1) by (simp add: Union_def)
  with f' f1(2) f2(2) show ?thesis by (intro exI [of _ f'] exI [of _ rx] exI [of _ ry] exI [of _ t] conjI)
qed

interpretation ranked: disjoint_sets "dsf_inv True" dsf_size "\<lambda>f. has_root (dsf_parents f)" FindRoot "Union True"
proof unfold_locales
  fix f x y
  assume f: "dsf_inv True f" "x < dsf_size f"
  then show "\<exists>r. has_root (dsf_parents f) x r" by (simp add: dsf_inv_def)
  show "\<exists>r f'. FindRoot x f = Some (r, f') \<and> has_root (dsf_parents f) x r \<and> dsf_inv True f' \<and>
      dsf_size f' = dsf_size f \<and> has_root (dsf_parents f') = has_root (dsf_parents f)"
    using FindRoot_correct [OF f] by blast
  assume "y < dsf_size f"
  from forest_union_law [OF f this] show "\<exists>f'. Union True x y f = Some f' \<and> dsf_inv True f' \<and> dsf_size f' = dsf_size f \<and>
    (\<exists>rx ry t. has_root (dsf_parents f) x rx \<and> has_root (dsf_parents f) y ry \<and> t \<in> {rx, ry} \<and>
      (\<forall>z r'. has_root (dsf_parents f') z r' \<longleftrightarrow> (\<exists>r. has_root (dsf_parents f) z r \<and> r' = merged_root rx ry t r)))"
    by blast
qed (rule has_root_unique)

interpretation plain: disjoint_sets "dsf_inv False" dsf_size "\<lambda>f. has_root (dsf_parents f)" FindRoot "Union False"
proof unfold_locales
  fix f x y
  assume f: "dsf_inv False f" "x < dsf_size f"
  then show "\<exists>r. has_root (dsf_parents f) x r" by (simp add: dsf_inv_def)
  show "\<exists>r f'. FindRoot x f = Some (r, f') \<and> has_root (dsf_parents f) x r \<and> dsf_inv False f' \<and>
      dsf_size f' = dsf_size f \<and> has_root (dsf_parents f') = has_root (dsf_parents f)"
    using FindRoot_correct [OF f] by blast
  assume "y < dsf_size f"
  from forest_union_law [OF f this] show "\<exists>f'. Union False x y f = Some f' \<and> dsf_inv False f' \<and> dsf_size f' = dsf_size f \<and>
    (\<exists>rx ry t. has_root (dsf_parents f) x rx \<and> has_root (dsf_parents f) y ry \<and> t \<in> {rx, ry} \<and>
      (\<forall>z r'. has_root (dsf_parents f') z r' \<longleftrightarrow> (\<exists>r. has_root (dsf_parents f) z r \<and> r' = merged_root rx ry t r)))"
    by blast
qed (rule has_root_unique)

subsection \<open>Sequences of unions on a new forest\<close>

text \<open>Two elements are in one set.\<close>

definition joined :: "dsf \<Rightarrow> (nat \<times> nat) set" where
  "joined f = {(a, b). a < dsf_size f \<and> b < dsf_size f \<and>
     (\<exists>r. has_root (dsf_parents f) a r \<and> has_root (dsf_parents f) b r)}"

lemma joined_same_set: "joined = ranked.same_set"
  by (auto simp: joined_def ranked.same_set_def fun_eq_iff)

lemma joined_rtrancl: "dsf_inv by_rank f \<Longrightarrow> a < dsf_size f \<Longrightarrow> (a, b) \<in> (joined f)\<^sup>* \<longleftrightarrow> (a, b) \<in> joined f"
  using ranked.same_set_rtrancl plain.same_set_rtrancl by (cases by_rank) (auto simp flip: joined_same_set)

lemma unions_correct:
  assumes "\<forall>(x, y) \<in> set us. x < n \<and> y < n"
  shows "\<exists>f f'. dsf_Init by_rank n f0 = Some f \<and> foreach (\<lambda>(x, y). Union by_rank x y) us f = Some f' \<and>
    dsf_inv by_rank f' \<and> dsf_size f' = n \<and> (joined f')\<^sup>* = (set us \<union> (set us)\<inverse>)\<^sup>*"
proof -
  define f where "f = \<lparr>dsf_size = n, dsf_parents = [0..<n], dsf_ranks = (if by_rank then replicate n 0 else dsf_ranks f0)\<rparr>"
  have f: "dsf_Init by_rank n f0 = Some f" "dsf_inv by_rank f" "dsf_size f = n" "dsf_parents f = [0..<n]"
    using dsf_inv_Init by (simp_all add: dsf_Init_eq f_def)
  have us: "\<forall>(x, y) \<in> set us. x < dsf_size f \<and> y < dsf_size f" using assms f(3) by simp
  have "\<exists>f'. foreach (\<lambda>(x, y). Union by_rank x y) us f = Some f' \<and> dsf_inv by_rank f' \<and> dsf_size f' = dsf_size f \<and>
      (joined f')\<^sup>* = (joined f \<union> set us \<union> (set us)\<inverse>)\<^sup>*"
    using ranked.unions_closure [OF _ us] plain.unions_closure [OF _ us] f(2)
    by (cases by_rank) (simp_all flip: joined_same_set)
  moreover have "joined f \<subseteq> Id" using f(3,4) by (auto simp: joined_def has_root_singletons)
  then have "(joined f \<union> set us \<union> (set us)\<inverse>)\<^sup>* = (set us \<union> (set us)\<inverse>)\<^sup>*"
    by (intro rtrancl_subset) auto
  ultimately show ?thesis using f by auto
qed

lemma SameSet_joined:
  assumes "dsf_inv by_rank f" and "a < dsf_size f" and "b < dsf_size f"
  shows "\<exists>f'. SameSet a b f = Some ((a, b) \<in> joined f, f') \<and> dsf_inv by_rank f' \<and> joined f' = joined f"
proof -
  from FindRoot_correct [OF assms(1,2)] obtain ra f1 where
    f1: "FindRoot a f = Some (ra, f1)" "has_root (dsf_parents f) a ra" "dsf_inv by_rank f1" "dsf_size f1 = dsf_size f"
      "has_root (dsf_parents f1) = has_root (dsf_parents f)" by blast
  from FindRoot_correct [OF f1(3), of b] assms(3) f1 obtain rb f2 where
    f2: "FindRoot b f1 = Some (rb, f2)" "has_root (dsf_parents f) b rb" "dsf_inv by_rank f2" "dsf_size f2 = dsf_size f"
      "has_root (dsf_parents f2) = has_root (dsf_parents f)" by auto
  have "(a, b) \<in> joined f \<longleftrightarrow> (\<exists>r. has_root (dsf_parents f) a r \<and> has_root (dsf_parents f) b r)"
    using assms(2,3) by (simp add: joined_def)
  also have "\<dots> \<longleftrightarrow> ra = rb" using has_root_unique f1(2) f2(2) by metis
  finally have "SameSet a b f = Some ((a, b) \<in> joined f, f2)" using f1(1) f2(1) by (simp add: SameSet_def)
  moreover have "joined f2 = joined f" by (simp add: joined_def f2(4,5))
  ultimately show ?thesis using f2(3) by blast
qed

text \<open>
  C17: The disjoint-set forest implements the equivalence closure. After \<open>Init\<close> and any sequence of
  unions of existing elements, with or without union by rank, no operation aborts or runs
  forever and \<open>SameSet\<close> decides whether the two elements are connected by the united pairs.
\<close>

theorem union_find_refines:
  assumes "\<forall>(x, y) \<in> set us. x < n \<and> y < n" and "a < n" and "b < n"
  shows "\<exists>f f' f''. dsf_Init by_rank n f0 = Some f \<and> foreach (\<lambda>(x, y). Union by_rank x y) us f = Some f' \<and>
    SameSet a b f' = Some ((a, b) \<in> (set us \<union> (set us)\<inverse>)\<^sup>*, f'')"
proof -
  from unions_correct [OF assms(1), of by_rank f0] obtain f f' where
    f': "dsf_Init by_rank n f0 = Some f" "foreach (\<lambda>(x, y). Union by_rank x y) us f = Some f'"
      "dsf_inv by_rank f'" "dsf_size f' = n" "(joined f')\<^sup>* = (set us \<union> (set us)\<inverse>)\<^sup>*" by blast
  then show ?thesis using SameSet_joined [OF f'(3), of a b] joined_rtrancl [OF f'(3), of a b] assms(2,3) by auto
qed

theorem union_find_refines_witness:
  "\<exists>f f' f''. dsf_Init True 5 empty_dsf = Some f \<and>
    foreach (\<lambda>(x, y). Union True x y) [(0, 1), (2, 3), (1, 3)] f = Some f' \<and>
    SameSet 0 2 f' = Some (True, f'')"
proof -
  let ?us = "[(0, 1), (2, 3), (1, 3)] :: (nat \<times> nat) list"
  have "(0, 1) \<in> set ?us \<union> (set ?us)\<inverse>" "(1, 3) \<in> set ?us \<union> (set ?us)\<inverse>" "(3, 2) \<in> set ?us \<union> (set ?us)\<inverse>" by auto
  then have "(0, 2) \<in> (set ?us \<union> (set ?us)\<inverse>)\<^sup>*" by (meson converse_rtrancl_into_rtrancl r_into_rtrancl)
  then show ?thesis using union_find_refines [of ?us 5 0 2 True empty_dsf] by auto
qed

text \<open>
  C25: Union by rank keeps the trees shallow. After any sequence of unions on \<open>n\<close> elements every rank
  is at most the logarithm of \<open>n\<close> and ranks strictly increase towards the root, so that the
  ranks fit every index type that holds \<open>n\<close> and paths have logarithmic length.
\<close>

theorem rank_logarithmic:
  assumes "\<forall>(x, y) \<in> set us. x < n \<and> y < n" and "x < n"
    and "dsf_Init True n f0 = Some f" and "foreach (\<lambda>(x, y). Union True x y) us f = Some f'"
  shows "2 ^ (dsf_ranks f' ! x) \<le> n \<and>
    (dsf_parents f' ! x \<noteq> x \<longrightarrow> dsf_ranks f' ! x < dsf_ranks f' ! (dsf_parents f' ! x))"
proof -
  have f': "dsf_inv True f'" "dsf_size f' = n" using unions_correct [OF assms(1), of True f0] assms(3,4) by auto
  then have ri: "rank_inv (dsf_parents f') (dsf_ranks f')" "in_bounds (dsf_parents f')" "length (dsf_parents f') = n"
    by (auto simp: dsf_inv_def)
  obtain r where r: "has_root (dsf_parents f') x r" using f' assms(2) by (auto simp: dsf_inv_def)
  have "r < n" using has_root_bound [OF r ri(2)] ri(3) assms(2) by simp
  then have "2 ^ (dsf_ranks f' ! r) \<le> card (set_of (dsf_parents f') r)"
    using ri(1,3) has_root_is_root [OF r] by (auto simp: rank_inv_def)
  also have "\<dots> \<le> card {..< n}" by (rule card_mono) (auto simp: set_of_def ri(3))
  finally have "2 ^ (dsf_ranks f' ! r) \<le> n" by simp
  moreover have "(2::nat) ^ (dsf_ranks f' ! x) \<le> 2 ^ (dsf_ranks f' ! r)"
    using rank_increases [OF ri(1,2) r] ri(3) assms(2) by (intro power_increasing) auto
  ultimately have "2 ^ (dsf_ranks f' ! x) \<le> n" by (rule order_trans [rotated])
  then show ?thesis using ri assms(2) by (auto simp: rank_inv_def)
qed

theorem rank_logarithmic_witness:
  "\<exists>f f'. dsf_Init True 4 empty_dsf = Some f \<and> foreach (\<lambda>(x, y). Union True x y) [(0, 1), (2, 3), (0, 2)] f = Some f' \<and>
     2 ^ (dsf_ranks f' ! 3) \<le> (4::nat)"
proof -
  let ?us = "[(0, 1), (2, 3), (0, 2)] :: (nat \<times> nat) list"
  obtain f f' where f: "dsf_Init True 4 empty_dsf = Some f" "foreach (\<lambda>(x, y). Union True x y) ?us f = Some f'"
    using unions_correct [of ?us 4 True empty_dsf] by auto
  then show ?thesis using rank_logarithmic [of ?us 4 3 empty_dsf f f'] by auto
qed

end
