(* ===== verification/Spanning_Tree_Iterator.thy ===== *)
theory Spanning_Tree_Iterator
  imports Disjoint_Set_Forest
begin

text \<open>
  \<^verbatim>\<open>dragnn/mst/spanning_tree_iterator.{h,cc}\<close>: brute-force enumeration of the spanning trees (or
  forests) of the complete digraph. A tree is the list of the sources of the inbound arcs, a
  root is its own source. The functor passed to \<^verbatim>\<open>ForEachTree\<close> is modelled by the list of the
  arguments it is called with. The workspaces of \<^verbatim>\<open>HasCycle\<close> are arguments of its loops. The
  two loops along sources terminate because each step sets a flag; the search for the next
  tree is a partial function that the lemmas show to be total.

  Lemmas: \<open>HasCycle\<close> decides whether some node has no root; \<open>NextSourceList\<close> counts in base \<open>n\<close>;
  hence \<open>ForEachTree\<close> visits every tree exactly once.
\<close>

function cycle_visit :: "nat list \<Rightarrow> bool list \<Rightarrow> bool list \<Rightarrow> nat \<Rightarrow> (bool \<times> bool list) option" where
  "cycle_visit sources searched visiting current_node = do {
     s \<leftarrow> vec_at searched (int current_node);
     if s then Some (False, visiting)
     else do {
       v \<leftarrow> vec_at visiting (int current_node);
       if v then Some (True, visiting)
       else do {
         visiting' \<leftarrow> vec_set visiting (int current_node) True;
         source_node \<leftarrow> vec_at sources (int current_node);
         if source_node = current_node then Some (False, visiting')
         else cycle_visit sources searched visiting' source_node } } }"
  by pat_completeness auto
termination
proof (relation "measure (\<lambda>(sources, searched, visiting, current_node). count_list visiting False)")
  fix sources :: "nat list" and searched :: "bool list" and visiting current_node s v visiting' source_node
  assume "vec_at visiting (int current_node) = Some v" and "\<not> v" and "vec_set visiting (int current_node) True = Some visiting'"
  then have "current_node < length visiting" "\<not> visiting ! current_node" "visiting' = visiting[current_node := True]"
    by (auto simp: vec_at_eq_Some vec_set_eq_Some)
  then have "count_list visiting' False < count_list visiting False"
    by (simp add: count_list_flag)
  then show "((sources, searched, visiting', source_node), sources, searched, visiting, current_node)
      \<in> measure (\<lambda>(sources, searched, visiting, current_node). count_list visiting False)" by simp
qed simp

function cycle_mark :: "nat list \<Rightarrow> bool list \<Rightarrow> bool list \<Rightarrow> nat \<Rightarrow> (bool list \<times> bool list) option" where
  "cycle_mark sources searched visiting current_node = do {
     s \<leftarrow> vec_at searched (int current_node);
     if s then Some (searched, visiting)
     else do {
       searched' \<leftarrow> vec_set searched (int current_node) True;
       visiting \<leftarrow> vec_set visiting (int current_node) False;
       source_node \<leftarrow> vec_at sources (int current_node);
       if source_node = current_node then Some (searched', visiting)
       else cycle_mark sources searched' visiting source_node } }"
  by pat_completeness auto
termination
proof (relation "measure (\<lambda>(sources, searched, visiting, current_node). count_list searched False)")
  fix sources :: "nat list" and searched :: "bool list" and visiting visiting' :: "bool list" and current_node s searched' source_node
  assume "vec_at searched (int current_node) = Some s" and "\<not> s" and "vec_set searched (int current_node) True = Some searched'"
  then have "current_node < length searched" "\<not> searched ! current_node" "searched' = searched[current_node := True]"
    by (auto simp: vec_at_eq_Some vec_set_eq_Some)
  then have "count_list searched' False < count_list searched False"
    by (simp add: count_list_flag)
  then show "((sources, searched', visiting', source_node), sources, searched, visiting, current_node)
      \<in> measure (\<lambda>(sources, searched, visiting, current_node). count_list searched False)" by simp
qed simp

declare cycle_visit.simps [simp del] cycle_mark.simps [simp del]

fun has_cycle_loop :: "nat list \<Rightarrow> nat list \<Rightarrow> bool list \<Rightarrow> bool list \<Rightarrow> bool option" where
  "has_cycle_loop sources [] searched visiting = Some False"
| "has_cycle_loop sources (initial_node # rest) searched visiting = do {
     (cycle, visiting) \<leftarrow> cycle_visit sources searched visiting initial_node;
     if cycle then Some True
     else do {
       (searched, visiting) \<leftarrow> cycle_mark sources searched visiting initial_node;
       has_cycle_loop sources rest searched visiting } }"

definition HasCycle :: "nat list \<Rightarrow> bool option" where
  "HasCycle sources =
     (let n = length sources in has_cycle_loop sources [0..<n] (replicate n False) (replicate n False))"

definition NumRoots :: "nat list \<Rightarrow> nat" where
  "NumRoots sources = foldl (\<lambda>num_roots node. num_roots + of_bool (node = sources ! node)) 0 [0..<length sources]"

text \<open>The increment wraps as \<^verbatim>\<open>uint32\<close> does; \<open>num_nodes\<close> is the length of the whole list.\<close>

fun next_source_loop :: "nat \<Rightarrow> nat list \<Rightarrow> bool \<times> nat list" where
  "next_source_loop num_nodes [] = (False, [])"
| "next_source_loop num_nodes (source # rest) =
     (let new_source = nat ((int source + 1) mod 2 ^ 32) in
      if new_source < num_nodes then (True, new_source # rest)
      else let (b, rest) = next_source_loop num_nodes rest in (b, 0 # rest))"

definition NextSourceList :: "nat list \<Rightarrow> bool \<times> nat list" where
  "NextSourceList sources = next_source_loop (length sources) sources"

partial_function (option) NextTree :: "bool \<Rightarrow> nat list \<Rightarrow> (bool \<times> nat list) option" where
  "NextTree forest sources =
     (let (more, sources) = NextSourceList sources in
      if more then
        let num_roots = NumRoots sources in
        if (if forest then num_roots = 0 else num_roots \<noteq> 1) then NextTree forest sources
        else do {
          cycle \<leftarrow> HasCycle sources;
          if cycle then NextTree forest sources else Some (True, sources) }
      else Some (False, sources))"

partial_function (option) for_each_tree_loop :: "bool \<Rightarrow> nat list \<Rightarrow> nat list list option" where
  "for_each_tree_loop forest sources = do {
     (more, sources') \<leftarrow> NextTree forest sources;
     if more then do { rest \<leftarrow> for_each_tree_loop forest sources'; Some (sources # rest) } else Some [sources] }"

declare NextTree.simps [code] for_each_tree_loop.simps [code]

definition ForEachTree :: "bool \<Rightarrow> nat \<Rightarrow> nat list list option" where
  "ForEachTree forest num_nodes = for_each_tree_loop forest (replicate num_nodes 0)"

subsection \<open>Cycle detection\<close>

text \<open>One step towards the root.\<close>

definition source_step :: "nat list \<Rightarrow> (nat \<times> nat) set" where
  "source_step ss = {(x, ss ! x) | x. ss ! x \<noteq> x}"

lemma root_reach: "(x, y) \<in> (source_step ss)\<^sup>* \<Longrightarrow> has_root ss x r \<Longrightarrow> has_root ss y r"
  by (induction rule: rtrancl_induct) (auto simp: source_step_def has_root_step)

lemma step_cycle:
  assumes "(x, x) \<in> (source_step ss)\<^sup>+"
  shows "(ss ! x, ss ! x) \<in> (source_step ss)\<^sup>+" and "ss ! x \<noteq> x"
proof -
  obtain y where y: "(x, y) \<in> source_step ss" "(y, x) \<in> (source_step ss)\<^sup>*" using assms by (meson tranclD)
  then have e: "y = ss ! x" "ss ! x \<noteq> x" by (auto simp: source_step_def)
  then show "ss ! x \<noteq> x" by simp
  show "(ss ! x, ss ! x) \<in> (source_step ss)\<^sup>+" using y e by (metis rtrancl_into_trancl1)
qed

lemma no_cycle: "has_root ss x r \<Longrightarrow> (x, x) \<notin> (source_step ss)\<^sup>+"
  by (induction rule: has_root.induct) (use step_cycle in blast)+

text \<open>The nodes on the way from a node to its root that are not yet searched.\<close>

definition upwards :: "nat list \<Rightarrow> bool list \<Rightarrow> nat \<Rightarrow> nat set" where
  "upwards ss searched x = {y. (x, y) \<in> (source_step ss)\<^sup>* \<and> \<not> searched ! y}"

definition searched_inv :: "nat list \<Rightarrow> bool list \<Rightarrow> bool" where
  "searched_inv ss searched \<longleftrightarrow> length searched = length ss \<and>
     (\<forall>x < length ss. searched ! x \<longrightarrow> searched ! (ss ! x) \<and> (\<exists>r. has_root ss x r))"

lemma step_bound: "(x, y) \<in> (source_step ss)\<^sup>* \<Longrightarrow> in_bounds ss \<Longrightarrow> x < length ss \<Longrightarrow> y < length ss"
  by (induction rule: rtrancl_induct) (auto simp: source_step_def in_boundsD)

lemma searched_up:
  assumes "searched_inv ss searched" and "in_bounds ss"
  shows "(x, y) \<in> (source_step ss)\<^sup>* \<Longrightarrow> x < length ss \<Longrightarrow> searched ! x \<Longrightarrow> searched ! y"
proof (induction rule: rtrancl_induct)
  case (step y z)
  then show ?case using assms step_bound [OF step.hyps(1) assms(2)] by (auto simp: source_step_def searched_inv_def)
qed

lemma upwards_searched: "searched_inv ss searched \<Longrightarrow> in_bounds ss \<Longrightarrow> x < length ss \<Longrightarrow> searched ! x \<Longrightarrow> upwards ss searched x = {}"
  using searched_up by (auto simp: upwards_def)

lemma step_rtrancl: "ss ! x \<noteq> x \<Longrightarrow> (x, y) \<in> (source_step ss)\<^sup>* \<longleftrightarrow> y = x \<or> (ss ! x, y) \<in> (source_step ss)\<^sup>*"
proof -
  assume n: "ss ! x \<noteq> x"
  then have "(x, z) \<in> source_step ss \<longleftrightarrow> z = ss ! x" for z by (auto simp: source_step_def)
  then show ?thesis by (metis converse_rtranclE converse_rtrancl_into_rtrancl rtrancl.rtrancl_refl)
qed

lemma upwards_step:
  assumes "\<not> searched ! x"
  shows "ss ! x = x \<Longrightarrow> upwards ss searched x = {x}"
    and "ss ! x \<noteq> x \<Longrightarrow> upwards ss searched x = insert x (upwards ss searched (ss ! x))"
proof -
  show "upwards ss searched x = {x}" if "ss ! x = x"
  proof -
    have "(x, y) \<in> (source_step ss)\<^sup>* \<Longrightarrow> y = x" for y using that by (auto elim: converse_rtranclE simp: source_step_def)
    then show ?thesis using assms by (auto simp: upwards_def)
  qed
  show "upwards ss searched x = insert x (upwards ss searched (ss ! x))" if "ss ! x \<noteq> x"
    using assms by (auto simp: upwards_def step_rtrancl [OF that])
qed

text \<open>The first loop, from a node that has a root, marks the way up; from one that has none, it reports a cycle.\<close>

lemma cycle_visit_root:
  assumes inv: "searched_inv ss searched" "in_bounds ss"
  shows "has_root ss x r \<Longrightarrow> x < length ss \<Longrightarrow> length visiting = length ss \<Longrightarrow>
    (\<forall>y < length ss. visiting ! y \<longrightarrow> (y, x) \<in> (source_step ss)\<^sup>+) \<Longrightarrow>
    \<exists>v. cycle_visit ss searched visiting x = Some (False, v) \<and> length v = length ss \<and>
      (\<forall>y < length ss. v ! y \<longleftrightarrow> visiting ! y \<or> y \<in> upwards ss searched x)"
proof (induction arbitrary: visiting rule: has_root.induct)
  case (is_root x)
  have "\<not> visiting ! x" using is_root.prems no_cycle [OF has_root.is_root [OF is_root.hyps]] by auto
  then show ?case using is_root inv upwards_searched [OF inv is_root.prems(1)] upwards_step(1) [of searched x ss]
    by (cases "searched ! x") (auto simp: cycle_visit.simps [of ss searched visiting x] searched_inv_def nth_list_update)
next
  case (go_up x r)
  note x = go_up.hyps(1) and lt = go_up.prems(1) and len = go_up.prems(2)
  have nv: "\<not> visiting ! x" using go_up.prems no_cycle [OF has_root.go_up [OF go_up.hyps]] by auto
  show ?case
  proof (cases "searched ! x")
    case True
    then show ?thesis using lt len inv upwards_searched [OF inv lt]
      by (auto simp: cycle_visit.simps [of ss searched visiting x] searched_inv_def)
  next
    case False
    let ?v = "visiting[x := True]"
    have e: "(x, ss ! x) \<in> source_step ss" using x by (auto simp: source_step_def)
    have "\<forall>y < length ss. ?v ! y \<longrightarrow> (y, ss ! x) \<in> (source_step ss)\<^sup>+"
    proof (intro allI impI)
      fix y assume y: "y < length ss" "?v ! y"
      show "(y, ss ! x) \<in> (source_step ss)\<^sup>+"
      proof (cases "y = x")
        case True
        then show ?thesis using e by auto
      next
        case False
        then have "(y, x) \<in> (source_step ss)\<^sup>+" using y go_up.prems(3) by auto
        then show ?thesis using e by (rule trancl_into_trancl)
      qed
    qed
    from go_up.IH [OF in_boundsD [OF inv(2) lt], of ?v] this len obtain v where
      v: "cycle_visit ss searched ?v (ss ! x) = Some (False, v)" "length v = length ss"
        "\<forall>y < length ss. v ! y \<longleftrightarrow> ?v ! y \<or> y \<in> upwards ss searched (ss ! x)" by auto
    have "cycle_visit ss searched visiting x = Some (False, v)"
      using lt len inv(1) False nv x v(1) by (simp add: cycle_visit.simps [of ss searched visiting x] searched_inv_def)
    moreover have "v ! y \<longleftrightarrow> visiting ! y \<or> y \<in> upwards ss searched x" if "y < length ss" for y
      using v(3) that len lt by (auto simp: upwards_step(2) [OF False x] nth_list_update)
    ultimately show ?thesis using v(2) by blast
  qed
qed

lemma cycle_visit_cycle:
  assumes inv: "searched_inv ss searched" "in_bounds ss"
  shows "\<not> (\<exists>r. has_root ss x r) \<Longrightarrow> x < length ss \<Longrightarrow> length visiting = length ss \<Longrightarrow>
    \<exists>v. cycle_visit ss searched visiting x = Some (True, v)"
proof (induction "count_list visiting False" arbitrary: visiting x rule: less_induct)
  case less
  have ns: "\<not> searched ! x" using less.prems(1,2) inv by (auto simp: searched_inv_def)
  have nx: "ss ! x \<noteq> x" using less.prems(1) has_root.is_root by auto
  show ?case
  proof (cases "visiting ! x")
    case True
    then show ?thesis using less.prems ns inv by (simp add: cycle_visit.simps [of ss searched visiting x] searched_inv_def)
  next
    case False
    have "\<not> (\<exists>r. has_root ss (ss ! x) r)" using less.prems(1) nx has_root.go_up by blast
    from less.hyps [of "visiting[x := True]", OF _ this] count_list_flag [of x visiting] False less.prems in_boundsD [OF inv(2)]
    obtain v where "cycle_visit ss searched (visiting[x := True]) (ss ! x) = Some (True, v)" by auto
    then show ?thesis using less.prems ns False nx inv by (simp add: cycle_visit.simps [of ss searched visiting x] searched_inv_def)
  qed
qed

text \<open>The second loop marks the way up as searched and clears the flags of the first.\<close>

lemma cycle_mark_root:
  assumes inv: "searched_inv ss searched0" "in_bounds ss"
  shows "has_root ss x r \<Longrightarrow> x < length ss \<Longrightarrow> length visiting = length ss \<Longrightarrow> length searched = length ss \<Longrightarrow>
    (\<forall>y < length ss. searched0 ! y \<longrightarrow> searched ! y) \<Longrightarrow>
    (\<forall>y < length ss. searched ! y \<longrightarrow> searched0 ! y \<or> (y, x) \<in> (source_step ss)\<^sup>+) \<Longrightarrow>
    \<exists>s v. cycle_mark ss searched visiting x = Some (s, v) \<and> length s = length ss \<and> length v = length ss \<and>
      (\<forall>y < length ss. s ! y \<longleftrightarrow> searched ! y \<or> y \<in> upwards ss searched0 x) \<and>
      (\<forall>y < length ss. v ! y \<longleftrightarrow> visiting ! y \<and> y \<notin> upwards ss searched0 x)"
proof (induction arbitrary: visiting searched rule: has_root.induct)
  case (is_root x)
  have s: "searched ! x \<longleftrightarrow> searched0 ! x" using is_root.prems no_cycle [OF has_root.is_root [OF is_root.hyps]] by auto
  then show ?case using is_root upwards_searched [OF inv is_root.prems(1)] upwards_step(1) [of searched0 x ss]
    by (cases "searched ! x") (auto simp: cycle_mark.simps [of ss searched visiting x] nth_list_update)
next
  case (go_up x r)
  note x = go_up.hyps(1) and lt = go_up.prems(1) and len = go_up.prems(2,3)
  have s: "searched ! x \<longleftrightarrow> searched0 ! x" using go_up.prems no_cycle [OF has_root.go_up [OF go_up.hyps]] by auto
  show ?case
  proof (cases "searched ! x")
    case True
    then show ?thesis using lt len s upwards_searched [OF inv lt]
      by (auto simp: cycle_mark.simps [of ss searched visiting x])
  next
    case False
    let ?s = "searched[x := True]" and ?v = "visiting[x := False]"
    have e: "(x, ss ! x) \<in> source_step ss" using x by (auto simp: source_step_def)
    have up: "\<forall>y < length ss. ?s ! y \<longrightarrow> searched0 ! y \<or> (y, ss ! x) \<in> (source_step ss)\<^sup>+"
    proof (intro allI impI)
      fix y assume y: "y < length ss" "?s ! y"
      show "searched0 ! y \<or> (y, ss ! x) \<in> (source_step ss)\<^sup>+"
      proof (cases "y = x")
        case True
        then show ?thesis using e by auto
      next
        case False
        then have "searched0 ! y \<or> (y, x) \<in> (source_step ss)\<^sup>+" using y go_up.prems(5) by auto
        then show ?thesis using e trancl_into_trancl by metis
      qed
    qed
    have sub: "\<forall>y < length ss. searched0 ! y \<longrightarrow> ?s ! y" using go_up.prems(4) len lt by (simp add: nth_list_update)
    from go_up.IH [OF in_boundsD [OF inv(2) lt] _ _ sub up, of ?v] len obtain s' v' where
      v: "cycle_mark ss ?s ?v (ss ! x) = Some (s', v')" "length s' = length ss" "length v' = length ss"
        "\<forall>y < length ss. s' ! y \<longleftrightarrow> ?s ! y \<or> y \<in> upwards ss searched0 (ss ! x)"
        "\<forall>y < length ss. v' ! y \<longleftrightarrow> ?v ! y \<and> y \<notin> upwards ss searched0 (ss ! x)" by auto
    have n0: "\<not> searched0 ! x" using s False by simp
    have "cycle_mark ss searched visiting x = Some (s', v')"
      using lt len False x v(1) by (simp add: cycle_mark.simps [of ss searched visiting x])
    moreover have "s' ! y \<longleftrightarrow> searched ! y \<or> y \<in> upwards ss searched0 x"
        "v' ! y \<longleftrightarrow> visiting ! y \<and> y \<notin> upwards ss searched0 x" if "y < length ss" for y
      using v(4,5) that len lt by (auto simp: upwards_step(2) [OF n0 x] nth_list_update)
    ultimately show ?thesis using v(2,3) by blast
  qed
qed

lemma searched_inv_mark:
  assumes inv: "searched_inv ss searched" "in_bounds ss" and x: "has_root ss x r" "x < length ss"
    and s: "length s = length ss" "\<forall>y < length ss. s ! y \<longleftrightarrow> searched ! y \<or> y \<in> upwards ss searched x"
  shows "searched_inv ss s" and "s ! x"
proof -
  show "s ! x" using s(2) x by (auto simp: upwards_def)
  have "s ! (ss ! y) \<and> (\<exists>r. has_root ss y r)" if "y < length ss" "s ! y" for y
  proof -
    have b: "ss ! y < length ss" using in_boundsD [OF inv(2) that(1)] .
    show ?thesis
    proof (cases "searched ! y")
      case True
      then show ?thesis using inv(1) that(1) s b by (auto simp: searched_inv_def)
    next
      case False
      then have y: "(x, y) \<in> (source_step ss)\<^sup>*" using s(2) that by (auto simp: upwards_def)
      then have "(x, ss ! y) \<in> (source_step ss)\<^sup>*"
        by (cases "ss ! y = y") (auto simp: source_step_def intro: rtrancl_into_rtrancl)
      then show ?thesis using s(2) b root_reach [OF y x(1)] by (auto simp: upwards_def)
    qed
  qed
  then show "searched_inv ss s" using s(1) by (auto simp: searched_inv_def)
qed

lemma has_cycle_loop_correct:
  assumes b: "in_bounds ss"
  shows "searched_inv ss searched \<Longrightarrow> visiting = replicate (length ss) False \<Longrightarrow> \<forall>x \<in> set nodes. x < length ss \<Longrightarrow>
    has_cycle_loop ss nodes searched visiting = Some (\<not> (\<forall>x \<in> set nodes. \<exists>r. has_root ss x r))"
proof (induction nodes arbitrary: searched visiting)
  case (Cons x nodes)
  have x: "x < length ss" and len: "length visiting = length ss" using Cons.prems by auto
  have empty: "\<forall>y < length ss. \<not> visiting ! y" using Cons.prems(2) by simp
  show ?case
  proof (cases "\<exists>r. has_root ss x r")
    case False
    then show ?thesis using cycle_visit_cycle [OF Cons.prems(1) b False x len] by auto
  next
    case True
    then obtain r where r: "has_root ss x r" by blast
    from cycle_visit_root [OF Cons.prems(1) b r x len] empty obtain v where
      v: "cycle_visit ss searched visiting x = Some (False, v)" "length v = length ss"
        "\<forall>y < length ss. v ! y \<longleftrightarrow> y \<in> upwards ss searched x" by auto
    have ls: "length searched = length ss" using Cons.prems(1) by (simp add: searched_inv_def)
    from cycle_mark_root [OF Cons.prems(1) b r x v(2) ls] v(3) obtain s v' where
      m: "cycle_mark ss searched v x = Some (s, v')" "length s = length ss" "length v' = length ss"
        "\<forall>y < length ss. s ! y \<longleftrightarrow> searched ! y \<or> y \<in> upwards ss searched x" "\<forall>y < length ss. \<not> v' ! y" by auto
    have "v' = replicate (length ss) False" using m(3,5) by (intro nth_equalityI) auto
    with Cons.IH [OF searched_inv_mark(1) [OF Cons.prems(1) b r x m(2,4)]] Cons.prems(3) v(1) m(1) True
    show ?thesis by auto
  qed
qed simp

lemma HasCycle_correct:
  "in_bounds ss \<Longrightarrow> HasCycle ss = Some (\<not> (\<forall>x < length ss. \<exists>r. has_root ss x r))"
  unfolding HasCycle_def Let_def
  by (subst has_cycle_loop_correct) (auto simp: searched_inv_def)

subsection \<open>Counting\<close>

text \<open>The digits of a number in base \<open>n\<close>, least significant first.\<close>

fun digits :: "nat \<Rightarrow> nat \<Rightarrow> nat \<Rightarrow> nat list" where
  "digits n 0 v = []"
| "digits n (Suc k) v = v mod n # digits n k (v div n)"

lemma length_digits [simp]: "length (digits n k v) = k"
  by (induction k arbitrary: v) auto

lemma digits_less: "0 < n \<Longrightarrow> x \<in> set (digits n k v) \<Longrightarrow> x < n"
  by (induction k arbitrary: v) auto

lemma digits_0 [simp]: "digits n k 0 = replicate k 0"
  by (induction k) auto

lemma digits_onto:
  "0 < n \<Longrightarrow> \<forall>x \<in> set xs. x < n \<Longrightarrow> \<exists>v < n ^ length xs. digits n (length xs) v = xs"
proof (induction xs)
  case (Cons x xs)
  then obtain v where v: "v < n ^ length xs" "digits n (length xs) v = xs" by auto
  have "x + n * v < n * n ^ length xs"
  proof -
    have "x + n * v < n + n * v" using Cons.prems by simp
    also have "\<dots> = n * Suc v" by simp
    also have "\<dots> \<le> n * n ^ length xs" using v(1) by (intro mult_le_mono2) simp
    finally show ?thesis .
  qed
  then show ?case using v Cons.prems by (intro exI [of _ "x + n * v"]) simp
qed simp

lemma digits_inj: "0 < n \<Longrightarrow> v < n ^ k \<Longrightarrow> w < n ^ k \<Longrightarrow> digits n k v = digits n k w \<Longrightarrow> v = w"
proof (induction k arbitrary: v w)
  case (Suc k)
  have "v div n < n ^ k" "w div n < n ^ k" using Suc.prems(1-3) by (simp_all add: div_less_iff_less_mult mult.commute)
  with Suc have "v div n = w div n" "v mod n = w mod n" by auto
  then show ?case by (metis div_mult_mod_eq)
qed simp

lemma next_digits:
  "0 < n \<Longrightarrow> n < 2 ^ 32 \<Longrightarrow> v < n ^ k \<Longrightarrow>
     next_source_loop n (digits n k v) = (Suc v < n ^ k, if Suc v < n ^ k then digits n k (Suc v) else replicate k 0)"
proof (induction k arbitrary: v)
  case (Suc k)
  have lt: "v div n < n ^ k" using Suc.prems by (simp add: div_less_iff_less_mult mult.commute)
  have "int (v mod n) + 1 < 2 ^ 32"
  proof -
    have "v mod n + 1 \<le> n" using Suc.prems(1) by (simp add: Suc_leI)
    moreover have "int n < int (2 ^ 32)" using Suc.prems(2) by (simp only: of_nat_less_iff)
    ultimately show ?thesis by simp
  qed
  then have w: "nat ((int (v mod n) + 1) mod 2 ^ 32) = Suc (v mod n)" by (simp add: nat_eq_iff)
  have e: "next_source_loop n (digits n (Suc k) v) = (if Suc (v mod n) < n then (True, Suc (v mod n) # digits n k (v div n))
      else let (b, rest) = next_source_loop n (digits n k (v div n)) in (b, 0 # rest))"
    by (simp only: digits.simps next_source_loop.simps w Let_def)
  show ?case
  proof (cases "Suc (v mod n) < n")
    case True
    then have m: "Suc v mod n = Suc (v mod n)" "Suc v div n = v div n" by (auto simp: mod_Suc div_Suc)
    have "Suc v < n ^ Suc k"
      using lt m(2) Suc.prems(1) by (metis div_less_iff_less_mult mult.commute power_Suc)
    then show ?thesis using True e m by simp
  next
    case False
    then have n: "Suc (v mod n) = n" using Suc.prems(1) mod_less_divisor [of n v] by linarith
    then have m: "Suc v mod n = 0" "Suc v div n = Suc (v div n)" by (auto simp: mod_Suc div_Suc)
    have "Suc v < n ^ Suc k \<longleftrightarrow> Suc (v div n) < n ^ k"
      using m(2) Suc.prems(1) by (metis div_less_iff_less_mult mult.commute power_Suc)
    then show ?thesis using False e m Suc.IH [OF Suc.prems(1,2) lt] by simp
  qed
qed simp

lemma NumRoots_eq: "NumRoots ss = card {x. x < length ss \<and> ss ! x = x}"
proof -
  have "foldl (\<lambda>c x. c + of_bool (x = ss ! x)) 0 [0..<k] = card {x. x < k \<and> ss ! x = x}" for k
  proof (induction k)
    case (Suc k)
    have "{x. x < Suc k \<and> ss ! x = x} = (if ss ! k = k then insert k {x. x < k \<and> ss ! x = x} else {x. x < k \<and> ss ! x = x})"
      by (auto simp: less_Suc_eq)
    then show ?case using Suc by auto
  qed simp
  then show ?thesis by (simp add: NumRoots_def)
qed

text \<open>Spanning trees (forests) of the complete digraph on \<open>n\<close> nodes, as lists of sources.\<close>

definition spanning :: "bool \<Rightarrow> nat list \<Rightarrow> bool" where
  "spanning forest ss \<longleftrightarrow> (\<forall>x \<in> set ss. x < length ss) \<and> (\<forall>x < length ss. \<exists>r. has_root ss x r) \<and>
     (forest \<or> card {x. x < length ss \<and> ss ! x = x} = 1)"

lemma spanning_test:
  assumes "in_bounds ss" and "ss \<noteq> []"
  shows "(if (if forest then NumRoots ss = 0 else NumRoots ss \<noteq> 1) then Some False
          else do { cycle \<leftarrow> HasCycle ss; Some (\<not> cycle) }) = Some (spanning forest ss)"
proof -
  have "NumRoots ss \<noteq> 0" if all: "\<forall>x < length ss. \<exists>r. has_root ss x r"
  proof -
    have "0 < length ss" using assms(2) by simp
    then obtain r where r: "has_root ss 0 r" using all by blast
    then have "r \<in> {x. x < length ss \<and> ss ! x = x}"
      using has_root_bound [OF r assms(1)] assms(2) has_root_is_root [OF r] by simp
    then show ?thesis by (auto simp: NumRoots_eq card_eq_0_iff)
  qed
  moreover have "spanning forest ss \<longleftrightarrow> (\<forall>x < length ss. \<exists>r. has_root ss x r) \<and> (forest \<or> NumRoots ss = 1)"
    using assms(1) by (auto simp: spanning_def NumRoots_eq in_bounds_def)
  ultimately show ?thesis using HasCycle_correct [OF assms(1)] by (cases forest) auto
qed

text \<open>The numbers above \<open>v\<close> whose digits are a tree.\<close>

definition trees_from :: "bool \<Rightarrow> nat \<Rightarrow> nat \<Rightarrow> nat list" where
  "trees_from forest n v = filter (\<lambda>v. spanning forest (digits n n v)) [v..<n ^ n]"

lemma NextTree_digits:
  assumes n: "0 < n" "n < 2 ^ 32"
  shows "v < n ^ n \<Longrightarrow> NextTree forest (digits n n v) =
    Some (case trees_from forest n (Suc v) of [] \<Rightarrow> (False, replicate n 0) | w # ws \<Rightarrow> (True, digits n n w))"
proof (induction "n ^ n - v" arbitrary: v rule: less_induct)
  case less
  have nx: "NextSourceList (digits n n v) = (Suc v < n ^ n, if Suc v < n ^ n then digits n n (Suc v) else replicate n 0)"
    using next_digits [OF n less.prems] by (simp add: NextSourceList_def)
  show ?case
  proof (cases "Suc v < n ^ n")
    case False
    then show ?thesis using nx by (subst NextTree.simps) (simp add: trees_from_def)
  next
    case True
    let ?ss = "digits n n (Suc v)"
    have ss: "in_bounds ?ss" "?ss \<noteq> []" using digits_less [OF n(1)] n(1) by (auto simp: in_bounds_def simp flip: length_0_conv)
    have "n ^ n - Suc v < n ^ n - v" using less.prems by simp
    note IH = less.hyps [OF this True]
    have split: "trees_from forest n (Suc v) = (if spanning forest ?ss then Suc v # trees_from forest n (Suc (Suc v))
        else trees_from forest n (Suc (Suc v)))"
      using True by (simp add: trees_from_def upt_conv_Cons)
    have "NextTree forest (digits n n v) = (if spanning forest ?ss then Some (True, ?ss) else NextTree forest ?ss)"
      using nx True spanning_test [OF ss, of forest] HasCycle_correct [OF ss(1)]
      by (subst NextTree.simps) (auto split: if_splits)
    then show ?thesis using IH split by simp
  qed
qed

lemma trees_from_Cons: "trees_from forest n v = w # ws \<Longrightarrow> trees_from forest n w = w # ws \<and> v \<le> w \<and> w < n ^ n"
proof -
  assume a: "trees_from forest n v = w # ws"
  then have w: "v \<le> w" "w < n ^ n" by (auto simp: trees_from_def filter_eq_Cons_iff dest!: arg_cong [of _ _ set])
  have "[v..<n ^ n] = [v..<w] @ [w..<n ^ n]" using w upt_add_eq_append [of v w "n ^ n - w"] by simp
  moreover have "filter (\<lambda>v. spanning forest (digits n n v)) [v..<w] = []"
  proof (rule ccontr)
    assume "filter (\<lambda>v. spanning forest (digits n n v)) [v..<w] \<noteq> []"
    then obtain u us where u: "filter (\<lambda>v. spanning forest (digits n n v)) [v..<w] = u # us" by (cases "filter (\<lambda>v. spanning forest (digits n n v)) [v..<w]") auto
    then have "u < w" by (metis atLeastLessThan_iff filter_is_subset list.set_intros(1) set_upt subsetD)
    then show False using a u \<open>[v..<n ^ n] = _\<close> by (simp add: trees_from_def)
  qed
  ultimately show ?thesis using a w by (simp add: trees_from_def)
qed

lemma for_each_tree_digits:
  assumes n: "0 < n" "n < 2 ^ 32"
  shows "v < n ^ n \<Longrightarrow> for_each_tree_loop forest (digits n n v) = Some (digits n n v # map (digits n n) (trees_from forest n (Suc v)))"
proof (induction "n ^ n - v" arbitrary: v rule: less_induct)
  case less
  show ?case
  proof (cases "trees_from forest n (Suc v)")
    case Nil
    then show ?thesis using NextTree_digits [OF n less.prems, of forest] by (subst for_each_tree_loop.simps) simp
  next
    case (Cons w ws)
    note w = trees_from_Cons [OF Cons]
    have "n ^ n - w < n ^ n - v" using w less.prems by auto
    from less.hyps [OF this] w have "for_each_tree_loop forest (digits n n w) =
      Some (digits n n w # map (digits n n) (trees_from forest n (Suc w)))" by simp
    moreover have "trees_from forest n (Suc w) = ws"
    proof -
      have "[w..<n ^ n] = w # [Suc w..<n ^ n]" using w by (simp add: upt_conv_Cons)
      moreover have "w \<in> set (trees_from forest n w)" using w by simp
      then have "spanning forest (digits n n w)" by (simp add: trees_from_def)
      ultimately show ?thesis using w by (simp add: trees_from_def)
    qed
    ultimately show ?thesis using Cons NextTree_digits [OF n less.prems, of forest]
      by (subst for_each_tree_loop.simps) simp
  qed
qed

subsection \<open>The enumeration is complete\<close>

lemma has_root_zeros: "x < n \<Longrightarrow> has_root (replicate n 0) x r \<longleftrightarrow> r = 0"
  by (cases "x = 0") (auto simp: has_root_root has_root_step)

lemma spanning_zeros: "0 < n \<Longrightarrow> spanning forest (replicate n 0)"
proof -
  assume n: "0 < n"
  have "{x. x < length (replicate n 0) \<and> replicate n 0 ! x = x} = {0::nat}" using n by auto
  then show ?thesis using n by (simp add: spanning_def has_root_zeros)
qed

lemma trees_enumerated:
  assumes "0 < n" and "n < 2 ^ 32"
  shows "\<exists>trees. ForEachTree forest n = Some trees \<and> distinct trees \<and> set trees = {ss. length ss = n \<and> spanning forest ss}"
proof -
  have p: "0 < n ^ n" using assms(1) by simp
  have "trees_from forest n 0 = 0 # trees_from forest n (Suc 0)"
    using p spanning_zeros [OF assms(1)] by (simp add: trees_from_def upt_conv_Cons [of 0 "n ^ n"])
  then have "ForEachTree forest n = Some (map (digits n n) (trees_from forest n 0))"
    using for_each_tree_digits [OF assms p, of forest] by (simp add: ForEachTree_def)
  moreover have "distinct (map (digits n n) (trees_from forest n 0))"
    using digits_inj [OF assms(1)] by (auto simp: trees_from_def distinct_map intro!: inj_onI)
  moreover have "set (map (digits n n) (trees_from forest n 0)) = {ss. length ss = n \<and> spanning forest ss}"
  proof (intro equalityI subsetI)
    fix ss assume "ss \<in> {ss. length ss = n \<and> spanning forest ss}"
    then have ss: "length ss = n" "spanning forest ss" by auto
    then obtain v where "v < n ^ n" "digits n n v = ss"
      using digits_onto [OF assms(1), of ss] by (auto simp: spanning_def)
    with ss show "ss \<in> set (map (digits n n) (trees_from forest n 0))"
      by (auto simp: trees_from_def intro!: image_eqI [of _ _ v])
  qed (auto simp: trees_from_def)
  ultimately show ?thesis by blast
qed

text \<open>
  C18: \<open>ForEachTree\<close> terminates and passes every spanning tree (or forest) of the complete digraph to
  the functor, each exactly once, and nothing else: source lists in range from which every
  node leads to a root, with exactly one root unless forests are asked for.
\<close>

theorem ForEachTree_complete:
  assumes "0 < n" and "n < 2 ^ 32"
  shows "\<exists>trees. ForEachTree forest n = Some trees \<and> distinct trees \<and>
    set trees = {ss. length ss = n \<and> (\<forall>x \<in> set ss. x < n) \<and> (\<forall>x < n. \<exists>r. has_root ss x r) \<and>
      (forest \<or> card {x. x < n \<and> ss ! x = x} = 1)}"
  using trees_enumerated [OF assms, of forest] by (auto simp: spanning_def)

theorem ForEachTree_complete_witness:
  "\<exists>trees. ForEachTree False 3 = Some trees \<and> distinct trees \<and> [1, 1, 1] \<in> set trees \<and> [0, 2, 0] \<in> set trees \<and> [1, 0, 2] \<notin> set trees"
proof -
  obtain trees where t: "ForEachTree False 3 = Some trees" "distinct trees" "set trees = {ss. length ss = 3 \<and> (\<forall>x \<in> set ss. x < 3) \<and>
      (\<forall>x < 3. \<exists>r. has_root ss x r) \<and> (False \<or> card {x. x < 3 \<and> ss ! x = x} = 1)}"
    using ForEachTree_complete [of 3 False] by auto
  have "ForEachTree False 3 = Some [[0, 0, 0], [1, 1, 0], [0, 2, 0], [0, 0, 1], [1, 1, 1], [2, 1, 1], [2, 0, 2], [1, 2, 2], [2, 2, 2]]"
    by code_simp
  with t(1,2) show ?thesis by auto
qed

end
