(* ===== verification/Utf8.thy ===== *)
theory Utf8
  imports Utils
begin

unbundle bit_operations_syntax

text \<open>
  UTF-8: the encoder and the decoder of \<^verbatim>\<open>third_party/utf/rune.c\<close>, and \<^verbatim>\<open>util/utf8\<close> over them
  (\<^verbatim>\<open>unilib.cc\<close>, \<^verbatim>\<open>unilib_utf8_utils.h\<close>, \<^verbatim>\<open>unicodetext.cc\<close>). The build compiles with
  \<^verbatim>\<open>-funsigned-char\<close>, so a byte read through \<^verbatim>\<open>char\<close> is in \<^verbatim>\<open>[0, 255]\<close>. A pointer into a buffer with
  a length is the string of the bytes from the pointer to the end. A \<^verbatim>\<open>UnicodeText\<close> is the string of
  the bytes it holds; whether it owns them or points to them is not modelled.

  Lemmas: decoding a valid character does not depend on what follows it and agrees with the
  iterator, which does no error checking; text built by the operations is valid; iterating
  over the text built from code points gives the code points.
\<close>

subsection \<open>Runes\<close>

abbreviation ubyte :: "char \<Rightarrow> int" where
  "ubyte c \<equiv> of_char c"

definition Runeerror :: int where
  "Runeerror = 0xFFFD"

definition Runemax :: int where
  "Runemax = 0x10FFFF"

text \<open>The continuation bits of a byte, or nothing when the byte is not a continuation byte.\<close>

definition trail_bits :: "char \<Rightarrow> int option" where
  "trail_bits b = (let c1 = ubyte b XOR 0x80 in if c1 AND 0xC0 \<noteq> 0 then None else Some c1)"

text \<open>The decoder, in the steps of the source: each step reads one more byte. \<open>bad\<close> and \<open>badlen\<close>
  are its two error exits.\<close>

definition rune_bad :: "int \<times> nat" where
  "rune_bad = (Runeerror, 1)"

definition rune_badlen :: "int \<times> nat" where
  "rune_badlen = (Runeerror, 0)"

definition decode_four :: "int \<Rightarrow> int \<Rightarrow> int \<Rightarrow> string \<Rightarrow> int \<times> nat" where
  "decode_four c c1 c2 s =
     (case s of [] \<Rightarrow> rune_badlen | b # _ \<Rightarrow>
       (case trail_bits b of None \<Rightarrow> rune_bad | Some c3 \<Rightarrow>
          if c < 0xF8 then
            let l = (push_bit 6 (push_bit 6 (push_bit 6 c OR c1) OR c2) OR c3) AND 0x1FFFFF
            in if l \<le> 0xFFFF then rune_bad else if l > Runemax then rune_bad else (l, 4)
          else rune_bad))"

definition decode_three :: "int \<Rightarrow> int \<Rightarrow> string \<Rightarrow> int \<times> nat" where
  "decode_three c c1 s =
     (case s of [] \<Rightarrow> rune_badlen | b # s' \<Rightarrow>
       (case trail_bits b of None \<Rightarrow> rune_bad | Some c2 \<Rightarrow>
          if c < 0xF0 then
            let l = (push_bit 6 (push_bit 6 c OR c1) OR c2) AND 0xFFFF in if l \<le> 0x7FF then rune_bad else (l, 3)
          else decode_four c c1 c2 s'))"

definition decode_two :: "int \<Rightarrow> string \<Rightarrow> int \<times> nat" where
  "decode_two c s =
     (case s of [] \<Rightarrow> rune_badlen | b # s' \<Rightarrow>
       (case trail_bits b of None \<Rightarrow> rune_bad | Some c1 \<Rightarrow>
          if c < 0xE0 then
            if c < 0xC0 then rune_bad
            else let l = (push_bit 6 c OR c1) AND 0x7FF in if l \<le> 0x7F then rune_bad else (l, 2)
          else decode_three c c1 s'))"

definition charntorune :: "string \<Rightarrow> int \<times> nat" where
  "charntorune str =
     (case str of [] \<Rightarrow> rune_badlen | b # s \<Rightarrow>
       (let c = ubyte b in if c < 0x80 then (c, 1) else decode_two c s))"

lemma charntorune_consumed: "(r, n) = charntorune s \<Longrightarrow> n = 0 \<Longrightarrow> r = Runeerror"
  by (auto simp: charntorune_def decode_two_def decode_three_def decode_four_def rune_bad_def rune_badlen_def Let_def
      split: list.splits option.splits if_splits)

lemma charntorune_pos:
  assumes "(r, n) = charntorune s" and "r \<noteq> Runeerror \<or> n = 3 \<or> \<not> n \<le> 1"
  shows "0 < n"
  using charntorune_consumed [OF assms(1)] assms(2) by (cases n) auto

definition isvalidcharntorune :: "string \<Rightarrow> bool \<times> int \<times> nat" where
  "isvalidcharntorune str =
     (let (rune, consumed) = charntorune str in (rune \<noteq> Runeerror \<or> consumed = 3, rune, consumed))"

definition runetochar :: "int \<Rightarrow> string" where
  "runetochar c =
     (if c \<le> 0x7F then [char_of c]
      else if c \<le> 0x7FF then [char_of (0xC0 OR drop_bit 6 c), char_of (0x80 OR (c AND 0x3F))]
      else let c = (if c > Runemax then Runeerror else c) in
      if c \<le> 0xFFFF then
        [char_of (0xE0 OR drop_bit 12 c), char_of (0x80 OR (drop_bit 6 c AND 0x3F)), char_of (0x80 OR (c AND 0x3F))]
      else
        [char_of (0xF0 OR drop_bit 18 c), char_of (0x80 OR (drop_bit 12 c AND 0x3F)),
         char_of (0x80 OR (drop_bit 6 c AND 0x3F)), char_of (0x80 OR (c AND 0x3F))])"

subsection \<open>Code points and bytes\<close>

definition IsValidCodepoint :: "int \<Rightarrow> bool" where
  "IsValidCodepoint c \<longleftrightarrow> (0 \<le> c \<and> c < 0xD800) \<or> (c \<ge> 0xE000 \<and> c \<le> 0x10FFFF)"

definition IsUTF8ValidCodepoint :: "string \<Rightarrow> bool" where
  "IsUTF8ValidCodepoint str \<longleftrightarrow> str \<noteq> [] \<and> fst (isvalidcharntorune str) \<and> IsValidCodepoint (fst (snd (isvalidcharntorune str)))"

definition OneCharLen :: "char \<Rightarrow> nat" where
  "OneCharLen src = (replicate 12 1 @ [2, 2, 3, 4]) ! (byte src div 16)"

definition IsTrailByte :: "char \<Rightarrow> bool" where
  "IsTrailByte x \<longleftrightarrow> signed_take_bit 7 (ubyte x) < - 0x40"

definition IsInterchangeValid :: "int \<Rightarrow> bool" where
  "IsInterchangeValid c \<longleftrightarrow> \<not> ((c \<ge> 0 \<and> c \<le> 0x08) \<or> c = 0x0B \<or> (c \<ge> 0x0E \<and> c \<le> 0x1F) \<or>
     (c \<ge> 0x7F \<and> c \<le> 0x9F) \<or> (c \<ge> 0xD800 \<and> c \<le> 0xDFFF) \<or> (c \<ge> 0xFDD0 \<and> c \<le> 0xFDEF) \<or>
     c AND 0xFFFE = 0xFFFE)"

function SpanInterchangeValid :: "string \<Rightarrow> nat" where
  "SpanInterchangeValid p =
     (if p = [] then 0
      else let (rune, bytes_consumed) = charntorune p in
        if (rune = Runeerror \<and> bytes_consumed \<le> 1) \<or> \<not> IsInterchangeValid rune then 0
        else bytes_consumed + SpanInterchangeValid (drop bytes_consumed p))"
  by pat_completeness auto
termination
proof (relation "measure length")
  fix p x rune n
  assume "p \<noteq> []" "x = charntorune p" "(rune, n) = x" "\<not> ((rune = Runeerror \<and> n \<le> 1) \<or> \<not> IsInterchangeValid rune)"
  then show "(drop n p, p) \<in> measure length" using charntorune_pos [of rune n p] by auto
qed simp

declare SpanInterchangeValid.simps [simp del]

definition IsInterchangeValid_text :: "string \<Rightarrow> bool" where
  "IsInterchangeValid_text src \<longleftrightarrow> SpanInterchangeValid src = length src"

subsection \<open>Unicode text\<close>

function ConvertToInterchangeValid :: "string \<Rightarrow> string" where
  "ConvertToInterchangeValid start =
     (if start = [] then []
      else let good = SpanInterchangeValid start; rest = drop good start in
        if rest = [] then take good start
        else let (valid, rune, n) = isvalidcharntorune rest in
          take good start @ CHR '' '' # ConvertToInterchangeValid (if valid then drop n rest else drop 1 rest))"
  by pat_completeness auto
termination
proof (relation "measure length")
  fix start good rest x valid y rune n
  assume *: "good = SpanInterchangeValid start" "rest = drop good start" "rest \<noteq> []" "x = isvalidcharntorune rest"
    "(valid, y) = x" "(rune, n) = y"
  then have "0 < n" if valid
    using that charntorune_pos [of rune n rest] by (auto simp: isvalidcharntorune_def split: prod.splits)
  with * show "(if valid then drop n rest else drop 1 rest, start) \<in> measure length" by auto
qed simp

declare ConvertToInterchangeValid.simps [simp del]

definition CopyUTF8 :: "string \<Rightarrow> string" where
  "CopyUTF8 buffer = (if IsInterchangeValid_text buffer then buffer else ConvertToInterchangeValid buffer)"

definition PointToUTF8 :: "string \<Rightarrow> string" where
  "PointToUTF8 buffer = (if IsInterchangeValid_text buffer then buffer else ConvertToInterchangeValid buffer)"

definition ut_append :: "string \<Rightarrow> string \<Rightarrow> string" where
  "ut_append u v = u @ v"

definition push_back :: "int \<Rightarrow> string \<Rightarrow> string" where
  "push_back c u =
     (if IsValidCodepoint c then
        let buf = runetochar c in if IsInterchangeValid_text buf then u @ buf else u @ '' ''
      else u @ '' '')"

definition CodepointCount :: "string \<Rightarrow> nat" where
  "CodepointCount utf8 = length (filter (\<lambda>p. signed_take_bit 7 (ubyte p) \<ge> - 0x40) utf8)"

definition ut_size :: "string \<Rightarrow> nat" where
  "ut_size u = CodepointCount u"

text \<open>An iterator is the rest of the text from its position on.\<close>

definition ci_deref :: "string \<Rightarrow> int option" where
  "ci_deref it = do {
     b1 \<leftarrow> vec_at it 0;
     let byte1 = ubyte b1;
     if byte1 < 0x80 then Some byte1
     else do {
       b2 \<leftarrow> vec_at it 1;
       let byte2 = ubyte b2;
       if byte1 < 0xE0 then Some (push_bit 6 (byte1 AND 0x1F) OR (byte2 AND 0x3F))
       else do {
         b3 \<leftarrow> vec_at it 2;
         let byte3 = ubyte b3;
         if byte1 < 0xF0 then
           Some (push_bit 12 (byte1 AND 0x0F) OR push_bit 6 (byte2 AND 0x3F) OR (byte3 AND 0x3F))
         else do {
           b4 \<leftarrow> vec_at it 3;
           let byte4 = ubyte b4;
           Some (push_bit 18 (byte1 AND 0x07) OR push_bit 12 (byte2 AND 0x3F) OR push_bit 6 (byte3 AND 0x3F) OR (byte4 AND 0x3F)) } } } }"

definition ci_next :: "string \<Rightarrow> string option" where
  "ci_next it = do { b \<leftarrow> vec_at it 0; Some (drop (OneCharLen b) it) }"

definition ci_utf8_length :: "string \<Rightarrow> nat option" where
  "ci_utf8_length it = do {
     b \<leftarrow> vec_at it 0;
     Some (if ubyte b < 0x80 then 1 else if ubyte b < 0xE0 then 2 else if ubyte b < 0xF0 then 3 else 4) }"

subsection \<open>Bits and bytes\<close>

lemma ubyte_byte: "ubyte b = int (byte b)"
  by (rule of_nat_of_char [symmetric])

lemma ubyte_range [simp]: "0 \<le> ubyte b" "ubyte b < 256"
  using nat_of_char_less_256 [of b] unfolding ubyte_byte by linarith+

lemma bit_seven: "0 \<le> x \<Longrightarrow> x < 256 \<Longrightarrow> bit x 7 \<longleftrightarrow> \<not> x < 128" for x :: int
proof (cases "x < 128")
  case False
  assume "x < 256"
  with False have "x div 128 = 1" by linarith
  then show ?thesis using False by (simp add: bit_iff_odd)
qed (simp add: bit_iff_odd)

lemma xor_high: "0 \<le> x \<Longrightarrow> x < 256 \<Longrightarrow> x XOR 0x80 = (if x < 128 then x + 128 else x - 128)" for x :: int
  using bit_seven [of x] flip_bit_eq_xor [of 7 x, symmetric]
  by (cases "x < 128") (simp_all add: flip_bit_eq_if set_bit_eq unset_bit_eq)

lemma and_push_bit: "x AND push_bit n m = push_bit n (drop_bit n x AND m)" for x m :: int
  by (rule bit_eqI) (auto simp: bit_simps)

lemma and_high: "0 \<le> x \<Longrightarrow> x < 256 \<Longrightarrow> x AND 0xC0 = 0 \<longleftrightarrow> x < 64" for x :: int
proof -
  assume x: "0 \<le> x" "x < 256"
  have "x AND 0xC0 = 64 * (x div 64 mod 4)" using take_bit_eq_mask [of 2 "x div 64"] and_push_bit [of x 6 3]
    by (simp add: push_bit_eq_mult drop_bit_eq_div mask_eq_exp_minus_1 take_bit_eq_mod)
  moreover have "x div 64 mod 4 = x div 64" using x by simp
  moreover have "x div 64 = 0 \<longleftrightarrow> x < 64" using x by linarith
  ultimately show ?thesis by simp
qed

lemma signed_byte: "0 \<le> x \<Longrightarrow> x < 256 \<Longrightarrow> signed_take_bit 7 x = (if x < 128 then x else x - 256)" for x :: int
  using bit_seven [of x] signed_take_bit_eq_take_bit_minus [of 7 x] by (simp add: take_bit_int_eq_self)

lemma trail_bits_eq: "trail_bits b = (if 128 \<le> ubyte b \<and> ubyte b < 192 then Some (ubyte b - 128) else None)"
  using ubyte_range [of b] and_high [of "ubyte b - 128"] and_high [of "ubyte b + 128"]
  by (simp add: trail_bits_def Let_def xor_high del: ubyte_range)

lemma IsTrailByte_eq: "IsTrailByte b \<longleftrightarrow> 128 \<le> ubyte b \<and> ubyte b < 192"
  using ubyte_range [of b] by (auto simp: IsTrailByte_def signed_byte simp del: ubyte_range)

lemma OneCharLen_eq:
  "OneCharLen b = (if ubyte b < 0xC0 then 1 else if ubyte b < 0xE0 then 2 else if ubyte b < 0xF0 then 3 else 4)"
proof -
  have "(replicate 12 1 @ [2, 2, 3, 4 :: nat]) ! q = (if q < 12 then 1 else if q < 14 then 2 else if q < 15 then 3 else 4)"
    if "q < 16" for q
  proof (cases "q < 12")
    case False
    with that have "q = 12 \<or> q = 13 \<or> q = 14 \<or> q = 15" by linarith
    then show ?thesis by (auto simp: nth_append)
  qed (simp add: nth_append)
  moreover have "byte b div 16 < 16" using nat_of_char_less_256 [of b] by linarith
  ultimately have "OneCharLen b = (if byte b div 16 < 12 then 1 else if byte b div 16 < 14 then 2 else if byte b div 16 < 15 then 3 else 4)"
    unfolding OneCharLen_def by blast
  moreover have "byte b div 16 < 12 \<longleftrightarrow> ubyte b < 0xC0" "byte b div 16 < 14 \<longleftrightarrow> ubyte b < 0xE0" "byte b div 16 < 15 \<longleftrightarrow> ubyte b < 0xF0"
    unfolding ubyte_byte by linarith+
  ultimately show ?thesis by simp
qed

lemma or_low: "0 \<le> y \<Longrightarrow> y < 2 ^ n \<Longrightarrow> push_bit n x OR y = x * 2 ^ n + (y :: int)"
  using concat_bit_eq [of n y x] by (simp add: concat_bit_def push_bit_eq_mult take_bit_int_eq_self or.commute)

lemma and_mask_mod: "x AND (2 ^ n - 1) = x mod 2 ^ n" for x :: int
  by (simp add: take_bit_eq_mod [symmetric] take_bit_eq_mask mask_eq_exp_minus_1)

lemmas and_low = and_mask_mod [of _ 3, simplified] and_mask_mod [of _ 4, simplified] and_mask_mod [of _ 5, simplified]
  and_mask_mod [of _ 6, simplified] and_mask_mod [of _ 11, simplified] and_mask_mod [of _ 16, simplified] and_mask_mod [of _ 21, simplified]

subsection \<open>Decoding\<close>

lemma low_bits: "0 \<le> y \<Longrightarrow> y < 64 \<Longrightarrow> push_bit 6 x OR y = x * 64 + (y :: int)"
  using or_low [of y 6 x] by simp

lemma mod_shift: "x = k * m + v \<Longrightarrow> 0 \<le> v \<Longrightarrow> v < m \<Longrightarrow> x mod m = (v :: int)"
  by simp

text \<open>The three multi-byte sequences, in arithmetic.\<close>

lemma decode_four_eq:
  assumes "0 \<le> c1" "c1 < 64" "0 \<le> c2" "c2 < 64" "240 \<le> c" "c < 256"
  shows "decode_four c c1 c2 s =
    (case s of [] \<Rightarrow> rune_badlen | b # _ \<Rightarrow>
       if \<not> (128 \<le> ubyte b \<and> ubyte b < 192) then rune_bad
       else if c < 0xF8 then
         let l = (c - 0xF0) * 0x40000 + c1 * 0x1000 + c2 * 0x40 + (ubyte b - 128)
         in if l \<le> 0xFFFF then rune_bad else if l > Runemax then rune_bad else (l, 4)
       else rune_bad)"
proof -
  have "(push_bit 6 (push_bit 6 (push_bit 6 c OR c1) OR c2) OR c3) AND 0x1FFFFF = (c - 0xF0) * 0x40000 + c1 * 0x1000 + c2 * 0x40 + c3"
    if "c < 0xF8" "0 \<le> c3" "c3 < 64" for c3
    using assms that unfolding and_low by (intro mod_shift [of _ 30]) (simp_all add: low_bits)
  then show ?thesis by (auto simp: decode_four_def trail_bits_eq Let_def split: list.split)
qed

lemma decode_three_eq:
  assumes "0 \<le> c1" "c1 < 64" "224 \<le> c" "c < 256"
  shows "decode_three c c1 s =
    (case s of [] \<Rightarrow> rune_badlen | b # s' \<Rightarrow>
       if \<not> (128 \<le> ubyte b \<and> ubyte b < 192) then rune_bad
       else if c < 0xF0 then
         let l = (c - 0xE0) * 0x1000 + c1 * 0x40 + (ubyte b - 128) in if l \<le> 0x7FF then rune_bad else (l, 3)
       else decode_four c c1 (ubyte b - 128) s')"
proof -
  have "(push_bit 6 (push_bit 6 c OR c1) OR c2) AND 0xFFFF = (c - 0xE0) * 0x1000 + c1 * 0x40 + c2"
    if "c < 0xF0" "0 \<le> c2" "c2 < 64" for c2
    using assms that unfolding and_low by (intro mod_shift [of _ 14]) (simp_all add: low_bits)
  then show ?thesis by (auto simp: decode_three_def trail_bits_eq Let_def split: list.split)
qed

lemma decode_two_eq:
  assumes "128 \<le> c" "c < 256"
  shows "decode_two c s =
    (case s of [] \<Rightarrow> rune_badlen | b # s' \<Rightarrow>
       if \<not> (128 \<le> ubyte b \<and> ubyte b < 192) then rune_bad
       else if c < 0xE0 then
         if c < 0xC0 then rune_bad
         else let l = (c - 0xC0) * 0x40 + (ubyte b - 128) in if l \<le> 0x7F then rune_bad else (l, 2)
       else decode_three c (ubyte b - 128) s')"
proof -
  have "(push_bit 6 c OR c1) AND 0x7FF = (c - 0xC0) * 0x40 + c1" if "0xC0 \<le> c" "c < 0xE0" "0 \<le> c1" "c1 < 64" for c1
    using assms that unfolding and_low by (intro mod_shift [of _ 6]) (simp_all add: low_bits)
  then show ?thesis by (auto simp: decode_two_def trail_bits_eq Let_def split: list.split)
qed

subsection \<open>Valid characters\<close>

definition trail :: "char \<Rightarrow> bool" where
  "trail b \<longleftrightarrow> 128 \<le> ubyte b \<and> ubyte b < 192"

text \<open>The bytes of one character and its code point.\<close>

inductive utf8_char :: "string \<Rightarrow> int \<Rightarrow> bool" where
  one: "ubyte b < 0x80 \<Longrightarrow> utf8_char [b] (ubyte b)"
| two: "0xC0 \<le> ubyte b \<Longrightarrow> ubyte b < 0xE0 \<Longrightarrow> trail b1 \<Longrightarrow>
    r = (ubyte b - 0xC0) * 0x40 + (ubyte b1 - 128) \<Longrightarrow> 0x7F < r \<Longrightarrow> utf8_char [b, b1] r"
| three: "0xE0 \<le> ubyte b \<Longrightarrow> ubyte b < 0xF0 \<Longrightarrow> trail b1 \<Longrightarrow> trail b2 \<Longrightarrow>
    r = (ubyte b - 0xE0) * 0x1000 + (ubyte b1 - 128) * 0x40 + (ubyte b2 - 128) \<Longrightarrow> 0x7FF < r \<Longrightarrow> utf8_char [b, b1, b2] r"
| four: "0xF0 \<le> ubyte b \<Longrightarrow> ubyte b < 0xF8 \<Longrightarrow> trail b1 \<Longrightarrow> trail b2 \<Longrightarrow> trail b3 \<Longrightarrow>
    r = (ubyte b - 0xF0) * 0x40000 + (ubyte b1 - 128) * 0x1000 + (ubyte b2 - 128) * 0x40 + (ubyte b3 - 128) \<Longrightarrow>
    0xFFFF < r \<Longrightarrow> r \<le> Runemax \<Longrightarrow> utf8_char [b, b1, b2, b3] r"

lemma trail_range: "trail b \<Longrightarrow> 0 \<le> ubyte b - 128" "trail b \<Longrightarrow> ubyte b - 128 < 64"
  by (simp_all add: trail_def)

lemma charntorune_complete: "utf8_char p r \<Longrightarrow> charntorune (p @ s) = (r, length p)"
proof (induction rule: utf8_char.induct)
  case (two b b1 r)
  then show ?case using decode_two_eq [of "ubyte b"] by (simp add: charntorune_def trail_def Let_def)
next
  case (three b b1 b2 r)
  then show ?case using decode_two_eq [of "ubyte b"] decode_three_eq [of "ubyte b1 - 128" "ubyte b"]
    by (simp add: charntorune_def trail_def Let_def)
next
  case (four b b1 b2 b3 r)
  then show ?case using decode_two_eq [of "ubyte b"] decode_three_eq [of "ubyte b1 - 128" "ubyte b"]
      decode_four_eq [of "ubyte b1 - 128" "ubyte b2 - 128" "ubyte b"]
    by (simp add: charntorune_def trail_def Let_def)
qed (simp add: charntorune_def)

lemma charntorune_sound:
  assumes "charntorune s = (r, n)" and "\<not> (r = Runeerror \<and> n \<le> 1)"
  shows "utf8_char (take n s) r \<and> n \<le> length s"
proof -
  have no: "(r, n) \<noteq> rune_bad" "(r, n) \<noteq> rune_badlen" using assms(2) by (auto simp: rune_bad_def rune_badlen_def)
  obtain b s1 where s: "s = b # s1" using assms(1) no by (cases s) (auto simp: charntorune_def)
  show ?thesis
  proof (cases "ubyte b < 0x80")
    case True
    then show ?thesis using assms(1) utf8_char.one [of b] by (auto simp: s charntorune_def)
  next
    case False
    then have r: "decode_two (ubyte b) s1 = (r, n)" using assms(1) by (simp add: s charntorune_def)
    note two = decode_two_eq [of "ubyte b" s1] and three = decode_three_eq [of _ "ubyte b"] and four = decode_four_eq [of _ _ "ubyte b"]
    obtain b1 s2 where s1: "s1 = b1 # s2" "trail b1" using r no False two by (auto simp: trail_def split: list.splits if_splits)
    show ?thesis
    proof (cases "ubyte b < 0xE0")
      case True
      then show ?thesis using r no False two s1 utf8_char.two [of b b1]
        by (auto simp: s trail_def Let_def split: if_splits)
    next
      case ge: False
      then have r: "decode_three (ubyte b) (ubyte b1 - 128) s2 = (r, n)" using r False two s1 by (simp add: trail_def)
      obtain b2 s3 where s2: "s2 = b2 # s3" "trail b2"
        using r no ge three [OF trail_range [OF s1(2)], of s2] by (auto simp: trail_def split: list.splits if_splits)
      show ?thesis
      proof (cases "ubyte b < 0xF0")
        case True
        then show ?thesis using r no ge three [OF trail_range [OF s1(2)], of s2] s1 s2 utf8_char.three [of b b1 b2]
          by (auto simp: s trail_def Let_def split: if_splits)
      next
        case ge4: False
        then have r: "decode_four (ubyte b) (ubyte b1 - 128) (ubyte b2 - 128) s3 = (r, n)"
          using r ge three [OF trail_range [OF s1(2)], of s2] s2 by (simp add: trail_def)
        obtain b3 s4 where s3: "s3 = b3 # s4" "trail b3"
          using r no ge4 four [OF trail_range [OF s1(2)] trail_range [OF s2(2)], of s3] by (auto simp: trail_def split: list.splits if_splits)
        then show ?thesis
          using r no ge4 four [OF trail_range [OF s1(2)] trail_range [OF s2(2)], of s3] s1 s2 utf8_char.four [of b b1 b2 b3]
          by (auto simp: s trail_def Let_def split: if_splits)
      qed
    qed
  qed
qed

lemma utf8_char_deref: "utf8_char p r \<Longrightarrow> ci_deref (p @ s) = Some r"
proof (induction rule: utf8_char.induct)
  case (two b b1 r)
  have "ubyte b mod 32 = ubyte b - 192" "ubyte b1 mod 64 = ubyte b1 - 128"
    using two by (auto intro: mod_shift [of _ 6] mod_shift [of _ 2] simp: trail_def)
  then show ?case using two low_bits [of "ubyte b1 - 128"] by (simp add: ci_deref_def vec_at_def and_low trail_def)
next
  case (three b b1 b2 r)
  have "ubyte b mod 16 = ubyte b - 224" "ubyte b1 mod 64 = ubyte b1 - 128" "ubyte b2 mod 64 = ubyte b2 - 128"
    using three by (auto intro: mod_shift [of _ 14] mod_shift [of _ 2] simp: trail_def)
  then show ?case using three low_bits [of "ubyte b2 - 128"] or_low [of "(ubyte b1 - 128) * 64 + (ubyte b2 - 128)" 12]
    by (simp add: ci_deref_def vec_at_def and_low trail_def)
next
  case (four b b1 b2 b3 r)
  have "ubyte b mod 8 = ubyte b - 240" "ubyte b1 mod 64 = ubyte b1 - 128" "ubyte b2 mod 64 = ubyte b2 - 128" "ubyte b3 mod 64 = ubyte b3 - 128"
    using four by (auto intro: mod_shift [of _ 30] mod_shift [of _ 2] simp: trail_def)
  then show ?case using four low_bits [of "ubyte b3 - 128"] or_low [of "(ubyte b2 - 128) * 64 + (ubyte b3 - 128)" 12]
      or_low [of "(ubyte b1 - 128) * 0x1000 + (ubyte b2 - 128) * 64 + (ubyte b3 - 128)" 18]
    by (simp add: ci_deref_def vec_at_def and_low trail_def)
qed (simp add: ci_deref_def vec_at_def)

lemma utf8_char_bytes:
  assumes "utf8_char p r"
  shows "p \<noteq> []" and "OneCharLen (hd p) = length p" and "\<not> trail (hd p)" and "\<forall>b \<in> set (tl p). trail b"
    and "0 \<le> r" and "r \<le> Runemax" and "ci_utf8_length (p @ s) = Some (length p)"
  using assms by (induction rule: utf8_char.induct) (auto simp: OneCharLen_eq trail_def Runemax_def ci_utf8_length_def vec_at_def)

lemma utf8_char_unique: "utf8_char p r \<Longrightarrow> utf8_char p r' \<Longrightarrow> r = r'"
  using charntorune_complete [of p r "[]"] charntorune_complete [of p r' "[]"] by simp

lemma ubyte_char_of: "0 \<le> x \<Longrightarrow> x < 256 \<Longrightarrow> ubyte (char_of x) = x"
  by simp

lemma lead_bits:
  "0 \<le> x \<Longrightarrow> x < 0x20 \<Longrightarrow> 0xC0 OR x = 0xC0 + x" "0 \<le> x \<Longrightarrow> x < 0x10 \<Longrightarrow> 0xE0 OR x = 0xE0 + x"
  "0 \<le> x \<Longrightarrow> x < 8 \<Longrightarrow> 0xF0 OR x = 0xF0 + x" "0 \<le> x \<Longrightarrow> x < 0x40 \<Longrightarrow> 0x80 OR x = 0x80 + x" for x :: int
  using or_low [of x 5 6] or_low [of x 4 14] or_low [of x 3 30] or_low [of x 6 2] by simp_all

lemma trail_byte: "trail (char_of (0x80 OR (x AND 0x3F)))" "ubyte (char_of (0x80 OR (x AND 0x3F))) - 128 = x mod 64" for x :: int
  using lead_bits(4) [of "x mod 64"] ubyte_char_of [of "128 + x mod 64"] by (simp_all add: and_low trail_def)

lemma six_bits:
  "r = r div 64 * 64 + r mod 64" "r div 64 = r div 0x1000 * 64 + r div 64 mod 64" "r div 0x1000 = r div 0x40000 * 64 + r div 0x1000 mod 64"
  for r :: int
proof -
  have "r div 64 div 64 = r div 0x1000" "r div 0x1000 div 64 = r div 0x40000" using zdiv_zmult2_eq [of 64 r] by simp_all
  then show "r = r div 64 * 64 + r mod 64" "r div 64 = r div 0x1000 * 64 + r div 64 mod 64" "r div 0x1000 = r div 0x40000 * 64 + r div 0x1000 mod 64"
    using div_mult_mod_eq [of r 64] div_mult_mod_eq [of "r div 64" 64] div_mult_mod_eq [of "r div 0x1000" 64] by simp_all
qed

lemma six_bits_sum:
  "r = q * 64 + m \<Longrightarrow> r = (0xC0 + q - 0xC0) * 0x40 + m"
  "r = q * 64 + m \<Longrightarrow> q = p * 64 + m1 \<Longrightarrow> r = (0xE0 + p - 0xE0) * 0x1000 + m1 * 0x40 + m"
  "r = q * 64 + m \<Longrightarrow> q = p * 64 + m1 \<Longrightarrow> p = h * 64 + m2 \<Longrightarrow> r = (0xF0 + h - 0xF0) * 0x40000 + m2 * 0x1000 + m1 * 0x40 + m"
  for r :: int
  by simp_all

lemma runetochar_valid:
  assumes "0 \<le> r" and "r \<le> Runemax"
  shows "utf8_char (runetochar r) r"
proof -
  let ?t = "\<lambda>x. char_of (0x80 OR (x AND 0x3F))"
  note t = trail_byte [of r] trail_byte [of "drop_bit 6 r", unfolded drop_bit_eq_div] trail_byte [of "drop_bit 12 r", unfolded drop_bit_eq_div]
  consider "r \<le> 0x7F" | "0x7F < r" "r \<le> 0x7FF" | "0x7FF < r" "r \<le> 0xFFFF" | "0xFFFF < r" by linarith
  then show ?thesis
  proof cases
    case 1
    then show ?thesis using assms utf8_char.one [of "char_of r"] by (simp add: runetochar_def)
  next
    case 2
    have h: "ubyte (char_of (0xC0 OR r div 64)) = 0xC0 + r div 64" "0 \<le> r div 64" "r div 64 < 32"
      using 2 lead_bits(1) [of "r div 64"] by simp_all
    have "utf8_char [char_of (0xC0 OR r div 64), ?t r] r"
    proof (rule utf8_char.two)
      show "trail (?t r)" by (rule t(1))
      show "r = (ubyte (char_of (0xC0 OR r div 64)) - 0xC0) * 0x40 + (ubyte (?t r) - 128)" unfolding h(1) t(2) by (rule six_bits_sum(1) [OF six_bits(1)])
    qed (use 2 h in linarith)+
    then show ?thesis using 2 by (simp add: runetochar_def drop_bit_eq_div)
  next
    case 3
    have h: "ubyte (char_of (0xE0 OR r div 0x1000)) = 0xE0 + r div 0x1000" "0 \<le> r div 0x1000" "r div 0x1000 < 16"
      using 3 lead_bits(2) [of "r div 0x1000"] by simp_all
    have "utf8_char [char_of (0xE0 OR r div 0x1000), ?t (r div 64), ?t r] r"
    proof (rule utf8_char.three)
      show "trail (?t r)" "trail (?t (r div 64))" using t by simp_all
      show "r = (ubyte (char_of (0xE0 OR r div 0x1000)) - 0xE0) * 0x1000 + (ubyte (?t (r div 64)) - 128) * 0x40 + (ubyte (?t r) - 128)"
        unfolding h(1) trail_byte(2) by (rule six_bits_sum(2) [OF six_bits(1,2)])
    qed (use 3 h in linarith)+
    then show ?thesis using 3 assms(2) by (simp add: runetochar_def Runemax_def drop_bit_eq_div)
  next
    case 4
    have h: "ubyte (char_of (0xF0 OR r div 0x40000)) = 0xF0 + r div 0x40000" "0 \<le> r div 0x40000" "r div 0x40000 < 8"
      using 4 assms(2) lead_bits(3) [of "r div 0x40000"] by (simp_all add: Runemax_def)
    have "utf8_char [char_of (0xF0 OR r div 0x40000), ?t (r div 0x1000), ?t (r div 64), ?t r] r"
    proof (rule utf8_char.four)
      show "trail (?t r)" "trail (?t (r div 64))" "trail (?t (r div 0x1000))" using t by simp_all
      show "r = (ubyte (char_of (0xF0 OR r div 0x40000)) - 0xF0) * 0x40000 + (ubyte (?t (r div 0x1000)) - 128) * 0x1000 +
          (ubyte (?t (r div 64)) - 128) * 0x40 + (ubyte (?t r) - 128)"
        unfolding h(1) trail_byte(2) by (rule six_bits_sum(3) [OF six_bits(1,2,3)])
    qed (use 4 h assms(2) in linarith)+
    then show ?thesis using 4 assms(2) by (simp add: runetochar_def Runemax_def drop_bit_eq_div)
  qed
qed

subsection \<open>Valid text\<close>

inductive utf8_text :: "string \<Rightarrow> int list \<Rightarrow> bool" where
  Nil: "utf8_text [] []"
| Cons: "utf8_char p r \<Longrightarrow> IsInterchangeValid r \<Longrightarrow> utf8_text s rs \<Longrightarrow> utf8_text (p @ s) (r # rs)"

lemma utf8_text_append: "utf8_text s rs \<Longrightarrow> utf8_text t us \<Longrightarrow> utf8_text (s @ t) (rs @ us)"
  by (induction rule: utf8_text.induct) (auto intro: utf8_text.Cons)

lemma Span_text: "utf8_text s rs \<Longrightarrow> SpanInterchangeValid (s @ t) = length s + SpanInterchangeValid t"
proof (induction rule: utf8_text.induct)
  case (Cons p r s rs)
  have "charntorune (p @ s @ t) = (r, length p)" by (rule charntorune_complete [OF Cons(1)])
  moreover have "r = Runeerror \<Longrightarrow> \<not> length p \<le> 1" using Cons(1) by (auto simp: Runeerror_def elim: utf8_char.cases)
  ultimately show ?case using Cons utf8_char_bytes(1) [OF Cons(1)]
    by (subst append_assoc, subst SpanInterchangeValid.simps) auto
qed simp

lemma Span_sound: "\<exists>rs. utf8_text (take (SpanInterchangeValid s) s) rs \<and> SpanInterchangeValid s \<le> length s"
proof (induction s rule: SpanInterchangeValid.induct)
  case (1 s)
  obtain r n where rn: "charntorune s = (r, n)" by fastforce
  show ?case
  proof (cases "s = [] \<or> (r = Runeerror \<and> n \<le> 1) \<or> \<not> IsInterchangeValid r")
    case True
    then have "SpanInterchangeValid s = 0" using rn by (subst SpanInterchangeValid.simps) auto
    then show ?thesis using utf8_text.Nil by auto
  next
    case False
    then have sp: "SpanInterchangeValid s = n + SpanInterchangeValid (drop n s)"
      using rn by (subst SpanInterchangeValid.simps) auto
    have "\<exists>rs. utf8_text (take (SpanInterchangeValid (drop n s)) (drop n s)) rs \<and> SpanInterchangeValid (drop n s) \<le> length (drop n s)"
      using False rn 1 [of "(r, n)" r n] by auto
    then obtain rs where rs: "utf8_text (take (SpanInterchangeValid (drop n s)) (drop n s)) rs"
      "SpanInterchangeValid (drop n s) \<le> length (drop n s)" by blast
    have c: "utf8_char (take n s) r" "n \<le> length s" using charntorune_sound [OF rn] False by auto
    show ?thesis using utf8_text.Cons [OF c(1) _ rs(1)] False rs(2) c(2) by (auto simp: sp take_add)
  qed
qed

lemma valid_text_iff: "IsInterchangeValid_text s \<longleftrightarrow> (\<exists>rs. utf8_text s rs)"
  using Span_sound [of s] Span_text [of s _ "[]"] SpanInterchangeValid.simps [of "[]"] by (auto simp: IsInterchangeValid_text_def)

text \<open>The loop of \<^verbatim>\<open>CodepointString\<close> over the text, and the string it prints.\<close>

function codepoints :: "string \<Rightarrow> int list option" where
  "codepoints it =
     (if it = [] then Some []
      else do { r \<leftarrow> ci_deref it; rs \<leftarrow> codepoints (drop (OneCharLen (hd it)) it); Some (r # rs) })"
  by pat_completeness auto
termination
  by (relation "measure length") (auto simp: OneCharLen_eq)

declare codepoints.simps [simp del]

fun show_hex :: "nat \<Rightarrow> string" where
  "show_hex n = (if n < 16 then [''0123456789ABCDEF'' ! n] else show_hex (n div 16) @ [''0123456789ABCDEF'' ! (n mod 16)])"

declare show_hex.simps [simp del]

definition CodepointString :: "string \<Rightarrow> string option" where
  "CodepointString t = do { rs \<leftarrow> codepoints t; Some (concat (map (\<lambda>r. show_hex (nat r) @ '' '') rs)) }"

lemma utf8_text_codepoints: "utf8_text s rs \<Longrightarrow> codepoints s = Some rs"
proof (induction rule: utf8_text.induct)
  case Nil
  then show ?case by (simp add: codepoints.simps)
next
  case (Cons p r s rs)
  note c = utf8_char_bytes(1,2) [OF Cons(1)]
  then show ?case using utf8_char_deref [OF Cons(1), of s] Cons by (subst codepoints.simps) (simp add: hd_append)
qed

lemma CodepointCount_append [simp]: "CodepointCount (s @ t) = CodepointCount s + CodepointCount t"
  by (simp add: CodepointCount_def)

lemma CodepointCount_char: "utf8_char p r \<Longrightarrow> CodepointCount p = 1"
proof -
  assume c: "utf8_char p r"
  have "(signed_take_bit 7 (ubyte b) \<ge> - 0x40) = (\<not> trail b)" for b
    using IsTrailByte_eq [of b] by (auto simp: IsTrailByte_def trail_def)
  then have "CodepointCount p = length (filter (\<lambda>b. \<not> trail b) p)" by (simp add: CodepointCount_def)
  moreover obtain b bs where "p = b # bs" using utf8_char_bytes(1) [OF c] by (cases p) auto
  ultimately show ?thesis using utf8_char_bytes(3,4) [OF c] by simp
qed

lemma utf8_text_size: "utf8_text s rs \<Longrightarrow> ut_size s = length rs"
  by (induction rule: utf8_text.induct) (simp_all add: ut_size_def CodepointCount_char, simp add: CodepointCount_def)

lemma utf8_text_valid: "utf8_text s rs \<Longrightarrow> list_all IsInterchangeValid rs"
  by (induction rule: utf8_text.induct) auto

lemma utf8_text_space: "utf8_text '' '' [0x20]"
proof -
  have "utf8_char '' '' 0x20" using utf8_char.one [of "CHR '' ''"] by simp
  moreover have "IsInterchangeValid 0x20" by (simp add: IsInterchangeValid_def)
  ultimately show ?thesis using utf8_text.Cons [OF _ _ utf8_text.Nil] by fastforce
qed

lemma Convert_valid: "\<exists>rs. utf8_text (ConvertToInterchangeValid s) rs"
proof (induction s rule: ConvertToInterchangeValid.induct)
  case (1 s)
  let ?g = "SpanInterchangeValid s"
  obtain gs where gs: "utf8_text (take ?g s) gs" using Span_sound [of s] by blast
  obtain v r n where vrn: "isvalidcharntorune (drop ?g s) = (v, r, n)" by (metis prod_cases3)
  let ?rest = "if v then drop n (drop ?g s) else drop 1 (drop ?g s)"
  show ?case
  proof (cases "s = [] \<or> drop ?g s = []")
    case True
    then show ?thesis using gs utf8_text.Nil by (subst ConvertToInterchangeValid.simps) (auto simp: Let_def)
  next
    case False
    then have "\<exists>rs. utf8_text (ConvertToInterchangeValid ?rest) rs" using vrn by (intro "1.IH" [OF _ refl refl _ _ refl refl]) auto
    then obtain rs where "utf8_text (ConvertToInterchangeValid ?rest) rs" by blast
    from utf8_text_append [OF gs utf8_text_append [OF utf8_text_space this]] False vrn show ?thesis
      by (subst ConvertToInterchangeValid.simps) (auto simp: Let_def)
  qed
qed

lemma CopyUTF8_text: "\<exists>rs. utf8_text (CopyUTF8 s) rs" "\<exists>rs. utf8_text (PointToUTF8 s) rs"
  using Convert_valid [of s] by (simp_all add: CopyUTF8_def PointToUTF8_def valid_text_iff)

definition pushed_codepoint :: "int \<Rightarrow> int" where
  "pushed_codepoint c = (if IsValidCodepoint c \<and> IsInterchangeValid c then c else 0x20)"

lemma push_back_text:
  assumes "utf8_text u rs"
  shows "utf8_text (push_back c u) (rs @ [pushed_codepoint c])"
proof -
  have sp: "utf8_text (u @ '' '') (rs @ [0x20])" using utf8_text_append [OF assms utf8_text_space] .
  show ?thesis
  proof (cases "IsValidCodepoint c")
    case True
    then have c: "utf8_char (runetochar c) c" by (intro runetochar_valid) (auto simp: IsValidCodepoint_def Runemax_def)
    have v: "IsInterchangeValid_text (runetochar c) \<longleftrightarrow> IsInterchangeValid c"
    proof
      assume "IsInterchangeValid_text (runetochar c)"
      then obtain rs where "utf8_text (runetochar c) rs" unfolding valid_text_iff by blast
      then have "codepoints (runetochar c) = Some rs" "list_all IsInterchangeValid rs"
        by (rule utf8_text_codepoints, rule utf8_text_valid)
      then show "IsInterchangeValid c" using utf8_char_deref [OF c, of "[]"] utf8_char_bytes(1,2) [OF c]
        by (subst (asm) codepoints.simps) (auto simp: codepoints.simps)
    next
      assume "IsInterchangeValid c"
      from utf8_text.Cons [OF c this utf8_text.Nil] show "IsInterchangeValid_text (runetochar c)" unfolding valid_text_iff by auto
    qed
    show ?thesis
      using True sp v utf8_text_append [OF assms utf8_text.Cons [OF c _ utf8_text.Nil]]
      by (auto simp: push_back_def pushed_codepoint_def Let_def)
  qed (use sp in \<open>simp add: push_back_def pushed_codepoint_def\<close>)
qed

text \<open>Text that the operations of \<^verbatim>\<open>UnicodeText\<close> can build.\<close>

inductive built :: "string \<Rightarrow> bool" where
  "built []"
| "built (CopyUTF8 buffer)"
| "built (PointToUTF8 buffer)"
| "built u \<Longrightarrow> built (push_back c u)"
| "built u \<Longrightarrow> built v \<Longrightarrow> built (ut_append u v)"

text \<open>C34: A \<open>UnicodeText\<close> always holds interchange-valid UTF-8, whatever bytes and code points it was
  built from: \<open>CopyUTF8\<close> and \<open>PointToUTF8\<close> repair invalid buffers, \<open>push_back\<close> replaces invalid
  code points, \<open>append\<close> keeps validity. Iterating over it, which reads the bytes without error
  checking, therefore never reads past the end and yields as many code points as \<open>size\<close> says,
  all of them valid.\<close>

theorem unicode_text_valid:
  assumes "built u"
  shows "IsInterchangeValid_text u \<and>
    (\<exists>rs. codepoints u = Some rs \<and> ut_size u = length rs \<and> list_all IsInterchangeValid rs)"
proof -
  from assms have "\<exists>rs. utf8_text u rs"
  proof (induction rule: built.induct)
    case 1
    then show ?case using utf8_text.Nil by blast
  next
    case (4 u c)
    then show ?case using push_back_text by blast
  next
    case (5 u v)
    then show ?case using utf8_text_append unfolding ut_append_def by blast
  qed (rule CopyUTF8_text)+
  then obtain rs where rs: "utf8_text u rs" by blast
  then show ?thesis using utf8_text_codepoints utf8_text_size utf8_text_valid valid_text_iff by blast
qed

theorem unicode_text_valid_witness:
  "let u = push_back 0x20AC (CopyUTF8 [CHR 0x41, CHR 0xC3, CHR 0x42]) in
   IsInterchangeValid_text u \<and> (\<exists>rs. codepoints u = Some rs \<and> ut_size u = length rs \<and> list_all IsInterchangeValid rs)"
  unfolding Let_def by (rule unicode_text_valid) (intro built.intros)

text \<open>C35: The text built by pushing code points one after the other is iterated as these code
  points, except that a code point that is a surrogate, out of range or not valid for
  interchange has become a space; the decoder \<open>charntorune\<close> reads back each valid code point
  from the bytes \<open>runetochar\<close> writes, and consumes exactly these bytes.\<close>

theorem unicode_text_roundtrip:
  "codepoints (foldl (\<lambda>u c. push_back c u) [] cs) = Some (map pushed_codepoint cs) \<and>
   ut_size (foldl (\<lambda>u c. push_back c u) [] cs) = length cs \<and>
   (IsValidCodepoint c \<longrightarrow> charntorune (runetochar c @ rest) = (c, length (runetochar c)))"
proof -
  have "utf8_text u rs \<Longrightarrow> utf8_text (foldl (\<lambda>u c. push_back c u) u cs) (rs @ map pushed_codepoint cs)" for u rs
    by (induction cs arbitrary: u rs) (use push_back_text in force)+
  from this [OF utf8_text.Nil] have t: "utf8_text (foldl (\<lambda>u c. push_back c u) [] cs) (map pushed_codepoint cs)" by simp
  have "charntorune (runetochar c @ rest) = (c, length (runetochar c))" if "IsValidCodepoint c"
    using that by (intro charntorune_complete runetochar_valid) (auto simp: IsValidCodepoint_def Runemax_def)
  then show ?thesis using utf8_text_codepoints [OF t] utf8_text_size [OF t] by simp
qed

theorem unicode_text_roundtrip_witness:
  "codepoints (foldl (\<lambda>u c. push_back c u) [] [0x41, 0x20AC, 0x1F600, 0xD800, 7]) = Some [0x41, 0x20AC, 0x1F600, 0x20, 0x20] \<and>
   ut_size (foldl (\<lambda>u c. push_back c u) [] [0x41, 0x20AC, 0x1F600, 0xD800, 7]) = 5 \<and>
   charntorune (runetochar 0x1F600 @ ''x'') = (0x1F600, length (runetochar 0x1F600))"
  using unicode_text_roundtrip [of "[0x41, 0x20AC, 0x1F600, 0xD800, 7]" "0x1F600" "''x''"]
  by (simp add: pushed_codepoint_def IsValidCodepoint_def IsInterchangeValid_def)

end
