(* ===== verification/Segmenter_Utils.thy ===== *)
theory Segmenter_Utils
  imports Utf8 Text_Formats
begin

text \<open>
  \<^verbatim>\<open>syntaxnet/segmenter_utils.{h,cc}\<close>, and the two formats of \<^verbatim>\<open>syntaxnet/text_formats.cc\<close> that make
  one token of each UTF-8 character. A \<^verbatim>\<open>StringPiece\<close> of a text is its offset and its length; its
  bytes are read only when it is copied, and a piece that reaches beyond the text has no
  defined copy.

  Lemmas: the characters of a valid text, with their offsets, and the break levels that
  \<open>ConvertToCharTokenDoc\<close> derives from a segmentation into words and breaks.
\<close>

type_synonym string_piece = "nat \<times> nat"

definition piece_string :: "string \<Rightarrow> string_piece \<Rightarrow> string option" where
  "piece_string text p =
     (if fst p + snd p \<le> length text then Some (take (snd p) (drop (fst p) text)) else None)"

definition text_span :: "string \<Rightarrow> int \<Rightarrow> int \<Rightarrow> string option" where
  "text_span text start len =
     (if 0 \<le> start \<and> 0 \<le> len \<and> start + len \<le> int (length text) then Some (take (nat len) (drop (nat start) text)) else None)"

definition kBreakChars :: "int list" where
  "kBreakChars = [0x2028, 0x2029, 0x0020, 0x00a0, 0x1680, 0x180e, 0x202f, 0x205f, 0x3000, 0xe5e5,
     0x2000, 0x2001, 0x2002, 0x2003, 0x2004, 0x2005, 0x2006, 0x2007, 0x2008, 0x2009, 0x200a]"

definition kLineSeparator :: int where
  "kLineSeparator = 0x2028"

definition kParagraphSeparator :: int where
  "kParagraphSeparator = 0x2029"

definition IsBreakChar :: "string \<Rightarrow> bool option" where
  "IsBreakChar word =
     (if word = [CHR 0x0A] \<or> word = [CHR 0x09] then Some True
      else do {
        let u = PointToUTF8 word;
        check (ut_size u = 1);
        point \<leftarrow> ci_deref u;
        Some (List.member kBreakChars point) })"

definition BreakLevel :: "string \<Rightarrow> break_level option" where
  "BreakLevel word = do {
     let u = PointToUTF8 word;
     point \<leftarrow> ci_deref u;
     Some (if word = [CHR 0x0A] \<or> point = kLineSeparator then LINE_BREAK
           else if point = kParagraphSeparator then SENTENCE_BREAK
           else if word = [CHR 0x09] \<or> List.member kBreakChars point then SPACE_BREAK
           else NO_BREAK) }"

definition GetCharStartEndBytes :: "string_piece \<Rightarrow> int \<times> int" where
  "GetCharStartEndBytes c = (int (fst c), int (fst c) + int (snd c) - 1)"

function utf8_chars_loop :: "string \<Rightarrow> nat \<Rightarrow> string_piece list" where
  "utf8_chars_loop text start =
     (if start < length text then
        let char_length = OneCharLen (text ! start)
        in (start, char_length) # utf8_chars_loop text (start + char_length)
      else [])"
  by pat_completeness auto
termination
  by (relation "measure (\<lambda>(text, start). length text - start)") (auto simp: OneCharLen_eq)

declare utf8_chars_loop.simps [simp del]

definition GetUTF8Chars :: "string \<Rightarrow> string_piece list" where
  "GetUTF8Chars text = utf8_chars_loop text 0"

fun chars_as_tokens :: "string \<Rightarrow> string_piece list \<Rightarrow> token list option" where
  "chars_as_tokens text [] = Some []"
| "chars_as_tokens text (c # chars) = do {
     word \<leftarrow> piece_string text c;
     let (start_byte, end_byte) = GetCharStartEndBytes c;
     toks \<leftarrow> chars_as_tokens text chars;
     Some (default_token\<lparr>tok_word := word, tok_start := start_byte, tok_end := end_byte\<rparr> # toks) }"

definition SetCharsAsTokens :: "string \<Rightarrow> string_piece list \<Rightarrow> sentence \<Rightarrow> sentence option" where
  "SetCharsAsTokens text chars s = do {
     toks \<leftarrow> chars_as_tokens text chars;
     Some (s\<lparr>sent_text := text, sent_token := toks\<rparr>) }"

definition DocTokensUTF8Consistent :: "string_piece list \<Rightarrow> sentence \<Rightarrow> bool" where
  "DocTokensUTF8Consistent chars s =
     (let starts = map (\<lambda>c. fst (GetCharStartEndBytes c)) chars;
          ends = map (\<lambda>c. snd (GetCharStartEndBytes c)) chars
      in list_all (\<lambda>t. List.member starts (tok_start t) \<and> List.member ends (tok_end t)) (sent_token s))"

fun token_ids_loop :: "int \<Rightarrow> token list \<Rightarrow> int list \<Rightarrow> int list" where
  "token_ids_loop t [] token_ids = token_ids"
| "token_ids_loop t (token # toks) token_ids =
     (let token_ids = token_ids @ replicate (nat (tok_start token) - length token_ids) (-1);
          token_ids = token_ids @ replicate (nat (tok_end token + 1) - length token_ids) t
      in token_ids_loop (t + 1) toks token_ids)"

fun break_levels_loop :: "int list \<Rightarrow> string_piece \<Rightarrow> string_piece list \<Rightarrow> break_level list option" where
  "break_levels_loop token_ids prev [] = Some []"
| "break_levels_loop token_ids prev (c # chars) = do {
     let (char_start, char_end) = GetCharStartEndBytes c;
     let (prev_char_start, prev_char_end) = GetCharStartEndBytes prev;
     id \<leftarrow> vec_at token_ids char_start;
     prev_id \<leftarrow> vec_at token_ids prev_char_end;
     let is_split = (id = -1 \<or> id \<noteq> prev_id);
     levels \<leftarrow> break_levels_loop token_ids c chars;
     Some ((if is_split then SPACE_BREAK else NO_BREAK) # levels) }"

definition ConvertToCharTokenDoc :: "sentence \<Rightarrow> sentence \<Rightarrow> (bool \<times> sentence) option" where
  "ConvertToCharTokenDoc s char_sentence = do {
     let orig_chars = GetUTF8Chars (sent_text s);
     if \<not> DocTokensUTF8Consistent orig_chars s then Some (False, char_sentence)
     else do {
       let token_ids = token_ids_loop 0 (sent_token s) [];
       let token_ids = token_ids @ replicate (length (sent_text s) - length token_ids) (-1);
       levels \<leftarrow> (case orig_chars of [] \<Rightarrow> Some [] | c # chars \<Rightarrow> break_levels_loop token_ids c chars);
       let break_levels = SPACE_BREAK # levels;
       char_sentence \<leftarrow> SetCharsAsTokens (sent_text s) orig_chars char_sentence;
       check (length break_levels = length (sent_token char_sentence));
       Some (True, char_sentence\<lparr>sent_token :=
         map2 (\<lambda>l t. t\<lparr>tok_break_level := l\<rparr>) break_levels (sent_token char_sentence)\<rparr>) } }"

definition IsValidSegment :: "sentence \<Rightarrow> token \<Rightarrow> bool" where
  "IsValidSegment s t \<longleftrightarrow>
     tok_word t \<noteq> [] \<and> \<not> tok_start t > tok_end t \<and> \<not> tok_start t < 0 \<and>
     \<not> tok_end t \<ge> int (length (sent_text s)) \<and>
     \<not> IsTrailByte (sent_text s ! nat (tok_start t)) \<and>
     \<not> IsTrailByte ((sent_text s @ [CHR 0x00]) ! nat (tok_end t + 1))"

subsection \<open>Formats with one token per character\<close>

definition char_token :: "string \<Rightarrow> int \<Rightarrow> int \<Rightarrow> break_level \<Rightarrow> token" where
  "char_token word start stop level =
     default_token\<lparr>tok_word := word, tok_start := start, tok_end := stop, tok_break_level := level\<rparr>"

fun word_chars :: "string \<Rightarrow> string_piece list \<Rightarrow> int \<Rightarrow> bool \<Rightarrow> token list \<Rightarrow> (int \<times> token list) option" where
  "word_chars word [] start is_first_char toks = Some (start, toks)"
| "word_chars word (c # chars) start is_first_char toks = do {
     utf8char \<leftarrow> piece_string word c;
     let start' = start + int (length utf8char);
     word_chars word chars start' False
       (toks @ [char_token utf8char start (start' - 1) (if is_first_char then SPACE_BREAK else NO_BREAK)]) }"

text \<open>One line of the segmentation training data: the word and whether a space follows.\<close>

definition segment_line :: "nat \<Rightarrow> nat \<Rightarrow> string \<Rightarrow> string \<times> token list \<Rightarrow> (string \<times> token list) option" where
  "segment_line num_lines i line acc =
     (let (text, toks) = acc; fields = Split line (CHR 0x09) in
      if fields = [] then Some acc
      else if first_char (fields ! 0) = CHR ''#'' then Some acc
      else do {
        check (length fields \<ge> 2);
        let word = fields ! 0;
        check (fields ! 1 = ''SPACE'' \<or> fields ! 1 = ''NO_SPACE'');
        let space_after = (fields ! 1 = ''SPACE'');
        let start = int (length text);
        let text = text @ word;
        let text = (if space_after \<and> i \<noteq> num_lines - 1 then text @ '' '' else text);
        (start, toks) \<leftarrow> word_chars word (GetUTF8Chars word) start True toks;
        Some (text, if space_after then toks @ [char_token '' '' start start SPACE_BREAK] else toks) })"

fun segment_lines :: "nat \<Rightarrow> nat \<Rightarrow> string list \<Rightarrow> string \<times> token list \<Rightarrow> (string \<times> token list) option" where
  "segment_lines num_lines i [] acc = Some acc"
| "segment_lines num_lines i (l # lines) acc = do {
     acc \<leftarrow> segment_line num_lines i l acc; segment_lines num_lines (i + 1) lines acc }"

definition segment_ConvertFromString :: "string \<Rightarrow> string \<Rightarrow> sentence list option" where
  "segment_ConvertFromString key value = do {
     let lines = Split value (CHR 0x0A);
     (text, toks) \<leftarrow> segment_lines (length lines) 0 lines ([], []);
     Some (if toks \<noteq> [] then [\<lparr>sent_docid = key, sent_text = text, sent_token = toks\<rparr>] else []) }"

fun untokenized_loop :: "string \<Rightarrow> string_piece list \<Rightarrow> int \<Rightarrow> token list option" where
  "untokenized_loop value [] start = Some []"
| "untokenized_loop value (c # chars) start = do {
     utf8char \<leftarrow> piece_string value c;
     let start' = start + int (snd c);
     toks \<leftarrow> untokenized_loop value chars start';
     Some (default_token\<lparr>tok_word := utf8char, tok_start := start, tok_end := start' - 1\<rparr> # toks) }"

definition untokenized_ConvertFromString :: "string \<Rightarrow> string \<Rightarrow> sentence list option" where
  "untokenized_ConvertFromString key value = do {
     toks \<leftarrow> untokenized_loop value (GetUTF8Chars value) 0;
     Some (if toks \<noteq> [] then [\<lparr>sent_docid = key, sent_text = value, sent_token = toks\<rparr>] else []) }"

subsection \<open>Characters of a text\<close>

definition good_char :: "string \<Rightarrow> bool" where
  "good_char p \<longleftrightarrow> (\<exists>r. utf8_char p r \<and> IsInterchangeValid r)"

fun pieces :: "nat \<Rightarrow> string list \<Rightarrow> string_piece list" where
  "pieces off [] = []"
| "pieces off (p # ps) = (off, length p) # pieces (off + length p) ps"

fun char_tokens :: "nat \<Rightarrow> string list \<Rightarrow> token list" where
  "char_tokens off [] = []"
| "char_tokens off (p # ps) =
     default_token\<lparr>tok_word := p, tok_start := int off, tok_end := int off + int (length p) - 1\<rparr> # char_tokens (off + length p) ps"

lemma pieces_append: "pieces off (xs @ ys) = pieces off xs @ pieces (off + length (concat xs)) ys"
  by (induction xs arbitrary: off) (simp_all add: add.assoc)

lemma char_tokens_append: "char_tokens off (xs @ ys) = char_tokens off xs @ char_tokens (off + length (concat xs)) ys"
  by (induction xs arbitrary: off) (simp_all add: add.assoc)

lemma length_pieces [simp]: "length (pieces off ps) = length ps"
  by (induction ps arbitrary: off) simp_all

lemma length_char_tokens [simp]: "length (char_tokens off ps) = length ps"
  by (induction ps arbitrary: off) simp_all

lemma good_char_nonempty: "good_char p \<Longrightarrow> p \<noteq> []"
  using utf8_char_bytes(1) by (auto simp: good_char_def)

lemma good_char_len: "good_char p \<Longrightarrow> OneCharLen (hd p) = length p"
  using utf8_char_bytes(2) by (auto simp: good_char_def)

lemma utf8_chars_pieces:
  assumes "list_all good_char ps"
  shows "utf8_chars_loop (pre @ concat ps) (length pre) = pieces (length pre) ps"
  using assms
proof (induction ps arbitrary: pre)
  case Nil
  then show ?case by (simp add: utf8_chars_loop.simps)
next
  case (Cons p ps)
  then have p: "p \<noteq> []" "OneCharLen (hd p) = length p" using good_char_nonempty good_char_len by auto
  have "(pre @ concat (p # ps)) ! length pre = hd p" using p(1) by (simp add: nth_append hd_conv_nth)
  moreover have "utf8_chars_loop (pre @ concat (p # ps)) (length pre + length p) = pieces (length pre + length p) ps"
    using Cons.IH [of "pre @ p"] Cons.prems by simp
  ultimately show ?case using p by (subst utf8_chars_loop.simps) (simp add: Let_def)
qed

lemma GetUTF8Chars_concat: "list_all good_char ps \<Longrightarrow> GetUTF8Chars (concat ps) = pieces 0 ps"
  using utf8_chars_pieces [of ps "[]"] by (simp add: GetUTF8Chars_def)

lemma chars_as_tokens_pieces: "chars_as_tokens (pre @ concat ps @ post) (pieces (length pre) ps) = Some (char_tokens (length pre) ps)"
proof (induction ps arbitrary: pre)
  case (Cons p ps)
  have "piece_string (pre @ concat (p # ps) @ post) (length pre, length p) = Some p" by (simp add: piece_string_def)
  then show ?case using Cons.IH [of "pre @ p"] by (simp add: GetCharStartEndBytes_def)
qed simp

lemma PointToUTF8_good: "good_char p \<Longrightarrow> PointToUTF8 p = p \<and> ut_size p = 1 \<and> (\<exists>r. ci_deref p = Some r)"
proof -
  assume "good_char p"
  then obtain r where r: "utf8_char p r" "IsInterchangeValid r" by (auto simp: good_char_def)
  from utf8_text.Cons [OF r utf8_text.Nil] have t: "utf8_text p [r]" by simp
  then have "IsInterchangeValid_text p" unfolding valid_text_iff by blast
  then show ?thesis using utf8_text_size [OF t] utf8_char_deref [OF r(1), of "[]"] by (simp add: PointToUTF8_def)
qed

lemma IsBreakChar_good: "good_char p \<Longrightarrow> \<exists>b. IsBreakChar p = Some b"
  using PointToUTF8_good [of p] by (auto simp: IsBreakChar_def)

lemma BreakLevel_good: "good_char p \<Longrightarrow> \<exists>l. BreakLevel p = Some l"
  using PointToUTF8_good [of p] by (auto simp: BreakLevel_def)

subsection \<open>Segmented sentences\<close>

text \<open>A segmentation: words, each with the break characters before it, and the break characters
  at the end, as lists of characters.\<close>

type_synonym segmentation = "(string list \<times> string list) list"

definition all_chars :: "segmentation \<Rightarrow> string list \<Rightarrow> string list" where
  "all_chars gs tail = concat (map (\<lambda>(g, w). g @ w) gs) @ tail"

fun group_tokens :: "nat \<Rightarrow> segmentation \<Rightarrow> (int \<times> int \<times> string) list" where
  "group_tokens off [] = []"
| "group_tokens off ((g, w) # gs) =
     (let start = off + length (concat g); stop = start + length (concat w)
      in (int start, int stop - 1, concat w) # group_tokens stop gs)"

definition extent :: "token \<Rightarrow> int \<times> int \<times> string" where
  "extent t = (tok_start t, tok_end t, tok_word t)"

definition group_ok :: "string list \<times> string list \<Rightarrow> bool" where
  "group_ok gw \<longleftrightarrow> list_all (\<lambda>p. good_char p \<and> IsBreakChar p = Some True) (fst gw) \<and>
     list_all (\<lambda>p. good_char p \<and> IsBreakChar p = Some False) (snd gw) \<and> snd gw \<noteq> []"

definition segmented :: "sentence \<Rightarrow> segmentation \<Rightarrow> string list \<Rightarrow> bool" where
  "segmented s gs tail \<longleftrightarrow> list_all group_ok gs \<and> list_all (\<lambda>p. good_char p \<and> IsBreakChar p = Some True) tail \<and>
     all_chars gs tail \<noteq> [] \<and> sent_text s = concat (all_chars gs tail) \<and> map extent (sent_token s) = group_tokens 0 gs"

fun char_ids :: "int \<Rightarrow> segmentation \<Rightarrow> string list \<Rightarrow> int list" where
  "char_ids t [] tail = replicate (length tail) (-1)"
| "char_ids t ((g, w) # gs) tail = replicate (length g) (-1) @ replicate (length w) t @ char_ids (t + 1) gs tail"

definition byte_ids :: "int list \<Rightarrow> string list \<Rightarrow> int list" where
  "byte_ids ids ps = concat (map2 (\<lambda>i p. replicate (length p) i) ids ps)"

fun id_levels :: "int \<Rightarrow> int list \<Rightarrow> break_level list" where
  "id_levels prev [] = []"
| "id_levels prev (i # is) = (if i = -1 \<or> i \<noteq> prev then SPACE_BREAK else NO_BREAK) # id_levels i is"

lemma all_chars_simps [simp]:
  "all_chars [] tail = tail" "all_chars ((g, w) # gs) tail = g @ w @ all_chars gs tail"
  by (simp_all add: all_chars_def)

lemma length_char_ids [simp]: "length (char_ids t gs tail) = length (all_chars gs tail)"
  by (induction t gs tail rule: char_ids.induct) simp_all

lemma byte_ids_simps [simp]:
  "byte_ids [] ps = []" "byte_ids (i # is) (p # ps) = replicate (length p) i @ byte_ids is ps"
  "length is = length ps \<Longrightarrow> byte_ids (is @ js) (ps @ qs) = byte_ids is ps @ byte_ids js qs"
  by (simp_all add: byte_ids_def)

lemma byte_ids_replicate: "byte_ids (replicate (length ps) i) ps = replicate (length (concat ps)) i"
  by (induction ps) (simp_all add: replicate_add)

lemma length_byte_ids [simp]: "length is = length ps \<Longrightarrow> length (byte_ids is ps) = length (concat ps)"
  by (induction "is" ps rule: list_induct2) simp_all

lemma token_ids_groups:
  assumes "map extent toks = group_tokens off gs" and "length ids = off"
  shows "token_ids_loop t toks ids @ replicate (length (concat tail)) (-1) = ids @ byte_ids (char_ids t gs tail) (all_chars gs tail)"
  using assms
proof (induction gs arbitrary: t toks ids off)
  case Nil
  then show ?case by (simp add: byte_ids_replicate)
next
  case (Cons gw gs)
  obtain g w where gw: "gw = (g, w)" by fastforce
  then obtain k toks' where toks: "toks = k # toks'" using Cons.prems(1) by (auto simp: Let_def map_eq_Cons_conv)
  let ?ids = "ids @ replicate (length (concat g)) (-1) @ replicate (length (concat w)) t"
  have e: "extent k = (int (off + length (concat g)), int (off + length (concat g) + length (concat w)) - 1, concat w)"
    and tl: "map extent toks' = group_tokens (off + length (concat g) + length (concat w)) gs"
    using Cons.prems(1) by (simp_all add: gw toks Let_def)
  have k: "tok_start k = int (off + length (concat g))" "tok_end k = int (off + length (concat g) + length (concat w)) - 1"
    using e by (simp_all add: extent_def)
  have "token_ids_loop t toks ids = token_ids_loop (t + 1) toks' ?ids"
  proof -
    have "nat (tok_start k) = off + length (concat g)" unfolding k by (rule nat_int)
    moreover have "nat (tok_end k + 1) = off + length (concat g) + length (concat w)" unfolding k by simp
    ultimately show ?thesis using Cons.prems(2) by (simp add: toks Let_def)
  qed
  then show ?case using Cons.IH [OF tl, of ?ids "t + 1"] Cons.prems(2) by (simp add: gw byte_ids_replicate)
qed

lemma vec_at_middle: "n = int (length xs) \<Longrightarrow> vec_at (xs @ v # ys) n = Some v"
  by (simp add: vec_at_def nth_append)

lemma break_levels_ids:
  assumes "length is = length ps" and "p0 \<noteq> ([] :: string)" and "list_all (\<lambda>p. p \<noteq> []) ps"
  shows "break_levels_loop (pre @ replicate (length p0) i0 @ byte_ids is ps) (length pre, length p0)
      (pieces (length pre + length p0) ps) = Some (id_levels i0 is)"
  using assms
proof (induction "is" ps arbitrary: pre p0 i0 rule: list_induct2)
  case (Cons i "is" p ps)
  let ?ids = "pre @ replicate (length p0) i0 @ byte_ids (i # is) (p # ps)"
  obtain c cs c0 cs0 where p: "p = c # cs" "p0 = c0 # cs0" using Cons.prems by (auto simp: neq_Nil_conv)
  have "vec_at ?ids (int (length pre + length p0)) = Some i"
    using vec_at_middle [of "int (length pre + length p0)" "pre @ replicate (length p0) i0"] by (simp add: p)
  moreover have "vec_at ?ids (int (length pre) + int (length p0) - 1) = Some i0"
    using vec_at_middle [of "int (length pre) + int (length p0) - 1" "pre @ replicate (length cs0) i0" i0]
    by (simp add: p replicate_app_Cons_same)
  moreover have "break_levels_loop ?ids (length pre + length p0, length p) (pieces (length pre + length p0 + length p) ps) = Some (id_levels i is)"
    using Cons.IH [of p "pre @ replicate (length p0) i0" i] Cons.prems by simp
  ultimately show ?case by (simp add: GetCharStartEndBytes_def)
qed simp

definition leveled :: "break_level list \<Rightarrow> token list \<Rightarrow> token list" where
  "leveled levels toks = map2 (\<lambda>l t. t\<lparr>tok_break_level := l\<rparr>) levels toks"

lemma group_ok_good: "group_ok gw \<Longrightarrow> list_all good_char (fst gw) \<and> list_all good_char (snd gw)"
  by (auto simp: group_ok_def elim: list.pred_mono_strong)

lemma group_good: "list_all group_ok gs \<Longrightarrow> list_all good_char tail \<Longrightarrow> list_all good_char (all_chars gs tail)"
proof (induction gs)
  case (Cons gw gs)
  then show ?case using group_ok_good [of gw] by (cases gw) simp
qed simp

lemma char_ids_range: "0 \<le> t \<Longrightarrow> i \<in> set (char_ids t gs tail) \<Longrightarrow> -1 \<le> i"
  by (induction t gs tail rule: char_ids.induct) auto

lemma length_id_levels [simp]: "length (id_levels prev is) = length is"
  by (induction "is" arbitrary: prev) simp_all

lemma pieces_last:
  "ps \<noteq> [] \<Longrightarrow> int off + int (length (concat ps)) - 1 \<in> snd ` GetCharStartEndBytes ` set (pieces off ps)"
proof (induction ps arbitrary: off)
  case (Cons p ps)
  show ?case
  proof (cases "ps = []")
    case False
    from Cons.IH [OF this, of "off + length p"] show ?thesis by (simp add: GetCharStartEndBytes_def add.assoc)
  qed (simp add: GetCharStartEndBytes_def)
qed simp

lemma group_tokens_consistent:
  assumes "list_all group_ok gs" and "(a, b, w) \<in> set (group_tokens off gs)"
  shows "a \<in> fst ` GetCharStartEndBytes ` set (pieces off (all_chars gs tail)) \<and>
    b \<in> snd ` GetCharStartEndBytes ` set (pieces off (all_chars gs tail))"
  using assms
proof (induction gs arbitrary: off)
  case (Cons gw gs)
  obtain g v where gw: "gw = (g, v)" by fastforce
  have v: "v \<noteq> []" using Cons.prems(1) by (simp add: gw group_ok_def)
  let ?off = "off + length (concat g)"
  have parts: "set (pieces off (all_chars (gw # gs) tail)) =
      set (pieces off g) \<union> set (pieces ?off v) \<union> set (pieces (?off + length (concat v)) (all_chars gs tail))"
    by (simp add: gw pieces_append Un_assoc)
  consider "(a, b, w) = (int ?off, int (?off + length (concat v)) - 1, concat v)" | "(a, b, w) \<in> set (group_tokens (?off + length (concat v)) gs)"
    using Cons.prems(2) by (auto simp: gw Let_def)
  then show ?case
  proof cases
    case 1
    moreover have "int ?off \<in> fst ` GetCharStartEndBytes ` set (pieces ?off v)"
      using v by (cases v) (auto simp: GetCharStartEndBytes_def)
    ultimately show ?thesis using pieces_last [OF v, of ?off] unfolding parts by (auto simp: image_Un)
  next
    case 2
    from Cons.IH [OF _ this] Cons.prems(1) show ?thesis unfolding parts by (auto simp: image_Un)
  qed
qed simp

lemma segmented_consistent:
  assumes "segmented s gs tail"
  shows "DocTokensUTF8Consistent (pieces 0 (all_chars gs tail)) s"
proof -
  have "tok_start t \<in> fst ` GetCharStartEndBytes ` set (pieces 0 (all_chars gs tail)) \<and>
      tok_end t \<in> snd ` GetCharStartEndBytes ` set (pieces 0 (all_chars gs tail))" if "t \<in> set (sent_token s)" for t
  proof -
    have "extent t \<in> set (map extent (sent_token s))" using that by simp
    moreover have "map extent (sent_token s) = group_tokens 0 gs" using assms by (simp add: segmented_def)
    ultimately have "extent t \<in> set (group_tokens 0 gs)" by (simp only:)
    then show ?thesis using group_tokens_consistent [of gs "tok_start t" "tok_end t" "tok_word t" 0 tail] assms
      by (simp add: extent_def segmented_def)
  qed
  then show ?thesis by (auto simp: DocTokensUTF8Consistent_def list_all_iff image_image)
qed

text \<open>The characters of a segmented sentence carry a break exactly where a word or a break
  character begins.\<close>

lemma ConvertToCharTokenDoc_segmented:
  assumes "segmented s gs tail"
  shows "ConvertToCharTokenDoc s c = Some (True, c\<lparr>sent_text := sent_text s,
    sent_token := leveled (id_levels (-2) (char_ids 0 gs tail)) (char_tokens 0 (all_chars gs tail))\<rparr>)"
proof -
  let ?ps = "all_chars gs tail" and ?is = "char_ids 0 gs tail"
  have ok: "list_all good_char ?ps" "?ps \<noteq> []" "sent_text s = concat ?ps" "map extent (sent_token s) = group_tokens 0 gs"
    using assms by (auto simp: segmented_def intro!: group_good elim: list.pred_mono_strong)
  have chars: "GetUTF8Chars (sent_text s) = pieces 0 ?ps" using GetUTF8Chars_concat [OF ok(1)] ok(3) by simp
  have ids: "token_ids_loop 0 (sent_token s) [] @ replicate (length (concat tail)) (-1) = byte_ids ?is ?ps"
    using token_ids_groups [OF ok(4), of "[]" 0 tail] by simp
  have "length (token_ids_loop 0 (sent_token s) []) + length (concat tail) = length (concat ?ps)"
    using arg_cong [OF ids, of length] by simp
  then have len: "length (sent_text s) - length (token_ids_loop 0 (sent_token s) []) = length (concat tail)" using ok(3) by simp
  obtain p ps where ps: "?ps = p # ps" using ok(2) by (cases ?ps) auto
  obtain i "is" where "is": "?is = i # is" using length_char_ids [of 0 gs tail] ps by (cases ?is) auto
  have i: "-1 \<le> i" using char_ids_range [of 0 i gs tail] by (simp add: "is")
  have "break_levels_loop (byte_ids ?is ?ps) (0, length p) (pieces (length p) ps) = Some (id_levels i is)"
    using break_levels_ids [of "is" ps p "[]" i] ok(1) length_char_ids [of 0 gs tail] good_char_nonempty
    by (simp add: ps "is" list_all_iff)
  moreover have "SetCharsAsTokens (sent_text s) (pieces 0 ?ps) c = Some (c\<lparr>sent_text := sent_text s, sent_token := char_tokens 0 ?ps\<rparr>)"
    using chars_as_tokens_pieces [of "[]" ?ps "[]"] ok(3) by (simp add: SetCharsAsTokens_def)
  moreover have "id_levels (-2) ?is = SPACE_BREAK # id_levels i is" using i by (simp add: "is")
  moreover have "length (id_levels (-2) ?is) = length ?ps" by simp
  ultimately show ?thesis
    using segmented_consistent [OF assms]
    by (simp add: ConvertToCharTokenDoc_def chars len ids ps Let_def leveled_def)
qed

end
