(* ===== verification/Binary_Segment.thy ===== *)
theory Binary_Segment
  imports Segmenter_Utils Transition_Systems
begin

text \<open>
  Word segmentation: \<^verbatim>\<open>syntaxnet/binary_segment_state.{h,cc}\<close> and
  \<^verbatim>\<open>syntaxnet/binary_segment_transitions.cc\<close>. The tokens of the input are UTF-8 characters; the
  action START begins a new word at the next character, MERGE appends it to the current word.
  The class of the transition state has no fields; the starts are the stack of the parser
  state.

  Lemmas: converting a segmented sentence to characters, running the oracle and adding the
  parse gives the words of the sentence back.
\<close>

type_synonym segment_state = "unit parser_state"

subsection \<open>The transition state\<close>

definition segment_Clone :: "unit \<Rightarrow> unit" where
  "segment_Clone ts = ()"

definition segment_Init :: "segment_state \<Rightarrow> segment_state option" where
  "segment_Init s = Some s"

definition NumStarts :: "segment_state \<Rightarrow> int" where
  "NumStarts s = StackSize s"

definition LastStart :: "int \<Rightarrow> segment_state \<Rightarrow> int" where
  "LastStart k s = Stack s k"

definition AddStart :: "int \<Rightarrow> segment_state \<Rightarrow> segment_state option" where
  "AddStart index s = Push index s"

definition segment_IsTokenCorrect :: "unit \<Rightarrow> segment_state \<Rightarrow> int \<Rightarrow> bool option" where
  "segment_IsTokenCorrect ts s index = Some True"

definition append_word :: "segment_state \<Rightarrow> int \<Rightarrow> string \<Rightarrow> string option" where
  "append_word s k str = do { token \<leftarrow> GetToken s k; Some (str @ tok_word token) }"

definition segment_word :: "segment_state \<Rightarrow> int \<Rightarrow> string \<Rightarrow> string option" where
  "segment_word s i str = do {
     let start = LastStart i s;
     stop \<leftarrow> (if i - 1 \<ge> 0 then Some (LastStart (i - 1) s - 1)
              else if EndOfInput s then Some (token_size (ps_sentence s) - 1)
              else do { next \<leftarrow> Next s; Some (next - 1) });
     str \<leftarrow> foreach (append_word s) [start..stop] str;
     Some (if i \<ge> 1 then str @ '' '' else str) }"

definition segment_ToString :: "unit \<Rightarrow> segment_state \<Rightarrow> string option" where
  "segment_ToString ts s = do {
     str \<leftarrow> foreach (segment_word s) (rev [0..NumStarts s - 1]) ''['';
     let str = str @ ''] '';
     next \<leftarrow> Next s;
     foreach (append_word s) [next..NumTokens s - 1] str }"

record segment_acc =
  sa_tokens :: "token list"
  sa_break_level :: break_level
  sa_is_first :: bool

definition clip_level :: "break_level \<Rightarrow> break_level" where
  "clip_level l = (case l of LINE_BREAK \<Rightarrow> LINE_BREAK | SENTENCE_BREAK \<Rightarrow> LINE_BREAK | _ \<Rightarrow> l)"

definition add_char :: "bool \<Rightarrow> token \<Rightarrow> segment_acc \<Rightarrow> segment_acc option" where
  "add_char is_start token acc = do {
     let word = tok_word token;
     is_break \<leftarrow> IsBreakChar word;
     acc \<leftarrow> (if is_start \<or> sa_is_first acc then
                if \<not> is_break then
                  Some (acc\<lparr>sa_tokens := sa_tokens acc @ [default_token\<lparr>tok_start := tok_start token, tok_end := tok_end token,
                      tok_word := word, tok_break_level := sa_break_level acc\<rparr>], sa_is_first := False\<rparr>)
                else Some acc
              else if \<not> is_break then do {
                let index = int (length (sa_tokens acc)) - 1;
                last_token \<leftarrow> vec_at (sa_tokens acc) index;
                toks \<leftarrow> vec_set (sa_tokens acc) index
                  (last_token\<lparr>tok_word := tok_word last_token @ word, tok_end := tok_end token\<rparr>);
                Some (acc\<lparr>sa_tokens := toks\<rparr>) }
              else Some acc);
     level \<leftarrow> (if is_break then BreakLevel word else Some NO_BREAK);
     Some (acc\<lparr>sa_break_level := clip_level level\<rparr>) }"

fun add_chars :: "bool list \<Rightarrow> int \<Rightarrow> token list \<Rightarrow> segment_acc \<Rightarrow> segment_acc option" where
  "add_chars is_starts i [] acc = Some acc"
| "add_chars is_starts i (token # toks) acc = do {
     is_start \<leftarrow> vec_at is_starts i;
     acc \<leftarrow> add_char is_start token acc;
     add_chars is_starts (i + 1) toks acc }"

definition segment_AddParseToDocument :: "unit \<Rightarrow> segment_state \<Rightarrow> bool \<Rightarrow> sentence \<Rightarrow> sentence option" where
  "segment_AddParseToDocument ts s rewrite_root_labels d =
     (if token_size d = 0 then Some d
      else do {
        let is_starts = replicate (length (sent_token d)) False;
        is_starts \<leftarrow> foreach (\<lambda>i starts. vec_set starts (LastStart i s) True) [0..NumStarts s - 1] is_starts;
        acc \<leftarrow> add_chars is_starts 0 (sent_token d) \<lparr>sa_tokens = [], sa_break_level = NO_BREAK, sa_is_first = True\<rparr>;
        Some (d\<lparr>sent_token := sa_tokens acc\<rparr>) })"

subsection \<open>The transition system\<close>

definition StartAction :: parser_action where
  "StartAction = 0"

definition MergeAction :: parser_action where
  "MergeAction = 1"

definition segment_GetDefaultAction :: "segment_state \<Rightarrow> parser_action option" where
  "segment_GetDefaultAction s = Some StartAction"

definition segment_NumActionTypes :: int where
  "segment_NumActionTypes = 2"

definition segment_NumActions :: "int \<Rightarrow> int" where
  "segment_NumActions num_labels = 2"

definition segment_GetNextGoldAction :: "segment_state \<Rightarrow> parser_action option" where
  "segment_GetNextGoldAction s = do {
     next \<leftarrow> Next s;
     if next = 0 then Some StartAction
     else do {
       token \<leftarrow> GetToken s next;
       Some (if tok_break_level token \<noteq> NO_BREAK then StartAction else MergeAction) } }"

definition segment_IsAllowedAction :: "parser_action \<Rightarrow> segment_state \<Rightarrow> bool option" where
  "segment_IsAllowedAction action s = Some True"

definition segment_PerformActionWithoutHistory :: "parser_action \<Rightarrow> segment_state \<Rightarrow> segment_state option" where
  "segment_PerformActionWithoutHistory action s = do {
     s \<leftarrow> (if action < 0 \<or> action = StartAction then do { next \<leftarrow> Next s; AddStart next s } else Some s);
     Advance s }"

definition segment_IsDeterministicState :: "segment_state \<Rightarrow> bool option" where
  "segment_IsDeterministicState s = do { next \<leftarrow> Next s; Some (next = 0) }"

definition segment_IsFinalState :: "segment_state \<Rightarrow> bool option" where
  "segment_IsFinalState s = Some (EndOfInput s)"

definition segment_ActionAsString :: "parser_action \<Rightarrow> segment_state \<Rightarrow> string option" where
  "segment_ActionAsString action s = Some (if action = StartAction then ''START'' else ''MERGE'')"

definition new_segment_state :: "sentence \<Rightarrow> term_frequency_map \<Rightarrow> segment_state option" where
  "new_segment_state sentence label_map = ParserState segment_Init sentence (Some ()) label_map"

subsection \<open>Features\<close>

definition offset_UpdateArgs :: "int \<Rightarrow> segment_state \<Rightarrow> int \<Rightarrow> int" where
  "offset_UpdateArgs argument s focus =
     (if focus < -1 \<or> focus \<ge> token_size (ps_sentence s) then -2
      else let new_focus = focus + argument in
        if new_focus < -1 \<or> new_focus \<ge> token_size (ps_sentence s) then -2 else new_focus)"

text \<open>A feature function with a term map; the two special values follow its terms.\<close>

definition term_unknown_id :: "term_frequency_map \<Rightarrow> int" where
  "term_unknown_id m = Size m"

definition term_outside_id :: "term_frequency_map \<Rightarrow> int" where
  "term_outside_id m = term_unknown_id m + 1"

definition bigram_NumValues :: "term_frequency_map \<Rightarrow> int" where
  "bigram_NumValues m = term_outside_id m + 1"

definition bigram_GetFeatureValueName :: "term_frequency_map \<Rightarrow> int \<Rightarrow> string option" where
  "bigram_GetFeatureValueName m value =
     (if value = term_outside_id m then Some ''<OUTSIDE>''
      else if value = term_unknown_id m then Some ''<UNKNOWN>''
      else GetTerm m value)"

definition bigram_Compute :: "term_frequency_map \<Rightarrow> segment_state \<Rightarrow> int \<Rightarrow> int option" where
  "bigram_Compute m s focus =
     (if focus < 0 \<or> focus \<ge> token_size (ps_sentence s) - 1 then Some (term_outside_id m)
      else do {
        t \<leftarrow> GetToken s focus;
        t' \<leftarrow> GetToken s (focus + 1);
        let start = tok_start t;
        let len = tok_end t' - start + 1;
        check (len > 0);
        check (start + len \<le> int (length (sent_text (ps_sentence s))));
        data \<leftarrow> text_span (sent_text (ps_sentence s)) start len;
        Some (LookupIndex m data (term_unknown_id m)) })"

definition last_word_Compute :: "term_frequency_map \<Rightarrow> int \<Rightarrow> segment_state \<Rightarrow> int option" where
  "last_word_Compute m n s = do {
     check (n > 0);
     if n \<ge> NumStarts s then Some (term_outside_id m)
     else do {
       let start = LastStart n s;
       let stop = LastStart (n - 1) s - 1;
       check (stop \<ge> start);
       t \<leftarrow> GetToken s start;
       t' \<leftarrow> GetToken s stop;
       let len = tok_end t' - tok_start t + 1;
       data \<leftarrow> text_span (sent_text (ps_sentence s)) (tok_start t) len;
       Some (LookupIndex m data (term_unknown_id m)) } }"

subsection \<open>The oracle marks the characters with a break\<close>

text \<open>The system can act on every character; \<open>IsAllowedAction\<close> does not look for the end of the
  input, so the parse loop asks \<open>IsFinalState\<close> first.\<close>

definition segment_may_act :: "parser_action \<Rightarrow> segment_state \<Rightarrow> bool option" where
  "segment_may_act a s = do { allowed \<leftarrow> segment_IsAllowedAction a s; final \<leftarrow> segment_IsFinalState s; Some (allowed \<and> \<not> final) }"

definition segment_inv :: "segment_state \<Rightarrow> bool" where
  "segment_inv s \<longleftrightarrow> ps_wf s \<and> 0 \<le> ps_next s \<and> ps_next s \<le> ps_num_tokens s \<and> int (length (ps_stack s)) \<le> ps_next s \<and>
     ps_transition_state s = Some ()"

definition segment_steps_left :: "segment_state \<Rightarrow> nat" where
  "segment_steps_left s = nat (ps_num_tokens s - ps_next s)"

definition starts_word :: "sentence \<Rightarrow> int \<Rightarrow> bool" where
  "starts_word d i \<longleftrightarrow> i = 0 \<or> tok_break_level (sent_token d ! nat i) \<noteq> NO_BREAK"

definition segment_on_gold :: "segment_state \<Rightarrow> bool" where
  "segment_on_gold s \<longleftrightarrow> ps_stack s = filter (starts_word (ps_sentence s)) [0..ps_next s - 1]"

lemma segment_step:
  assumes "segment_inv s" and "ps_next s < ps_num_tokens s"
  shows "segment_PerformActionWithoutHistory a s = Some (s\<lparr>ps_stack := ps_stack s @ (if a < 0 \<or> a = StartAction then [ps_next s] else []),
      ps_next := ps_next s + 1\<rparr>) \<and>
    segment_inv (s\<lparr>ps_stack := ps_stack s @ (if a < 0 \<or> a = StartAction then [ps_next s] else []), ps_next := ps_next s + 1\<rparr>)"
  using assms by (auto simp: segment_inv_def segment_PerformActionWithoutHistory_def AddStart_def Push_def Advance_def ps_wf_def)

interpretation segment: parser_transition_system
  segment_may_act segment_IsFinalState segment_PerformActionWithoutHistory segment_inv segment_steps_left
proof unfold_locales
  fix s :: segment_state and a h
  show "segment_steps_left (s\<lparr>ps_history := h\<rparr>) = segment_steps_left s" by (simp add: segment_steps_left_def)
  show "segment_may_act a (s\<lparr>ps_history := h\<rparr>) = segment_may_act a s"
    by (simp add: segment_may_act_def segment_IsAllowedAction_def segment_IsFinalState_def EndOfInput_def)
  assume inv: "segment_inv s"
  then show "segment_inv (s\<lparr>ps_history := h\<rparr>)" by (simp add: segment_inv_def ps_wf_cong)
  show "segment_IsFinalState s = Some (segment_steps_left s = 0)"
    using inv by (auto simp: segment_IsFinalState_def segment_steps_left_def segment_inv_def EndOfInput_def)
  have al: "segment_may_act a s = Some (ps_next s < ps_num_tokens s)"
    using inv by (auto simp: segment_may_act_def segment_IsAllowedAction_def segment_IsFinalState_def EndOfInput_def segment_inv_def)
  then show "\<exists>b. segment_may_act a s = Some b" by simp
  assume "segment_may_act a s = Some True"
  with al have more: "ps_next s < ps_num_tokens s" by simp
  then show "0 < segment_steps_left s" by (simp add: segment_steps_left_def)
  show "\<exists>s'. segment_PerformActionWithoutHistory a s = Some s' \<and> segment_inv s' \<and> Suc (segment_steps_left s') = segment_steps_left s \<and>
      ps_history s' = ps_history s \<and> ps_keep_history s' = ps_keep_history s \<and>
      ps_sentence s' = ps_sentence s \<and> ps_label_map s' = ps_label_map s"
    using segment_step [OF inv more, of a] more by (auto simp: segment_steps_left_def)
qed

interpretation segment: oracle_system
  segment_may_act segment_IsFinalState segment_PerformActionWithoutHistory segment_inv segment_steps_left
  segment_GetNextGoldAction segment_on_gold
proof unfold_locales
  fix s :: segment_state and h
  show "segment_GetNextGoldAction (s\<lparr>ps_history := h\<rparr>) = segment_GetNextGoldAction s"
    by (simp add: segment_GetNextGoldAction_def Next_def GetToken_def)
  show "segment_on_gold s \<Longrightarrow> segment_on_gold (s\<lparr>ps_history := h\<rparr>)" by (simp add: segment_on_gold_def)
  assume inv: "segment_inv s" and gold: "segment_on_gold s" and "0 < segment_steps_left s"
  then have rng: "0 \<le> ps_next s" "ps_next s < ps_num_tokens s" "ps_num_tokens s = token_size (ps_sentence s)"
    by (auto simp: segment_steps_left_def segment_inv_def ps_wf_def)
  let ?a = "if starts_word (ps_sentence s) (ps_next s) then StartAction else MergeAction"
  have "segment_GetNextGoldAction s = Some ?a"
    using rng by (auto simp: segment_GetNextGoldAction_def Next_def GetToken_def sent_token_at_in starts_word_def)
  moreover have "segment_may_act ?a s = Some True"
    using rng by (simp add: segment_may_act_def segment_IsAllowedAction_def segment_IsFinalState_def EndOfInput_def)
  moreover have "segment_on_gold s'" if "segment_PerformActionWithoutHistory ?a s = Some s'" for s'
    using that segment_step [OF inv rng(2), of ?a] gold rng(1)
    by (auto simp: segment_on_gold_def StartAction_def MergeAction_def upto_rec2 split: if_splits)
  ultimately show "\<exists>a. segment_GetNextGoldAction s = Some a \<and> segment_may_act a s = Some True \<and>
      (\<forall>s'. segment_PerformActionWithoutHistory a s = Some s' \<longrightarrow> segment_on_gold s')" by blast
qed

lemma segment_oracle_run:
  assumes "tfm_inv label_map"
  obtains s0 s where "new_segment_state d label_map = Some s0"
    and "drive segment_IsFinalState (PerformAction segment_PerformActionWithoutHistory) segment_GetNextGoldAction (length (sent_token d)) s0 = Some s"
    and "ps_stack s = filter (starts_word d) [0..token_size d - 1]" and "ps_transition_state s = Some ()"
proof -
  let ?s0 = "fresh_state d (Some ()) label_map"
  have new: "new_segment_state d label_map = Some ?s0" by (simp add: new_segment_state_def ParserState_def segment_Init_def Let_def)
  have f: "ps_num_tokens ?s0 = token_size d" "ps_next ?s0 = 0" "ps_stack ?s0 = []" "ps_sentence ?s0 = d"
    "ps_transition_state ?s0 = Some ()"
    by (simp_all add: fresh_state_def Let_def)
  have i: "segment_inv ?s0" "segment_on_gold ?s0"
    using ps_wf_fresh [OF assms, of d "Some ()"] f by (auto simp: segment_inv_def segment_on_gold_def)
  have "segment_steps_left ?s0 = length (sent_token d)" using f by (simp add: segment_steps_left_def token_size_def)
  with segment.gold_run [OF i] obtain acts s where
    s: "drive segment_IsFinalState (PerformAction segment_PerformActionWithoutHistory) segment_GetNextGoldAction (length (sent_token d)) ?s0 = Some s"
      "allowed_run segment_may_act (PerformAction segment_PerformActionWithoutHistory) ?s0 acts s" "segment_inv s" "segment_on_gold s"
      "segment_IsFinalState s = Some True" by auto
  have d: "ps_sentence s = d" using segment.recorded_run [OF s(2) i(1)] f(4) by simp
  then have "ps_next s = token_size d" using s(3,5) ps_wfD(1) [of s] by (auto simp: segment_IsFinalState_def EndOfInput_def segment_inv_def)
  then have st: "ps_stack s = filter (starts_word d) [0..token_size d - 1]" using s(4) d by (simp add: segment_on_gold_def)
  have "ps_transition_state s = Some ()" using s(3) by (simp add: segment_inv_def)
  from that [OF new s(1) st this] show thesis .
qed

subsection \<open>Adding the parse\<close>

fun add_pairs :: "(bool \<times> token) list \<Rightarrow> segment_acc \<Rightarrow> segment_acc option" where
  "add_pairs [] acc = Some acc"
| "add_pairs ((is_start, token) # ps) acc = do { acc \<leftarrow> add_char is_start token acc; add_pairs ps acc }"

lemma add_chars_pairs:
  "length flags = length toks \<Longrightarrow> add_chars (pre @ flags) (int (length pre)) toks acc = add_pairs (zip flags toks) acc"
proof (induction flags toks arbitrary: pre acc rule: list_induct2)
  case (Cons f flags t toks)
  have "add_chars (pre @ f # flags) (int (length pre) + 1) toks = add_pairs (zip flags toks)"
    using Cons.IH [of "pre @ [f]"] by (intro ext) (simp add: add.commute)
  then show ?case by (simp add: vec_at_middle)
qed simp

lemma add_pairs_append: "add_pairs (ps @ qs) acc = do { acc \<leftarrow> add_pairs ps acc; add_pairs qs acc }"
  by (induction ps arbitrary: acc) (auto split: bind_splits)

definition gap_level :: "string list \<Rightarrow> break_level" where
  "gap_level g = (if g = [] then NO_BREAK else clip_level (the (BreakLevel (last g))))"

text \<open>Break characters only change the break level.\<close>

lemma add_gap:
  assumes "list_all (\<lambda>p. good_char p \<and> IsBreakChar p = Some True) g" and "length fl = length g" and "length lv = length g"
  shows "add_pairs (zip fl (leveled lv (char_tokens off g))) acc =
    Some (if g = [] then acc else acc\<lparr>sa_break_level := gap_level g\<rparr>)"
  using assms
proof (induction g arbitrary: off acc fl lv)
  case (Cons p g)
  obtain f fl' where fl: "fl = f # fl'" using Cons.prems(2) by (cases fl) auto
  obtain l lv' where lv: "lv = l # lv'" using Cons.prems(3) by (cases lv) auto
  obtain b where b: "BreakLevel p = Some b" using BreakLevel_good [of p] Cons.prems(1) by auto
  let ?t = "default_token\<lparr>tok_word := p, tok_start := int off, tok_end := int off + int (length p) - 1, tok_break_level := l\<rparr>"
  have "add_char f ?t acc = Some (acc\<lparr>sa_break_level := clip_level b\<rparr>)"
    using Cons.prems(1) b by (simp add: add_char_def)
  moreover have "add_pairs (zip fl' (leveled lv' (char_tokens (off + length p) g))) acc' =
      Some (if g = [] then acc' else acc'\<lparr>sa_break_level := gap_level g\<rparr>)" for acc'
    using Cons by (simp add: fl lv)
  ultimately show ?case using b by (simp add: fl lv leveled_def gap_level_def)
qed (simp add: leveled_def)

text \<open>The characters of a word after its first one are appended to the word.\<close>

lemma add_rest:
  assumes "list_all (\<lambda>p. good_char p \<and> IsBreakChar p = Some False) w" and "length lv = length w"
    and "\<not> sa_is_first acc" and "sa_break_level acc = NO_BREAK" and "sa_tokens acc = ts @ [t]" and "tok_end t = int off - 1"
  shows "add_pairs (zip (replicate (length w) False) (leveled lv (char_tokens off w))) acc =
    Some (acc\<lparr>sa_tokens := ts @ [t\<lparr>tok_word := tok_word t @ concat w, tok_end := int (off + length (concat w)) - 1\<rparr>]\<rparr>)"
  using assms
proof (induction w arbitrary: off acc lv t)
  case (Cons p w)
  obtain l lv' where lv: "lv = l # lv'" using Cons.prems(2) by (cases lv) auto
  let ?k = "default_token\<lparr>tok_word := p, tok_start := int off, tok_end := int off + int (length p) - 1, tok_break_level := l\<rparr>"
  let ?t = "t\<lparr>tok_word := tok_word t @ p, tok_end := int off + int (length p) - 1\<rparr>"
  let ?acc = "acc\<lparr>sa_tokens := ts @ [?t]\<rparr>"
  have "add_char False ?k acc = Some ?acc"
    using Cons.prems by (simp add: add_char_def vec_at_def vec_set_def nth_append clip_level_def)
  moreover have "add_pairs (zip (replicate (length w) False) (leveled lv' (char_tokens (off + length p) w))) ?acc =
      Some (?acc\<lparr>sa_tokens := ts @ [?t\<lparr>tok_word := tok_word ?t @ concat w, tok_end := int (off + length p + length (concat w)) - 1\<rparr>]\<rparr>)"
    using Cons.prems by (intro Cons.IH) (simp_all add: lv)
  ultimately show ?case by (simp add: lv leveled_def add.assoc)
qed (simp add: leveled_def)

definition word_token :: "break_level \<Rightarrow> int \<Rightarrow> string list \<Rightarrow> token" where
  "word_token level start w =
     default_token\<lparr>tok_start := start, tok_end := start + int (length (concat w)) - 1, tok_word := concat w, tok_break_level := level\<rparr>"

lemma add_word:
  assumes "list_all (\<lambda>p. good_char p \<and> IsBreakChar p = Some False) w" and "length lv = length w" and "w \<noteq> []"
  shows "add_pairs (zip (True # replicate (length w - 1) False) (leveled lv (char_tokens off w))) acc =
    Some \<lparr>sa_tokens = sa_tokens acc @ [word_token (sa_break_level acc) (int off) w], sa_break_level = NO_BREAK, sa_is_first = False\<rparr>"
proof -
  obtain p w' where w: "w = p # w'" using assms(3) by (cases w) auto
  obtain l lv' where lv: "lv = l # lv'" using assms(2) w by (cases lv) auto
  let ?k = "default_token\<lparr>tok_word := p, tok_start := int off, tok_end := int off + int (length p) - 1, tok_break_level := l\<rparr>"
  let ?t = "word_token (sa_break_level acc) (int off) [p]"
  let ?acc = "\<lparr>sa_tokens = sa_tokens acc @ [?t], sa_break_level = NO_BREAK, sa_is_first = False\<rparr>"
  have "add_char True ?k acc = Some ?acc"
    using assms(1) by (simp add: w add_char_def clip_level_def word_token_def)
  moreover have "add_pairs (zip (replicate (length w') False) (leveled lv' (char_tokens (off + length p) w'))) ?acc =
      Some (?acc\<lparr>sa_tokens := sa_tokens acc @ [?t\<lparr>tok_word := tok_word ?t @ concat w', tok_end := int (off + length p + length (concat w')) - 1\<rparr>]\<rparr>)"
    using assms by (intro add_rest) (simp_all add: w lv word_token_def)
  ultimately show ?thesis by (simp add: w lv leveled_def word_token_def add.assoc)
qed

lemma id_levels_append: "id_levels prev (xs @ ys) = id_levels prev xs @ id_levels (last (prev # xs)) ys"
  by (induction xs arbitrary: prev) simp_all

lemma id_levels_gap: "id_levels prev (replicate n (-1)) = replicate n SPACE_BREAK"
  by (induction n arbitrary: prev) simp_all

lemma id_levels_same: "t \<noteq> -1 \<Longrightarrow> id_levels t (replicate n t) = replicate n NO_BREAK"
  by (induction n) simp_all

lemma leveled_append: "length a = length c \<Longrightarrow> leveled (a @ b) (c @ d) = leveled a c @ leveled b d"
  by (simp add: leveled_def)

lemma length_leveled [simp]: "length lv = length ts \<Longrightarrow> length (leveled lv ts) = length ts"
  by (simp add: leveled_def)

fun group_words :: "nat \<Rightarrow> segmentation \<Rightarrow> token list" where
  "group_words off [] = []"
| "group_words off ((g, w) # gs) =
     word_token (gap_level g) (int (off + length (concat g))) w # group_words (off + length (concat g) + length (concat w)) gs"

definition start_flags :: "break_level list \<Rightarrow> bool list" where
  "start_flags lv = map (\<lambda>l. l \<noteq> NO_BREAK) lv"

lemma start_flags_simps [simp]:
  "start_flags (a @ b) = start_flags a @ start_flags b" "start_flags (replicate n SPACE_BREAK) = replicate n True"
  "start_flags (replicate n NO_BREAK) = replicate n False" "start_flags (l # lv) = (l \<noteq> NO_BREAK) # start_flags lv"
  "length (start_flags lv) = length lv"
  by (simp_all add: start_flags_def)

lemma add_groups:
  assumes "list_all group_ok gs" and "list_all (\<lambda>p. good_char p \<and> IsBreakChar p = Some True) tail"
    and "prev < t" and "0 \<le> t" and "sa_break_level acc = NO_BREAK"
  shows "\<exists>acc'. add_pairs (zip (start_flags (id_levels prev (char_ids t gs tail)))
      (leveled (id_levels prev (char_ids t gs tail)) (char_tokens off (all_chars gs tail)))) acc = Some acc' \<and>
    sa_tokens acc' = sa_tokens acc @ group_words off gs"
  using assms
proof (induction gs arbitrary: prev t off acc)
  case Nil
  then show ?case using add_gap [of tail "replicate (length tail) True" "replicate (length tail) SPACE_BREAK" off acc]
    by (auto simp: id_levels_gap)
next
  case (Cons gw gs)
  obtain g w where gw: "gw = (g, w)" by fastforce
  have ok: "list_all (\<lambda>p. good_char p \<and> IsBreakChar p = Some True) g" "list_all (\<lambda>p. good_char p \<and> IsBreakChar p = Some False) w" "w \<noteq> []"
    using Cons.prems(1) by (simp_all add: gw group_ok_def)
  then obtain m where m: "length w = Suc m" by (cases w) auto
  let ?prev = "last (prev # replicate (length g) (-1))"
  have "?prev \<noteq> t" using Cons.prems(3,4) by (cases g) auto
  then have lv: "id_levels prev (char_ids t (gw # gs) tail) =
      replicate (length g) SPACE_BREAK @ (SPACE_BREAK # replicate m NO_BREAK) @ id_levels t (char_ids (t + 1) gs tail)"
    using Cons.prems(4) by (simp add: gw m id_levels_append id_levels_gap id_levels_same)
  let ?acc1 = "acc\<lparr>sa_break_level := gap_level g\<rparr>"
  let ?off = "off + length (concat g)"
  have gap: "add_pairs (zip (replicate (length g) True) (leveled (replicate (length g) SPACE_BREAK) (char_tokens off g))) acc = Some ?acc1"
    using add_gap [OF ok(1), of "replicate (length g) True" "replicate (length g) SPACE_BREAK" off acc] Cons.prems(5)
    by (cases "g = []") (simp_all add: gap_level_def segment_acc.equality)
  let ?acc2 = "\<lparr>sa_tokens = sa_tokens acc @ [word_token (gap_level g) (int ?off) w], sa_break_level = NO_BREAK, sa_is_first = False\<rparr>"
  have word: "add_pairs (zip (True # replicate m False) (leveled (SPACE_BREAK # replicate m NO_BREAK) (char_tokens ?off w))) ?acc1 = Some ?acc2"
    using add_word [OF ok(2) _ ok(3), of "SPACE_BREAK # replicate m NO_BREAK" ?off ?acc1] m by simp
  have "\<exists>acc'. add_pairs (zip (start_flags (id_levels t (char_ids (t + 1) gs tail)))
      (leveled (id_levels t (char_ids (t + 1) gs tail)) (char_tokens (?off + length (concat w)) (all_chars gs tail)))) ?acc2 = Some acc' \<and>
    sa_tokens acc' = sa_tokens ?acc2 @ group_words (?off + length (concat w)) gs"
    using Cons.prems by (intro Cons.IH) simp_all
  then show ?case using gap word m unfolding lv
    by (simp add: gw char_tokens_append leveled_append add_pairs_append del: append_Cons add_pairs.simps(2)) simp
qed

lemma foreach_map: "foreach f (map g xs) s = foreach (\<lambda>x. f (g x)) xs s"
  by (induction xs arbitrary: s) (auto split: bind_splits)

lemma set_flags:
  "\<forall>x \<in> set xs. 0 \<le> x \<and> x < int (length st) \<Longrightarrow>
     foreach (\<lambda>x st. vec_set st x True) xs st = Some (map (\<lambda>j. st ! j \<or> int j \<in> set xs) [0..<length st])"
proof (induction xs arbitrary: st)
  case Nil
  then show ?case using map_nth [of st] by simp
next
  case (Cons x xs)
  then show ?case by (auto simp: nth_list_update split: if_splits)
qed

lemma word_starts:
  assumes "\<forall>x \<in> set (ps_stack s). 0 \<le> x \<and> x < int n"
  shows "foreach (\<lambda>i starts. vec_set starts (LastStart i s) True) [0..NumStarts s - 1] (replicate n False) =
    Some (map (\<lambda>j. int j \<in> set (ps_stack s)) [0..<n])"
proof -
  have "map (\<lambda>i. LastStart i s) [0..NumStarts s - 1] = rev (ps_stack s)"
    by (rule nth_equalityI) (auto simp: NumStarts_def StackSize_def LastStart_def Stack_def rev_nth nat_diff_distrib)
  then have "foreach (\<lambda>i starts. vec_set starts (LastStart i s) True) [0..NumStarts s - 1] (replicate n False) =
      foreach (\<lambda>x st. vec_set st x True) (rev (ps_stack s)) (replicate n False)"
    using foreach_map [of "\<lambda>x st. vec_set st x True" "\<lambda>i. LastStart i s" "[0..NumStarts s - 1]"] by simp
  then show ?thesis using set_flags [of "rev (ps_stack s)" "replicate n False"] assms by simp
qed

subsection \<open>Segmentation is reproduced\<close>

lemma group_words_extent: "map extent (group_words off gs) = group_tokens off gs"
  by (induction off gs rule: group_words.induct) (simp_all add: extent_def word_token_def Let_def)

lemma segment_parse:
  assumes seg: "segmented s gs tail"
    and cs: "sent_token cs = leveled (id_levels (-2) (char_ids 0 gs tail)) (char_tokens 0 (all_chars gs tail))"
    and st: "ps_stack st = filter (starts_word cs) [0..token_size cs - 1]"
  shows "segment_AddParseToDocument ts st rewrite cs = Some (cs\<lparr>sent_token := group_words 0 gs\<rparr>)"
proof -
  let ?lv = "id_levels (-2) (char_ids 0 gs tail)" and ?n = "length (all_chars gs tail)"
  have len: "length (sent_token cs) = ?n" "length ?lv = ?n" using cs by simp_all
  have ne: "all_chars gs tail \<noteq> []" and ok: "list_all group_ok gs" "list_all (\<lambda>p. good_char p \<and> IsBreakChar p = Some True) tail"
    using seg by (simp_all add: segmented_def)
  have first: "?lv ! 0 = SPACE_BREAK"
  proof -
    obtain i "is" where "is": "char_ids 0 gs tail = i # is" using ne length_char_ids [of 0 gs tail] by (cases "char_ids 0 gs tail") auto
    then show ?thesis using char_ids_range [of 0 i gs tail] by simp
  qed
  have lv: "tok_break_level (sent_token cs ! j) = ?lv ! j" if "j < ?n" for j
    using that by (simp add: cs leveled_def)
  have starts: "map (\<lambda>j. int j \<in> set (ps_stack st)) [0..<?n] = start_flags ?lv"
  proof (rule nth_equalityI)
    fix j assume "j < length (map (\<lambda>j. int j \<in> set (ps_stack st)) [0..<?n])"
    then have j: "j < ?n" by simp
    then have "int j \<in> set (ps_stack st) \<longleftrightarrow> starts_word cs (int j)" by (simp add: st token_size_def len(1))
    also have "\<dots> \<longleftrightarrow> ?lv ! j \<noteq> NO_BREAK" using lv [OF j] first by (auto simp: starts_word_def)
    finally show "map (\<lambda>j. int j \<in> set (ps_stack st)) [0..<?n] ! j = start_flags ?lv ! j"
      using j len(2) by (simp add: start_flags_def)
  qed (simp add: len(2))
  have "\<forall>x \<in> set (ps_stack st). 0 \<le> x \<and> x < int ?n" by (auto simp: st token_size_def len(1))
  note word_starts [OF this, unfolded starts]
  moreover obtain acc where "add_chars (start_flags ?lv) 0 (sent_token cs) \<lparr>sa_tokens = [], sa_break_level = NO_BREAK, sa_is_first = True\<rparr> = Some acc"
      "sa_tokens acc = group_words 0 gs"
    using add_groups [OF ok, of "-2" 0 "\<lparr>sa_tokens = [], sa_break_level = NO_BREAK, sa_is_first = True\<rparr>" 0]
      add_chars_pairs [of "start_flags ?lv" "sent_token cs" "[]"] len by (auto simp: cs)
  ultimately show ?thesis using ne len(1) by (simp add: segment_AddParseToDocument_def token_size_def)
qed

text \<open>C36: Segmentation is reproduced. A sentence whose text consists of its words, separated by break
  characters, is converted by \<open>ConvertToCharTokenDoc\<close> to one token per UTF-8 character; the
  gold actions of the binary segmentation system, one per character, lead to a final state
  without abort; and \<open>AddParseToDocument\<close> then merges the characters into tokens with the
  starts, ends and words of the original sentence.\<close>

theorem segmentation_roundtrip:
  assumes "segmented s gs tail" and "tfm_inv label_map"
  shows "\<exists>cs s0 st d. ConvertToCharTokenDoc s c = Some (True, cs) \<and>
    new_segment_state cs label_map = Some s0 \<and>
    drive segment_IsFinalState (PerformAction segment_PerformActionWithoutHistory) segment_GetNextGoldAction
      (length (sent_token cs)) s0 = Some st \<and>
    AddParseToDocument segment_AddParseToDocument st cs rewrite_root_labels = Some d \<and>
    sent_text d = sent_text s \<and> map extent (sent_token d) = map extent (sent_token s)"
proof -
  let ?cs = "c\<lparr>sent_text := sent_text s,
    sent_token := leveled (id_levels (-2) (char_ids 0 gs tail)) (char_tokens 0 (all_chars gs tail))\<rparr>"
  obtain s0 st where run: "new_segment_state ?cs label_map = Some s0"
    "drive segment_IsFinalState (PerformAction segment_PerformActionWithoutHistory) segment_GetNextGoldAction (length (sent_token ?cs)) s0 = Some st"
    "ps_stack st = filter (starts_word ?cs) [0..token_size ?cs - 1]" "ps_transition_state st = Some ()"
    using segment_oracle_run [OF assms(2)] by blast
  have "AddParseToDocument segment_AddParseToDocument st ?cs rewrite_root_labels = Some (?cs\<lparr>sent_token := group_words 0 gs\<rparr>)"
    using segment_parse [OF assms(1) _ run(3), of "()"] run(4) by (simp add: AddParseToDocument_def)
  moreover have "map extent (group_words 0 gs) = map extent (sent_token s)"
    using assms(1) group_words_extent [of 0 gs] by (simp add: segmented_def)
  ultimately show ?thesis using ConvertToCharTokenDoc_segmented [OF assms(1), of c] run(1,2)
    by (intro exI [of _ ?cs] exI [of _ s0] exI [of _ st] exI [of _ "?cs\<lparr>sent_token := group_words 0 gs\<rparr>"]) simp
qed

lemma char_good:
  assumes "utf8_char p r" and "IsInterchangeValid r"
  shows "good_char p" and "IsBreakChar p = Some (p = [CHR 0x0A] \<or> p = [CHR 0x09] \<or> List.member kBreakChars r)"
proof -
  show g: "good_char p" using assms by (auto simp: good_char_def)
  show "IsBreakChar p = Some (p = [CHR 0x0A] \<or> p = [CHR 0x09] \<or> List.member kBreakChars r)"
    using PointToUTF8_good [OF g] utf8_char_deref [OF assms(1), of "[]"] by (auto simp: IsBreakChar_def)
qed

text \<open>Two ideographs with an ideographic space between them.\<close>

definition two_ideographs :: sentence where
  "two_ideographs = \<lparr>sent_docid = ''d'',
     sent_text = [CHR 0xE8, CHR 0xBF, CHR 0x99, CHR 0xE3, CHR 0x80, CHR 0x80, CHR 0xE6, CHR 0x98, CHR 0xAF],
     sent_token = [default_token\<lparr>tok_word := [CHR 0xE8, CHR 0xBF, CHR 0x99], tok_end := 2\<rparr>,
       default_token\<lparr>tok_word := [CHR 0xE6, CHR 0x98, CHR 0xAF], tok_start := 6, tok_end := 8\<rparr>]\<rparr>"

lemma two_ideographs_segmented:
  "segmented two_ideographs [([], [[CHR 0xE8, CHR 0xBF, CHR 0x99]]), ([[CHR 0xE3, CHR 0x80, CHR 0x80]], [[CHR 0xE6, CHR 0x98, CHR 0xAF]])] []"
proof -
  have c: "utf8_char [CHR 0xE8, CHR 0xBF, CHR 0x99] 0x8FD9" "utf8_char [CHR 0xE3, CHR 0x80, CHR 0x80] 0x3000" "utf8_char [CHR 0xE6, CHR 0x98, CHR 0xAF] 0x662F"
    by (rule utf8_char.three; simp add: trail_def)+
  have i: "IsInterchangeValid 0x8FD9" "IsInterchangeValid 0x3000" "IsInterchangeValid 0x662F" by (simp_all add: IsInterchangeValid_def)
  have k: "\<not> List.member kBreakChars 0x8FD9" "List.member kBreakChars 0x3000" "\<not> List.member kBreakChars 0x662F"
    by (simp_all add: kBreakChars_def)
  show ?thesis
    using char_good [OF c(1) i(1)] char_good [OF c(2) i(2)] char_good [OF c(3) i(3)] k
    by (simp add: segmented_def group_ok_def two_ideographs_def extent_def default_token_def)
qed

theorem segmentation_roundtrip_witness:
  "\<exists>cs s0 st d. ConvertToCharTokenDoc two_ideographs two_ideographs = Some (True, cs) \<and>
    new_segment_state cs empty_tfm = Some s0 \<and>
    drive segment_IsFinalState (PerformAction segment_PerformActionWithoutHistory) segment_GetNextGoldAction
      (length (sent_token cs)) s0 = Some st \<and>
    AddParseToDocument segment_AddParseToDocument st cs False = Some d \<and>
    sent_text d = sent_text two_ideographs \<and> map extent (sent_token d) = map extent (sent_token two_ideographs)"
  by (rule segmentation_roundtrip [OF two_ideographs_segmented tfm_inv_empty])

end
