(* ===== verification/Char_Shift.thy ===== *)
theory Char_Shift
  imports Binary_Segment Task_Context
begin

text \<open>
  \<^verbatim>\<open>syntaxnet/char_shift_transitions.{h,cc}\<close>: the transition system that walks over the UTF-8
  characters between the first and the last token, in either direction, and keeps the token
  level of the parser state in step. The workspaces of the features are arguments: a workspace
  that is set is the vector of its elements.

  Lemmas: a run performs one action per character and leaves the token level at the last (first)
  token, with all tokens before it on the stack.
\<close>

record char_shift_ts =
  cs_left_to_right :: bool
  cs_num_chars :: int
  cs_next :: int
  cs_char_pos_map :: "int list"
  cs_char_len_map :: "int list"
  cs_token_starts :: "bool list"
  cs_token_ends :: "bool list"

type_synonym char_state = "char_shift_ts parser_state"

text \<open>The constructor leaves the two counters uninitialised; \<open>Init\<close> sets them before any use.\<close>

definition CharShiftTransitionState :: "bool \<Rightarrow> char_shift_ts" where
  "CharShiftTransitionState left_to_right =
     \<lparr>cs_left_to_right = left_to_right, cs_num_chars = 0, cs_next = 0, cs_char_pos_map = [], cs_char_len_map = [],
      cs_token_starts = [], cs_token_ends = []\<rparr>"

definition charshift_Clone :: "char_shift_ts \<Rightarrow> char_shift_ts" where
  "charshift_Clone ts =
     (CharShiftTransitionState (cs_left_to_right ts))\<lparr>cs_num_chars := cs_num_chars ts, cs_char_pos_map := cs_char_pos_map ts,
        cs_char_len_map := cs_char_len_map ts, cs_token_starts := cs_token_starts ts, cs_token_ends := cs_token_ends ts,
        cs_next := cs_next ts\<rparr>"

function charshift_Init_loop :: "sentence \<Rightarrow> string \<Rightarrow> int \<Rightarrow> int \<Rightarrow> char_shift_ts \<Rightarrow> char_shift_ts option" where
  "charshift_Init_loop s it cur_byte cur_token ts =
     (if it = [] then Some ts
      else do {
        char_len \<leftarrow> ci_utf8_length it;
        token \<leftarrow> sent_token_at s cur_token;
        let is_start = (tok_start token = cur_byte);
        let is_end = (tok_end token = cur_byte + int char_len - 1);
        charshift_Init_loop s (drop (OneCharLen (hd it)) it) (cur_byte + int char_len) (if is_end then cur_token + 1 else cur_token)
          (ts\<lparr>cs_char_pos_map := cs_char_pos_map ts @ [cur_byte], cs_char_len_map := cs_char_len_map ts @ [int char_len],
              cs_token_starts := cs_token_starts ts @ [is_start], cs_token_ends := cs_token_ends ts @ [is_end],
              cs_num_chars := cs_num_chars ts + 1\<rparr>) })"
  by pat_completeness auto
termination
  by (relation "measure (\<lambda>(s, it, cur_byte, cur_token, ts). length it)") (auto simp: OneCharLen_eq)

declare charshift_Init_loop.simps [simp del]

text \<open>The text from the first to the last token.\<close>

definition token_text :: "sentence \<Rightarrow> (string \<times> int) option" where
  "token_text s = do {
     first \<leftarrow> sent_token_at s 0;
     last \<leftarrow> sent_token_at s (token_size s - 1);
     let start_byte = tok_start first;
     let end_byte = tok_end last;
     bytes \<leftarrow> text_span (sent_text s) start_byte (end_byte - start_byte + 1);
     Some (PointToUTF8 bytes, start_byte) }"

definition charshift_Init :: "char_state \<Rightarrow> char_state option" where
  "charshift_Init s = do {
     ts \<leftarrow> ps_transition_state s;
     (ut, start_byte) \<leftarrow> token_text (ps_sentence s);
     ts \<leftarrow> charshift_Init_loop (ps_sentence s) ut start_byte 0
       (ts\<lparr>cs_num_chars := 0, cs_char_pos_map := [], cs_char_len_map := [], cs_token_starts := [], cs_token_ends := []\<rparr>);
     let ts = ts\<lparr>cs_next := (if cs_left_to_right ts then 0 else cs_num_chars ts - 1)\<rparr>;
     let s = s\<lparr>ps_transition_state := Some ts\<rparr>;
     if \<not> cs_left_to_right ts then Advance_to (token_size (ps_sentence s) - 1) s else Some s }"

definition charshift_Next :: "char_shift_ts \<Rightarrow> int" where
  "charshift_Next ts = cs_next ts"

definition charshift_Input :: "char_shift_ts \<Rightarrow> int \<Rightarrow> int" where
  "charshift_Input ts offset =
     (let index = cs_next ts + offset in if index \<ge> -1 \<and> index < cs_num_chars ts then index else -2)"

definition charshift_GetChar :: "char_shift_ts \<Rightarrow> char_state \<Rightarrow> int \<Rightarrow> string option" where
  "charshift_GetChar ts s i =
     (if i \<ge> 0 \<and> i < cs_num_chars ts then do {
        pos \<leftarrow> vec_at (cs_char_pos_map ts) i;
        len \<leftarrow> vec_at (cs_char_len_map ts) i;
        check (0 \<le> pos \<and> pos \<le> int (length (sent_text (ps_sentence s))));
        Some (take (nat len) (drop (nat pos) (sent_text (ps_sentence s)))) }
      else Some [])"

definition charshift_Advance :: "int \<Rightarrow> char_shift_ts \<Rightarrow> char_shift_ts" where
  "charshift_Advance next ts = ts\<lparr>cs_next := next\<rparr>"

definition charshift_EndOfInput :: "char_shift_ts \<Rightarrow> bool" where
  "charshift_EndOfInput ts \<longleftrightarrow> cs_next ts = cs_num_chars ts"

definition IsTokenStart :: "char_shift_ts \<Rightarrow> int \<Rightarrow> bool option" where
  "IsTokenStart ts i = (if i \<ge> 0 \<and> i < cs_num_chars ts then vec_at (cs_token_starts ts) i else Some False)"

definition IsTokenEnd :: "char_shift_ts \<Rightarrow> int \<Rightarrow> bool option" where
  "IsTokenEnd ts i = (if i \<ge> 0 \<and> i < cs_num_chars ts then vec_at (cs_token_ends ts) i else Some False)"

definition charshift_IsTokenCorrect :: "char_shift_ts \<Rightarrow> char_state \<Rightarrow> int \<Rightarrow> bool option" where
  "charshift_IsTokenCorrect ts s index = Some True"

definition charshift_ToString :: "char_shift_ts \<Rightarrow> char_state \<Rightarrow> string option" where
  "charshift_ToString ts s = Some []"

subsection \<open>The transition system\<close>

definition charshift_Setup :: "task_context \<Rightarrow> bool" where
  "charshift_Setup context = Get_bool context ''left_to_right'' (Get_bool context ''left-to-right'' True)"

definition charshift_NumActions :: "int \<Rightarrow> int" where
  "charshift_NumActions num_labels = 1"

definition charshift_kShiftAction :: parser_action where
  "charshift_kShiftAction = 0"

definition charshift_GetDefaultAction :: "char_state \<Rightarrow> parser_action option" where
  "charshift_GetDefaultAction s = Some charshift_kShiftAction"

definition charshift_GetNextGoldAction :: "char_state \<Rightarrow> parser_action option" where
  "charshift_GetNextGoldAction s = Some charshift_kShiftAction"

definition charshift_IsFinalState :: "bool \<Rightarrow> char_state \<Rightarrow> bool option" where
  "charshift_IsFinalState left_to_right s = do {
     ts \<leftarrow> ps_transition_state s;
     Some (if left_to_right then charshift_EndOfInput ts else charshift_Next ts < 0) }"

definition charshift_IsAllowedAction :: "bool \<Rightarrow> parser_action \<Rightarrow> char_state \<Rightarrow> bool option" where
  "charshift_IsAllowedAction left_to_right action s = do { final \<leftarrow> charshift_IsFinalState left_to_right s; Some (\<not> final) }"

definition charshift_PerformActionWithoutHistory :: "bool \<Rightarrow> parser_action \<Rightarrow> char_state \<Rightarrow> char_state option" where
  "charshift_PerformActionWithoutHistory left_to_right action s = do {
     ts \<leftarrow> ps_transition_state s;
     let next = charshift_Next ts;
     shift_token \<leftarrow> (if left_to_right then IsTokenStart ts (next + 1) else IsTokenEnd ts (next - 1));
     s \<leftarrow> (if shift_token then do {
             token_next \<leftarrow> Next s;
             s \<leftarrow> Push token_next s;
             Advance_to (if left_to_right then token_next + 1 else token_next - 1) s }
           else Some s);
     let next = (if left_to_right then next + 1 else next - 1);
     Some (s\<lparr>ps_transition_state := Some (charshift_Advance next ts)\<rparr>) }"

definition charshift_IsDeterministicState :: "char_state \<Rightarrow> bool" where
  "charshift_IsDeterministicState s \<longleftrightarrow> True"

definition charshift_ActionAsString :: "parser_action \<Rightarrow> char_state \<Rightarrow> string option" where
  "charshift_ActionAsString action s = do {
     ts \<leftarrow> ps_transition_state s;
     char_action \<leftarrow> charshift_GetChar ts s (charshift_Next ts);
     next \<leftarrow> Next s;
     token \<leftarrow> sent_token_at (ps_sentence s) next;
     Some (char_action @ '':'' @ tok_word token) }"

definition new_charshift_state :: "bool \<Rightarrow> sentence \<Rightarrow> term_frequency_map \<Rightarrow> char_state option" where
  "new_charshift_state left_to_right sentence label_map =
     ParserState charshift_Init sentence (Some (CharShiftTransitionState left_to_right)) label_map"

subsection \<open>Features\<close>

definition CharInput_GetFocus :: "int \<Rightarrow> char_state \<Rightarrow> int option" where
  "CharInput_GetFocus argument s = do { ts \<leftarrow> ps_transition_state s; Some (charshift_Input ts argument) }"

definition SpaceValue :: "term_frequency_map \<Rightarrow> int" where
  "SpaceValue m = Size m"

definition UnknownValue :: "term_frequency_map \<Rightarrow> int" where
  "UnknownValue m = SpaceValue m + 1"

definition textchar_NumValues :: "term_frequency_map \<Rightarrow> int" where
  "textchar_NumValues m = Size m"

definition textchar_GetFeatureValueName :: "term_frequency_map \<Rightarrow> int \<Rightarrow> string option" where
  "textchar_GetFeatureValueName m value =
     (if value \<ge> 0 \<and> value < Size m then GetTerm m value else Some ''<INVALID>'')"

function textchar_loop :: "term_frequency_map \<Rightarrow> string \<Rightarrow> int list option" where
  "textchar_loop m it =
     (if it = [] then Some []
      else do {
        len \<leftarrow> ci_utf8_length it;
        let character = take len it;
        is_break \<leftarrow> IsBreakChar character;
        let value = (if is_break then SpaceValue m else LookupIndex m character (UnknownValue m));
        values \<leftarrow> textchar_loop m (drop (OneCharLen (hd it)) it);
        Some (value # values) })"
  by pat_completeness auto
termination
  by (relation "measure (\<lambda>(m, it). length it)") (auto simp: OneCharLen_eq)

declare textchar_loop.simps [simp del]

definition textchar_Preprocess :: "term_frequency_map \<Rightarrow> int list option \<Rightarrow> sentence \<Rightarrow> int list option" where
  "textchar_Preprocess m workspace s =
     (case workspace of
        Some w \<Rightarrow> Some w
      | None \<Rightarrow> do { (ut, start_byte) \<leftarrow> token_text s; textchar_loop m ut })"

definition textchar_Compute :: "int list \<Rightarrow> int \<Rightarrow> int" where
  "textchar_Compute workspace focus =
     (if focus < 0 \<or> focus \<ge> int (length workspace) then -1 else workspace ! nat focus)"

function charfocus_loop :: "(token \<Rightarrow> int) \<Rightarrow> sentence \<Rightarrow> string \<Rightarrow> int \<Rightarrow> int \<Rightarrow> int \<Rightarrow> int list \<Rightarrow> int list option" where
  "charfocus_loop byte_focus s it cur_byte cur_char cur_token workspace =
     (if it = [] then Some workspace
      else do {
        char_len \<leftarrow> ci_utf8_length it;
        token \<leftarrow> sent_token_at s cur_token;
        let focus = byte_focus token;
        let hit = (focus \<ge> cur_byte \<and> focus < cur_byte + int char_len);
        workspace' \<leftarrow> (if hit then vec_set workspace cur_token cur_char else Some workspace);
        let cur_token' = (if hit then cur_token + 1 else cur_token);
        if hit \<and> cur_token' \<ge> token_size s then Some workspace'
        else charfocus_loop byte_focus s (drop (OneCharLen (hd it)) it) (cur_byte + int char_len) (cur_char + 1) cur_token' workspace' })"
  by pat_completeness auto
termination
  by (relation "measure (\<lambda>(f, s, it, cur_byte, cur_char, cur_token, w). length it)") (auto simp: OneCharLen_eq)

declare charfocus_loop.simps [simp del]

definition charfocus_Preprocess :: "(token \<Rightarrow> int) \<Rightarrow> int list option \<Rightarrow> sentence \<Rightarrow> int list option" where
  "charfocus_Preprocess byte_focus workspace s =
     (case workspace of
        Some w \<Rightarrow> Some w
      | None \<Rightarrow> do {
          (ut, start_byte) \<leftarrow> token_text s;
          charfocus_loop byte_focus s ut start_byte 0 0 (replicate (length (sent_token s)) 0) })"

definition charfocus_Evaluate :: "int list \<Rightarrow> int \<Rightarrow> int" where
  "charfocus_Evaluate workspace focus =
     (if focus \<ge> 0 \<and> focus < int (length workspace) then workspace ! nat focus else -1)"

definition FirstCharFocus :: "token \<Rightarrow> int" where
  "FirstCharFocus t = tok_start t"

definition LastCharFocus :: "token \<Rightarrow> int" where
  "LastCharFocus t = tok_end t"

subsection \<open>The characters and their marks\<close>

text \<open>A character with its flags: whether it is the first and whether it is the last one of a token.\<close>

type_synonym mark = "string \<times> bool \<times> bool"

fun push_marks :: "int \<Rightarrow> mark list \<Rightarrow> char_shift_ts \<Rightarrow> char_shift_ts" where
  "push_marks cur [] ts = ts"
| "push_marks cur ((p, a, b) # ms) ts = push_marks (cur + int (length p)) ms
     (ts\<lparr>cs_char_pos_map := cs_char_pos_map ts @ [cur], cs_char_len_map := cs_char_len_map ts @ [int (length p)],
         cs_token_starts := cs_token_starts ts @ [a], cs_token_ends := cs_token_ends ts @ [b], cs_num_chars := cs_num_chars ts + 1\<rparr>)"

definition gap_marks :: "string list \<Rightarrow> mark list" where
  "gap_marks g = map (\<lambda>p. (p, False, False)) g"

fun word_marks :: "bool \<Rightarrow> string list \<Rightarrow> mark list" where
  "word_marks f [] = []"
| "word_marks f (p # v) = (p, f, v = []) # word_marks False v"

fun group_marks :: "segmentation \<Rightarrow> mark list" where
  "group_marks [] = []"
| "group_marks ((g, w) # gs) = gap_marks g @ word_marks True w @ group_marks gs"

lemma push_marks_append: "push_marks cur (ms @ ns) ts = push_marks (cur + int (length (concat (map fst ms)))) ns (push_marks cur ms ts)"
  by (induction cur ms ts rule: push_marks.induct) (simp_all add: add.assoc)

lemma word_marks_chars [simp]: "map fst (word_marks f w) = w" "map fst (gap_marks g) = g"
  by (induction w arbitrary: f) (simp_all add: gap_marks_def comp_def)

lemma charshift_Init_char:
  assumes "good_char p" and "sent_token_at s t = Some token"
  shows "charshift_Init_loop s (p @ rest) cur t ts =
    charshift_Init_loop s rest (cur + int (length p)) (if tok_end token = cur + int (length p) - 1 then t + 1 else t)
      (push_marks cur [(p, tok_start token = cur, tok_end token = cur + int (length p) - 1)] ts)"
proof -
  obtain r where r: "utf8_char p r" using assms(1) by (auto simp: good_char_def)
  note c = utf8_char_bytes(1,2) [OF r] utf8_char_bytes(7) [OF r, of rest]
  show ?thesis using c assms(2) by (subst charshift_Init_loop.simps) simp
qed

lemma charshift_Init_gap:
  assumes "list_all good_char g" and "sent_token_at s t = Some token"
    and "cur + int (length (concat g)) \<le> tok_start token" and "tok_start token \<le> tok_end token"
  shows "charshift_Init_loop s (concat g @ rest) cur t ts =
    charshift_Init_loop s rest (cur + int (length (concat g))) t (push_marks cur (gap_marks g) ts)"
  using assms
proof (induction g arbitrary: cur ts)
  case (Cons p g)
  have "0 < length p" using good_char_nonempty [of p] Cons.prems(1) by simp
  then have n: "tok_start token \<noteq> cur" "tok_end token \<noteq> cur + int (length p) - 1"
    using Cons.prems(3,4) by (auto simp del: length_greater_0_conv)
  have "charshift_Init_loop s (concat (p # g) @ rest) cur t ts =
      charshift_Init_loop s (concat g @ rest) (cur + int (length p)) t (push_marks cur [(p, False, False)] ts)"
    using charshift_Init_char [of p s t token "concat g @ rest" cur ts] Cons.prems n by simp
  then show ?case using Cons.IH [of "cur + int (length p)" "push_marks cur [(p, False, False)] ts"] Cons.prems
    by (simp add: gap_marks_def add.assoc)
qed (simp add: gap_marks_def)

lemma charshift_Init_word:
  assumes "list_all good_char v" and "v \<noteq> []" and "sent_token_at s t = Some token"
    and "tok_start token \<le> cur" and "tok_end token = cur + int (length (concat v)) - 1"
  shows "charshift_Init_loop s (concat v @ rest) cur t ts =
    charshift_Init_loop s rest (cur + int (length (concat v))) (t + 1) (push_marks cur (word_marks (tok_start token = cur) v) ts)"
  using assms
proof (induction v arbitrary: cur ts)
  case (Cons p v)
  let ?f = "tok_start token = cur"
  note step = charshift_Init_char [of p s t token "concat v @ rest" cur ts]
  have p: "0 < length p" using good_char_nonempty [of p] Cons.prems(1) by simp
  show ?case
  proof (cases "v = []")
    case True
    then show ?thesis using step Cons.prems by simp
  next
    case False
    then obtain q v' where v: "v = q # v'" by (cases v) auto
    have "0 < length q" using good_char_nonempty [of q] Cons.prems(1) v by simp
    then have e: "tok_end token \<noteq> cur + int (length p) - 1" using Cons.prems(5) by (auto simp: v simp del: length_greater_0_conv)
    have f: "(tok_start token = cur + int (length p)) = False" using Cons.prems(4) p by (auto simp del: length_greater_0_conv)
    have "charshift_Init_loop s (concat v @ rest) (cur + int (length p)) t (push_marks cur [(p, ?f, False)] ts) =
        charshift_Init_loop s rest (cur + int (length p) + int (length (concat v))) (t + 1)
          (push_marks (cur + int (length p)) (word_marks (tok_start token = cur + int (length p)) v) (push_marks cur [(p, ?f, False)] ts))"
      using Cons.prems False by (intro Cons.IH) simp_all
    moreover have "charshift_Init_loop s (p @ concat v @ rest) cur t ts =
        charshift_Init_loop s (concat v @ rest) (cur + int (length p)) t (push_marks cur [(p, ?f, False)] ts)"
      using step e Cons.prems(1,3) by simp
    ultimately show ?thesis using False f by (simp add: add.assoc)
  qed
qed simp

lemma group_marks_chars: "map fst (group_marks gs) = all_chars gs []"
  by (induction gs rule: group_marks.induct) simp_all

lemma charshift_Init_groups:
  assumes "list_all group_ok gs" and "map extent (drop t (sent_token s)) = group_tokens off gs"
  shows "charshift_Init_loop s (concat (all_chars gs [])) (int off) (int t) ts = Some (push_marks (int off) (group_marks gs) ts)"
  using assms
proof (induction gs arbitrary: t off ts)
  case Nil
  then show ?case by (simp add: charshift_Init_loop.simps)
next
  case (Cons gw gs)
  obtain g w where gw: "gw = (g, w)" by fastforce
  have ok: "list_all good_char g" "list_all good_char w" "w \<noteq> []"
    using Cons.prems(1) group_ok_good [of gw] by (simp_all add: gw group_ok_def)
  have "drop t (sent_token s) \<noteq> []" using Cons.prems(2) by (auto simp: gw Let_def)
  then have t: "t < length (sent_token s)" by simp
  let ?token = "sent_token s ! t" and ?off = "off + length (concat g)"
  have d: "drop t (sent_token s) = ?token # drop (Suc t) (sent_token s)" using t by (simp add: Cons_nth_drop_Suc)
  have e: "extent ?token = (int ?off, int (?off + length (concat w)) - 1, concat w)"
    and tl: "map extent (drop (Suc t) (sent_token s)) = group_tokens (?off + length (concat w)) gs"
    using Cons.prems(2) by (simp_all add: gw d Let_def)
  have tok: "sent_token_at s (int t) = Some ?token" "tok_start ?token = int ?off" "tok_end ?token = int ?off + int (length (concat w)) - 1"
    using t e by (simp_all add: sent_token_at_def extent_def)
  have "0 < length (concat w)" using ok(2,3) good_char_nonempty by (cases w) auto
  then have le: "tok_start ?token \<le> tok_end ?token" using tok(2,3) by (simp del: length_greater_0_conv)
  let ?ts1 = "push_marks (int off) (gap_marks g) ts"
  have "charshift_Init_loop s (concat (all_chars (gw # gs) [])) (int off) (int t) ts =
      charshift_Init_loop s (concat w @ concat (all_chars gs [])) (int ?off) (int t) ?ts1"
    using charshift_Init_gap [OF ok(1) tok(1) _ le, of "int off" "concat w @ concat (all_chars gs [])" ts] tok(2) by (simp add: gw)
  also have "\<dots> = charshift_Init_loop s (concat (all_chars gs [])) (int (?off + length (concat w))) (int (Suc t))
      (push_marks (int ?off) (word_marks True w) ?ts1)"
    using charshift_Init_word [OF ok(2,3) tok(1), of "int ?off" "concat (all_chars gs [])" ?ts1] tok(2,3) by (simp add: add.commute)
  also have "\<dots> = Some (push_marks (int (?off + length (concat w))) (group_marks gs) (push_marks (int ?off) (word_marks True w) ?ts1))"
    using Cons.prems(1) tl by (intro Cons.IH) simp_all
  finally show ?case by (simp add: gw push_marks_append add.assoc)
qed

lemma push_marks_fields:
  "cs_token_starts (push_marks cur ms ts) = cs_token_starts ts @ map (\<lambda>m. fst (snd m)) ms"
  "cs_token_ends (push_marks cur ms ts) = cs_token_ends ts @ map (\<lambda>m. snd (snd m)) ms"
  "cs_num_chars (push_marks cur ms ts) = cs_num_chars ts + int (length ms)"
  "cs_left_to_right (push_marks cur ms ts) = cs_left_to_right ts"
  by (induction cur ms ts rule: push_marks.induct) simp_all

lemma word_marks_Nil [simp]: "word_marks f w = [] \<longleftrightarrow> w = []"
  by (cases w) simp_all

lemma word_marks_starts: "count_list (map (\<lambda>m. fst (snd m)) (word_marks f w)) True = (if f \<and> w \<noteq> [] then 1 else 0)"
  by (induction w arbitrary: f) auto

lemma word_marks_ends:
  "w \<noteq> [] \<Longrightarrow> count_list (map (\<lambda>m. snd (snd m)) (word_marks f w)) True = 1 \<and> snd (snd (last (word_marks f w)))"
proof (induction w arbitrary: f)
  case (Cons p v)
  then show ?case by (cases "v = []") simp_all
qed simp

lemma gap_marks_counts: "count_list (map (\<lambda>m. fst (snd m)) (gap_marks g)) True = 0 \<and> count_list (map (\<lambda>m. snd (snd m)) (gap_marks g)) True = 0"
  by (induction g) (simp_all add: gap_marks_def)

lemma group_marks_counts:
  assumes "list_all group_ok gs"
  shows "count_list (map (\<lambda>m. fst (snd m)) (group_marks gs)) True = length gs \<and>
    count_list (map (\<lambda>m. snd (snd m)) (group_marks gs)) True = length gs \<and>
    (gs \<noteq> [] \<longrightarrow> group_marks gs \<noteq> [] \<and> snd (snd (last (group_marks gs))))"
  using assms
proof (induction gs)
  case (Cons gw gs)
  obtain g w where gw: "gw = (g, w)" by fastforce
  have w: "w \<noteq> []" using Cons.prems by (simp add: gw group_ok_def)
  show ?case using Cons w word_marks_ends [OF w, of True] gap_marks_counts [of g] by (cases "gs = []") (auto simp: gw word_marks_starts)
qed simp

lemma length_group_tokens [simp]: "length (group_tokens off gs) = length gs"
  by (induction off gs rule: group_tokens.induct) (simp_all add: Let_def)

lemma group_tokens_Nil [simp]: "group_tokens off gs = [] \<longleftrightarrow> gs = []"
  using length_group_tokens [of off gs] by (metis length_0_conv)

lemma group_tokens_last:
  "gs \<noteq> [] \<Longrightarrow> fst (snd (last (group_tokens off gs))) = int (off + length (concat (all_chars gs []))) - 1"
proof (induction off gs rule: group_tokens.induct)
  case (2 off g w gs)
  then show ?case by (cases "gs = []") (simp_all add: Let_def add.assoc)
qed simp

lemma utf8_text_chars: "list_all good_char ps \<Longrightarrow> \<exists>rs. utf8_text (concat ps) rs"
proof (induction ps)
  case (Cons p ps)
  then obtain r rs where "utf8_char p r" "IsInterchangeValid r" "utf8_text (concat ps) rs" by (auto simp: good_char_def)
  then show ?case using utf8_text.Cons by fastforce
qed (use utf8_text.Nil in auto)

lemma token_text_segmented:
  assumes "segmented s ((g, w) # gs) tail"
  shows "token_text s = Some (concat (all_chars (([], w) # gs) []), int (length (concat g)))"
proof -
  let ?gs = "(g, w) # gs" and ?body = "concat (all_chars (([], w) # gs) [])"
  have ok: "list_all group_ok ?gs" "sent_text s = concat g @ ?body @ concat tail" "map extent (sent_token s) = group_tokens 0 ?gs"
    using assms by (simp_all add: segmented_def all_chars_def)
  have n: "length (sent_token s) = Suc (length gs)" using arg_cong [OF ok(3), of length] by (simp add: Let_def)
  then have ne: "sent_token s \<noteq> []" by auto
  have "extent (hd (sent_token s)) = hd (group_tokens 0 ?gs)" using ok(3) ne by (metis hd_map)
  then have first: "tok_start (sent_token s ! 0) = int (length (concat g))" using ne by (simp add: extent_def Let_def hd_conv_nth)
  have "extent (last (sent_token s)) = last (group_tokens 0 ?gs)" using ok(3) ne by (metis last_map)
  then have "tok_end (last (sent_token s)) = fst (snd (last (group_tokens 0 ?gs)))" by (metis extent_def fst_conv snd_conv)
  then have last: "tok_end (sent_token s ! length gs) = int (length (concat g)) + int (length ?body) - 1"
    using group_tokens_last [of ?gs 0] ne n by (simp add: last_conv_nth)
  have "list_all good_char (all_chars (([], w) # gs) [])"
    using ok(1) by (intro group_good) (simp_all add: group_ok_def)
  from utf8_text_chars [OF this] have v: "PointToUTF8 ?body = ?body" by (simp add: PointToUTF8_def valid_text_iff)
  have "text_span (sent_text s) (int (length (concat g))) (int (length ?body)) = Some ?body"
    unfolding text_span_def ok(2) by simp
  then show ?thesis using first last n ne v by (simp add: token_text_def sent_token_at_def token_size_def Let_def)
qed

subsection \<open>Runs\<close>

definition tokens_shifted :: "bool \<Rightarrow> char_shift_ts \<Rightarrow> int" where
  "tokens_shifted ltr ts =
     (if ltr then int (count_list (take (nat (cs_next ts)) (tl (cs_token_starts ts))) True)
      else int (count_list (drop (nat (cs_next ts)) (butlast (cs_token_ends ts))) True))"

definition charshift_inv :: "bool \<Rightarrow> char_state \<Rightarrow> bool" where
  "charshift_inv ltr s \<longleftrightarrow> ps_wf s \<and> 0 < ps_num_tokens s \<and>
     (\<exists>ts. ps_transition_state s = Some ts \<and> 0 < cs_num_chars ts \<and>
        int (length (cs_token_starts ts)) = cs_num_chars ts \<and> int (length (cs_token_ends ts)) = cs_num_chars ts \<and>
        int (count_list (tl (cs_token_starts ts)) True) = ps_num_tokens s - 1 \<and>
        int (count_list (butlast (cs_token_ends ts)) True) = ps_num_tokens s - 1 \<and>
        -1 \<le> cs_next ts \<and> cs_next ts \<le> cs_num_chars ts \<and> (if ltr then 0 \<le> cs_next ts else cs_next ts < cs_num_chars ts) \<and>
        ps_next s = (if ltr then tokens_shifted ltr ts else ps_num_tokens s - 1 - tokens_shifted ltr ts) \<and>
        ps_stack s = (if ltr then [0..ps_next s - 1] else rev [ps_next s + 1..ps_num_tokens s - 1]))"

definition charshift_steps_left :: "bool \<Rightarrow> char_state \<Rightarrow> nat" where
  "charshift_steps_left ltr s =
     (case ps_transition_state s of None \<Rightarrow> 0
      | Some ts \<Rightarrow> nat (if ltr then cs_num_chars ts - cs_next ts else cs_next ts + 1))"

lemma count_take: "count_list (take n xs) x \<le> count_list xs x"
  by (metis append_take_drop_id count_list_append le_add1)

lemma count_drop: "count_list (drop n xs) x \<le> count_list xs x"
  by (metis append_take_drop_id count_list_append le_add2)

lemma count_take_Suc: "n < length xs \<Longrightarrow> count_list (take (Suc n) xs) True = count_list (take n xs) True + (if xs ! n then 1 else 0)"
  by (simp add: take_Suc_conv_app_nth)

lemma count_drop_Suc: "n < length xs \<Longrightarrow> count_list (drop n xs) True = count_list (drop (Suc n) xs) True + (if xs ! n then 1 else 0)"
  by (simp add: Cons_nth_drop_Suc [symmetric])

text \<open>One action: the character pointer moves, and the token pointer with it at a token boundary.\<close>

lemma charshift_perform:
  assumes inv: "charshift_inv ltr s" and more: "0 < charshift_steps_left ltr s"
  obtains ts b m where "ps_transition_state s = Some ts"
    and "m = (if ltr then ps_next s + 1 else ps_next s - 1)"
    and "tokens_shifted ltr (ts\<lparr>cs_next := (if ltr then cs_next ts + 1 else cs_next ts - 1)\<rparr>) = tokens_shifted ltr ts + (if b then 1 else 0)"
    and "charshift_PerformActionWithoutHistory ltr a s = Some ((if b then s\<lparr>ps_stack := ps_stack s @ [ps_next s], ps_next := m\<rparr> else s)
      \<lparr>ps_transition_state := Some (ts\<lparr>cs_next := (if ltr then cs_next ts + 1 else cs_next ts - 1)\<rparr>)\<rparr>)"
    and "b \<Longrightarrow> 0 \<le> ps_next s \<and> ps_next s < ps_num_tokens s \<and> 0 \<le> m \<and> m < ps_num_tokens s"
proof -
  obtain ts where ts: "ps_transition_state s = Some ts" "0 < cs_num_chars ts" "ps_wf s"
      "int (length (cs_token_starts ts)) = cs_num_chars ts" "int (length (cs_token_ends ts)) = cs_num_chars ts"
      "int (count_list (tl (cs_token_starts ts)) True) = ps_num_tokens s - 1"
      "int (count_list (butlast (cs_token_ends ts)) True) = ps_num_tokens s - 1"
      "if ltr then 0 \<le> cs_next ts else cs_next ts < cs_num_chars ts"
      "ps_next s = (if ltr then tokens_shifted ltr ts else ps_num_tokens s - 1 - tokens_shifted ltr ts)"
      "ps_stack s = (if ltr then [0..ps_next s - 1] else rev [ps_next s + 1..ps_num_tokens s - 1])"
    using inv by (auto simp: charshift_inv_def)
  let ?k = "cs_next ts" and ?S = "tl (cs_token_starts ts)" and ?E = "butlast (cs_token_ends ts)"
  let ?ts = "ts\<lparr>cs_next := (if ltr then cs_next ts + 1 else cs_next ts - 1)\<rparr>"
  let ?m = "if ltr then ps_next s + 1 else ps_next s - 1"
  let ?b = "if ltr then nat ?k < length ?S \<and> ?S ! nat ?k else 0 < ?k \<and> ?E ! nat (?k - 1)"
  have k: "ltr \<Longrightarrow> 0 \<le> ?k \<and> ?k < cs_num_chars ts" "\<not> ltr \<Longrightarrow> 0 \<le> ?k \<and> ?k < cs_num_chars ts"
    using more ts(1,8) by (auto simp: charshift_steps_left_def split: if_splits)
  have len: "int (length ?S) = cs_num_chars ts - 1" "int (length ?E) = cs_num_chars ts - 1" using ts(2,4,5) by auto
  have sh: "(if ltr then IsTokenStart ts (?k + 1) else IsTokenEnd ts (?k - 1)) = Some ?b"
  proof (cases ltr)
    case True
    then show ?thesis using k(1) ts(4) len(1) by (auto simp: IsTokenStart_def vec_at_def nth_tl nat_add_distrib)
  next
    case False
    then show ?thesis using k(2) ts(5) len(2) by (auto simp: IsTokenEnd_def vec_at_def nth_butlast)
  qed
  have n: "tokens_shifted ltr ?ts = tokens_shifted ltr ts + (if ?b then 1 else 0)"
  proof (cases ltr)
    case True
    then show ?thesis using k(1) count_take_Suc [of "nat ?k" ?S]
      by (cases "nat ?k < length ?S") (auto simp: tokens_shifted_def nat_add_distrib simp del: length_tl)
  next
    case False
    have "count_list (drop (nat (?k - 1)) ?E) True = count_list (drop (nat ?k) ?E) True + (if ?E ! nat (?k - 1) then 1 else 0)" if "0 < ?k"
      using count_drop_Suc [of "nat (?k - 1)" ?E] that k(2) [OF False] len(2) by (simp add: Suc_nat_eq_nat_zadd1)
    then show ?thesis using False k(2) by (cases "0 < ?k") (auto simp: tokens_shifted_def)
  qed
  have le: "0 \<le> tokens_shifted ltr ?ts" "tokens_shifted ltr ?ts \<le> ps_num_tokens s - 1" "0 \<le> tokens_shifted ltr ts"
    using ts(6,7) count_take [of "nat (?k + 1)" ?S True] count_drop [of "nat (?k - 1)" ?E True] by (auto simp: tokens_shifted_def)
  have r: "?b \<Longrightarrow> 0 \<le> ps_next s \<and> ps_next s < ps_num_tokens s \<and> 0 \<le> ?m \<and> ?m < ps_num_tokens s"
    using n le ts(9) by (auto split: if_splits)
  have "charshift_PerformActionWithoutHistory ltr a s = Some ((if ?b then s\<lparr>ps_stack := ps_stack s @ [ps_next s], ps_next := ?m\<rparr> else s)
      \<lparr>ps_transition_state := Some ?ts\<rparr>)"
  proof (cases ?b)
    case True
    have "int (length (ps_stack s)) \<le> ps_num_tokens s" using ts(10) r [OF True] by (auto split: if_splits)
    then show ?thesis using True r [OF True] ts(1,3) sh
      by (simp add: charshift_PerformActionWithoutHistory_def charshift_Next_def charshift_Advance_def Push_def Advance_to_def)
  next
    case False
    then show ?thesis using ts(1) sh by (simp add: charshift_PerformActionWithoutHistory_def charshift_Next_def charshift_Advance_def)
  qed
  from that [OF ts(1) refl n this r] show thesis .
qed

lemma charshift_step:
  assumes inv: "charshift_inv ltr s" and more: "0 < charshift_steps_left ltr s"
  shows "\<exists>s'. charshift_PerformActionWithoutHistory ltr a s = Some s' \<and> charshift_inv ltr s' \<and>
    Suc (charshift_steps_left ltr s') = charshift_steps_left ltr s \<and>
    ps_history s' = ps_history s \<and> ps_keep_history s' = ps_keep_history s \<and>
    ps_sentence s' = ps_sentence s \<and> ps_label_map s' = ps_label_map s \<and>
    (\<forall>ts. ps_transition_state s = Some ts \<longrightarrow>
      ps_transition_state s' = Some (ts\<lparr>cs_next := (if ltr then cs_next ts + 1 else cs_next ts - 1)\<rparr>))"
proof -
  obtain ts b m where ts: "ps_transition_state s = Some ts" "m = (if ltr then ps_next s + 1 else ps_next s - 1)"
    and n: "tokens_shifted ltr (ts\<lparr>cs_next := (if ltr then cs_next ts + 1 else cs_next ts - 1)\<rparr>) = tokens_shifted ltr ts + (if b then 1 else 0)"
    and p: "charshift_PerformActionWithoutHistory ltr a s = Some ((if b then s\<lparr>ps_stack := ps_stack s @ [ps_next s], ps_next := m\<rparr> else s)
      \<lparr>ps_transition_state := Some (ts\<lparr>cs_next := (if ltr then cs_next ts + 1 else cs_next ts - 1)\<rparr>)\<rparr>)"
    and r: "b \<Longrightarrow> 0 \<le> ps_next s \<and> ps_next s < ps_num_tokens s \<and> 0 \<le> m \<and> m < ps_num_tokens s"
    by (rule charshift_perform [OF assms]) blast
  let ?s = "(if b then s\<lparr>ps_stack := ps_stack s @ [ps_next s], ps_next := m\<rparr> else s)
      \<lparr>ps_transition_state := Some (ts\<lparr>cs_next := (if ltr then cs_next ts + 1 else cs_next ts - 1)\<rparr>)\<rparr>"
  have st: "ps_stack s = (if ltr then [0..ps_next s - 1] else rev [ps_next s + 1..ps_num_tokens s - 1])" and wf: "ps_wf s"
    using inv by (auto simp: charshift_inv_def)
  have rng: "if ltr then cs_next ts < cs_num_chars ts else 0 \<le> cs_next ts" using more ts(1) by (auto simp: charshift_steps_left_def)
  have "ps_stack ?s = (if ltr then [0..ps_next ?s - 1] else rev [ps_next ?s + 1..ps_num_tokens ?s - 1])"
    using st r ts(2) upto_rec2 [of 0 "ps_next s"] upto_rec1 [of "ps_next s" "ps_num_tokens s - 1"] by auto
  moreover have "ps_wf ?s" using wf r st ts(2) by (auto simp: ps_wf_def split: if_splits)
  ultimately have "charshift_inv ltr ?s" using inv ts n rng
    by (auto simp: charshift_inv_def split: if_splits)
  moreover have "Suc (charshift_steps_left ltr ?s) = charshift_steps_left ltr s"
    using rng ts(1) by (auto simp: charshift_steps_left_def)
  ultimately show ?thesis using p ts(1) by auto
qed

interpretation charshift: parser_transition_system
  "charshift_IsAllowedAction ltr" "charshift_IsFinalState ltr" "charshift_PerformActionWithoutHistory ltr"
  "charshift_inv ltr" "charshift_steps_left ltr" for ltr
proof unfold_locales
  fix s :: char_state and a h
  show "charshift_steps_left ltr (s\<lparr>ps_history := h\<rparr>) = charshift_steps_left ltr s" by (simp add: charshift_steps_left_def)
  show "charshift_IsAllowedAction ltr a (s\<lparr>ps_history := h\<rparr>) = charshift_IsAllowedAction ltr a s"
    by (simp add: charshift_IsAllowedAction_def charshift_IsFinalState_def)
  assume inv: "charshift_inv ltr s"
  then show "charshift_inv ltr (s\<lparr>ps_history := h\<rparr>)" by (cases ltr) (simp_all add: charshift_inv_def ps_wf_cong)
  show f: "charshift_IsFinalState ltr s = Some (charshift_steps_left ltr s = 0)"
    using inv by (auto simp: charshift_inv_def charshift_IsFinalState_def charshift_steps_left_def charshift_EndOfInput_def charshift_Next_def)
  then show "\<exists>b. charshift_IsAllowedAction ltr a s = Some b" by (simp add: charshift_IsAllowedAction_def)
  assume "charshift_IsAllowedAction ltr a s = Some True"
  then show "0 < charshift_steps_left ltr s" using f by (simp add: charshift_IsAllowedAction_def)
  from charshift_step [OF inv this] show "\<exists>s'. charshift_PerformActionWithoutHistory ltr a s = Some s' \<and> charshift_inv ltr s' \<and>
      Suc (charshift_steps_left ltr s') = charshift_steps_left ltr s \<and>
      ps_history s' = ps_history s \<and> ps_keep_history s' = ps_keep_history s \<and>
      ps_sentence s' = ps_sentence s \<and> ps_label_map s' = ps_label_map s" by blast
qed

lemma charshift_action:
  assumes "charshift_inv ltr s" and "0 < charshift_steps_left ltr s" and "ps_transition_state s = Some ts"
  shows "\<exists>s'. PerformAction (charshift_PerformActionWithoutHistory ltr) a s = Some s' \<and> charshift_inv ltr s' \<and>
    Suc (charshift_steps_left ltr s') = charshift_steps_left ltr s \<and> ps_sentence s' = ps_sentence s \<and>
    ps_transition_state s' = Some (ts\<lparr>cs_next := (if ltr then cs_next ts + 1 else cs_next ts - 1)\<rparr>)"
proof -
  let ?s = "if ps_keep_history s then s else s\<lparr>ps_history := ps_history s @ [a]\<rparr>"
  have inv: "charshift_inv ltr ?s" using assms(1) by (simp add: charshift.p_inv_history)
  have steps: "charshift_steps_left ltr ?s = charshift_steps_left ltr s" by (simp add: charshift.p_steps_history)
  have more: "0 < charshift_steps_left ltr ?s" unfolding steps by (rule assms(2))
  have f: "ps_sentence ?s = ps_sentence s" "ps_transition_state ?s = Some ts" using assms(3) by simp_all
  show ?thesis using charshift_step [OF inv more, of a] unfolding steps f
    by (auto simp: PerformAction_def Let_def split: if_splits)
qed

lemma charshift_walk:
  assumes "charshift_inv ltr s" and "length acts \<le> charshift_steps_left ltr s" and "ps_transition_state s = Some ts"
  shows "\<exists>s'. foreach (PerformAction (charshift_PerformActionWithoutHistory ltr)) acts s = Some s' \<and> charshift_inv ltr s' \<and>
    charshift_steps_left ltr s' = charshift_steps_left ltr s - length acts \<and> ps_sentence s' = ps_sentence s \<and>
    ps_transition_state s' = Some (ts\<lparr>cs_next := (if ltr then cs_next ts + int (length acts) else cs_next ts - int (length acts))\<rparr>)"
  using assms
proof (induction acts arbitrary: s ts)
  case Nil
  then show ?case by simp
next
  case (Cons a acts)
  let ?ts = "ts\<lparr>cs_next := (if ltr then cs_next ts + 1 else cs_next ts - 1)\<rparr>"
  obtain s1 where s1: "PerformAction (charshift_PerformActionWithoutHistory ltr) a s = Some s1" "charshift_inv ltr s1"
    "Suc (charshift_steps_left ltr s1) = charshift_steps_left ltr s" "ps_sentence s1 = ps_sentence s" "ps_transition_state s1 = Some ?ts"
    using charshift_action [OF Cons.prems(1) _ Cons.prems(3), of a] Cons.prems(2) by auto
  have "length acts \<le> charshift_steps_left ltr s1" using s1(3) Cons.prems(2) by simp
  from Cons.IH [OF s1(2) this s1(5)] show ?case using s1(1,3,4) by (auto simp: algebra_simps)
qed

lemma count_tl: "xs \<noteq> [] \<Longrightarrow> hd xs \<Longrightarrow> count_list xs True = Suc n \<Longrightarrow> count_list (tl xs) True = n"
  by (cases xs) auto

lemma count_butlast: "xs \<noteq> [] \<Longrightarrow> last xs \<Longrightarrow> count_list xs True = Suc n \<Longrightarrow> count_list (butlast xs) True = n"
  by (cases xs rule: rev_cases) auto

lemma new_charshift_state_inv:
  assumes "segmented s ((g, w) # gs) tail" and "tfm_inv label_map"
  shows "\<exists>s0. new_charshift_state ltr s label_map = Some s0 \<and> charshift_inv ltr s0 \<and> ps_sentence s0 = s \<and>
    charshift_steps_left ltr s0 = length (all_chars (([], w) # gs) []) \<and>
    ps_transition_state s0 = Some ((push_marks (int (length (concat g))) (group_marks (([], w) # gs)) (CharShiftTransitionState ltr))
      \<lparr>cs_next := (if ltr then 0 else int (length (all_chars (([], w) # gs) [])) - 1)\<rparr>)"
proof -
  let ?gs = "([], w) # gs"
  let ?fresh = "fresh_state s (Some (CharShiftTransitionState ltr)) label_map"
  let ?off = "length (concat g)"
  define ms where ms: "ms = group_marks ?gs"
  let ?ts = "push_marks (int ?off) ms (CharShiftTransitionState ltr)"
  let ?ts' = "?ts\<lparr>cs_next := (if ltr then 0 else cs_num_chars ?ts - 1)\<rparr>"
  have ok: "list_all group_ok ?gs" "w \<noteq> []" and e: "map extent (sent_token s) = group_tokens 0 ((g, w) # gs)"
    using assms(1) by (auto simp: segmented_def group_ok_def)
  have "map extent (drop 0 (sent_token s)) = group_tokens ?off ?gs" using e by (simp add: Let_def)
  from charshift_Init_groups [OF ok(1) this, of "CharShiftTransitionState ltr"]
  have loop: "charshift_Init_loop s (concat (all_chars ?gs [])) (int ?off) 0 (CharShiftTransitionState ltr) = Some ?ts" by (simp add: ms)
  have n: "length (sent_token s) = Suc (length gs)" using arg_cong [OF e, of length] by (simp add: Let_def)
  have f: "ps_num_tokens ?fresh = token_size s" "ps_next ?fresh = 0" "ps_stack ?fresh = []" "ps_sentence ?fresh = s"
    "ps_transition_state ?fresh = Some (CharShiftTransitionState ltr)"
    by (simp_all add: fresh_state_def Let_def)
  let ?s0 = "?fresh\<lparr>ps_transition_state := Some ?ts', ps_next := (if ltr then 0 else token_size s - 1)\<rparr>"
  have "(CharShiftTransitionState ltr)\<lparr>cs_num_chars := 0, cs_char_pos_map := [], cs_char_len_map := [], cs_token_starts := [], cs_token_ends := []\<rparr> =
      CharShiftTransitionState ltr" by (simp add: CharShiftTransitionState_def)
  then have new: "new_charshift_state ltr s label_map = Some ?s0"
    using loop token_text_segmented [OF assms(1)] f
    by (simp add: new_charshift_state_def ParserState_def charshift_Init_def Let_def push_marks_fields Advance_to_def)
       (simp add: CharShiftTransitionState_def Advance_to_def fresh_state_def Let_def)
  have c: "count_list (map (\<lambda>m. fst (snd m)) ms) True = Suc (length gs)" "count_list (map (\<lambda>m. snd (snd m)) ms) True = Suc (length gs)"
      "ms \<noteq> []" "snd (snd (last ms))" using group_marks_counts [OF ok(1)] by (simp_all add: ms del: group_marks.simps)
  have S: "cs_token_starts ?ts = map (\<lambda>m. fst (snd m)) ms" "cs_token_ends ?ts = map (\<lambda>m. snd (snd m)) ms"
      "cs_num_chars ?ts = int (length ms)"
    by (simp_all add: push_marks_fields CharShiftTransitionState_def)
  have hd: "fst (snd (hd ms))" using ok(2) by (cases w) (simp_all add: ms gap_marks_def)
  have tl: "count_list (tl (map (\<lambda>m. fst (snd m)) ms)) True = length gs"
    by (rule count_tl) (use c(1,3) hd in \<open>simp_all only: hd_map map_is_Nil_conv not_False_eq_True\<close>)
  have bl: "count_list (butlast (map (\<lambda>m. snd (snd m)) ms)) True = length gs"
    by (rule count_butlast) (use c(2,3,4) in \<open>simp_all only: last_map map_is_Nil_conv not_False_eq_True\<close>)
  have "charshift_inv ltr ?s0"
    using ps_wf_fresh [OF assms(2), of s "Some (CharShiftTransitionState ltr)"] f n c(3) S tl bl
    by (auto simp: charshift_inv_def tokens_shifted_def token_size_def ps_wf_def)
  moreover have "charshift_steps_left ltr ?s0 = length (all_chars ?gs [])"
    using S(3) arg_cong [OF group_marks_chars [of ?gs, folded ms], of length] by (cases ltr) (simp_all add: charshift_steps_left_def)
  moreover have "cs_num_chars ?ts = int (length (all_chars ?gs []))"
    using S(3) arg_cong [OF group_marks_chars [of ?gs, folded ms], of length] by simp
  ultimately show ?thesis using new f(4) by (auto simp: ms simp del: group_marks.simps)
qed

text \<open>The token that the token level must stand at for every character of a segmentation. A blank
  between two tokens belongs to the one that was reached before it: the left one when the walk goes
  to the right, the right one when it goes to the left.\<close>

fun char_owners :: "bool \<Rightarrow> int \<Rightarrow> segmentation \<Rightarrow> int list" where
  "char_owners ltr t [] = []"
| "char_owners ltr t ((g, w) # gs) =
     replicate (length g) (if ltr then t - 1 else t) @ replicate (length w) t @ char_owners ltr (t + 1) gs"

lemma length_char_owners [simp]: "length (char_owners ltr t gs) = length (all_chars gs [])"
  by (induction ltr t gs rule: char_owners.induct) simp_all

lemma word_starts_take: "p < length w \<Longrightarrow> count_list (take (Suc p) (map (\<lambda>m. fst (snd m)) (word_marks f w))) True = (if f then 1 else 0)"
proof (induction w arbitrary: f p)
  case (Cons a w)
  show ?case
  proof (cases p)
    case (Suc q)
    then show ?thesis using Cons.IH [of q False] Cons.prems by simp
  qed simp
qed simp

lemma word_ends_take: "p < length w \<Longrightarrow> count_list (take p (map (\<lambda>m. snd (snd m)) (word_marks f w))) True = 0"
proof (induction w arbitrary: f p)
  case (Cons a w)
  show ?case
  proof (cases p)
    case (Suc q)
    then show ?thesis using Cons.IH [of q False] Cons.prems by auto
  qed simp
qed simp

lemma length_marks [simp]: "length (word_marks f w) = length w" "length (gap_marks g) = length g"
  by (induction w arbitrary: f) (simp_all add: gap_marks_def)

lemma owners_starts:
  "p < length (all_chars gs []) \<Longrightarrow> list_all group_ok gs \<Longrightarrow>
    char_owners True t gs ! p = t - 1 + int (count_list (take (Suc p) (map (\<lambda>m. fst (snd m)) (group_marks gs))) True)"
proof (induction gs arbitrary: t p)
  case (Cons gw gs)
  obtain g w where gw: "gw = (g, w)" by fastforce
  have w: "w \<noteq> []" using Cons.prems(2) by (simp add: gw group_ok_def)
  have g0: "count_list (take n (map (\<lambda>m. fst (snd m)) (gap_marks g))) True = 0" for n
    using gap_marks_counts [of g] count_take [of n "map (\<lambda>m. fst (snd m)) (gap_marks g)" True] by simp
  consider (gap) "p < length g" | (word) q where "p = length g + q" "q < length w" | (rest) q where "p = length g + length w + q" "q < length (all_chars gs [])"
    using Cons.prems(1) by (auto simp: gw not_less dest!: le_Suc_ex) (metis add_less_cancel_left le_Suc_ex not_less add.assoc)
  then show ?case
  proof cases
    case gap
    then show ?thesis using g0 [of "Suc p"] by (simp add: gw nth_append)
  next
    case word
    then show ?thesis using word_starts_take [of q w True] g0 [of "length g"] w by (simp add: gw nth_append Suc_diff_le)
  next
    case rest
    then show ?thesis using Cons.IH [of q "t + 1"] Cons.prems(2) word_marks_starts [of True w] g0 [of "length g"] w
      by (simp add: gw nth_append Suc_diff_le)
  qed
qed simp

lemma owners_ends:
  "p < length (all_chars gs []) \<Longrightarrow> list_all group_ok gs \<Longrightarrow>
    char_owners False t gs ! p = t + int (count_list (take p (map (\<lambda>m. snd (snd m)) (group_marks gs))) True)"
proof (induction gs arbitrary: t p)
  case (Cons gw gs)
  obtain g w where gw: "gw = (g, w)" by fastforce
  have w: "w \<noteq> []" using Cons.prems(2) by (simp add: gw group_ok_def)
  have g0: "count_list (take n (map (\<lambda>m. snd (snd m)) (gap_marks g))) True = 0" for n
    using gap_marks_counts [of g] count_take [of n "map (\<lambda>m. snd (snd m)) (gap_marks g)" True] by simp
  consider (gap) "p < length g" | (word) q where "p = length g + q" "q < length w" | (rest) q where "p = length g + length w + q" "q < length (all_chars gs [])"
    using Cons.prems(1) by (auto simp: gw not_less dest!: le_Suc_ex) (metis add_less_cancel_left le_Suc_ex not_less add.assoc)
  then show ?case
  proof cases
    case gap
    then show ?thesis using g0 [of p] by (simp add: gw nth_append)
  next
    case word
    then show ?thesis using word_ends_take [of q w True] g0 [of "length g"] w by (simp add: gw nth_append)
  next
    case rest
    then show ?thesis using Cons.IH [of q "t + 1"] Cons.prems(2) word_marks_ends [OF w, of True] g0 [of "length g"]
      by (simp add: gw nth_append)
  qed
qed simp

lemma push_marks_positions: "cs_char_pos_map (push_marks cur ms ts) =
    cs_char_pos_map ts @ map (\<lambda>i. cur + int (length (concat (take i (map fst ms))))) [0..<length ms]"
proof (induction ms arbitrary: cur ts)
  case (Cons m ms)
  obtain p a b where m: "m = (p, a, b)" by (cases m) auto
  have u: "[0..<Suc (length ms)] = 0 # map Suc [0..<length ms]" by (simp add: map_Suc_upt upt_conv_Cons del: upt_Suc)
  show ?case unfolding m push_marks.simps Cons.IH by (simp add: u add.assoc del: upt_Suc)
qed simp

lemma push_marks_lengths: "cs_char_len_map (push_marks cur ms ts) = cs_char_len_map ts @ map (\<lambda>m. int (length (fst m))) ms"
proof (induction ms arbitrary: cur ts)
  case (Cons m ms)
  obtain p a b where m: "m = (p, a, b)" by (cases m) auto
  show ?case unfolding m push_marks.simps Cons.IH by simp
qed simp

lemma GetChar_marks:
  assumes "ts = (push_marks (int (length pre)) ms (CharShiftTransitionState ltr))\<lparr>cs_next := n\<rparr>"
    and "sent_text (ps_sentence s) = pre @ concat (map fst ms) @ post"
  shows "charshift_GetChar ts s i = Some (if 0 \<le> i \<and> i < int (length ms) then map fst ms ! nat i else [])"
proof (cases "0 \<le> i \<and> i < int (length ms)")
  case True
  then obtain k where k: "i = int k" "k < length ms" by (metis nat_0_le nat_less_iff)
  let ?cs = "map fst ms"
  have "concat ?cs = concat (take k ?cs) @ ?cs ! k @ concat (drop (Suc k) ?cs)"
    using k(2) id_take_nth_drop [of k ?cs] by (metis concat.simps(2) concat_append length_map)
  then have tx: "sent_text (ps_sentence s) = (pre @ concat (take k ?cs)) @ ?cs ! k @ concat (drop (Suc k) ?cs) @ post"
    using assms(2) by simp
  have "take (length (?cs ! k)) (drop (length (pre @ concat (take k ?cs))) (sent_text (ps_sentence s))) = ?cs ! k"
    unfolding tx by simp
  moreover have "length (pre @ concat (take k ?cs)) \<le> length (sent_text (ps_sentence s))" unfolding tx by simp
  ultimately show ?thesis using k assms(1)
    by (simp add: charshift_GetChar_def push_marks_fields push_marks_positions push_marks_lengths CharShiftTransitionState_def
      nat_add_distrib)
next
  case False
  then show ?thesis using assms(1) by (auto simp: charshift_GetChar_def push_marks_fields CharShiftTransitionState_def)
qed

text \<open>The token level after the character pointer has moved to position \<open>p\<close>.\<close>

lemma tokens_shifted_owner:
  assumes "ts = (push_marks off (group_marks (([], w) # gs)) (CharShiftTransitionState ltr))\<lparr>cs_next := p\<rparr>"
    and "list_all group_ok (([], w) # gs)" and "0 \<le> p" and "p < int (length (w @ all_chars gs []))"
  shows "(if ltr then tokens_shifted ltr ts else int (length gs) - tokens_shifted ltr ts) = char_owners ltr 0 (([], w) # gs) ! nat p"
proof -
  let ?gs = "([], w) # gs"
  define ms where ms: "ms = group_marks ?gs"
  let ?S = "map (\<lambda>m. fst (snd m)) ms" and ?E = "map (\<lambda>m. snd (snd m)) ms"
  have len: "length ms = length (w @ all_chars gs [])" using arg_cong [OF group_marks_chars [of ?gs, folded ms], of length] by simp
  have q: "nat p < length (all_chars ?gs [])" using assms(3,4) by simp
  have c: "count_list ?E True = Suc (length gs)" "ms \<noteq> []" "snd (snd (last ms))"
    using group_marks_counts [OF assms(2)] by (simp_all add: ms del: group_marks.simps)
  have f: "cs_token_starts ts = ?S" "cs_token_ends ts = ?E" "cs_next ts = p"
    using assms(1) by (simp_all add: push_marks_fields CharShiftTransitionState_def ms del: group_marks.simps)
  show ?thesis
  proof (cases ltr)
    case True
    have "w \<noteq> []" using assms(2) by (simp add: group_ok_def)
    then obtain S where S: "?S = True # S" by (cases w) (simp_all add: ms gap_marks_def)
    have "count_list (take (Suc (nat p)) ?S) True = Suc (count_list (take (nat p) (tl ?S)) True)" unfolding S by simp
    then show ?thesis using owners_starts [OF q assms(2), of 0] True f by (simp add: tokens_shifted_def ms del: group_marks.simps char_owners.simps)
  next
    case False
    have bl: "count_list (butlast ?E) True = length gs"
      by (rule count_butlast) (use c in \<open>simp_all only: last_map map_is_Nil_conv not_False_eq_True\<close>)
    have "count_list (butlast ?E) True = count_list (take (nat p) (butlast ?E)) True + count_list (drop (nat p) (butlast ?E)) True"
      by (metis append_take_drop_id count_list_append)
    moreover have "take (nat p) (butlast ?E) = take (nat p) ?E" using assms(3,4) len by (intro take_butlast) simp
    ultimately have "int (length gs) - int (count_list (drop (nat p) (butlast ?E)) True) = int (count_list (take (nat p) ?E) True)"
      using bl by simp
    then show ?thesis using owners_ends [OF q assms(2), of 0] False f by (simp add: tokens_shifted_def ms del: group_marks.simps char_owners.simps)
  qed
qed

text \<open>C37: The character-level shift system visits every character from the first to the last
  token once, left to right or right to left, and keeps the token level in step. After any \<open>k\<close>
  actions, for every \<open>k\<close> up to the number of characters, no action has aborted, the system is at
  the \<open>k\<close>-th character from its side, \<open>GetChar\<close> returns that character, the token level is at the token
  of the character (at a blank: at the token passed last) with the tokens passed before on the
  stack in the order of the walk, and the state is final exactly when all characters are visited, with
  the token level at the last (first) token.\<close>

theorem charshift_visits_all:
  assumes "segmented s ((g, w) # gs) tail" and "tfm_inv label_map" and chars: "chars = w @ all_chars gs []"
  shows "\<exists>s0. new_charshift_state left_to_right s label_map = Some s0 \<and>
    (\<forall>acts. length acts \<le> length chars \<longrightarrow> (\<exists>s1 ts pos.
      foreach (PerformAction (charshift_PerformActionWithoutHistory left_to_right)) acts s0 = Some s1 \<and>
      ps_transition_state s1 = Some ts \<and>
      pos = (if left_to_right then int (length acts) else int (length chars) - 1 - int (length acts)) \<and>
      charshift_Next ts = pos \<and>
      charshift_GetChar ts s1 pos = Some (if length acts < length chars then chars ! nat pos else []) \<and>
      charshift_IsFinalState left_to_right s1 = Some (length acts = length chars) \<and>
      ps_next s1 = (if length acts < length chars then char_owners left_to_right 0 (([], w) # gs) ! nat pos
        else if left_to_right then token_size s - 1 else 0) \<and>
      ps_stack s1 = (if left_to_right then [0..ps_next s1 - 1] else rev [ps_next s1 + 1..token_size s - 1])))"
proof -
  let ?ltr = left_to_right and ?gs = "([], w) # gs"
  let ?ts = "push_marks (int (length (concat g))) (group_marks ?gs) (CharShiftTransitionState ?ltr)"
  let ?first = "if ?ltr then 0 else int (length chars) - 1"
  obtain s0 where s0: "new_charshift_state ?ltr s label_map = Some s0" "charshift_inv ?ltr s0" "ps_sentence s0 = s"
    "charshift_steps_left ?ltr s0 = length chars" "ps_transition_state s0 = Some (?ts\<lparr>cs_next := ?first\<rparr>)"
    using new_charshift_state_inv [OF assms(1,2), of ?ltr] by (auto simp: chars simp del: group_marks.simps)
  have ok: "list_all group_ok ?gs" and tx: "sent_text s = concat g @ concat chars @ concat tail"
    and e: "map extent (sent_token s) = group_tokens 0 ((g, w) # gs)"
    using assms(1) by (auto simp: segmented_def group_ok_def chars all_chars_def)
  have n: "token_size s = int (length gs) + 1" using arg_cong [OF e, of length] by (simp add: token_size_def Let_def)
  have cs: "map fst (group_marks ?gs) = chars" "length (group_marks ?gs) = length chars"
    using group_marks_chars [of ?gs] length_map [of fst "group_marks ?gs"] by (simp_all only: chars all_chars_simps append_Nil)
  have "\<exists>s1 ts pos. foreach (PerformAction (charshift_PerformActionWithoutHistory ?ltr)) acts s0 = Some s1 \<and>
      ps_transition_state s1 = Some ts \<and> pos = (if ?ltr then int (length acts) else int (length chars) - 1 - int (length acts)) \<and>
      charshift_Next ts = pos \<and> charshift_GetChar ts s1 pos = Some (if length acts < length chars then chars ! nat pos else []) \<and>
      charshift_IsFinalState ?ltr s1 = Some (length acts = length chars) \<and>
      ps_next s1 = (if length acts < length chars then char_owners ?ltr 0 ?gs ! nat pos else if ?ltr then token_size s - 1 else 0) \<and>
      ps_stack s1 = (if ?ltr then [0..ps_next s1 - 1] else rev [ps_next s1 + 1..token_size s - 1])"
    if k: "length acts \<le> length chars" for acts
  proof -
    define pos where pos: "pos = (if ?ltr then int (length acts) else int (length chars) - 1 - int (length acts))"
    obtain s1 where s1: "foreach (PerformAction (charshift_PerformActionWithoutHistory ?ltr)) acts s0 = Some s1" "charshift_inv ?ltr s1"
      "charshift_steps_left ?ltr s1 = length chars - length acts" "ps_sentence s1 = s" "ps_transition_state s1 = Some (?ts\<lparr>cs_next := pos\<rparr>)"
      using charshift_walk [OF s0(2) _ s0(5), of acts] s0(3,4) k by (cases ?ltr) (auto simp: pos simp del: group_marks.simps)
    have num: "ps_num_tokens s1 = token_size s" using s1(2,4) ps_wfD(1) [of s1] by (simp add: charshift_inv_def)
    let ?t1 = "?ts\<lparr>cs_next := pos\<rparr>"
    have lv: "ps_next s1 = (if ?ltr then tokens_shifted ?ltr ?t1 else int (length gs) - tokens_shifted ?ltr ?t1)"
      and st: "ps_stack s1 = (if ?ltr then [0..ps_next s1 - 1] else rev [ps_next s1 + 1..token_size s - 1])"
      using s1(2,5) num n by (auto simp: charshift_inv_def simp del: group_marks.simps split: if_splits)
    have "charshift_GetChar ?t1 s1 pos = Some (if length acts < length chars then chars ! nat pos else [])"
      using GetChar_marks [where s = s1 and pre = "concat g" and ms = "group_marks ?gs" and post = "concat tail" and i = pos, OF refl] tx s1(4) cs k
      by (auto simp: pos simp del: group_marks.simps)
    moreover have "charshift_IsFinalState ?ltr s1 = Some (length acts = length chars)"
      using charshift.p_final [OF s1(2)] s1(3) k by auto
    moreover have "ps_next s1 = (if length acts < length chars then char_owners ?ltr 0 ?gs ! nat pos else if ?ltr then token_size s - 1 else 0)"
    proof (cases "length acts < length chars")
      case True
      then have "0 \<le> pos" "pos < int (length (w @ all_chars gs []))" by (simp_all add: pos chars)
      then show ?thesis using tokens_shifted_owner [OF refl ok] lv True by simp
    next
      case False
      then have "length acts = length chars" using k by simp
      then show ?thesis using s1(2,5) num cs(2) n
        by (auto simp: charshift_inv_def tokens_shifted_def pos push_marks_fields CharShiftTransitionState_def simp del: group_marks.simps split: if_splits)
    qed
    ultimately show ?thesis using s1(1,5) st pos
      by (intro exI [of _ s1] exI [of _ ?t1] exI [of _ pos]) (simp add: charshift_Next_def del: group_marks.simps)
  qed
  then show ?thesis using s0(1) by blast
qed

theorem charshift_visits_all_witness:
  "\<exists>s0. new_charshift_state False two_ideographs empty_tfm = Some s0 \<and>
    (\<exists>s1 ts. foreach (PerformAction (charshift_PerformActionWithoutHistory False)) [0, 0] s0 = Some s1 \<and>
      ps_transition_state s1 = Some ts \<and> charshift_Next ts = 0 \<and>
      charshift_GetChar ts s1 0 = Some [CHR 0xE8, CHR 0xBF, CHR 0x99] \<and>
      charshift_IsFinalState False s1 = Some False \<and> ps_next s1 = 0 \<and> ps_stack s1 = [1]) \<and>
    (\<exists>s1 ts. foreach (PerformAction (charshift_PerformActionWithoutHistory False)) [0] s0 = Some s1 \<and>
      ps_transition_state s1 = Some ts \<and> charshift_Next ts = 1 \<and>
      charshift_GetChar ts s1 1 = Some [CHR 0xE3, CHR 0x80, CHR 0x80] \<and>
      charshift_IsFinalState False s1 = Some False \<and> ps_next s1 = 1 \<and> ps_stack s1 = [])"
proof -
  have n: "token_size two_ideographs = 2" by (simp add: token_size_def two_ideographs_def)
  let ?a = "[CHR 0xE8, CHR 0xBF, CHR 0x99]" and ?b = "[CHR 0xE3, CHR 0x80, CHR 0x80]" and ?c = "[CHR 0xE6, CHR 0x98, CHR 0xAF]"
  have c: "[?a] @ all_chars [([?b], [?c])] [] = [?a, ?b, ?c]" by simp
  have o: "char_owners False 0 [([], [?a]), ([?b], [?c])] = [0, 1, 1]" by simp
  note run = charshift_visits_all [OF two_ideographs_segmented tfm_inv_empty refl, of False, unfolded c o if_False n]
  show ?thesis
  proof (rule exE [OF run], elim conjE)
    fix s0
    assume s0: "new_charshift_state False two_ideographs empty_tfm = Some s0"
    assume all: "\<forall>acts. length acts \<le> length [?a, ?b, ?c] \<longrightarrow> (\<exists>s1 ts pos.
      foreach (PerformAction (charshift_PerformActionWithoutHistory False)) acts s0 = Some s1 \<and>
      ps_transition_state s1 = Some ts \<and> pos = int (length [?a, ?b, ?c]) - 1 - int (length acts) \<and> charshift_Next ts = pos \<and>
      charshift_GetChar ts s1 pos = Some (if length acts < length [?a, ?b, ?c] then [?a, ?b, ?c] ! nat pos else []) \<and>
      charshift_IsFinalState False s1 = Some (length acts = length [?a, ?b, ?c]) \<and>
      ps_next s1 = (if length acts < length [?a, ?b, ?c] then [0, 1, 1] ! nat pos else 0) \<and>
      ps_stack s1 = rev [ps_next s1 + 1..2 - 1])"
    have "\<exists>s1 ts. foreach (PerformAction (charshift_PerformActionWithoutHistory False)) [0, 0] s0 = Some s1 \<and>
      ps_transition_state s1 = Some ts \<and> charshift_Next ts = 0 \<and> charshift_GetChar ts s1 0 = Some ?a \<and>
      charshift_IsFinalState False s1 = Some False \<and> ps_next s1 = 0 \<and> ps_stack s1 = [1]"
      using all [rule_format, of "[0, 0]"] by (auto simp del: foreach.simps)
    moreover have "\<exists>s1 ts. foreach (PerformAction (charshift_PerformActionWithoutHistory False)) [0] s0 = Some s1 \<and>
      ps_transition_state s1 = Some ts \<and> charshift_Next ts = 1 \<and> charshift_GetChar ts s1 1 = Some ?b \<and>
      charshift_IsFinalState False s1 = Some False \<and> ps_next s1 = 1 \<and> ps_stack s1 = []"
      using all [rule_format, of "[0]"] by (auto simp del: foreach.simps)
    ultimately show ?thesis using s0 by blast
  qed
qed

end
