(* ===== verification/Document_Kernels.thy ===== *)
theory Document_Kernels
  imports Document_Filters Corpus_Reader Segmenter_Utils
begin

text \<open>
  The kernels of \<^verbatim>\<open>syntaxnet/document_filters.cc\<close> around corpora and characters: \<open>DocumentSource\<close>,
  \<open>DocumentSink\<close>, \<open>SegmenterTrainingDataConstructor\<close> and \<open>CharTokenGenerator\<close>. As in the theory
  \<open>Document_Filters\<close>, \<open>parse\<close> and \<open>serialize\<close> stand for the protocol buffer calls on a sentence, and the
  result is an error status or the output tensors. The mutex, which makes \<open>Compute\<close> atomic, is
  not modelled.

  Lemmas: the batches of \<open>DocumentSource\<close> on a corpus written with \<open>TextWriter\<close>.
\<close>

text \<open>The constructor of \<open>DocumentSource\<close>: the batch size must be positive.\<close>

definition new_DocumentSource ::
  "(string \<Rightarrow> string option) \<Rightarrow> task_context \<Rightarrow> string \<Rightarrow> int \<Rightarrow> (kernel_error + text_reader \<times> task_context) option" where
  "new_DocumentSource open_file context corpus_name batch_size =
     (if \<not> batch_size > 0 then Some (Inl (InvalidArgument ''invalid batch_size provided''))
      else do {
        let (index, context) = GetInput context corpus_name;
        reader \<leftarrow> new_TextReader open_file (spec_input context ! index);
        Some (Inr (reader, context)) })"

text \<open>The loop of \<open>Compute\<close>; \<open>missing\<close> is the number of documents that the batch still lacks after the next one.\<close>

fun source_loop :: "document_format \<Rightarrow> nat \<Rightarrow> text_reader \<Rightarrow> (sentence list \<times> bool \<times> text_reader) option" where
  "source_loop fmt missing reader = do {
     (document, reader) \<leftarrow> tr_Read fmt reader;
     case document of
       None \<Rightarrow> Some ([], True, reader)
     | Some d \<Rightarrow>
         (case missing of
            0 \<Rightarrow> Some ([d], False, reader)
          | Suc k \<Rightarrow> do {
              (batch, last, reader) \<leftarrow> source_loop fmt k reader;
              Some (d # batch, last, reader) }) }"

declare source_loop.simps [simp del]

definition DocumentSource_Compute ::
  "(sentence \<Rightarrow> string) \<Rightarrow> document_format \<Rightarrow> int \<Rightarrow> text_reader \<Rightarrow> (string list \<times> bool \<times> text_reader) option" where
  "DocumentSource_Compute serialize fmt batch_size reader = do {
     (batch, last, reader) \<leftarrow> source_loop fmt (nat (batch_size - 1)) reader;
     Some (map serialize batch, last, reader) }"

fun DocumentSink_Compute ::
  "(string \<Rightarrow> sentence option) \<Rightarrow> document_format \<Rightarrow> string list \<Rightarrow> string \<Rightarrow> kernel_error option \<times> string" where
  "DocumentSink_Compute parse fmt [] written = (None, written)"
| "DocumentSink_Compute parse fmt (d # documents) written =
     (case parse d of
        None \<Rightarrow> (Some (InvalidArgument ''failed to parse sentence''), written)
      | Some document \<Rightarrow> DocumentSink_Compute parse fmt documents (tw_Write fmt written document))"

definition empty_sentence :: sentence where
  "empty_sentence = \<lparr>sent_docid = [], sent_text = [], sent_token = []\<rparr>"

fun SegmenterTrainingDataConstructor_Compute ::
  "(string \<Rightarrow> sentence option) \<Rightarrow> (sentence \<Rightarrow> string) \<Rightarrow> string list \<Rightarrow> (kernel_error + string list) option" where
  "SegmenterTrainingDataConstructor_Compute parse serialize [] = Some (Inr [])"
| "SegmenterTrainingDataConstructor_Compute parse serialize (d # documents) =
     (case parse d of
        None \<Rightarrow> Some (Inl (InvalidArgument ''failed to parse sentence''))
      | Some document \<Rightarrow> do {
          (converted, char_document) \<leftarrow> ConvertToCharTokenDoc document empty_sentence;
          rest \<leftarrow> SegmenterTrainingDataConstructor_Compute parse serialize documents;
          Some (case rest of Inl e \<Rightarrow> Inl e
                | Inr outs \<Rightarrow> Inr (if converted then serialize char_document # outs else outs)) })"

fun CharTokenGenerator_Compute ::
  "(string \<Rightarrow> sentence option) \<Rightarrow> (sentence \<Rightarrow> string) \<Rightarrow> string list \<Rightarrow> (kernel_error + string list) option" where
  "CharTokenGenerator_Compute parse serialize [] = Some (Inr [])"
| "CharTokenGenerator_Compute parse serialize (d # documents) =
     (case parse d of
        None \<Rightarrow> Some (Inl (InvalidArgument ''failed to parse sentence''))
      | Some document \<Rightarrow> do {
          let chars = GetUTF8Chars (sent_text document);
          char_document \<leftarrow> SetCharsAsTokens (sent_text document) chars empty_sentence;
          rest \<leftarrow> CharTokenGenerator_Compute parse serialize documents;
          Some (case rest of Inl e \<Rightarrow> Inl e | Inr outs \<Rightarrow> Inr (serialize char_document # outs)) })"

subsection \<open>Batches of a corpus\<close>

context corpus_format
begin

lemma source_batch:
  assumes "list_all good ss" and "int (length ss) < 2 ^ 31" and "reading_from fmt ss k r"
  shows "\<exists>r'. source_loop fmt b r = Some (map (\<lambda>i. the (nth_sentence (tr_filename r) ss i)) [k..<min (k + Suc b) (length ss)],
      length ss < k + Suc b, r') \<and> reading_from fmt ss (min (k + Suc b) (length ss)) r' \<and> tr_filename r' = tr_filename r"
  using assms(3)
proof (induction b arbitrary: k r)
  case 0
  from read_next [OF assms(1,2) 0] obtain r1 where
    r1: "tr_Read fmt r = Some (nth_sentence (tr_filename r) ss k, r1)"
      "reading_from fmt ss (min (Suc k) (length ss)) r1" "tr_filename r1 = tr_filename r" .
  have "k \<le> length ss" using 0 by (simp add: reading_from_def)
  then show ?case using r1 by (subst source_loop.simps) (cases "k < length ss", auto simp: nth_sentence_def upt_rec)
next
  case (Suc b)
  from read_next [OF assms(1,2) Suc.prems(1)] obtain r1 where
    r1: "tr_Read fmt r = Some (nth_sentence (tr_filename r) ss k, r1)"
      "reading_from fmt ss (min (Suc k) (length ss)) r1" "tr_filename r1 = tr_filename r" .
  have k: "k \<le> length ss" using Suc.prems(1) by (simp add: reading_from_def)
  show ?case
  proof (cases "k < length ss")
    case False
    then show ?thesis using r1 k by (subst source_loop.simps) (simp add: nth_sentence_def)
  next
    case True
    then obtain d where d: "nth_sentence (tr_filename r) ss k = Some d" by (simp add: nth_sentence_def)
    have "reading_from fmt ss (Suc k) r1" using r1(2) True by (simp add: min_def)
    from Suc.IH [OF this] r1(3) obtain r' where
      r': "source_loop fmt b r1 = Some (map (\<lambda>i. the (nth_sentence (tr_filename r) ss i)) [Suc k..<min (k + Suc (Suc b)) (length ss)],
          length ss < k + Suc (Suc b), r')" "reading_from fmt ss (min (k + Suc (Suc b)) (length ss)) r'" "tr_filename r' = tr_filename r"
      by auto
    have "[k..<min (k + Suc (Suc b)) (length ss)] = k # [Suc k..<min (k + Suc (Suc b)) (length ss)]" using True by (simp add: upt_rec)
    then show ?thesis using r1(1) r' d by (subst source_loop.simps) simp
  qed
qed

end

text \<open>The outputs of consecutive calls of \<open>Compute\<close>.\<close>

fun source_calls ::
  "(sentence \<Rightarrow> string) \<Rightarrow> document_format \<Rightarrow> int \<Rightarrow> nat \<Rightarrow> text_reader \<Rightarrow> (string list \<times> bool) list option" where
  "source_calls serialize fmt batch_size 0 reader = Some []"
| "source_calls serialize fmt batch_size (Suc m) reader = do {
     (batch, last, reader) \<leftarrow> DocumentSource_Compute serialize fmt batch_size reader;
     outs \<leftarrow> source_calls serialize fmt batch_size m reader;
     Some ((batch, last) # outs) }"

context corpus_format
begin

lemma source_calls_batches:
  assumes "list_all good ss" and "int (length ss) < 2 ^ 31" and "reading_from fmt ss (min (j * nat b) (length ss)) r" and "0 < b"
  shows "source_calls serialize fmt b m r =
    Some (map (\<lambda>i. (map (\<lambda>k. serialize (the (nth_sentence (tr_filename r) ss k))) [i * nat b..<min ((i + 1) * nat b) (length ss)],
      length ss < (i + 1) * nat b)) [j..<j + m])"
  using assms(3)
proof (induction m arbitrary: j r)
  case (Suc m)
  let ?b = "nat b" and ?n = "length ss"
  have b: "Suc (nat (b - 1)) = ?b" using assms(4) by simp
  from source_batch [OF assms(1,2) Suc.prems, of "nat (b - 1)"] obtain r' where
    r': "source_loop fmt (nat (b - 1)) r = Some (map (\<lambda>i. the (nth_sentence (tr_filename r) ss i))
        [min (j * ?b) ?n..<min (min (j * ?b) ?n + ?b) ?n], ?n < min (j * ?b) ?n + ?b, r')"
      "reading_from fmt ss (min (min (j * ?b) ?n + ?b) ?n) r'" "tr_filename r' = tr_filename r"
    unfolding b by blast
  have e: "[min (j * ?b) ?n..<min (min (j * ?b) ?n + ?b) ?n] = [j * ?b..<min ((j + 1) * ?b) ?n]"
      "?n < min (j * ?b) ?n + ?b \<longleftrightarrow> ?n < (j + 1) * ?b" "min (min (j * ?b) ?n + ?b) ?n = min (Suc j * ?b) ?n"
    using assms(4) by (auto simp: min_def add.commute)
  have "[j..<j + Suc m] = j # [Suc j..<Suc j + m]" by (simp add: upt_rec)
  moreover have "source_loop fmt (nat (b - 1)) r =
      Some (map (\<lambda>i. the (nth_sentence (tr_filename r) ss i)) [j * ?b..<min ((j + 1) * ?b) ?n], ?n < (j + 1) * ?b, r')"
    using r'(1) unfolding e(1,2) .
  moreover have "source_calls serialize fmt b m r' = Some (map (\<lambda>i. (map (\<lambda>k. serialize (the (nth_sentence (tr_filename r) ss k)))
      [i * ?b..<min ((i + 1) * ?b) ?n], ?n < (i + 1) * ?b)) [Suc j..<Suc j + m])"
    using Suc.IH [of "Suc j" r'] r'(2,3) unfolding e(3) by simp
  ultimately show ?case by (simp only: source_calls.simps DocumentSource_Compute_def) (simp del: upt_Suc add: comp_def)
qed simp

end

text \<open>C40: \<open>DocumentSource\<close> delivers a corpus in batches. On a file, or standard input, with a CoNLL corpus written with
  \<open>TextWriter\<close>, the i-th call of \<open>Compute\<close> returns the documents from \<open>i * batch_size\<close> on, at most
  \<open>batch_size\<close> of them, and reports the last batch exactly when it is not full.\<close>

theorem source_delivers_batches:
  assumes "list_all (conll_sentence opts) ss" and "int (length ss) < 2 ^ 31" and "matches_conll_ids full_match"
    and F: "F = conll_document_format full_match print_text opts" and "0 < batch_size"
    and "open_file filename = Some (written_corpus F ss)"
    and "length (input_record_format input) = 1" and "InputFile input = Some filename"
  shows "\<exists>r. new_TextReader open_file input = Some r \<and>
    source_calls serialize F batch_size m r =
      Some (map (\<lambda>i. (map (\<lambda>k. serialize (the (nth_sentence filename ss k))) [i * nat batch_size..<min ((i + 1) * nat batch_size) (length ss)],
        length ss < (i + 1) * nat batch_size)) [0..<m])"
proof -
  note c = conll_corpus_format [OF assms(3), of print_text opts, folded F]
  obtain r where "new_TextReader open_file input = Some r" "reading_from F ss 0 r" "tr_filename r = filename"
    by (rule corpus_format.new_reader [where open_file = open_file, OF c assms(1,6-8)])
  then show ?thesis
    using corpus_format.source_calls_batches [OF c assms(1,2) _ assms(5), of 0 r serialize m] by simp
qed

theorem source_delivers_batches_witness:
  "let F = conll_document_format ids_match (\<lambda>_. []) plain_conll;
       open_file = (\<lambda>_. Some (written_corpus F [two_words, two_words, two_words]));
       input = (new_input ''corpus'')\<lparr>input_record_format := [''conll-sentence''],
         input_part := [\<lparr>part_file_pattern = ''f'', part_file_format = [], part_record_format = []\<rparr>]\<rparr>
   in \<exists>r. new_TextReader open_file input = Some r \<and>
    source_calls sent_docid F 2 2 r = Some [([''f:0'', ''f:1''], False), ([''f:2''], True)]"
proof -
  let ?F = "conll_document_format ids_match (\<lambda>_. []) plain_conll" and ?ss = "[two_words, two_words, two_words]"
  let ?input = "(new_input ''corpus'')\<lparr>input_record_format := [''conll-sentence''],
         input_part := [\<lparr>part_file_pattern = ''f'', part_file_format = [], part_record_format = []\<rparr>]\<rparr>"
  have d: "show_int 0 = ''0''" "show_int 1 = ''1''" "show_int 2 = ''2''" by code_simp+
  have "map (\<lambda>i. (map (\<lambda>k. sent_docid (the (nth_sentence ''f'' ?ss k))) [i * nat 2..<min ((i + 1) * nat 2) (length ?ss)],
        length ?ss < (i + 1) * nat 2)) [0..<2] = [([''f:0'', ''f:1''], False), ([''f:2''], True)]"
    using d by (simp add: nth_sentence_def upt_rec numeral_eq_Suc)
  then show ?thesis unfolding Let_def
    using source_delivers_batches [of plain_conll ?ss ids_match ?F "\<lambda>_. []" 2
      "\<lambda>_. Some (written_corpus ?F ?ss)" "''f''" ?input sent_docid 2] ids_match two_words_conll
    by (simp add: InputFile_def)
qed

end
