(* ===== verification/Fml_Parser.thy ===== *)
theory Fml_Parser
  imports Utils
begin

text \<open>
  The feature modelling language (\<^verbatim>\<open>src/syntaxnet/fml_parser.cc\<close>, \<^verbatim>\<open>fml_parser.h\<close>): lexer, recursive
  descent parser, and the printer \<open>AsFML\<close>, over the messages of
  \<^verbatim>\<open>src/syntaxnet/feature_extractor.proto\<close>.

  The iterator \<open>current_\<close> is the rest of the source from it on, \<open>item_start_\<close> and \<open>line_start_\<close> are
  offsets. Dereferencing the end iterator of a string yields the NUL terminator, so the scanning
  loops that do not ask \<open>eos()\<close> stop there. \<open>item_type_\<close> is an \<^verbatim>\<open>int\<close> as in the source: the code of
  a single character (a NUL byte counts as the end), or a negative number for longer items.
  \<open>Error\<close> ends the process with a message; the model returns the message and its position.
  The recursion takes fuel: the theorems show that the fuel used by \<open>Parse\<close> never runs out.
\<close>

section \<open>Descriptors\<close>

record fml_parameter =
  par_name :: string
  par_value :: string

datatype feature_function =
  FeatureFunction (ff_type: string) (ff_name: "string option") (ff_argument: "int option")
    (ff_parameter: "fml_parameter list") (ff_feature: "feature_function list")

section \<open>The lexer\<close>

datatype fml_error =
    Fml_Error int int string string
  | Bad_Number string
  | Out_of_fuel

record fml_parser =
  fml_source :: string
  fml_rest :: string
  fml_line_number :: int
  fml_item_start :: nat
  fml_line_start :: nat
  fml_item_line_number :: int
  fml_item_type :: int
  fml_item_text :: string

definition fml_END :: int where "fml_END = 0"
definition fml_NAME :: int where "fml_NAME = -1"
definition fml_NUMBER :: int where "fml_NUMBER = -2"
definition fml_STRING :: int where "fml_STRING = -3"

definition isalpha :: "char \<Rightarrow> bool" where
  "isalpha c \<longleftrightarrow> 65 \<le> byte c \<and> byte c \<le> 90 \<or> 97 \<le> byte c \<and> byte c \<le> 122"

definition isalnum :: "char \<Rightarrow> bool" where
  "isalnum c \<longleftrightarrow> isalpha c \<or> isdigit c"

text \<open>A \<^verbatim>\<open>char\<close> converted to \<^verbatim>\<open>int\<close>; the build compiles with \<^verbatim>\<open>-funsigned-char\<close>.\<close>

definition char_int :: "char \<Rightarrow> int" where
  "char_int c = int (byte c)"

definition fml_pos :: "fml_parser \<Rightarrow> nat" where
  "fml_pos s = length (fml_source s) - length (fml_rest s)"

definition fml_Error :: "fml_parser \<Rightarrow> string \<Rightarrow> fml_error" where
  "fml_Error s error_message =
     Fml_Error (fml_item_line_number s) (int (fml_item_start s) - int (fml_line_start s) + 1) error_message
       (take (fml_pos s - fml_line_start s) (drop (fml_line_start s) (fml_source s)))"

definition fml_Next :: "fml_parser \<Rightarrow> fml_parser" where
  "fml_Next s =
     (case fml_rest s of
        [] \<Rightarrow> s
      | c # cs \<Rightarrow>
          if c = CHR 0x0A then
            s\<lparr>fml_line_number := fml_line_number s + 1, fml_rest := cs, fml_line_start := fml_pos s + 1\<rparr>
          else s\<lparr>fml_rest := cs\<rparr>)"

lemma rest_Next: "fml_rest (fml_Next s) = tl (fml_rest s)"
  by (simp add: fml_Next_def split: list.splits)

function Next_while :: "(char \<Rightarrow> bool) \<Rightarrow> fml_parser \<Rightarrow> fml_parser" where
  "Next_while P s =
     (if fml_rest s \<noteq> [] \<and> P (hd (fml_rest s)) then Next_while P (fml_Next s) else s)"
  by pat_completeness auto
termination
  by (relation "measure (\<lambda>(P, s). length (fml_rest s))") (auto simp: rest_Next)

declare Next_while.simps [simp del]

lemma rest_Next_while: "fml_rest (Next_while P s) = dropWhile P (fml_rest s)"
proof (induction P s rule: Next_while.induct)
  case (1 P s)
  then show ?case by (subst Next_while.simps, cases "fml_rest s") (auto simp: rest_Next)
qed

function skip_blank :: "fml_parser \<Rightarrow> fml_parser" where
  "skip_blank s =
     (if fml_rest s = [] then s
      else if hd (fml_rest s) = CHR ''#'' then skip_blank (Next_while (\<lambda>c. c \<noteq> CHR 0x0A) s)
      else if isspace (hd (fml_rest s)) then skip_blank (Next_while isspace s)
      else s)"
  by pat_completeness auto
termination
proof (relation "measure (\<lambda>s. length (fml_rest s))", goal_cases)
  case (2 s)
  then show ?case by (cases "fml_rest s") (auto simp: rest_Next_while le_imp_less_Suc length_dropWhile_le)
next
  case (3 s)
  then show ?case by (cases "fml_rest s") (auto simp: rest_Next_while le_imp_less_Suc length_dropWhile_le)
qed simp

declare skip_blank.simps [simp del]

text \<open>\<open>item_text_.assign(start, current_)\<close>\<close>

definition fml_between :: "fml_parser \<Rightarrow> fml_parser \<Rightarrow> string" where
  "fml_between start s = take (length (fml_rest start) - length (fml_rest s)) (fml_rest start)"

definition number_char :: "char \<Rightarrow> bool" where
  "number_char c \<longleftrightarrow> isdigit c \<or> c = CHR ''.''"

definition name_char :: "char \<Rightarrow> bool" where
  "name_char c \<longleftrightarrow> isalnum c \<or> c = CHR ''_'' \<or> c = CHR ''-'' \<or> c = CHR ''/''"

definition NextItem :: "fml_parser \<Rightarrow> fml_error + fml_parser" where
  "NextItem s =
     (let s = skip_blank s;
          s = s\<lparr>fml_item_start := fml_pos s, fml_item_line_number := fml_line_number s\<rparr>
      in if fml_rest s = [] then Inr (s\<lparr>fml_item_type := fml_END\<rparr>)
      else let c = hd (fml_rest s) in
      if isdigit c \<or> c = CHR ''+'' \<or> c = CHR ''-'' then
        let s' = Next_while number_char (fml_Next s)
        in Inr (s'\<lparr>fml_item_text := fml_between s s', fml_item_type := fml_NUMBER\<rparr>)
      else if c = CHR 0x22 then
        let start = fml_Next s;
            s' = Next_while (\<lambda>c. c \<noteq> CHR 0x22) start
        in if fml_rest s' = [] then Inl (fml_Error s' ''Unterminated string'')
           else Inr (fml_Next (s'\<lparr>fml_item_text := fml_between start s', fml_item_type := fml_STRING\<rparr>))
      else if isalpha c \<or> c = CHR ''_'' \<or> c = CHR ''/'' then
        let s' = Next_while name_char s
        in Inr (s'\<lparr>fml_item_text := fml_between s s', fml_item_type := fml_NAME\<rparr>)
      else Inr (fml_Next (s\<lparr>fml_item_type := char_int c\<rparr>)))"

definition fml_Initialize :: "string \<Rightarrow> fml_error + fml_parser" where
  "fml_Initialize source =
     NextItem \<lparr>fml_source = source, fml_rest = source, fml_line_number = 1, fml_item_start = 0,
       fml_line_start = 0, fml_item_line_number = 1, fml_item_type = fml_END, fml_item_text = []\<rparr>"

section \<open>The parser\<close>

text \<open>Sequencing of steps that may end in an error.\<close>

fun attempt :: "'e + 'a \<Rightarrow> ('a \<Rightarrow> 'e + 'b) \<Rightarrow> 'e + 'b" where
  "attempt (Inl e) f = Inl e"
| "attempt (Inr x) f = f x"

text \<open>\<^verbatim>\<open>tensorflow::strings::safe_strto32\<close>: the digits after an optional minus sign, with blanks around.\<close>

fun strto32_loop :: "int \<Rightarrow> int \<Rightarrow> string \<Rightarrow> (int \<times> string) option" where
  "strto32_loop vmax result [] = Some (result, [])"
| "strto32_loop vmax result (c # cs) =
     (if isdigit c then
        let result = result * 10 + char_int c - 48
        in if result > vmax then None else strto32_loop vmax result cs
      else Some (result, c # cs))"

definition safe_strto32 :: "string \<Rightarrow> int \<times> bool" where
  "safe_strto32 str =
     (let str = dropWhile isspace str;
          neg = (str \<noteq> [] \<and> hd str = CHR ''-'');
          str = (if neg then tl str else str);
          vmax = (if neg then 2 ^ 31 else 2 ^ 31 - 1)
      in if str = [] \<or> \<not> isdigit (hd str) then (0, False)
      else case strto32_loop vmax 0 str of
        None \<Rightarrow> (0, False)
      | Some (result, str) \<Rightarrow>
          if dropWhile isspace str \<noteq> [] then (0, False)
          else (if neg then - result else result, True))"

definition add_parameter :: "fml_parameter \<Rightarrow> feature_function \<Rightarrow> feature_function" where
  "add_parameter p d = FeatureFunction (ff_type d) (ff_name d) (ff_argument d) (ff_parameter d @ [p]) (ff_feature d)"

definition set_argument :: "int \<Rightarrow> feature_function \<Rightarrow> feature_function" where
  "set_argument a d = FeatureFunction (ff_type d) (ff_name d) (Some a) (ff_parameter d) (ff_feature d)"

definition set_name :: "string \<Rightarrow> feature_function \<Rightarrow> feature_function" where
  "set_name n d = FeatureFunction (ff_type d) (Some n) (ff_argument d) (ff_parameter d) (ff_feature d)"

definition add_feature :: "feature_function \<Rightarrow> feature_function \<Rightarrow> feature_function" where
  "add_feature f d = FeatureFunction (ff_type d) (ff_name d) (ff_argument d) (ff_parameter d) (ff_feature d @ [f])"

definition bare_function :: "string \<Rightarrow> feature_function" where
  "bare_function type = FeatureFunction type None None [] []"

type_synonym 'a fml_result = "fml_error + 'a \<times> fml_parser"

definition ParseParameter :: "feature_function \<Rightarrow> fml_parser \<Rightarrow> feature_function fml_result" where
  "ParseParameter result s =
     (if fml_item_type s = fml_NUMBER then
        (case ParseUsing (c_str (fml_item_text s)) safe_strto32 of
           None \<Rightarrow> Inl (Bad_Number (fml_item_text s))
         | Some argument \<Rightarrow> attempt (NextItem s) (\<lambda>s. Inr (set_argument argument result, s)))
      else if fml_item_type s = fml_NAME then
        let name = fml_item_text s in
        attempt (NextItem s) (\<lambda>s.
        if fml_item_type s \<noteq> char_int (CHR ''='') then Inl (fml_Error s ''= expected'')
        else attempt (NextItem s) (\<lambda>s.
        if fml_item_type s \<ge> fml_END then Inl (fml_Error s ''Parameter value expected'')
        else let value = fml_item_text s in
        attempt (NextItem s) (\<lambda>s.
        Inr (add_parameter \<lparr>par_name = name, par_value = value\<rparr> result, s))))
      else Inl (fml_Error s ''Syntax error in parameter list''))"

fun parameters_loop :: "nat \<Rightarrow> feature_function \<Rightarrow> fml_parser \<Rightarrow> feature_function fml_result" where
  "parameters_loop 0 result s = Inl Out_of_fuel"
| "parameters_loop (Suc fuel) result s =
     (if fml_item_type s = char_int (CHR '','') then
        attempt (NextItem s) (\<lambda>s.
        attempt (ParseParameter result s) (\<lambda>(result, s).
        parameters_loop fuel result s))
      else Inr (result, s))"

definition parse_arguments :: "nat \<Rightarrow> feature_function \<Rightarrow> fml_parser \<Rightarrow> feature_function fml_result" where
  "parse_arguments fuel result s =
     (if fml_item_type s = char_int (CHR ''('') then
        attempt (NextItem s) (\<lambda>s.
        attempt (ParseParameter result s) (\<lambda>(result, s).
        attempt (parameters_loop fuel result s) (\<lambda>(result, s).
        if fml_item_type s \<noteq> char_int (CHR '')'') then Inl (fml_Error s '') expected'')
        else attempt (NextItem s) (\<lambda>s. Inr (result, s)))))
      else Inr (result, s))"

definition parse_name :: "feature_function \<Rightarrow> fml_parser \<Rightarrow> feature_function fml_result" where
  "parse_name result s =
     (if fml_item_type s = char_int (CHR '':'') then
        attempt (NextItem s) (\<lambda>s.
        if fml_item_type s \<noteq> fml_NAME \<and> fml_item_type s \<noteq> fml_STRING then Inl (fml_Error s ''Feature name expected'')
        else let name = fml_item_text s in
        attempt (NextItem s) (\<lambda>s. Inr (set_name name result, s)))
      else Inr (result, s))"

fun ParseFeature :: "nat \<Rightarrow> feature_function \<Rightarrow> fml_parser \<Rightarrow> feature_function fml_result"
  and subfeature :: "nat \<Rightarrow> feature_function \<Rightarrow> fml_parser \<Rightarrow> feature_function fml_result"
  and block_loop :: "nat \<Rightarrow> feature_function \<Rightarrow> fml_parser \<Rightarrow> feature_function fml_result" where
  "ParseFeature 0 result s = Inl Out_of_fuel"
| "ParseFeature (Suc fuel) result s =
     attempt (parse_arguments fuel result s) (\<lambda>(result, s).
     attempt (parse_name result s) (\<lambda>(result, s).
     if fml_item_type s = char_int (CHR ''.'') then attempt (NextItem s) (\<lambda>s. subfeature fuel result s)
     else if fml_item_type s = char_int (CHR ''{'') then attempt (NextItem s) (\<lambda>s. block_loop fuel result s)
     else Inr (result, s)))"
| "subfeature 0 result s = Inl Out_of_fuel"
| "subfeature (Suc fuel) result s =
     (if fml_item_type s \<noteq> fml_NAME then Inl (fml_Error s ''Feature type name expected'')
      else let type = fml_item_text s in
      attempt (NextItem s) (\<lambda>s.
      attempt (ParseFeature fuel (bare_function type) s) (\<lambda>(sub, s).
      Inr (add_feature sub result, s))))"
| "block_loop 0 result s = Inl Out_of_fuel"
| "block_loop (Suc fuel) result s =
     (if fml_item_type s \<noteq> char_int (CHR ''}'') then
        attempt (subfeature fuel result s) (\<lambda>(result, s). block_loop fuel result s)
      else attempt (NextItem s) (\<lambda>s. Inr (result, s)))"

fun parse_loop :: "nat \<Rightarrow> feature_function list \<Rightarrow> fml_parser \<Rightarrow> fml_error + feature_function list" where
  "parse_loop 0 result s = Inl Out_of_fuel"
| "parse_loop (Suc fuel) result s =
     (if fml_item_type s \<noteq> fml_END then
        if fml_item_type s \<noteq> fml_NAME then Inl (fml_Error s ''Feature type name expected'')
        else let name = fml_item_text s in
        attempt (NextItem s) (\<lambda>s.
        if fml_item_type s = char_int (CHR ''='') then Inl (fml_Error s ''Invalid syntax: feature expected'')
        else attempt (ParseFeature fuel (bare_function name) s) (\<lambda>(descriptor, s).
        parse_loop fuel (result @ [descriptor]) s))
      else Inr result)"

definition fml_Parse :: "string \<Rightarrow> fml_error + feature_function list" where
  "fml_Parse source = attempt (fml_Initialize source) (\<lambda>s. parse_loop (2 * length source + 2) [] s)"

section \<open>The printer\<close>

definition argument :: "feature_function \<Rightarrow> int" where
  "argument f = (case ff_argument f of None \<Rightarrow> 0 | Some a \<Rightarrow> a)"

fun print_parameters :: "bool \<Rightarrow> fml_parameter list \<Rightarrow> string" where
  "print_parameters first [] = []"
| "print_parameters first (p # ps) =
     (if first then [] else '','') @ par_name p @ ''='' @ [CHR 0x22] @ par_value p @ [CHR 0x22] @
     print_parameters False ps"

definition ToFMLFunction :: "feature_function \<Rightarrow> string" where
  "ToFMLFunction f = ff_type f @
     (if argument f \<noteq> 0 \<or> ff_parameter f \<noteq> [] then
        ''('' @ (if argument f \<noteq> 0 then show_int (argument f) else []) @
        print_parameters (argument f = 0) (ff_parameter f) @ '')''
      else [])"

fun ToFML :: "feature_function \<Rightarrow> string"
  and ToFML_block :: "feature_function list \<Rightarrow> string" where
  "ToFML (FeatureFunction type name arg params features) =
     ToFMLFunction (FeatureFunction type name arg params features) @
     (case features of
        [] \<Rightarrow> []
      | [f] \<Rightarrow> ''.'' @ ToFML f
      | f # f' # fs \<Rightarrow> '' { '' @ ToFML f @ ToFML_block (f' # fs) @ '' } '')"
| "ToFML_block [] = []"
| "ToFML_block (f # fs) = '' '' @ ToFML f @ ToFML_block fs"

definition AsFML_function :: "feature_function \<Rightarrow> string" where
  "AsFML_function f = ToFML f"

fun AsFML :: "feature_function list \<Rightarrow> string" where
  "AsFML [] = []"
| "AsFML (f # fs) = ToFML f @ [CHR 0x0A] @ AsFML fs"

definition StripFML :: "string \<Rightarrow> string" where
  "StripFML fml = filter (\<lambda>c. c \<noteq> CHR 0x22) fml"

section \<open>Termination\<close>

definition left :: "fml_parser \<Rightarrow> nat" where
  "left s = length (fml_rest s) + (if fml_item_type s = fml_END then 0 else 1)"

lemma length_skip_blank: "length (fml_rest (skip_blank s)) \<le> length (fml_rest s)"
proof (induction s rule: skip_blank.induct)
  case (1 s)
  then show ?case
    by (subst skip_blank.simps) (auto simp: rest_Next_while intro: le_trans length_dropWhile_le)
qed

lemma NextItem_total: "NextItem s \<noteq> Inl Out_of_fuel" "NextItem s \<noteq> Inl (Bad_Number t)"
  by (auto simp: NextItem_def Let_def fml_Error_def)

lemma rest_NextItem:
  assumes "NextItem s = Inr s'"
  shows "fml_rest (skip_blank s) = [] \<and> fml_rest s' = [] \<and> fml_item_type s' = fml_END \<or>
    (\<exists>c r P. fml_rest (skip_blank s) = c # r \<and> (fml_rest s' = r \<or> fml_rest s' = dropWhile P r \<or> fml_rest s' = tl (dropWhile P r)))"
proof (cases "fml_rest (skip_blank s)")
  case (Cons c r)
  have name: "isalpha c \<or> c = CHR ''_'' \<or> c = CHR ''/'' \<Longrightarrow> name_char c"
    by (auto simp: name_char_def isalnum_def)
  consider (number) "isdigit c \<or> c = CHR ''+'' \<or> c = CHR ''-''" | (quote) "c = CHR 0x22"
    | (name) "\<not> (isdigit c \<or> c = CHR ''+'' \<or> c = CHR ''-'')" "c \<noteq> CHR 0x22" "isalpha c \<or> c = CHR ''_'' \<or> c = CHR ''/''"
    | (single) "\<not> (isdigit c \<or> c = CHR ''+'' \<or> c = CHR ''-'')" "c \<noteq> CHR 0x22" "\<not> (isalpha c \<or> c = CHR ''_'' \<or> c = CHR ''/'')"
    by blast
  then show ?thesis
  proof cases
    case number
    then have "fml_rest s' = dropWhile number_char r"
      using assms Cons by (auto simp: NextItem_def Let_def rest_Next rest_Next_while)
    then show ?thesis using Cons by blast
  next
    case quote
    then have "fml_rest s' = tl (dropWhile (\<lambda>c. c \<noteq> CHR 0x22) r)"
      using assms Cons by (simp add: NextItem_def Let_def rest_Next rest_Next_while isdigit_def split: if_splits) (auto simp: rest_Next rest_Next_while)
    then show ?thesis using Cons by blast
  next
    case name
    then have "fml_rest s' = dropWhile name_char r"
      using assms Cons \<open>_ \<Longrightarrow> name_char c\<close> by (auto simp: NextItem_def Let_def rest_Next rest_Next_while)
    then show ?thesis using Cons by blast
  next
    case single
    then have "fml_rest s' = r"
      using assms Cons by (auto simp: NextItem_def Let_def rest_Next)
    then show ?thesis using Cons by blast
  qed
qed (use assms in \<open>auto simp: NextItem_def Let_def\<close>)

lemma left_rest_NextItem:
  assumes "NextItem s = Inr s'"
  shows "left s' \<le> length (fml_rest s)"
proof -
  have "left s' \<le> length (fml_rest (skip_blank s))"
    using rest_NextItem [OF assms]
  proof
    assume "\<exists>c r P. fml_rest (skip_blank s) = c # r \<and> (fml_rest s' = r \<or> fml_rest s' = dropWhile P r \<or> fml_rest s' = tl (dropWhile P r))"
    then obtain c r P where r: "fml_rest (skip_blank s) = c # r" and
      s': "fml_rest s' = r \<or> fml_rest s' = dropWhile P r \<or> fml_rest s' = tl (dropWhile P r)" by blast
    from s' have "length (fml_rest s') \<le> length r"
      using length_dropWhile_le [of P r] by (auto intro: order_trans)
    then show ?thesis using r by (simp add: left_def)
  qed (simp add: left_def)
  also have "\<dots> \<le> length (fml_rest s)" by (rule length_skip_blank)
  finally show ?thesis .
qed

lemma left_NextItem:
  assumes "NextItem s = Inr s'"
  shows "left s' \<le> left s" "fml_item_type s \<noteq> fml_END \<Longrightarrow> left s' < left s"
  using left_rest_NextItem [OF assms] by (auto simp: left_def)

text \<open>A result is settled when it is not for want of fuel and leaves at most the given input.\<close>

definition settled :: "nat \<Rightarrow> 'a fml_result \<Rightarrow> bool" where
  "settled n r \<longleftrightarrow> r \<noteq> Inl Out_of_fuel \<and> (\<forall>d s. r = Inr (d, s) \<longrightarrow> left s \<le> n)"

lemma settled_Inr [simp]: "settled n (Inr (d, s)) \<longleftrightarrow> left s \<le> n"
  by (simp add: settled_def)

lemma settled_Inl [simp]: "settled n (Inl e) \<longleftrightarrow> e \<noteq> Out_of_fuel"
  by (simp add: settled_def)

lemma Error_fuel [simp]: "fml_Error s m \<noteq> Out_of_fuel"
  by (simp add: fml_Error_def)

lemma settled_NextItem:
  assumes "\<And>s'. left s' \<le> left s \<Longrightarrow> (fml_item_type s \<noteq> fml_END \<Longrightarrow> left s' < left s) \<Longrightarrow> settled n (f s')"
  shows "settled n (attempt (NextItem s) f)"
  using assms left_NextItem [of s] NextItem_total(1) [of s] by (cases "NextItem s") auto

lemma settled_attempt:
  assumes "settled m r" and "\<And>d s. left s \<le> m \<Longrightarrow> settled n (f (d, s))"
  shows "settled n (attempt r f)"
  using assms by (cases r) (auto simp: settled_def)

lemma char_codes:
  "char_int (CHR '','') = 44" "char_int (CHR ''('') = 40" "char_int (CHR '')'') = 41" "char_int (CHR '':'') = 58"
  "char_int (CHR ''.'') = 46" "char_int (CHR ''{'') = 123" "char_int (CHR ''}'') = 125" "char_int (CHR ''='') = 61"
  by (simp_all add: char_int_def)

lemmas item_codes = char_codes fml_END_def fml_NAME_def fml_NUMBER_def fml_STRING_def

lemma settled_mono: "settled m r \<Longrightarrow> m \<le> n \<Longrightarrow> settled n r"
  by (auto simp: settled_def)

lemma settled_ParseParameter: "settled (left s) (ParseParameter d s)"
  unfolding ParseParameter_def
  by (auto simp: Let_def item_codes split: option.split intro!: settled_NextItem)

lemma settled_parameters_loop: "left s < n \<Longrightarrow> settled (left s) (parameters_loop n d s)"
proof (induction n arbitrary: d s)
  case (Suc n)
  have "settled (left s) (parameters_loop n d' s')" if "left s' < left s" for d' s'
    using Suc.IH [of s' d'] that Suc.prems by (auto elim: settled_mono)
  then show ?case
    by (auto simp: item_codes intro!: settled_NextItem settled_attempt [OF settled_ParseParameter])
qed simp

lemma settled_parse_arguments: "left s \<le> n \<Longrightarrow> settled (left s) (parse_arguments n d s)"
  unfolding parse_arguments_def
  by (auto simp: item_codes intro!: settled_NextItem settled_attempt [OF settled_ParseParameter] settled_attempt [OF settled_parameters_loop])

lemma settled_parse_name: "settled (left s) (parse_name d s)"
  unfolding parse_name_def by (auto simp: Let_def item_codes intro!: settled_NextItem)

lemma settled_features:
  "(\<forall>d s. 2 * left s < n \<longrightarrow> settled (left s) (ParseFeature n d s)) \<and>
   (\<forall>d s. 2 * left s \<le> n \<longrightarrow> 0 < n \<longrightarrow> settled (left s - 1) (subfeature n d s)) \<and>
   (\<forall>d s. 2 * left s + 1 < n \<longrightarrow> settled (left s) (block_loop n d s))"
proof (induction n)
  case (Suc n)
  have pf: "settled m (ParseFeature n d s)" if "2 * left s < n" "left s \<le> m" for d s m
    using conjunct1 [OF Suc] that by (blast intro: settled_mono)
  have sub: "settled m (subfeature n d s)" if "2 * left s \<le> n" "0 < n" "left s - 1 \<le> m" for d s m
    using conjunct1 [OF conjunct2 [OF Suc]] that by (blast intro: settled_mono)
  have block: "settled m (block_loop n d s)" if "2 * left s + 1 < n" "left s \<le> m" for d s m
    using conjunct2 [OF conjunct2 [OF Suc]] that by (blast intro: settled_mono)
  have "settled (left s) (ParseFeature (Suc n) d s)" if "2 * left s < Suc n" for d s
    using that by (auto simp: item_codes intro!: settled_attempt [OF settled_parse_arguments] settled_attempt [OF settled_parse_name] settled_NextItem sub block)
  moreover have "settled (left s - 1) (subfeature (Suc n) d s)" if "2 * left s \<le> Suc n" for d s
  proof -
    have "settled (left s - 1) (attempt (ParseFeature n d' s') (\<lambda>(sub, s). Inr (add_feature sub d, s)))" if "left s' < left s" for d' s'
      using that \<open>2 * left s \<le> Suc n\<close> by (intro settled_attempt [OF pf [OF _ order_refl]]) auto
    then show ?thesis by (auto simp: Let_def item_codes intro!: settled_NextItem)
  qed
  moreover have "settled (left s) (block_loop (Suc n) d s)" if "2 * left s + 1 < Suc n" for d s
  proof -
    show ?thesis
    proof (cases "left s = 0")
      case True
      then have "fml_item_type s = fml_END" by (auto simp: left_def split: if_splits)
      moreover obtain n' where "n = Suc n'" using \<open>2 * left s + 1 < Suc n\<close> by (cases n) auto
      ultimately show ?thesis by (simp add: item_codes)
    next
      case False
      have "settled (left s) (block_loop n d' s')" if "left s' \<le> left s - 1" for d' s'
        using that False \<open>2 * left s + 1 < Suc n\<close> by (intro block) auto
      then show ?thesis using that by (auto simp: item_codes intro!: settled_NextItem settled_attempt [OF sub [OF _ _ order_refl]])
    qed
  qed
  ultimately show ?case by blast
qed simp

lemma settled_ParseFeature: "2 * left s < n \<Longrightarrow> settled (left s) (ParseFeature n d s)"
  using settled_features by blast

lemma parse_loop_fuel: "2 * left s < n \<Longrightarrow> parse_loop n result s \<noteq> Inl Out_of_fuel"
proof (induction n arbitrary: result s)
  case (Suc n)
  show ?case
  proof (cases "fml_item_type s = fml_NAME")
    case True
    show ?thesis
    proof (cases "NextItem s")
      case (Inr s1)
      have l: "left s1 < left s" using left_NextItem(2) [OF Inr] True by (simp add: item_codes)
      then have "settled (left s1) (ParseFeature n (bare_function (fml_item_text s)) s1)"
        using Suc.prems by (intro settled_ParseFeature) simp
      moreover have "parse_loop n d s2 \<noteq> Inl Out_of_fuel" if "left s2 \<le> left s1" for d s2
        using Suc.IH [of s2 d] that l Suc.prems by simp
      ultimately show ?thesis using True Inr
        by (cases "ParseFeature n (bare_function (fml_item_text s)) s1") (auto simp: item_codes settled_def)
    qed (use True NextItem_total(1) [of s] in \<open>auto simp: item_codes\<close>)
  qed (simp add: item_codes)
qed simp

lemma fml_Parse_fuel: "fml_Parse source \<noteq> Inl Out_of_fuel"
proof -
  let ?s = "\<lparr>fml_source = source, fml_rest = source, fml_line_number = 1, fml_item_start = 0,
       fml_line_start = 0, fml_item_line_number = 1, fml_item_type = fml_END, fml_item_text = []\<rparr>"
  show ?thesis
  proof (cases "NextItem ?s")
    case (Inr s)
    then show ?thesis using left_rest_NextItem [OF Inr]
      by (simp add: fml_Parse_def fml_Initialize_def parse_loop_fuel del: parse_loop.simps)
  qed (use NextItem_total(1) [of ?s] in \<open>auto simp: fml_Parse_def fml_Initialize_def\<close>)
qed

section \<open>Parsing what was printed\<close>

text \<open>A state that looks at the first item of a text.\<close>

definition looks_at :: "string \<Rightarrow> fml_parser \<Rightarrow> bool" where
  "looks_at r s \<longleftrightarrow> (\<exists>s0. fml_rest s0 = r \<and> NextItem s0 = Inr s)"

definition lexable :: "string \<Rightarrow> bool" where
  "lexable r \<longleftrightarrow> (\<forall>s0. fml_rest s0 = r \<longrightarrow> (\<exists>s. NextItem s0 = Inr s))"

definition delimited :: "string \<Rightarrow> bool" where
  "delimited r \<longleftrightarrow> r = [] \<or> \<not> name_char (hd r)"

definition fml_name :: "string \<Rightarrow> bool" where
  "fml_name w \<longleftrightarrow> w \<noteq> [] \<and> (isalpha (hd w) \<or> hd w = CHR ''_'' \<or> hd w = CHR ''/'') \<and> list_all name_char w"

definition single :: "char \<Rightarrow> bool" where
  "single c \<longleftrightarrow> c \<in> {CHR '','', CHR ''('', CHR '')'', CHR ''.'', CHR ''{'', CHR ''}'', CHR ''=''}"

lemma NextItem_looks_at: "lexable r \<Longrightarrow> fml_rest s = r \<Longrightarrow> \<exists>s'. NextItem s = Inr s' \<and> looks_at r s'"
  unfolding lexable_def looks_at_def by blast

lemma skip_blank_stop: "fml_rest s = [] \<or> hd (fml_rest s) \<noteq> CHR ''#'' \<and> \<not> isspace (hd (fml_rest s)) \<Longrightarrow> skip_blank s = s"
  by (subst skip_blank.simps) auto

lemma Next_while_step: "fml_rest s = c # r \<Longrightarrow> P c \<Longrightarrow> Next_while P s = Next_while P (fml_Next s)"
  by (subst Next_while.simps) simp

lemma skip_blank_space:
  assumes "fml_rest s = c # r" and "isspace c"
  shows "skip_blank s = skip_blank (fml_Next s)"
proof -
  have c: "c \<noteq> CHR ''#''" using assms(2) by (auto simp: isspace_def)
  have n: "Next_while isspace s = Next_while isspace (fml_Next s)" using assms by (intro Next_while_step)
  have r: "fml_rest (fml_Next s) = r" using assms(1) by (simp add: rest_Next)
  have s: "skip_blank s = skip_blank (Next_while isspace (fml_Next s))"
    using assms c n by (subst skip_blank.simps) simp
  show ?thesis
  proof (cases "r \<noteq> [] \<and> isspace (hd r)")
    case True
    then have "hd r \<noteq> CHR ''#''" by (auto simp: isspace_def)
    then have "skip_blank (fml_Next s) = skip_blank (Next_while isspace (fml_Next s))"
      using True r by (subst skip_blank.simps) simp
    then show ?thesis using s by simp
  next
    case False
    then have "Next_while isspace (fml_Next s) = fml_Next s" using r by (subst Next_while.simps) auto
    then show ?thesis using s by simp
  qed
qed

lemma NextItem_space: "fml_rest s = c # r \<Longrightarrow> isspace c \<Longrightarrow> NextItem s = NextItem (fml_Next s)"
  by (simp add: NextItem_def skip_blank_space)

lemma looks_at_space: "looks_at (c # r) s \<Longrightarrow> isspace c \<Longrightarrow> looks_at r s"
  unfolding looks_at_def by (metis NextItem_space list.sel(3) rest_Next)

lemma lexable_space: "lexable r \<Longrightarrow> isspace c \<Longrightarrow> lexable (c # r)"
  unfolding lexable_def by (metis NextItem_space list.sel(3) rest_Next)

lemma NextItem_end: "fml_rest s = [] \<Longrightarrow> \<exists>s'. NextItem s = Inr s' \<and> fml_item_type s' = fml_END"
  by (simp add: NextItem_def Let_def skip_blank_stop)

lemma NextItem_single:
  assumes "fml_rest s = c # r" and "single c"
  shows "\<exists>s'. NextItem s = Inr s' \<and> fml_item_type s' = char_int c \<and> fml_rest s' = r"
proof -
  have "\<not> isspace c \<and> c \<noteq> CHR ''#'' \<and> \<not> isdigit c \<and> c \<noteq> CHR ''+'' \<and> c \<noteq> CHR ''-'' \<and> c \<noteq> CHR 0x22 \<and>
      \<not> isalpha c \<and> c \<noteq> CHR ''_'' \<and> c \<noteq> CHR ''/'' \<and> c \<noteq> CHR 0x0A"
    using assms(2) by (auto simp: single_def isspace_def isdigit_def isalpha_def)
  then show ?thesis using assms(1) by (simp add: NextItem_def Let_def skip_blank_stop fml_Next_def)
qed

lemma between_scanned:
  assumes "fml_rest start = w @ r" and "fml_rest s = r"
  shows "fml_between start s = w"
  using assms by (simp add: fml_between_def)

lemma dropWhile_stop: "list_all P w \<Longrightarrow> r = [] \<or> \<not> P (hd r) \<Longrightarrow> dropWhile P (w @ r) = r"
  by (induction w) (cases r; auto)+

lemma NextItem_name:
  assumes "fml_rest s = w @ r" and "fml_name w" and "delimited r"
  shows "\<exists>s'. NextItem s = Inr s' \<and> fml_item_type s' = fml_NAME \<and> fml_item_text s' = w \<and> fml_rest s' = r"
proof -
  obtain c w' where w: "w = c # w'" using assms(2) by (cases w) (auto simp: fml_name_def)
  have c: "isalpha c \<or> c = CHR ''_'' \<or> c = CHR ''/''" using assms(2) w by (simp add: fml_name_def)
  have d: "dropWhile name_char (w @ r) = r"
    using assms(2,3) by (intro dropWhile_stop) (auto simp: fml_name_def delimited_def)
  define t where "t = s\<lparr>fml_item_start := fml_pos s, fml_item_line_number := fml_line_number s\<rparr>"
  define s' where "s' = Next_while name_char t"
  have "\<not> isspace c \<and> c \<noteq> CHR ''#'' \<and> \<not> isdigit c \<and> c \<noteq> CHR ''+'' \<and> c \<noteq> CHR ''-'' \<and> c \<noteq> CHR 0x22"
    using c by (auto simp: isspace_def isdigit_def isalpha_def)
  then have "NextItem s = Inr (s'\<lparr>fml_item_text := fml_between t s', fml_item_type := fml_NAME\<rparr>)"
    using assms(1) c w by (simp add: NextItem_def Let_def skip_blank_stop s'_def t_def)
  moreover have "fml_rest s' = r" using assms(1) d by (simp add: s'_def t_def rest_Next_while)
  moreover from this have "fml_between t s' = w" using assms(1) by (intro between_scanned) (simp_all add: t_def)
  ultimately show ?thesis by simp
qed

lemma NextItem_string:
  assumes "fml_rest s = CHR 0x22 # v @ CHR 0x22 # r" and "CHR 0x22 \<notin> set v"
  shows "\<exists>s'. NextItem s = Inr s' \<and> fml_item_type s' = fml_STRING \<and> fml_item_text s' = v \<and> fml_rest s' = r"
proof -
  have "dropWhile (\<lambda>c. c \<noteq> CHR 0x22) (v @ CHR 0x22 # r) = CHR 0x22 # r"
    using assms(2) by (intro dropWhile_stop) (auto simp: list_all_iff)
  then show ?thesis using assms(1)
    by (auto simp: NextItem_def Let_def skip_blank_stop rest_Next_while rest_Next isdigit_def isspace_def fml_Next_def intro!: between_scanned)
qed

lemma show_int_chars:
  obtains c ds where "show_int i = c # ds" and "isdigit c \<or> c = CHR ''-''" and "list_all isdigit ds"
proof -
  have n: "list_all isdigit (show_nat k)" for k using show_nat_digits [of _ k] by (auto simp: list_all_iff isdigit_def)
  show thesis
  proof (cases "i < 0")
    case True
    then show ?thesis using that [of "CHR ''-''" "show_nat (nat (- i))"] n by (simp add: show_int_def)
  next
    case False
    then show ?thesis using that [of "hd (show_nat (nat i))" "tl (show_nat (nat i))"] n [of "nat i"]
      by (cases "show_nat (nat i)") (auto simp: show_int_def)
  qed
qed

lemma NextItem_number:
  assumes "fml_rest s = show_int i @ r" and "r = [] \<or> \<not> number_char (hd r)"
  shows "\<exists>s'. NextItem s = Inr s' \<and> fml_item_type s' = fml_NUMBER \<and> fml_item_text s' = show_int i \<and> fml_rest s' = r"
proof -
  obtain c ds where i: "show_int i = c # ds" "isdigit c \<or> c = CHR ''-''" "list_all isdigit ds" by (rule show_int_chars)
  have d: "dropWhile number_char (ds @ r) = r"
    using i(3) assms(2) by (intro dropWhile_stop) (auto simp: number_char_def elim: list.pred_mono_strong)
  define t where "t = s\<lparr>fml_item_start := fml_pos s, fml_item_line_number := fml_line_number s\<rparr>"
  define s' where "s' = Next_while number_char (fml_Next t)"
  have "\<not> isspace c \<and> c \<noteq> CHR ''#''" using i(2) by (auto simp: isspace_def isdigit_def)
  then have "NextItem s = Inr (s'\<lparr>fml_item_text := fml_between t s', fml_item_type := fml_NUMBER\<rparr>)"
    using i(2) assms(1) i(1) by (elim disjE) (simp_all add: NextItem_def Let_def skip_blank_stop s'_def t_def)
  moreover have "fml_rest s' = r" using assms(1) d i(1) by (simp add: s'_def t_def rest_Next_while rest_Next)
  moreover from this have "fml_between t s' = show_int i" using assms(1) by (intro between_scanned) (simp_all add: t_def)
  ultimately show ?thesis by simp
qed

lemmas NextItem_items = NextItem_end NextItem_single NextItem_name NextItem_string NextItem_number

lemma lexable_items:
  "lexable []"
  "single c \<Longrightarrow> lexable (c # r)"
  "fml_name w \<Longrightarrow> delimited r \<Longrightarrow> lexable (w @ r)"
  "CHR 0x22 \<notin> set v \<Longrightarrow> lexable (CHR 0x22 # v @ CHR 0x22 # r)"
  "r = [] \<or> \<not> number_char (hd r) \<Longrightarrow> lexable (show_int i @ r)"
  unfolding lexable_def using NextItem_items by blast+

lemma looks_at_items:
  "looks_at [] s \<Longrightarrow> fml_item_type s = fml_END"
  "looks_at (c # r) s \<Longrightarrow> single c \<Longrightarrow> fml_item_type s = char_int c \<and> fml_rest s = r"
  "looks_at (w @ r) s \<Longrightarrow> fml_name w \<Longrightarrow> delimited r \<Longrightarrow> fml_item_type s = fml_NAME \<and> fml_item_text s = w \<and> fml_rest s = r"
  "looks_at (CHR 0x22 # v @ CHR 0x22 # r) s \<Longrightarrow> CHR 0x22 \<notin> set v \<Longrightarrow> fml_item_type s = fml_STRING \<and> fml_item_text s = v \<and> fml_rest s = r"
  "looks_at (show_int i @ r) s \<Longrightarrow> r = [] \<or> \<not> number_char (hd r) \<Longrightarrow> fml_item_type s = fml_NUMBER \<and> fml_item_text s = show_int i \<and> fml_rest s = r"
  unfolding looks_at_def by (metis NextItem_items sum.inject(2))+

lemma strto32_loop_digits:
  assumes "list_all isdigit ds" and "0 \<le> v" and "foldl (\<lambda>v c. v * int 10 + int (digit_value c)) v ds \<le> vmax"
  shows "strto32_loop vmax v ds = Some (foldl (\<lambda>v c. v * int 10 + int (digit_value c)) v ds, [])"
  using assms
proof (induction ds arbitrary: v)
  case (Cons c ds)
  have d: "char_int c = 48 + int (digit_value c)" using Cons.prems(1) by (auto simp: char_int_def digit_value_def isdigit_def)
  have mono: "v \<le> foldl (\<lambda>v c. v * int 10 + int (digit_value c)) v ds" if "0 \<le> v" for v :: int and ds
    using that
  proof (induction ds arbitrary: v)
    case (Cons c ds)
    have "v \<le> v * int 10 + int (digit_value c)" using Cons.prems by simp
    also have "\<dots> \<le> foldl (\<lambda>v c. v * int 10 + int (digit_value c)) (v * int 10 + int (digit_value c)) ds"
      using Cons by simp
    finally show ?case by simp
  qed simp
  have "v * 10 + int (digit_value c) \<le> vmax"
    using mono [of "v * int 10 + int (digit_value c)" ds] Cons.prems(2,3) by simp
  then show ?case using Cons d by (simp add: Let_def algebra_simps)
qed simp

lemma safe_strto32_show_int: "int32_range i \<Longrightarrow> safe_strto32 (show_int i) = (i, True)"
proof -
  assume i: "int32_range i"
  have digits: "list_all isdigit (show_nat k)" for k using show_nat_digits [of _ k] by (auto simp: list_all_iff isdigit_def)
  have loop: "strto32_loop vmax 0 (show_nat k) = Some (int k, [])" if "int k \<le> vmax" for k vmax
    using strto32_loop_digits [OF digits, of 0 k vmax] digits_value_show_nat [of k] that by (simp add: digits_value_def)
  have hd: "isdigit (hd (show_nat k))" for k using digits [of k] by (cases "show_nat k") auto
  have "hd (show_nat k) \<noteq> CHR ''-''" and sp: "\<not> isspace (hd (show_nat k))" for k
    using hd [of k] by (auto simp: isdigit_def isspace_def)
  moreover have "dropWhile isspace (show_nat k) = show_nat k" for k
    using sp [of k] by (cases "show_nat k") auto
  moreover have "\<exists>x\<in>set (show_nat k). \<not> isspace x" for k
    using sp [of k] by (intro bexI [of _ "hd (show_nat k)"]) auto
  moreover have "\<not> isspace (CHR ''-'')" by (simp add: isspace_def)
  ultimately show ?thesis using i loop hd
    by (auto simp: safe_strto32_def show_int_def int32_range_def Let_def)
qed


text \<open>Descriptors that are printed completely: the printer does not print feature names and does
  not distinguish an argument 0 from an absent one.\<close>

definition fml_parameter_ok :: "fml_parameter \<Rightarrow> bool" where
  "fml_parameter_ok p \<longleftrightarrow> fml_name (par_name p) \<and> CHR 0x22 \<notin> set (par_value p)"

fun fml_ok :: "feature_function \<Rightarrow> bool" where
  "fml_ok (FeatureFunction type name arg params features) \<longleftrightarrow>
     fml_name type \<and> name = None \<and> (case arg of None \<Rightarrow> True | Some a \<Rightarrow> a \<noteq> 0 \<and> int32_range a) \<and>
     list_all fml_parameter_ok params \<and> list_all fml_ok features"

definition arguments_text :: "int option \<Rightarrow> fml_parameter list \<Rightarrow> string" where
  "arguments_text arg params =
     (if arg = None \<and> params = [] then []
      else ''('' @ (case arg of None \<Rightarrow> [] | Some a \<Rightarrow> show_int a) @ print_parameters (arg = None) params @ '')'')"

definition features_text :: "feature_function list \<Rightarrow> string" where
  "features_text fs = (case fs of [] \<Rightarrow> [] | [f] \<Rightarrow> ''.'' @ ToFML f | _ \<Rightarrow> '' {'' @ ToFML_block fs @ '' } '')"

lemma ToFML_parts:
  "fml_ok (FeatureFunction t n a ps fs) \<Longrightarrow> ToFML (FeatureFunction t n a ps fs) = t @ arguments_text a ps @ features_text fs"
  by (auto simp: ToFMLFunction_def argument_def arguments_text_def features_text_def split: option.splits list.splits)

definition fml_follow :: "string \<Rightarrow> bool" where
  "fml_follow r \<longleftrightarrow> lexable r \<and> delimited r \<and>
     (\<forall>s. looks_at r s \<longrightarrow> fml_item_type s \<in> {fml_NAME, fml_END, char_int (CHR ''}'')})"

lemma looks_at_Next: "fml_rest s = r \<Longrightarrow> NextItem s = Inr s' \<Longrightarrow> looks_at r s'"
  by (auto simp: looks_at_def)

lemma not_name_char: "single c \<or> isspace c \<or> c = CHR 0x22 \<Longrightarrow> \<not> name_char c"
  by (auto simp: single_def name_char_def isalnum_def isalpha_def isdigit_def isspace_def)

lemma ParseParameter_argument:
  assumes "looks_at (show_int a @ r) s" and "int32_range a" and "r = c # r'" and "single c" and "c \<noteq> CHR ''.''" and "lexable r"
  shows "\<exists>s'. ParseParameter d s = Inr (set_argument a d, s') \<and> looks_at r s'"
proof -
  have "\<not> number_char c" using assms(4,5) by (auto simp: single_def number_char_def isdigit_def)
  then have s: "fml_item_type s = fml_NUMBER" "fml_item_text s = show_int a" "fml_rest s = r"
    using looks_at_items(5) [OF assms(1)] assms(3) by auto
  obtain s' where s': "NextItem s = Inr s'" "looks_at r s'" using NextItem_looks_at [OF assms(6) s(3)] by auto
  have "ParseUsing (c_str (show_int a)) safe_strto32 = Some a"
    using safe_strto32_show_int [OF assms(2)] by (simp add: ParseUsing_def c_str_show_int)
  then show ?thesis using s s' by (simp add: ParseParameter_def)
qed

lemma ParseParameter_named:
  assumes "looks_at (par_name p @ ''='' @ [CHR 0x22] @ par_value p @ [CHR 0x22] @ r) s" and "fml_parameter_ok p" and "lexable r"
  shows "\<exists>s'. ParseParameter d s = Inr (add_parameter p d, s') \<and> looks_at r s'"
proof -
  let ?r1 = "''='' @ [CHR 0x22] @ par_value p @ [CHR 0x22] @ r" and ?r2 = "CHR 0x22 # par_value p @ CHR 0x22 # r"
  have p: "fml_name (par_name p)" "CHR 0x22 \<notin> set (par_value p)" using assms(2) by (simp_all add: fml_parameter_ok_def)
  have eq: "single (CHR ''='')" by (simp add: single_def)
  then have "delimited ?r1" by (simp add: delimited_def not_name_char)
  from looks_at_items(3) [OF assms(1) p(1) this]
  have s: "fml_item_type s = fml_NAME" "fml_item_text s = par_name p" "fml_rest s = ?r1" by simp_all
  have "lexable ?r1" using lexable_items(2) [OF eq] by simp
  from NextItem_looks_at [OF this s(3)] obtain s1 where s1: "NextItem s = Inr s1" "looks_at ?r1 s1" by blast
  from looks_at_items(2) [of "CHR ''=''" ?r2 s1] s1(2) eq
  have i1: "fml_item_type s1 = char_int (CHR ''='')" "fml_rest s1 = ?r2" by simp_all
  from NextItem_looks_at [OF lexable_items(4) [OF p(2)] i1(2)] obtain s2 where s2: "NextItem s1 = Inr s2" "looks_at ?r2 s2" by blast
  from looks_at_items(4) [OF s2(2) p(2)]
  have i2: "fml_item_type s2 = fml_STRING" "fml_item_text s2 = par_value p" "fml_rest s2 = r" by simp_all
  from NextItem_looks_at [OF assms(3) i2(3)] obtain s3 where s3: "NextItem s2 = Inr s3" "looks_at r s3" by blast
  show ?thesis using s s1(1) i1(1) s2(1) i2 s3
    by (simp add: ParseParameter_def Let_def item_codes add_parameter_def)
qed

definition add_parameters :: "fml_parameter list \<Rightarrow> feature_function \<Rightarrow> feature_function" where
  "add_parameters ps d = FeatureFunction (ff_type d) (ff_name d) (ff_argument d) (ff_parameter d @ ps) (ff_feature d)"

lemma add_parameters_simps [simp]:
  "add_parameters [] d = d" "add_parameters ps (add_parameter p d) = add_parameters (p # ps) d"
  by (simp_all add: add_parameters_def add_parameter_def)

lemma lexable_print_parameters: "lexable (print_parameters False ps @ '')'' @ r)"
  using lexable_items(2) by (cases ps) (auto simp: single_def)

lemma parameters_loop_print:
  assumes "looks_at (print_parameters False ps @ '')'' @ r) s" and "list_all fml_parameter_ok ps" and "left s < n"
  shows "\<exists>s'. parameters_loop n d s = Inr (add_parameters ps d, s') \<and> looks_at ('')'' @ r) s'"
  using assms
proof (induction ps arbitrary: n d s)
  case Nil
  have "fml_item_type s = char_int (CHR '')'')" using looks_at_items(2) Nil.prems(1) by (auto simp: single_def)
  then show ?case using Nil.prems by (cases n) (auto simp: item_codes)
next
  case (Cons p ps)
  let ?r1 = "par_name p @ ''='' @ [CHR 0x22] @ par_value p @ [CHR 0x22] @ print_parameters False ps @ '')'' @ r"
  obtain m where n: "n = Suc m" using Cons.prems(3) by (cases n) auto
  have c: "single (CHR '','')" by (simp add: single_def)
  from looks_at_items(2) [of "CHR '',''" ?r1 s] Cons.prems(1) c
  have s: "fml_item_type s = char_int (CHR '','')" "fml_rest s = ?r1" by simp_all
  have "delimited (''='' @ z)" for z by (simp add: delimited_def not_name_char single_def)
  then have "lexable ?r1" using Cons.prems(2) by (intro lexable_items(3)) (auto simp: fml_parameter_ok_def)
  from NextItem_looks_at [OF this s(2)] obtain s1 where s1: "NextItem s = Inr s1" "looks_at ?r1 s1" by blast
  from ParseParameter_named [OF s1(2) _ lexable_print_parameters, of d] Cons.prems(2) obtain s2 where
    s2: "ParseParameter d s1 = Inr (add_parameter p d, s2)" "looks_at (print_parameters False ps @ '')'' @ r) s2" by auto
  have "left s1 < left s" using left_NextItem(2) [OF s1(1)] s(1) by (simp add: item_codes)
  moreover have "left s2 \<le> left s1" using settled_ParseParameter [of s1 d] s2(1) by simp
  ultimately have "left s2 < m" using Cons.prems(3) n by simp
  from Cons.IH [OF s2(2) _ this, of "add_parameter p d"] Cons.prems(2) obtain s3 where
    "parameters_loop m (add_parameter p d) s2 = Inr (add_parameters (p # ps) d, s3)" "looks_at ('')'' @ r) s3" by auto
  then show ?case using n s(1) s1(1) s2(1) by auto
qed

lemma parse_arguments_print:
  assumes "looks_at (arguments_text a ps @ r) s" and "list_all fml_parameter_ok ps"
    and "case a of None \<Rightarrow> True | Some v \<Rightarrow> v \<noteq> 0 \<and> int32_range v"
    and "lexable r" and "\<And>s. looks_at r s \<Longrightarrow> fml_item_type s \<noteq> char_int (CHR ''('')" and "left s \<le> n"
  shows "\<exists>s'. parse_arguments n (bare_function t) s = Inr (FeatureFunction t None a ps [], s') \<and> looks_at r s'"
proof (cases "a = None \<and> ps = []")
  case True
  then show ?thesis using assms(1,5) by (auto simp: arguments_text_def parse_arguments_def bare_function_def)
next
  case False
  define rest where "rest = (case a of None \<Rightarrow> [] | Some v \<Rightarrow> show_int v) @ print_parameters (a = None) ps @ '')'' @ r"
  have "looks_at (CHR ''('' # rest) s" using assms(1) False by (auto simp: arguments_text_def rest_def)
  from looks_at_items(2) [OF this] have s: "fml_item_type s = char_int (CHR ''('')" "fml_rest s = rest" by (simp_all add: single_def)
  have eq: "delimited (''='' @ z)" for z by (simp add: delimited_def not_name_char single_def)
  obtain c r' where cr: "print_parameters False ps @ '')'' @ r = c # r'" "single c" "c \<noteq> CHR ''.''"
    by (cases ps) (auto simp: single_def)
  then have stop: "\<not> number_char c" by (auto simp: single_def number_char_def isdigit_def)
  have first: "\<exists>s1 s2 d2. NextItem s = Inr s1 \<and> ParseParameter (bare_function t) s1 = Inr (d2, s2) \<and>
      (\<exists>ps'. looks_at (print_parameters False ps' @ '')'' @ r) s2 \<and> list_all fml_parameter_ok ps' \<and>
        add_parameters ps' d2 = FeatureFunction t None a ps [])"
  proof (cases a)
    case None
    then obtain p ps' where ps: "ps = p # ps'" using False by (cases ps) auto
    have "lexable rest" unfolding rest_def using None ps assms(2) lexable_items(3) [OF _ eq, of "par_name p"] by (simp add: fml_parameter_ok_def)
    from NextItem_looks_at [OF this s(2)] obtain s1 where s1: "NextItem s = Inr s1" "looks_at rest s1" by blast
    have "\<exists>s2. ParseParameter (bare_function t) s1 = Inr (add_parameter p (bare_function t), s2) \<and> looks_at (print_parameters False ps' @ '')'' @ r) s2"
      using ParseParameter_named [OF _ _ lexable_print_parameters, of p ps' r s1 "bare_function t"] s1(2) assms(2) None ps by (simp add: rest_def)
    then show ?thesis using s1(1) assms(2) None ps by (fastforce simp: add_parameters_def add_parameter_def bare_function_def)
  next
    case (Some v)
    have "lexable rest" unfolding rest_def using Some lexable_items(5) [of "c # r'" v] cr(1) stop by simp
    from NextItem_looks_at [OF this s(2)] obtain s1 where s1: "NextItem s = Inr s1" "looks_at rest s1" by blast
    have "\<exists>s2. ParseParameter (bare_function t) s1 = Inr (set_argument v (bare_function t), s2) \<and> looks_at (print_parameters False ps @ '')'' @ r) s2"
      using ParseParameter_argument [OF _ _ cr, of v s1 "bare_function t"] lexable_print_parameters s1(2) Some assms(3) by (simp add: rest_def)
    then show ?thesis using s1(1) assms(2) Some by (fastforce simp: add_parameters_def set_argument_def bare_function_def)
  qed
  then obtain s1 s2 d2 ps' where f: "NextItem s = Inr s1" "ParseParameter (bare_function t) s1 = Inr (d2, s2)"
    "looks_at (print_parameters False ps' @ '')'' @ r) s2" "list_all fml_parameter_ok ps'" "add_parameters ps' d2 = FeatureFunction t None a ps []"
    by blast
  have "left s1 < left s" using left_NextItem(2) [OF f(1)] s(1) by (simp add: item_codes)
  moreover have "left s2 \<le> left s1" using settled_ParseParameter [of s1 "bare_function t"] f(2) by simp
  ultimately have "left s2 < n" using assms(6) by simp
  from parameters_loop_print [OF f(3,4) this, of d2] f(5) obtain s3 where
    s3: "parameters_loop n d2 s2 = Inr (FeatureFunction t None a ps [], s3)" "looks_at ('')'' @ r) s3" by auto
  from looks_at_items(2) [of "CHR '')''" r s3] s3(2) have i3: "fml_item_type s3 = char_int (CHR '')'')" "fml_rest s3 = r" by (auto simp: single_def)
  from NextItem_looks_at [OF assms(4) i3(2)] obtain s4 where "NextItem s3 = Inr s4" "looks_at r s4" by blast
  then show ?thesis using s(1) f(1,2) s3(1) i3(1) by (simp add: parse_arguments_def)
qed

definition add_features :: "feature_function list \<Rightarrow> feature_function \<Rightarrow> feature_function" where
  "add_features fs d = FeatureFunction (ff_type d) (ff_name d) (ff_argument d) (ff_parameter d) (ff_feature d @ fs)"

lemma add_features_simps [simp]:
  "add_features [] d = d" "add_features fs (add_feature f d) = add_features (f # fs) d" "add_feature f d = add_features [f] d"
  by (simp_all add: add_features_def add_feature_def)

definition fml_tail :: "feature_function \<Rightarrow> string" where
  "fml_tail f = arguments_text (ff_argument f) (ff_parameter f) @ features_text (ff_feature f)"

lemma ToFML_tail: "fml_ok f \<Longrightarrow> ToFML f = ff_type f @ fml_tail f"
  by (cases f) (simp only: ToFML_parts fml_tail_def feature_function.sel append_assoc)

lemma isspace_blank: "isspace (CHR '' '')" "isspace (CHR 0x0A)"
  by (simp_all add: isspace_def)

lemma delimited_tail: "delimited r \<Longrightarrow> delimited (fml_tail f @ r)"
  by (auto simp: fml_tail_def arguments_text_def features_text_def delimited_def not_name_char single_def isspace_def split: list.splits)

lemma fml_okD: "fml_ok f \<Longrightarrow> fml_name (ff_type f)"
  by (cases f) simp

lemma follow_blank: "fml_follow r \<Longrightarrow> isspace c \<Longrightarrow> fml_follow (c # r)"
  using looks_at_space [of c r] by (auto simp: fml_follow_def lexable_space delimited_def not_name_char)

lemma follow_name:
  assumes "fml_name w" and "delimited r"
  shows "fml_follow ('' '' @ w @ r)"
proof -
  have "lexable ('' '' @ w @ r)" using lexable_space [OF lexable_items(3) [OF assms] isspace_blank(1)] by simp
  moreover have "fml_item_type s = fml_NAME" if "looks_at ('' '' @ w @ r) s" for s
    using looks_at_items(3) [OF _ assms] looks_at_space [OF _ isspace_blank(1)] that by auto
  ultimately show ?thesis by (simp add: fml_follow_def delimited_def not_name_char isspace_blank)
qed

lemma follow_brace: "fml_follow ('' } '' @ r)"
proof -
  have c: "single (CHR ''}'')" by (simp add: single_def)
  have "lexable ('' } '' @ r)" using lexable_space [OF lexable_items(2) [OF c] isspace_blank(1)] by simp
  moreover have "fml_item_type s = char_int (CHR ''}'')" if "looks_at ('' } '' @ r) s" for s
    using looks_at_items(2) [OF _ c] looks_at_space [OF _ isspace_blank(1)] that by auto
  ultimately show ?thesis by (simp add: fml_follow_def delimited_def not_name_char isspace_blank)
qed

lemma follow_block: "list_all fml_ok fs \<Longrightarrow> fml_follow (ToFML_block fs @ '' } '' @ r)"
proof (cases fs)
  case (Cons f fs')
  assume ok: "list_all fml_ok fs"
  have "delimited (ToFML_block fs' @ '' } '' @ r)"
    by (cases fs') (auto simp: delimited_def not_name_char isspace_blank)
  then show ?thesis using ok Cons follow_name [OF fml_okD delimited_tail, of f "ToFML_block fs' @ '' } '' @ r" f]
    by (simp add: ToFML_tail)
qed (simp add: follow_brace [simplified])

text \<open>What the parser does with a printed feature.\<close>

definition reparses :: "feature_function \<Rightarrow> bool" where
  "reparses f \<longleftrightarrow> (\<forall>r s n. fml_follow r \<longrightarrow> looks_at (fml_tail f @ r) s \<longrightarrow> 2 * left s < n \<longrightarrow>
     (\<exists>s'. ParseFeature n (bare_function (ff_type f)) s = Inr (f, s') \<and> looks_at r s'))"

lemma lexable_tail: "fml_follow r \<Longrightarrow> lexable (features_text fs @ r)"
  using lexable_items(2) lexable_space [OF _ isspace_blank(1)]
  by (auto simp: fml_follow_def features_text_def single_def split: list.splits)

lemma subfeature_print:
  assumes "fml_ok f" and "reparses f" and "fml_follow r" and "looks_at (ToFML f @ r) s" and "2 * left s \<le> n"
  shows "\<exists>s'. subfeature n d s = Inr (add_feature f d, s') \<and> looks_at r s' \<and> left s' < left s"
proof -
  have r: "lexable r" "delimited r" using assms(3) by (simp_all add: fml_follow_def)
  have dl: "delimited (fml_tail f @ r)" by (rule delimited_tail [OF r(2)])
  from looks_at_items(3) [OF _ fml_okD [OF assms(1)] dl] assms(4)
  have s: "fml_item_type s = fml_NAME" "fml_item_text s = ff_type f" "fml_rest s = fml_tail f @ r"
    by (simp_all add: ToFML_tail [OF assms(1)])
  have "lexable (fml_tail f @ r)"
    using lexable_tail [OF assms(3)] lexable_items(2) by (simp add: fml_tail_def arguments_text_def single_def)
  from NextItem_looks_at [OF this s(3)] obtain s1 where s1: "NextItem s = Inr s1" "looks_at (fml_tail f @ r) s1" by blast
  have l: "left s1 < left s" using left_NextItem(2) [OF s1(1)] s(1) by (simp add: item_codes)
  then obtain m where m: "n = Suc m" "2 * left s1 < m" using assms(5) by (cases n) auto
  from assms(2,3) s1(2) m(2) obtain s2 where s2: "ParseFeature m (bare_function (ff_type f)) s1 = Inr (f, s2)" "looks_at r s2"
    unfolding reparses_def by blast
  have "left s2 \<le> left s1" using settled_ParseFeature [OF m(2), of "bare_function (ff_type f)"] s2(1) by simp
  then show ?thesis using m(1) s(1,2) s1(1) s2 l by (simp add: Let_def)
qed

lemma block_loop_print:
  assumes "list_all fml_ok fs" and "\<forall>f \<in> set fs. reparses f" and "fml_follow r"
    and "looks_at (ToFML_block fs @ '' } '' @ r) s" and "2 * left s + 1 < n"
  shows "\<exists>s'. block_loop n d s = Inr (add_features fs d, s') \<and> looks_at r s'"
  using assms
proof (induction fs arbitrary: d s n)
  case Nil
  then obtain m where m: "n = Suc m" by (cases n) auto
  have "looks_at (CHR ''}'' # '' '' @ r) s" using looks_at_space [OF _ isspace_blank(1)] Nil.prems(4) by simp
  from looks_at_items(2) [OF this] have s: "fml_item_type s = char_int (CHR ''}'')" "fml_rest s = '' '' @ r" by (simp_all add: single_def)
  have "lexable ('' '' @ r)" using Nil.prems(3) lexable_space [OF _ isspace_blank(1)] by (simp add: fml_follow_def)
  from NextItem_looks_at [OF this s(2)] obtain s' where "NextItem s = Inr s'" "looks_at ('' '' @ r) s'" by blast
  then show ?case using m s(1) looks_at_space [OF _ isspace_blank(1), of r s'] by simp
next
  case (Cons f fs)
  obtain m where m: "n = Suc m" "2 * left s + 1 \<le> m" using Cons.prems(5) by (cases n) auto
  have fol: "fml_follow (ToFML_block fs @ '' } '' @ r)" using follow_block Cons.prems(1) by simp
  have at: "looks_at (ToFML f @ ToFML_block fs @ '' } '' @ r) s" using looks_at_space [OF _ isspace_blank(1)] Cons.prems(4) by simp
  from subfeature_print [OF _ _ fol at, of m d] Cons.prems(1,2) m(2) obtain s1 where
    s1: "subfeature m d s = Inr (add_feature f d, s1)" "looks_at (ToFML_block fs @ '' } '' @ r) s1" "left s1 < left s" by auto
  from Cons.IH [OF _ _ Cons.prems(3) s1(2), of m "add_feature f d"] Cons.prems(1,2) s1(3) m(2) obtain s' where
    s': "block_loop m (add_feature f d) s1 = Inr (add_features (f # fs) d, s')" "looks_at r s'" by (auto simp: add_features_def add_feature_def)
  have "fml_name (ff_type f)" using fml_okD Cons.prems(1) by simp
  then have "fml_item_type s = fml_NAME"
    using looks_at_items(3) [of "ff_type f" "fml_tail f @ ToFML_block fs @ '' } '' @ r" s] at Cons.prems(1)
      delimited_tail [of "ToFML_block fs @ '' } '' @ r" f] fol by (simp add: ToFML_tail fml_follow_def)
  then show ?case using m(1) s1(1) s' by (simp add: item_codes)
qed

lemma features_follow_item:
  assumes "fml_follow r" and "looks_at (features_text fs @ r) s"
  shows "fml_item_type s \<noteq> char_int (CHR ''('')" "fml_item_type s \<noteq> char_int (CHR '':'')"
    "fml_item_type s = char_int (CHR ''.'') \<longleftrightarrow> length fs = 1" "fml_item_type s = char_int (CHR ''{'') \<longleftrightarrow> 1 < length fs"
    "fml_item_type s \<noteq> char_int (CHR ''='')"
proof -
  have s: "single (CHR ''.'')" "single (CHR ''{'')" by (simp_all add: single_def)
  consider (none) "fs = []" | (one) f where "fs = [f]" | (many) f f' fs' where "fs = f # f' # fs'"
    by (cases fs rule: remdups_adj.cases) auto
  then have "fs = [] \<and> fml_item_type s \<in> {fml_NAME, fml_END, char_int (CHR ''}'')} \<or>
      length fs = 1 \<and> fml_item_type s = char_int (CHR ''.'') \<or> 1 < length fs \<and> fml_item_type s = char_int (CHR ''{'')"
  proof cases
    case many
    then have "looks_at (CHR ''{'' # ToFML_block fs @ '' } '' @ r) s"
      using assms(2) looks_at_space [OF _ isspace_blank(1)] by (simp add: features_text_def)
    then have "fml_item_type s = char_int (CHR ''{'')" by (simp add: looks_at_items(2) s(2))
    then show ?thesis using many by simp
  qed (use assms looks_at_items(2) [OF _ s(1)] in \<open>auto simp: features_text_def fml_follow_def\<close>)
  then show "fml_item_type s \<noteq> char_int (CHR ''('')" "fml_item_type s \<noteq> char_int (CHR '':'')"
    "fml_item_type s = char_int (CHR ''.'') \<longleftrightarrow> length fs = 1" "fml_item_type s = char_int (CHR ''{'') \<longleftrightarrow> 1 < length fs"
    "fml_item_type s \<noteq> char_int (CHR ''='')"
    by (auto simp: item_codes)
qed

lemma features_print:
  assumes "list_all fml_ok fs" and "\<forall>f \<in> set fs. reparses f" and "fml_follow r"
    and "looks_at (features_text fs @ r) s" and "2 * left s \<le> n"
  shows "\<exists>s'. (if fml_item_type s = char_int (CHR ''.'') then attempt (NextItem s) (\<lambda>s. subfeature n d s)
     else if fml_item_type s = char_int (CHR ''{'') then attempt (NextItem s) (\<lambda>s. block_loop n d s)
     else Inr (d, s)) = Inr (add_features fs d, s') \<and> looks_at r s'"
proof -
  note item = features_follow_item [OF assms(3,4)]
  consider (none) "fs = []" | (one) f where "fs = [f]" | (many) f f' fs' where "fs = f # f' # fs'"
    by (cases fs rule: remdups_adj.cases) auto
  then show ?thesis
  proof cases
    case none
    then show ?thesis using item assms(4) by (simp add: features_text_def)
  next
    case one
    then have "looks_at (CHR ''.'' # ToFML f @ r) s" using assms(4) by (simp add: features_text_def)
    from looks_at_items(2) [OF this] have s: "fml_item_type s = char_int (CHR ''.'')" "fml_rest s = ToFML f @ r" by (simp_all add: single_def)
    have "lexable (ToFML f @ r)" using lexable_items(3) [OF fml_okD delimited_tail] assms(1,3) one by (simp add: ToFML_tail fml_follow_def)
    from NextItem_looks_at [OF this s(2)] obtain s1 where s1: "NextItem s = Inr s1" "looks_at (ToFML f @ r) s1" by blast
    have "left s1 < left s" using left_NextItem(2) [OF s1(1)] s(1) by (simp add: item_codes)
    then show ?thesis using subfeature_print [OF _ _ assms(3) s1(2), of n d] assms(1,2,5) one s(1) s1(1) by auto
  next
    case many
    then have "looks_at (CHR ''{'' # ToFML_block fs @ '' } '' @ r) s"
      using assms(4) looks_at_space [OF _ isspace_blank(1)] by (simp add: features_text_def)
    from looks_at_items(2) [OF this] have s: "fml_item_type s = char_int (CHR ''{'')" "fml_rest s = ToFML_block fs @ '' } '' @ r"
      by (simp_all add: single_def)
    have "lexable (ToFML_block fs @ '' } '' @ r)" using follow_block [OF assms(1)] by (simp add: fml_follow_def)
    from NextItem_looks_at [OF this s(2)] obtain s1 where s1: "NextItem s = Inr s1" "looks_at (ToFML_block fs @ '' } '' @ r) s1" by blast
    have "left s1 < left s" using left_NextItem(2) [OF s1(1)] s(1) by (simp add: item_codes)
    then show ?thesis using block_loop_print [OF assms(1,2,3) s1(2), of n d] assms(5) s(1) s1(1) by (auto simp: item_codes)
  qed
qed

lemma fml_ok_reparses: "fml_ok f \<Longrightarrow> reparses f"
proof (induction f rule: feature_function.induct)
  case (FeatureFunction t nm a ps fs)
  note ok = FeatureFunction.prems [unfolded fml_ok.simps]
  have sub: "list_all fml_ok fs" "\<forall>f \<in> set fs. reparses f" using ok FeatureFunction.IH by (auto simp: list_all_iff)
  show ?case unfolding reparses_def
  proof (intro allI impI)
    fix r s n
    assume r: "fml_follow r" and at: "looks_at (fml_tail (FeatureFunction t nm a ps fs) @ r) s" and n: "2 * left s < n"
    obtain m where m: "n = Suc m" "2 * left s \<le> m" using n by (cases n) auto
    have "\<exists>s'. parse_arguments m (bare_function t) s = Inr (FeatureFunction t None a ps [], s') \<and> looks_at (features_text fs @ r) s'"
      using at ok m(2) features_follow_item(1) [OF r] lexable_tail [OF r] by (intro parse_arguments_print) (auto simp: fml_tail_def)
    then obtain s1 where s1: "parse_arguments m (bare_function t) s = Inr (FeatureFunction t None a ps [], s1)" "looks_at (features_text fs @ r) s1" by blast
    have "left s1 \<le> left s" using settled_parse_arguments [of s m "bare_function t"] s1(1) m(2) by simp
    then have "2 * left s1 \<le> m" using m(2) by simp
    from features_print [OF sub r s1(2) this, of "FeatureFunction t None a ps []"] obtain s' where
      "(if fml_item_type s1 = char_int (CHR ''.'') then attempt (NextItem s1) (\<lambda>s. subfeature m (FeatureFunction t None a ps []) s)
     else if fml_item_type s1 = char_int (CHR ''{'') then attempt (NextItem s1) (\<lambda>s. block_loop m (FeatureFunction t None a ps []) s)
     else Inr (FeatureFunction t None a ps [], s1)) = Inr (FeatureFunction t nm a ps fs, s')" "looks_at r s'"
      using ok by (auto simp: add_features_def)
    moreover have "parse_name d s1 = Inr (d, s1)" for d
      using features_follow_item(2) [OF r s1(2)] by (simp add: parse_name_def)
    ultimately show "\<exists>s'. ParseFeature n (bare_function (ff_type (FeatureFunction t nm a ps fs))) s = Inr (FeatureFunction t nm a ps fs, s') \<and> looks_at r s'"
      using m(1) s1(1) by (simp add: add_features_def)
  qed
qed

lemma follow_AsFML: "list_all fml_ok fs \<Longrightarrow> fml_follow (CHR 0x0A # AsFML fs)"
proof (induction fs)
  case Nil
  have "fml_follow []" using looks_at_items(1) lexable_items(1) by (auto simp: fml_follow_def delimited_def)
  then show ?case by (simp add: follow_blank isspace_blank)
next
  case (Cons f fs)
  let ?r = "CHR 0x0A # AsFML fs"
  have ok: "fml_name (ff_type f)" using Cons.prems by (simp add: fml_okD)
  have dl: "delimited (fml_tail f @ ?r)" by (rule delimited_tail) (simp add: delimited_def not_name_char isspace_blank)
  have "fml_item_type s = fml_NAME" if "looks_at (ff_type f @ fml_tail f @ ?r) s" for s
    using looks_at_items(3) [OF that ok dl] by simp
  moreover have "lexable (ff_type f @ fml_tail f @ ?r)" by (rule lexable_items(3) [OF ok dl])
  ultimately show ?case using Cons.prems looks_at_space [OF _ isspace_blank(2)] lexable_space [OF _ isspace_blank(2)]
    by (auto simp: fml_follow_def delimited_def not_name_char isspace_blank ToFML_tail)
qed

lemma parse_loop_print:
  assumes "list_all fml_ok fs" and "looks_at (AsFML fs) s" and "2 * left s < n"
  shows "parse_loop n done s = Inr (done @ fs)"
  using assms
proof (induction fs arbitrary: s n "done")
  case Nil
  then show ?case using looks_at_items(1) by (cases n) auto
next
  case (Cons f fs)
  let ?r = "CHR 0x0A # AsFML fs"
  have ok: "fml_ok f" "list_all fml_ok fs" using Cons.prems(1) by auto
  have fol: "fml_follow ?r" by (rule follow_AsFML [OF ok(2)])
  then have dl: "delimited (fml_tail f @ ?r)" by (intro delimited_tail) (simp add: fml_follow_def)
  from looks_at_items(3) [OF _ fml_okD [OF ok(1)] dl] Cons.prems(2)
  have s: "fml_item_type s = fml_NAME" "fml_item_text s = ff_type f" "fml_rest s = fml_tail f @ ?r" by (simp_all add: ToFML_tail [OF ok(1)])
  have "lexable (fml_tail f @ ?r)"
    using lexable_tail [OF fol] lexable_items(2) by (simp add: fml_tail_def arguments_text_def single_def)
  from NextItem_looks_at [OF this s(3)] obtain s1 where s1: "NextItem s = Inr s1" "looks_at (fml_tail f @ ?r) s1" by blast
  have l: "left s1 < left s" using left_NextItem(2) [OF s1(1)] s(1) by (simp add: item_codes)
  obtain m where m: "n = Suc m" "2 * left s1 < m" using l Cons.prems(3) by (cases n) auto
  from fml_ok_reparses [OF ok(1)] fol s1(2) m(2) obtain s2 where
    s2: "ParseFeature m (bare_function (ff_type f)) s1 = Inr (f, s2)" "looks_at ?r s2" unfolding reparses_def by blast
  have "left s2 \<le> left s1" using settled_ParseFeature [OF m(2), of "bare_function (ff_type f)"] s2(1) by simp
  then have "parse_loop m (done @ [f]) s2 = Inr ((done @ [f]) @ fs)"
    using Cons.IH [OF ok(2) looks_at_space [OF s2(2) isspace_blank(2)], of m "done @ [f]"] m(2) by simp
  moreover have "fml_item_type s1 \<noteq> char_int (CHR ''='')"
  proof (cases "arguments_text (ff_argument f) (ff_parameter f) = []")
    case True
    then have "looks_at (features_text (ff_feature f) @ ?r) s1" using s1(2) by (simp add: fml_tail_def)
    then show ?thesis by (rule features_follow_item(5) [OF fol])
  next
    case False
    then obtain z where "arguments_text (ff_argument f) (ff_parameter f) = CHR ''('' # z" by (auto simp: arguments_text_def split: if_splits)
    then have "fml_item_type s1 = char_int (CHR ''('')" using looks_at_items(2) [of "CHR ''(''" _ s1] s1(2) by (auto simp: fml_tail_def single_def)
    then show ?thesis by (simp add: item_codes)
  qed
  ultimately show ?case using m(1) s(1,2) s1(1) s2(1) by (simp add: item_codes)
qed

text \<open>What the printer shows of a descriptor, and the descriptors whose text the language can express.\<close>

fun unnamed :: "feature_function \<Rightarrow> feature_function" where
  "unnamed (FeatureFunction type name arg params features) =
     FeatureFunction type None (if arg = Some 0 then None else arg) params (map unnamed features)"

fun fml_printable :: "feature_function \<Rightarrow> bool" where
  "fml_printable (FeatureFunction type name arg params features) \<longleftrightarrow>
     fml_name type \<and> (case arg of None \<Rightarrow> True | Some a \<Rightarrow> int32_range a) \<and>
     list_all fml_parameter_ok params \<and> list_all fml_printable features"

lemma fml_ok_unnamed: "fml_printable f \<Longrightarrow> fml_ok (unnamed f)"
  by (induction f rule: feature_function.induct) (auto simp: list_all_iff split: option.splits)

lemma ToFML_unnamed: "ToFML (unnamed f) = ToFML f"
proof (induction f rule: feature_function.induct)
  case (FeatureFunction t nm a ps fs)
  have b: "ToFML_block (map unnamed gs) = ToFML_block gs" if "set gs \<subseteq> set fs" for gs
    using that FeatureFunction.IH by (induction gs) simp_all
  have f: "ToFMLFunction (FeatureFunction t None (if a = Some 0 then None else a) ps gs) = ToFMLFunction (FeatureFunction t nm a ps fs)" for gs
    by (simp add: ToFMLFunction_def argument_def)
  show ?case using b [of "tl (tl fs)"] FeatureFunction.IH unfolding unnamed.simps ToFML.simps f
    by (cases fs rule: remdups_adj.cases) (simp_all, blast)
qed

lemma AsFML_unnamed: "AsFML (map unnamed fs) = AsFML fs"
  by (induction fs) (simp_all add: ToFML_unnamed)

text \<open>C23: The feature language round trip. Parsing the text that \<open>AsFML\<close> prints for a feature
  extractor gives back the extractor without the names of its features, which the printer omits, and
  with an argument 0 absent, which means the same: for every descriptor, with or without names, whose types
  and parameter names are identifiers of the language, whose parameter values hold no quotation mark
  and whose arguments are 32-bit integers. No input at all exhausts the fuel of the parser.\<close>

theorem fml_roundtrip:
  assumes "list_all fml_printable extractor"
  shows "fml_Parse (AsFML extractor) = Inr (map unnamed extractor) \<and> fml_Parse source \<noteq> Inl Out_of_fuel"
proof -
  let ?e = "map unnamed extractor"
  have ok: "list_all fml_ok ?e" using assms by (auto simp: list_all_iff fml_ok_unnamed)
  let ?t = "AsFML ?e"
  let ?s0 = "\<lparr>fml_source = ?t, fml_rest = ?t, fml_line_number = 1, fml_item_start = 0,
       fml_line_start = 0, fml_item_line_number = 1, fml_item_type = fml_END, fml_item_text = []\<rparr>"
  have "lexable ?t"
    using ok lexable_items(1) by (cases ?e)
      (auto simp: ToFML_tail delimited_def not_name_char isspace_blank intro!: lexable_items(3) fml_okD delimited_tail)
  from NextItem_looks_at [OF this, of ?s0] obtain s where s: "NextItem ?s0 = Inr s" "looks_at ?t s" by auto
  have "left s \<le> length ?t" using left_rest_NextItem [OF s(1)] by simp
  then have "parse_loop (2 * length ?t + 2) [] s = Inr ([] @ ?e)" by (intro parse_loop_print [OF ok s(2)]) simp
  then show ?thesis using s(1) fml_Parse_fuel unfolding AsFML_unnamed
    by (simp add: fml_Parse_def fml_Initialize_def del: parse_loop.simps)
qed

theorem fml_roundtrip_witness:
  "fml_Parse (AsFML [FeatureFunction ''input'' (Some ''first'') (Some (- 2)) [\<lparr>par_name = ''min-freq'', par_value = ''2''\<rparr>]
      [FeatureFunction ''word'' (Some ''w'') None [] [], FeatureFunction ''tag'' None (Some 0) [] []]]) =
     Inr [FeatureFunction ''input'' None (Some (- 2)) [\<lparr>par_name = ''min-freq'', par_value = ''2''\<rparr>]
      [FeatureFunction ''word'' None None [] [], FeatureFunction ''tag'' None None [] []]] \<and>
   fml_Parse ''bias(+1)'' \<noteq> Inl Out_of_fuel"
  using fml_roundtrip [of "[FeatureFunction ''input'' (Some ''first'') (Some (- 2)) [\<lparr>par_name = ''min-freq'', par_value = ''2''\<rparr>]
      [FeatureFunction ''word'' (Some ''w'') None [] [], FeatureFunction ''tag'' None (Some 0) [] []]]" "''bias(+1)''"]
  by (simp add: fml_name_def fml_parameter_ok_def name_char_def isalnum_def isalpha_def isdigit_def int32_range_def
      del: AsFML.simps)

end
