(* ===== verification/Affix_Table.thy ===== *)
theory Affix_Table
  imports Segmenter_Utils
begin

unbundle bit_operations_syntax

text \<open>
  Affix tables (\<^verbatim>\<open>src/syntaxnet/affix.h\<close>, \<^verbatim>\<open>affix.cc\<close>): the prefixes or suffixes of the words added to
  the table, in a hash table with chaining that grows by \<open>Resize\<close>.

  The objects \<open>Affix\<close> live in the vector \<open>affixes_\<close> at the index of their id, so a pointer to an affix
  is its id, and \<open>shorter_\<close> and \<open>next_\<close> are ids in an explicit store. The walk along a bucket chain
  takes fuel, one step per affix of the table; the invariant shows that it is enough. An iterator
  over a text is a byte offset.

  Lemmas: the invariant (every bucket chain holds exactly the affixes that hash to the bucket, latest
  first; forms are distinct and hold no NUL byte) is kept by every operation, lookup refines the
  search in the list of forms, and the chain of shorter affixes of a word is complete.
\<close>

section \<open>The table\<close>

datatype affix_type = PREFIX | SUFFIX

record affix =
  affix_length :: int
  affix_form :: string
  affix_shorter :: "nat option"
  affix_next :: "nat option"

record affix_table =
  at_type :: affix_type
  at_max_length :: int
  at_affixes :: "affix list"
  at_buckets :: "nat option list"

definition kInitialBuckets :: int where "kInitialBuckets = 1024"
definition kFillFactor :: int where "kFillFactor = 2"

definition TermHash :: "string \<Rightarrow> int" where
  "TermHash term = sint (Hash32 term 0xDECAF)"

definition new_affix :: "string \<Rightarrow> int \<Rightarrow> affix" where
  "new_affix form len = \<lparr>affix_length = len, affix_form = c_str form, affix_shorter = None, affix_next = None\<rparr>"

text \<open>\<open>affix->next_ = buckets_[b]; buckets_[b] = affix;\<close>\<close>

definition push_bucket :: "int \<Rightarrow> nat \<Rightarrow> affix_table \<Rightarrow> affix_table option" where
  "push_bucket b i t = do {
     first \<leftarrow> vec_at (at_buckets t) b;
     affix \<leftarrow> vec_at (at_affixes t) (int i);
     affixes \<leftarrow> vec_set (at_affixes t) (int i) (affix\<lparr>affix_next := first\<rparr>);
     buckets \<leftarrow> vec_set (at_buckets t) b (Some i);
     Some (t\<lparr>at_affixes := affixes, at_buckets := buckets\<rparr>) }"

function double_until :: "int \<Rightarrow> int \<Rightarrow> int" where
  "double_until new_size size_hint =
     (if 0 < new_size \<and> new_size < size_hint then double_until (new_size * 2) size_hint else new_size)"
  by pat_completeness auto
termination
  by (relation "measure (\<lambda>(n, h). nat (h - n))") auto

declare double_until.simps [simp del]

definition Resize :: "int \<Rightarrow> affix_table \<Rightarrow> affix_table option" where
  "Resize size_hint t =
     (let new_size = double_until kInitialBuckets size_hint;
          mask = new_size - 1;
          t = t\<lparr>at_buckets := replicate (nat new_size) None\<rparr>
      in foreach (\<lambda>i t. do {
           affix \<leftarrow> vec_at (at_affixes t) (int i);
           push_bucket (TermHash (affix_form affix) AND mask) i t }) [0..<length (at_affixes t)] t)"

definition new_AffixTable :: "affix_type \<Rightarrow> int \<Rightarrow> affix_table option" where
  "new_AffixTable type max_length =
     Resize 0 \<lparr>at_type = type, at_max_length = max_length, at_affixes = [], at_buckets = []\<rparr>"

definition affix_Reset :: "int \<Rightarrow> affix_table \<Rightarrow> affix_table option" where
  "affix_Reset max_length t = Resize 0 (t\<lparr>at_max_length := max_length, at_affixes := [], at_buckets := []\<rparr>)"

fun find_chain :: "nat \<Rightarrow> affix list \<Rightarrow> string \<Rightarrow> nat option \<Rightarrow> nat option option" where
  "find_chain 0 affixes form affix = None"
| "find_chain (Suc fuel) affixes form None = Some None"
| "find_chain (Suc fuel) affixes form (Some i) = do {
     affix \<leftarrow> vec_at affixes (int i);
     if c_str (affix_form affix) = c_str form then Some (Some i)
     else find_chain fuel affixes form (affix_next affix) }"

definition FindAffix :: "string \<Rightarrow> affix_table \<Rightarrow> nat option option" where
  "FindAffix form t = do {
     affix \<leftarrow> vec_at (at_buckets t) (TermHash form AND (int (length (at_buckets t)) - 1));
     find_chain (Suc (length (at_affixes t))) (at_affixes t) form affix }"

definition AddNewAffix :: "string \<Rightarrow> int \<Rightarrow> affix_table \<Rightarrow> (nat \<times> affix_table) option" where
  "AddNewAffix form len t = do {
     let n = length (at_affixes t);
     t \<leftarrow> (if int n > int (length (at_buckets t)) * kFillFactor then Resize (int n) t else Some t);
     let b = TermHash form AND (int (length (at_buckets t)) - 1);
     let t = t\<lparr>at_affixes := at_affixes t @ [new_affix form len]\<rparr>;
     t \<leftarrow> push_bucket b n t;
     Some (n, t) }"

definition GetAffix :: "int \<Rightarrow> affix_table \<Rightarrow> nat option" where
  "GetAffix i t = (if i < 0 \<or> i \<ge> int (length (at_affixes t)) then None else Some (nat i))"

definition AffixForm :: "int \<Rightarrow> affix_table \<Rightarrow> string" where
  "AffixForm i t = (case GetAffix i t of None \<Rightarrow> [] | Some k \<Rightarrow> affix_form (at_affixes t ! k))"

definition AffixId :: "string \<Rightarrow> affix_table \<Rightarrow> int option" where
  "AffixId form t = do {
     affix \<leftarrow> FindAffix form t;
     Some (case affix of None \<Rightarrow> -1 | Some i \<Rightarrow> int i) }"

definition set_shorter :: "nat \<Rightarrow> nat \<Rightarrow> affix_table \<Rightarrow> affix_table option" where
  "set_shorter i shorter t = do {
     affix \<leftarrow> vec_at (at_affixes t) (int i);
     affixes \<leftarrow> vec_set (at_affixes t) (int i) (affix\<lparr>affix_shorter := Some shorter\<rparr>);
     Some (t\<lparr>at_affixes := affixes\<rparr>) }"

section \<open>Adding the affixes of a word\<close>

definition UnicodeSubstring :: "string \<Rightarrow> nat \<Rightarrow> nat \<Rightarrow> string" where
  "UnicodeSubstring txt start stop = take (stop - start) (drop start txt)"

text \<open>The iterator operators \<open>++\<close> and \<open>--\<close>, on byte offsets.\<close>

definition it_next :: "string \<Rightarrow> nat \<Rightarrow> nat option" where
  "it_next txt i = do { b \<leftarrow> vec_at txt (int i); Some (i + OneCharLen b) }"

fun it_prev :: "string \<Rightarrow> nat \<Rightarrow> nat option" where
  "it_prev txt 0 = None"
| "it_prev txt (Suc i) = do { b \<leftarrow> vec_at txt (int i); if IsTrailByte b then it_prev txt i else Some i }"

fun it_steps :: "(nat \<Rightarrow> nat option) \<Rightarrow> nat \<Rightarrow> nat \<Rightarrow> nat option" where
  "it_steps step 0 i = Some i"
| "it_steps step (Suc n) i = do { i \<leftarrow> step i; it_steps step n i }"

definition link_ancestor :: "nat option \<Rightarrow> nat \<Rightarrow> affix_table \<Rightarrow> affix_table option" where
  "link_ancestor ancestor affix t = (case ancestor of None \<Rightarrow> Some t | Some i \<Rightarrow> set_shorter i affix t)"

fun affix_loop ::
  "nat \<Rightarrow> string \<Rightarrow> nat \<Rightarrow> nat \<Rightarrow> nat option \<Rightarrow> nat option \<Rightarrow> affix_table \<Rightarrow> (nat option \<times> affix_table) option" where
  "affix_loop 0 txt start stop top_affix ancestor t = Some (top_affix, t)"
| "affix_loop (Suc n) txt start stop top_affix ancestor t = do {
     let s = UnicodeSubstring txt start stop;
     found \<leftarrow> FindAffix s t;
     case found of
       None \<Rightarrow> do {
         (affix, t) \<leftarrow> AddNewAffix s (int (Suc n)) t;
         t \<leftarrow> link_ancestor ancestor affix t;
         let top_affix = (if top_affix = None then Some affix else top_affix);
         start' \<leftarrow> (if at_type t = PREFIX then Some start else it_next txt start);
         stop' \<leftarrow> (if at_type t = PREFIX then it_prev txt stop else Some stop);
         affix_loop n txt start' stop' top_affix (Some affix) t }
     | Some affix \<Rightarrow> do {
         t \<leftarrow> link_ancestor ancestor affix t;
         Some (if top_affix = None then Some affix else top_affix, t) } }"

definition AddAffixesForWord :: "string \<Rightarrow> affix_table \<Rightarrow> (nat option \<times> affix_table) option" where
  "AddAffixesForWord word t = do {
     let txt = PointToUTF8 word;
     let len = int (ut_size txt);
     let affix_len = (if len > at_max_length t then at_max_length t else len);
     if affix_len = 0 then Some (None, t)
     else do {
       start \<leftarrow> (if at_type t = PREFIX then Some 0 else it_steps (it_prev txt) (nat affix_len) (length txt));
       stop \<leftarrow> (if at_type t = PREFIX then it_steps (it_next txt) (nat affix_len) 0 else Some (length txt));
       affix_loop (nat affix_len) txt start stop None None t } }"

section \<open>Serialization\<close>

record affix_entry =
  ae_form :: string
  ae_length :: int
  ae_shorter_id :: int

record affix_table_entry =
  ate_type :: string
  ate_max_length :: int
  ate_affix :: "affix_entry list"

definition type_name :: "affix_type \<Rightarrow> string" where
  "type_name ty = (if ty = PREFIX then ''PREFIX'' else ''SUFFIX'')"

fun read_affixes :: "nat \<Rightarrow> affix_entry list \<Rightarrow> affix_table \<Rightarrow> affix_table option" where
  "read_affixes affix_id [] t = Some t"
| "read_affixes affix_id (e # es) t = do {
     check (ae_length e \<ge> 0);
     check (ae_length e \<le> at_max_length t);
     found \<leftarrow> FindAffix (ae_form e) t;
     check (found = None);
     (affix, t) \<leftarrow> AddNewAffix (ae_form e) (ae_length e) t;
     check (affix = affix_id);
     read_affixes (Suc affix_id) es t }"

fun link_affixes :: "nat \<Rightarrow> affix_entry list \<Rightarrow> affix_table \<Rightarrow> affix_table option" where
  "link_affixes affix_id [] t = Some t"
| "link_affixes affix_id (e # es) t =
     (if ae_shorter_id e = -1 then do {
        check (ae_length e = 1);
        link_affixes (Suc affix_id) es t }
      else do {
        check (ae_length e > 1);
        check (ae_shorter_id e \<ge> 0);
        check (ae_shorter_id e < int (length (at_affixes t)));
        affix \<leftarrow> vec_at (at_affixes t) (int affix_id);
        shorter \<leftarrow> vec_at (at_affixes t) (ae_shorter_id e);
        check (affix_length affix = affix_length shorter + 1);
        t \<leftarrow> set_shorter affix_id (nat (ae_shorter_id e)) t;
        link_affixes (Suc affix_id) es t })"

definition affix_Read :: "affix_table_entry \<Rightarrow> affix_table \<Rightarrow> affix_table option" where
  "affix_Read table_entry t = do {
     check (ate_type table_entry = type_name (at_type t));
     check (ate_max_length table_entry \<ge> 0);
     t \<leftarrow> affix_Reset (ate_max_length table_entry) t;
     t \<leftarrow> read_affixes 0 (ate_affix table_entry) t;
     check (length (at_affixes t) = length (ate_affix table_entry));
     link_affixes 0 (ate_affix table_entry) t }"

definition affix_Write :: "affix_table \<Rightarrow> affix_table_entry" where
  "affix_Write t =
     \<lparr>ate_type = type_name (at_type t), ate_max_length = at_max_length t,
      ate_affix = map (\<lambda>a. \<lparr>ae_form = affix_form a, ae_length = affix_length a,
        ae_shorter_id = (case affix_shorter a of None \<Rightarrow> -1 | Some i \<Rightarrow> int i)\<rparr>) (at_affixes t)\<rparr>"

section \<open>The invariant\<close>

fun chain :: "affix list \<Rightarrow> nat option \<Rightarrow> nat list \<Rightarrow> bool" where
  "chain as p [] \<longleftrightarrow> p = None"
| "chain as p (i # is) \<longleftrightarrow> p = Some i \<and> i < length as \<and> chain as (affix_next (as ! i)) is"

definition bucket :: "affix_table \<Rightarrow> string \<Rightarrow> nat" where
  "bucket t form = nat (TermHash form AND (int (length (at_buckets t)) - 1))"

definition forms :: "affix_table \<Rightarrow> string list" where
  "forms t = map affix_form (at_affixes t)"

text \<open>The first \<open>k\<close> affixes are in their bucket chains.\<close>

definition chained :: "nat \<Rightarrow> affix_table \<Rightarrow> bool" where
  "chained k t \<longleftrightarrow> k \<le> length (at_affixes t) \<and> at_buckets t \<noteq> [] \<and>
     (\<forall>b < length (at_buckets t).
        chain (at_affixes t) (at_buckets t ! b) (filter (\<lambda>i. bucket t (forms t ! i) = b) (rev [0..<k])))"

definition table_inv :: "affix_table \<Rightarrow> bool" where
  "table_inv t \<longleftrightarrow> chained (length (at_affixes t)) t \<and> distinct (forms t) \<and> (\<forall>f \<in> set (forms t). c_str f = f)"

text \<open>What a client sees of a table: forms, lengths and links to shorter affixes.\<close>

definition entries :: "affix_table \<Rightarrow> (string \<times> int \<times> nat option) list" where
  "entries t = map (\<lambda>a. (affix_form a, affix_length a, affix_shorter a)) (at_affixes t)"

lemma forms_entries: "forms t = map fst (entries t)"
  by (simp add: forms_def entries_def)

lemma length_entries [simp]: "length (entries t) = length (at_affixes t)" "length (forms t) = length (at_affixes t)"
  by (simp_all add: entries_def forms_def)

lemma bucket_less: "at_buckets t \<noteq> [] \<Longrightarrow> bucket t form < length (at_buckets t)"
  and bucket_int: "at_buckets t \<noteq> [] \<Longrightarrow> int (bucket t form) = TermHash form AND (int (length (at_buckets t)) - 1)"
proof -
  assume b: "at_buckets t \<noteq> []"
  then have n: "0 \<le> int (length (at_buckets t)) - 1" by (cases "at_buckets t") auto
  then have "0 \<le> TermHash form AND (int (length (at_buckets t)) - 1)" by simp
  moreover have "TermHash form AND (int (length (at_buckets t)) - 1) \<le> int (length (at_buckets t)) - 1" by (rule AND_upper2 [OF n])
  ultimately show "bucket t form < length (at_buckets t)" "int (bucket t form) = TermHash form AND (int (length (at_buckets t)) - 1)"
    unfolding bucket_def by linarith+
qed

lemma chain_cong:
  assumes "chain as p is" and "\<And>i. i \<in> set is \<Longrightarrow> i < length bs \<and> affix_next (bs ! i) = affix_next (as ! i)"
  shows "chain bs p is"
  using assms by (induction "is" arbitrary: p) auto

lemma push_bucket_chained:
  assumes "chained k t" and "k < length (at_affixes t)" and "b = TermHash (forms t ! k) AND (int (length (at_buckets t)) - 1)"
  shows "\<exists>t'. push_bucket b k t = Some t' \<and> chained (Suc k) t' \<and> entries t' = entries t \<and>
    length (at_buckets t') = length (at_buckets t) \<and> at_type t' = at_type t \<and> at_max_length t' = at_max_length t"
proof -
  have ne: "at_buckets t \<noteq> []" using assms(1) by (simp add: chained_def)
  let ?b = "bucket t (forms t ! k)" and ?as = "at_affixes t"
  have b: "b = int ?b" "?b < length (at_buckets t)" using bucket_int [OF ne] bucket_less [OF ne] assms(3) by simp_all
  define as' where "as' = ?as[k := (?as ! k)\<lparr>affix_next := at_buckets t ! ?b\<rparr>]"
  define t' where "t' = t\<lparr>at_affixes := as', at_buckets := (at_buckets t)[?b := Some k]\<rparr>"
  have p: "push_bucket b k t = Some t'" using b assms(2) by (simp add: push_bucket_def t'_def as'_def)
  have e: "entries t' = entries t" using assms(2) by (simp add: entries_def t'_def as'_def map_update list_update_same_conv)
  then have f: "forms t' = forms t" by (simp add: forms_entries)
  have bk: "bucket t' form = bucket t form" for form by (simp add: bucket_def t'_def)
  have old: "chain as' (at_buckets t ! c) (filter (\<lambda>i. bucket t (forms t ! i) = c) (rev [0..<k]))" if "c < length (at_buckets t)" for c
  proof (rule chain_cong)
    show "chain ?as (at_buckets t ! c) (filter (\<lambda>i. bucket t (forms t ! i) = c) (rev [0..<k]))"
      using assms(1) that by (simp add: chained_def)
  qed (use assms(2) in \<open>auto simp: as'_def\<close>)
  have "chain as' ((at_buckets t)[?b := Some k] ! c) (filter (\<lambda>i. bucket t (forms t ! i) = c) (rev [0..<Suc k]))"
    if "c < length (at_buckets t)" for c
    using old [OF that] that assms(2) b(2) by (cases "c = ?b") (auto simp: as'_def)
  then have "chained (Suc k) t'" using assms(2) ne b(2)
    unfolding chained_def f bk by (simp add: t'_def as'_def)
  then show ?thesis using p e by (auto simp: t'_def)
qed

lemma foreach_push:
  assumes "chained k t" and "msk = int (length (at_buckets t)) - 1" and "k + m = length (at_affixes t)"
  shows "\<exists>t'. foreach (\<lambda>i t. do { affix \<leftarrow> vec_at (at_affixes t) (int i); push_bucket (TermHash (affix_form affix) AND msk) i t }) [k..<k + m] t = Some t' \<and>
    chained (k + m) t' \<and> entries t' = entries t \<and> length (at_buckets t') = length (at_buckets t) \<and>
    at_type t' = at_type t \<and> at_max_length t' = at_max_length t"
  using assms
proof (induction m arbitrary: k t)
  case (Suc m)
  have k: "k < length (at_affixes t)" using Suc.prems(3) by simp
  then have f: "affix_form (at_affixes t ! k) = forms t ! k" by (simp add: forms_def)
  from push_bucket_chained [OF Suc.prems(1) k refl] obtain t1 where
    t1: "push_bucket (TermHash (forms t ! k) AND msk) k t = Some t1" "chained (Suc k) t1" "entries t1 = entries t"
      "length (at_buckets t1) = length (at_buckets t)" "at_type t1 = at_type t" "at_max_length t1 = at_max_length t"
    using Suc.prems(2) by auto
  have l: "Suc k + m = length (at_affixes t1)" using t1(3) Suc.prems(3) by (metis length_entries(1) add_Suc_shift)
  from Suc.IH [OF t1(2) _ l] t1(4) Suc.prems(2) obtain t' where
    t': "foreach (\<lambda>i t. do { affix \<leftarrow> vec_at (at_affixes t) (int i); push_bucket (TermHash (affix_form affix) AND msk) i t }) [Suc k..<Suc k + m] t1 = Some t'"
      "chained (Suc k + m) t'" "entries t' = entries t1" "length (at_buckets t') = length (at_buckets t1)" "at_type t' = at_type t1" "at_max_length t' = at_max_length t1"
    by auto
  have "[k..<k + Suc m] = k # [Suc k..<Suc k + m]" by (simp add: upt_rec)
  then show ?case using k f t1 t' by simp
qed simp

lemma double_until_ge: "0 < n \<Longrightarrow> n \<le> double_until n h"
proof (induction n h rule: double_until.induct)
  case (1 n h)
  show ?case
  proof (cases "n < h")
    case True
    then have "n * 2 \<le> double_until (n * 2) h" using 1 by simp
    then show ?thesis using 1 True by (subst double_until.simps) simp
  qed (use 1 in \<open>subst double_until.simps, simp\<close>)
qed

lemma Resize_chained:
  "\<exists>t'. Resize h t = Some t' \<and> chained (length (at_affixes t)) t' \<and> entries t' = entries t \<and>
     at_type t' = at_type t \<and> at_max_length t' = at_max_length t"
proof -
  let ?n = "double_until kInitialBuckets h"
  let ?t = "t\<lparr>at_buckets := replicate (nat ?n) None\<rparr>"
  have n: "0 < ?n" using double_until_ge [of kInitialBuckets h] by (simp add: kInitialBuckets_def)
  then have "chained 0 ?t" by (simp add: chained_def)
  then show ?thesis using foreach_push [of 0 ?t "?n - 1" "length (at_affixes t)"] n
    by (auto simp: Resize_def Let_def entries_def)
qed

section \<open>The operations keep the invariant\<close>

lemma table_inv_entries:
  assumes "chained (length (at_affixes t)) t" and "distinct (map fst (entries t))" and "\<forall>f \<in> set (map fst (entries t)). c_str f = f"
  shows "table_inv t"
  using assms by (simp add: table_inv_def forms_entries)

lemma table_invD:
  assumes "table_inv t"
  shows "chained (length (at_affixes t)) t" "distinct (map fst (entries t))" "\<forall>f \<in> set (map fst (entries t)). c_str f = f"
  using assms by (simp_all add: table_inv_def forms_entries)

lemma new_AffixTable_inv:
  "\<exists>t. new_AffixTable ty n = Some t \<and> table_inv t \<and> entries t = [] \<and> at_type t = ty \<and> at_max_length t = n"
proof -
  let ?t = "\<lparr>at_type = ty, at_max_length = n, at_affixes = [], at_buckets = []\<rparr>"
  obtain t' where t': "Resize 0 ?t = Some t'" "chained 0 t'" "entries t' = []" "at_type t' = ty" "at_max_length t' = n"
    using Resize_chained [of 0 ?t] by (auto simp: entries_def)
  have "table_inv t'" using t'(2,3) by (intro table_inv_entries) (simp_all add: entries_def)
  then show ?thesis using t' by (simp add: new_AffixTable_def)
qed

lemma affix_Reset_inv:
  "\<exists>t'. affix_Reset n t = Some t' \<and> table_inv t' \<and> entries t' = [] \<and> at_type t' = at_type t \<and> at_max_length t' = n"
  using new_AffixTable_inv [of "at_type t" n] Resize_chained
proof -
  obtain t' where t': "Resize 0 (t\<lparr>at_max_length := n, at_affixes := [], at_buckets := []\<rparr>) = Some t'" "chained 0 t'" "entries t' = []"
    "at_type t' = at_type t" "at_max_length t' = n"
    using Resize_chained [of 0 "t\<lparr>at_max_length := n, at_affixes := [], at_buckets := []\<rparr>"] by (auto simp: entries_def)
  have "table_inv t'" using t'(2,3) by (intro table_inv_entries) (simp_all add: entries_def)
  then show ?thesis using t' by (simp add: affix_Reset_def)
qed

lemma find_unique:
  assumes "x \<in> set xs" and "P x" and "\<And>y. y \<in> set xs \<Longrightarrow> P y \<Longrightarrow> y = x"
  shows "List.find P xs = Some x"
  using assms
proof (induction xs)
  case (Cons a xs)
  show ?case
  proof (cases "P a")
    case True
    then have "a = x" using Cons.prems(3) [of a] by simp
    then show ?thesis using True by simp
  next
    case False
    then have "x \<in> set xs" using Cons.prems(1,2) by auto
    then have "List.find P xs = Some x"
      by (rule Cons.IH [OF _ Cons.prems(2)]) (rule Cons.prems(3), simp_all)
    then show ?thesis using False by simp
  qed
qed simp

text \<open>The specification of lookup: the position of a form in the list of forms.\<close>

definition position :: "string \<Rightarrow> (string \<times> int \<times> nat option) list \<Rightarrow> nat option" where
  "position form es = List.find (\<lambda>i. fst (es ! i) = form) [0..<length es]"

lemma position_Some:
  assumes "distinct (map fst es)"
  shows "position form es = Some i \<longleftrightarrow> i < length es \<and> fst (es ! i) = form"
proof
  assume "position form es = Some i"
  then show "i < length es \<and> fst (es ! i) = form" by (auto simp: position_def find_Some_iff)
next
  assume i: "i < length es \<and> fst (es ! i) = form"
  then have "j = i" if "j < length es" "fst (es ! j) = form" for j
    using that nth_eq_iff_index_eq [OF assms, of j i] by simp
  then show "position form es = Some i" using i unfolding position_def by (intro find_unique) auto
qed

lemma position_None: "position form es = None \<longleftrightarrow> form \<notin> set (map fst es)"
proof -
  have "position form es = None \<longleftrightarrow> (\<forall>i < length es. map fst es ! i \<noteq> form)" by (simp add: position_def find_None_iff)
  then show ?thesis by (auto simp: in_set_conv_nth simp del: set_map)
qed

lemma find_chain_find:
  assumes "chain as p is" and "length is < fuel"
  shows "find_chain fuel as form p = Some (List.find (\<lambda>i. c_str (affix_form (as ! i)) = c_str form) is)"
  using assms
proof (induction "is" arbitrary: p fuel)
  case (Cons i "is")
  then show ?case by (cases fuel) auto
qed (metis chain.simps(1) find.simps(1) find_chain.simps(2) less_imp_Suc_add list.size(3) add_0)

lemma FindAffix_position:
  assumes "table_inv t" and "c_str form = form"
  shows "FindAffix form t = Some (position form (entries t))"
proof -
  let ?as = "at_affixes t" and ?b = "bucket t form"
  let ?is = "filter (\<lambda>i. bucket t (forms t ! i) = ?b) (rev [0..<length ?as])"
  note inv = table_invD [OF assms(1)]
  have ne: "at_buckets t \<noteq> []" using inv(1) by (simp add: chained_def)
  have ch: "chain ?as (at_buckets t ! ?b) ?is" using inv(1) bucket_less [OF ne] by (simp add: chained_def)
  have len: "length ?is < Suc (length ?as)" using length_filter_le [of _ "rev [0..<length ?as]"] by (simp add: less_Suc_eq_le)
  have f: "c_str (affix_form (?as ! i)) = fst (entries t ! i)" if "i < length ?as" for i
    using inv(3) that by (auto simp: entries_def)
  have "List.find (\<lambda>i. c_str (affix_form (?as ! i)) = c_str form) ?is = position form (entries t)"
  proof (cases "position form (entries t)")
    case None
    then have "form \<notin> set (map fst (entries t))" by (simp add: position_None)
    then have "fst (entries t ! i) \<noteq> form" if "i < length ?as" for i using that nth_mem [of i "entries t"] by force
    then show ?thesis using None f assms(2) by (auto simp: find_None_iff)
  next
    case (Some i)
    then have i: "i < length ?as" "fst (entries t ! i) = form" by (simp_all add: position_Some [OF inv(2)])
    have u: "j = i" if "j < length ?as" "fst (entries t ! j) = form" for j
      using that i nth_eq_iff_index_eq [OF inv(2), of j i] by simp
    have "i \<in> set ?is" using i by (simp add: forms_entries)
    moreover have "c_str (affix_form (?as ! j)) = c_str form \<longleftrightarrow> j = i" if "j \<in> set ?is" for j
      using that f [of j] u [of j] i assms(2) by auto
    ultimately have "List.find (\<lambda>i. c_str (affix_form (?as ! i)) = c_str form) ?is = Some i"
      by (intro find_unique) blast+
    then show ?thesis using Some by simp
  qed
  moreover have "FindAffix form t = find_chain (Suc (length ?as)) ?as form (at_buckets t ! ?b)"
    using bucket_less [OF ne, of form] bucket_int [OF ne, of form, symmetric] by (simp add: FindAffix_def)
  ultimately show ?thesis using find_chain_find [OF ch len] by simp
qed

lemma c_str_idem: "c_str form = form \<Longrightarrow> affix_form (new_affix form n) = form"
  by (simp add: new_affix_def)

lemma AddNewAffix_inv:
  assumes "table_inv t" and "c_str form = form" and "form \<notin> set (map fst (entries t))"
  shows "\<exists>t'. AddNewAffix form n t = Some (length (entries t), t') \<and> table_inv t' \<and> entries t' = entries t @ [(form, n, None)] \<and>
    at_type t' = at_type t \<and> at_max_length t' = at_max_length t"
proof -
  let ?k = "length (at_affixes t)"
  note inv = table_invD [OF assms(1)]
  obtain t1 where t1: "(if int ?k > int (length (at_buckets t)) * kFillFactor then Resize (int ?k) t else Some t) = Some t1"
    "chained ?k t1" "entries t1 = entries t" "at_type t1 = at_type t" "at_max_length t1 = at_max_length t"
    using Resize_chained [of "int ?k" t] inv(1) by (cases "int ?k > int (length (at_buckets t)) * kFillFactor") auto
  have l1: "length (at_affixes t1) = ?k" using t1(3) by (metis length_entries(1))
  define t2 where "t2 = t1\<lparr>at_affixes := at_affixes t1 @ [new_affix form n]\<rparr>"
  have f2: "forms t2 = forms t1 @ [form]" using assms(2) by (simp add: forms_def t2_def c_str_idem)
  have bk: "bucket t2 g = bucket t1 g" for g by (simp add: bucket_def t2_def)
  have "chained ?k t2"
    unfolding chained_def
  proof (intro conjI allI impI)
    fix b
    assume b: "b < length (at_buckets t2)"
    have e: "filter (\<lambda>i. bucket t2 (forms t2 ! i) = b) (rev [0..<?k]) = filter (\<lambda>i. bucket t1 (forms t1 ! i) = b) (rev [0..<?k])"
      by (rule filter_cong) (use l1 in \<open>auto simp: f2 nth_append bk\<close>)
    show "chain (at_affixes t2) (at_buckets t2 ! b) (filter (\<lambda>i. bucket t2 (forms t2 ! i) = b) (rev [0..<?k]))"
      unfolding e
    proof (rule chain_cong [of "at_affixes t1"])
      show "chain (at_affixes t1) (at_buckets t2 ! b) (filter (\<lambda>i. bucket t1 (forms t1 ! i) = b) (rev [0..<?k]))"
        using t1(2) b by (simp add: chained_def t2_def)
    qed (use l1 in \<open>auto simp: t2_def nth_append\<close>)
  qed (use t1(2) l1 in \<open>auto simp: t2_def chained_def\<close>)
  moreover have "?k < length (at_affixes t2)" using l1 by (simp add: t2_def)
  moreover have "forms t2 ! ?k = form" using f2 l1 by (simp add: nth_append)
  ultimately obtain t3 where t3: "push_bucket (TermHash form AND (int (length (at_buckets t1)) - 1)) ?k t2 = Some t3" "chained (Suc ?k) t3"
    "entries t3 = entries t2" "at_type t3 = at_type t2" "at_max_length t3 = at_max_length t2"
    using push_bucket_chained [of ?k t2] by (auto simp: t2_def)
  have e3: "entries t3 = entries t @ [(form, n, None)]"
    using t3(3) t1(3) assms(2) by (simp add: entries_def t2_def new_affix_def)
  then have "length (at_affixes t3) = Suc ?k" by (metis length_entries(1) length_append_singleton)
  then have "table_inv t3" using t3(2) e3 inv assms by (intro table_inv_entries) auto
  then show ?thesis using t1 t3 e3 by (simp add: AddNewAffix_def t2_def)
qed

lemma set_shorter_inv:
  assumes "table_inv t" and "i < length (entries t)"
  shows "\<exists>t'. set_shorter i j t = Some t' \<and> table_inv t' \<and>
    entries t' = (entries t)[i := (fst (entries t ! i), fst (snd (entries t ! i)), Some j)] \<and>
    at_type t' = at_type t \<and> at_max_length t' = at_max_length t"
proof -
  let ?a = "at_affixes t ! i"
  define t' where "t' = t\<lparr>at_affixes := (at_affixes t)[i := ?a\<lparr>affix_shorter := Some j\<rparr>]\<rparr>"
  have i: "i < length (at_affixes t)" using assms(2) by simp
  have s: "set_shorter i j t = Some t'" using i by (simp add: set_shorter_def t'_def)
  have e: "entries t' = (entries t)[i := (fst (entries t ! i), fst (snd (entries t ! i)), Some j)]"
    using i by (simp add: entries_def t'_def map_update)
  then have "map fst (entries t') = map fst (entries t)" using assms(2) by (simp add: map_update list_update_same_conv)
  moreover have "chained (length (at_affixes t')) t'"
  proof -
    have f: "forms t' = forms t" by (simp add: forms_entries \<open>map fst (entries t') = map fst (entries t)\<close>)
    have n: "affix_next (at_affixes t' ! k) = affix_next (at_affixes t ! k)" for k
      using i by (cases "k = i") (simp_all add: t'_def)
    have b: "bucket t' = bucket t" by (simp add: fun_eq_iff bucket_def t'_def)
    show ?thesis using table_invD(1) [OF assms(1)] unfolding chained_def f b
      by (auto simp: t'_def n [unfolded t'_def, simplified] intro: chain_cong)
  qed
  ultimately have "table_inv t'" using table_invD [OF assms(1)] by (simp add: table_inv_def forms_entries)
  then show ?thesis using s e by (auto simp: t'_def)
qed

section \<open>The affixes of a word\<close>

lemma good_char_bytes:
  assumes "good_char c"
  shows "\<not> IsTrailByte (hd c)" "b \<in> set (tl c) \<Longrightarrow> IsTrailByte b" "c_str c = c"
proof -
  obtain r where r: "utf8_char c r" "IsInterchangeValid r" using assms by (auto simp: good_char_def)
  note bytes = utf8_char_bytes [OF r(1)]
  have t: "trail b \<longleftrightarrow> IsTrailByte b" for b by (auto simp: IsTrailByte_eq trail_def)
  then show "\<not> IsTrailByte (hd c)" "b \<in> set (tl c) \<Longrightarrow> IsTrailByte b" using bytes(3,4) by auto
  have "byte b \<noteq> 0" if "b \<in> set c" for b
  proof (cases "b = hd c")
    case True
    show ?thesis
    proof
      assume z: "byte b = 0"
      then have "ubyte b = 0" by (simp add: ubyte_byte)
      with r(1) True have "r = 0" by cases auto
      then show False using r(2) by (simp add: IsInterchangeValid_def)
    qed
  next
    case False
    then have "b \<in> set (tl c)" using that by (cases c) auto
    then have "trail b" using bytes(4) by blast
    then show ?thesis by (auto simp: trail_def ubyte_byte)
  qed
  then show "c_str c = c" by (simp add: c_str_def)
qed

lemma c_str_concat: "list_all good_char cs \<Longrightarrow> c_str (concat cs) = concat cs"
proof -
  assume cs: "list_all good_char cs"
  have "byte b \<noteq> 0" if "c \<in> set cs" "b \<in> set c" for b c
  proof -
    have "c_str c = c" using good_char_bytes(3) cs that(1) by (auto simp: list_all_iff)
    then show ?thesis using that(2) by (simp add: c_str_def)
  qed
  then show ?thesis by (auto simp: c_str_def)
qed

lemma vec_at_nat: "i < length xs \<Longrightarrow> vec_at xs (int i) = Some (xs ! i)"
  by simp

lemma it_next_char: "good_char c \<Longrightarrow> it_next (pre @ c @ post) (length pre) = Some (length pre + length c)"
  using good_char_nonempty [of c] good_char_len [of c]
  by (cases c) (simp_all add: it_next_def vec_at_nat)

lemma it_prev_trail:
  assumes "\<forall>b \<in> set w. IsTrailByte b" and "\<not> IsTrailByte b"
  shows "it_prev (pre @ b # w @ post) (length pre + Suc (length w)) = Some (length pre)"
  using assms(1)
proof (induction w arbitrary: post rule: rev_induct)
  case Nil
  then show ?case using assms(2) vec_at_nat [of "length pre" "pre @ b # post"] by simp
next
  case (snoc x w)
  let ?t = "pre @ b # (w @ [x]) @ post" and ?i = "length pre + Suc (length w)"
  have "vec_at ?t (int ?i) = Some x" using vec_at_nat [of ?i ?t] by (simp add: nth_append)
  then have "it_prev ?t (Suc ?i) = it_prev ?t ?i" using snoc.prems by (simp only: it_prev.simps) simp
  then show ?case using snoc.IH [of "x # post"] snoc.prems by simp
qed

lemma it_prev_char: "good_char c \<Longrightarrow> it_prev (pre @ c @ post) (length pre + length c) = Some (length pre)"
  using it_prev_trail [of "tl c" "hd c" pre post] good_char_bytes(1,2) [of c] good_char_nonempty [of c] by (cases c) auto

text \<open>Offsets between characters.\<close>

definition off :: "string list \<Rightarrow> nat \<Rightarrow> nat" where
  "off cs k = length (concat (take k cs))"

lemma off_split: "k < length cs \<Longrightarrow> concat cs = concat (take k cs) @ cs ! k @ concat (drop (Suc k) cs)"
  by (metis append_take_drop_id concat.simps(2) concat_append Cons_nth_drop_Suc)

lemma off_Suc: "k < length cs \<Longrightarrow> off cs (Suc k) = off cs k + length (cs ! k)"
  by (simp add: off_def take_Suc_conv_app_nth)

lemma it_next_off: "list_all good_char cs \<Longrightarrow> k < length cs \<Longrightarrow> it_next (concat cs) (off cs k) = Some (off cs (Suc k))"
  using it_next_char [of "cs ! k" "concat (take k cs)" "concat (drop (Suc k) cs)"] off_split [of k cs] off_Suc [of k cs]
  by (simp add: off_def list_all_length)

lemma it_prev_off: "list_all good_char cs \<Longrightarrow> k < length cs \<Longrightarrow> it_prev (concat cs) (off cs (Suc k)) = Some (off cs k)"
  using it_prev_char [of "cs ! k" "concat (take k cs)" "concat (drop (Suc k) cs)"] off_split [of k cs] off_Suc [of k cs]
  by (simp add: off_def list_all_length)

lemma it_steps_next:
  "list_all good_char cs \<Longrightarrow> k + n \<le> length cs \<Longrightarrow> it_steps (it_next (concat cs)) n (off cs k) = Some (off cs (k + n))"
  by (induction n arbitrary: k) (simp_all add: it_next_off del: it_prev.simps)

lemma it_steps_prev:
  "list_all good_char cs \<Longrightarrow> n \<le> k \<Longrightarrow> k \<le> length cs \<Longrightarrow> it_steps (it_prev (concat cs)) n (off cs k) = Some (off cs (k - n))"
proof (induction n arbitrary: k)
  case (Suc n)
  then obtain k' where k: "k = Suc k'" by (cases k) auto
  then show ?case using Suc by (simp add: it_prev_off del: it_prev.simps)
qed simp

lemma substring_off:
  assumes "i \<le> j"
  shows "UnicodeSubstring (concat cs) (off cs i) (off cs j) = concat (drop i (take j cs))"
proof -
  have "take j cs = take i cs @ drop i (take j cs)" using assms by (metis append_take_drop_id min.absorb1 take_take)
  then have j: "concat (take j cs) = concat (take i cs) @ concat (drop i (take j cs))" by (metis concat_append)
  have "concat cs = concat (take j cs) @ concat (drop j cs)" by (metis append_take_drop_id concat_append)
  then have "concat cs = concat (take i cs) @ concat (drop i (take j cs)) @ concat (drop j cs)" using j by simp
  moreover have "off cs j - off cs i = length (concat (drop i (take j cs)))" using j by (simp add: off_def)
  ultimately show ?thesis by (simp add: UnicodeSubstring_def off_def)
qed

text \<open>The affix with \<open>k\<close> characters of a word with characters \<open>cs\<close>.\<close>

definition affix_of :: "affix_type \<Rightarrow> nat \<Rightarrow> string list \<Rightarrow> string list" where
  "affix_of ty k cs = (if ty = PREFIX then take k cs else drop (length cs - k) cs)"

lemma length_affix_of [simp]: "k \<le> length cs \<Longrightarrow> length (affix_of ty k cs) = k"
  by (simp add: affix_of_def)

lemma affix_of_affix: "j \<le> k \<Longrightarrow> k \<le> length cs \<Longrightarrow> affix_of ty j (affix_of ty k cs) = affix_of ty j cs"
  by (cases ty) (auto simp: affix_of_def min_def)

lemma affix_of_good: "list_all good_char cs \<Longrightarrow> list_all good_char (affix_of ty k cs)"
  by (auto simp: affix_of_def list_all_iff dest: in_set_takeD in_set_dropD)

lemma good_chars_unique:
  assumes "list_all good_char cs" and "list_all good_char ds" and "concat cs = concat ds"
  shows "cs = ds"
  using assms
proof (induction cs arbitrary: ds)
  case Nil
  then show ?case using good_char_nonempty by (cases ds) auto
next
  case (Cons c cs)
  have c: "c \<noteq> []" "OneCharLen (hd c) = length c" using Cons.prems(1) good_char_nonempty good_char_len by auto
  obtain d ds' where ds: "ds = d # ds'" using Cons.prems(3) c(1) by (cases ds) auto
  have d: "d \<noteq> []" "OneCharLen (hd d) = length d" using Cons.prems(2) ds good_char_nonempty good_char_len by auto
  have eq: "c @ concat cs = d @ concat ds'" using Cons.prems(3) ds by simp
  then have "hd c = hd d" using c(1) d(1) by (metis hd_append2)
  then have "length c = length d" using c(2) d(2) by simp
  then have "c = d" "concat cs = concat ds'" using eq by simp_all
  then show ?case using Cons.IH [of ds'] Cons.prems(1,2) ds by simp
qed

text \<open>A complete entry: the form is a text of as many characters as its length says, and the link
  goes to the affix that is one character shorter.\<close>

definition entry_ok :: "affix_type \<Rightarrow> (string \<times> int \<times> nat option) list \<Rightarrow> nat \<Rightarrow> bool" where
  "entry_ok ty es i \<longleftrightarrow> (\<exists>cs len shorter. es ! i = (concat cs, len, shorter) \<and> list_all good_char cs \<and> cs \<noteq> [] \<and>
     len = int (length cs) \<and>
     (case shorter of None \<Rightarrow> length cs = 1
      | Some j \<Rightarrow> 1 < length cs \<and> j < length es \<and> fst (es ! j) = concat (affix_of ty (length cs - 1) cs) \<and>
          fst (snd (es ! j)) = len - 1))"

definition complete :: "affix_table \<Rightarrow> bool" where
  "complete t \<longleftrightarrow> (\<forall>i < length (entries t). entry_ok (at_type t) (entries t) i)"

lemma entry_ok_mono:
  assumes "entry_ok ty es i" and "es' ! i = es ! i"
    and "\<And>j. j < length es \<Longrightarrow> j < length es' \<and> fst (es' ! j) = fst (es ! j) \<and> fst (snd (es' ! j)) = fst (snd (es ! j))"
  shows "entry_ok ty es' i"
proof -
  obtain cs len shorter where "es ! i = (concat cs, len, shorter)" "list_all good_char cs" "cs \<noteq> []" "len = int (length cs)"
    "case shorter of None \<Rightarrow> length cs = 1 | Some j \<Rightarrow> 1 < length cs \<and> j < length es \<and>
       fst (es ! j) = concat (affix_of ty (length cs - 1) cs) \<and> fst (snd (es ! j)) = len - 1"
    using assms(1) unfolding entry_ok_def by blast
  then show ?thesis unfolding entry_ok_def using assms(2,3)
    by (intro exI [of _ cs] exI [of _ len] exI [of _ shorter]) (auto split: option.splits)
qed

lemma entry_ok_append: "i < length es \<Longrightarrow> entry_ok ty es i \<Longrightarrow> entry_ok ty (es @ fs) i"
  by (rule entry_ok_mono) (auto simp: nth_append)

lemma entry_ok_update:
  assumes "entry_ok ty es i" and "k \<noteq> i" and "fst x = fst (es ! k)" and "fst (snd x) = fst (snd (es ! k))"
  shows "entry_ok ty (es[k := x]) i"
proof (rule entry_ok_mono [OF assms(1)])
  show "j < length (es[k := x]) \<and> fst (es[k := x] ! j) = fst (es ! j) \<and> fst (snd (es[k := x] ! j)) = fst (snd (es ! j))"
    if "j < length es" for j using assms(3,4) that by (cases "k = j") auto
qed (use assms(2) in simp)

text \<open>The affix added last still waits for its link.\<close>

definition pending :: "affix_type \<Rightarrow> string list \<Rightarrow> nat \<Rightarrow> nat option \<Rightarrow> (string \<times> int \<times> nat option) list \<Rightarrow> bool" where
  "pending ty cs n anc es \<longleftrightarrow> (case anc of None \<Rightarrow> True
     | Some a \<Rightarrow> a < length es \<and> Suc n \<le> length cs \<and> es ! a = (concat (affix_of ty (Suc n) cs), int (Suc n), None))"

lemma link_ancestor_ok:
  assumes "table_inv t" and "pending (at_type t) cs n anc (entries t)" and "list_all good_char cs" and "0 < n"
    and "j < length (entries t)" and "entries t ! j = (concat (affix_of (at_type t) n cs), int n, s)" and "anc \<noteq> Some j"
  shows "\<exists>t'. link_ancestor anc j t = Some t' \<and> table_inv t' \<and> at_type t' = at_type t \<and> at_max_length t' = at_max_length t \<and>
    map fst (entries t') = map fst (entries t) \<and>
    (\<forall>i < length (entries t). Some i \<noteq> anc \<longrightarrow> entries t' ! i = entries t ! i) \<and>
    (\<forall>i < length (entries t). anc = Some i \<or> entry_ok (at_type t) (entries t) i \<longrightarrow> entry_ok (at_type t) (entries t') i)"
proof (cases anc)
  case None
  then show ?thesis using assms(1) by (auto simp: link_ancestor_def)
next
  case (Some a)
  let ?ty = "at_type t" and ?es = "entries t"
  have a: "a < length ?es" "Suc n \<le> length cs" "?es ! a = (concat (affix_of ?ty (Suc n) cs), int (Suc n), None)" "a \<noteq> j"
    using assms(2,7) Some by (auto simp: pending_def)
  from set_shorter_inv [OF assms(1) a(1), of j] a(3) obtain t' where
    t': "set_shorter a j t = Some t'" "table_inv t'" "entries t' = ?es[a := (concat (affix_of ?ty (Suc n) cs), int (Suc n), Some j)]"
      "at_type t' = ?ty" "at_max_length t' = at_max_length t" by auto
  have "entry_ok ?ty (entries t') a"
    unfolding entry_ok_def
  proof (intro exI conjI)
    show "entries t' ! a = (concat (affix_of ?ty (Suc n) cs), int (Suc n), Some j)" using t'(3) a(1) by simp
    show "list_all good_char (affix_of ?ty (Suc n) cs)" by (rule affix_of_good [OF assms(3)])
    have l: "length (affix_of ?ty (Suc n) cs) = Suc n" using a(2) by simp
    then show "affix_of ?ty (Suc n) cs \<noteq> []" by auto
    show "int (Suc n) = int (length (affix_of ?ty (Suc n) cs))" using l by simp
    have "affix_of ?ty n (affix_of ?ty (Suc n) cs) = affix_of ?ty n cs" using a(2) by (intro affix_of_affix) simp_all
    then show "case Some j of None \<Rightarrow> length (affix_of ?ty (Suc n) cs) = 1
      | Some j \<Rightarrow> 1 < length (affix_of ?ty (Suc n) cs) \<and> j < length (entries t') \<and>
          fst (entries t' ! j) = concat (affix_of ?ty (length (affix_of ?ty (Suc n) cs) - 1) (affix_of ?ty (Suc n) cs)) \<and>
          fst (snd (entries t' ! j)) = int (Suc n) - 1"
      using l assms(4,5,6) a(4) by (simp add: t'(3) del: length_affix_of length_entries)
  qed
  then have "entry_ok ?ty (entries t') i" if "i = a \<or> entry_ok ?ty ?es i" for i
    using that a(3) entry_ok_update [of ?ty ?es i a "(concat (affix_of ?ty (Suc n) cs), int (Suc n), Some j)"]
    by (cases "i = a") (simp_all add: t'(3))
  moreover have "entries t' ! i = ?es ! i" if "i \<noteq> a" for i using that by (simp add: t'(3))
  moreover have "map fst (entries t') = map fst ?es" using t'(3) a(1,3) by (simp add: map_update list_update_same_conv)
  ultimately show ?thesis using t'(1,2,4,5) Some by (intro exI [of _ t'] conjI) (auto simp: link_ancestor_def)
qed

text \<open>The link of an affix with \<open>n + 1\<close> characters goes to the affix with \<open>n\<close> characters.\<close>

lemma complete_link:
  assumes "complete t" and "list_all good_char cs" and "Suc n \<le> length cs"
    and "i < length (entries t)" and "fst (entries t ! i) = concat (affix_of (at_type t) (Suc n) cs)"
  shows "fst (snd (entries t ! i)) = int (Suc n)"
    and "case snd (snd (entries t ! i)) of None \<Rightarrow> n = 0
      | Some j \<Rightarrow> 0 < n \<and> j < length (entries t) \<and> fst (entries t ! j) = concat (affix_of (at_type t) n cs)"
proof -
  let ?ty = "at_type t"
  have "entry_ok ?ty (entries t) i" using assms(1,4) by (simp add: complete_def)
  then obtain ds len shorter where e: "entries t ! i = (concat ds, len, shorter)" and gd: "list_all good_char ds" and
    len: "len = int (length ds)" and
    sh: "case shorter of None \<Rightarrow> length ds = 1 | Some j \<Rightarrow> 1 < length ds \<and> j < length (entries t) \<and>
      fst (entries t ! j) = concat (affix_of ?ty (length ds - 1) ds) \<and> fst (snd (entries t ! j)) = len - 1"
    unfolding entry_ok_def by blast
  have eq: "concat ds = concat (affix_of ?ty (Suc n) cs)" using assms(5) e by simp
  have "ds = affix_of ?ty (Suc n) cs" by (rule good_chars_unique [OF gd affix_of_good [OF assms(2)] eq])
  then have l: "length ds = Suc n" "affix_of ?ty n ds = affix_of ?ty n cs" using assms(3) by (simp_all add: affix_of_affix)
  show "fst (snd (entries t ! i)) = int (Suc n)" using e len l(1) by simp
  show "case snd (snd (entries t ! i)) of None \<Rightarrow> n = 0
      | Some j \<Rightarrow> 0 < n \<and> j < length (entries t) \<and> fst (entries t ! j) = concat (affix_of ?ty n cs)"
    using sh e l by (auto split: option.splits)
qed

lemma complete_shorter:
  assumes "complete t" and "list_all good_char cs" and "n \<le> length cs" and "concat (affix_of (at_type t) n cs) \<in> set (map fst (entries t))"
    and "0 < k" and "k \<le> n"
  shows "concat (affix_of (at_type t) k cs) \<in> set (map fst (entries t))"
  using assms(3,4,6)
proof (induction n)
  case (Suc n)
  show ?case
  proof (cases "k = Suc n")
    case False
    then have n: "k \<le> n" "0 < n" using Suc.prems(3) assms(5) by auto
    from Suc.prems(2) obtain i where i: "i < length (entries t)" "fst (entries t ! i) = concat (affix_of (at_type t) (Suc n) cs)"
      by (auto simp: in_set_conv_nth)
    obtain j where "j < length (entries t)" "fst (entries t ! j) = concat (affix_of (at_type t) n cs)"
      using complete_link(2) [OF assms(1,2) Suc.prems(1) i] n(2) by (auto split: option.splits)
    then have "concat (affix_of (at_type t) n cs) \<in> set (map fst (entries t))" by (metis length_map nth_map nth_mem)
    then show ?thesis using Suc.IH Suc.prems(1) n(1) by simp
  qed (use Suc.prems in simp)
qed (use assms(5) in simp)

definition affix_start :: "affix_type \<Rightarrow> nat \<Rightarrow> string list \<Rightarrow> nat" where
  "affix_start ty n cs = (if ty = PREFIX then 0 else off cs (length cs - n))"

definition affix_stop :: "affix_type \<Rightarrow> nat \<Rightarrow> string list \<Rightarrow> nat" where
  "affix_stop ty n cs = (if ty = PREFIX then off cs n else off cs (length cs))"

lemma off_0 [simp]: "off cs 0 = 0"
  by (simp add: off_def)

lemma substring_affix: "n \<le> length cs \<Longrightarrow> UnicodeSubstring (concat cs) (affix_start ty n cs) (affix_stop ty n cs) = concat (affix_of ty n cs)"
  using substring_off [of 0 n cs] substring_off [of "length cs - n" "length cs" cs]
  by (simp add: affix_start_def affix_stop_def affix_of_def)

lemma affix_step:
  assumes "list_all good_char cs" and "Suc n \<le> length cs"
  shows "(if ty = PREFIX then Some (affix_start ty (Suc n) cs) else it_next (concat cs) (affix_start ty (Suc n) cs)) = Some (affix_start ty n cs)"
    and "(if ty = PREFIX then it_prev (concat cs) (affix_stop ty (Suc n) cs) else Some (affix_stop ty (Suc n) cs)) = Some (affix_stop ty n cs)"
  using it_next_off [OF assms(1), of "length cs - Suc n"] it_prev_off [OF assms(1), of n] assms(2)
  by (simp_all add: affix_start_def affix_stop_def Suc_diff_Suc)

text \<open>What the loop has done when it is through with the affixes of at most \<open>n\<close> characters.\<close>

definition affixes_added :: "string list \<Rightarrow> nat \<Rightarrow> nat option \<Rightarrow> affix_table \<Rightarrow> affix_table \<Rightarrow> bool" where
  "affixes_added cs n anc t t' \<longleftrightarrow> table_inv t' \<and> complete t' \<and> at_type t' = at_type t \<and> at_max_length t' = at_max_length t \<and>
     (\<exists>ks. set ks \<subseteq> {1..n} \<and> map fst (entries t') = map fst (entries t) @ map (\<lambda>k. concat (affix_of (at_type t) k cs)) ks) \<and>
     (\<forall>k. 0 < k \<longrightarrow> k \<le> n \<longrightarrow> concat (affix_of (at_type t) k cs) \<in> set (map fst (entries t'))) \<and>
     (\<forall>i < length (entries t). Some i \<noteq> anc \<longrightarrow> entries t' ! i = entries t ! i)"

lemma entry_length:
  assumes "entry_ok ty es i" and "fst (es ! i) = concat cs" and "list_all good_char cs"
  shows "fst (snd (es ! i)) = int (length cs)"
proof -
  obtain ds len shorter where "es ! i = (concat ds, len, shorter)" "list_all good_char ds" "len = int (length ds)"
    using assms(1) unfolding entry_ok_def by blast
  then show ?thesis using good_chars_unique [of ds cs] assms(2,3) by simp
qed

lemma affix_loop_correct:
  assumes "table_inv t" and "list_all good_char cs" and "n \<le> length cs" and "pending (at_type t) cs n anc (entries t)"
    and "\<forall>i < length (entries t). Some i \<noteq> anc \<longrightarrow> entry_ok (at_type t) (entries t) i" and "first = None \<longleftrightarrow> anc = None"
  shows "\<exists>first' t'. affix_loop n (concat cs) (affix_start (at_type t) n cs) (affix_stop (at_type t) n cs) first anc t = Some (first', t') \<and>
    affixes_added cs n anc t t' \<and> first' = (if first = None \<and> 0 < n then position (concat (affix_of (at_type t) n cs)) (entries t') else first)"
  using assms
proof (induction n arbitrary: t anc first)
  case 0
  have "entry_ok (at_type t) (entries t) i" if "i < length (entries t)" for i
  proof (cases "Some i = anc")
    case True
    then have a: "entries t ! i = (concat (affix_of (at_type t) (Suc 0) cs), int (Suc 0), None)" "Suc 0 \<le> length cs"
      using "0.prems"(4) by (auto simp: pending_def)
    have "length (affix_of (at_type t) (Suc 0) cs) = Suc 0" using a(2) by simp
    then show ?thesis unfolding entry_ok_def using a(1) affix_of_good [OF assms(2), of "at_type t" "Suc 0"]
      by (intro exI [of _ "affix_of (at_type t) (Suc 0) cs"]) auto
  qed (use "0.prems"(5) that in auto)
  then show ?case using "0.prems"(1) by (simp add: affixes_added_def complete_def)
next
  case (Suc n)
  let ?ty = "at_type t" and ?s = "concat (affix_of (at_type t) (Suc n) cs)"
  have gs: "list_all good_char (affix_of ?ty (Suc n) cs)" by (rule affix_of_good [OF Suc.prems(2)])
  have c: "c_str ?s = ?s" by (rule c_str_concat [OF gs])
  note find = FindAffix_position [OF Suc.prems(1) c]
  note dist = table_invD(2) [OF Suc.prems(1)]
  have sub: "UnicodeSubstring (concat cs) (affix_start ?ty (Suc n) cs) (affix_stop ?ty (Suc n) cs) = ?s"
    by (rule substring_affix [OF Suc.prems(3)])
  show ?case
  proof (cases "position ?s (entries t)")
    case (Some j)
    then have j: "j < length (entries t)" "fst (entries t ! j) = ?s" using position_Some [OF dist] by simp_all
    have anc: "anc \<noteq> Some j"
    proof
      assume "anc = Some j"
      then have "concat (affix_of ?ty (Suc (Suc n)) cs) = ?s" "Suc (Suc n) \<le> length cs"
        using Suc.prems(4) j by (auto simp: pending_def)
      then have "affix_of ?ty (Suc (Suc n)) cs = affix_of ?ty (Suc n) cs"
        by (intro good_chars_unique [OF affix_of_good [OF Suc.prems(2)] gs])
      then show False using \<open>Suc (Suc n) \<le> length cs\<close> by (metis Suc.prems(3) length_affix_of n_not_Suc_n)
    qed
    then have okj: "entry_ok ?ty (entries t) j" using Suc.prems(5) j(1) by auto
    have "fst (snd (entries t ! j)) = int (Suc n)" using entry_length [OF okj j(2) gs] Suc.prems(3) by simp
    then obtain sj where ej: "entries t ! j = (?s, int (Suc n), sj)" using j(2) by (metis prod.collapse)
    from link_ancestor_ok [OF Suc.prems(1,4,2) _ j(1) ej anc] obtain t' where
      t': "link_ancestor anc j t = Some t'" "table_inv t'" "at_type t' = ?ty" "at_max_length t' = at_max_length t"
        "map fst (entries t') = map fst (entries t)" "\<forall>i < length (entries t). Some i \<noteq> anc \<longrightarrow> entries t' ! i = entries t ! i"
        "\<forall>i < length (entries t). anc = Some i \<or> entry_ok ?ty (entries t) i \<longrightarrow> entry_ok ?ty (entries t') i" by auto
    have len: "length (entries t') = length (entries t)" using t'(5) by (metis length_map)
    have comp: "complete t'" unfolding complete_def using t'(3,7) Suc.prems(5) len by metis
    have mem: "?s \<in> set (map fst (entries t'))" using t'(5) j by (metis length_map nth_map nth_mem)
    have all: "concat (affix_of ?ty k cs) \<in> set (map fst (entries t'))" if "0 < k" "k \<le> Suc n" for k
      using complete_shorter [OF comp Suc.prems(2,3) _ that] mem t'(3) by simp
    have "affixes_added cs (Suc n) anc t t'"
      unfolding affixes_added_def using t' comp all by (intro conjI exI [of _ "[]"]) auto
    moreover have "position ?s (entries t') = Some j"
      using position_Some [OF table_invD(2) [OF t'(2)], of ?s j] j len t'(5) by (metis length_map nth_map)
    ultimately show ?thesis using find Some sub t'(1) by simp
  next
    case None
    then have new: "?s \<notin> set (map fst (entries t))" by (simp add: position_None)
    from AddNewAffix_inv [OF Suc.prems(1) c new, of "int (Suc n)"] obtain t1 where
      t1: "AddNewAffix ?s (int (Suc n)) t = Some (length (entries t), t1)" "table_inv t1" "entries t1 = entries t @ [(?s, int (Suc n), None)]"
        "at_type t1 = ?ty" "at_max_length t1 = at_max_length t" by auto
    let ?a = "length (entries t)"
    have pend: "pending (at_type t1) cs (Suc n) anc (entries t1)"
      using Suc.prems(4) t1(3,4) by (auto simp: pending_def nth_append split: option.splits)
    have anc: "anc \<noteq> Some ?a" using Suc.prems(4) by (auto simp: pending_def)
    have ea: "entries t1 ! ?a = (concat (affix_of (at_type t1) (Suc n) cs), int (Suc n), None)" "?a < length (entries t1)"
      using t1(3,4) by (simp_all add: nth_append del: length_entries)
    from link_ancestor_ok [OF t1(2) pend Suc.prems(2) _ ea(2,1) anc] obtain t2 where
      t2: "link_ancestor anc ?a t1 = Some t2" "table_inv t2" "at_type t2 = ?ty" "at_max_length t2 = at_max_length t"
        "map fst (entries t2) = map fst (entries t1)" "\<forall>i < length (entries t1). Some i \<noteq> anc \<longrightarrow> entries t2 ! i = entries t1 ! i"
        "\<forall>i < length (entries t1). anc = Some i \<or> entry_ok ?ty (entries t1) i \<longrightarrow> entry_ok ?ty (entries t2) i"
      using t1(4,5) by auto
    have len: "length (entries t2) = Suc ?a" using t2(5) t1(3) by (metis length_map length_append_singleton)
    have pend2: "pending (at_type t2) cs n (Some ?a) (entries t2)"
      using ea t2(3,6) t1(4) anc len Suc.prems(3) by (simp add: pending_def del: length_entries)
    have ok2: "\<forall>i < length (entries t2). Some i \<noteq> Some ?a \<longrightarrow> entry_ok (at_type t2) (entries t2) i"
    proof (intro allI impI)
      fix i
      assume "i < length (entries t2)" and "Some i \<noteq> Some ?a"
      then have i: "i < ?a" "i < length (entries t1)" using len t1(3) by (auto simp del: length_entries)
      have "anc = Some i \<or> entry_ok ?ty (entries t1) i"
        using Suc.prems(5) i(1) entry_ok_append [OF i(1)] t1(3) by (cases "anc = Some i") auto
      then show "entry_ok (at_type t2) (entries t2) i" using t2(3,7) i(2) by metis
    qed
    define g where "g = (if first = None then Some ?a else first)"
    have g: "g \<noteq> None" by (simp add: g_def)
    from Suc.IH [OF t2(2) Suc.prems(2) _ pend2 ok2, of g] Suc.prems(3) g obtain t' where
      t': "affix_loop n (concat cs) (affix_start ?ty n cs) (affix_stop ?ty n cs) g (Some ?a) t2 = Some (g, t')"
        "affixes_added cs n (Some ?a) t2 t'"
      unfolding t2(3) by auto
    note ad = t'(2) [unfolded affixes_added_def t2(3,4)]
    obtain ks where ks: "set ks \<subseteq> {1..n}" "map fst (entries t') = map fst (entries t2) @ map (\<lambda>k. concat (affix_of ?ty k cs)) ks" using ad by blast
    have f: "map fst (entries t') = map fst (entries t) @ map (\<lambda>k. concat (affix_of ?ty k cs)) (Suc n # ks)"
      using ks(2) t2(5) t1(3) by simp
    have "\<forall>i < ?a. Some i \<noteq> anc \<longrightarrow> entries t' ! i = entries t ! i"
    proof (intro allI impI)
      fix i
      assume i: "i < ?a" "Some i \<noteq> anc"
      have "entries t' ! i = entries t2 ! i" using ad i(1) len by (metis less_SucI nat_neq_iff option.inject)
      also have "\<dots> = entries t1 ! i" using t2(6) i t1(3) by simp
      also have "\<dots> = entries t ! i" using t1(3) i(1) by (simp add: nth_append)
      finally show "entries t' ! i = entries t ! i" .
    qed
    moreover have "concat (affix_of ?ty k cs) \<in> set (map fst (entries t'))" if "0 < k" "k \<le> Suc n" for k
      using that ad f by (cases "k = Suc n") auto
    moreover have "set (Suc n # ks) \<subseteq> {1..Suc n}" using ks(1) by auto
    ultimately have added: "affixes_added cs (Suc n) anc t t'"
      unfolding affixes_added_def using ad f by (intro conjI exI [of _ "Suc n # ks"]) auto
    have "map fst (entries t') ! ?a = ?s" using f by (simp add: nth_append)
    moreover have "?a < length (entries t')" using arg_cong [OF f, of length] by simp
    ultimately have "position ?s (entries t') = Some ?a"
      using position_Some [of "entries t'" ?s ?a] ad table_invD(2) by (metis nth_map)
    then show ?thesis using find None sub t1(1) t2(1,3) t'(1) added affix_step [OF Suc.prems(2,3), of ?ty] by (auto simp: g_def)
  qed
qed

definition text_chars :: "string \<Rightarrow> string list" where
  "text_chars txt = map (\<lambda>(i, n). take n (drop i txt)) (GetUTF8Chars txt)"

lemma map_pieces: "map (\<lambda>(i, n). take n (drop i (pre @ concat cs))) (pieces (length pre) cs) = cs"
proof (induction cs arbitrary: pre)
  case (Cons c cs)
  then show ?case using Cons.IH [of "pre @ c"] by simp
qed simp

lemma text_chars_concat: "list_all good_char cs \<Longrightarrow> text_chars (concat cs) = cs"
  using GetUTF8Chars_concat [of cs] map_pieces [of "[]" cs] by (simp add: text_chars_def)

lemma text_chars_utf8: "utf8_text s rs \<Longrightarrow> \<exists>cs. list_all good_char cs \<and> concat cs = s \<and> length cs = length rs"
proof (induction rule: utf8_text.induct)
  case Nil
  then show ?case by (intro exI [of _ "[]"]) simp
next
  case (Cons p r s rs)
  then obtain cs where "list_all good_char cs" "concat cs = s" "length cs = length rs" by blast
  then show ?case using Cons.hyps(1,2) by (intro exI [of _ "p # cs"]) (auto simp: good_char_def [of p])
qed

lemma word_chars_text:
  shows "list_all good_char (text_chars (PointToUTF8 word))" and "concat (text_chars (PointToUTF8 word)) = PointToUTF8 word"
    and "ut_size (PointToUTF8 word) = length (text_chars (PointToUTF8 word))"
proof -
  obtain rs where rs: "utf8_text (PointToUTF8 word) rs" using CopyUTF8_text(2) by blast
  then obtain cs where cs: "list_all good_char cs" "concat cs = PointToUTF8 word" "length cs = length rs"
    using text_chars_utf8 by blast
  then have "text_chars (PointToUTF8 word) = cs" using text_chars_concat [OF cs(1)] by simp
  then show "list_all good_char (text_chars (PointToUTF8 word))" "concat (text_chars (PointToUTF8 word)) = PointToUTF8 word"
    "ut_size (PointToUTF8 word) = length (text_chars (PointToUTF8 word))" using cs utf8_text_size [OF rs] by simp_all
qed

definition affix_count :: "affix_table \<Rightarrow> string list \<Rightarrow> nat" where
  "affix_count t cs = nat (min (int (length cs)) (at_max_length t))"

lemma AddAffixesForWord_correct:
  assumes "table_inv t" and "complete t" and "cs = text_chars (PointToUTF8 word)" and "n = affix_count t cs"
  shows "\<exists>first t'. AddAffixesForWord word t = Some (first, t') \<and> affixes_added cs n None t t' \<and>
    first = (if 0 < n then position (concat (affix_of (at_type t) n cs)) (entries t') else None)"
proof -
  note g = word_chars_text(1) [of word, folded assms(3)] and tx = word_chars_text(2) [of word, folded assms(3)]
    and size = word_chars_text(3) [of word, folded assms(3)]
  define al where al: "al = (if int (length cs) > at_max_length t then at_max_length t else int (length cs))"
  have len: "nat al = n" "n \<le> length cs" using assms(4) al by (auto simp: affix_count_def min_def)
  have o: "off cs (length cs) = length (concat cs)" by (simp add: off_def)
  have start: "(if at_type t = PREFIX then Some 0 else it_steps (it_prev (concat cs)) n (length (concat cs))) = Some (affix_start (at_type t) n cs)"
    using it_steps_prev [OF g len(2)] len(2) o by (simp add: affix_start_def)
  have stop: "(if at_type t = PREFIX then it_steps (it_next (concat cs)) n 0 else Some (length (concat cs))) = Some (affix_stop (at_type t) n cs)"
    using it_steps_next [OF g, of 0 n] len(2) o by (simp add: affix_stop_def)
  have "\<forall>i < length (entries t). Some i \<noteq> None \<longrightarrow> entry_ok (at_type t) (entries t) i" using assms(2) by (simp add: complete_def)
  from affix_loop_correct [OF assms(1) g len(2) _ this, where first = None] obtain first t' where
    r: "affix_loop n (concat cs) (affix_start (at_type t) n cs) (affix_stop (at_type t) n cs) None None t = Some (first, t')"
      "affixes_added cs n None t t'" "first = (if 0 < n then position (concat (affix_of (at_type t) n cs)) (entries t') else None)"
    by (auto simp: pending_def)
  have run: "AddAffixesForWord word t = (if al = 0 then Some (None, t) else do {
      start \<leftarrow> (if at_type t = PREFIX then Some 0 else it_steps (it_prev (concat cs)) (nat al) (length (concat cs)));
      stop \<leftarrow> (if at_type t = PREFIX then it_steps (it_next (concat cs)) (nat al) 0 else Some (length (concat cs)));
      affix_loop (nat al) (concat cs) start stop None None t })"
    unfolding AddAffixesForWord_def Let_def size al tx ..
  show ?thesis
  proof (cases "al = 0")
    case True
    then have "n = 0" using len(1) by simp
    then have "first = None" "t' = t" using r(1) by simp_all
    then show ?thesis using True r(2) \<open>n = 0\<close> run by simp
  next
    case False
    then have "AddAffixesForWord word t = Some (first, t')"
      using run unfolding len(1) start stop by (simp add: r(1))
    then show ?thesis using r(2,3) by blast
  qed
qed

section \<open>Reading what was written\<close>

definition unlinked :: "string \<times> int \<times> nat option \<Rightarrow> string \<times> int \<times> nat option" where
  "unlinked e = (fst e, fst (snd e), None)"

definition to_entry :: "string \<times> int \<times> nat option \<Rightarrow> affix_entry" where
  "to_entry e = \<lparr>ae_form = fst e, ae_length = fst (snd e), ae_shorter_id = (case snd (snd e) of None \<Rightarrow> -1 | Some i \<Rightarrow> int i)\<rparr>"

lemma to_entry_simps [simp]:
  "ae_form (to_entry e) = fst e" "ae_length (to_entry e) = fst (snd e)"
  "ae_shorter_id (to_entry e) = (case snd (snd e) of None \<Rightarrow> -1 | Some i \<Rightarrow> int i)"
  by (simp_all add: to_entry_def)

lemma affix_Write_entries: "ate_affix (affix_Write t) = map to_entry (entries t)"
  by (simp add: affix_Write_def entries_def to_entry_def)

lemma read_affixes_entries:
  assumes "table_inv t" and "k = length (entries t)" and "distinct (map fst (entries t) @ map fst es)"
    and "\<forall>e \<in> set es. c_str (fst e) = fst e \<and> 0 \<le> fst (snd e) \<and> fst (snd e) \<le> at_max_length t"
  shows "\<exists>t'. read_affixes k (map to_entry es) t = Some t' \<and> table_inv t' \<and> entries t' = entries t @ map unlinked es \<and>
    at_type t' = at_type t \<and> at_max_length t' = at_max_length t"
  using assms
proof (induction es arbitrary: k t)
  case (Cons e es)
  have e: "c_str (fst e) = fst e" "0 \<le> fst (snd e)" "fst (snd e) \<le> at_max_length t" "fst e \<notin> set (map fst (entries t))"
    using Cons.prems(3,4) by auto
  from AddNewAffix_inv [OF Cons.prems(1) e(1,4)] obtain t1 where
    t1: "AddNewAffix (fst e) (fst (snd e)) t = Some (k, t1)" "table_inv t1" "entries t1 = entries t @ [unlinked e]"
      "at_type t1 = at_type t" "at_max_length t1 = at_max_length t"
    unfolding Cons.prems(2) unlinked_def by blast
  have f: "FindAffix (fst e) t = Some None" using FindAffix_position [OF Cons.prems(1) e(1)] e(4) by (simp add: position_None)
  have "\<exists>t'. read_affixes (Suc k) (map to_entry es) t1 = Some t' \<and> table_inv t' \<and> entries t' = entries t1 @ map unlinked es \<and>
      at_type t' = at_type t1 \<and> at_max_length t' = at_max_length t1"
    using Cons.prems(2-4) t1(2-5) by (intro Cons.IH) (auto simp: unlinked_def)
  then show ?case using e f t1 by auto
qed simp

lemma link_affixes_entries:
  assumes "table_inv t" and "entries t = es @ map unlinked fs" and "k = length es"
    and "\<forall>i < length (es @ fs). entry_ok ty (es @ fs) i"
  shows "\<exists>t'. link_affixes k (map to_entry fs) t = Some t' \<and> table_inv t' \<and> entries t' = es @ fs \<and>
    at_type t' = at_type t \<and> at_max_length t' = at_max_length t"
  using assms
proof (induction fs arbitrary: es k t)
  case (Cons e fs)
  let ?all = "es @ e # fs"
  have "entry_ok ty ?all k" using Cons.prems(3,4) by simp
  then obtain cs len shorter where e: "e = (concat cs, len, shorter)" "cs \<noteq> []" "len = int (length cs)"
    "case shorter of None \<Rightarrow> length cs = 1 | Some j \<Rightarrow> 1 < length cs \<and> j < length ?all \<and> fst (snd (?all ! j)) = len - 1"
    using Cons.prems(3) unfolding entry_ok_def by (auto simp: nth_append split: option.splits)
  have n: "length (at_affixes t) = length ?all" using Cons.prems(2) by (metis length_entries(1) length_append length_map list.size(4))
  have view: "fst (snd (entries t ! i)) = fst (snd (?all ! i))" if "i < length ?all" for i
    using that Cons.prems(2) by (auto simp: nth_append unlinked_def nth_Cons split: nat.splits)
  have al: "affix_length (at_affixes t ! i) = fst (snd (?all ! i))" if "i < length ?all" for i
    using view [OF that] n that by (simp add: entries_def)
  have next_ok: "\<forall>i < length ((es @ [e]) @ fs). entry_ok ty ((es @ [e]) @ fs) i" using Cons.prems(4) by simp
  show ?case
  proof (cases shorter)
    case None
    then have "entries t = (es @ [e]) @ map unlinked fs" using Cons.prems(2) e(1) by (simp add: unlinked_def)
    from Cons.IH [OF Cons.prems(1) this _ next_ok, of "Suc k"] Cons.prems(3) None e show ?thesis
      by simp
  next
    case (Some j)
    have j: "1 < length cs" "j < length ?all" "fst (snd (?all ! j)) = len - 1" using e(4) Some by auto
    have k: "k < length (entries t)" using n Cons.prems(3) by simp
    from set_shorter_inv [OF Cons.prems(1) k, of j] obtain t1 where
      t1: "set_shorter k j t = Some t1" "table_inv t1" "entries t1 = (entries t)[k := (fst (entries t ! k), fst (snd (entries t ! k)), Some j)]"
        "at_type t1 = at_type t" "at_max_length t1 = at_max_length t" by auto
    have "entries t1 = (es @ [e]) @ map unlinked fs"
      using t1(3) Cons.prems(2,3) e(1) Some by (simp add: unlinked_def list_update_append nth_append)
    from Cons.IH [OF t1(2) this _ next_ok, of "Suc k"] Cons.prems(3) obtain t' where
      t': "link_affixes (Suc k) (map to_entry fs) t1 = Some t'" "table_inv t'" "entries t' = es @ e # fs" "at_type t' = at_type t1"
        "at_max_length t' = at_max_length t1" by auto
    have "affix_length (at_affixes t ! k) = len" "affix_length (at_affixes t ! j) = len - 1"
      using al [of k] al [of j] j Cons.prems(3) e(1) by (simp_all add: nth_append)
    then show ?thesis using t' t1 e Some j n k by (simp add: vec_at_nat)
  qed
qed simp

lemma affix_Read_Write:
  assumes "table_inv t" and "complete t" and "0 \<le> at_max_length t" and "\<forall>e \<in> set (entries t). fst (snd e) \<le> at_max_length t"
    and "at_type t0 = at_type t"
  shows "\<exists>t'. affix_Read (affix_Write t) t0 = Some t' \<and> table_inv t' \<and> entries t' = entries t \<and> at_type t' = at_type t \<and> at_max_length t' = at_max_length t"
proof -
  note inv = table_invD [OF assms(1)]
  have pos: "0 \<le> fst (snd e)" if e: "e \<in> set (entries t)" for e
  proof -
    obtain i where i: "i < length (entries t)" "entries t ! i = e" using e unfolding in_set_conv_nth by blast
    then have "entry_ok (at_type t) (entries t) i" using assms(2) by (simp add: complete_def)
    then obtain cs where "fst (snd (entries t ! i)) = int (length (cs :: string list))" unfolding entry_ok_def by fastforce
    then show ?thesis using i(2) by simp
  qed
  obtain t1 where t1: "affix_Reset (at_max_length t) t0 = Some t1" "table_inv t1" "entries t1 = []" "at_type t1 = at_type t" "at_max_length t1 = at_max_length t"
    using affix_Reset_inv [of "at_max_length t" t0] assms(5) by auto
  have "\<exists>t'. read_affixes 0 (map to_entry (entries t)) t1 = Some t' \<and> table_inv t' \<and> entries t' = entries t1 @ map unlinked (entries t) \<and>
      at_type t' = at_type t1 \<and> at_max_length t' = at_max_length t1"
  proof (rule read_affixes_entries [OF t1(2)])
    show "distinct (map fst (entries t1) @ map fst (entries t))" using inv(2) t1(3) by simp
    show "\<forall>e \<in> set (entries t). c_str (fst e) = fst e \<and> 0 \<le> fst (snd e) \<and> fst (snd e) \<le> at_max_length t1"
      using inv(3) pos assms(4) t1(5) by auto
  qed (use t1(3) in \<open>simp del: length_entries\<close>)
  then obtain t2 where t2: "read_affixes 0 (map to_entry (entries t)) t1 = Some t2" "table_inv t2" "entries t2 = map unlinked (entries t)"
    "at_type t2 = at_type t" "at_max_length t2 = at_max_length t" using t1 by auto
  have l2: "length (at_affixes t2) = length (at_affixes t)" using t2(3) by (metis length_entries(1) length_map)
  have "\<exists>t'. link_affixes 0 (map to_entry (entries t)) t2 = Some t' \<and> table_inv t' \<and> entries t' = [] @ entries t \<and>
      at_type t' = at_type t2 \<and> at_max_length t' = at_max_length t2"
    by (rule link_affixes_entries [OF t2(2), of _ _ _ "at_type t"]) (use t2(3) assms(2) in \<open>simp_all add: complete_def\<close>)
  then obtain t3 where t3: "link_affixes 0 (map to_entry (entries t)) t2 = Some t3" "table_inv t3" "entries t3 = entries t" "at_type t3 = at_type t"
    "at_max_length t3 = at_max_length t" using t2 by auto
  have "ate_type (affix_Write t) = type_name (at_type t0)" "ate_max_length (affix_Write t) = at_max_length t"
    using assms(5) by (simp_all add: affix_Write_def)
  then show ?thesis using t1(1) t2(1) t3 l2 assms(3) by (simp add: affix_Read_def affix_Write_entries)
qed

section \<open>Tables built from words\<close>

fun add_words :: "string list \<Rightarrow> affix_table \<Rightarrow> affix_table option" where
  "add_words [] t = Some t"
| "add_words (w # ws) t = do { (_, t) \<leftarrow> AddAffixesForWord w t; add_words ws t }"

text \<open>The affixes of a word of one up to the maximum number of characters.\<close>

definition word_affixes :: "affix_type \<Rightarrow> int \<Rightarrow> string \<Rightarrow> string set" where
  "word_affixes ty max_length word =
     (let cs = text_chars (PointToUTF8 word) in
      (\<lambda>k. concat (affix_of ty k cs)) ` {k. 0 < k \<and> k \<le> length cs \<and> int k \<le> max_length})"

definition bounded :: "affix_table \<Rightarrow> bool" where
  "bounded t \<longleftrightarrow> (\<forall>e \<in> set (entries t). fst (snd e) \<le> at_max_length t)"

lemma AddAffixesForWord_forms:
  assumes "table_inv t" and "complete t" and "bounded t"
  shows "\<exists>first t'. AddAffixesForWord word t = Some (first, t') \<and> table_inv t' \<and> complete t' \<and> bounded t' \<and>
    at_type t' = at_type t \<and> at_max_length t' = at_max_length t \<and>
    set (forms t') = set (forms t) \<union> word_affixes (at_type t) (at_max_length t) word"
proof -
  define cs where "cs = text_chars (PointToUTF8 word)"
  define n where "n = affix_count t cs"
  let ?aff = "\<lambda>k. concat (affix_of (at_type t) k cs)"
  from AddAffixesForWord_correct [OF assms(1,2) cs_def n_def] obtain first t' where
    a: "AddAffixesForWord word t = Some (first, t')" "affixes_added cs n None t t'" by blast
  note ad = a(2) [unfolded affixes_added_def]
  obtain ks where ks: "set ks \<subseteq> {1..n}" "map fst (entries t') = map fst (entries t) @ map ?aff ks" using ad by blast
  have n: "k \<in> {1..n} \<longleftrightarrow> 0 < k \<and> k \<le> length cs \<and> int k \<le> at_max_length t" for k by (auto simp: n_def affix_count_def)
  have "set (forms t') = set (forms t) \<union> ?aff ` {1..n}"
  proof
    show "set (forms t') \<subseteq> set (forms t) \<union> ?aff ` {1..n}"
      unfolding forms_entries ks(2) using ks(1) by auto
    have "?aff k \<in> set (forms t')" if "k \<in> {1..n}" for k using ad that by (simp add: forms_entries)
    moreover have "set (forms t) \<subseteq> set (forms t')" unfolding forms_entries ks(2) by simp
    ultimately show "set (forms t) \<union> ?aff ` {1..n} \<subseteq> set (forms t')" by blast
  qed
  moreover have "bounded t'"
    unfolding bounded_def
  proof
    fix e
    assume "e \<in> set (entries t')"
    then obtain i where i: "i < length (entries t')" "entries t' ! i = e" unfolding in_set_conv_nth by blast
    have l: "length (entries t') = length (entries t) + length ks" using arg_cong [OF ks(2), of length] by simp
    show "fst (snd e) \<le> at_max_length t'"
    proof (cases "i < length (entries t)")
      case True
      then have "e = entries t ! i" using ad i(2) by auto
      then have "e \<in> set (entries t)" using True by (metis nth_mem)
      then show ?thesis using assms(3) ad by (simp add: bounded_def)
    next
      case False
      let ?k = "ks ! (i - length (entries t))"
      have "map fst (entries t') ! i = ?aff ?k" using ks(2) False i(1) l by (simp add: nth_append)
      then have f: "fst (entries t' ! i) = ?aff ?k" using i(1) by simp
      have k: "?k \<in> {1..n}" using ks(1) False i(1) l by (metis add_less_cancel_left le_add_diff_inverse not_less nth_mem subsetD)
      have g: "list_all good_char cs" unfolding cs_def by (rule word_chars_text)
      have "complete t'" "at_type t' = at_type t" using ad by auto
      then have "entry_ok (at_type t) (entries t') i" using i(1) by (auto simp: complete_def)
      then have "fst (snd e) = int (length (affix_of (at_type t) ?k cs))" using entry_length [OF _ f affix_of_good [OF g]] i(2) by simp
      then show ?thesis using k n [of ?k] ad by simp
    qed
  qed
  moreover have "?aff ` {1..n} = word_affixes (at_type t) (at_max_length t) word"
    unfolding word_affixes_def Let_def cs_def [symmetric] using n by (intro image_cong) blast+
  ultimately show ?thesis using a(1) ad by auto
qed

lemma add_words_forms:
  assumes "table_inv t" and "complete t" and "bounded t"
  shows "\<exists>t'. add_words ws t = Some t' \<and> table_inv t' \<and> complete t' \<and> bounded t' \<and> at_type t' = at_type t \<and>
    at_max_length t' = at_max_length t \<and> set (forms t') = set (forms t) \<union> \<Union> (word_affixes (at_type t) (at_max_length t) ` set ws)"
  using assms
proof (induction ws arbitrary: t)
  case (Cons w ws)
  from AddAffixesForWord_forms [OF Cons.prems, of w] obtain first t1 where
    t1: "AddAffixesForWord w t = Some (first, t1)" "table_inv t1" "complete t1" "bounded t1" "at_type t1 = at_type t" "at_max_length t1 = at_max_length t"
      "set (forms t1) = set (forms t) \<union> word_affixes (at_type t) (at_max_length t) w" by auto
  from Cons.IH [OF t1(2-4)] show ?case using t1 by auto
qed simp

lemma built_table:
  "\<exists>t0 t. new_AffixTable ty n = Some t0 \<and> add_words ws t0 = Some t \<and> table_inv t \<and> complete t \<and> bounded t \<and> at_type t = ty \<and>
     at_max_length t = n \<and> set (forms t) = \<Union> (word_affixes ty n ` set ws)"
proof -
  obtain t0 where t0: "new_AffixTable ty n = Some t0" "table_inv t0" "entries t0 = []" "at_type t0 = ty" "at_max_length t0 = n"
    using new_AffixTable_inv by blast
  have "complete t0" "bounded t0" "forms t0 = []" using t0(3) by (simp_all add: complete_def bounded_def forms_entries del: length_entries)
  then show ?thesis using add_words_forms [OF t0(2), of ws] t0 by auto
qed

lemma AffixId_forms:
  assumes "table_inv t" and "c_str form = form"
  shows "\<exists>i. AffixId form t = Some i \<and> (i \<noteq> -1 \<longleftrightarrow> form \<in> set (forms t)) \<and> (i \<noteq> -1 \<longrightarrow> AffixForm i t = form) \<and>
    (i \<noteq> -1 \<longrightarrow> GetAffix i t = Some (nat i))"
proof (cases "position form (entries t)")
  case None
  then have "form \<notin> set (forms t)" unfolding position_None forms_entries .
  then show ?thesis using None FindAffix_position [OF assms] by (simp add: AffixId_def)
next
  case (Some i)
  then have i: "i < length (entries t)" "fst (entries t ! i) = form" using position_Some [OF table_invD(2) [OF assms(1)]] by simp_all
  then have "forms t ! i = form" "i < length (forms t)" by (simp_all add: forms_entries)
  then have "form \<in> set (forms t)" "AffixForm (int i) t = form" "GetAffix (int i) t = Some i" by (auto simp: AffixForm_def GetAffix_def forms_def)
  then show ?thesis using Some FindAffix_position [OF assms] by (simp add: AffixId_def)
qed

text \<open>What a client sees that follows \<open>shorter()\<close> from an affix, for at most \<open>n\<close> affixes: their forms and
  lengths.\<close>

fun shorter_walk :: "nat \<Rightarrow> affix_table \<Rightarrow> nat option \<Rightarrow> (string \<times> int) list" where
  "shorter_walk 0 t p = []"
| "shorter_walk (Suc n) t None = []"
| "shorter_walk (Suc n) t (Some i) =
     (let a = at_affixes t ! i in (affix_form a, affix_length a) # shorter_walk n t (affix_shorter a))"

lemma shorter_walk_complete:
  assumes "complete t" and "list_all good_char cs" and "k \<le> length cs" and "0 < k"
    and "i < length (entries t)" and "fst (entries t ! i) = concat (affix_of (at_type t) k cs)"
  shows "shorter_walk (k + m) t (Some i) = map (\<lambda>k. (concat (affix_of (at_type t) k cs), int k)) (rev [1..<Suc k])"
  using assms(3-)
proof (induction k arbitrary: i)
  case (Suc k)
  let ?a = "at_affixes t ! i"
  have e: "entries t ! i = (affix_form ?a, affix_length ?a, affix_shorter ?a)" using Suc.prems(3) by (simp add: entries_def)
  note link = complete_link [OF assms(1,2) Suc.prems(1,3,4)]
  have len: "affix_length ?a = int (Suc k)" using link(1) e by simp
  have "shorter_walk (k + m) t (affix_shorter ?a) = map (\<lambda>k. (concat (affix_of (at_type t) k cs), int k)) (rev [1..<Suc k])"
  proof (cases "affix_shorter ?a")
    case None
    then have "k = 0" using link(2) e by simp
    then show ?thesis using None by (cases m) simp_all
  next
    case (Some j)
    then have "0 < k" "j < length (entries t)" "fst (entries t ! j) = concat (affix_of (at_type t) k cs)"
      using link(2) e by simp_all
    then show ?thesis using Suc.IH [of j] Suc.prems(1) Some by simp
  qed
  moreover have "[1..<Suc (Suc k)] = [1..<Suc k] @ [Suc k]" by simp
  ultimately show ?case using e len Suc.prems(4) by (simp add: Let_def del: upt_Suc)
qed simp

text \<open>C22: An affix table holds the affixes of the words added to it. Whatever words are added
  to a new table, no operation aborts, the hash table grows as needed, and a form (without NUL bytes) is
  found exactly when it is a prefix (or suffix) of one of the words, counted in characters and at most
  as long as the maximum length; the id that is found belongs to that form. Following the links to
  shorter affixes from there passes all its affixes, from the form itself to its one character
  affix, each with the number of its characters as its length, and ends there.\<close>

theorem affix_table_refines:
  assumes "c_str form = form"
  shows "\<exists>t0 t i. new_AffixTable ty n = Some t0 \<and> add_words ws t0 = Some t \<and> AffixId form t = Some i \<and>
    (i \<noteq> -1 \<longleftrightarrow> (\<exists>w \<in> set ws. form \<in> word_affixes ty n w)) \<and>
    (i \<noteq> -1 \<longrightarrow> AffixForm i t = form \<and>
      (\<forall>m. shorter_walk (length (text_chars form) + m) t (GetAffix i t) =
        map (\<lambda>k. (concat (affix_of ty k (text_chars form)), int k)) (rev [1..<Suc (length (text_chars form))])))"
proof -
  from built_table [of ty n ws] obtain t0 t where t: "new_AffixTable ty n = Some t0" "add_words ws t0 = Some t" "table_inv t"
    "complete t" "at_type t = ty" "set (forms t) = \<Union> (word_affixes ty n ` set ws)" by blast
  obtain i where i: "AffixId form t = Some i" "i \<noteq> -1 \<longleftrightarrow> form \<in> set (forms t)" "i \<noteq> -1 \<longrightarrow> AffixForm i t = form"
    "i \<noteq> -1 \<longrightarrow> GetAffix i t = Some (nat i)"
    using AffixId_forms [OF t(3) assms] by blast
  have "i \<noteq> -1 \<longleftrightarrow> (\<exists>w \<in> set ws. form \<in> word_affixes ty n w)" unfolding i(2) t(6) by simp
  moreover have "shorter_walk (length (text_chars form) + m) t (GetAffix i t) =
      map (\<lambda>k. (concat (affix_of ty k (text_chars form)), int k)) (rev [1..<Suc (length (text_chars form))])" if ne: "i \<noteq> -1" for m
  proof -
    have g: "GetAffix i t = Some (nat i)" "nat i < length (entries t)" "fst (entries t ! nat i) = form"
      using i(3,4) ne by (auto simp: GetAffix_def AffixForm_def entries_def split: if_splits)
    from t(4) g(2) have "entry_ok ty (entries t) (nat i)" unfolding complete_def t(5) by blast
    then obtain cs where cs: "form = concat cs" "list_all good_char cs" "cs \<noteq> []" unfolding entry_ok_def using g(3) by auto
    have tc: "text_chars form = cs" using text_chars_concat [OF cs(2)] cs(1) by simp
    have "form = concat (affix_of ty (length cs) cs)" using cs(1) by (simp add: affix_of_def)
    then show ?thesis using shorter_walk_complete [OF t(4) cs(2) order_refl _ g(2), of m] cs(3) g t(5) tc by simp
  qed
  ultimately show ?thesis using t(1,2) i(1,3) by (intro exI conjI impI) blast+
qed

theorem affix_table_refines_witness:
  "\<exists>t0 t i. new_AffixTable SUFFIX 2 = Some t0 \<and> add_words [''walking'', ''sing''] t0 = Some t \<and> AffixId ''ng'' t = Some i \<and>
    i \<noteq> -1 \<and> AffixForm i t = ''ng'' \<and> shorter_walk 5 t (GetAffix i t) = [(''ng'', 2), (''g'', 1)]"
proof -
  have c: "text_chars ''ng'' = [''n'', ''g'']" by code_simp
  have w: "''ng'' \<in> word_affixes SUFFIX 2 ''sing''"
  proof -
    have "text_chars (PointToUTF8 ''sing'') = [''s'', ''i'', ''n'', ''g'']" by code_simp
    then show ?thesis by (auto simp: word_affixes_def affix_of_def intro!: image_eqI [of _ _ 2])
  qed
  have m: "map (\<lambda>k. (concat (affix_of SUFFIX k [''n'', ''g'']), int k)) (rev [1..<Suc (length [''n'', ''g''])]) = [(''ng'', 2), (''g'', 1)]"
    by (simp add: affix_of_def upt_rec)
  from affix_table_refines [of "''ng''" SUFFIX 2 "[''walking'', ''sing'']", unfolded c m] obtain t0 t i where
    "new_AffixTable SUFFIX 2 = Some t0" "add_words [''walking'', ''sing''] t0 = Some t" "AffixId ''ng'' t = Some i"
    "i \<noteq> -1 \<longleftrightarrow> (\<exists>w \<in> set [''walking'', ''sing'']. ''ng'' \<in> word_affixes SUFFIX 2 w)"
    "i \<noteq> -1 \<longrightarrow> AffixForm i t = ''ng'' \<and> (\<forall>m. shorter_walk (length [''n'', ''g''] + m) t (GetAffix i t) = [(''ng'', 2), (''g'', 1)])"
    by (auto simp: c_str_def)
  moreover from this have "i \<noteq> -1" using w by simp
  moreover from calculation have "shorter_walk (length [''n'', ''g''] + 3) t (GetAffix i t) = [(''ng'', 2), (''g'', 1)]" by blast
  moreover have "length [''n'', ''g''] + 3 = (5 :: nat)" by simp
  ultimately show ?thesis by metis
qed

text \<open>C24: A written affix table is read back. For a table built from words, with a maximum length that
  is not negative, \<open>Read\<close> accepts what \<open>Write\<close> produces (no check fails) and restores every affix with
  its id, form, length and link to the affix that is one character shorter; lookups agree.\<close>

theorem affix_table_roundtrip:
  assumes "0 \<le> n" and "at_type t1 = ty" and "c_str form = form"
  shows "\<exists>t0 t t'. new_AffixTable ty n = Some t0 \<and> add_words ws t0 = Some t \<and> affix_Read (affix_Write t) t1 = Some t' \<and>
    affix_Write t' = affix_Write t \<and> FindAffix form t' = FindAffix form t \<and> FindAffix form t \<noteq> None"
proof -
  from built_table [of ty n ws] obtain t0 t where t: "new_AffixTable ty n = Some t0" "add_words ws t0 = Some t" "table_inv t" "complete t" "bounded t"
    "at_type t = ty" "at_max_length t = n" by blast
  then obtain t' where t': "affix_Read (affix_Write t) t1 = Some t'" "table_inv t'" "entries t' = entries t" "at_type t' = ty" "at_max_length t' = n"
    using affix_Read_Write [OF t(3,4)] assms by (auto simp: bounded_def)
  have "affix_Write t' = affix_Write t"
    using t' t affix_Write_entries [of t] affix_Write_entries [of t'] by (simp add: affix_Write_def)
  then show ?thesis using t(1,2) t' FindAffix_position [OF t(3) assms(3)] FindAffix_position [OF t'(2) assms(3)] by auto
qed

theorem affix_table_roundtrip_witness:
  "\<exists>t0 t t'. new_AffixTable PREFIX 3 = Some t0 \<and> add_words [''the'', ''then''] t0 = Some t \<and>
    affix_Read (affix_Write t) \<lparr>at_type = PREFIX, at_max_length = 0, at_affixes = [], at_buckets = []\<rparr> = Some t' \<and>
    affix_Write t' = affix_Write t \<and> FindAffix ''th'' t' = FindAffix ''th'' t \<and> FindAffix ''th'' t \<noteq> None"
  using affix_table_roundtrip [of 3 "\<lparr>at_type = PREFIX, at_max_length = 0, at_affixes = [], at_buckets = []\<rparr>" PREFIX "''th''" "[''the'', ''then'']"]
  by (simp add: c_str_def)

end
