(* ===== verification/Branchings.thy ===== *)
theory Branchings
  imports SyntaxNet_Prelude
begin

text \<open>
  Maximum branchings, independent of the code: the certificate that the contraction of cycles leaves
  behind, and why it makes the expanded tree optimal.

  The nodes of the digraph are \<open>0..n\<close>, all but the artificial root \<open>0\<close> need a source. A certificate is a
  family of nodes \<open>1..<N\<close>, the first \<open>n\<close> of them the nodes of the digraph and the others contracted cycles:
  \<open>S v\<close> is the set of digraph nodes inside \<open>v\<close>, \<open>into v\<close> the node into which \<open>v\<close> was contracted (or \<open>0\<close>), the
  arc from \<open>sr v\<close> to \<open>tg v\<close> the best one that enters \<open>v\<close>, and \<open>m v\<close> its adjusted score. The sum of all \<open>m v\<close>
  bounds the score of every spanning branching (the dual bound of Edmonds), and the branching read off by
  expanding the contractions from the top attains it.
\<close>

section \<open>Branchings and certificates\<close>

text \<open>Every node has a source and no set of nodes is closed under sources, that is, all lead to \<open>0\<close>.\<close>

definition arborescence :: "nat \<Rightarrow> (nat \<Rightarrow> nat) \<Rightarrow> bool" where
  "arborescence n f \<longleftrightarrow> (\<forall>t \<in> {1..n}. f t \<le> n) \<and> (\<forall>C. C \<subseteq> {1..n} \<longrightarrow> C \<noteq> {} \<longrightarrow> (\<exists>t \<in> C. f t \<notin> C))"

definition feasible :: "nat \<Rightarrow> (nat \<Rightarrow> nat \<Rightarrow> 'a option) \<Rightarrow> (nat \<Rightarrow> nat) \<Rightarrow> bool" where
  "feasible n w f \<longleftrightarrow> (\<forall>t \<in> {1..n}. w (f t) t \<noteq> None)"

definition branching_score :: "nat \<Rightarrow> (nat \<Rightarrow> nat \<Rightarrow> 'a option) \<Rightarrow> (nat \<Rightarrow> nat) \<Rightarrow> 'a :: linordered_idom" where
  "branching_score n w f = (\<Sum>t \<in> {1..n}. the (w (f t) t))"

text \<open>The scores of the nodes around \<open>t\<close>, up to \<open>v\<close>.\<close>

definition cost :: "(nat \<Rightarrow> nat set) \<Rightarrow> (nat \<Rightarrow> 'a) \<Rightarrow> nat \<Rightarrow> nat \<Rightarrow> 'a :: linordered_idom" where
  "cost S m t v = (\<Sum>u | 1 \<le> u \<and> u \<le> v \<and> t \<in> S u. m u)"

definition nested :: "nat \<Rightarrow> nat \<Rightarrow> (nat \<Rightarrow> nat set) \<Rightarrow> (nat \<Rightarrow> nat) \<Rightarrow> bool" where
  "nested n N S into \<longleftrightarrow> n < N \<and> (\<forall>v \<in> {1..n}. S v = {v}) \<and> (\<forall>v \<in> {1..<N}. S v \<subseteq> {1..n}) \<and>
     (\<forall>v \<in> {1..<N}. into v \<noteq> 0 \<longrightarrow> v < into v \<and> n < into v \<and> into v < N) \<and>
     (\<forall>p \<in> {Suc n..<N}. S p = (\<Union>v \<in> {v \<in> {1..<N}. into v = p}. S v)) \<and>
     (\<forall>u \<in> {1..<N}. \<forall>v \<in> {1..<N}. \<forall>t. t \<in> S u \<longrightarrow> t \<in> S v \<longrightarrow> u < v \<longrightarrow> into u \<noteq> 0 \<and> into u \<le> v)"

definition certificate ::
  "nat \<Rightarrow> nat \<Rightarrow> (nat \<Rightarrow> nat \<Rightarrow> 'a option) \<Rightarrow> (nat \<Rightarrow> nat set) \<Rightarrow> (nat \<Rightarrow> nat) \<Rightarrow> (nat \<Rightarrow> nat) \<Rightarrow> (nat \<Rightarrow> nat) \<Rightarrow> (nat \<Rightarrow> 'a :: linordered_idom) \<Rightarrow> bool" where
  "certificate n N w S into sr tg m \<longleftrightarrow> nested n N S into \<and>
     (\<forall>v \<in> {1..<N}. tg v \<in> S v \<and> sr v \<notin> S v \<and> sr v \<le> n \<and> w (sr v) (tg v) = Some (cost S m (tg v) v)) \<and>
     (\<forall>v \<in> {1..<N}. \<forall>t \<in> S v. \<forall>s x. s \<le> n \<longrightarrow> s \<notin> S v \<longrightarrow> w s t = Some x \<longrightarrow> x \<le> cost S m t v) \<and>
     (\<forall>v \<in> {1..<N}. into v \<noteq> 0 \<longrightarrow> sr v \<in> S (into v)) \<and>
     (\<forall>p \<in> {Suc n..<N}. \<forall>D. D \<noteq> {} \<longrightarrow> D \<subseteq> {v \<in> {1..<N}. into v = p} \<longrightarrow>
        (\<forall>v \<in> D. \<exists>v' \<in> D. sr v \<in> S v') \<longrightarrow> D = {v \<in> {1..<N}. into v = p}) \<and>
     (\<forall>D. D \<noteq> {} \<longrightarrow> D \<subseteq> {v \<in> {1..<N}. into v = 0} \<longrightarrow> (\<exists>v \<in> D. \<forall>v' \<in> D. sr v \<notin> S v'))"

lemma nestedD:
  assumes "nested n N S into"
  shows "n < N" and "1 \<le> v \<Longrightarrow> v \<le> n \<Longrightarrow> S v = {v}" and "1 \<le> v \<Longrightarrow> v < N \<Longrightarrow> S v \<subseteq> {1..n}"
    and "1 \<le> v \<Longrightarrow> v < N \<Longrightarrow> into v \<noteq> 0 \<Longrightarrow> v < into v \<and> n < into v \<and> into v < N"
    and "n < p \<Longrightarrow> p < N \<Longrightarrow> S p = (\<Union>v \<in> {v \<in> {1..<N}. into v = p}. S v)"
    and "1 \<le> u \<Longrightarrow> u < v \<Longrightarrow> v < N \<Longrightarrow> t \<in> S u \<Longrightarrow> t \<in> S v \<Longrightarrow> into u \<noteq> 0 \<and> into u \<le> v"
proof -
  note a = assms [unfolded nested_def]
  show "n < N" "1 \<le> v \<Longrightarrow> v \<le> n \<Longrightarrow> S v = {v}" "1 \<le> v \<Longrightarrow> v < N \<Longrightarrow> S v \<subseteq> {1..n}"
    "1 \<le> v \<Longrightarrow> v < N \<Longrightarrow> into v \<noteq> 0 \<Longrightarrow> v < into v \<and> n < into v \<and> into v < N" using a by simp_all
  show "n < p \<Longrightarrow> p < N \<Longrightarrow> S p = (\<Union>v \<in> {v \<in> {1..<N}. into v = p}. S v)" using a by simp
  show "1 \<le> u \<Longrightarrow> u < v \<Longrightarrow> v < N \<Longrightarrow> t \<in> S u \<Longrightarrow> t \<in> S v \<Longrightarrow> into u \<noteq> 0 \<and> into u \<le> v"
    using a by (meson atLeastLessThan_iff order.strict_trans less_imp_le order_trans)
qed

lemma nested_mono:
  assumes "nested n N S into" and "1 \<le> u" and "u \<le> v" and "v < N" and "t \<in> S u" and "t \<in> S v"
  shows "S u \<subseteq> S v"
  using assms(2-)
proof (induction "v - u" arbitrary: u rule: less_induct)
  case less
  show ?case
  proof (cases "u = v")
    case False
    then have uv: "u < v" using less.prems by simp
    note i = nestedD(6) [OF assms(1) less.prems(1) uv less.prems(3-5)]
    have b: "u < into u" "n < into u" "into u < N" using nestedD(4) [OF assms(1), of u] less.prems uv i by auto
    then have "S u \<subseteq> S (into u)" using nestedD(5) [OF assms(1) b(2,3)] less.prems uv by auto
    moreover have "v - into u < v - u" using b(1) i by linarith
    then have "S (into u) \<subseteq> S v" using less.hyps [of "into u"] less.prems i b calculation by auto
    ultimately show ?thesis by blast
  qed simp
qed

lemma finite_cost: "finite {u. 1 \<le> u \<and> u \<le> (v :: nat) \<and> t \<in> S u}"
  by (rule finite_subset [of _ "{..v}"]) auto

lemma cost_parent:
  assumes "nested n N S into" and "1 \<le> u" and "u < N" and "into u = v" and "v \<noteq> 0" and "t \<in> S u"
  shows "cost S m t v = m v + cost S m t u"
proof -
  have b: "u < v" "n < v" "v < N" using nestedD(4) [OF assms(1-3)] assms(4,5) by auto
  then have tv: "t \<in> S v" using nestedD(5) [OF assms(1) b(2,3)] assms(2-6) by auto
  have "{x. 1 \<le> x \<and> x \<le> v \<and> t \<in> S x} = insert v {x. 1 \<le> x \<and> x \<le> u \<and> t \<in> S x}"
  proof (intro equalityI subsetI)
    fix x assume x: "x \<in> {x. 1 \<le> x \<and> x \<le> v \<and> t \<in> S x}"
    show "x \<in> insert v {x. 1 \<le> x \<and> x \<le> u \<and> t \<in> S x}"
    proof (cases "u < x")
      case True
      then have "v \<le> x" using nestedD(6) [OF assms(1,2) True, of t] x assms(4,6) b by auto
      then show ?thesis using x by simp
    qed (use x in auto)
  qed (use b tv assms(2) in auto)
  then show ?thesis using finite_cost [of u t S] b by (simp add: cost_def)
qed

section \<open>The dual bound\<close>

lemma certificateD:
  assumes "certificate n N w S into sr tg m"
  shows "nested n N S into"
    and "1 \<le> v \<Longrightarrow> v < N \<Longrightarrow> tg v \<in> S v \<and> sr v \<notin> S v \<and> sr v \<le> n \<and> w (sr v) (tg v) = Some (cost S m (tg v) v)"
    and "1 \<le> v \<Longrightarrow> v < N \<Longrightarrow> t \<in> S v \<Longrightarrow> s \<le> n \<Longrightarrow> s \<notin> S v \<Longrightarrow> w s t = Some x \<Longrightarrow> x \<le> cost S m t v"
    and "1 \<le> v \<Longrightarrow> v < N \<Longrightarrow> into v \<noteq> 0 \<Longrightarrow> sr v \<in> S (into v)"
    and "n < p \<Longrightarrow> p < N \<Longrightarrow> D \<noteq> {} \<Longrightarrow> D \<subseteq> {v \<in> {1..<N}. into v = p} \<Longrightarrow> (\<forall>v \<in> D. \<exists>v' \<in> D. sr v \<in> S v') \<Longrightarrow> D = {v \<in> {1..<N}. into v = p}"
    and "D \<noteq> {} \<Longrightarrow> D \<subseteq> {v \<in> {1..<N}. into v = 0} \<Longrightarrow> \<exists>v \<in> D. \<forall>v' \<in> D. sr v \<notin> S v'"
proof -
  note a = assms [unfolded certificate_def]
  show "nested n N S into" using a by blast
  show "1 \<le> v \<Longrightarrow> v < N \<Longrightarrow> tg v \<in> S v \<and> sr v \<notin> S v \<and> sr v \<le> n \<and> w (sr v) (tg v) = Some (cost S m (tg v) v)" using a by simp
  show "1 \<le> v \<Longrightarrow> v < N \<Longrightarrow> t \<in> S v \<Longrightarrow> s \<le> n \<Longrightarrow> s \<notin> S v \<Longrightarrow> w s t = Some x \<Longrightarrow> x \<le> cost S m t v" using a by simp
  show "1 \<le> v \<Longrightarrow> v < N \<Longrightarrow> into v \<noteq> 0 \<Longrightarrow> sr v \<in> S (into v)" using a by simp
  show "n < p \<Longrightarrow> p < N \<Longrightarrow> D \<noteq> {} \<Longrightarrow> D \<subseteq> {v \<in> {1..<N}. into v = p} \<Longrightarrow> (\<forall>v \<in> D. \<exists>v' \<in> D. sr v \<in> S v') \<Longrightarrow> D = {v \<in> {1..<N}. into v = p}"
    using a by (meson atLeastLessThan_iff Suc_leI)
  show "D \<noteq> {} \<Longrightarrow> D \<subseteq> {v \<in> {1..<N}. into v = 0} \<Longrightarrow> \<exists>v \<in> D. \<forall>v' \<in> D. sr v \<notin> S v'" using a by blast
qed

lemma contracted_score:
  assumes c: "certificate n N w S into sr tg m" and p: "n < p" "p < N"
  shows "m p \<le> 0"
proof -
  note nest = certificateD(1) [OF c]
  have p1: "1 \<le> p" using p by simp
  note arc = certificateD(2) [OF c p1 p(2)]
  obtain u where u: "1 \<le> u" "u < N" "into u = p" "tg p \<in> S u" using arc nestedD(5) [OF nest p] by auto
  have "S u \<subseteq> S p" using nestedD(5) [OF nest p] u by auto
  then have "sr p \<notin> S u" using arc by blast
  then have "cost S m (tg p) p \<le> cost S m (tg p) u" using certificateD(3) [OF c u(1,2,4), of "sr p"] arc by blast
  moreover have "cost S m (tg p) p = m p + cost S m (tg p) u" using cost_parent [OF nest u(1-3) _ u(4)] p1 by simp
  ultimately show ?thesis by simp
qed

lemma arc_bound:
  assumes c: "certificate n N w S into sr tg m" and t: "1 \<le> t" "t \<le> n" "s \<le> n" "s \<noteq> t" and w: "w s t = Some x"
  shows "x \<le> (\<Sum>u | u \<in> {1..<N} \<and> t \<in> S u \<and> s \<notin> S u. m u)"
proof -
  note nest = certificateD(1) [OF c]
  let ?E = "{u \<in> {1..<N}. t \<in> S u \<and> s \<notin> S u}"
  define v where "v = Max ?E"
  have "t \<in> ?E" using nestedD(1,2) [OF nest] t by auto
  then have "v \<in> ?E" unfolding v_def by (intro Max_in) auto
  then have v: "1 \<le> v" "v < N" "t \<in> S v" "s \<notin> S v" by auto
  have "u \<le> v" if "u \<in> ?E" for u unfolding v_def using that by (intro Max_ge) auto
  moreover have "u \<in> ?E" if "1 \<le> u" "u \<le> v" "t \<in> S u" for u
    using nested_mono [OF nest that(1,2) v(2) that(3) v(3)] v that by auto
  ultimately have "{u. 1 \<le> u \<and> u \<le> v \<and> t \<in> S u} = ?E" by auto
  then show ?thesis using certificateD(3) [OF c v(1-3) t(3) v(4) w] by (simp add: cost_def)
qed

lemma entering_sum:
  assumes "\<forall>u \<in> U. finite (A u)" and "finite U" and "finite X" and "\<forall>u \<in> U. A u = {t \<in> X. P t u}"
  shows "(\<Sum>t \<in> X. \<Sum>u | u \<in> U \<and> P t u. m u) = (\<Sum>u \<in> U. of_nat (card (A u)) * (m u :: 'a :: linordered_idom))"
proof -
  have "(\<Sum>t \<in> X. \<Sum>u | u \<in> U \<and> P t u. m u) = (\<Sum>u \<in> U. \<Sum>t | t \<in> X \<and> P t u. m u)"
    by (rule sum.swap_restrict [OF assms(3,2)])
  also have "\<dots> = (\<Sum>u \<in> U. of_nat (card (A u)) * m u)" using assms(4) by (intro sum.cong) auto
  finally show ?thesis .
qed

lemma dual_bound:
  assumes c: "certificate n N w S into sr tg m" and f: "arborescence n f" "feasible n w f"
  shows "branching_score n w f \<le> (\<Sum>v \<in> {1..<N}. m v)"
proof -
  note nest = certificateD(1) [OF c]
  have no_loop: "f t \<noteq> t" "f t \<le> n" if "t \<in> {1..n}" for t
    using f(1) that unfolding arborescence_def by (auto dest: spec [of _ "{t}"])
  let ?A = "\<lambda>u. {t \<in> {1..n}. t \<in> S u \<and> f t \<notin> S u}"
  have "branching_score n w f \<le> (\<Sum>t \<in> {1..n}. \<Sum>u | u \<in> {1..<N} \<and> t \<in> S u \<and> f t \<notin> S u. m u)"
    unfolding branching_score_def
  proof (rule sum_mono)
    fix t assume t: "t \<in> {1..n}"
    then obtain x where "w (f t) t = Some x" using f(2) unfolding feasible_def by blast
    then show "the (w (f t) t) \<le> (\<Sum>u | u \<in> {1..<N} \<and> t \<in> S u \<and> f t \<notin> S u. m u)"
      using arc_bound [OF c, of t "f t" x] no_loop [OF t] t by simp
  qed
  also have "\<dots> = (\<Sum>u \<in> {1..<N}. of_nat (card (?A u)) * m u)" by (rule entering_sum) auto
  also have "\<dots> \<le> (\<Sum>u \<in> {1..<N}. m u)"
  proof (rule sum_mono)
    fix u assume u: "u \<in> {1..<N}"
    have S: "S u \<subseteq> {1..n}" using nestedD(3) [OF nest] u by simp
    have "tg u \<in> S u" using certificateD(2) [OF c, of u] u by simp
    then obtain t where "t \<in> S u" "f t \<notin> S u" using f(1) S unfolding arborescence_def by blast
    then have "t \<in> ?A u" using S by auto
    then have pos: "1 \<le> card (?A u)" by (simp add: Suc_le_eq card_gt_0_iff) blast
    show "of_nat (card (?A u)) * m u \<le> m u"
    proof (cases "u \<le> n")
      case True
      then have "S u = {u}" using nestedD(2) [OF nest] u by simp
      then have "?A u = {u}" using no_loop [of u] True u by auto
      then show ?thesis by simp
    next
      case False
      then have "m u \<le> 0" using contracted_score [OF c] u by simp
      then show ?thesis using pos mult_right_mono_neg [of 1 "of_nat (card (?A u))" "m u"] by simp
    qed
  qed
  finally show ?thesis .
qed

section \<open>Expanding the contractions\<close>

text \<open>
  Going down from the top, a node is selected unless a node selected before has its arc enter it; the
  arcs of the selected nodes are the branching.
\<close>

definition selection :: "nat \<Rightarrow> (nat \<Rightarrow> nat set) \<Rightarrow> (nat \<Rightarrow> nat) \<Rightarrow> (nat \<Rightarrow> bool) \<Rightarrow> bool" where
  "selection N S tg sel \<longleftrightarrow> (\<forall>v \<in> {1..<N}. sel v \<longleftrightarrow> \<not> (\<exists>z. v < z \<and> z < N \<and> sel z \<and> tg z \<in> S v))"

lemma selectionD:
  assumes "selection N S tg sel" and "1 \<le> v" and "v < N"
  shows "sel v \<longleftrightarrow> \<not> (\<exists>z. v < z \<and> z < N \<and> sel z \<and> tg z \<in> S v)"
  using assms by (auto simp: selection_def)

lemma selected_cover:
  assumes c: "certificate n N w S into sr tg m" and s: "selection N S tg sel" and u: "1 \<le> u" "u < N"
  shows "\<exists>!v. u \<le> v \<and> v < N \<and> sel v \<and> tg v \<in> S u"
proof (rule ex_ex1I)
  show "\<exists>v. u \<le> v \<and> v < N \<and> sel v \<and> tg v \<in> S u"
    using selectionD [OF s u] certificateD(2) [OF c u] u by (meson less_imp_le order_refl)
  note nest = certificateD(1) [OF c]
  have gen: False if "u \<le> v" "sel v" "tg v \<in> S u" "v < v'" "v' < N" "sel v'" "tg v' \<in> S u" for v v'
  proof -
    have v: "1 \<le> v" "v < N" using that u by auto
    have "S u \<subseteq> S v" using nested_mono [OF nest u(1) that(1) v(2) that(3)] certificateD(2) [OF c v] by blast
    then have "tg v' \<in> S v" using that by blast
    then show False using selectionD [OF s v] that by blast
  qed
  fix v v' assume "u \<le> v \<and> v < N \<and> sel v \<and> tg v \<in> S u" "u \<le> v' \<and> v' < N \<and> sel v' \<and> tg v' \<in> S u"
  then show "v = v'" using gen [of v v'] gen [of v' v] by (metis linorder_neqE_nat)
qed

lemma target_below:
  assumes "nested n N S into" and "1 \<le> v" and "v < N" and "t \<in> S v"
  shows "1 \<le> t \<and> t \<le> n \<and> t \<le> v"
proof (cases "v \<le> n")
  case True
  then show ?thesis using nestedD(2) [OF assms(1,2) True] assms by simp
next
  case False
  then show ?thesis using nestedD(3) [OF assms(1-3)] assms(4) by auto
qed

lemma selected_target:
  assumes c: "certificate n N w S into sr tg m" and s: "selection N S tg sel" and t: "1 \<le> t" "t \<le> n"
  shows "\<exists>!v. v \<in> {1..<N} \<and> sel v \<and> tg v = t"
proof -
  note nest = certificateD(1) [OF c]
  have tN: "t < N" using nestedD(1) [OF nest] t by simp
  have "(t \<le> v \<and> v < N \<and> sel v \<and> tg v \<in> S t) \<longleftrightarrow> (v \<in> {1..<N} \<and> sel v \<and> tg v = t)" for v
    using nestedD(2) [OF nest t] target_below [OF nest, of v t] certificateD(2) [OF c, of v] t by auto
  then show ?thesis using selected_cover [OF c s t(1) tN] by simp
qed

lemma ex1_card: "\<exists>!x. P x \<Longrightarrow> card {x. P x} = 1"
  by (auto simp: card_1_singleton_iff)

lemma selected_score:
  assumes c: "certificate n N w S into sr tg m" and s: "selection N S tg sel"
    and f: "\<forall>v \<in> {1..<N}. sel v \<longrightarrow> f (tg v) = sr v"
  shows "feasible n w f \<and> branching_score n w f = (\<Sum>v \<in> {1..<N}. m v)"
proof
  note nest = certificateD(1) [OF c]
  let ?V = "{v \<in> {1..<N}. sel v}"
  have arc: "w (f (tg v)) (tg v) = Some (cost S m (tg v) v)" if "v \<in> ?V" for v
    using certificateD(2) [OF c, of v] f that by auto
  have inj: "inj_on tg ?V"
  proof (rule inj_onI)
    fix v v' assume v: "v \<in> ?V" "v' \<in> ?V" "tg v = tg v'"
    have "1 \<le> tg v" "tg v \<le> n" using target_below [OF nest, of v "tg v"] certificateD(2) [OF c, of v] v by auto
    then have u: "\<exists>!z. z \<in> {1..<N} \<and> sel z \<and> tg z = tg v" by (rule selected_target [OF c s])
    obtain x where x: "\<forall>y. y \<in> {1..<N} \<and> sel y \<and> tg y = tg v \<longrightarrow> y = x" by (rule ex1E [OF u]) (rule that)
    have "v = x" "v' = x" using spec [OF x, of v] spec [OF x, of v'] v by simp_all
    then show "v = v'" by simp
  qed
  have img: "tg ` ?V = {1..n}"
  proof (intro equalityI subsetI)
    fix t assume "t \<in> tg ` ?V"
    then obtain v where "1 \<le> v" "v < N" "t = tg v" by auto
    then show "t \<in> {1..n}" using target_below [OF nest, of v t] certificateD(2) [OF c, of v] by simp
  next
    fix t assume "t \<in> {1..n}"
    then obtain v where "v \<in> ?V" "tg v = t" using selected_target [OF c s, of t] by auto
    then show "t \<in> tg ` ?V" by blast
  qed
  show "feasible n w f" unfolding feasible_def img [symmetric] using arc by simp
  have cost: "cost S m (tg v) v = (\<Sum>u | u \<in> {1..<N} \<and> u \<le> v \<and> tg v \<in> S u. m u)" if "v \<in> ?V" for v
    unfolding cost_def using that by (intro sum.cong) auto
  have "branching_score n w f = (\<Sum>v \<in> ?V. the (w (f (tg v)) (tg v)))"
    unfolding branching_score_def img [symmetric] sum.reindex [OF inj] comp_def ..
  also have "\<dots> = (\<Sum>v \<in> ?V. \<Sum>u | u \<in> {1..<N} \<and> u \<le> v \<and> tg v \<in> S u. m u)"
    using arc cost by (intro sum.cong) auto
  also have "\<dots> = (\<Sum>u \<in> {1..<N}. of_nat (card {v \<in> ?V. u \<le> v \<and> tg v \<in> S u}) * m u)" by (rule entering_sum) auto
  also have "\<dots> = (\<Sum>u \<in> {1..<N}. m u)"
  proof (rule sum.cong)
    fix u assume u: "u \<in> {1..<N}"
    then have "card {v. u \<le> v \<and> v < N \<and> sel v \<and> tg v \<in> S u} = 1" using selected_cover [OF c s, of u] by (intro ex1_card) simp
    moreover have "{v \<in> ?V. u \<le> v \<and> tg v \<in> S u} = {v. u \<le> v \<and> v < N \<and> sel v \<and> tg v \<in> S u}" using u by auto
    ultimately show "of_nat (card {v \<in> ?V. u \<le> v \<and> tg v \<in> S u}) * m u = m u" by simp
  qed simp
  finally show "branching_score n w f = (\<Sum>v \<in> {1..<N}. m v)" .
qed

text \<open>An arc of the branching that enters a node is the node's own, or that of a node around its parent.\<close>

lemma entering_arc:
  assumes c: "certificate n N w S into sr tg m" and v: "1 \<le> v" "v < N" and z: "1 \<le> z" "z < N" "tg z \<in> S v" "sr z \<notin> S v" "z \<noteq> v"
  shows "into v \<noteq> 0 \<and> S (into v) \<subseteq> S z"
proof -
  note nest = certificateD(1) [OF c]
  have tz: "tg z \<in> S z" using certificateD(2) [OF c z(1,2)] by blast
  have "\<not> z < v"
  proof
    assume zv: "z < v"
    note i = nestedD(6) [OF nest z(1) zv v(2) tz z(3)]
    then have b: "z < into z" "n < into z" "into z < N" using nestedD(4) [OF nest z(1,2)] by auto
    have "tg z \<in> S (into z)" using nestedD(5) [OF nest b(2,3)] z tz by auto
    then have "S (into z) \<subseteq> S v" using nested_mono [OF nest _ _ v(2) _ z(3)] i b by auto
    then show False using certificateD(4) [OF c z(1,2)] i z(4) by blast
  qed
  then have vz: "v < z" using z(5) by simp
  note i = nestedD(6) [OF nest v(1) vz z(2) z(3) tz]
  then have b: "v < into v" "n < into v" "into v < N" using nestedD(4) [OF nest v] by auto
  have "tg z \<in> S (into v)" using nestedD(5) [OF nest b(2,3)] v z by auto
  then show ?thesis using nested_mono [OF nest _ _ z(2) _ tz] i b by auto
qed

lemma selected_open:
  assumes c: "certificate n N w S into sr tg m" and s: "selection N S tg sel"
    and f: "\<forall>v \<in> {1..<N}. sel v \<longrightarrow> f (tg v) = sr v"
  shows "1 \<le> v \<Longrightarrow> v < N \<Longrightarrow> C \<subseteq> S v \<Longrightarrow> C \<noteq> {} \<Longrightarrow> \<exists>t \<in> C. f t \<notin> C"
proof (induction v arbitrary: C rule: less_induct)
  case (less v)
  note nest = certificateD(1) [OF c] and v = less.prems(1,2)
  show ?case
  proof (cases "v \<le> n")
    case True
    then have Sv: "S v = {v}" using nestedD(2) [OF nest] v by simp
    then have C: "C = {v}" using less.prems(3,4) by auto
    obtain z where z: "z \<in> {1..<N}" "sel z" "tg z = v" using selected_target [OF c s, of v] v True by blast
    then have "f v = sr z" "sr z \<notin> S z" "v \<in> S z" using f certificateD(2) [OF c, of z] by auto
    then show ?thesis using C by auto
  next
    case False
    then have vn: "n < v" by simp
    show ?thesis
    proof (rule ccontr)
      assume "\<not> (\<exists>t \<in> C. f t \<notin> C)"
      then have closed: "\<And>t. t \<in> C \<Longrightarrow> f t \<in> C" by blast
      let ?ch = "{u \<in> {1..<N}. into u = v}"
      let ?D = "{u \<in> ?ch. C \<inter> S u \<noteq> {}}"
      have sub: "S u \<subseteq> S v" if "u \<in> ?ch" for u using nestedD(5) [OF nest vn v(2)] that by auto
      have own: "sel u \<and> sr u \<in> C" if u: "u \<in> ?D" for u
      proof -
        have u1: "1 \<le> u" "u < N" "into u = v" "u < v" using u nestedD(4) [OF nest, of u] v by auto
        obtain t where t: "t \<in> C" "t \<in> S u" "f t \<notin> S u" using less.IH [OF u1(4,1,2), of "C \<inter> S u"] u closed by auto
        obtain z where z: "1 \<le> z" "z < N" "sel z" "tg z = t"
          using selected_target [OF c s, of t] target_below [OF nest u1(1,2) t(2)] by auto
        have ft: "f t = sr z" using f z by auto
        have "z = u"
        proof (rule ccontr)
          assume "z \<noteq> u"
          then have "S v \<subseteq> S z" using entering_arc [OF c u1(1,2) z(1,2)] z(4) t ft u1(3) by simp
          moreover have "sr z \<in> S v" using closed [OF t(1)] ft less.prems(3) by auto
          ultimately show False using certificateD(2) [OF c z(1,2)] by blast
        qed
        then show ?thesis using z(3) closed [OF t(1)] ft by simp
      qed
      have "?D \<noteq> {}" using less.prems(3,4) nestedD(5) [OF nest vn v(2)] by auto
      moreover have "\<exists>u' \<in> ?D. sr u \<in> S u'" if u: "u \<in> ?D" for u
      proof -
        have "sr u \<in> S v" using own [OF u] less.prems(3) by blast
        then show ?thesis using nestedD(5) [OF nest vn v(2)] own [OF u] by auto
      qed
      ultimately have D: "?D = ?ch" using certificateD(5) [OF c vn v(2), of ?D] by blast
      obtain z where z: "v \<le> z" "z < N" "sel z" "tg z \<in> S v" using selected_cover [OF c s v] by blast
      then obtain u where u: "u \<in> ?ch" "tg z \<in> S u" using nestedD(5) [OF nest vn v(2)] by auto
      then have "u < z" using nestedD(4) [OF nest, of u] v z by auto
      then have "\<not> sel u" using selectionD [OF s, of u] u z by auto
      then show False using own [of u] u D by blast
    qed
  qed
qed

theorem expansion_optimal:
  assumes c: "certificate n N w S into sr tg m" and s: "selection N S tg sel"
    and f: "\<forall>v \<in> {1..<N}. sel v \<longrightarrow> f (tg v) = sr v"
  shows "arborescence n f \<and> feasible n w f \<and>
    (\<forall>g. arborescence n g \<longrightarrow> feasible n w g \<longrightarrow> branching_score n w g \<le> branching_score n w f)"
proof -
  note nest = certificateD(1) [OF c]
  have "\<exists>t \<in> C. f t \<notin> C" if C: "C \<subseteq> {1..n}" "C \<noteq> {}" for C
  proof (rule ccontr)
    assume "\<not> (\<exists>t \<in> C. f t \<notin> C)"
    then have closed: "\<And>t. t \<in> C \<Longrightarrow> f t \<in> C" by blast
    let ?top = "{u \<in> {1..<N}. into u = 0}"
    have topmost: "\<exists>u \<in> ?top. t \<in> S u" if "1 \<le> u" "u < N" "t \<in> S u" for t u
      using that
    proof (induction "N - u" arbitrary: u rule: less_induct)
      case less
      show ?case
      proof (cases "into u = 0")
        case False
        then have b: "u < into u" "n < into u" "into u < N" using nestedD(4) [OF nest less.prems(1,2)] by auto
        then have "t \<in> S (into u)" using nestedD(5) [OF nest b(2,3)] less.prems by auto
        then show ?thesis using less.hyps [of "into u"] b less.prems by auto
      qed (use less.prems in auto)
    qed
    let ?D = "{u \<in> ?top. C \<inter> S u \<noteq> {}}"
    have in_D: "\<exists>u \<in> ?D. t \<in> S u" if "t \<in> C" for t
    proof -
      have "1 \<le> t" "t \<le> n" using that C(1) by auto
      then show ?thesis using topmost [of t t] nestedD(1,2) [OF nest] that by fastforce
    qed
    have "?D \<noteq> {}" using in_D C(2) by blast
    then obtain u where u: "u \<in> ?D" "\<forall>u' \<in> ?D. sr u \<notin> S u'" using certificateD(6) [OF c, of ?D] by blast
    then have u1: "1 \<le> u" "u < N" "into u = 0" "C \<inter> S u \<noteq> {}" by auto
    then obtain t where t: "t \<in> C" "t \<in> S u" "f t \<notin> S u" using selected_open [OF c s f u1(1,2), of "C \<inter> S u"] closed by auto
    have "1 \<le> t" "t \<le> n" using t(1) C(1) by auto
    then obtain z where z: "1 \<le> z" "z < N" "sel z" "tg z = t" using selected_target [OF c s, of t] by auto
    have ft: "f t = sr z" using f z by auto
    have "z = u" using entering_arc [OF c u1(1,2) z(1,2)] z(4) t ft u1(3) by auto
    then show False using in_D [OF closed [OF t(1)]] ft u(2) by auto
  qed
  moreover have "f t \<le> n" if t: "t \<in> {1..n}" for t
  proof -
    obtain z where z: "1 \<le> z" "z < N" "sel z" "tg z = t" using selected_target [OF c s, of t] t by auto
    then show ?thesis using certificateD(2) [OF c z(1,2)] f by auto
  qed
  ultimately have "arborescence n f" by (simp add: arborescence_def)
  then show ?thesis using selected_score [OF c s f] dual_bound [OF c] by auto
qed

text \<open>When no arc enters a set of nodes there is no branching at all.\<close>

lemma no_branching:
  assumes "C \<subseteq> {1..n}" and "C \<noteq> {}" and "\<forall>t \<in> C. \<forall>s \<le> n. s \<notin> C \<longrightarrow> w s t = None"
  shows "\<not> (arborescence n f \<and> feasible n w f)"
proof
  assume a: "arborescence n f \<and> feasible n w f"
  then obtain t where t: "t \<in> C" "f t \<notin> C" using assms(1,2) unfolding arborescence_def by blast
  then have "f t \<le> n" "w (f t) t \<noteq> None" using a assms(1) unfolding arborescence_def feasible_def by blast+
  then show False using assms(3) t by simp
qed

end
