(* ===== verification/Mst_Solver.thy ===== *)
theory Mst_Solver
  imports Complex_Main Branchings Spanning_Tree_Iterator
begin

text \<open>
  The maximum spanning tree solver of \<^verbatim>\<open>dragnn/mst/mst_solver.h\<close>, and the function of the kernel in
  \<^verbatim>\<open>dragnn/mst/ops/mst_op_kernels.cc\<close> that runs it on a matrix of scores.

  The class is the record \<open>mst_solver\<close>. Its parameter \<^verbatim>\<open>Score\<close> is the record \<open>score_type\<close>: the finite values of the type are elements of an
  ordered ring, \<open>st_round\<close> gives the value that an operation with a given exact result returns, and \<open>st_lowest\<close> and \<open>st_highest\<close>
  are the limits of the type. The kernels are registered for \<^verbatim>\<open>int32\<close>, where the result wraps around, and for \<^verbatim>\<open>float\<close> and
  \<^verbatim>\<open>double\<close>, where it is rounded to the nearest value; infinities and NaN are not values of the model, so a floating-point
  computation is represented as long as it does not overflow. \<open>null\<close> is \<^verbatim>\<open>kNullIndex\<close>, the largest value of the index
  type; \<^verbatim>\<open>Init\<close> rejects digraphs for which twice the number of nodes does not stay below it, so that indices
  never wrap. A pointer to an arc is its position in \<open>arcs_\<close>; the vector must not grow beyond its
  reserved capacity, since that would leave the pointers dangling, so growing further is undefined.
  \<^verbatim>\<open>DCHECK\<close>s are not tests.
\<close>

section \<open>Scores\<close>

record 's score_type =
  st_round :: "'s \<Rightarrow> 's"
  st_lowest :: 's
  st_highest :: 's

definition int32_scores :: "int score_type" where
  "int32_scores = \<lparr>st_round = wrap32, st_lowest = - (2 ^ 31), st_highest = 2 ^ 31 - 1\<rparr>"

text \<open>Rounding to the nearest multiple of a power of two with \<open>p\<close> significant bits and a least exponent, ties to even.\<close>

definition round_even :: "real \<Rightarrow> int" where
  "round_even y = (let r = y - of_int \<lfloor>y\<rfloor> in if r < 1 / 2 \<or> r = 1 / 2 \<and> even \<lfloor>y\<rfloor> then \<lfloor>y\<rfloor> else \<lfloor>y\<rfloor> + 1)"

definition float_round :: "nat \<Rightarrow> int \<Rightarrow> real \<Rightarrow> real" where
  "float_round p emin x = (let e = max (\<lfloor>log 2 \<bar>x\<bar>\<rfloor> + 1 - int p) emin in of_int (round_even (x / 2 powr e)) * 2 powr e)"

definition float_scores :: "real score_type" where
  "float_scores = \<lparr>st_round = float_round 24 (-149), st_lowest = - ((2 - 2 powr -23) * 2 powr 127), st_highest = (2 - 2 powr -23) * 2 powr 127\<rparr>"

definition double_scores :: "real score_type" where
  "double_scores = \<lparr>st_round = float_round 53 (-1074), st_lowest = - ((2 - 2 powr -52) * 2 powr 1023), st_highest = (2 - 2 powr -52) * 2 powr 1023\<rparr>"

section \<open>The solver\<close>

record 's mst_arc =
  arc_score :: 's
  arc_source :: nat
  arc_target :: nat

definition null_arc :: "'s :: linordered_idom mst_arc" where
  "null_arc = \<lparr>arc_score = 0, arc_source = 0, arc_target = 0\<rparr>"

definition arc_Exists :: "'s mst_arc \<Rightarrow> bool" where
  "arc_Exists arc \<longleftrightarrow> arc_target arc \<noteq> 0"

definition arc_IsRoot :: "'s mst_arc \<Rightarrow> bool" where
  "arc_IsRoot arc \<longleftrightarrow> arc_source arc = 0"

record 's mst_solver =
  ms_forest :: bool
  ms_num_original_nodes :: nat
  ms_num_initial_nodes :: nat
  ms_num_possible_nodes :: nat
  ms_num_current_nodes :: nat
  ms_arcs :: "'s mst_arc list"
  ms_weak_components :: dsf
  ms_strong_components :: dsf
  ms_contracted_nodes :: dsf
  ms_contracted_into :: "nat list"
  ms_argmax_arcs :: "nat option list"

definition new_MstSolver :: "'s mst_solver" where
  "new_MstSolver = \<lparr>ms_forest = False, ms_num_original_nodes = 0, ms_num_initial_nodes = 0, ms_num_possible_nodes = 0,
     ms_num_current_nodes = 0, ms_arcs = [], ms_weak_components = empty_dsf, ms_strong_components = empty_dsf,
     ms_contracted_nodes = empty_dsf, ms_contracted_into = [], ms_argmax_arcs = []\<rparr>"

datatype mst_error = InvalidArgument | FailedPrecondition

definition mst_Init :: "nat \<Rightarrow> bool \<Rightarrow> nat \<Rightarrow> 's :: linordered_idom mst_solver \<Rightarrow> (mst_error + 's mst_solver) option" where
  "mst_Init null forest num_nodes s =
     (if num_nodes = 0 then Some (Inl InvalidArgument)
      else if 2 * num_nodes \<ge> null then Some (Inl InvalidArgument)
      else do {
        let num_initial_nodes = num_nodes + 1;
        let num_possible_nodes = 2 * num_nodes;
        weak \<leftarrow> dsf_Init True num_initial_nodes (ms_weak_components s);
        strong \<leftarrow> dsf_Init True num_initial_nodes (ms_strong_components s);
        contracted \<leftarrow> dsf_Init False num_possible_nodes (ms_contracted_nodes s);
        Some (Inr (s\<lparr>ms_forest := forest, ms_num_original_nodes := num_nodes, ms_num_initial_nodes := num_initial_nodes,
          ms_num_possible_nodes := num_possible_nodes, ms_num_current_nodes := num_initial_nodes,
          ms_arcs := replicate (num_initial_nodes * num_initial_nodes) null_arc,
          ms_weak_components := weak, ms_strong_components := strong, ms_contracted_nodes := contracted,
          ms_contracted_into := replicate num_possible_nodes 0, ms_argmax_arcs := replicate num_possible_nodes None\<rparr>)) })"

definition ArcIndex :: "nat \<Rightarrow> nat \<Rightarrow> 's mst_solver \<Rightarrow> nat" where
  "ArcIndex source target s = source + target * ms_num_initial_nodes s"

definition mst_AddArc :: "nat \<Rightarrow> nat \<Rightarrow> 's \<Rightarrow> 's mst_solver \<Rightarrow> 's mst_solver option" where
  "mst_AddArc source target score s = do {
     arcs \<leftarrow> vec_set (ms_arcs s) (int (ArcIndex (source + 1) (target + 1) s))
               \<lparr>arc_score = score, arc_source = source + 1, arc_target = target + 1\<rparr>;
     Some (s\<lparr>ms_arcs := arcs\<rparr>) }"

definition mst_AddRoot :: "nat \<Rightarrow> 's \<Rightarrow> 's mst_solver \<Rightarrow> 's mst_solver option" where
  "mst_AddRoot node score s = do {
     arcs \<leftarrow> vec_set (ms_arcs s) (int (ArcIndex 0 (node + 1) s)) \<lparr>arc_score = score, arc_source = 0, arc_target = node + 1\<rparr>;
     Some (s\<lparr>ms_arcs := arcs\<rparr>) }"

fun score_range :: "'s :: linordered_idom mst_arc list \<Rightarrow> 's \<times> 's \<Rightarrow> 's \<times> 's" where
  "score_range [] acc = acc"
| "score_range (arc # arcs) (max_score, min_score) = score_range arcs
     (if \<not> arc_Exists arc then (max_score, min_score)
      else (max max_score (arc_score arc), min min_score (arc_score arc)))"

definition MaybePenalizeRootScoresForTree :: "'s :: linordered_idom score_type \<Rightarrow> 's mst_solver \<Rightarrow> 's mst_solver option" where
  "MaybePenalizeRootScoresForTree st s =
     (if ms_forest s then Some s
      else let (max_score, min_score) = score_range (ms_arcs s) (st_lowest st, st_highest st) in
        if max_score < min_score then Some s
        else do {
          let root_penalty = st_round st (1 + st_round st (of_nat (ms_num_initial_nodes s) * st_round st (max_score - min_score)));
          arcs \<leftarrow> foreach (\<lambda>rt arcs. do {
              arc \<leftarrow> vec_at arcs (int (ArcIndex 0 rt s));
              if \<not> arc_Exists arc then Some arcs
              else vec_set arcs (int (ArcIndex 0 rt s)) (arc\<lparr>arc_score := st_round st (arc_score arc - root_penalty)\<rparr>) })
            [1..<ms_num_initial_nodes s] (ms_arcs s);
          Some (s\<lparr>ms_arcs := arcs\<rparr>) })"

fun max_inbound_loop :: "'s :: linordered_idom mst_arc list \<Rightarrow> nat list \<Rightarrow> 's \<times> nat option \<Rightarrow> nat option option" where
  "max_inbound_loop arcs [] (max_score, argmax_arc) = Some argmax_arc"
| "max_inbound_loop arcs (i # rest) (max_score, argmax_arc) = do {
     arc \<leftarrow> vec_at arcs (int i);
     if \<not> arc_Exists arc then max_inbound_loop arcs rest (max_score, argmax_arc)
     else if max_score \<le> arc_score arc then max_inbound_loop arcs rest (arc_score arc, Some i)
     else max_inbound_loop arcs rest (max_score, argmax_arc) }"

definition MaximumInboundArc :: "'s :: linordered_idom score_type \<Rightarrow> nat \<Rightarrow> 's mst_solver \<Rightarrow> nat option option" where
  "MaximumInboundArc st node s =
     max_inbound_loop (ms_arcs s) [ArcIndex 0 node s..<ArcIndex 0 node s + ms_num_initial_nodes s] (st_lowest st, None)"

definition merge_arc ::
  "'s score_type \<Rightarrow> 's \<Rightarrow> nat \<times> nat \<Rightarrow> 's :: linordered_idom mst_arc list \<times> dsf \<Rightarrow> ('s mst_arc list \<times> dsf) option" where
  "merge_arc st score_offset = (\<lambda>(i, j) (arcs, strong). do {
     cycle_arc \<leftarrow> vec_at arcs (int i);
     if \<not> arc_Exists cycle_arc then Some (arcs, strong)
     else do {
       (same, strong) \<leftarrow> SameSet (arc_source cycle_arc) (arc_target cycle_arc) strong;
       if same then Some (arcs, strong)
       else do {
         let cycle_score = st_round st (arc_score cycle_arc + score_offset);
         contracted_arc \<leftarrow> vec_at arcs (int j);
         if \<not> arc_Exists contracted_arc \<or> arc_score contracted_arc < cycle_score then do {
           arcs \<leftarrow> vec_set arcs (int j) (contracted_arc\<lparr>arc_score := cycle_score, arc_source := arc_source cycle_arc, arc_target := arc_target cycle_arc\<rparr>);
           Some (arcs, strong) }
         else Some (arcs, strong) } } })"

definition MergeInboundArcs :: "'s score_type \<Rightarrow> nat \<Rightarrow> 's \<Rightarrow> nat \<Rightarrow> 's :: linordered_idom mst_solver \<Rightarrow> 's mst_solver option" where
  "MergeInboundArcs st cycle_node score_offset contracted_node s = do {
     (arcs, strong) \<leftarrow> foreach (merge_arc st score_offset)
        (map (\<lambda>k. (ArcIndex 0 cycle_node s + k, ArcIndex 0 contracted_node s + k)) [0..<ms_num_initial_nodes s])
        (ms_arcs s, ms_strong_components s);
     Some (s\<lparr>ms_arcs := arcs, ms_strong_components := strong\<rparr>) }"

text \<open>The first pass through a cycle, which collects its nodes and arcs; it is a partial function.\<close>

partial_function (option) cycle_loop ::
  "nat \<Rightarrow> nat \<Rightarrow> (nat \<times> nat) list \<Rightarrow> 's mst_solver \<Rightarrow> ((nat \<times> nat) list \<times> 's mst_solver) option" where
  "cycle_loop contracted_node cycle_node cycle s = do {
     p \<leftarrow> vec_at (ms_argmax_arcs s) (int cycle_node);
     i \<leftarrow> p;
     cycle_arc \<leftarrow> vec_at (ms_arcs s) (int i);
     let cycle = cycle @ [(cycle_node, i)];
     strong \<leftarrow> Union True (arc_source cycle_arc) (arc_target cycle_arc) (ms_strong_components s);
     (next_node, contracted) \<leftarrow> FindRoot (arc_source cycle_arc) (ms_contracted_nodes s);
     contracted \<leftarrow> UnionOfRoots False cycle_node contracted_node contracted;
     into \<leftarrow> vec_set (ms_contracted_into s) (int cycle_node) contracted_node;
     let s = s\<lparr>ms_strong_components := strong, ms_contracted_nodes := contracted, ms_contracted_into := into\<rparr>;
     if next_node \<noteq> contracted_node then cycle_loop contracted_node next_node cycle s else Some (cycle, s) }"

declare cycle_loop.simps [code]

definition ContractCycle :: "'s score_type \<Rightarrow> nat \<Rightarrow> 's :: linordered_idom mst_solver \<Rightarrow> 's mst_solver option" where
  "ContractCycle st node s = do {
     let contracted_node = ms_num_current_nodes s;
     let s = s\<lparr>ms_num_current_nodes := ms_num_current_nodes s + 1\<rparr>;
     check (length (ms_arcs s) + ms_num_initial_nodes s \<le> ms_num_initial_nodes s * ms_num_possible_nodes s);
     let s = s\<lparr>ms_arcs := ms_arcs s @ replicate (ms_num_initial_nodes s) null_arc\<rparr>;
     (cycle, s) \<leftarrow> cycle_loop contracted_node node [] s;
     foreach (\<lambda>(cycle_node, i) s. do {
         arc \<leftarrow> vec_at (ms_arcs s) (int i);
         MergeInboundArcs st cycle_node (st_round st (- arc_score arc)) contracted_node s }) cycle s }"

partial_function (option) contraction_loop :: "'s score_type \<Rightarrow> nat \<Rightarrow> 's :: linordered_idom mst_solver \<Rightarrow> (mst_error + 's mst_solver) option" where
  "contraction_loop st target s =
     (if target < ms_num_current_nodes s then do {
        p \<leftarrow> MaximumInboundArc st target s;
        case p of
          None \<Rightarrow> Some (Inl FailedPrecondition)
        | Some i \<Rightarrow> do {
            argmax \<leftarrow> vec_set (ms_argmax_arcs s) (int target) (Some i);
            let s = s\<lparr>ms_argmax_arcs := argmax\<rparr>;
            arc \<leftarrow> vec_at (ms_arcs s) (int i);
            if arc_IsRoot arc then contraction_loop st (target + 1) s
            else do {
              (source_component, weak) \<leftarrow> FindRoot (arc_source arc) (ms_weak_components s);
              (target_component, weak) \<leftarrow> FindRoot (arc_target arc) weak;
              let s = s\<lparr>ms_weak_components := weak\<rparr>;
              if source_component = target_component then do {
                s \<leftarrow> ContractCycle st target s;
                contraction_loop st (target + 1) s }
              else do {
                weak \<leftarrow> UnionOfRoots True source_component target_component (ms_weak_components s);
                contraction_loop st (target + 1) (s\<lparr>ms_weak_components := weak\<rparr>) } } } }
      else Some (Inr s))"

declare contraction_loop.simps [code]

definition ContractionPhase :: "'s score_type \<Rightarrow> 's :: linordered_idom mst_solver \<Rightarrow> (mst_error + 's mst_solver) option" where
  "ContractionPhase st s = contraction_loop st 1 s"

partial_function (option) delete_loop :: "nat \<Rightarrow> nat \<Rightarrow> nat \<Rightarrow> nat list \<Rightarrow> nat list option" where
  "delete_loop null rt node into =
     (if node \<noteq> null \<and> node \<noteq> rt then do {
        parent \<leftarrow> vec_at into (int node);
        into \<leftarrow> vec_set into (int node) null;
        delete_loop null rt parent into }
      else Some into)"

declare delete_loop.simps [code]

definition expand_node :: "nat \<Rightarrow> nat \<Rightarrow> 's mst_solver \<Rightarrow> 's mst_solver option" where
  "expand_node null i s = do {
     state \<leftarrow> vec_at (ms_contracted_into s) (int i);
     if state = null then Some s
     else do {
       let rt = i;
       p \<leftarrow> vec_at (ms_argmax_arcs s) (int rt);
       j \<leftarrow> p;
       arc \<leftarrow> vec_at (ms_arcs s) (int j);
       argmax_arcs \<leftarrow> vec_set (ms_argmax_arcs s) (int (arc_target arc)) (Some j);
       node \<leftarrow> vec_at (ms_contracted_into s) (int (arc_target arc));
       into \<leftarrow> delete_loop null rt node (ms_contracted_into s);
       Some (s\<lparr>ms_argmax_arcs := argmax_arcs, ms_contracted_into := into\<rparr>) } }"

definition copy_source :: "'s mst_solver \<Rightarrow> nat \<Rightarrow> nat \<times> nat list \<Rightarrow> (nat \<times> nat list) option" where
  "copy_source s target = (\<lambda>(num_roots, argmax). do {
     p \<leftarrow> vec_at (ms_argmax_arcs s) (int (target + 1));
     j \<leftarrow> p;
     arc \<leftarrow> vec_at (ms_arcs s) (int j);
     if arc_IsRoot arc then do {
       argmax \<leftarrow> vec_set argmax (int target) target;
       Some (num_roots + 1, argmax) }
     else do {
       argmax \<leftarrow> vec_set argmax (int target) (arc_source arc - 1);
       Some (num_roots, argmax) } })"

definition ExpansionPhase :: "nat \<Rightarrow> nat list \<Rightarrow> 's mst_solver \<Rightarrow> (mst_error + nat list \<times> 's mst_solver) option" where
  "ExpansionPhase null argmax s =
     (if length argmax < ms_num_original_nodes s then Some (Inl InvalidArgument)
      else do {
        s \<leftarrow> foreach (expand_node null) (rev [ms_num_initial_nodes s..<ms_num_current_nodes s]) s;
        (num_roots, argmax) \<leftarrow> foreach (copy_source s) [0..<ms_num_original_nodes s] (0, argmax);
        if \<not> ms_forest s \<and> num_roots \<noteq> 1 then Some (Inl FailedPrecondition)
        else Some (Inr (argmax, s)) })"

definition Solve :: "'s score_type \<Rightarrow> nat \<Rightarrow> nat list \<Rightarrow> 's :: linordered_idom mst_solver \<Rightarrow> (mst_error + nat list \<times> 's mst_solver) option" where
  "Solve st null argmax s = do {
     s \<leftarrow> MaybePenalizeRootScoresForTree st s;
     r \<leftarrow> ContractionPhase st s;
     case r of Inl e \<Rightarrow> Some (Inl e) | Inr s \<Rightarrow> ExpansionPhase null argmax s }"

section \<open>The kernel\<close>

text \<open>
  One problem of a batch. \<open>scores ! target ! source\<close> is \<open>None\<close> for a score that is not finite; \<open>input_dim\<close> is the
  size of the matrix. The number of nodes is cast to the 16-bit index type.
\<close>

definition score_at :: "'s option list list \<Rightarrow> nat \<Rightarrow> nat \<Rightarrow> 's option option" where
  "score_at scores target source = do { row \<leftarrow> vec_at scores (int target); vec_at row (int source) }"

definition add_score :: "'s option list list \<Rightarrow> nat \<times> nat \<Rightarrow> 's mst_solver \<Rightarrow> 's mst_solver option" where
  "add_score scores = (\<lambda>(target, source) s. do {
     x \<leftarrow> score_at scores target source;
     case x of
       None \<Rightarrow> Some s
     | Some score \<Rightarrow> if source = target then mst_AddRoot target score s else mst_AddArc source target score s })"

definition sum_source :: "'s score_type \<Rightarrow> 's :: linordered_idom option list list \<Rightarrow> nat list \<Rightarrow> nat \<Rightarrow> 's \<Rightarrow> 's option" where
  "sum_source st scores argmax target max_score = do {
     source \<leftarrow> vec_at argmax (int target);
     x \<leftarrow> score_at scores target source;
     score \<leftarrow> x;
     Some (st_round st (max_score + score)) }"

definition RunSolver :: "'s score_type \<Rightarrow> bool \<Rightarrow> int \<Rightarrow> nat \<Rightarrow> 's :: linordered_idom option list list \<Rightarrow> (mst_error + 's \<times> int list) option" where
  "RunSolver st forest num_nodes input_dim scores =
     (if num_nodes > int input_dim then Some (Inl InvalidArgument)
      else if num_nodes \<ge> 65535 then Some (Inl InvalidArgument)
      else do {
        let num_nodes_index = nat (num_nodes mod 65536);
        r \<leftarrow> mst_Init 65535 forest num_nodes_index new_MstSolver;
        case r of
          Inl e \<Rightarrow> Some (Inl e)
        | Inr solver \<Rightarrow> do {
            solver \<leftarrow> foreach (add_score scores) (List.product [0..<num_nodes_index] [0..<num_nodes_index]) solver;
            check (0 \<le> num_nodes);
            r \<leftarrow> Solve st 65535 (replicate (nat num_nodes) 0) solver;
            case r of
              Inl e \<Rightarrow> Some (Inl e)
            | Inr (argmax, _) \<Rightarrow> do {
                max_score \<leftarrow> foreach (sum_source st scores argmax) [0..<num_nodes_index] 0;
                Some (Inr (max_score, map int (take num_nodes_index argmax) @ replicate (input_dim - nat num_nodes) (-1))) } } })"

text \<open>
  The kernel itself checks the shapes of its two tensors and solves the problems of the batch; they write to different rows of
  the outputs, so that the order in which the threads run them does not matter. The first error in the order of the problems
  is reported.
\<close>

fun first_error :: "(mst_error + 'a) list \<Rightarrow> mst_error + 'a list" where
  "first_error [] = Inr []"
| "first_error (Inl e # rs) = Inl e"
| "first_error (Inr x # rs) = (case first_error rs of Inl e \<Rightarrow> Inl e | Inr xs \<Rightarrow> Inr (x # xs))"

definition mst_Compute ::
  "'s score_type \<Rightarrow> bool \<Rightarrow> nat list \<Rightarrow> int list \<Rightarrow> nat list \<Rightarrow> 's :: linordered_idom option list list list \<Rightarrow> (mst_error + ('s \<times> int list) list) option" where
  "mst_Compute st forest num_nodes_shape num_nodes scores_shape scores =
     (if length num_nodes_shape \<noteq> 1 then Some (Inl InvalidArgument)
      else if length scores_shape \<noteq> 3 then Some (Inl InvalidArgument)
      else do {
        let batch_size = scores_shape ! 0;
        let input_dim = scores_shape ! 1;
        if num_nodes_shape \<noteq> [batch_size] then Some (Inl InvalidArgument)
        else if scores_shape \<noteq> [batch_size, input_dim, input_dim] then Some (Inl InvalidArgument)
        else do {
          statuses \<leftarrow> foreach (\<lambda>problem statuses. do {
              num \<leftarrow> vec_at num_nodes (int problem);
              m \<leftarrow> vec_at scores (int problem);
              r \<leftarrow> RunSolver st forest num input_dim m;
              Some (statuses @ [r]) }) [0..<batch_size] [];
          Some (first_error statuses) } })"

end
