(* ===== verification/Mst_Exact.thy ===== *)
theory Mst_Exact
  imports Mst_Solver
begin

text \<open>
  The solver in exact arithmetic: the functions of \<open>Mst_Solver\<close> that compute with scores, with the arithmetic of an ordered ring instead of that of
  a score type, and with \<open>None\<close> instead of the extreme values of the type. This is the reference that the following theories
  prove to be optimal; \<open>Mst_Machine\<close> shows that the solver agrees with it as long as the scores leave enough room.
\<close>

fun exact_score_range :: "'s :: linordered_idom mst_arc list \<Rightarrow> ('s \<times> 's) option \<Rightarrow> ('s \<times> 's) option" where
  "exact_score_range [] acc = acc"
| "exact_score_range (arc # arcs) acc = exact_score_range arcs
     (if \<not> arc_Exists arc then acc
      else case acc of
        None \<Rightarrow> Some (arc_score arc, arc_score arc)
      | Some (max_score, min_score) \<Rightarrow> Some (max max_score (arc_score arc), min min_score (arc_score arc)))"

definition exact_MaybePenalizeRootScoresForTree :: "'s :: linordered_idom mst_solver \<Rightarrow> 's mst_solver option" where
  "exact_MaybePenalizeRootScoresForTree s =
     (if ms_forest s then Some s
      else case exact_score_range (ms_arcs s) None of
        None \<Rightarrow> Some s
      | Some (max_score, min_score) \<Rightarrow> do {
          let root_penalty = 1 + of_nat (ms_num_initial_nodes s) * (max_score - min_score);
          arcs \<leftarrow> foreach (\<lambda>rt arcs. do {
              arc \<leftarrow> vec_at arcs (int (ArcIndex 0 rt s));
              if \<not> arc_Exists arc then Some arcs
              else vec_set arcs (int (ArcIndex 0 rt s)) (arc\<lparr>arc_score := arc_score arc - root_penalty\<rparr>) })
            [1..<ms_num_initial_nodes s] (ms_arcs s);
          Some (s\<lparr>ms_arcs := arcs\<rparr>) })"

fun exact_max_inbound_loop :: "'s :: linordered_idom mst_arc list \<Rightarrow> nat list \<Rightarrow> ('s \<times> nat) option \<Rightarrow> nat option option" where
  "exact_max_inbound_loop arcs [] best = Some (map_option snd best)"
| "exact_max_inbound_loop arcs (i # rest) best = do {
     arc \<leftarrow> vec_at arcs (int i);
     if \<not> arc_Exists arc then exact_max_inbound_loop arcs rest best
     else if (case best of None \<Rightarrow> True | Some (max_score, _) \<Rightarrow> max_score \<le> arc_score arc)
     then exact_max_inbound_loop arcs rest (Some (arc_score arc, i))
     else exact_max_inbound_loop arcs rest best }"

definition exact_MaximumInboundArc :: "nat \<Rightarrow> 's :: linordered_idom mst_solver \<Rightarrow> nat option option" where
  "exact_MaximumInboundArc node s =
     exact_max_inbound_loop (ms_arcs s) [ArcIndex 0 node s..<ArcIndex 0 node s + ms_num_initial_nodes s] None"

definition exact_merge_arc :: "'s \<Rightarrow> nat \<times> nat \<Rightarrow> 's :: linordered_idom mst_arc list \<times> dsf \<Rightarrow> ('s mst_arc list \<times> dsf) option" where
  "exact_merge_arc score_offset = (\<lambda>(i, j) (arcs, strong). do {
     cycle_arc \<leftarrow> vec_at arcs (int i);
     if \<not> arc_Exists cycle_arc then Some (arcs, strong)
     else do {
       (same, strong) \<leftarrow> SameSet (arc_source cycle_arc) (arc_target cycle_arc) strong;
       if same then Some (arcs, strong)
       else do {
         let cycle_score = arc_score cycle_arc + score_offset;
         contracted_arc \<leftarrow> vec_at arcs (int j);
         if \<not> arc_Exists contracted_arc \<or> arc_score contracted_arc < cycle_score then do {
           arcs \<leftarrow> vec_set arcs (int j) (contracted_arc\<lparr>arc_score := cycle_score, arc_source := arc_source cycle_arc, arc_target := arc_target cycle_arc\<rparr>);
           Some (arcs, strong) }
         else Some (arcs, strong) } } })"

definition exact_MergeInboundArcs :: "nat \<Rightarrow> 's \<Rightarrow> nat \<Rightarrow> 's :: linordered_idom mst_solver \<Rightarrow> 's mst_solver option" where
  "exact_MergeInboundArcs cycle_node score_offset contracted_node s = do {
     (arcs, strong) \<leftarrow> foreach (exact_merge_arc score_offset)
        (map (\<lambda>k. (ArcIndex 0 cycle_node s + k, ArcIndex 0 contracted_node s + k)) [0..<ms_num_initial_nodes s])
        (ms_arcs s, ms_strong_components s);
     Some (s\<lparr>ms_arcs := arcs, ms_strong_components := strong\<rparr>) }"

definition exact_ContractCycle :: "nat \<Rightarrow> 's :: linordered_idom mst_solver \<Rightarrow> 's mst_solver option" where
  "exact_ContractCycle node s = do {
     let contracted_node = ms_num_current_nodes s;
     let s = s\<lparr>ms_num_current_nodes := ms_num_current_nodes s + 1\<rparr>;
     check (length (ms_arcs s) + ms_num_initial_nodes s \<le> ms_num_initial_nodes s * ms_num_possible_nodes s);
     let s = s\<lparr>ms_arcs := ms_arcs s @ replicate (ms_num_initial_nodes s) null_arc\<rparr>;
     (cycle, s) \<leftarrow> cycle_loop contracted_node node [] s;
     foreach (\<lambda>(cycle_node, i) s. do {
         arc \<leftarrow> vec_at (ms_arcs s) (int i);
         exact_MergeInboundArcs cycle_node (- arc_score arc) contracted_node s }) cycle s }"

partial_function (option) exact_contraction_loop :: "nat \<Rightarrow> 's :: linordered_idom mst_solver \<Rightarrow> (mst_error + 's mst_solver) option" where
  "exact_contraction_loop target s =
     (if target < ms_num_current_nodes s then do {
        p \<leftarrow> exact_MaximumInboundArc target s;
        case p of
          None \<Rightarrow> Some (Inl FailedPrecondition)
        | Some i \<Rightarrow> do {
            argmax \<leftarrow> vec_set (ms_argmax_arcs s) (int target) (Some i);
            let s = s\<lparr>ms_argmax_arcs := argmax\<rparr>;
            arc \<leftarrow> vec_at (ms_arcs s) (int i);
            if arc_IsRoot arc then exact_contraction_loop (target + 1) s
            else do {
              (source_component, weak) \<leftarrow> FindRoot (arc_source arc) (ms_weak_components s);
              (target_component, weak) \<leftarrow> FindRoot (arc_target arc) weak;
              let s = s\<lparr>ms_weak_components := weak\<rparr>;
              if source_component = target_component then do {
                s \<leftarrow> exact_ContractCycle target s;
                exact_contraction_loop (target + 1) s }
              else do {
                weak \<leftarrow> UnionOfRoots True source_component target_component (ms_weak_components s);
                exact_contraction_loop (target + 1) (s\<lparr>ms_weak_components := weak\<rparr>) } } } }
      else Some (Inr s))"

declare exact_contraction_loop.simps [code]

definition exact_ContractionPhase :: "'s :: linordered_idom mst_solver \<Rightarrow> (mst_error + 's mst_solver) option" where
  "exact_ContractionPhase s = exact_contraction_loop 1 s"

definition exact_Solve :: "nat \<Rightarrow> nat list \<Rightarrow> 's :: linordered_idom mst_solver \<Rightarrow> (mst_error + nat list \<times> 's mst_solver) option" where
  "exact_Solve null argmax s = do {
     s \<leftarrow> exact_MaybePenalizeRootScoresForTree s;
     r \<leftarrow> exact_ContractionPhase s;
     case r of Inl e \<Rightarrow> Some (Inl e) | Inr s \<Rightarrow> ExpansionPhase null argmax s }"

definition exact_sum_source :: "'s :: linordered_idom option list list \<Rightarrow> nat list \<Rightarrow> nat \<Rightarrow> 's \<Rightarrow> 's option" where
  "exact_sum_source scores argmax target max_score = do {
     source \<leftarrow> vec_at argmax (int target);
     x \<leftarrow> score_at scores target source;
     score \<leftarrow> x;
     Some (max_score + score) }"

definition exact_RunSolver :: "bool \<Rightarrow> int \<Rightarrow> nat \<Rightarrow> 's :: linordered_idom option list list \<Rightarrow> (mst_error + 's \<times> int list) option" where
  "exact_RunSolver forest num_nodes input_dim scores =
     (if num_nodes > int input_dim then Some (Inl InvalidArgument)
      else if num_nodes \<ge> 65535 then Some (Inl InvalidArgument)
      else do {
        let num_nodes_index = nat (num_nodes mod 65536);
        r \<leftarrow> mst_Init 65535 forest num_nodes_index new_MstSolver;
        case r of
          Inl e \<Rightarrow> Some (Inl e)
        | Inr solver \<Rightarrow> do {
            solver \<leftarrow> foreach (add_score scores) (List.product [0..<num_nodes_index] [0..<num_nodes_index]) solver;
            check (0 \<le> num_nodes);
            r \<leftarrow> exact_Solve 65535 (replicate (nat num_nodes) 0) solver;
            case r of
              Inl e \<Rightarrow> Some (Inl e)
            | Inr (argmax, _) \<Rightarrow> do {
                max_score \<leftarrow> foreach (exact_sum_source scores argmax) [0..<num_nodes_index] 0;
                Some (Inr (max_score, map int (take num_nodes_index argmax) @ replicate (input_dim - nat num_nodes) (-1))) } } })"

end
