(* ===== verification/Mst_Contraction.thy ===== *)
theory Mst_Contraction
  imports Mst_Exact
begin

text \<open>
  The contraction phase of the solver leaves a certificate behind, or the digraph has no spanning branching.
\<close>

section \<open>Joined sets\<close>

lemma joined_sym: "(x, y) \<in> joined f \<Longrightarrow> (y, x) \<in> joined f"
  by (auto simp: joined_def)

lemma joined_trans: "(x, y) \<in> joined f \<Longrightarrow> (y, z) \<in> joined f \<Longrightarrow> (x, z) \<in> joined f"
  unfolding joined_def using has_root_unique by blast

lemma joined_refl: "dsf_inv by_rank f \<Longrightarrow> x < dsf_size f \<Longrightarrow> (x, x) \<in> joined f"
  by (auto simp: joined_def dsf_inv_def)

lemma merged_roots_joined:
  assumes inv: "dsf_inv by_rank f" and xy: "x < dsf_size f" "y < dsf_size f" "dsf_size f' = dsf_size f"
    and r: "has_root (dsf_parents f) x rx" "has_root (dsf_parents f) y ry" "t \<in> {rx, ry}"
    and rep: "\<And>z r'. has_root (dsf_parents f') z r' \<longleftrightarrow> (\<exists>r. has_root (dsf_parents f) z r \<and> r' = merged_root rx ry t r)"
  shows "(a, b) \<in> joined f' \<longleftrightarrow> (a, b) \<in> joined f \<or> (a, x) \<in> joined f \<and> (y, b) \<in> joined f \<or> (a, y) \<in> joined f \<and> (x, b) \<in> joined f"
proof (cases "a < dsf_size f \<and> b < dsf_size f")
  case True
  have "\<forall>z < dsf_size f. \<exists>r. has_root (dsf_parents f) z r" using inv by (simp add: dsf_inv_def)
  then obtain ra rb where ra: "has_root (dsf_parents f) a ra" and rb: "has_root (dsf_parents f) b rb" using True by blast
  have one: "has_root (dsf_parents f) z q \<longleftrightarrow> q = p" if "has_root (dsf_parents f) z p" for z p q
    using has_root_unique [OF that] that by blast
  have J: "(u, v) \<in> joined f \<longleftrightarrow> p = q" if "u < dsf_size f" "v < dsf_size f" "has_root (dsf_parents f) u p" "has_root (dsf_parents f) v q" for u v p q
    using that(1,2) one [OF that(3)] one [OF that(4)] by (auto simp: joined_def)
  have J': "(a, b) \<in> joined f' \<longleftrightarrow> merged_root rx ry t ra = merged_root rx ry t rb"
    using True xy(3) one [OF ra] one [OF rb] by (auto simp: joined_def rep)
  show ?thesis unfolding J' using J [OF _ _ ra rb] J [OF _ _ ra r(1)] J [OF _ _ r(2) rb] J [OF _ _ ra r(2)] J [OF _ _ r(1) rb] True xy r(3)
    by (auto simp: merged_root_def)
next
  case False
  then show ?thesis using xy(3) by (auto simp: joined_def)
qed

lemma Union_joined:
  assumes "dsf_inv by_rank f" and "x < dsf_size f" and "y < dsf_size f"
  shows "\<exists>f'. Union by_rank x y f = Some f' \<and> dsf_inv by_rank f' \<and> dsf_size f' = dsf_size f \<and>
    (\<forall>a b. (a, b) \<in> joined f' \<longleftrightarrow> (a, b) \<in> joined f \<or> (a, x) \<in> joined f \<and> (y, b) \<in> joined f \<or> (a, y) \<in> joined f \<and> (x, b) \<in> joined f)"
proof -
  from forest_union_law [OF assms] obtain f' rx ry t where
    f': "Union by_rank x y f = Some f'" "dsf_inv by_rank f'" "dsf_size f' = dsf_size f"
    and r: "has_root (dsf_parents f) x rx" "has_root (dsf_parents f) y ry" "t \<in> {rx, ry}"
    "\<And>z r'. has_root (dsf_parents f') z r' \<longleftrightarrow> (\<exists>r. has_root (dsf_parents f) z r \<and> r' = merged_root rx ry t r)" by blast
  then show ?thesis using merged_roots_joined [OF assms f'(3) r] by blast
qed

lemma UnionOfRoots_joined:
  assumes inv: "dsf_inv by_rank f" and xy: "x < dsf_size f" "y < dsf_size f"
    and r: "has_root (dsf_parents f) x rx" "has_root (dsf_parents f) y ry"
  shows "\<exists>f'. UnionOfRoots by_rank rx ry f = Some f' \<and> dsf_inv by_rank f' \<and> dsf_size f' = dsf_size f \<and>
    (\<forall>a b. (a, b) \<in> joined f' \<longleftrightarrow> (a, b) \<in> joined f \<or> (a, x) \<in> joined f \<and> (y, b) \<in> joined f \<or> (a, y) \<in> joined f \<and> (x, b) \<in> joined f)"
proof -
  have b: "in_bounds (dsf_parents f)" "length (dsf_parents f) = dsf_size f" using inv by (auto simp: dsf_inv_def)
  have "dsf_parents f ! rx = rx" "dsf_parents f ! ry = ry" "rx < dsf_size f" "ry < dsf_size f"
    using has_root_is_root [OF r(1)] has_root_is_root [OF r(2)] has_root_bound [OF r(1) b(1)] has_root_bound [OF r(2) b(1)] b(2) xy
    by simp_all
  from UnionOfRoots_correct [OF inv this] obtain f' t where
    f': "UnionOfRoots by_rank rx ry f = Some f'" "dsf_inv by_rank f'" "dsf_size f' = dsf_size f" "t \<in> {rx, ry}"
      "\<And>y r'. has_root (dsf_parents f') y r' \<longleftrightarrow> (\<exists>r. has_root (dsf_parents f) y r \<and> r' = merged_root rx ry t r)"
    unfolding merged_root_def by blast
  then show ?thesis using merged_roots_joined [OF inv xy f'(3) r f'(4,5)] by blast
qed

section \<open>Columns of arcs\<close>

definition col :: "nat \<Rightarrow> 's mst_arc list \<Rightarrow> nat \<Rightarrow> nat \<Rightarrow> 's mst_arc" where
  "col n arcs v a = arcs ! (a + v * Suc n)"

lemma column_index: "a \<le> n \<Longrightarrow> b \<le> n \<Longrightarrow> a + v * Suc n = b + u * Suc n \<longleftrightarrow> a = b \<and> v = u"
proof
  assume a: "a \<le> n" "b \<le> n" and eq: "a + v * Suc n = b + u * Suc n"
  then have "(a + v * Suc n) mod Suc n = (b + u * Suc n) mod Suc n" by (rule_tac arg_cong)
  then have "a = b" using a by (simp only: mod_mult_self1 mod_less less_Suc_eq_le)
  moreover from this eq have "v * Suc n = u * Suc n" by linarith
  then have "v = u" by (metis Suc_neq_Zero mult_right_cancel)
  ultimately show "a = b \<and> v = u" by simp
qed simp

lemma column_bound: "a \<le> n \<Longrightarrow> v < N \<Longrightarrow> a + v * Suc n < Suc n * N"
proof -
  assume "a \<le> n" "v < N"
  then have "a + v * Suc n < Suc n + v * Suc n" by simp
  also have "\<dots> = Suc n * Suc v" by simp
  also have "\<dots> \<le> Suc n * N" using \<open>v < N\<close> by (simp only: mult_le_mono2 Suc_leI)
  finally show ?thesis .
qed

definition best_arc :: "'s :: linordered_idom mst_arc list \<Rightarrow> nat set \<Rightarrow> ('s \<times> nat) option \<Rightarrow> bool" where
  "best_arc arcs D best \<longleftrightarrow> (case best of
     None \<Rightarrow> \<forall>j \<in> D. \<not> arc_Exists (arcs ! j)
   | Some (x, i) \<Rightarrow> i \<in> D \<and> arc_Exists (arcs ! i) \<and> x = arc_score (arcs ! i) \<and> (\<forall>j \<in> D. arc_Exists (arcs ! j) \<longrightarrow> arc_score (arcs ! j) \<le> x))"

lemma max_inbound_loop_best:
  "\<forall>i \<in> set is. i < length arcs \<Longrightarrow> best_arc arcs D best \<Longrightarrow>
     \<exists>r. exact_max_inbound_loop arcs is best = Some (map_option snd r) \<and> best_arc arcs (D \<union> set is) r"
proof (induction "is" arbitrary: D best)
  case (Cons i "is")
  let ?arc = "arcs ! i"
  let ?best = "if \<not> arc_Exists ?arc then best else if (case best of None \<Rightarrow> True | Some (x, _) \<Rightarrow> x \<le> arc_score ?arc)
    then Some (arc_score ?arc, i) else best"
  have "best_arc arcs (insert i D) ?best"
    using Cons.prems(2) by (auto simp: best_arc_def split: option.splits intro: order_trans)
  then obtain r where "exact_max_inbound_loop arcs is ?best = Some (map_option snd r)" "best_arc arcs (insert i D \<union> set is) r"
    using Cons.IH [of "insert i D" ?best] Cons.prems(1) by auto
  moreover have "exact_max_inbound_loop arcs (i # is) best = exact_max_inbound_loop arcs is ?best"
    using Cons.prems(1) by (auto split: option.splits)
  ultimately show ?case by auto
qed auto

lemma MaximumInboundArc_best:
  assumes "ms_num_initial_nodes s = Suc n" and "length (ms_arcs s) = Suc n * N" and "v < N"
  shows "\<exists>r. exact_MaximumInboundArc v s = Some r \<and>
    (r = None \<longrightarrow> (\<forall>a \<le> n. \<not> arc_Exists (col n (ms_arcs s) v a))) \<and>
    (\<forall>i. r = Some i \<longrightarrow> (\<exists>a \<le> n. i = a + v * Suc n \<and> arc_Exists (col n (ms_arcs s) v a) \<and>
       (\<forall>b \<le> n. arc_Exists (col n (ms_arcs s) v b) \<longrightarrow> arc_score (col n (ms_arcs s) v b) \<le> arc_score (col n (ms_arcs s) v a))))"
proof -
  let ?is = "[v * Suc n..<v * Suc n + Suc n]"
  have set_is: "set ?is = (\<lambda>a. a + v * Suc n) ` {..n}"
  proof (intro equalityI subsetI)
    fix i assume "i \<in> set ?is"
    then have "i - v * Suc n \<le> n" "i = (i - v * Suc n) + v * Suc n" by auto
    then show "i \<in> (\<lambda>a. a + v * Suc n) ` {..n}" by blast
  qed auto
  have bound: "\<forall>i \<in> set ?is. i < length (ms_arcs s)" unfolding set_is assms(2) using column_bound assms(3) by blast
  have "best_arc (ms_arcs s) {} None" by (simp add: best_arc_def)
  from max_inbound_loop_best [OF bound this] obtain r where
    r: "exact_max_inbound_loop (ms_arcs s) ?is None = Some (map_option snd r)" "best_arc (ms_arcs s) (set ?is) r" by auto
  have m: "exact_MaximumInboundArc v s = Some (map_option snd r)" using r(1) assms(1) by (simp add: exact_MaximumInboundArc_def ArcIndex_def)
  show ?thesis
  proof (cases r)
    case None
    then have "\<forall>j \<in> set ?is. \<not> arc_Exists (ms_arcs s ! j)" using r(2) by (simp only: best_arc_def option.case)
    then show ?thesis using m None unfolding set_is by (auto simp: col_def)
  next
    case (Some xi)
    obtain x i where xi: "xi = (x, i)" by fastforce
    have ba: "i \<in> set ?is" "arc_Exists (ms_arcs s ! i)" "x = arc_score (ms_arcs s ! i)"
      "\<forall>j \<in> set ?is. arc_Exists (ms_arcs s ! j) \<longrightarrow> arc_score (ms_arcs s ! j) \<le> x"
      using r(2) Some xi by (auto simp: best_arc_def)
    then obtain a where a: "a \<le> n" "i = a + v * Suc n" unfolding set_is by blast
    have "arc_score (col n (ms_arcs s) v b) \<le> arc_score (col n (ms_arcs s) v a)" if "b \<le> n" "arc_Exists (col n (ms_arcs s) v b)" for b
      using ba(3,4) a(2) that unfolding set_is col_def by blast
    then show ?thesis using m Some xi a ba(2) by (auto simp: col_def)
  qed
qed

section \<open>Merging inbound arcs\<close>

definition merged_arc :: "'s :: linordered_idom \<Rightarrow> dsf \<Rightarrow> 's mst_arc \<Rightarrow> 's mst_arc \<Rightarrow> 's mst_arc" where
  "merged_arc offset strong cycle_arc contracted_arc =
     (if arc_Exists cycle_arc \<and> (arc_source cycle_arc, arc_target cycle_arc) \<notin> joined strong \<and>
         (\<not> arc_Exists contracted_arc \<or> arc_score contracted_arc < arc_score cycle_arc + offset)
      then contracted_arc\<lparr>arc_score := arc_score cycle_arc + offset, arc_source := arc_source cycle_arc, arc_target := arc_target cycle_arc\<rparr>
      else contracted_arc)"

lemma SameSet_size: "SameSet a b f = Some (r, f') \<Longrightarrow> dsf_size f' = dsf_size f"
  by (auto simp: SameSet_def FindRoot_def Let_def split: Option.bind_splits if_splits)

lemma merge_arc_eq:
  assumes "dsf_inv True strong" and "i < length arcs" and "j < length arcs"
    and "arc_Exists (arcs ! i) \<Longrightarrow> arc_source (arcs ! i) < dsf_size strong \<and> arc_target (arcs ! i) < dsf_size strong"
  shows "\<exists>strong'. exact_merge_arc offset (i, j) (arcs, strong) = Some (arcs[j := merged_arc offset strong (arcs ! i) (arcs ! j)], strong') \<and>
    dsf_inv True strong' \<and> dsf_size strong' = dsf_size strong \<and> joined strong' = joined strong"
proof (cases "arc_Exists (arcs ! i)")
  case True
  with SameSet_joined [OF assms(1)] assms(4) obtain f' where
    f': "SameSet (arc_source (arcs ! i)) (arc_target (arcs ! i)) strong = Some ((arc_source (arcs ! i), arc_target (arcs ! i)) \<in> joined strong, f')"
      "dsf_inv True f'" "joined f' = joined strong" by blast
  then show ?thesis using True assms(2,3) SameSet_size [OF f'(1)]
    by (auto simp: exact_merge_arc_def merged_arc_def Let_def)
next
  case False
  then show ?thesis using assms by (auto simp: exact_merge_arc_def merged_arc_def)
qed

lemma foreach_merge:
  assumes "\<forall>(i, j) \<in> set ps. i < length arcs \<and> j < length arcs \<and> (arc_Exists (arcs ! i) \<longrightarrow> arc_source (arcs ! i) < dsf_size strong \<and> arc_target (arcs ! i) < dsf_size strong)"
    and "distinct (map snd ps)" and "set (map fst ps) \<inter> set (map snd ps) = {}" and "dsf_inv True strong"
  shows "\<exists>arcs' strong'. foreach (exact_merge_arc offset) ps (arcs, strong) = Some (arcs', strong') \<and> length arcs' = length arcs \<and>
    (\<forall>(i, j) \<in> set ps. arcs' ! j = merged_arc offset strong (arcs ! i) (arcs ! j)) \<and>
    (\<forall>k. k \<notin> set (map snd ps) \<longrightarrow> arcs' ! k = arcs ! k) \<and>
    dsf_inv True strong' \<and> dsf_size strong' = dsf_size strong \<and> joined strong' = joined strong"
  using assms
proof (induction ps arbitrary: arcs strong)
  case (Cons p ps)
  obtain i j where p: "p = (i, j)" by fastforce
  let ?arcs = "arcs[j := merged_arc offset strong (arcs ! i) (arcs ! j)]"
  obtain strong1 where s1: "exact_merge_arc offset (i, j) (arcs, strong) = Some (?arcs, strong1)"
      "dsf_inv True strong1" "dsf_size strong1 = dsf_size strong" "joined strong1 = joined strong"
    using merge_arc_eq [OF Cons.prems(4), of i arcs j offset] Cons.prems(1) p by auto
  have j: "j \<notin> set (map fst ps)" "j \<notin> set (map snd ps)" "i \<noteq> j" "i \<notin> set (map snd ps)" using Cons.prems(2,3) p by auto
  have same: "?arcs ! k = arcs ! k" if "k \<in> set (map fst ps) \<union> set (map snd ps)" for k
    using that j by (cases "k = j") auto
  have mem: "a \<in> set (map fst ps)" "b \<in> set (map snd ps)" "(a, b) \<in> set (p # ps)" if "(a, b) \<in> set ps" for a b using that by force+
  have "a < length ?arcs \<and> b < length ?arcs \<and> (arc_Exists (?arcs ! a) \<longrightarrow> arc_source (?arcs ! a) < dsf_size strong1 \<and> arc_target (?arcs ! a) < dsf_size strong1)"
    if "(a, b) \<in> set ps" for a b
    using bspec [OF Cons.prems(1) mem(3) [OF that]] same [of a] mem(1) [OF that] s1(3) by simp
  then have "\<forall>(i, j) \<in> set ps. i < length ?arcs \<and> j < length ?arcs \<and> (arc_Exists (?arcs ! i) \<longrightarrow> arc_source (?arcs ! i) < dsf_size strong1 \<and> arc_target (?arcs ! i) < dsf_size strong1)"
    by blast
  from Cons.IH [OF this _ _ s1(2)] Cons.prems(2,3) obtain arcs' strong' where
    IH: "foreach (exact_merge_arc offset) ps (?arcs, strong1) = Some (arcs', strong')" "length arcs' = length arcs"
      "\<forall>(i, j) \<in> set ps. arcs' ! j = merged_arc offset strong1 (?arcs ! i) (?arcs ! j)"
      "\<forall>k. k \<notin> set (map snd ps) \<longrightarrow> arcs' ! k = ?arcs ! k"
      "dsf_inv True strong'" "dsf_size strong' = dsf_size strong" "joined strong' = joined strong"
    using s1 by auto
  have m: "merged_arc offset strong1 = merged_arc offset strong" by (simp add: merged_arc_def s1(4) fun_eq_iff)
  have "arcs' ! b = merged_arc offset strong (arcs ! a) (arcs ! b)" if "(a, b) \<in> set ps" for a b
    using bspec [OF IH(3) that] same [of a] same [of b] mem [OF that] by (simp add: m)
  then have "\<forall>(i, j) \<in> set ps. arcs' ! j = merged_arc offset strong (arcs ! i) (arcs ! j)" by blast
  moreover have "arcs' ! j = merged_arc offset strong (arcs ! i) (arcs ! j)" using IH(4) j Cons.prems(1) p by auto
  moreover have "\<forall>k. k \<notin> set (map snd (p # ps)) \<longrightarrow> arcs' ! k = arcs ! k" using IH(4) p by auto
  ultimately show ?case using IH(1,2,5-7) s1(1) p by (intro exI [of _ arcs'] exI [of _ strong']) simp
qed auto

text \<open>The arcs of a column point from their row into the digraph.\<close>

definition column_range :: "nat \<Rightarrow> 's mst_arc list \<Rightarrow> nat \<Rightarrow> bool" where
  "column_range n arcs v \<longleftrightarrow> (\<forall>a \<le> n. arc_Exists (col n arcs v a) \<longrightarrow> arc_source (col n arcs v a) \<le> n \<and> arc_target (col n arcs v a) \<le> n)"

lemma MergeInboundArcs_eq:
  assumes s: "ms_num_initial_nodes s = Suc n" "length (ms_arcs s) = Suc n * N" "v < N" "c < N" "v \<noteq> c"
    and range: "column_range n (ms_arcs s) v" and strong: "dsf_inv True (ms_strong_components s)" "dsf_size (ms_strong_components s) = Suc n"
  shows "\<exists>arcs' strong'. exact_MergeInboundArcs v offset c s = Some (s\<lparr>ms_arcs := arcs', ms_strong_components := strong'\<rparr>) \<and>
    length arcs' = Suc n * N \<and>
    (\<forall>a \<le> n. col n arcs' c a = merged_arc offset (ms_strong_components s) (col n (ms_arcs s) v a) (col n (ms_arcs s) c a)) \<and>
    (\<forall>u a. u \<noteq> c \<longrightarrow> a \<le> n \<longrightarrow> col n arcs' u a = col n (ms_arcs s) u a) \<and>
    dsf_inv True strong' \<and> dsf_size strong' = Suc n \<and> joined strong' = joined (ms_strong_components s)"
proof -
  let ?ps = "map (\<lambda>k. (ArcIndex 0 v s + k, ArcIndex 0 c s + k)) [0..<Suc n]"
  have ps: "?ps = map (\<lambda>k. (k + v * Suc n, k + c * Suc n)) [0..<Suc n]" using s(1) by (simp add: ArcIndex_def add.commute)
  have idx: "\<forall>(i, j) \<in> set ?ps. i < length (ms_arcs s) \<and> j < length (ms_arcs s) \<and> (arc_Exists (ms_arcs s ! i) \<longrightarrow>
      arc_source (ms_arcs s ! i) < dsf_size (ms_strong_components s) \<and> arc_target (ms_arcs s ! i) < dsf_size (ms_strong_components s))"
    unfolding ps s(2) strong(2) using column_bound [OF _ s(3)] column_bound [OF _ s(4)] range
    by (auto simp: less_Suc_eq_le column_range_def col_def simp del: mult_Suc_right upt_Suc)
  have d: "distinct (map snd ?ps)" unfolding ps by (simp add: distinct_map inj_on_def comp_def del: mult_Suc_right upt_Suc)
  have neq: "a + v * Suc n \<noteq> b + c * Suc n" if "a < Suc n" "b < Suc n" for a b
    using column_index [of a n b v c] that s(5) by (simp add: less_Suc_eq_le)
  have "a + v * Suc n \<noteq> b + c * Suc n" if "a \<in> set [0..<Suc n]" "b \<in> set [0..<Suc n]" for a b using neq that by (simp del: upt_Suc)
  then have dj: "set (map fst ?ps) \<inter> set (map snd ?ps) = {}" unfolding ps set_map map_map comp_def fst_conv snd_conv by blast
  obtain arcs' strong' where r: "foreach (exact_merge_arc offset) ?ps (ms_arcs s, ms_strong_components s) = Some (arcs', strong')"
      "length arcs' = length (ms_arcs s)"
      "\<forall>(i, j) \<in> set ?ps. arcs' ! j = merged_arc offset (ms_strong_components s) (ms_arcs s ! i) (ms_arcs s ! j)"
      "\<forall>k. k \<notin> set (map snd ?ps) \<longrightarrow> arcs' ! k = ms_arcs s ! k"
      "dsf_inv True strong'" "dsf_size strong' = dsf_size (ms_strong_components s)" "joined strong' = joined (ms_strong_components s)"
    using foreach_merge [OF idx d dj strong(1)] by blast
  have "exact_MergeInboundArcs v offset c s = Some (s\<lparr>ms_arcs := arcs', ms_strong_components := strong'\<rparr>)"
    using r(1) s(1) by (simp add: exact_MergeInboundArcs_def del: upt_Suc)
  moreover have "col n arcs' c a = merged_arc offset (ms_strong_components s) (col n (ms_arcs s) v a) (col n (ms_arcs s) c a)" if "a \<le> n" for a
  proof -
    have "(a + v * Suc n, a + c * Suc n) \<in> set ?ps" unfolding ps using that by (auto simp: less_Suc_eq_le simp del: mult_Suc_right upt_Suc)
    then show ?thesis using r(3) by (auto simp: col_def)
  qed
  moreover have "col n arcs' u a = col n (ms_arcs s) u a" if "u \<noteq> c" "a \<le> n" for u a
  proof -
    have "a + u * Suc n \<noteq> b + c * Suc n" if "b \<in> set [0..<Suc n]" for b
      using column_index [of a n b u c] \<open>u \<noteq> c\<close> \<open>a \<le> n\<close> that by (simp add: less_Suc_eq_le del: upt_Suc)
    then have "a + u * Suc n \<notin> set (map snd ?ps)" unfolding ps set_map map_map comp_def snd_conv by blast
    then show ?thesis using r(4) by (simp add: col_def)
  qed
  ultimately show ?thesis using r(2,5-7) s(2) strong(2) by (intro exI [of _ arcs'] exI [of _ strong']) auto
qed

section \<open>Contracting a cycle: the components\<close>

text \<open>
  \<open>classes n q f\<close>: the sets of the forest \<open>f\<close> on \<open>0..n\<close> are the classes of the function \<open>q\<close> on \<open>1..n\<close>; \<open>roots n M q V f\<close>: the
  root of \<open>x\<close> is \<open>q x\<close>, and the nodes of \<open>V\<close> are roots.
\<close>

definition classes :: "nat \<Rightarrow> (nat \<Rightarrow> nat) \<Rightarrow> dsf \<Rightarrow> bool" where
  "classes n q f \<longleftrightarrow> dsf_inv True f \<and> dsf_size f = Suc n \<and>
     (\<forall>x \<le> n. \<forall>y \<le> n. (x, y) \<in> joined f \<longleftrightarrow> x = y \<or> (1 \<le> x \<and> 1 \<le> y \<and> q x = q y))"

definition roots :: "nat \<Rightarrow> nat \<Rightarrow> (nat \<Rightarrow> nat) \<Rightarrow> nat set \<Rightarrow> dsf \<Rightarrow> bool" where
  "roots n M q V f \<longleftrightarrow> dsf_inv False f \<and> dsf_size f = M \<and> n < M \<and>
     (\<forall>v \<in> V. v < M \<and> has_root (dsf_parents f) v v) \<and> (\<forall>x \<in> {1..n}. has_root (dsf_parents f) x (q x))"

lemma classes_cong: "classes n q f \<Longrightarrow> (\<And>x y. x \<in> {1..n} \<Longrightarrow> y \<in> {1..n} \<Longrightarrow> q x = q y \<longleftrightarrow> q' x = q' y) \<Longrightarrow> classes n q' f"
  unfolding classes_def by (auto simp: Suc_le_eq)

lemma classes_merged:
  assumes c: "classes n q f" and f': "dsf_inv True f'" "dsf_size f' = Suc n" and x: "1 \<le> x" "x \<le> n" and y: "1 \<le> y" "y \<le> n"
    and J': "\<forall>a b. (a, b) \<in> joined f' \<longleftrightarrow> (a, b) \<in> joined f \<or> (a, x) \<in> joined f \<and> (y, b) \<in> joined f \<or> (a, y) \<in> joined f \<and> (x, b) \<in> joined f"
    and q': "\<And>a b. a \<in> {1..n} \<Longrightarrow> b \<in> {1..n} \<Longrightarrow> q' a = q' b \<longleftrightarrow> q a = q b \<or> q a = q x \<and> q y = q b \<or> q a = q y \<and> q x = q b"
  shows "classes n q' f'"
proof -
  have "(a, b) \<in> joined f' \<longleftrightarrow> a = b \<or> (1 \<le> a \<and> 1 \<le> b \<and> q' a = q' b)" if ab: "a \<le> n" "b \<le> n" for a b
  proof -
    have J: "(u, v) \<in> joined f \<longleftrightarrow> u = v \<or> (1 \<le> u \<and> 1 \<le> v \<and> q u = q v)" if "u \<le> n" "v \<le> n" for u v
      using c that by (simp add: classes_def)
    show ?thesis unfolding J' [rule_format] J [OF ab] J [OF ab(1) x(2)] J [OF y(2) ab(2)] J [OF ab(1) y(2)] J [OF x(2) ab(2)]
      using q' [of a b] ab x y by auto
  qed
  then show ?thesis using f' by (simp add: classes_def)
qed

lemma classes_Union:
  assumes c: "classes n q f" and x: "1 \<le> x" "x \<le> n" and y: "1 \<le> y" "y \<le> n"
    and q': "\<And>a b. a \<in> {1..n} \<Longrightarrow> b \<in> {1..n} \<Longrightarrow> q' a = q' b \<longleftrightarrow> q a = q b \<or> q a = q x \<and> q y = q b \<or> q a = q y \<and> q x = q b"
  shows "\<exists>f'. Union True x y f = Some f' \<and> classes n q' f'"
proof -
  note d = c [unfolded classes_def]
  from Union_joined [of True f x y] d x y obtain f' where
    f': "Union True x y f = Some f'" "dsf_inv True f'" "dsf_size f' = Suc n"
      "\<forall>a b. (a, b) \<in> joined f' \<longleftrightarrow> (a, b) \<in> joined f \<or> (a, x) \<in> joined f \<and> (y, b) \<in> joined f \<or> (a, y) \<in> joined f \<and> (x, b) \<in> joined f"
    by auto
  then show ?thesis using classes_merged [OF c f'(2,3) x y f'(4) q'] by blast
qed

lemma roots_FindRoot:
  assumes r: "roots n M q V f" and x: "1 \<le> x" "x \<le> n"
  shows "\<exists>f'. FindRoot x f = Some (q x, f') \<and> roots n M q V f'"
proof -
  note d = r [unfolded roots_def]
  from FindRoot_correct [of False f x] d x obtain z f' where
    f': "FindRoot x f = Some (z, f')" "has_root (dsf_parents f) x z" "dsf_inv False f'" "dsf_size f' = dsf_size f"
      "has_root (dsf_parents f') = has_root (dsf_parents f)" by auto
  moreover have "z = q x" using has_root_unique [of "dsf_parents f" x "q x" z] d x f'(2) by auto
  ultimately show ?thesis using d by (auto simp: roots_def)
qed

lemma roots_UnionOfRoots:
  assumes r: "roots n M q V f" and v: "v \<in> V" "c \<in> V" "v \<noteq> c"
  shows "\<exists>f'. UnionOfRoots False v c f = Some f' \<and> roots n M (\<lambda>x. if q x = v then c else q x) (V - {v}) f'"
proof -
  note d = r [unfolded roots_def]
  have "dsf_parents f ! v = v" "dsf_parents f ! c = c" using d v has_root_is_root by auto
  with UnionOfRoots_correct [of False f v c] d v obtain f' where
    f': "UnionOfRoots False v c f = Some f'" "dsf_inv False f'" "dsf_size f' = dsf_size f"
      "\<forall>y r'. has_root (dsf_parents f') y r' \<longleftrightarrow> (\<exists>r. has_root (dsf_parents f) y r \<and> r' = (if r \<in> {v, c} then c else r))"
    by auto
  have h: "has_root (dsf_parents f') y (if r = v then c else r)" if "has_root (dsf_parents f) y r" for y r
    using that f'(4) by (auto intro!: exI [of _ r])
  have "has_root (dsf_parents f') u u" if "u \<in> V - {v}" for u using h [of u u] d that by simp
  moreover have "has_root (dsf_parents f') x (if q x = v then c else q x)" if "x \<in> {1..n}" for x using h [of x "q x"] d that by simp
  ultimately show ?thesis using f' d by (auto simp: roots_def)
qed

section \<open>Contracting a cycle: the first pass\<close>

text \<open>Along a list of nodes each source is in the next node, the last one in \<open>e\<close>.\<close>

fun linked :: "(nat \<Rightarrow> nat) \<Rightarrow> (nat \<Rightarrow> nat) \<Rightarrow> nat list \<Rightarrow> nat \<Rightarrow> bool" where
  "linked R sr [] e = True"
| "linked R sr [v] e = (R (sr v) = e)"
| "linked R sr (v # u # vs) e = (R (sr v) = u \<and> linked R sr (u # vs) e)"

definition has_arc :: "nat \<Rightarrow> 's mst_solver \<Rightarrow> (nat \<Rightarrow> nat) \<Rightarrow> (nat \<Rightarrow> nat) \<Rightarrow> (nat \<Rightarrow> nat) \<Rightarrow> nat \<Rightarrow> bool" where
  "has_arc n s ai sr tg v \<longleftrightarrow> v < length (ms_argmax_arcs s) \<and> ms_argmax_arcs s ! v = Some (ai v) \<and> ai v < length (ms_arcs s) \<and>
     arc_source (ms_arcs s ! ai v) = sr v \<and> arc_target (ms_arcs s ! ai v) = tg v \<and> 1 \<le> sr v \<and> sr v \<le> n \<and> 1 \<le> tg v \<and> tg v \<le> n"

lemma cycle_step:
  assumes arc: "has_arc n s ai sr tg v" and v: "R (tg v) = v" "v \<in> V" "v \<noteq> c" "v < length (ms_contracted_into s)" "v \<notin> done" "c \<in> V" "c \<notin> done"
    and R: "\<forall>x \<in> {1..n}. R x \<noteq> c"
    and strong: "classes n (\<lambda>x. if R x \<in> insert v done then c else R x) (ms_strong_components s)"
    and contr: "roots n M (\<lambda>x. if R x \<in> done then c else R x) (V - done) (ms_contracted_nodes s)"
  shows "\<exists>f g. cycle_loop c v acc s =
      (let s' = s\<lparr>ms_strong_components := f, ms_contracted_nodes := g, ms_contracted_into := (ms_contracted_into s)[v := c]\<rparr>;
           u = (if R (sr v) \<in> done then c else R (sr v)) in
       if u \<noteq> c then cycle_loop c u (acc @ [(v, ai v)]) s' else Some (acc @ [(v, ai v)], s')) \<and>
    classes n (\<lambda>x. if R x \<in> insert (R (sr v)) (insert v done) then c else R x) f \<and>
    roots n M (\<lambda>x. if R x \<in> insert v done then c else R x) (V - insert v done) g"
proof -
  note a = arc [unfolded has_arc_def]
  let ?q = "\<lambda>D x. if R x \<in> D then c else R x"
  have "\<exists>f. Union True (sr v) (tg v) (ms_strong_components s) = Some f \<and> classes n (?q (insert (R (sr v)) (insert v done))) f"
  proof (rule classes_Union [OF strong])
    fix x y assume xy: "x \<in> {1..n}" "y \<in> {1..n}"
    have ne: "R x \<noteq> c" "R y \<noteq> c" "R (sr v) \<noteq> c" using R xy a by auto
    show "?q (insert (R (sr v)) (insert v done)) x = ?q (insert (R (sr v)) (insert v done)) y \<longleftrightarrow> ?q (insert v done) x = ?q (insert v done) y \<or>
        ?q (insert v done) x = ?q (insert v done) (sr v) \<and> ?q (insert v done) (tg v) = ?q (insert v done) y \<or>
        ?q (insert v done) x = ?q (insert v done) (tg v) \<and> ?q (insert v done) (sr v) = ?q (insert v done) y"
      using ne v(1) by auto
  qed (use a in auto)
  then obtain f where f: "Union True (sr v) (tg v) (ms_strong_components s) = Some f"
    "classes n (?q (insert (R (sr v)) (insert v done))) f" by blast
  obtain g1 where g1: "FindRoot (sr v) (ms_contracted_nodes s) = Some (?q done (sr v), g1)" "roots n M (?q done) (V - done) g1"
    using roots_FindRoot [OF contr, of "sr v"] a by blast
  have "v \<in> V - done" "c \<in> V - done" using v by auto
  from roots_UnionOfRoots [OF g1(2) this v(3)] obtain g where
    g: "UnionOfRoots False v c g1 = Some g" "roots n M (\<lambda>x. if ?q done x = v then c else ?q done x) (V - done - {v}) g" by blast
  have "(\<lambda>x. if ?q done x = v then c else ?q done x) = ?q (insert v done)" "V - done - {v} = V - insert v done"
    using v(3) by (auto simp: fun_eq_iff)
  then have "roots n M (?q (insert v done)) (V - insert v done) g" using g(2) by simp
  moreover have "cycle_loop c v acc s =
      (let s' = s\<lparr>ms_strong_components := f, ms_contracted_nodes := g, ms_contracted_into := (ms_contracted_into s)[v := c]\<rparr>;
           u = ?q done (sr v) in
       if u \<noteq> c then cycle_loop c u (acc @ [(v, ai v)]) s' else Some (acc @ [(v, ai v)], s'))"
    using a v(4) f(1) g1(1) g(1) by (subst cycle_loop.simps) (simp add: Let_def)
  ultimately show ?thesis using f(2) by blast
qed

lemma cycle_loop_correct:
  assumes "\<forall>u \<in> set (v # rest). has_arc n s ai sr tg u \<and> R (tg u) = u \<and> u \<in> V \<and> u \<noteq> c \<and> u < length (ms_contracted_into s)"
    and "distinct (v # rest)" and "set (v # rest) \<inter> done = {}" and "\<forall>x \<in> {1..n}. R x \<noteq> c"
    and "linked R sr (v # rest) e" and "e \<in> done \<or> e = v \<and> rest \<noteq> []" and "c \<in> V"
    and "classes n (\<lambda>x. if R x \<in> insert v done then c else R x) (ms_strong_components s)"
    and "roots n M (\<lambda>x. if R x \<in> done then c else R x) (V - done) (ms_contracted_nodes s)" and "c \<notin> done"
  shows "\<exists>strong contr into. cycle_loop c v acc s = Some (acc @ map (\<lambda>u. (u, ai u)) (v # rest),
      s\<lparr>ms_strong_components := strong, ms_contracted_nodes := contr, ms_contracted_into := into\<rparr>) \<and>
    classes n (\<lambda>x. if R x \<in> set (v # rest) \<union> done then c else R x) strong \<and>
    roots n M (\<lambda>x. if R x \<in> set (v # rest) \<union> done then c else R x) (V - (set (v # rest) \<union> done)) contr \<and>
    length into = length (ms_contracted_into s) \<and>
    (\<forall>u. into ! u = (if u \<in> set (v # rest) then c else ms_contracted_into s ! u))"
  using assms
proof (induction rest arbitrary: v "done" acc s)
  case Nil
  have v: "has_arc n s ai sr tg v" "R (tg v) = v" "v \<in> V" "v \<noteq> c" "v < length (ms_contracted_into s)" "v \<notin> done" using Nil.prems(1,3) by auto
  have e: "R (sr v) \<in> done" using Nil.prems(5,6) by auto
  from cycle_step [OF v Nil.prems(7,10,4,8,9), of acc] e obtain f g where
    fg: "cycle_loop c v acc s = Some (acc @ [(v, ai v)], s\<lparr>ms_strong_components := f, ms_contracted_nodes := g, ms_contracted_into := (ms_contracted_into s)[v := c]\<rparr>)"
      "classes n (\<lambda>x. if R x \<in> insert (R (sr v)) (insert v done) then c else R x) f"
      "roots n M (\<lambda>x. if R x \<in> insert v done then c else R x) (V - insert v done) g" by auto
  have "insert (R (sr v)) (insert v done) = insert v done" using e by blast
  then show ?case using fg v(5)
    by (intro exI [of _ f] exI [of _ g] exI [of _ "(ms_contracted_into s)[v := c]"]) (simp add: nth_list_update)
next
  case (Cons u rest)
  have v: "has_arc n s ai sr tg v" "R (tg v) = v" "v \<in> V" "v \<noteq> c" "v < length (ms_contracted_into s)" "v \<notin> done" using Cons.prems(1,3) by auto
  have u: "R (sr v) = u" "u \<notin> done" "u \<noteq> c" "linked R sr (u # rest) e" using Cons.prems(1,3,5) by auto
  from cycle_step [OF v Cons.prems(7,10,4,8,9), of acc] u obtain f g where
    fg: "cycle_loop c v acc s = cycle_loop c u (acc @ [(v, ai v)])
        (s\<lparr>ms_strong_components := f, ms_contracted_nodes := g, ms_contracted_into := (ms_contracted_into s)[v := c]\<rparr>)"
      "classes n (\<lambda>x. if R x \<in> insert u (insert v done) then c else R x) f"
      "roots n M (\<lambda>x. if R x \<in> insert v done then c else R x) (V - insert v done) g" by auto
  let ?s = "s\<lparr>ms_strong_components := f, ms_contracted_nodes := g, ms_contracted_into := (ms_contracted_into s)[v := c]\<rparr>"
  have p1: "\<forall>z \<in> set (u # rest). has_arc n ?s ai sr tg z \<and> R (tg z) = z \<and> z \<in> V \<and> z \<noteq> c \<and> z < length (ms_contracted_into ?s)"
    using Cons.prems(1) by (simp add: has_arc_def)
  have p2: "distinct (u # rest)" "set (u # rest) \<inter> insert v done = {}" "e \<in> insert v done \<or> e = u \<and> rest \<noteq> []" "c \<notin> insert v done"
    using Cons.prems(2,3,6,10) v(4) by auto
  have p3: "classes n (\<lambda>x. if R x \<in> insert u (insert v done) then c else R x) (ms_strong_components ?s)"
    "roots n M (\<lambda>x. if R x \<in> insert v done then c else R x) (V - insert v done) (ms_contracted_nodes ?s)" using fg(2,3) by simp_all
  from Cons.IH [OF p1 p2(1,2) Cons.prems(4) u(4) p2(3) Cons.prems(7) p3 p2(4), of "acc @ [(v, ai v)]"] obtain strong' contr' into' where
    r: "cycle_loop c u (acc @ [(v, ai v)]) ?s = Some ((acc @ [(v, ai v)]) @ map (\<lambda>u. (u, ai u)) (u # rest),
      ?s\<lparr>ms_strong_components := strong', ms_contracted_nodes := contr', ms_contracted_into := into'\<rparr>)"
    "classes n (\<lambda>x. if R x \<in> set (u # rest) \<union> insert v done then c else R x) strong'"
    "roots n M (\<lambda>x. if R x \<in> set (u # rest) \<union> insert v done then c else R x) (V - (set (u # rest) \<union> insert v done)) contr'"
    "length into' = length (ms_contracted_into ?s)" "\<forall>z. into' ! z = (if z \<in> set (u # rest) then c else ms_contracted_into ?s ! z)" by blast
  have S: "set (u # rest) \<union> insert v done = set (v # u # rest) \<union> done" by auto
  have "into' ! z = (if z \<in> set (v # u # rest) then c else ms_contracted_into s ! z)" for z
    using r(5) v(5) by (simp add: nth_list_update)
  moreover have "cycle_loop c v acc s = Some (acc @ map (\<lambda>u. (u, ai u)) (v # u # rest),
      s\<lparr>ms_strong_components := strong', ms_contracted_nodes := contr', ms_contracted_into := into'\<rparr>)"
    using fg(1) r(1) by simp
  moreover have "length into' = length (ms_contracted_into s)" using r(4) by simp
  ultimately show ?case using r(2,3) unfolding S by blast
qed

section \<open>Contracting a cycle: the second pass\<close>

text \<open>
  A column holds, for every source outside \<open>X\<close>, the best arc to one of the targets \<open>T\<close>, scores adjusted by \<open>adj\<close>.
\<close>

definition inbound :: "nat \<Rightarrow> (nat \<Rightarrow> nat \<Rightarrow> 's option) \<Rightarrow> nat set \<Rightarrow> nat set \<Rightarrow> (nat \<Rightarrow> 's) \<Rightarrow> (nat \<Rightarrow> 's :: linordered_idom mst_arc) \<Rightarrow> bool" where
  "inbound n w X T adj c \<longleftrightarrow> (\<forall>a \<le> n.
     (arc_Exists (c a) \<longrightarrow> arc_source (c a) = a \<and> arc_target (c a) \<in> T \<and> a \<notin> X \<and> w a (arc_target (c a)) = Some (arc_score (c a) + adj (arc_target (c a)))) \<and>
     (a \<notin> X \<longrightarrow> (\<forall>t \<in> T. \<forall>x. w a t = Some x \<longrightarrow> arc_Exists (c a) \<and> x \<le> arc_score (c a) + adj t)))"

lemma inboundD:
  assumes "inbound n w X T adj c" and "a \<le> n"
  shows "arc_Exists (c a) \<Longrightarrow> arc_source (c a) = a \<and> arc_target (c a) \<in> T \<and> a \<notin> X \<and> w a (arc_target (c a)) = Some (arc_score (c a) + adj (arc_target (c a)))"
    and "a \<notin> X \<Longrightarrow> t \<in> T \<Longrightarrow> w a t = Some x \<Longrightarrow> arc_Exists (c a) \<and> x \<le> arc_score (c a) + adj t"
  using assms by (auto simp: inbound_def)

lemma inbound_merge:
  assumes v: "inbound n w Y Y adj_v cv" and c: "inbound n w X T adj cc"
    and X: "Y \<subseteq> X" "\<forall>t \<in> Y. adj t = adj_v t + mv"
    and J: "\<And>a t. a \<le> n \<Longrightarrow> t \<in> Y \<Longrightarrow> a \<noteq> t \<Longrightarrow> (a, t) \<in> joined f \<longleftrightarrow> a \<in> X"
    and c': "\<forall>a \<le> n. cc' a = merged_arc (- mv) f (cv a) (cc a)"
  shows "inbound n w X (T \<union> Y) adj cc'"
  unfolding inbound_def
proof (intro allI impI)
  fix a assume a: "a \<le> n"
  note V = inboundD [OF v a] and C = inboundD [OF c a] and m = c' [rule_format, OF a]
  let ?P = "(arc_Exists (cc' a) \<longrightarrow> arc_source (cc' a) = a \<and> arc_target (cc' a) \<in> T \<union> Y \<and> a \<notin> X \<and>
       w a (arc_target (cc' a)) = Some (arc_score (cc' a) + adj (arc_target (cc' a)))) \<and>
     (a \<notin> X \<longrightarrow> (\<forall>t \<in> T \<union> Y. \<forall>x. w a t = Some x \<longrightarrow> arc_Exists (cc' a) \<and> x \<le> arc_score (cc' a) + adj t))"
  show ?P
  proof (cases "arc_Exists (cv a) \<and> a \<notin> X")
    case False
    have "cc' a = cc a"
    proof (cases "arc_Exists (cv a)")
      case True
      then have "arc_source (cv a) = a" "arc_target (cv a) \<in> Y" "a \<noteq> arc_target (cv a)" using V(1) by (simp, simp, metis)
      then have "(arc_source (cv a), arc_target (cv a)) \<in> joined f" using J [OF a, of "arc_target (cv a)"] False True by simp
      then show ?thesis using m by (simp add: merged_arc_def)
    qed (use m in \<open>simp add: merged_arc_def\<close>)
    moreover have False if "a \<notin> X" "t \<in> Y" "w a t = Some x" for t x using V(2) [OF _ that(2,3)] X(1) False that(1) by auto
    ultimately show ?thesis using C by auto
  next
    case True
    note av = V(1) [OF conjunct1 [OF True]]
    have nj: "(arc_source (cv a), arc_target (cv a)) \<notin> joined f" using av J [OF a, of "arc_target (cv a)"] True X(1) by metis
    have bound: "x \<le> arc_score (cv a) - mv + adj t" if "t \<in> Y" "w a t = Some x" for t x
      using V(2) [OF _ that] X that(1) True by auto
    show ?thesis
    proof (cases "\<not> arc_Exists (cc a) \<or> arc_score (cc a) < arc_score (cv a) - mv")
      case True
      then have "cc' a = (cc a)\<lparr>arc_score := arc_score (cv a) - mv, arc_source := a, arc_target := arc_target (cv a)\<rparr>"
        using m av nj \<open>arc_Exists (cv a) \<and> a \<notin> X\<close> by (simp add: merged_arc_def)
      moreover have "arc_target (cv a) \<noteq> 0" using \<open>arc_Exists (cv a) \<and> a \<notin> X\<close> by (simp add: arc_Exists_def)
      moreover have "x \<le> arc_score (cv a) - mv + adj t" if "t \<in> T" "w a t = Some x" for t x
        using C(2) [OF _ that] True \<open>arc_Exists (cv a) \<and> a \<notin> X\<close> by auto
      moreover have "adj (arc_target (cv a)) = adj_v (arc_target (cv a)) + mv" using X(2) av by blast
      ultimately show ?thesis using av bound \<open>arc_Exists (cv a) \<and> a \<notin> X\<close> by (auto simp: arc_Exists_def)
    next
      case False
      then have "cc' a = cc a" using m by (simp add: merged_arc_def)
      moreover have "x \<le> arc_score (cc a) + adj t" if "t \<in> Y" "w a t = Some x" for t x using bound [OF that] False by auto
      ultimately show ?thesis using C False by auto
    qed
  qed
qed

definition merge_body :: "nat \<Rightarrow> nat \<times> nat \<Rightarrow> 's :: linordered_idom mst_solver \<Rightarrow> 's mst_solver option" where
  "merge_body c = (\<lambda>(cycle_node, i) s. do { arc \<leftarrow> vec_at (ms_arcs s) (int i); exact_MergeInboundArcs cycle_node (- arc_score arc) c s })"

lemma merge_all:
  assumes "ms_num_initial_nodes s = Suc n" and "length (ms_arcs s) = Suc n * Suc c"
    and "\<forall>v \<in> set vs. v < c \<and> S v \<subseteq> X \<and> (\<exists>a \<le> n. ai v = a + v * Suc n \<and> m v = arc_score (col n (ms_arcs s) v a)) \<and>
        inbound n w (S v) (S v) (adj' v) (col n (ms_arcs s) v) \<and> (\<forall>t \<in> S v. adj t = adj' v t + m v)"
    and "X \<subseteq> {1..n}" and "\<forall>x \<in> {1..n}. q x = c \<longleftrightarrow> x \<in> X" and "classes n q (ms_strong_components s)"
    and "inbound n w X T adj (col n (ms_arcs s) c)"
  shows "\<exists>arcs' strong'. foreach (merge_body c) (map (\<lambda>u. (u, ai u)) vs) s = Some (s\<lparr>ms_arcs := arcs', ms_strong_components := strong'\<rparr>) \<and>
    length arcs' = Suc n * Suc c \<and> (\<forall>u a. u \<noteq> c \<longrightarrow> a \<le> n \<longrightarrow> col n arcs' u a = col n (ms_arcs s) u a) \<and>
    inbound n w X (T \<union> (\<Union>v \<in> set vs. S v)) adj (col n arcs' c) \<and> classes n q strong'"
  using assms
proof (induction vs arbitrary: s T)
  case Nil
  then show ?case by (intro exI [of _ "ms_arcs s"] exI [of _ "ms_strong_components s"]) simp
next
  case (Cons v vs)
  have v: "v < c" "S v \<subseteq> X" "inbound n w (S v) (S v) (adj' v) (col n (ms_arcs s) v)" "\<forall>t \<in> S v. adj t = adj' v t + m v"
    using Cons.prems(3) by auto
  obtain a where a: "a \<le> n" "ai v = a + v * Suc n" "m v = arc_score (col n (ms_arcs s) v a)" using Cons.prems(3) by auto
  have "ai v < length (ms_arcs s)" using column_bound [OF a(1), of v "Suc c"] v(1) Cons.prems(2) a(2) by simp
  then have arc: "vec_at (ms_arcs s) (int (ai v)) = Some (col n (ms_arcs s) v a)" unfolding col_def a(2) [symmetric] by simp
  note cl = Cons.prems(6) [unfolded classes_def]
  have range: "column_range n (ms_arcs s) v"
    unfolding column_range_def using inboundD(1) [OF v(3)] v(2) Cons.prems(4) by force
  obtain arcs1 strong1 where r1: "exact_MergeInboundArcs v (- m v) c s = Some (s\<lparr>ms_arcs := arcs1, ms_strong_components := strong1\<rparr>)"
    "length arcs1 = Suc n * Suc c"
    "\<forall>a \<le> n. col n arcs1 c a = merged_arc (- m v) (ms_strong_components s) (col n (ms_arcs s) v a) (col n (ms_arcs s) c a)"
    "\<forall>u a. u \<noteq> c \<longrightarrow> a \<le> n \<longrightarrow> col n arcs1 u a = col n (ms_arcs s) u a"
    "dsf_inv True strong1" "dsf_size strong1 = Suc n" "joined strong1 = joined (ms_strong_components s)"
    using MergeInboundArcs_eq [OF Cons.prems(1,2) _ _ _ range, of c "- m v"] v(1) cl by auto
  have c1: "classes n q strong1" using r1(5-7) cl by (simp add: classes_def)
  have J: "(b, t) \<in> joined (ms_strong_components s) \<longleftrightarrow> b \<in> X" if "b \<le> n" "t \<in> S v" "b \<noteq> t" for b t
  proof -
    have t: "t \<in> X" "1 \<le> t" "t \<le> n" using that v(2) Cons.prems(4) by auto
    then have "(b, t) \<in> joined (ms_strong_components s) \<longleftrightarrow> 1 \<le> b \<and> q b = q t" using cl that by auto
    moreover have "q t = c" using Cons.prems(5) t by auto
    ultimately show ?thesis using Cons.prems(4,5) that by auto
  qed
  have i1: "inbound n w X (T \<union> S v) adj (col n arcs1 c)" by (rule inbound_merge [OF v(3) Cons.prems(7) v(2,4) J r1(3)])
  let ?s = "s\<lparr>ms_arcs := arcs1, ms_strong_components := strong1\<rparr>"
  have cols: "inbound n w (S u) (S u) (adj' u) (col n arcs1 u)" if "u \<noteq> c" "inbound n w (S u) (S u) (adj' u) (col n (ms_arcs s) u)" for u
    using that r1(4) by (simp add: inbound_def)
  have p3: "\<forall>u \<in> set vs. u < c \<and> S u \<subseteq> X \<and> (\<exists>a \<le> n. ai u = a + u * Suc n \<and> m u = arc_score (col n (ms_arcs ?s) u a)) \<and>
        inbound n w (S u) (S u) (adj' u) (col n (ms_arcs ?s) u) \<and> (\<forall>t \<in> S u. adj t = adj' u t + m u)"
  proof
    fix u assume "u \<in> set vs"
    then have u: "u < c \<and> S u \<subseteq> X \<and> (\<exists>a \<le> n. ai u = a + u * Suc n \<and> m u = arc_score (col n (ms_arcs s) u a)) \<and>
        inbound n w (S u) (S u) (adj' u) (col n (ms_arcs s) u) \<and> (\<forall>t \<in> S u. adj t = adj' u t + m u)"
      using bspec [OF Cons.prems(3), of u] by simp
    then have "u \<noteq> c" by simp
    then show "u < c \<and> S u \<subseteq> X \<and> (\<exists>a \<le> n. ai u = a + u * Suc n \<and> m u = arc_score (col n (ms_arcs ?s) u a)) \<and>
        inbound n w (S u) (S u) (adj' u) (col n (ms_arcs ?s) u) \<and> (\<forall>t \<in> S u. adj t = adj' u t + m u)"
      using u cols r1(4) by auto
  qed
  from Cons.IH [of ?s "T \<union> S v", OF _ _ p3 Cons.prems(4,5)] Cons.prems(1) r1(2) c1 i1 obtain arcs' strong' where
    r: "foreach (merge_body c) (map (\<lambda>u. (u, ai u)) vs) ?s = Some (?s\<lparr>ms_arcs := arcs', ms_strong_components := strong'\<rparr>)"
      "length arcs' = Suc n * Suc c" "\<forall>u a. u \<noteq> c \<longrightarrow> a \<le> n \<longrightarrow> col n arcs' u a = col n arcs1 u a"
      "inbound n w X (T \<union> S v \<union> (\<Union>v \<in> set vs. S v)) adj (col n arcs' c)" "classes n q strong'" by auto
  have "foreach (merge_body c) (map (\<lambda>u. (u, ai u)) (v # vs)) s = Some (s\<lparr>ms_arcs := arcs', ms_strong_components := strong'\<rparr>)"
    using r(1) r1(1) arc a(3) by (simp add: merge_body_def)
  then show ?case using r(2-5) r1(4) by (intro exI [of _ arcs'] exI [of _ strong']) (simp add: Un_assoc)
qed

section \<open>The invariant of the contraction phase\<close>

text \<open>
  Before the loop handles node \<open>k\<close>, the nodes below \<open>k\<close> have chosen their best inbound arc: its position \<open>ai v\<close>, source \<open>sr v\<close>,
  target \<open>tg v\<close> and score \<open>m v\<close>. \<open>S v\<close> are the nodes of the digraph inside \<open>v\<close> and \<open>R x\<close> is the topmost node around \<open>x\<close>.
\<close>

definition tops :: "'s mst_solver \<Rightarrow> nat set" where
  "tops s = {v \<in> {1..<ms_num_current_nodes s}. ms_contracted_into s ! v = 0}"

definition shape :: "nat \<Rightarrow> nat \<Rightarrow> 's mst_solver \<Rightarrow> bool" where
  "shape n k s \<longleftrightarrow> ms_num_original_nodes s = n \<and> ms_num_initial_nodes s = Suc n \<and> ms_num_possible_nodes s = 2 * n \<and>
     length (ms_arcs s) = Suc n * ms_num_current_nodes s \<and> length (ms_contracted_into s) = 2 * n \<and> length (ms_argmax_arcs s) = 2 * n \<and>
     1 \<le> k \<and> k \<le> ms_num_current_nodes s \<and> ms_num_current_nodes s \<le> 2 * n"

definition layout :: "nat \<Rightarrow> nat \<Rightarrow> (nat \<Rightarrow> nat set) \<Rightarrow> (nat \<Rightarrow> nat) \<Rightarrow> 's mst_solver \<Rightarrow> bool" where
  "layout n k S R s \<longleftrightarrow> nested n (ms_num_current_nodes s) S ((!) (ms_contracted_into s)) \<and>
     (\<forall>v \<in> {1..<ms_num_current_nodes s}. S v \<noteq> {}) \<and>
     (\<forall>v \<in> {1..<ms_num_current_nodes s}. ms_contracted_into s ! v \<noteq> 0 \<longrightarrow> v < k) \<and>
     (\<forall>v \<in> {ms_num_current_nodes s..<2 * n}. ms_contracted_into s ! v = 0) \<and>
     (\<forall>x \<in> {1..n}. R x \<in> tops s \<and> x \<in> S (R x)) \<and> card (tops s) + ms_num_current_nodes s \<le> Suc (2 * n)"

definition columns :: "nat \<Rightarrow> (nat \<Rightarrow> nat \<Rightarrow> 's option) \<Rightarrow> (nat \<Rightarrow> nat set) \<Rightarrow> (nat \<Rightarrow> 's) \<Rightarrow> 's :: linordered_idom mst_solver \<Rightarrow> bool" where
  "columns n w S m s \<longleftrightarrow>
     (\<forall>v \<in> {1..<ms_num_current_nodes s}. inbound n w (S v) (S v) (\<lambda>t. cost S m t (v - 1)) (col n (ms_arcs s) v))"

definition chosen ::
  "nat \<Rightarrow> nat \<Rightarrow> (nat \<Rightarrow> nat) \<Rightarrow> (nat \<Rightarrow> nat) \<Rightarrow> (nat \<Rightarrow> 's) \<Rightarrow> (nat \<Rightarrow> nat) \<Rightarrow> 's :: linordered_idom mst_solver \<Rightarrow> bool" where
  "chosen n k sr tg m ai s \<longleftrightarrow> (\<forall>v \<in> {1..<k}. sr v \<le> n \<and> ai v = sr v + v * Suc n \<and> ms_argmax_arcs s ! v = Some (ai v) \<and>
     arc_Exists (col n (ms_arcs s) v (sr v)) \<and> arc_target (col n (ms_arcs s) v (sr v)) = tg v \<and>
     arc_score (col n (ms_arcs s) v (sr v)) = m v \<and>
     (\<forall>b \<le> n. arc_Exists (col n (ms_arcs s) v b) \<longrightarrow> arc_score (col n (ms_arcs s) v b) \<le> m v))"

definition cycles :: "nat \<Rightarrow> (nat \<Rightarrow> nat set) \<Rightarrow> (nat \<Rightarrow> nat) \<Rightarrow> 's mst_solver \<Rightarrow> bool" where
  "cycles n S sr s \<longleftrightarrow> (let N = ms_num_current_nodes s; into = (!) (ms_contracted_into s) in
     (\<forall>v \<in> {1..<N}. into v \<noteq> 0 \<longrightarrow> sr v \<in> S (into v)) \<and>
     (\<forall>p \<in> {Suc n..<N}. \<forall>D. D \<noteq> {} \<longrightarrow> D \<subseteq> {v \<in> {1..<N}. into v = p} \<longrightarrow>
        (\<forall>v \<in> D. \<exists>v' \<in> D. sr v \<in> S v') \<longrightarrow> D = {v \<in> {1..<N}. into v = p}))"

definition core ::
  "nat \<Rightarrow> (nat \<Rightarrow> nat \<Rightarrow> 's option) \<Rightarrow> nat \<Rightarrow> (nat \<Rightarrow> nat set) \<Rightarrow> (nat \<Rightarrow> nat) \<Rightarrow> (nat \<Rightarrow> nat) \<Rightarrow> (nat \<Rightarrow> nat) \<Rightarrow> (nat \<Rightarrow> 's) \<Rightarrow> (nat \<Rightarrow> nat)
     \<Rightarrow> 's :: linordered_idom mst_solver \<Rightarrow> bool" where
  "core n w k S R sr tg m ai s \<longleftrightarrow> shape n k s \<and> layout n k S R s \<and> columns n w S m s \<and> chosen n k sr tg m ai s \<and> cycles n S sr s \<and>
     classes n R (ms_strong_components s) \<and> roots n (2 * n) R (tops s \<union> {ms_num_current_nodes s..<2 * n}) (ms_contracted_nodes s)"

lemma coreD:
  assumes "core n w k S R sr tg m ai s"
  shows "shape n k s" and "layout n k S R s" and "columns n w S m s" and "chosen n k sr tg m ai s" and "cycles n S sr s"
    and "classes n R (ms_strong_components s)" and "roots n (2 * n) R (tops s \<union> {ms_num_current_nodes s..<2 * n}) (ms_contracted_nodes s)"
  using assms by (simp_all add: core_def)

lemma layoutD:
  assumes "layout n k S R s"
  shows "nested n (ms_num_current_nodes s) S ((!) (ms_contracted_into s))"
    and "1 \<le> v \<Longrightarrow> v < ms_num_current_nodes s \<Longrightarrow> S v \<noteq> {}"
    and "1 \<le> v \<Longrightarrow> v < ms_num_current_nodes s \<Longrightarrow> ms_contracted_into s ! v \<noteq> 0 \<Longrightarrow> v < k"
    and "ms_num_current_nodes s \<le> v \<Longrightarrow> v < 2 * n \<Longrightarrow> ms_contracted_into s ! v = 0"
    and "1 \<le> x \<Longrightarrow> x \<le> n \<Longrightarrow> R x \<in> tops s \<and> x \<in> S (R x)"
    and "card (tops s) + ms_num_current_nodes s \<le> Suc (2 * n)"
  using assms by (simp_all add: layout_def)

lemma topsD: "v \<in> tops s \<Longrightarrow> 1 \<le> v \<and> v < ms_num_current_nodes s \<and> ms_contracted_into s ! v = 0"
  by (simp add: tops_def)

lemma tops_update [simp]:
  "tops (s\<lparr>ms_argmax_arcs := x1\<rparr>) = tops s" "tops (s\<lparr>ms_arcs := x2\<rparr>) = tops s" "tops (s\<lparr>ms_weak_components := x3\<rparr>) = tops s"
  "tops (s\<lparr>ms_strong_components := x4\<rparr>) = tops s" "tops (s\<lparr>ms_contracted_nodes := x5\<rparr>) = tops s"
  by (simp_all add: tops_def)

lemma top_unique:
  assumes l: "layout n k S R s" and v: "v \<in> tops s" "x \<in> S v"
  shows "R x = v"
proof -
  note nest = layoutD(1) [OF l]
  have x: "1 \<le> x" "x \<le> n" using nestedD(3) [OF nest, of v] topsD [OF v(1)] v(2) by auto
  note R = layoutD(5) [OF l x]
  have "\<not> R x < v" "\<not> v < R x"
    using nestedD(6) [OF nest, of "R x" v x] nestedD(6) [OF nest, of v "R x" x] topsD [OF v(1)] topsD [OF conjunct1 [OF R]] R v(2) by auto
  then show ?thesis by simp
qed

lemma chosen_arc:
  assumes c: "core n w k S R sr tg m ai s" and v: "1 \<le> v" "v < k"
  shows "sr v \<le> n" and "sr v \<notin> S v" and "tg v \<in> S v" and "1 \<le> tg v" and "tg v \<le> n" and "v < ms_num_current_nodes s"
    and "w (sr v) (tg v) = Some (m v + cost S m (tg v) (v - 1))"
    and "arc_source (col n (ms_arcs s) v (sr v)) = sr v" and "arc_target (col n (ms_arcs s) v (sr v)) = tg v"
    and "ai v = sr v + v * Suc n" and "ms_argmax_arcs s ! v = Some (ai v)" and "arc_score (col n (ms_arcs s) v (sr v)) = m v"
    and "b \<le> n \<Longrightarrow> arc_Exists (col n (ms_arcs s) v b) \<Longrightarrow> arc_score (col n (ms_arcs s) v b) \<le> m v"
proof -
  show vN: "v < ms_num_current_nodes s" using coreD(1) [OF c] v by (simp add: shape_def)
  have ch: "sr v \<le> n \<and> ai v = sr v + v * Suc n \<and> ms_argmax_arcs s ! v = Some (ai v) \<and>
     arc_Exists (col n (ms_arcs s) v (sr v)) \<and> arc_target (col n (ms_arcs s) v (sr v)) = tg v \<and>
     arc_score (col n (ms_arcs s) v (sr v)) = m v \<and>
     (\<forall>b \<le> n. arc_Exists (col n (ms_arcs s) v b) \<longrightarrow> arc_score (col n (ms_arcs s) v b) \<le> m v)"
    using coreD(4) [OF c, unfolded chosen_def] v by (meson atLeastLessThan_iff)
  then show "sr v \<le> n" "ai v = sr v + v * Suc n" "ms_argmax_arcs s ! v = Some (ai v)" "arc_target (col n (ms_arcs s) v (sr v)) = tg v"
    "arc_score (col n (ms_arcs s) v (sr v)) = m v" by simp_all
  show "b \<le> n \<Longrightarrow> arc_Exists (col n (ms_arcs s) v b) \<Longrightarrow> arc_score (col n (ms_arcs s) v b) \<le> m v" using ch by blast
  have "inbound n w (S v) (S v) (\<lambda>t. cost S m t (v - 1)) (col n (ms_arcs s) v)" using coreD(3) [OF c] v vN by (simp add: columns_def)
  from inboundD(1) [OF this, of "sr v"] ch show "sr v \<notin> S v" "tg v \<in> S v" "w (sr v) (tg v) = Some (m v + cost S m (tg v) (v - 1))"
    "arc_source (col n (ms_arcs s) v (sr v)) = sr v" by auto
  then show "1 \<le> tg v" "tg v \<le> n" using nestedD(3) [OF layoutD(1) [OF coreD(2) [OF c]] v(1) vN] by auto
qed

text \<open>Choosing the arc of the next node.\<close>

lemma core_select:
  assumes c: "core n w k S R sr tg m ai s" and k: "k < ms_num_current_nodes s" and a: "a \<le> n"
    and best: "arc_Exists (col n (ms_arcs s) k a)"
      "\<forall>b \<le> n. arc_Exists (col n (ms_arcs s) k b) \<longrightarrow> arc_score (col n (ms_arcs s) k b) \<le> arc_score (col n (ms_arcs s) k a)"
  shows "core n w (Suc k) S R (sr(k := a)) (tg(k := arc_target (col n (ms_arcs s) k a))) (m(k := arc_score (col n (ms_arcs s) k a)))
    (ai(k := a + k * Suc n)) (s\<lparr>ms_argmax_arcs := (ms_argmax_arcs s)[k := Some (a + k * Suc n)]\<rparr>)"
proof -
  let ?s = "s\<lparr>ms_argmax_arcs := (ms_argmax_arcs s)[k := Some (a + k * Suc n)]\<rparr>"
  let ?m = "m(k := arc_score (col n (ms_arcs s) k a))"
  note sh = coreD(1) [OF c] and l = coreD(2) [OF c]
  note nest = layoutD(1) [OF l]
  have k1: "1 \<le> k" "k < length (ms_argmax_arcs s)" using sh k by (auto simp: shape_def)
  have into_k: "ms_contracted_into s ! k = 0" using layoutD(3) [OF l k1(1) k] by auto
  have "cost S ?m t (v - 1) = cost S m t (v - 1)" if v: "1 \<le> v" "v < ms_num_current_nodes s" "t \<in> S v" for v t
    unfolding cost_def
  proof (rule sum.cong)
    fix u assume u: "u \<in> {u. 1 \<le> u \<and> u \<le> v - 1 \<and> t \<in> S u}"
    then have "1 \<le> u" "u < v" "t \<in> S u" using v(1) by auto
    then have "u \<noteq> k" using nestedD(6) [OF nest, of u v t] v into_k by auto
    then show "?m u = m u" by simp
  qed simp
  then have "columns n w S ?m ?s"
    using coreD(3) [OF c] by (auto simp: columns_def inbound_def)
  moreover have "shape n (Suc k) ?s" using sh k by (simp add: shape_def)
  moreover have "layout n (Suc k) S R ?s" using l by (auto simp: layout_def less_Suc_eq)
  moreover have "chosen n (Suc k) (sr(k := a)) (tg(k := arc_target (col n (ms_arcs s) k a))) ?m (ai(k := a + k * Suc n)) ?s"
    using coreD(4) [OF c] a best k1(2) by (auto simp: chosen_def less_Suc_eq)
  moreover have "cycles n S (sr(k := a)) ?s"
  proof -
    have "(sr(k := a)) v = sr v" if "ms_contracted_into s ! v \<noteq> 0" for v using that into_k by auto
    moreover have "\<forall>v \<in> D. (sr(k := a)) v = sr v" if "D \<subseteq> {v \<in> {1..<ms_num_current_nodes s}. ms_contracted_into s ! v = p}" "Suc n \<le> p" for D p
      using that into_k by auto
    ultimately show ?thesis using coreD(5) [OF c] unfolding cycles_def Let_def by (auto simp del: fun_upd_apply)
  qed
  ultimately show ?thesis using coreD(6,7) [OF c] by (simp add: core_def)
qed

section \<open>A contraction keeps the invariant\<close>

lemma linked_end: "linked R sr vs e \<Longrightarrow> \<forall>v \<in> D. R (sr v) \<in> D \<Longrightarrow> v \<in> set vs \<Longrightarrow> v \<in> D \<Longrightarrow> e \<in> D"
proof (induction R sr vs e arbitrary: v rule: linked.induct)
  case (3 R sr u u' vs e)
  then show ?case by (cases "v = u") auto
qed auto

lemma linked_all: "linked R sr vs e \<Longrightarrow> \<forall>v \<in> D. R (sr v) \<in> D \<Longrightarrow> vs \<noteq> [] \<Longrightarrow> hd vs \<in> D \<Longrightarrow> set vs \<subseteq> D"
  by (induction R sr vs e rule: linked.induct) auto

lemma linked_next: "linked R sr vs e \<Longrightarrow> v \<in> set vs \<Longrightarrow> R (sr v) \<in> insert e (set vs)"
  by (induction R sr vs e rule: linked.induct) auto

text \<open>The new node, and the nodes of the cycle.\<close>

definition is_cycle :: "nat \<Rightarrow> (nat \<Rightarrow> nat) \<Rightarrow> (nat \<Rightarrow> nat) \<Rightarrow> 's mst_solver \<Rightarrow> nat \<Rightarrow> nat list \<Rightarrow> bool" where
  "is_cycle k R sr s v vs \<longleftrightarrow> vs \<noteq> [] \<and> hd vs = v \<and> tl vs \<noteq> [] \<and> distinct vs \<and> linked R sr vs v \<and>
     (\<forall>u \<in> set vs. u \<in> tops s \<and> u < k \<and> sr u \<noteq> 0)"

lemma is_cycleD:
  assumes "is_cycle k R sr s v vs"
  shows "v \<in> set vs" and "distinct vs" and "linked R sr vs v" and "2 \<le> length vs" and "u \<in> set vs \<Longrightarrow> u \<in> tops s \<and> u < k \<and> sr u \<noteq> 0"
    and "u \<in> set vs \<Longrightarrow> R (sr u) \<in> set vs" and "vs = v # tl vs"
proof -
  note c = assms [unfolded is_cycle_def]
  show h: "v \<in> set vs" "distinct vs" "linked R sr vs v" "u \<in> set vs \<Longrightarrow> u \<in> tops s \<and> u < k \<and> sr u \<noteq> 0" "vs = v # tl vs" using c by (auto intro: hd_in_set)
  show "2 \<le> length vs" using c by (cases vs; cases "tl vs") auto
  show "u \<in> set vs \<Longrightarrow> R (sr u) \<in> set vs" using linked_next [OF h(3)] h(1) by auto
qed

definition contracted_state :: "nat \<Rightarrow> nat list \<Rightarrow> 's mst_solver \<Rightarrow> 's mst_solver \<Rightarrow> bool" where
  "contracted_state n vs s s' \<longleftrightarrow> (let N = ms_num_current_nodes s in
     ms_num_current_nodes s' = Suc N \<and> ms_num_original_nodes s' = ms_num_original_nodes s \<and> ms_num_initial_nodes s' = ms_num_initial_nodes s \<and>
     ms_num_possible_nodes s' = ms_num_possible_nodes s \<and> ms_forest s' = ms_forest s \<and> ms_weak_components s' = ms_weak_components s \<and>
     ms_argmax_arcs s' = ms_argmax_arcs s \<and> length (ms_contracted_into s') = length (ms_contracted_into s) \<and>
     (\<forall>u. ms_contracted_into s' ! u = (if u \<in> set vs then N else ms_contracted_into s ! u)) \<and>
     length (ms_arcs s') = Suc n * Suc N \<and> (\<forall>u a. u < N \<longrightarrow> a \<le> n \<longrightarrow> col n (ms_arcs s') u a = col n (ms_arcs s) u a))"

lemma contracted_tops:
  assumes "contracted_state n vs s s'" and "set vs \<subseteq> tops s" and "1 \<le> ms_num_current_nodes s" and "ms_contracted_into s ! ms_num_current_nodes s = 0"
  shows "tops s' = insert (ms_num_current_nodes s) (tops s - set vs)"
  using assms unfolding contracted_state_def Let_def tops_def by (auto simp: less_Suc_eq split: if_splits)

lemma contracted_nested:
  assumes c: "contracted_state n vs s s'" and l: "layout n k S R s" and vs: "set vs \<subseteq> tops s" "vs \<noteq> []"
    and X: "S' = S(ms_num_current_nodes s := (\<Union>v \<in> set vs. S v))" and N: "ms_contracted_into s ! ms_num_current_nodes s = 0"
  shows "nested n (ms_num_current_nodes s') S' ((!) (ms_contracted_into s'))"
proof -
  let ?N = "ms_num_current_nodes s" and ?into = "\<lambda>v. ms_contracted_into s ! v" and ?into' = "\<lambda>v. ms_contracted_into s' ! v"
  note nest = layoutD(1) [OF l]
  have nN: "n < ?N" by (rule nestedD(1) [OF nest])
  have N': "ms_num_current_nodes s' = Suc ?N" and into': "\<And>u. ?into' u = (if u \<in> set vs then ?N else ?into u)"
    using c by (auto simp: contracted_state_def Let_def)
  have S: "S' v = S v" if "v < ?N" for v using that X by simp
  have SN: "S' ?N = (\<Union>v \<in> set vs. S v)" using X by simp
  have vsN: "1 \<le> v" "v < ?N" "?into v = 0" if "v \<in> set vs" for v using topsD [of v s] vs(1) that by auto
  have up: "v < ?into' v \<and> n < ?into' v \<and> ?into' v < Suc ?N" if "v \<in> {1..<Suc ?N}" "?into' v \<noteq> 0" for v
  proof (cases "v \<in> set vs")
    case True
    then show ?thesis using into' vsN(2) [of v] nN by simp
  next
    case False
    then have "?into v \<noteq> 0" using that into' by auto
    moreover from this have "v < ?N" using that(1) N by (cases "v = ?N") auto
    ultimately show ?thesis using nestedD(4) [OF nest, of v] that(1) False into' by auto
  qed
  have children: "S' p = (\<Union>v \<in> {v \<in> {1..<Suc ?N}. ?into' v = p}. S' v)" if p: "p \<in> {Suc n..<Suc ?N}" for p
  proof (cases "p = ?N")
    case True
    have "{v \<in> {1..<Suc ?N}. ?into' v = ?N} = set vs"
    proof (intro equalityI subsetI)
      fix v assume v: "v \<in> {v \<in> {1..<Suc ?N}. ?into' v = ?N}"
      show "v \<in> set vs"
      proof (rule ccontr)
        assume "v \<notin> set vs"
        then have i: "?into v = ?N" using v into' by auto
        then have "v < ?N" using v N nN by (cases "v = ?N") auto
        then show False using nestedD(4) [OF nest, of v] v i nN by auto
      qed
    next
      fix v assume "v \<in> set vs"
      then show "v \<in> {v \<in> {1..<Suc ?N}. ?into' v = ?N}" using vsN [of v] into' by auto
    qed
    then show ?thesis using True SN S vsN(2) by simp
  next
    case False
    then have p': "n < p" "p < ?N" using p by auto
    have "{v \<in> {1..<Suc ?N}. ?into' v = p} = {v \<in> {1..<?N}. ?into v = p}"
      using into' p' vsN(3) N by (auto simp: less_Suc_eq split: if_splits)
    then show ?thesis using nestedD(5) [OF nest p'] S p'(2) by simp
  qed
  have chain: "?into' u \<noteq> 0 \<and> ?into' u \<le> v" if u: "u \<in> {1..<Suc ?N}" "v \<in> {1..<Suc ?N}" "t \<in> S' u" "t \<in> S' v" "u < v" for u v t
  proof (cases "v = ?N")
    case True
    then obtain z where z: "z \<in> set vs" "t \<in> S z" using u(4) SN by auto
    have uN: "u < ?N" using u(5) True by simp
    show ?thesis
    proof (cases "u \<in> set vs")
      case True
      then show ?thesis using into' \<open>v = ?N\<close> nN by simp
    next
      case False
      have "u \<notin> tops s" using top_unique [OF l, of u t] top_unique [OF l, of z t] z vs(1) False u(3) S uN by auto
      then have "?into u \<noteq> 0" using u(1) uN by (simp add: tops_def)
      then show ?thesis using nestedD(4) [OF nest, of u] u(1) uN False into' True by auto
    qed
  next
    case False
    then have v: "v < ?N" using u(2) by simp
    then have i: "?into u \<noteq> 0 \<and> ?into u \<le> v" using nestedD(6) [OF nest, of u v t] u S by auto
    then have "u \<notin> set vs" using vsN(3) [of u] by auto
    then show ?thesis using i into' by simp
  qed
  have "S' v \<subseteq> {1..n}" if "v \<in> {1..<Suc ?N}" for v
  proof (cases "v = ?N")
    case True
    then show ?thesis unfolding True SN using nestedD(3) [OF nest] vsN by blast
  next
    case False
    then show ?thesis using that S nestedD(3) [OF nest, of v] by auto
  qed
  moreover have "\<forall>v \<in> {1..n}. S' v = {v}" using S nestedD(2) [OF nest] nN by auto
  ultimately show ?thesis unfolding nested_def N' using nN up children chain by (intro conjI ballI allI impI) auto
qed

lemma cost_last: "1 \<le> u \<Longrightarrow> t \<in> S u \<Longrightarrow> cost S m t u = cost S m t (u - 1) + m u"
proof -
  assume u: "1 \<le> u" "t \<in> S u"
  then have "{z. 1 \<le> z \<and> z \<le> u \<and> t \<in> S z} = insert u {z. 1 \<le> z \<and> z \<le> u - 1 \<and> t \<in> S z}" by auto
  moreover have "u \<notin> {z. 1 \<le> z \<and> z \<le> u - 1 \<and> t \<in> S z}" using u by auto
  ultimately show ?thesis unfolding cost_def by (simp only: sum.insert [OF finite_cost] add.commute not_False_eq_True)
qed

lemma cost_top:
  assumes nest: "nested n N S into" and u: "1 \<le> u" "u < N" "into u = 0" "t \<in> S u"
  shows "cost S m t (N - 1) = cost S m t (u - 1) + m u"
proof -
  have "{z. 1 \<le> z \<and> z \<le> N - 1 \<and> t \<in> S z} = {z. 1 \<le> z \<and> z \<le> u \<and> t \<in> S z}"
  proof (intro equalityI subsetI)
    fix z assume z: "z \<in> {z. 1 \<le> z \<and> z \<le> N - 1 \<and> t \<in> S z}"
    then have "z < N" using u by auto
    then have "\<not> u < z" using nestedD(6) [OF nest, of u z t] u z by auto
    then show "z \<in> {z. 1 \<le> z \<and> z \<le> u \<and> t \<in> S z}" using z by auto
  qed (use u in auto)
  then have "cost S m t (N - 1) = cost S m t u" by (simp add: cost_def)
  then show ?thesis using cost_last [of u t S m] u by simp
qed

text \<open>The state with the new node and an empty column for it.\<close>

definition with_node :: "nat \<Rightarrow> 's :: linordered_idom mst_solver \<Rightarrow> 's mst_solver" where
  "with_node n s = s\<lparr>ms_num_current_nodes := Suc (ms_num_current_nodes s), ms_arcs := ms_arcs s @ replicate (Suc n) null_arc\<rparr>"

lemma with_node_into [simp]: "ms_contracted_into (with_node n s) = ms_contracted_into s"
  by (simp add: with_node_def)

lemma with_node_cols:
  assumes "shape n k s"
  shows "u < ms_num_current_nodes s \<Longrightarrow> a \<le> n \<Longrightarrow> col n (ms_arcs (with_node n s)) u a = col n (ms_arcs s) u a"
    and "a \<le> n \<Longrightarrow> col n (ms_arcs (with_node n s)) (ms_num_current_nodes s) a = null_arc"
    and "length (ms_arcs (with_node n s)) = Suc n * Suc (ms_num_current_nodes s)"
proof -
  have len: "length (ms_arcs s) = Suc n * ms_num_current_nodes s" using assms by (simp add: shape_def)
  show "u < ms_num_current_nodes s \<Longrightarrow> a \<le> n \<Longrightarrow> col n (ms_arcs (with_node n s)) u a = col n (ms_arcs s) u a"
    using column_bound [of a n u "ms_num_current_nodes s"] len by (simp add: col_def nth_append with_node_def)
  show "a \<le> n \<Longrightarrow> col n (ms_arcs (with_node n s)) (ms_num_current_nodes s) a = null_arc"
    using len by (simp add: col_def nth_append with_node_def del: replicate_Suc)
  show "length (ms_arcs (with_node n s)) = Suc n * Suc (ms_num_current_nodes s)" using len by (simp add: with_node_def)
qed

lemma cycle_nodes:
  assumes c: "core n w k S R sr tg m ai s" and cyc: "is_cycle k R sr s v vs" and u: "u \<in> set vs"
  shows "u \<in> tops s" and "1 \<le> u" and "u < k" and "u < ms_num_current_nodes s" and "sr u \<noteq> 0" and "ms_contracted_into s ! u = 0"
    and "has_arc n (with_node n s) ai sr tg u" and "R (tg u) = u"
proof -
  show v: "u \<in> tops s" "u < k" "sr u \<noteq> 0" using is_cycleD(5) [OF cyc u] by auto
  show t: "1 \<le> u" "u < ms_num_current_nodes s" "ms_contracted_into s ! u = 0" using topsD [OF v(1)] by auto
  note a = chosen_arc [OF c t(1) v(2)] and sh = coreD(1) [OF c]
  show "R (tg u) = u" using top_unique [OF coreD(2) [OF c] v(1) a(3)] .
  have "ms_arcs (with_node n s) ! ai u = col n (ms_arcs s) u (sr u)"
    using with_node_cols(1) [OF sh t(2) a(1)] a(10) by (simp add: col_def)
  moreover have "ai u < length (ms_arcs (with_node n s))"
    using column_bound [OF a(1), of u "Suc (ms_num_current_nodes s)"] t(2) a(10) with_node_cols(3) [OF sh] by simp
  ultimately show "has_arc n (with_node n s) ai sr tg u" using a v t sh by (auto simp: has_arc_def with_node_def shape_def)
qed

lemma core_range:
  assumes c: "core n w k S R sr tg m ai s" and x: "x \<in> {1..n}"
  shows "R x \<noteq> ms_num_current_nodes s" and "R x \<in> tops s" and "x \<in> S (R x)"
  using layoutD(5) [OF coreD(2) [OF c], of x] topsD [of "R x" s] x by auto

lemma first_pass:
  assumes c: "core n w k S R sr tg m ai s" and cyc: "is_cycle k R sr s v vs" and cap: "Suc (ms_num_current_nodes s) \<le> 2 * n"
  defines "N \<equiv> ms_num_current_nodes s"
  shows "\<exists>strong contr into. cycle_loop N v [] (with_node n s) = Some (map (\<lambda>u. (u, ai u)) vs,
      (with_node n s)\<lparr>ms_strong_components := strong, ms_contracted_nodes := contr, ms_contracted_into := into\<rparr>) \<and>
    classes n (\<lambda>x. if R x \<in> set vs then N else R x) strong \<and>
    roots n (2 * n) (\<lambda>x. if R x \<in> set vs then N else R x) (tops s \<union> {N..<2 * n} - set vs) contr \<and>
    length into = length (ms_contracted_into s) \<and> (\<forall>u. into ! u = (if u \<in> set vs then N else ms_contracted_into s ! u))"
proof -
  let ?s = "with_node n s"
  note vs = cycle_nodes [OF c cyc] and RN = core_range [OF c, folded N_def]
  have "\<exists>strong contr into. cycle_loop N v [] ?s = Some ([] @ map (\<lambda>u. (u, ai u)) (v # tl vs),
      ?s\<lparr>ms_strong_components := strong, ms_contracted_nodes := contr, ms_contracted_into := into\<rparr>) \<and>
    classes n (\<lambda>x. if R x \<in> set (v # tl vs) \<union> {} then N else R x) strong \<and>
    roots n (2 * n) (\<lambda>x. if R x \<in> set (v # tl vs) \<union> {} then N else R x) (tops s \<union> {N..<2 * n} - (set (v # tl vs) \<union> {})) contr \<and>
    length into = length (ms_contracted_into ?s) \<and> (\<forall>u. into ! u = (if u \<in> set (v # tl vs) then N else ms_contracted_into ?s ! u))"
  proof (rule cycle_loop_correct [where e = v])
    have "has_arc n ?s ai sr tg u \<and> R (tg u) = u \<and> u \<in> tops s \<union> {N..<2 * n} \<and> u \<noteq> N \<and> u < length (ms_contracted_into ?s)" if "u \<in> set vs" for u
      using vs [OF that] coreD(1) [OF c] by (auto simp: shape_def N_def with_node_def)
    then show "\<forall>u \<in> set (v # tl vs). has_arc n ?s ai sr tg u \<and> R (tg u) = u \<and> u \<in> tops s \<union> {N..<2 * n} \<and> u \<noteq> N \<and> u < length (ms_contracted_into ?s)"
      using is_cycleD(7) [OF cyc] by (metis (no_types, lifting))
    show "distinct (v # tl vs)" "linked R sr (v # tl vs) v" using is_cycleD(2,3,7) [OF cyc] by simp_all
    show "v \<in> {} \<or> v = v \<and> tl vs \<noteq> []" using cyc by (simp add: is_cycle_def)
    show "\<forall>x \<in> {1..n}. R x \<noteq> N" using RN by blast
    show "N \<in> tops s \<union> {N..<2 * n}" using cap by (auto simp: N_def)
    have "classes n (\<lambda>x. if R x \<in> insert v {} then N else R x) (ms_strong_components s)"
      by (rule classes_cong [OF coreD(6) [OF c]]) (use RN in auto)
    then show "classes n (\<lambda>x. if R x \<in> insert v {} then N else R x) (ms_strong_components ?s)" by (simp add: with_node_def)
    show "roots n (2 * n) (\<lambda>x. if R x \<in> {} then N else R x) (tops s \<union> {N..<2 * n} - {}) (ms_contracted_nodes ?s)"
      using coreD(7) [OF c] by (simp add: N_def with_node_def)
  qed auto
  then show ?thesis unfolding is_cycleD(7) [OF cyc, symmetric] with_node_into by simp
qed

lemma second_pass:
  assumes c: "core n w k S R sr tg m ai s" and cyc: "is_cycle k R sr s v vs"
    and s2: "s2 = (with_node n s)\<lparr>ms_strong_components := strong, ms_contracted_nodes := contr, ms_contracted_into := into\<rparr>"
    and strong: "classes n (\<lambda>x. if R x \<in> set vs then ms_num_current_nodes s else R x) strong"
  defines "N \<equiv> ms_num_current_nodes s" and "X \<equiv> (\<Union>v \<in> set vs. S v)"
  shows "\<exists>arcs' strong'. foreach (merge_body N) (map (\<lambda>u. (u, ai u)) vs) s2 = Some (s2\<lparr>ms_arcs := arcs', ms_strong_components := strong'\<rparr>) \<and>
    length arcs' = Suc n * Suc N \<and> (\<forall>u a. u < N \<longrightarrow> a \<le> n \<longrightarrow> col n arcs' u a = col n (ms_arcs s) u a) \<and>
    inbound n w X X (\<lambda>t. cost S m t (N - 1)) (col n arcs' N) \<and> classes n (\<lambda>x. if R x \<in> set vs then N else R x) strong'"
proof -
  note sh = coreD(1) [OF c] and l = coreD(2) [OF c] and vs = cycle_nodes [OF c cyc, folded N_def] and RN = core_range [OF c, folded N_def]
  note nest = layoutD(1) [OF l, folded N_def] and cols = with_node_cols [OF sh, folded N_def]
  have arcs2: "ms_arcs s2 = ms_arcs (with_node n s)" by (simp add: s2)
  have "\<exists>arcs' strong'. foreach (merge_body N) (map (\<lambda>u. (u, ai u)) vs) s2 = Some (s2\<lparr>ms_arcs := arcs', ms_strong_components := strong'\<rparr>) \<and>
    length arcs' = Suc n * Suc N \<and> (\<forall>u a. u \<noteq> N \<longrightarrow> a \<le> n \<longrightarrow> col n arcs' u a = col n (ms_arcs s2) u a) \<and>
    inbound n w X ({} \<union> (\<Union>v \<in> set vs. S v)) (\<lambda>t. cost S m t (N - 1)) (col n arcs' N) \<and> classes n (\<lambda>x. if R x \<in> set vs then N else R x) strong'"
  proof (rule merge_all [where m = m and adj' = "\<lambda>v t. cost S m t (v - 1)"])
    show "ms_num_initial_nodes s2 = Suc n" using sh by (simp add: shape_def s2 with_node_def)
    show "length (ms_arcs s2) = Suc n * Suc N" using cols(3) arcs2 by simp
    show "\<forall>u \<in> set vs. u < N \<and> S u \<subseteq> X \<and> (\<exists>a \<le> n. ai u = a + u * Suc n \<and> m u = arc_score (col n (ms_arcs s2) u a)) \<and>
        inbound n w (S u) (S u) (\<lambda>t. cost S m t (u - 1)) (col n (ms_arcs s2) u) \<and> (\<forall>t \<in> S u. cost S m t (N - 1) = cost S m t (u - 1) + m u)"
    proof (intro ballI conjI)
      fix u assume u: "u \<in> set vs"
      note a = chosen_arc [OF c vs(2,3) [OF u]]
      show "u < N" "S u \<subseteq> X" using vs(4) [OF u] u by (auto simp: X_def)
      show "\<exists>a \<le> n. ai u = a + u * Suc n \<and> m u = arc_score (col n (ms_arcs s2) u a)"
        using a(1,10,12) cols(1) [OF vs(4) [OF u] a(1)] arcs2 by auto
      have "inbound n w (S u) (S u) (\<lambda>t. cost S m t (u - 1)) (col n (ms_arcs s) u)" using coreD(3) [OF c] vs(2,4) [OF u] by (simp add: columns_def N_def)
      then show "inbound n w (S u) (S u) (\<lambda>t. cost S m t (u - 1)) (col n (ms_arcs s2) u)"
        using cols(1) [OF vs(4) [OF u]] arcs2 by (simp add: inbound_def)
      show "cost S m t (N - 1) = cost S m t (u - 1) + m u" if "t \<in> S u" for t by (rule cost_top [OF nest vs(2,4,6) [OF u] that])
    qed
    show "X \<subseteq> {1..n}" using nestedD(3) [OF nest] vs(2,4) by (auto simp: X_def)
    have "R x \<in> set vs \<longleftrightarrow> x \<in> X" if "x \<in> {1..n}" for x using RN(3) [OF that] top_unique [OF l vs(1)] by (auto simp: X_def)
    then show "\<forall>x \<in> {1..n}. (if R x \<in> set vs then N else R x) = N \<longleftrightarrow> x \<in> X" using RN(1) by auto
    show "classes n (\<lambda>x. if R x \<in> set vs then N else R x) (ms_strong_components s2)" using strong unfolding N_def s2 by simp
    show "inbound n w X {} (\<lambda>t. cost S m t (N - 1)) (col n (ms_arcs s2) N)"
      using cols(2) arcs2 by (simp add: inbound_def null_arc_def arc_Exists_def)
  qed
  then obtain arcs' strong' where "foreach (merge_body N) (map (\<lambda>u. (u, ai u)) vs) s2 = Some (s2\<lparr>ms_arcs := arcs', ms_strong_components := strong'\<rparr>)"
    "length arcs' = Suc n * Suc N" "\<forall>u a. u \<noteq> N \<longrightarrow> a \<le> n \<longrightarrow> col n arcs' u a = col n (ms_arcs s2) u a"
    "inbound n w X X (\<lambda>t. cost S m t (N - 1)) (col n arcs' N)" "classes n (\<lambda>x. if R x \<in> set vs then N else R x) strong'"
    by (auto simp: X_def)
  then show ?thesis using cols(1) arcs2 by (intro exI [of _ arcs'] exI [of _ strong']) simp
qed

lemma ContractCycle_state:
  assumes c: "core n w k S R sr tg m ai s" and cyc: "is_cycle k R sr s v vs" and cap: "Suc (ms_num_current_nodes s) \<le> 2 * n"
  defines "N \<equiv> ms_num_current_nodes s" and "X \<equiv> (\<Union>v \<in> set vs. S v)"
  shows "\<exists>s'. exact_ContractCycle v s = Some s' \<and> contracted_state n vs s s' \<and>
    inbound n w X X (\<lambda>t. cost S m t (N - 1)) (col n (ms_arcs s') N) \<and>
    classes n (\<lambda>x. if R x \<in> set vs then N else R x) (ms_strong_components s') \<and>
    roots n (2 * n) (\<lambda>x. if R x \<in> set vs then N else R x) (tops s \<union> {N..<2 * n} - set vs) (ms_contracted_nodes s')"
proof -
  note sh = coreD(1) [OF c, unfolded shape_def]
  obtain strong contr into where r: "cycle_loop N v [] (with_node n s) = Some (map (\<lambda>u. (u, ai u)) vs,
      (with_node n s)\<lparr>ms_strong_components := strong, ms_contracted_nodes := contr, ms_contracted_into := into\<rparr>)"
    "classes n (\<lambda>x. if R x \<in> set vs then N else R x) strong"
    "roots n (2 * n) (\<lambda>x. if R x \<in> set vs then N else R x) (tops s \<union> {N..<2 * n} - set vs) contr"
    "length into = length (ms_contracted_into s)" "\<forall>u. into ! u = (if u \<in> set vs then N else ms_contracted_into s ! u)"
    using first_pass [OF c cyc cap] unfolding N_def by blast
  define s2 where "s2 = (with_node n s)\<lparr>ms_strong_components := strong, ms_contracted_nodes := contr, ms_contracted_into := into\<rparr>"
  obtain arcs' strong' where r2: "foreach (merge_body N) (map (\<lambda>u. (u, ai u)) vs) s2 = Some (s2\<lparr>ms_arcs := arcs', ms_strong_components := strong'\<rparr>)"
    "length arcs' = Suc n * Suc N" "\<forall>u a. u < N \<longrightarrow> a \<le> n \<longrightarrow> col n arcs' u a = col n (ms_arcs s) u a"
    "inbound n w X X (\<lambda>t. cost S m t (N - 1)) (col n arcs' N)" "classes n (\<lambda>x. if R x \<in> set vs then N else R x) strong'"
    using second_pass [OF c cyc s2_def r(2) [unfolded N_def]] unfolding N_def X_def by blast
  have cap': "length (ms_arcs s) + Suc n \<le> Suc n * (2 * n)"
  proof -
    have "length (ms_arcs s) + Suc n = Suc n * Suc N" using sh by (simp add: N_def)
    also have "\<dots> \<le> Suc n * (2 * n)" using cap unfolding N_def by (rule mult_le_mono2)
    finally show ?thesis .
  qed
  have "exact_ContractCycle v s = cycle_loop N v [] (with_node n s) \<bind> (\<lambda>(cycle, s). foreach (merge_body N) cycle s)"
    using cap' sh unfolding exact_ContractCycle_def merge_body_def by (simp add: Let_def with_node_def N_def del: mult_Suc)
  then have "exact_ContractCycle v s = Some (s2\<lparr>ms_arcs := arcs', ms_strong_components := strong'\<rparr>)" using r(1) r2(1) by (simp add: s2_def)
  moreover have "contracted_state n vs s (s2\<lparr>ms_arcs := arcs', ms_strong_components := strong'\<rparr>)"
    using r(4,5) r2(2,3) by (auto simp: contracted_state_def Let_def N_def s2_def with_node_def simp del: mult_Suc mult_Suc_right)
  ultimately show ?thesis using r(3) r2(4,5) by (intro exI [of _ "s2\<lparr>ms_arcs := arcs', ms_strong_components := strong'\<rparr>"]) (simp add: s2_def)
qed

lemma cycle_capacity:
  assumes c: "core n w k S R sr tg m ai s" and cyc: "is_cycle k R sr s v vs"
  shows "Suc (ms_num_current_nodes s) \<le> 2 * n" and "2 \<le> card (set vs)" and "set vs \<subseteq> tops s" and "finite (tops s)"
proof -
  show fin: "finite (tops s)" by (simp add: tops_def)
  show sub: "set vs \<subseteq> tops s" using cycle_nodes(1) [OF c cyc] by blast
  show "2 \<le> card (set vs)" using is_cycleD(2,4) [OF cyc] by (simp add: distinct_card)
  then have "2 \<le> card (tops s)" using card_mono [OF fin sub] by simp
  then show "Suc (ms_num_current_nodes s) \<le> 2 * n" using layoutD(6) [OF coreD(2) [OF c]] by simp
qed

lemma contracted_cycles:
  assumes c: "core n w k S R sr tg m ai s" and cyc: "is_cycle k R sr s v vs" and st: "contracted_state n vs s s'"
    and N0: "ms_contracted_into s ! ms_num_current_nodes s = 0"
  shows "cycles n (S(ms_num_current_nodes s := (\<Union>v \<in> set vs. S v))) sr s'"
proof -
  let ?N = "ms_num_current_nodes s" let ?S = "S(?N := (\<Union>v \<in> set vs. S v))"
  note vs = cycle_nodes [OF c cyc] and l = coreD(2) [OF c] and cy = coreD(5) [OF c, unfolded cycles_def Let_def]
  note nest = layoutD(1) [OF l]
  have N': "ms_num_current_nodes s' = Suc ?N" and into': "\<And>u. ms_contracted_into s' ! u = (if u \<in> set vs then ?N else ms_contracted_into s ! u)"
    using st by (auto simp: contracted_state_def Let_def)
  have next_node: "R (sr u) \<in> set vs \<and> sr u \<in> S (R (sr u))" if u: "u \<in> set vs" for u
    using is_cycleD(6) [OF cyc u] layoutD(5) [OF l, of "sr u"] chosen_arc(1) [OF c vs(2,3) [OF u]] vs(5) [OF u] by auto
  have "sr u \<in> ?S (ms_contracted_into s' ! u)" if u: "u \<in> {1..<Suc ?N}" "ms_contracted_into s' ! u \<noteq> 0" for u
  proof (cases "u \<in> set vs")
    case True
    then show ?thesis using next_node into' by auto
  next
    case False
    then have i: "ms_contracted_into s ! u \<noteq> 0" using u(2) into' by auto
    then have uN: "u < ?N" using u(1) N0 by (cases "u = ?N") auto
    then have "ms_contracted_into s ! u < ?N" using nestedD(4) [OF nest, of u] u(1) i by auto
    then show ?thesis using False into' i uN u(1) cy by auto
  qed
  moreover have "D = {u \<in> {1..<Suc ?N}. ms_contracted_into s' ! u = p}"
    if p: "p \<in> {Suc n..<Suc ?N}" and D: "D \<noteq> {}" "D \<subseteq> {u \<in> {1..<Suc ?N}. ms_contracted_into s' ! u = p}" "\<forall>u \<in> D. \<exists>u' \<in> D. sr u \<in> ?S u'" for p D
  proof (cases "p = ?N")
    case True
    have ch: "{u \<in> {1..<Suc ?N}. ms_contracted_into s' ! u = ?N} = set vs"
    proof -
      have "ms_contracted_into s ! u \<noteq> ?N" if "u \<in> {1..<Suc ?N}" for u
        using nestedD(1) [OF nest] nestedD(4) [OF nest, of u] that N0 by (cases "u = ?N") auto
      then show ?thesis using into' vs(2,4) by (auto simp: less_Suc_eq)
    qed
    then have Dvs: "D \<subseteq> set vs" using D(2) True by blast
    have "R (sr u) \<in> D" if u: "u \<in> D" for u
    proof -
      obtain u' where u': "u' \<in> D" "sr u \<in> ?S u'" using D(3) u by blast
      then have "u' \<in> set vs" using Dvs by blast
      then have "sr u \<in> S u'" "u' \<in> tops s" using u'(2) vs(1) [of u'] vs(4) [of u'] by auto
      then show ?thesis using top_unique [OF l] u'(1) by auto
    qed
    then have cl: "\<forall>u \<in> D. R (sr u) \<in> D" by blast
    obtain d where "d \<in> D" using D(1) by blast
    then have "v \<in> D" using linked_end [OF is_cycleD(3) [OF cyc] cl] Dvs by blast
    then have "set vs \<subseteq> D" using linked_all [OF is_cycleD(3) [OF cyc] cl] cyc by (auto simp: is_cycle_def)
    then show ?thesis using Dvs ch True by blast
  next
    case False
    then have p': "p \<in> {Suc n..<?N}" using p by auto
    have ch: "{u \<in> {1..<Suc ?N}. ms_contracted_into s' ! u = p} = {u \<in> {1..<?N}. ms_contracted_into s ! u = p}"
      using into' False p' vs(6) N0 by (auto simp: less_Suc_eq split: if_splits)
    have "\<forall>u \<in> D. \<exists>u' \<in> D. sr u \<in> S u'" using D(2,3) unfolding ch by fastforce
    then show ?thesis using cy p' D(1,2) unfolding ch by blast
  qed
  ultimately show ?thesis unfolding cycles_def Let_def N' by blast
qed

lemma contracted_layout:
  assumes c: "core n w k S R sr tg m ai s" and cyc: "is_cycle k R sr s v vs" and s': "contracted_state n vs s s'"
  defines "N \<equiv> ms_num_current_nodes s"
  shows "layout n k (S(N := (\<Union>v \<in> set vs. S v))) (\<lambda>x. if R x \<in> set vs then N else R x) s' \<and> tops s' = insert N (tops s - set vs)"
proof -
  note l = coreD(2) [OF c] and vs = cycle_nodes [OF c cyc, folded N_def]
  note cap = cycle_capacity [OF c cyc, folded N_def] and nest = layoutD(1) [OF l, folded N_def] and RN = core_range [OF c, folded N_def]
  let ?S = "S(N := (\<Union>v \<in> set vs. S v))" let ?R = "\<lambda>x. if R x \<in> set vs then N else R x"
  have N0: "ms_contracted_into s ! N = 0" using layoutD(4) [OF l, of N] cap(1) by (simp add: N_def)
  note st = s' [unfolded contracted_state_def Let_def, folded N_def]
  have t: "tops s' = insert N (tops s - set vs)" using contracted_tops [OF s' cap(3)] nestedD(1) [OF nest] N0 by (simp add: N_def)
  have N': "ms_num_current_nodes s' = Suc N" using st by blast
  have into': "ms_contracted_into s' ! u = (if u \<in> set vs then N else ms_contracted_into s ! u)" for u using st by blast
  have "N \<notin> tops s" by (simp add: tops_def N_def)
  then have "card (tops s') = Suc (card (tops s) - card (set vs))" using t cap(3,4) by (simp add: card_Diff_subset)
  then have "card (tops s') + Suc N \<le> Suc (2 * n)" using cap(2) card_mono [OF cap(4,3)] layoutD(6) [OF l, folded N_def] by linarith
  moreover have "\<forall>u \<in> {1..<Suc N}. ?S u \<noteq> {}"
  proof
    fix u assume u: "u \<in> {1..<Suc N}"
    have "S v \<noteq> {}" using layoutD(2) [OF l, folded N_def] vs(2,4) is_cycleD(1) [OF cyc] by blast
    then have "?S N \<noteq> {}" using is_cycleD(1) [OF cyc] by auto
    moreover have "S u \<noteq> {}" if "u \<noteq> N" using layoutD(2) [OF l, folded N_def, of u] that u by simp
    ultimately show "?S u \<noteq> {}" by (cases "u = N") simp_all
  qed
  moreover have "\<forall>u \<in> {1..<Suc N}. ms_contracted_into s' ! u \<noteq> 0 \<longrightarrow> u < k"
  proof (intro ballI impI)
    fix u assume u: "u \<in> {1..<Suc N}" "ms_contracted_into s' ! u \<noteq> 0"
    show "u < k"
    proof (cases "u \<in> set vs")
      case False
      then have "ms_contracted_into s ! u \<noteq> 0" "u \<noteq> N" using u(2) into' N0 by auto
      then show ?thesis using layoutD(3) [OF l, folded N_def, of u] u(1) by simp
    qed (rule vs(3))
  qed
  moreover have "\<forall>u \<in> {Suc N..<2 * n}. ms_contracted_into s' ! u = 0"
  proof
    fix u assume u: "u \<in> {Suc N..<2 * n}"
    then have "u \<notin> set vs" using vs(4) [of u] by auto
    then show "ms_contracted_into s' ! u = 0" using into' layoutD(4) [OF l, of u] u by (simp add: N_def)
  qed
  moreover have "\<forall>x \<in> {1..n}. ?R x \<in> tops s' \<and> x \<in> ?S (?R x)"
  proof
    fix x assume x: "x \<in> {1..n}"
    show "?R x \<in> tops s' \<and> x \<in> ?S (?R x)" using RN [OF x] t by (cases "R x \<in> set vs") auto
  qed
  moreover have "nested n (Suc N) ?S ((!) (ms_contracted_into s'))"
    unfolding N' [symmetric] unfolding N_def
    by (rule contracted_nested [OF s' l cap(3) _ refl]) (use N0 is_cycleD(1) [OF cyc] in \<open>auto simp: N_def\<close>)
  ultimately have "layout n k ?S ?R s'" unfolding layout_def N' by (intro conjI)
  then show ?thesis using t by blast
qed

lemma contracted_columns:
  assumes c: "core n w k S R sr tg m ai s" and cyc: "is_cycle k R sr s v vs" and s': "contracted_state n vs s s'"
    and N_def: "N = ms_num_current_nodes s"
    and X: "inbound n w (\<Union>v \<in> set vs. S v) (\<Union>v \<in> set vs. S v) (\<lambda>t. cost S m t (N - 1)) (col n (ms_arcs s') N)"
  shows "columns n w (S(N := (\<Union>v \<in> set vs. S v))) m s'"
  unfolding columns_def
proof
  let ?S = "S(N := (\<Union>v \<in> set vs. S v))"
  have N': "ms_num_current_nodes s' = Suc N" and same: "\<And>u a. u < N \<Longrightarrow> a \<le> n \<Longrightarrow> col n (ms_arcs s') u a = col n (ms_arcs s) u a"
    using s' by (simp_all add: contracted_state_def Let_def N_def)
  fix u assume u: "u \<in> {1..<ms_num_current_nodes s'}"
  have cost: "cost ?S m t (u - 1) = cost S m t (u - 1)" for t
  proof -
    have "{z. 1 \<le> z \<and> z \<le> u - 1 \<and> t \<in> ?S z} = {z. 1 \<le> z \<and> z \<le> u - 1 \<and> t \<in> S z}" using u N' by auto
    then show ?thesis by (simp only: cost_def)
  qed
  show "inbound n w (?S u) (?S u) (\<lambda>t. cost ?S m t (u - 1)) (col n (ms_arcs s') u)"
  proof (cases "u = N")
    case True
    then show ?thesis using X unfolding cost by simp
  next
    case False
    then have uN: "u < N" using u N' by auto
    then have "inbound n w (S u) (S u) (\<lambda>t. cost S m t (u - 1)) (col n (ms_arcs s) u)" using coreD(3) [OF c] u by (simp add: columns_def N_def)
    then have "inbound n w (S u) (S u) (\<lambda>t. cost S m t (u - 1)) (col n (ms_arcs s') u)" using same [OF uN] unfolding inbound_def by simp
    then show ?thesis using False unfolding cost by simp
  qed
qed

lemma core_contract:
  assumes c: "core n w k S R sr tg m ai s" and cyc: "is_cycle k R sr s v vs"
  defines "N \<equiv> ms_num_current_nodes s"
  shows "\<exists>s'. exact_ContractCycle v s = Some s' \<and> contracted_state n vs s s' \<and> tops s' = insert N (tops s - set vs) \<and>
    core n w k (S(N := (\<Union>v \<in> set vs. S v))) (\<lambda>x. if R x \<in> set vs then N else R x) sr tg m ai s'"
proof -
  note sh = coreD(1) [OF c, unfolded shape_def] and l = coreD(2) [OF c] and vs = cycle_nodes [OF c cyc, folded N_def]
  note cap = cycle_capacity [OF c cyc, folded N_def]
  let ?S = "S(N := (\<Union>v \<in> set vs. S v))" let ?R = "\<lambda>x. if R x \<in> set vs then N else R x"
  obtain s' where s': "exact_ContractCycle v s = Some s'" "contracted_state n vs s s'"
    "inbound n w (\<Union>v \<in> set vs. S v) (\<Union>v \<in> set vs. S v) (\<lambda>t. cost S m t (N - 1)) (col n (ms_arcs s') N)"
    "classes n ?R (ms_strong_components s')" "roots n (2 * n) ?R (tops s \<union> {N..<2 * n} - set vs) (ms_contracted_nodes s')"
    using ContractCycle_state [OF c cyc] cap(1) unfolding N_def by blast
  note st = s'(2) [unfolded contracted_state_def Let_def, folded N_def]
  have lay: "layout n k ?S ?R s'" "tops s' = insert N (tops s - set vs)" using contracted_layout [OF c cyc s'(2)] unfolding N_def by blast+
  have "ms_contracted_into s ! N = 0" using layoutD(4) [OF l, of N] cap(1) by (simp add: N_def)
  then have "cycles n ?S sr s'" using contracted_cycles [OF c cyc s'(2)] unfolding N_def by blast
  moreover have "shape n k s'" using sh st cap(1) by (simp add: shape_def N_def)
  moreover have "columns n w ?S m s'" by (rule contracted_columns [OF c cyc s'(2) N_def [THEN meta_eq_to_obj_eq] s'(3)])
  moreover have "chosen n k sr tg m ai s'" using coreD(4) [OF c] st sh by (auto simp: chosen_def N_def)
  moreover have "tops s' \<union> {ms_num_current_nodes s'..<2 * n} \<subseteq> tops s \<union> {N..<2 * n} - set vs"
  proof -
    have "{ms_num_current_nodes s'..<2 * n} \<subseteq> {N..<2 * n}" using st by auto
    moreover have "u \<notin> set vs" if "N \<le> u" for u using vs(4) [of u] that by auto
    moreover have "N < 2 * n" "N < ms_num_current_nodes s'" using cap(1) st by auto
    ultimately show ?thesis unfolding lay(2) by fastforce
  qed
  then have "roots n (2 * n) ?R (tops s' \<union> {ms_num_current_nodes s'..<2 * n}) (ms_contracted_nodes s')"
    using s'(5) unfolding roots_def by blast
  ultimately have "core n w k ?S ?R sr tg m ai s'" using s'(4) lay(1) unfolding core_def by (intro conjI)
  then show ?thesis using s'(1,2) lay(2) by blast
qed

section \<open>Weak components\<close>

text \<open>
  One step from a topmost node to the one that its chosen arc comes from; \<open>T v\<close> is the node where these steps end, one that
  has not chosen yet or has chosen an arc from the artificial root. Two nodes are in one weak component when they end alike.
\<close>

definition steps :: "nat \<Rightarrow> (nat \<Rightarrow> nat) \<Rightarrow> (nat \<Rightarrow> nat) \<Rightarrow> nat set \<Rightarrow> (nat \<times> nat) set" where
  "steps k R sr V = {(v, R (sr v)) | v. v \<in> V \<and> v < k \<and> sr v \<noteq> 0}"

definition ends :: "nat \<Rightarrow> (nat \<Rightarrow> nat) \<Rightarrow> (nat \<Rightarrow> nat) \<Rightarrow> nat set \<Rightarrow> (nat \<Rightarrow> nat) \<Rightarrow> bool" where
  "ends k R sr V T \<longleftrightarrow> (\<forall>v \<in> V. T v \<in> V \<and> (v, T v) \<in> (steps k R sr V)\<^sup>* \<and> (k \<le> T v \<or> sr (T v) = 0)) \<and>
     (\<forall>v \<in> V. v < k \<longrightarrow> sr v \<noteq> 0 \<longrightarrow> T (R (sr v)) = T v)"

definition weak_inv :: "nat \<Rightarrow> nat \<Rightarrow> (nat \<Rightarrow> nat) \<Rightarrow> (nat \<Rightarrow> nat) \<Rightarrow> 's mst_solver \<Rightarrow> bool" where
  "weak_inv n k R sr s \<longleftrightarrow> (\<exists>T. ends k R sr (tops s) T \<and> classes n (\<lambda>x. T (R x)) (ms_weak_components s))"

lemma endsD:
  assumes "ends k R sr V T" and "v \<in> V"
  shows "T v \<in> V" and "(v, T v) \<in> (steps k R sr V)\<^sup>*" and "k \<le> T v \<or> sr (T v) = 0" and "v < k \<Longrightarrow> sr v \<noteq> 0 \<Longrightarrow> T (R (sr v)) = T v"
  using assms by (auto simp: ends_def)

lemma ends_self:
  assumes "ends k R sr V T" and "v \<in> V" and "k \<le> v \<or> sr v = 0"
  shows "T v = v"
proof (rule ccontr)
  assume "T v \<noteq> v"
  then obtain u where "(v, u) \<in> steps k R sr V" using endsD(2) [OF assms(1,2)] by (metis converse_rtranclE)
  then show False using assms(3) by (auto simp: steps_def)
qed

lemma ends_along:
  assumes "ends k R sr V T"
  shows "(v, u) \<in> (steps k R sr V)\<^sup>* \<Longrightarrow> T u = T v"
proof (induction rule: rtrancl_induct)
  case (step u z)
  then show ?case using endsD(4) [OF assms, of u] by (auto simp: steps_def)
qed simp

text \<open>A path of steps as a list without repetitions.\<close>

lemma steps_linked:
  assumes "(u, e) \<in> (steps k R sr V)\<^sup>*" and "u \<noteq> e"
  shows "\<exists>vs. vs \<noteq> [] \<and> hd vs = u \<and> linked R sr vs e \<and> distinct vs \<and> e \<notin> set vs \<and> (\<forall>v \<in> set vs. v \<in> V \<and> v < k \<and> sr v \<noteq> 0)"
  using assms
proof (induction rule: converse_rtrancl_induct)
  case (step u u')
  have u: "u \<in> V" "u < k" "sr u \<noteq> 0" "R (sr u) = u'" using step(1) by (auto simp: steps_def)
  show ?case
  proof (cases "u' = e")
    case True
    then show ?thesis using u step.prems by (intro exI [of _ "[u]"]) auto
  next
    case False
    then obtain vs where vs: "vs \<noteq> []" "hd vs = u'" "linked R sr vs e" "distinct vs" "e \<notin> set vs" "\<forall>v \<in> set vs. v \<in> V \<and> v < k \<and> sr v \<noteq> 0"
      using step.IH by blast
    show ?thesis
    proof (cases "u \<in> set vs")
      case True
      then obtain xs ys where vs': "vs = xs @ u # ys" by (auto simp: in_set_conv_decomp)
      have "linked R sr (xs @ u # ys) e \<Longrightarrow> linked R sr (u # ys) e"
        by (induction R sr xs e rule: linked.induct) auto
      then have "linked R sr (u # ys) e" using vs(3) vs' by simp
      then show ?thesis using vs vs' by (intro exI [of _ "u # ys"]) auto
    next
      case False
      have "linked R sr (u # vs) e" using vs(1-3) u(4) by (cases vs) auto
      then show ?thesis using False vs u step.prems by (intro exI [of _ "u # vs"]) auto
    qed
  qed
qed simp

lemma classes_FindRoot:
  assumes c: "classes n q f" and x: "1 \<le> x" "x \<le> n"
  shows "\<exists>r f'. FindRoot x f = Some (r, f') \<and> has_root (dsf_parents f') x r \<and> classes n q f' \<and> has_root (dsf_parents f') = has_root (dsf_parents f)"
proof -
  note d = c [unfolded classes_def]
  from FindRoot_correct [of True f x] d x obtain r f' where
    f': "FindRoot x f = Some (r, f')" "has_root (dsf_parents f) x r" "dsf_inv True f'" "dsf_size f' = dsf_size f"
      "has_root (dsf_parents f') = has_root (dsf_parents f)" by auto
  moreover have "joined f' = joined f" using f'(4,5) by (simp add: joined_def)
  ultimately show ?thesis using d by (auto simp: classes_def)
qed

lemma classes_roots:
  assumes c: "classes n q f" and x: "1 \<le> x" "x \<le> n" "1 \<le> y" "y \<le> n" and r: "has_root (dsf_parents f) x rx" "has_root (dsf_parents f) y ry"
  shows "rx = ry \<longleftrightarrow> q x = q y"
proof -
  note d = c [unfolded classes_def]
  have one: "has_root (dsf_parents f) x z \<longleftrightarrow> z = rx" "has_root (dsf_parents f) y z \<longleftrightarrow> z = ry" for z
    using has_root_unique [OF r(1)] has_root_unique [OF r(2)] r by blast+
  have "(x, y) \<in> joined f \<longleftrightarrow> rx = ry" using x d by (simp add: joined_def one)
  moreover have "(x, y) \<in> joined f \<longleftrightarrow> x = y \<or> q x = q y" using d x by simp
  ultimately show ?thesis by auto
qed

lemma classes_UnionOfRoots:
  assumes c: "classes n q f" and x: "1 \<le> x" "x \<le> n" and y: "1 \<le> y" "y \<le> n" and r: "has_root (dsf_parents f) x rx" "has_root (dsf_parents f) y ry"
    and q': "\<And>a b. a \<in> {1..n} \<Longrightarrow> b \<in> {1..n} \<Longrightarrow> q' a = q' b \<longleftrightarrow> q a = q b \<or> q a = q x \<and> q y = q b \<or> q a = q y \<and> q x = q b"
  shows "\<exists>f'. UnionOfRoots True rx ry f = Some f' \<and> classes n q' f'"
proof -
  note d = c [unfolded classes_def]
  from UnionOfRoots_joined [of True f x y rx ry] d x y r obtain f' where
    f': "UnionOfRoots True rx ry f = Some f'" "dsf_inv True f'" "dsf_size f' = Suc n"
      "\<forall>a b. (a, b) \<in> joined f' \<longleftrightarrow> (a, b) \<in> joined f \<or> (a, x) \<in> joined f \<and> (y, b) \<in> joined f \<or> (a, y) \<in> joined f \<and> (x, b) \<in> joined f"
    by auto
  then show ?thesis using classes_merged [OF c f'(2,3) x y f'(4) q'] by blast
qed

lemma steps_select: "steps k R sr V \<subseteq> steps (Suc k) R (sr(k := a)) V"
proof
  fix p assume "p \<in> steps k R sr V"
  then obtain v where v: "p = (v, R (sr v))" "v \<in> V" "v < k" "sr v \<noteq> 0" unfolding steps_def by blast
  then have "(sr(k := a)) v = sr v" by simp
  then show "p \<in> steps (Suc k) R (sr(k := a)) V" using v unfolding steps_def by (intro CollectI exI [of _ v]) simp
qed

lemma ends_root:
  assumes "ends k R sr V T"
  shows "ends (Suc k) R (sr(k := 0)) V T"
  unfolding ends_def
proof (intro conjI ballI impI)
  fix v assume v: "v \<in> V"
  note e = endsD [OF assms v]
  show "T v \<in> V" by (rule e(1))
  show "(v, T v) \<in> (steps (Suc k) R (sr(k := 0)) V)\<^sup>*" using e(2) rtrancl_mono [OF steps_select] by blast
  show "Suc k \<le> T v \<or> (sr(k := 0)) (T v) = 0" using e(3) by (cases "T v = k") auto
  assume "v < Suc k" "(sr(k := 0)) v \<noteq> 0"
  then have "v \<noteq> k" "v < k" "sr v \<noteq> 0" by (auto split: if_splits)
  then show "T (R ((sr(k := 0)) v)) = T v" using e(4) by simp
qed

lemma ends_link:
  assumes e: "ends k R sr V T" and k: "k \<in> V" and a: "a \<noteq> 0" "R a \<in> V" "T (R a) \<noteq> k"
  shows "ends (Suc k) R (sr(k := a)) V (\<lambda>v. if T v = k then T (R a) else T v)"
  unfolding ends_def
proof (intro conjI ballI impI)
  let ?st = "steps (Suc k) R (sr(k := a)) V"
  have up: "(x, y) \<in> ?st\<^sup>*" if "(x, y) \<in> (steps k R sr V)\<^sup>*" for x y using that rtrancl_mono [OF steps_select] by blast
  have kR: "(k, R a) \<in> ?st" using k a(1) by (auto simp: steps_def)
  have Tk: "T k = k" by (rule ends_self [OF e k]) simp
  fix v assume v: "v \<in> V"
  note ev = endsD [OF e v] and ea = endsD [OF e a(2)]
  show "(if T v = k then T (R a) else T v) \<in> V" using ev(1) ea(1) by simp
  show "(v, if T v = k then T (R a) else T v) \<in> ?st\<^sup>*"
    using up [OF ev(2)] up [OF ea(2)] kR by (auto intro: rtrancl_trans converse_rtrancl_into_rtrancl)
  show "Suc k \<le> (if T v = k then T (R a) else T v) \<or> (sr(k := a)) (if T v = k then T (R a) else T v) = 0"
    using ev(3) ea(3) a(3) by auto
  assume v': "v < Suc k" "(sr(k := a)) v \<noteq> 0"
  show "(if T (R ((sr(k := a)) v)) = k then T (R a) else T (R ((sr(k := a)) v))) = (if T v = k then T (R a) else T v)"
    using v' ev(4) Tk a(3) by (cases "v = k") auto
qed

lemma ends_contract:
  assumes e: "ends k R sr V T" and k: "k \<in> V" and a: "a \<noteq> 0" "R a \<in> V" "T (R a) = k"
    and vs: "distinct vs" "linked R (sr(k := a)) vs k" "k \<in> set vs" "hd vs = k" "\<forall>u \<in> set vs. u \<in> V \<and> u < Suc k \<and> (sr(k := a)) u \<noteq> 0"
    and N: "N \<notin> V" "k < N" and cl: "\<forall>v \<in> V. v < k \<longrightarrow> sr v \<noteq> 0 \<longrightarrow> R (sr v) \<in> V"
  defines "R' \<equiv> \<lambda>x. if R x \<in> set vs then N else R x" and "V' \<equiv> insert N (V - set vs)" and "T' \<equiv> \<lambda>v. if v = N \<or> T v = k then N else T v"
  shows "ends (Suc k) R' (sr(k := a)) V' T'" and "R x \<in> V \<Longrightarrow> T' (R' x) = (if T (R x) = k then N else T (R x))"
proof -
  let ?sr = "sr(k := a)" let ?st = "steps (Suc k) R' ?sr V'"
  have Tk: "T k = k" by (rule ends_self [OF e k]) simp
  have next_in: "R (?sr u) \<in> set vs" if "u \<in> set vs" for u using linked_next [OF vs(2) that] vs(3) by auto
  have T_next: "T (R (?sr u)) = T u" if "u \<in> V" "u < Suc k" "?sr u \<noteq> 0" for u
    using endsD(4) [OF e that(1)] that a(3) Tk by (cases "u = k") auto
  have Tvs: "T u = k" if u: "u \<in> set vs" for u
  proof -
    have "\<forall>u \<in> {u \<in> set vs. T u \<noteq> k}. R (?sr u) \<in> {u \<in> set vs. T u \<noteq> k}" using next_in T_next vs(5) by auto
    then show ?thesis using linked_end [OF vs(2), of "{u \<in> set vs. T u \<noteq> k}" u] u Tk by auto
  qed
  have outside: "T v \<notin> set vs" if "v \<in> V" "T v \<noteq> k" for v
    using endsD(3) [OF e that(1)] vs(5) that(2) by fastforce
  show R': "T' (R' x) = (if T (R x) = k then N else T (R x))" if "R x \<in> V" for x
    using Tvs that N(1) by (auto simp: T'_def R'_def)
  let ?ph = "\<lambda>u. if u \<in> set vs then N else u"
  have one: "(?ph u, ?ph u') \<in> ?st\<^sup>*" if st: "(u, u') \<in> steps k R sr V" for u u'
  proof (cases "u \<in> set vs")
    case True
    then have "u' \<in> set vs" using next_in [OF True] st by (auto simp: steps_def split: if_splits)
    then show ?thesis using True by simp
  next
    case False
    then have "(u, R' (?sr u)) \<in> ?st" "R' (?sr u) = ?ph u'" using st k vs(3) by (auto simp: steps_def V'_def R'_def)
    then show ?thesis using False by auto
  qed
  have path: "(?ph u, ?ph u') \<in> ?st\<^sup>*" if "(u, u') \<in> (steps k R sr V)\<^sup>*" for u u'
    using that
  proof (induction rule: rtrancl_induct)
    case (step y z)
    show ?case by (rule rtrancl_trans [OF step.IH one [OF step.hyps(2)]])
  qed simp
  show "ends (Suc k) R' ?sr V' T'"
    unfolding ends_def
  proof (intro conjI ballI impI)
    fix v assume v: "v \<in> V'"
    have old: "v \<in> V" "v \<notin> set vs" "v \<noteq> N" if "v \<noteq> N" using v that N(1) by (auto simp: V'_def)
    have T'v: "T' v = (if v = N \<or> T v = k then N else T v)" by (simp add: T'_def)
    show "T' v \<in> V'"
    proof (cases "v = N \<or> T v = k")
      case False
      then show ?thesis using T'v endsD(1) [OF e old(1)] outside [OF old(1)] by (simp add: V'_def)
    qed (use T'v in \<open>simp add: V'_def\<close>)
    show "(v, T' v) \<in> ?st\<^sup>*"
    proof (cases "v = N")
      case False
      have "(v, ?ph (T v)) \<in> ?st\<^sup>*" using path [OF endsD(2) [OF e old(1) [OF False]]] old(2) [OF False] by simp
      moreover have "?ph (T v) = T' v" using T'v outside [OF old(1) [OF False]] vs(3) False by auto
      ultimately show ?thesis by simp
    qed (use T'v in simp)
    show "Suc k \<le> T' v \<or> ?sr (T' v) = 0"
    proof (cases "v = N \<or> T v = k")
      case False
      then show ?thesis using T'v endsD(3) [OF e old(1)] by auto
    qed (use T'v N(2) in auto)
    assume v': "v < Suc k" "?sr v \<noteq> 0"
    have vN: "v \<noteq> N" using v' N(2) by auto
    have "T (R (?sr v)) = T v" by (rule T_next [OF old(1) [OF vN] v'])
    moreover have "R (?sr v) \<in> V" using cl old(1) [OF vN] v' a(2) by (cases "v = k") auto
    then have "R (?sr v) \<noteq> N" using N(1) by blast
    ultimately show "T' (R' (?sr v)) = T' v" using T'v vN Tvs [of "R (?sr v)"] by (auto simp: T'_def R'_def)
  qed
qed

section \<open>The contraction phase\<close>

definition contracting :: "nat \<Rightarrow> (nat \<Rightarrow> nat \<Rightarrow> 's option) \<Rightarrow> nat \<Rightarrow> 's :: linordered_idom mst_solver \<Rightarrow> bool" where
  "contracting n w k s \<longleftrightarrow> (\<exists>S R sr tg m ai. core n w k S R sr tg m ai s \<and> weak_inv n k R sr s)"

text \<open>One turn of the loop.\<close>

definition contraction_step :: "nat \<Rightarrow> nat \<Rightarrow> 's :: linordered_idom mst_solver \<Rightarrow> 's mst_solver option" where
  "contraction_step i target s = do {
     argmax \<leftarrow> vec_set (ms_argmax_arcs s) (int target) (Some i);
     let s = s\<lparr>ms_argmax_arcs := argmax\<rparr>;
     arc \<leftarrow> vec_at (ms_arcs s) (int i);
     if arc_IsRoot arc then Some s
     else do {
       (source_component, weak) \<leftarrow> FindRoot (arc_source arc) (ms_weak_components s);
       (target_component, weak) \<leftarrow> FindRoot (arc_target arc) weak;
       let s = s\<lparr>ms_weak_components := weak\<rparr>;
       if source_component = target_component then exact_ContractCycle target s
       else do {
         weak \<leftarrow> UnionOfRoots True source_component target_component (ms_weak_components s);
         Some (s\<lparr>ms_weak_components := weak\<rparr>) } } }"

lemma contractingI: "core n w k S R sr tg m ai s \<Longrightarrow> weak_inv n k R sr s \<Longrightarrow> contracting n w k s"
  unfolding contracting_def by blast

lemma bind_if: "(if b then x else y) \<bind> f = (if b then x \<bind> f else y \<bind> (f :: 'a \<Rightarrow> 'b option))"
  by simp

lemma contraction_loop_step:
  "exact_contraction_loop target s =
     (if target < ms_num_current_nodes s then do {
        p \<leftarrow> exact_MaximumInboundArc target s;
        case p of None \<Rightarrow> Some (Inl FailedPrecondition)
        | Some i \<Rightarrow> contraction_step i target s \<bind> exact_contraction_loop (target + 1) }
      else Some (Inr s))"
  by (subst exact_contraction_loop.simps) (simp add: contraction_step_def Let_def bind_if case_prod_unfold cong: if_cong option.case_cong)

lemma core_weak: "core n w k S R sr tg m ai (s\<lparr>ms_weak_components := f\<rparr>) \<longleftrightarrow> core n w k S R sr tg m ai s"
  by (simp add: core_def shape_def layout_def columns_def chosen_def cycles_def)

lemma contraction_step_correct:
  assumes c: "core n w k S R sr tg m ai s" and wk: "weak_inv n k R sr s" and k: "k < ms_num_current_nodes s"
    and a: "a \<le> n" "i = a + k * Suc n" "arc_Exists (col n (ms_arcs s) k a)"
      "\<forall>b \<le> n. arc_Exists (col n (ms_arcs s) k b) \<longrightarrow> arc_score (col n (ms_arcs s) k b) \<le> arc_score (col n (ms_arcs s) k a)"
  shows "\<exists>s'. contraction_step i k s = Some s' \<and> contracting n w (Suc k) s' \<and> ms_forest s' = ms_forest s"
proof -
  obtain T where T: "ends k R sr (tops s) T" "classes n (\<lambda>x. T (R x)) (ms_weak_components s)" using wk by (auto simp: weak_inv_def)
  note sh = coreD(1) [OF c, unfolded shape_def] and l = coreD(2) [OF c]
  have k1: "1 \<le> k" "k < length (ms_argmax_arcs s)" using sh k by auto
  have "ms_contracted_into s ! k = 0" using layoutD(3) [OF l k1(1) k] by auto
  then have ktop: "k \<in> tops s" using k1 k by (simp add: tops_def)
  let ?arc = "col n (ms_arcs s) k a" let ?s = "s\<lparr>ms_argmax_arcs := (ms_argmax_arcs s)[k := Some i]\<rparr>"
  let ?sr = "sr(k := a)" let ?tg = "tg(k := arc_target ?arc)" let ?m = "m(k := arc_score ?arc)" let ?ai = "ai(k := i)"
  have c': "core n w (Suc k) S R ?sr ?tg ?m ?ai ?s" using core_select [OF c k a(1,3,4)] a(2) by simp
  have "Suc k \<le> ms_num_current_nodes ?s" using k by simp
  note ar = chosen_arc [OF c' k1(1) lessI, simplified]
  have "i < length (ms_arcs s)" using column_bound [OF a(1) k] sh a(2) by simp
  then have get: "vec_at (ms_arcs s) (int i) = Some ?arc" unfolding col_def a(2) [symmetric] by simp
  have src: "arc_source ?arc = a" using ar(8) by simp
  have set1: "vec_set (ms_argmax_arcs s) (int k) (Some i) = Some ((ms_argmax_arcs s)[k := Some i])" using k1 by simp
  show ?thesis
  proof (cases "a = 0")
    case True
    have "contraction_step i k s = Some ?s" using True get set1 src by (simp add: contraction_step_def arc_IsRoot_def)
    moreover have "weak_inv n (Suc k) R ?sr ?s" using ends_root [OF T(1)] T(2) True by (auto simp: weak_inv_def)
    ultimately show ?thesis using contractingI [OF c'] by auto
  next
    case False
    have aR: "R a \<in> tops s" "1 \<le> a" using layoutD(5) [OF l, of a] False a(1) by auto
    have tR: "R (arc_target ?arc) = k" "1 \<le> arc_target ?arc" "arc_target ?arc \<le> n" using top_unique [OF l ktop ar(3)] ar(4,5) by auto
    have Tk: "T k = k" by (rule ends_self [OF T(1) ktop]) simp
    obtain r1 f1 where f1: "FindRoot a (ms_weak_components s) = Some (r1, f1)" "has_root (dsf_parents f1) a r1" "classes n (\<lambda>x. T (R x)) f1"
      using classes_FindRoot [OF T(2) aR(2) a(1)] by blast
    obtain r2 f2 where f2: "FindRoot (arc_target ?arc) f1 = Some (r2, f2)" "has_root (dsf_parents f2) (arc_target ?arc) r2"
        "classes n (\<lambda>x. T (R x)) f2" "has_root (dsf_parents f2) = has_root (dsf_parents f1)"
      using classes_FindRoot [OF f1(3) tR(2,3)] by blast
    have same: "r1 = r2 \<longleftrightarrow> T (R a) = k" using classes_roots [OF f2(3) aR(2) a(1) tR(2,3), of r1 r2] f1(2) f2(2,4) tR(1) Tk by simp
    let ?s2 = "?s\<lparr>ms_weak_components := f2\<rparr>"
    have c2: "core n w (Suc k) S R ?sr ?tg ?m ?ai ?s2" using c' by (simp add: core_weak)
    have step: "contraction_step i k s = (if r1 = r2 then exact_ContractCycle k ?s2
        else UnionOfRoots True r1 r2 f2 \<bind> (\<lambda>weak. Some (?s2\<lparr>ms_weak_components := weak\<rparr>)))"
      using False get set1 src f1(1) f2(1) by (simp add: contraction_step_def arc_IsRoot_def Let_def)
    show ?thesis
    proof (cases "T (R a) = k")
      case False
      have "\<exists>f3. UnionOfRoots True r1 r2 f2 = Some f3 \<and> classes n (\<lambda>x. if T (R x) = k then T (R a) else T (R x)) f3"
      proof (rule classes_UnionOfRoots [OF f2(3) aR(2) a(1) tR(2,3)])
        show "has_root (dsf_parents f2) a r1" "has_root (dsf_parents f2) (arc_target ?arc) r2" using f1(2) f2(2,4) by simp_all
      qed (use tR(1) Tk in auto)
      then obtain f3 where f3: "UnionOfRoots True r1 r2 f2 = Some f3" "classes n (\<lambda>x. if T (R x) = k then T (R a) else T (R x)) f3" by blast
      have "weak_inv n (Suc k) R ?sr (?s2\<lparr>ms_weak_components := f3\<rparr>)"
        using ends_link [OF T(1) ktop \<open>a \<noteq> 0\<close> aR(1) False] f3(2) by (auto simp: weak_inv_def)
      moreover have "core n w (Suc k) S R ?sr ?tg ?m ?ai (?s2\<lparr>ms_weak_components := f3\<rparr>)" using c2 by (simp add: core_weak)
      moreover have "contraction_step i k s = Some (?s2\<lparr>ms_weak_components := f3\<rparr>)" using step False same f3(1) by simp
      ultimately show ?thesis using contractingI by fastforce
    next
      case True
      have "a \<notin> S k" using ar(2) by simp
      then have "R a \<noteq> k" using layoutD(5) [OF l aR(2) a(1)] by auto
      then obtain us where us: "us \<noteq> []" "hd us = R a" "linked R sr us k" "distinct us" "k \<notin> set us" "\<forall>v \<in> set us. v \<in> tops s \<and> v < k \<and> sr v \<noteq> 0"
        using steps_linked [of "R a" k k R sr "tops s"] endsD(2) [OF T(1) aR(1)] True by auto
      have lk: "linked R ?sr us k" using us(3,5)
        by (induction R sr us k rule: linked.induct) auto
      have cyc: "is_cycle (Suc k) R ?sr ?s2 k (k # us)"
        unfolding is_cycle_def using us lk ktop \<open>a \<noteq> 0\<close> by (cases us) auto
      let ?N = "ms_num_current_nodes s" let ?vs = "k # us"
      have N2: "ms_num_current_nodes ?s2 = ?N" "tops ?s2 = tops s" by simp_all
      obtain s' where s': "exact_ContractCycle k ?s2 = Some s'" "contracted_state n ?vs ?s2 s'" "tops s' = insert ?N (tops s - set ?vs)"
        "core n w (Suc k) (S(?N := (\<Union>v \<in> set ?vs. S v))) (\<lambda>x. if R x \<in> set ?vs then ?N else R x) ?sr ?tg ?m ?ai s'"
        using core_contract [OF c2 cyc] unfolding N2 by blast
      have st: "ms_weak_components s' = f2" "ms_forest s' = ms_forest s" using s'(2) by (simp_all add: contracted_state_def Let_def)
      have NV: "?N \<notin> tops s" by (simp add: tops_def)
      have cl: "\<forall>v \<in> tops s. v < k \<longrightarrow> sr v \<noteq> 0 \<longrightarrow> R (sr v) \<in> tops s"
        using chosen_arc(1) [OF c] topsD [of _ s] layoutD(5) [OF l] by (metis Suc_leI neq0_conv One_nat_def)
      have vs: "distinct ?vs" "linked R ?sr ?vs k" "k \<in> set ?vs" "hd ?vs = k" "\<forall>u \<in> set ?vs. u \<in> tops s \<and> u < Suc k \<and> ?sr u \<noteq> 0"
        using cyc by (auto simp: is_cycle_def)
      note ec = ends_contract [OF T(1) ktop \<open>a \<noteq> 0\<close> aR(1) True vs NV k cl]
      have "classes n (\<lambda>x. (\<lambda>v. if v = ?N \<or> T v = k then ?N else T v) (if R x \<in> set ?vs then ?N else R x)) f2"
      proof (rule classes_cong [OF f2(3)])
        fix x y assume xy: "x \<in> {1..n}" "y \<in> {1..n}"
        have R: "R x \<in> tops s" "R y \<in> tops s" using layoutD(5) [OF l] xy by auto
        then have "T (R x) \<noteq> ?N" "T (R y) \<noteq> ?N" using endsD(1) [OF T(1)] NV by metis+
        then show "T (R x) = T (R y) \<longleftrightarrow> (\<lambda>v. if v = ?N \<or> T v = k then ?N else T v) (if R x \<in> set ?vs then ?N else R x) =
            (\<lambda>v. if v = ?N \<or> T v = k then ?N else T v) (if R y \<in> set ?vs then ?N else R y)"
          unfolding ec(2) [OF R(1)] ec(2) [OF R(2)] by auto
      qed
      then have "weak_inv n (Suc k) (\<lambda>x. if R x \<in> set ?vs then ?N else R x) ?sr s'"
        using ec(1) unfolding weak_inv_def st(1) s'(3) by (intro exI conjI)
      then have "contracting n w (Suc k) s'" by (rule contractingI [OF s'(4)])
      then show ?thesis using s'(1) st(2) step same True by auto
    qed
  qed
qed

lemma contraction_loop_correct:
  "contracting n w k s \<Longrightarrow> \<exists>r. exact_contraction_loop k s = Some r \<and>
     (case r of Inl e \<Rightarrow> e = FailedPrecondition \<and> (\<forall>f. \<not> (arborescence n f \<and> feasible n w f))
      | Inr s' \<Rightarrow> contracting n w (ms_num_current_nodes s') s' \<and> ms_forest s' = ms_forest s)"
proof (induction "2 * n - k" arbitrary: k s rule: less_induct)
  case less
  obtain S R sr tg m ai where c: "core n w k S R sr tg m ai s" and wk: "weak_inv n k R sr s" using less.prems by (auto simp: contracting_def)
  note sh = coreD(1) [OF c, unfolded shape_def] and l = coreD(2) [OF c]
  show ?case
  proof (cases "k < ms_num_current_nodes s")
    case False
    then have "k = ms_num_current_nodes s" using sh by simp
    then show ?thesis using less.prems by (subst contraction_loop_step) simp
  next
    case True
    obtain p where p: "exact_MaximumInboundArc k s = Some p"
      "p = None \<longrightarrow> (\<forall>a \<le> n. \<not> arc_Exists (col n (ms_arcs s) k a))"
      "\<forall>i. p = Some i \<longrightarrow> (\<exists>a \<le> n. i = a + k * Suc n \<and> arc_Exists (col n (ms_arcs s) k a) \<and>
         (\<forall>b \<le> n. arc_Exists (col n (ms_arcs s) k b) \<longrightarrow> arc_score (col n (ms_arcs s) k b) \<le> arc_score (col n (ms_arcs s) k a)))"
      using MaximumInboundArc_best [of s n "ms_num_current_nodes s" k] sh True by blast
    show ?thesis
    proof (cases p)
      case None
      have in_k: "inbound n w (S k) (S k) (\<lambda>t. cost S m t (k - 1)) (col n (ms_arcs s) k)" using coreD(3) [OF c] sh True by (simp add: columns_def)
      have "\<forall>t \<in> S k. \<forall>a \<le> n. a \<notin> S k \<longrightarrow> w a t = None"
      proof (intro ballI allI impI)
        fix t a assume "t \<in> S k" "a \<le> n" "a \<notin> S k"
        then show "w a t = None" using inboundD(2) [OF in_k, of a t] p(2) None by (cases "w a t") auto
      qed
      moreover have "S k \<subseteq> {1..n}" "S k \<noteq> {}" using nestedD(3) [OF layoutD(1) [OF l]] layoutD(2) [OF l] sh True by auto
      ultimately have "\<not> (arborescence n f \<and> feasible n w f)" for f by (intro no_branching [of "S k"])
      then show ?thesis using True p(1) None by (subst contraction_loop_step) simp
    next
      case (Some i)
      then obtain a where "a \<le> n" "i = a + k * Suc n" "arc_Exists (col n (ms_arcs s) k a)"
         "\<forall>b \<le> n. arc_Exists (col n (ms_arcs s) k b) \<longrightarrow> arc_score (col n (ms_arcs s) k b) \<le> arc_score (col n (ms_arcs s) k a)"
        using p(3) by blast
      from contraction_step_correct [OF c wk True this] obtain s' where
        s': "contraction_step i k s = Some s'" "contracting n w (Suc k) s'" "ms_forest s' = ms_forest s" by blast
      have "2 * n - Suc k < 2 * n - k" using sh True by auto
      from less.hyps [OF this s'(2)] s' p(1) Some True show ?thesis by (subst contraction_loop_step) (auto split: sum.splits)
    qed
  qed
qed

text \<open>A finished contraction is a certificate.\<close>

lemma contracted_certificate:
  assumes c: "core n w N S R sr tg m ai s" and wk: "weak_inv n N R sr s" and N: "N = ms_num_current_nodes s"
  shows "certificate n N w S ((!) (ms_contracted_into s)) sr tg m"
proof -
  note l = coreD(2) [OF c] and cy = coreD(5) [OF c, unfolded cycles_def Let_def, folded N]
  note nest = layoutD(1) [OF l, folded N] and arc = chosen_arc [OF c]
  have cost: "cost S m t v = m v + cost S m t (v - 1)" if "1 \<le> v" "t \<in> S v" for t v using that by (simp add: cost_last add.commute)
  have "\<forall>v \<in> {1..<N}. tg v \<in> S v \<and> sr v \<notin> S v \<and> sr v \<le> n \<and> w (sr v) (tg v) = Some (cost S m (tg v) v)"
  proof
    fix v assume "v \<in> {1..<N}"
    then have v: "1 \<le> v" "v < N" by auto
    show "tg v \<in> S v \<and> sr v \<notin> S v \<and> sr v \<le> n \<and> w (sr v) (tg v) = Some (cost S m (tg v) v)"
      using arc(1-3,7) [OF v] cost [OF v(1), of "tg v"] by simp
  qed
  moreover have "\<forall>v \<in> {1..<N}. \<forall>t \<in> S v. \<forall>a x. a \<le> n \<longrightarrow> a \<notin> S v \<longrightarrow> w a t = Some x \<longrightarrow> x \<le> cost S m t v"
  proof (intro ballI allI impI)
    fix v t a x assume "v \<in> {1..<N}" and t: "t \<in> S v" "a \<le> n" "a \<notin> S v" "w a t = Some x"
    then have v: "1 \<le> v" "v < N" by auto
    have "inbound n w (S v) (S v) (\<lambda>t. cost S m t (v - 1)) (col n (ms_arcs s) v)" using coreD(3) [OF c] v N by (simp add: columns_def)
    from inboundD(2) [OF this t(2,3,1,4)] have "arc_Exists (col n (ms_arcs s) v a)" "x \<le> arc_score (col n (ms_arcs s) v a) + cost S m t (v - 1)" by auto
    moreover have "arc_score (col n (ms_arcs s) v a) \<le> m v" using arc(13) [OF v t(2)] calculation(1) by simp
    ultimately show "x \<le> cost S m t v" using cost [OF v(1) t(1)] by simp
  qed
  moreover have "\<exists>v \<in> D. \<forall>v' \<in> D. sr v \<notin> S v'" if D: "D \<noteq> {}" "D \<subseteq> {v \<in> {1..<N}. ms_contracted_into s ! v = 0}" for D
  proof (rule ccontr)
    assume "\<not> (\<exists>v \<in> D. \<forall>v' \<in> D. sr v \<notin> S v')"
    then have cl: "\<exists>v' \<in> D. sr v \<in> S v'" if "v \<in> D" for v using that by blast
    have top: "D \<subseteq> tops s" using D(2) N by (auto simp: tops_def)
    obtain T where T: "ends N R sr (tops s) T" using wk by (auto simp: weak_inv_def)
    obtain d where d: "d \<in> D" using D(1) by blast
    have stay: "u \<in> D" if "(d, u) \<in> (steps N R sr (tops s))\<^sup>*" for u
      using that
    proof (induction rule: rtrancl_induct)
      case (step u z)
      then obtain v' where "v' \<in> D" "sr u \<in> S v'" using cl by blast
      then show ?case using step.hyps(2) top_unique [OF l, of v' "sr u"] top by (auto simp: steps_def)
    qed (rule d)
    have Td: "T d \<in> D" using stay endsD(2) [OF T, of d] d top by blast
    then have "T d < N" using D(2) by auto
    then have "sr (T d) = 0" using endsD(3) [OF T, of d] d top by auto
    then obtain v' where v': "v' \<in> D" "0 \<in> S v'" using cl [OF Td] by auto
    then have "1 \<le> v'" "v' < N" using D(2) by auto
    then show False using nestedD(3) [OF nest] v'(2) by fastforce
  qed
  ultimately show ?thesis unfolding certificate_def using nest cy by (intro conjI) blast+
qed

end
