(* ===== verification/Mst_Expansion.thy ===== *)
theory Mst_Expansion
  imports Mst_Contraction
begin

text \<open>
  A solver into which arcs have been entered is ready to be contracted, and the expansion phase reads the
  optimal branching off a finished contraction.
\<close>

section \<open>Before the contraction\<close>

definition digraph :: "nat \<Rightarrow> (nat \<Rightarrow> nat \<Rightarrow> 's option) \<Rightarrow> 's :: linordered_idom mst_arc list \<Rightarrow> bool" where
  "digraph n w arcs \<longleftrightarrow> length arcs = Suc n * Suc n \<and> (\<forall>a \<le> n. \<forall>t \<le> n.
     col n arcs t a = (case if t = 0 \<or> a = t then None else w a t of None \<Rightarrow> null_arc | Some x \<Rightarrow> \<lparr>arc_score = x, arc_source = a, arc_target = t\<rparr>))"

definition fresh :: "nat \<Rightarrow> 's mst_solver \<Rightarrow> bool" where
  "fresh n s \<longleftrightarrow> ms_num_original_nodes s = n \<and> ms_num_initial_nodes s = Suc n \<and> ms_num_possible_nodes s = 2 * n \<and>
     ms_num_current_nodes s = Suc n \<and>
     ms_weak_components s = \<lparr>dsf_size = Suc n, dsf_parents = [0..<Suc n], dsf_ranks = replicate (Suc n) 0\<rparr> \<and>
     ms_strong_components s = \<lparr>dsf_size = Suc n, dsf_parents = [0..<Suc n], dsf_ranks = replicate (Suc n) 0\<rparr> \<and>
     (\<exists>rk. ms_contracted_nodes s = \<lparr>dsf_size = 2 * n, dsf_parents = [0..<2 * n], dsf_ranks = rk\<rparr>) \<and>
     ms_contracted_into s = replicate (2 * n) 0 \<and> ms_argmax_arcs s = replicate (2 * n) None"

lemma fresh_arcs [simp]: "fresh n (s\<lparr>ms_arcs := arcs\<rparr>) \<longleftrightarrow> fresh n s"
  by (simp add: fresh_def)

lemma classes_singletons: "classes n (\<lambda>x. x) \<lparr>dsf_size = Suc n, dsf_parents = [0..<Suc n], dsf_ranks = replicate (Suc n) 0\<rparr>"
proof -
  have "dsf_inv True \<lparr>dsf_size = Suc n, dsf_parents = [0..<Suc n], dsf_ranks = replicate (Suc n) 0\<rparr>"
    using dsf_inv_Init [of True "Suc n"] by simp
  then show ?thesis unfolding classes_def by (auto simp: joined_def has_root_singletons simp del: upt_Suc)
qed

lemma roots_singletons: "1 \<le> n \<Longrightarrow> V \<subseteq> {..<2 * n} \<Longrightarrow> roots n (2 * n) (\<lambda>x. x) V \<lparr>dsf_size = 2 * n, dsf_parents = [0..<2 * n], dsf_ranks = rk\<rparr>"
  using dsf_inv_Init [of False "2 * n" rk] unfolding roots_def by (auto simp: has_root_singletons)

lemma fresh_contracting:
  assumes n: "1 \<le> n" and s: "fresh n s" and g: "digraph n w (ms_arcs s)"
  shows "contracting n w 1 s"
proof -
  note f = s [unfolded fresh_def]
  obtain rk where rk: "ms_contracted_nodes s = \<lparr>dsf_size = 2 * n, dsf_parents = [0..<2 * n], dsf_ranks = rk\<rparr>" using f by blast
  have tops: "tops s = {1..n}" using f n by (auto simp: tops_def)
  have zero: "ms_contracted_into s ! v = 0" if "v < 2 * n" for v using f that by simp
  let ?S = "\<lambda>v. {v}" let ?R = "\<lambda>x. x"
  have n2: "v < 2 * n" if "v < Suc n" for v using that n by linarith
  have "nested n (Suc n) ?S ((!) (ms_contracted_into s))" unfolding nested_def using zero n2 by auto
  then have "layout n 1 ?S ?R s" unfolding layout_def using f tops zero n2 n by auto
  moreover have "shape n 1 s" using f g n by (simp add: shape_def digraph_def)
  moreover have "columns n w ?S (\<lambda>_. 0) s"
    unfolding columns_def inbound_def
  proof (intro ballI allI impI)
    fix v a assume "v \<in> {1..<ms_num_current_nodes s}" and a: "a \<le> n"
    then have v: "1 \<le> v" "v \<le> n" using f by auto
    have "col n (ms_arcs s) v a = (case if v = 0 \<or> a = v then None else w a v of None \<Rightarrow> null_arc | Some x \<Rightarrow> \<lparr>arc_score = x, arc_source = a, arc_target = v\<rparr>)"
      using g a v by (simp add: digraph_def)
    moreover have "cost ?S (\<lambda>_. 0) t (v - 1) = 0" for t by (simp add: cost_def)
    ultimately show "(arc_Exists (col n (ms_arcs s) v a) \<longrightarrow> arc_source (col n (ms_arcs s) v a) = a \<and> arc_target (col n (ms_arcs s) v a) \<in> {v} \<and> a \<notin> {v} \<and>
          w a (arc_target (col n (ms_arcs s) v a)) = Some (arc_score (col n (ms_arcs s) v a) + cost ?S (\<lambda>_. 0) (arc_target (col n (ms_arcs s) v a)) (v - 1))) \<and>
        (a \<notin> {v} \<longrightarrow> (\<forall>t \<in> {v}. \<forall>x. w a t = Some x \<longrightarrow> arc_Exists (col n (ms_arcs s) v a) \<and> x \<le> arc_score (col n (ms_arcs s) v a) + cost ?S (\<lambda>_. 0) t (v - 1)))"
      using v by (auto simp: arc_Exists_def null_arc_def split: option.splits if_splits)
  qed
  moreover have "chosen n 1 (\<lambda>_. 0) (\<lambda>_. 0) (\<lambda>_. 0) (\<lambda>_. 0) s" by (simp add: chosen_def)
  moreover have "cycles n ?S (\<lambda>_. 0) s" unfolding cycles_def Let_def using f zero n2 by auto
  moreover have "classes n ?R (ms_strong_components s)" using f classes_singletons by simp
  moreover have "roots n (2 * n) ?R (tops s \<union> {ms_num_current_nodes s..<2 * n}) (ms_contracted_nodes s)"
    unfolding rk tops using n f by (intro roots_singletons) auto
  ultimately have "core n w 1 ?S ?R (\<lambda>_. 0) (\<lambda>_. 0) (\<lambda>_. 0) (\<lambda>_. 0) s" by (simp add: core_def)
  moreover have "ends 1 ?R (\<lambda>_. 0) (tops s) (\<lambda>v. v)" by (auto simp: ends_def)
  then have "weak_inv n 1 ?R (\<lambda>_. 0) s" unfolding weak_inv_def using f classes_singletons by auto
  ultimately show ?thesis by (rule contractingI)
qed

section \<open>The expansion phase\<close>

text \<open>The nodes that are selected, going down from the top.\<close>

fun select_from :: "nat \<Rightarrow> (nat \<Rightarrow> nat set) \<Rightarrow> (nat \<Rightarrow> nat) \<Rightarrow> nat \<Rightarrow> nat set" where
  "select_from N S tg 0 = {}"
| "select_from N S tg (Suc d) = (let Z = select_from N S tg d; v = N - Suc d in if \<exists>z \<in> Z. tg z \<in> S v then Z else insert v Z)"

lemma select_from_bound: "d \<le> N \<Longrightarrow> select_from N S tg d \<subseteq> {N - d..<N}"
proof (induction d)
  case (Suc d)
  then have "select_from N S tg d \<subseteq> {N - d..<N}" "{N - d..<N} \<subseteq> {N - Suc d..<N}" "N - Suc d \<in> {N - Suc d..<N}" by auto
  then show ?case unfolding select_from.simps Let_def by (simp only: split: if_split) blast
qed simp

lemma select_from_mono: "d \<le> e \<Longrightarrow> e \<le> N \<Longrightarrow> v \<in> select_from N S tg e \<Longrightarrow> N - d \<le> v \<Longrightarrow> v \<in> select_from N S tg d"
proof (induction e)
  case (Suc e)
  show ?case
  proof (cases "d = Suc e")
    case False
    then have "d \<le> e" using Suc.prems by simp
    then have "N - Suc e < N - d" using Suc.prems by linarith
    then show ?thesis using Suc False by (auto simp: Let_def split: if_splits)
  qed (use Suc in simp)
qed simp

lemma select_from_subset: "d \<le> e \<Longrightarrow> select_from N S tg d \<subseteq> select_from N S tg e"
proof (induction e)
  case (Suc e)
  then show ?case by (cases "d = Suc e") (auto simp: Let_def)
qed simp

lemma selection_exists: "\<exists>sel. selection N S tg sel"
proof -
  have "v \<in> select_from N S tg N \<longleftrightarrow> \<not> (\<exists>z. v < z \<and> z < N \<and> z \<in> select_from N S tg N \<and> tg z \<in> S v)" if v: "v < N" for v
  proof -
    let ?Z = "select_from N S tg (N - Suc v)"
    have Z: "z \<in> ?Z \<longleftrightarrow> v < z \<and> z < N \<and> z \<in> select_from N S tg N" for z
      using select_from_bound [of "N - Suc v" N S tg] select_from_mono [of "N - Suc v" N N z S tg] select_from_subset [of "N - Suc v" N N S tg] v by auto
    have "v \<in> select_from N S tg N \<longleftrightarrow> v \<in> select_from N S tg (N - v)"
      using select_from_mono [of "N - v" N N v S tg] select_from_subset [of "N - v" N N S tg] v by auto
    moreover have "N - v = Suc (N - Suc v)" "N - Suc (N - Suc v) = v" using v by auto
    moreover have "v \<notin> ?Z" using select_from_bound [of "N - Suc v" N S tg] v by auto
    ultimately have "v \<in> select_from N S tg N \<longleftrightarrow> \<not> (\<exists>z \<in> ?Z. tg z \<in> S v)" by (simp add: Let_def)
    then show ?thesis using Z by blast
  qed
  then show ?thesis unfolding selection_def by (intro exI [of _ "\<lambda>v. v \<in> select_from N S tg N"]) simp
qed

text \<open>Deleting the nodes around a target, below the node that is expanded.\<close>

lemma delete_loop_chain:
  assumes nest: "nested n N S p" and i: "i < N" "t \<in> S i" "N \<le> null"
  shows "n < v \<Longrightarrow> v \<le> i \<Longrightarrow> t \<in> S v \<Longrightarrow> \<forall>u. v \<le> u \<longrightarrow> u < i \<longrightarrow> t \<in> S u \<longrightarrow> into ! u = p u \<Longrightarrow> N \<le> length into \<Longrightarrow>
    \<exists>into'. delete_loop null i v into = Some into' \<and> length into' = length into \<and>
      (\<forall>u < length into. into' ! u = (if v \<le> u \<and> u < i \<and> t \<in> S u then null else into ! u))"
proof (induction "i - v" arbitrary: v into rule: less_induct)
  case less
  show ?case
  proof (cases "v = i")
    case True
    then show ?thesis by (subst delete_loop.simps) auto
  next
    case False
    then have vi: "v < i" "v < N" "1 \<le> v" using less.prems i by auto
    note up = nestedD(6) [OF nest vi(3) _ _ less.prems(3)]
    have p: "p v \<noteq> 0" "p v \<le> i" "v < p v" "n < p v" "p v < N" using up [OF vi(1) i(1,2)] nestedD(4) [OF nest vi(3,2)] by auto
    have tp: "t \<in> S (p v)" using nestedD(5) [OF nest p(4,5)] vi less.prems(3) by auto
    have iv: "into ! v = p v" using less.prems(3,4) vi by simp
    have "i - p v < i - v" using p vi by linarith
    from less.hyps [OF this p(4,2) tp, of "into[v := null]"] obtain into' where
      into': "delete_loop null i (p v) (into[v := null]) = Some into'" "length into' = length into"
      "\<forall>u < length into. into' ! u = (if p v \<le> u \<and> u < i \<and> t \<in> S u then null else into[v := null] ! u)"
      using less.prems(4,5) p(3) by auto
    have "v \<noteq> null" "v < length into" using vi i(3) less.prems(5) by linarith+
    then have "delete_loop null i v into = Some into'" using into'(1) iv False by (subst delete_loop.simps) simp
    moreover have "(if p v \<le> u \<and> u < i \<and> t \<in> S u then null else into[v := null] ! u) = (if v \<le> u \<and> u < i \<and> t \<in> S u then null else into ! u)"
      if "u < length into" for u
    proof (cases "u = v")
      case True
      then show ?thesis using p(3) vi less.prems(3) that by simp
    next
      case False
      then show ?thesis using up [of u] p(3) i(1) by (auto simp: le_eq_less_or_eq)
    qed
    ultimately show ?thesis using into'(2,3) by (intro exI [of _ into']) simp
  qed
qed

definition expanding ::
  "nat \<Rightarrow> nat \<Rightarrow> nat \<Rightarrow> (nat \<Rightarrow> nat set) \<Rightarrow> (nat \<Rightarrow> nat) \<Rightarrow> (nat \<Rightarrow> nat) \<Rightarrow> (nat \<Rightarrow> bool) \<Rightarrow> 's mst_solver \<Rightarrow> nat \<Rightarrow> 's mst_solver \<Rightarrow> bool" where
  "expanding n N null S tg ai sel s0 k s \<longleftrightarrow> (\<exists>A I. s = s0\<lparr>ms_argmax_arcs := A, ms_contracted_into := I\<rparr> \<and> length A = 2 * n \<and> length I = 2 * n \<and>
     (\<forall>v \<in> {1..<N}. I ! v = (if n < v \<and> (\<exists>z \<in> {k..<N}. sel z \<and> v < z \<and> tg z \<in> S v) then null else ms_contracted_into s0 ! v)) \<and>
     (\<forall>v \<in> {Suc n..<N}. A ! v = Some (ai v)) \<and> (\<forall>z \<in> {k..<N}. sel z \<longrightarrow> A ! tg z = Some (ai z)) \<and>
     (\<forall>t \<in> {1..n}. (\<forall>z \<in> {k..<N}. sel z \<longrightarrow> tg z \<noteq> t) \<longrightarrow> A ! t = Some (ai t)))"

lemma expand_node_correct:
  assumes c: "core n w N S R sr tg m ai s0" and ce: "certificate n N w S ((!) (ms_contracted_into s0)) sr tg m" and N: "N = ms_num_current_nodes s0"
    and sel: "selection N S tg sel" and null: "2 * n < null" and i: "n < i" "i < N" and e: "expanding n N null S tg ai sel s0 (Suc i) s"
  shows "\<exists>s'. expand_node null i s = Some s' \<and> expanding n N null S tg ai sel s0 i s'"
proof -
  obtain A I where s: "s = s0\<lparr>ms_argmax_arcs := A, ms_contracted_into := I\<rparr>" "length A = 2 * n" "length I = 2 * n"
    and I: "\<And>v. 1 \<le> v \<Longrightarrow> v < N \<Longrightarrow> I ! v = (if n < v \<and> (\<exists>z \<in> {Suc i..<N}. sel z \<and> v < z \<and> tg z \<in> S v) then null else ms_contracted_into s0 ! v)"
    and A: "\<And>v. n < v \<Longrightarrow> v < N \<Longrightarrow> A ! v = Some (ai v)" "\<And>z. i < z \<Longrightarrow> z < N \<Longrightarrow> sel z \<Longrightarrow> A ! tg z = Some (ai z)"
      "\<And>t. 1 \<le> t \<Longrightarrow> t \<le> n \<Longrightarrow> (\<forall>z \<in> {Suc i..<N}. sel z \<longrightarrow> tg z \<noteq> t) \<Longrightarrow> A ! t = Some (ai t)"
    using e unfolding expanding_def by (elim exE conjE) (simp add: Suc_le_eq)
  note nest = certificateD(1) [OF ce] and sh = coreD(1) [OF c, unfolded shape_def]
  have i1: "1 \<le> i" and N2: "N \<le> 2 * n" using i sh N by auto
  have bound: "ms_contracted_into s0 ! i \<noteq> null" using nestedD(4) [OF nest i1 i(2)] N2 null by linarith
  have st: "I ! i = null \<longleftrightarrow> \<not> sel i" using I [OF i1 i(2)] selectionD [OF sel i1 i(2)] i(1) bound by (auto simp: Suc_le_eq)
  have split: "{i..<N} = insert i {Suc i..<N}" using i by auto
  show ?thesis
  proof (cases "sel i")
    case False
    then have "expanding n N null S tg ai sel s0 i s" using e unfolding expanding_def split by simp
    moreover have "expand_node null i s = Some s" using False st s i N2 by (simp add: expand_node_def)
    ultimately show ?thesis by blast
  next
    case True
    note arc = certificateD(2) [OF ce i1 i(2)] and ca = chosen_arc [OF c i1 i(2)]
    let ?t = "tg i"
    have t: "1 \<le> ?t" "?t \<le> n" "?t < N" "?t < i" "S ?t = {?t}" using ca(4,5) i nestedD(2) [OF nest ca(4,5)] by auto
    have up: "ms_contracted_into s0 ! ?t \<le> u" if "?t < u" "u < N" "?t \<in> S u" for u using nestedD(6) [OF nest t(1) that(1,2), of ?t] t(5) that(3) by auto
    have "ms_contracted_into s0 ! ?t \<noteq> 0" using nestedD(6) [OF nest t(1,4) i(2), of ?t] t(5) arc by auto
    then have p: "n < ms_contracted_into s0 ! ?t" "ms_contracted_into s0 ! ?t < N" "ms_contracted_into s0 ! ?t \<le> i"
      using nestedD(4) [OF nest t(1,3)] up [OF t(4) i(2)] arc by auto
    have tp: "?t \<in> S (ms_contracted_into s0 ! ?t)" using nestedD(5) [OF nest p(1,2)] t by auto
    have It: "I ! ?t = ms_contracted_into s0 ! ?t" using I [OF t(1,3)] t(2) by simp
    have free: "\<not> (\<exists>z \<in> {Suc i..<N}. sel z \<and> tg z \<in> S u)" if "1 \<le> u" "u < i" "?t \<in> S u" for u
    proof -
      have "S u \<subseteq> S i" using nested_mono [OF nest that(1) _ i(2) that(3)] that(2) arc by simp
      then show ?thesis using selectionD [OF sel i1 i(2)] True by (auto simp: Suc_le_eq)
    qed
    have keep: "I ! u = ms_contracted_into s0 ! u" if "1 \<le> u" "u < i" "?t \<in> S u" for u
      using I [of u] free [OF that] that i(2) by auto
    have "\<exists>I'. delete_loop null i (I ! ?t) I = Some I' \<and> length I' = length I \<and>
      (\<forall>u < length I. I' ! u = (if I ! ?t \<le> u \<and> u < i \<and> ?t \<in> S u then null else I ! u))"
      unfolding It using keep p(1) s(3) N2 null arc by (intro delete_loop_chain [OF nest i(2) _ _ p(1,3) tp]) auto
    then obtain I' where I': "delete_loop null i (I ! ?t) I = Some I'" "length I' = 2 * n"
      "\<And>u. u < 2 * n \<Longrightarrow> I' ! u = (if ms_contracted_into s0 ! ?t \<le> u \<and> u < i \<and> ?t \<in> S u then null else I ! u)" using s(3) It by auto
    let ?s' = "s0\<lparr>ms_argmax_arcs := A[?t := Some (ai i)], ms_contracted_into := I'\<rparr>"
    have "ai i < length (ms_arcs s0)" using column_bound [OF ca(1) i(2)] ca(10) sh N by simp
    then have "vec_at (ms_arcs s0) (int (ai i)) = Some (col n (ms_arcs s0) i (sr i))" unfolding col_def ca(10) [symmetric] by simp
    then have "expand_node null i s = Some ?s'"
      unfolding expand_node_def using True st s i N2 A(1) [OF i] ca(9) t I'(1) by (simp add: Let_def)
    moreover have "expanding n N null S tg ai sel s0 i ?s'"
      unfolding expanding_def split
    proof (intro exI conjI ballI impI)
      fix v assume "v \<in> {1..<N}"
      then have v: "1 \<le> v" "v < N" "v < 2 * n" using N2 by auto
      have "ms_contracted_into s0 ! ?t \<le> v \<and> v < i \<and> ?t \<in> S v \<longleftrightarrow> n < v \<and> v < i \<and> ?t \<in> S v" using p(1) up [of v] t(2) v(2) by auto
      then show "I' ! v = (if n < v \<and> (\<exists>z \<in> insert i {Suc i..<N}. sel z \<and> v < z \<and> tg z \<in> S v) then null else ms_contracted_into s0 ! v)"
        using I'(3) [OF v(3)] I [OF v(1,2)] True by auto
    next
      fix v assume "v \<in> {Suc n..<N}"
      then show "A[?t := Some (ai i)] ! v = Some (ai v)" using A(1) [of v] t by simp
    next
      fix z assume z: "z \<in> insert i {Suc i..<N}" "sel z"
      then have "1 \<le> z" "z < N" using i by auto
      have "tg z \<noteq> ?t" if "z \<noteq> i"
        using selected_target [OF ce sel t(1,2)] z True \<open>1 \<le> z\<close> \<open>z < N\<close> i1 i(2) that by (metis atLeastLessThan_iff)
      then show "A[?t := Some (ai i)] ! tg z = Some (ai z)" using A(2) [of z] z t s(2) N2 by (cases "z = i") auto
    next
      fix t assume "t \<in> {1..n}" "\<forall>z \<in> insert i {Suc i..<N}. sel z \<longrightarrow> tg z \<noteq> t"
      then show "A[?t := Some (ai i)] ! t = Some (ai t)" using A(3) [of t] True by auto
    qed (use s I' in simp_all)
    ultimately show ?thesis by blast
  qed
qed

lemma expand_all:
  assumes c: "core n w N S R sr tg m ai s" and ce: "certificate n N w S ((!) (ms_contracted_into s)) sr tg m" and N: "N = ms_num_current_nodes s"
    and sel: "selection N S tg sel" and null: "2 * n < null"
  shows "\<exists>s'. foreach (expand_node null) (rev [Suc n..<N]) s = Some s' \<and> expanding n N null S tg ai sel s (Suc n) s'"
proof -
  note sh = coreD(1) [OF c, unfolded shape_def]
  have "\<exists>s'. foreach (expand_node null) (rev [k..<N]) s = Some s' \<and> expanding n N null S tg ai sel s k s'" if "k \<le> N" "n < k" for k
    using that
  proof (induction rule: inc_induct)
    case base
    have "expanding n N null S tg ai sel s N s"
      unfolding expanding_def using sh chosen_arc(11) [OF c] nestedD(1) [OF certificateD(1) [OF ce]]
      by (intro exI [of _ "ms_argmax_arcs s"] exI [of _ "ms_contracted_into s"]) auto
    then show ?case by simp
  next
    case (step k)
    then obtain s1 where s1: "foreach (expand_node null) (rev [Suc k..<N]) s = Some s1" "expanding n N null S tg ai sel s (Suc k) s1" by auto
    from expand_node_correct [OF c ce N sel null step.prems step.hyps(2) s1(2)] s1(1) step.hyps(2) show ?case
      by (auto simp: upt_conv_Cons foreach_append)
  qed
  moreover have "Suc n \<le> N" using nestedD(1) [OF certificateD(1) [OF ce]] by simp
  ultimately show ?thesis by simp
qed

text \<open>The source of the arc that ends up as the best one of a target.\<close>

definition source_of :: "'s mst_solver \<Rightarrow> nat \<Rightarrow> nat" where
  "source_of s t = arc_source (ms_arcs s ! the (ms_argmax_arcs s ! t))"

lemma expanded_sources:
  assumes c: "core n w N S R sr tg m ai s" and ce: "certificate n N w S ((!) (ms_contracted_into s)) sr tg m" and N: "N = ms_num_current_nodes s"
    and sel: "selection N S tg sel" and e: "expanding n N null S tg ai sel s (Suc n) s'"
  shows "\<forall>v \<in> {1..<N}. sel v \<longrightarrow> source_of s' (tg v) = sr v"
    and "\<forall>t \<in> {1..n}. \<exists>j < length (ms_arcs s'). ms_argmax_arcs s' ! t = Some j"
proof -
  note nest = certificateD(1) [OF ce] and sh = coreD(1) [OF c, unfolded shape_def]
  obtain A I where s': "s' = s\<lparr>ms_argmax_arcs := A, ms_contracted_into := I\<rparr>"
    and A: "\<forall>z \<in> {Suc n..<N}. sel z \<longrightarrow> A ! tg z = Some (ai z)" "\<forall>t \<in> {1..n}. (\<forall>z \<in> {Suc n..<N}. sel z \<longrightarrow> tg z \<noteq> t) \<longrightarrow> A ! t = Some (ai t)"
    using e unfolding expanding_def by blast
  have best: "A ! tg z = Some (ai z)" if z: "1 \<le> z" "z < N" "sel z" for z
  proof (cases "n < z")
    case True
    then show ?thesis using A(1) z by simp
  next
    case False
    then have t: "tg z = z" "1 \<le> tg z" "tg z \<le> n" using certificateD(2) [OF ce z(1,2)] nestedD(2) [OF nest z(1)] z(1) by auto
    have "tg z' \<noteq> tg z" if "z' \<in> {Suc n..<N}" "sel z'" for z'
      using selected_target [OF ce sel t(2,3)] that z False by (metis Suc_le_eq atLeastLessThan_iff less_imp_le not_less order_trans Suc_leD)
    then show ?thesis using A(2) t by simp
  qed
  have ai: "ai z < length (ms_arcs s)" "arc_source (ms_arcs s ! ai z) = sr z" if z: "1 \<le> z" "z < N" for z
  proof -
    note ca = chosen_arc [OF c z]
    show "ai z < length (ms_arcs s)" using column_bound [OF ca(1) z(2)] ca(10) sh N by simp
    show "arc_source (ms_arcs s ! ai z) = sr z" using ca(8) unfolding col_def ca(10) [symmetric] .
  qed
  show "\<forall>v \<in> {1..<N}. sel v \<longrightarrow> source_of s' (tg v) = sr v" using best ai(2) by (simp add: source_of_def s')
  show "\<forall>t \<in> {1..n}. \<exists>j < length (ms_arcs s'). ms_argmax_arcs s' ! t = Some j"
  proof
    fix t assume "t \<in> {1..n}"
    then obtain z where "1 \<le> z" "z < N" "sel z" "tg z = t" using selected_target [OF ce sel, of t] by auto
    then show "\<exists>j < length (ms_arcs s'). ms_argmax_arcs s' ! t = Some j" using best [of z] ai(1) [of z] by (auto simp: s')
  qed
qed

text \<open>Sources as the solver numbers them: without the artificial root, which every root of the tree has as its source.\<close>

definition to_sources :: "nat \<Rightarrow> (nat \<Rightarrow> nat) \<Rightarrow> nat list" where
  "to_sources n f = map (\<lambda>t. if f (Suc t) = 0 then t else f (Suc t) - 1) [0..<n]"

definition num_roots :: "nat \<Rightarrow> (nat \<Rightarrow> nat) \<Rightarrow> nat" where
  "num_roots n f = card {t \<in> {1..n}. f t = 0}"

lemma num_roots_Suc: "num_roots (Suc n) f = num_roots n f + (if f (Suc n) = 0 then 1 else 0)"
proof -
  have "{t \<in> {1..Suc n}. f t = 0} = (if f (Suc n) = 0 then insert (Suc n) {t \<in> {1..n}. f t = 0} else {t \<in> {1..n}. f t = 0})"
    by (auto simp: le_Suc_eq)
  then show ?thesis by (simp add: num_roots_def)
qed

lemma copy_sources:
  assumes a: "\<forall>t \<in> {1..n}. \<exists>j < length (ms_arcs s). ms_argmax_arcs s ! t = Some j" and l: "n < length (ms_argmax_arcs s)"
  shows "k \<le> n \<Longrightarrow> n \<le> length argmax \<Longrightarrow>
    foreach (copy_source s) [0..<k] (0, argmax) = Some (num_roots k (source_of s), to_sources k (source_of s) @ drop k argmax)"
proof (induction k)
  case 0
  then show ?case by (simp add: num_roots_def to_sources_def)
next
  case (Suc k)
  obtain j where j: "j < length (ms_arcs s)" "ms_argmax_arcs s ! Suc k = Some j" using a Suc.prems by force
  have "vec_at (ms_argmax_arcs s) (int (k + 1)) = Some (Some j)" using j(2) l Suc.prems by (simp add: vec_at_def nat_add_distrib)
  moreover have "source_of s (Suc k) = arc_source (ms_arcs s ! j)" using j by (simp add: source_of_def)
  moreover have "(to_sources k f @ drop k argmax)[k := x] = to_sources k f @ x # drop (Suc k) argmax" for f x
    using Suc.prems by (simp add: to_sources_def list_update_append Cons_nth_drop_Suc [symmetric])
  moreover have "k < length (to_sources k f @ drop k argmax)" for f using Suc.prems by (simp add: to_sources_def)
  ultimately have "copy_source s k (num_roots k (source_of s), to_sources k (source_of s) @ drop k argmax) =
      Some (num_roots (Suc k) (source_of s), to_sources (Suc k) (source_of s) @ drop (Suc k) argmax)"
    using j(1) by (simp add: copy_source_def num_roots_Suc to_sources_def arc_IsRoot_def)
  then show ?case using Suc by (simp add: foreach_append)
qed

text \<open>The two phases together: the optimal branching, or there is none.\<close>

lemma phases_correct:
  assumes n: "1 \<le> n" and s: "fresh n s" "digraph n w (ms_arcs s)" and null: "2 * n < null" and l: "n \<le> length argmax"
  shows "(\<exists>f s'. arborescence n f \<and> feasible n w f \<and> (\<forall>g. arborescence n g \<longrightarrow> feasible n w g \<longrightarrow> branching_score n w g \<le> branching_score n w f) \<and>
       exact_ContractionPhase s \<bind> (\<lambda>r. case r of Inl e \<Rightarrow> Some (Inl e) | Inr s \<Rightarrow> ExpansionPhase null argmax s) =
         Some (if \<not> ms_forest s \<and> num_roots n f \<noteq> 1 then Inl FailedPrecondition else Inr (to_sources n f @ drop n argmax, s'))) \<or>
     (\<forall>f. \<not> (arborescence n f \<and> feasible n w f)) \<and>
       exact_ContractionPhase s \<bind> (\<lambda>r. case r of Inl e \<Rightarrow> Some (Inl e) | Inr s \<Rightarrow> ExpansionPhase null argmax s) = Some (Inl FailedPrecondition)"
proof -
  obtain r where r: "exact_ContractionPhase s = Some r" "case r of Inl e \<Rightarrow> e = FailedPrecondition \<and> (\<forall>f. \<not> (arborescence n f \<and> feasible n w f))
      | Inr s' \<Rightarrow> contracting n w (ms_num_current_nodes s') s' \<and> ms_forest s' = ms_forest s"
    using contraction_loop_correct [OF fresh_contracting [OF n s]] unfolding exact_ContractionPhase_def by blast
  show ?thesis
  proof (cases r)
    case (Inl e)
    then show ?thesis using r by simp
  next
    case (Inr s1)
    let ?N = "ms_num_current_nodes s1"
    have fo: "ms_forest s1 = ms_forest s" using r Inr by simp
    obtain S R sr tg m ai where c: "core n w ?N S R sr tg m ai s1" and wk: "weak_inv n ?N R sr s1" using r Inr by (auto simp: contracting_def)
    note ce = contracted_certificate [OF c wk refl] and sh = coreD(1) [OF c, unfolded shape_def]
    obtain sel where sel: "selection ?N S tg sel" using selection_exists by blast
    obtain s2 where s2: "foreach (expand_node null) (rev [Suc n..<?N]) s1 = Some s2" "expanding n ?N null S tg ai sel s1 (Suc n) s2"
      using expand_all [OF c ce refl sel null] by blast
    note src = expanded_sources [OF c ce refl sel s2(2)]
    have e: "ms_num_original_nodes s2 = n" "ms_forest s2 = ms_forest s" "length (ms_argmax_arcs s2) = 2 * n"
      using s2(2) sh fo by (auto simp: expanding_def)
    have "foreach (copy_source s2) [0..<n] (0, argmax) = Some (num_roots n (source_of s2), to_sources n (source_of s2) @ drop n argmax)"
      using copy_sources [OF src(2), of n argmax] e(3) n l by simp
    then have "ExpansionPhase null argmax s1 = Some (if \<not> ms_forest s \<and> num_roots n (source_of s2) \<noteq> 1 then Inl FailedPrecondition
        else Inr (to_sources n (source_of s2) @ drop n argmax, s2))"
      unfolding ExpansionPhase_def using s2(1) sh e l by simp
    then show ?thesis using expansion_optimal [OF ce sel src(1)] r(1) Inr by (intro disjI1 exI [of _ "source_of s2"] exI [of _ s2]) simp
  qed
qed

end
