(* ===== verification/Mst_Correctness.thy ===== *)
theory Mst_Correctness
  imports Mst_Expansion
begin

text \<open>
  The solver finds a maximum spanning tree, or reports that there is none; so does the kernel that runs it.
\<close>

section \<open>Entering arcs\<close>

lemma col_update:
  assumes "a \<le> n" "b \<le> n" "a + t * Suc n < length arcs"
  shows "col n (arcs[a + t * Suc n := y]) u b = (if b = a \<and> u = t then y else col n arcs u b)"
  using column_index [OF assms(1,2), of t u] assms(3) unfolding col_def by (auto simp: nth_list_update simp del: mult_Suc_right)

lemma ArcIndex_eq: "ms_num_initial_nodes s = Suc n \<Longrightarrow> ArcIndex a t s = a + t * Suc n"
  by (simp add: ArcIndex_def)

lemma vec_nat: "i < length xs \<Longrightarrow> vec_at xs (int i) = Some (xs ! i)" "i < length xs \<Longrightarrow> vec_set xs (int i) x = Some (xs[i := x])"
  by simp_all

lemma digraph_index: "digraph n w arcs \<Longrightarrow> a \<le> n \<Longrightarrow> t \<le> n \<Longrightarrow> a + t * Suc n < length arcs"
  using column_bound [of a n t "Suc n"] by (simp add: digraph_def)

lemma digraph_col:
  "digraph n w arcs \<Longrightarrow> a \<le> n \<Longrightarrow> t \<le> n \<Longrightarrow>
     col n arcs t a = (case if t = 0 \<or> a = t then None else w a t of None \<Rightarrow> null_arc | Some x \<Rightarrow> \<lparr>arc_score = x, arc_source = a, arc_target = t\<rparr>)"
  by (simp add: digraph_def)

lemma digraph_cong:
  "(\<And>a t. a \<le> n \<Longrightarrow> 1 \<le> t \<Longrightarrow> t \<le> n \<Longrightarrow> a \<noteq> t \<Longrightarrow> w a t = w' a t) \<Longrightarrow> digraph n w arcs \<Longrightarrow> digraph n w' arcs"
  unfolding digraph_def by (auto simp: Suc_le_eq)

lemma digraph_update:
  assumes g: "digraph n w arcs" and a: "a \<le> n" and t: "1 \<le> t" "t \<le> n" "a \<noteq> t"
  shows "digraph n (\<lambda>b u. if b = a \<and> u = t then Some x else w b u) (arcs[a + t * Suc n := \<lparr>arc_score = x, arc_source = a, arc_target = t\<rparr>])"
  unfolding digraph_def
proof (intro conjI allI impI)
  fix b u assume bu: "b \<le> n" "u \<le> n"
  show "col n (arcs[a + t * Suc n := \<lparr>arc_score = x, arc_source = a, arc_target = t\<rparr>]) u b =
     (case if u = 0 \<or> b = u then None else if b = a \<and> u = t then Some x else w b u of None \<Rightarrow> null_arc
      | Some x \<Rightarrow> \<lparr>arc_score = x, arc_source = b, arc_target = u\<rparr>)"
    using t by (simp add: col_update [OF a bu(1) digraph_index [OF g a t(2)]] digraph_col [OF g bu] del: mult_Suc_right)
qed (use g in \<open>simp add: digraph_def\<close>)

lemma mst_AddArc_digraph:
  assumes "digraph n w (ms_arcs s)" and "ms_num_initial_nodes s = Suc n" and "source < n" and "target < n" and "source \<noteq> target"
  shows "\<exists>arcs. mst_AddArc source target x s = Some (s\<lparr>ms_arcs := arcs\<rparr>) \<and>
    digraph n (\<lambda>b u. if b = Suc source \<and> u = Suc target then Some x else w b u) arcs"
  using digraph_update [OF assms(1), of "Suc source" "Suc target" x] vec_nat(2) [OF digraph_index [OF assms(1), of "Suc source" "Suc target"]] assms(3-)
  by (auto simp: mst_AddArc_def ArcIndex_eq [OF assms(2)] simp del: mult_Suc_right mult_Suc of_nat_add of_nat_mult of_nat_Suc)

lemma mst_AddRoot_digraph:
  assumes "digraph n w (ms_arcs s)" and "ms_num_initial_nodes s = Suc n" and "node < n"
  shows "\<exists>arcs. mst_AddRoot node x s = Some (s\<lparr>ms_arcs := arcs\<rparr>) \<and>
    digraph n (\<lambda>b u. if b = 0 \<and> u = Suc node then Some x else w b u) arcs"
  using digraph_update [OF assms(1), of 0 "Suc node" x] vec_nat(2) [OF digraph_index [OF assms(1), of 0 "Suc node"]] assms(3-)
  by (auto simp: mst_AddRoot_def ArcIndex_eq [OF assms(2)] simp del: mult_Suc_right mult_Suc of_nat_add of_nat_mult of_nat_Suc)

lemma mst_Init_fresh:
  fixes s :: "'s :: linordered_idom mst_solver"
  assumes "1 \<le> n" and "2 * n < null"
  shows "\<exists>s'. mst_Init null forest n s = Some (Inr s') \<and> fresh n s' \<and> ms_forest s' = forest \<and> digraph n (\<lambda>_ _. None) (ms_arcs s')"
proof -
  have "col n (replicate (Suc n * Suc n) (null_arc :: 's mst_arc)) t a = null_arc" if "a \<le> n" "t \<le> n" for t a
    using column_bound [of a n t "Suc n"] that unfolding col_def by (intro nth_replicate) simp
  then show ?thesis using assms
    by (simp add: mst_Init_def dsf_Init_eq Let_def fresh_def digraph_def del: mult_Suc_right mult_Suc upt_Suc replicate_Suc)
qed

section \<open>The root penalty\<close>

lemma score_range_Some:
  "\<exists>x' y'. exact_score_range arcs (Some (x, y)) = Some (x', y') \<and> x \<le> x' \<and> y' \<le> y \<and>
     (\<forall>arc \<in> set arcs. arc_Exists arc \<longrightarrow> y' \<le> arc_score arc \<and> arc_score arc \<le> x')"
proof (induction arcs arbitrary: x y)
  case (Cons arc arcs)
  show ?case
  proof (cases "arc_Exists arc")
    case True
    obtain x' y' where "exact_score_range arcs (Some (max x (arc_score arc), min y (arc_score arc))) = Some (x', y')"
      "max x (arc_score arc) \<le> x'" "y' \<le> min y (arc_score arc)" "\<forall>arc \<in> set arcs. arc_Exists arc \<longrightarrow> y' \<le> arc_score arc \<and> arc_score arc \<le> x'"
      using Cons.IH [of "max x (arc_score arc)" "min y (arc_score arc)"] by blast
    then show ?thesis using True by simp
  qed (use Cons.IH in simp)
qed simp

lemma score_range_None:
  "exact_score_range arcs None = None \<and> (\<forall>arc \<in> set arcs. \<not> arc_Exists arc) \<or>
     (\<exists>x y. exact_score_range arcs None = Some (x, y) \<and> y \<le> x \<and> (\<forall>arc \<in> set arcs. arc_Exists arc \<longrightarrow> y \<le> arc_score arc \<and> arc_score arc \<le> x))"
proof (induction arcs)
  case (Cons arc arcs)
  show ?case
  proof (cases "arc_Exists arc")
    case True
    then show ?thesis using score_range_Some [of arcs "arc_score arc" "arc_score arc"] by auto
  qed (use Cons.IH in simp)
qed simp

definition penalized :: "'s :: linordered_idom \<Rightarrow> (nat \<Rightarrow> nat \<Rightarrow> 's option) \<Rightarrow> nat \<Rightarrow> nat \<Rightarrow> 's option" where
  "penalized P w a t = (if a = 0 then map_option (\<lambda>x. x - P) (w a t) else w a t)"

lemma penalize_loop:
  assumes g: "digraph n w arcs" and i: "ms_num_initial_nodes s = Suc n"
  shows "k \<le> n \<Longrightarrow> \<exists>arcs'. foreach (\<lambda>rt arcs. do {
              arc \<leftarrow> vec_at arcs (int (ArcIndex 0 rt s));
              if \<not> arc_Exists arc then Some arcs
              else vec_set arcs (int (ArcIndex 0 rt s)) (arc\<lparr>arc_score := arc_score arc - P\<rparr>) }) [1..<Suc k] arcs = Some arcs' \<and>
     digraph n (\<lambda>a t. if t \<le> k then penalized P w a t else w a t) arcs'"
proof (induction k)
  case 0
  have "digraph n (\<lambda>a t. if t \<le> 0 then penalized P w a t else w a t) arcs" by (rule digraph_cong [OF _ g]) simp
  then show ?case by simp
next
  case (Suc k)
  let ?body = "\<lambda>rt arcs. do {
              arc \<leftarrow> vec_at arcs (int (ArcIndex 0 rt s));
              if \<not> arc_Exists arc then Some arcs
              else vec_set arcs (int (ArcIndex 0 rt s)) (arc\<lparr>arc_score := arc_score arc - P\<rparr>) }"
  let ?w = "\<lambda>k a t. if t \<le> k then penalized P w a t else w a t"
  obtain arcs1 where a1: "foreach ?body [1..<Suc k] arcs = Some arcs1" "digraph n (?w k) arcs1" using Suc by auto
  have k: "Suc k \<le> n" using Suc.prems by simp
  note ix = digraph_index [OF a1(2) le0 k]
  have get: "vec_at arcs1 (int (ArcIndex 0 (Suc k) s)) = Some (col n arcs1 (Suc k) 0)"
    unfolding ArcIndex_eq [OF i] col_def by (rule vec_nat(1) [OF ix])
  have c: "col n arcs1 (Suc k) 0 = (case w 0 (Suc k) of None \<Rightarrow> null_arc | Some x \<Rightarrow> \<lparr>arc_score = x, arc_source = 0, arc_target = Suc k\<rparr>)"
    using digraph_col [OF a1(2) le0 k] by simp
  have "\<exists>arcs2. ?body (Suc k) arcs1 = Some arcs2 \<and> digraph n (?w (Suc k)) arcs2"
  proof (cases "w 0 (Suc k)")
    case None
    have "digraph n (?w (Suc k)) arcs1" using None by (intro digraph_cong [OF _ a1(2)]) (auto simp: penalized_def le_Suc_eq)
    then show ?thesis using get c None by (simp add: arc_Exists_def null_arc_def)
  next
    case (Some x)
    have "digraph n (?w (Suc k)) (arcs1[0 + Suc k * Suc n := \<lparr>arc_score = x - P, arc_source = 0, arc_target = Suc k\<rparr>])"
      using Some by (intro digraph_cong [OF _ digraph_update [OF a1(2) le0 _ k]]) (auto simp: penalized_def le_Suc_eq)
    then show ?thesis unfolding get using c Some vec_nat(2) [OF ix]
      by (simp add: arc_Exists_def ArcIndex_eq [OF i] del: mult_Suc_right mult_Suc of_nat_add of_nat_mult of_nat_Suc)
  qed
  then obtain arcs2 where "?body (Suc k) arcs1 = Some arcs2" "digraph n (?w (Suc k)) arcs2" by blast
  moreover have "[1..<Suc (Suc k)] = [1..<Suc k] @ [Suc k]" by simp
  ultimately show ?case by (intro exI [of _ arcs2]) (simp only: foreach_append a1(1) bind.bind_lunit foreach.simps simp_thms)
qed

lemma MaybePenalizeRootScoresForTree_correct:
  assumes g: "digraph n w (ms_arcs s)" and i: "ms_num_initial_nodes s = Suc n" and f: "\<not> ms_forest s"
  shows "\<exists>arcs D. exact_MaybePenalizeRootScoresForTree s = Some (s\<lparr>ms_arcs := arcs\<rparr>) \<and> digraph n (penalized (1 + of_nat (Suc n) * D) w) arcs \<and> 0 \<le> D \<and>
    (\<forall>a t b u x y. a \<le> n \<longrightarrow> t \<in> {1..n} \<longrightarrow> a \<noteq> t \<longrightarrow> b \<le> n \<longrightarrow> u \<in> {1..n} \<longrightarrow> b \<noteq> u \<longrightarrow> w a t = Some x \<longrightarrow> w b u = Some y \<longrightarrow> x - y \<le> D)"
proof -
  have arc: "\<exists>arc \<in> set (ms_arcs s). arc_Exists arc \<and> arc_score arc = x" if "a \<le> n" "t \<in> {1..n}" "a \<noteq> t" "w a t = Some x" for a t x
  proof
    have t: "t \<le> n" "t \<noteq> 0" using that(2) by auto
    show "col n (ms_arcs s) t a \<in> set (ms_arcs s)" unfolding col_def by (rule nth_mem [OF digraph_index [OF g that(1) t(1)]])
    show "arc_Exists (col n (ms_arcs s) t a) \<and> arc_score (col n (ms_arcs s) t a) = x"
      using digraph_col [OF g that(1) t(1)] t that by (simp add: arc_Exists_def)
  qed
  show ?thesis
  proof (cases "exact_score_range (ms_arcs s) None")
    case None
    then have "\<forall>arc \<in> set (ms_arcs s). \<not> arc_Exists arc" using None score_range_None [of "ms_arcs s"] by simp
    then have no: "w a t = None" if "a \<le> n" "t \<in> {1..n}" "a \<noteq> t" for a t using arc [OF that] by (cases "w a t") auto
    have "digraph n (penalized (1 + of_nat (Suc n) * 0) w) (ms_arcs s)" using no by (intro digraph_cong [OF _ g]) (simp add: penalized_def)
    then show ?thesis using None f no by (intro exI [of _ "ms_arcs s"] exI [of _ 0]) (simp add: exact_MaybePenalizeRootScoresForTree_def)
  next
    case (Some p)
    obtain mx mn where p: "p = (mx, mn)" by (cases p)
    have b: "mn \<le> mx" "\<forall>arc \<in> set (ms_arcs s). arc_Exists arc \<longrightarrow> mn \<le> arc_score arc \<and> arc_score arc \<le> mx"
      using Some p score_range_None [of "ms_arcs s"] by simp_all
    let ?P = "1 + of_nat (Suc n) * (mx - mn)"
    obtain arcs where a: "foreach (\<lambda>rt arcs. do {
              arc \<leftarrow> vec_at arcs (int (ArcIndex 0 rt s));
              if \<not> arc_Exists arc then Some arcs
              else vec_set arcs (int (ArcIndex 0 rt s)) (arc\<lparr>arc_score := arc_score arc - ?P\<rparr>) }) [1..<Suc n] (ms_arcs s) = Some arcs"
      "digraph n (\<lambda>a t. if t \<le> n then penalized ?P w a t else w a t) arcs" using penalize_loop [OF g i order_refl] by blast
    have "digraph n (penalized ?P w) arcs" by (rule digraph_cong [OF _ a(2)]) simp
    moreover have "exact_MaybePenalizeRootScoresForTree s = Some (s\<lparr>ms_arcs := arcs\<rparr>)"
      unfolding exact_MaybePenalizeRootScoresForTree_def Some p i using f a(1) by (simp add: Let_def del: upt_Suc of_nat_Suc)
    moreover have "x - y \<le> mx - mn" if "a \<le> n" "t \<in> {1..n}" "a \<noteq> t" "b \<le> n" "u \<in> {1..n}" "b \<noteq> u" "w a t = Some x" "w b u = Some y" for a t b u x y
      using arc [OF that(1-3,7)] arc [OF that(4-6,8)] b(2) by (blast intro: diff_mono)
    ultimately show ?thesis using b(1) by (intro exI [of _ arcs] exI [of _ "mx - mn"]) auto
  qed
qed

lemma penalized_feasible: "feasible n (penalized P w) f \<longleftrightarrow> feasible n w f"
  unfolding feasible_def penalized_def by (metis map_option_is_None)

lemma penalized_score:
  assumes "feasible n w f"
  shows "branching_score n (penalized P w) f = branching_score n w f - of_nat (num_roots n f) * P"
proof -
  have "branching_score n (penalized P w) f = (\<Sum>t \<in> {1..n}. the (w (f t) t) - (if f t = 0 then P else 0))"
    unfolding branching_score_def
  proof (rule sum.cong)
    fix t assume "t \<in> {1..n}"
    then obtain x where "w (f t) t = Some x" using assms unfolding feasible_def by blast
    then show "the (penalized P w (f t) t) = the (w (f t) t) - (if f t = 0 then P else 0)" by (auto simp: penalized_def)
  qed simp
  also have "\<dots> = branching_score n w f - (\<Sum>t \<in> {1..n}. if f t = 0 then P else 0)" by (simp add: branching_score_def sum_subtractf)
  also have "(\<Sum>t \<in> {1..n}. if f t = 0 then P else 0) = of_nat (num_roots n f) * P"
    unfolding num_roots_def sum.inter_filter [symmetric, OF finite_atLeastAtMost] by simp
  finally show ?thesis .
qed

lemma arborescence_roots:
  assumes "arborescence n f" and "1 \<le> n"
  shows "1 \<le> num_roots n f"
proof -
  obtain t where "t \<in> {1..n}" "f t \<notin> {1..n}" using assms unfolding arborescence_def by (metis atLeastatMost_empty_iff order_refl)
  then have "t \<in> {t \<in> {1..n}. f t = 0}" using assms(1) by (auto simp: arborescence_def)
  then have "{t \<in> {1..n}. f t = 0} \<noteq> {}" by blast
  then show ?thesis unfolding num_roots_def by (simp add: Suc_le_eq card_gt_0_iff)
qed

lemma arborescence_arc: "arborescence n f \<Longrightarrow> t \<in> {1..n} \<Longrightarrow> f t \<le> n \<and> f t \<noteq> t"
  unfolding arborescence_def by (auto dest: spec [of _ "{t}"])

text \<open>With the penalty, a best branching has one root unless all have several.\<close>

lemma penalized_optimum:
  fixes D :: "'s :: linordered_idom" and n :: nat
  defines "P \<equiv> 1 + of_nat (Suc n) * D"
  assumes D: "0 \<le> D" "\<forall>a t b u x y. a \<le> n \<longrightarrow> t \<in> {1..n} \<longrightarrow> a \<noteq> t \<longrightarrow> b \<le> n \<longrightarrow> u \<in> {1..n} \<longrightarrow> b \<noteq> u \<longrightarrow> w a t = Some x \<longrightarrow> w b u = Some y \<longrightarrow> x - y \<le> D"
    and f: "arborescence n f" "feasible n w f" and g: "arborescence n g" "feasible n w g" "num_roots n g = 1"
    and best: "branching_score n (penalized P w) g \<le> branching_score n (penalized P w) f" and n: "1 \<le> n"
  shows "num_roots n f = 1" and "branching_score n w g \<le> branching_score n w f"
proof -
  have "branching_score n w f - branching_score n w g = (\<Sum>t \<in> {1..n}. the (w (f t) t) - the (w (g t) t))"
    by (simp add: branching_score_def sum_subtractf)
  also have "\<dots> \<le> (\<Sum>t \<in> {1..n}. D)"
  proof (rule sum_mono)
    fix t assume t: "t \<in> {1..n}"
    then obtain x y where "w (f t) t = Some x" "w (g t) t = Some y" using f(2) g(2) unfolding feasible_def by blast
    then show "the (w (f t) t) - the (w (g t) t) \<le> D" using D(2) arborescence_arc [OF f(1) t] arborescence_arc [OF g(1) t] t by (metis option.sel)
  qed
  finally have small: "branching_score n w f - branching_score n w g \<le> of_nat n * D" by simp
  have "0 \<le> of_nat n * D" using D(1) by simp
  moreover have "P = 1 + D + of_nat n * D" by (simp add: P_def algebra_simps)
  ultimately have big: "of_nat n * D < P" "0 < P" using D(1) by linarith+
  have diff: "of_nat (num_roots n f) * P - P \<le> branching_score n w f - branching_score n w g"
    using best g(3) unfolding penalized_score [OF f(2)] penalized_score [OF g(2)] by (simp add: algebra_simps)
  show one: "num_roots n f = 1"
  proof (rule ccontr)
    assume "num_roots n f \<noteq> 1"
    then have "2 \<le> num_roots n f" using arborescence_roots [OF f(1) n] by simp
    then have "(2 :: 's) \<le> of_nat (num_roots n f)" by (metis of_nat_le_iff of_nat_numeral)
    then have "2 * P \<le> of_nat (num_roots n f) * P" using big(2) by (intro mult_right_mono) auto
    then show False using diff small big by linarith
  qed
  show "branching_score n w g \<le> branching_score n w f" using diff one by simp
qed

lemma Solve_correct:
  assumes n: "1 \<le> n" and s: "fresh n s" "digraph n w (ms_arcs s)" and null: "2 * n < null" and l: "n \<le> length argmax"
  shows "(\<exists>f s'. exact_Solve null argmax s = Some (Inr (to_sources n f @ drop n argmax, s')) \<and>
       arborescence n f \<and> feasible n w f \<and> (ms_forest s \<or> num_roots n f = 1) \<and>
       (\<forall>g. arborescence n g \<longrightarrow> feasible n w g \<longrightarrow> (ms_forest s \<or> num_roots n g = 1) \<longrightarrow> branching_score n w g \<le> branching_score n w f)) \<or>
     exact_Solve null argmax s = Some (Inl FailedPrecondition) \<and> (\<forall>f. \<not> (arborescence n f \<and> feasible n w f \<and> (ms_forest s \<or> num_roots n f = 1)))"
proof (cases "ms_forest s")
  case True
  then have "exact_MaybePenalizeRootScoresForTree s = Some s" by (simp add: exact_MaybePenalizeRootScoresForTree_def)
  then have solve: "exact_Solve null argmax s = exact_ContractionPhase s \<bind> (\<lambda>r. case r of Inl e \<Rightarrow> Some (Inl e) | Inr s \<Rightarrow> ExpansionPhase null argmax s)"
    by (simp add: exact_Solve_def)
  show ?thesis using phases_correct [OF n s null l] True unfolding solve by auto
next
  case False
  have i: "ms_num_initial_nodes s = Suc n" using s(1) by (simp add: fresh_def)
  obtain arcs D where p: "exact_MaybePenalizeRootScoresForTree s = Some (s\<lparr>ms_arcs := arcs\<rparr>)" "digraph n (penalized (1 + of_nat (Suc n) * D) w) arcs" "0 \<le> D"
    and D: "\<forall>a t b u x y. a \<le> n \<longrightarrow> t \<in> {1..n} \<longrightarrow> a \<noteq> t \<longrightarrow> b \<le> n \<longrightarrow> u \<in> {1..n} \<longrightarrow> b \<noteq> u \<longrightarrow> w a t = Some x \<longrightarrow> w b u = Some y \<longrightarrow> x - y \<le> D"
    using MaybePenalizeRootScoresForTree_correct [OF s(2) i False] by (elim exE conjE) (rule that)
  let ?s = "s\<lparr>ms_arcs := arcs\<rparr>" let ?w = "penalized (1 + of_nat (Suc n) * D) w"
  have solve: "exact_Solve null argmax s = exact_ContractionPhase ?s \<bind> (\<lambda>r. case r of Inl e \<Rightarrow> Some (Inl e) | Inr s \<Rightarrow> ExpansionPhase null argmax s)"
    by (simp add: exact_Solve_def p(1))
  have "fresh n ?s" "digraph n ?w (ms_arcs ?s)" using s(1) p(2) by simp_all
  from phases_correct [OF n this null l] show ?thesis
  proof (elim disjE exE conjE)
    fix f s' assume f: "arborescence n f" "feasible n ?w f"
      and best: "\<forall>g. arborescence n g \<longrightarrow> feasible n ?w g \<longrightarrow> branching_score n ?w g \<le> branching_score n ?w f"
      and eq: "exact_ContractionPhase ?s \<bind> (\<lambda>r. case r of Inl e \<Rightarrow> Some (Inl e) | Inr s \<Rightarrow> ExpansionPhase null argmax s) =
         Some (if \<not> ms_forest ?s \<and> num_roots n f \<noteq> 1 then Inl FailedPrecondition else Inr (to_sources n f @ drop n argmax, s'))"
    have opt: "num_roots n f = 1" "branching_score n w g \<le> branching_score n w f" if "arborescence n g" "feasible n w g" "num_roots n g = 1" for g
      using penalized_optimum [OF p(3) D f(1) _ that _ n] f(2) best that unfolding penalized_feasible by blast+
    show ?thesis
    proof (cases "num_roots n f = 1")
      case True
      then show ?thesis using solve eq f(1) f(2) [unfolded penalized_feasible] opt(2) False by auto
    next
      case roots: False
      then have "exact_Solve null argmax s = Some (Inl FailedPrecondition)" using solve eq False by simp
      then show ?thesis using opt(1) roots False by blast
    qed
  next
    assume "\<forall>f. \<not> (arborescence n f \<and> feasible n ?w f)"
      and "exact_ContractionPhase ?s \<bind> (\<lambda>r. case r of Inl e \<Rightarrow> Some (Inl e) | Inr s \<Rightarrow> ExpansionPhase null argmax s) = Some (Inl FailedPrecondition)"
    then show ?thesis unfolding solve penalized_feasible by blast
  qed
qed

section \<open>Trees as lists of sources\<close>

definition of_sources :: "nat list \<Rightarrow> nat \<Rightarrow> nat" where
  "of_sources ss t = (if ss ! (t - 1) = t - 1 then 0 else Suc (ss ! (t - 1)))"

lemma arborescence_cong: "(\<And>t. t \<in> {1..n} \<Longrightarrow> f t = g t) \<Longrightarrow> arborescence n f \<Longrightarrow> arborescence n g"
  unfolding arborescence_def by (metis subset_iff)

lemma feasible_cong: "(\<And>t. t \<in> {1..n} \<Longrightarrow> f t = g t) \<Longrightarrow> feasible n w f \<longleftrightarrow> feasible n w g"
  unfolding feasible_def by (metis (no_types))

lemma branching_score_cong: "(\<And>t. t \<in> {1..n} \<Longrightarrow> f t = g t) \<Longrightarrow> branching_score n w f = branching_score n w g"
  unfolding branching_score_def by (rule sum.cong) auto

lemma num_roots_cong: "(\<And>t. t \<in> {1..n} \<Longrightarrow> f t = g t) \<Longrightarrow> num_roots n f = num_roots n g"
  unfolding num_roots_def by (rule arg_cong [of _ _ card]) auto

lemma length_to_sources [simp]: "length (to_sources n f) = n"
  by (simp add: to_sources_def)

lemma of_to_sources: "arborescence n f \<Longrightarrow> t \<in> {1..n} \<Longrightarrow> of_sources (to_sources n f) t = f t"
proof -
  assume t: "arborescence n f" "t \<in> {1..n}"
  then have "t - 1 < n" "Suc (t - 1) = t" by auto
  then have "to_sources n f ! (t - 1) = (if f t = 0 then t - 1 else f t - 1)" by (simp add: to_sources_def del: One_nat_def)
  then show ?thesis using arborescence_arc [OF t] t(2) by (auto simp: of_sources_def)
qed

lemma rooted_open: "has_root ss x r \<Longrightarrow> Suc x \<in> C \<Longrightarrow> 0 \<notin> C \<Longrightarrow> \<exists>t \<in> C. of_sources ss t \<notin> C"
proof (induction rule: has_root.induct)
  case (is_root x)
  then show ?case by (intro bexI [of _ "Suc x"]) (simp_all add: of_sources_def)
next
  case (go_up x r)
  show ?case
  proof (cases "Suc (ss ! x) \<in> C")
    case False
    then show ?thesis using go_up by (intro bexI [of _ "Suc x"]) (simp_all add: of_sources_def)
  qed (use go_up in blast)
qed

lemma arborescence_sources:
  assumes "length ss = n"
  shows "arborescence n (of_sources ss) \<longleftrightarrow> (\<forall>x \<in> set ss. x < n) \<and> (\<forall>x < n. \<exists>r. has_root ss x r)"
proof
  assume a: "arborescence n (of_sources ss)"
  have "ss ! x < n" if "x < n" for x using arborescence_arc [OF a, of "Suc x"] that by (auto simp: of_sources_def split: if_splits)
  then have "\<forall>x \<in> set ss. x < n" using assms by (auto simp: in_set_conv_nth)
  moreover have "\<forall>x < n. \<exists>r. has_root ss x r"
  proof (rule ccontr)
    let ?C = "{t \<in> {1..n}. \<not> (\<exists>r. has_root ss (t - 1) r)}"
    assume "\<not> (\<forall>x < n. \<exists>r. has_root ss x r)"
    then obtain x where "x < n" "\<not> (\<exists>r. has_root ss x r)" by blast
    then have "Suc x \<in> ?C" by simp
    then have "?C \<subseteq> {1..n}" "?C \<noteq> {}" by blast+
    then obtain t where t: "t \<in> ?C" "of_sources ss t \<notin> ?C" using a unfolding arborescence_def by meson
    have le: "of_sources ss t \<le> n" using arborescence_arc [OF a, of t] t(1) by simp
    show False
    proof (cases "ss ! (t - 1) = t - 1")
      case True
      then show ?thesis using t(1) has_root.is_root [of ss "t - 1"] by auto
    next
      case False
      then have "of_sources ss t = Suc (ss ! (t - 1))" by (simp add: of_sources_def)
      then have "\<exists>r. has_root ss (ss ! (t - 1)) r" using t(2) le by auto
      then show ?thesis using t(1) has_root.go_up [OF False] by auto
    qed
  qed
  ultimately show "(\<forall>x \<in> set ss. x < n) \<and> (\<forall>x < n. \<exists>r. has_root ss x r)" by blast
next
  assume a: "(\<forall>x \<in> set ss. x < n) \<and> (\<forall>x < n. \<exists>r. has_root ss x r)"
  have "of_sources ss t \<le> n" if "t \<in> {1..n}" for t
    using a that assms nth_mem [of "t - 1" ss] by (auto simp: of_sources_def Suc_le_eq)
  moreover have "\<exists>t \<in> C. of_sources ss t \<notin> C" if C: "C \<subseteq> {1..n}" "C \<noteq> {}" for C
  proof -
    obtain t where "t \<in> C" using C(2) by blast
    moreover from this have "1 \<le> t" "t \<le> n" using C(1) by auto
    ultimately have t: "Suc (t - 1) \<in> C" "t - 1 < n" "0 \<notin> C" using C(1) by auto
    then show ?thesis using a rooted_open [OF _ t(1,3)] by blast
  qed
  ultimately show "arborescence n (of_sources ss)" by (simp add: arborescence_def)
qed

text \<open>The digraph of a matrix of scores.\<close>

definition matrix_arcs :: "'s option list list \<Rightarrow> nat \<Rightarrow> nat \<Rightarrow> 's option" where
  "matrix_arcs scores a t = scores ! (t - 1) ! (if a = 0 then t - 1 else a - 1)"

definition tree_in :: "bool \<Rightarrow> 's option list list \<Rightarrow> nat \<Rightarrow> nat list \<Rightarrow> bool" where
  "tree_in forest scores n ss \<longleftrightarrow> length ss = n \<and> spanning forest ss \<and> (\<forall>t < n. scores ! t ! (ss ! t) \<noteq> None)"

definition tree_score :: "'s :: linordered_idom option list list \<Rightarrow> nat list \<Rightarrow> 's" where
  "tree_score scores ss = (\<Sum>t < length ss. the (scores ! t ! (ss ! t)))"

lemma matrix_of_sources: "t \<in> {1..n} \<Longrightarrow> matrix_arcs scores (of_sources ss t) t = scores ! (t - 1) ! (ss ! (t - 1))"
  by (simp add: matrix_arcs_def of_sources_def)

lemma shift_image: "{1..n} = Suc ` {..<n}"
  by (auto simp: image_iff Suc_le_eq gr0_conv_Suc)

lemma num_roots_sources: "num_roots n (of_sources ss) = card {x. x < n \<and> ss ! x = x}"
proof -
  have "{t \<in> {1..n}. of_sources ss t = 0} = Suc ` {x. x < n \<and> ss ! x = x}"
    unfolding shift_image by (auto simp: of_sources_def split: if_splits)
  then show ?thesis by (simp add: num_roots_def card_image)
qed

lemma tree_in_iff:
  "tree_in forest scores n ss \<longleftrightarrow> length ss = n \<and> arborescence n (of_sources ss) \<and> feasible n (matrix_arcs scores) (of_sources ss) \<and>
     (forest \<or> num_roots n (of_sources ss) = 1)"
proof (cases "length ss = n")
  case True
  have "feasible n (matrix_arcs scores) (of_sources ss) \<longleftrightarrow> (\<forall>t < n. scores ! t ! (ss ! t) \<noteq> None)"
    unfolding feasible_def shift_image using matrix_of_sources [of "Suc _" n scores ss] by auto
  then show ?thesis using True arborescence_sources [OF True] by (auto simp: tree_in_def spanning_def num_roots_sources)
qed (simp add: tree_in_def)

lemma tree_score_eq: "length ss = n \<Longrightarrow> tree_score scores ss = branching_score n (matrix_arcs scores) (of_sources ss)"
proof -
  assume l: "length ss = n"
  have "branching_score n (matrix_arcs scores) (of_sources ss) = (\<Sum>t \<in> {1..n}. the (scores ! (t - 1) ! (ss ! (t - 1))))"
    unfolding branching_score_def by (rule sum.cong [OF refl]) (simp only: matrix_of_sources)
  also have "\<dots> = (\<Sum>t < n. the (scores ! t ! (ss ! t)))" unfolding shift_image by (subst sum.reindex) simp_all
  finally show ?thesis using l by (simp add: tree_score_def)
qed

section \<open>The kernel\<close>

lemma score_at_eq:
  assumes "n \<le> length scores" and "\<forall>row \<in> set scores. n \<le> length row" and "target < n" and "source < n"
  shows "score_at scores target source = Some (scores ! target ! source)"
proof -
  have "source < length (scores ! target)" using assms nth_mem [of target scores] by fastforce
  then show ?thesis using assms by (simp add: score_at_def)
qed

lemma add_scores:
  assumes i: "ms_num_initial_nodes s = Suc n" and g: "digraph n (\<lambda>_ _. None) (ms_arcs s)"
    and sc: "n \<le> length scores" "\<forall>row \<in> set scores. n \<le> length row"
  shows "\<exists>arcs. foreach (add_score scores) (List.product [0..<n] [0..<n]) s = Some (s\<lparr>ms_arcs := arcs\<rparr>) \<and> digraph n (matrix_arcs scores) arcs"
proof -
  let ?w = "\<lambda>D a t. if (t - 1, if a = 0 then t - 1 else a - 1) \<in> D then matrix_arcs scores a t else None"
  let ?P = "\<lambda>D s'. \<exists>arcs. s' = s\<lparr>ms_arcs := arcs\<rparr> \<and> digraph n (?w D) arcs"
  have "\<exists>s'. foreach (add_score scores) (List.product [0..<n] [0..<n]) s = Some s' \<and> ?P ({} \<union> set (List.product [0..<n] [0..<n])) s'"
  proof (rule foreach_invariant)
    show "?P {} s" using g by (intro exI [of _ "ms_arcs s"]) simp
  next
    fix D i s' assume "i \<in> set (List.product [0..<n] [0..<n])" "?P D s'"
    then obtain target source arcs where p: "i = (target, source)" "target < n" "source < n" "s' = s\<lparr>ms_arcs := arcs\<rparr>" "digraph n (?w D) arcs" by auto
    have i': "ms_num_initial_nodes s' = Suc n" "digraph n (?w D) (ms_arcs s')" using i p by simp_all
    have at: "score_at scores target source = Some (scores ! target ! source)"
      by (rule score_at_eq [OF sc p(2,3)])
    show "\<exists>s''. add_score scores i s' = Some s'' \<and> ?P (insert i D) s''"
    proof (cases "scores ! target ! source")
      case None
      have "digraph n (?w (insert i D)) arcs" using None p(1)
        by (intro digraph_cong [OF _ p(5)]) (auto simp: matrix_arcs_def)
      moreover have "add_score scores i s' = Some s'" using at None p(1) by (simp add: add_score_def)
      ultimately show ?thesis using p(4) by blast
    next
      case (Some x)
      show ?thesis
      proof (cases "source = target")
        case True
        from mst_AddRoot_digraph [OF i'(2,1) p(2), of x] obtain arcs' where
          a: "mst_AddRoot target x s' = Some (s'\<lparr>ms_arcs := arcs'\<rparr>)" "digraph n (\<lambda>b u. if b = 0 \<and> u = Suc target then Some x else ?w D b u) arcs'" by blast
        have "digraph n (?w (insert i D)) arcs'" using Some True p(1) by (intro digraph_cong [OF _ a(2)]) (auto simp: matrix_arcs_def)
        moreover have "add_score scores i s' = Some (s\<lparr>ms_arcs := arcs'\<rparr>)" using a(1) at Some True p(1,4) by (simp add: add_score_def)
        ultimately show ?thesis by blast
      next
        case False
        from mst_AddArc_digraph [OF i'(2,1) p(3,2) False, of x] obtain arcs' where
          a: "mst_AddArc source target x s' = Some (s'\<lparr>ms_arcs := arcs'\<rparr>)"
             "digraph n (\<lambda>b u. if b = Suc source \<and> u = Suc target then Some x else ?w D b u) arcs'" by blast
        have "digraph n (?w (insert i D)) arcs'" using Some False p(1) by (intro digraph_cong [OF _ a(2)]) (auto simp: matrix_arcs_def)
        moreover have "add_score scores i s' = Some (s\<lparr>ms_arcs := arcs'\<rparr>)" using a(1) at Some False p(1,4) by (simp add: add_score_def)
        ultimately show ?thesis by blast
      qed
    qed
  qed
  then obtain arcs where "foreach (add_score scores) (List.product [0..<n] [0..<n]) s = Some (s\<lparr>ms_arcs := arcs\<rparr>)"
    and d: "digraph n (?w (set (List.product [0..<n] [0..<n]))) arcs" by auto
  moreover have "digraph n (matrix_arcs scores) arcs" by (rule digraph_cong [OF _ d]) (auto simp: less_eq_Suc_le)
  ultimately show ?thesis by blast
qed

lemma sum_sources:
  assumes "\<forall>t < n. scores ! t ! (ss ! t) \<noteq> None" and "n \<le> length ss" and "\<forall>x \<in> set ss. x < n"
    and sc: "n \<le> length scores" "\<forall>row \<in> set scores. n \<le> length row"
  shows "k \<le> n \<Longrightarrow> foreach (exact_sum_source scores ss) [0..<k] 0 = Some (\<Sum>t < k. the (scores ! t ! (ss ! t)))"
proof (induction k)
  case (Suc k)
  then have k: "k < length scores" "k < length ss" "k < n" using assms(2) sc(1) by auto
  then have x: "ss ! k < n" using assms(3) by simp
  then have "score_at scores k (ss ! k) = Some (scores ! k ! (ss ! k))" using score_at_eq [OF sc k(3)] by simp
  then have "exact_sum_source scores ss k y = Some (y + the (scores ! k ! (ss ! k)))" for y
    using assms(1) k by (auto simp: exact_sum_source_def)
  then show ?case using Suc by (simp add: foreach_append)
qed simp

lemma RunSolver_tree:
  fixes scores :: "'s :: linordered_idom option list list"
  assumes n: "1 \<le> n" "n \<le> input_dim" "2 * n < 65535" and sc: "length scores = input_dim" "\<forall>row \<in> set scores. length row = input_dim"
  shows "(\<exists>ss. exact_RunSolver forest (int n) input_dim scores = Some (Inr (tree_score scores ss, map int ss @ replicate (input_dim - n) (- 1))) \<and>
       tree_in forest scores n ss \<and> (\<forall>ss'. tree_in forest scores n ss' \<longrightarrow> tree_score scores ss' \<le> tree_score scores ss)) \<or>
     exact_RunSolver forest (int n) input_dim scores = Some (Inl FailedPrecondition) \<and> (\<forall>ss. \<not> tree_in forest scores n ss)"
proof -
  have sc': "n \<le> length scores" "\<forall>row \<in> set scores. n \<le> length row" using n(2) sc by auto
  obtain s0 :: "'s mst_solver" where s0: "mst_Init 65535 forest n new_MstSolver = Some (Inr s0)" "fresh n s0" "ms_forest s0 = forest" "digraph n (\<lambda>_ _. None) (ms_arcs s0)"
    using mst_Init_fresh [OF n(1,3)] by blast
  obtain arcs where a: "foreach (add_score scores) (List.product [0..<n] [0..<n]) s0 = Some (s0\<lparr>ms_arcs := arcs\<rparr>)" "digraph n (matrix_arcs scores) arcs"
    using add_scores [OF _ s0(4) sc'] s0(2) by (auto simp: fresh_def)
  let ?s = "s0\<lparr>ms_arcs := arcs\<rparr>" let ?w = "matrix_arcs scores"
  have "nat (int n mod 65536) = n" using n(3) by (simp add: nat_mod_distrib)
  then have run: "exact_RunSolver forest (int n) input_dim scores = exact_Solve 65535 (replicate n 0) ?s \<bind> (\<lambda>r.
      case r of Inl e \<Rightarrow> Some (Inl e)
      | Inr (argmax, _) \<Rightarrow> do {
          max_score \<leftarrow> foreach (exact_sum_source scores argmax) [0..<n] 0;
          Some (Inr (max_score, map int (take n argmax) @ replicate (input_dim - n) (-1))) })"
    using n s0(1) a(1) by (simp add: exact_RunSolver_def Let_def check_def)
  have s: "fresh n ?s" "digraph n ?w (ms_arcs ?s)" "ms_forest ?s = forest" using s0 a(2) by simp_all
  have "n \<le> length (replicate n (0 :: nat))" by simp
  note cases = Solve_correct [OF n(1) s(1,2) n(3) this]
  show ?thesis
  proof (rule disjE [OF cases])
    assume "\<exists>f s'. exact_Solve 65535 (replicate n 0) ?s = Some (Inr (to_sources n f @ drop n (replicate n 0), s')) \<and>
       arborescence n f \<and> feasible n ?w f \<and> (ms_forest ?s \<or> num_roots n f = 1) \<and>
       (\<forall>g. arborescence n g \<longrightarrow> feasible n ?w g \<longrightarrow> (ms_forest ?s \<or> num_roots n g = 1) \<longrightarrow> branching_score n ?w g \<le> branching_score n ?w f)"
    then obtain f s' where solve: "exact_Solve 65535 (replicate n 0) ?s = Some (Inr (to_sources n f @ drop n (replicate n 0), s'))"
      and f: "arborescence n f" "feasible n ?w f" "ms_forest ?s \<or> num_roots n f = 1"
      and best: "\<forall>g. arborescence n g \<longrightarrow> feasible n ?w g \<longrightarrow> (ms_forest ?s \<or> num_roots n g = 1) \<longrightarrow> branching_score n ?w g \<le> branching_score n ?w f" by blast
    let ?ss = "to_sources n f"
    have same: "f t = of_sources ?ss t" if "t \<in> {1..n}" for t using of_to_sources [OF f(1) that] by simp
    have tree: "tree_in forest scores n ?ss" unfolding tree_in_iff
      using arborescence_cong [OF same f(1)] f(2,3) s(3) feasible_cong [of n f "of_sources ?ss" ?w, OF same] num_roots_cong [of n f "of_sources ?ss", OF same] by simp
    have score: "tree_score scores ?ss = branching_score n ?w f" using branching_score_cong [of n f "of_sources ?ss" ?w, OF same] by (simp add: tree_score_eq)
    have opt: "tree_score scores ss' \<le> tree_score scores ?ss" if "tree_in forest scores n ss'" for ss'
      using best that s(3) unfolding score by (auto simp: tree_in_iff tree_score_eq)
    have ss: "\<forall>t < n. scores ! t ! (?ss ! t) \<noteq> None" "\<forall>x \<in> set ?ss. x < n" using tree by (auto simp: tree_in_def spanning_def)
    have "foreach (exact_sum_source scores ?ss) [0..<n] 0 = Some (tree_score scores ?ss)"
      using sum_sources [OF ss(1) _ ss(2) sc', of n] by (simp add: tree_score_def)
    then show ?thesis using run solve tree opt by auto
  next
    assume no: "exact_Solve 65535 (replicate n 0) ?s = Some (Inl FailedPrecondition) \<and>
      (\<forall>f. \<not> (arborescence n f \<and> feasible n ?w f \<and> (ms_forest ?s \<or> num_roots n f = 1)))"
    then show ?thesis using run s(3) by (auto simp: tree_in_iff)
  qed
qed

end
