(* ===== verification/Mst_Machine.thy ===== *)
theory Mst_Machine
  imports Mst_Correctness
begin

text \<open>
  The solver in the arithmetic of its score type. As long as the scores leave room for the root penalty, no operation rounds, overflows or leaves the
  limits of the type, so that the solver computes what the reference in exact arithmetic does; then come the properties of the
  kernel. The argument: after the penalty all scores of a column are within \<open>reserve n M\<close> of each other, and contracting a
  cycle subtracts from every arc the largest score of its column, so that the scores of contracted nodes lie between
  \<open>- reserve n M\<close> and 0. The room is there for \<^verbatim>\<open>int32\<close> scores with \<open>reserve n M \<le> 2 ^ 31 - 1\<close>, and for \<^verbatim>\<open>float\<close> and
  \<^verbatim>\<open>double\<close> scores that are multiples of \<open>2 ^ - k\<close> with \<open>reserve n M\<close> up to \<open>2 ^ (24 - k)\<close> or \<open>2 ^ (53 - k)\<close>.
\<close>

section \<open>Simulations\<close>

lemma foreach_sim:
  assumes "\<And>x s s'. x \<in> set xs \<Longrightarrow> I s \<Longrightarrow> g x s = Some s' \<Longrightarrow> f x s = Some s' \<and> I s'"
  shows "I s \<Longrightarrow> foreach g xs s = Some s' \<Longrightarrow> foreach f xs s = Some s' \<and> I s'"
  using assms
proof (induction xs arbitrary: s)
  case (Cons x xs)
  obtain s1 where s1: "g x s = Some s1" "foreach g xs s1 = Some s'" using Cons.prems(2) by (auto split: bind_splits)
  have "f x s = Some s1" "I s1" using Cons.prems(3) [of x s s1] Cons.prems(1) s1(1) by auto
  then show ?case using Cons.IH [of s1] Cons.prems(3) s1(2) by auto
qed simp

lemma foreach_sim_distinct:
  assumes "\<And>D x s s'. x \<in> set xs \<Longrightarrow> x \<notin> D \<Longrightarrow> I D s \<Longrightarrow> g x s = Some s' \<Longrightarrow> f x s = Some s' \<and> I (insert x D) s'"
  shows "distinct xs \<Longrightarrow> set xs \<inter> D = {} \<Longrightarrow> I D s \<Longrightarrow> foreach g xs s = Some s' \<Longrightarrow> foreach f xs s = Some s' \<and> I (D \<union> set xs) s'"
  using assms
proof (induction xs arbitrary: s D)
  case (Cons x xs)
  obtain s1 where s1: "g x s = Some s1" "foreach g xs s1 = Some s'" using Cons.prems(4) by (auto split: bind_splits)
  have "f x s = Some s1" "I (insert x D) s1" using Cons.prems(5) [of x D s s1] Cons.prems(2,3) s1(1) by auto
  moreover have "distinct xs" "set xs \<inter> insert x D = {}" using Cons.prems(1,2) by auto
  ultimately show ?case using Cons.IH [of "insert x D" s1] Cons.prems(5) s1(2) by auto
qed simp

section \<open>Room for the scores\<close>

text \<open>The operations of a score type are exact on the values of an additive group up to a bound.\<close>

definition exact_within :: "'s :: linordered_idom score_type \<Rightarrow> 's set \<Rightarrow> 's \<Rightarrow> bool" where
  "exact_within st G B \<longleftrightarrow> (\<forall>x \<in> G. \<bar>x\<bar> \<le> B \<longrightarrow> st_round st x = x) \<and> 1 \<in> G \<and> (\<forall>x \<in> G. \<forall>y \<in> G. x - y \<in> G) \<and>
     st_lowest st \<le> - B \<and> B \<le> st_highest st"

definition scores_within :: "'s :: linordered_idom set \<Rightarrow> 's \<Rightarrow> 's option list list \<Rightarrow> bool" where
  "scores_within G M scores \<longleftrightarrow> (\<forall>row \<in> set scores. \<forall>x. Some x \<in> set row \<longrightarrow> x \<in> G \<and> \<bar>x\<bar> \<le> M)"

text \<open>The scores in every column are in the group and differ by at most \<open>R\<close>; the chosen arc of a column has its largest score.\<close>

definition bounded_arcs :: "nat \<Rightarrow> 's :: linordered_idom set \<Rightarrow> 's \<Rightarrow> nat \<Rightarrow> 's mst_arc list \<Rightarrow> bool" where
  "bounded_arcs n G R N arcs \<longleftrightarrow> length arcs = Suc n * N \<and> (\<forall>v < N. \<forall>a \<le> n. arc_Exists (col n arcs v a) \<longrightarrow>
     arc_score (col n arcs v a) \<in> G \<and> \<bar>arc_score (col n arcs v a)\<bar> \<le> R \<and>
     (\<forall>b \<le> n. arc_Exists (col n arcs v b) \<longrightarrow> arc_score (col n arcs v a) - arc_score (col n arcs v b) \<le> R))"

definition best_chosen :: "nat \<Rightarrow> nat \<Rightarrow> 's :: linordered_idom mst_arc list \<Rightarrow> nat option list \<Rightarrow> bool" where
  "best_chosen n N arcs argmax \<longleftrightarrow> (\<forall>v < length argmax. \<forall>i. argmax ! v = Some i \<longrightarrow> v < N \<and>
     (\<exists>a \<le> n. i = a + v * Suc n \<and> arc_Exists (col n arcs v a) \<and>
       (\<forall>b \<le> n. arc_Exists (col n arcs v b) \<longrightarrow> arc_score (col n arcs v b) \<le> arc_score (col n arcs v a))))"

definition roomy :: "nat \<Rightarrow> 's :: linordered_idom set \<Rightarrow> 's \<Rightarrow> 's mst_solver \<Rightarrow> bool" where
  "roomy n G R s \<longleftrightarrow> ms_num_initial_nodes s = Suc n \<and> bounded_arcs n G R (ms_num_current_nodes s) (ms_arcs s) \<and>
     best_chosen n (ms_num_current_nodes s) (ms_arcs s) (ms_argmax_arcs s)"

lemma bounded_arcsD:
  assumes "bounded_arcs n G R N arcs" and "v < N" and "a \<le> n" and "arc_Exists (col n arcs v a)"
  shows "arc_score (col n arcs v a) \<in> G" and "\<bar>arc_score (col n arcs v a)\<bar> \<le> R"
    and "b \<le> n \<Longrightarrow> arc_Exists (col n arcs v b) \<Longrightarrow> arc_score (col n arcs v a) - arc_score (col n arcs v b) \<le> R"
  using assms unfolding bounded_arcs_def by blast+

lemma length_cycle: "\<lbrakk>vec_at xs (int v) = Some p\<rbrakk> \<Longrightarrow> v < length xs \<and> xs ! v = p"
  by (auto simp: vec_at_def split: if_splits)

lemma vec_set_nth: "vec_set xs (int i) x = Some ys \<Longrightarrow> i < length xs \<and> ys = xs[i := x]"
  by (auto simp: vec_set_def split: if_splits)

text \<open>The first pass through a cycle collects chosen arcs and changes neither arcs nor choices.\<close>

definition only_chosen :: "(nat \<times> nat) list \<Rightarrow> 's mst_solver \<Rightarrow> (nat \<times> nat) list \<times> 's mst_solver \<Rightarrow> bool" where
  "only_chosen acc s r \<longleftrightarrow> ms_arcs (snd r) = ms_arcs s \<and> ms_argmax_arcs (snd r) = ms_argmax_arcs s \<and>
     ms_num_initial_nodes (snd r) = ms_num_initial_nodes s \<and> ms_num_current_nodes (snd r) = ms_num_current_nodes s \<and>
     (\<forall>(u, i) \<in> set (fst r) - set acc. u < length (ms_argmax_arcs s) \<and> ms_argmax_arcs s ! u = Some i)"

lemma cycle_loop_chosen: "cycle_loop c v acc s = Some r \<Longrightarrow> only_chosen acc s r"
proof (rule cycle_loop.raw_induct [of "\<lambda>c v. only_chosen"])
  fix loop :: "nat \<Rightarrow> nat \<Rightarrow> (nat \<times> nat) list \<Rightarrow> 'a mst_solver \<Rightarrow> ((nat \<times> nat) list \<times> 'a mst_solver) option" and c v acc s r
  assume IH: "\<And>c v acc s r. loop c v acc s = Some r \<Longrightarrow> only_chosen acc s r"
    and r: "(do {
     p \<leftarrow> vec_at (ms_argmax_arcs s) (int v);
     i \<leftarrow> p;
     cycle_arc \<leftarrow> vec_at (ms_arcs s) (int i);
     let cycle = acc @ [(v, i)];
     strong \<leftarrow> Union True (arc_source cycle_arc) (arc_target cycle_arc) (ms_strong_components s);
     (next_node, contracted) \<leftarrow> FindRoot (arc_source cycle_arc) (ms_contracted_nodes s);
     contracted \<leftarrow> UnionOfRoots False v c contracted;
     into \<leftarrow> vec_set (ms_contracted_into s) (int v) c;
     let s = s\<lparr>ms_strong_components := strong, ms_contracted_nodes := contracted, ms_contracted_into := into\<rparr>;
     if next_node \<noteq> c then loop c next_node cycle s else Some (cycle, s) }) = Some r"
  then obtain p i strong u contracted into where e: "vec_at (ms_argmax_arcs s) (int v) = Some p" "p = Some i"
    and q: "(let s' = s\<lparr>ms_strong_components := strong, ms_contracted_nodes := contracted, ms_contracted_into := into\<rparr>
         in if u \<noteq> c then loop c u (acc @ [(v, i)]) s' else Some (acc @ [(v, i)], s')) = Some r"
    by (auto simp: bind_eq_Some_conv Let_def)
  have v: "v < length (ms_argmax_arcs s)" "ms_argmax_arcs s ! v = Some i" using length_cycle [OF e(1)] e(2) by auto
  show "only_chosen acc s r"
  proof (cases "u = c")
    case True
    then show ?thesis using q v by (auto simp: Let_def only_chosen_def)
  next
    case False
    then have "only_chosen (acc @ [(v, i)]) (s\<lparr>ms_strong_components := strong, ms_contracted_nodes := contracted, ms_contracted_into := into\<rparr>) r"
      using q IH by (simp add: Let_def)
    then show ?thesis using v by (auto simp: only_chosen_def)
  qed
qed

text \<open>While arcs are merged into column \<open>c\<close>, the other columns stay and the new scores lie between \<open>- R\<close> and 0.\<close>

definition merging :: "nat \<Rightarrow> 's :: linordered_idom set \<Rightarrow> 's \<Rightarrow> nat \<Rightarrow> 's mst_arc list \<Rightarrow> 's mst_arc list \<Rightarrow> bool" where
  "merging n G R c arcs0 arcs \<longleftrightarrow> length arcs = length arcs0 \<and> (\<forall>u a. u \<noteq> c \<longrightarrow> a \<le> n \<longrightarrow> col n arcs u a = col n arcs0 u a) \<and>
     (\<forall>a \<le> n. arc_Exists (col n arcs c a) \<longrightarrow> arc_score (col n arcs c a) \<in> G \<and> - R \<le> arc_score (col n arcs c a) \<and> arc_score (col n arcs c a) \<le> 0)"

text \<open>The room that scores up to \<open>M\<close> need.\<close>

definition reserve :: "nat \<Rightarrow> 's :: linordered_idom \<Rightarrow> 's" where
  "reserve n M = 1 + 2 * of_nat (n + 2) * M"

definition fresh_within :: "nat \<Rightarrow> 's :: linordered_idom set \<Rightarrow> 's \<Rightarrow> 's mst_solver \<Rightarrow> bool" where
  "fresh_within n G M s \<longleftrightarrow> ms_num_initial_nodes s = Suc n \<and> ms_num_current_nodes s = Suc n \<and> length (ms_arcs s) = Suc n * Suc n \<and>
     (\<forall>arc \<in> set (ms_arcs s). arc_Exists arc \<longrightarrow> arc_score arc \<in> G \<and> \<bar>arc_score arc\<bar> \<le> M) \<and> (\<forall>v < length (ms_argmax_arcs s). ms_argmax_arcs s ! v = None)"

definition penalizing :: "nat \<Rightarrow> 's :: linordered_idom \<Rightarrow> 's mst_arc list \<Rightarrow> nat set \<Rightarrow> 's mst_arc list \<Rightarrow> bool" where
  "penalizing n P arcs0 D arcs \<longleftrightarrow> length arcs = length arcs0 \<and> (\<forall>t \<le> n. \<forall>a \<le> n. col n arcs t a =
     (if a = 0 \<and> t \<in> D \<and> arc_Exists (col n arcs0 t 0) then (col n arcs0 t 0)\<lparr>arc_score := arc_score (col n arcs0 t 0) - P\<rparr> else col n arcs0 t a))"

section \<open>The solver agrees with the reference\<close>

locale machine_scores =
  fixes st :: "'s :: linordered_idom score_type" and G :: "'s set" and B :: 's
  assumes within: "exact_within st G B"
begin

lemma exact: "x \<in> G \<Longrightarrow> \<bar>x\<bar> \<le> B \<Longrightarrow> st_round st x = x"
  and one_in: "1 \<in> G" and diff_in: "x \<in> G \<Longrightarrow> y \<in> G \<Longrightarrow> x - y \<in> G"
  and limits: "st_lowest st \<le> - B" "B \<le> st_highest st"
  using within by (auto simp: exact_within_def)

lemma zero_in: "0 \<in> G"
  using diff_in [OF one_in one_in] by simp

lemma neg_in: "x \<in> G \<Longrightarrow> - x \<in> G"
  using diff_in [OF zero_in] by fastforce

lemma add_in: "x \<in> G \<Longrightarrow> y \<in> G \<Longrightarrow> x + y \<in> G"
  using diff_in [OF _ neg_in] by fastforce

lemma times_in: "x \<in> G \<Longrightarrow> of_nat k * x \<in> G"
  by (induction k) (simp_all add: zero_in add_in algebra_simps)

lemma max_inbound_sim:
  assumes "\<forall>i \<in> set is. i < length arcs \<and> arc_Exists (arcs ! i) \<longrightarrow> \<bar>arc_score (arcs ! i)\<bar> \<le> B"
  shows "max_inbound_loop arcs is (case best of None \<Rightarrow> (st_lowest st, None) | Some (x, i) \<Rightarrow> (x, Some i)) = exact_max_inbound_loop arcs is best"
  using assms
proof (induction "is" arbitrary: best)
  case Nil
  then show ?case by (auto split: option.splits)
next
  case (Cons i "is")
  note IH = Cons.IH [of best] Cons.IH [of "Some (arc_score (arcs ! i), i)"]
  have low: "st_lowest st \<le> arc_score (arcs ! i)" if "i < length arcs" "arc_Exists (arcs ! i)"
    using Cons.prems that limits(1) by (fastforce simp: abs_le_iff)
  show ?case
  proof (cases "i < length arcs")
    case True
    then show ?thesis using IH Cons.prems low by (auto split: option.splits)
  next
    case False
    then show ?thesis by (auto simp: vec_at_def split: option.splits)
  qed
qed

lemma MaximumInboundArc_sim:
  assumes "roomy n G R s" and "R \<le> B" and "v < ms_num_current_nodes s"
  shows "MaximumInboundArc st v s = exact_MaximumInboundArc v s"
proof -
  have s: "ms_num_initial_nodes s = Suc n" "bounded_arcs n G R (ms_num_current_nodes s) (ms_arcs s)" using assms(1) by (auto simp: roomy_def)
  have "\<bar>arc_score (ms_arcs s ! i)\<bar> \<le> B" if "i \<in> set [v * Suc n..<v * Suc n + Suc n]" "arc_Exists (ms_arcs s ! i)" for i
  proof -
    have "i = (i - v * Suc n) + v * Suc n" "i - v * Suc n \<le> n" using that(1) by auto
    then have "ms_arcs s ! i = col n (ms_arcs s) v (i - v * Suc n)" unfolding col_def by metis
    then show ?thesis using bounded_arcsD(2) [OF s(2) assms(3) \<open>i - v * Suc n \<le> n\<close>] that(2) assms(2) by (metis order_trans)
  qed
  then show ?thesis using max_inbound_sim [of "[v * Suc n..<v * Suc n + Suc n]" "ms_arcs s" None] s(1)
    by (simp add: MaximumInboundArc_def exact_MaximumInboundArc_def ArcIndex_def del: upt_Suc)
qed

lemma merge_arc_agree:
  "(i < length arcs \<Longrightarrow> arc_Exists (arcs ! i) \<Longrightarrow> st_round st (arc_score (arcs ! i) + offset) = arc_score (arcs ! i) + offset) \<Longrightarrow>
   merge_arc st offset (i, j) (arcs, strong) = exact_merge_arc offset (i, j) (arcs, strong)"
  by (cases "i < length arcs") (auto simp: merge_arc_def exact_merge_arc_def vec_at_def Let_def split: bind_splits)

lemma exact_merge_arc_result:
  "exact_merge_arc offset (i, j) (arcs, strong) = Some r \<Longrightarrow> i < length arcs \<and> (fst r = arcs \<or>
     (\<exists>x. fst r = arcs[j := x] \<and> arc_score x = arc_score (arcs ! i) + offset \<and> j < length arcs \<and> arc_Exists (arcs ! i)))"
  by (auto simp: exact_merge_arc_def Let_def bind_eq_Some_conv split: if_splits dest!: vec_set_nth length_cycle)

lemma merge_arc_sim:
  assumes m: "merging n G R c arcs0 arcs" and c: "v \<noteq> c" "k \<le> n" and R: "R \<le> B" "0 \<le> R"
    and off: "arc_Exists (col n arcs0 v k) \<Longrightarrow> arc_score (col n arcs0 v k) + offset \<in> G \<and> - R \<le> arc_score (col n arcs0 v k) + offset \<and> arc_score (col n arcs0 v k) + offset \<le> 0"
    and e: "exact_merge_arc offset (k + v * Suc n, k + c * Suc n) (arcs, strong) = Some r"
  shows "merge_arc st offset (k + v * Suc n, k + c * Suc n) (arcs, strong) = Some r \<and> merging n G R c arcs0 (fst r)"
proof -
  let ?i = "k + v * Suc n" and ?j = "k + c * Suc n"
  note res = exact_merge_arc_result [OF e]
  have arc: "arcs ! ?i = col n arcs0 v k" using m c by (simp add: merging_def col_def)
  have "st_round st (arc_score (arcs ! ?i) + offset) = arc_score (arcs ! ?i) + offset" if "arc_Exists (arcs ! ?i)"
    using off that R unfolding arc by (intro exact) auto
  then have same: "merge_arc st offset (?i, ?j) (arcs, strong) = exact_merge_arc offset (?i, ?j) (arcs, strong)"
    by (intro merge_arc_agree)
  have "fst r = arcs \<or> (\<exists>x. fst r = arcs[?j := x] \<and> arc_score x = arc_score (col n arcs0 v k) + offset \<and> ?j < length arcs \<and> arc_Exists (col n arcs0 v k))"
    using res unfolding arc by blast
  then have "merging n G R c arcs0 (fst r)"
  proof (elim disjE exE conjE)
    fix x assume x: "fst r = arcs[?j := x]" "arc_score x = arc_score (col n arcs0 v k) + offset" "?j < length arcs" "arc_Exists (col n arcs0 v k)"
    have ix: "a + u * Suc n = ?j \<longleftrightarrow> a = k \<and> u = c" if "a \<le> n" for a u using column_index [OF that c(2)] by simp
    have "col n (fst r) u a = (if u = c \<and> a = k then x else col n arcs u a)" if "a \<le> n" for u a
      using ix [OF that, of u] x(1,3) by (auto simp: col_def)
    then show ?thesis using m x(1,2) off [OF x(4)] unfolding merging_def by auto
  qed (use m in simp)
  then show ?thesis using same e by simp
qed

lemma MergeInboundArcs_sim:
  assumes m: "merging n G R c arcs0 (ms_arcs s)" and c: "v \<noteq> c" and R: "R \<le> B" "0 \<le> R" and s: "ms_num_initial_nodes s = Suc n"
    and off: "\<And>k. k \<le> n \<Longrightarrow> arc_Exists (col n arcs0 v k) \<Longrightarrow>
      arc_score (col n arcs0 v k) + offset \<in> G \<and> - R \<le> arc_score (col n arcs0 v k) + offset \<and> arc_score (col n arcs0 v k) + offset \<le> 0"
    and e: "exact_MergeInboundArcs v offset c s = Some s'"
  shows "MergeInboundArcs st v offset c s = Some s' \<and> merging n G R c arcs0 (ms_arcs s') \<and> (\<exists>arcs strong. s' = s\<lparr>ms_arcs := arcs, ms_strong_components := strong\<rparr>)"
proof -
  let ?ps = "map (\<lambda>k. (ArcIndex 0 v s + k, ArcIndex 0 c s + k)) [0..<Suc n]"
  obtain arcs strong where f: "foreach (exact_merge_arc offset) ?ps (ms_arcs s, ms_strong_components s) = Some (arcs, strong)"
    and s': "s' = s\<lparr>ms_arcs := arcs, ms_strong_components := strong\<rparr>"
    using e s by (auto simp: exact_MergeInboundArcs_def bind_eq_Some_conv simp del: upt_Suc)
  have "foreach (merge_arc st offset) ?ps (ms_arcs s, ms_strong_components s) = Some (arcs, strong) \<and> merging n G R c arcs0 (fst (arcs, strong))"
  proof (rule foreach_sim [where I = "\<lambda>p. merging n G R c arcs0 (fst p)", OF _ _ f])
    fix x p p' assume "x \<in> set ?ps" "merging n G R c arcs0 (fst p)" "exact_merge_arc offset x p = Some p'"
    then obtain k where "k \<le> n" "x = (k + v * Suc n, k + c * Suc n)" using s by (auto simp: ArcIndex_def less_Suc_eq_le add.commute simp del: upt_Suc mult_Suc_right)
    then show "merge_arc st offset x p = Some p' \<and> merging n G R c arcs0 (fst p')"
      using merge_arc_sim [OF _ c _ R off, of "fst p" k "snd p" p'] \<open>merging n G R c arcs0 (fst p)\<close> \<open>exact_merge_arc offset x p = Some p'\<close> by simp
  qed (use m in simp)
  then show ?thesis using s' s by (auto simp: MergeInboundArcs_def simp del: upt_Suc)
qed

lemma merging_bounded:
  assumes m: "merging n G R c arcs0 arcs" and N: "length arcs0 = Suc n * Suc c"
    and cols: "\<forall>v < c. \<forall>a \<le> n. arc_Exists (col n arcs0 v a) \<longrightarrow> arc_score (col n arcs0 v a) \<in> G \<and> \<bar>arc_score (col n arcs0 v a)\<bar> \<le> R \<and>
      (\<forall>b \<le> n. arc_Exists (col n arcs0 v b) \<longrightarrow> arc_score (col n arcs0 v a) - arc_score (col n arcs0 v b) \<le> R)"
  shows "bounded_arcs n G R (Suc c) arcs"
  unfolding bounded_arcs_def
proof (intro conjI allI impI)
  show "length arcs = Suc n * Suc c" using m N by (simp add: merging_def)
  fix v a assume v: "v < Suc c" and a: "a \<le> n" "arc_Exists (col n arcs v a)"
  note d = m [unfolded merging_def]
  have old: "col n arcs v b = col n arcs0 v b" "v < c" if "v \<noteq> c" "b \<le> n" for b using d that v by auto
  have new: "arc_score (col n arcs c b) \<in> G" "- R \<le> arc_score (col n arcs c b)" "arc_score (col n arcs c b) \<le> 0"
    if "b \<le> n" "arc_Exists (col n arcs c b)" for b using d that by auto
  show "arc_score (col n arcs v a) \<in> G" by (cases "v = c") (use new(1) a old cols in auto)
  show "\<bar>arc_score (col n arcs v a)\<bar> \<le> R" by (cases "v = c") (use new(2,3) [of a] a old cols in auto)
  fix b assume "b \<le> n" "arc_Exists (col n arcs v b)"
  then show "arc_score (col n arcs v a) - arc_score (col n arcs v b) \<le> R"
    by (cases "v = c") (use new(2) [of b] new(3) [of a] a old cols in auto)
qed

lemma ContractCycle_sim:
  assumes s: "roomy n G R s" and R: "R \<le> B" "0 \<le> R" and e: "exact_ContractCycle v s = Some s'"
  shows "ContractCycle st v s = Some s' \<and> roomy n G R s'"
proof -
  let ?c = "ms_num_current_nodes s"
  let ?s1 = "s\<lparr>ms_num_current_nodes := ?c + 1, ms_arcs := ms_arcs s @ replicate (Suc n) null_arc\<rparr>"
  have d: "ms_num_initial_nodes s = Suc n" "bounded_arcs n G R ?c (ms_arcs s)" "best_chosen n ?c (ms_arcs s) (ms_argmax_arcs s)"
    using s by (auto simp: roomy_def)
  obtain cycle s2 where cap: "length (ms_arcs s) + Suc n \<le> Suc n * ms_num_possible_nodes s"
    and loop: "cycle_loop ?c v [] ?s1 = Some (cycle, s2)"
    and merge: "foreach (\<lambda>(cycle_node, i) s. do { arc \<leftarrow> vec_at (ms_arcs s) (int i); exact_MergeInboundArcs cycle_node (- arc_score arc) ?c s }) cycle s2 = Some s'"
    using e d(1) by (auto simp: exact_ContractCycle_def bind_eq_Some_conv check_def Let_def split: if_splits)
  let ?arcs0 = "ms_arcs ?s1"
  have len: "length (ms_arcs s) = Suc n * ?c" using d(2) by (simp add: bounded_arcs_def)
  have old: "col n ?arcs0 u a = col n (ms_arcs s) u a" if "u < ?c" "a \<le> n" for u a
    using column_bound [OF that(2,1)] len by (simp add: col_def nth_append)
  have new: "col n ?arcs0 ?c a = null_arc" if "a \<le> n" for a
    using that len by (simp add: col_def nth_append del: replicate_Suc)
  note ch = cycle_loop_chosen [OF loop, unfolded only_chosen_def, simplified]
  let ?I = "\<lambda>t. merging n G R ?c ?arcs0 (ms_arcs t) \<and> ms_num_initial_nodes t = Suc n \<and> ms_argmax_arcs t = ms_argmax_arcs s \<and> ms_num_current_nodes t = Suc ?c"
  have start: "?I s2" using ch d(1) new by (simp add: merging_def arc_Exists_def null_arc_def)
  have "foreach (\<lambda>(cycle_node, i) s. do { arc \<leftarrow> vec_at (ms_arcs s) (int i); MergeInboundArcs st cycle_node (st_round st (- arc_score arc)) ?c s }) cycle s2 = Some s' \<and> ?I s'"
  proof (rule foreach_sim [where I = ?I, OF _ start merge])
    fix x t t' assume x: "x \<in> set cycle" and t: "?I t"
      and step: "(case x of (cycle_node, i) \<Rightarrow> \<lambda>s. do { arc \<leftarrow> vec_at (ms_arcs s) (int i); exact_MergeInboundArcs cycle_node (- arc_score arc) ?c s }) t = Some t'"
    obtain u i where ui: "x = (u, i)" by fastforce
    then have "u < length (ms_argmax_arcs s)" "ms_argmax_arcs s ! u = Some i" using ch x by auto
    then obtain a where u: "u < ?c" and a: "a \<le> n" "i = a + u * Suc n" "arc_Exists (col n (ms_arcs s) u a)"
      and best: "\<forall>b \<le> n. arc_Exists (col n (ms_arcs s) u b) \<longrightarrow> arc_score (col n (ms_arcs s) u b) \<le> arc_score (col n (ms_arcs s) u a)"
      using d(3) unfolding best_chosen_def by blast
    let ?m = "arc_score (col n (ms_arcs s) u a)"
    obtain arc where arc: "vec_at (ms_arcs t) (int i) = Some arc" "exact_MergeInboundArcs u (- arc_score arc) ?c t = Some t'"
      using step ui by (auto simp: bind_eq_Some_conv)
    have "arc = col n (ms_arcs t) u a" using length_cycle [OF arc(1)] a(2) by (simp add: col_def)
    then have m: "arc_score arc = ?m" using t u old [OF u a(1)] a(1) by (simp add: merging_def)
    have "st_round st (- ?m) = - ?m" using bounded_arcsD(1,2) [OF d(2) u a(1,3)] R by (intro exact neg_in) auto
    moreover have "arc_score (col n ?arcs0 u k) + - ?m \<in> G \<and> - R \<le> arc_score (col n ?arcs0 u k) + - ?m \<and> arc_score (col n ?arcs0 u k) + - ?m \<le> 0"
      if "k \<le> n" "arc_Exists (col n ?arcs0 u k)" for k
    proof -
      have k: "arc_Exists (col n (ms_arcs s) u k)" using that old [OF u] by simp
      show ?thesis using old [OF u that(1)] best that(1) k bounded_arcsD(1) [OF d(2) u that(1) k] bounded_arcsD(1) [OF d(2) u a(1,3)]
          bounded_arcsD(3) [OF d(2) u a(1,3) that(1) k] diff_in by simp
    qed
    ultimately show "(case x of (cycle_node, i) \<Rightarrow> \<lambda>s. do { arc \<leftarrow> vec_at (ms_arcs s) (int i); MergeInboundArcs st cycle_node (st_round st (- arc_score arc)) ?c s }) t = Some t' \<and> ?I t'"
      using MergeInboundArcs_sim [of n R ?c ?arcs0 t u "- ?m" t'] t R u arc m ui by auto
  qed
  then have run: "foreach (\<lambda>(cycle_node, i) s. do { arc \<leftarrow> vec_at (ms_arcs s) (int i); MergeInboundArcs st cycle_node (st_round st (- arc_score arc)) ?c s }) cycle s2 = Some s'"
    and I: "?I s'" by blast+
  have "ContractCycle st v s = Some s'" using run loop cap d(1) by (simp add: ContractCycle_def check_def Let_def)
  moreover have "bounded_arcs n G R (Suc ?c) (ms_arcs s')"
    using I len old bounded_arcsD [OF d(2)] by (intro merging_bounded [of n R ?c ?arcs0]) auto
  moreover have cols: "col n (ms_arcs s') u a = col n (ms_arcs s) u a" if "u < ?c" "a \<le> n" for u a
    using I old [OF that] that by (simp add: merging_def)
  have "best_chosen n (Suc ?c) (ms_arcs s') (ms_argmax_arcs s)"
    unfolding best_chosen_def
  proof (intro allI impI)
    fix u i assume "u < length (ms_argmax_arcs s)" "ms_argmax_arcs s ! u = Some i"
    then show "u < Suc ?c \<and> (\<exists>a \<le> n. i = a + u * Suc n \<and> arc_Exists (col n (ms_arcs s') u a) \<and>
       (\<forall>b \<le> n. arc_Exists (col n (ms_arcs s') u b) \<longrightarrow> arc_score (col n (ms_arcs s') u b) \<le> arc_score (col n (ms_arcs s') u a)))"
      using d(3) cols unfolding best_chosen_def by (metis less_SucI)
  qed
  ultimately show ?thesis using I by (simp add: roomy_def)
qed

lemma roomy_weak [simp]: "roomy n G R (s\<lparr>ms_weak_components := f\<rparr>) \<longleftrightarrow> roomy n G R s"
  by (simp add: roomy_def)

lemma roomy_select:
  assumes s: "roomy n G R s" and k: "k < ms_num_current_nodes s" and i: "exact_MaximumInboundArc k s = Some (Some i)"
    and set: "vec_set (ms_argmax_arcs s) (int k) (Some i) = Some argmax"
  shows "roomy n G R (s\<lparr>ms_argmax_arcs := argmax\<rparr>)"
proof -
  have d: "ms_num_initial_nodes s = Suc n" "length (ms_arcs s) = Suc n * ms_num_current_nodes s" using s by (auto simp: roomy_def bounded_arcs_def)
  obtain a where "a \<le> n" "i = a + k * Suc n" "arc_Exists (col n (ms_arcs s) k a)"
    "\<forall>b \<le> n. arc_Exists (col n (ms_arcs s) k b) \<longrightarrow> arc_score (col n (ms_arcs s) k b) \<le> arc_score (col n (ms_arcs s) k a)"
    using MaximumInboundArc_best [OF d k] i by auto
  then show ?thesis using s k vec_set_nth [OF set] unfolding roomy_def best_chosen_def by (auto simp: nth_list_update)
qed

lemma contraction_loop_sim:
  assumes R: "R \<le> B" "0 \<le> R"
  shows "exact_contraction_loop k s = Some r \<Longrightarrow> roomy n G R s \<Longrightarrow> contraction_loop st k s = Some r"
proof -
  assume e: "exact_contraction_loop k s = Some r" and s: "roomy n G R s"
  have "roomy n G R s \<longrightarrow> contraction_loop st k s = Some r"
  proof (rule exact_contraction_loop.raw_induct [of "\<lambda>k s r. roomy n G R s \<longrightarrow> contraction_loop st k s = Some r", OF _ e], intro impI)
    fix loop :: "nat \<Rightarrow> 's mst_solver \<Rightarrow> (mst_error + 's mst_solver) option" and k s r
    assume IH: "\<And>k s r. loop k s = Some r \<Longrightarrow> roomy n G R s \<longrightarrow> contraction_loop st k s = Some r"
      and body: "(if k < ms_num_current_nodes s then do {
        p \<leftarrow> exact_MaximumInboundArc k s;
        case p of
          None \<Rightarrow> Some (Inl FailedPrecondition)
        | Some i \<Rightarrow> do {
            argmax \<leftarrow> vec_set (ms_argmax_arcs s) (int k) (Some i);
            let s = s\<lparr>ms_argmax_arcs := argmax\<rparr>;
            arc \<leftarrow> vec_at (ms_arcs s) (int i);
            if arc_IsRoot arc then loop (k + 1) s
            else do {
              (source_component, weak) \<leftarrow> FindRoot (arc_source arc) (ms_weak_components s);
              (target_component, weak) \<leftarrow> FindRoot (arc_target arc) weak;
              let s = s\<lparr>ms_weak_components := weak\<rparr>;
              if source_component = target_component then do {
                s \<leftarrow> exact_ContractCycle k s;
                loop (k + 1) s }
              else do {
                weak \<leftarrow> UnionOfRoots True source_component target_component (ms_weak_components s);
                loop (k + 1) (s\<lparr>ms_weak_components := weak\<rparr>) } } } }
      else Some (Inr s)) = Some r" and s: "roomy n G R s"
    show "contraction_loop st k s = Some r"
    proof (cases "k < ms_num_current_nodes s")
      case False
      then show ?thesis using body by (subst contraction_loop.simps) simp
    next
      case k: True
      note max = MaximumInboundArc_sim [OF s R(1) k]
      obtain p where p: "exact_MaximumInboundArc k s = Some p" using body k by (auto simp: bind_eq_Some_conv)
      show ?thesis
      proof (cases p)
        case None
        then show ?thesis using body k p max by (subst contraction_loop.simps) simp
      next
        case (Some i)
        obtain argmax arc where a: "vec_set (ms_argmax_arcs s) (int k) (Some i) = Some argmax" "vec_at (ms_arcs s) (int i) = Some arc"
          using body k p Some by (auto simp: bind_eq_Some_conv Let_def)
        let ?s = "s\<lparr>ms_argmax_arcs := argmax\<rparr>"
        have s': "roomy n G R ?s" by (rule roomy_select [OF s k p [unfolded Some] a(1)])
        show ?thesis
        proof (cases "arc_IsRoot arc")
          case True
          then show ?thesis using body k p Some a max IH [of "k + 1" ?s r] s' by (subst contraction_loop.simps) (simp add: Let_def)
        next
          case False
          obtain x f y g where w: "FindRoot (arc_source arc) (ms_weak_components s) = Some (x, f)" "FindRoot (arc_target arc) f = Some (y, g)"
            using body k p Some a False by (auto simp: bind_eq_Some_conv Let_def)
          let ?t = "?s\<lparr>ms_weak_components := g\<rparr>"
          have t: "roomy n G R ?t" using s' by simp
          show ?thesis
          proof (cases "x = y")
            case True
            obtain t' where t': "exact_ContractCycle k ?t = Some t'" "loop (k + 1) t' = Some r"
              using body k p Some a False w True by (auto simp: bind_eq_Some_conv Let_def)
            have c: "ContractCycle st k ?t = Some t'" "roomy n G R t'" using ContractCycle_sim [OF t R t'(1)] by auto
            then show ?thesis using k p Some a False w True max IH [OF t'(2)] by (subst contraction_loop.simps) (simp add: Let_def)
          next
            case ne: False
            obtain h where h: "UnionOfRoots True x y g = Some h" "loop (k + 1) (?t\<lparr>ms_weak_components := h\<rparr>) = Some r"
              using body k p Some a False w ne by (auto simp: bind_eq_Some_conv Let_def)
            have "roomy n G R (?t\<lparr>ms_weak_components := h\<rparr>)" using t by simp
            then show ?thesis using k p Some a False w ne max h(1) IH [OF h(2)] by (subst contraction_loop.simps) (simp add: Let_def)
          qed
        qed
      qed
    qed
  qed
  then show ?thesis using s by simp
qed

text \<open>The root penalty.\<close>

lemma score_range_sim:
  assumes "\<forall>arc \<in> set arcs. arc_Exists arc \<longrightarrow> \<bar>arc_score arc\<bar> \<le> B"
  shows "score_range arcs (case acc of None \<Rightarrow> (st_lowest st, st_highest st) | Some p \<Rightarrow> p) =
    (case exact_score_range arcs acc of None \<Rightarrow> (st_lowest st, st_highest st) | Some p \<Rightarrow> p)"
  using assms
proof (induction arcs arbitrary: acc)
  case (Cons arc arcs)
  have b: "st_lowest st \<le> arc_score arc \<and> arc_score arc \<le> st_highest st" if "arc_Exists arc"
    using Cons.prems that limits by (fastforce simp: abs_le_iff)
  show ?case
  proof (cases acc)
    case None
    show ?thesis using Cons.IH [of "if arc_Exists arc then Some (arc_score arc, arc_score arc) else None"] Cons.prems None b by (auto simp: max_def min_def)
  next
    case (Some p)
    obtain x y where "p = (x, y)" by fastforce
    then show ?thesis using Some Cons.IH [of "if arc_Exists arc then Some (max x (arc_score arc), min y (arc_score arc)) else Some (x, y)"] Cons.prems by auto
  qed
qed simp

lemma exact_score_range_bounds:
  assumes "exact_score_range arcs acc = Some (x, y)" and "\<forall>arc \<in> set arcs. arc_Exists arc \<longrightarrow> arc_score arc \<in> G \<and> \<bar>arc_score arc\<bar> \<le> M"
    and "\<forall>p. acc = Some p \<longrightarrow> fst p \<in> G \<and> snd p \<in> G \<and> \<bar>fst p\<bar> \<le> M \<and> \<bar>snd p\<bar> \<le> M \<and> snd p \<le> fst p"
  shows "x \<in> G \<and> y \<in> G \<and> \<bar>x\<bar> \<le> M \<and> \<bar>y\<bar> \<le> M \<and> y \<le> x"
  using assms
proof (induction arcs arbitrary: acc)
  case (Cons arc arcs)
  let ?acc = "if \<not> arc_Exists arc then acc else case acc of None \<Rightarrow> Some (arc_score arc, arc_score arc)
    | Some (max_score, min_score) \<Rightarrow> Some (max max_score (arc_score arc), min min_score (arc_score arc))"
  have "\<forall>p. ?acc = Some p \<longrightarrow> fst p \<in> G \<and> snd p \<in> G \<and> \<bar>fst p\<bar> \<le> M \<and> \<bar>snd p\<bar> \<le> M \<and> snd p \<le> fst p"
    using Cons.prems(2,3) by (auto simp: max_def min_def split: option.splits)
  then show ?case using Cons.IH [of ?acc] Cons.prems(1,2) by simp
qed simp

lemma column_mem: "length arcs = Suc n * N \<Longrightarrow> v < N \<Longrightarrow> a \<le> n \<Longrightarrow> col n arcs v a \<in> set arcs"
  using column_bound [of a n v N] unfolding col_def by simp

lemma penalty_sim:
  assumes s: "ms_num_initial_nodes s = Suc n" and arcs0: "length arcs0 = Suc n * Suc n"
    and round: "\<And>t. t \<le> n \<Longrightarrow> arc_Exists (col n arcs0 t 0) \<Longrightarrow> st_round st (arc_score (col n arcs0 t 0) - P) = arc_score (col n arcs0 t 0) - P"
    and e: "foreach (\<lambda>rt arcs. do {
              arc \<leftarrow> vec_at arcs (int (ArcIndex 0 rt s));
              if \<not> arc_Exists arc then Some arcs
              else vec_set arcs (int (ArcIndex 0 rt s)) (arc\<lparr>arc_score := arc_score arc - P\<rparr>) }) [1..<Suc n] arcs0 = Some arcs'"
  shows "foreach (\<lambda>rt arcs. do {
              arc \<leftarrow> vec_at arcs (int (ArcIndex 0 rt s));
              if \<not> arc_Exists arc then Some arcs
              else vec_set arcs (int (ArcIndex 0 rt s)) (arc\<lparr>arc_score := st_round st (arc_score arc - P)\<rparr>) }) [1..<Suc n] arcs0 = Some arcs' \<and>
    penalizing n P arcs0 ({} \<union> set [1..<Suc n]) arcs'"
proof (rule foreach_sim_distinct [where I = "penalizing n P arcs0", OF _ _ _ _ e])
  fix D rt arcs arcs'
  assume rt: "rt \<in> set [1..<Suc n]" "rt \<notin> D" and I: "penalizing n P arcs0 D arcs"
    and step: "(do { arc \<leftarrow> vec_at arcs (int (ArcIndex 0 rt s)); if \<not> arc_Exists arc then Some arcs
      else vec_set arcs (int (ArcIndex 0 rt s)) (arc\<lparr>arc_score := arc_score arc - P\<rparr>) }) = Some arcs'"
  have t: "rt \<le> n" using rt(1) by auto
  let ?arc = "col n arcs0 rt 0" let ?i = "0 + rt * Suc n"
  have ix: "ArcIndex 0 rt s = ?i" by (rule ArcIndex_eq [OF s])
  have i: "?i < length arcs" using column_bound [of 0 n rt "Suc n"] I arcs0 t by (simp add: penalizing_def)
  have "arcs ! ?i = ?arc" using I t rt(2) unfolding penalizing_def by (metis col_def le0)
  then have get: "vec_at arcs (int ?i) = Some ?arc" using vec_nat(1) [OF i] by simp
  have set: "vec_set arcs (int ?i) x = Some (arcs[?i := x])" for x by (rule vec_nat(2) [OF i])
  have upd: "penalizing n P arcs0 (insert rt D) (arcs[?i := ?arc\<lparr>arc_score := arc_score ?arc - P\<rparr>])" if "arc_Exists ?arc"
  proof -
    have "col n (arcs[?i := x]) u a = (if u = rt \<and> a = 0 then x else col n arcs u a)" if "a \<le> n" for u a x
      using column_index [OF that le0, of u rt] i by (auto simp: col_def nth_list_update)
    then show ?thesis using I that unfolding penalizing_def by auto
  qed
  have stay: "penalizing n P arcs0 (insert rt D) arcs" if "\<not> arc_Exists ?arc" using I that unfolding penalizing_def by auto
  show "(do { arc \<leftarrow> vec_at arcs (int (ArcIndex 0 rt s)); if \<not> arc_Exists arc then Some arcs
      else vec_set arcs (int (ArcIndex 0 rt s)) (arc\<lparr>arc_score := st_round st (arc_score arc - P)\<rparr>) }) = Some arcs' \<and> penalizing n P arcs0 (insert rt D) arcs'"
    using step round [OF t] upd stay unfolding ix get set by (auto split: if_splits)
qed (auto simp: penalizing_def)

lemma roomy_fresh:
  assumes f: "fresh_within n G M s" and M: "0 \<le> M" and l: "length arcs = length (ms_arcs s)"
    and P: "0 \<le> P" "P \<in> G" "P \<le> 1 + of_nat (Suc n) * (2 * M)"
    and c: "\<And>t a. t \<le> n \<Longrightarrow> a \<le> n \<Longrightarrow> col n arcs t a = col n (ms_arcs s) t a \<or> arc_Exists (col n (ms_arcs s) t a) \<and>
      col n arcs t a = (col n (ms_arcs s) t a)\<lparr>arc_score := arc_score (col n (ms_arcs s) t a) - P\<rparr>"
  shows "roomy n G (reserve n M) (s\<lparr>ms_arcs := arcs\<rparr>)"
proof -
  have R: "2 * M + P \<le> reserve n M" using P(3) by (simp add: reserve_def algebra_simps)
  have d: "ms_num_current_nodes s = Suc n" "length (ms_arcs s) = Suc n * Suc n" "ms_num_initial_nodes s = Suc n" using f by (auto simp: fresh_within_def)
  have b: "arc_score (col n arcs t a) \<in> G \<and> - M - P \<le> arc_score (col n arcs t a) \<and> arc_score (col n arcs t a) \<le> M"
    if t: "t < Suc n" "a \<le> n" and e: "arc_Exists (col n arcs t a)" for t a
  proof -
    have o: "arc_Exists (col n (ms_arcs s) t a)" using c [of t a] t e by (auto simp: arc_Exists_def)
    then have "arc_score (col n (ms_arcs s) t a) \<in> G" "\<bar>arc_score (col n (ms_arcs s) t a)\<bar> \<le> M"
      using f column_mem [OF d(2) t] unfolding fresh_within_def by blast+
    then show ?thesis using c [of t a] t P(1,2) diff_in by (auto simp: abs_le_iff)
  qed
  have "bounded_arcs n G (reserve n M) (Suc n) arcs"
    unfolding bounded_arcs_def
  proof (intro conjI allI impI)
    show "length arcs = Suc n * Suc n" using l d(2) by simp
    fix t a assume t: "t < Suc n" "a \<le> n" "arc_Exists (col n arcs t a)"
    note ta = b [OF t]
    show "arc_score (col n arcs t a) \<in> G" using ta by simp
    show "\<bar>arc_score (col n arcs t a)\<bar> \<le> reserve n M" using ta R M P(1) by (simp add: abs_le_iff)
    fix u assume "u \<le> n" "arc_Exists (col n arcs t u)"
    then show "arc_score (col n arcs t a) - arc_score (col n arcs t u) \<le> reserve n M" using ta b [OF t(1)] R by fastforce
  qed
  then show ?thesis using f by (simp add: roomy_def best_chosen_def fresh_within_def)
qed

lemma penalty_bounds:
  assumes xy: "\<bar>x\<bar> \<le> M" "\<bar>y\<bar> \<le> M" "y \<le> x" and M: "0 \<le> M"
  shows "0 \<le> of_nat (Suc n) * (x - y)" and "1 + of_nat (Suc n) * (x - y) \<le> 1 + of_nat (Suc n) * (2 * M)"
    and "1 + of_nat (Suc n) * (2 * M) + 2 * M = reserve n M"
proof -
  have d: "x - y \<le> 2 * M" using xy(1,2) by (simp add: abs_le_iff)
  show "0 \<le> of_nat (Suc n) * (x - y)" using xy(3) by (intro mult_nonneg_nonneg) simp_all
  show "1 + of_nat (Suc n) * (x - y) \<le> 1 + of_nat (Suc n) * (2 * M)" using mult_left_mono [OF d, of "of_nat (Suc n)"] by simp
  show "1 + of_nat (Suc n) * (2 * M) + 2 * M = reserve n M" by (simp add: reserve_def algebra_simps)
qed

lemma MaybePenalize_sim:
  assumes f: "fresh_within n G M s" and M: "0 \<le> M" and B: "reserve n M \<le> B" and e: "exact_MaybePenalizeRootScoresForTree s = Some s'"
  shows "MaybePenalizeRootScoresForTree st s = Some s' \<and> roomy n G (reserve n M) s'"
proof (cases "ms_forest s")
  case True
  then have "s' = s\<lparr>ms_arcs := ms_arcs s\<rparr>" using e by (simp add: exact_MaybePenalizeRootScoresForTree_def)
  moreover have "roomy n G (reserve n M) (s\<lparr>ms_arcs := ms_arcs s\<rparr>)"
    using M by (intro roomy_fresh [OF f M refl order_refl zero_in]) simp_all
  ultimately show ?thesis using True e by (simp add: MaybePenalizeRootScoresForTree_def)
next
  case False
  note d = f [unfolded fresh_within_def]
  have "2 * M \<le> reserve n M" using M by (simp add: reserve_def algebra_simps)
  then have MB: "M \<le> B" "2 * M \<le> B" using M B by linarith+
  have "1 \<le> reserve n M" using M by (simp add: reserve_def)
  then have pos: "st_lowest st < st_highest st" using limits B by linarith
  have "\<forall>arc \<in> set (ms_arcs s). arc_Exists arc \<longrightarrow> \<bar>arc_score arc\<bar> \<le> B" using d MB(1) by (meson order_trans)
  note range = score_range_sim [OF this, of None]
  show ?thesis
  proof (cases "exact_score_range (ms_arcs s) None")
    case None
    then have "s' = s\<lparr>ms_arcs := ms_arcs s\<rparr>" using e False by (simp add: exact_MaybePenalizeRootScoresForTree_def)
    moreover have "roomy n G (reserve n M) (s\<lparr>ms_arcs := ms_arcs s\<rparr>)"
      using M by (intro roomy_fresh [OF f M refl order_refl zero_in]) simp_all
    ultimately show ?thesis using False None range pos
      by (auto simp: MaybePenalizeRootScoresForTree_def split: prod.splits)
  next
    case (Some p)
    obtain x y where p: "p = (x, y)" by fastforce
    have xy: "x \<in> G" "y \<in> G" "\<bar>x\<bar> \<le> M" "\<bar>y\<bar> \<le> M" "y \<le> x" using exact_score_range_bounds [OF Some [unfolded p], of M] d by auto
    let ?P = "1 + of_nat (Suc n) * (x - y)"
    note pb = penalty_bounds [OF xy(3-5) M, of n]
    have G: "x - y \<in> G" "of_nat (Suc n) * (x - y) \<in> G" "?P \<in> G" using xy diff_in times_in [of "x - y" "Suc n"] add_in one_in by simp_all
    have B': "1 + of_nat (Suc n) * (2 * M) + 2 * M \<le> B" using pb(3) B by simp
    have P: "st_round st (x - y) = x - y" "st_round st (of_nat (Suc n) * (x - y)) = of_nat (Suc n) * (x - y)" "st_round st ?P = ?P"
      using G pb(1,2) B' M xy(3-5) MB by (intro exact; simp add: abs_le_iff; linarith)+
    obtain arcs where a: "foreach (\<lambda>rt arcs. do {
              arc \<leftarrow> vec_at arcs (int (ArcIndex 0 rt s));
              if \<not> arc_Exists arc then Some arcs
              else vec_set arcs (int (ArcIndex 0 rt s)) (arc\<lparr>arc_score := arc_score arc - ?P\<rparr>) }) [1..<Suc n] (ms_arcs s) = Some arcs"
      and s': "s' = s\<lparr>ms_arcs := arcs\<rparr>"
      using e False Some p d by (auto simp: exact_MaybePenalizeRootScoresForTree_def bind_eq_Some_conv Let_def simp del: upt_Suc of_nat_Suc)
    have round: "st_round st (arc_score (col n (ms_arcs s) t 0) - ?P) = arc_score (col n (ms_arcs s) t 0) - ?P" if "t \<le> n" "arc_Exists (col n (ms_arcs s) t 0)" for t
    proof -
      have "arc_score (col n (ms_arcs s) t 0) \<in> G" "\<bar>arc_score (col n (ms_arcs s) t 0)\<bar> \<le> M"
        using d column_mem [of "ms_arcs s" n "Suc n" t 0] that by auto
      then show ?thesis using G(3) pb(1,2) B' M by (intro exact diff_in; simp add: abs_le_iff; linarith)
    qed
    have "ms_num_initial_nodes s = Suc n" "length (ms_arcs s) = Suc n * Suc n" using d by auto
    note sim = penalty_sim [OF this round a]
    have "roomy n G (reserve n M) (s\<lparr>ms_arcs := arcs\<rparr>)"
    proof (rule roomy_fresh [OF f M])
      show "0 \<le> ?P" using pb(1) by linarith
      show "col n arcs t b = col n (ms_arcs s) t b \<or> arc_Exists (col n (ms_arcs s) t b) \<and>
          col n arcs t b = (col n (ms_arcs s) t b)\<lparr>arc_score := arc_score (col n (ms_arcs s) t b) - ?P\<rparr>" if "t \<le> n" "b \<le> n" for t b
        using sim that unfolding penalizing_def by auto
    qed (use sim G(3) pb(2) in \<open>simp_all add: penalizing_def\<close>)
    moreover have "\<not> x < y" using xy(5) by simp
    ultimately show ?thesis using False Some p range sim s' P d
      by (simp add: MaybePenalizeRootScoresForTree_def Let_def del: upt_Suc of_nat_Suc)
  qed
qed

lemma Solve_sim:
  assumes f: "fresh_within n G M s" and M: "0 \<le> M" and B: "reserve n M \<le> B" and e: "exact_Solve null argmax s = Some r"
  shows "Solve st null argmax s = Some r"
proof -
  obtain s1 r1 where s1: "exact_MaybePenalizeRootScoresForTree s = Some s1" "exact_ContractionPhase s1 = Some r1"
    using e by (auto simp: exact_Solve_def bind_eq_Some_conv)
  have R: "0 \<le> reserve n M" using M by (simp add: reserve_def)
  have p: "MaybePenalizeRootScoresForTree st s = Some s1" "roomy n G (reserve n M) s1" using MaybePenalize_sim [OF f M B s1(1)] by auto
  have "ContractionPhase st s1 = Some r1"
    using contraction_loop_sim [OF B R _ p(2)] s1(2) by (simp add: ContractionPhase_def exact_ContractionPhase_def)
  then show ?thesis using e p(1) s1 by (simp add: Solve_def exact_Solve_def)
qed

lemma score_at_within: "scores_within G M scores \<Longrightarrow> score_at scores t a = Some (Some x) \<Longrightarrow> x \<in> G \<and> \<bar>x\<bar> \<le> M"
proof -
  assume w: "scores_within G M scores" and x: "score_at scores t a = Some (Some x)"
  obtain row where "vec_at scores (int t) = Some row" "vec_at row (int a) = Some (Some x)" using x by (auto simp: score_at_def bind_eq_Some_conv)
  then have "row \<in> set scores" "Some x \<in> set row" by (metis length_cycle nth_mem)+
  then show ?thesis using w by (auto simp: scores_within_def)
qed

lemma sum_sim:
  assumes w: "scores_within G M scores" and M: "0 \<le> M" and B: "of_nat n * M \<le> B"
    and e: "foreach (exact_sum_source scores argmax) [0..<n] 0 = Some x"
  shows "foreach (sum_source st scores argmax) [0..<n] 0 = Some x"
proof -
  let ?I = "\<lambda>D acc. D \<subseteq> {..<n} \<and> acc \<in> G \<and> \<bar>acc\<bar> \<le> of_nat (card D) * M"
  have "foreach (sum_source st scores argmax) [0..<n] 0 = Some x \<and> ?I ({} \<union> set [0..<n]) x"
  proof (rule foreach_sim_distinct [where I = ?I, OF _ _ _ _ e])
    fix D t acc acc' assume t: "t \<in> set [0..<n]" "t \<notin> D" and I: "?I D acc" and step: "exact_sum_source scores argmax t acc = Some acc'"
    obtain src y where y: "vec_at argmax (int t) = Some src" "score_at scores t src = Some (Some y)" "acc' = acc + y"
      using step by (auto simp: exact_sum_source_def bind_eq_Some_conv)
    have g: "y \<in> G" "\<bar>y\<bar> \<le> M" using score_at_within [OF w y(2)] by auto
    have D: "finite D" "insert t D \<subseteq> {..<n}" using I t by (auto intro: finite_subset)
    then have card: "card (insert t D) = Suc (card D)" "card (insert t D) \<le> n" using t(2) card_mono [OF _ D(2)] by auto
    have le: "\<bar>acc + y\<bar> \<le> of_nat (card (insert t D)) * M" using I g(2) abs_triangle_ineq [of acc y] card(1) by (simp add: algebra_simps)
    have "(of_nat (card (insert t D)) :: 's) \<le> of_nat n" using card(2) by simp
    then have "of_nat (card (insert t D)) * M \<le> of_nat n * M" using M by (intro mult_right_mono)
    then have "st_round st (acc + y) = acc + y" using le B I g(1) add_in by (intro exact) auto
    then show "sum_source st scores argmax t acc = Some acc' \<and> ?I (insert t D) acc'"
      using y I g(1) add_in le D by (simp add: sum_source_def)
  qed (use zero_in in auto)
  then show ?thesis by blast
qed

lemma digraph_within:
  assumes g: "digraph n (matrix_arcs scores) arcs" and w: "scores_within G M scores" and sc: "n \<le> length scores" "\<forall>row \<in> set scores. n \<le> length row"
    and arc: "arc \<in> set arcs" "arc_Exists arc"
  shows "arc_score arc \<in> G \<and> \<bar>arc_score arc\<bar> \<le> M"
proof -
  have len: "length arcs = Suc n * Suc n" using g by (simp add: digraph_def)
  obtain j where j: "j < length arcs" "arc = arcs ! j" using arc(1) by (auto simp: in_set_conv_nth)
  have "j div Suc n < Suc n" using j(1) len by (simp only: less_mult_imp_div_less)
  moreover have "j mod Suc n \<le> n" by (simp only: less_Suc_eq_le [symmetric] mod_less_divisor zero_less_Suc)
  moreover have "arc = col n arcs (j div Suc n) (j mod Suc n)" using j(2) by (simp only: col_def mod_div_mult_eq)
  ultimately obtain t a where t: "t \<le> n" "a \<le> n" and col: "arc = col n arcs t a" by (metis less_Suc_eq_le)
  from g t have "col n arcs t a = (case if t = 0 \<or> a = t then None else matrix_arcs scores a t of None \<Rightarrow> null_arc
      | Some x \<Rightarrow> \<lparr>arc_score = x, arc_source = a, arc_target = t\<rparr>)" unfolding digraph_def by blast
  then obtain x where x: "t \<noteq> 0" "matrix_arcs scores a t = Some x" "arc_score arc = x"
    using arc(2) col by (auto simp: arc_Exists_def null_arc_def split: if_splits option.splits)
  let ?src = "if a = 0 then t - 1 else a - 1"
  have i: "t - 1 < n" "?src < n" using x(1) t by auto
  have "score_at scores (t - 1) ?src = Some (Some x)" using score_at_eq [OF sc i] x(2) by (simp add: matrix_arcs_def)
  then show ?thesis using score_at_within [OF w] x(3) by blast
qed

lemma RunSolver_sim:
  assumes n: "1 \<le> n" "n \<le> input_dim" "2 * n < 65535" and sc: "length scores = input_dim" "\<forall>row \<in> set scores. length row = input_dim"
    and w: "scores_within G M scores" and M: "0 \<le> M" and B: "reserve n M \<le> B" and e: "exact_RunSolver forest (int n) input_dim scores = Some r"
  shows "RunSolver st forest (int n) input_dim scores = Some r"
proof -
  have sc': "n \<le> length scores" "\<forall>row \<in> set scores. n \<le> length row" using n(2) sc by auto
  obtain s0 :: "'s mst_solver" where s0: "mst_Init 65535 forest n new_MstSolver = Some (Inr s0)" "fresh n s0" "digraph n (\<lambda>_ _. None) (ms_arcs s0)"
    using mst_Init_fresh [OF n(1,3)] by blast
  obtain arcs where a: "foreach (add_score scores) (List.product [0..<n] [0..<n]) s0 = Some (s0\<lparr>ms_arcs := arcs\<rparr>)" "digraph n (matrix_arcs scores) arcs"
    using add_scores [OF _ s0(3) sc'] s0(2) by (auto simp: fresh_def)
  let ?s = "s0\<lparr>ms_arcs := arcs\<rparr>"
  have f: "fresh_within n G M ?s"
    using s0(2) a(2) digraph_within [OF a(2) w sc'] by (auto simp: fresh_within_def fresh_def digraph_def)
  have cast: "nat (int n mod 65536) = n" using n(3) by (simp add: nat_mod_distrib)
  have "of_nat n * M \<le> reserve n M" using M by (simp add: reserve_def algebra_simps)
  then have nB: "of_nat n * M \<le> B" using B by linarith
  obtain r1 where r1: "exact_Solve 65535 (replicate n 0) ?s = Some r1"
    and rest: "(case r1 of Inl e \<Rightarrow> Some (Inl e) | Inr (argmax, _) \<Rightarrow> do {
        max_score \<leftarrow> foreach (exact_sum_source scores argmax) [0..<n] 0;
        Some (Inr (max_score, map int (take n argmax) @ replicate (input_dim - n) (-1))) }) = Some r"
    using e n s0(1) a(1) cast by (auto simp: exact_RunSolver_def Let_def check_def bind_eq_Some_conv)
  have "(case r1 of Inl e \<Rightarrow> Some (Inl e) | Inr (argmax, _) \<Rightarrow> do {
        max_score \<leftarrow> foreach (sum_source st scores argmax) [0..<n] 0;
        Some (Inr (max_score, map int (take n argmax) @ replicate (input_dim - n) (-1))) }) = Some r"
    using rest sum_sim [OF w M nB] by (auto simp: bind_eq_Some_conv split: sum.splits)
  then show ?thesis using Solve_sim [OF f M B r1] n s0(1) a(1) cast by (simp add: RunSolver_def Let_def check_def)
qed

lemma RunSolver_tree_machine:
  assumes "1 \<le> n" "n \<le> input_dim" "2 * n < 65535" "length scores = input_dim" "\<forall>row \<in> set scores. length row = input_dim"
    and "scores_within G M scores" "0 \<le> M" "reserve n M \<le> B"
  shows "(\<exists>ss. RunSolver st forest (int n) input_dim scores = Some (Inr (tree_score scores ss, map int ss @ replicate (input_dim - n) (- 1))) \<and>
       tree_in forest scores n ss \<and> (\<forall>ss'. tree_in forest scores n ss' \<longrightarrow> tree_score scores ss' \<le> tree_score scores ss)) \<or>
     RunSolver st forest (int n) input_dim scores = Some (Inl FailedPrecondition) \<and> (\<forall>ss. \<not> tree_in forest scores n ss)"
  using RunSolver_tree [OF assms(1-5), of forest] RunSolver_sim [OF assms, of forest] by blast

end

section \<open>The score types of the kernels\<close>

lemma int32_within: "exact_within int32_scores UNIV (2 ^ 31 - 1)"
  by (auto simp: exact_within_def int32_scores_def int32_range_def intro!: wrap32_id)

text \<open>The multiples of \<open>2 ^ - k\<close>.\<close>

definition dyadic :: "nat \<Rightarrow> real set" where
  "dyadic k = {x. x * 2 ^ k \<in> \<int>}"

lemma round_even_int: "round_even (of_int i) = i"
  by (simp add: round_even_def)

lemma float_round_exact:
  assumes x: "x \<in> dyadic k" "\<bar>x\<bar> \<le> 2 powr (real p - real k)" and p: "1 \<le> p" "emin \<le> - int k"
  shows "float_round p emin x = x"
proof (cases "x = 0")
  case False
  let ?e = "max (\<lfloor>log 2 \<bar>x\<bar>\<rfloor> + 1 - int p) emin"
  obtain i where i: "x * 2 ^ k = of_int i" using x(1) by (auto simp: dyadic_def elim: Ints_cases)
  have "x / 2 powr ?e \<in> \<int>"
  proof (cases "?e \<le> - int k")
    case True
    then obtain j where j: "- int k - ?e = int j" by (metis diff_ge_0_iff_ge nonneg_int_cases)
    have "x / 2 powr ?e = x * 2 powr (- real_of_int ?e)" by (simp add: powr_minus divide_inverse)
    also have "- real_of_int ?e = real k + real j" using j by linarith
    also have "x * 2 powr (real k + real j) = of_int i * 2 ^ j" using i by (simp add: powr_add powr_realpow)
    finally show ?thesis by simp
  next
    case False
    then have e: "?e = \<lfloor>log 2 \<bar>x\<bar>\<rfloor> + 1 - int p" "int p - int k \<le> \<lfloor>log 2 \<bar>x\<bar>\<rfloor>" using p(2) by linarith+
    have L: "2 powr log 2 \<bar>x\<bar> = \<bar>x\<bar>" using \<open>x \<noteq> 0\<close> by simp
    have "log 2 \<bar>x\<bar> \<le> real p - real k" using x(2) \<open>x \<noteq> 0\<close> by (simp add: log_le_iff)
    moreover have "real p - real k \<le> log 2 \<bar>x\<bar>" using e(2) by linarith
    ultimately have l: "log 2 \<bar>x\<bar> = real p - real k" by simp
    then have abs: "\<bar>x\<bar> = 2 powr (real p - real k)" using L by simp
    have "\<lfloor>log 2 \<bar>x\<bar>\<rfloor> = int p - int k" unfolding l by linarith
    then have e1: "real_of_int ?e = 1 - real k" using e(1) by simp
    have "\<bar>x / 2 powr ?e\<bar> = \<bar>x\<bar> / 2 powr (1 - real k)" unfolding e1 by simp
    also have "\<dots> = 2 powr (real p - real k - (1 - real k))" unfolding abs by (rule powr_diff [symmetric])
    also have "\<dots> = 2 ^ (p - 1)" using p(1) by (simp add: powr_realpow [symmetric])
    finally have "x / 2 powr ?e = 2 ^ (p - 1) \<or> x / 2 powr ?e = - (2 ^ (p - 1))" by linarith
    then show ?thesis by (elim disjE) simp_all
  qed
  then obtain j where j: "x / 2 powr ?e = of_int j" by (auto elim: Ints_cases)
  have "float_round p emin x = of_int (round_even (x / 2 powr ?e)) * 2 powr ?e" by (simp add: float_round_def Let_def)
  then show ?thesis unfolding j round_even_int using j by (simp add: field_simps)
qed (simp add: float_round_def round_even_int [of 0, simplified])

lemma dyadic_group: "1 \<in> dyadic k" "x \<in> dyadic k \<Longrightarrow> y \<in> dyadic k \<Longrightarrow> x - y \<in> dyadic k"
  by (auto simp: dyadic_def left_diff_distrib)

lemma float_within: "k \<le> 24 \<Longrightarrow> exact_within float_scores (dyadic k) (2 powr (24 - real k))"
proof -
  assume k: "k \<le> 24"
  have "(2 :: real) powr (24 - real k) \<le> 2 powr 127" by (intro powr_mono) simp_all
  also have "\<dots> \<le> (2 - 2 powr -23) * 2 powr 127" by (simp add: powr_minus)
  finally show ?thesis using k dyadic_group float_round_exact [of _ k 24 "-149"] by (auto simp: exact_within_def float_scores_def)
qed

lemma double_within: "k \<le> 53 \<Longrightarrow> exact_within double_scores (dyadic k) (2 powr (53 - real k))"
proof -
  assume k: "k \<le> 53"
  have "(2 :: real) powr (53 - real k) \<le> 2 powr 1023" by (intro powr_mono) simp_all
  also have "\<dots> \<le> (2 - 2 powr -52) * 2 powr 1023" by (simp add: powr_minus)
  finally show ?thesis using k dyadic_group float_round_exact [of _ k 53 "-1074"] by (auto simp: exact_within_def double_scores_def)
qed

interpretation int32: machine_scores int32_scores UNIV "2 ^ 31 - 1"
  by unfold_locales (rule int32_within)

interpretation float: machine_scores float_scores "dyadic 0" "2 powr (24 - real 0)"
  by unfold_locales (rule float_within, simp)

interpretation double: machine_scores double_scores "dyadic 0" "2 powr (53 - real 0)"
  by unfold_locales (rule double_within, simp)

text \<open>C6: the kernel solves the maximum spanning tree problem, in the arithmetic of its score type. On a matrix of scores for \<open>n\<close> nodes, with \<open>2 * n\<close> below the
  largest 16-bit index, and with scores that leave room for the root penalty (\<open>int32_within\<close>, \<open>float_within\<close> and \<open>double_within\<close> say how much room
  the three registered types have), it never aborts or runs forever; when the digraph of the finite scores has a spanning tree (a spanning
  forest, with \<open>forest\<close>) it returns one whose score is largest, with the score and padded to the size of the matrix, and when
  there is none it fails.\<close>

theorem RunSolver_optimal:
  fixes scores :: "'s :: linordered_idom option list list"
  assumes "1 \<le> n" and "n \<le> input_dim" and "2 * n < 65535" and "length scores = input_dim" and "\<forall>row \<in> set scores. length row = input_dim"
    and "exact_within st G B" and "scores_within G M scores" and "0 \<le> M" and "reserve n M \<le> B"
  shows "if \<exists>ss. tree_in forest scores n ss
    then \<exists>ss. RunSolver st forest (int n) input_dim scores = Some (Inr (tree_score scores ss, map int ss @ replicate (input_dim - n) (- 1))) \<and>
      tree_in forest scores n ss \<and> (\<forall>ss'. tree_in forest scores n ss' \<longrightarrow> tree_score scores ss' \<le> tree_score scores ss)
    else RunSolver st forest (int n) input_dim scores = Some (Inl FailedPrecondition)"
  using machine_scores.RunSolver_tree_machine [OF machine_scores.intro [OF assms(6)] assms(1-5,7-9), of forest] by (cases "\<exists>ss. tree_in forest scores n ss") auto

theorem RunSolver_optimal_witness:
  "\<exists>ss. RunSolver int32_scores False 3 4 [[Some (1 :: int), Some 10, Some 2, Some 0], [Some 10, Some 2, Some 8, Some 0], [Some 0, None, None, Some 0], [None, None, None, None]] =
     Some (Inr (tree_score [[Some (1 :: int), Some 10, Some 2, Some 0], [Some 10, Some 2, Some 8, Some 0], [Some 0, None, None, Some 0], [None, None, None, None]] ss, map int ss @ [- 1])) \<and>
     tree_score [[Some 1, Some 10, Some 2, Some 0], [Some 10, Some 2, Some 8, Some 0], [Some 0, None, None, Some 0], [None, None, None, None]] ss \<ge> (12 :: int)"
proof -
  define m where "m = [[Some (1 :: int), Some 10, Some 2, Some 0], [Some 10, Some 2, Some 8, Some 0], [Some 0, None, None, Some 0], [None, None, None, None]]"
  have m: "length m = 4" "\<forall>row \<in> set m. length row = 4" by (simp_all add: m_def)
  have "has_root [1, 1, 0] 1 1" by (rule has_root.is_root) simp
  moreover from this have "has_root [1, 1, 0] 0 1" using has_root.go_up [of "[1, 1, 0]" 0 1] by simp
  moreover from this have "has_root [1, 1, 0] 2 1" using has_root.go_up [of "[1, 1, 0]" 2 1] by simp
  moreover have "{x. x < 3 \<and> [1, 1, 0 :: nat] ! x = x} = {1}" by (auto simp: less_Suc_eq numeral_eq_Suc)
  ultimately have tree: "tree_in False m 3 [1, 1, 0]"
    unfolding tree_in_def spanning_def by (auto simp: less_Suc_eq numeral_eq_Suc m_def)
  then have ex: "\<exists>ss. tree_in False m 3 ss" by blast
  have size: "1 \<le> (3 :: nat)" "3 \<le> (4 :: nat)" "2 * 3 < (65535 :: nat)" by simp_all
  have room: "scores_within UNIV 10 m" "(0 :: int) \<le> 10" "reserve 3 (10 :: int) \<le> 2 ^ 31 - 1"
    by (auto simp: scores_within_def reserve_def m_def)
  from RunSolver_optimal [OF size m int32_within room, of False, unfolded if_P [OF ex]] obtain ss where "RunSolver int32_scores False (int 3) 4 m = Some (Inr (tree_score m ss, map int ss @ replicate (4 - 3) (- 1)))"
    and best: "\<forall>ss'. tree_in False m 3 ss' \<longrightarrow> tree_score m ss' \<le> tree_score m ss" by (elim exE conjE) (rule that)
  then have "RunSolver int32_scores False 3 4 m = Some (Inr (tree_score m ss, map int ss @ [- 1]))" by simp
  moreover have "tree_score m [1, 1, 0] = 12" by (simp add: tree_score_def numeral_eq_Suc m_def)
  then have "12 \<le> tree_score m ss" using best tree by auto
  ultimately show ?thesis unfolding m_def by (intro exI [of _ ss]) simp
qed

text \<open>C7: with such scores the solver agrees with the exhaustive search through all trees that the spanning tree iterator enumerates, which is how the
  tests of the solver check it.\<close>

theorem RunSolver_exhaustive:
  fixes scores :: "'s :: linordered_idom option list list"
  assumes n: "1 \<le> n" "n \<le> input_dim" "2 * n < 65535" and sc: "length scores = input_dim" "\<forall>row \<in> set scores. length row = input_dim"
    and st: "exact_within st G B" and room: "scores_within G M scores" "0 \<le> M" "reserve n M \<le> B"
  shows "\<exists>trees. ForEachTree forest n = Some trees \<and>
    (let ok = filter (\<lambda>ss. \<forall>t < n. scores ! t ! (ss ! t) \<noteq> None) trees in
       if ok = [] then RunSolver st forest (int n) input_dim scores = Some (Inl FailedPrecondition)
       else \<exists>ss \<in> set ok. tree_score scores ss = Max (tree_score scores ` set ok) \<and>
         RunSolver st forest (int n) input_dim scores = Some (Inr (Max (tree_score scores ` set ok), map int ss @ replicate (input_dim - n) (- 1))))"
proof -
  have "0 < n" "n < 2 ^ 32" using n by auto
  then obtain trees where t: "ForEachTree forest n = Some trees"
    "set trees = {ss. length ss = n \<and> spanning forest ss}"
    using trees_enumerated by blast
  let ?ok = "filter (\<lambda>ss. \<forall>t < n. scores ! t ! (ss ! t) \<noteq> None) trees"
  have ok: "ss \<in> set ?ok \<longleftrightarrow> tree_in forest scores n ss" for ss using t(2) by (auto simp: tree_in_def)
  have emp: "?ok = [] \<longleftrightarrow> \<not> (\<exists>ss. tree_in forest scores n ss)" unfolding set_empty [symmetric] set_eq_iff ok by simp
  from machine_scores.RunSolver_tree_machine [OF machine_scores.intro [OF st] n sc room, of forest] show ?thesis
  proof (elim disjE exE conjE)
    fix ss assume ss: "RunSolver st forest (int n) input_dim scores = Some (Inr (tree_score scores ss, map int ss @ replicate (input_dim - n) (- 1)))"
      "tree_in forest scores n ss" "\<forall>ss'. tree_in forest scores n ss' \<longrightarrow> tree_score scores ss' \<le> tree_score scores ss"
    have fin: "finite (tree_score scores ` set ?ok)" by simp
    have "tree_score scores ss = Max (tree_score scores ` set ?ok)"
      by (rule Max_eqI [OF fin, symmetric]) (use ss ok in blast)+
    then show ?thesis using t(1) ss ok [of ss] emp by (auto simp: Let_def)
  next
    assume "RunSolver st forest (int n) input_dim scores = Some (Inl FailedPrecondition)" "\<forall>ss. \<not> tree_in forest scores n ss"
    then show ?thesis using t(1) emp by (simp add: Let_def)
  qed
qed

theorem RunSolver_exhaustive_witness:
  "\<exists>trees. ForEachTree True 2 = Some trees \<and>
    (let ok = filter (\<lambda>ss. \<forall>t < 2. [[None, Some 3], [Some 4, Some (1 :: int)]] ! t ! (ss ! t) \<noteq> None) trees in
       if ok = [] then RunSolver int32_scores True (int 2) 2 [[None, Some 3], [Some 4, Some (1 :: int)]] = Some (Inl FailedPrecondition)
       else \<exists>ss \<in> set ok. tree_score [[None, Some 3], [Some 4, Some (1 :: int)]] ss = Max (tree_score [[None, Some 3], [Some 4, Some 1]] ` set ok) \<and>
         RunSolver int32_scores True (int 2) 2 [[None, Some 3], [Some 4, Some (1 :: int)]] =
           Some (Inr (Max (tree_score [[None, Some 3], [Some 4, Some 1]] ` set ok), map int ss @ replicate (2 - 2) (- 1))))"
  by (rule RunSolver_exhaustive [OF _ _ _ _ _ int32_within, of _ _ _ 4]) (auto simp: scores_within_def reserve_def)

text \<open>the kernel rejects a number of nodes that exceeds the matrix, is zero, or is too large for the 16-bit indices of the
  contracted digraph, and never gets as far as the solver.\<close>

theorem RunSolver_invalid:
  assumes "num_nodes > int input_dim \<or> num_nodes = 0 \<or> num_nodes \<ge> 32768"
  shows "RunSolver st forest num_nodes input_dim scores = Some (Inl InvalidArgument)"
proof -
  have "mst_Init 65535 forest (nat (num_nodes mod 65536)) s = Some (Inl InvalidArgument)"
    if "num_nodes < 65535" "num_nodes = 0 \<or> 32768 \<le> num_nodes" for s :: "'a mst_solver"
  proof -
    have "nat (num_nodes mod 65536) = nat num_nodes" using that by auto
    then show ?thesis using that by (auto simp: mst_Init_def)
  qed
  then show ?thesis using assms by (auto simp: RunSolver_def Let_def)
qed

theorem RunSolver_invalid_witness: "RunSolver int32_scores True 0 1 [[Some (7 :: int)]] = Some (Inl InvalidArgument)"
  by (rule RunSolver_invalid) simp

text \<open>A negative number of nodes is not rejected: cast to 16 bits it may be a small positive one, and then the vector of sources
  cannot be allocated.\<close>

lemma RunSolver_negative:
  fixes scores :: "'s :: linordered_idom option list list"
  assumes neg: "num_nodes < 0" and k: "k = nat (num_nodes mod 65536)" "1 \<le> k" "k \<le> length scores" "2 * k < 65535" "\<forall>row \<in> set scores. k \<le> length row"
  shows "RunSolver st forest num_nodes input_dim scores = None"
proof -
  obtain s0 :: "'s mst_solver" where s0: "mst_Init 65535 forest k new_MstSolver = Some (Inr s0)" "fresh k s0" "digraph k (\<lambda>_ _. None) (ms_arcs s0)"
    using mst_Init_fresh [OF k(2,4)] by blast
  obtain arcs where "foreach (add_score scores) (List.product [0..<k] [0..<k]) s0 = Some (s0\<lparr>ms_arcs := arcs\<rparr>)"
    using add_scores [OF _ s0(3) k(3,5)] s0(2) by (auto simp: fresh_def)
  then show ?thesis using s0(1) neg k(1) by (simp add: RunSolver_def Let_def check_def)
qed

text \<open>A tree that is returned, and the list of them for a batch.\<close>

definition best_tree :: "bool \<Rightarrow> nat \<Rightarrow> nat \<Rightarrow> 's :: linordered_idom option list list \<Rightarrow> 's \<times> int list \<Rightarrow> bool" where
  "best_tree forest n input_dim scores r \<longleftrightarrow> (\<exists>ss. r = (tree_score scores ss, map int ss @ replicate (input_dim - n) (- 1)) \<and>
     tree_in forest scores n ss \<and> (\<forall>ss'. tree_in forest scores n ss' \<longrightarrow> tree_score scores ss' \<le> tree_score scores ss))"

lemma foreach_collect:
  "(\<And>i. i < k \<Longrightarrow> f i = Some (g i)) \<Longrightarrow> foreach (\<lambda>i acc. do { r \<leftarrow> f i; Some (acc @ [r]) }) [0..<k] [] = Some (map g [0..<k])"
  by (induction k) (simp_all add: foreach_append)

lemma RunSolver_best:
  assumes "1 \<le> n" "n \<le> input_dim" "2 * n < 65535" "length scores = input_dim" "\<forall>row \<in> set scores. length row = input_dim"
    and "exact_within st G B" "scores_within G M scores" "0 \<le> M" "reserve n M \<le> B"
  shows "(\<exists>x. RunSolver st forest (int n) input_dim scores = Some (Inr x) \<and> best_tree forest n input_dim scores x \<and> (\<exists>ss. tree_in forest scores n ss)) \<or>
      RunSolver st forest (int n) input_dim scores = Some (Inl FailedPrecondition) \<and> \<not> (\<exists>ss. tree_in forest scores n ss)"
  using machine_scores.RunSolver_tree_machine [OF machine_scores.intro [OF assms(6)] assms(1-5,7-9), of forest] unfolding best_tree_def by blast

lemma first_error_Inr: "first_error rs = Inr xs \<Longrightarrow> rs = map Inr xs"
  by (induction rs arbitrary: xs rule: first_error.induct) (auto split: sum.splits)

lemma first_error_Inl: "first_error rs = Inl e \<Longrightarrow> Inl e \<in> set rs"
  by (induction rs rule: first_error.induct) (auto split: sum.splits)

text \<open>C8: on a batch of problems of the right shape, with admissible numbers of nodes and with scores that leave room for the root penalty, the kernel returns a maximum spanning tree
  for each, and fails if and only if one of the digraphs has no spanning tree.\<close>

theorem mst_Compute_batch:
  fixes scores :: "'s :: linordered_idom option list list list"
  assumes l: "length num_nodes = b" "length scores = b"
    and n: "\<forall>k \<in> set num_nodes. 1 \<le> k \<and> k \<le> int m \<and> 2 * k < 65535"
    and sh: "\<forall>x \<in> set scores. length x = m \<and> (\<forall>row \<in> set x. length row = m)"
    and st: "exact_within st G B" and room: "\<forall>x \<in> set scores. scores_within G M x" "0 \<le> M" "reserve m M \<le> B"
  shows "\<exists>r. mst_Compute st forest [b] num_nodes [b, m, m] scores = Some r \<and>
    (if \<forall>i < b. \<exists>ss. tree_in forest (scores ! i) (nat (num_nodes ! i)) ss
     then \<exists>out. r = Inr out \<and> length out = b \<and> (\<forall>i < b. best_tree forest (nat (num_nodes ! i)) m (scores ! i) (out ! i))
     else r = Inl FailedPrecondition)"
proof -
  define run where "run i = RunSolver st forest (num_nodes ! i) m (scores ! i)" for i
  define ok where "ok i \<longleftrightarrow> (\<exists>ss. tree_in forest (scores ! i) (nat (num_nodes ! i)) ss)" for i
  define best where "best i x \<longleftrightarrow> best_tree forest (nat (num_nodes ! i)) m (scores ! i) x" for i x
  have one: "(\<exists>x. run i = Some (Inr x) \<and> best i x \<and> ok i) \<or> run i = Some (Inl FailedPrecondition) \<and> \<not> ok i" if "i < b" for i
  proof -
    have mem: "num_nodes ! i \<in> set num_nodes" "scores ! i \<in> set scores" using l that by simp_all
    have k: "1 \<le> num_nodes ! i" "num_nodes ! i \<le> int m" "2 * num_nodes ! i < 65535" using bspec [OF n mem(1)] by blast+
    have sc: "length (scores ! i) = m" "\<forall>row \<in> set (scores ! i). length row = m" using bspec [OF sh mem(2)] by blast+
    have "1 \<le> nat (num_nodes ! i)" "nat (num_nodes ! i) \<le> m" "2 * nat (num_nodes ! i) < 65535" using k by linarith+
    moreover from this(2) have "reserve (nat (num_nodes ! i)) M \<le> B"
      using mult_right_mono [of "of_nat (nat (num_nodes ! i)) :: 's" "of_nat m" M] room(2,3) by (simp add: reserve_def algebra_simps)
    ultimately have "(\<exists>x. RunSolver st forest (int (nat (num_nodes ! i))) m (scores ! i) = Some (Inr x) \<and> best_tree forest (nat (num_nodes ! i)) m (scores ! i) x \<and> (\<exists>ss. tree_in forest (scores ! i) (nat (num_nodes ! i)) ss)) \<or>
        RunSolver st forest (int (nat (num_nodes ! i))) m (scores ! i) = Some (Inl FailedPrecondition) \<and> \<not> (\<exists>ss. tree_in forest (scores ! i) (nat (num_nodes ! i)) ss)"
      using RunSolver_best [OF _ _ _ sc st _ room(2)] room(1) mem(2) by blast
    with k(1) show ?thesis unfolding run_def ok_def best_def by simp
  qed
  then have some: "run i = Some (the (run i))" if "i < b" for i using that by force
  have "foreach (\<lambda>i acc. do { num \<leftarrow> vec_at num_nodes (int i); x \<leftarrow> vec_at scores (int i); r \<leftarrow> RunSolver st forest num m x; Some (acc @ [r]) }) [0..<k] acc =
      foreach (\<lambda>i acc. do { r \<leftarrow> run i; Some (acc @ [r]) }) [0..<k] acc" if "k \<le> b" for k acc
    using that l by (induction k) (simp_all add: foreach_append run_def)
  from this [of b "[]"] foreach_collect [of b run "\<lambda>i. the (run i)"] some
  have run: "mst_Compute st forest [b] num_nodes [b, m, m] scores = Some (first_error (map (\<lambda>i. the (run i)) [0..<b]))"
    by (simp add: mst_Compute_def Let_def)
  show ?thesis unfolding ok_def [symmetric] best_def [symmetric] run
  proof (cases "first_error (map (\<lambda>i. the (run i)) [0..<b])")
    case (Inl e)
    obtain i where i: "i < b" "the (run i) = Inl e" using first_error_Inl [OF Inl] by force
    then have "e = FailedPrecondition" "\<not> ok i" using one [OF i(1)] by force+
    then show "\<exists>r. Some (first_error (map (\<lambda>i. the (run i)) [0..<b])) = Some r \<and>
      (if \<forall>i < b. ok i then \<exists>out. r = Inr out \<and> length out = b \<and> (\<forall>i < b. best i (out ! i)) else r = Inl FailedPrecondition)"
      using Inl i(1) by (intro exI [of _ "Inl e"]) auto
  next
    case (Inr out)
    have eq: "map (\<lambda>i. the (run i)) [0..<b] = map Inr out" by (rule first_error_Inr [OF Inr])
    have len: "length out = b" using arg_cong [OF eq, of length] by simp
    have "best i (out ! i) \<and> ok i" if "i < b" for i
    proof -
      have "the (run i) = Inr (out ! i)" using arg_cong [OF eq, of "\<lambda>xs. xs ! i"] that len by simp
      then show ?thesis using one [OF that] by force
    qed
    then show "\<exists>r. Some (first_error (map (\<lambda>i. the (run i)) [0..<b])) = Some r \<and>
      (if \<forall>i < b. ok i then \<exists>out. r = Inr out \<and> length out = b \<and> (\<forall>i < b. best i (out ! i)) else r = Inl FailedPrecondition)"
      using Inr len by (intro exI [of _ "Inr out"]) simp
  qed
qed

theorem mst_Compute_batch_witness:
  "\<exists>r. mst_Compute int32_scores False [2] [1, 2] [2, 2, 2] [[[Some (3 :: int), None], [None, None]], [[Some 1, None], [None, Some 1]]] = Some r \<and>
    (if \<forall>i < 2. \<exists>ss. tree_in False ([[[Some (3 :: int), None], [None, None]], [[Some 1, None], [None, Some 1]]] ! i) (nat ([1, 2] ! i)) ss
     then \<exists>out. r = Inr out \<and> length out = 2 \<and>
       (\<forall>i < 2. best_tree False (nat ([1, 2] ! i)) 2 ([[[Some (3 :: int), None], [None, None]], [[Some 1, None], [None, Some 1]]] ! i) (out ! i))
     else r = Inl FailedPrecondition)"
  by (rule mst_Compute_batch [OF _ _ _ _ int32_within, of _ _ _ _ 3]) (auto simp: scores_within_def reserve_def)

text \<open>Without the room the root penalty wraps around. The digraph below has a spanning tree, in which node 1 is the root and the source of the
  arc into node 0, and exact arithmetic finds it; the solver for \<^verbatim>\<open>int32\<close> scores, here with 8-bit indices, reports that there is none.\<close>

definition wide_scores :: "int mst_solver option" where
  "wide_scores = (case mst_Init 255 False 2 new_MstSolver of Some (Inr s) \<Rightarrow> do {
     s \<leftarrow> mst_AddRoot 0 0 s; s \<leftarrow> mst_AddRoot 1 0 s; s \<leftarrow> mst_AddArc 1 0 1000000000 s; mst_AddArc 0 1 0 s } | _ \<Rightarrow> None)"

lemma int32_penalty_overflow:
  "map_option (\<lambda>r. case r of Inl e \<Rightarrow> Inl e | Inr (argmax, _) \<Rightarrow> Inr argmax) (wide_scores \<bind> Solve int32_scores 255 [0, 0]) = Some (Inl FailedPrecondition)"
  "map_option (\<lambda>r. case r of Inl e \<Rightarrow> Inl e | Inr (argmax, _) \<Rightarrow> Inr argmax) (wide_scores \<bind> exact_Solve 255 [0, 0]) = Some (Inr [1, 1])"
  by code_simp+

end
