(* ===== verification/Beam.thy ===== *)
theory Beam
  imports SyntaxNet_Prelude "HOL-Library.Multiset"
begin

text \<open>
  The beam of DRAGNN (\<^verbatim>\<open>src/dragnn/core/beam.h\<close>): the states of one example, advanced by predicted
  scores or by the oracle, with the history of beam indices.

  A transition state is a record of the fields that the interface \<open>CloneableTransitionState\<close> exposes and
  the rest of the state, which the beam does not look at; \<open>Clone\<close> copies it. The functions that
  \<open>SetFunctions\<close> installs are a record of functions; performing a transition may abort. A score is a
  \<^verbatim>\<open>float\<close>: not-a-number, an infinity or a finite value, with the comparison of IEEE 754, in which
  not-a-number compares false; the rounding of a finite sum is a parameter, on which nothing is assumed.
  The multimap of candidates is a list in its iteration order: keys descending, equal keys in the order of
  insertion.

  Lemmas: the candidates are the best transitions; a reachable beam never exceeds its size and its
  history leads from every state to an existing state of every earlier step.
\<close>

section \<open>Floating point scores\<close>

datatype float_val = NaN | NInf | Fin real | PInf

fun fadd :: "(real \<Rightarrow> float_val) \<Rightarrow> float_val \<Rightarrow> float_val \<Rightarrow> float_val" where
  "fadd rnd NaN y = NaN"
| "fadd rnd x NaN = NaN"
| "fadd rnd (Fin x) (Fin y) = rnd (x + y)"
| "fadd rnd PInf NInf = NaN"
| "fadd rnd NInf PInf = NaN"
| "fadd rnd PInf y = PInf"
| "fadd rnd x PInf = PInf"
| "fadd rnd NInf y = NInf"
| "fadd rnd x NInf = NInf"

fun fless :: "float_val \<Rightarrow> float_val \<Rightarrow> bool" where
  "fless NaN y = False"
| "fless x NaN = False"
| "fless (Fin x) (Fin y) = (x < y)"
| "fless NInf NInf = False"
| "fless PInf PInf = False"
| "fless NInf y = True"
| "fless x PInf = True"
| "fless x y = False"

definition fzero :: float_val where "fzero = Fin 0"

section \<open>Beams\<close>

record 'c beam_item =
  item_state :: 'c
  item_score :: float_val
  item_beam_index :: int
  item_parent_index :: int
  item_gold :: bool

record 'c beam_functions =
  fn_is_allowed :: "'c beam_item \<Rightarrow> int \<Rightarrow> bool"
  fn_is_final :: "'c beam_item \<Rightarrow> bool"
  fn_perform :: "'c beam_item \<Rightarrow> int \<Rightarrow> 'c beam_item option"
  fn_oracle :: "'c beam_item \<Rightarrow> int list"

record 'c beam =
  bm_max_size :: int
  bm_beam :: "'c beam_item list"
  bm_history :: "int list list"
  bm_num_steps :: int
  bm_track_gold :: bool

definition new_Beam :: "int \<Rightarrow> 'c beam" where
  "new_Beam max_size = \<lparr>bm_max_size = max_size, bm_beam = [], bm_history = [], bm_num_steps = 0, bm_track_gold = False\<rparr>"

definition SetGoldTracking :: "bool \<Rightarrow> 'c beam \<Rightarrow> 'c beam" where
  "SetGoldTracking track_gold b = b\<lparr>bm_track_gold := track_gold\<rparr>"

fun init_loop :: "bool \<Rightarrow> int \<Rightarrow> 'c beam_item list \<Rightarrow> int list \<Rightarrow> ('c beam_item list \<times> int list) option" where
  "init_loop track_gold i [] previous = Some ([], previous)"
| "init_loop track_gold i (s # ss) previous = do {
     previous \<leftarrow> vec_set previous i (item_parent_index s);
     let s = s\<lparr>item_beam_index := i\<rparr>;
     let s = (if \<not> track_gold then s\<lparr>item_gold := False\<rparr> else s);
     (ss, previous) \<leftarrow> init_loop track_gold (i + 1) ss previous;
     Some (s # ss, previous) }"

definition beam_Init :: "'c beam_item list \<Rightarrow> 'c beam \<Rightarrow> 'c beam option" where
  "beam_Init initial_states b = do {
     check (int (length initial_states) \<le> bm_max_size b);
     (states, previous) \<leftarrow> init_loop (bm_track_gold b) 0 initial_states (replicate (nat (bm_max_size b)) (-1));
     Some (b\<lparr>bm_beam := states, bm_history := bm_history b @ [previous]\<rparr>) }"

definition leads_to_gold :: "'c beam_functions \<Rightarrow> bool \<Rightarrow> 'c beam_item \<Rightarrow> int \<Rightarrow> bool" where
  "leads_to_gold fns track_gold state action \<longleftrightarrow> track_gold \<and> item_gold state \<and> action \<in> set (fn_oracle fns state)"

text \<open>The scan of the fast path returns nothing when it meets a not-a-number.\<close>

fun fast_loop :: "('c beam_item \<Rightarrow> int \<Rightarrow> bool) \<Rightarrow> 'c beam_item \<Rightarrow> int \<Rightarrow> float_val list \<Rightarrow> int \<times> float_val \<Rightarrow> (int \<times> float_val) option" where
  "fast_loop allowed state i [] best = Some best"
| "fast_loop allowed state i (score # scores) (best_action, best_score) =
     (if score = NaN then None
      else if allowed state i \<and> fless best_score score then fast_loop allowed state (i + 1) scores (i, score)
      else fast_loop allowed state (i + 1) scores (best_action, best_score))"

definition FastAdvanceFromPrediction ::
  "(real \<Rightarrow> float_val) \<Rightarrow> 'c beam_functions \<Rightarrow> float_val list \<Rightarrow> int \<Rightarrow> 'c beam \<Rightarrow> (bool \<times> 'c beam) option" where
  "FastAdvanceFromPrediction rnd fns transition_matrix num_actions b = do {
     check (bm_max_size b = 1);
     state \<leftarrow> vec_at (bm_beam b) 0;
     case fast_loop (fn_is_allowed fns) state 0 (take (nat num_actions) transition_matrix) (-1, NInf) of
       None \<Rightarrow> Some (False, b)
     | Some (best_action, best_score) \<Rightarrow>
         if best_action = -1 then Some (False, b)
         else do {
           let is_gold = leads_to_gold fns (bm_track_gold b) state best_action;
           state \<leftarrow> fn_perform fns state best_action;
           let state = state\<lparr>item_score := fadd rnd (item_score state) best_score, item_beam_index := 0, item_gold := is_gold\<rparr>;
           states \<leftarrow> vec_set (bm_beam b) 0 state;
           Some (True, b\<lparr>bm_beam := states\<rparr>) } }"

type_synonym candidate = "float_val \<times> int \<times> int"

text \<open>Insertion into a multimap ordered by \<open>std::greater\<close>: behind the entries with an equal key.\<close>

fun emplace :: "candidate \<Rightarrow> candidate list \<Rightarrow> candidate list" where
  "emplace c [] = [c]"
| "emplace c (d # ds) = (if fless (fst d) (fst c) then c # d # ds else d # emplace c ds)"

definition add_candidate :: "int \<Rightarrow> candidate \<Rightarrow> candidate list \<times> float_val \<Rightarrow> (candidate list \<times> float_val) option" where
  "add_candidate max_size c = (\<lambda>(candidates, threshold).
     if int (length candidates) = max_size \<and> fless (fst c) threshold then Some (candidates, threshold)
     else do {
       candidates \<leftarrow> (if int (length candidates) = max_size then do { check (candidates \<noteq> []); Some (butlast candidates) }
                      else Some candidates);
       let candidates = emplace c candidates;
       Some (candidates, fst (last candidates)) })"

text \<open>The two nested loops over states and actions; \<open>Inl\<close> is the early return on a not-a-number.\<close>

fun candidate_loop ::
  "(real \<Rightarrow> float_val) \<Rightarrow> 'c beam_functions \<Rightarrow> float_val list \<Rightarrow> int \<Rightarrow> 'c beam \<Rightarrow> (int \<times> int) list \<Rightarrow> candidate list \<times> float_val
     \<Rightarrow> (unit + candidate list \<times> float_val) option" where
  "candidate_loop rnd fns matrix num_actions b [] acc = Some (Inr acc)"
| "candidate_loop rnd fns matrix num_actions b ((beam_idx, action_idx) # rest) acc = do {
     state \<leftarrow> vec_at (bm_beam b) beam_idx;
     if fn_is_allowed fns state action_idx then do {
       let matrix_idx = action_idx + beam_idx * num_actions;
       check (matrix_idx < int (length matrix));
       entry \<leftarrow> vec_at matrix matrix_idx;
       let resulting_score = fadd rnd (item_score state) entry;
       if resulting_score = NaN then Some (Inl ())
       else do {
         acc \<leftarrow> add_candidate (bm_max_size b) (resulting_score, beam_idx, action_idx) acc;
         candidate_loop rnd fns matrix num_actions b rest acc } }
     else candidate_loop rnd fns matrix num_actions b rest acc }"

fun apply_candidates ::
  "'c beam_functions \<Rightarrow> 'c beam \<Rightarrow> int \<Rightarrow> candidate list \<Rightarrow> int list \<Rightarrow> ('c beam_item list \<times> int list) option" where
  "apply_candidates fns b i [] previous = Some ([], previous)"
| "apply_candidates fns b i ((resulting_score, source_idx, action) # cs) previous = do {
     source \<leftarrow> vec_at (bm_beam b) source_idx;
     let is_gold = leads_to_gold fns (bm_track_gold b) source action;
     new_state \<leftarrow> fn_perform fns source action;
     let new_state = new_state\<lparr>item_score := resulting_score, item_beam_index := i, item_gold := is_gold\<rparr>;
     previous \<leftarrow> vec_set previous i source_idx;
     (new_beam, previous) \<leftarrow> apply_candidates fns b (i + 1) cs previous;
     Some (new_state # new_beam, previous) }"

definition BeamAdvanceFromPrediction ::
  "(real \<Rightarrow> float_val) \<Rightarrow> 'c beam_functions \<Rightarrow> float_val list \<Rightarrow> int \<Rightarrow> 'c beam \<Rightarrow> (bool \<times> 'c beam) option" where
  "BeamAdvanceFromPrediction rnd fns matrix num_actions b = do {
     r \<leftarrow> candidate_loop rnd fns matrix num_actions b
            (List.product [0..int (length (bm_beam b)) - 1] [0..num_actions - 1]) ([], NInf);
     case r of
       Inl _ \<Rightarrow> Some (False, b)
     | Inr (candidates, _) \<Rightarrow> do {
         (new_beam, previous) \<leftarrow> apply_candidates fns b 0 candidates (replicate (nat (bm_max_size b)) (-1));
         Some (True, b\<lparr>bm_beam := new_beam, bm_history := bm_history b @ [previous]\<rparr>) } }"

definition AdvanceFromPrediction ::
  "(real \<Rightarrow> float_val) \<Rightarrow> 'c beam_functions \<Rightarrow> float_val list \<Rightarrow> int \<Rightarrow> 'c beam \<Rightarrow> (bool \<times> 'c beam) option" where
  "AdvanceFromPrediction rnd fns matrix num_actions b = do {
     check (int (length matrix) = bm_max_size b * num_actions);
     (success, b) \<leftarrow> (if bm_max_size b = 1 then FastAdvanceFromPrediction rnd fns matrix num_actions b
                       else BeamAdvanceFromPrediction rnd fns matrix num_actions b);
     Some (if success then (True, b\<lparr>bm_num_steps := bm_num_steps b + 1\<rparr>) else (False, b)) }"

fun oracle_loop :: "'c beam_functions \<Rightarrow> int \<Rightarrow> 'c beam_item list \<Rightarrow> int list \<Rightarrow> ('c beam_item list \<times> int list) option" where
  "oracle_loop fns i [] previous = Some ([], previous)"
| "oracle_loop fns i (s # ss) previous = do {
     previous \<leftarrow> vec_set previous i i;
     s \<leftarrow> (if fn_is_final fns s then Some s
           else do {
             oracle_label \<leftarrow> vec_at (fn_oracle fns s) 0;
             s \<leftarrow> fn_perform fns s oracle_label;
             Some (s\<lparr>item_score := fzero, item_beam_index := i\<rparr>) });
     (ss, previous) \<leftarrow> oracle_loop fns (i + 1) ss previous;
     Some (s # ss, previous) }"

definition AdvanceFromOracle :: "'c beam_functions \<Rightarrow> 'c beam \<Rightarrow> 'c beam option" where
  "AdvanceFromOracle fns b = do {
     (states, previous) \<leftarrow> oracle_loop fns 0 (bm_beam b) (replicate (nat (bm_max_size b)) (-1));
     Some (b\<lparr>bm_beam := states,
             bm_history := (if bm_max_size b > 1 then bm_history b @ [previous] else bm_history b),
             bm_num_steps := bm_num_steps b + 1\<rparr>) }"

definition IsTerminal :: "'c beam_functions \<Rightarrow> 'c beam \<Rightarrow> bool" where
  "IsTerminal fns b \<longleftrightarrow> list_all (fn_is_final fns) (bm_beam b)"

definition beam_Reset :: "'c beam \<Rightarrow> 'c beam" where
  "beam_Reset b = b\<lparr>bm_beam := [], bm_history := [], bm_num_steps := 0\<rparr>"

definition SetMaxSize :: "int \<Rightarrow> 'c beam \<Rightarrow> 'c beam" where
  "SetMaxSize max_size b = beam_Reset (b\<lparr>bm_max_size := max_size\<rparr>)"

fun previous_loop :: "int list list \<Rightarrow> int \<Rightarrow> int option" where
  "previous_loop [] beam_index = Some beam_index"
| "previous_loop (row # rows) beam_index = do {
     beam_index \<leftarrow> vec_at row beam_index;
     previous_loop rows beam_index }"

definition FindPreviousIndex :: "int \<Rightarrow> int \<Rightarrow> 'c beam \<Rightarrow> int option" where
  "FindPreviousIndex current_index step b = do {
     check (bm_max_size b > 1 \<longrightarrow> bm_num_steps b = int (length (bm_history b)) - 1);
     if step < 0 \<or> step > bm_num_steps b then Some (-1)
     else if current_index < 0 \<or> current_index \<ge> bm_max_size b then Some (-1)
     else if bm_max_size b = 1 then Some 0
     else do {
       newest \<leftarrow> vec_at (bm_history b) (int (length (bm_history b)) - 1);
       source \<leftarrow> vec_at newest current_index;
       if source = -1 then Some (-1)
       else do {
         beam_index \<leftarrow> previous_loop (rev (drop (nat step) (bm_history b))) current_index;
         check (beam_index \<ge> 0);
         Some beam_index } } }"

definition beam_history :: "'c beam \<Rightarrow> (int list list \<times> 'c beam) option" where
  "beam_history b =
     (if bm_max_size b = 1 then do {
        s \<leftarrow> vec_at (bm_beam b) 0;
        let history = [item_parent_index s] # replicate (nat (bm_num_steps b)) [0];
        Some (history, b\<lparr>bm_history := history\<rparr>) }
      else Some (bm_history b, b))"

definition ContainsGold :: "'c beam \<Rightarrow> bool" where
  "ContainsGold b \<longleftrightarrow> bm_track_gold b \<and> list_ex item_gold (bm_beam b)"

section \<open>The order of scores\<close>

fun score_rank :: "float_val \<Rightarrow> int \<times> real" where
  "score_rank NaN = (0, 0)"
| "score_rank NInf = (1, 0)"
| "score_rank (Fin x) = (2, x)"
| "score_rank PInf = (3, 0)"

instantiation float_val :: linorder
begin

definition less_eq_float_val :: "float_val \<Rightarrow> float_val \<Rightarrow> bool" where
  "x \<le> y \<longleftrightarrow> fst (score_rank x) < fst (score_rank y) \<or> fst (score_rank x) = fst (score_rank y) \<and> snd (score_rank x) \<le> snd (score_rank y)"

definition less_float_val :: "float_val \<Rightarrow> float_val \<Rightarrow> bool" where
  "x < y \<longleftrightarrow> x \<le> y \<and> \<not> y \<le> (x :: float_val)"

instance
proof
  fix x y z :: float_val
  show "x < y \<longleftrightarrow> x \<le> y \<and> \<not> y \<le> x" by (rule less_float_val_def)
  show "x \<le> x" by (simp add: less_eq_float_val_def)
  show "x \<le> y \<Longrightarrow> y \<le> z \<Longrightarrow> x \<le> z" by (auto simp: less_eq_float_val_def)
  show "x \<le> y \<or> y \<le> x" by (auto simp: less_eq_float_val_def)
  show "x \<le> y \<Longrightarrow> y \<le> x \<Longrightarrow> x = y" by (cases x; cases y) (auto simp: less_eq_float_val_def)
qed

end

lemma fless_less: "x \<noteq> NaN \<Longrightarrow> y \<noteq> NaN \<Longrightarrow> fless x y \<longleftrightarrow> x < y"
  by (cases x; cases y) (auto simp: less_float_val_def less_eq_float_val_def)

lemma Fin_le [simp]: "Fin x \<le> Fin y \<longleftrightarrow> x \<le> y"
  by (simp add: less_eq_float_val_def)

section \<open>The candidates are the best transitions\<close>

text \<open>\<open>cs\<close> holds \<open>k\<close> elements of \<open>all\<close> with the greatest keys, descending; \<open>rest\<close> are the others.\<close>

definition best_of :: "nat \<Rightarrow> candidate list \<Rightarrow> candidate list \<Rightarrow> candidate list \<Rightarrow> bool" where
  "best_of k all cs rest \<longleftrightarrow> mset all = mset cs + mset rest \<and> length cs = min k (length all) \<and>
     sorted_wrt (\<lambda>c d. fst d \<le> fst c) cs \<and> (\<forall>c \<in> set cs. \<forall>d \<in> set rest. fst d \<le> fst c)"

lemma emplace_mset: "mset (emplace c cs) = add_mset c (mset cs)"
  by (induction cs) auto

lemma emplace_set [simp]: "set (emplace c cs) = insert c (set cs)"
  by (induction cs) auto

lemma emplace_length [simp]: "length (emplace c cs) = Suc (length cs)"
  by (induction cs) auto

lemma emplace_nonempty [simp]: "emplace c cs \<noteq> []"
  by (cases cs) auto

lemma emplace_sorted:
  assumes "sorted_wrt (\<lambda>c d. fst d \<le> fst c) cs" and "\<forall>d \<in> set (c # cs). fst d \<noteq> NaN"
  shows "sorted_wrt (\<lambda>c d. fst d \<le> fst c) (emplace c cs)"
  using assms
proof (induction cs)
  case (Cons d ds)
  have f: "fless (fst d) (fst c) \<longleftrightarrow> fst d < fst c" using Cons.prems(2) by (simp add: fless_less)
  show ?case
  proof (cases "fst d < fst c")
    case True
    then show ?thesis using Cons.prems(1) f by (auto intro: order_trans)
  next
    case False
    then show ?thesis using Cons f by auto
  qed
qed simp

lemma sorted_last_least:
  "sorted_wrt (\<lambda>c d. fst d \<le> fst c) cs \<Longrightarrow> cs \<noteq> [] \<Longrightarrow> c \<in> set cs \<Longrightarrow> fst (last cs) \<le> (fst c :: float_val)"
  by (induction cs) (auto split: if_splits)

lemma sorted_butlast: "sorted_wrt P cs \<Longrightarrow> sorted_wrt P (butlast cs)"
  by (induction cs) (auto dest: in_set_butlastD)

lemma add_candidate_best:
  assumes "best_of k all cs rest" and "0 < k" and "th = (if cs = [] then NInf else fst (last cs))" and "\<forall>d \<in> set (c # all). fst d \<noteq> NaN"
  shows "\<exists>cs' rest'. add_candidate (int k) c (cs, th) = Some (cs', fst (last cs')) \<and> cs' \<noteq> [] \<and> best_of k (all @ [c]) cs' rest'"
proof -
  note b = assms(1) [unfolded best_of_def]
  have sub: "set cs \<subseteq> set all" "set rest \<subseteq> set all"
    using b by (metis set_mset_mset set_mset_union Un_upper1, metis set_mset_mset set_mset_union Un_upper2)
  have ok: "\<forall>d \<in> set (c # cs). fst d \<noteq> NaN" using assms(4) sub(1) by auto
  show ?thesis
  proof (cases "length cs = k")
    case False
    then have l: "length cs = length all" "length all < k" using b by auto
    have "length rest = 0" using b l(1) by (metis add_cancel_right_right size_mset size_union)
    then have r: "rest = []" by simp
    have "best_of k (all @ [c]) (emplace c cs) []"
      using b l r emplace_sorted [OF _ ok] by (auto simp: best_of_def emplace_mset)
    moreover have "add_candidate (int k) c (cs, th) = Some (emplace c cs, fst (last (emplace c cs)))"
      using False by (simp add: add_candidate_def Let_def)
    ultimately show ?thesis using emplace_nonempty by blast
  next
    case True
    then have ne: "cs \<noteq> []" using assms(2) by auto
    then have th: "th = fst (last cs)" using assms(3) by simp
    have lok: "fst (last cs) \<noteq> NaN" using ok ne by (metis last_in_set list.set_intros(2))
    have f: "fless (fst c) th \<longleftrightarrow> fst c < fst (last cs)" using ok lok th by (simp add: fless_less)
    note least = sorted_last_least [of cs, OF _ ne]
    show ?thesis
    proof (cases "fst c < fst (last cs)")
      case True
      have "fst c \<le> fst d" if "d \<in> set cs" for d using least [of d] b that True by (meson less_le_trans less_imp_le)
      then have "best_of k (all @ [c]) cs (c # rest)" using b \<open>length cs = k\<close> by (auto simp: best_of_def)
      moreover have "add_candidate (int k) c (cs, th) = Some (cs, fst (last cs))"
        using True f th \<open>length cs = k\<close> by (simp add: add_candidate_def)
      ultimately show ?thesis using ne by blast
    next
      case False
      let ?bl = "butlast cs" and ?l = "last cs"
      have bl: "cs = ?bl @ [?l]" using ne by simp
      have sb: "sorted_wrt (\<lambda>c d. fst d \<le> fst c) ?bl" using b sorted_butlast by blast
      have okb: "\<forall>d \<in> set (c # ?bl). fst d \<noteq> NaN" using ok by (auto dest: in_set_butlastD)
      have m: "mset cs = add_mset ?l (mset ?bl)" by (subst bl) simp
      have len: "length (emplace c ?bl) = k" using \<open>length cs = k\<close> assms(2) by simp
      have bound: "fst d \<le> fst e" if "e \<in> set (emplace c ?bl)" "d \<in> set (?l # rest)" for d e
      proof (cases "e = c")
        case True
        have "fst d \<le> fst ?l" using that(2) b ne by (metis insert_iff last_in_set list.simps(15) order_refl)
        then show ?thesis using False True by simp
      next
        case ne': False
        then have "e \<in> set cs" using that(1) by (auto dest: in_set_butlastD)
        then have "fst ?l \<le> fst e" using least b by blast
        then show ?thesis using that(2) b \<open>e \<in> set cs\<close> by (metis set_ConsD)
      qed
      have "best_of k (all @ [c]) (emplace c ?bl) (?l # rest)"
        unfolding best_of_def
      proof (intro conjI)
        show "mset (all @ [c]) = mset (emplace c ?bl) + mset (?l # rest)" using b m by (simp add: emplace_mset)
        show "length (emplace c ?bl) = min k (length (all @ [c]))" using len b \<open>length cs = k\<close> by auto
        show "sorted_wrt (\<lambda>c d. fst d \<le> fst c) (emplace c ?bl)" by (rule emplace_sorted [OF sb okb])
        show "\<forall>c \<in> set (emplace c ?bl). \<forall>d \<in> set (?l # rest). fst d \<le> fst c" using bound by blast
      qed
      moreover have "add_candidate (int k) c (cs, th) = Some (emplace c ?bl, fst (last (emplace c ?bl)))"
        using False f ne \<open>length cs = k\<close> by (simp add: add_candidate_def Let_def)
      ultimately show ?thesis using emplace_nonempty by blast
    qed
  qed
qed

lemma best_of_sort:
  assumes "best_of k all cs rest"
  shows "map fst cs = take k (rev (sort (map fst all)))"
proof -
  note b = assms [unfolded best_of_def]
  let ?r = "rev (sort (map fst rest))"
  have s: "sorted_wrt (\<ge>) (map fst cs @ ?r)"
    using b by (auto simp: sorted_wrt_append sorted_wrt_map sorted_wrt_rev)
  have "sort (map fst all) = rev (map fst cs @ ?r)"
  proof (rule properties_for_sort)
    show "mset (rev (map fst cs @ ?r)) = mset (map fst all)" using b by (simp add: add.commute)
    show "sorted (rev (map fst cs @ ?r))" using s by (simp add: sorted_wrt_rev del: rev_append)
  qed
  then have eq: "rev (sort (map fst all)) = map fst cs @ ?r" by simp
  have "length all = length cs + length rest" using b by (metis size_mset size_union)
  then have "take k ?r = take k ?r \<and> (length cs < k \<longrightarrow> rest = [])" using b by auto
  then show ?thesis using eq b by (cases "length cs < k") auto
qed

text \<open>All the transitions that a beam allows, in the order of the loops.\<close>

definition resulting_score :: "(real \<Rightarrow> float_val) \<Rightarrow> float_val list \<Rightarrow> int \<Rightarrow> 'c beam \<Rightarrow> int \<times> int \<Rightarrow> float_val" where
  "resulting_score rnd matrix num_actions b = (\<lambda>(i, a). fadd rnd (item_score (bm_beam b ! nat i)) (matrix ! nat (a + i * num_actions)))"

definition transitions :: "(real \<Rightarrow> float_val) \<Rightarrow> 'c beam_functions \<Rightarrow> float_val list \<Rightarrow> int \<Rightarrow> 'c beam \<Rightarrow> (int \<times> int) list \<Rightarrow> candidate list" where
  "transitions rnd fns matrix num_actions b pairs =
     map (\<lambda>p. (resulting_score rnd matrix num_actions b p, p))
       (filter (\<lambda>(i, a). fn_is_allowed fns (bm_beam b ! nat i) a) pairs)"

abbreviation beam_pairs :: "'c beam \<Rightarrow> int \<Rightarrow> (int \<times> int) list" where
  "beam_pairs b num_actions \<equiv> List.product [0..int (length (bm_beam b)) - 1] [0..num_actions - 1]"

lemma transitions_Cons:
  "transitions rnd fns matrix n b ((i, a) # ps) =
     (if fn_is_allowed fns (bm_beam b ! nat i) a then [(resulting_score rnd matrix n b (i, a), i, a)] else []) @ transitions rnd fns matrix n b ps"
  by (simp add: transitions_def)

lemma matrix_index:
  assumes "0 \<le> i" and "i < m" and "0 \<le> a" and "a < n" and "int (length matrix) = k * n" and "m \<le> k"
  shows "0 \<le> a + i * n" "a + i * n < int (length matrix)"
proof -
  have "a + i * n < (i + 1) * n" using assms(4) by (simp add: algebra_simps)
  also have "\<dots> \<le> k * n" using assms by (intro mult_right_mono) auto
  finally show "a + i * n < int (length matrix)" using assms(5) by simp
  show "0 \<le> a + i * n" using assms by simp
qed

lemma candidate_loop_best:
  assumes "best_of k all cs rest" and "0 < k" and "bm_max_size b = int k" and "th = (if cs = [] then NInf else fst (last cs))"
    and "\<forall>(i, a) \<in> set ps. 0 \<le> i \<and> i < int (length (bm_beam b)) \<and> 0 \<le> a \<and> a < n"
    and "int (length matrix) = bm_max_size b * n" and "int (length (bm_beam b)) \<le> bm_max_size b"
    and "\<forall>c \<in> set (all @ transitions rnd fns matrix n b ps). fst c \<noteq> NaN"
  shows "\<exists>cs' th' rest'. candidate_loop rnd fns matrix n b ps (cs, th) = Some (Inr (cs', th')) \<and>
    best_of k (all @ transitions rnd fns matrix n b ps) cs' rest'"
  using assms(1,4,5,8)
proof (induction ps arbitrary: all cs rest th)
  case Nil
  then show ?case by (auto simp: transitions_def)
next
  case (Cons p ps)
  obtain i a where p: "p = (i, a)" by fastforce
  have i: "0 \<le> i" "i < int (length (bm_beam b))" "0 \<le> a" "a < n" using Cons.prems(3) p by auto
  note mi = matrix_index [OF i assms(6,7)]
  let ?st = "bm_beam b ! nat i" and ?c = "(resulting_score rnd matrix n b (i, a), i, a)"
  have rs: "fadd rnd (item_score ?st) (matrix ! nat (a + i * n)) = fst ?c" by (simp add: resulting_score_def)
  show ?case
  proof (cases "fn_is_allowed fns ?st a")
    case True
    then have nn: "fst ?c \<noteq> NaN" and ok: "\<forall>d \<in> set (?c # all). fst d \<noteq> NaN"
      using Cons.prems(4) p by (auto simp: transitions_Cons)
    from add_candidate_best [OF Cons.prems(1) assms(2) Cons.prems(2) ok] obtain cs1 rest1 where
      c1: "add_candidate (int k) ?c (cs, th) = Some (cs1, fst (last cs1))" "cs1 \<noteq> []" "best_of k (all @ [?c]) cs1 rest1" by blast
    have "\<exists>cs' th' rest'. candidate_loop rnd fns matrix n b ps (cs1, fst (last cs1)) = Some (Inr (cs', th')) \<and>
        best_of k ((all @ [?c]) @ transitions rnd fns matrix n b ps) cs' rest'"
      using Cons.prems(3,4) p True c1(2) by (intro Cons.IH [OF c1(3)]) (auto simp: transitions_Cons)
    moreover have "candidate_loop rnd fns matrix n b (p # ps) (cs, th) = candidate_loop rnd fns matrix n b ps (cs1, fst (last cs1))"
      using True i mi rs nn c1(1) assms(3) p by simp
    ultimately show ?thesis using True p by (simp add: transitions_Cons)
  next
    case False
    have "\<exists>cs' th' rest'. candidate_loop rnd fns matrix n b ps (cs, th) = Some (Inr (cs', th')) \<and>
        best_of k (all @ transitions rnd fns matrix n b ps) cs' rest'"
      using Cons.prems(2-4) p by (intro Cons.IH [OF Cons.prems(1)]) (auto simp: transitions_Cons False)
    then show ?thesis using False i p by (simp add: transitions_Cons)
  qed
qed

text \<open>The state that a candidate turns into.\<close>

definition successor :: "'c beam_functions \<Rightarrow> 'c beam \<Rightarrow> int \<Rightarrow> candidate \<Rightarrow> 'c beam_item option" where
  "successor fns b slot = (\<lambda>(score, i, a). do {
     s \<leftarrow> fn_perform fns (bm_beam b ! nat i) a;
     Some (s\<lparr>item_score := score, item_beam_index := slot, item_gold := leads_to_gold fns (bm_track_gold b) (bm_beam b ! nat i) a\<rparr>) })"

lemma apply_candidates_successors:
  assumes "\<forall>(score, i, a) \<in> set cs. 0 \<le> i \<and> i < int (length (bm_beam b)) \<and> fn_perform fns (bm_beam b ! nat i) a \<noteq> None"
    and "length pre + length cs \<le> m" and "length pre = j"
  shows "\<exists>items. apply_candidates fns b (int j) cs (pre @ replicate (m - j) (-1)) =
      Some (items, pre @ map (fst \<circ> snd) cs @ replicate (m - j - length cs) (-1)) \<and>
    length items = length cs \<and> (\<forall>s < length cs. successor fns b (int (j + s)) (cs ! s) = Some (items ! s))"
  using assms
proof (induction cs arbitrary: pre j)
  case (Cons c cs)
  obtain score i a where c: "c = (score, i, a)" by (metis prod_cases3)
  have i: "0 \<le> i" "i < int (length (bm_beam b))" using Cons.prems(1) c by auto
  obtain s where s: "fn_perform fns (bm_beam b ! nat i) a = Some s" using Cons.prems(1) c by auto
  let ?new = "s\<lparr>item_score := score, item_beam_index := int j, item_gold := leads_to_gold fns (bm_track_gold b) (bm_beam b ! nat i) a\<rparr>"
  obtain r where r: "m - j = Suc r" using Cons.prems(2,3) by (cases "m - j") auto
  then have r': "m - Suc j = r" by simp
  have set: "vec_set (pre @ replicate (m - j) (-1)) (int j) i = Some ((pre @ [i]) @ replicate (m - Suc j) (-1))"
    using Cons.prems(3) r r' by (simp add: vec_set_def list_update_append)
  from Cons.IH [of "pre @ [i]" "Suc j"] Cons.prems obtain items where
    it: "apply_candidates fns b (int (Suc j)) cs ((pre @ [i]) @ replicate (m - Suc j) (-1)) =
        Some (items, (pre @ [i]) @ map (fst \<circ> snd) cs @ replicate (m - Suc j - length cs) (-1))"
      "length items = length cs" "\<forall>t < length cs. successor fns b (int (Suc j + t)) (cs ! t) = Some (items ! t)" by auto
  have "apply_candidates fns b (int j) (c # cs) (pre @ replicate (m - j) (-1)) =
      Some (?new # items, pre @ map (fst \<circ> snd) (c # cs) @ replicate (m - j - length (c # cs)) (-1))"
    using c i s set it(1) by (simp add: Let_def add.commute)
  moreover have "successor fns b (int (j + t)) ((c # cs) ! t) = Some ((?new # items) ! t)" if "t < length (c # cs)" for t
    using that it(3) c s by (cases t) (auto simp: successor_def)
  ultimately show ?case using it(2) by (intro exI [of _ "?new # items"]) auto
qed simp

lemma transitions_valid:
  assumes "c \<in> set (transitions rnd fns matrix n b (beam_pairs b n))"
  shows "0 \<le> fst (snd c) \<and> fst (snd c) < int (length (bm_beam b)) \<and> fn_is_allowed fns (bm_beam b ! nat (fst (snd c))) (snd (snd c))"
  using assms by (auto simp: transitions_def)

lemma BeamAdvance_best:
  assumes "0 < k" and "bm_max_size b = int k" and "int (length matrix) = bm_max_size b * n" and "length (bm_beam b) \<le> k"
    and "\<forall>c \<in> set (transitions rnd fns matrix n b (beam_pairs b n)). fst c \<noteq> NaN \<and> fn_perform fns (bm_beam b ! nat (fst (snd c))) (snd (snd c)) \<noteq> None"
  shows "\<exists>cs rest items. best_of k (transitions rnd fns matrix n b (beam_pairs b n)) cs rest \<and> length items = length cs \<and>
    (\<forall>s < length cs. successor fns b (int s) (cs ! s) = Some (items ! s)) \<and>
    BeamAdvanceFromPrediction rnd fns matrix n b =
      Some (True, b\<lparr>bm_beam := items, bm_history := bm_history b @ [map (fst \<circ> snd) cs @ replicate (k - length cs) (-1)]\<rparr>)"
proof -
  let ?ps = "beam_pairs b n" and ?all = "transitions rnd fns matrix n b (beam_pairs b n)"
  have "best_of k [] [] []" by (simp add: best_of_def)
  from candidate_loop_best [OF this assms(1,2), of NInf ?ps n matrix rnd fns] assms(2-5) obtain cs th rest where
    c: "candidate_loop rnd fns matrix n b ?ps ([], NInf) = Some (Inr (cs, th))" "best_of k ?all cs rest" by auto
  have sub: "set cs \<subseteq> set ?all" using c(2) by (metis best_of_def set_mset_mset set_mset_union Un_upper1)
  have le: "length cs \<le> k" using c(2) by (simp add: best_of_def)
  have ok: "\<forall>(score, i, a) \<in> set cs. 0 \<le> i \<and> i < int (length (bm_beam b)) \<and> fn_perform fns (bm_beam b ! nat i) a \<noteq> None"
    using sub assms(5) transitions_valid [of _ rnd fns matrix n b] by fastforce
  from apply_candidates_successors [OF ok, of "[]" k 0] le obtain items where
    i: "apply_candidates fns b 0 cs (replicate k (-1)) = Some (items, map (fst \<circ> snd) cs @ replicate (k - length cs) (-1))"
      "length items = length cs" "\<forall>s < length cs. successor fns b (int s) (cs ! s) = Some (items ! s)" by auto
  then show ?thesis using c assms(2) by (intro exI [of _ cs] exI [of _ rest] exI [of _ items]) (simp add: BeamAdvanceFromPrediction_def)
qed

lemma successor_score: "successor fns b s c = Some x \<Longrightarrow> item_score x = fst c \<and> item_beam_index x = s"
  by (cases c) (auto simp: successor_def bind_eq_Some_conv)

text \<open>C19: Beam search keeps the best transitions. When no score is not-a-number, advancing a beam of
  more than one slot produces exactly the highest resulting scores over all states of the beam and all
  allowed actions, as many as there are slots, in descending order; every new state is the result of
  performing its action on a copy of its source, the transitions taken are distinct, and the new row of
  the history records the sources and marks the empty slots.\<close>

theorem beam_keeps_best:
  assumes "1 < k" and "bm_max_size b = int k" and "int (length matrix) = bm_max_size b * n" and "length (bm_beam b) \<le> k"
    and "\<forall>c \<in> set (transitions rnd fns matrix n b (beam_pairs b n)). fst c \<noteq> NaN \<and> fn_perform fns (bm_beam b ! nat (fst (snd c))) (snd (snd c)) \<noteq> None"
  shows "\<exists>b' cs. AdvanceFromPrediction rnd fns matrix n b = Some (True, b') \<and>
    map item_score (bm_beam b') = take k (rev (sort (map fst (transitions rnd fns matrix n b (beam_pairs b n))))) \<and>
    set cs \<subseteq> set (transitions rnd fns matrix n b (beam_pairs b n)) \<and> distinct cs \<and> length (bm_beam b') = length cs \<and>
    (\<forall>s < length cs. successor fns b (int s) (cs ! s) = Some (bm_beam b' ! s)) \<and>
    bm_history b' = bm_history b @ [map (fst \<circ> snd) cs @ replicate (k - length cs) (-1)] \<and> bm_num_steps b' = bm_num_steps b + 1"
proof -
  let ?all = "transitions rnd fns matrix n b (beam_pairs b n)"
  from BeamAdvance_best [OF _ assms(2-5)] assms(1) obtain cs rest items where
    c: "best_of k ?all cs rest" "length items = length cs" "\<forall>s < length cs. successor fns b (int s) (cs ! s) = Some (items ! s)"
      "BeamAdvanceFromPrediction rnd fns matrix n b =
        Some (True, b\<lparr>bm_beam := items, bm_history := bm_history b @ [map (fst \<circ> snd) cs @ replicate (k - length cs) (-1)]\<rparr>)" by auto
  have m: "mset ?all = mset cs + mset rest" using c(1) by (simp add: best_of_def)
  have "distinct ?all" by (auto simp: transitions_def distinct_map distinct_product intro!: inj_onI)
  then have "distinct (cs @ rest)" using m by (metis mset_append mset_eq_imp_distinct_iff)
  moreover have "set cs \<subseteq> set ?all" using m by (metis set_mset_mset set_mset_union Un_upper1)
  moreover have "map item_score items = map fst cs"
    using c(2,3) successor_score by (intro nth_equalityI) fastforce+
  ultimately show ?thesis using c(2-4) best_of_sort [OF c(1)] assms(1-3)
    by (intro exI [of _ "b\<lparr>bm_beam := items, bm_history := bm_history b @ [map (fst \<circ> snd) cs @ replicate (k - length cs) (-1)], bm_num_steps := bm_num_steps b + 1\<rparr>"]
        exI [of _ cs]) (simp add: AdvanceFromPrediction_def)
qed

definition demo_functions :: "int beam_functions" where
  "demo_functions = \<lparr>fn_is_allowed = (\<lambda>s a. True), fn_is_final = (\<lambda>s. False),
     fn_perform = (\<lambda>s a. Some (s\<lparr>item_state := item_state s * 10 + a\<rparr>)), fn_oracle = (\<lambda>s. [0])\<rparr>"

definition demo_beam :: "int beam" where
  "demo_beam = (new_Beam 2)\<lparr>bm_beam := [\<lparr>item_state = 1, item_score = Fin 1, item_beam_index = 0, item_parent_index = 0, item_gold = False\<rparr>,
      \<lparr>item_state = 2, item_score = Fin 0, item_beam_index = 1, item_parent_index = 0, item_gold = False\<rparr>],
      bm_history := [[0, 0]]\<rparr>"

lemma demo_transitions:
  "transitions Fin demo_functions [Fin 1, Fin 5, Fin 4, Fin 9] 2 demo_beam (beam_pairs demo_beam 2) =
     [(Fin 2, 0, 0), (Fin 6, 0, 1), (Fin 4, 1, 0), (Fin 9, 1, 1)]"
proof -
  have "[0..1] = [0, 1 :: int]" by (simp add: upto_rec1)
  then show ?thesis by (simp add: transitions_def resulting_score_def demo_functions_def demo_beam_def new_Beam_def)
qed

theorem beam_keeps_best_witness:
  "\<exists>b' (cs :: candidate list). AdvanceFromPrediction Fin demo_functions [Fin 1, Fin 5, Fin 4, Fin 9] 2 demo_beam = Some (True, b') \<and>
    map item_score (bm_beam b') = [Fin 9, Fin 6] \<and> distinct cs \<and> length (bm_beam b') = length cs \<and>
    bm_history b' = [[0, 0]] @ [map (fst \<circ> snd) cs @ replicate (2 - length cs) (-1)] \<and> bm_num_steps b' = 1"
proof -
  have d: "bm_max_size demo_beam = 2" "length (bm_beam demo_beam) = 2" "bm_history demo_beam = [[0, 0]]" "bm_num_steps demo_beam = 0"
    by (simp_all add: demo_beam_def new_Beam_def)
  have p: "fn_perform demo_functions s a \<noteq> None" for s a by (simp add: demo_functions_def)
  have s: "take 2 (rev (sort (map fst [(Fin 2, 0 :: int, 0 :: int), (Fin 6, 0, 1), (Fin 4, 1, 0), (Fin 9, 1, 1)]))) = [Fin 9, Fin 6]" by simp
  have "\<exists>b' (cs :: candidate list). AdvanceFromPrediction Fin demo_functions [Fin 1, Fin 5, Fin 4, Fin 9] 2 demo_beam = Some (True, b') \<and>
    map item_score (bm_beam b') = take 2 (rev (sort (map fst [(Fin 2, 0 :: int, 0 :: int), (Fin 6, 0, 1), (Fin 4, 1, 0), (Fin 9, 1, 1)]))) \<and>
    set cs \<subseteq> set [(Fin 2, 0, 0), (Fin 6, 0, 1), (Fin 4, 1, 0), (Fin 9, 1, 1)] \<and> distinct cs \<and> length (bm_beam b') = length cs \<and>
    (\<forall>s < length cs. successor demo_functions demo_beam (int s) (cs ! s) = Some (bm_beam b' ! s)) \<and>
    bm_history b' = bm_history demo_beam @ [map (fst \<circ> snd) cs @ replicate (2 - length cs) (-1)] \<and> bm_num_steps b' = bm_num_steps demo_beam + 1"
    by (rule beam_keeps_best [of 2 demo_beam "[Fin 1, Fin 5, Fin 4, Fin 9]" 2 Fin demo_functions, unfolded demo_transitions])
      (simp_all add: d p)
  then obtain b' and cs :: "candidate list" where r: "AdvanceFromPrediction Fin demo_functions [Fin 1, Fin 5, Fin 4, Fin 9] 2 demo_beam = Some (True, b')"
    "map item_score (bm_beam b') = [Fin 9, Fin 6]" "distinct cs" "length (bm_beam b') = length cs"
    "bm_history b' = [[0, 0]] @ [map (fst \<circ> snd) cs @ replicate (2 - length cs) (-1)]" "bm_num_steps b' = 0 + 1"
    unfolding s d by (elim exE conjE) (rule that; assumption)
  show ?thesis by (intro exI [of _ b'] exI [of _ cs]) (simp add: r)
qed

section \<open>The history of a beam\<close>

text \<open>A row of the history written from slot \<open>i\<close> on.\<close>

definition written :: "int list \<Rightarrow> int \<Rightarrow> int list \<Rightarrow> int list \<Rightarrow> bool" where
  "written row i vs row' \<longleftrightarrow> 0 \<le> i \<and> nat i + length vs \<le> length row \<and> row' = take (nat i) row @ vs @ drop (nat i + length vs) row"

lemma written_Nil [simp]: "0 \<le> i \<Longrightarrow> nat i \<le> length row \<Longrightarrow> written row i [] row' \<longleftrightarrow> row' = row"
  by (auto simp: written_def)

lemma written_Cons:
  assumes "vec_set row i v = Some r" and "written r (i + 1) vs row'"
  shows "written row i (v # vs) row'"
proof -
  have i: "0 \<le> i" "nat i < length row" "r = row[nat i := v]" using assms(1) by (auto simp: vec_set_eq_Some)
  then have "take (Suc (nat i)) r = take (nat i) row @ [v]" by (simp add: take_Suc_conv_app_nth)
  moreover have "nat (i + 1) = Suc (nat i)" using i(1) by simp
  ultimately show ?thesis using assms(2) i by (auto simp: written_def)
qed

lemma written_fresh: "written (replicate k (-1)) 0 vs row \<longleftrightarrow> length vs \<le> k \<and> row = vs @ replicate (k - length vs) (-1)"
  by (simp add: written_def)

lemma init_loop_written:
  "init_loop g i ss row = Some (ss', row') \<Longrightarrow> 0 \<le> i \<Longrightarrow> nat i \<le> length row \<Longrightarrow>
     written row i (map item_parent_index ss) row' \<and> length ss' = length ss \<and> (\<forall>j < length ss'. item_beam_index (ss' ! j) = i + int j)"
proof (induction g i ss row arbitrary: ss' row' rule: init_loop.induct)
  case (2 g i s ss row)
  from 2(2) obtain r ss'' where r: "vec_set row i (item_parent_index s) = Some r" "init_loop g (i + 1) ss r = Some (ss'', row')"
    "tl ss' = ss''" "length ss' = Suc (length ss'')" "item_beam_index (hd ss') = i"
    by (auto split: Option.bind_splits simp: Let_def)
  then have "nat (i + 1) \<le> length r" using 2(3) by (auto simp: vec_set_eq_Some)
  with 2(1) [OF r(1) refl refl r(2)] 2(3) have IH: "written r (i + 1) (map item_parent_index ss) row'" "length ss'' = length ss"
    "\<forall>j < length ss''. item_beam_index (ss'' ! j) = i + 1 + int j" by auto
  obtain x where "ss' = x # ss''" "item_beam_index x = i" using r(3-5) by (cases ss') auto
  then show ?case using written_Cons [OF r(1) IH(1)] IH(2,3) by (auto simp: nth_Cons')
qed (simp add: written_def)

lemma oracle_loop_written:
  "oracle_loop fns i ss row = Some (ss', row') \<Longrightarrow> 0 \<le> i \<Longrightarrow> nat i \<le> length row \<Longrightarrow> \<forall>j < length ss. item_beam_index (ss ! j) = i + int j \<Longrightarrow>
     written row i [i..i + int (length ss) - 1] row' \<and> length ss' = length ss \<and> (\<forall>j < length ss'. item_beam_index (ss' ! j) = i + int j)"
proof (induction fns i ss row arbitrary: ss' row' rule: oracle_loop.induct)
  case (2 fns i s ss row)
  have s0: "item_beam_index s = i" using 2(5) [rule_format, of 0] by simp
  obtain r where r: "vec_set row i i = Some r" using 2(2) by (auto split: Option.bind_splits)
  let ?step = "if fn_is_final fns s then Some s else vec_at (fn_oracle fns s) 0 \<bind> (\<lambda>l. fn_perform fns s l \<bind>
       (\<lambda>s. Some (s\<lparr>item_score := fzero, item_beam_index := i\<rparr>)))"
  obtain x where x4: "?step = Some x" using 2(2) r by (cases ?step) simp_all
  have xi: "item_beam_index x = i" using x4 s0 by (auto split: if_splits Option.bind_splits)
  obtain ss'' where x: "oracle_loop fns (i + 1) ss r = Some (ss'', row')" "ss' = x # ss''"
    using 2(2) by (simp only: oracle_loop.simps r x4 bind.bind_lunit) (auto split: Option.bind_splits)
  have "nat (i + 1) \<le> length r" using r 2(3) by (auto simp: vec_set_eq_Some)
  moreover have "item_beam_index (ss ! j) = i + 1 + int j" if "j < length ss" for j using 2(5) [rule_format, of "Suc j"] that by simp
  ultimately have IH: "written r (i + 1) [i + 1..i + 1 + int (length ss) - 1] row'" "length ss'' = length ss"
    "\<forall>j < length ss''. item_beam_index (ss'' ! j) = i + 1 + int j"
    using 2(1) [OF r x4 x(1)] 2(3) by auto
  have "[i..i + int (length (s # ss)) - 1] = i # [i + 1..i + 1 + int (length ss) - 1]" by (simp add: upto_rec1 ac_simps)
  then show ?case using written_Cons [OF r IH(1)] IH(2,3) x(2) xi by (auto simp: nth_Cons')
qed (simp add: written_def)

lemma apply_candidates_written:
  "apply_candidates fns b i cs row = Some (ss', row') \<Longrightarrow> 0 \<le> i \<Longrightarrow> nat i \<le> length row \<Longrightarrow>
     written row i (map (fst \<circ> snd) cs) row' \<and> length ss' = length cs \<and> (\<forall>j < length ss'. item_beam_index (ss' ! j) = i + int j) \<and>
     (\<forall>c \<in> set cs. 0 \<le> fst (snd c) \<and> fst (snd c) < int (length (bm_beam b)))"
proof (induction fns b i cs row arbitrary: ss' row' rule: apply_candidates.induct)
  case (2 fns b i sc source_idx action cs row)
  obtain src where src: "vec_at (bm_beam b) source_idx = Some src" using 2(2) by (auto split: Option.bind_splits)
  obtain n where n: "fn_perform fns src action = Some n" using 2(2) src by (auto split: Option.bind_splits)
  obtain r where r: "vec_set row i source_idx = Some r" using 2(2) src n by (auto split: Option.bind_splits)
  obtain x ss'' where x: "apply_candidates fns b (i + 1) cs r = Some (ss'', row')" "ss' = x # ss''" "item_beam_index x = i"
    using 2(2) r n src by (auto split: Option.bind_splits simp: Let_def)
  have "nat (i + 1) \<le> length r" using r 2(3) by (auto simp: vec_set_eq_Some)
  then have IH: "written r (i + 1) (map (fst \<circ> snd) cs) row'" "length ss'' = length cs" "\<forall>j < length ss''. item_beam_index (ss'' ! j) = i + 1 + int j"
     "\<forall>c \<in> set cs. 0 \<le> fst (snd c) \<and> fst (snd c) < int (length (bm_beam b))"
    using 2(1) [OF src refl n refl r x(1)] 2(3) by (auto simp: comp_def)
  show ?case using written_Cons [OF r IH(1)] IH(2-4) x(2,3) src by (auto simp: nth_Cons' vec_at_eq_Some comp_def)
qed (simp add: written_def)

text \<open>
  The runs of a beam of size \<open>k\<close> whose initial states come from a beam of \<open>p\<close> states.
\<close>

inductive beam_run :: "'c beam_functions \<Rightarrow> int \<Rightarrow> int \<Rightarrow> 'c beam \<Rightarrow> bool" for fns k p where
  run_init: "bm_max_size b0 = k \<Longrightarrow> list_all (\<lambda>s. 0 \<le> item_parent_index s \<and> item_parent_index s < p) states \<Longrightarrow>
     beam_Init states (beam_Reset b0) = Some b \<Longrightarrow> beam_run fns k p b"
| run_predict: "beam_run fns k p b \<Longrightarrow> AdvanceFromPrediction rnd fns matrix n b = Some (r, b') \<Longrightarrow> beam_run fns k p b'"
| run_oracle: "beam_run fns k p b \<Longrightarrow> AdvanceFromOracle fns b = Some b' \<Longrightarrow> beam_run fns k p b'"

text \<open>Rows, oldest first, whose entries are slots of the row before: from \<open>m\<close> slots to \<open>n\<close> slots.\<close>

definition row_ok :: "nat \<Rightarrow> int \<Rightarrow> nat \<Rightarrow> int list \<Rightarrow> bool" where
  "row_ok k m n row \<longleftrightarrow> n \<le> k \<and> (\<exists>vs. length vs = n \<and> row = vs @ replicate (k - n) (-1) \<and> (\<forall>v \<in> set vs. 0 \<le> v \<and> v < m))"

fun linked_rows :: "nat \<Rightarrow> int \<Rightarrow> int list list \<Rightarrow> int \<Rightarrow> bool" where
  "linked_rows k m [] n = (n = m)"
| "linked_rows k m (row # rows) n = (\<exists>l. row_ok k m l row \<and> linked_rows k (int l) rows n)"

lemma linked_rows_snoc: "linked_rows k m (rows @ [row]) n \<longleftrightarrow> (\<exists>l l'. linked_rows k m rows l \<and> row_ok k l l' row \<and> n = int l')"
  by (induction rows arbitrary: m) auto

definition beam_inv :: "int \<Rightarrow> int \<Rightarrow> 'c beam \<Rightarrow> bool" where
  "beam_inv k p b \<longleftrightarrow> bm_max_size b = k \<and> bm_num_steps b = int (length (bm_history b)) - 1 \<and> bm_history b \<noteq> [] \<and>
     linked_rows (nat k) p (bm_history b) (int (length (bm_beam b))) \<and> (\<forall>j < length (bm_beam b). item_beam_index (bm_beam b ! j) = int j)"

lemma run_invariant:
  assumes "beam_run fns k p b" and "1 < k"
  shows "beam_inv k p b"
  using assms(1)
proof induction
  case (run_init b0 states b)
  then obtain ss row where r: "init_loop (bm_track_gold b0) 0 states (replicate (nat k) (-1)) = Some (ss, row)"
    "b = b0\<lparr>bm_num_steps := 0, bm_beam := ss, bm_history := [row]\<rparr>"
    by (auto simp: beam_Init_def beam_Reset_def check_def split: Option.bind_splits if_splits)
  have w: "written (replicate (nat k) (-1)) 0 (map item_parent_index states) row" "length ss = length states"
    "\<forall>j < length ss. item_beam_index (ss ! j) = int j"
    using init_loop_written [OF r(1)] by auto
  then show ?case using r(2) run_init(1,2) unfolding beam_inv_def
    by (auto simp: written_fresh row_ok_def list_all_iff intro!: exI [of _ "map item_parent_index states"])
next
  case (run_predict b rnd matrix n r b')
  note inv = run_predict.IH [unfolded beam_inv_def]
  show ?case
  proof (cases r)
    case True
    obtain cs ss row where c: "apply_candidates fns b 0 cs (replicate (nat k) (-1)) = Some (ss, row)"
      "b' = b\<lparr>bm_beam := ss, bm_history := bm_history b @ [row], bm_num_steps := bm_num_steps b + 1\<rparr>"
      using run_predict.hyps(2) True inv assms(2)
      by (auto simp: AdvanceFromPrediction_def BeamAdvanceFromPrediction_def check_def split: Option.bind_splits if_splits sum.splits)
    have w: "written (replicate (nat k) (-1)) 0 (map (fst \<circ> snd) cs) row" "length ss = length cs"
      "\<forall>j < length ss. item_beam_index (ss ! j) = int j" "\<forall>c \<in> set cs. 0 \<le> fst (snd c) \<and> fst (snd c) < int (length (bm_beam b))"
      using apply_candidates_written [OF c(1)] by auto
    have "row_ok (nat k) (int (length (bm_beam b))) (length ss) row"
      using w by (auto simp: written_fresh row_ok_def intro!: exI [of _ "map (fst \<circ> snd) cs"])
    then show ?thesis using c(2) inv w(3) unfolding beam_inv_def by (auto simp: linked_rows_snoc)
  next
    case False
    then have "b' = b" using run_predict.hyps(2) inv assms(2)
      by (auto simp: AdvanceFromPrediction_def BeamAdvanceFromPrediction_def check_def split: Option.bind_splits if_splits sum.splits)
    then show ?thesis using run_predict.IH by simp
  qed
next
  case (run_oracle b b')
  note inv = run_oracle.IH [unfolded beam_inv_def]
  obtain ss row where r: "oracle_loop fns 0 (bm_beam b) (replicate (nat k) (-1)) = Some (ss, row)"
    "b' = b\<lparr>bm_beam := ss, bm_history := bm_history b @ [row], bm_num_steps := bm_num_steps b + 1\<rparr>"
    using run_oracle.hyps(2) inv assms(2) by (auto simp: AdvanceFromOracle_def split: Option.bind_splits)
  have w: "written (replicate (nat k) (-1)) 0 [0..int (length (bm_beam b)) - 1] row" "length ss = length (bm_beam b)"
    "\<forall>j < length ss. item_beam_index (ss ! j) = int j"
    using oracle_loop_written [OF r(1)] inv by auto
  have "row_ok (nat k) (int (length (bm_beam b))) (length ss) row"
    using w by (auto simp: written_fresh row_ok_def intro!: exI [of _ "[0..int (length (bm_beam b)) - 1]"])
  then show ?case using r(2) inv w(3) unfolding beam_inv_def by (auto simp: linked_rows_snoc)
qed

lemma row_ok_at:
  assumes "row_ok k m n row" and "0 \<le> i" and "i < int n"
  shows "\<exists>v. vec_at row i = Some v \<and> 0 \<le> v \<and> v < m"
proof -
  obtain vs where vs: "length vs = n" "row = vs @ replicate (k - n) (-1)" "\<forall>v \<in> set vs. 0 \<le> v \<and> v < m"
    using assms(1) by (auto simp: row_ok_def)
  have "nat i < length vs" using assms(2,3) vs(1) by linarith
  then show ?thesis using vs assms(2,3) by (auto simp: nth_append vec_at_def)
qed

lemma row_ok_empty: "row_ok k m n row \<Longrightarrow> int n \<le> i \<Longrightarrow> i < int k \<Longrightarrow> vec_at row i = Some (-1)"
  by (auto simp: row_ok_def vec_at_def nth_append)

lemma previous_loop_linked:
  "linked_rows k m rows n \<Longrightarrow> 0 \<le> i \<Longrightarrow> i < n \<Longrightarrow> \<exists>j. previous_loop (rev rows) i = Some j \<and> 0 \<le> j \<and> j < m"
proof (induction rows arbitrary: n i rule: rev_induct)
  case (snoc row rows)
  then obtain l l' where l: "linked_rows k m rows l" "row_ok k l l' row" "n = int l'" by (auto simp: linked_rows_snoc)
  then show ?case using row_ok_at [OF l(2), of i] snoc.IH [OF l(1)] snoc.prems(2,3) by auto
qed auto

lemma previous_loop_append: "previous_loop (rows @ rows') i = previous_loop rows i \<bind> previous_loop rows'"
  by (induction rows arbitrary: i) (auto split: Option.bind_splits)

lemma linked_rows_drop: "linked_rows k m rows n \<Longrightarrow> s \<le> length rows \<Longrightarrow> \<exists>l. linked_rows k l (drop s rows) n"
proof (induction s arbitrary: m rows)
  case (Suc s)
  then obtain row rows' where "rows = row # rows'" by (cases rows) auto
  then show ?case using Suc by auto
qed auto

lemma find_previous:
  assumes "beam_inv k p b" and "1 < k" and "0 \<le> step" and "step \<le> bm_num_steps b" and "0 \<le> i" and "i < int (length (bm_beam b))"
  shows "\<exists>j. FindPreviousIndex i step b = Some j \<and> previous_loop (rev (drop (nat step) (bm_history b))) i = Some j \<and> 0 \<le> j"
proof -
  note inv = assms(1) [unfolded beam_inv_def]
  obtain rows row where h: "bm_history b = rows @ [row]" using inv by (metis rev_exhaust)
  obtain l l' where l: "row_ok (nat k) l l' row" "int (length (bm_beam b)) = int l'"
    using inv unfolding h linked_rows_snoc by blast
  obtain v where v: "vec_at row i = Some v" "0 \<le> v" using row_ok_at [OF l(1)] assms(5,6) l(2) by fastforce
  have ik: "i < k" using l assms(2,6) by (auto simp: row_ok_def)
  have "nat step \<le> length (bm_history b)" using assms(3,4) inv by linarith
  then obtain m where "linked_rows (nat k) m (drop (nat step) (bm_history b)) (int (length (bm_beam b)))" using linked_rows_drop inv by metis
  then obtain j where "previous_loop (rev (drop (nat step) (bm_history b))) i = Some j" "0 \<le> j"
    using previous_loop_linked [OF _ assms(5,6)] by blast
  moreover have "vec_at (bm_history b) (int (length (bm_history b)) - 1) = Some row" by (simp add: h)
  ultimately show ?thesis using v ik inv assms(2-5) by (auto simp: FindPreviousIndex_def)
qed


definition demo_states :: "int beam_item list" where
  "demo_states = [\<lparr>item_state = 1, item_score = Fin 1, item_beam_index = 0, item_parent_index = 1, item_gold = False\<rparr>]"


end
