(* ===== verification/Compute_Session.thy ===== *)
theory Compute_Session
  imports Sentence_Model "HOL-Library.Multiset"
begin

text \<open>
  The runtime of DRAGNN around its components: the input batch cache (\<^verbatim>\<open>dragnn/core/input_batch_cache.h\<close>) with
  the batch of sentences (\<^verbatim>\<open>dragnn/io\<close>), the index translator (\<^verbatim>\<open>index_translator.cc\<close>), the compute session
  (\<^verbatim>\<open>compute_session_impl.cc\<close>) and the pool of sessions (\<^verbatim>\<open>compute_session_pool.cc\<close>).

  A component is reached through the virtual functions of \<^verbatim>\<open>interfaces/component.h\<close>, a record of functions on
  its state. A session owns its components: \<open>cs_store\<close> is the heap of components by address, where \<open>None\<close> is a
  component that was deleted, and following a pointer to it is undefined. A \<^verbatim>\<open>std::map\<close> is an association list into which
  a key is inserted once; the loops over all components call functions that touch one component each, so their order
  does not matter. Addresses are not reused.
\<close>

section \<open>Specifications\<close>

text \<open>The messages of \<^verbatim>\<open>spec.proto\<close> and \<^verbatim>\<open>data.proto\<close>, with the fields that the code below reads.\<close>

record registered_module_spec =
  rm_registered_name :: string
  rm_parameters :: "(string \<times> string) list"

record spec_part =
  sp_file_pattern :: string
  sp_file_format :: string
  sp_record_format :: string

record spec_resource =
  sr_name :: string
  sr_part :: "spec_part list"

record linked_feature_channel =
  lc_name :: string
  lc_fml :: string
  lc_embedding_dim :: int
  lc_size :: int
  lc_source_component :: string
  lc_source_translator :: string
  lc_source_layer :: string

record fixed_feature_channel =
  fc_name :: string
  fc_fml :: string
  fc_embedding_dim :: int
  fc_size :: int
  fc_predicate_map :: string

record component_spec =
  cp_name :: string
  cp_transition_system :: registered_module_spec
  cp_resource :: "spec_resource list"
  cp_fixed_feature :: "fixed_feature_channel list"
  cp_linked_feature :: "linked_feature_channel list"
  cp_backend :: registered_module_spec

record master_spec =
  ms_component :: "component_spec list"

record link_features =
  lf_batch_idx :: int
  lf_beam_idx :: int
  lf_step_idx :: int
  lf_feature_value :: "int option"
  lf_feature_name :: string

section \<open>The input batch cache\<close>

text \<open>A subclass of \<^verbatim>\<open>InputBatch\<close>: its type, its constructor and its virtual functions.\<close>

record 'b batch_class =
  bc_type :: string
  bc_new :: 'b
  bc_SetData :: "string list \<Rightarrow> 'b \<Rightarrow> 'b option"
  bc_GetSize :: "'b \<Rightarrow> int"
  bc_GetSerializedData :: "'b \<Rightarrow> string list"

record 'b input_batch_cache =
  ibc_stored_type :: "string option"
  ibc_source_data :: "string list"
  ibc_converted_data :: "('b batch_class \<times> 'b) option"

definition InputBatchCache_empty :: "'b input_batch_cache" where
  "InputBatchCache_empty = \<lparr>ibc_stored_type = None, ibc_source_data = [], ibc_converted_data = None\<rparr>"

definition InputBatchCache_string :: "string \<Rightarrow> 'b input_batch_cache" where
  "InputBatchCache_string data = \<lparr>ibc_stored_type = None, ibc_source_data = [data], ibc_converted_data = None\<rparr>"

definition InputBatchCache_strings :: "string list \<Rightarrow> 'b input_batch_cache" where
  "InputBatchCache_strings data = \<lparr>ibc_stored_type = None, ibc_source_data = data, ibc_converted_data = None\<rparr>"

definition InputBatchCache_batch :: "'b batch_class \<Rightarrow> 'b option \<Rightarrow> 'b input_batch_cache option" where
  "InputBatchCache_batch cls batch = do {
     b \<leftarrow> batch;
     Some \<lparr>ibc_stored_type = Some (bc_type cls), ibc_source_data = [], ibc_converted_data = Some (cls, b)\<rparr> }"

definition ibc_AddData :: "string \<Rightarrow> 'b input_batch_cache \<Rightarrow> 'b input_batch_cache option" where
  "ibc_AddData data cache = do {
     check (ibc_stored_type cache = None);
     Some (cache\<lparr>ibc_source_data := ibc_source_data cache @ [data]\<rparr>) }"

definition ibc_GetAs :: "'b batch_class \<Rightarrow> 'b input_batch_cache \<Rightarrow> ('b \<times> 'b input_batch_cache) option" where
  "ibc_GetAs cls cache = do {
     cache \<leftarrow> (case ibc_converted_data cache of
         None \<Rightarrow> do {
           b \<leftarrow> bc_SetData cls (ibc_source_data cache) (bc_new cls);
           Some (cache\<lparr>ibc_stored_type := Some (bc_type cls), ibc_converted_data := Some (cls, b)\<rparr>) }
       | Some _ \<Rightarrow> Some cache);
     check (ibc_stored_type cache = Some (bc_type cls));
     (_, b) \<leftarrow> ibc_converted_data cache;
     Some (b, cache) }"

definition ibc_Size :: "'b input_batch_cache \<Rightarrow> int option" where
  "ibc_Size cache = do { (cls, b) \<leftarrow> ibc_converted_data cache; Some (bc_GetSize cls b) }"

definition ibc_SerializedData :: "'b input_batch_cache \<Rightarrow> string list option" where
  "ibc_SerializedData cache = do { (cls, b) \<leftarrow> ibc_converted_data cache; Some (bc_GetSerializedData cls b) }"

text \<open>The batch of sentences; the parser and the printer of the messages and the new workspace are parameters.\<close>

record 'w syntaxnet_sentence =
  ss_sentence :: sentence
  ss_workspace :: 'w

definition sib_SetData :: "(string \<Rightarrow> sentence option) \<Rightarrow> 'w \<Rightarrow> string list \<Rightarrow> 'w syntaxnet_sentence list \<Rightarrow> 'w syntaxnet_sentence list option" where
  "sib_SetData parse workspace protos data = foreach (\<lambda>proto data. do {
     sentence \<leftarrow> parse proto;
     Some (data @ [\<lparr>ss_sentence = sentence, ss_workspace = workspace\<rparr>]) }) protos data"

definition sib_GetSize :: "'w syntaxnet_sentence list \<Rightarrow> int" where
  "sib_GetSize data = int (length data)"

definition sib_GetSerializedData :: "(sentence \<Rightarrow> string) \<Rightarrow> 'w syntaxnet_sentence list \<Rightarrow> string list" where
  "sib_GetSerializedData print data = map (\<lambda>s. print (ss_sentence s)) data"

definition SentenceInputBatch :: "(string \<Rightarrow> sentence option) \<Rightarrow> (sentence \<Rightarrow> string) \<Rightarrow> 'w \<Rightarrow> 'w syntaxnet_sentence list batch_class" where
  "SentenceInputBatch parse print workspace = \<lparr>bc_type = ''SentenceInputBatch'', bc_new = [], bc_SetData = sib_SetData parse workspace,
     bc_GetSize = sib_GetSize, bc_GetSerializedData = sib_GetSerializedData print\<rparr>"

section \<open>Components\<close>

record ('c, 'i, 's, 't, 'm, 'e, 'o, 'l) component_ops =
  co_InitializeComponent :: "component_spec \<Rightarrow> 'c \<Rightarrow> 'c option"
  co_InitializeData :: "'s list list \<Rightarrow> int \<Rightarrow> 'c \<Rightarrow> 'i \<Rightarrow> ('c \<times> 'i) option"
  co_IsReady :: "'c \<Rightarrow> bool"
  co_InitializeTracing :: "'c \<Rightarrow> 'c option"
  co_DisableTracing :: "'c \<Rightarrow> 'c"
  co_Name :: "'c \<Rightarrow> string"
  co_BatchSize :: "'c \<Rightarrow> int"
  co_BeamSize :: "'c \<Rightarrow> int"
  co_StepsTaken :: "int \<Rightarrow> 'c \<Rightarrow> int option"
  co_GetBeamIndexAtStep :: "int \<Rightarrow> int \<Rightarrow> int \<Rightarrow> 'c \<Rightarrow> int option"
  co_GetSourceBeamIndex :: "int \<Rightarrow> int \<Rightarrow> 'c \<Rightarrow> int option"
  co_GetStepLookupFunction :: "string \<Rightarrow> 'c \<Rightarrow> ('c \<Rightarrow> int \<Rightarrow> int \<Rightarrow> int \<Rightarrow> int option) option"
  co_AdvanceFromPrediction :: "'m \<Rightarrow> int \<Rightarrow> int \<Rightarrow> 'c \<Rightarrow> (bool \<times> 'c) option"
  co_AdvanceFromOracle :: "'c \<Rightarrow> 'c option"
  co_IsTerminal :: "'c \<Rightarrow> bool option"
  co_GetBeam :: "'c \<Rightarrow> 's list list option"
  co_GetFixedFeatures :: "int \<Rightarrow> 'c \<Rightarrow> ('o \<times> 'c) option"
  co_BulkGetFixedFeatures :: "'e \<Rightarrow> 'c \<Rightarrow> ('o \<times> 'c) option"
  co_GetRawLinkFeatures :: "int \<Rightarrow> 'c \<Rightarrow> link_features list option"
  co_GetOracleLabels :: "'c \<Rightarrow> 'l option"
  co_FinalizeData :: "'c \<Rightarrow> 'i \<Rightarrow> ('c \<times> 'i) option"
  co_ResetComponent :: "'c \<Rightarrow> 'c"
  co_GetTraceProtos :: "'c \<Rightarrow> 't list list option"
  co_AddTranslatedLinkFeaturesToTrace :: "link_features list \<Rightarrow> int \<Rightarrow> 'c \<Rightarrow> 'c option"

section \<open>Index translators\<close>

text \<open>The lookup function that the constructor selects; one that a component defines refers to the component.\<close>

datatype 'c step_lookup = IdentityLookup | HistoryLookup | ComponentLookup "'c \<Rightarrow> int \<Rightarrow> int \<Rightarrow> int \<Rightarrow> int option"

record 'c index_translator =
  tr_path :: "nat list"
  tr_method :: string
  tr_step_lookup :: "'c step_lookup"

record translated_index =
  ti_batch_index :: int
  ti_beam_index :: int
  ti_step_index :: int

text \<open>Following a pointer.\<close>

definition deref :: "'c option list \<Rightarrow> nat \<Rightarrow> 'c option" where
  "deref store a = do { p \<leftarrow> vec_at store (int a); p }"

definition new_IndexTranslator ::
  "('c, 'i, 's, 't, 'm, 'e, 'o, 'l) component_ops \<Rightarrow> 'c option list \<Rightarrow> nat list \<Rightarrow> string \<Rightarrow> 'c index_translator option" where
  "new_IndexTranslator ops store path method = do {
     lookup \<leftarrow> (if method = ''identity'' then Some IdentityLookup
       else if method = ''history'' then Some HistoryLookup
       else do {
         check (path \<noteq> []);
         c \<leftarrow> deref store (last path);
         f \<leftarrow> co_GetStepLookupFunction ops method c;
         Some (ComponentLookup f) });
     Some \<lparr>tr_path = path, tr_method = method, tr_step_lookup = lookup\<rparr> }"

definition step_lookup ::
  "('c, 'i, 's, 't, 'm, 'e, 'o, 'l) component_ops \<Rightarrow> 'c option list \<Rightarrow> 'c index_translator \<Rightarrow> int \<Rightarrow> int \<Rightarrow> int \<Rightarrow> int option" where
  "step_lookup ops store tr batch_index beam_index feature = (case tr_step_lookup tr of
     IdentityLookup \<Rightarrow> Some feature
   | HistoryLookup \<Rightarrow> do {
       c \<leftarrow> deref store (last (tr_path tr));
       steps \<leftarrow> co_StepsTaken ops batch_index c;
       if feature > steps - 1 \<or> feature < 0 then Some (-1) else Some ((steps - 1) - feature) }
   | ComponentLookup f \<Rightarrow> do {
       c \<leftarrow> deref store (last (tr_path tr));
       f c batch_index beam_index feature })"

definition Translate ::
  "('c, 'i, 's, 't, 'm, 'e, 'o, 'l) component_ops \<Rightarrow> 'c option list \<Rightarrow> int \<Rightarrow> int \<Rightarrow> int \<Rightarrow> 'c index_translator \<Rightarrow> translated_index option" where
  "Translate ops store batch_index beam_index feature_value tr = do {
     check (tr_path tr \<noteq> []);
     current_beam_index \<leftarrow> foreach (\<lambda>a current_beam_index. do {
         c \<leftarrow> deref store a;
         co_GetSourceBeamIndex ops current_beam_index batch_index c }) (butlast (tr_path tr)) beam_index;
     step_index \<leftarrow> step_lookup ops store tr batch_index current_beam_index feature_value;
     c \<leftarrow> deref store (last (tr_path tr));
     beam_index \<leftarrow> co_GetBeamIndexAtStep ops step_index current_beam_index batch_index c;
     Some \<lparr>ti_batch_index = batch_index, ti_beam_index = beam_index, ti_step_index = step_index\<rparr> }"

section \<open>Compute sessions\<close>

record ('c, 'g, 'i) compute_session =
  cs_id :: int
  cs_spec :: master_spec
  cs_grid_point :: 'g
  cs_store :: "'c option list"
  cs_components :: "(string \<times> nat) list"
  cs_translators :: "(string \<times> 'c index_translator list) list"
  cs_predecessors :: "(nat \<times> nat) list"
  cs_input_data :: "'i option"
  cs_do_tracing :: bool

definition map_insert :: "'k \<Rightarrow> 'v \<Rightarrow> ('k \<times> 'v) list \<Rightarrow> ('k \<times> 'v) list" where
  "map_insert k v m = (if map_of m k = None then m @ [(k, v)] else m)"

definition new_ComputeSession :: "int \<Rightarrow> 'g \<Rightarrow> ('c, 'g, 'i) compute_session" where
  "new_ComputeSession ident grid = \<lparr>cs_id = ident, cs_spec = \<lparr>ms_component = []\<rparr>, cs_grid_point = grid, cs_store = [], cs_components = [],
     cs_translators = [], cs_predecessors = [], cs_input_data = None, cs_do_tracing = False\<rparr>"

text \<open>\<^verbatim>\<open>Init\<close> first creates the components, each the successor of the one before it.\<close>

definition init_component ::
  "(string \<Rightarrow> string \<Rightarrow> 'c option) \<Rightarrow> ('c, 'i, 's, 't, 'm, 'e, 'o, 'l) component_ops \<Rightarrow> component_spec \<Rightarrow>
     ('c, 'g, 'i) compute_session \<times> nat option \<Rightarrow> (('c, 'g, 'i) compute_session \<times> nat option) option" where
  "init_component builder ops spec = (\<lambda>(s, predecessor). do {
     component \<leftarrow> builder (cp_name spec) (rm_registered_name (cp_backend spec));
     component \<leftarrow> co_InitializeComponent ops spec component;
     let a = length (cs_store s);
     let s = (case predecessor of
         None \<Rightarrow> s
       | Some p \<Rightarrow> s\<lparr>cs_predecessors := map_insert a p (cs_predecessors s)\<rparr>);
     let kept = (map_of (cs_components s) (cp_name spec) = None);
     Some (s\<lparr>cs_store := cs_store s @ [if kept then Some component else None],
             cs_components := map_insert (cp_name spec) a (cs_components s)\<rparr>, Some a) })"

text \<open>The path from a component back to the source of a link.\<close>

function translator_path :: "(nat \<times> nat) list \<Rightarrow> nat \<Rightarrow> nat \<Rightarrow> nat \<Rightarrow> nat list \<Rightarrow> nat list option" where
  "translator_path predecessors num_components end_component current_component path =
     (if current_component = end_component then Some path
      else case map_of predecessors current_component of
        None \<Rightarrow> None
      | Some source \<Rightarrow>
          if length path < num_components
          then translator_path predecessors num_components end_component source (path @ [source])
          else None)"
  by pat_completeness auto
termination
  by (relation "measure (\<lambda>(_, n, _, _, path). n - length path)") auto

declare translator_path.simps [simp del]

definition CreateTranslator ::
  "('c, 'i, 's, 't, 'm, 'e, 'o, 'l) component_ops \<Rightarrow> linked_feature_channel \<Rightarrow> nat \<Rightarrow> ('c, 'g, 'i) compute_session \<Rightarrow> 'c index_translator option" where
  "CreateTranslator ops channel start_component s = do {
     let num_components = length (ms_component (cs_spec s));
     end_component \<leftarrow> map_of (cs_components s) (lc_source_component channel);
     path \<leftarrow> translator_path (cs_predecessors s) num_components end_component start_component [start_component];
     new_IndexTranslator ops (cs_store s) path (lc_source_translator channel) }"

definition init_translators ::
  "('c, 'i, 's, 't, 'm, 'e, 'o, 'l) component_ops \<Rightarrow> component_spec \<Rightarrow> ('c, 'g, 'i) compute_session \<Rightarrow> ('c, 'g, 'i) compute_session option" where
  "init_translators ops spec s = do {
     start_component \<leftarrow> map_of (cs_components s) (cp_name spec);
     if cp_linked_feature spec \<noteq> [] then do {
       translator_set \<leftarrow> foreach (\<lambda>channel set. do {
           translator \<leftarrow> CreateTranslator ops channel start_component s;
           Some (set @ [translator]) }) (cp_linked_feature spec) [];
       Some (s\<lparr>cs_translators := map_insert (cp_name spec) translator_set (cs_translators s)\<rparr>) }
     else Some s }"

definition session_Init ::
  "(string \<Rightarrow> string \<Rightarrow> 'c option) \<Rightarrow> ('c, 'i, 's, 't, 'm, 'e, 'o, 'l) component_ops \<Rightarrow> master_spec \<Rightarrow> 'g \<Rightarrow>
     ('c, 'g, 'i) compute_session \<Rightarrow> ('c, 'g, 'i) compute_session option" where
  "session_Init builder ops master_spec hyperparams s = do {
     let s = s\<lparr>cs_spec := master_spec, cs_grid_point := hyperparams\<rparr>;
     (s, _) \<leftarrow> foreach (init_component builder ops) (ms_component master_spec) (s, None);
     foreach (init_translators ops) (ms_component master_spec) s }"

definition GetComponent :: "string \<Rightarrow> ('c, 'g, 'i) compute_session \<Rightarrow> (nat \<times> 'c) option" where
  "GetComponent component_name s = do {
     a \<leftarrow> map_of (cs_components s) component_name;
     c \<leftarrow> deref (cs_store s) a;
     Some (a, c) }"

definition GetReadiedComponent ::
  "('c, 'i, 's, 't, 'm, 'e, 'o, 'l) component_ops \<Rightarrow> string \<Rightarrow> ('c, 'g, 'i) compute_session \<Rightarrow> (nat \<times> 'c) option" where
  "GetReadiedComponent ops component_name s = do {
     (a, c) \<leftarrow> GetComponent component_name s;
     check (co_IsReady ops c);
     Some (a, c) }"

definition GetTranslators :: "string \<Rightarrow> ('c, 'g, 'i) compute_session \<Rightarrow> 'c index_translator list option" where
  "GetTranslators component_name s = map_of (cs_translators s) component_name"

text \<open>The effect of a call on a component of the session.\<close>

definition put_component :: "nat \<Rightarrow> 'c \<Rightarrow> ('c, 'g, 'i) compute_session \<Rightarrow> ('c, 'g, 'i) compute_session" where
  "put_component a c s = s\<lparr>cs_store := (cs_store s)[a := Some c]\<rparr>"

definition InitializeComponentData ::
  "('c, 'i, 's, 't, 'm, 'e, 'o, 'l) component_ops \<Rightarrow> string \<Rightarrow> int \<Rightarrow> ('c, 'g, 'i) compute_session \<Rightarrow> ('c, 'g, 'i) compute_session option" where
  "InitializeComponentData ops component_name max_beam_size s = do {
     input_data \<leftarrow> cs_input_data s;
     (a, component) \<leftarrow> GetComponent component_name s;
     states \<leftarrow> (case map_of (cs_predecessors s) a of
         None \<Rightarrow> Some []
       | Some source \<Rightarrow> do {
           source \<leftarrow> deref (cs_store s) source;
           terminal \<leftarrow> co_IsTerminal ops source;
           check terminal;
           co_GetBeam ops source });
     (component, input_data) \<leftarrow> co_InitializeData ops states max_beam_size component input_data;
     component \<leftarrow> (if cs_do_tracing s then co_InitializeTracing ops component else Some component);
     Some ((put_component a component s)\<lparr>cs_input_data := Some input_data\<rparr>) }"

definition session_BatchSize :: "('c, 'i, 's, 't, 'm, 'e, 'o, 'l) component_ops \<Rightarrow> string \<Rightarrow> ('c, 'g, 'i) compute_session \<Rightarrow> int option" where
  "session_BatchSize ops component_name s = do { (_, c) \<leftarrow> GetReadiedComponent ops component_name s; Some (co_BatchSize ops c) }"

definition session_BeamSize :: "('c, 'i, 's, 't, 'm, 'e, 'o, 'l) component_ops \<Rightarrow> string \<Rightarrow> ('c, 'g, 'i) compute_session \<Rightarrow> int option" where
  "session_BeamSize ops component_name s = do { (_, c) \<leftarrow> GetReadiedComponent ops component_name s; Some (co_BeamSize ops c) }"

definition session_Spec :: "string \<Rightarrow> ('c, 'g, 'i) compute_session \<Rightarrow> component_spec option" where
  "session_Spec component_name s = find (\<lambda>spec. cp_name spec = component_name) (ms_component (cs_spec s))"

definition SourceComponentBeamSize ::
  "('c, 'i, 's, 't, 'm, 'e, 'o, 'l) component_ops \<Rightarrow> string \<Rightarrow> int \<Rightarrow> ('c, 'g, 'i) compute_session \<Rightarrow> int option" where
  "SourceComponentBeamSize ops component_name channel_id s = do {
     translators \<leftarrow> GetTranslators component_name s;
     translator \<leftarrow> vec_at translators channel_id;
     c \<leftarrow> deref (cs_store s) (last (tr_path translator));
     Some (co_BeamSize ops c) }"

definition session_AdvanceFromOracle ::
  "('c, 'i, 's, 't, 'm, 'e, 'o, 'l) component_ops \<Rightarrow> string \<Rightarrow> ('c, 'g, 'i) compute_session \<Rightarrow> ('c, 'g, 'i) compute_session option" where
  "session_AdvanceFromOracle ops component_name s = do {
     (a, c) \<leftarrow> GetReadiedComponent ops component_name s;
     c \<leftarrow> co_AdvanceFromOracle ops c;
     Some (put_component a c s) }"

definition session_AdvanceFromPrediction ::
  "('c, 'i, 's, 't, 'm, 'e, 'o, 'l) component_ops \<Rightarrow> string \<Rightarrow> 'm \<Rightarrow> int \<Rightarrow> int \<Rightarrow> ('c, 'g, 'i) compute_session \<Rightarrow> (bool \<times> ('c, 'g, 'i) compute_session) option" where
  "session_AdvanceFromPrediction ops component_name score_matrix num_items num_actions s = do {
     (a, c) \<leftarrow> GetReadiedComponent ops component_name s;
     (success, c) \<leftarrow> co_AdvanceFromPrediction ops score_matrix num_items num_actions c;
     Some (success, put_component a c s) }"

definition GetInputFeatures ::
  "('c, 'i, 's, 't, 'm, 'e, 'o, 'l) component_ops \<Rightarrow> string \<Rightarrow> int \<Rightarrow> ('c, 'g, 'i) compute_session \<Rightarrow> ('o \<times> ('c, 'g, 'i) compute_session) option" where
  "GetInputFeatures ops component_name channel_id s = do {
     (a, c) \<leftarrow> GetReadiedComponent ops component_name s;
     (features, c) \<leftarrow> co_GetFixedFeatures ops channel_id c;
     Some (features, put_component a c s) }"

definition BulkGetInputFeatures ::
  "('c, 'i, 's, 't, 'm, 'e, 'o, 'l) component_ops \<Rightarrow> string \<Rightarrow> 'e \<Rightarrow> ('c, 'g, 'i) compute_session \<Rightarrow> ('o \<times> ('c, 'g, 'i) compute_session) option" where
  "BulkGetInputFeatures ops component_name extractor s = do {
     (a, c) \<leftarrow> GetReadiedComponent ops component_name s;
     (features, c) \<leftarrow> co_BulkGetFixedFeatures ops extractor c;
     Some (features, put_component a c s) }"

text \<open>Translating the links; the indices of the message have 64 bits and those of the translator 32.\<close>

definition translate_link ::
  "('c, 'i, 's, 't, 'm, 'e, 'o, 'l) component_ops \<Rightarrow> 'c option list \<Rightarrow> 'c index_translator \<Rightarrow> link_features \<Rightarrow> link_features option" where
  "translate_link ops store translator feature = (case lf_feature_value feature of
     None \<Rightarrow> Some feature
   | Some v \<Rightarrow> do {
       index \<leftarrow> Translate ops store (wrap32 (lf_batch_idx feature)) (wrap32 (lf_beam_idx feature)) (wrap32 v) translator;
       Some (feature\<lparr>lf_step_idx := ti_step_index index, lf_batch_idx := ti_batch_index index, lf_beam_idx := ti_beam_index index\<rparr>) })"

definition GetTranslatedLinkFeatures ::
  "('c, 'i, 's, 't, 'm, 'e, 'o, 'l) component_ops \<Rightarrow> string \<Rightarrow> int \<Rightarrow> ('c, 'g, 'i) compute_session \<Rightarrow>
     (link_features list \<times> ('c, 'g, 'i) compute_session) option" where
  "GetTranslatedLinkFeatures ops component_name channel_id s = do {
     (a, component) \<leftarrow> GetReadiedComponent ops component_name s;
     features \<leftarrow> co_GetRawLinkFeatures ops channel_id component;
     translators \<leftarrow> GetTranslators component_name s;
     translator \<leftarrow> vec_at translators channel_id;
     features \<leftarrow> foreach (\<lambda>feature done. do {
         feature \<leftarrow> translate_link ops (cs_store s) translator feature;
         Some (done @ [feature]) }) features [];
     component \<leftarrow> (if cs_do_tracing s then co_AddTranslatedLinkFeaturesToTrace ops features channel_id component else Some component);
     Some (features, put_component a component s) }"

definition EmitOracleLabels :: "('c, 'i, 's, 't, 'm, 'e, 'o, 'l) component_ops \<Rightarrow> string \<Rightarrow> ('c, 'g, 'i) compute_session \<Rightarrow> 'l option" where
  "EmitOracleLabels ops component_name s = do { (_, c) \<leftarrow> GetReadiedComponent ops component_name s; co_GetOracleLabels ops c }"

definition session_IsTerminal :: "('c, 'i, 's, 't, 'm, 'e, 'o, 'l) component_ops \<Rightarrow> string \<Rightarrow> ('c, 'g, 'i) compute_session \<Rightarrow> bool option" where
  "session_IsTerminal ops component_name s = do { (_, c) \<leftarrow> GetReadiedComponent ops component_name s; co_IsTerminal ops c }"

text \<open>A call on every component of the session.\<close>

definition for_components :: "('c \<Rightarrow> 'c) \<Rightarrow> ('c, 'g, 'i) compute_session \<Rightarrow> ('c, 'g, 'i) compute_session option" where
  "for_components f s = foreach (\<lambda>(_, a) s. do {
     c \<leftarrow> deref (cs_store s) a;
     Some (put_component a (f c) s) }) (cs_components s) s"

definition SetTracing :: "('c, 'i, 's, 't, 'm, 'e, 'o, 'l) component_ops \<Rightarrow> bool \<Rightarrow> ('c, 'g, 'i) compute_session \<Rightarrow> ('c, 'g, 'i) compute_session option" where
  "SetTracing ops tracing_on s = for_components (\<lambda>c. if \<not> tracing_on then co_DisableTracing ops c else c) (s\<lparr>cs_do_tracing := tracing_on\<rparr>)"

definition session_FinalizeData ::
  "('c, 'i, 's, 't, 'm, 'e, 'o, 'l) component_ops \<Rightarrow> string \<Rightarrow> ('c, 'g, 'i) compute_session \<Rightarrow> ('c, 'g, 'i) compute_session option" where
  "session_FinalizeData ops component_name s = do {
     (a, c) \<leftarrow> GetReadiedComponent ops component_name s;
     input_data \<leftarrow> cs_input_data s;
     (c, input_data) \<leftarrow> co_FinalizeData ops c input_data;
     Some ((put_component a c s)\<lparr>cs_input_data := Some input_data\<rparr>) }"

definition GetSerializedPredictions :: "('i \<Rightarrow> string list option) \<Rightarrow> ('c, 'g, 'i) compute_session \<Rightarrow> string list option" where
  "GetSerializedPredictions serialized_data s = do { input_data \<leftarrow> cs_input_data s; serialized_data input_data }"

text \<open>The traces of the final beam, each assembled from the traces of its states in all components.\<close>

definition beam_path ::
  "('c, 'i, 's, 't, 'm, 'e, 'o, 'l) component_ops \<Rightarrow> ('c, 'g, 'i) compute_session \<Rightarrow> string list \<Rightarrow> int \<Rightarrow> int \<Rightarrow> int list option" where
  "beam_path ops s pipeline batch_idx beam_idx = map_option rev (foreach (\<lambda>name path. do {
       (_, c) \<leftarrow> GetComponent name s;
       source_beam_idx \<leftarrow> co_GetSourceBeamIndex ops (last path) batch_idx c;
       Some (path @ [source_beam_idx]) }) (rev (tl pipeline)) [beam_idx])"

definition master_trace :: "(string \<times> 't list list) list \<Rightarrow> string list \<Rightarrow> int \<Rightarrow> int list \<Rightarrow> 't list option" where
  "master_trace component_traces pipeline batch_idx path = foreach (\<lambda>(name, beam_idx) trace. do {
     traces \<leftarrow> map_of component_traces name;
     beam \<leftarrow> vec_at traces batch_idx;
     t \<leftarrow> vec_at beam beam_idx;
     Some (trace @ [t]) }) (zip pipeline path) []"

definition session_GetTraceProtos ::
  "('c, 'i, 's, 't, 'm, 'e, 'o, 'l) component_ops \<Rightarrow> ('c, 'g, 'i) compute_session \<Rightarrow> 't list list option" where
  "session_GetTraceProtos ops s = do {
     let pipeline = map cp_name (ms_component (cs_spec s));
     component_traces \<leftarrow> foreach (\<lambda>name traces. do {
         (_, c) \<leftarrow> GetComponent name s;
         ts \<leftarrow> co_GetTraceProtos ops c;
         Some (map_insert name ts traces) }) pipeline [];
     check (pipeline \<noteq> []);
     (_, c) \<leftarrow> GetComponent (last pipeline) s;
     final_beam \<leftarrow> co_GetBeam ops c;
     foreach (\<lambda>(batch_idx, beam_idx) traces. do {
         path \<leftarrow> beam_path ops s pipeline (int batch_idx) (int beam_idx);
         trace \<leftarrow> master_trace component_traces pipeline (int batch_idx) path;
         Some (traces @ [trace]) })
       (concat (map (\<lambda>batch_idx. map (Pair batch_idx) [0..<length (final_beam ! batch_idx)]) [0..<length final_beam])) [] }"

definition SetInputData :: "(string list \<Rightarrow> 'i) \<Rightarrow> string list \<Rightarrow> ('c, 'g, 'i) compute_session \<Rightarrow> ('c, 'g, 'i) compute_session" where
  "SetInputData new_cache data s = s\<lparr>cs_input_data := Some (new_cache data)\<rparr>"

definition SetInputBatchCache :: "'i option \<Rightarrow> ('c, 'g, 'i) compute_session \<Rightarrow> ('c, 'g, 'i) compute_session" where
  "SetInputBatchCache batch s = s\<lparr>cs_input_data := batch\<rparr>"

definition ResetSession :: "('c, 'i, 's, 't, 'm, 'e, 'o, 'l) component_ops \<Rightarrow> ('c, 'g, 'i) compute_session \<Rightarrow> ('c, 'g, 'i) compute_session option" where
  "ResetSession ops s = do {
     s \<leftarrow> for_components (co_ResetComponent ops) s;
     Some (s\<lparr>cs_input_data := None\<rparr>) }"

definition GetDescription :: "('c, 'i, 's, 't, 'm, 'e, 'o, 'l) component_ops \<Rightarrow> string \<Rightarrow> ('c, 'g, 'i) compute_session \<Rightarrow> string option" where
  "GetDescription ops component_name s = do { (_, c) \<leftarrow> GetComponent component_name s; Some (co_Name ops c) }"

section \<open>The pool\<close>

record ('c, 'g, 'i) session_pool =
  sp_master_spec :: master_spec
  sp_hyperparams :: 'g
  sp_sessions :: "('c, 'g, 'i) compute_session list"
  sp_num_unique_sessions :: int

definition new_ComputeSessionPool :: "master_spec \<Rightarrow> 'g \<Rightarrow> ('c, 'g, 'i) session_pool" where
  "new_ComputeSessionPool master_spec hyperparams = \<lparr>sp_master_spec = master_spec, sp_hyperparams = hyperparams, sp_sessions = [], sp_num_unique_sessions = 0\<rparr>"

text \<open>The part of \<^verbatim>\<open>GetSession\<close> that holds the lock, and the part that follows; the flag says whether the session is new.\<close>

definition take_session :: "('c, 'g, 'i) session_pool \<Rightarrow> bool \<times> ('c, 'g, 'i) compute_session \<times> ('c, 'g, 'i) session_pool" where
  "take_session p =
     (if sp_sessions p \<noteq> [] then (False, last (sp_sessions p), p\<lparr>sp_sessions := butlast (sp_sessions p)\<rparr>)
      else (True, new_ComputeSession (sp_num_unique_sessions p) (sp_hyperparams p), p\<lparr>sp_num_unique_sessions := sp_num_unique_sessions p + 1\<rparr>))"

definition prepare_session ::
  "(string \<Rightarrow> string \<Rightarrow> 'c option) \<Rightarrow> ('c, 'i, 's, 't, 'm, 'e, 'o, 'l) component_ops \<Rightarrow> ('c, 'g, 'i) session_pool \<Rightarrow> bool \<Rightarrow> ('c, 'g, 'i) compute_session \<Rightarrow>
     ('c, 'g, 'i) compute_session option" where
  "prepare_session builder ops p is_new session =
     (if is_new then session_Init builder ops (sp_master_spec p) (sp_hyperparams p) session else ResetSession ops session)"

definition GetSession ::
  "(string \<Rightarrow> string \<Rightarrow> 'c option) \<Rightarrow> ('c, 'i, 's, 't, 'm, 'e, 'o, 'l) component_ops \<Rightarrow> ('c, 'g, 'i) session_pool \<Rightarrow>
     (('c, 'g, 'i) compute_session \<times> ('c, 'g, 'i) session_pool) option" where
  "GetSession builder ops p = (case take_session p of (is_new, session, p) \<Rightarrow> do {
     session \<leftarrow> prepare_session builder ops p is_new session;
     Some (session, p) })"

definition ReturnSession :: "('c, 'g, 'i) compute_session \<Rightarrow> ('c, 'g, 'i) session_pool \<Rightarrow> ('c, 'g, 'i) session_pool" where
  "ReturnSession session p = p\<lparr>sp_sessions := sp_sessions p @ [session]\<rparr>"

definition num_outstanding_sessions :: "('c, 'g, 'i) session_pool \<Rightarrow> int" where
  "num_outstanding_sessions p = sp_num_unique_sessions p - int (length (sp_sessions p))"

section \<open>Initialising a session\<close>

lemma map_of_zip_upt: "distinct names \<Longrightarrow> map_of (zip names [0..<length names]) x = Some j \<longleftrightarrow> j < length names \<and> names ! j = x"
  by (auto simp: set_zip)

lemma map_of_zip_none: "map_of (zip names [0..<length names]) x = None \<longleftrightarrow> x \<notin> set names"
  by simp

definition chain :: "nat \<Rightarrow> (nat \<times> nat) list" where
  "chain n = map (\<lambda>j. (Suc j, j)) [0..<n - 1]"

lemma map_of_chain: "map_of (chain n) a = (if 0 < a \<and> a < n then Some (a - 1) else None)"
proof (cases "0 < a \<and> a < n")
  case True
  then have "(a, a - 1) \<in> set (chain n)" by (auto simp: chain_def image_iff intro!: bexI [of _ "a - 1"])
  moreover have "distinct (map fst (chain n))" by (simp add: chain_def comp_def distinct_map inj_on_def)
  ultimately show ?thesis using True by simp
next
  case False
  then have "a \<notin> fst ` set (chain n)" by (auto simp: chain_def)
  then show ?thesis using False by (auto simp: map_of_eq_None_iff)
qed

lemma init_component_new:
  assumes "builder (cp_name spec) (rm_registered_name (cp_backend spec)) = Some c0" and "co_InitializeComponent ops spec c0 = Some c"
    and "map_of (cs_components s) (cp_name spec) = None" and "map_of (cs_predecessors s) (length (cs_store s)) = None"
  shows "init_component builder ops spec (s, p) = Some (s\<lparr>cs_store := cs_store s @ [Some c],
      cs_components := cs_components s @ [(cp_name spec, length (cs_store s))],
      cs_predecessors := cs_predecessors s @ (case p of None \<Rightarrow> [] | Some p \<Rightarrow> [(length (cs_store s), p)])\<rparr>, Some (length (cs_store s)))"
  using assms by (cases p) (simp_all add: init_component_def Let_def map_insert_def)

lemma init_components:
  assumes "distinct (map cp_name specs)"
    and "\<forall>spec \<in> set specs. \<exists>c0. builder (cp_name spec) (rm_registered_name (cp_backend spec)) = Some c0 \<and> co_InitializeComponent ops spec c0 = Some (made spec)"
    and "cs_store s = []" "cs_components s = []" "cs_predecessors s = []"
  shows "foreach (init_component builder ops) specs (s, None) =
    Some (s\<lparr>cs_store := map (\<lambda>spec. Some (made spec)) specs, cs_components := zip (map cp_name specs) [0..<length specs], cs_predecessors := chain (length specs)\<rparr>,
      if specs = [] then None else Some (length specs - 1))"
  using assms
proof (induction specs rule: rev_induct)
  case Nil
  then show ?case by (simp add: chain_def)
next
  case (snoc spec specs)
  let ?n = "length specs"
  obtain c0 where c0: "builder (cp_name spec) (rm_registered_name (cp_backend spec)) = Some c0" "co_InitializeComponent ops spec c0 = Some (made spec)"
    using snoc.prems(2) by auto
  have new: "map_of (zip (map cp_name specs) [0..<?n]) (cp_name spec) = None"
    using map_of_zip_none [of "map cp_name specs" "cp_name spec"] snoc.prems(1) by auto
  let ?s = "s\<lparr>cs_store := map (\<lambda>spec. Some (made spec)) specs, cs_components := zip (map cp_name specs) [0..<?n], cs_predecessors := chain ?n\<rparr>"
  have "init_component builder ops spec (?s, if specs = [] then None else Some (?n - 1)) = Some (?s\<lparr>cs_store := cs_store ?s @ [Some (made spec)],
      cs_components := cs_components ?s @ [(cp_name spec, length (cs_store ?s))],
      cs_predecessors := cs_predecessors ?s @ (case if specs = [] then None else Some (?n - 1) of None \<Rightarrow> [] | Some p \<Rightarrow> [(length (cs_store ?s), p)])\<rparr>, Some (length (cs_store ?s)))"
    by (rule init_component_new [of builder spec c0 ops "made spec", OF c0]) (simp_all add: new map_of_chain del: map_of_zip_is_None)
  moreover have "chain (Suc ?n) = chain ?n @ (if specs = [] then [] else [(?n, ?n - 1)])" by (cases specs) (simp_all add: chain_def)
  moreover have "foreach (init_component builder ops) specs (s, None) = Some (?s, if specs = [] then None else Some (?n - 1))"
    using snoc.IH snoc.prems by simp
  ultimately show ?case by (simp add: foreach_append)
qed

lemma translator_path_found:
  "i \<le> j \<Longrightarrow> j < n \<Longrightarrow> length path + (j - i) \<le> m \<Longrightarrow> translator_path (chain n) m i j path = Some (path @ rev [i..<j])"
proof (induction j arbitrary: path)
  case (Suc j)
  show ?case
  proof (cases "i = Suc j")
    case False
    then show ?thesis using Suc by (subst translator_path.simps) (simp add: map_of_chain)
  qed (subst translator_path.simps, simp)
qed (subst translator_path.simps, simp)

lemma translator_path_missing: "j < i \<Longrightarrow> translator_path (chain n) m i j path = None"
proof (induction j arbitrary: path)
  case (Suc j)
  then show ?case by (subst translator_path.simps) (simp add: map_of_chain)
qed (subst translator_path.simps, simp add: map_of_chain)

lemma CreateTranslator_update [simp]: "CreateTranslator ops ch a (s\<lparr>cs_translators := t\<rparr>) = CreateTranslator ops ch a s"
  by (simp add: CreateTranslator_def)

lemma foreach_gather:
  "foreach (\<lambda>x acc. do { y \<leftarrow> f x; Some (acc @ [y]) }) xs acc =
    (if \<forall>x \<in> set xs. f x \<noteq> None then Some (acc @ map (\<lambda>x. the (f x)) xs) else None)"
  by (induction xs arbitrary: acc) (auto split: bind_splits)

text \<open>The translators of a component with links, in a session whose components are in place.\<close>

definition translators_of ::
  "('c, 'i, 's, 't, 'm, 'e, 'o, 'l) component_ops \<Rightarrow> ('c, 'g, 'i) compute_session \<Rightarrow> component_spec \<Rightarrow> (string \<times> 'c index_translator list) list" where
  "translators_of ops s spec = (if cp_linked_feature spec = [] then []
     else [(cp_name spec, map (\<lambda>ch. the (CreateTranslator ops ch (the (map_of (cs_components s) (cp_name spec))) s)) (cp_linked_feature spec))])"

definition linkable :: "('c, 'i, 's, 't, 'm, 'e, 'o, 'l) component_ops \<Rightarrow> ('c, 'g, 'i) compute_session \<Rightarrow> component_spec \<Rightarrow> bool" where
  "linkable ops s spec \<longleftrightarrow> (\<forall>ch \<in> set (cp_linked_feature spec). CreateTranslator ops ch (the (map_of (cs_components s) (cp_name spec))) s \<noteq> None)"

lemma init_translators_all:
  assumes "distinct (map cp_name specs)" and "\<forall>spec \<in> set specs. map_of (cs_components s) (cp_name spec) \<noteq> None"
    and "\<forall>spec \<in> set specs. map_of t (cp_name spec) = None"
  shows "foreach (init_translators ops) specs (s\<lparr>cs_translators := t\<rparr>) =
    (if \<forall>spec \<in> set specs. linkable ops s spec then Some (s\<lparr>cs_translators := t @ concat (map (translators_of ops s) specs)\<rparr>) else None)"
  using assms
proof (induction specs arbitrary: t)
  case (Cons spec specs)
  obtain a where a: "map_of (cs_components s) (cp_name spec) = Some a" using Cons.prems(2) by auto
  let ?t = "t @ translators_of ops s spec"
  have step: "init_translators ops spec (s\<lparr>cs_translators := t\<rparr>) = (if linkable ops s spec then Some (s\<lparr>cs_translators := ?t\<rparr>) else None)"
    using a Cons.prems(3) by (auto simp: init_translators_def foreach_gather linkable_def translators_of_def map_insert_def)
  have "cp_name x \<noteq> cp_name spec" if "x \<in> set specs" for x using Cons.prems(1) that by (auto simp: image_iff)
  then have "\<forall>x \<in> set specs. map_of ?t (cp_name x) = None" using Cons.prems(3) by (simp add: translators_of_def map_add_def)
  then have "foreach (init_translators ops) specs (s\<lparr>cs_translators := ?t\<rparr>) =
    (if \<forall>spec \<in> set specs. linkable ops s spec then Some (s\<lparr>cs_translators := ?t @ concat (map (translators_of ops s) specs)\<rparr>) else None)"
    using Cons.IH [of ?t] Cons.prems(1,2) by simp
  then show ?case using step by auto
qed simp

text \<open>A session whose components are in place.\<close>

definition assembled :: "component_spec list \<Rightarrow> (component_spec \<Rightarrow> 'c) \<Rightarrow> ('c, 'g, 'i) compute_session \<Rightarrow> bool" where
  "assembled specs made s \<longleftrightarrow> ms_component (cs_spec s) = specs \<and> cs_store s = map (\<lambda>spec. Some (made spec)) specs \<and>
     cs_components s = zip (map cp_name specs) [0..<length specs] \<and> cs_predecessors s = chain (length specs)"

definition has_lookup :: "('c, 'i, 's, 't, 'm, 'e, 'o, 'l) component_ops \<Rightarrow> linked_feature_channel \<Rightarrow> bool" where
  "has_lookup ops ch \<longleftrightarrow> lc_source_translator ch \<in> {''identity'', ''history''} \<or> (\<forall>c. co_GetStepLookupFunction ops (lc_source_translator ch) c \<noteq> None)"

lemma new_IndexTranslator_path:
  assumes "has_lookup ops ch" and "path \<noteq> []" and "deref store (last path) \<noteq> None"
  shows "\<exists>tr. new_IndexTranslator ops store path (lc_source_translator ch) = Some tr \<and> tr_path tr = path"
proof -
  obtain c where c: "deref store (last path) = Some c" using assms(3) by blast
  show ?thesis
  proof (cases "lc_source_translator ch \<in> {''identity'', ''history''}")
    case False
    then obtain f where "co_GetStepLookupFunction ops (lc_source_translator ch) c = Some f" using assms(1) by (auto simp: has_lookup_def)
    then show ?thesis using False c assms(2) by (simp add: new_IndexTranslator_def)
  qed (auto simp: new_IndexTranslator_def)
qed

lemma CreateTranslator_chain:
  assumes d: "distinct (map cp_name specs)" and s: "assembled specs made s" and j: "j < length specs" and look: "has_lookup ops ch"
  shows "i \<le> j \<Longrightarrow> cp_name (specs ! i) = lc_source_component ch \<Longrightarrow>
      \<exists>tr. CreateTranslator ops ch j s = Some tr \<and> tr_path tr = rev [i..<Suc j]"
    and "\<not> (\<exists>i \<le> j. cp_name (specs ! i) = lc_source_component ch) \<Longrightarrow> CreateTranslator ops ch j s = None"
proof -
  note s = s [unfolded assembled_def]
  have comps: "map_of (cs_components s) x = Some i \<longleftrightarrow> i < length specs \<and> cp_name (specs ! i) = x" for x i
    using map_of_zip_upt [OF d, of x i] s by auto
  show "\<exists>tr. CreateTranslator ops ch j s = Some tr \<and> tr_path tr = rev [i..<Suc j]" if i: "i \<le> j" "cp_name (specs ! i) = lc_source_component ch"
  proof -
    have e: "map_of (cs_components s) (lc_source_component ch) = Some i" using comps i j by simp
    have p: "translator_path (chain (length specs)) (length specs) i j [j] = Some (rev [i..<Suc j])"
      using translator_path_found [OF i(1) j, of "[j]" "length specs"] i j by simp
    have "last (rev [i..<Suc j]) = i" using i(1) by (simp add: last_rev upt_conv_Cons)
    then have "deref (cs_store s) (last (rev [i..<Suc j])) \<noteq> None" using s i j by (simp add: deref_def)
    moreover have "rev [i..<Suc j] \<noteq> []" using i by simp
    ultimately show ?thesis using new_IndexTranslator_path [OF look, of "rev [i..<Suc j]" "cs_store s"] s e p by (simp add: CreateTranslator_def Let_def del: upt_Suc)
  qed
  show "CreateTranslator ops ch j s = None" if no: "\<not> (\<exists>i \<le> j. cp_name (specs ! i) = lc_source_component ch)"
  proof (cases "map_of (cs_components s) (lc_source_component ch)")
    case (Some i)
    then have "j < i" using comps no by (meson not_le)
    then show ?thesis using Some s by (simp add: CreateTranslator_def Let_def translator_path_missing)
  qed (simp add: CreateTranslator_def Let_def)
qed

lemma assembled_linkable:
  assumes "distinct (map cp_name specs)" and "assembled specs made s" and "j < length specs" and "\<forall>ch \<in> set (cp_linked_feature (specs ! j)). has_lookup ops ch"
  shows "linkable ops s (specs ! j) \<longleftrightarrow> (\<forall>ch \<in> set (cp_linked_feature (specs ! j)). \<exists>i \<le> j. cp_name (specs ! i) = lc_source_component ch)"
proof -
  have "map_of (cs_components s) (cp_name (specs ! j)) = Some j" using map_of_zip_upt [OF assms(1), of "cp_name (specs ! j)" j] assms(2,3) by (simp add: assembled_def)
  then show ?thesis unfolding linkable_def using CreateTranslator_chain [OF assms(1-3)] assms(4) by (metis option.distinct(1) option.sel)
qed

lemma map_of_concat_single:
  assumes "distinct (map f xs)" and "x \<in> set xs" and "\<forall>x \<in> set xs. h x = [] \<or> h x = [(f x, g x)]" and "h x \<noteq> []"
  shows "map_of (concat (map h xs)) (f x) = Some (g x)"
  using assms
proof (induction xs)
  case (Cons y ys)
  show ?case
  proof (cases "x = y")
    case True
    then show ?thesis using Cons.prems by auto
  next
    case False
    then have "x \<in> set ys" using Cons.prems(2) by simp
    then have "f x \<noteq> f y" using Cons.prems(1) by (metis distinct.simps(2) image_eqI list.set_map list.simps(9))
    then have "map_of (h y) (f x) = None" using Cons.prems(3) by auto
    then show ?thesis using Cons \<open>x \<in> set ys\<close> by (simp add: map_add_def)
  qed
qed simp

text \<open>C14: initialising a session for components with different names creates them in order and succeeds exactly when every linked
  feature names its own component or an earlier one as its source; then the translator of a link walks from the component
  back through its predecessors to the source.\<close>

theorem session_Init_links:
  fixes ops :: "('c, 'i, 's, 't, 'm, 'e, 'o, 'l) component_ops" and g :: 'g
  assumes d: "distinct (map cp_name specs)"
    and made: "\<forall>spec \<in> set specs. \<exists>c. builder (cp_name spec) (rm_registered_name (cp_backend spec)) = Some c \<and> co_InitializeComponent ops spec c = Some (made spec)"
    and look: "\<forall>spec \<in> set specs. \<forall>ch \<in> set (cp_linked_feature spec). has_lookup ops ch"
  shows "(session_Init builder ops \<lparr>ms_component = specs\<rparr> g (new_ComputeSession k g0) \<noteq> None \<longleftrightarrow>
      (\<forall>j < length specs. \<forall>ch \<in> set (cp_linked_feature (specs ! j)). \<exists>i \<le> j. cp_name (specs ! i) = lc_source_component ch)) \<and>
    (\<forall>s i j q. session_Init builder ops \<lparr>ms_component = specs\<rparr> g (new_ComputeSession k g0) = Some s \<longrightarrow> i \<le> j \<longrightarrow> j < length specs \<longrightarrow>
      q < length (cp_linked_feature (specs ! j)) \<longrightarrow> cp_name (specs ! i) = lc_source_component (cp_linked_feature (specs ! j) ! q) \<longrightarrow>
      GetComponent (cp_name (specs ! j)) s = Some (j, made (specs ! j)) \<and>
      (\<exists>trs. GetTranslators (cp_name (specs ! j)) s = Some trs \<and> length trs = length (cp_linked_feature (specs ! j)) \<and> tr_path (trs ! q) = rev [i..<Suc j]))"
proof -
  define s1 where "s1 = (new_ComputeSession k g0 :: ('c, 'g, 'i) compute_session)\<lparr>cs_spec := \<lparr>ms_component = specs\<rparr>, cs_grid_point := g,
     cs_store := map (\<lambda>spec. Some (made spec)) specs, cs_components := zip (map cp_name specs) [0..<length specs], cs_predecessors := chain (length specs)\<rparr>"
  have s1: "assembled specs made s1" by (simp add: s1_def assembled_def)
  have comps: "map_of (cs_components s1) (cp_name (specs ! j)) = Some j" if "j < length specs" for j
    using map_of_zip_upt [OF d, of "cp_name (specs ! j)" j] that s1 by (simp add: assembled_def)
  have known: "\<forall>spec \<in> set specs. map_of (cs_components s1) (cp_name spec) \<noteq> None" using comps by (metis in_set_conv_nth option.distinct(1))
  have t: "s1\<lparr>cs_translators := []\<rparr> = s1" by (simp add: s1_def new_ComputeSession_def)
  have run: "session_Init builder ops \<lparr>ms_component = specs\<rparr> g (new_ComputeSession k g0) =
      (if \<forall>spec \<in> set specs. linkable ops s1 spec then Some (s1\<lparr>cs_translators := concat (map (translators_of ops s1) specs)\<rparr>) else None)"
    using init_components [OF d made, of "(new_ComputeSession k g0)\<lparr>cs_spec := \<lparr>ms_component = specs\<rparr>, cs_grid_point := g\<rparr>"]
      init_translators_all [OF d known, of "[]" ops] unfolding t
    by (simp add: session_Init_def s1_def new_ComputeSession_def)
  have link: "linkable ops s1 (specs ! j) \<longleftrightarrow> (\<forall>ch \<in> set (cp_linked_feature (specs ! j)). \<exists>i \<le> j. cp_name (specs ! i) = lc_source_component ch)"
    if "j < length specs" for j by (rule assembled_linkable [OF d s1 that bspec [OF look nth_mem [OF that]]])
  show ?thesis
  proof (intro conjI allI impI)
    show "session_Init builder ops \<lparr>ms_component = specs\<rparr> g (new_ComputeSession k g0) \<noteq> None \<longleftrightarrow>
      (\<forall>j < length specs. \<forall>ch \<in> set (cp_linked_feature (specs ! j)). \<exists>i \<le> j. cp_name (specs ! i) = lc_source_component ch)"
      unfolding run using link by (auto simp: all_set_conv_all_nth)
  next
    fix s i j q assume s: "session_Init builder ops \<lparr>ms_component = specs\<rparr> g (new_ComputeSession k g0) = Some s" and ij: "i \<le> j" "j < length specs"
      and q: "q < length (cp_linked_feature (specs ! j))" "cp_name (specs ! i) = lc_source_component (cp_linked_feature (specs ! j) ! q)"
    have eq: "s = s1\<lparr>cs_translators := concat (map (translators_of ops s1) specs)\<rparr>" using s unfolding run by (simp split: if_splits)
    show "GetComponent (cp_name (specs ! j)) s = Some (j, made (specs ! j))"
      using comps [OF ij(2)] s1 ij(2) by (simp add: GetComponent_def eq deref_def assembled_def)
    let ?trs = "map (\<lambda>ch. the (CreateTranslator ops ch j s1)) (cp_linked_feature (specs ! j))"
    have "map_of (concat (map (translators_of ops s1) specs)) (cp_name (specs ! j)) =
        Some (map (\<lambda>ch. the (CreateTranslator ops ch (the (map_of (cs_components s1) (cp_name (specs ! j)))) s1)) (cp_linked_feature (specs ! j)))"
      using d ij(2) q(1) by (intro map_of_concat_single) (auto simp: translators_of_def)
    then have "GetTranslators (cp_name (specs ! j)) s = Some ?trs" using comps [OF ij(2)] by (simp add: GetTranslators_def eq)
    moreover have "has_lookup ops (cp_linked_feature (specs ! j) ! q)" using bspec [OF bspec [OF look nth_mem [OF ij(2)]] nth_mem [OF q(1)]] .
    from CreateTranslator_chain(1) [OF d s1 ij(2) this ij(1) q(2)] obtain tr where
      "CreateTranslator ops (cp_linked_feature (specs ! j) ! q) j s1 = Some tr" "tr_path tr = rev [i..<Suc j]" by blast
    then have "tr_path (?trs ! q) = rev [i..<Suc j]" using q(1) by (simp del: upt_Suc)
    ultimately show "\<exists>trs. GetTranslators (cp_name (specs ! j)) s = Some trs \<and> length trs = length (cp_linked_feature (specs ! j)) \<and> tr_path (trs ! q) = rev [i..<Suc j]"
      by simp
  qed
qed

section \<open>Stateless components\<close>

text \<open>The component of \<^verbatim>\<open>stateless_component.cc\<close>, which forwards the states of its predecessor.\<close>

record 's stateless_component =
  sl_name :: string
  sl_batch_size :: int
  sl_beam_size :: int
  sl_parent_states :: "'s list list"

definition new_StatelessComponent :: "'s stateless_component" where
  "new_StatelessComponent = \<lparr>sl_name = [], sl_batch_size = 1, sl_beam_size = 1, sl_parent_states = []\<rparr>"

definition sl_InitializeComponent :: "component_spec \<Rightarrow> 's stateless_component \<Rightarrow> 's stateless_component option" where
  "sl_InitializeComponent spec c = Some (c\<lparr>sl_name := cp_name spec\<rparr>)"

text \<open>The comparison in \<^verbatim>\<open>CHECK_LE\<close> is unsigned: a negative beam size counts as a large one.\<close>

definition sl_InitializeData ::
  "'s list list \<Rightarrow> int \<Rightarrow> 's stateless_component \<Rightarrow> 'b input_batch_cache \<Rightarrow> ('s stateless_component \<times> 'b input_batch_cache) option" where
  "sl_InitializeData parent_states max_beam_size c input_data = do {
     batch_size \<leftarrow> ibc_Size input_data;
     check (\<forall>beam \<in> set parent_states. int (length beam) \<le> max_beam_size mod 2 ^ 64);
     Some (c\<lparr>sl_batch_size := batch_size, sl_beam_size := max_beam_size, sl_parent_states := parent_states\<rparr>, input_data) }"

definition stateless_ops :: "('s stateless_component, 'b input_batch_cache, 's, 't, 'm, 'e, 'o, 'l) component_ops" where
  "stateless_ops = \<lparr>co_InitializeComponent = sl_InitializeComponent, co_InitializeData = sl_InitializeData, co_IsReady = \<lambda>_. True,
     co_InitializeTracing = Some, co_DisableTracing = \<lambda>c. c, co_Name = sl_name, co_BatchSize = sl_batch_size, co_BeamSize = sl_beam_size,
     co_StepsTaken = \<lambda>_ _. Some 0, co_GetBeamIndexAtStep = \<lambda>_ _ _ _. None, co_GetSourceBeamIndex = \<lambda>i _ _. Some i,
     co_GetStepLookupFunction = \<lambda>_ _. None, co_AdvanceFromPrediction = \<lambda>_ _ _ _. None, co_AdvanceFromOracle = \<lambda>_. None,
     co_IsTerminal = \<lambda>_. Some True, co_GetBeam = \<lambda>c. Some (sl_parent_states c), co_GetFixedFeatures = \<lambda>_ _. None,
     co_BulkGetFixedFeatures = \<lambda>_ _. None, co_GetRawLinkFeatures = \<lambda>_ _. None, co_GetOracleLabels = \<lambda>_. None,
     co_FinalizeData = \<lambda>c i. Some (c, i), co_ResetComponent = \<lambda>c. c, co_GetTraceProtos = \<lambda>_. Some [],
     co_AddTranslatedLinkFeaturesToTrace = \<lambda>_ _ _. None\<rparr>"

definition demo_spec :: "string \<Rightarrow> (string \<times> string) list \<Rightarrow> component_spec" where
  "demo_spec name links = \<lparr>cp_name = name, cp_transition_system = \<lparr>rm_registered_name = [], rm_parameters = []\<rparr>, cp_resource = [], cp_fixed_feature = [],
     cp_linked_feature = map (\<lambda>(source, translator). \<lparr>lc_name = source, lc_fml = [], lc_embedding_dim = 0, lc_size = 1, lc_source_component = source,
       lc_source_translator = translator, lc_source_layer = []\<rparr>) links,
     cp_backend = \<lparr>rm_registered_name = ''StatelessComponent'', rm_parameters = []\<rparr>\<rparr>"

theorem session_Init_links_witness:
  "\<exists>s trs. session_Init (\<lambda>_ _. Some new_StatelessComponent)
      (stateless_ops :: (unit stateless_component, unit input_batch_cache, unit, unit, unit, unit, unit, unit) component_ops)
      \<lparr>ms_component = [demo_spec ''a'' [], demo_spec ''b'' [], demo_spec ''c'' [(''b'', ''history''), (''a'', ''identity'')]]\<rparr> () (new_ComputeSession 0 ()) = Some s \<and>
    GetTranslators ''c'' s = Some trs \<and> length trs = 2 \<and> tr_path (trs ! 1) = [2, 1, 0]"
proof -
  let ?specs = "[demo_spec ''a'' [], demo_spec ''b'' [], demo_spec ''c'' [(''b'', ''history''), (''a'', ''identity'')]]"
  let ?ops = "stateless_ops :: (unit stateless_component, unit input_batch_cache, unit, unit, unit, unit, unit, unit) component_ops"
  let ?made = "\<lambda>spec. (new_StatelessComponent :: unit stateless_component)\<lparr>sl_name := cp_name spec\<rparr>"
  have d: "distinct (map cp_name ?specs)" by (simp add: demo_spec_def)
  have made: "\<forall>spec \<in> set ?specs. \<exists>c. Some new_StatelessComponent = Some c \<and> co_InitializeComponent ?ops spec c = Some (?made spec)"
    by (simp add: stateless_ops_def sl_InitializeComponent_def)
  have look: "\<forall>spec \<in> set ?specs. \<forall>ch \<in> set (cp_linked_feature spec). has_lookup ?ops ch" by (simp add: demo_spec_def has_lookup_def)
  note links = session_Init_links [where builder = "\<lambda>_ _. Some new_StatelessComponent", OF d made look, of "()" 0 "()"]
  have "\<forall>j < length ?specs. \<forall>ch \<in> set (cp_linked_feature (?specs ! j)). \<exists>i \<le> j. cp_name (?specs ! i) = lc_source_component ch"
    by (auto simp: demo_spec_def less_Suc_eq nth_Cons')
  then obtain s where s: "session_Init (\<lambda>_ _. Some new_StatelessComponent) ?ops \<lparr>ms_component = ?specs\<rparr> () (new_ComputeSession 0 ()) = Some s"
    using links by blast
  have "\<exists>trs. GetTranslators (cp_name (?specs ! 2)) s = Some trs \<and> length trs = length (cp_linked_feature (?specs ! 2)) \<and> tr_path (trs ! 1) = rev [0..<Suc 2]"
    using conjunct2 [OF links, rule_format, OF s, of 0 2 1] by (simp add: demo_spec_def)
  then show ?thesis using s by (auto simp: demo_spec_def numeral_eq_Suc)
qed

section \<open>Runs of a session\<close>

text \<open>The operations that change a session, with what an observer notes of them.\<close>

datatype session_event = Initialized string | Used | WasReset

inductive session_step ::
  "('c, 'i, 's, 't, 'm, 'e, 'o, 'l) component_ops \<Rightarrow> (string list \<Rightarrow> 'i) \<Rightarrow> session_event \<Rightarrow> ('c, 'g, 'i) compute_session \<Rightarrow> ('c, 'g, 'i) compute_session \<Rightarrow> bool"
  for ops new_cache where
  init_data: "InitializeComponentData ops name k s = Some s' \<Longrightarrow> session_step ops new_cache (Initialized name) s s'"
| advance_oracle: "session_AdvanceFromOracle ops name s = Some s' \<Longrightarrow> session_step ops new_cache Used s s'"
| advance_prediction: "session_AdvanceFromPrediction ops name m i n s = Some (r, s') \<Longrightarrow> session_step ops new_cache Used s s'"
| input_features: "GetInputFeatures ops name channel s = Some (f, s') \<Longrightarrow> session_step ops new_cache Used s s'"
| bulk_features: "BulkGetInputFeatures ops name e s = Some (f, s') \<Longrightarrow> session_step ops new_cache Used s s'"
| link_features: "GetTranslatedLinkFeatures ops name channel s = Some (ls, s') \<Longrightarrow> session_step ops new_cache Used s s'"
| tracing: "SetTracing ops b s = Some s' \<Longrightarrow> session_step ops new_cache Used s s'"
| finalize: "session_FinalizeData ops name s = Some s' \<Longrightarrow> session_step ops new_cache Used s s'"
| set_input: "session_step ops new_cache Used s (SetInputData new_cache data s)"
| set_cache: "session_step ops new_cache Used s (SetInputBatchCache batch s)"
| reset: "ResetSession ops s = Some s' \<Longrightarrow> session_step ops new_cache WasReset s s'"

text \<open>None of them creates, deletes or links a component.\<close>

definition same_frame :: "('c, 'g, 'i) compute_session \<Rightarrow> ('c, 'g, 'i) compute_session \<Rightarrow> bool" where
  "same_frame s s' \<longleftrightarrow> cs_id s' = cs_id s \<and> cs_spec s' = cs_spec s \<and> cs_components s' = cs_components s \<and> cs_translators s' = cs_translators s \<and>
     cs_predecessors s' = cs_predecessors s \<and> map (\<lambda>p. p = None) (cs_store s') = map (\<lambda>p. p = None) (cs_store s)"

lemma same_frame_refl [simp]: "same_frame s s"
  by (simp add: same_frame_def)

lemma same_frame_trans: "same_frame s s' \<Longrightarrow> same_frame s' s'' \<Longrightarrow> same_frame s s''"
  by (simp add: same_frame_def)

lemma same_frame_fields [simp]:
  "same_frame s (s'\<lparr>cs_input_data := i\<rparr>) \<longleftrightarrow> same_frame s s'" "same_frame s (s'\<lparr>cs_do_tracing := b\<rparr>) \<longleftrightarrow> same_frame s s'"
  by (simp_all add: same_frame_def)

lemma deref_eq_Some: "deref store a = Some c \<longleftrightarrow> a < length store \<and> store ! a = Some c"
  by (auto simp: deref_def vec_at_eq_Some split: bind_splits)

lemma same_frame_put: "deref (cs_store s) a = Some c \<Longrightarrow> same_frame s (put_component a c' s)"
  by (simp add: same_frame_def put_component_def deref_eq_Some map_update list_update_same_conv)

lemma GetComponent_deref: "GetComponent name s = Some (a, c) \<Longrightarrow> deref (cs_store s) a = Some c"
  by (auto simp: GetComponent_def split: bind_splits)

lemma GetReadied_Get: "GetReadiedComponent ops name s = Some (a, c) \<longleftrightarrow> GetComponent name s = Some (a, c) \<and> co_IsReady ops c"
  by (auto simp: GetReadiedComponent_def check_def split: bind_splits if_splits)

lemma for_components_frame: "for_components f s = Some s' \<Longrightarrow> same_frame s s'"
proof -
  have "foreach (\<lambda>(_, a) s. do { c \<leftarrow> deref (cs_store s) a; Some (put_component a (f c) s) }) xs s = Some s' \<Longrightarrow> same_frame s s'" for xs :: "(string \<times> nat) list"
  proof (induction xs arbitrary: s)
    case (Cons x xs)
    obtain n a where x: "x = (n, a)" by (cases x)
    obtain c where c: "deref (cs_store s) a = Some c" using Cons.prems x by (auto split: bind_splits)
    then have "foreach (\<lambda>(_, a) s. do { c \<leftarrow> deref (cs_store s) a; Some (put_component a (f c) s) }) xs (put_component a (f c) s) = Some s'"
      using Cons.prems x by simp
    then show ?case using Cons.IH same_frame_trans [OF same_frame_put [OF c]] by blast
  qed simp
  then show "for_components f s = Some s' \<Longrightarrow> same_frame s s'" by (simp add: for_components_def)
qed

lemmas session_op_defs = session_AdvanceFromOracle_def session_AdvanceFromPrediction_def GetInputFeatures_def BulkGetInputFeatures_def
  GetTranslatedLinkFeatures_def

lemma ResetSession_frame: "ResetSession ops s = Some s' \<Longrightarrow> same_frame s s'"
  using for_components_frame by (fastforce simp: ResetSession_def split: bind_splits)

lemma InitializeComponentData_cases:
  assumes "InitializeComponentData ops name k s = Some s'"
  obtains input a c states c1 input' c2 where "cs_input_data s = Some input" "GetComponent name s = Some (a, c)"
    "co_InitializeData ops states k c input = Some (c1, input')" "(if cs_do_tracing s then co_InitializeTracing ops c1 else Some c1) = Some c2"
    "s' = (put_component a c2 s)\<lparr>cs_input_data := Some input'\<rparr>"
  using assms unfolding InitializeComponentData_def by (auto split: bind_splits)

lemma session_FinalizeData_cases:
  assumes "session_FinalizeData ops name s = Some s'"
  obtains a c input c' input' where "GetComponent name s = Some (a, c)" "co_IsReady ops c" "cs_input_data s = Some input"
    "co_FinalizeData ops c input = Some (c', input')" "s' = (put_component a c' s)\<lparr>cs_input_data := Some input'\<rparr>"
  using assms unfolding session_FinalizeData_def by (auto simp: GetReadied_Get split: bind_splits)

lemma session_step_frame: "session_step ops new_cache e s s' \<Longrightarrow> same_frame s s'"
proof (induction rule: session_step.induct)
  case (tracing b s s')
  then show ?case using for_components_frame by (fastforce simp: SetTracing_def same_frame_def)
next
  case (reset s s')
  then show ?case by (rule ResetSession_frame)
next
  case (init_data name k s s')
  then show ?case using same_frame_put [OF GetComponent_deref] by (elim InitializeComponentData_cases) simp
next
  case (finalize name s s')
  then show ?case using same_frame_put [OF GetComponent_deref] by (elim session_FinalizeData_cases) simp
qed (auto simp: session_op_defs GetReadied_Get SetInputData_def SetInputBatchCache_def split: bind_splits dest!: GetComponent_deref intro: same_frame_put)

lemma session_Init_id:
  fixes ops :: "('c, 'i, 's, 't, 'm, 'e, 'o, 'l) component_ops" and s s' :: "('c, 'g, 'i) compute_session"
  shows "session_Init builder ops spec g s = Some s' \<Longrightarrow> cs_id s' = cs_id s"
proof -
  have comp: "foreach (init_component builder ops) xs p = Some (s', q) \<Longrightarrow> cs_id s' = cs_id (fst p)" for xs q p and s' :: "('c, 'g, 'i) compute_session"
  proof (induction xs arbitrary: p)
    case (Cons x xs)
    obtain p1 where p1: "init_component builder ops x p = Some p1" "foreach (init_component builder ops) xs p1 = Some (s', q)"
      using Cons.prems by (auto split: bind_splits)
    have "cs_id (fst p1) = cs_id (fst p)" using p1(1) by (cases p) (auto simp: init_component_def Let_def split: bind_splits option.splits)
    then show ?case using Cons.IH [OF p1(2)] by simp
  qed simp
  have "foreach (init_translators ops) xs s = Some s' \<Longrightarrow> cs_id s' = cs_id s" for xs and s s' :: "('c, 'g, 'i) compute_session"
  proof (induction xs arbitrary: s)
    case (Cons x xs)
    then obtain s1 where s1: "init_translators ops x s = Some s1" "foreach (init_translators ops) xs s1 = Some s'" by (auto split: bind_splits)
    then have "cs_id s1 = cs_id s" by (auto simp: init_translators_def split: bind_splits if_splits)
    then show ?case using Cons.IH [OF s1(2)] by simp
  qed simp
  then show "session_Init builder ops spec g s = Some s' \<Longrightarrow> cs_id s' = cs_id s"
    using comp by (fastforce simp: session_Init_def split: bind_splits)
qed

section \<open>The pool and its clients\<close>

text \<open>
  The state of a process: the pool, the sessions that threads have taken and not prepared yet, and those in use. A step is the
  part of \<^verbatim>\<open>GetSession\<close> under the lock, the preparation, an operation on a session in use, or \<^verbatim>\<open>ReturnSession\<close>.
\<close>

type_synonym ('c, 'g, 'i) pool_state = "('c, 'g, 'i) session_pool \<times> (bool \<times> ('c, 'g, 'i) compute_session) multiset \<times> ('c, 'g, 'i) compute_session multiset"

inductive pool_step ::
  "(string \<Rightarrow> string \<Rightarrow> 'c option) \<Rightarrow> ('c, 'i, 's, 't, 'm, 'e, 'o, 'l) component_ops \<Rightarrow> (string list \<Rightarrow> 'i) \<Rightarrow>
     ('c, 'g, 'i) pool_state \<Rightarrow> ('c, 'g, 'i) pool_state \<Rightarrow> bool"
  for builder ops new_cache where
  take_one: "take_session p = (b, s, p') \<Longrightarrow> pool_step builder ops new_cache (p, taken, used) (p', add_mset (b, s) taken, used)"
| prepare: "prepare_session builder ops p b s = Some s' \<Longrightarrow> pool_step builder ops new_cache (p, add_mset (b, s) taken, used) (p, taken, add_mset s' used)"
| work: "session_step ops new_cache e s s' \<Longrightarrow> pool_step builder ops new_cache (p, taken, add_mset s used) (p, taken, add_mset s' used)"
| give_back: "pool_step builder ops new_cache (p, taken, add_mset s used) (ReturnSession s p, taken, used)"

definition session_ids :: "('c, 'g, 'i) pool_state \<Rightarrow> int multiset" where
  "session_ids = (\<lambda>(p, taken, used). mset (map cs_id (sp_sessions p)) + image_mset (\<lambda>(_, s). cs_id s) taken + image_mset cs_id used)"

definition pool_inv :: "('c, 'g, 'i) pool_state \<Rightarrow> bool" where
  "pool_inv st \<longleftrightarrow> 0 \<le> sp_num_unique_sessions (fst st) \<and> session_ids st = mset (map int [0..<nat (sp_num_unique_sessions (fst st))])"

lemma pool_inv_step: "pool_step builder ops new_cache st st' \<Longrightarrow> pool_inv st \<Longrightarrow> pool_inv st'"
proof (induction rule: pool_step.induct)
  case (take_one p b s p' taken used)
  note inv = take_one(2) [unfolded pool_inv_def session_ids_def, simplified]
  show ?case
  proof (cases "sp_sessions p" rule: rev_cases)
    case Nil
    then have t: "s = new_ComputeSession (sp_num_unique_sessions p) (sp_hyperparams p)" "p' = p\<lparr>sp_num_unique_sessions := sp_num_unique_sessions p + 1\<rparr>"
      using take_one(1) by (simp_all add: take_session_def)
    have "nat (sp_num_unique_sessions p + 1) = Suc (nat (sp_num_unique_sessions p))" using inv by (simp add: nat_add_distrib)
    then show ?thesis using inv Nil by (simp add: t pool_inv_def session_ids_def new_ComputeSession_def atLeast0_lessThan_Suc)
  next
    case (snoc xs x)
    then have t: "s = x" "p' = p\<lparr>sp_sessions := xs\<rparr>" using take_one(1) by (simp_all add: take_session_def)
    show ?thesis using inv snoc by (simp add: t pool_inv_def session_ids_def)
  qed
next
  case (prepare p b s s' taken used)
  have "cs_id s' = cs_id s" using prepare(1) session_Init_id [of builder ops _ _ s s'] ResetSession_frame [of ops s s']
    by (cases b) (auto simp: prepare_session_def same_frame_def)
  then show ?case using prepare(2) by (simp add: pool_inv_def session_ids_def)
next
  case (work e s s' p taken used)
  then have "cs_id s' = cs_id s" using session_step_frame [OF work(1)] by (simp add: same_frame_def)
  then show ?case using work(2) by (simp add: pool_inv_def session_ids_def)
next
  case (give_back p taken s used)
  then show ?case by (simp add: pool_inv_def session_ids_def ReturnSession_def)
qed

text \<open>C15: whatever threads do with the sessions of a pool and in whatever order they take, prepare, use and return them, all
  sessions (in the pool, taken or in use) have different identifiers, one for each session that was ever created, and the
  number of outstanding sessions is the number of those that are taken or in use.\<close>

theorem pool_sessions_unique:
  assumes "(pool_step builder ops new_cache)\<^sup>*\<^sup>* (new_ComputeSessionPool spec g, {#}, {#}) (p, taken, used)"
  shows "session_ids (p, taken, used) = mset (map int [0..<nat (sp_num_unique_sessions p)]) \<and>
    num_outstanding_sessions p = int (size taken + size used)"
proof -
  have inv: "pool_inv (p, taken, used)" using assms
  proof (induction rule: rtranclp_induct)
    case base
    show ?case by (simp add: pool_inv_def session_ids_def new_ComputeSessionPool_def)
  qed (rule pool_inv_step)
  then have "size (session_ids (p, taken, used)) = nat (sp_num_unique_sessions p)" by (simp add: pool_inv_def)
  then have "length (sp_sessions p) + size taken + size used = nat (sp_num_unique_sessions p)" by (simp add: session_ids_def)
  then show ?thesis using inv by (auto simp: pool_inv_def num_outstanding_sessions_def)
qed

theorem pool_sessions_unique_witness:
  "session_ids (ReturnSession (new_ComputeSession 0 ()) ((new_ComputeSessionPool \<lparr>ms_component = []\<rparr> ())\<lparr>sp_num_unique_sessions := 1\<rparr>), {#}, {#} :: (unit stateless_component, unit, unit input_batch_cache) compute_session multiset) = {#0#}"
proof -
  let ?p0 = "new_ComputeSessionPool \<lparr>ms_component = []\<rparr> () :: (unit stateless_component, unit, unit input_batch_cache) session_pool"
  let ?p1 = "?p0\<lparr>sp_num_unique_sessions := 1\<rparr>" and ?s = "new_ComputeSession 0 () :: (unit stateless_component, unit, unit input_batch_cache) compute_session"
  let ?ops = "stateless_ops :: (unit stateless_component, unit input_batch_cache, unit, unit, unit, unit, unit, unit) component_ops"
  let ?step = "pool_step (\<lambda>_ _. None) ?ops InputBatchCache_strings"
  have 1: "?step (?p0, {#}, {#}) (?p1, {#(True, ?s)#}, {#})"
    using pool_step.take_one [of ?p0 True ?s ?p1] by (simp add: take_session_def new_ComputeSessionPool_def)
  have 2: "?step (?p1, {#(True, ?s)#}, {#}) (?p1, {#}, {#?s#})"
    by (rule pool_step.prepare) (simp add: prepare_session_def session_Init_def new_ComputeSession_def new_ComputeSessionPool_def)
  have 3: "?step (?p1, {#}, {#?s#}) (ReturnSession ?s ?p1, {#}, {#})" by (rule pool_step.give_back)
  have "?step\<^sup>*\<^sup>* (?p0, {#}, {#}) (ReturnSession ?s ?p1, {#}, {#})"
    by (rule rtranclp.rtrancl_into_rtrancl [OF rtranclp.rtrancl_into_rtrancl [OF r_into_rtranclp [of ?step, OF 1] 2] 3])
  from pool_sessions_unique [OF this] show ?thesis by (simp add: ReturnSession_def)
qed

text \<open>C38: a batch cache converts its data once, to one type: the sentences of the batch are the parsed strings in order, further
  conversions to the same type return the same batch, conversions to another type and additions abort, and the serialised
  data are the strings again when printing inverts parsing.\<close>

theorem input_batch_converted_once:
  assumes parse: "\<forall>d \<in> set data. \<exists>s. parse d = Some s \<and> print s = d" and other: "bc_type cls \<noteq> ''SentenceInputBatch''"
  shows "\<exists>batch cache. ibc_GetAs (SentenceInputBatch parse print w) (InputBatchCache_strings data) = Some (batch, cache) \<and>
    map ss_sentence batch = map (\<lambda>d. the (parse d)) data \<and> ibc_Size cache = Some (int (length data)) \<and> ibc_SerializedData cache = Some data \<and>
    ibc_GetAs (SentenceInputBatch parse print w) cache = Some (batch, cache) \<and> ibc_GetAs cls cache = None \<and> ibc_AddData d cache = None"
proof -
  let ?batch = "map (\<lambda>d. \<lparr>ss_sentence = the (parse d), ss_workspace = w\<rparr>) data"
  have "foreach (\<lambda>proto data. do { sentence \<leftarrow> parse proto; Some (data @ [\<lparr>ss_sentence = sentence, ss_workspace = w\<rparr>]) }) ds acc =
      Some (acc @ map (\<lambda>d. \<lparr>ss_sentence = the (parse d), ss_workspace = w\<rparr>) ds)" if "\<forall>d \<in> set ds. \<exists>s. parse d = Some s" for ds acc
    using that by (induction ds arbitrary: acc) auto
  from this [of data "[]"] have set: "sib_SetData parse w data [] = Some ?batch" using parse by (auto simp: sib_SetData_def)
  let ?cache = "\<lparr>ibc_stored_type = Some ''SentenceInputBatch'', ibc_source_data = data, ibc_converted_data = Some (SentenceInputBatch parse print w, ?batch)\<rparr>"
  have get: "ibc_GetAs (SentenceInputBatch parse print w) (InputBatchCache_strings data) = Some (?batch, ?cache)"
    using set by (simp add: ibc_GetAs_def InputBatchCache_strings_def SentenceInputBatch_def check_def)
  have ser: "map (\<lambda>x. print (the (parse x))) data = data" using parse by (intro map_idI) auto
  show ?thesis
  proof (intro exI conjI)
    show "map ss_sentence ?batch = map (\<lambda>d. the (parse d)) data" by (simp add: comp_def)
    show "ibc_Size ?cache = Some (int (length data))" by (simp add: ibc_Size_def SentenceInputBatch_def sib_GetSize_def)
    show "ibc_SerializedData ?cache = Some data" using ser by (simp add: ibc_SerializedData_def SentenceInputBatch_def sib_GetSerializedData_def comp_def)
    show "ibc_GetAs (SentenceInputBatch parse print w) ?cache = Some (?batch, ?cache)" by (simp add: ibc_GetAs_def SentenceInputBatch_def check_def)
    show "ibc_GetAs cls ?cache = None" using other by (simp add: ibc_GetAs_def check_def)
    show "ibc_AddData d ?cache = None" by (simp add: ibc_AddData_def check_def)
  qed (rule get)
qed

theorem input_batch_converted_once_witness:
  "\<exists>batch cache. ibc_GetAs (SentenceInputBatch (\<lambda>d. Some \<lparr>sent_docid = d, sent_text = [], sent_token = []\<rparr>) sent_docid ()) (InputBatchCache_strings [''x'', ''y'']) =
     Some (batch, cache) \<and> map (sent_docid \<circ> ss_sentence) batch = [''x'', ''y''] \<and> ibc_SerializedData cache = Some [''x'', ''y''] \<and> ibc_AddData ''z'' cache = None"
proof -
  let ?parse = "\<lambda>d. Some \<lparr>sent_docid = d, sent_text = [], sent_token = []\<rparr>"
  have "\<forall>d \<in> set [''x'', ''y'']. \<exists>s. ?parse d = Some s \<and> sent_docid s = d" by simp
  from input_batch_converted_once [OF this, of "\<lparr>bc_type = ''Other'', bc_new = [], bc_SetData = \<lambda>_ b. Some b, bc_GetSize = \<lambda>_. 0, bc_GetSerializedData = \<lambda>_. []\<rparr>" "()" "''z''"]
  show ?thesis by (auto simp flip: map_map)
qed

end
