(* ===== verification/Syntaxnet_Component.thy ===== *)
theory Syntaxnet_Component
  imports Beam Compute_Session Head_Transitions Task_Context Utf8
begin

text \<open>
  The component of DRAGNN that runs a SyntaxNet transition system in beams, one beam per sentence of the batch:
  \<^verbatim>\<open>dragnn/components/syntaxnet\<close>. The transition system is a record of its virtual functions, the feature extractors are
  functions from a workspace and a parser state to feature values. A state keeps the workspace of its sentence as it was when the
  state was created, and the position of its sentence in the batch, into which \<^verbatim>\<open>FinalizeData\<close> writes. The set of the functions
  that a beam calls is rebuilt from the component for every call, since the code captures the component by reference.
\<close>

section \<open>Traces\<close>

record linked_channel_trace =
  lt_name :: string
  lt_source_component :: string
  lt_source_translator :: string
  lt_source_layer :: string
  lt_value_trace :: "link_features list"

record fixed_channel_trace =
  ft_name :: string
  ft_value_trace :: "string list list"

record component_step_trace =
  st_linked_feature_trace :: "linked_channel_trace list"
  st_fixed_feature_trace :: "fixed_channel_trace list"
  st_html_representation :: string
  st_caption :: string
  st_step_finished :: bool

record component_trace =
  ct_name :: string
  ct_step_trace :: "component_step_trace list"

section \<open>Transition states\<close>

record ('ts, 'w) syntaxnet_state =
  sn_parser_state :: "'ts parser_state"
  sn_sentence :: nat
  sn_workspace :: 'w
  sn_step_for_token :: "int list"
  sn_parent_step_for_token :: "int list"
  sn_parent_for_token :: "int list"
  sn_trace :: "component_trace option"

type_synonym ('ts, 'w) syntaxnet_item = "('ts, 'w) syntaxnet_state beam_item"

definition new_SyntaxNetTransitionState :: "'ts parser_state \<Rightarrow> nat \<Rightarrow> 'w \<Rightarrow> ('ts, 'w) syntaxnet_item" where
  "new_SyntaxNetTransitionState parser_state sentence workspace = (let n = length (sent_token (ps_sentence parser_state)) in
     \<lparr>item_state = \<lparr>sn_parser_state = parser_state, sn_sentence = sentence, sn_workspace = workspace, sn_step_for_token = replicate n (-1),
        sn_parent_step_for_token = replicate n (-1), sn_parent_for_token = replicate n (-1), sn_trace = None\<rparr>,
      item_score = fzero, item_beam_index = -1, item_parent_index = 0, item_gold = False\<rparr>)"

definition state_Init :: "'x beam_item \<Rightarrow> ('ts, 'w) syntaxnet_item \<Rightarrow> ('ts, 'w) syntaxnet_item" where
  "state_Init parent s = s\<lparr>item_score := item_score parent, item_parent_index := item_beam_index parent\<rparr>"

text \<open>All three accessors test the index against the first vector.\<close>

definition step_for_token :: "int \<Rightarrow> ('ts, 'w) syntaxnet_state \<Rightarrow> int option" where
  "step_for_token token s = (if token < 0 \<or> token \<ge> int (length (sn_step_for_token s)) then Some (-1) else vec_at (sn_step_for_token s) token)"

definition parent_step_for_token :: "int \<Rightarrow> ('ts, 'w) syntaxnet_state \<Rightarrow> int option" where
  "parent_step_for_token token s = (if token < 0 \<or> token \<ge> int (length (sn_step_for_token s)) then Some (-1) else vec_at (sn_parent_step_for_token s) token)"

definition parent_for_token :: "int \<Rightarrow> ('ts, 'w) syntaxnet_state \<Rightarrow> int option" where
  "parent_for_token token s = (if token < 0 \<or> token \<ge> int (length (sn_step_for_token s)) then Some (-1) else vec_at (sn_parent_for_token s) token)"

definition vec_insert :: "'a list \<Rightarrow> int \<Rightarrow> 'a \<Rightarrow> 'a list option" where
  "vec_insert xs i v = (if 0 \<le> i \<and> i \<le> int (length xs) then Some (take (nat i) xs @ v # drop (nat i) xs) else None)"

definition set_step_for_token :: "int \<Rightarrow> int \<Rightarrow> ('ts, 'w) syntaxnet_state \<Rightarrow> ('ts, 'w) syntaxnet_state option" where
  "set_step_for_token token step s = do { v \<leftarrow> vec_insert (sn_step_for_token s) token step; Some (s\<lparr>sn_step_for_token := v\<rparr>) }"

definition set_parent_step_for_token :: "int \<Rightarrow> int \<Rightarrow> ('ts, 'w) syntaxnet_state \<Rightarrow> ('ts, 'w) syntaxnet_state option" where
  "set_parent_step_for_token token parent_step s = do { v \<leftarrow> vec_insert (sn_parent_step_for_token s) token parent_step; Some (s\<lparr>sn_parent_step_for_token := v\<rparr>) }"

definition set_parent_for_token :: "int \<Rightarrow> int \<Rightarrow> ('ts, 'w) syntaxnet_state \<Rightarrow> ('ts, 'w) syntaxnet_state option" where
  "set_parent_for_token token parent s = do { v \<leftarrow> vec_insert (sn_parent_for_token s) token parent; Some (s\<lparr>sn_parent_for_token := v\<rparr>) }"

fun html_stack :: "'ts parser_state \<Rightarrow> int list \<Rightarrow> string option" where
  "html_stack s [] = Some []"
| "html_stack s (i # is) = do {
     let word_idx = Stack s i;
     rest \<leftarrow> html_stack s is;
     if word_idx \<ge> 0 then do { t \<leftarrow> GetToken s word_idx; Some (tok_word t @ '' '' @ rest) } else Some rest }"

definition HTMLRepresentation :: "'ts parser_state \<Rightarrow> string option" where
  "HTMLRepresentation s = do {
     stack \<leftarrow> html_stack s (rev [0..StackSize s - 1]);
     let word_idx = Input s 0;
     word \<leftarrow> (if word_idx \<ge> 0 then do { t \<leftarrow> GetToken s word_idx; Some (tok_word t @ '' '') } else Some []);
     Some (''Stack: '' @ stack @ ''| Input: '' @ word) }"

section \<open>The component\<close>

text \<open>
  The virtual functions of a transition system, with \<open>to_NewState\<close> for the construction of a parser state over its transition
  state, and the feature extractors: \<open>fx_Preprocess\<close> resets a workspace and preprocesses it for both extractors, \<open>fx_value_name\<close>
  formats a feature for the trace.
\<close>

record 'ts transition_ops =
  to_NewState :: "sentence \<Rightarrow> term_frequency_map \<Rightarrow> 'ts parser_state option"
  to_NumActions :: "int \<Rightarrow> int"
  to_IsAllowedAction :: "parser_action \<Rightarrow> 'ts parser_state \<Rightarrow> bool option"
  to_IsFinalState :: "'ts parser_state \<Rightarrow> bool option"
  to_GetNextGoldAction :: "'ts parser_state \<Rightarrow> parser_action option"
  to_PerformActionWithoutHistory :: "parser_action \<Rightarrow> 'ts parser_state \<Rightarrow> 'ts parser_state option"
  to_SupportsActionMetaData :: bool
  to_ParentIndex :: "'ts parser_state \<Rightarrow> parser_action \<Rightarrow> int option"
  to_ChildIndex :: "'ts parser_state \<Rightarrow> parser_action \<Rightarrow> int option"
  to_ActionAsString :: "parser_action \<Rightarrow> 'ts parser_state \<Rightarrow> string option"
  to_AddParseToDocument :: "'ts \<Rightarrow> 'ts parser_state \<Rightarrow> bool \<Rightarrow> sentence \<Rightarrow> sentence option"

record sparse_features =
  sf_id :: "int list"
  sf_weight :: "float_val list"
  sf_description :: "string list"

record ('ts, 'w) feature_ops =
  fx_Preprocess :: "'w \<Rightarrow> 'ts parser_state \<Rightarrow> ('w \<times> 'ts parser_state) option"
  fx_ExtractSparseFeatures :: "bool \<Rightarrow> 'w \<Rightarrow> 'ts parser_state \<Rightarrow> sparse_features list list"
  fx_ExtractLinkFeatures :: "'w \<Rightarrow> 'ts parser_state \<Rightarrow> int list list"
  fx_value_name :: "int \<Rightarrow> string \<Rightarrow> float_val option \<Rightarrow> string"

record ('ts, 'w) syntaxnet_component =
  snc_spec :: component_spec
  snc_label_map :: term_frequency_map
  snc_rewrite_root_labels :: bool
  snc_batch :: "('ts, 'w) syntaxnet_state beam list"
  snc_max_beam_size :: int
  snc_input_data :: bool
  snc_do_tracing :: bool
  snc_add_strings :: bool

definition new_SyntaxNetComponent :: "term_frequency_map \<Rightarrow> component_spec \<Rightarrow> ('ts, 'w) syntaxnet_component" where
  "new_SyntaxNetComponent label_map spec = \<lparr>snc_spec = spec, snc_label_map = label_map, snc_rewrite_root_labels = False, snc_batch = [],
     snc_max_beam_size = 1, snc_input_data = False, snc_do_tracing = False, snc_add_strings = False\<rparr>"

definition GetNewStepTrace :: "component_spec \<Rightarrow> 'ts parser_state \<Rightarrow> component_step_trace option" where
  "GetNewStepTrace spec state = do {
     html \<leftarrow> HTMLRepresentation state;
     Some \<lparr>st_linked_feature_trace = map (\<lambda>ch. \<lparr>lt_name = lc_name ch, lt_source_component = lc_source_component ch,
             lt_source_translator = lc_source_translator ch, lt_source_layer = lc_source_layer ch, lt_value_trace = []\<rparr>) (cp_linked_feature spec),
           st_fixed_feature_trace = map (\<lambda>ch. \<lparr>ft_name = fc_name ch, ft_value_trace = []\<rparr>) (cp_fixed_feature spec),
           st_html_representation = html, st_caption = [], st_step_finished = False\<rparr> }"

text \<open>Changing the last step of the trace, which must exist.\<close>

definition on_last_step :: "(component_step_trace \<Rightarrow> component_step_trace option) \<Rightarrow> ('ts, 'w) syntaxnet_state \<Rightarrow> ('ts, 'w) syntaxnet_state option" where
  "on_last_step f s = do {
     trace \<leftarrow> sn_trace s;
     check (ct_step_trace trace \<noteq> []);
     step \<leftarrow> f (last (ct_step_trace trace));
     Some (s\<lparr>sn_trace := Some (trace\<lparr>ct_step_trace := butlast (ct_step_trace trace) @ [step]\<rparr>)\<rparr>) }"

definition snc_IsAllowed :: "'ts transition_ops \<Rightarrow> ('ts, 'w) syntaxnet_item \<Rightarrow> int \<Rightarrow> bool" where
  "snc_IsAllowed ops state action \<longleftrightarrow> to_IsAllowedAction ops action (sn_parser_state (item_state state)) = Some True"

definition snc_IsFinal :: "'ts transition_ops \<Rightarrow> ('ts, 'w) syntaxnet_item \<Rightarrow> bool" where
  "snc_IsFinal ops state \<longleftrightarrow> to_IsFinalState ops (sn_parser_state (item_state state)) = Some True"

definition GetOracleVector :: "'ts transition_ops \<Rightarrow> ('ts, 'w) syntaxnet_item \<Rightarrow> int list" where
  "GetOracleVector ops state =
     (if snc_IsFinal ops state then [-1]
      else case GetAllNextGoldActions (to_GetNextGoldAction ops) (sn_parser_state (item_state state)) of None \<Rightarrow> [] | Some golds \<Rightarrow> golds)"

definition update_pointers :: "'ts transition_ops \<Rightarrow> int \<Rightarrow> int \<Rightarrow> ('ts, 'w) syntaxnet_state \<Rightarrow> ('ts, 'w) syntaxnet_state option" where
  "update_pointers ops num_steps action s = do {
     let parser_state = sn_parser_state s;
     parent_idx \<leftarrow> to_ParentIndex ops parser_state action;
     if parent_idx = -1 then do {
       next \<leftarrow> Next parser_state;
       if next < token_size (ps_sentence parser_state) \<and> next \<ge> 0 then set_step_for_token next num_steps s else Some s }
     else if parent_idx \<ge> 0 then do {
       s \<leftarrow> set_step_for_token parent_idx num_steps s;
       child_idx \<leftarrow> to_ChildIndex ops parser_state action;
       s \<leftarrow> set_parent_for_token child_idx parent_idx s;
       set_parent_step_for_token child_idx num_steps s }
     else Some s }"

definition snc_Advance ::
  "'ts transition_ops \<Rightarrow> ('ts, 'w) syntaxnet_component \<Rightarrow> int \<Rightarrow> ('ts, 'w) syntaxnet_item \<Rightarrow> int \<Rightarrow> ('ts, 'w) syntaxnet_item option" where
  "snc_Advance ops c num_steps state action = do {
     let s = item_state state;
     let parser_state = sn_parser_state s;
     s \<leftarrow> (if to_SupportsActionMetaData ops then update_pointers ops num_steps action s else Some s);
     s \<leftarrow> (if snc_do_tracing c then do {
             caption \<leftarrow> to_ActionAsString ops action parser_state;
             on_last_step (\<lambda>step. Some (step\<lparr>st_caption := caption, st_step_finished := True\<rparr>)) s }
           else Some s);
     parser_state \<leftarrow> PerformAction (to_PerformActionWithoutHistory ops) action parser_state;
     let s = s\<lparr>sn_parser_state := parser_state\<rparr>;
     s \<leftarrow> (if snc_do_tracing c then do {
             trace \<leftarrow> sn_trace s;
             step \<leftarrow> GetNewStepTrace (snc_spec c) parser_state;
             Some (s\<lparr>sn_trace := Some (trace\<lparr>ct_step_trace := ct_step_trace trace @ [step]\<rparr>)\<rparr>) }
           else Some s);
     Some (state\<lparr>item_state := s\<rparr>) }"

text \<open>The functions that \<^verbatim>\<open>CreateBeam\<close> gives to a beam. A test of the transition system that aborts counts as one that fails.\<close>

definition component_functions ::
  "'ts transition_ops \<Rightarrow> ('ts, 'w) syntaxnet_component \<Rightarrow> ('ts, 'w) syntaxnet_state beam \<Rightarrow> ('ts, 'w) syntaxnet_state beam_functions" where
  "component_functions ops c b = \<lparr>fn_is_allowed = snc_IsAllowed ops, fn_is_final = snc_IsFinal ops,
     fn_perform = snc_Advance ops c (bm_num_steps b), fn_oracle = GetOracleVector ops\<rparr>"

definition CreateState ::
  "'ts transition_ops \<Rightarrow> ('ts, 'w) feature_ops \<Rightarrow> ('ts, 'w) syntaxnet_component \<Rightarrow> nat \<Rightarrow> 'w syntaxnet_sentence \<Rightarrow>
     (('ts, 'w) syntaxnet_item \<times> 'w syntaxnet_sentence) option" where
  "CreateState ops fx c i sentence = do {
     parser_state \<leftarrow> to_NewState ops (ss_sentence sentence) (snc_label_map c);
     (workspace, parser_state) \<leftarrow> fx_Preprocess fx (ss_workspace sentence) parser_state;
     Some (new_SyntaxNetTransitionState parser_state i workspace, sentence\<lparr>ss_workspace := workspace\<rparr>) }"

text \<open>The initial states of a beam: one, or one for each state of the predecessor that fits.\<close>

fun create_states ::
  "'ts transition_ops \<Rightarrow> ('ts, 'w) feature_ops \<Rightarrow> ('ts, 'w) syntaxnet_component \<Rightarrow> nat \<Rightarrow> 'x beam_item option list \<Rightarrow> 'w syntaxnet_sentence \<Rightarrow>
     (('ts, 'w) syntaxnet_item list \<times> 'w syntaxnet_sentence) option" where
  "create_states ops fx c i [] sentence = Some ([], sentence)"
| "create_states ops fx c i (parent # parents) sentence = do {
     (state, sentence) \<leftarrow> CreateState ops fx c i sentence;
     let state = (case parent of None \<Rightarrow> state | Some p \<Rightarrow> state_Init p state);
     (states, sentence) \<leftarrow> create_states ops fx c i parents sentence;
     Some (state # states, sentence) }"

definition fill_beam ::
  "'ts transition_ops \<Rightarrow> ('ts, 'w) feature_ops \<Rightarrow> ('ts, 'w) syntaxnet_component \<Rightarrow> 'x beam_item list list \<Rightarrow> nat \<Rightarrow>
     ('ts, 'w) syntaxnet_state beam list \<times> 'w syntaxnet_sentence list \<Rightarrow> (('ts, 'w) syntaxnet_state beam list \<times> 'w syntaxnet_sentence list) option" where
  "fill_beam ops fx c parent_states i = (\<lambda>(batch, data). do {
     b \<leftarrow> vec_at batch (int i);
     sentence \<leftarrow> vec_at data (int i);
     parents \<leftarrow> (if parent_states = [] then Some [None]
       else do { ps \<leftarrow> vec_at parent_states (int i); Some (map Some (take (nat (min (bm_max_size b) (int (length ps)))) ps)) });
     (states, sentence) \<leftarrow> create_states ops fx c i parents sentence;
     b \<leftarrow> beam_Init states b;
     Some (batch[i := b], data[i := sentence]) })"

definition snc_InitializeData ::
  "'w syntaxnet_sentence list batch_class \<Rightarrow> 'ts transition_ops \<Rightarrow> ('ts, 'w) feature_ops \<Rightarrow> 'x beam_item list list \<Rightarrow> int \<Rightarrow>
     ('ts, 'w) syntaxnet_component \<Rightarrow> 'w syntaxnet_sentence list input_batch_cache \<Rightarrow>
     (('ts, 'w) syntaxnet_component \<times> 'w syntaxnet_sentence list input_batch_cache) option" where
  "snc_InitializeData cls ops fx parent_states max_beam_size c input_data = do {
     let c = c\<lparr>snc_input_data := True\<rparr>;
     c \<leftarrow> (if snc_max_beam_size c \<noteq> max_beam_size then do {
             check (max_beam_size > 0);
             Some (c\<lparr>snc_max_beam_size := max_beam_size, snc_batch := map (SetMaxSize max_beam_size) (snc_batch c)\<rparr>) }
           else Some c);
     (data, input_data) \<leftarrow> ibc_GetAs cls input_data;
     check (parent_states \<noteq> [] \<longrightarrow> length parent_states = length data);
     let batch = (if length (snc_batch c) < length data
       then snc_batch c @ replicate (length data - length (snc_batch c)) (new_Beam max_beam_size)
       else take (length data) (snc_batch c));
     (batch, data) \<leftarrow> foreach (fill_beam ops fx c parent_states) [0..<length data] (batch, data);
     Some (c\<lparr>snc_batch := batch\<rparr>, input_data\<lparr>ibc_converted_data := Some (cls, data)\<rparr>) }"

definition snc_StepsTaken :: "int \<Rightarrow> ('ts, 'w) syntaxnet_component \<Rightarrow> int option" where
  "snc_StepsTaken batch_index c = do { b \<leftarrow> vec_at (snc_batch c) batch_index; Some (bm_num_steps b) }"

definition snc_GetBeamIndexAtStep :: "int \<Rightarrow> int \<Rightarrow> int \<Rightarrow> ('ts, 'w) syntaxnet_component \<Rightarrow> int option" where
  "snc_GetBeamIndexAtStep step current_index batch c = do { b \<leftarrow> vec_at (snc_batch c) batch; FindPreviousIndex current_index step b }"

definition snc_GetSourceBeamIndex :: "int \<Rightarrow> int \<Rightarrow> ('ts, 'w) syntaxnet_component \<Rightarrow> int option" where
  "snc_GetSourceBeamIndex current_index batch c = do { b \<leftarrow> vec_at (snc_batch c) batch; FindPreviousIndex current_index 0 b }"

definition beam_state :: "int \<Rightarrow> int \<Rightarrow> ('ts, 'w) syntaxnet_component \<Rightarrow> ('ts, 'w) syntaxnet_state option" where
  "beam_state batch_index beam_index c = do {
     b \<leftarrow> vec_at (snc_batch c) batch_index;
     s \<leftarrow> vec_at (bm_beam b) beam_index;
     Some (item_state s) }"

definition reverse_token :: "int \<Rightarrow> ('ts, 'w) syntaxnet_state \<Rightarrow> int" where
  "reverse_token value s = (let size = token_size (ps_sentence (sn_parser_state s)); result = size - value - 1 in
     if result \<ge> 0 \<and> result < size then result else -1)"

definition reverse_char :: "int \<Rightarrow> ('ts, 'w) syntaxnet_state \<Rightarrow> int option" where
  "reverse_char value s = do {
     let sentence = ps_sentence (sn_parser_state s);
     first \<leftarrow> sent_token_at sentence 0;
     final \<leftarrow> sent_token_at sentence (token_size sentence - 1);
     let start_byte = tok_start first;
     let end_byte = tok_end final;
     check (0 \<le> start_byte \<and> start_byte \<le> end_byte + 1 \<and> end_byte < int (length (sent_text sentence)));
     let num_chars = int (ut_size (PointToUTF8 (take (nat (end_byte - start_byte + 1)) (drop (nat start_byte) (sent_text sentence)))));
     let result = num_chars - value - 1;
     Some (if result \<ge> 0 \<and> result < num_chars then result else -1) }"

definition snc_GetStepLookupFunction ::
  "string \<Rightarrow> ('ts, 'w) syntaxnet_component \<Rightarrow> (('ts, 'w) syntaxnet_component \<Rightarrow> int \<Rightarrow> int \<Rightarrow> int \<Rightarrow> int option) option" where
  "snc_GetStepLookupFunction method c =
     (if method = ''shift-reduce-step'' then Some (\<lambda>c batch_index beam_index value. do { s \<leftarrow> beam_state batch_index beam_index c; step_for_token value s })
      else if method = ''reduce-step'' then Some (\<lambda>c batch_index beam_index value. do { s \<leftarrow> beam_state batch_index beam_index c; parent_step_for_token value s })
      else if method = ''parent-shift-reduce-step'' then Some (\<lambda>c batch_index beam_index value. do {
          s \<leftarrow> beam_state batch_index beam_index c;
          step \<leftarrow> parent_step_for_token value s;
          step_for_token step s })
      else if method = ''reverse-token'' then Some (\<lambda>c batch_index beam_index value. do { s \<leftarrow> beam_state batch_index beam_index c; Some (reverse_token value s) })
      else if method = ''reverse-char'' then Some (\<lambda>c batch_index beam_index value. do { s \<leftarrow> beam_state batch_index beam_index c; reverse_char value s })
      else None)"

text \<open>The beams are advanced in turn, each with its part of the matrix, until one fails.\<close>

fun advance_beams ::
  "(real \<Rightarrow> float_val) \<Rightarrow> 'ts transition_ops \<Rightarrow> ('ts, 'w) syntaxnet_component \<Rightarrow> int \<Rightarrow> float_val list \<Rightarrow>
     ('ts, 'w) syntaxnet_state beam list \<Rightarrow> (bool \<times> ('ts, 'w) syntaxnet_state beam list) option" where
  "advance_beams rnd ops c num_actions transition_matrix [] = Some (True, [])"
| "advance_beams rnd ops c num_actions transition_matrix (b # bs) = do {
     let size = nat (num_actions * bm_max_size b);
     (success, b) \<leftarrow> (if \<not> IsTerminal (component_functions ops c b) b
       then AdvanceFromPrediction rnd (component_functions ops c b) (take size transition_matrix) num_actions b
       else Some (True, b));
     if \<not> success then Some (False, b # bs)
     else do {
       (success, bs) \<leftarrow> advance_beams rnd ops c num_actions (drop size transition_matrix) bs;
       Some (success, b # bs) } }"

definition snc_AdvanceFromPrediction ::
  "(real \<Rightarrow> float_val) \<Rightarrow> 'ts transition_ops \<Rightarrow> float_val list \<Rightarrow> int \<Rightarrow> int \<Rightarrow> ('ts, 'w) syntaxnet_component \<Rightarrow> (bool \<times> ('ts, 'w) syntaxnet_component) option" where
  "snc_AdvanceFromPrediction rnd ops transition_matrix num_items num_actions c = do {
     let num_static_actions = to_NumActions ops (Size (snc_label_map c));
     check (num_static_actions \<noteq> kDynamicNumActions \<longrightarrow> num_static_actions = num_actions);
     (success, batch) \<leftarrow> advance_beams rnd ops c num_actions transition_matrix (snc_batch c);
     Some (success, c\<lparr>snc_batch := batch\<rparr>) }"

fun oracle_beams ::
  "'ts transition_ops \<Rightarrow> ('ts, 'w) syntaxnet_component \<Rightarrow> ('ts, 'w) syntaxnet_state beam list \<Rightarrow> ('ts, 'w) syntaxnet_state beam list option" where
  "oracle_beams ops c [] = Some []"
| "oracle_beams ops c (b # bs) = do {
     b \<leftarrow> AdvanceFromOracle (component_functions ops c b) b;
     bs \<leftarrow> oracle_beams ops c bs;
     Some (b # bs) }"

definition snc_AdvanceFromOracle :: "'ts transition_ops \<Rightarrow> ('ts, 'w) syntaxnet_component \<Rightarrow> ('ts, 'w) syntaxnet_component option" where
  "snc_AdvanceFromOracle ops c = do { batch \<leftarrow> oracle_beams ops c (snc_batch c); Some (c\<lparr>snc_batch := batch\<rparr>) }"

definition snc_IsTerminal :: "'ts transition_ops \<Rightarrow> ('ts, 'w) syntaxnet_component \<Rightarrow> bool" where
  "snc_IsTerminal ops c \<longleftrightarrow> list_all (\<lambda>b. IsTerminal (component_functions ops c b) b) (snc_batch c)"

definition snc_GetBeam :: "('ts, 'w) syntaxnet_component \<Rightarrow> ('ts, 'w) syntaxnet_item list list option" where
  "snc_GetBeam c = foreach (\<lambda>b state_beam. do { s \<leftarrow> vec_at (bm_beam b) 0; Some (state_beam @ [[s]]) }) (snc_batch c) []"

subsection \<open>Features\<close>

text \<open>A function on every state of a beam, which may change it.\<close>

fun visit_states ::
  "('ts, 'w) syntaxnet_item list \<Rightarrow> (('ts, 'w) syntaxnet_state \<Rightarrow> 'a \<Rightarrow> (('ts, 'w) syntaxnet_state \<times> 'a) option) \<Rightarrow> 'a \<Rightarrow>
     (('ts, 'w) syntaxnet_item list \<times> 'a) option" where
  "visit_states [] f acc = Some ([], acc)"
| "visit_states (s # ss) f acc = do {
     (st, acc) \<leftarrow> f (item_state s) acc;
     (ss, acc) \<leftarrow> visit_states ss f acc;
     Some (s\<lparr>item_state := st\<rparr> # ss, acc) }"

definition trace_fixed :: "nat \<Rightarrow> string list \<Rightarrow> ('ts, 'w) syntaxnet_state \<Rightarrow> ('ts, 'w) syntaxnet_state option" where
  "trace_fixed channel_id names s = on_last_step (\<lambda>step. do {
     ch \<leftarrow> vec_at (st_fixed_feature_trace step) (int channel_id);
     Some (step\<lparr>st_fixed_feature_trace := (st_fixed_feature_trace step)[channel_id := ch\<lparr>ft_value_trace := ft_value_trace ch @ [names]\<rparr>]\<rparr>) }) s"

definition fixed_names :: "('ts, 'w) feature_ops \<Rightarrow> sparse_features \<Rightarrow> string list option" where
  "fixed_names fx f = do {
     check (length (sf_description f) = length (sf_id f));
     check (sf_weight f = [] \<or> length (sf_weight f) = length (sf_id f));
     Some (map (\<lambda>i. fx_value_name fx (sf_id f ! i) (sf_description f ! i) (if sf_weight f \<noteq> [] then Some (sf_weight f ! i) else None))
       [0..<length (sf_description f)]) }"

definition fixed_of_state ::
  "('ts, 'w) feature_ops \<Rightarrow> ('ts, 'w) syntaxnet_component \<Rightarrow> nat \<Rightarrow> ('ts, 'w) syntaxnet_state \<Rightarrow> sparse_features list \<Rightarrow>
     (('ts, 'w) syntaxnet_state \<times> sparse_features list) option" where
  "fixed_of_state fx c channel_id s features = do {
     fs \<leftarrow> vec_at (fx_ExtractSparseFeatures fx (snc_add_strings c) (sn_workspace s) (sn_parser_state s)) (int channel_id);
     s \<leftarrow> (if snc_do_tracing c then foreach (\<lambda>f s. do { names \<leftarrow> fixed_names fx f; trace_fixed channel_id names s }) fs s else Some s);
     Some (s, features @ fs) }"

definition empty_sparse :: sparse_features where
  "empty_sparse = \<lparr>sf_id = [], sf_weight = [], sf_description = []\<rparr>"

fun fixed_of_beams ::
  "('ts, 'w) feature_ops \<Rightarrow> ('ts, 'w) syntaxnet_component \<Rightarrow> nat \<Rightarrow> int \<Rightarrow> ('ts, 'w) syntaxnet_state beam list \<Rightarrow> sparse_features list \<Rightarrow>
     (('ts, 'w) syntaxnet_state beam list \<times> sparse_features list) option" where
  "fixed_of_beams fx c channel_id channel_size [] features = Some ([], features)"
| "fixed_of_beams fx c channel_id channel_size (b # bs) features = do {
     (states, features) \<leftarrow> visit_states (bm_beam b) (fixed_of_state fx c channel_id) features;
     let pad_amount = snc_max_beam_size c - int (length (bm_beam b));
     let features = vec_resize features (int (length features) + pad_amount * channel_size) empty_sparse;
     (bs, features) \<leftarrow> fixed_of_beams fx c channel_id channel_size bs features;
     Some (b\<lparr>bm_beam := states\<rparr> # bs, features) }"

text \<open>The three arrays that are filled: for every identifier the position of its feature, the identifier and its weight.\<close>

type_synonym feature_arrays = "(int \<times> int \<times> float_val) list"

definition feature_entries :: "int \<Rightarrow> sparse_features \<Rightarrow> feature_arrays" where
  "feature_entries index feature = map (\<lambda>k. (index, sf_id feature ! k, if k < length (sf_weight feature) then sf_weight feature ! k else Fin 1))
     [0..<length (sf_id feature)]"

definition snc_GetFixedFeatures ::
  "('ts, 'w) feature_ops \<Rightarrow> int \<Rightarrow> ('ts, 'w) syntaxnet_component \<Rightarrow> (feature_arrays \<times> ('ts, 'w) syntaxnet_component) option" where
  "snc_GetFixedFeatures fx channel_id c = do {
     channel \<leftarrow> vec_at (cp_fixed_feature (snc_spec c)) channel_id;
     (batch, features) \<leftarrow> fixed_of_beams fx c (nat channel_id) (fc_size channel) (snc_batch c) [];
     Some (concat (map (\<lambda>i. feature_entries (int i) (features ! i)) [0..<length features]), c\<lparr>snc_batch := batch\<rparr>) }"

record bulk_feature_extractor =
  bx_use_padding :: bool
  bx_pad_to_step :: int
  bx_pad_to_element :: int

definition GetIndex :: "bulk_feature_extractor \<Rightarrow> int \<Rightarrow> int \<Rightarrow> int \<Rightarrow> int \<Rightarrow> int \<Rightarrow> int" where
  "GetIndex bx total_steps num_elements feature_idx element_idx step_idx =
     (let steps = if bx_use_padding bx then bx_pad_to_step bx else total_steps;
          elements = if bx_use_padding bx then bx_pad_to_element bx else num_elements;
          feature_offset = elements * steps;
          element_offset = steps
      in feature_idx * feature_offset + element_idx * element_offset + step_idx)"

text \<open>
  The bulk extraction remembers every feature with its channel and its feature, element and step index. The loop runs until the
  component is terminal, so it is a partial function.
\<close>

type_synonym bulk_entry = "sparse_features \<times> int \<times> int \<times> int"

definition bulk_channel ::
  "('ts, 'w) feature_ops \<Rightarrow> ('ts, 'w) syntaxnet_component \<Rightarrow> int \<Rightarrow> int \<Rightarrow> ('ts, 'w) syntaxnet_state \<Rightarrow> nat \<Rightarrow>
     ('ts, 'w) syntaxnet_state \<times> bulk_entry list list \<Rightarrow> (('ts, 'w) syntaxnet_state \<times> bulk_entry list list) option" where
  "bulk_channel fx c step_count current_element s0 channel_id = (\<lambda>(s, features). do {
     fs \<leftarrow> vec_at (fx_ExtractSparseFeatures fx (snc_add_strings c) (sn_workspace s0) (sn_parser_state s0)) (int channel_id);
     s \<leftarrow> (if snc_do_tracing c then foreach (\<lambda>f s. trace_fixed channel_id (sf_description f) s) fs s else Some s);
     old \<leftarrow> vec_at features (int channel_id);
     Some (s, features[channel_id := old @ map (\<lambda>k. (fs ! k, int k, current_element, step_count)) [0..<length fs]]) })"

definition bulk_of_state ::
  "('ts, 'w) feature_ops \<Rightarrow> ('ts, 'w) syntaxnet_component \<Rightarrow> int \<Rightarrow> ('ts, 'w) syntaxnet_state \<Rightarrow> bulk_entry list list \<times> int \<Rightarrow>
     (('ts, 'w) syntaxnet_state \<times> bulk_entry list list \<times> int) option" where
  "bulk_of_state fx c step_count s = (\<lambda>(features, current_element). do {
     (s, features) \<leftarrow> foreach (bulk_channel fx c step_count current_element s) [0..<length (cp_fixed_feature (snc_spec c))] (s, features);
     Some (s, features, current_element + 1) })"

fun bulk_of_beams ::
  "('ts, 'w) feature_ops \<Rightarrow> ('ts, 'w) syntaxnet_component \<Rightarrow> int \<Rightarrow> ('ts, 'w) syntaxnet_state beam list \<Rightarrow> bulk_entry list list \<times> int \<Rightarrow>
     (('ts, 'w) syntaxnet_state beam list \<times> bulk_entry list list \<times> int) option" where
  "bulk_of_beams fx c step_count [] acc = Some ([], acc)"
| "bulk_of_beams fx c step_count (b # bs) acc = do {
     (states, features, current_element) \<leftarrow> visit_states (bm_beam b) (bulk_of_state fx c step_count) acc;
     let pad_amount = snc_max_beam_size c - int (length (bm_beam b));
     (bs, acc) \<leftarrow> bulk_of_beams fx c step_count bs (features, current_element + pad_amount);
     Some (b\<lparr>bm_beam := states\<rparr> # bs, acc) }"

partial_function (option) bulk_loop ::
  "'ts transition_ops \<Rightarrow> ('ts, 'w) feature_ops \<Rightarrow> int \<Rightarrow> bulk_entry list list \<Rightarrow> ('ts, 'w) syntaxnet_component \<Rightarrow>
     (int \<times> bulk_entry list list \<times> ('ts, 'w) syntaxnet_component) option" where
  "bulk_loop ops fx step_count features c =
     (if snc_IsTerminal ops c then Some (step_count, features, c)
      else do {
        (batch, features, _) \<leftarrow> bulk_of_beams fx c step_count (snc_batch c) (features, 0);
        c \<leftarrow> snc_AdvanceFromOracle ops (c\<lparr>snc_batch := batch\<rparr>);
        bulk_loop ops fx (step_count + 1) features c })"

definition snc_BulkGetFixedFeatures ::
  "'ts transition_ops \<Rightarrow> ('ts, 'w) feature_ops \<Rightarrow> bulk_feature_extractor \<Rightarrow> ('ts, 'w) syntaxnet_component \<Rightarrow>
     ((int \<times> feature_arrays list) \<times> ('ts, 'w) syntaxnet_component) option" where
  "snc_BulkGetFixedFeatures ops fx bx c = do {
     (total_steps, features, c) \<leftarrow> bulk_loop ops fx 0 (replicate (length (cp_fixed_feature (snc_spec c))) []) c;
     let num_elements = int (length (snc_batch c)) * snc_max_beam_size c;
     Some ((total_steps, map (\<lambda>fs. concat (map (\<lambda>(f, feature_index, element_index, step_index).
         feature_entries (GetIndex bx total_steps num_elements feature_index element_index step_index) f) fs)) features), c) }"

text \<open>The raw link features: a feature value with the position of its state, and empty messages for unused slots.\<close>

definition padding_link :: link_features where
  "padding_link = \<lparr>lf_batch_idx = 0, lf_beam_idx = 0, lf_step_idx = 0, lf_feature_value = None, lf_feature_name = []\<rparr>"

definition links_of_state ::
  "('ts, 'w) feature_ops \<Rightarrow> string list option \<Rightarrow> int \<Rightarrow> int \<Rightarrow> nat \<Rightarrow> ('ts, 'w) syntaxnet_item \<Rightarrow> link_features list option" where
  "links_of_state fx feature_names channel_id batch_idx beam_idx s = do {
     values \<leftarrow> vec_at (fx_ExtractLinkFeatures fx (sn_workspace (item_state s)) (sn_parser_state (item_state s))) channel_id;
     foreach (\<lambda>i features. do {
         name \<leftarrow> (case feature_names of None \<Rightarrow> Some [] | Some names \<Rightarrow> vec_at names (int i));
         Some (features @ [padding_link\<lparr>lf_feature_value := Some (values ! i), lf_batch_idx := batch_idx, lf_beam_idx := int beam_idx, lf_feature_name := name\<rparr>]) })
       [0..<length values] [] }"

definition links_of_beam ::
  "('ts, 'w) feature_ops \<Rightarrow> ('ts, 'w) syntaxnet_component \<Rightarrow> string list option \<Rightarrow> int \<Rightarrow> int \<Rightarrow> nat \<Rightarrow> link_features list \<Rightarrow> link_features list option" where
  "links_of_beam fx c feature_names channel_id channel_size batch_idx features = do {
     b \<leftarrow> vec_at (snc_batch c) (int batch_idx);
     features \<leftarrow> foreach (\<lambda>beam_idx features. do {
         ls \<leftarrow> links_of_state fx feature_names channel_id (int batch_idx) beam_idx (bm_beam b ! beam_idx);
         Some (features @ ls) }) [0..<length (bm_beam b)] features;
     let pad_amount = snc_max_beam_size c - int (length (bm_beam b));
     Some (vec_resize features (int (length features) + pad_amount * channel_size) padding_link) }"

definition snc_GetRawLinkFeatures :: "('ts, 'w) feature_ops \<Rightarrow> int \<Rightarrow> ('ts, 'w) syntaxnet_component \<Rightarrow> link_features list option" where
  "snc_GetRawLinkFeatures fx channel_id c = do {
     channel \<leftarrow> vec_at (cp_linked_feature (snc_spec c)) channel_id;
     let feature_names = (if snc_do_tracing c then Some (Split (lc_fml channel) CHR '' '') else None);
     foreach (links_of_beam fx c feature_names channel_id (lc_size channel)) [0..<length (snc_batch c)] [] }"

definition snc_GetOracleLabels :: "'ts transition_ops \<Rightarrow> ('ts, 'w) syntaxnet_component \<Rightarrow> int list list option" where
  "snc_GetOracleLabels ops c = foreach (\<lambda>b labels. do {
     beam \<leftarrow> foreach (\<lambda>s beam. do { label \<leftarrow> vec_at (GetOracleVector ops s) 0; Some (beam @ [label]) }) (bm_beam b) [];
     Some (labels @ [beam]) }) (snc_batch c) []"

subsection \<open>Annotation, reset and tracing\<close>

text \<open>The best state of a beam annotates its sentence in the batch.\<close>

definition finalize_beam ::
  "'ts transition_ops \<Rightarrow> ('ts, 'w) syntaxnet_component \<Rightarrow> ('ts, 'w) syntaxnet_state beam \<Rightarrow> 'w syntaxnet_sentence list \<Rightarrow> 'w syntaxnet_sentence list option" where
  "finalize_beam ops c b data = (case bm_beam b of
     [] \<Rightarrow> Some data
   | top_state # _ \<Rightarrow> do {
       let i = sn_sentence (item_state top_state);
       d \<leftarrow> vec_at data (int i);
       sentence \<leftarrow> AddParseToDocument (to_AddParseToDocument ops) (sn_parser_state (item_state top_state)) (ss_sentence d) (snc_rewrite_root_labels c);
       Some (data[i := d\<lparr>ss_sentence := sentence\<rparr>]) })"

definition snc_FinalizeData ::
  "'w syntaxnet_sentence list batch_class \<Rightarrow> 'ts transition_ops \<Rightarrow> ('ts, 'w) syntaxnet_component \<Rightarrow> 'w syntaxnet_sentence list input_batch_cache \<Rightarrow>
     (('ts, 'w) syntaxnet_component \<times> 'w syntaxnet_sentence list input_batch_cache) option" where
  "snc_FinalizeData cls ops c input_data = do {
     (cls', data) \<leftarrow> ibc_converted_data input_data;
     data \<leftarrow> foreach (finalize_beam ops c) (snc_batch c) data;
     Some (c, input_data\<lparr>ibc_converted_data := Some (cls', data)\<rparr>) }"

definition snc_ResetComponent :: "('ts, 'w) syntaxnet_component \<Rightarrow> ('ts, 'w) syntaxnet_component" where
  "snc_ResetComponent c = c\<lparr>snc_batch := map beam_Reset (snc_batch c), snc_input_data := False, snc_max_beam_size := 0\<rparr>"

definition new_trace :: "('ts, 'w) syntaxnet_component \<Rightarrow> ('ts, 'w) syntaxnet_state \<Rightarrow> unit \<Rightarrow> (('ts, 'w) syntaxnet_state \<times> unit) option" where
  "new_trace c s u = do {
     step \<leftarrow> GetNewStepTrace (snc_spec c) (sn_parser_state s);
     Some (s\<lparr>sn_trace := Some \<lparr>ct_name = cp_name (snc_spec c), ct_step_trace = [step]\<rparr>\<rparr>, u) }"

definition snc_InitializeTracing :: "('ts, 'w) syntaxnet_component \<Rightarrow> ('ts, 'w) syntaxnet_component option" where
  "snc_InitializeTracing c = do {
     let c = c\<lparr>snc_do_tracing := True\<rparr>;
     check (snc_input_data c);
     batch \<leftarrow> foreach (\<lambda>b bs. do { (states, _) \<leftarrow> visit_states (bm_beam b) (new_trace c) (); Some (bs @ [b\<lparr>bm_beam := states\<rparr>]) }) (snc_batch c) [];
     Some (c\<lparr>snc_batch := batch, snc_add_strings := True\<rparr>) }"

definition snc_DisableTracing :: "('ts, 'w) syntaxnet_component \<Rightarrow> ('ts, 'w) syntaxnet_component" where
  "snc_DisableTracing c = c\<lparr>snc_do_tracing := False, snc_add_strings := False\<rparr>"

definition trace_links :: "nat \<Rightarrow> link_features list \<Rightarrow> ('ts, 'w) syntaxnet_state \<Rightarrow> ('ts, 'w) syntaxnet_state option" where
  "trace_links channel_id links s = foreach (\<lambda>link s. on_last_step (\<lambda>step. do {
       ch \<leftarrow> vec_at (st_linked_feature_trace step) (int channel_id);
       let value = (case lf_feature_value link of None \<Rightarrow> 0 | Some v \<Rightarrow> v);
       Some (if value \<ge> 0 \<and> lf_step_idx link \<ge> 0
         then step\<lparr>st_linked_feature_trace := (st_linked_feature_trace step)[channel_id := ch\<lparr>lt_value_trace := lt_value_trace ch @ [link]\<rparr>]\<rparr>
         else step) }) s) links s"

fun trace_slots :: "nat \<Rightarrow> nat \<Rightarrow> ('ts, 'w) syntaxnet_item list \<Rightarrow> link_features list \<Rightarrow> (('ts, 'w) syntaxnet_item list \<times> link_features list) option" where
  "trace_slots channel_id channel_size [] features = Some ([], features)"
| "trace_slots channel_id channel_size (s # ss) features = do {
     check (channel_size \<le> length features);
     st \<leftarrow> trace_links channel_id (take channel_size features) (item_state s);
     (ss, features) \<leftarrow> trace_slots channel_id channel_size ss (drop channel_size features);
     Some (s\<lparr>item_state := st\<rparr> # ss, features) }"

definition snc_AddTranslatedLinkFeaturesToTrace ::
  "link_features list \<Rightarrow> int \<Rightarrow> ('ts, 'w) syntaxnet_component \<Rightarrow> ('ts, 'w) syntaxnet_component option" where
  "snc_AddTranslatedLinkFeaturesToTrace features channel_id c = do {
     check (snc_do_tracing c);
     channel \<leftarrow> vec_at (cp_linked_feature (snc_spec c)) channel_id;
     let size = nat (lc_size channel);
     (batch, _) \<leftarrow> foreach (\<lambda>b (bs, features). do {
         let n = nat (snc_max_beam_size c);
         (states, features) \<leftarrow> trace_slots (nat channel_id) size (take n (bm_beam b)) features;
         Some (bs @ [b\<lparr>bm_beam := states @ drop n (bm_beam b)\<rparr>], drop ((n - length states) * size) features) }) (snc_batch c) ([], features);
     Some (c\<lparr>snc_batch := batch\<rparr>) }"

definition snc_GetTraceProtos :: "('ts, 'w) syntaxnet_component \<Rightarrow> component_trace list list option" where
  "snc_GetTraceProtos c = foreach (\<lambda>b traces. do {
     beam_trace \<leftarrow> foreach (\<lambda>s beam_trace. do { t \<leftarrow> sn_trace (item_state s); Some (beam_trace @ [t]) }) (bm_beam b) [];
     Some (traces @ [beam_trace]) }) (snc_batch c) []"

subsection \<open>Initialisation from a specification\<close>

text \<open>
  The task context that \<^verbatim>\<open>InitializeComponent\<close> builds: the resources become inputs, the parameters of the transition system are
  copied, and the feature channels are described by lists joined with semicolons.
\<close>

definition add_resource :: "spec_resource \<Rightarrow> task_context \<Rightarrow> task_context" where
  "add_resource resource context =
     (let (i, context) = GetInput context (sr_name resource);
          input = spec_input context ! i;
          parts = map (\<lambda>p. \<lparr>part_file_pattern = sp_file_pattern p, part_file_format = sp_file_format p, part_record_format = sp_record_format p\<rparr>) (sr_part resource)
      in context\<lparr>spec_input := (spec_input context)[i := input\<lparr>input_part := input_part input @ parts\<rparr>]\<rparr>)"

definition set_parameters :: "(string \<times> string) list \<Rightarrow> task_context \<Rightarrow> task_context" where
  "set_parameters params context = fold (\<lambda>(name, v) context. SetParameter context name v) params context"

definition channel_parameters :: "component_spec \<Rightarrow> (string \<times> string) list" where
  "channel_parameters spec =
     (let fixed = cp_fixed_feature spec; linked = cp_linked_feature spec in
      [(''brain_parser_embedding_dims'', Join (map (\<lambda>c. show_int (fc_embedding_dim c)) fixed) '';''),
       (''brain_parser_predicate_maps'', Join (map fc_predicate_map fixed) '';''),
       (''brain_parser_features'', Join (map fc_fml fixed) '';''),
       (''brain_parser_embedding_names'', Join (map fc_name fixed) '';''),
       (''link_embedding_dims'', Join (map (\<lambda>c. show_int (lc_embedding_dim c)) linked) '';''),
       (''link_predicate_maps'', Join (map (\<lambda>_. ''none'') linked) '';''),
       (''link_features'', Join (map lc_fml linked) '';''),
       (''link_embedding_names'', Join (map lc_name linked) '';''),
       (''link_source_layers'', Join (map lc_source_layer linked) '';''),
       (''link_source_translators'', Join (map lc_source_translator linked) '';''),
       (''link_source_components'', Join (map lc_source_component linked) '';''),
       (''parser_transition_system'', rm_registered_name (cp_transition_system spec))])"

definition component_context :: "component_spec \<Rightarrow> task_context" where
  "component_context spec = set_parameters (channel_parameters spec)
     (set_parameters (rm_parameters (cp_transition_system spec))
       (fold add_resource (cp_resource spec) \<lparr>spec_parameter = [], spec_input = []\<rparr>))"

text \<open>
  What the extractors, the registered transition system and the shared store do with the context is given by functions: setting up
  and initialising each of the three, which may request inputs and may fail, and loading the label map of a path.
\<close>

record component_loaders =
  ld_feature_extractor :: "task_context \<Rightarrow> task_context option"
  ld_transition_system :: "string \<Rightarrow> task_context \<Rightarrow> task_context option"
  ld_link_feature_extractor :: "task_context \<Rightarrow> task_context option"
  ld_label_map :: "string \<Rightarrow> term_frequency_map option"

definition snc_InitializeComponent ::
  "component_loaders \<Rightarrow> component_spec \<Rightarrow> ('ts, 'w) syntaxnet_component \<Rightarrow> ('ts, 'w) syntaxnet_component option" where
  "snc_InitializeComponent ld spec c = do {
     let context = component_context spec;
     context \<leftarrow> ld_feature_extractor ld context;
     context \<leftarrow> ld_transition_system ld (Get_string context ''parser_transition_system'' ''arc-standard'') context;
     let (i, context) = GetInput context ''label-map'';
     path \<leftarrow> InputFile (spec_input context ! i);
     label_map \<leftarrow> ld_label_map ld path;
     context \<leftarrow> (if cp_linked_feature spec \<noteq> [] then ld_link_feature_extractor ld context else Some context);
     Some (c\<lparr>snc_spec := spec, snc_label_map := label_map, snc_rewrite_root_labels := Get_bool context ''rewrite_root_labels'' False\<rparr>) }"

text \<open>The component behind its interface.\<close>

definition syntaxnet_ops ::
  "component_loaders \<Rightarrow> 'w syntaxnet_sentence list batch_class \<Rightarrow> (real \<Rightarrow> float_val) \<Rightarrow> 'ts transition_ops \<Rightarrow> ('ts, 'w) feature_ops \<Rightarrow>
     (('ts, 'w) syntaxnet_component, 'w syntaxnet_sentence list input_batch_cache, ('ts, 'w) syntaxnet_item, component_trace, float_val list,
      bulk_feature_extractor, int \<times> feature_arrays list, int list list) component_ops" where
  "syntaxnet_ops ld cls rnd ops fx = \<lparr>co_InitializeComponent = snc_InitializeComponent ld, co_InitializeData = snc_InitializeData cls ops fx,
     co_IsReady = snc_input_data, co_InitializeTracing = snc_InitializeTracing, co_DisableTracing = snc_DisableTracing,
     co_Name = \<lambda>_. ''SyntaxNet-backed beam parser'', co_BatchSize = \<lambda>c. int (length (snc_batch c)), co_BeamSize = snc_max_beam_size,
     co_StepsTaken = snc_StepsTaken, co_GetBeamIndexAtStep = snc_GetBeamIndexAtStep, co_GetSourceBeamIndex = snc_GetSourceBeamIndex,
     co_GetStepLookupFunction = snc_GetStepLookupFunction, co_AdvanceFromPrediction = snc_AdvanceFromPrediction rnd ops,
     co_AdvanceFromOracle = snc_AdvanceFromOracle ops, co_IsTerminal = \<lambda>c. Some (snc_IsTerminal ops c), co_GetBeam = snc_GetBeam,
     co_GetFixedFeatures = \<lambda>channel c. do { (arrays, c) \<leftarrow> snc_GetFixedFeatures fx channel c; Some ((int (length arrays), [arrays]), c) },
     co_BulkGetFixedFeatures = snc_BulkGetFixedFeatures ops fx, co_GetRawLinkFeatures = snc_GetRawLinkFeatures fx,
     co_GetOracleLabels = snc_GetOracleLabels ops, co_FinalizeData = snc_FinalizeData cls ops, co_ResetComponent = snc_ResetComponent,
     co_GetTraceProtos = snc_GetTraceProtos, co_AddTranslatedLinkFeaturesToTrace = snc_AddTranslatedLinkFeaturesToTrace\<rparr>"

section \<open>The pointers of a state\<close>

text \<open>Setting the step of a token inserts an entry instead of replacing one. Afterwards the token has the new step and the tokens before it keep theirs,
  but every later token has the step that the token before it had, and there is an entry for one token more.\<close>

theorem set_step_shifts:
  assumes "set_step_for_token token step s = Some s'"
  shows "length (sn_step_for_token s') = Suc (length (sn_step_for_token s)) \<and> step_for_token token s' = Some step \<and>
    (\<forall>u < token. step_for_token u s' = step_for_token u s) \<and> (\<forall>u > token. step_for_token u s' = step_for_token (u - 1) s)"
proof -
  let ?v = "sn_step_for_token s"
  have t: "0 \<le> token" "nat token \<le> length ?v" "sn_step_for_token s' = take (nat token) ?v @ step # drop (nat token) ?v"
    using assms by (auto simp: set_step_for_token_def vec_insert_def split: bind_splits if_splits)
  have "nat u - nat token = Suc (nat (u - 1) - nat token)" if "token < u" for u using that t(1) by linarith
  then show ?thesis using t by (auto simp: step_for_token_def vec_at_def nth_append min_def nat_less_iff)
qed

theorem set_step_shifts_witness:
  "\<exists>s. set_step_for_token 1 5 \<lparr>sn_parser_state = three_state, sn_sentence = 0, sn_workspace = (), sn_step_for_token = [0, 1, 2], sn_parent_step_for_token = [],
      sn_parent_for_token = [], sn_trace = None\<rparr> = Some s \<and> step_for_token 2 s = Some 1"
  using set_step_shifts [of 1 5 "\<lparr>sn_parser_state = three_state, sn_sentence = 0, sn_workspace = (), sn_step_for_token = [0, 1, 2], sn_parent_step_for_token = [],
      sn_parent_for_token = [], sn_trace = None\<rparr>"]
  by (simp add: set_step_for_token_def vec_insert_def step_for_token_def)

end
