(* ===== verification/Component_Runs.thy ===== *)
theory Component_Runs
  imports Syntaxnet_Component Arc_Standard_Oracle
begin

text \<open>
  What a SyntaxNet component does with a transition system that has an oracle. The locale \<open>component_oracle\<close> extends the laws of
  such a system by those of the indices that the component asks for. Its lemmas: every call of \<open>snc_AdvanceFromOracle\<close> succeeds and
  takes one step of every state that is not final, and the component is terminal when the longest of its states is done.
\<close>

section \<open>Following the oracle\<close>

text \<open>The pointers of a state have room for every token of its sentence.\<close>

definition pointers_ok :: "('ts, 'w) syntaxnet_state \<Rightarrow> bool" where
  "pointers_ok s \<longleftrightarrow> (let n = length (sent_token (ps_sentence (sn_parser_state s))) in
     n \<le> length (sn_step_for_token s) \<and> n \<le> length (sn_parent_step_for_token s) \<and> n \<le> length (sn_parent_for_token s))"

lemma vec_insert_eq:
  "0 \<le> i \<Longrightarrow> i \<le> int (length xs) \<Longrightarrow> \<exists>ys. vec_insert xs i v = Some ys \<and> length ys = Suc (length xs)"
  by (auto simp: vec_insert_def)

text \<open>A step keeps what belongs to the sentence.\<close>

definition same_sentence :: "('ts, 'w) syntaxnet_item \<Rightarrow> ('ts, 'w) syntaxnet_item \<Rightarrow> bool" where
  "same_sentence x y \<longleftrightarrow> sn_sentence (item_state y) = sn_sentence (item_state x) \<and>
     ps_sentence (sn_parser_state (item_state y)) = ps_sentence (sn_parser_state (item_state x)) \<and>
     ps_label_map (sn_parser_state (item_state y)) = ps_label_map (sn_parser_state (item_state x))"

definition on_path :: "('ts parser_state \<Rightarrow> bool) \<Rightarrow> ('ts parser_state \<Rightarrow> bool) \<Rightarrow> ('ts, 'w) syntaxnet_item \<Rightarrow> bool" where
  "on_path ok gold x \<longleftrightarrow> ok (sn_parser_state (item_state x)) \<and> gold (sn_parser_state (item_state x)) \<and> pointers_ok (item_state x)"

text \<open>One item is another after \<open>k\<close> steps of the oracle, and likewise for beams and batches.\<close>

definition stepped ::
  "('ts parser_state \<Rightarrow> bool) \<Rightarrow> ('ts parser_state \<Rightarrow> bool) \<Rightarrow> ('ts parser_state \<Rightarrow> nat) \<Rightarrow> nat \<Rightarrow> ('ts, 'w) syntaxnet_item \<Rightarrow> ('ts, 'w) syntaxnet_item \<Rightarrow> bool" where
  "stepped ok gold left k x y \<longleftrightarrow> on_path ok gold y \<and> same_sentence x y \<and>
     left (sn_parser_state (item_state y)) = left (sn_parser_state (item_state x)) - k"

definition beam_stepped ::
  "('ts parser_state \<Rightarrow> bool) \<Rightarrow> ('ts parser_state \<Rightarrow> bool) \<Rightarrow> ('ts parser_state \<Rightarrow> nat) \<Rightarrow> nat \<Rightarrow>
     ('ts, 'w) syntaxnet_state beam \<Rightarrow> ('ts, 'w) syntaxnet_state beam \<Rightarrow> bool" where
  "beam_stepped ok gold left k b b' \<longleftrightarrow> bm_max_size b' = bm_max_size b \<and> list_all2 (stepped ok gold left k) (bm_beam b) (bm_beam b')"

definition batch_on_path :: "('ts parser_state \<Rightarrow> bool) \<Rightarrow> ('ts parser_state \<Rightarrow> bool) \<Rightarrow> ('ts, 'w) syntaxnet_component \<Rightarrow> bool" where
  "batch_on_path ok gold c \<longleftrightarrow> \<not> snc_do_tracing c \<and>
     (\<forall>b \<in> set (snc_batch c). int (length (bm_beam b)) \<le> bm_max_size b \<and> (\<forall>x \<in> set (bm_beam b). on_path ok gold x))"

lemma stepped_trans: "stepped ok gold left j x y \<Longrightarrow> stepped ok gold left k y z \<Longrightarrow> stepped ok gold left (j + k) x z"
  by (auto simp: stepped_def same_sentence_def)

lemma beam_stepped_trans: "beam_stepped ok gold left j a b \<Longrightarrow> beam_stepped ok gold left k b c \<Longrightarrow> beam_stepped ok gold left (j + k) a c"
  unfolding beam_stepped_def using list_all2_trans [of "stepped ok gold left j" "stepped ok gold left k" "stepped ok gold left (j + k)", OF stepped_trans] by auto

lemma beam_stepped_refl: "\<forall>x \<in> set (bm_beam b). on_path ok gold x \<Longrightarrow> beam_stepped ok gold left 0 b b"
  by (auto simp: beam_stepped_def stepped_def same_sentence_def list_all2_same)

lemma stepped_item:
  assumes "list_all2 (beam_stepped ok gold left k) bs bs'" and "i < length bs" and "bm_beam (bs ! i) = [x]"
  shows "\<exists>y. bm_beam (bs' ! i) = [y] \<and> stepped ok gold left k x y"
  using list_all2_nthD [OF assms(1,2)] assms(3) by (auto simp: beam_stepped_def list_all2_Cons1)

text \<open>The loop of a trainer: advance a number of times.\<close>

primrec oracle_steps :: "'ts transition_ops \<Rightarrow> nat \<Rightarrow> ('ts, 'w) syntaxnet_component \<Rightarrow> ('ts, 'w) syntaxnet_component option" where
  "oracle_steps ops 0 c = Some c"
| "oracle_steps ops (Suc k) c = do { c \<leftarrow> snc_AdvanceFromOracle ops c; oracle_steps ops k c }"

text \<open>
  A transition system with an oracle that a component runs: its functions are those of the system, and the indices that the
  component asks for are indices of tokens.
\<close>

locale component_oracle = oracle_system +
  fixes ops :: "'a transition_ops"
  assumes ops_final: "to_IsFinalState ops = is_final"
    and ops_gold: "to_GetNextGoldAction ops = gold"
    and ops_perform: "to_PerformActionWithoutHistory ops = perform_without_history"
    and ops_pointers: "to_SupportsActionMetaData ops \<Longrightarrow> inv s \<Longrightarrow> is_allowed a s = Some True \<Longrightarrow>
      \<exists>p. to_ParentIndex ops s a = Some p \<and> p < token_size (ps_sentence s) \<and> Next s \<noteq> None \<and>
        (0 \<le> p \<longrightarrow> (\<exists>c. to_ChildIndex ops s a = Some c \<and> 0 \<le> c \<and> c < token_size (ps_sentence s)))"
begin

lemma pointers_updated:
  assumes "to_SupportsActionMetaData ops" and "inv (sn_parser_state s)" and "is_allowed a (sn_parser_state s) = Some True" and "pointers_ok s"
  shows "\<exists>s'. update_pointers ops k a s = Some s' \<and> pointers_ok s' \<and> sn_parser_state s' = sn_parser_state s \<and> sn_sentence s' = sn_sentence s"
proof -
  let ?n = "token_size (ps_sentence (sn_parser_state s))"
  obtain p where p: "to_ParentIndex ops (sn_parser_state s) a = Some p" "p < ?n" "Next (sn_parser_state s) \<noteq> None"
    and c: "0 \<le> p \<Longrightarrow> \<exists>c. to_ChildIndex ops (sn_parser_state s) a = Some c \<and> 0 \<le> c \<and> c < ?n"
    using ops_pointers [OF assms(1-3)] by blast
  consider "p < -1" | "p = -1" | "0 \<le> p" by linarith
  then show ?thesis
  proof cases
    case 1
    then show ?thesis using p assms(4) by (simp add: update_pointers_def)
  next
    case 2
    obtain i where i: "Next (sn_parser_state s) = Some i" using p(3) by blast
    show ?thesis
    proof (cases "0 \<le> i \<and> i < ?n")
      case True
      then obtain v where "vec_insert (sn_step_for_token s) i k = Some v" "length v = Suc (length (sn_step_for_token s))"
        using vec_insert_eq [of i "sn_step_for_token s" k] assms(4) by (auto simp: pointers_ok_def Let_def token_size_def)
      then show ?thesis using True 2 p i assms(4) by (simp add: update_pointers_def set_step_for_token_def pointers_ok_def Let_def)
    qed (use 2 p i assms(4) in \<open>auto simp: update_pointers_def\<close>)
  next
    case 3
    then obtain j where j: "to_ChildIndex ops (sn_parser_state s) a = Some j" "0 \<le> j" "j < ?n" using c by blast
    obtain u v w where "vec_insert (sn_step_for_token s) p k = Some u" "length u = Suc (length (sn_step_for_token s))"
      "vec_insert (sn_parent_for_token s) j p = Some v" "length v = Suc (length (sn_parent_for_token s))"
      "vec_insert (sn_parent_step_for_token s) j k = Some w" "length w = Suc (length (sn_parent_step_for_token s))"
      using vec_insert_eq [of p "sn_step_for_token s" k] vec_insert_eq [of j "sn_parent_for_token s" p]
        vec_insert_eq [of j "sn_parent_step_for_token s" k] assms(4) 3 p(2) j
      by (auto simp: pointers_ok_def Let_def token_size_def)
    then show ?thesis using 3 p j assms(4)
      by (simp add: update_pointers_def set_step_for_token_def set_parent_for_token_def set_parent_step_for_token_def pointers_ok_def Let_def)
  qed
qed

lemma oracle_item_step:
  assumes "on_path inv on_gold x" and "\<not> snc_IsFinal ops x" and "\<not> snc_do_tracing c"
  shows "\<exists>a y. vec_at (GetOracleVector ops x) 0 = Some a \<and> snc_Advance ops c k x a = Some y \<and> on_path inv on_gold y \<and>
    Suc (steps_left (sn_parser_state (item_state y))) = steps_left (sn_parser_state (item_state x)) \<and> same_sentence x y"
proof -
  let ?s = "sn_parser_state (item_state x)"
  have inv: "inv ?s" and gold: "on_gold ?s" and ok: "pointers_ok (item_state x)" using assms(1) by (auto simp: on_path_def)
  have more: "0 < steps_left ?s" using assms(2) p_final [OF inv] by (auto simp: snc_IsFinal_def ops_final)
  obtain a s' where s': "gold ?s = Some a" "is_allowed a ?s = Some True" "PerformAction perform_without_history a ?s = Some s'"
    "inv s'" "on_gold s'" "Suc (steps_left s') = steps_left ?s"
    using gold_perform [OF inv gold more] by blast
  have keep: "ps_sentence s' = ps_sentence ?s" "ps_label_map s' = ps_label_map ?s"
    using perform_records [OF inv s'(2)] s'(3) by auto
  obtain p where p: "(if to_SupportsActionMetaData ops then update_pointers ops k a (item_state x) else Some (item_state x)) = Some p"
    "pointers_ok p" "sn_parser_state p = ?s" "sn_sentence p = sn_sentence (item_state x)"
    using pointers_updated [OF _ inv s'(2) ok, of k] ok by (cases "to_SupportsActionMetaData ops") auto
  have o: "vec_at (GetOracleVector ops x) 0 = Some a"
    using assms(2) s'(1) by (simp add: GetOracleVector_def GetAllNextGoldActions_def ops_gold)
  have "snc_Advance ops c k x a = Some (x\<lparr>item_state := p\<lparr>sn_parser_state := s'\<rparr>\<rparr>)"
    using p s'(3) assms(3) by (simp add: snc_Advance_def ops_perform Let_def cong: if_cong)
  moreover have "pointers_ok (p\<lparr>sn_parser_state := s'\<rparr>)" using p(2,3) keep(1) by (simp add: pointers_ok_def)
  ultimately show ?thesis using o s' keep p by (auto simp: on_path_def same_sentence_def)
qed

lemma oracle_loop_stepped:
  assumes "\<forall>x \<in> set xs. on_path inv on_gold x" and "\<not> snc_do_tracing c" and "0 \<le> i" and "i + int (length xs) \<le> int (length row)"
  shows "\<exists>ys row'. oracle_loop (component_functions ops c b) i xs row = Some (ys, row') \<and> list_all2 (stepped inv on_gold steps_left 1) xs ys"
  using assms
proof (induction xs arbitrary: i row)
  case (Cons x xs)
  let ?f = "component_functions ops c b"
  obtain ys row' where ys: "oracle_loop ?f (i + 1) xs (row[nat i := i]) = Some (ys, row')" "list_all2 (stepped inv on_gold steps_left 1) xs ys"
    using Cons.IH [of "i + 1" "row[nat i := i]"] Cons.prems by auto
  have x: "on_path inv on_gold x" using Cons.prems(1) by simp
  show ?case
  proof (cases "snc_IsFinal ops x")
    case True
    have "steps_left (sn_parser_state (item_state x)) = 0"
      using True x p_final by (auto simp: snc_IsFinal_def ops_final on_path_def)
    then have "stepped inv on_gold steps_left 1 x x" using x by (simp add: stepped_def same_sentence_def)
    then show ?thesis using True ys Cons.prems(3,4) by (auto simp: component_functions_def)
  next
    case False
    obtain a y where a: "vec_at (GetOracleVector ops x) 0 = Some a" "snc_Advance ops c (bm_num_steps b) x a = Some y" "on_path inv on_gold y"
      "Suc (steps_left (sn_parser_state (item_state y))) = steps_left (sn_parser_state (item_state x))" "same_sentence x y"
      using oracle_item_step [OF x False Cons.prems(2)] by blast
    have "stepped inv on_gold steps_left 1 x (y\<lparr>item_score := fzero, item_beam_index := i\<rparr>)"
      using a(3-5) by (simp add: stepped_def same_sentence_def on_path_def)
    then show ?thesis using False ys a(1,2) Cons.prems(3,4) by (auto simp: component_functions_def)
  qed
qed simp

lemma oracle_beams_stepped:
  assumes "\<forall>b \<in> set bs. int (length (bm_beam b)) \<le> bm_max_size b \<and> (\<forall>x \<in> set (bm_beam b). on_path inv on_gold x)" and "\<not> snc_do_tracing c"
  shows "\<exists>bs'. oracle_beams ops c bs = Some bs' \<and> list_all2 (beam_stepped inv on_gold steps_left 1) bs bs'"
  using assms(1)
proof (induction bs)
  case (Cons b bs)
  obtain bs' where bs': "oracle_beams ops c bs = Some bs'" "list_all2 (beam_stepped inv on_gold steps_left 1) bs bs'" using Cons by auto
  obtain ys row where "oracle_loop (component_functions ops c b) 0 (bm_beam b) (replicate (nat (bm_max_size b)) (-1)) = Some (ys, row)"
    "list_all2 (stepped inv on_gold steps_left 1) (bm_beam b) ys"
    using oracle_loop_stepped [of "bm_beam b" c 0 "replicate (nat (bm_max_size b)) (-1)" b] Cons.prems assms(2) by fastforce
  then show ?case using bs' by (auto simp: AdvanceFromOracle_def beam_stepped_def [of _ _ _ _ b])
qed simp

lemma component_step:
  assumes "batch_on_path inv on_gold c"
  shows "\<exists>bs. snc_AdvanceFromOracle ops c = Some (c\<lparr>snc_batch := bs\<rparr>) \<and> list_all2 (beam_stepped inv on_gold steps_left 1) (snc_batch c) bs"
  using oracle_beams_stepped [of "snc_batch c" c] assms by (auto simp: batch_on_path_def snc_AdvanceFromOracle_def)

end

lemma batch_on_path_stepped:
  assumes "batch_on_path ok gold c" and "list_all2 (beam_stepped ok gold left k) (snc_batch c) bs"
  shows "batch_on_path ok gold (c\<lparr>snc_batch := bs\<rparr>)"
proof -
  have "int (length (bm_beam b)) \<le> bm_max_size b \<and> (\<forall>x \<in> set (bm_beam b). on_path ok gold x)" if b: "b \<in> set bs" for b
  proof -
    obtain i where i: "i < length bs" "b = bs ! i" using b by (metis in_set_conv_nth)
    let ?b = "snc_batch c ! i"
    have st: "beam_stepped ok gold left k ?b b" "?b \<in> set (snc_batch c)" using assms(2) i by (auto simp: list_all2_conv_all_nth)
    then have "list_all2 (stepped ok gold left k) (bm_beam ?b) (bm_beam b)" "bm_max_size b = bm_max_size ?b" by (auto simp: beam_stepped_def)
    then have "length (bm_beam b) = length (bm_beam ?b)" "\<forall>x \<in> set (bm_beam b). on_path ok gold x"
      by (auto simp: list_all2_conv_all_nth in_set_conv_nth stepped_def)
    then show ?thesis using assms(1) st(2) \<open>bm_max_size b = _\<close> by (auto simp: batch_on_path_def)
  qed
  then show ?thesis using assms(1) by (simp add: batch_on_path_def)
qed

context component_oracle
begin

lemma component_steps:
  assumes "batch_on_path inv on_gold c"
  shows "\<exists>bs. oracle_steps ops k c = Some (c\<lparr>snc_batch := bs\<rparr>) \<and> list_all2 (beam_stepped inv on_gold steps_left k) (snc_batch c) bs"
  using assms
proof (induction k arbitrary: c)
  case 0
  then show ?case by (auto simp: list_all2_same batch_on_path_def intro!: exI [of _ "snc_batch c"] beam_stepped_refl)
next
  case (Suc k)
  obtain bs where bs: "snc_AdvanceFromOracle ops c = Some (c\<lparr>snc_batch := bs\<rparr>)" "list_all2 (beam_stepped inv on_gold steps_left 1) (snc_batch c) bs"
    using component_step [OF Suc.prems] by blast
  obtain bs' where bs': "oracle_steps ops k (c\<lparr>snc_batch := bs\<rparr>) = Some (c\<lparr>snc_batch := bs'\<rparr>)" "list_all2 (beam_stepped inv on_gold steps_left k) bs bs'"
    using Suc.IH [OF batch_on_path_stepped [OF Suc.prems bs(2)]] by auto
  have "list_all2 (beam_stepped inv on_gold steps_left (1 + k)) (snc_batch c) bs'"
    by (rule list_all2_trans [OF _ bs(2) bs'(2)]) (rule beam_stepped_trans)
  then show ?case using bs bs' by auto
qed

lemma terminal_iff:
  assumes "batch_on_path inv on_gold c"
  shows "snc_IsTerminal ops c \<longleftrightarrow> (\<forall>b \<in> set (snc_batch c). \<forall>x \<in> set (bm_beam b). steps_left (sn_parser_state (item_state x)) = 0)"
  using assms p_final
  by (simp add: snc_IsTerminal_def list_all_iff IsTerminal_def component_functions_def snc_IsFinal_def ops_final batch_on_path_def on_path_def)

end

section \<open>Bulk extraction\<close>

text \<open>
  What bulk extraction has to find: for every channel and every step, the features of all states of the batch, each with its
  position in the channel, its element (the slot of its state in the batch, where every beam has as many slots as the maximal
  beam size) and its step.
\<close>

definition state_entries ::
  "('ts, 'w) feature_ops \<Rightarrow> ('ts, 'w) syntaxnet_component \<Rightarrow> nat \<Rightarrow> int \<Rightarrow> int \<Rightarrow> ('ts, 'w) syntaxnet_item \<Rightarrow> bulk_entry list" where
  "state_entries fx c channel step element x =
     (let fs = fx_ExtractSparseFeatures fx (snc_add_strings c) (sn_workspace (item_state x)) (sn_parser_state (item_state x)) ! channel
      in map (\<lambda>k. (fs ! k, int k, element, step)) [0..<length fs])"

definition beam_entries ::
  "('ts, 'w) feature_ops \<Rightarrow> ('ts, 'w) syntaxnet_component \<Rightarrow> nat \<Rightarrow> int \<Rightarrow> int \<Rightarrow> ('ts, 'w) syntaxnet_item list \<Rightarrow> bulk_entry list" where
  "beam_entries fx c channel step element xs =
     concat (map (\<lambda>j. state_entries fx c channel step (element + int j) (xs ! j)) [0..<length xs])"

definition batch_entries ::
  "('ts, 'w) feature_ops \<Rightarrow> ('ts, 'w) syntaxnet_component \<Rightarrow> nat \<Rightarrow> int \<Rightarrow> int \<Rightarrow> ('ts, 'w) syntaxnet_state beam list \<Rightarrow> bulk_entry list" where
  "batch_entries fx c channel step element bs =
     concat (map (\<lambda>i. beam_entries fx c channel step (element + int i * snc_max_beam_size c) (bm_beam (bs ! i))) [0..<length bs])"

lemma beam_entries_simps:
  "beam_entries fx c channel step element [] = []"
  "beam_entries fx c channel step element (x # xs) = state_entries fx c channel step element x @ beam_entries fx c channel step (element + 1) xs"
  by (simp_all add: beam_entries_def map_upt_Suc ac_simps del: upt_Suc)

lemma batch_entries_simps:
  "batch_entries fx c channel step element [] = []"
  "batch_entries fx c channel step element (b # bs) =
     beam_entries fx c channel step element (bm_beam b) @ batch_entries fx c channel step (element + snc_max_beam_size c) bs"
  by (simp_all add: batch_entries_def map_upt_Suc algebra_simps del: upt_Suc)

lemma foreach_Nil: "foreach body [] = Some"
  by (rule ext) simp

lemma bulk_channels:
  assumes "\<not> snc_do_tracing c" and "m \<le> length F"
    and "m \<le> length (fx_ExtractSparseFeatures fx (snc_add_strings c) (sn_workspace (item_state x)) (sn_parser_state (item_state x)))"
  shows "foreach (bulk_channel fx c step element (item_state x)) [0..<m] (item_state x, F) =
    Some (item_state x, map (\<lambda>ch. if ch < m then F ! ch @ state_entries fx c ch step element x else F ! ch) [0..<length F])"
  using assms(2,3)
proof (induction m)
  case 0
  then show ?case by (simp add: map_nth)
next
  case (Suc m)
  let ?G = "map (\<lambda>ch. if ch < m then F ! ch @ state_entries fx c ch step element x else F ! ch) [0..<length F]"
  have "foreach (bulk_channel fx c step element (item_state x)) [0..<Suc m] (item_state x, F) =
      bulk_channel fx c step element (item_state x) m (item_state x, ?G)"
    using Suc by (simp add: foreach_append foreach_Nil)
  also have "\<dots> = Some (item_state x, ?G[m := F ! m @ state_entries fx c m step element x])"
    using Suc.prems assms(1) by (simp add: bulk_channel_def state_entries_def Let_def)
  also have "?G[m := F ! m @ state_entries fx c m step element x] =
      map (\<lambda>ch. if ch < Suc m then F ! ch @ state_entries fx c ch step element x else F ! ch) [0..<length F]"
    by (rule nth_equalityI) (use Suc.prems in \<open>auto simp: nth_list_update\<close>)
  finally show ?case .
qed

lemma bulk_states:
  assumes "\<not> snc_do_tracing c" and "length F = length (cp_fixed_feature (snc_spec c))"
    and "\<And>add w s. length (cp_fixed_feature (snc_spec c)) \<le> length (fx_ExtractSparseFeatures fx add w s)"
  shows "visit_states xs (bulk_of_state fx c step) (F, element) =
    Some (xs, map (\<lambda>ch. F ! ch @ beam_entries fx c ch step element xs) [0..<length F], element + int (length xs))"
  using assms(2)
proof (induction xs arbitrary: F element)
  case Nil
  show ?case by (simp add: beam_entries_simps map_nth)
next
  case (Cons x xs)
  let ?G = "map (\<lambda>ch. F ! ch @ state_entries fx c ch step element x) [0..<length F]"
  have "bulk_of_state fx c step (item_state x) (F, element) = Some (item_state x, ?G, element + 1)"
    using bulk_channels [OF assms(1), of "length F" F fx x step element] assms(3) Cons.prems
    by (simp add: bulk_of_state_def cong: map_cong)
  moreover have "visit_states xs (bulk_of_state fx c step) (?G, element + 1) =
      Some (xs, map (\<lambda>ch. ?G ! ch @ beam_entries fx c ch step (element + 1) xs) [0..<length ?G], element + 1 + int (length xs))"
    by (rule Cons.IH) (use Cons.prems in simp)
  ultimately show ?case by (simp add: beam_entries_simps)
qed

lemma bulk_beams:
  assumes "\<not> snc_do_tracing c" and "length F = length (cp_fixed_feature (snc_spec c))"
    and "\<And>add w s. length (cp_fixed_feature (snc_spec c)) \<le> length (fx_ExtractSparseFeatures fx add w s)"
  shows "\<exists>e. bulk_of_beams fx c step bs (F, element) =
    Some (bs, map (\<lambda>ch. F ! ch @ batch_entries fx c ch step element bs) [0..<length F], e)"
  using assms(2)
proof (induction bs arbitrary: F element)
  case Nil
  show ?case by (simp add: batch_entries_simps map_nth)
next
  case (Cons b bs)
  let ?G = "map (\<lambda>ch. F ! ch @ beam_entries fx c ch step element (bm_beam b)) [0..<length F]"
  obtain e where "bulk_of_beams fx c step bs (?G, element + snc_max_beam_size c) =
      Some (bs, map (\<lambda>ch. ?G ! ch @ batch_entries fx c ch step (element + snc_max_beam_size c) bs) [0..<length ?G], e)"
    using Cons.IH [of ?G "element + snc_max_beam_size c"] Cons.prems by auto
  then show ?case using bulk_states [OF assms(1) Cons.prems assms(3), of "bm_beam b" step element]
    by (auto simp: batch_entries_simps algebra_simps)
qed

text \<open>The number of steps that a component still takes: the largest of its states.\<close>

definition remaining :: "('ts parser_state \<Rightarrow> nat) \<Rightarrow> ('ts, 'w) syntaxnet_state beam list \<Rightarrow> nat" where
  "remaining left bs = foldr max (map (\<lambda>x. left (sn_parser_state (item_state x))) (concat (map bm_beam bs))) 0"

lemma foldr_max_0: "foldr max ns (0 :: nat) = 0 \<longleftrightarrow> (\<forall>n \<in> set ns. n = 0)"
  by (induction ns) (auto simp: max_def)

lemma foldr_max_diff: "foldr max (map (\<lambda>n. n - k) ns) 0 = foldr max ns (0 :: nat) - k"
  by (induction ns) (auto simp: max_def)

lemma stepped_left:
  "list_all2 (beam_stepped ok gold left k) bs bs' \<Longrightarrow>
     map (\<lambda>x. left (sn_parser_state (item_state x))) (concat (map bm_beam bs')) =
     map (\<lambda>n. n - k) (map (\<lambda>x. left (sn_parser_state (item_state x))) (concat (map bm_beam bs)))"
proof (induction rule: list_all2_induct)
  case (Cons b bs b' bs')
  then have "list_all2 (stepped ok gold left k) (bm_beam b) (bm_beam b')" by (simp add: beam_stepped_def)
  then have "map (\<lambda>x. left (sn_parser_state (item_state x))) (bm_beam b') =
      map (\<lambda>x. left (sn_parser_state (item_state x)) - k) (bm_beam b)"
    by (induction rule: list_all2_induct) (auto simp: stepped_def)
  then show ?case using Cons.IH by (simp add: comp_def)
qed simp

lemma remaining_stepped: "list_all2 (beam_stepped ok gold left k) bs bs' \<Longrightarrow> remaining left bs' = remaining left bs - k"
  by (simp only: remaining_def stepped_left foldr_max_diff)

context component_oracle
begin

lemma terminal_remaining: "batch_on_path inv on_gold c \<Longrightarrow> snc_IsTerminal ops c \<longleftrightarrow> remaining steps_left (snc_batch c) = 0"
  by (auto simp: terminal_iff remaining_def foldr_max_0)

lemma terminal_exactly:
  assumes "batch_on_path inv on_gold c" and "k \<le> remaining steps_left (snc_batch c)"
  shows "\<exists>c'. oracle_steps ops k c = Some c' \<and> (snc_IsTerminal ops c' \<longleftrightarrow> k = remaining steps_left (snc_batch c))"
proof -
  obtain bs where bs: "oracle_steps ops k c = Some (c\<lparr>snc_batch := bs\<rparr>)" "list_all2 (beam_stepped inv on_gold steps_left k) (snc_batch c) bs"
    using component_steps [OF assms(1)] by blast
  show ?thesis using bs(1) terminal_remaining [OF batch_on_path_stepped [OF assms(1) bs(2)]] remaining_stepped [OF bs(2)] assms(2) by auto
qed

lemma bulk_loop_steps:
  assumes "batch_on_path inv on_gold c" and "length F = length (cp_fixed_feature (snc_spec c))"
    and "\<And>add w s. length (cp_fixed_feature (snc_spec c)) \<le> length (fx_ExtractSparseFeatures fx add w s)"
    and "N = remaining steps_left (snc_batch c)"
  shows "\<exists>c'. oracle_steps ops N c = Some c' \<and> snc_IsTerminal ops c' \<and>
    bulk_loop ops fx step F c = Some (step + int N, map (\<lambda>ch. F ! ch @ concat (map (\<lambda>j.
      batch_entries fx c ch (step + int j) 0 (snc_batch (the (oracle_steps ops j c)))) [0..<N])) [0..<length F], c')"
  using assms
proof (induction N arbitrary: c F step)
  case 0
  then have "snc_IsTerminal ops c" using terminal_remaining [OF "0.prems"(1)] by simp
  then show ?case by (subst bulk_loop.simps) (simp add: map_nth)
next
  case (Suc N)
  let ?G = "map (\<lambda>ch. F ! ch @ batch_entries fx c ch step 0 (snc_batch c)) [0..<length F]"
  have nt: "\<not> snc_IsTerminal ops c" "\<not> snc_do_tracing c"
    using terminal_remaining [OF Suc.prems(1)] Suc.prems(1,4) by (auto simp: batch_on_path_def)
  obtain e where e: "bulk_of_beams fx c step (snc_batch c) (F, 0) = Some (snc_batch c, ?G, e)"
    using bulk_beams [OF nt(2) Suc.prems(2,3)] by blast
  obtain bs where bs: "snc_AdvanceFromOracle ops c = Some (c\<lparr>snc_batch := bs\<rparr>)" "list_all2 (beam_stepped inv on_gold steps_left 1) (snc_batch c) bs"
    using component_step [OF Suc.prems(1)] by blast
  let ?c = "c\<lparr>snc_batch := bs\<rparr>"
  have "N = remaining steps_left (snc_batch ?c)" using remaining_stepped [OF bs(2)] Suc.prems(4) by simp
  then obtain c' where c': "oracle_steps ops N ?c = Some c'" "snc_IsTerminal ops c'"
    "bulk_loop ops fx (step + 1) ?G ?c = Some (step + 1 + int N, map (\<lambda>ch. ?G ! ch @ concat (map (\<lambda>j.
      batch_entries fx ?c ch (step + 1 + int j) 0 (snc_batch (the (oracle_steps ops j ?c)))) [0..<N])) [0..<length ?G], c')"
    using Suc.IH [OF batch_on_path_stepped [OF Suc.prems(1) bs(2)], of ?G "step + 1"] Suc.prems(2,3) by auto
  have [simp]: "batch_entries fx ?c = batch_entries fx c"
    by (simp add: fun_eq_iff batch_entries_def beam_entries_def state_entries_def)
  have "bulk_loop ops fx step F c = bulk_loop ops fx (step + 1) ?G ?c"
    using nt(1) e bs(1) by (subst bulk_loop.simps) simp
  then show ?case using c' bs(1) by (simp add: map_upt_Suc ac_simps del: upt_Suc)
qed

end

section \<open>From a batch to a component\<close>

text \<open>All beams have the size of the component, unless it was reset; every operation that creates or changes beams keeps this.\<close>

definition beams_sized :: "('ts, 'w) syntaxnet_component \<Rightarrow> bool" where
  "beams_sized c \<longleftrightarrow> snc_max_beam_size c = 0 \<or> (\<forall>b \<in> set (snc_batch c). bm_max_size b = snc_max_beam_size c)"

text \<open>The beam that holds one state, at the start of a sentence.\<close>

definition seeded :: "'ts transition_ops \<Rightarrow> term_frequency_map \<Rightarrow> 'w syntaxnet_sentence list \<Rightarrow> int \<Rightarrow> nat \<Rightarrow> ('ts, 'w) syntaxnet_state beam \<Rightarrow> bool" where
  "seeded ops label_map data m i b \<longleftrightarrow> bm_max_size b = m \<and> (\<exists>x. bm_beam b = [x] \<and> sn_sentence (item_state x) = i \<and> pointers_ok (item_state x) \<and>
     to_NewState ops (ss_sentence (data ! i)) label_map = Some (sn_parser_state (item_state x)))"

lemma fill_beam_seeds:
  assumes "\<And>w s. \<exists>w'. fx_Preprocess fx w s = Some (w', s)" and "0 < m"
    and "i < length data" and "length batch = length data" and "bm_max_size (batch ! i) = m"
    and "to_NewState ops (ss_sentence (data ! i)) (snc_label_map c) = Some s"
  shows "\<exists>b w. fill_beam ops fx c [] i (batch, data) = Some (batch[i := b], data[i := (data ! i)\<lparr>ss_workspace := w\<rparr>]) \<and>
    seeded ops (snc_label_map c) data m i b"
proof -
  obtain w where w: "fx_Preprocess fx (ss_workspace (data ! i)) s = Some (w, s)" using assms(1) by blast
  have r: "replicate (nat m) (-1 :: int) \<noteq> []" using assms(2) by simp
  obtain b where b: "beam_Init [new_SyntaxNetTransitionState s i w] (batch ! i) = Some b" "bm_max_size b = m"
    "\<exists>x. bm_beam b = [x] \<and> item_state x = item_state (new_SyntaxNetTransitionState s i w)"
    using assms(2,5) by (auto simp: beam_Init_def check_def Let_def)
  have "seeded ops (snc_label_map c) data m i b"
    using b(2,3) assms(6) by (auto simp: seeded_def new_SyntaxNetTransitionState_def Let_def pointers_ok_def)
  then show ?thesis using b(1) w assms(3-6) by (auto simp: fill_beam_def CreateState_def)
qed

lemma InitializeData_seeds:
  assumes "\<And>w s. \<exists>w'. fx_Preprocess fx w s = Some (w', s)" and "0 < m" and "beams_sized c"
    and "ibc_GetAs cls cache = Some (data, cache')"
    and "\<And>d. d \<in> set data \<Longrightarrow> to_NewState ops (ss_sentence d) (snc_label_map c) \<noteq> None"
  shows "\<exists>batch data'. snc_InitializeData cls ops fx ([] :: 'x beam_item list list) m c cache =
      Some (c\<lparr>snc_input_data := True, snc_max_beam_size := m, snc_batch := batch\<rparr>, cache'\<lparr>ibc_converted_data := Some (cls, data')\<rparr>) \<and>
    length batch = length data \<and> map ss_sentence data' = map ss_sentence data \<and>
    (\<forall>i < length data. seeded ops (snc_label_map c) data m i (batch ! i))"
proof -
  define c1 where "c1 = (if snc_max_beam_size c \<noteq> m then c\<lparr>snc_input_data := True, snc_max_beam_size := m, snc_batch := map (SetMaxSize m) (snc_batch c)\<rparr>
    else c\<lparr>snc_input_data := True\<rparr>)"
  define batch0 where "batch0 = (if length (snc_batch c1) < length data
    then snc_batch c1 @ replicate (length data - length (snc_batch c1)) (new_Beam m) else take (length data) (snc_batch c1))"
  have c1: "snc_label_map c1 = snc_label_map c" "c1\<lparr>snc_batch := bs\<rparr> = c\<lparr>snc_input_data := True, snc_max_beam_size := m, snc_batch := bs\<rparr>" for bs
    by (auto simp: c1_def)
  have "\<forall>b \<in> set (snc_batch c1). bm_max_size b = m"
    using assms(2,3) by (auto simp: c1_def beams_sized_def SetMaxSize_def beam_Reset_def)
  then have b0: "length batch0 = length data" "\<forall>b \<in> set batch0. bm_max_size b = m"
    by (auto simp: batch0_def new_Beam_def dest: in_set_takeD)
  let ?P = "\<lambda>D (bs, ds). length bs = length data \<and> map ss_sentence ds = map ss_sentence data \<and>
    (\<forall>i < length data. bm_max_size (bs ! i) = m) \<and> (\<forall>i \<in> D. seeded ops (snc_label_map c) data m i (bs ! i))"
  have "\<exists>st. foreach (fill_beam ops fx c1 ([] :: 'x beam_item list list)) [0..<length data] (batch0, data) = Some st \<and> ?P ({} \<union> set [0..<length data]) st"
  proof (rule foreach_invariant)
    show "?P {} (batch0, data)" using b0 by simp
  next
    fix D i and st :: "('b, 'a) syntaxnet_state beam list \<times> 'a syntaxnet_sentence list"
    assume i: "i \<in> set [0..<length data]" and st: "?P D st"
    obtain bs ds where e: "st = (bs, ds)" by (cases st)
    have len: "length ds = length data" using st e by (auto dest: map_eq_imp_length_eq)
    have sent: "ss_sentence (ds ! i) = ss_sentence (data ! i)"
      using st i len e by (metis (mono_tags, lifting) atLeastLessThan_iff case_prodD nth_map set_upt)
    obtain s where s: "to_NewState ops (ss_sentence (ds ! i)) (snc_label_map c1) = Some s"
      using assms(5) [of "data ! i"] i sent c1(1) by auto
    obtain b w where b: "fill_beam ops fx c1 ([] :: 'x beam_item list list) i (bs, ds) = Some (bs[i := b], ds[i := (ds ! i)\<lparr>ss_workspace := w\<rparr>])"
      "seeded ops (snc_label_map c1) ds m i b"
      using fill_beam_seeds [OF assms(1,2), where data = ds and batch = bs, OF _ _ _ s] i st e len by auto
    have "map ss_sentence (ds[i := (ds ! i)\<lparr>ss_workspace := w\<rparr>]) = map ss_sentence data"
      using st e i sent by (simp add: map_update list_update_same_conv)
    moreover have "seeded ops (snc_label_map c) data m i b" using b(2) sent c1(1) by (simp add: seeded_def)
    ultimately show "\<exists>st'. fill_beam ops fx c1 ([] :: 'x beam_item list list) i st = Some st' \<and> ?P (insert i D) st'"
      using b st e i by (auto simp: nth_list_update seeded_def)
  qed
  then obtain bs ds where f: "foreach (fill_beam ops fx c1 ([] :: 'x beam_item list list)) [0..<length data] (batch0, data) = Some (bs, ds)"
    "length bs = length data" "map ss_sentence ds = map ss_sentence data" "\<forall>i < length data. seeded ops (snc_label_map c) data m i (bs ! i)"
    by auto
  have "snc_InitializeData cls ops fx ([] :: 'x beam_item list list) m c cache = Some (c1\<lparr>snc_batch := bs\<rparr>, cache'\<lparr>ibc_converted_data := Some (cls, ds)\<rparr>)"
  proof -
    have "(if snc_max_beam_size (c\<lparr>snc_input_data := True\<rparr>) \<noteq> m then do { check (m > 0);
        Some (c\<lparr>snc_input_data := True, snc_max_beam_size := m, snc_batch := map (SetMaxSize m) (snc_batch (c\<lparr>snc_input_data := True\<rparr>))\<rparr>) }
        else Some (c\<lparr>snc_input_data := True\<rparr>)) = Some c1"
      using assms(2) by (simp add: c1_def)
    then show ?thesis using assms(4) f(1) unfolding snc_InitializeData_def batch0_def by (simp add: Let_def)
  qed
  then show ?thesis using c1 f(2-4) by auto
qed

section \<open>Writing the result\<close>

lemma finalize_beams:
  assumes "length (snc_batch c) = length data" and "k \<le> length data"
    and "\<And>i. i < length data \<Longrightarrow> \<exists>x. bm_beam (snc_batch c ! i) = [x] \<and> sn_sentence (item_state x) = i \<and>
      AddParseToDocument (to_AddParseToDocument ops) (sn_parser_state (item_state x)) (ss_sentence (data ! i)) (snc_rewrite_root_labels c) = Some (g i)"
  shows "foreach (finalize_beam ops c) (take k (snc_batch c)) data = Some (map (\<lambda>i. (data ! i)\<lparr>ss_sentence := g i\<rparr>) [0..<k] @ drop k data)"
  using assms(2)
proof (induction k)
  case (Suc k)
  obtain x where x: "bm_beam (snc_batch c ! k) = [x]" "sn_sentence (item_state x) = k"
    "AddParseToDocument (to_AddParseToDocument ops) (sn_parser_state (item_state x)) (ss_sentence (data ! k)) (snc_rewrite_root_labels c) = Some (g k)"
    using assms(3) [of k] Suc.prems by auto
  let ?d = "map (\<lambda>i. (data ! i)\<lparr>ss_sentence := g i\<rparr>) [0..<k] @ drop k data"
  have d: "?d ! k = data ! k" "k < length ?d" using Suc.prems by (auto simp: nth_append)
  have "foreach (finalize_beam ops c) (take (Suc k) (snc_batch c)) data = finalize_beam ops c (snc_batch c ! k) ?d"
    using Suc assms(1) by (simp add: take_Suc_conv_app_nth foreach_append foreach_Nil)
  also have "\<dots> = Some (?d[k := (data ! k)\<lparr>ss_sentence := g k\<rparr>])" using x d by (simp add: finalize_beam_def)
  also have "?d[k := (data ! k)\<lparr>ss_sentence := g k\<rparr>] = map (\<lambda>i. (data ! i)\<lparr>ss_sentence := g i\<rparr>) [0..<Suc k] @ drop (Suc k) data"
    using Suc.prems by (simp add: list_update_append Cons_nth_drop_Suc [symmetric])
  finally show ?case .
qed simp

lemma FinalizeData_writes:
  assumes "ibc_converted_data cache = Some (cls', data)" and "length (snc_batch c) = length data"
    and "\<And>i. i < length data \<Longrightarrow> \<exists>x. bm_beam (snc_batch c ! i) = [x] \<and> sn_sentence (item_state x) = i \<and>
      AddParseToDocument (to_AddParseToDocument ops) (sn_parser_state (item_state x)) (ss_sentence (data ! i)) (snc_rewrite_root_labels c) = Some (g i)"
  shows "snc_FinalizeData cls ops c cache =
    Some (c, cache\<lparr>ibc_converted_data := Some (cls', map (\<lambda>i. (data ! i)\<lparr>ss_sentence := g i\<rparr>) [0..<length data])\<rparr>)"
  using finalize_beams [OF assms(2) order_refl assms(3)] assms(1,2) by (simp add: snc_FinalizeData_def)

section \<open>The arc-standard component\<close>

definition arc_transition_ops :: "unit transition_ops" where
  "arc_transition_ops = \<lparr>to_NewState = new_arc_state, to_NumActions = arc_NumActions,
     to_IsAllowedAction = (\<lambda>a s. Some (arc_IsAllowedAction a s)), to_IsFinalState = (\<lambda>s. Some (arc_IsFinalState s)),
     to_GetNextGoldAction = arc_GetNextGoldAction, to_PerformActionWithoutHistory = arc_PerformActionWithoutHistory,
     to_SupportsActionMetaData = True, to_ParentIndex = ParentIndex, to_ChildIndex = ChildIndex,
     to_ActionAsString = arc_ActionAsString, to_AddParseToDocument = arc_AddParseToDocument\<rparr>"

interpretation arc_component: component_oracle
  "\<lambda>a s. Some (arc_IsAllowedAction a s)" "\<lambda>s. Some (arc_IsFinalState s)" arc_PerformActionWithoutHistory arc_inv arc_steps_left
  arc_GetNextGoldAction arc_gold arc_transition_ops
proof unfold_locales
  fix s :: arc_state and a
  assume inv: "arc_inv s" and "Some (arc_IsAllowedAction a s) = Some True"
  then consider "ActionType a = SHIFT" | "ActionType a = LEFT_ARC" "1 < StackSize s" "2 < StackSize s"
    | "ActionType a = RIGHT_ARC" "1 < StackSize s"
    by (auto simp: arc_IsAllowedAction_def IsAllowedLeftArc_def IsAllowedRightArc_def split: if_splits)
  then show "\<exists>p. to_ParentIndex arc_transition_ops s a = Some p \<and> p < token_size (ps_sentence s) \<and> Next s \<noteq> None \<and>
      (0 \<le> p \<longrightarrow> (\<exists>c. to_ChildIndex arc_transition_ops s a = Some c \<and> 0 \<le> c \<and> c < token_size (ps_sentence s)))"
  proof cases
    case 1
    then show ?thesis using arc_invD(1) [OF inv] by (simp add: arc_transition_ops_def ParentIndex_def token_size_def)
  next
    case 2
    obtain s1 s0 where "s0 < ps_next s" "s1 < ps_next s" "0 \<le> s1" "Stack s 0 = s0" "Stack s 1 = s1"
      using arc_stack_two [OF inv 2(2)] 2(3) by metis
    then show ?thesis using 2 arc_invD(1,3) [OF inv] ps_wfD(1) [OF arc_invD(1) [OF inv]]
      by (simp add: arc_transition_ops_def ParentIndex_def ChildIndex_def SHIFT_def LEFT_ARC_def)
  next
    case 3
    obtain s1 s0 where "s0 < ps_next s" "s1 < ps_next s" "0 \<le> s0" "Stack s 0 = s0" "Stack s 1 = s1"
      using arc_stack_two [OF inv 3(2)] by metis
    then show ?thesis using 3 arc_invD(1,3) [OF inv] ps_wfD(1) [OF arc_invD(1) [OF inv]]
      by (simp add: arc_transition_ops_def ParentIndex_def ChildIndex_def SHIFT_def LEFT_ARC_def RIGHT_ARC_def)
  qed
qed (simp_all add: arc_transition_ops_def)

text \<open>A sentence with a projective gold tree whose labels have indices.\<close>

definition trainable :: "term_frequency_map \<Rightarrow> sentence \<Rightarrow> bool" where
  "trainable label_map sentence \<longleftrightarrow> well_ranged (heads sentence) \<and> rooted (heads sentence) \<and> noncrossing (heads sentence) \<and>
     (\<forall>t \<in> set (sent_token sentence). 0 \<le> label_index label_map t)"

definition oracle_length :: "'w syntaxnet_sentence list \<Rightarrow> nat" where
  "oracle_length data = foldr max (map (\<lambda>d. 2 * length (sent_token (ss_sentence d))) data) 0"

lemma arc_start:
  assumes "tfm_inv label_map" and "Size label_map < 2 ^ 30" and "trainable label_map sentence"
  shows "\<exists>s. new_arc_state sentence label_map = Some s \<and> arc_inv s \<and> arc_gold s \<and> ps_sentence s = sentence \<and> ps_label_map s = label_map \<and>
    arc_steps_left s = 2 * length (sent_token sentence)"
proof -
  obtain s where "new_arc_state sentence label_map = Some s" "arc_inv s" "ps_sentence s = sentence" "ps_label_map s = label_map"
    "arc_steps_left s = nat (2 * token_size sentence)"
    using new_arc_state_inv [OF assms(1), of sentence] by blast
  then show ?thesis using arc_gold_start [OF assms(1,2)] assms(3) by (auto simp: trainable_def token_size_def nat_mult_distrib)
qed

lemma seeded_batch:
  assumes "tfm_inv (snc_label_map c)" and "Size (snc_label_map c) < 2 ^ 30" and "\<not> snc_do_tracing c" and "0 < m"
    and "\<And>d. d \<in> set data \<Longrightarrow> trainable (snc_label_map c) (ss_sentence d)" and "length (snc_batch c) = length data"
    and "\<And>i. i < length data \<Longrightarrow> seeded arc_transition_ops (snc_label_map c) data m i (snc_batch c ! i)"
  shows "batch_on_path arc_inv arc_gold c" and "remaining arc_steps_left (snc_batch c) = oracle_length data"
proof -
  have x: "\<exists>x. bm_max_size (snc_batch c ! i) = m \<and> bm_beam (snc_batch c ! i) = [x] \<and> on_path arc_inv arc_gold x \<and>
      arc_steps_left (sn_parser_state (item_state x)) = 2 * length (sent_token (ss_sentence (data ! i)))" if "i < length data" for i
    using assms(7) [OF that] arc_start [OF assms(1,2) assms(5) [OF nth_mem [OF that]]]
    by (auto simp: seeded_def arc_transition_ops_def on_path_def)
  have "int (length (bm_beam b)) \<le> bm_max_size b \<and> (\<forall>x \<in> set (bm_beam b). on_path arc_inv arc_gold x)" if b: "b \<in> set (snc_batch c)" for b
  proof -
    obtain i where "i < length data" "b = snc_batch c ! i" using b assms(6) by (metis in_set_conv_nth)
    then show ?thesis using x [of i] assms(4) by auto
  qed
  then show "batch_on_path arc_inv arc_gold c" using assms(3) by (simp add: batch_on_path_def)
  let ?left = "\<lambda>b. map (\<lambda>x. arc_steps_left (sn_parser_state (item_state x))) (bm_beam b)"
  have "map ?left (snc_batch c) = map (\<lambda>d. [2 * length (sent_token (ss_sentence d))]) data"
    by (rule nth_equalityI) (use x assms(6) in fastforce)+
  then have "concat (map ?left (snc_batch c)) = map (\<lambda>d. 2 * length (sent_token (ss_sentence d))) data" by simp
  then show "remaining arc_steps_left (snc_batch c) = oracle_length data"
    by (simp add: remaining_def oracle_length_def map_concat comp_def)
qed

lemma arc_started:
  assumes "tfm_inv (snc_label_map c)" and "Size (snc_label_map c) < 2 ^ 30" and "\<not> snc_do_tracing c" and "beams_sized c" and "0 < m"
    and "ibc_GetAs cls cache = Some (data, cache')" and "\<forall>d \<in> set data. trainable (snc_label_map c) (ss_sentence d)"
    and "\<forall>w s. \<exists>w'. fx_Preprocess fx w s = Some (w', s)"
  shows "\<exists>c1 batch data1. c1 = c\<lparr>snc_input_data := True, snc_max_beam_size := m, snc_batch := batch\<rparr> \<and>
    snc_InitializeData cls arc_transition_ops fx ([] :: unit beam_item list list) m c cache = Some (c1, cache'\<lparr>ibc_converted_data := Some (cls, data1)\<rparr>) \<and>
    length batch = length data \<and> map ss_sentence data1 = map ss_sentence data \<and>
    (\<forall>i < length data. seeded arc_transition_ops (snc_label_map c) data m i (batch ! i)) \<and>
    batch_on_path arc_inv arc_gold c1 \<and> remaining arc_steps_left batch = oracle_length data"
proof -
  have new: "to_NewState arc_transition_ops (ss_sentence d) (snc_label_map c) \<noteq> None" if "d \<in> set data" for d
    using arc_start [OF assms(1,2)] assms(7) that by (force simp: arc_transition_ops_def)
  obtain batch data1 where i: "snc_InitializeData cls arc_transition_ops fx ([] :: unit beam_item list list) m c cache =
      Some (c\<lparr>snc_input_data := True, snc_max_beam_size := m, snc_batch := batch\<rparr>, cache'\<lparr>ibc_converted_data := Some (cls, data1)\<rparr>)"
    "length batch = length data" "map ss_sentence data1 = map ss_sentence data"
    "\<forall>i < length data. seeded arc_transition_ops (snc_label_map c) data m i (batch ! i)"
    using InitializeData_seeds [of fx m c cls cache data cache' arc_transition_ops] assms(4-6,8) new by blast
  show ?thesis using seeded_batch [of "c\<lparr>snc_input_data := True, snc_max_beam_size := m, snc_batch := batch\<rparr>" m data] assms(1-3,5,7) i by auto
qed

text \<open>
  C12: Bulk extraction. A component that runs the arc-standard system is given a batch of projectively annotated sentences.
  Then \<open>snc_BulkGetFixedFeatures\<close> terminates: the loop ends after twice as many steps as the longest sentence has tokens, in the terminal
  component that as many single steps of the oracle lead to. It returns for every channel exactly the features that the
  extractor gives for the states of the component after each number of steps, each with the index that
  \<open>GetIndex\<close> computes from its position in the channel, the slot of its state in the batch and the step. The hypotheses on the
  extractors are that preprocessing changes only the workspace and that extraction gives a list for every channel.
\<close>

theorem bulk_features_complete:
  assumes "tfm_inv (snc_label_map c)" and "Size (snc_label_map c) < 2 ^ 30" and "\<not> snc_do_tracing c" and "beams_sized c" and "0 < m"
    and "ibc_GetAs cls cache = Some (data, cache')" and "\<forall>d \<in> set data. trainable (snc_label_map c) (ss_sentence d)"
    and "\<forall>w s. \<exists>w'. fx_Preprocess fx w s = Some (w', s)"
    and "\<forall>add w s. length (cp_fixed_feature (snc_spec c)) \<le> length (fx_ExtractSparseFeatures fx add w s)"
  shows "\<exists>c1 cache1 c2. snc_InitializeData cls arc_transition_ops fx ([] :: unit beam_item list list) m c cache = Some (c1, cache1) \<and>
    oracle_steps arc_transition_ops (oracle_length data) c1 = Some c2 \<and> snc_IsTerminal arc_transition_ops c2 \<and>
    snc_BulkGetFixedFeatures arc_transition_ops fx bx c1 = Some ((int (oracle_length data),
      map (\<lambda>channel. concat (map (\<lambda>(f, feature_index, element_index, step_index).
          feature_entries (GetIndex bx (int (oracle_length data)) (int (length data) * m) feature_index element_index step_index) f)
        (concat (map (\<lambda>step. batch_entries fx c1 channel (int step) 0 (snc_batch (the (oracle_steps arc_transition_ops step c1))))
          [0..<oracle_length data])))) [0..<length (cp_fixed_feature (snc_spec c))]), c2)"
proof -
  obtain c1 batch data1 where c1_def: "c1 = c\<lparr>snc_input_data := True, snc_max_beam_size := m, snc_batch := batch\<rparr>"
    and i: "snc_InitializeData cls arc_transition_ops fx ([] :: unit beam_item list list) m c cache = Some (c1, cache'\<lparr>ibc_converted_data := Some (cls, data1)\<rparr>)"
      "length batch = length data"
    and path: "batch_on_path arc_inv arc_gold c1" and left: "oracle_length data = remaining arc_steps_left (snc_batch c1)"
    using arc_started [OF assms(1-8)] by auto
  let ?n = "length (cp_fixed_feature (snc_spec c))"
  obtain c2 where c2: "oracle_steps arc_transition_ops (oracle_length data) c1 = Some c2" "snc_IsTerminal arc_transition_ops c2"
    "bulk_loop arc_transition_ops fx 0 (replicate ?n []) c1 = Some (0 + int (oracle_length data), map (\<lambda>ch. replicate ?n [] ! ch @ concat (map (\<lambda>j.
      batch_entries fx c1 ch (0 + int j) 0 (snc_batch (the (oracle_steps arc_transition_ops j c1)))) [0..<oracle_length data])) [0..<length (replicate ?n [])], c2)"
    using arc_component.bulk_loop_steps [OF path, of "replicate ?n []" fx, OF _ _ left, of 0] assms(9) by (auto simp: c1_def)
  obtain bs where "c2 = c1\<lparr>snc_batch := bs\<rparr>" "length bs = length batch"
    using arc_component.component_steps [OF path, of "oracle_length data"] c2(1) by (auto simp: c1_def dest: list_all2_lengthD)
  then have "int (length (snc_batch c2)) * snc_max_beam_size c2 = int (length data) * m" using i(2) by (simp add: c1_def)
  then have "snc_BulkGetFixedFeatures arc_transition_ops fx bx c1 = Some ((int (oracle_length data),
      map (\<lambda>channel. concat (map (\<lambda>(f, feature_index, element_index, step_index).
          feature_entries (GetIndex bx (int (oracle_length data)) (int (length data) * m) feature_index element_index step_index) f)
        (concat (map (\<lambda>step. batch_entries fx c1 channel (int step) 0 (snc_batch (the (oracle_steps arc_transition_ops step c1))))
          [0..<oracle_length data])))) [0..<?n]), c2)"
    using c2(3) by (simp add: snc_BulkGetFixedFeatures_def c1_def [symmetric] Let_def comp_def) (simp add: c1_def cong: map_cong)
  then show ?thesis using i(1) c2(1,2) by (auto simp: c1_def)
qed

text \<open>A component with one channel that extracts the next token, and a batch of one sentence.\<close>

definition demo_features :: "(unit, unit) feature_ops" where
  "demo_features = \<lparr>fx_Preprocess = (\<lambda>w s. Some (w, s)),
     fx_ExtractSparseFeatures = (\<lambda>add w s. [[\<lparr>sf_id = [ps_next s], sf_weight = [], sf_description = []\<rparr>]]),
     fx_ExtractLinkFeatures = (\<lambda>w s. []), fx_value_name = (\<lambda>i d w. d)\<rparr>"

definition demo_component :: "(unit, unit) syntaxnet_component" where
  "demo_component = new_SyntaxNetComponent label_three ((demo_spec ''parser'' [])\<lparr>cp_fixed_feature :=
     [\<lparr>fc_name = ''next'', fc_fml = ''input.token'', fc_embedding_dim = 8, fc_size = 1, fc_predicate_map = []\<rparr>]\<rparr>)"

definition demo_class :: "unit syntaxnet_sentence list batch_class" where
  "demo_class = SentenceInputBatch (\<lambda>_. Some gold_three) (\<lambda>_. []) ()"

definition demo_data :: "unit syntaxnet_sentence list" where
  "demo_data = [\<lparr>ss_sentence = gold_three, ss_workspace = ()\<rparr>]"

lemma demo_ok:
  "tfm_inv (snc_label_map demo_component)" "Size (snc_label_map demo_component) < 2 ^ 30" "\<not> snc_do_tracing demo_component"
  "beams_sized demo_component" "\<forall>d \<in> set demo_data. trainable (snc_label_map demo_component) (ss_sentence d)"
  "\<forall>w s. \<exists>w'. fx_Preprocess demo_features w s = Some (w', s)" "oracle_length demo_data = 6"
proof -
  have l: "snc_label_map demo_component = label_three" by (simp add: demo_component_def new_SyntaxNetComponent_def)
  show "tfm_inv (snc_label_map demo_component)" by (simp add: l label_three_inv)
  show "Size (snc_label_map demo_component) < 2 ^ 30" unfolding l by code_simp
  show "\<not> snc_do_tracing demo_component" "beams_sized demo_component"
    by (simp_all add: demo_component_def new_SyntaxNetComponent_def beams_sized_def)
  have "trainable label_three gold_three" by code_simp
  then show "\<forall>d \<in> set demo_data. trainable (snc_label_map demo_component) (ss_sentence d)" by (simp add: l demo_data_def)
  show "\<forall>w s. \<exists>w'. fx_Preprocess demo_features w s = Some (w', s)" by (simp add: demo_features_def)
  show "oracle_length demo_data = 6" by (simp add: oracle_length_def demo_data_def gold_three_def)
qed

lemma demo_cache: "ibc_GetAs demo_class (InputBatchCache_string ''x'') =
    Some (demo_data, \<lparr>ibc_stored_type = Some ''SentenceInputBatch'', ibc_source_data = [''x''], ibc_converted_data = Some (demo_class, demo_data)\<rparr>)"
  by (simp add: ibc_GetAs_def InputBatchCache_string_def demo_class_def SentenceInputBatch_def sib_SetData_def demo_data_def)

theorem bulk_features_complete_witness:
  "\<exists>c1 cache1 c2 arrays. snc_InitializeData demo_class arc_transition_ops demo_features ([] :: unit beam_item list list) 2 demo_component
      (InputBatchCache_string ''x'') = Some (c1, cache1) \<and>
    oracle_steps arc_transition_ops 6 c1 = Some c2 \<and> snc_IsTerminal arc_transition_ops c2 \<and>
    snc_BulkGetFixedFeatures arc_transition_ops demo_features \<lparr>bx_use_padding = False, bx_pad_to_step = -1, bx_pad_to_element = -1\<rparr> c1 = Some ((6, arrays), c2)"
proof -
  have "\<forall>add w s. length (cp_fixed_feature (snc_spec demo_component)) \<le> length (fx_ExtractSparseFeatures demo_features add w s)"
    by (simp add: demo_component_def demo_features_def new_SyntaxNetComponent_def)
  from bulk_features_complete [OF demo_ok(1-4) _ demo_cache demo_ok(5,6) this, of 2 "\<lparr>bx_use_padding = False, bx_pad_to_step = -1, bx_pad_to_element = -1\<rparr>"]
  show ?thesis unfolding demo_ok(7) by auto
qed

end
