(* ===== verification/Session_Protocol.thy ===== *)
theory Session_Protocol
  imports Component_Runs
begin

text \<open>
  The protocol between a session and its components. The locale \<open>component_contract\<close> states what every component promises
  about being ready, \<open>resettable_component\<close> adds that a reset ends it. Lemmas: in every run of a session a component can be accessed
  exactly when it has been initialised since the last reset. Both component classes of the program satisfy the first contract;
  \<^verbatim>\<open>StatelessComponent\<close>, which is always ready, does not satisfy the second.
\<close>

section \<open>Contracts of components\<close>

locale component_contract =
  fixes ops :: "('c, 'i, 's, 't, 'm, 'e, 'o, 'l) component_ops"
  assumes init_ready: "co_InitializeData ops states k c i = Some (c', i') \<Longrightarrow> co_IsReady ops c'"
    and create_ready: "co_InitializeComponent ops spec c = Some c' \<Longrightarrow> co_IsReady ops c' = co_IsReady ops c"
    and tracing_ready: "co_InitializeTracing ops c = Some c' \<Longrightarrow> co_IsReady ops c' = co_IsReady ops c"
    and disable_ready: "co_IsReady ops (co_DisableTracing ops c) = co_IsReady ops c"
    and oracle_ready: "co_AdvanceFromOracle ops c = Some c' \<Longrightarrow> co_IsReady ops c' = co_IsReady ops c"
    and prediction_ready: "co_AdvanceFromPrediction ops m j n c = Some (r, c') \<Longrightarrow> co_IsReady ops c' = co_IsReady ops c"
    and fixed_ready: "co_GetFixedFeatures ops channel c = Some (f, c') \<Longrightarrow> co_IsReady ops c' = co_IsReady ops c"
    and bulk_ready: "co_BulkGetFixedFeatures ops ex c = Some (f, c') \<Longrightarrow> co_IsReady ops c' = co_IsReady ops c"
    and trace_ready: "co_AddTranslatedLinkFeaturesToTrace ops links channel c = Some c' \<Longrightarrow> co_IsReady ops c' = co_IsReady ops c"
    and finalize_ready: "co_FinalizeData ops c i = Some (c', i') \<Longrightarrow> co_IsReady ops c' = co_IsReady ops c"

locale resettable_component = component_contract +
  assumes reset_unready: "\<not> co_IsReady ops (co_ResetComponent ops c)"

text \<open>The components have different names and addresses, and those that are ready are those noted.\<close>

definition ready_exactly :: "('c, 'i, 's, 't, 'm, 'e, 'o, 'l) component_ops \<Rightarrow> string set \<Rightarrow> ('c, 'g, 'i) compute_session \<Rightarrow> bool" where
  "ready_exactly ops R s \<longleftrightarrow> distinct (map fst (cs_components s)) \<and> distinct (map snd (cs_components s)) \<and>
     (\<forall>name a. (name, a) \<in> set (cs_components s) \<longrightarrow> (\<exists>c. deref (cs_store s) a = Some c \<and> (co_IsReady ops c \<longleftrightarrow> name \<in> R)))"

lemma ready_fields [simp]:
  "ready_exactly ops R (s\<lparr>cs_input_data := i\<rparr>) = ready_exactly ops R s" "ready_exactly ops R (s\<lparr>cs_do_tracing := b\<rparr>) = ready_exactly ops R s"
  by (simp_all add: ready_exactly_def)

lemma ready_accessible:
  assumes "ready_exactly ops R s" and "name \<in> fst ` set (cs_components s)"
  shows "GetReadiedComponent ops name s \<noteq> None \<longleftrightarrow> name \<in> R"
proof -
  obtain a where a: "(name, a) \<in> set (cs_components s)" using assms(2) by auto
  have "map_of (cs_components s) name = Some a" using assms(1) a by (simp add: ready_exactly_def)
  then show ?thesis using assms(1) a by (fastforce simp: ready_exactly_def GetReadiedComponent_def GetComponent_def check_def)
qed

lemma put_components [simp]: "cs_components (put_component a c s) = cs_components s"
  by (simp add: put_component_def)

lemma deref_put: "deref (cs_store s) a = Some c0 \<Longrightarrow> deref (cs_store (put_component a c s)) b = (if b = a then Some c else deref (cs_store s) b)"
  by (auto simp: deref_def put_component_def vec_at_def)

lemma ready_put:
  assumes "ready_exactly ops R s" and "GetComponent name s = Some (a, c0)" and "co_IsReady ops c"
  shows "ready_exactly ops (insert name R) (put_component a c s)"
proof -
  have a: "(name, a) \<in> set (cs_components s)" "deref (cs_store s) a = Some c0"
    using assms(2) by (auto simp: GetComponent_def split: bind_splits dest: map_of_SomeD)
  have other: "n = name \<longleftrightarrow> b = a" if "(n, b) \<in> set (cs_components s)" for n b
    using assms(1) a(1) that unfolding ready_exactly_def
    by (metis distinct_map eq_key_imp_eq_value fst_conv inj_onD snd_conv)
  show ?thesis using assms(1,3) other unfolding ready_exactly_def put_components deref_put [OF a(2)] by auto
qed

lemma foreach_components:
  fixes s s' :: "('c, 'g, 'i) compute_session" and xs :: "(string \<times> nat) list"
  assumes "foreach (\<lambda>(_, a) s. do { c \<leftarrow> deref (cs_store s) a; Some (put_component a (f c) s) }) xs s = Some s'" and "distinct (map snd xs)"
  shows "cs_components s' = cs_components s \<and> (\<forall>a. deref (cs_store s') a = (if a \<in> snd ` set xs then map_option f (deref (cs_store s) a) else deref (cs_store s) a))"
  using assms
proof (induction xs arbitrary: s)
  case (Cons x xs)
  obtain n a where x: "x = (n, a)" by (cases x)
  obtain c where c: "deref (cs_store s) a = Some c" using Cons.prems x by (auto split: bind_splits)
  then have "foreach (\<lambda>(_, a) s. do { c \<leftarrow> deref (cs_store s) a; Some (put_component a (f c) s) }) xs (put_component a (f c) s) = Some s'"
    using Cons.prems x by simp
  note IH = Cons.IH [OF this]
  have "a \<notin> snd ` set xs" using Cons.prems(2) x by simp
  then show ?case using IH Cons.prems(2) x c by (auto simp: deref_put [OF c])
qed simp

lemma ready_for_components:
  assumes "ready_exactly ops R s" and "for_components f s = Some s'" and "\<And>name c. name \<in> R \<longleftrightarrow> co_IsReady ops c \<Longrightarrow> co_IsReady ops (f c) \<longleftrightarrow> name \<in> R'"
  shows "ready_exactly ops R' s'"
proof -
  have "cs_components s' = cs_components s" "\<forall>a \<in> snd ` set (cs_components s). deref (cs_store s') a = map_option f (deref (cs_store s) a)"
    using foreach_components [of f "cs_components s" s s'] assms(1,2) by (auto simp: ready_exactly_def for_components_def)
  then show ?thesis using assms(1,3) unfolding ready_exactly_def by force
qed

section \<open>Runs\<close>

text \<open>A run of a session, with the set of the names that were initialised since the last reset.\<close>

fun noted :: "session_event \<Rightarrow> string set \<Rightarrow> string set" where
  "noted (Initialized name) R = insert name R"
| "noted Used R = R"
| "noted WasReset R = {}"

inductive session_run ::
  "('c, 'i, 's, 't, 'm, 'e, 'o, 'l) component_ops \<Rightarrow> (string list \<Rightarrow> 'i) \<Rightarrow> ('c, 'g, 'i) compute_session \<Rightarrow> string set \<Rightarrow> ('c, 'g, 'i) compute_session \<Rightarrow> bool"
  for ops new_cache s0 where
  started: "session_run ops new_cache s0 {} s0"
| stepped_on: "session_run ops new_cache s0 R s \<Longrightarrow> session_step ops new_cache e s s' \<Longrightarrow> session_run ops new_cache s0 (noted e R) s'"

context component_contract
begin

lemma used_ready:
  assumes "ready_exactly ops R s" and "GetComponent name s = Some (a, c0)" and "co_IsReady ops c0" and "co_IsReady ops c = co_IsReady ops c0"
  shows "ready_exactly ops R (put_component a c s)"
proof -
  have "name \<in> fst ` set (cs_components s)" using assms(2) by (auto simp: GetComponent_def split: bind_splits dest!: map_of_SomeD intro: rev_image_eqI)
  moreover have "GetReadiedComponent ops name s \<noteq> None" using assms(2,3) GetReadied_Get [of ops name s a c0] by simp
  ultimately have "name \<in> R" using ready_accessible [OF assms(1)] by simp
  then show ?thesis using ready_put [OF assms(1,2), of c] assms(3,4) by (simp add: insert_absorb)
qed

end

context resettable_component
begin

lemma step_ready:
  "session_step ops new_cache e s s' \<Longrightarrow> ready_exactly ops R s \<Longrightarrow> ready_exactly ops (noted e R) s'"
proof (induction rule: session_step.induct)
  case (init_data name k s s')
  then obtain a c input c1 input' c2 states where "GetComponent name s = Some (a, c)" "co_InitializeData ops states k c input = Some (c1, input')"
    "(if cs_do_tracing s then co_InitializeTracing ops c1 else Some c1) = Some c2" "s' = (put_component a c2 s)\<lparr>cs_input_data := Some input'\<rparr>"
    by (elim InitializeComponentData_cases)
  moreover from this have "co_IsReady ops c2" using init_ready tracing_ready by (metis option.inject)
  ultimately show ?case using ready_put [OF init_data(2)] by simp
next
  case (finalize name s s')
  then show ?case using used_ready [OF finalize(2)] finalize_ready by (elim session_FinalizeData_cases) auto
next
  case (tracing b s s')
  then show ?case using ready_for_components [of ops R "s\<lparr>cs_do_tracing := b\<rparr>"] disable_ready by (auto simp: SetTracing_def)
next
  case (reset s s')
  then obtain s1 where "for_components (co_ResetComponent ops) s = Some s1" "s' = s1\<lparr>cs_input_data := None\<rparr>" by (auto simp: ResetSession_def split: bind_splits)
  then show ?case using ready_for_components [OF reset(2), of _ s1 "{}"] reset_unready by simp
next
  case (link_features name channel s ls s')
  then show ?case using used_ready [OF link_features(2)] trace_ready
    by (auto simp: GetTranslatedLinkFeatures_def GetReadied_Get split: bind_splits if_splits)
qed (auto simp: session_op_defs GetReadied_Get SetInputData_def SetInputBatchCache_def split: bind_splits
    elim!: used_ready intro: oracle_ready [THEN iffD2] prediction_ready [THEN iffD2] fixed_ready [THEN iffD2] bulk_ready [THEN iffD2])

lemma run_ready: "session_run ops new_cache s0 R s \<Longrightarrow> ready_exactly ops {} s0 \<Longrightarrow> ready_exactly ops R s"
  by (induction rule: session_run.induct) (auto intro: step_ready)

end

section \<open>The components of the program\<close>

lemma session_Init_assembled:
  fixes ops :: "('c, 'i, 's, 't, 'm, 'e, 'o, 'l) component_ops" and s :: "('c, 'g, 'i) compute_session"
  assumes "distinct (map cp_name specs)"
    and "\<forall>spec \<in> set specs. \<exists>c. builder (cp_name spec) (rm_registered_name (cp_backend spec)) = Some c \<and> co_InitializeComponent ops spec c = Some (made spec)"
    and "session_Init builder ops \<lparr>ms_component = specs\<rparr> g (new_ComputeSession k g0) = Some s"
  shows "cs_store s = map (\<lambda>spec. Some (made spec)) specs \<and> cs_components s = zip (map cp_name specs) [0..<length specs]"
proof -
  have "foreach (init_translators ops) xs s = Some s' \<Longrightarrow> cs_store s' = cs_store s \<and> cs_components s' = cs_components s"
    for xs and s s' :: "('c, 'g, 'i) compute_session"
  proof (induction xs arbitrary: s)
    case (Cons x xs)
    then obtain s1 where s1: "init_translators ops x s = Some s1" "foreach (init_translators ops) xs s1 = Some s'" by (auto split: bind_splits)
    then have "cs_store s1 = cs_store s \<and> cs_components s1 = cs_components s" by (auto simp: init_translators_def split: bind_splits if_splits)
    then show ?case using Cons.IH [OF s1(2)] by simp
  qed simp
  then show ?thesis using assms(3) init_components [OF assms(1,2), of "(new_ComputeSession k g0)\<lparr>cs_spec := \<lparr>ms_component = specs\<rparr>, cs_grid_point := g\<rparr>"]
    by (fastforce simp: session_Init_def new_ComputeSession_def split: bind_splits)
qed

lemma bulk_loop_keeps: "bulk_loop ops fx k F c = Some r \<Longrightarrow> snc_input_data (snd (snd r)) = snc_input_data c"
proof (rule bulk_loop.raw_induct [of "\<lambda>ops fx k F c r. snc_input_data (snd (snd r)) = snc_input_data c"])
  fix loop :: "'a transition_ops \<Rightarrow> ('a, 'b) feature_ops \<Rightarrow> int \<Rightarrow> bulk_entry list list \<Rightarrow> ('a, 'b) syntaxnet_component \<Rightarrow> _"
    and ops :: "'a transition_ops" and fx :: "('a, 'b) feature_ops" and k F and c :: "('a, 'b) syntaxnet_component" and r
  assume IH: "\<And>ops fx k F c r. loop ops fx k F c = Some r \<Longrightarrow> snc_input_data (snd (snd r)) = snc_input_data c"
    and e: "(if snc_IsTerminal ops c then Some (k, F, c)
      else do { (batch, F, _) \<leftarrow> bulk_of_beams fx c k (snc_batch c) (F, 0);
        c \<leftarrow> snc_AdvanceFromOracle ops (c\<lparr>snc_batch := batch\<rparr>); loop ops fx (k + 1) F c }) = Some r"
  show "snc_input_data (snd (snd r)) = snc_input_data c"
    using e by (auto simp: snc_AdvanceFromOracle_def split: if_splits bind_splits dest!: IH)
qed

lemma snc_keeps_ready:
  "snc_InitializeComponent ld spec c = Some c' \<Longrightarrow> snc_input_data c' = snc_input_data c"
  "snc_InitializeTracing c = Some c' \<Longrightarrow> snc_input_data c' = snc_input_data c"
  "snc_AdvanceFromOracle ops c = Some c' \<Longrightarrow> snc_input_data c' = snc_input_data c"
  "snc_AdvanceFromPrediction rnd ops m j n c = Some (r, c') \<Longrightarrow> snc_input_data c' = snc_input_data c"
  "snc_GetFixedFeatures fx channel c = Some (f, c') \<Longrightarrow> snc_input_data c' = snc_input_data c"
  "snc_AddTranslatedLinkFeaturesToTrace links channel c = Some c' \<Longrightarrow> snc_input_data c' = snc_input_data c"
  "snc_FinalizeData cls ops c i = Some (c', i') \<Longrightarrow> snc_input_data c' = snc_input_data c"
  by (auto simp: snc_InitializeComponent_def snc_InitializeTracing_def snc_AdvanceFromOracle_def snc_AdvanceFromPrediction_def
      snc_GetFixedFeatures_def snc_AddTranslatedLinkFeaturesToTrace_def snc_FinalizeData_def Let_def split: bind_splits prod.splits)

lemma snc_InitializeData_ready: "snc_InitializeData cls ops fx states k c i = Some (c', i') \<Longrightarrow> snc_input_data c'"
  by (auto simp: snc_InitializeData_def Let_def split: bind_splits if_splits)

lemma snc_Bulk_ready: "snc_BulkGetFixedFeatures ops fx bx c = Some (f, c') \<Longrightarrow> snc_input_data c' = snc_input_data c"
  by (auto simp: snc_BulkGetFixedFeatures_def split: bind_splits dest!: bulk_loop_keeps)

interpretation stateless: component_contract stateless_ops
  by unfold_locales (auto simp: stateless_ops_def)

interpretation syntaxnet: resettable_component "syntaxnet_ops ld cls rnd ops fx"
  by unfold_locales (auto simp: syntaxnet_ops_def snc_DisableTracing_def snc_ResetComponent_def snc_InitializeData_ready snc_keeps_ready snc_Bulk_ready split: bind_splits)

text \<open>C13: A session of SyntaxNet components with different names gives access to a component exactly between its initialisation
  with data and the next reset: after every sequence of operations on the session, in any order, the components that can be
  accessed are those initialised since the last reset, and every other access aborts. The hypotheses say that the components are
  created without data and that the resources of their specifications can be loaded.\<close>

theorem accessible_iff_initialized:
  fixes ops :: "'ts transition_ops" and fx :: "('ts, 'w) feature_ops" and g :: 'g
  assumes "distinct (map cp_name specs)"
    and "\<forall>spec \<in> set specs. \<exists>c. builder (cp_name spec) (rm_registered_name (cp_backend spec)) = Some c \<and> \<not> snc_input_data c \<and> snc_InitializeComponent ld spec c \<noteq> None"
    and "session_Init builder (syntaxnet_ops ld cls rnd ops fx) \<lparr>ms_component = specs\<rparr> g (new_ComputeSession k g0) = Some s0"
    and "session_run (syntaxnet_ops ld cls rnd ops fx) new_cache s0 R s" and "spec \<in> set specs"
  shows "(GetReadiedComponent (syntaxnet_ops ld cls rnd ops fx) (cp_name spec) s \<noteq> None \<longleftrightarrow> cp_name spec \<in> R) \<and>
    (cp_name spec \<notin> R \<longrightarrow> session_AdvanceFromOracle (syntaxnet_ops ld cls rnd ops fx) (cp_name spec) s = None \<and>
      session_IsTerminal (syntaxnet_ops ld cls rnd ops fx) (cp_name spec) s = None \<and> session_FinalizeData (syntaxnet_ops ld cls rnd ops fx) (cp_name spec) s = None)"
proof -
  let ?ops = "syntaxnet_ops ld cls rnd ops fx"
  define made where "made spec = the (snc_InitializeComponent ld spec (the (builder (cp_name spec) (rm_registered_name (cp_backend spec)))))" for spec
  have made: "\<forall>spec \<in> set specs. \<exists>c. builder (cp_name spec) (rm_registered_name (cp_backend spec)) = Some c \<and> co_InitializeComponent ?ops spec c = Some (made spec)"
    using assms(2) by (auto simp: made_def syntaxnet_ops_def)
  have unready: "\<forall>spec \<in> set specs. \<not> snc_input_data (made spec)"
    using assms(2) snc_keeps_ready(1) by (fastforce simp: made_def)
  have s0: "cs_store s0 = map (\<lambda>spec. Some (made spec)) specs" "cs_components s0 = zip (map cp_name specs) [0..<length specs]"
    using session_Init_assembled [OF assms(1) made assms(3)] by auto
  have "ready_exactly ?ops {} s0" using assms(1) unready
    by (auto simp: ready_exactly_def s0 deref_def in_set_zip syntaxnet_ops_def)
  from syntaxnet.run_ready [OF assms(4) this] have ready: "ready_exactly ?ops R s" .
  have "cs_components s = cs_components s0" using assms(4)
    by induction (auto dest: session_step_frame simp: same_frame_def)
  then have "cp_name spec \<in> fst ` set (cs_components s)" using assms(5) by (metis (no_types, lifting) image_eqI length_map length_upt list.set_map map_fst_zip minus_nat.diff_0 s0(2))
  from ready_accessible [OF ready this] show ?thesis
    by (cases "GetReadiedComponent ?ops (cp_name spec) s") (auto simp: session_AdvanceFromOracle_def session_IsTerminal_def session_FinalizeData_def)
qed

text \<open>One component whose label map is loaded from a file.\<close>

definition label_spec :: component_spec where
  "label_spec = (demo_spec ''parser'' [])\<lparr>cp_resource := [\<lparr>sr_name = ''label-map'', sr_part = [\<lparr>sp_file_pattern = ''labels'', sp_file_format = [], sp_record_format = []\<rparr>]\<rparr>]\<rparr>"

definition demo_loaders :: component_loaders where
  "demo_loaders = \<lparr>ld_feature_extractor = Some, ld_transition_system = (\<lambda>_. Some), ld_link_feature_extractor = Some, ld_label_map = (\<lambda>_. Some empty_tfm)\<rparr>"

lemma label_spec_loads: "snc_InitializeComponent demo_loaders label_spec c = Some (c\<lparr>snc_spec := label_spec, snc_label_map := empty_tfm, snc_rewrite_root_labels := False\<rparr>)"
proof -
  have "spec_input (component_context label_spec) = [(new_input ''label-map'')\<lparr>input_part := [\<lparr>part_file_pattern = ''labels'', part_file_format = [], part_record_format = []\<rparr>]\<rparr>]"
    "Get_bool (component_context label_spec) ''rewrite_root_labels'' False = False"
    by code_simp+
  then show ?thesis by (simp add: snc_InitializeComponent_def demo_loaders_def Let_def GetInput_def new_input_def InputFile_def check_def label_spec_def demo_spec_def)
qed

definition demo_ops where
  "demo_ops = syntaxnet_ops demo_loaders (SentenceInputBatch (\<lambda>_. None) (\<lambda>_. []) ()) Fin arc_transition_ops demo_features"

theorem accessible_iff_initialized_witness:
  "\<exists>s0 s. session_Init (\<lambda>_ _. Some (new_SyntaxNetComponent empty_tfm label_spec)) demo_ops \<lparr>ms_component = [label_spec]\<rparr> () (new_ComputeSession 0 ()) = Some s0 \<and>
    session_run demo_ops InputBatchCache_strings s0 {''parser''} s \<and> GetReadiedComponent demo_ops ''parser'' s \<noteq> None"
proof -
  let ?b = "\<lambda>(_ :: string) (_ :: string). Some (new_SyntaxNetComponent empty_tfm label_spec)"
  let ?c = "new_SyntaxNetComponent empty_tfm label_spec :: (unit, unit) syntaxnet_component"
  have spec: "cp_name label_spec = ''parser''" "cp_linked_feature label_spec = []" by (simp_all add: label_spec_def demo_spec_def)
  define s0 where "s0 = (new_ComputeSession 0 () :: (_, _, unit syntaxnet_sentence list input_batch_cache) compute_session)\<lparr>cs_spec := \<lparr>ms_component = [label_spec]\<rparr>, cs_store := [Some ?c], cs_components := [(''parser'', 0)]\<rparr>"
  have made: "snc_InitializeComponent demo_loaders label_spec ?c = Some ?c" by (simp add: label_spec_loads new_SyntaxNetComponent_def)
  have i: "session_Init ?b demo_ops \<lparr>ms_component = [label_spec]\<rparr> () (new_ComputeSession 0 ()) = Some s0"
    by (simp add: session_Init_def init_component_def init_translators_def map_insert_def s0_def new_ComputeSession_def Let_def spec made
        demo_ops_def syntaxnet_ops_def)
  define s1 where "s1 = SetInputData InputBatchCache_strings [] s0"
  have "\<exists>s. InitializeComponentData demo_ops ''parser'' 1 s1 = Some s"
    by (simp add: InitializeComponentData_def s1_def s0_def SetInputData_def GetComponent_def deref_def new_ComputeSession_def demo_ops_def syntaxnet_ops_def
        snc_InitializeData_def new_SyntaxNetComponent_def ibc_GetAs_def InputBatchCache_strings_def SentenceInputBatch_def sib_SetData_def Let_def)
  then obtain s where s: "InitializeComponentData demo_ops ''parser'' 1 s1 = Some s" by blast
  have "session_run demo_ops InputBatchCache_strings s0 {} s1"
    using stepped_on [OF started set_input] by (simp add: s1_def)
  from stepped_on [OF this init_data [OF s]] have run: "session_run demo_ops InputBatchCache_strings s0 {''parser''} s" by simp
  have "GetReadiedComponent demo_ops ''parser'' s \<noteq> None"
    using accessible_iff_initialized [of "[label_spec]" ?b demo_loaders, OF _ _ i [unfolded demo_ops_def] run [unfolded demo_ops_def], of label_spec] made
    by (simp add: spec demo_ops_def new_SyntaxNetComponent_def)
  then show ?thesis using i run by blast
qed

end
