(* ===== verification/Lexicon_Builder.thy ===== *)
theory Lexicon_Builder
  imports Affix_Table Corpus_Reader Term_Frequency_Map
begin

text \<open>
  \<^verbatim>\<open>syntaxnet/lexicon_builder.cc\<close>, the kernel that collects the dictionaries of a corpus and writes them to files, and
  \<^verbatim>\<open>char_ngram_string_extractor.{h,cc}\<close>, which finds the character n-grams of a word. The kernels of the same file that
  report the sizes and the vocabularies of feature extractors are not modelled.

  Lemmas: the n-grams are the substrings of bounded length; the pass over a corpus of written CoNLL sentences does not
  abort and counts every term; a written dictionary is loaded with these counts.
\<close>

section \<open>Character n-grams\<close>

record char_ngram_string_extractor =
  ng_min_length :: int
  ng_max_length :: int
  ng_add_terminators :: bool
  ng_mark_boundaries :: bool

definition new_CharNgramStringExtractor :: char_ngram_string_extractor where
  "new_CharNgramStringExtractor = \<lparr>ng_min_length = 1, ng_max_length = 3, ng_add_terminators = False, ng_mark_boundaries = False\<rparr>"

definition show_flag :: "bool \<Rightarrow> string" where
  "show_flag b = (if b then ''1'' else ''0'')"

definition ng_GetConfigId :: "char_ngram_string_extractor \<Rightarrow> string" where
  "ng_GetConfigId ex = show_int (ng_min_length ex) @ '':'' @ show_int (ng_max_length ex) @ '':'' @
     show_flag (ng_add_terminators ex) @ '':'' @ show_flag (ng_mark_boundaries ex)"

definition ng_Setup :: "task_context \<Rightarrow> char_ngram_string_extractor \<Rightarrow> char_ngram_string_extractor option" where
  "ng_Setup context ex = do {
     min_length \<leftarrow> Get_int context ''lexicon_min_char_ngram_length'' (ng_min_length ex);
     max_length \<leftarrow> Get_int context ''lexicon_max_char_ngram_length'' (ng_max_length ex);
     let add_terminators = Get_bool context ''lexicon_char_ngram_include_terminators'' (ng_add_terminators ex);
     check (\<not> add_terminators \<or> \<not> ng_mark_boundaries ex);
     check (min_length \<ge> 1);
     check (min_length \<le> max_length);
     Some (ex\<lparr>ng_min_length := min_length, ng_max_length := max_length, ng_add_terminators := add_terminators\<rparr>) }"

text \<open>The strings of the characters of a word.\<close>

definition utf8_strings :: "string \<Rightarrow> string list option" where
  "utf8_strings word = foreach (\<lambda>p cs. do { c \<leftarrow> piece_string word p; Some (cs @ [c]) }) (GetUTF8Chars word) []"

text \<open>The inner loop runs over the characters from \<open>char_index\<close> on that are not more than the maximal length from the start.\<close>

fun ngrams_from :: "char_ngram_string_extractor \<Rightarrow> nat \<Rightarrow> nat \<Rightarrow> int \<Rightarrow> string list \<Rightarrow> string \<Rightarrow> string list" where
  "ngrams_from ex num_chars char_index index [] char_ngram = []"
| "ngrams_from ex num_chars char_index index (current # cs) char_ngram =
     (if current = '' '' then []
      else let char_ngram = char_ngram @ current;
               char_ngram = (if ng_mark_boundaries ex \<and> char_index + 1 = num_chars then char_ngram @ '' $'' else char_ngram);
               rest = ngrams_from ex num_chars (char_index + 1) (index + 1) cs char_ngram
           in if index + 1 \<ge> ng_min_length ex then char_ngram # rest else rest)"

definition ngrams_at :: "char_ngram_string_extractor \<Rightarrow> string list \<Rightarrow> nat \<Rightarrow> string list" where
  "ngrams_at ex char_sp start = ngrams_from ex (length char_sp) start 0 (take (nat (ng_max_length ex)) (drop start char_sp))
     (if ng_mark_boundaries ex \<and> start = 0 then ''^ '' else [])"

text \<open>The n-grams in the order in which the consumer gets them.\<close>

definition ng_Extract :: "char_ngram_string_extractor \<Rightarrow> string \<Rightarrow> string list option" where
  "ng_Extract ex word = do {
     cs \<leftarrow> utf8_strings word;
     let char_sp = (if ng_add_terminators ex then [''^''] else []) @ cs @ (if ng_add_terminators ex then [''$''] else []);
     Some (concat (map (ngrams_at ex char_sp) [0..<length char_sp])) }"

section \<open>The lexicon builder\<close>

record lexicon =
  lx_words :: term_frequency_map
  lx_lcwords :: term_frequency_map
  lx_tags :: term_frequency_map
  lx_categories :: term_frequency_map
  lx_labels :: term_frequency_map
  lx_chars :: term_frequency_map
  lx_char_ngrams :: term_frequency_map
  lx_prefixes :: affix_table
  lx_suffixes :: affix_table
  lx_tag_to_category :: tag_to_category_map

definition HasSpaces :: "string \<Rightarrow> bool" where
  "HasSpaces word = list_ex (\<lambda>c. c = CHR '' '') word"

definition increment_term :: "string \<Rightarrow> term_frequency_map \<Rightarrow> term_frequency_map option" where
  "increment_term t m = do { (_, m) \<leftarrow> Increment m t; Some m }"

definition increment_if :: "bool \<Rightarrow> string \<Rightarrow> term_frequency_map \<Rightarrow> term_frequency_map option" where
  "increment_if present t m = (if present then increment_term t m else Some m)"

definition add_token :: "char_ngram_string_extractor \<Rightarrow> token \<Rightarrow> lexicon \<Rightarrow> lexicon option" where
  "add_token ex token lx = do {
     let word = NormalizeDigits (tok_word token);
     let lcword = Lowercase word;
     check (\<not> List.member lcword (CHR 0x0A));
     words \<leftarrow> increment_if (word \<noteq> [] \<and> \<not> HasSpaces word) word (lx_words lx);
     lcwords \<leftarrow> increment_if (lcword \<noteq> [] \<and> \<not> HasSpaces lcword) lcword (lx_lcwords lx);
     tags \<leftarrow> increment_if (tok_tag token \<noteq> []) (tok_tag token) (lx_tags lx);
     categories \<leftarrow> increment_if (tok_category token \<noteq> []) (tok_category token) (lx_categories lx);
     labels \<leftarrow> increment_if (tok_label token \<noteq> []) (tok_label token) (lx_labels lx);
     (_, prefixes) \<leftarrow> AddAffixesForWord word (lx_prefixes lx);
     (_, suffixes) \<leftarrow> AddAffixesForWord word (lx_suffixes lx);
     let tag_to_category = SetCategory (lx_tag_to_category lx) (tok_tag token) (tok_category token);
     char_sp \<leftarrow> utf8_strings word;
     chars \<leftarrow> foreach (\<lambda>c_str. increment_if (c_str \<noteq> [] \<and> \<not> HasSpaces c_str) c_str) char_sp (lx_chars lx);
     ngrams \<leftarrow> ng_Extract ex word;
     char_ngrams \<leftarrow> foreach increment_term ngrams (lx_char_ngrams lx);
     Some \<lparr>lx_words = words, lx_lcwords = lcwords, lx_tags = tags, lx_categories = categories, lx_labels = labels, lx_chars = chars,
       lx_char_ngrams = char_ngrams, lx_prefixes = prefixes, lx_suffixes = suffixes, lx_tag_to_category = tag_to_category\<rparr> }"

text \<open>The pass over the corpus ends when the reader has no document left.\<close>

partial_function (option) corpus_loop :: "document_format \<Rightarrow> char_ngram_string_extractor \<Rightarrow> text_reader \<Rightarrow> lexicon \<Rightarrow> lexicon option" where
  "corpus_loop fmt ex corpus lx = do {
     (document, corpus) \<leftarrow> tr_Read fmt corpus;
     case document of
       None \<Rightarrow> Some lx
     | Some document \<Rightarrow> do {
         lx \<leftarrow> foreach (add_token ex) (sent_token document) lx;
         corpus_loop fmt ex corpus lx } }"

text \<open>The files that are written, in order. A file of records holds one message.\<close>

datatype lexicon_file = TextFile string | AffixFile affix_table_entry

definition write_to :: "string \<Rightarrow> lexicon_file option \<Rightarrow> task_context \<times> (string \<times> lexicon_file) list \<Rightarrow> (task_context \<times> (string \<times> lexicon_file) list) option" where
  "write_to name contents = (\<lambda>(context, files). do {
     let (i, context) = GetInput context name;
     path \<leftarrow> InputFile (spec_input context ! i);
     file \<leftarrow> contents;
     Some (context, files @ [(path, file)]) })"

definition write_lexicon :: "lexicon \<Rightarrow> task_context \<Rightarrow> (task_context \<times> (string \<times> lexicon_file) list) option" where
  "write_lexicon lx context = do {
     st \<leftarrow> write_to ''word-map'' (map_option TextFile (Save (lx_words lx))) (context, []);
     st \<leftarrow> write_to ''lcword-map'' (map_option TextFile (Save (lx_lcwords lx))) st;
     st \<leftarrow> write_to ''tag-map'' (map_option TextFile (Save (lx_tags lx))) st;
     st \<leftarrow> write_to ''category-map'' (map_option TextFile (Save (lx_categories lx))) st;
     st \<leftarrow> write_to ''label-map'' (map_option TextFile (Save (lx_labels lx))) st;
     (context, files) \<leftarrow> write_to ''char-map'' (map_option TextFile (Save (lx_chars lx))) st;
     let (i, context) = GetInput context ''char-ngram-map'';
     st \<leftarrow> (if input_part (spec_input context ! i) \<noteq> []
       then write_to ''char-ngram-map'' (map_option TextFile (Save (lx_char_ngrams lx))) (context, files) else Some (context, files));
     st \<leftarrow> write_to ''prefix-table'' (Some (AffixFile (affix_Write (lx_prefixes lx)))) st;
     st \<leftarrow> write_to ''suffix-table'' (Some (AffixFile (affix_Write (lx_suffixes lx)))) st;
     write_to ''tag-to-category'' (Some (TextFile (TagToCategoryMap_Save (lx_tag_to_category lx)))) st }"

definition empty_lexicon :: "affix_table \<Rightarrow> affix_table \<Rightarrow> lexicon" where
  "empty_lexicon prefixes suffixes = \<lparr>lx_words = empty_tfm, lx_lcwords = empty_tfm, lx_tags = empty_tfm, lx_categories = empty_tfm, lx_labels = empty_tfm,
     lx_chars = empty_tfm, lx_char_ngrams = empty_tfm, lx_prefixes = prefixes, lx_suffixes = suffixes, lx_tag_to_category = empty_tag_map\<rparr>"

text \<open>The constructor with the attributes of the operation as arguments: the options of the specification override the attributes.\<close>

definition new_LexiconBuilder :: "task_context \<Rightarrow> int \<Rightarrow> int \<Rightarrow> bool \<Rightarrow> bool \<Rightarrow> char_ngram_string_extractor option" where
  "new_LexiconBuilder context min_length max_length add_terminators mark_boundaries =
     ng_Setup context (new_CharNgramStringExtractor\<lparr>ng_min_length := min_length, ng_max_length := max_length,
       ng_add_terminators := add_terminators, ng_mark_boundaries := mark_boundaries\<rparr>)"

definition LexiconBuilder_Compute ::
  "(string \<Rightarrow> string option) \<Rightarrow> document_format \<Rightarrow> char_ngram_string_extractor \<Rightarrow> int \<Rightarrow> int \<Rightarrow> string \<Rightarrow> task_context \<Rightarrow>
     (task_context \<times> (string \<times> lexicon_file) list) option" where
  "LexiconBuilder_Compute open_file fmt ex max_prefix_length max_suffix_length corpus_name context = do {
     prefixes \<leftarrow> new_AffixTable PREFIX max_prefix_length;
     suffixes \<leftarrow> new_AffixTable SUFFIX max_suffix_length;
     let (i, context) = GetInput context corpus_name;
     corpus \<leftarrow> new_TextReader open_file (spec_input context ! i);
     lx \<leftarrow> corpus_loop fmt ex corpus (empty_lexicon prefixes suffixes);
     write_lexicon lx context }"

section \<open>The n-grams of a word\<close>

definition ngram :: "char_ngram_string_extractor \<Rightarrow> string list \<Rightarrow> nat \<Rightarrow> nat \<Rightarrow> string" where
  "ngram ex cs start n = (if ng_mark_boundaries ex \<and> start = 0 then ''^ '' else []) @ concat (take n (drop start cs)) @
     (if ng_mark_boundaries ex \<and> start + n = length cs then '' $'' else [])"

lemma piece_string_pieces: "foreach (\<lambda>p acc. do { c \<leftarrow> piece_string (pre @ concat cs) p; Some (acc @ [c]) }) (pieces (length pre) cs) acc = Some (acc @ cs)"
proof (induction cs arbitrary: pre acc)
  case (Cons c cs)
  then show ?case using Cons.IH [of "pre @ c" "acc @ [c]"] by (simp add: piece_string_def)
qed simp

lemma utf8_strings_concat: "list_all good_char cs \<Longrightarrow> utf8_strings (concat cs) = Some cs"
  using piece_string_pieces [of "[]" cs "[]"] by (simp add: utf8_strings_def GetUTF8Chars_concat)

lemma ngrams_from_eq:
  assumes "1 \<le> ng_min_length ex" and "start + length (pre @ cs) \<le> n"
    and "\<not> (ng_mark_boundaries ex \<and> start + length pre = n)"
  shows "ngrams_from ex n (start + length pre) (int (length pre)) cs (m @ concat pre) =
    map (\<lambda>k. m @ concat (take k (pre @ cs)) @ (if ng_mark_boundaries ex \<and> start + k = n then '' $'' else []))
      [max (nat (ng_min_length ex)) (Suc (length pre))..<Suc (length pre + length (takeWhile (\<lambda>c. c \<noteq> '' '') cs))]"
  using assms(2,3)
proof (induction cs arbitrary: pre)
  case (Cons c cs)
  let ?mn = "nat (ng_min_length ex)"
  have mn: "int (length pre) + 1 \<ge> ng_min_length ex \<longleftrightarrow> ?mn \<le> Suc (length pre)" using assms(1) by linarith
  have split: "[max ?mn (Suc (length pre))..<Suc (length pre + Suc l)] =
      (if ?mn \<le> Suc (length pre) then [Suc (length pre)] else []) @ [max ?mn (Suc (Suc (length pre)))..<Suc (Suc (length pre) + l)]" for l
  proof (cases "?mn \<le> Suc (length pre)")
    case True
    then show ?thesis by (simp add: max_def upt_conv_Cons del: upt_Suc)
  next
    case False
    then have "max ?mn (Suc (length pre)) = max ?mn (Suc (Suc (length pre)))" by simp
    then show ?thesis using False by simp
  qed
  show ?case
  proof (cases "c = '' ''")
    case False
    show ?thesis
    proof (cases "ng_mark_boundaries ex \<and> start + length pre + 1 = n")
      case True
      then have "cs = []" using Cons.prems(1) by (cases cs) auto
      then show ?thesis using True False mn by (auto simp: Let_def max_def)
    next
      case nomark: False
      have "ngrams_from ex n (start + length (pre @ [c])) (int (length (pre @ [c]))) cs (m @ concat (pre @ [c])) =
          map (\<lambda>k. m @ concat (take k ((pre @ [c]) @ cs)) @ (if ng_mark_boundaries ex \<and> start + k = n then '' $'' else []))
            [max ?mn (Suc (length (pre @ [c])))..<Suc (length (pre @ [c]) + length (takeWhile (\<lambda>c. c \<noteq> '' '') cs))]"
        by (rule Cons.IH) (use Cons.prems nomark in auto)
      moreover have "ngrams_from ex n (start + length pre) (int (length pre)) (c # cs) (m @ concat pre) =
          (if ?mn \<le> Suc (length pre) then [m @ concat (pre @ [c])] else []) @
          ngrams_from ex n (start + length (pre @ [c])) (int (length (pre @ [c]))) cs (m @ concat (pre @ [c]))"
        using False nomark mn by (auto simp: Let_def ac_simps)
      moreover have "m @ concat (take (Suc (length pre)) (pre @ c # cs)) @ (if ng_mark_boundaries ex \<and> start + Suc (length pre) = n then '' $'' else []) = m @ concat (pre @ [c])"
        using nomark by auto
      ultimately show ?thesis using False split [of "length (takeWhile (\<lambda>c. c \<noteq> '' '') cs)"] by (auto simp del: upt_Suc ngrams_from.simps)
    qed
  qed simp
qed simp

lemma good_char_ascii: "0x20 \<le> ubyte b \<Longrightarrow> ubyte b < 0x7F \<Longrightarrow> good_char [b]"
proof -
  assume b: "0x20 \<le> ubyte b" "ubyte b < 0x7F"
  have "ubyte b AND 0xFFFE \<noteq> 0xFFFE"
  proof
    assume "ubyte b AND 0xFFFE = 0xFFFE"
    moreover have "ubyte b AND 0xFFFE \<le> ubyte b" using b(1) by simp
    ultimately have "0xFFFE \<le> ubyte b" by linarith
    then show False using b(2) by simp
  qed
  then have "IsInterchangeValid (ubyte b)" using b by (auto simp: IsInterchangeValid_def)
  then show ?thesis using utf8_char.one [of b] b(2) by (auto simp: good_char_def)
qed

text \<open>C21: The extractor gives exactly the n-grams of a word in UTF-8: for every start and every length between the limits, up to the end of
  the word and the next space, the characters in between, with the terminators counted as characters or with the marks of the first and the last
  character, from left to right and the shorter first.\<close>

theorem ng_Extract_complete:
  assumes "list_all good_char cs" and "1 \<le> ng_min_length ex"
    and "char_sp = (if ng_add_terminators ex then [''^''] @ cs @ [''$''] else cs)"
  shows "ng_Extract ex (concat cs) = Some (concat (map (\<lambda>start. map (ngram ex char_sp start)
    [nat (ng_min_length ex)..<Suc (length (takeWhile (\<lambda>c. c \<noteq> '' '') (take (nat (ng_max_length ex)) (drop start char_sp))))]) [0..<length char_sp]))"
proof -
  have "ngrams_at ex char_sp start = map (ngram ex char_sp start)
      [nat (ng_min_length ex)..<Suc (length (takeWhile (\<lambda>c. c \<noteq> '' '') (take (nat (ng_max_length ex)) (drop start char_sp))))]"
    if "start < length char_sp" for start
  proof -
    let ?cs = "take (nat (ng_max_length ex)) (drop start char_sp)"
    let ?l = "length (takeWhile (\<lambda>c. c \<noteq> '' '') ?cs)"
    have mx: "max (nat (ng_min_length ex)) (Suc 0) = nat (ng_min_length ex)" using assms(2) by simp
    have "take k ?cs = take k (drop start char_sp)" if "k \<le> ?l" for k
      using that order_trans [OF length_takeWhile_le [of "\<lambda>c. c \<noteq> '' ''" ?cs], of "nat (ng_max_length ex)"] by (simp add: min_absorb1)
    then show ?thesis
      using ngrams_from_eq [OF assms(2), of start "[]" ?cs "length char_sp" "if ng_mark_boundaries ex \<and> start = 0 then ''^ '' else []"] that
      by (simp add: ngrams_at_def ngram_def mx cong: map_cong del: upt_Suc)
  qed
  then show ?thesis using utf8_strings_concat [OF assms(1)] assms(3)
    by (auto simp: ng_Extract_def Let_def intro!: arg_cong [of _ _ concat] map_cong)
qed

theorem ng_Extract_complete_witness:
  "ng_Extract (new_CharNgramStringExtractor\<lparr>ng_max_length := 2, ng_mark_boundaries := True\<rparr>) ''ab c'' =
     Some [''^ a'', ''^ ab'', ''b'', ''c $'']"
proof -
  have "list_all good_char [''a'', ''b'', '' '', ''c'']" by (simp add: good_char_ascii)
  from ng_Extract_complete [OF this, of "new_CharNgramStringExtractor\<lparr>ng_max_length := 2, ng_mark_boundaries := True\<rparr>"]
  show ?thesis by (simp add: new_CharNgramStringExtractor_def ngram_def numeral_eq_Suc)
qed

section \<open>Counting a corpus\<close>

text \<open>The terms that a token contributes to each dictionary.\<close>

definition word_of :: "token \<Rightarrow> string" where
  "word_of t = NormalizeDigits (tok_word t)"

definition present :: "string \<Rightarrow> string list" where
  "present w = (if w \<noteq> [] \<and> \<not> HasSpaces w then [w] else [])"

definition nonempty :: "string \<Rightarrow> string list" where
  "nonempty w = (if w \<noteq> [] then [w] else [])"

definition char_terms :: "token \<Rightarrow> string list" where
  "char_terms t = concat (map present (the (utf8_strings (word_of t))))"

definition ngram_terms :: "char_ngram_string_extractor \<Rightarrow> token \<Rightarrow> string list" where
  "ngram_terms ex t = the (ng_Extract ex (word_of t))"

definition countable_token :: "token \<Rightarrow> bool" where
  "countable_token t \<longleftrightarrow> \<not> List.member (Lowercase (word_of t)) (CHR 0x0A) \<and> utf8_strings (word_of t) \<noteq> None"

definition counted :: "char_ngram_string_extractor \<Rightarrow> token list \<Rightarrow> lexicon \<Rightarrow> lexicon \<Rightarrow> bool" where
  "counted ex ts lx lx' \<longleftrightarrow>
     count_terms (lx_words lx) (concat (map (\<lambda>t. present (word_of t)) ts)) = Some (lx_words lx') \<and>
     count_terms (lx_lcwords lx) (concat (map (\<lambda>t. present (Lowercase (word_of t))) ts)) = Some (lx_lcwords lx') \<and>
     count_terms (lx_tags lx) (concat (map (\<lambda>t. nonempty (tok_tag t)) ts)) = Some (lx_tags lx') \<and>
     count_terms (lx_categories lx) (concat (map (\<lambda>t. nonempty (tok_category t)) ts)) = Some (lx_categories lx') \<and>
     count_terms (lx_labels lx) (concat (map (\<lambda>t. nonempty (tok_label t)) ts)) = Some (lx_labels lx') \<and>
     count_terms (lx_chars lx) (concat (map char_terms ts)) = Some (lx_chars lx') \<and>
     count_terms (lx_char_ngrams lx) (concat (map (ngram_terms ex) ts)) = Some (lx_char_ngrams lx') \<and>
     add_words (map word_of ts) (lx_prefixes lx) = Some (lx_prefixes lx') \<and> add_words (map word_of ts) (lx_suffixes lx) = Some (lx_suffixes lx') \<and>
     lx_tag_to_category lx' = foldl (\<lambda>m t. SetCategory m (tok_tag t) (tok_category t)) (lx_tag_to_category lx) ts"

lemma count_terms_append: "count_terms m (xs @ ys) = count_terms m xs \<bind> (\<lambda>m. count_terms m ys)"
  by (induction xs arbitrary: m) (auto split: bind_split)

lemma add_words_append: "add_words (xs @ ys) t = add_words xs t \<bind> (\<lambda>t. add_words ys t)"
  by (induction xs arbitrary: t) (auto split: bind_split)

lemma increment_if_count: "increment_if b t m = count_terms m (if b then [t] else [])"
  by (auto simp: increment_if_def increment_term_def)

lemma foreach_increment_if: "foreach (\<lambda>c. increment_if (P c) c) cs m = count_terms m (concat (map (\<lambda>c. if P c then [c] else []) cs))"
  by (induction cs arbitrary: m) (auto simp: increment_if_count split: bind_split)

lemma foreach_increment: "foreach increment_term ts m = count_terms m ts"
  by (induction ts arbitrary: m) (auto simp: increment_term_def split: bind_split)

lemma ng_Extract_defined: "utf8_strings w \<noteq> None \<Longrightarrow> ng_Extract ex w \<noteq> None"
  by (auto simp: ng_Extract_def Let_def)

lemma token_counted:
  assumes "countable_token t" and "counted ex [t] lx lx'"
  shows "add_token ex t lx = Some lx'"
proof -
  obtain cs ns where c: "utf8_strings (word_of t) = Some cs" "ng_Extract ex (word_of t) = Some ns"
    using assms(1) ng_Extract_defined [of "word_of t" ex] by (auto simp: countable_token_def)
  note d = assms(2) [unfolded counted_def, simplified]
  have p: "\<exists>x. AddAffixesForWord (word_of t) (lx_prefixes lx) = Some (x, lx_prefixes lx')" "\<exists>x. AddAffixesForWord (word_of t) (lx_suffixes lx) = Some (x, lx_suffixes lx')"
    using d by (auto split: bind_splits)
  have "foreach (\<lambda>c. increment_if (c \<noteq> [] \<and> \<not> HasSpaces c) c) cs (lx_chars lx) = Some (lx_chars lx')"
    using d c by (simp add: foreach_increment_if char_terms_def present_def [abs_def])
  moreover have "foreach increment_term ns (lx_char_ngrams lx) = Some (lx_char_ngrams lx')" using d c by (simp add: foreach_increment ngram_terms_def)
  ultimately show ?thesis using d c p assms(1)
    by (auto simp: add_token_def word_of_def [symmetric] increment_if_count present_def nonempty_def countable_token_def Let_def)
qed

lemma counted_append: "counted ex (xs @ ys) lx lx' \<Longrightarrow> \<exists>lx1. counted ex xs lx lx1 \<and> counted ex ys lx1 lx'"
proof -
  assume "counted ex (xs @ ys) lx lx'"
  note d = this [unfolded counted_def map_append concat_append count_terms_append add_words_append bind_eq_Some_conv foldl_append]
  obtain m1 m2 m3 m4 m5 m6 m7 p s where m:
    "count_terms (lx_words lx) (concat (map (\<lambda>t. present (word_of t)) xs)) = Some m1" "count_terms m1 (concat (map (\<lambda>t. present (word_of t)) ys)) = Some (lx_words lx')"
    "count_terms (lx_lcwords lx) (concat (map (\<lambda>t. present (Lowercase (word_of t))) xs)) = Some m2" "count_terms m2 (concat (map (\<lambda>t. present (Lowercase (word_of t))) ys)) = Some (lx_lcwords lx')"
    "count_terms (lx_tags lx) (concat (map (\<lambda>t. nonempty (tok_tag t)) xs)) = Some m3" "count_terms m3 (concat (map (\<lambda>t. nonempty (tok_tag t)) ys)) = Some (lx_tags lx')"
    "count_terms (lx_categories lx) (concat (map (\<lambda>t. nonempty (tok_category t)) xs)) = Some m4" "count_terms m4 (concat (map (\<lambda>t. nonempty (tok_category t)) ys)) = Some (lx_categories lx')"
    "count_terms (lx_labels lx) (concat (map (\<lambda>t. nonempty (tok_label t)) xs)) = Some m5" "count_terms m5 (concat (map (\<lambda>t. nonempty (tok_label t)) ys)) = Some (lx_labels lx')"
    "count_terms (lx_chars lx) (concat (map char_terms xs)) = Some m6" "count_terms m6 (concat (map char_terms ys)) = Some (lx_chars lx')"
    "count_terms (lx_char_ngrams lx) (concat (map (ngram_terms ex) xs)) = Some m7" "count_terms m7 (concat (map (ngram_terms ex) ys)) = Some (lx_char_ngrams lx')"
    "add_words (map word_of xs) (lx_prefixes lx) = Some p" "add_words (map word_of ys) p = Some (lx_prefixes lx')"
    "add_words (map word_of xs) (lx_suffixes lx) = Some s" "add_words (map word_of ys) s = Some (lx_suffixes lx')"
    using d by blast
  let ?l = "\<lparr>lx_words = m1, lx_lcwords = m2, lx_tags = m3, lx_categories = m4, lx_labels = m5, lx_chars = m6, lx_char_ngrams = m7, lx_prefixes = p, lx_suffixes = s,
    lx_tag_to_category = foldl (\<lambda>m t. SetCategory m (tok_tag t) (tok_category t)) (lx_tag_to_category lx) xs\<rparr>"
  have "counted ex xs lx ?l" "counted ex ys ?l lx'" using m d by (simp_all add: counted_def)
  then show ?thesis by blast
qed

lemma tokens_counted: "list_all countable_token ts \<Longrightarrow> counted ex ts lx lx' \<Longrightarrow> foreach (add_token ex) ts lx = Some lx'"
proof (induction ts arbitrary: lx)
  case Nil
  then show ?case by (simp add: counted_def)
next
  case (Cons t ts)
  then obtain lx1 where "counted ex [t] lx lx1" "counted ex ts lx1 lx'" using counted_append [of ex "[t]" ts lx lx'] by auto
  then show ?case using Cons token_counted by simp
qed

context corpus_format
begin

lemma corpus_counted:
  assumes "list_all good ss" and "int (length ss) < 2 ^ 31" and "reading_from fmt ss k r"
    and "list_all countable_token (concat (map sent_token (drop k ss)))" and "counted ex (concat (map sent_token (drop k ss))) lx lx'"
  shows "corpus_loop fmt ex r lx = Some lx'"
  using assms(3-)
proof (induction "length ss - k" arbitrary: k r lx)
  case 0
  then have k: "k = length ss" by (simp add: reading_from_def)
  obtain r' where "tr_Read fmt r = Some (nth_sentence (tr_filename r) ss k, r')" using read_next [OF assms(1,2) "0.prems"(1)] .
  then show ?case using "0.prems"(3) k by (subst corpus_loop.simps) (simp add: nth_sentence_def counted_def)
next
  case (Suc n)
  then have k: "k < length ss" by simp
  obtain r' where r': "tr_Read fmt r = Some (nth_sentence (tr_filename r) ss k, r')" "reading_from fmt ss (Suc k) r'"
    using read_next [OF assms(1,2) Suc.prems(1)] k by (metis Suc_leI min.absorb1)
  have ts: "concat (map sent_token (drop k ss)) = sent_token (ss ! k) @ concat (map sent_token (drop (Suc k) ss))"
    using k by (simp add: Cons_nth_drop_Suc [symmetric])
  obtain lx1 where lx1: "counted ex (sent_token (ss ! k)) lx lx1" "counted ex (concat (map sent_token (drop (Suc k) ss))) lx1 lx'"
    using counted_append Suc.prems(3) ts by metis
  have "corpus_loop fmt ex r' lx1 = Some lx'"
    using Suc.hyps(1) [of "Suc k" r' lx1] Suc.hyps(2) r'(2) Suc.prems(2) lx1(2) ts by simp
  moreover have "foreach (add_token ex) (sent_token (ss ! k)) lx = Some lx1"
    using tokens_counted [OF _ lx1(1)] Suc.prems(2) ts by simp
  ultimately show ?case using r'(1) k by (subst corpus_loop.simps) (simp add: nth_sentence_def)
qed

end

text \<open>All dictionaries of a corpus together with the numbers of terms that are counted.\<close>

definition counted_terms :: "char_ngram_string_extractor \<Rightarrow> token list \<Rightarrow> (string \<times> string list) list" where
  "counted_terms ex ts = [(''word-map'', concat (map (\<lambda>t. present (word_of t)) ts)), (''lcword-map'', concat (map (\<lambda>t. present (Lowercase (word_of t))) ts)),
     (''tag-map'', concat (map (\<lambda>t. nonempty (tok_tag t)) ts)), (''category-map'', concat (map (\<lambda>t. nonempty (tok_category t)) ts)),
     (''label-map'', concat (map (\<lambda>t. nonempty (tok_label t)) ts)), (''char-map'', concat (map char_terms ts)), (''char-ngram-map'', concat (map (ngram_terms ex) ts))]"

definition count_of :: "string list \<Rightarrow> term_frequency_map" where
  "count_of ws = the (count_terms empty_tfm ws)"

lemma count_of:
  assumes "int (length ws) < 2 ^ 31"
  shows "count_terms empty_tfm ws = Some (count_of ws)" "tfm_inv (count_of ws)" "freq_of (count_of ws) t = int (count_list ws t)"
    "dom (frequencies (count_of ws)) = set ws" "Size (count_of ws) \<le> int (length ws)"
proof -
  have e: "frequencies empty_tfm = Map.empty" by (simp add: frequencies_def empty_tfm_def)
  have "Size empty_tfm + int (length ws) < 2 ^ 31" using assms by (simp add: Size_def empty_tfm_def)
  from count_terms_spec [OF tfm_inv_empty this] obtain m where m: "count_terms empty_tfm ws = Some m" "tfm_inv m"
      "\<forall>t. freq_of m t = freq_of empty_tfm t + int (count_list ws t)" "dom (frequencies m) = dom (frequencies empty_tfm) \<union> set ws"
    by blast
  have c: "count_of ws = m" using m(1) by (simp add: count_of_def)
  show "count_terms empty_tfm ws = Some (count_of ws)" "tfm_inv (count_of ws)" "freq_of (count_of ws) t = int (count_list ws t)"
    "dom (frequencies (count_of ws)) = set ws" using m e by (simp_all add: c freq_of_def)
  have "set (map fst (term_data m)) = set ws" using m(4) e by (simp add: frequencies_def dom_map_of_conv_image_fst)
  then have "Size m = int (card (set ws))"
    using m(2) distinct_card [of "map fst (term_data m)"] by (simp add: tfm_Size tfm_inv_def)
  then show "Size (count_of ws) \<le> int (length ws)" using card_length [of ws] by (simp add: c)
qed

lemma corpus_lexicon:
  assumes "\<forall>(name, ws) \<in> set (counted_terms ex ts). int (length ws) < 2 ^ 31"
  shows "\<exists>p0 s0 p s. new_AffixTable PREFIX i = Some p0 \<and> new_AffixTable SUFFIX j = Some s0 \<and> add_words (map word_of ts) p0 = Some p \<and> add_words (map word_of ts) s0 = Some s \<and>
    counted ex ts (empty_lexicon p0 s0) \<lparr>lx_words = count_of (concat (map (\<lambda>t. present (word_of t)) ts)), lx_lcwords = count_of (concat (map (\<lambda>t. present (Lowercase (word_of t))) ts)),
      lx_tags = count_of (concat (map (\<lambda>t. nonempty (tok_tag t)) ts)), lx_categories = count_of (concat (map (\<lambda>t. nonempty (tok_category t)) ts)),
      lx_labels = count_of (concat (map (\<lambda>t. nonempty (tok_label t)) ts)), lx_chars = count_of (concat (map char_terms ts)), lx_char_ngrams = count_of (concat (map (ngram_terms ex) ts)),
      lx_prefixes = p, lx_suffixes = s, lx_tag_to_category = foldl (\<lambda>m t. SetCategory m (tok_tag t) (tok_category t)) empty_tag_map ts\<rparr>"
proof -
  obtain p0 p s0 s where "new_AffixTable PREFIX i = Some p0" "add_words (map word_of ts) p0 = Some p" "new_AffixTable SUFFIX j = Some s0" "add_words (map word_of ts) s0 = Some s"
    using built_table [of PREFIX i "map word_of ts"] built_table [of SUFFIX j "map word_of ts"] by blast
  then show ?thesis using assms count_of(1) by (auto simp: counted_def empty_lexicon_def counted_terms_def)
qed

section \<open>Writing the dictionaries\<close>

definition has_file :: "task_context \<Rightarrow> string \<Rightarrow> string \<Rightarrow> bool" where
  "has_file context name path \<longleftrightarrow> (\<exists>i. find_input (spec_input context) name = Some i \<and> InputFile (spec_input context ! i) = Some path)"

lemma write_to_file: "has_file context name path \<Longrightarrow> write_to name (Some file) (context, files) = Some (context, files @ [(path, file)])"
  by (auto simp: has_file_def write_to_def GetInput_def)

lemma saved_map:
  assumes "tfm_inv m" and "Size m \<le> 2 ^ 31 - 1" and "\<forall>d \<in> set (term_data m). savable re d"
  shows "\<exists>contents m'. Save m = Some contents \<and> Load re (Some contents) 0 0 m0 = Some m' \<and> tfm_inv m' \<and> frequencies m' = frequencies m \<and> Size m' = Size m"
proof -
  obtain contents m' where f: "Save m = Some contents" "TryLoad re (Some contents) 0 0 m0 = (LoadOK, m')" "tfm_inv m'"
    "term_data m' = filter (\<lambda>d. 0 \<le> snd d) (take (length (term_data m)) (sorted_term_data (term_data m)))"
    using Save_TryLoad [OF assms, of 0 0 m0] by auto
  have "filter (\<lambda>d. 0 \<le> snd d) (sorted_term_data (term_data m)) = sorted_term_data (term_data m)"
    using assms(3) by (auto simp: filter_id_conv savable_def)
  then have d: "term_data m' = sorted_term_data (term_data m)" using f(4) by simp
  have "distinct (map fst (term_data m))" using assms(1) by (simp add: tfm_inv_def)
  then have "frequencies m' = frequencies m" unfolding frequencies_def d
    by (intro map_of_eqI) (auto simp: distinct_sorted_term_data)
  then show ?thesis using f d by (auto simp: Load_def tfm_Size [OF f(3)] tfm_Size [OF assms(1)])
qed

lemma has_file_part: "has_file context name path \<Longrightarrow> \<exists>i. GetInput context name = (i, context) \<and> input_part (spec_input context ! i) \<noteq> []"
  by (auto simp: has_file_def GetInput_def InputFile_def check_bind_eq_Some)

lemma Save_count_of: "int (length ws) < 2 ^ 31 \<Longrightarrow> Save (count_of ws) \<noteq> None"
  using count_of(2,5) [of ws] Save_some [of "count_of ws"] by auto

definition dictionary_text :: "string list \<Rightarrow> string" where
  "dictionary_text ws = the (Save (count_of ws))"

definition lexicon_names :: "string list" where
  "lexicon_names = [''word-map'', ''lcword-map'', ''tag-map'', ''category-map'', ''label-map'', ''char-map'', ''char-ngram-map'', ''prefix-table'', ''suffix-table'', ''tag-to-category'']"

lemma dictionary_text: "int (length ws) < 2 ^ 31 \<Longrightarrow> Save (count_of ws) = Some (dictionary_text ws)"
  using Save_count_of by (simp add: dictionary_text_def)

lemma lexicon_written:
  assumes "\<forall>(name, ws) \<in> set (counted_terms ex ts). int (length ws) < 2 ^ 31" and "\<forall>name \<in> set lexicon_names. has_file context name (file_of name)"
  shows "write_lexicon \<lparr>lx_words = count_of (concat (map (\<lambda>t. present (word_of t)) ts)), lx_lcwords = count_of (concat (map (\<lambda>t. present (Lowercase (word_of t))) ts)),
      lx_tags = count_of (concat (map (\<lambda>t. nonempty (tok_tag t)) ts)), lx_categories = count_of (concat (map (\<lambda>t. nonempty (tok_category t)) ts)),
      lx_labels = count_of (concat (map (\<lambda>t. nonempty (tok_label t)) ts)), lx_chars = count_of (concat (map char_terms ts)), lx_char_ngrams = count_of (concat (map (ngram_terms ex) ts)),
      lx_prefixes = p, lx_suffixes = s, lx_tag_to_category = tc\<rparr> context =
    Some (context, map (\<lambda>(name, ws). (file_of name, TextFile (dictionary_text ws))) (counted_terms ex ts) @
      [(file_of ''prefix-table'', AffixFile (affix_Write p)), (file_of ''suffix-table'', AffixFile (affix_Write s)),
       (file_of ''tag-to-category'', TextFile (TagToCategoryMap_Save tc))])"
proof -
  have w: "write_to name (Some c) (context, fs) = Some (context, fs @ [(file_of name, c)])" if "name \<in> set lexicon_names" for name c fs
    using write_to_file assms(2) that by blast
  obtain i where "GetInput context ''char-ngram-map'' = (i, context)" "input_part (spec_input context ! i) \<noteq> []"
    using has_file_part [of "context" "''char-ngram-map''" "file_of ''char-ngram-map''"] assms(2) by (auto simp: lexicon_names_def)
  then show ?thesis using assms(1) by (simp add: write_lexicon_def counted_terms_def w lexicon_names_def dictionary_text)
qed

text \<open>A written dictionary is loaded with the number of occurrences of every term.\<close>

lemma dictionary_loaded:
  assumes "int (length ws) < 2 ^ 31" and "\<forall>w \<in> set ws. savable re (w, int (count_list ws w))"
  shows "\<exists>m. Load re (Some (dictionary_text ws)) 0 0 m0 = Some m \<and> tfm_inv m \<and> dom (frequencies m) = set ws \<and>
    (\<forall>t. freq_of m t = int (count_list ws t)) \<and> Size m \<le> int (length ws)"
proof -
  note c = count_of [OF assms(1)]
  have "savable re d" if "d \<in> set (term_data (count_of ws))" for d
  proof -
    have "frequencies (count_of ws) (fst d) = Some (snd d)"
      using c(2) that by (simp add: frequencies_def tfm_inv_def)
    then have "fst d \<in> set ws" "snd d = int (count_list ws (fst d))" using c(3) [of "fst d"] c(4) by (auto simp: freq_of_def)
    then show ?thesis using assms(2) by (metis prod.collapse)
  qed
  then obtain contents m where "Save (count_of ws) = Some contents" "Load re (Some contents) 0 0 m0 = Some m" "tfm_inv m" "frequencies m = frequencies (count_of ws)" "Size m = Size (count_of ws)"
    using saved_map [OF c(2), of re m0] c(5) assms(1) by fastforce
  then show ?thesis using c(3-5) by (auto simp: dictionary_text_def freq_of_def)
qed

lemma lexicon_run:
  assumes "list_all (conll_sentence opts) ss" and "int (length ss) < 2 ^ 31" and "matches_conll_ids full_match"
    and F: "F = conll_document_format full_match print_text opts"
    and opened: "find_input (spec_input context) corpus_name = Some i" "InputFile (spec_input context ! i) = Some filename" 
      "length (input_record_format (spec_input context ! i)) = 1" "open_file filename = Some (written_corpus F ss)"
    and ts: "ts = concat (map sent_token ss)" "list_all countable_token ts"
    and terms: "\<forall>(name, ws) \<in> set (counted_terms ex ts). int (length ws) < 2 ^ 31 \<and> (\<forall>w \<in> set ws. savable re (w, int (count_list ws w)))"
    and named: "\<forall>name \<in> set lexicon_names. has_file context name (file_of name)"
  shows "\<exists>files. LexiconBuilder_Compute open_file F ex max_prefix_length max_suffix_length corpus_name context = Some (context, files) \<and>
    map fst files = map file_of lexicon_names \<and>
    (\<forall>(name, ws) \<in> set (counted_terms ex ts). \<exists>contents m. (file_of name, TextFile contents) \<in> set files \<and>
      Load re (Some contents) 0 0 old = Some m \<and> tfm_inv m \<and> dom (frequencies m) = set ws \<and> (\<forall>t. freq_of m t = int (count_list ws t)) \<and> Size m \<le> int (length ws))"
proof -
  have n: "\<forall>(name, ws) \<in> set (counted_terms ex ts). int (length ws) < 2 ^ 31" using terms by auto
  note cf = conll_corpus_format [OF assms(3), of print_text opts, folded F]
  obtain r where r: "new_TextReader open_file (spec_input context ! i) = Some r" and rf: "reading_from F ss 0 r"
    by (rule corpus_format.new_reader [where open_file = open_file, OF cf assms(1) opened(4,3,2)])
  obtain p0 s0 lx where lx: "new_AffixTable PREFIX max_prefix_length = Some p0" "new_AffixTable SUFFIX max_suffix_length = Some s0" "counted ex ts (empty_lexicon p0 s0) lx"
    and w: "\<exists>tail. write_lexicon lx context = Some (context, map (\<lambda>(name, ws). (file_of name, TextFile (dictionary_text ws))) (counted_terms ex ts) @ tail) \<and>
      map fst tail = map file_of [''prefix-table'', ''suffix-table'', ''tag-to-category'']"
    using corpus_lexicon [OF n, of max_prefix_length max_suffix_length] lexicon_written [OF n named] by fastforce
  have "corpus_loop F ex r (empty_lexicon p0 s0) = Some lx"
    using corpus_format.corpus_counted [OF cf assms(1,2) rf] ts lx(3) by simp
  moreover obtain tail where tail: "write_lexicon lx context = Some (context, map (\<lambda>(name, ws). (file_of name, TextFile (dictionary_text ws))) (counted_terms ex ts) @ tail)"
    "map fst tail = map file_of [''prefix-table'', ''suffix-table'', ''tag-to-category'']" using w by blast
  ultimately have c: "LexiconBuilder_Compute open_file F ex max_prefix_length max_suffix_length corpus_name context =
      Some (context, map (\<lambda>(name, ws). (file_of name, TextFile (dictionary_text ws))) (counted_terms ex ts) @ tail)"
    using lx r opened(1) by (simp add: LexiconBuilder_Compute_def GetInput_def)
  have "map fst (map (\<lambda>(name, ws). (file_of name, TextFile (dictionary_text ws))) (counted_terms ex ts) @ tail) = map file_of lexicon_names"
    using tail(2) by (simp add: counted_terms_def lexicon_names_def)
  moreover have "\<exists>contents m. (file_of name, TextFile contents) \<in> set (map (\<lambda>(name, ws). (file_of name, TextFile (dictionary_text ws))) (counted_terms ex ts) @ tail) \<and>
      Load re (Some contents) 0 0 old = Some m \<and> tfm_inv m \<and> dom (frequencies m) = set ws \<and> (\<forall>t. freq_of m t = int (count_list ws t)) \<and> Size m \<le> int (length ws)"
    if "(name, ws) \<in> set (counted_terms ex ts)" for name ws
  proof -
    have "(file_of name, TextFile (dictionary_text ws)) \<in> set (map (\<lambda>(name, ws). (file_of name, TextFile (dictionary_text ws))) (counted_terms ex ts) @ tail)"
      using that by force
    moreover have "int (length ws) < 2 ^ 31" "\<forall>w \<in> set ws. savable re (w, int (count_list ws w))" using terms that by auto
    ultimately show ?thesis using dictionary_loaded [of ws re old] by blast
  qed
  ultimately show ?thesis using c by blast
qed

text \<open>C11: The dictionaries hold the counts of the corpus. When the corpus file holds written CoNLL sentences whose words have no line break and are valid
  UTF-8, fewer than \<open>2 ^ 31\<close> terms are counted for each dictionary and the specification names a file for every output, \<open>Compute\<close> returns: it reads every
  sentence, no check fails, and it writes one file for each name in order. Loading a frequency map that it wrote gives a map in which the terms are
  those that occur in the corpus, each with its number of occurrences: normalized words, lowercased words, tags, categories, labels,
  characters without blanks and character n-grams. The hypothesis on \<open>re\<close> is that \<^verbatim>\<open>(.*) (\d*)\<close> splits the written lines.\<close>

theorem lexicon_counts_corpus:
  assumes "list_all (conll_sentence opts) ss" and "int (length ss) < 2 ^ 31" and "matches_conll_ids full_match"
    and F: "F = conll_document_format full_match print_text opts"
    and opened: "find_input (spec_input context) corpus_name = Some i" "InputFile (spec_input context ! i) = Some filename" 
      "length (input_record_format (spec_input context ! i)) = 1" "open_file filename = Some (written_corpus F ss)"
    and ts: "ts = concat (map sent_token ss)" "list_all countable_token ts"
    and terms: "\<forall>(name, ws) \<in> set (counted_terms ex ts). int (length ws) < 2 ^ 31 \<and> (\<forall>w \<in> set ws. savable re (w, int (count_list ws w)))"
    and named: "\<forall>name \<in> set lexicon_names. has_file context name (file_of name)"
  shows "\<exists>files. LexiconBuilder_Compute open_file F ex max_prefix_length max_suffix_length corpus_name context = Some (context, files) \<and>
    map fst files = map file_of lexicon_names \<and>
    (\<forall>(name, ws) \<in> set (counted_terms ex ts). \<exists>contents m. (file_of name, TextFile contents) \<in> set files \<and>
      Load re (Some contents) 0 0 old = Some m \<and> tfm_inv m \<and> dom (frequencies m) = set ws \<and> (\<forall>t. freq_of m t = int (count_list ws t)))"
  using lexicon_run [where open_file = open_file and filename = filename and file_of = file_of, OF assms, of max_prefix_length max_suffix_length old] by fast

definition text_input :: "string \<Rightarrow> task_input" where
  "text_input name = (new_input name)\<lparr>input_record_format := [''conll-sentence''],
     input_part := [\<lparr>part_file_pattern = name, part_file_format = [], part_record_format = []\<rparr>]\<rparr>"

definition lexicon_context :: task_context where
  "lexicon_context = \<lparr>spec_parameter = [], spec_input = map text_input (''training-corpus'' # lexicon_names)\<rparr>"

lemma lexicon_context:
  "\<forall>name \<in> set lexicon_names. has_file lexicon_context name name" "find_input (spec_input lexicon_context) ''training-corpus'' = Some 0"
  by (auto simp: lexicon_context_def lexicon_names_def has_file_def text_input_def new_input_def InputFile_def)

theorem lexicon_counts_corpus_witness:
  "let F = conll_document_format ids_match (\<lambda>_. []) plain_conll; open_file = (\<lambda>_. Some (written_corpus F [two_words]))
   in \<exists>files. LexiconBuilder_Compute open_file F new_CharNgramStringExtractor 3 3 ''training-corpus'' lexicon_context = Some (lexicon_context, files) \<and>
     map fst files = lexicon_names \<and>
     (\<exists>contents m. (''label-map'', TextFile contents) \<in> set files \<and> Load match_last_blank (Some contents) 0 0 empty_tfm = Some m \<and> freq_of m ''det'' = 1)"
proof -
  let ?F = "conll_document_format ids_match (\<lambda>_. []) plain_conll"
  let ?ts = "concat (map sent_token [two_words])"
  have terms: "\<forall>(name, ws) \<in> set (counted_terms new_CharNgramStringExtractor ?ts). int (length ws) < 2 ^ 31 \<and> (\<forall>w \<in> set ws. savable match_last_blank (w, int (count_list ws w)))"
    by code_simp
  have ts: "list_all countable_token ?ts" by code_simp
  have inp: "InputFile (spec_input lexicon_context ! 0) = Some ''training-corpus''" "length (input_record_format (spec_input lexicon_context ! 0)) = 1"
    by (simp_all add: lexicon_context_def text_input_def InputFile_def)
  have "list_all (conll_sentence plain_conll) [two_words]" "int (length [two_words]) < 2 ^ 31" using two_words_conll by simp_all
  note c = lexicon_counts_corpus [where print_text = "\<lambda>_. []" and open_file = "\<lambda>_. Some (written_corpus ?F [two_words])" and file_of = "\<lambda>name. name"
      and max_prefix_length = 3 and max_suffix_length = 3 and old = empty_tfm, OF this ids_match refl lexicon_context(2) inp refl refl ts terms lexicon_context(1)]
  have l: "(''label-map'', [''det'']) \<in> set (counted_terms new_CharNgramStringExtractor ?ts)" by code_simp
  from c obtain files where f: "LexiconBuilder_Compute (\<lambda>_. Some (written_corpus ?F [two_words])) ?F new_CharNgramStringExtractor 3 3 ''training-corpus'' lexicon_context = Some (lexicon_context, files)"
    "map fst files = map (\<lambda>name. name) lexicon_names" and d: "\<forall>(name, ws) \<in> set (counted_terms new_CharNgramStringExtractor ?ts). \<exists>contents m. (name, TextFile contents) \<in> set files \<and>
      Load match_last_blank (Some contents) 0 0 empty_tfm = Some m \<and> tfm_inv m \<and> dom (frequencies m) = set ws \<and> (\<forall>t. freq_of m t = int (count_list ws t))"
    by (elim exE conjE)
  obtain contents m where "(''label-map'', TextFile contents) \<in> set files" "Load match_last_blank (Some contents) 0 0 empty_tfm = Some m" "freq_of m ''det'' = 1"
    using d [THEN bspec, OF l] by auto
  with f show ?thesis unfolding Let_def by (intro exI conjI) simp_all
qed

end
