(* ===== verification/Spec2Isabelle.thy ===== *)
theory Spec2Isabelle
  imports Arc_Standard_Oracle Document_Filters Shift_Transitions Tagger_Transitions
    Morpher_Transitions Head_Label_Transitions Once_Transitions Corpus_Reader
    Disjoint_Set_Forest Spanning_Tree_Iterator Char_Shift Document_Kernels
    Fml_Parser Affix_Table Mst_Machine Session_Protocol Lexicon_Builder
begin

text \<open>
  This development verifies the C++ core of SyntaxNet (\<^verbatim>\<open>src/syntaxnet\<close>) and the algorithmic parts of
  DRAGNN (\<^verbatim>\<open>src/dragnn\<close>): transition-based taggers, parsers and segmenters over annotated sentences, the
  readers and filters that feed them, the dictionaries they index features with, the beam that searches
  with them, the runtime that chains such searches, and the combinatorial library behind graph-based parsing.

  \<^bold>\<open>How the program is put together.\<close> A corpus is read as records by a text format, one sentence per record
  (\<open>Corpus_Reader\<close> over \<open>Text_Formats\<close> over \<open>Line_Reader\<close>). For training, kernels drop cyclic documents and
  make the others projective (\<open>Document_Filters\<close>, \<open>Document_Kernels\<close>). A transition system keeps a parser
  state for a sentence, says which actions are allowed and which one the annotation asks for, and performs
  actions until the state is final; then the result is written into the sentence. Labels, tags and words
  are indexed by term frequency maps, affixes by affix tables, analyses by label sets. Features are
  described in a small language. DRAGNN advances several states at a time in a beam; a component keeps one beam
  per sentence of a batch, a session chains components and translates the links between them, and a pool
  hands sessions to threads. Graph-based parsers solve for a maximum spanning tree.

  \<^bold>\<open>Conventions\<close> (\<open>SyntaxNet_Prelude\<close>). A function that can abort (a failed \<^verbatim>\<open>CHECK\<close>, \<^verbatim>\<open>LOG(FATAL)\<close>) or
  leave the defined behaviour of C++ (a vector index out of range) returns an option, \<open>None\<close> standing for
  both; a function that reports an error returns a sum or a status. A class is a record, a method a function
  from the record to the record; a virtual call takes the operation as an argument and the interface is a
  locale. A file is the string of its bytes and a vector is a list. Integers are \<^typ>\<open>int\<close>; where the code relies on
  the width the wrap-around is written out (\<open>wrap32\<close>) or words are used. \<^verbatim>\<open>DCHECK\<close> and logging are
  no-ops. Protocol buffers are records with the presence of optional fields where the code tests it.
  Regular expressions (RE2), the protocol buffer parsers and printers, the rounding of sums of scores in the beam, and
  lists loaded from a shared store are parameters; the spanning tree solver computes in its score type
  (\<open>score_type\<close>: \<^verbatim>\<open>int32\<close> wraps around, \<^verbatim>\<open>float\<close> and \<^verbatim>\<open>double\<close> round). Sizes of containers, identifiers and offsets into a text
  (among them the ids and bucket counts of affix tables and the byte offsets of CoNLL tokens) are assumed to stay in the
  range of \<^verbatim>\<open>int\<close>. Where states share an object behind a pointer that nothing modelled changes through one of them, such
  as the workspace of a component's states, each state holds a copy.

  \<^bold>\<open>Theories and the code they model.\<close>
  \<^item> \<open>Utils\<close>: \<^verbatim>\<open>utils.{h,cc}\<close>, string helpers. \<open>Utf8\<close>: \<^verbatim>\<open>third_party/utf\<close>, \<^verbatim>\<open>util/utf8\<close>, decoding, encoding and
    validity of UTF-8.
  \<^item> \<open>Line_Reader\<close>: lines of a buffered stream. \<open>Text_Formats\<close>: the CoNLL and tokenized formats of
    \<^verbatim>\<open>text_formats.cc\<close>. \<open>Corpus_Reader\<close>: \<^verbatim>\<open>TextReader\<close>, \<^verbatim>\<open>StdIn\<close>, \<^verbatim>\<open>TextWriter\<close>, \<^verbatim>\<open>SentenceBatch\<close>.
  \<^item> \<open>Sentence_Model\<close>: \<^verbatim>\<open>sentence.proto\<close>. \<open>Task_Context\<close>: \<^verbatim>\<open>task_context\<close>, \<^verbatim>\<open>task_spec.proto\<close>.
  \<^item> \<open>Term_Frequency_Map\<close>, \<open>Morphology_Label_Set\<close>, \<open>Affix_Table\<close>: the dictionaries. \<open>Lexicon_Builder\<close>:
    \<^verbatim>\<open>lexicon_builder.cc\<close>, which collects them from a corpus, and \<^verbatim>\<open>char_ngram_string_extractor\<close>. \<open>Fml_Parser\<close>:
    the feature modelling language.
  \<^item> \<open>Parser_State\<close>: \<^verbatim>\<open>parser_state\<close>. \<open>Transition_Systems\<close>: the abstract transition system of
    \<^verbatim>\<open>parser_transitions\<close> and the locales of its contracts; \<open>Sequence_Labellers\<close> and \<open>Attachment_Systems\<close> extend
    them for systems that label or attach one token per action.
  \<^item> \<open>Arc_Standard\<close>, \<open>Arc_Standard_Soundness\<close>, \<open>Arc_Standard_Oracle\<close>: \<^verbatim>\<open>arc_standard_transitions.cc\<close>.
    \<open>Shift_Transitions\<close>, \<open>Tagger_Transitions\<close>, \<open>Morpher_Transitions\<close>, \<open>Head_Transitions\<close>,
    \<open>Label_Transitions\<close>, \<open>Head_Label_Transitions\<close>, \<open>Once_Transitions\<close>, \<open>Binary_Segment\<close>, \<open>Char_Shift\<close>: the
    other transition systems; each interprets the locale of its contract. \<open>Segmenter_Utils\<close>: the
    conversion of sentences to character tokens.
  \<^item> \<open>Dependency_Trees\<close>: the vocabulary of trees (heads, descendants, projectivity), independent of the code.
  \<^item> \<open>Document_Filters\<close>, \<open>Document_Kernels\<close>: \<^verbatim>\<open>document_filters.cc\<close>.
  \<^item> \<open>Disjoint_Set_Forest\<close>, \<open>Spanning_Tree_Iterator\<close>: \<^verbatim>\<open>dragnn/mst\<close>. \<open>Mst_Solver\<close>: \<^verbatim>\<open>mst_solver.h\<close> and the kernel
    \<^verbatim>\<open>mst_op_kernels.cc\<close>, in the arithmetic of the score type. \<open>Branchings\<close>: the vocabulary of digraphs and
    branchings, independent of the code. \<open>Mst_Exact\<close>: the same algorithm in exact arithmetic, as a reference;
    \<open>Mst_Contraction\<close>, \<open>Mst_Expansion\<close>, \<open>Mst_Correctness\<close>: the two phases of the reference and its result.
    \<open>Mst_Machine\<close>: the solver agrees with the reference when the scores leave room for the root penalty.
  \<^item> \<open>Beam\<close>: \<^verbatim>\<open>dragnn/core/beam.h\<close>. \<open>Compute_Session\<close>: \<^verbatim>\<open>input_batch_cache.h\<close>, \<^verbatim>\<open>sentence_input_batch\<close>,
    \<^verbatim>\<open>index_translator\<close>, \<^verbatim>\<open>compute_session_impl\<close>, \<^verbatim>\<open>compute_session_pool\<close>, \<^verbatim>\<open>stateless_component.cc\<close>.
    \<open>Syntaxnet_Component\<close>: \<^verbatim>\<open>dragnn/components/syntaxnet\<close> and \<^verbatim>\<open>bulk_feature_extractor.h\<close>. A component is a state
    behind the record \<open>component_ops\<close> of its virtual functions; the heap of a session's components is a list.
    \<open>Component_Runs\<close> and \<open>Session_Protocol\<close> hold the contracts (locales \<open>component_oracle\<close>, \<open>component_contract\<close>,
    \<open>resettable_component\<close>) and what follows from them.

  \<^bold>\<open>What is shown.\<close>
  \<^item> The arc-standard system: runs of allowed actions never abort or get stuck and take two actions per
    token; every final state is a projective tree; the oracle reproduces every projective annotation.
  \<^item> The filters: exactly the acyclic documents pass, the projectivizer terminates with a non-crossing tree
    whose heads are ancestors in the original one. Composed with the oracle: one document comes out for
    every acyclic one that goes in, and the oracle parses it exactly.
  \<^item> The other systems: following the oracle and writing the result restores the annotation; the
    joint system agrees with the two single ones; final states are typed whatever actions are taken.
  \<^item> Round trips for the CoNLL corpus through the batch reader, saved dictionaries, affix tables,
    feature descriptions, UTF-8 texts and segmentations.
  \<^item> The lexicon builder writes dictionaries that load with the number of occurrences of every term of the corpus; with the label map it
    writes, the oracle restores every sentence of that corpus.
  \<^item> The union-find structure refines the partition it represents, with logarithmic ranks; the tree iterator
    visits every spanning tree once. The solver returns a spanning tree of maximal score, the same score that
    exhaustive enumeration finds, or fails exactly when there is none, for scores of any of the three registered types that leave
    room for the root penalty; a lemma shows what happens to \<^verbatim>\<open>int32\<close> scores that do not.
  \<^item> The beam keeps the best transitions, and its history is sound. A component that follows the oracle
    restores the annotation of a batch; bulk extraction terminates with the features of every step.
    Sessions link components exactly when the links point backwards, give access to a component
    exactly between initialisation and reset, and have different identifiers under any interleaving of threads.

  \<^bold>\<open>Loops, fuel and bounds.\<close> Loops are structural recursion over the list they traverse or
  have a termination proof. Where the code may loop or recurse for ever on malformed data (walks along
  heads, recursive descent) the model takes fuel, and the theorems show that the fuel they name is enough:
  the number of tokens for a walk along heads, two actions per token for a run, the length of the source
  for the feature language, the number of trees for the iterator. The loop of bulk extraction is a partial
  function, and that it returns is part of its theorem.

  \<^bold>\<open>Not modelled.\<close> TensorFlow and the other vendored code, except for the few functions that the code above
  calls; Python; the kernels that only marshal tensors; the feature extractors and embedding code,
  which are layers of virtual dispatch over the registry; the english-text format, a table of regular
  expressions; input and output proper. The manifest lists every part with the reason.
\<close>

section \<open>Properties that span components\<close>

lemma same_but_heads_labels:
  "same_but_heads d d' \<Longrightarrow> map tok_label (sent_token d') = map tok_label (sent_token d)"
proof -
  assume "same_but_heads d d'"
  then have "map clear_head (sent_token d) = map clear_head (sent_token d')"
    unfolding same_but_heads_def by (metis sentence.select_convs(3) sentence.surjective sentence.update_convs(3))
  then have "map tok_label (map clear_head (sent_token d)) = map tok_label (map clear_head (sent_token d'))" by simp
  then show ?thesis by (simp add: comp_def)
qed

lemma known_label:
  assumes "tfm_inv label_map" and "LookupIndex label_map l (-2) \<noteq> -2"
  shows "0 \<le> LookupIndex label_map l u"
  using tfm.lookup_known [OF assms] assms(2) by (auto simp: LookupIndex_def split: option.splits)

lemma annotated_gold:
  assumes wf: "ps_wf s" and i: "i < length (sent_token (ps_sentence s))"
    and h: "ps_head s = heads (ps_sentence s)" and l: "ps_label s = map (label_index (ps_label_map s)) (sent_token (ps_sentence s))"
    and t: "t = sent_token (ps_sentence s) ! i"
    and known: "LookupIndex (ps_label_map s) (tok_label t) (-2) \<noteq> -2" "tok_head_opt t \<noteq> Some (-1)"
  shows "annotated s False i ((clear_head t)\<lparr>tok_label := []\<rparr>) = t"
proof -
  have "LabelAsString s (label_index (ps_label_map s) t) = Some (tok_label t)"
    using LabelAsString_lookup [OF wf known(1)] ps_wfD(9) [OF wf] by (simp add: label_index_def)
  moreover have "(if tok_head t = -1 then None else Some (tok_head t)) = tok_head_opt t"
    using known(2) by (auto simp: tok_head_def split: option.splits)
  ultimately show ?thesis using i h l t
    by (auto simp: annotated_def heads_def Let_def clear_head_def intro!: token.equality)
qed

definition erase_annotation :: "sentence \<Rightarrow> sentence" where
  "erase_annotation sentence = sentence\<lparr>sent_token := map (\<lambda>t. (clear_head t)\<lparr>tok_label := []\<rparr>) (sent_token sentence)\<rparr>"

lemma final_reannotates:
  assumes inv: "arc_inv s" and gold: "ps_head s = heads (ps_sentence s)" "ps_label s = map (label_index (ps_label_map s)) (sent_token (ps_sentence s))"
    and known: "\<forall>t \<in> set (sent_token (ps_sentence s)). LookupIndex (ps_label_map s) (tok_label t) (-2) \<noteq> -2 \<and> tok_head_opt t \<noteq> Some (-1)"
  shows "AddParseToDocument arc_AddParseToDocument s (erase_annotation (ps_sentence s)) False = Some (ps_sentence s)"
proof -
  note wf = arc_invD(1) [OF inv]
  let ?erase = "\<lambda>t. (clear_head t)\<lparr>tok_label := []\<rparr>" and ?ts = "sent_token (ps_sentence s)"
  have "ps_transition_state s \<noteq> None" using inv by (simp add: arc_inv_def)
  from arc_add_parse_eq [OF wf this, of "erase_annotation (ps_sentence s)" False]
  have "AddParseToDocument arc_AddParseToDocument s (erase_annotation (ps_sentence s)) False =
      Some ((erase_annotation (ps_sentence s))\<lparr>sent_token := map (\<lambda>i. annotated s False i (map ?erase ?ts ! i)) [0..<length ?ts]\<rparr>)"
    by (simp add: erase_annotation_def)
  moreover have "map (\<lambda>i. annotated s False i (map ?erase ?ts ! i)) [0..<length ?ts] = map (\<lambda>i. ?ts ! i) [0..<length ?ts]"
    using annotated_gold [OF wf] gold known by (intro map_cong) auto
  ultimately show ?thesis by (simp add: erase_annotation_def map_nth)
qed

text \<open>
  Re-annotation. Parsing a projectively annotated sentence with the oracle and writing the
  result into a copy of the sentence whose heads and labels were erased reproduces the
  annotated sentence, token by token.
\<close>

theorem oracle_reannotates:
  assumes "tfm_inv label_map" and "Size label_map < 2 ^ 30"
    and "well_ranged (heads sentence)" and "rooted (heads sentence)" and "noncrossing (heads sentence)"
    and "\<forall>t \<in> set (sent_token sentence). LookupIndex label_map (tok_label t) (-2) \<noteq> -2 \<and> tok_head_opt t \<noteq> Some (-1)"
  shows "\<exists>s0 s. new_arc_state sentence label_map = Some s0 \<and>
    drive (\<lambda>s. Some (arc_IsFinalState s)) (PerformAction arc_PerformActionWithoutHistory)
      arc_GetNextGoldAction (2 * length (sent_token sentence)) s0 = Some s \<and>
    AddParseToDocument arc_AddParseToDocument s
      (sentence\<lparr>sent_token := map (\<lambda>t. (clear_head t)\<lparr>tok_label := []\<rparr>) (sent_token sentence)\<rparr>) False = Some sentence"
proof -
  have g: "\<forall>t \<in> set (sent_token sentence). 0 \<le> label_index label_map t"
    using known_label [OF assms(1)] assms(6) by (simp add: label_index_def)
  obtain s0 acts s where r: "new_arc_state sentence label_map = Some s0"
    "drive (\<lambda>s. Some (arc_IsFinalState s)) (PerformAction arc_PerformActionWithoutHistory)
      arc_GetNextGoldAction (2 * length (sent_token sentence)) s0 = Some s"
    "allowed_run (\<lambda>a s. Some (arc_IsAllowedAction a s)) (PerformAction arc_PerformActionWithoutHistory) s0 acts s"
    "ps_head s = heads sentence" "ps_label s = map (label_index label_map) (sent_token sentence)"
    using arc_oracle_run [OF assms(1-5) g] by auto
  have s0: "arc_inv s0" "ps_sentence s0 = sentence" "ps_label_map s0 = label_map"
    using new_arc_state_inv [OF assms(1), of sentence] r(1) by auto
  have s: "arc_inv s" "ps_sentence s = sentence" "ps_label_map s = label_map"
    using arc.ts.run_steps [OF r(3) s0(1)] arc.recorded_run [OF r(3) s0(1)] s0 by auto
  show ?thesis using final_reannotates [OF s(1)] s r(1,2,4,5) assms(6) by (auto simp: erase_annotation_def)
qed

theorem oracle_reannotates_witness:
  "\<exists>s0 s. new_arc_state gold_three label_three = Some s0 \<and>
    drive (\<lambda>s. Some (arc_IsFinalState s)) (PerformAction arc_PerformActionWithoutHistory)
      arc_GetNextGoldAction (2 * length (sent_token gold_three)) s0 = Some s \<and>
    AddParseToDocument arc_AddParseToDocument s
      (gold_three\<lparr>sent_token := map (\<lambda>t. (clear_head t)\<lparr>tok_label := []\<rparr>) (sent_token gold_three)\<rparr>) False = Some gold_three"
proof (rule oracle_reannotates [OF label_three_inv])
  show "Size label_three < 2 ^ 30" "well_ranged (heads gold_three)" "rooted (heads gold_three)"
    "noncrossing (heads gold_three)"
    "\<forall>t \<in> set (sent_token gold_three). LookupIndex label_three (tok_label t) (-2) \<noteq> -2 \<and> tok_head_opt t \<noteq> Some (-1)"
    by code_simp+
qed

lemma projectivized_lifts:
  assumes "well_ranged (heads d)" and "rooted (heads d)"
  shows "below (heads d) (head_at (heads (projectivized d)) x) x" and "noncrossing (heads d) \<Longrightarrow> projectivized d = d"
proof -
  obtain d' where d': "Process False d = Some (True, d')" "\<forall>a x. below (heads d') a x \<longrightarrow> below (heads d) a x"
    using Process_lifts [OF assms] by blast
  then have "projectivized d = d'" by (simp add: projectivized_def)
  then show "below (heads d) (head_at (heads (projectivized d)) x) x" using d'(2) below_head by blast
  show "projectivized d = d" if "noncrossing (heads d)" using Process_step(1) [OF assms that, of False] by (simp add: projectivized_def)
qed

lemma projectivized_parsed:
  assumes "well_ranged (heads d)" and "rooted (heads d)" and "tfm_inv label_map" and "Size label_map < 2 ^ 30"
    and "\<forall>t \<in> set (sent_token d). 0 \<le> label_index label_map t"
  shows "\<exists>s0 s. new_arc_state (projectivized d) label_map = Some s0 \<and>
      drive (\<lambda>s. Some (arc_IsFinalState s)) (PerformAction arc_PerformActionWithoutHistory)
        arc_GetNextGoldAction (2 * length (sent_token d)) s0 = Some s \<and>
      ps_head s = heads (projectivized d) \<and> ps_label s = map (label_index label_map) (sent_token d)"
proof -
  note p = projectivized_tree [OF assms(1,2)]
  have labels: "map tok_label (sent_token (projectivized d)) = map tok_label (sent_token d)"
    using same_but_heads_labels [OF p(4)] by simp
  have index: "map (label_index label_map) (sent_token e) =
      map (\<lambda>l. LookupIndex label_map l (LookupIndex label_map kRootLabel kDefaultRootLabel)) (map tok_label (sent_token e))" for e :: sentence
    by (simp add: label_index_def)
  have l: "map (label_index label_map) (sent_token (projectivized d)) = map (label_index label_map) (sent_token d)"
    unfolding index labels ..
  have "\<forall>i \<in> set (map (label_index label_map) (sent_token (projectivized d))). 0 \<le> i" unfolding l using assms(5) by simp
  then have "\<forall>t \<in> set (sent_token (projectivized d)). 0 \<le> label_index label_map t" by simp
  moreover have "length (sent_token (projectivized d)) = length (sent_token d)" using arg_cong [OF labels, of length] by simp
  ultimately show ?thesis using arc_oracle_run [OF assms(3,4) p(1-3)] l by metis
qed

text \<open>
  C4: The training pipeline. A batch of documents that passes through the well-formedness filter and
  the projectivization filter loses exactly its cyclic documents: the first filter puts out the acyclic ones
  in order, and the second one document for each of them, with the same words, labels and all other fields,
  in which no two arcs cross, every head is an ancestor of its token in the original tree,
  and nothing is changed when no arcs crossed before. The arc-standard oracle parses each
  of the documents that come out, without abort and in two actions per token, to the
  heads of the projectivized document and the labels of the original one. The hypothesis on
  \<open>parse\<close> and \<open>serialize\<close> is that a serialised message is parsed back.
\<close>

theorem training_pipeline:
  assumes "map parse ds = map Some docs" and "\<forall>d \<in> set docs. well_ranged (heads d)"
    and "\<forall>d \<in> set docs. rooted (heads d) \<longrightarrow> parse (serialize d) = Some d \<and>
           parse (serialize (projectivized d)) = Some (projectivized d)"
    and "tfm_inv label_map" and "Size label_map < 2 ^ 30"
    and "\<forall>d \<in> set docs. \<forall>t \<in> set (sent_token d). 0 \<le> label_index label_map t"
  shows "\<exists>mid outs. WellFormedFilter_Compute parse serialize False ds = Some (Inr mid) \<and>
    map parse mid = map Some (filter (\<lambda>d. rooted (heads d)) docs) \<and>
    ProjectivizeFilter_Compute parse serialize False mid = Some (Inr outs) \<and>
    list_all2 (\<lambda>d out. \<exists>p s0 s. parse out = Some p \<and> same_but_heads d p \<and> rooted (heads p) \<and> noncrossing (heads p) \<and>
        (\<forall>x. below (heads d) (head_at (heads p) x) x) \<and> (noncrossing (heads d) \<longrightarrow> p = d) \<and>
        new_arc_state p label_map = Some s0 \<and>
        drive (\<lambda>s. Some (arc_IsFinalState s)) (PerformAction arc_PerformActionWithoutHistory)
          arc_GetNextGoldAction (2 * length (sent_token d)) s0 = Some s \<and>
        ps_head s = heads p \<and> ps_label s = map (label_index label_map) (sent_token d))
      (filter (\<lambda>d. rooted (heads d)) docs) outs"
proof -
  let ?good = "filter (\<lambda>d. rooted (heads d)) docs"
  have a: "WellFormedFilter_Compute parse serialize False ds = Some (Inr (map serialize ?good))"
    using WellFormedFilter_batch [OF assms(1,2), of serialize False] by simp
  have b: "ProjectivizeFilter_Compute parse serialize False (map serialize ?good) =
      Some (Inr (map (\<lambda>d. serialize (projectivized d)) ?good))"
    using assms(2,3) by (intro ProjectivizeFilter_batch) auto
  have "map parse (map serialize ?good) = map Some ?good" using assms(3) by auto
  moreover have "\<exists>p s0 s. parse (serialize (projectivized d)) = Some p \<and> same_but_heads d p \<and> rooted (heads p) \<and> noncrossing (heads p) \<and>
        (\<forall>x. below (heads d) (head_at (heads p) x) x) \<and> (noncrossing (heads d) \<longrightarrow> p = d) \<and>
        new_arc_state p label_map = Some s0 \<and>
        drive (\<lambda>s. Some (arc_IsFinalState s)) (PerformAction arc_PerformActionWithoutHistory)
          arc_GetNextGoldAction (2 * length (sent_token d)) s0 = Some s \<and>
        ps_head s = heads p \<and> ps_label s = map (label_index label_map) (sent_token d)" if "d \<in> set ?good" for d
  proof -
    have t: "well_ranged (heads d)" "rooted (heads d)" "parse (serialize (projectivized d)) = Some (projectivized d)"
      "\<forall>t \<in> set (sent_token d). 0 \<le> label_index label_map t" using that assms(2,3,6) by auto
    from projectivized_parsed [OF t(1,2) assms(4,5) t(4)] t(3) projectivized_tree [OF t(1,2)] projectivized_lifts [OF t(1,2)]
    show ?thesis by blast
  qed
  ultimately show ?thesis using a b
    by (intro exI [of _ "map serialize ?good"] exI [of _ "map (\<lambda>d. serialize (projectivized d)) ?good"] conjI)
       (simp_all add: list_all2_map2 list_all2_same del: map_map)
qed

text \<open>A wire format for documents that consist of heads only, for the instance below.\<close>

definition heads_doc :: "int list \<Rightarrow> sentence" where
  "heads_doc hs = \<lparr>sent_docid = [], sent_text = [], sent_token = map (\<lambda>h. set_head h default_token) hs\<rparr>"

definition write_heads :: "sentence \<Rightarrow> string" where
  "write_heads d = map (\<lambda>h. char_of (nat (h + 1))) (heads d)"

definition read_heads :: "string \<Rightarrow> sentence option" where
  "read_heads w = Some (heads_doc (map (\<lambda>c. int (of_char c) - 1) w))"

theorem training_pipeline_witness:
  "\<exists>mid out p s0 s.
    WellFormedFilter_Compute read_heads write_heads False (map write_heads [heads_doc [1, 0], crossing_doc]) = Some (Inr mid) \<and>
    map read_heads mid = [Some crossing_doc] \<and>
    ProjectivizeFilter_Compute read_heads write_heads False mid = Some (Inr [out]) \<and>
    read_heads out = Some p \<and> same_but_heads crossing_doc p \<and> noncrossing (heads p) \<and> new_arc_state p label_three = Some s0 \<and>
    drive (\<lambda>s. Some (arc_IsFinalState s)) (PerformAction arc_PerformActionWithoutHistory)
      arc_GetNextGoldAction (2 * length (sent_token crossing_doc)) s0 = Some s \<and>
    ps_head s = heads p \<and> ps_label s = map (label_index label_three) (sent_token crossing_doc)"
proof -
  let ?docs = "[heads_doc [1, 0], crossing_doc]"
  have h: "map read_heads (map write_heads ?docs) = map Some ?docs" "\<forall>d \<in> set ?docs. well_ranged (heads d)"
    "\<forall>d \<in> set ?docs. rooted (heads d) \<longrightarrow> read_heads (write_heads d) = Some d \<and>
       read_heads (write_heads (projectivized d)) = Some (projectivized d)"
    by code_simp+
  have l: "Size label_three < 2 ^ 30" "\<forall>d \<in> set ?docs. \<forall>t \<in> set (sent_token d). 0 \<le> label_index label_three t"
    by code_simp+
  have f: "filter (\<lambda>d. rooted (heads d)) ?docs = [crossing_doc]" by code_simp
  show ?thesis
    using training_pipeline [OF h label_three_inv l] unfolding f list_all2_Cons1 list_all2_Nil
    by (simp only: list.map) (elim exE conjE, hypsubst, intro exI conjI, assumption+)
qed

lemma finished_state:
  assumes "tfm_inv label_map" and "Size label_map < 2 ^ 30" and "trainable label_map sentence"
    and "\<forall>t \<in> set (sent_token sentence). LookupIndex label_map (tok_label t) (-2) \<noteq> -2 \<and> tok_head_opt t \<noteq> Some (-1)"
    and "new_arc_state sentence label_map = Some (sn_parser_state (item_state x))" and "stepped arc_inv arc_gold arc_steps_left k x y"
    and "arc_steps_left (sn_parser_state (item_state y)) = 0"
  shows "AddParseToDocument arc_AddParseToDocument (sn_parser_state (item_state y)) (erase_annotation sentence) False = Some sentence"
proof -
  let ?s = "sn_parser_state (item_state y)"
  have s: "arc_inv ?s" "arc_gold ?s" "ps_sentence ?s = sentence" "ps_label_map ?s = label_map"
    using assms(5,6) arc_start [OF assms(1-3)] by (auto simp: stepped_def on_path_def same_sentence_def)
  have "arc_IsFinalState ?s" using assms(7) arc.p_final [OF s(1)] by simp
  from final_reannotates [OF s(1) arc_gold_final [OF s(1,2) this]] show ?thesis using s(3,4) assms(4) by simp
qed

text \<open>
  C9: Training data through a component. A batch of projectively annotated sentences is given to a component that runs the
  arc-standard system with any beam size, whether the component is new or has been used before; then the oracle is followed for twice as many steps as the
  longest sentence has tokens. The component is then terminal and not before, and finalising it writes the annotation of every sentence:
  applied to the batch with all heads and labels erased it restores the sentences. No step aborts. The hypothesis on the extractors is that
  preprocessing changes only the workspace.
\<close>

theorem component_follows_oracle:
  assumes "tfm_inv (snc_label_map c)" and "Size (snc_label_map c) < 2 ^ 30" and "\<not> snc_do_tracing c" and "beams_sized c" and "0 < m"
    and "\<not> snc_rewrite_root_labels c" and "ibc_GetAs cls cache = Some (data, cache')" and "\<forall>d \<in> set data. trainable (snc_label_map c) (ss_sentence d)"
    and "\<forall>d \<in> set data. \<forall>t \<in> set (sent_token (ss_sentence d)). LookupIndex (snc_label_map c) (tok_label t) (-2) \<noteq> -2 \<and> tok_head_opt t \<noteq> Some (-1)"
    and "\<forall>w s. \<exists>w'. fx_Preprocess fx w s = Some (w', s)"
  shows "\<exists>c1 cache1 data1 c2. snc_InitializeData cls arc_transition_ops fx ([] :: unit beam_item list list) m c cache = Some (c1, cache1) \<and>
    ibc_converted_data cache1 = Some (cls, data1) \<and> map ss_sentence data1 = map ss_sentence data \<and>
    oracle_steps arc_transition_ops (oracle_length data) c1 = Some c2 \<and>
    (\<forall>k \<le> oracle_length data. \<exists>c'. oracle_steps arc_transition_ops k c1 = Some c' \<and> (snc_IsTerminal arc_transition_ops c' \<longleftrightarrow> k = oracle_length data)) \<and>
    snc_FinalizeData cls arc_transition_ops c2 (cache1\<lparr>ibc_converted_data := Some (cls, map (\<lambda>d. d\<lparr>ss_sentence := erase_annotation (ss_sentence d)\<rparr>) data1)\<rparr>) =
      Some (c2, cache1)"
proof -
  obtain c1 batch data1 where c1_def: "c1 = c\<lparr>snc_input_data := True, snc_max_beam_size := m, snc_batch := batch\<rparr>"
    and i: "snc_InitializeData cls arc_transition_ops fx ([] :: unit beam_item list list) m c cache = Some (c1, cache'\<lparr>ibc_converted_data := Some (cls, data1)\<rparr>)"
      "length batch = length data" "map ss_sentence data1 = map ss_sentence data"
      "\<forall>i < length data. seeded arc_transition_ops (snc_label_map c) data m i (batch ! i)"
    and path: "batch_on_path arc_inv arc_gold c1" and left: "remaining arc_steps_left (snc_batch c1) = oracle_length data"
    using arc_started [OF assms(1-5,7,8,10)] by auto
  note run = arc_component.terminal_exactly [OF path, unfolded left]
  obtain bs where bs: "oracle_steps arc_transition_ops (oracle_length data) c1 = Some (c1\<lparr>snc_batch := bs\<rparr>)"
    "list_all2 (beam_stepped arc_inv arc_gold arc_steps_left (oracle_length data)) (snc_batch c1) bs"
    using arc_component.component_steps [OF path] by blast
  define c2 where "c2 = c1\<lparr>snc_batch := bs\<rparr>"
  have tm: "snc_IsTerminal arc_transition_ops c2" using run [of "oracle_length data"] bs(1) by (simp add: c2_def)
  have len: "length data1 = length data" "length (snc_batch c2) = length data"
    using i(2,3) list_all2_lengthD [OF bs(2)] by (auto simp: c2_def c1_def dest: map_eq_imp_length_eq)
  have sent: "ss_sentence (data1 ! j) = ss_sentence (data ! j)" if "j < length data" for j
    using i(3) that len(1) by (metis nth_map)
  have fin: "\<exists>y. bm_beam (snc_batch c2 ! j) = [y] \<and> sn_sentence (item_state y) = j \<and>
      AddParseToDocument (to_AddParseToDocument arc_transition_ops) (sn_parser_state (item_state y))
        (erase_annotation (ss_sentence (data ! j))) (snc_rewrite_root_labels c2) = Some (ss_sentence (data ! j))" if j: "j < length data" for j
  proof -
    obtain x where x: "bm_beam (snc_batch c1 ! j) = [x]" "sn_sentence (item_state x) = j"
      "new_arc_state (ss_sentence (data ! j)) (snc_label_map c) = Some (sn_parser_state (item_state x))"
      using i(4) j by (auto simp: seeded_def c1_def arc_transition_ops_def)
    obtain y where y: "bm_beam (snc_batch c2 ! j) = [y]" "stepped arc_inv arc_gold arc_steps_left (oracle_length data) x y"
      using stepped_item [OF bs(2) _ x(1)] j i(2) by (auto simp: c1_def c2_def)
    have "snc_batch c2 ! j \<in> set (snc_batch c2)" using j len(2) by simp
    then have "arc_steps_left (sn_parser_state (item_state y)) = 0"
      using tm y(1) arc_component.terminal_iff [OF batch_on_path_stepped [OF path bs(2)]] by (fastforce simp: c2_def)
    from finished_state [OF assms(1,2) _ _ x(3) y(2) this] assms(8,9) nth_mem [OF j]
    have "AddParseToDocument arc_AddParseToDocument (sn_parser_state (item_state y)) (erase_annotation (ss_sentence (data ! j))) False = Some (ss_sentence (data ! j))"
      by blast
    then show ?thesis using y x(2) assms(6) by (simp add: arc_transition_ops_def c2_def c1_def stepped_def same_sentence_def)
  qed
  let ?erased = "map (\<lambda>d. d\<lparr>ss_sentence := erase_annotation (ss_sentence d)\<rparr>) data1"
  have "map (\<lambda>j. (?erased ! j)\<lparr>ss_sentence := ss_sentence (data ! j)\<rparr>) [0..<length data] = data1"
    by (rule nth_equalityI) (use len(1) sent in auto)
  then have "snc_FinalizeData cls arc_transition_ops c2 (cache'\<lparr>ibc_converted_data := Some (cls, ?erased)\<rparr>) = Some (c2, cache'\<lparr>ibc_converted_data := Some (cls, data1)\<rparr>)"
    using FinalizeData_writes [of "cache'\<lparr>ibc_converted_data := Some (cls, ?erased)\<rparr>" cls ?erased c2 arc_transition_ops "\<lambda>j. ss_sentence (data ! j)" cls] fin len sent
    by simp
  then show ?thesis using i(1,3) run bs(1) by (auto simp: c1_def c2_def)
qed

theorem component_follows_oracle_witness:
  "\<exists>c1 cache1 data1 c2. snc_InitializeData demo_class arc_transition_ops demo_features ([] :: unit beam_item list list) 2 demo_component
      (InputBatchCache_string ''x'') = Some (c1, cache1) \<and>
    ibc_converted_data cache1 = Some (demo_class, data1) \<and> map ss_sentence data1 = [gold_three] \<and>
    oracle_steps arc_transition_ops 6 c1 = Some c2 \<and> snc_IsTerminal arc_transition_ops c2 \<and>
    snc_FinalizeData demo_class arc_transition_ops c2
      (cache1\<lparr>ibc_converted_data := Some (demo_class, map (\<lambda>d. d\<lparr>ss_sentence := erase_annotation (ss_sentence d)\<rparr>) data1)\<rparr>) = Some (c2, cache1)"
proof -
  have rw: "\<not> snc_rewrite_root_labels demo_component" by (simp add: demo_component_def new_SyntaxNetComponent_def)
  have "\<forall>t \<in> set (sent_token gold_three). LookupIndex label_three (tok_label t) (-2) \<noteq> -2 \<and> tok_head_opt t \<noteq> Some (-1)" by code_simp
  then have "\<forall>d \<in> set demo_data. \<forall>t \<in> set (sent_token (ss_sentence d)).
      LookupIndex (snc_label_map demo_component) (tok_label t) (-2) \<noteq> -2 \<and> tok_head_opt t \<noteq> Some (-1)"
    by (simp add: demo_data_def demo_component_def new_SyntaxNetComponent_def)
  from component_follows_oracle [OF demo_ok(1-4) _ rw demo_cache demo_ok(5) this demo_ok(6), of 2]
  show ?thesis unfolding demo_ok(7) by (force simp: demo_data_def)
qed

lemma loaded_label:
  assumes "tfm_inv m" and "dom (frequencies m) = set ws" and "l \<in> set ws"
  shows "LookupIndex m l (-2) \<noteq> -2"
proof -
  have "l \<in> fst ` set (term_data m)" using assms(2,3) by (simp add: frequencies_def dom_map_of_conv_image_fst)
  then have "map_of (term_index m) l \<noteq> None" using tfm_index_None [OF assms(1)] by simp
  then obtain i where "map_of (term_index m) l = Some i" by auto
  moreover have "0 \<le> i" using assms(1) calculation by (auto simp: tfm_inv_def dest!: map_of_SomeD set_zip_rightD)
  ultimately show ?thesis by (simp add: LookupIndex_def)
qed

text \<open>
  C10: From the corpus file to the parser. When the lexicon builder has run over a corpus of projectively annotated sentences in which
  every token has a label, the file it wrote for the labels is loaded as a label map with which the arc-standard oracle, run on any sentence
  of the corpus, restores its heads and labels from a copy without annotation.
\<close>

theorem lexicon_trains_parser:
  assumes "list_all (conll_sentence opts) ss" and "int (length ss) < 2 ^ 31" and "matches_conll_ids full_match"
    and "F = conll_document_format full_match print_text opts"
    and "find_input (spec_input context) corpus_name = Some i" and "InputFile (spec_input context ! i) = Some filename"
    and "length (input_record_format (spec_input context ! i)) = 1" and "open_file filename = Some (written_corpus F ss)"
    and "ts = concat (map sent_token ss)" and "list_all countable_token ts"
    and "\<forall>(name, ws) \<in> set (counted_terms ex ts). int (length ws) < 2 ^ 31 \<and> (\<forall>w \<in> set ws. savable re (w, int (count_list ws w)))"
    and "\<forall>name \<in> set lexicon_names. has_file context name (file_of name)"
    and few: "int (length ts) < 2 ^ 30" and labelled: "\<forall>t \<in> set ts. tok_label t \<noteq> [] \<and> tok_head_opt t \<noteq> Some (-1)"
    and trees: "\<forall>s \<in> set ss. well_ranged (heads s) \<and> rooted (heads s) \<and> noncrossing (heads s)"
  shows "\<exists>files contents label_map. LexiconBuilder_Compute open_file F ex max_prefix_length max_suffix_length corpus_name context = Some (context, files) \<and>
    (file_of ''label-map'', TextFile contents) \<in> set files \<and> Load re (Some contents) 0 0 empty_tfm = Some label_map \<and>
    (\<forall>sentence \<in> set ss. \<exists>s0 s. new_arc_state sentence label_map = Some s0 \<and>
      drive (\<lambda>s. Some (arc_IsFinalState s)) (PerformAction arc_PerformActionWithoutHistory)
        arc_GetNextGoldAction (2 * length (sent_token sentence)) s0 = Some s \<and>
      AddParseToDocument arc_AddParseToDocument s (erase_annotation sentence) False = Some sentence)"
proof -
  let ?ws = "map tok_label ts"
  have "concat (map (\<lambda>t. nonempty (tok_label t)) ts) = ?ws" using labelled by (induction ts) (auto simp: nonempty_def)
  then have l: "(''label-map'', ?ws) \<in> set (counted_terms ex ts)" by (simp add: counted_terms_def)
  obtain files contents m where f: "LexiconBuilder_Compute open_file F ex max_prefix_length max_suffix_length corpus_name context = Some (context, files)"
    "(file_of ''label-map'', TextFile contents) \<in> set files" "Load re (Some contents) 0 0 empty_tfm = Some m"
    and m: "tfm_inv m" "dom (frequencies m) = set ?ws" "Size m \<le> int (length ?ws)"
    using lexicon_run [where open_file = open_file and filename = filename and file_of = file_of, OF assms(1-12), of max_prefix_length max_suffix_length empty_tfm] l
    by fastforce
  have "\<exists>s0 s. new_arc_state sentence m = Some s0 \<and>
      drive (\<lambda>s. Some (arc_IsFinalState s)) (PerformAction arc_PerformActionWithoutHistory)
        arc_GetNextGoldAction (2 * length (sent_token sentence)) s0 = Some s \<and>
      AddParseToDocument arc_AddParseToDocument s (erase_annotation sentence) False = Some sentence" if "sentence \<in> set ss" for sentence
  proof -
    have ts: "set (sent_token sentence) \<subseteq> set ts" using that assms(9) by auto
    then have "\<forall>t \<in> set (sent_token sentence). LookupIndex m (tok_label t) (-2) \<noteq> -2 \<and> tok_head_opt t \<noteq> Some (-1)"
      using loaded_label [OF m(1,2)] labelled by auto
    moreover have "Size m < 2 ^ 30" using m(3) few by simp
    ultimately show ?thesis using oracle_reannotates [OF m(1)] trees that unfolding erase_annotation_def by blast
  qed
  with f show ?thesis by blast
qed

definition parsed_words :: sentence where
  "parsed_words = \<lparr>sent_docid = ''d'', sent_text = ''a dog'', sent_token =
     [default_token\<lparr>tok_word := ''a'', tok_head_opt := Some 1, tok_label := ''det''\<rparr>,
      default_token\<lparr>tok_word := ''dog'', tok_start := 2, tok_end := 4, tok_tag := ''NN'', tok_label := ''ROOT''\<rparr>]\<rparr>"

theorem lexicon_trains_parser_witness:
  "let F = conll_document_format ids_match (\<lambda>_. []) plain_conll; open_file = (\<lambda>_. Some (written_corpus F [parsed_words]))
   in \<exists>files contents label_map s0 s. LexiconBuilder_Compute open_file F new_CharNgramStringExtractor 3 3 ''training-corpus'' lexicon_context = Some (lexicon_context, files) \<and>
     (''label-map'', TextFile contents) \<in> set files \<and> Load match_last_blank (Some contents) 0 0 empty_tfm = Some label_map \<and>
     new_arc_state parsed_words label_map = Some s0 \<and>
     drive (\<lambda>s. Some (arc_IsFinalState s)) (PerformAction arc_PerformActionWithoutHistory) arc_GetNextGoldAction 4 s0 = Some s \<and>
     AddParseToDocument arc_AddParseToDocument s (erase_annotation parsed_words) False = Some parsed_words"
proof -
  let ?F = "conll_document_format ids_match (\<lambda>_. []) plain_conll"
  let ?ts = "concat (map sent_token [parsed_words])"
  have c: "list_all (conll_sentence plain_conll) [parsed_words]" "int (length [parsed_words]) < 2 ^ 31"
    by (simp_all add: conll_sentence_def parsed_words_def plain_conll_def options_ok_def token_ok_def conll_out_def default_token_def
      attribute_ok_def next_text_def tok_head_def)
  have terms: "list_all countable_token ?ts"
    "\<forall>(name, ws) \<in> set (counted_terms new_CharNgramStringExtractor ?ts). int (length ws) < 2 ^ 31 \<and> (\<forall>w \<in> set ws. savable match_last_blank (w, int (count_list ws w)))"
    by code_simp+
  have inp: "InputFile (spec_input lexicon_context ! 0) = Some ''training-corpus''" "length (input_record_format (spec_input lexicon_context ! 0)) = 1"
    by (simp_all add: lexicon_context_def text_input_def InputFile_def)
  have trees: "int (length ?ts) < 2 ^ 30" "\<forall>t \<in> set ?ts. tok_label t \<noteq> [] \<and> tok_head_opt t \<noteq> Some (-1)"
    "\<forall>s \<in> set [parsed_words]. well_ranged (heads s) \<and> rooted (heads s) \<and> noncrossing (heads s)"
    by code_simp+
  note run = lexicon_trains_parser [where print_text = "\<lambda>_. []" and open_file = "\<lambda>_. Some (written_corpus ?F [parsed_words])" and file_of = "\<lambda>name. name"
      and max_prefix_length = 3 and max_suffix_length = 3, OF c ids_match refl lexicon_context(2) inp refl refl terms lexicon_context(1) trees]
  have n: "2 * length (sent_token parsed_words) = 4" by (simp add: parsed_words_def)
  from run [unfolded list.set ball_simps simp_thms n] show ?thesis unfolding Let_def by (elim exE conjE) (intro exI conjI)
qed

end
